(* ===== verification/Prelude.thy ===== *)
theory Prelude
  imports Main "HOL-Library.Word"
begin

unbundle bit_operations_syntax

text \<open>
  What the components share: the machine types of the build (arm64 and x86-64 iOS targets:
  8-bit bytes, 64-bit \<open>size_t\<close> and pointers, little-endian), a byte-addressed memory, the
  result type of a C function that may run into undefined behaviour or not return, and the
  total-correctness predicate \<open>returns\<close> with its rules, which carry the proofs of the
  components.
\<close>

section \<open>Machine types\<close>

type_synonym byte = "8 word"
type_synonym u32 = "32 word"
type_synonym u64 = "64 word"
type_synonym addr = "64 word"
type_synonym mem = "addr \<Rightarrow> byte"

named_theorems run_simps \<open>equations of the run combinators\<close>
named_theorems returns_intros \<open>rules for total correctness\<close>

section \<open>Results of C functions\<close>

text \<open>
  \<open>Ret x\<close> is a normal return, \<open>UB\<close> is undefined behaviour of the C code (reading past the
  end of an object, calling a null function pointer, shifting by the width of the type),
  \<open>Fuel_Out\<close> says that the fuel of the model was not enough for the recursion. A theorem
  that a function returns excludes both.
\<close>

datatype 'a run = Ret 'a | UB | Fuel_Out

definition rbind :: "'a run \<Rightarrow> ('a \<Rightarrow> 'b run) \<Rightarrow> 'b run" where
  "rbind m f = (case m of Ret x \<Rightarrow> f x | UB \<Rightarrow> UB | Fuel_Out \<Rightarrow> Fuel_Out)"

text \<open>
  The C functions of this library return \<open>false\<close> on failure and leave what they did to the
  stream in place. \<open>try_do m f\<close> is \<open>if (!m) return false; f\<close>: the result of a step is
  \<open>Some x\<close> (returned true, with its output parameters) or \<open>None\<close> (returned false), next to
  the state it leaves.
\<close>

definition try_do ::
  "('a option \<times> 's) run \<Rightarrow> ('a \<Rightarrow> 's \<Rightarrow> ('b option \<times> 't) run) \<Rightarrow> ('s \<Rightarrow> 't) \<Rightarrow> ('b option \<times> 't) run" where
  "try_do m f g = (case m of Ret (Some x, s) \<Rightarrow> f x s | Ret (None, s) \<Rightarrow> Ret (None, g s)
     | UB \<Rightarrow> UB | Fuel_Out \<Rightarrow> Fuel_Out)"

abbreviation check_do ::
  "('a option \<times> 's) run \<Rightarrow> ('a \<Rightarrow> 's \<Rightarrow> ('b option \<times> 's) run) \<Rightarrow> ('b option \<times> 's) run" where
  "check_do m f \<equiv> try_do m f (\<lambda>s. s)"

definition ok :: "'a \<Rightarrow> 's \<Rightarrow> ('a option \<times> 's) run" where
  "ok x s = Ret (Some x, s)"

definition fail :: "'s \<Rightarrow> ('a option \<times> 's) run" where
  "fail s = Ret (None, s)"

lemma rbind_simps [simp, run_simps]:
  "rbind (Ret x) f = f x" "rbind UB f = UB" "rbind Fuel_Out f = Fuel_Out"
  by (simp_all add: rbind_def)

lemma try_do_simps [simp, run_simps]:
  "try_do (Ret (Some x, s)) f g = f x s"
  "try_do (Ret (None, s)) f g = Ret (None, g s)"
  "try_do UB f g = UB"
  "try_do Fuel_Out f g = Fuel_Out"
  "try_do (ok x s) f g = f x s"
  "try_do (fail s) f g = Ret (None, g s)"
  by (simp_all add: try_do_def ok_def fail_def)

lemma rbind_cong [fundef_cong]:
  "m = m' \<Longrightarrow> (\<And>x. m' = Ret x \<Longrightarrow> f x = f' x) \<Longrightarrow> rbind m f = rbind m' f'"
  by (cases m') (simp_all add: rbind_def)

lemma try_do_cong [fundef_cong]:
  "m = m' \<Longrightarrow> (\<And>x s. m' = Ret (Some x, s) \<Longrightarrow> f x s = f' x s) \<Longrightarrow> g = g'
    \<Longrightarrow> try_do m f g = try_do m' f' g'"
  by (auto simp: try_do_def split: run.splits option.splits)

lemma try_do_Ret_iff:
  "try_do m f g = Ret r \<longleftrightarrow>
     (\<exists>s. m = Ret (None, s) \<and> r = (None, g s)) \<or> (\<exists>x s. m = Ret (Some x, s) \<and> f x s = Ret r)"
  by (auto simp: try_do_def split: run.splits option.splits)

lemma rbind_Ret_iff: "rbind m f = Ret r \<longleftrightarrow> (\<exists>x. m = Ret x \<and> f x = Ret r)"
  by (cases m) simp_all

text \<open>Total correctness: the run returns, and its result satisfies \<open>Q\<close>.\<close>

definition returns :: "'a run \<Rightarrow> ('a \<Rightarrow> bool) \<Rightarrow> bool" where
  "returns m Q = (case m of Ret x \<Rightarrow> Q x | _ \<Rightarrow> False)"

lemma returns_iff: "returns m Q \<longleftrightarrow> (\<exists>x. m = Ret x \<and> Q x)"
  by (cases m) (simp_all add: returns_def)

lemma returns_Ret [simp]: "returns (Ret x) Q = Q x"
  by (simp add: returns_def)

lemma returns_UB [simp]: "\<not> returns UB Q" and returns_Fuel_Out [simp]: "\<not> returns Fuel_Out Q"
  by (simp_all add: returns_def)

lemma returns_ok [simp]: "returns (ok x s) Q = Q (Some x, s)"
  by (simp add: ok_def)

lemma returns_fail [simp]: "returns (fail s) Q = Q (None, s)"
  by (simp add: fail_def)

lemma returns_rbind [returns_intros]:
  "returns m P \<Longrightarrow> (\<And>x. P x \<Longrightarrow> returns (f x) Q) \<Longrightarrow> returns (rbind m f) Q"
  by (auto simp: returns_iff)

lemma returns_try_do [returns_intros]:
  assumes "returns m P"
    and "\<And>s. P (None, s) \<Longrightarrow> Q (None, g s)"
    and "\<And>x s. P (Some x, s) \<Longrightarrow> returns (f x s) Q"
  shows "returns (try_do m f g) Q"
proof -
  from assms(1) obtain r s where m: "m = Ret (r, s)" and P: "P (r, s)"
    by (auto simp: returns_iff)
  show ?thesis
    by (cases r) (use P assms(2,3) in \<open>simp_all add: m\<close>)
qed

lemma returns_mono [elim]:
  "returns m P \<Longrightarrow> (\<And>x. P x \<Longrightarrow> Q x) \<Longrightarrow> returns m Q"
  by (auto simp: returns_iff)

lemma returns_conj: "returns m P \<Longrightarrow> returns m Q \<Longrightarrow> returns m (\<lambda>x. P x \<and> Q x)"
  by (auto simp: returns_iff)

lemma returns_if [returns_intros]:
  "(b \<Longrightarrow> returns m Q) \<Longrightarrow> (\<not> b \<Longrightarrow> returns m' Q) \<Longrightarrow> returns (if b then m else m') Q"
  by simp

lemma returnsD: "returns m Q \<Longrightarrow> m = Ret x \<Longrightarrow> Q x"
  by simp

section \<open>Byte-addressed memory\<close>

text \<open>
  Addresses wrap at \<open>2 ^ 64\<close>. \<open>in_region p n a\<close> says that \<open>a\<close> is one of the \<open>n\<close> bytes
  from \<open>p\<close>.
\<close>

definition in_region :: "addr \<Rightarrow> nat \<Rightarrow> addr \<Rightarrow> bool" where
  "in_region p n a \<longleftrightarrow> unat (a - p) < n"

definition load :: "mem \<Rightarrow> addr \<Rightarrow> nat \<Rightarrow> byte list" where
  "load m p n = map (\<lambda>i. m (p + of_nat i)) [0..<n]"

definition store :: "mem \<Rightarrow> addr \<Rightarrow> byte list \<Rightarrow> mem" where
  "store m p bs = (\<lambda>a. if unat (a - p) < length bs then bs ! unat (a - p) else m a)"

definition zero_fill :: "mem \<Rightarrow> addr \<Rightarrow> nat \<Rightarrow> mem" where
  "zero_fill m p n = (\<lambda>a. if unat (a - p) < n then 0 else m a)"

text \<open>Little-endian integers.\<close>

definition le_bytes :: "nat \<Rightarrow> 'a::len word \<Rightarrow> byte list" where
  "le_bytes n w = map (\<lambda>i. ucast (drop_bit (8 * i) w)) [0..<n]"

fun le_word :: "byte list \<Rightarrow> 'a::len word" where
  "le_word [] = 0"
| "le_word (b # bs) = ucast b OR push_bit 8 (le_word bs)"

lemma length_load [simp]: "length (load m p n) = n"
  by (simp add: load_def)

lemma length_le_bytes [simp]: "length (le_bytes n w) = n"
  by (simp add: le_bytes_def)

lemma nth_load [simp]: "i < n \<Longrightarrow> load m p n ! i = m (p + of_nat i)"
  by (simp add: load_def)

lemma store_outside: "\<not> in_region p (length bs) a \<Longrightarrow> store m p bs a = m a"
  by (simp add: store_def in_region_def)

lemma zero_fill_outside: "\<not> in_region p n a \<Longrightarrow> zero_fill m p n a = m a"
  by (simp add: zero_fill_def in_region_def)

lemma store_Nil [simp]: "store m p [] = m"
  by (simp add: store_def)

lemma unat_of_nat_small: "i < 2 ^ LENGTH('a::len) \<Longrightarrow> unat (of_nat i :: 'a word) = i"
  by (simp add: unat_of_nat)

lemma unat_drop_div: "unat (drop_bit n w) = unat w div 2 ^ n"
  by (metis unat_drop_bit_eq drop_bit_eq_div)

lemma unat_less64: "unat (w :: u64) < 18446744073709551616"
  using unsigned_less [of w] by simp

lemma load_store_same:
  assumes "length bs < 2 ^ 64"
  shows "load (store m p bs) p (length bs) = bs"
proof (rule nth_equalityI)
  fix i
  assume "i < length (load (store m p bs) p (length bs))"
  then have i: "i < length bs" by simp
  with assms have "unat (of_nat i :: addr) = i"
    by (simp add: unat_of_nat_small)
  with i show "load (store m p bs) p (length bs) ! i = bs ! i"
    by (simp add: store_def)
qed simp

lemma load_cong: "(\<And>i. i < n \<Longrightarrow> m (p + of_nat i) = m' (p + of_nat i)) \<Longrightarrow> load m p n = load m' p n"
  by (simp add: load_def)

lemma bit_le_word:
  "bit (le_word bs :: 'a::len word) i \<longleftrightarrow>
     i < LENGTH('a) \<and> i div 8 < length bs \<and> bit (bs ! (i div 8)) (i mod 8)"
proof (induction bs arbitrary: i)
  case Nil
  then show ?case by simp
next
  case (Cons b bs)
  show ?case
  proof (cases "i < 8")
    case True
    then show ?thesis by (auto simp: bit_or_iff bit_ucast_iff bit_push_bit_iff)
  next
    case False
    then obtain j where j: "i = j + 8"
      using le_Suc_ex by (metis add.commute not_less)
    have "\<not> bit b i" using False by (simp add: j bit_imp_le_length) (auto dest: bit_imp_le_length)
    moreover have "(j + 8) div 8 = Suc (j div 8)" by simp
    ultimately show ?thesis
      using Cons.IH [of j] by (auto simp: j bit_or_iff bit_ucast_iff bit_push_bit_iff)
  qed
qed

lemma le_word_le_bytes:
  assumes "LENGTH('a::len) \<le> 8 * n"
  shows "le_word (le_bytes n w) = (w :: 'a word)"
proof (rule bit_word_eqI)
  fix i
  assume i: "i < LENGTH('a)"
  with assms have "i div 8 < n" by simp
  moreover have "8 * (i div 8) + i mod 8 = i" by simp
  ultimately show "bit (le_word (le_bytes n w) :: 'a word) i = bit w i"
    using i by (simp add: bit_le_word le_bytes_def bit_ucast_iff bit_drop_bit_eq del: mult_div_mod_eq)
qed

lemma le_bytes_le_word:
  assumes "length bs = n" "8 * n \<le> LENGTH('a::len)"
  shows "le_bytes n (le_word bs :: 'a word) = bs"
proof (rule nth_equalityI)
  fix i
  assume "i < length (le_bytes n (le_word bs :: 'a word))"
  then have i: "i < n" by simp
  show "le_bytes n (le_word bs :: 'a word) ! i = bs ! i"
  proof (rule bit_word_eqI)
    fix j :: nat
    assume "j < LENGTH(8)"
    then have j: "j < 8" by simp
    have "8 * i + j < LENGTH('a)" using i j assms(2) by linarith
    then show "bit (le_bytes n (le_word bs :: 'a word) ! i) j = bit (bs ! i) j"
      using i j assms(1)
      by (simp add: le_bytes_def bit_ucast_iff bit_drop_bit_eq bit_le_word)
  qed
qed (simp add: assms(1))

end
