(* ===== verification/Pb.thy ===== *)
theory Pb
  imports Prelude
begin

text \<open>
  \<open>Pods/nanopb/pb.h\<close>: the type codes of field descriptions, the descriptor struct
  \<open>pb_field_t\<close>, the macros that build descriptors, the wire types, and what the library
  takes from its user (callbacks and extension handlers), gathered in the record \<open>pb_env\<close>.
  The build sets \<open>PB_FIELD_32BIT\<close>, so \<open>pb_size_t\<close> is \<open>uint32_t\<close>; it sets neither
  \<open>PB_ENABLE_MALLOC\<close> nor \<open>PB_BUFFER_ONLY\<close> nor \<open>PB_NO_ERRMSG\<close>.
\<close>

section \<open>Field types\<close>

type_synonym pb_type_t = "8 word"
type_synonym pb_size_t = "32 word"

definition PB_LTYPE_VARINT :: pb_type_t where [simp]: "PB_LTYPE_VARINT = 0x00"
definition PB_LTYPE_UVARINT :: pb_type_t where [simp]: "PB_LTYPE_UVARINT = 0x01"
definition PB_LTYPE_SVARINT :: pb_type_t where [simp]: "PB_LTYPE_SVARINT = 0x02"
definition PB_LTYPE_FIXED32 :: pb_type_t where [simp]: "PB_LTYPE_FIXED32 = 0x03"
definition PB_LTYPE_FIXED64 :: pb_type_t where [simp]: "PB_LTYPE_FIXED64 = 0x04"
definition PB_LTYPE_LAST_PACKABLE :: pb_type_t where [simp]: "PB_LTYPE_LAST_PACKABLE = 0x04"
definition PB_LTYPE_BYTES :: pb_type_t where [simp]: "PB_LTYPE_BYTES = 0x05"
definition PB_LTYPE_STRING :: pb_type_t where [simp]: "PB_LTYPE_STRING = 0x06"
definition PB_LTYPE_SUBMESSAGE :: pb_type_t where [simp]: "PB_LTYPE_SUBMESSAGE = 0x07"
definition PB_LTYPE_EXTENSION :: pb_type_t where [simp]: "PB_LTYPE_EXTENSION = 0x08"
definition PB_LTYPE_FIXED_LENGTH_BYTES :: pb_type_t where [simp]: "PB_LTYPE_FIXED_LENGTH_BYTES = 0x09"
definition PB_LTYPES_COUNT :: pb_type_t where [simp]: "PB_LTYPES_COUNT = 0x0A"
definition PB_LTYPE_MASK :: pb_type_t where [simp]: "PB_LTYPE_MASK = 0x0F"

definition PB_HTYPE_REQUIRED :: pb_type_t where [simp]: "PB_HTYPE_REQUIRED = 0x00"
definition PB_HTYPE_OPTIONAL :: pb_type_t where [simp]: "PB_HTYPE_OPTIONAL = 0x10"
definition PB_HTYPE_REPEATED :: pb_type_t where [simp]: "PB_HTYPE_REPEATED = 0x20"
definition PB_HTYPE_ONEOF :: pb_type_t where [simp]: "PB_HTYPE_ONEOF = 0x30"
definition PB_HTYPE_MASK :: pb_type_t where [simp]: "PB_HTYPE_MASK = 0x30"

definition PB_ATYPE_STATIC :: pb_type_t where [simp]: "PB_ATYPE_STATIC = 0x00"
definition PB_ATYPE_POINTER :: pb_type_t where [simp]: "PB_ATYPE_POINTER = 0x80"
definition PB_ATYPE_CALLBACK :: pb_type_t where [simp]: "PB_ATYPE_CALLBACK = 0x40"
definition PB_ATYPE_MASK :: pb_type_t where [simp]: "PB_ATYPE_MASK = 0xC0"

definition PB_ATYPE :: "pb_type_t \<Rightarrow> pb_type_t" where "PB_ATYPE x = x AND PB_ATYPE_MASK"
definition PB_HTYPE :: "pb_type_t \<Rightarrow> pb_type_t" where "PB_HTYPE x = x AND PB_HTYPE_MASK"
definition PB_LTYPE :: "pb_type_t \<Rightarrow> pb_type_t" where "PB_LTYPE x = x AND PB_LTYPE_MASK"

definition PB_SIZE_MAX :: pb_size_t where "PB_SIZE_MAX = - 1"
definition PB_MAX_REQUIRED_FIELDS :: nat where [simp]: "PB_MAX_REQUIRED_FIELDS = 64"

section \<open>Field descriptors\<close>

record pb_field =
  f_tag :: pb_size_t
  f_type :: pb_type_t
  f_data_offset :: pb_size_t
  f_size_offset :: "32 word"
  f_data_size :: pb_size_t
  f_array_size :: pb_size_t
  f_ptr :: addr

definition PB_LAST_FIELD :: pb_field where
  "PB_LAST_FIELD = \<lparr>f_tag = 0, f_type = 0, f_data_offset = 0, f_size_offset = 0,
     f_data_size = 0, f_array_size = 0, f_ptr = 0\<rparr>"

text \<open>
  A descriptor array is the list of its entries before the \<open>PB_LAST_FIELD\<close> that ends it;
  \<open>field_at\<close> reads an entry, the terminator included.
\<close>

definition field_at :: "pb_field list \<Rightarrow> nat \<Rightarrow> pb_field" where
  "field_at fs i = (if i < length fs then fs ! i else PB_LAST_FIELD)"

text \<open>
  The descriptor macros. \<open>fd\<close> is the data offset, \<open>msize\<close> the value of
  \<open>pb_membersize\<close>, \<open>delta\<close> that of \<open>pb_delta\<close>, \<open>asize\<close> that of \<open>pb_arraysize\<close>, which
  the compiler takes from the layout of the message struct.
\<close>

definition PB_REQUIRED_STATIC :: "u32 \<Rightarrow> u32 \<Rightarrow> pb_type_t \<Rightarrow> u32 \<Rightarrow> addr \<Rightarrow> pb_field" where
  "PB_REQUIRED_STATIC tag fd ltype msize ptr =
     \<lparr>f_tag = tag, f_type = PB_ATYPE_STATIC OR PB_HTYPE_REQUIRED OR ltype, f_data_offset = fd,
      f_size_offset = 0, f_data_size = msize, f_array_size = 0, f_ptr = ptr\<rparr>"

definition PB_OPTIONAL_STATIC :: "u32 \<Rightarrow> u32 \<Rightarrow> pb_type_t \<Rightarrow> u32 \<Rightarrow> u32 \<Rightarrow> addr \<Rightarrow> pb_field" where
  "PB_OPTIONAL_STATIC tag fd ltype delta msize ptr =
     \<lparr>f_tag = tag, f_type = PB_ATYPE_STATIC OR PB_HTYPE_OPTIONAL OR ltype, f_data_offset = fd,
      f_size_offset = delta, f_data_size = msize, f_array_size = 0, f_ptr = ptr\<rparr>"

definition PB_SINGULAR_STATIC :: "u32 \<Rightarrow> u32 \<Rightarrow> pb_type_t \<Rightarrow> u32 \<Rightarrow> addr \<Rightarrow> pb_field" where
  "PB_SINGULAR_STATIC tag fd ltype msize ptr =
     \<lparr>f_tag = tag, f_type = PB_ATYPE_STATIC OR PB_HTYPE_OPTIONAL OR ltype, f_data_offset = fd,
      f_size_offset = 0, f_data_size = msize, f_array_size = 0, f_ptr = ptr\<rparr>"

definition PB_REPEATED_STATIC ::
  "u32 \<Rightarrow> u32 \<Rightarrow> pb_type_t \<Rightarrow> u32 \<Rightarrow> u32 \<Rightarrow> u32 \<Rightarrow> addr \<Rightarrow> pb_field" where
  "PB_REPEATED_STATIC tag fd ltype delta msize asize ptr =
     \<lparr>f_tag = tag, f_type = PB_ATYPE_STATIC OR PB_HTYPE_REPEATED OR ltype, f_data_offset = fd,
      f_size_offset = delta, f_data_size = msize, f_array_size = asize, f_ptr = ptr\<rparr>"

definition PB_REQUIRED_POINTER :: "u32 \<Rightarrow> u32 \<Rightarrow> pb_type_t \<Rightarrow> u32 \<Rightarrow> addr \<Rightarrow> pb_field" where
  "PB_REQUIRED_POINTER tag fd ltype msize ptr =
     \<lparr>f_tag = tag, f_type = PB_ATYPE_POINTER OR PB_HTYPE_REQUIRED OR ltype, f_data_offset = fd,
      f_size_offset = 0, f_data_size = msize, f_array_size = 0, f_ptr = ptr\<rparr>"

definition PB_OPTIONAL_POINTER :: "u32 \<Rightarrow> u32 \<Rightarrow> pb_type_t \<Rightarrow> u32 \<Rightarrow> addr \<Rightarrow> pb_field" where
  "PB_OPTIONAL_POINTER tag fd ltype msize ptr =
     \<lparr>f_tag = tag, f_type = PB_ATYPE_POINTER OR PB_HTYPE_OPTIONAL OR ltype, f_data_offset = fd,
      f_size_offset = 0, f_data_size = msize, f_array_size = 0, f_ptr = ptr\<rparr>"

definition PB_SINGULAR_POINTER :: "u32 \<Rightarrow> u32 \<Rightarrow> pb_type_t \<Rightarrow> u32 \<Rightarrow> addr \<Rightarrow> pb_field" where
  "PB_SINGULAR_POINTER tag fd ltype msize ptr =
     \<lparr>f_tag = tag, f_type = PB_ATYPE_POINTER OR PB_HTYPE_OPTIONAL OR ltype, f_data_offset = fd,
      f_size_offset = 0, f_data_size = msize, f_array_size = 0, f_ptr = ptr\<rparr>"

definition PB_REPEATED_POINTER :: "u32 \<Rightarrow> u32 \<Rightarrow> pb_type_t \<Rightarrow> u32 \<Rightarrow> u32 \<Rightarrow> addr \<Rightarrow> pb_field" where
  "PB_REPEATED_POINTER tag fd ltype delta msize ptr =
     \<lparr>f_tag = tag, f_type = PB_ATYPE_POINTER OR PB_HTYPE_REPEATED OR ltype, f_data_offset = fd,
      f_size_offset = delta, f_data_size = msize, f_array_size = 0, f_ptr = ptr\<rparr>"

definition PB_REQUIRED_CALLBACK :: "u32 \<Rightarrow> u32 \<Rightarrow> pb_type_t \<Rightarrow> u32 \<Rightarrow> addr \<Rightarrow> pb_field" where
  "PB_REQUIRED_CALLBACK tag fd ltype msize ptr =
     \<lparr>f_tag = tag, f_type = PB_ATYPE_CALLBACK OR PB_HTYPE_REQUIRED OR ltype, f_data_offset = fd,
      f_size_offset = 0, f_data_size = msize, f_array_size = 0, f_ptr = ptr\<rparr>"

definition PB_OPTIONAL_CALLBACK :: "u32 \<Rightarrow> u32 \<Rightarrow> pb_type_t \<Rightarrow> u32 \<Rightarrow> addr \<Rightarrow> pb_field" where
  "PB_OPTIONAL_CALLBACK tag fd ltype msize ptr =
     \<lparr>f_tag = tag, f_type = PB_ATYPE_CALLBACK OR PB_HTYPE_OPTIONAL OR ltype, f_data_offset = fd,
      f_size_offset = 0, f_data_size = msize, f_array_size = 0, f_ptr = ptr\<rparr>"

definition PB_SINGULAR_CALLBACK :: "u32 \<Rightarrow> u32 \<Rightarrow> pb_type_t \<Rightarrow> u32 \<Rightarrow> addr \<Rightarrow> pb_field" where
  "PB_SINGULAR_CALLBACK tag fd ltype msize ptr =
     \<lparr>f_tag = tag, f_type = PB_ATYPE_CALLBACK OR PB_HTYPE_OPTIONAL OR ltype, f_data_offset = fd,
      f_size_offset = 0, f_data_size = msize, f_array_size = 0, f_ptr = ptr\<rparr>"

definition PB_REPEATED_CALLBACK :: "u32 \<Rightarrow> u32 \<Rightarrow> pb_type_t \<Rightarrow> u32 \<Rightarrow> addr \<Rightarrow> pb_field" where
  "PB_REPEATED_CALLBACK tag fd ltype msize ptr =
     \<lparr>f_tag = tag, f_type = PB_ATYPE_CALLBACK OR PB_HTYPE_REPEATED OR ltype, f_data_offset = fd,
      f_size_offset = 0, f_data_size = msize, f_array_size = 0, f_ptr = ptr\<rparr>"

definition PB_OPTEXT_STATIC :: "u32 \<Rightarrow> pb_type_t \<Rightarrow> u32 \<Rightarrow> addr \<Rightarrow> pb_field" where
  "PB_OPTEXT_STATIC tag ltype msize ptr =
     \<lparr>f_tag = tag, f_type = PB_ATYPE_STATIC OR PB_HTYPE_REQUIRED OR ltype, f_data_offset = 0,
      f_size_offset = 0, f_data_size = msize, f_array_size = 0, f_ptr = ptr\<rparr>"

definition PB_ONEOF_STATIC :: "u32 \<Rightarrow> u32 \<Rightarrow> pb_type_t \<Rightarrow> u32 \<Rightarrow> u32 \<Rightarrow> addr \<Rightarrow> pb_field" where
  "PB_ONEOF_STATIC tag fd ltype delta msize ptr =
     \<lparr>f_tag = tag, f_type = PB_ATYPE_STATIC OR PB_HTYPE_ONEOF OR ltype, f_data_offset = fd,
      f_size_offset = delta, f_data_size = msize, f_array_size = 0, f_ptr = ptr\<rparr>"

definition PB_ONEOF_POINTER :: "u32 \<Rightarrow> u32 \<Rightarrow> pb_type_t \<Rightarrow> u32 \<Rightarrow> u32 \<Rightarrow> addr \<Rightarrow> pb_field" where
  "PB_ONEOF_POINTER tag fd ltype delta msize ptr =
     \<lparr>f_tag = tag, f_type = PB_ATYPE_POINTER OR PB_HTYPE_ONEOF OR ltype, f_data_offset = fd,
      f_size_offset = delta, f_data_size = msize, f_array_size = 0, f_ptr = ptr\<rparr>"

definition PB_OPTEXT_POINTER :: "u32 \<Rightarrow> u32 \<Rightarrow> pb_type_t \<Rightarrow> u32 \<Rightarrow> addr \<Rightarrow> pb_field" where
  "PB_OPTEXT_POINTER tag fd ltype msize ptr = PB_OPTIONAL_POINTER tag fd ltype msize ptr"

definition PB_OPTEXT_CALLBACK :: "u32 \<Rightarrow> u32 \<Rightarrow> pb_type_t \<Rightarrow> u32 \<Rightarrow> addr \<Rightarrow> pb_field" where
  "PB_OPTEXT_CALLBACK tag fd ltype msize ptr = PB_OPTIONAL_CALLBACK tag fd ltype msize ptr"

definition PB_ANONYMOUS_ONEOF_STATIC :: "u32 \<Rightarrow> u32 \<Rightarrow> pb_type_t \<Rightarrow> u32 \<Rightarrow> u32 \<Rightarrow> addr \<Rightarrow> pb_field" where
  "PB_ANONYMOUS_ONEOF_STATIC tag fd ltype delta msize ptr =
     \<lparr>f_tag = tag, f_type = PB_ATYPE_STATIC OR PB_HTYPE_ONEOF OR ltype, f_data_offset = fd,
      f_size_offset = delta, f_data_size = msize, f_array_size = 0, f_ptr = ptr\<rparr>"

definition PB_ANONYMOUS_ONEOF_POINTER :: "u32 \<Rightarrow> u32 \<Rightarrow> pb_type_t \<Rightarrow> u32 \<Rightarrow> u32 \<Rightarrow> addr \<Rightarrow> pb_field" where
  "PB_ANONYMOUS_ONEOF_POINTER tag fd ltype delta msize ptr =
     \<lparr>f_tag = tag, f_type = PB_ATYPE_POINTER OR PB_HTYPE_ONEOF OR ltype, f_data_offset = fd,
      f_size_offset = delta, f_data_size = msize, f_array_size = 0, f_ptr = ptr\<rparr>"

text \<open>
  The data offsets: \<open>off1\<close> is \<open>offsetof\<close> the member, \<open>off2\<close> and \<open>size2\<close> the offset and size
  of the previous one. The members of a union after the first get \<open>PB_SIZE_MAX\<close>.
\<close>

definition PB_DATAOFFSET_FIRST :: "u32 \<Rightarrow> u32" where
  "PB_DATAOFFSET_FIRST off1 = off1"

definition PB_DATAOFFSET_OTHER :: "u32 \<Rightarrow> u32 \<Rightarrow> u32 \<Rightarrow> u32" where
  "PB_DATAOFFSET_OTHER off1 off2 size2 = off1 - off2 - size2"

definition PB_DATAOFFSET_UNION :: "u32" where
  "PB_DATAOFFSET_UNION = PB_SIZE_MAX"

definition PB_DATAOFFSET_CHOOSE :: "u32 \<Rightarrow> u32 \<Rightarrow> u32 \<Rightarrow> u32" where
  "PB_DATAOFFSET_CHOOSE off1 off2 size2 =
     (if off1 = off2 then PB_DATAOFFSET_FIRST off1 else PB_DATAOFFSET_OTHER off1 off2 size2)"

text \<open>The types of a \<open>.proto\<close> file and \<open>PB_LTYPE_MAP\<close>.\<close>

datatype proto_type = T_BOOL | T_BYTES | T_DOUBLE | T_ENUM | T_UENUM | T_FIXED32 | T_FIXED64 | T_FLOAT
  | T_INT32 | T_INT64 | T_MESSAGE | T_SFIXED32 | T_SFIXED64 | T_SINT32 | T_SINT64 | T_STRING
  | T_UINT32 | T_UINT64 | T_EXTENSION | T_FIXED_LENGTH_BYTES

fun PB_LTYPE_MAP :: "proto_type \<Rightarrow> pb_type_t" where
  "PB_LTYPE_MAP T_BOOL = PB_LTYPE_VARINT"
| "PB_LTYPE_MAP T_BYTES = PB_LTYPE_BYTES"
| "PB_LTYPE_MAP T_DOUBLE = PB_LTYPE_FIXED64"
| "PB_LTYPE_MAP T_ENUM = PB_LTYPE_VARINT"
| "PB_LTYPE_MAP T_UENUM = PB_LTYPE_UVARINT"
| "PB_LTYPE_MAP T_FIXED32 = PB_LTYPE_FIXED32"
| "PB_LTYPE_MAP T_FIXED64 = PB_LTYPE_FIXED64"
| "PB_LTYPE_MAP T_FLOAT = PB_LTYPE_FIXED32"
| "PB_LTYPE_MAP T_INT32 = PB_LTYPE_VARINT"
| "PB_LTYPE_MAP T_INT64 = PB_LTYPE_VARINT"
| "PB_LTYPE_MAP T_MESSAGE = PB_LTYPE_SUBMESSAGE"
| "PB_LTYPE_MAP T_SFIXED32 = PB_LTYPE_FIXED32"
| "PB_LTYPE_MAP T_SFIXED64 = PB_LTYPE_FIXED64"
| "PB_LTYPE_MAP T_SINT32 = PB_LTYPE_SVARINT"
| "PB_LTYPE_MAP T_SINT64 = PB_LTYPE_SVARINT"
| "PB_LTYPE_MAP T_STRING = PB_LTYPE_STRING"
| "PB_LTYPE_MAP T_UINT32 = PB_LTYPE_UVARINT"
| "PB_LTYPE_MAP T_UINT64 = PB_LTYPE_UVARINT"
| "PB_LTYPE_MAP T_EXTENSION = PB_LTYPE_EXTENSION"
| "PB_LTYPE_MAP T_FIXED_LENGTH_BYTES = PB_LTYPE_FIXED_LENGTH_BYTES"

text \<open>\<open>PB_BYTES_ARRAY_T_ALLOCSIZE\<close>: the bytes follow a 4-byte \<open>pb_size_t\<close>.\<close>

definition PB_BYTES_ARRAY_T_ALLOCSIZE :: "u32 \<Rightarrow> u64" where
  "PB_BYTES_ARRAY_T_ALLOCSIZE n = ucast n + 4"

section \<open>Wire types\<close>

text \<open>\<open>pb_decode_tag\<close> casts any three bits to the enum, so the type is the integer.\<close>

type_synonym pb_wire_type_t = "32 word"

definition PB_WT_VARINT :: pb_wire_type_t where [simp]: "PB_WT_VARINT = 0"
definition PB_WT_64BIT :: pb_wire_type_t where [simp]: "PB_WT_64BIT = 1"
definition PB_WT_STRING :: pb_wire_type_t where [simp]: "PB_WT_STRING = 2"
definition PB_WT_32BIT :: pb_wire_type_t where [simp]: "PB_WT_32BIT = 5"

section \<open>Streams\<close>

text \<open>
  \<open>pb_istream_t\<close>. For a memory stream the state pointer is what it points to: the bytes from
  the pointer to the end of the buffer object. For a stream of the user it is whatever the
  callback keeps there.
\<close>

datatype istream_callback = Buf_Read | User_Read nat

record pb_istream =
  is_callback :: istream_callback
  is_state :: "byte list"
  bytes_left :: u64
  is_errmsg :: "string option"

text \<open>
  \<open>pb_ostream_t\<close>. The state pointer of a memory stream is the buffer object it points into
  (\<open>os_buf\<close>) and the offset of the pointer in it (\<open>os_pos\<close>).
\<close>

datatype ostream_callback = Null_Write | Buf_Write | User_Write nat

record pb_ostream =
  os_callback :: ostream_callback
  os_buf :: "byte list"
  os_pos :: nat
  max_size :: u64
  bytes_written :: u64
  os_errmsg :: "string option"

definition PB_OSTREAM_SIZING :: pb_ostream where
  "PB_OSTREAM_SIZING = \<lparr>os_callback = Null_Write, os_buf = [], os_pos = 0, max_size = 0,
     bytes_written = 0, os_errmsg = None\<rparr>"

text \<open>\<open>PB_SET_ERROR\<close> keeps the first message; \<open>PB_RETURN_ERROR\<close> sets it and returns false.\<close>

definition is_set_error :: "pb_istream \<Rightarrow> string \<Rightarrow> pb_istream" where
  "is_set_error s msg = s\<lparr>is_errmsg := (case is_errmsg s of Some e \<Rightarrow> Some e | None \<Rightarrow> Some msg)\<rparr>"

definition os_set_error :: "pb_ostream \<Rightarrow> string \<Rightarrow> pb_ostream" where
  "os_set_error s msg = s\<lparr>os_errmsg := (case os_errmsg s of Some e \<Rightarrow> Some e | None \<Rightarrow> Some msg)\<rparr>"

definition is_return_error :: "pb_istream \<Rightarrow> string \<Rightarrow> ('a option \<times> pb_istream) run" where
  "is_return_error s msg = fail (is_set_error s msg)"

definition os_return_error :: "pb_ostream \<Rightarrow> string \<Rightarrow> ('a option \<times> pb_ostream) run" where
  "os_return_error s msg = fail (os_set_error s msg)"

lemma is_set_error_sel [simp]:
  "is_callback (is_set_error s e) = is_callback s" "is_state (is_set_error s e) = is_state s"
  "bytes_left (is_set_error s e) = bytes_left s"
  by (simp_all add: is_set_error_def)

lemma os_set_error_sel [simp]:
  "os_callback (os_set_error s e) = os_callback s" "os_buf (os_set_error s e) = os_buf s"
  "os_pos (os_set_error s e) = os_pos s" "max_size (os_set_error s e) = max_size s"
  "bytes_written (os_set_error s e) = bytes_written s"
  by (simp_all add: os_set_error_def)

section \<open>What the user provides\<close>

text \<open>
  \<open>pb_extension_type_t\<close>: optional handlers, and the descriptor the default handlers use.
\<close>

record pb_extension_type =
  ext_decode :: "nat option"
  ext_encode :: "nat option"
  ext_arg :: pb_field

text \<open>
  The environment of the library: the constant descriptor arrays and extension types by their
  address, and the functions of the user by the value of the pointer. A read callback gets its
  state and the count and says whether it succeeded, what it put in the buffer and its new
  state; \<open>pb_decode.h\<close> asks it not to touch the rest of the stream.
\<close>

record pb_env =
  env_tables :: "addr \<Rightarrow> pb_field list"
  env_ext_types :: "addr \<Rightarrow> pb_extension_type"
  env_read :: "nat \<Rightarrow> byte list \<Rightarrow> u64 \<Rightarrow> bool \<times> (nat \<Rightarrow> byte) \<times> byte list"
  env_write :: "nat \<Rightarrow> byte list \<Rightarrow> nat \<Rightarrow> byte list \<Rightarrow> bool \<times> byte list \<times> nat"
  env_decode_cb :: "addr \<Rightarrow> pb_istream \<Rightarrow> pb_field \<Rightarrow> addr \<Rightarrow> mem \<Rightarrow> bool \<times> pb_istream \<times> mem"
  env_encode_cb :: "addr \<Rightarrow> pb_ostream \<Rightarrow> pb_field \<Rightarrow> addr \<Rightarrow> mem \<Rightarrow> bool \<times> pb_ostream"
  env_ext_decode :: "nat \<Rightarrow> pb_istream \<Rightarrow> addr \<Rightarrow> u32 \<Rightarrow> pb_wire_type_t \<Rightarrow> mem \<Rightarrow> bool \<times> pb_istream \<times> mem"
  env_ext_encode :: "nat \<Rightarrow> pb_ostream \<Rightarrow> addr \<Rightarrow> mem \<Rightarrow> bool \<times> pb_ostream"

section \<open>Typed memory access\<close>

text \<open>\<open>struct pb_extension_s\<close>: type at 0, dest at 8, next at 16, found at 24 (LP64).\<close>

definition load_u32 :: "mem \<Rightarrow> addr \<Rightarrow> u32" where "load_u32 m p = le_word (load m p 4)"
definition load_ptr :: "mem \<Rightarrow> addr \<Rightarrow> addr" where "load_ptr m p = le_word (load m p 8)"
definition load_bool :: "mem \<Rightarrow> addr \<Rightarrow> bool" where "load_bool m p \<longleftrightarrow> m p \<noteq> 0"
definition store_u32 :: "mem \<Rightarrow> addr \<Rightarrow> u32 \<Rightarrow> mem" where "store_u32 m p w = store m p (le_bytes 4 w)"
definition store_ptr :: "mem \<Rightarrow> addr \<Rightarrow> addr \<Rightarrow> mem" where "store_ptr m p w = store m p (le_bytes 8 w)"
definition store_bool :: "mem \<Rightarrow> addr \<Rightarrow> bool \<Rightarrow> mem" where
  "store_bool m p b = store m p [if b then 1 else 0]"

definition ext_type_ptr :: "mem \<Rightarrow> addr \<Rightarrow> addr" where "ext_type_ptr m e = load_ptr m e"
definition ext_dest :: "mem \<Rightarrow> addr \<Rightarrow> addr" where "ext_dest m e = load_ptr m (e + 8)"
definition ext_next :: "mem \<Rightarrow> addr \<Rightarrow> addr" where "ext_next m e = load_ptr m (e + 16)"
definition ext_found_addr :: "addr \<Rightarrow> addr" where "ext_found_addr e = e + 24"

text \<open>\<open>struct pb_callback_s\<close>: the function pointer at 0, the free argument at 8.\<close>

definition cb_funcs :: "mem \<Rightarrow> addr \<Rightarrow> addr" where "cb_funcs m p = load_ptr m p"
definition cb_arg_addr :: "addr \<Rightarrow> addr" where "cb_arg_addr p = p + 8"

lemma load_store_u32 [simp]: "load_u32 (store_u32 m p w) p = w"
proof -
  have "load (store m p (le_bytes 4 w)) p 4 = le_bytes 4 w"
    using load_store_same [of "le_bytes 4 w" m p] by simp
  then show ?thesis by (simp add: load_u32_def store_u32_def le_word_le_bytes)
qed

lemma load_store_bool [simp]: "load_bool (store_bool m p b) p = b"
  by (simp add: load_bool_def store_bool_def store_def)

end
