(* ===== verification/Pb_Common.thy ===== *)
theory Pb_Common
  imports Pb
begin

text \<open>
  \<open>Pods/nanopb/pb_common.c\<close>: the field iterator, which walks a descriptor array and keeps the
  address of the current field of the message struct. The lemmas say that the iterator is a
  function of its position (\<open>iter_at\<close>), that \<open>pb_field_iter_next\<close> runs through the positions
  in order and wraps, and what \<open>pb_field_iter_find\<close> finds.
\<close>

section \<open>The iterator\<close>

record pb_field_iter =
  it_start :: "pb_field list"
  it_pos :: nat
  required_field_index :: u32
  dest_struct :: addr
  pData :: addr
  pSize :: addr

definition cur_field :: "pb_field_iter \<Rightarrow> pb_field" where
  "cur_field it = field_at (it_start it) (it_pos it)"

definition pb_field_iter_begin :: "pb_field list \<Rightarrow> addr \<Rightarrow> bool \<times> pb_field_iter" where
  "pb_field_iter_begin flds dest =
     (let f = field_at flds 0;
          data = dest + ucast (f_data_offset f)
      in (f_tag f \<noteq> 0,
          \<lparr>it_start = flds, it_pos = 0, required_field_index = 0, dest_struct = dest,
           pData = data, pSize = data + scast (f_size_offset f)\<rparr>))"

definition pb_field_iter_next :: "pb_field_iter \<Rightarrow> bool \<times> pb_field_iter" where
  "pb_field_iter_next it =
     (let prev_field = cur_field it in
      if f_tag prev_field = 0 then (False, it)
      else
        let pos' = it_pos it + 1;
            f = field_at (it_start it) pos'
        in if f_tag f = 0
           then (False, snd (pb_field_iter_begin (it_start it) (dest_struct it)))
           else if PB_HTYPE (f_type prev_field) = PB_HTYPE_ONEOF \<and>
                   PB_HTYPE (f_type f) = PB_HTYPE_ONEOF \<and> f_data_offset f = PB_SIZE_MAX
           then (True, it\<lparr>it_pos := pos'\<rparr>)
           else
             let prev_size =
                   (if PB_ATYPE (f_type prev_field) = PB_ATYPE_STATIC \<and>
                       PB_HTYPE (f_type prev_field) = PB_HTYPE_REPEATED
                    then ucast (f_data_size prev_field) * ucast (f_array_size prev_field)
                    else if PB_ATYPE (f_type prev_field) = PB_ATYPE_POINTER then 8
                    else ucast (f_data_size prev_field)) :: u64;
                 req = (if PB_HTYPE (f_type prev_field) = PB_HTYPE_REQUIRED
                        then required_field_index it + 1 else required_field_index it);
                 data = pData it + prev_size + ucast (f_data_offset f)
             in (True, it\<lparr>it_pos := pos', required_field_index := req, pData := data,
                          pSize := data + scast (f_size_offset f)\<rparr>))"

text \<open>
  The search loop ends when the position is back where it began; every pass moves the position
  by one, so a table of \<open>n\<close> fields needs at most \<open>n + 1\<close> passes (\<open>iter_search_finds\<close>,
  \<open>iter_search_misses\<close>). The loop of \<open>find_extension_field\<close> in \<open>pb_decode.c\<close> has the same shape with another
  test, so the test is an argument.
\<close>

fun iter_search :: "nat \<Rightarrow> (pb_field \<Rightarrow> bool) \<Rightarrow> nat \<Rightarrow> pb_field_iter \<Rightarrow> (bool \<times> pb_field_iter) run" where
  "iter_search 0 P start it = Fuel_Out"
| "iter_search (Suc k) P start it =
     (if P (cur_field it) then Ret (True, it)
      else let it' = snd (pb_field_iter_next it)
           in if it_pos it' \<noteq> start then iter_search k P start it' else Ret (False, it'))"

definition pb_field_iter_find :: "pb_field_iter \<Rightarrow> u32 \<Rightarrow> (bool \<times> pb_field_iter) run" where
  "pb_field_iter_find it tag =
     iter_search (Suc (length (it_start it)))
       (\<lambda>f. f_tag f = tag \<and> PB_LTYPE (f_type f) \<noteq> PB_LTYPE_EXTENSION) (it_pos it) it"

section \<open>The iterator as a function of its position\<close>

definition tags_ok :: "pb_field list \<Rightarrow> bool" where
  "tags_ok fs \<longleftrightarrow> list_all (\<lambda>f. f_tag f \<noteq> 0) fs"

fun iter_at :: "pb_field list \<Rightarrow> addr \<Rightarrow> nat \<Rightarrow> pb_field_iter" where
  "iter_at fs d 0 = snd (pb_field_iter_begin fs d)"
| "iter_at fs d (Suc i) = snd (pb_field_iter_next (iter_at fs d i))"

lemma field_at_tag: "tags_ok fs \<Longrightarrow> f_tag (field_at fs i) = 0 \<longleftrightarrow> length fs \<le> i"
  by (auto simp: tags_ok_def field_at_def PB_LAST_FIELD_def list_all_length)

lemma field_at_nth [simp]: "i < length fs \<Longrightarrow> field_at fs i = fs ! i"
  by (simp add: field_at_def)

lemma iter_begin_sel [simp]:
  "it_start (snd (pb_field_iter_begin fs d)) = fs" "it_pos (snd (pb_field_iter_begin fs d)) = 0"
  "dest_struct (snd (pb_field_iter_begin fs d)) = d"
  "required_field_index (snd (pb_field_iter_begin fs d)) = 0"
  by (simp_all add: pb_field_iter_begin_def Let_def)

lemma iter_begin_fst: "tags_ok fs \<Longrightarrow> fst (pb_field_iter_begin fs d) \<longleftrightarrow> fs \<noteq> []"
  using field_at_tag [of fs 0] by (simp add: pb_field_iter_begin_def Let_def)

lemma iter_next_sel [simp]:
  "it_start (snd (pb_field_iter_next it)) = it_start it"
  "dest_struct (snd (pb_field_iter_next it)) = dest_struct it"
  by (simp_all add: pb_field_iter_next_def Let_def)

lemma iter_at_sel [simp]: "it_start (iter_at fs d i) = fs" "dest_struct (iter_at fs d i) = d"
  by (induction i) auto

lemma iter_next_end:
  assumes "tags_ok fs" "Suc i = length fs" "it_pos (iter_at fs d i) = i"
  shows "pb_field_iter_next (iter_at fs d i) = (False, iter_at fs d 0)"
  using assms field_at_tag [of fs i] field_at_tag [of fs "Suc i"]
  by (simp add: pb_field_iter_next_def cur_field_def Let_def)

lemma iter_next_step:
  assumes "tags_ok fs" "Suc i < length fs" "it_pos (iter_at fs d i) = i"
  shows "fst (pb_field_iter_next (iter_at fs d i)) \<and> it_pos (snd (pb_field_iter_next (iter_at fs d i))) = Suc i"
proof -
  have "f_tag (field_at fs i) \<noteq> 0" "f_tag (field_at fs (Suc i)) \<noteq> 0"
    using assms field_at_tag [of fs i] field_at_tag [of fs "Suc i"] by auto
  then show ?thesis
    using assms(3) by (simp add: pb_field_iter_next_def cur_field_def Let_def)
qed

lemma iter_at_pos: "tags_ok fs \<Longrightarrow> i < length fs \<Longrightarrow> it_pos (iter_at fs d i) = i"
proof (induction i)
  case 0
  then show ?case by simp
next
  case (Suc i)
  then show ?case using iter_next_step [of fs i d] by simp
qed

lemma iter_at_cur: "tags_ok fs \<Longrightarrow> i < length fs \<Longrightarrow> cur_field (iter_at fs d i) = fs ! i"
  by (simp add: cur_field_def iter_at_pos)

lemma iter_next_at:
  assumes "tags_ok fs" "i < length fs"
  shows "pb_field_iter_next (iter_at fs d i) =
    (if Suc i < length fs then (True, iter_at fs d (Suc i)) else (False, iter_at fs d 0))"
proof (cases "Suc i < length fs")
  case True
  then have "fst (pb_field_iter_next (iter_at fs d i))"
    using iter_next_step [OF assms(1) True] iter_at_pos [OF assms] by simp
  with True show ?thesis by (simp add: prod_eq_iff)
next
  case False
  with assms(2) have "Suc i = length fs" by simp
  with iter_next_end [OF assms(1) this] iter_at_pos [OF assms] show ?thesis by simp
qed

declare iter_at.simps [simp del]

lemma iter_at_0 [simp]: "it_pos (iter_at fs d 0) = 0" "required_field_index (iter_at fs d 0) = 0"
  by (simp_all add: iter_at.simps)

lemma iter_begin_at: "pb_field_iter_begin fs d = (f_tag (field_at fs 0) \<noteq> 0, iter_at fs d 0)"
  by (simp add: iter_at.simps prod_eq_iff) (simp add: pb_field_iter_begin_def Let_def)

lemma iter_begin_snd: "snd (pb_field_iter_begin fs d) = iter_at fs d 0"
  by (simp add: iter_begin_at)

section \<open>The search\<close>

text \<open>The positions a search visits from \<open>i\<close>, in order: \<open>i, i+1, \<dots>, n-1, 0, \<dots>, start-1\<close>.\<close>

definition visit :: "nat \<Rightarrow> nat \<Rightarrow> nat \<Rightarrow> nat list" where
  "visit n start i = (if start < i then [i..<n] @ [0..<start]
     else if i < start then [i..<start] else [i..<n] @ [0..<i])"

lemma visit_start [simp]: "i < n \<Longrightarrow> set (visit n i i) = {..<n}"
  by (auto simp: visit_def)

lemma iter_search_visits:
  assumes "tags_ok fs" "i < length fs" "start < length fs" "i \<noteq> start"
    and "length (visit (length fs) start i) \<le> k"
  shows "iter_search k P start (iter_at fs d i) =
    (case List.find (\<lambda>j. P (fs ! j)) (visit (length fs) start i) of
       Some j \<Rightarrow> Ret (True, iter_at fs d j) | None \<Rightarrow> Ret (False, iter_at fs d start))"
  using assms(2,4,5)
proof (induction k arbitrary: i)
  case 0
  then show ?case using assms(3) by (auto simp: visit_def split: if_splits)
next
  case (Suc k)
  define i' where "i' = (if Suc i < length fs then Suc i else 0)"
  have step: "snd (pb_field_iter_next (iter_at fs d i)) = iter_at fs d i'"
    using iter_next_at [OF assms(1) Suc.prems(1), of d] by (auto simp: i'_def)
  have i': "i' < length fs" using Suc.prems(1) by (auto simp: i'_def)
  have visit_eq: "visit (length fs) start i = i # (if i' = start then [] else visit (length fs) start i')"
    using Suc.prems(1,2) assms(3)
    by (auto simp: visit_def i'_def upt_conv_Cons not_less le_less_Suc_eq)
  show ?case
  proof (cases "P (fs ! i)")
    case True
    then show ?thesis
      using Suc.prems(1) by (simp add: iter_at_cur [OF assms(1)] visit_eq)
  next
    case noP: False
    show ?thesis
    proof (cases "i' = start")
      case True
      then show ?thesis
        using noP Suc.prems(1) iter_at_pos [OF assms(1) i', of d]
        by (simp add: iter_at_cur [OF assms(1)] step visit_eq)
    next
      case False
      then have "length (visit (length fs) start i') \<le> k"
        using Suc.prems(3) visit_eq by simp
      with Suc.IH [OF i' False] show ?thesis
        using noP False Suc.prems(1) iter_at_pos [OF assms(1) i', of d]
        by (simp add: iter_at_cur [OF assms(1)] step visit_eq)
    qed
  qed
qed

lemma iter_search_from:
  assumes "tags_ok fs" "i < length fs" "length fs < k"
  shows "iter_search k P i (iter_at fs d i) =
    (case List.find (\<lambda>j. P (fs ! j)) (visit (length fs) i i) of
       Some j \<Rightarrow> Ret (True, iter_at fs d j) | None \<Rightarrow> Ret (False, iter_at fs d i))"
proof -
  obtain k' where k: "k = Suc k'" using assms(3) by (cases k) auto
  define i' where "i' = (if Suc i < length fs then Suc i else 0)"
  have i': "i' < length fs" using assms(2) by (auto simp: i'_def)
  have step: "snd (pb_field_iter_next (iter_at fs d i)) = iter_at fs d i'"
    using iter_next_at [OF assms(1,2), of d] by (auto simp: i'_def)
  have visit_eq: "visit (length fs) i i = i # (if i' = i then [] else visit (length fs) i i')"
    using assms(2) by (auto simp: visit_def i'_def upt_conv_Cons)
  show ?thesis
  proof (cases "i' = i")
    case True
    then show ?thesis
      using assms(2) iter_at_pos [OF assms(1) i', of d]
      by (simp add: k iter_at_cur [OF assms(1)] step visit_eq)
  next
    case False
    have "length (visit (length fs) i i') \<le> k'"
      using assms(2,3) False k by (auto simp: visit_def i'_def split: if_splits)
    from iter_search_visits [OF assms(1) i' assms(2) False this]
    show ?thesis
      using False assms(2) iter_at_pos [OF assms(1) i', of d]
      by (simp add: k iter_at_cur [OF assms(1)] step visit_eq)
  qed
qed

lemma find_set_iff: "(List.find P xs = None) = (\<forall>x\<in>set xs. \<not> P x)"
  by (auto simp: find_None_iff)

lemma iter_search_finds:
  assumes "tags_ok fs" "i < length fs" "length fs < k" "\<exists>j<length fs. P (fs ! j)"
  shows "\<exists>j<length fs. P (fs ! j) \<and> iter_search k P i (iter_at fs d i) = Ret (True, iter_at fs d j)"
proof -
  obtain j where j: "List.find (\<lambda>j. P (fs ! j)) (visit (length fs) i i) = Some j"
    using assms(2,4) by (cases "List.find (\<lambda>j. P (fs ! j)) (visit (length fs) i i)")
      (auto simp: find_set_iff)
  then have "j \<in> set (visit (length fs) i i)" "P (fs ! j)"
    by (auto simp: find_Some_iff)
  with j show ?thesis
    using assms(2) by (auto simp: iter_search_from [OF assms(1-3)])
qed

lemma iter_search_misses:
  assumes "tags_ok fs" "i < length fs" "length fs < k" "\<forall>j<length fs. \<not> P (fs ! j)"
  shows "iter_search k P i (iter_at fs d i) = Ret (False, iter_at fs d i)"
proof -
  have "List.find (\<lambda>j. P (fs ! j)) (visit (length fs) i i) = None"
    using assms(2,4) by (auto simp: find_set_iff)
  then show ?thesis by (simp add: iter_search_from [OF assms(1-3)])
qed

lemma iter_search_returns:
  assumes "tags_ok fs" "i < length fs" "length fs < k"
  shows "\<exists>b j. j < length fs \<and> (b \<longrightarrow> P (fs ! j)) \<and> (\<not> b \<longrightarrow> j = i \<and> (\<forall>l<length fs. \<not> P (fs ! l))) \<and>
    iter_search k P i (iter_at fs d i) = Ret (b, iter_at fs d j)"
proof (cases "\<exists>j<length fs. P (fs ! j)")
  case True
  then obtain j where "j < length fs" "P (fs ! j)"
    "iter_search k P i (iter_at fs d i) = Ret (True, iter_at fs d j)"
    using iter_search_finds [OF assms True, of d] by blast
  then show ?thesis by (intro exI [of _ True] exI [of _ j]) simp
next
  case False
  then have "iter_search k P i (iter_at fs d i) = Ret (False, iter_at fs d i)"
    by (intro iter_search_misses [OF assms]) simp
  with assms(2) False show ?thesis by (intro exI [of _ False] exI [of _ i]) simp
qed

section \<open>Loops over the fields\<close>

text \<open>
  \<open>do { body } while (pb_field_iter_next(&iter))\<close>, for a body that may end the function with
  false (\<open>fields_loop\<close>) and for one that may not (\<open>fields_do\<close>).
\<close>

lemma iter_next_advances:
  "fst (pb_field_iter_next it) \<Longrightarrow>
     it_pos (snd (pb_field_iter_next it)) = Suc (it_pos it) \<and> Suc (it_pos it) < length (it_start it)"
  by (auto simp: pb_field_iter_next_def Let_def field_at_def PB_LAST_FIELD_def split: if_splits)

function fields_loop ::
  "(pb_field_iter \<Rightarrow> 's \<Rightarrow> (unit option \<times> 's) run) \<Rightarrow> pb_field_iter \<Rightarrow> 's \<Rightarrow> (unit option \<times> 's) run" where
  "fields_loop body it s =
     check_do (body it s) (\<lambda>_ s.
       if fst (pb_field_iter_next it) then fields_loop body (snd (pb_field_iter_next it)) s else ok () s)"
  by pat_completeness auto
termination
  by (relation "measure (\<lambda>(body, it, s). length (it_start it) - it_pos it)")
    (auto dest!: iter_next_advances)

function fields_do ::
  "(pb_field_iter \<Rightarrow> 's \<Rightarrow> 's run) \<Rightarrow> pb_field_iter \<Rightarrow> 's \<Rightarrow> 's run" where
  "fields_do body it s =
     rbind (body it s) (\<lambda>s.
       if fst (pb_field_iter_next it) then fields_do body (snd (pb_field_iter_next it)) s else Ret s)"
  by pat_completeness auto
termination
  by (relation "measure (\<lambda>(body, it, s). length (it_start it) - it_pos it)")
    (auto dest!: iter_next_advances)

declare fields_loop.simps [simp del] fields_do.simps [simp del]

lemma fields_do_cong [fundef_cong]:
  "it = it' \<Longrightarrow> s = s' \<Longrightarrow> (\<And>i t. body i t = body' i t) \<Longrightarrow> fields_do body it s = fields_do body' it' s'"
proof -
  assume "\<And>i t. body i t = body' i t" and eqs: "it = it'" "s = s'"
  then have "body = body'" by (intro ext)
  with eqs show ?thesis by simp
qed

lemma fields_loop_cong [fundef_cong]:
  "it = it' \<Longrightarrow> s = s' \<Longrightarrow> (\<And>i t. body i t = body' i t) \<Longrightarrow> fields_loop body it s = fields_loop body' it' s'"
proof -
  assume "\<And>i t. body i t = body' i t" and eqs: "it = it'" "s = s'"
  then have "body = body'" by (intro ext)
  with eqs show ?thesis by simp
qed

text \<open>From position \<open>i\<close> the loop runs the body at \<open>i, \<dots>, n - 1\<close> in order.\<close>

fun run_fields ::
  "(pb_field_iter \<Rightarrow> 's \<Rightarrow> (unit option \<times> 's) run) \<Rightarrow> pb_field list \<Rightarrow> addr \<Rightarrow> nat list \<Rightarrow> 's \<Rightarrow> (unit option \<times> 's) run" where
  "run_fields body fs d [] s = ok () s"
| "run_fields body fs d (i # is) s = check_do (body (iter_at fs d i) s) (\<lambda>_ s. run_fields body fs d is s)"

lemma run_fields_fun [simp]:
  "run_fields body fs d [] = ok ()"
  "run_fields body fs d (i # is) = (\<lambda>s. check_do (body (iter_at fs d i) s) (\<lambda>_. run_fields body fs d is))"
  by (simp_all add: fun_eq_iff)

lemma fields_loop_at:
  assumes "tags_ok fs" "i < length fs"
  shows "fields_loop body (iter_at fs d i) s = run_fields body fs d [i..<length fs] s"
  using assms(2)
proof (induction "length fs - i" arbitrary: i s)
  case 0
  then show ?case by simp
next
  case (Suc k)
  have nxt: "pb_field_iter_next (iter_at fs d i) =
      (if Suc i < length fs then (True, iter_at fs d (Suc i)) else (False, iter_at fs d 0))"
    by (rule iter_next_at [OF assms(1) Suc.prems])
  show ?case
  proof (cases "Suc i < length fs")
    case True
    with Suc.hyps have IH: "fields_loop body (iter_at fs d (Suc i)) s = run_fields body fs d [Suc i..<length fs] s" for s
      by simp
    from True Suc.prems show ?thesis
      by (subst fields_loop.simps) (simp add: nxt IH upt_conv_Cons [OF Suc.prems] del: upt_Suc)
  next
    case False
    with Suc.prems have "[i..<length fs] = [i]"
      by (simp add: upt_conv_Cons)
    with False show ?thesis
      by (subst fields_loop.simps) (simp add: nxt)
  qed
qed

lemma fields_do_returns:
  assumes "tags_ok fs" "i < length fs" "P s"
    and "\<And>j s. i \<le> j \<Longrightarrow> j < length fs \<Longrightarrow> P s \<Longrightarrow> returns (body (iter_at fs d j) s) P"
  shows "returns (fields_do body (iter_at fs d i) s) P"
  using assms(2-4)
proof (induction "length fs - i" arbitrary: i s)
  case 0
  then show ?case by simp
next
  case (Suc k)
  have nxt: "pb_field_iter_next (iter_at fs d i) =
      (if Suc i < length fs then (True, iter_at fs d (Suc i)) else (False, iter_at fs d 0))"
    by (rule iter_next_at [OF assms(1) Suc.prems(1)])
  show ?case
  proof (subst fields_do.simps, rule returns_rbind)
    show "returns (body (iter_at fs d i) s) P" using Suc.prems by simp
  next
    fix t assume t: "P t"
    show "returns (if fst (pb_field_iter_next (iter_at fs d i))
        then fields_do body (snd (pb_field_iter_next (iter_at fs d i))) t else Ret t) P"
    proof (cases "Suc i < length fs")
      case True
      have "returns (fields_do body (iter_at fs d (Suc i)) t) P"
        using Suc.hyps True t Suc.prems(3) by (intro Suc.hyps(1)) auto
      with True nxt show ?thesis by simp
    next
      case False
      with nxt t show ?thesis by simp
    qed
  qed
qed

end
