(* ===== verification/Pb_Istream.thy ===== *)
theory Pb_Istream
  imports Pb
begin

text \<open>
  \<open>Pods/nanopb/pb_decode.c\<close>, the stream layer: reading bytes, varints, tags, fixed-width
  values, skipping fields, and limited substreams. A function returns \<open>Some\<close> of its output
  parameters where the C returns true and \<open>None\<close> where it returns false, with the stream it
  leaves. The lemmas give the functional behaviour on a memory stream (\<open>pb_readbyte_Cons\<close> and
  on), the frame of every operation (\<open>reads\<close>) and that none of them reads past the buffer.
\<close>

section \<open>Reading\<close>

text \<open>
  \<open>buf_read\<close>: the bytes from the state pointer, which advances. Reading past the end of the
  buffer object is undefined.
\<close>

definition buf_read :: "pb_istream \<Rightarrow> u64 \<Rightarrow> (byte list option \<times> pb_istream) run" where
  "buf_read s count =
     (if length (is_state s) < unat count then UB
      else ok (take (unat count) (is_state s)) (s\<lparr>is_state := drop (unat count) (is_state s)\<rparr>))"

definition call_read :: "pb_env \<Rightarrow> pb_istream \<Rightarrow> u64 \<Rightarrow> (byte list option \<times> pb_istream) run" where
  "call_read E s count =
     (case is_callback s of
        Buf_Read \<Rightarrow> buf_read s count
      | User_Read i \<Rightarrow>
          (case env_read E i (is_state s) count of (success, buf, st) \<Rightarrow>
             if success then ok (map buf [0..<unat count]) (s\<lparr>is_state := st\<rparr>)
             else fail (s\<lparr>is_state := st\<rparr>)))"

text \<open>\<open>pb_read\<close> with a buffer.\<close>

definition pb_read :: "pb_env \<Rightarrow> pb_istream \<Rightarrow> u64 \<Rightarrow> (byte list option \<times> pb_istream) run" where
  "pb_read E s count =
     (if bytes_left s < count then is_return_error s ''end-of-stream''
      else try_do (call_read E s count)
             (\<lambda>buf s. ok buf (s\<lparr>bytes_left := bytes_left s - count\<rparr>))
             (\<lambda>s. is_set_error s ''io error''))"

text \<open>
  \<open>pb_read\<close> with a null buffer: a memory stream only advances, another stream is read into a
  16-byte buffer, 16 bytes at a time.
\<close>

function pb_read_skip :: "pb_env \<Rightarrow> pb_istream \<Rightarrow> u64 \<Rightarrow> (unit option \<times> pb_istream) run" where
  "pb_read_skip E s count =
     (if 16 < count then check_do (pb_read E s 16) (\<lambda>_ s. pb_read_skip E s (count - 16))
      else check_do (pb_read E s count) (\<lambda>_ s. ok () s))"
  by pat_completeness auto
termination
  by (relation "measure (\<lambda>(E, s, count). unat count)") (auto simp: word_less_nat_alt unat_sub word_le_nat_alt)

declare pb_read_skip.simps [simp del]

definition pb_read_null :: "pb_env \<Rightarrow> pb_istream \<Rightarrow> u64 \<Rightarrow> (unit option \<times> pb_istream) run" where
  "pb_read_null E s count =
     (if is_callback s \<noteq> Buf_Read then pb_read_skip E s count
      else check_do (pb_read E s count) (\<lambda>_ s. ok () s))"

definition pb_readbyte :: "pb_env \<Rightarrow> pb_istream \<Rightarrow> (byte option \<times> pb_istream) run" where
  "pb_readbyte E s =
     (if bytes_left s = 0 then is_return_error s ''end-of-stream''
      else try_do (call_read E s 1)
             (\<lambda>buf s. ok (buf ! 0) (s\<lparr>bytes_left := bytes_left s - 1\<rparr>))
             (\<lambda>s. is_set_error s ''io error''))"

definition pb_istream_from_buffer :: "byte list \<Rightarrow> u64 \<Rightarrow> pb_istream" where
  "pb_istream_from_buffer buf bufsize =
     \<lparr>is_callback = Buf_Read, is_state = buf, bytes_left = bufsize, is_errmsg = None\<rparr>"

section \<open>Varints\<close>

text \<open>
  The multi-byte loops. \<open>bitpos\<close> is a \<open>uint_fast8_t\<close>, 8 bits wide in this build.
\<close>

function varint32_loop :: "pb_env \<Rightarrow> pb_istream \<Rightarrow> nat \<Rightarrow> u32 \<Rightarrow> (u32 option \<times> pb_istream) run" where
  "varint32_loop E s bitpos result =
     (if bitpos \<ge> 32 then is_return_error s ''varint overflow''
      else check_do (pb_readbyte E s) (\<lambda>byte s.
        let result' = result OR push_bit bitpos (ucast (byte AND 0x7F));
            bitpos' = (bitpos + 7) mod 256
        in if byte AND 0x80 \<noteq> 0 then varint32_loop E s bitpos' result' else ok result' s))"
  by pat_completeness auto
termination
  by (relation "measure (\<lambda>(E, s, bitpos, r). 32 - bitpos)") auto

definition pb_decode_varint32 :: "pb_env \<Rightarrow> pb_istream \<Rightarrow> (u32 option \<times> pb_istream) run" where
  "pb_decode_varint32 E s =
     check_do (pb_readbyte E s) (\<lambda>byte s.
       if byte AND 0x80 = 0 then ok (ucast byte) s
       else varint32_loop E s 7 (ucast (byte AND 0x7F)))"

function varint_loop :: "pb_env \<Rightarrow> pb_istream \<Rightarrow> nat \<Rightarrow> u64 \<Rightarrow> (u64 option \<times> pb_istream) run" where
  "varint_loop E s bitpos result =
     (if bitpos \<ge> 64 then is_return_error s ''varint overflow''
      else check_do (pb_readbyte E s) (\<lambda>byte s.
        let result' = result OR push_bit bitpos (ucast (byte AND 0x7F));
            bitpos' = (bitpos + 7) mod 256
        in if byte AND 0x80 \<noteq> 0 then varint_loop E s bitpos' result' else ok result' s))"
  by pat_completeness auto
termination
  by (relation "measure (\<lambda>(E, s, bitpos, r). 64 - bitpos)") auto

declare varint32_loop.simps [simp del] varint_loop.simps [simp del]

definition pb_decode_varint :: "pb_env \<Rightarrow> pb_istream \<Rightarrow> (u64 option \<times> pb_istream) run" where
  "pb_decode_varint E s = varint_loop E s 0 0"

definition pb_decode_svarint :: "pb_env \<Rightarrow> pb_istream \<Rightarrow> (u64 option \<times> pb_istream) run" where
  "pb_decode_svarint E s =
     check_do (pb_decode_varint E s) (\<lambda>value s.
       if value AND 1 \<noteq> 0 then ok (NOT (drop_bit 1 value)) s else ok (drop_bit 1 value) s)"

definition pb_decode_fixed32 :: "pb_env \<Rightarrow> pb_istream \<Rightarrow> (u32 option \<times> pb_istream) run" where
  "pb_decode_fixed32 E s =
     check_do (pb_read E s 4) (\<lambda>bytes s.
       ok (push_bit 0 (ucast (bytes ! 0)) OR push_bit 8 (ucast (bytes ! 1)) OR
           push_bit 16 (ucast (bytes ! 2)) OR push_bit 24 (ucast (bytes ! 3))) s)"

definition pb_decode_fixed64 :: "pb_env \<Rightarrow> pb_istream \<Rightarrow> (u64 option \<times> pb_istream) run" where
  "pb_decode_fixed64 E s =
     check_do (pb_read E s 8) (\<lambda>bytes s.
       ok (push_bit 0 (ucast (bytes ! 0)) OR push_bit 8 (ucast (bytes ! 1)) OR
           push_bit 16 (ucast (bytes ! 2)) OR push_bit 24 (ucast (bytes ! 3)) OR
           push_bit 32 (ucast (bytes ! 4)) OR push_bit 40 (ucast (bytes ! 5)) OR
           push_bit 48 (ucast (bytes ! 6)) OR push_bit 56 (ucast (bytes ! 7))) s)"

section \<open>What an operation may do to its stream\<close>

text \<open>
  \<open>stream_ok\<close> is the contract of a memory stream: its limit is within the buffer object.
  \<open>reads s s'\<close>: the callback is the same, the limit did not grow, and a memory stream has
  advanced by exactly what its limit shrank.
\<close>

definition stream_ok :: "pb_istream \<Rightarrow> bool" where
  "stream_ok s \<longleftrightarrow> is_callback s = Buf_Read \<longrightarrow> unat (bytes_left s) \<le> length (is_state s)"

definition reads :: "pb_istream \<Rightarrow> pb_istream \<Rightarrow> bool" where
  "reads s s' \<longleftrightarrow> is_callback s' = is_callback s \<and> bytes_left s' \<le> bytes_left s \<and>
     (is_callback s = Buf_Read \<longrightarrow>
        is_state s' = drop (unat (bytes_left s) - unat (bytes_left s')) (is_state s))"

definition stream_post :: "pb_istream \<Rightarrow> 'a option \<times> pb_istream \<Rightarrow> bool" where
  "stream_post s r \<longleftrightarrow> stream_ok (snd r) \<and> reads s (snd r)"

lemma reads_refl [simp]: "reads s s"
  by (simp add: reads_def)

lemma reads_error [simp]: "reads s (is_set_error t e) = reads s t" "reads (is_set_error s e) t = reads s t"
  by (simp_all add: reads_def)

lemma stream_ok_error [simp]: "stream_ok (is_set_error s e) = stream_ok s"
  by (simp add: stream_ok_def)

lemma reads_trans: "reads s t \<Longrightarrow> reads t u \<Longrightarrow> reads s u"
  by (auto simp: reads_def word_le_nat_alt)

lemma reads_left: "reads s t \<Longrightarrow> bytes_left t \<le> bytes_left s"
  by (simp add: reads_def)

lemma stream_post_trans: "reads s t \<Longrightarrow> stream_post t r \<Longrightarrow> stream_post s r"
  by (auto simp: stream_post_def intro: reads_trans)

lemma call_read_frame:
  assumes "stream_ok s" "count \<le> bytes_left s"
  shows "returns (call_read E s count) (\<lambda>(r, t). is_callback t = is_callback s \<and> bytes_left t = bytes_left s \<and>
     (\<forall>bs. r = Some bs \<longrightarrow> length bs = unat count \<and>
        (is_callback s = Buf_Read \<longrightarrow> bs = take (unat count) (is_state s) \<and> is_state t = drop (unat count) (is_state s))) \<and>
     (r = None \<longrightarrow> is_callback s \<noteq> Buf_Read))"
proof (cases "is_callback s")
  case Buf_Read
  with assms have "unat count \<le> length (is_state s)"
    by (simp add: stream_ok_def word_le_nat_alt)
  with Buf_Read show ?thesis by (simp add: call_read_def buf_read_def)
next
  case (User_Read i)
  then show ?thesis by (simp add: call_read_def ok_def fail_def split: prod.split)
qed

lemma pb_read_post:
  assumes "stream_ok s"
  shows "returns (pb_read E s count) (\<lambda>(r, t). stream_ok t \<and> reads s t \<and>
     (\<forall>bs. r = Some bs \<longrightarrow> length bs = unat count \<and> unat (bytes_left t) + unat count = unat (bytes_left s) \<and>
        (is_callback s = Buf_Read \<longrightarrow> bs = take (unat count) (is_state s))))"
proof (cases "bytes_left s < count")
  case True
  with assms show ?thesis by (simp add: pb_read_def is_return_error_def)
next
  case False
  then have le: "count \<le> bytes_left s" by simp
  then have sub: "unat (bytes_left s - count) = unat (bytes_left s) - unat count"
      "unat count \<le> unat (bytes_left s)"
    by (simp_all add: unat_sub word_le_nat_alt)
  show ?thesis
    unfolding pb_read_def
    apply (simp add: False)
    apply (rule returns_try_do [OF call_read_frame [OF assms le]])
    using sub assms by (auto simp: reads_def stream_ok_def word_le_nat_alt)
qed

lemma pb_readbyte_eq: "pb_readbyte E s = check_do (pb_read E s 1) (\<lambda>buf s. ok (buf ! 0) s)"
proof -
  have "bytes_left s < 1 \<longleftrightarrow> bytes_left s = 0"
    by (simp add: word_less_nat_alt unat_eq_0 [symmetric] del: unat_eq_0)
  then show ?thesis
    by (auto simp: pb_readbyte_def pb_read_def is_return_error_def try_do_def ok_def fail_def
        split: run.splits option.splits)
qed

lemma pb_readbyte_post:
  assumes "stream_ok s"
  shows "returns (pb_readbyte E s) (\<lambda>(r, t). stream_ok t \<and> reads s t \<and>
     (\<forall>b. r = Some b \<longrightarrow> unat (bytes_left s) = Suc (unat (bytes_left t)) \<and>
        (is_callback s = Buf_Read \<longrightarrow> is_state s = b # is_state t)))"
  unfolding pb_readbyte_eq
proof (rule returns_try_do [OF pb_read_post [OF assms]])
  fix buf t
  assume "case (Some buf, t) of (r, t) \<Rightarrow> stream_ok t \<and> reads s t \<and>
     (\<forall>bs. r = Some bs \<longrightarrow> length bs = unat (1::u64) \<and>
        unat (bytes_left t) + unat (1::u64) = unat (bytes_left s) \<and>
        (is_callback s = Buf_Read \<longrightarrow> bs = take (unat (1::u64)) (is_state s)))"
  then have t: "stream_ok t" "reads s t" "Suc (unat (bytes_left t)) = unat (bytes_left s)"
    and buf: "is_callback s = Buf_Read \<Longrightarrow> buf = take 1 (is_state s)"
    by simp_all
  have "is_state s = buf ! 0 # is_state t" if "is_callback s = Buf_Read"
  proof (cases "is_state s")
    case Nil
    with that assms t(3) show ?thesis by (simp add: stream_ok_def)
  next
    case (Cons x xs)
    have "unat (bytes_left s) - unat (bytes_left t) = 1" using t(3) by simp
    with that t(2) Cons buf show ?thesis by (simp add: reads_def)
  qed
  with t show "returns (ok (buf ! 0) t) (\<lambda>(r, t). stream_ok t \<and> reads s t \<and>
     (\<forall>b. r = Some b \<longrightarrow> unat (bytes_left s) = Suc (unat (bytes_left t)) \<and>
        (is_callback s = Buf_Read \<longrightarrow> is_state s = b # is_state t)))"
    by simp
qed simp

section \<open>Skipping fields and reading tags\<close>

lemma call_read_left: "call_read E s count = Ret (r, t) \<Longrightarrow> bytes_left t = bytes_left s"
  by (auto simp: call_read_def buf_read_def ok_def fail_def
      split: istream_callback.splits if_splits prod.splits)

lemma pb_read_progress:
  assumes "pb_read E s count = Ret (Some buf, t)" "0 < count"
  shows "unat (bytes_left t) < unat (bytes_left s)"
proof -
  have le: "count \<le> bytes_left s" and t: "bytes_left t = bytes_left s - count"
    using assms(1) by (auto simp: pb_read_def is_return_error_def fail_def ok_def try_do_Ret_iff
        not_less dest: call_read_left split: if_splits)
  then show ?thesis
    using assms(2) by (simp add: unat_sub word_less_nat_alt word_le_nat_alt)
qed

function pb_skip_varint :: "pb_env \<Rightarrow> pb_istream \<Rightarrow> (unit option \<times> pb_istream) run" where
  "pb_skip_varint E s =
     check_do (pb_read E s 1) (\<lambda>byte s.
       if byte ! 0 AND 0x80 \<noteq> 0 then pb_skip_varint E s else ok () s)"
  by pat_completeness auto
termination
  by (relation "measure (\<lambda>(E, s). unat (bytes_left s))") (auto dest: pb_read_progress)

declare pb_skip_varint.simps [simp del]

definition pb_skip_string :: "pb_env \<Rightarrow> pb_istream \<Rightarrow> (unit option \<times> pb_istream) run" where
  "pb_skip_string E s =
     check_do (pb_decode_varint32 E s) (\<lambda>len s. pb_read_null E s (ucast len))"

text \<open>
  \<open>pb_decode_tag\<close> sets its output parameters on failure too: the result is the return value,
  the wire type, the tag and \<open>eof\<close>.
\<close>

definition pb_decode_tag ::
  "pb_env \<Rightarrow> pb_istream \<Rightarrow> ((bool \<times> pb_wire_type_t \<times> u32 \<times> bool) \<times> pb_istream) run" where
  "pb_decode_tag E s =
     rbind (pb_decode_varint32 E s) (\<lambda>(temp, s).
       case temp of
         None \<Rightarrow> Ret ((False, 0, 0, bytes_left s = 0), s)
       | Some temp \<Rightarrow>
           if temp = 0 then Ret ((False, 0, 0, True), s)
           else Ret ((True, temp AND 7, drop_bit 3 temp, False), s))"

definition pb_skip_field :: "pb_env \<Rightarrow> pb_istream \<Rightarrow> pb_wire_type_t \<Rightarrow> (unit option \<times> pb_istream) run" where
  "pb_skip_field E s wire_type =
     (if wire_type = PB_WT_VARINT then pb_skip_varint E s
      else if wire_type = PB_WT_64BIT then pb_read_null E s 8
      else if wire_type = PB_WT_STRING then pb_skip_string E s
      else if wire_type = PB_WT_32BIT then pb_read_null E s 4
      else is_return_error s ''invalid wire_type'')"

text \<open>
  \<open>read_raw_value\<close>: the bytes read so far are \<open>buf\<close>, of which \<open>size\<close> counts the length.
\<close>

function raw_varint_loop ::
  "pb_env \<Rightarrow> pb_istream \<Rightarrow> nat \<Rightarrow> byte list \<Rightarrow> (byte list option \<times> pb_istream) run" where
  "raw_varint_loop E s max_sz buf =
     (if length buf + 1 > max_sz then fail s
      else check_do (pb_read E s 1) (\<lambda>b s.
        if b ! 0 AND 0x80 \<noteq> 0 then raw_varint_loop E s max_sz (buf @ [b ! 0])
        else ok (buf @ [b ! 0]) s))"
  by pat_completeness auto
termination
  by (relation "measure (\<lambda>(E, s, max_sz, buf). max_sz - length buf)") auto

declare raw_varint_loop.simps [simp del]

definition read_raw_value ::
  "pb_env \<Rightarrow> pb_istream \<Rightarrow> pb_wire_type_t \<Rightarrow> nat \<Rightarrow> (byte list option \<times> pb_istream) run" where
  "read_raw_value E s wire_type max_sz =
     (if wire_type = PB_WT_VARINT then raw_varint_loop E s max_sz []
      else if wire_type = PB_WT_64BIT then pb_read E s 8
      else if wire_type = PB_WT_32BIT then pb_read E s 4
      else is_return_error s ''invalid wire_type'')"

section \<open>Substreams\<close>

text \<open>
  \<open>pb_make_string_substream\<close> reads the length, copies the stream and takes the length off its
  own limit; its state pointer moves only when the substream is closed.
\<close>

definition pb_make_string_substream ::
  "pb_env \<Rightarrow> pb_istream \<Rightarrow> (pb_istream option \<times> pb_istream) run" where
  "pb_make_string_substream E s =
     check_do (pb_decode_varint32 E s) (\<lambda>size s.
       if bytes_left s < ucast size then is_return_error s ''parent stream too short''
       else ok (s\<lparr>bytes_left := ucast size\<rparr>) (s\<lparr>bytes_left := bytes_left s - ucast size\<rparr>))"

definition pb_close_string_substream ::
  "pb_env \<Rightarrow> pb_istream \<Rightarrow> pb_istream \<Rightarrow> (unit option \<times> pb_istream) run" where
  "pb_close_string_substream E s sub =
     rbind (if bytes_left sub \<noteq> 0 then pb_read_null E sub (bytes_left sub) else ok () sub)
       (\<lambda>(r, sub). case r of
          None \<Rightarrow> fail s
        | Some _ \<Rightarrow> ok () (s\<lparr>is_state := is_state sub, is_errmsg := is_errmsg sub\<rparr>))"

section \<open>The frame of the operations\<close>

text \<open>
  \<open>stream_frame f\<close>: on a stream within its buffer, \<open>f\<close> returns, stays within the buffer and
  keeps \<open>reads\<close>; \<open>stream_frame_strict\<close> adds that success consumed at least one byte.
\<close>

definition stream_frame :: "(pb_istream \<Rightarrow> ('a option \<times> pb_istream) run) \<Rightarrow> bool" where
  "stream_frame f \<longleftrightarrow> (\<forall>s. stream_ok s \<longrightarrow> returns (f s) (stream_post s))"

definition stream_frame_strict :: "(pb_istream \<Rightarrow> ('a option \<times> pb_istream) run) \<Rightarrow> bool" where
  "stream_frame_strict f \<longleftrightarrow> (\<forall>s. stream_ok s \<longrightarrow> returns (f s) (\<lambda>r. stream_post s r \<and>
     (fst r \<noteq> None \<longrightarrow> bytes_left (snd r) < bytes_left s)))"

lemma stream_frameI: "(\<And>s. stream_ok s \<Longrightarrow> returns (f s) (stream_post s)) \<Longrightarrow> stream_frame f"
  by (simp add: stream_frame_def)

lemma stream_frameD: "stream_frame f \<Longrightarrow> stream_ok s \<Longrightarrow> returns (f s) (stream_post s)"
  by (simp add: stream_frame_def)

lemma stream_frame_strictD:
  "stream_frame_strict f \<Longrightarrow> stream_ok s \<Longrightarrow> returns (f s) (\<lambda>r. stream_post s r \<and>
     (fst r \<noteq> None \<longrightarrow> bytes_left (snd r) < bytes_left s))"
  by (simp add: stream_frame_strict_def)

lemma stream_frame_strict_imp: "stream_frame_strict f \<Longrightarrow> stream_frame f"
  by (auto simp: stream_frame_def stream_frame_strict_def elim: returns_mono)

lemma stream_frame_bind:
  assumes "stream_frame m" "\<And>x. stream_frame (f x)"
  shows "stream_frame (\<lambda>s. check_do (m s) f)"
proof (rule stream_frameI)
  fix s assume "stream_ok s"
  then show "returns (check_do (m s) f) (stream_post s)"
    by (rule returns_try_do [OF stream_frameD [OF assms(1)]])
      (auto simp: stream_post_def intro!: returns_mono [OF stream_frameD [OF assms(2)]] intro: reads_trans)
qed

lemma stream_frame_strict_bind:
  assumes "stream_frame_strict m" "\<And>x. stream_frame (f x)"
  shows "stream_frame_strict (\<lambda>s. check_do (m s) f)"
  unfolding stream_frame_strict_def
proof (intro allI impI)
  fix s assume s: "stream_ok s"
  show "returns (check_do (m s) f) (\<lambda>r. stream_post s r \<and> (fst r \<noteq> None \<longrightarrow> bytes_left (snd r) < bytes_left s))"
    by (rule returns_try_do [OF stream_frame_strictD [OF assms(1) s]])
      (auto simp: stream_post_def intro!: returns_mono [OF stream_frameD [OF assms(2)]]
        intro: reads_trans le_less_trans [OF reads_left])
qed

lemma stream_frame_ok [simp]: "stream_frame (ok x)"
  by (simp add: stream_frame_def stream_post_def)

lemma stream_frame_fail [simp]: "stream_frame fail"
  by (simp add: stream_frame_def stream_post_def)

lemma stream_frame_error [simp]: "stream_frame (\<lambda>s. is_return_error s e)"
  by (simp add: stream_frame_def stream_post_def is_return_error_def)

lemma stream_frame_if:
  "stream_frame f \<Longrightarrow> stream_frame g \<Longrightarrow> stream_frame (\<lambda>s. if P s then f s else g s)"
  by (simp add: stream_frame_def)

lemma pb_read_frame: "stream_frame (\<lambda>s. pb_read E s count)"
  by (rule stream_frameI, rule returns_mono [OF pb_read_post]) (auto simp: stream_post_def)

lemma pb_readbyte_frame: "stream_frame_strict (pb_readbyte E)"
  unfolding stream_frame_strict_def
  by (auto intro!: returns_mono [OF pb_readbyte_post] simp: stream_post_def word_less_nat_alt)

lemma pb_read_skip_frame: "stream_frame (\<lambda>s. pb_read_skip E s count)"
proof (induction "unat count" arbitrary: count rule: less_induct)
  case less
  show ?case
  proof (cases "16 < count")
    case True
    then have "unat (count - 16) < unat count"
      by (simp add: unat_sub word_less_nat_alt word_le_nat_alt)
    then have "stream_frame (\<lambda>s. check_do (pb_read E s 16) (\<lambda>_ s. pb_read_skip E s (count - 16)))"
      by (intro stream_frame_bind pb_read_frame less)
    moreover have "pb_read_skip E s count = check_do (pb_read E s 16) (\<lambda>_ s. pb_read_skip E s (count - 16))" for s
      using True by (subst pb_read_skip.simps) simp
    ultimately show ?thesis by simp
  next
    case False
    have "pb_read_skip E s count = check_do (pb_read E s count) (\<lambda>_ s. ok () s)" for s
      using False by (subst pb_read_skip.simps) simp
    then show ?thesis by (simp add: stream_frame_bind pb_read_frame)
  qed
qed

lemma pb_read_null_frame: "stream_frame (\<lambda>s. pb_read_null E s count)"
  unfolding pb_read_null_def
  by (intro stream_frame_if pb_read_skip_frame stream_frame_bind pb_read_frame stream_frame_ok)

lemma varint32_loop_frame: "stream_frame (\<lambda>s. varint32_loop E s bitpos r)"
proof (induction "32 - bitpos" arbitrary: bitpos r rule: less_induct)
  case less
  show ?case
  proof (cases "32 \<le> bitpos")
    case True
    then show ?thesis by (subst varint32_loop.simps) simp
  next
    case False
    then have "32 - (bitpos + 7) < 32 - bitpos" by simp
    note IH = less [OF this]
    have "varint32_loop E s bitpos r = check_do (pb_readbyte E s) (\<lambda>byte s.
        if byte AND 0x80 \<noteq> 0 then varint32_loop E s (bitpos + 7) (r OR push_bit bitpos (ucast (byte AND 0x7F)))
        else ok (r OR push_bit bitpos (ucast (byte AND 0x7F))) s)" for s
      using False by (subst varint32_loop.simps) (simp add: Let_def)
    then show ?thesis
      by (simp only:) (intro stream_frame_bind stream_frame_strict_imp [OF pb_readbyte_frame] stream_frame_if IH stream_frame_ok)
  qed
qed

lemma varint_loop_frame: "stream_frame (\<lambda>s. varint_loop E s bitpos r)"
proof (induction "64 - bitpos" arbitrary: bitpos r rule: less_induct)
  case less
  show ?case
  proof (cases "64 \<le> bitpos")
    case True
    then show ?thesis by (subst varint_loop.simps) simp
  next
    case False
    then have "64 - (bitpos + 7) < 64 - bitpos" by simp
    note IH = less [OF this]
    have "varint_loop E s bitpos r = check_do (pb_readbyte E s) (\<lambda>byte s.
        if byte AND 0x80 \<noteq> 0 then varint_loop E s (bitpos + 7) (r OR push_bit bitpos (ucast (byte AND 0x7F)))
        else ok (r OR push_bit bitpos (ucast (byte AND 0x7F))) s)" for s
      using False by (subst varint_loop.simps) (simp add: Let_def)
    then show ?thesis
      by (simp only:) (intro stream_frame_bind stream_frame_strict_imp [OF pb_readbyte_frame] stream_frame_if IH stream_frame_ok)
  qed
qed

lemma pb_decode_varint32_frame: "stream_frame_strict (pb_decode_varint32 E)"
  unfolding pb_decode_varint32_def [abs_def]
  by (intro stream_frame_strict_bind pb_readbyte_frame stream_frame_if varint32_loop_frame stream_frame_ok)

lemma pb_decode_varint_frame: "stream_frame_strict (pb_decode_varint E)"
proof -
  have "pb_decode_varint E s = check_do (pb_readbyte E s) (\<lambda>byte s.
        if byte AND 0x80 \<noteq> 0 then varint_loop E s 7 (ucast (byte AND 0x7F)) else ok (ucast (byte AND 0x7F)) s)" for s
    unfolding pb_decode_varint_def by (subst varint_loop.simps) (simp add: Let_def)
  then have "pb_decode_varint E = (\<lambda>s. check_do (pb_readbyte E s) (\<lambda>byte s.
        if byte AND 0x80 \<noteq> 0 then varint_loop E s 7 (ucast (byte AND 0x7F)) else ok (ucast (byte AND 0x7F)) s))"
    by (rule ext)
  then show ?thesis
    by (simp only:) (intro stream_frame_strict_bind pb_readbyte_frame stream_frame_if varint_loop_frame stream_frame_ok)
qed

lemma pb_decode_svarint_frame: "stream_frame_strict (pb_decode_svarint E)"
  unfolding pb_decode_svarint_def [abs_def]
  by (intro stream_frame_strict_bind pb_decode_varint_frame stream_frame_if stream_frame_ok)

lemma pb_decode_fixed32_frame: "stream_frame (pb_decode_fixed32 E)"
  unfolding pb_decode_fixed32_def [abs_def]
  by (intro stream_frame_bind pb_read_frame stream_frame_ok)

lemma pb_decode_fixed64_frame: "stream_frame (pb_decode_fixed64 E)"
  unfolding pb_decode_fixed64_def [abs_def]
  by (intro stream_frame_bind pb_read_frame stream_frame_ok)

lemma pb_skip_varint_frame: "stream_frame (pb_skip_varint E)"
proof (rule stream_frameI)
  fix s assume "stream_ok s"
  then show "returns (pb_skip_varint E s) (stream_post s)"
  proof (induction E s rule: pb_skip_varint.induct)
    case (1 E s)
    show ?case
    proof (subst pb_skip_varint.simps, rule returns_try_do)
      show "returns (pb_read E s 1) (\<lambda>r. pb_read E s 1 = Ret r \<and> stream_post s r)"
        using stream_frameD [OF pb_read_frame 1(2)] by (auto simp: returns_iff)
    next
      fix byte t
      assume t: "pb_read E s 1 = Ret (Some byte, t) \<and> stream_post s (Some byte, t)"
      then have st: "reads s t" "stream_ok t" by (simp_all add: stream_post_def)
      show "returns (if byte ! 0 AND 0x80 \<noteq> 0 then pb_skip_varint E t else ok () t) (stream_post s)"
      proof (cases "byte ! 0 AND 0x80 = 0")
        case True
        with st show ?thesis by (simp add: stream_post_def)
      next
        case False
        with 1(1) [of byte t] t st(2) have "returns (pb_skip_varint E t) (stream_post t)" by simp
        with False show ?thesis by (simp add: returns_mono [OF _ stream_post_trans [OF st(1)]])
      qed
    qed (simp add: stream_post_def)
  qed
qed

lemma pb_skip_string_frame: "stream_frame (pb_skip_string E)"
  unfolding pb_skip_string_def [abs_def]
  by (intro stream_frame_bind stream_frame_strict_imp [OF pb_decode_varint32_frame] pb_read_null_frame)

lemma pb_skip_field_frame: "stream_frame (\<lambda>s. pb_skip_field E s wt)"
  unfolding pb_skip_field_def
  by (intro stream_frame_if pb_skip_varint_frame pb_read_null_frame pb_skip_string_frame stream_frame_error)

lemma raw_varint_loop_frame: "stream_frame (\<lambda>s. raw_varint_loop E s n buf)"
proof (induction "n - length buf" arbitrary: buf rule: less_induct)
  case less
  show ?case
  proof (cases "length buf + 1 > n")
    case True
    then show ?thesis by (subst raw_varint_loop.simps) simp
  next
    case False
    then have "n - length (buf @ [b]) < n - length buf" for b :: byte by simp
    note IH = less [OF this]
    have "raw_varint_loop E s n buf = check_do (pb_read E s 1) (\<lambda>b s.
        if b ! 0 AND 0x80 \<noteq> 0 then raw_varint_loop E s n (buf @ [b ! 0]) else ok (buf @ [b ! 0]) s)" for s
      using False by (subst raw_varint_loop.simps) simp
    then show ?thesis
      by (simp only:) (intro stream_frame_bind pb_read_frame stream_frame_if IH stream_frame_ok)
  qed
qed

lemma read_raw_value_frame: "stream_frame (\<lambda>s. read_raw_value E s wt n)"
  unfolding read_raw_value_def
  by (intro stream_frame_if raw_varint_loop_frame pb_read_frame stream_frame_error)

lemma pb_decode_tag_frame:
  assumes "stream_ok s"
  shows "returns (pb_decode_tag E s) (\<lambda>((okay, wt, tag, eof), t). stream_ok t \<and> reads s t \<and>
     (okay \<longrightarrow> bytes_left t < bytes_left s \<and> \<not> eof))"
  unfolding pb_decode_tag_def
  by (rule returns_rbind [OF stream_frame_strictD [OF pb_decode_varint32_frame assms]])
    (auto simp: stream_post_def split: option.split)

text \<open>
  A substream starts at the stream's position, ends within the parent, and when it is closed
  the parent has advanced exactly over it.
\<close>

definition substream_of :: "pb_istream \<Rightarrow> pb_istream \<Rightarrow> pb_istream \<Rightarrow> bool" where
  "substream_of s sub t \<longleftrightarrow>
     is_callback sub = is_callback s \<and> is_callback t = is_callback s \<and> stream_ok sub \<and>
     unat (bytes_left sub) + unat (bytes_left t) < unat (bytes_left s) \<and>
     (is_callback s = Buf_Read \<longrightarrow> is_state sub = is_state t \<and> unat (bytes_left s) \<le> length (is_state s) \<and>
        is_state t = drop (unat (bytes_left s) - (unat (bytes_left sub) + unat (bytes_left t))) (is_state s))"

lemma pb_make_string_substream_post:
  assumes "stream_ok s"
  shows "returns (pb_make_string_substream E s)
    (\<lambda>(r, t). case r of None \<Rightarrow> stream_ok t \<and> reads s t | Some sub \<Rightarrow> substream_of s sub t)"
  unfolding pb_make_string_substream_def
proof (rule returns_try_do [OF stream_frame_strictD [OF pb_decode_varint32_frame assms]])
  fix size :: u32 and t
  assume "stream_post s (Some size, t) \<and> (fst (Some size, t) \<noteq> None \<longrightarrow> bytes_left (snd (Some size, t)) < bytes_left s)"
  then have t: "stream_ok t" "reads s t" "unat (bytes_left t) < unat (bytes_left s)"
    by (simp_all add: stream_post_def word_less_nat_alt)
  show "returns (if bytes_left t < ucast size then is_return_error t ''parent stream too short''
       else ok (t\<lparr>bytes_left := ucast size\<rparr>) (t\<lparr>bytes_left := bytes_left t - ucast size\<rparr>))
     (\<lambda>(r, t). case r of None \<Rightarrow> stream_ok t \<and> reads s t | Some sub \<Rightarrow> substream_of s sub t)"
  proof (cases "bytes_left t < ucast size")
    case True
    with t show ?thesis by (simp add: is_return_error_def)
  next
    case False
    then have "unat (ucast size :: u64) \<le> unat (bytes_left t)"
      "unat (bytes_left t - ucast size) = unat (bytes_left t) - unat (ucast size :: u64)"
      by (simp_all add: unat_sub word_le_nat_alt not_less)
    with False t assms show ?thesis
      by (auto simp: substream_of_def stream_ok_def reads_def)
  qed
qed (auto simp: stream_post_def)

lemma pb_close_string_substream_post:
  assumes "substream_of s sub t" "stream_ok sub'" "reads sub sub'"
  shows "returns (pb_close_string_substream E t sub') (\<lambda>(r, u). bytes_left u = bytes_left t \<and>
     is_callback u = is_callback s \<and> (r \<noteq> None \<longrightarrow> stream_ok u \<and> reads s u))"
proof -
  let ?m = "if bytes_left sub' \<noteq> 0 then pb_read_null E sub' (bytes_left sub') else ok () sub'"
  have "returns ?m (\<lambda>(r, v). stream_ok v \<and> reads sub' v \<and> (r \<noteq> None \<longrightarrow> is_callback v = Buf_Read \<longrightarrow> bytes_left v = 0))"
  proof (cases "bytes_left sub' = 0")
    case True
    with assms(2) show ?thesis by simp
  next
    case False
    show ?thesis
    proof (cases "is_callback sub' = Buf_Read")
      case True
      have "returns (check_do (pb_read E sub' (bytes_left sub')) (\<lambda>_ s. ok () s))
        (\<lambda>(r, v). stream_ok v \<and> reads sub' v \<and> (r \<noteq> None \<longrightarrow> bytes_left v = 0))"
        by (rule returns_try_do [OF pb_read_post [OF assms(2)]]) (auto simp: unat_eq_0)
      with True False show ?thesis
        by (auto simp: pb_read_null_def elim: returns_mono)
    next
      case user: False
      show ?thesis
        using False user returns_mono [OF stream_frameD [OF pb_read_null_frame assms(2)],
            of "\<lambda>(r, v). stream_ok v \<and> reads sub' v \<and> (r \<noteq> None \<longrightarrow> is_callback v = Buf_Read \<longrightarrow> bytes_left v = 0)"]
        by (auto simp: stream_post_def reads_def)
    qed
  qed
  then show ?thesis
    unfolding pb_close_string_substream_def
  proof (rule returns_rbind)
    fix x
    assume x: "case x of (r, v) \<Rightarrow> stream_ok v \<and> reads sub' v \<and>
      (r \<noteq> None \<longrightarrow> is_callback v = Buf_Read \<longrightarrow> bytes_left v = 0)"
    obtain r v where rv: "x = (r, v)" by (cases x)
    have v: "reads sub v" "r \<noteq> None \<Longrightarrow> is_callback v = Buf_Read \<Longrightarrow> bytes_left v = 0"
      using x rv assms(3) by (auto intro: reads_trans)
    show "returns (case x of (None, sub) \<Rightarrow> fail t
        | (Some _, sub) \<Rightarrow> ok () (t\<lparr>is_state := is_state sub, is_errmsg := is_errmsg sub\<rparr>))
      (\<lambda>(r, u). bytes_left u = bytes_left t \<and> is_callback u = is_callback s \<and>
        (r \<noteq> None \<longrightarrow> stream_ok u \<and> reads s u))"
    proof (cases r)
      case None
      with rv assms(1) show ?thesis by (simp add: substream_of_def)
    next
      case (Some y)
      with v assms(1) rv show ?thesis
        by (auto simp: substream_of_def stream_ok_def reads_def word_le_nat_alt algebra_simps)
    qed
  qed
qed

end
