(* ===== verification/Pb_Decode.thy ===== *)
theory Pb_Decode
  imports Pb_Common Pb_Istream
begin

text \<open>
  \<open>Pods/nanopb/pb_decode.c\<close>, the message layer: the field decoders, the static, callback and
  extension fields, the defaults of a message and the decoding loop with its check of the
  required fields. The state of a function is the stream and the memory that holds the message
  struct. Recursion into submessages takes the decoder of the submessage as an argument \<open>noinit\<close>
  and is tied by fuel in \<open>pb_decode_noinit\<close>.
\<close>

section \<open>Scalar decoders\<close>

type_synonym dstate = "pb_istream \<times> mem"

definition on_stream :: "('a option \<times> pb_istream) run \<Rightarrow> mem \<Rightarrow> ('a option \<times> dstate) run" where
  "on_stream r m = rbind r (\<lambda>(x, s). Ret (x, (s, m)))"

definition ds_error :: "pb_istream \<Rightarrow> mem \<Rightarrow> string \<Rightarrow> ('a option \<times> dstate) run" where
  "ds_error s m msg = fail (is_set_error s msg, m)"

text \<open>\<open>pb_read\<close> into the message struct: a failing callback may have filled the buffer.\<close>

definition pb_read_to :: "pb_env \<Rightarrow> pb_istream \<Rightarrow> mem \<Rightarrow> addr \<Rightarrow> u64 \<Rightarrow> (unit option \<times> dstate) run" where
  "pb_read_to E s m dest count =
     (if bytes_left s < count then ds_error s m ''end-of-stream''
      else rbind (call_read E s count) (\<lambda>(r, s').
        case r of
          Some buf \<Rightarrow> ok () (s'\<lparr>bytes_left := bytes_left s' - count\<rparr>, store m dest buf)
        | None \<Rightarrow>
            (case is_callback s of
               Buf_Read \<Rightarrow> ds_error s' m ''io error''
             | User_Read i \<Rightarrow> ds_error s'
                 (store m dest (map (fst (snd (env_read E i (is_state s) count))) [0..<unat count]))
                 ''io error'')))"

definition pb_dec_varint :: "pb_env \<Rightarrow> pb_istream \<Rightarrow> pb_field \<Rightarrow> addr \<Rightarrow> mem \<Rightarrow> (unit option \<times> dstate) run" where
  "pb_dec_varint E s field dest m =
     check_do (on_stream (pb_decode_varint E s) m) (\<lambda>value (s, m).
       let svalue = (if f_data_size field = 8 then value else scast (ucast value :: u32)) in
       if f_data_size field = 8 then ok () (s, store m dest (le_bytes 8 svalue))
       else if f_data_size field = 4 then
         (let m = store m dest (le_bytes 4 svalue); clamped = scast (ucast svalue :: u32) :: u64
          in if clamped \<noteq> svalue then ds_error s m ''integer too large'' else ok () (s, m))
       else if f_data_size field = 2 then
         (let m = store m dest (le_bytes 2 svalue); clamped = scast (ucast svalue :: 16 word) :: u64
          in if clamped \<noteq> svalue then ds_error s m ''integer too large'' else ok () (s, m))
       else if f_data_size field = 1 then
         (let m = store m dest (le_bytes 1 svalue); clamped = scast (ucast svalue :: 8 word) :: u64
          in if clamped \<noteq> svalue then ds_error s m ''integer too large'' else ok () (s, m))
       else ds_error s m ''invalid data_size'')"

definition pb_dec_uvarint :: "pb_env \<Rightarrow> pb_istream \<Rightarrow> pb_field \<Rightarrow> addr \<Rightarrow> mem \<Rightarrow> (unit option \<times> dstate) run" where
  "pb_dec_uvarint E s field dest m =
     check_do (on_stream (pb_decode_varint E s) m) (\<lambda>value (s, m).
       if f_data_size field = 8 then ok () (s, store m dest (le_bytes 8 value))
       else if f_data_size field = 4 then
         (let m = store m dest (le_bytes 4 value); clamped = ucast (ucast value :: u32) :: u64
          in if clamped \<noteq> value then ds_error s m ''integer too large'' else ok () (s, m))
       else if f_data_size field = 2 then
         (let m = store m dest (le_bytes 2 value); clamped = ucast (ucast value :: 16 word) :: u64
          in if clamped \<noteq> value then ds_error s m ''integer too large'' else ok () (s, m))
       else if f_data_size field = 1 then
         (let m = store m dest (le_bytes 1 value); clamped = ucast (ucast value :: 8 word) :: u64
          in if clamped \<noteq> value then ds_error s m ''integer too large'' else ok () (s, m))
       else ds_error s m ''invalid data_size'')"

definition pb_dec_svarint :: "pb_env \<Rightarrow> pb_istream \<Rightarrow> pb_field \<Rightarrow> addr \<Rightarrow> mem \<Rightarrow> (unit option \<times> dstate) run" where
  "pb_dec_svarint E s field dest m =
     check_do (on_stream (pb_decode_svarint E s) m) (\<lambda>value (s, m).
       if f_data_size field = 8 then ok () (s, store m dest (le_bytes 8 value))
       else if f_data_size field = 4 then
         (let m = store m dest (le_bytes 4 value); clamped = scast (ucast value :: u32) :: u64
          in if clamped \<noteq> value then ds_error s m ''integer too large'' else ok () (s, m))
       else if f_data_size field = 2 then
         (let m = store m dest (le_bytes 2 value); clamped = scast (ucast value :: 16 word) :: u64
          in if clamped \<noteq> value then ds_error s m ''integer too large'' else ok () (s, m))
       else if f_data_size field = 1 then
         (let m = store m dest (le_bytes 1 value); clamped = scast (ucast value :: 8 word) :: u64
          in if clamped \<noteq> value then ds_error s m ''integer too large'' else ok () (s, m))
       else ds_error s m ''invalid data_size'')"

definition pb_dec_fixed32 :: "pb_env \<Rightarrow> pb_istream \<Rightarrow> pb_field \<Rightarrow> addr \<Rightarrow> mem \<Rightarrow> (unit option \<times> dstate) run" where
  "pb_dec_fixed32 E s field dest m =
     check_do (on_stream (pb_decode_fixed32 E s) m) (\<lambda>value (s, m). ok () (s, store m dest (le_bytes 4 value)))"

definition pb_dec_fixed64 :: "pb_env \<Rightarrow> pb_istream \<Rightarrow> pb_field \<Rightarrow> addr \<Rightarrow> mem \<Rightarrow> (unit option \<times> dstate) run" where
  "pb_dec_fixed64 E s field dest m =
     check_do (on_stream (pb_decode_fixed64 E s) m) (\<lambda>value (s, m). ok () (s, store m dest (le_bytes 8 value)))"

section \<open>Bytes and strings\<close>

definition pb_dec_bytes :: "pb_env \<Rightarrow> pb_istream \<Rightarrow> pb_field \<Rightarrow> addr \<Rightarrow> mem \<Rightarrow> (unit option \<times> dstate) run" where
  "pb_dec_bytes E s field dest m =
     check_do (on_stream (pb_decode_varint32 E s) m) (\<lambda>size (s, m).
       if size > PB_SIZE_MAX then ds_error s m ''bytes overflow''
       else
         let alloc_size = PB_BYTES_ARRAY_T_ALLOCSIZE size in
         if ucast size > alloc_size then ds_error s m ''size too large''
         else if PB_ATYPE (f_type field) = PB_ATYPE_POINTER then ds_error s m ''no malloc support''
         else if alloc_size > ucast (f_data_size field) then ds_error s m ''bytes overflow''
         else pb_read_to E s (store_u32 m dest size) (dest + 4) (ucast size))"

text \<open>\<open>size + 1\<close> is computed in 32 bits and wraps to 0 for the largest size.\<close>

definition pb_dec_string :: "pb_env \<Rightarrow> pb_istream \<Rightarrow> pb_field \<Rightarrow> addr \<Rightarrow> mem \<Rightarrow> (unit option \<times> dstate) run" where
  "pb_dec_string E s field dest m =
     check_do (on_stream (pb_decode_varint32 E s) m) (\<lambda>size (s, m).
       let alloc_size = ucast (size + 1) :: u64 in
       if alloc_size < ucast size then ds_error s m ''size too large''
       else if PB_ATYPE (f_type field) = PB_ATYPE_POINTER then ds_error s m ''no malloc support''
       else if alloc_size > ucast (f_data_size field) then ds_error s m ''string overflow''
       else rbind (pb_read_to E s m dest (ucast size)) (\<lambda>(status, (s, m)).
         Ret (status, (s, store m (dest + ucast size) [0]))))"

definition pb_dec_fixed_length_bytes ::
  "pb_env \<Rightarrow> pb_istream \<Rightarrow> pb_field \<Rightarrow> addr \<Rightarrow> mem \<Rightarrow> (unit option \<times> dstate) run" where
  "pb_dec_fixed_length_bytes E s field dest m =
     check_do (on_stream (pb_decode_varint32 E s) m) (\<lambda>size (s, m).
       if size > PB_SIZE_MAX then ds_error s m ''bytes overflow''
       else if size = 0 then ok () (s, zero_fill m dest (unat (f_data_size field)))
       else if size \<noteq> f_data_size field then ds_error s m ''incorrect fixed length bytes size''
       else pb_read_to E s m dest (ucast (f_data_size field)))"

section \<open>Defaults of a message\<close>

text \<open>
  \<open>iter_from_extension\<close>: an iterator for the one field of an extension. A pointer extension
  keeps its pointer in the extension struct, at offset 8.
\<close>

definition iter_from_extension :: "pb_env \<Rightarrow> mem \<Rightarrow> addr \<Rightarrow> pb_field_iter" where
  "iter_from_extension E m ext =
     (let field = ext_arg (env_ext_types E (ext_type_ptr m ext));
          it = snd (pb_field_iter_begin [field] (ext_dest m ext))
      in it\<lparr>pData := (if PB_ATYPE (f_type field) = PB_ATYPE_POINTER then ext + 8 else ext_dest m ext),
            pSize := ext_found_addr ext\<rparr>)"

fun pb_message_set_to_defaults :: "nat \<Rightarrow> pb_env \<Rightarrow> pb_field list \<Rightarrow> addr \<Rightarrow> mem \<Rightarrow> mem run"
  and pb_field_set_to_default :: "nat \<Rightarrow> pb_env \<Rightarrow> pb_field_iter \<Rightarrow> mem \<Rightarrow> mem run"
  and ext_set_to_defaults :: "nat \<Rightarrow> pb_env \<Rightarrow> addr \<Rightarrow> mem \<Rightarrow> mem run" where
  "pb_message_set_to_defaults 0 E flds dest m = Fuel_Out"
| "pb_message_set_to_defaults (Suc n) E flds dest m =
     (if \<not> fst (pb_field_iter_begin flds dest) then Ret m
      else fields_do (\<lambda>it m. pb_field_set_to_default n E it m) (snd (pb_field_iter_begin flds dest)) m)"
| "pb_field_set_to_default 0 E it m = Fuel_Out"
| "pb_field_set_to_default (Suc n) E it m =
     (let f = cur_field it; type = f_type f in
      if PB_LTYPE type = PB_LTYPE_EXTENSION then ext_set_to_defaults n E (load_ptr m (pData it)) m
      else if PB_ATYPE type = PB_ATYPE_STATIC then
        if (PB_HTYPE type = PB_HTYPE_OPTIONAL \<and> pSize it \<noteq> pData it) \<or>
           \<not> (PB_HTYPE type = PB_HTYPE_REPEATED \<or> PB_HTYPE type = PB_HTYPE_ONEOF)
        then
          let m = (if PB_HTYPE type = PB_HTYPE_OPTIONAL \<and> pSize it \<noteq> pData it
                   then store_bool m (pSize it) False else m) in
          if PB_LTYPE type = PB_LTYPE_SUBMESSAGE
          then pb_message_set_to_defaults n E (env_tables E (f_ptr f)) (pData it) m
          else if f_ptr f \<noteq> 0
          then Ret (store m (pData it) (load m (f_ptr f) (unat (f_data_size f))))
          else Ret (zero_fill m (pData it) (unat (f_data_size f)))
        else Ret (store_u32 m (pSize it) 0)
      else if PB_ATYPE type = PB_ATYPE_POINTER then
        let m = store_ptr m (pData it) 0 in
        if PB_HTYPE type = PB_HTYPE_REPEATED \<or> PB_HTYPE type = PB_HTYPE_ONEOF
        then Ret (store_u32 m (pSize it) 0) else Ret m
      else Ret m)"
| "ext_set_to_defaults 0 E ext m = Fuel_Out"
| "ext_set_to_defaults (Suc n) E ext m =
     (if ext = 0 then Ret m
      else
        let m = store_bool m (ext_found_addr ext) False in
        rbind (pb_field_set_to_default n E (iter_from_extension E m ext) m)
          (\<lambda>m. ext_set_to_defaults n E (ext_next m ext) m))"

section \<open>Submessages and static fields\<close>

type_synonym msg_decoder = "pb_istream \<Rightarrow> pb_field list \<Rightarrow> addr \<Rightarrow> mem \<Rightarrow> (unit option \<times> dstate) run"

text \<open>
  \<open>pb_dec_submessage\<close>: \<open>n\<close> is the fuel of the defaults and \<open>noinit\<close> is \<open>pb_decode_noinit\<close>
  on the submessage. The substream is closed whether the submessage decoded or not.
\<close>

definition pb_dec_submessage ::
  "pb_env \<Rightarrow> nat \<Rightarrow> msg_decoder \<Rightarrow> pb_istream \<Rightarrow> pb_field \<Rightarrow> addr \<Rightarrow> mem \<Rightarrow> (unit option \<times> dstate) run" where
  "pb_dec_submessage E n noinit s field dest m =
     check_do (on_stream (pb_make_string_substream E s) m) (\<lambda>sub (s, m).
       if f_ptr field = 0 then ds_error s m ''invalid field descriptor''
       else
         let submsg_fields = env_tables E (f_ptr field) in
         rbind
           (if PB_HTYPE (f_type field) = PB_HTYPE_REPEATED
            then rbind (pb_message_set_to_defaults n E submsg_fields dest m)
                   (\<lambda>m. noinit sub submsg_fields dest m)
            else noinit sub submsg_fields dest m)
           (\<lambda>(status, (sub, m)).
              check_do (on_stream (pb_close_string_substream E s sub) m) (\<lambda>_ (s, m). Ret (status, (s, m)))))"

text \<open>The table \<open>PB_DECODERS\<close>: the entry for extensions is a null pointer.\<close>

definition PB_DECODERS ::
  "pb_env \<Rightarrow> nat \<Rightarrow> msg_decoder \<Rightarrow> pb_type_t \<Rightarrow> pb_istream \<Rightarrow> pb_field \<Rightarrow> addr \<Rightarrow> mem \<Rightarrow> (unit option \<times> dstate) run" where
  "PB_DECODERS E n noinit ltype s field dest m =
     (if ltype = PB_LTYPE_VARINT then pb_dec_varint E s field dest m
      else if ltype = PB_LTYPE_UVARINT then pb_dec_uvarint E s field dest m
      else if ltype = PB_LTYPE_SVARINT then pb_dec_svarint E s field dest m
      else if ltype = PB_LTYPE_FIXED32 then pb_dec_fixed32 E s field dest m
      else if ltype = PB_LTYPE_FIXED64 then pb_dec_fixed64 E s field dest m
      else if ltype = PB_LTYPE_BYTES then pb_dec_bytes E s field dest m
      else if ltype = PB_LTYPE_STRING then pb_dec_string E s field dest m
      else if ltype = PB_LTYPE_SUBMESSAGE then pb_dec_submessage E n noinit s field dest m
      else if ltype = PB_LTYPE_FIXED_LENGTH_BYTES then pb_dec_fixed_length_bytes E s field dest m
      else UB)"

text \<open>
  The loop over a packed array. The count lives in the message struct at \<open>size\<close>. Every pass
  that goes on has consumed a byte of the substream, so its limit bounds the passes.
\<close>

definition array_item :: "addr \<Rightarrow> pb_field \<Rightarrow> u32 \<Rightarrow> addr" where
  "array_item data f i = data + ucast (f_data_size f * i)"

fun packed_loop ::
  "nat \<Rightarrow> (pb_istream \<Rightarrow> addr \<Rightarrow> mem \<Rightarrow> (unit option \<times> dstate) run) \<Rightarrow> pb_field \<Rightarrow> addr \<Rightarrow> addr \<Rightarrow>
     pb_istream \<Rightarrow> mem \<Rightarrow> (bool \<times> dstate) run" where
  "packed_loop 0 func f data psize sub m = Fuel_Out"
| "packed_loop (Suc k) func f data psize sub m =
     (if bytes_left sub > 0 \<and> load_u32 m psize < f_array_size f then
        rbind (func sub (array_item data f (load_u32 m psize)) m) (\<lambda>(r, (sub, m)).
          case r of
            None \<Rightarrow> Ret (False, (sub, m))
          | Some _ \<Rightarrow> packed_loop k func f data psize sub (store_u32 m psize (load_u32 m psize + 1)))
      else Ret (True, (sub, m)))"

definition decode_static_field ::
  "pb_env \<Rightarrow> nat \<Rightarrow> msg_decoder \<Rightarrow> pb_istream \<Rightarrow> pb_wire_type_t \<Rightarrow> pb_field_iter \<Rightarrow> mem \<Rightarrow> (unit option \<times> dstate) run" where
  "decode_static_field E n noinit s wire_type it m =
     (let f = cur_field it; type = f_type f; func = PB_DECODERS E n noinit (PB_LTYPE type) in
      if PB_LTYPE type \<ge> PB_LTYPES_COUNT then UB
      else if PB_HTYPE type = PB_HTYPE_REQUIRED then func s f (pData it) m
      else if PB_HTYPE type = PB_HTYPE_OPTIONAL then
        func s f (pData it) (if pSize it \<noteq> pData it then store_bool m (pSize it) True else m)
      else if PB_HTYPE type = PB_HTYPE_REPEATED then
        if wire_type = PB_WT_STRING \<and> PB_LTYPE type \<le> PB_LTYPE_LAST_PACKABLE then
          check_do (on_stream (pb_make_string_substream E s) m) (\<lambda>sub (s, m).
            rbind (packed_loop (Suc (unat (bytes_left sub))) (\<lambda>s d m. func s f d m) f (pData it) (pSize it) sub m)
              (\<lambda>(status, (sub, m)).
                if bytes_left sub \<noteq> 0 then ds_error s m ''array overflow''
                else check_do (on_stream (pb_close_string_substream E s sub) m)
                       (\<lambda>_ (s, m). Ret (if status then Some () else None, (s, m)))))
        else
          let size = load_u32 m (pSize it) in
          if size \<ge> f_array_size f then ds_error s m ''array overflow''
          else func s f (array_item (pData it) f size) (store_u32 m (pSize it) (size + 1))
      else if PB_HTYPE type = PB_HTYPE_ONEOF then
        let m = store_u32 m (pSize it) (f_tag f) in
        if PB_LTYPE type = PB_LTYPE_SUBMESSAGE then
          rbind (pb_message_set_to_defaults n E (env_tables E (f_ptr f)) (pData it)
                   (zero_fill m (pData it) (unat (f_data_size f))))
            (\<lambda>m. func s f (pData it) m)
        else func s f (pData it) m
      else ds_error s m ''invalid field type'')"

section \<open>Pointer and callback fields\<close>

definition decode_pointer_field ::
  "pb_istream \<Rightarrow> pb_wire_type_t \<Rightarrow> pb_field_iter \<Rightarrow> mem \<Rightarrow> (unit option \<times> dstate) run" where
  "decode_pointer_field s wire_type it m = ds_error s m ''no malloc support''"

text \<open>
  The loop that calls the user's callback until it has read the whole substream; it does not
  end for a callback that returns true without reading.
\<close>

fun callback_loop ::
  "nat \<Rightarrow> pb_env \<Rightarrow> addr \<Rightarrow> pb_field \<Rightarrow> addr \<Rightarrow> pb_istream \<Rightarrow> mem \<Rightarrow> (unit option \<times> dstate) run" where
  "callback_loop 0 E fn f arg sub m = Fuel_Out"
| "callback_loop (Suc k) E fn f arg sub m =
     (case env_decode_cb E fn sub f arg m of (success, sub, m) \<Rightarrow>
        if \<not> success then fail (sub, m)
        else if bytes_left sub \<noteq> 0 then callback_loop k E fn f arg sub m
        else ok () (sub, m))"

definition decode_callback_field ::
  "pb_env \<Rightarrow> nat \<Rightarrow> pb_istream \<Rightarrow> pb_wire_type_t \<Rightarrow> pb_field_iter \<Rightarrow> mem \<Rightarrow> (unit option \<times> dstate) run" where
  "decode_callback_field E n s wire_type it m =
     (let f = cur_field it; fn = cb_funcs m (pData it); arg = cb_arg_addr (pData it) in
      if fn = 0 then on_stream (pb_skip_field E s wire_type) m
      else if wire_type = PB_WT_STRING then
        check_do (on_stream (pb_make_string_substream E s) m) (\<lambda>sub (s, m).
          rbind (callback_loop n E fn f arg sub m) (\<lambda>(r, (sub, m)).
            case r of
              None \<Rightarrow> ds_error s m ''callback failed''
            | Some _ \<Rightarrow> on_stream (pb_close_string_substream E s sub) m))
      else
        check_do (on_stream (read_raw_value E s wire_type 10) m) (\<lambda>buffer (s, m).
          case env_decode_cb E fn (pb_istream_from_buffer buffer (of_nat (length buffer))) f arg m of
            (success, sub, m) \<Rightarrow> if success then ok () (s, m) else fail (s, m)))"

definition decode_field ::
  "pb_env \<Rightarrow> nat \<Rightarrow> msg_decoder \<Rightarrow> pb_istream \<Rightarrow> pb_wire_type_t \<Rightarrow> pb_field_iter \<Rightarrow> mem \<Rightarrow> (unit option \<times> dstate) run" where
  "decode_field E n noinit s wire_type it m =
     (let atype = PB_ATYPE (f_type (cur_field it)) in
      if atype = PB_ATYPE_STATIC then decode_static_field E n noinit s wire_type it m
      else if atype = PB_ATYPE_POINTER then decode_pointer_field s wire_type it m
      else if atype = PB_ATYPE_CALLBACK then decode_callback_field E n s wire_type it m
      else ds_error s m ''invalid field type'')"

section \<open>Extensions\<close>

definition default_extension_decoder ::
  "pb_env \<Rightarrow> nat \<Rightarrow> msg_decoder \<Rightarrow> pb_istream \<Rightarrow> addr \<Rightarrow> u32 \<Rightarrow> pb_wire_type_t \<Rightarrow> mem \<Rightarrow> (unit option \<times> dstate) run" where
  "default_extension_decoder E n noinit s ext tag wire_type m =
     (let field = ext_arg (env_ext_types E (ext_type_ptr m ext)) in
      if f_tag field \<noteq> tag then ok () (s, m)
      else decode_field E n noinit s wire_type (iter_from_extension E m ext)
             (store_bool m (ext_found_addr ext) True))"

fun extension_loop ::
  "nat \<Rightarrow> pb_env \<Rightarrow> nat \<Rightarrow> msg_decoder \<Rightarrow> u64 \<Rightarrow> addr \<Rightarrow> pb_istream \<Rightarrow> u32 \<Rightarrow> pb_wire_type_t \<Rightarrow> mem \<Rightarrow>
     (unit option \<times> dstate) run" where
  "extension_loop 0 E n noinit pos ext s tag wire_type m = Fuel_Out"
| "extension_loop (Suc k) E n noinit pos ext s tag wire_type m =
     (if ext \<noteq> 0 \<and> pos = bytes_left s then
        check_do
          (case ext_decode (env_ext_types E (ext_type_ptr m ext)) of
             Some fn \<Rightarrow> (case env_ext_decode E fn s ext tag wire_type m of (success, s, m) \<Rightarrow>
                           if success then ok () (s, m) else fail (s, m))
           | None \<Rightarrow> default_extension_decoder E n noinit s ext tag wire_type m)
          (\<lambda>_ (s, m). extension_loop k E n noinit pos (ext_next m ext) s tag wire_type m)
      else ok () (s, m))"

definition decode_extension ::
  "pb_env \<Rightarrow> nat \<Rightarrow> msg_decoder \<Rightarrow> pb_istream \<Rightarrow> u32 \<Rightarrow> pb_wire_type_t \<Rightarrow> pb_field_iter \<Rightarrow> mem \<Rightarrow>
     (unit option \<times> dstate) run" where
  "decode_extension E n noinit s tag wire_type it m =
     extension_loop n E n noinit (bytes_left s) (load_ptr m (pData it)) s tag wire_type m"

definition find_extension_field :: "pb_field_iter \<Rightarrow> (bool \<times> pb_field_iter) run" where
  "find_extension_field it =
     iter_search (Suc (length (it_start it))) (\<lambda>f. PB_LTYPE (f_type f) = PB_LTYPE_EXTENSION) (it_pos it) it"

section \<open>The message loop\<close>

text \<open>
  An unknown tag: the extension field is looked for once and its tag remembered; the extensions
  of a tag at or above it are tried, and what they did not read is skipped. The result carries
  the iterator and the new \<open>extension_range_start\<close>.
\<close>

definition decode_unknown ::
  "pb_env \<Rightarrow> nat \<Rightarrow> msg_decoder \<Rightarrow> pb_istream \<Rightarrow> u32 \<Rightarrow> pb_wire_type_t \<Rightarrow> pb_field_iter \<Rightarrow> u32 \<Rightarrow> mem \<Rightarrow>
     ((pb_field_iter \<times> u32) option \<times> dstate) run" where
  "decode_unknown E n noinit s tag wire_type it xrange m =
     (if tag \<ge> xrange then
        rbind (find_extension_field it) (\<lambda>(found, it).
          let xrange = (if \<not> found then - 1 else f_tag (cur_field it)) in
          if tag \<ge> xrange then
            check_do (decode_extension E n noinit s tag wire_type it m) (\<lambda>_ (s', m).
              if bytes_left s \<noteq> bytes_left s' then ok (it, xrange) (s', m)
              else check_do (on_stream (pb_skip_field E s' wire_type) m) (\<lambda>_ (s, m). ok (it, xrange) (s, m)))
          else check_do (on_stream (pb_skip_field E s wire_type) m) (\<lambda>_ (s, m). ok (it, xrange) (s, m)))
      else check_do (on_stream (pb_skip_field E s wire_type) m) (\<lambda>_ (s, m). ok (it, xrange) (s, m)))"

definition mark_seen :: "pb_field_iter \<Rightarrow> u32 list \<Rightarrow> u32 list" where
  "mark_seen it seen =
     (let idx = required_field_index it in
      if PB_HTYPE (f_type (cur_field it)) = PB_HTYPE_REQUIRED \<and> unat idx < PB_MAX_REQUIRED_FIELDS
      then seen[unat (drop_bit 5 idx) := seen ! unat (drop_bit 5 idx) OR push_bit (unat (idx AND 31)) 1]
      else seen)"

fun decode_loop ::
  "nat \<Rightarrow> pb_env \<Rightarrow> nat \<Rightarrow> msg_decoder \<Rightarrow> pb_istream \<Rightarrow> pb_field_iter \<Rightarrow> u32 list \<Rightarrow> u32 \<Rightarrow> mem \<Rightarrow>
     ((pb_field_iter \<times> u32 list) option \<times> dstate) run" where
  "decode_loop 0 E n noinit s it seen xrange m = Fuel_Out"
| "decode_loop (Suc k) E n noinit s it seen xrange m =
     (if bytes_left s = 0 then ok (it, seen) (s, m)
      else rbind (pb_decode_tag E s) (\<lambda>((okay, wire_type, tag, eof), s).
        if \<not> okay then (if eof then ok (it, seen) (s, m) else fail (s, m))
        else rbind (pb_field_iter_find it tag) (\<lambda>(found, it).
          if \<not> found then
            check_do (decode_unknown E n noinit s tag wire_type it xrange m)
              (\<lambda>(it, xrange) (s, m). decode_loop k E n noinit s it seen xrange m)
          else
            let seen = mark_seen it seen in
            check_do (decode_field E n noinit s wire_type it m)
              (\<lambda>_ (s, m). decode_loop k E n noinit s it seen xrange m))))"

text \<open>The required fields: seek to the end of the table, then compare the bits.\<close>

function seek_end :: "pb_field_iter \<Rightarrow> u32 \<times> pb_type_t \<times> pb_field_iter" where
  "seek_end it =
     (if fst (pb_field_iter_next it) then seek_end (snd (pb_field_iter_next it))
      else (required_field_index it, f_type (cur_field it), snd (pb_field_iter_next it)))"
  by pat_completeness auto
termination
  by (relation "measure (\<lambda>it. length (it_start it) - it_pos it)") (auto dest!: iter_next_advances)

declare seek_end.simps [simp del]

text \<open>
  \<open>fields_seen\<close> has two words and a shift by the width of the type is undefined, so are the
  reads and the shift below when they happen.
\<close>

fun check_words :: "nat \<Rightarrow> nat \<Rightarrow> u32 list \<Rightarrow> bool run" where
  "check_words i 0 seen = Ret True"
| "check_words i (Suc k) seen =
     (if i \<ge> length seen then UB
      else if seen ! i \<noteq> - 1 then Ret False else check_words (Suc i) k seen)"

definition check_required :: "pb_field_iter \<Rightarrow> u32 list \<Rightarrow> bool run" where
  "check_required it seen =
     (case seek_end it of (count, last_type, it') \<Rightarrow>
        let req = (if PB_HTYPE last_type = PB_HTYPE_REQUIRED \<and> f_tag (cur_field it') \<noteq> 0
                   then count + 1 else count) in
        if req > 0 then
          rbind (check_words 0 (unat (drop_bit 5 req)) seen) (\<lambda>okay.
            if \<not> okay then Ret False
            else if unat (drop_bit 5 req) \<ge> length seen \<or> req AND 31 = 0 then UB
            else Ret (seen ! unat (drop_bit 5 req) = drop_bit (32 - unat (req AND 31)) (- 1)))
        else Ret True)"

text \<open>
  One level of \<open>pb_decode_noinit\<close>, over the decoder of the levels below, and the knot. The
  fuel of a level bounds its loops and the depth below it.
\<close>

definition decode_message :: "pb_env \<Rightarrow> nat \<Rightarrow> msg_decoder \<Rightarrow> msg_decoder" where
  "decode_message E n noinit s flds dest m =
     check_do (decode_loop n E n noinit s (snd (pb_field_iter_begin flds dest)) [0, 0] 0 m)
       (\<lambda>(it, seen) (s, m).
          rbind (check_required it seen) (\<lambda>okay.
            if okay then ok () (s, m) else ds_error s m ''missing required field''))"

primrec pb_decode_noinit :: "nat \<Rightarrow> pb_env \<Rightarrow> msg_decoder" where
  "pb_decode_noinit 0 E = (\<lambda>s flds dest m. Fuel_Out)"
| "pb_decode_noinit (Suc n) E = decode_message E n (pb_decode_noinit n E)"

definition pb_decode :: "nat \<Rightarrow> pb_env \<Rightarrow> msg_decoder" where
  "pb_decode n E s flds dest m =
     rbind (pb_message_set_to_defaults n E flds dest m) (\<lambda>m. pb_decode_noinit n E s flds dest m)"

definition pb_decode_delimited :: "nat \<Rightarrow> pb_env \<Rightarrow> msg_decoder" where
  "pb_decode_delimited n E s flds dest m =
     check_do (on_stream (pb_make_string_substream E s) m) (\<lambda>sub (s, m).
       rbind (pb_decode n E sub flds dest m) (\<lambda>(status, (sub, m)).
         check_do (on_stream (pb_close_string_substream E s sub) m) (\<lambda>_ (s, m). Ret (status, (s, m)))))"

end
