(* ===== verification/Pb_Ostream.thy ===== *)
theory Pb_Ostream
  imports Pb
begin

text \<open>
  \<open>Pods/nanopb/pb_encode.c\<close>, the stream layer: \<open>pb_write\<close>, the memory stream, and the
  encoders of varints, fixed-width values, tags and strings. The bytes they write are the subject
  of \<open>Pb_Wire\<close>, and how a stream takes them that of \<open>Pb_Emit\<close>.
\<close>

section \<open>Writing\<close>

text \<open>\<open>buf_write\<close>: the bytes go to the state pointer, which advances.\<close>

definition buf_write :: "pb_ostream \<Rightarrow> byte list \<Rightarrow> (unit option \<times> pb_ostream) run" where
  "buf_write s buf =
     (if length (os_buf s) < os_pos s + length buf then UB
      else ok () (s\<lparr>os_buf := take (os_pos s) (os_buf s) @ buf @ drop (os_pos s + length buf) (os_buf s),
                    os_pos := os_pos s + length buf\<rparr>))"

definition pb_ostream_from_buffer :: "byte list \<Rightarrow> u64 \<Rightarrow> pb_ostream" where
  "pb_ostream_from_buffer buf bufsize =
     \<lparr>os_callback = Buf_Write, os_buf = buf, os_pos = 0, max_size = bufsize, bytes_written = 0,
      os_errmsg = None\<rparr>"

definition call_write :: "pb_env \<Rightarrow> pb_ostream \<Rightarrow> byte list \<Rightarrow> (unit option \<times> pb_ostream) run" where
  "call_write E s buf =
     (case os_callback s of
        Null_Write \<Rightarrow> ok () s
      | Buf_Write \<Rightarrow> buf_write s buf
      | User_Write i \<Rightarrow>
          (case env_write E i (os_buf s) (os_pos s) buf of (success, st, pos) \<Rightarrow>
             if success then ok () (s\<lparr>os_buf := st, os_pos := pos\<rparr>)
             else fail (s\<lparr>os_buf := st, os_pos := pos\<rparr>)))"

text \<open>\<open>pb_write\<close> of the bytes \<open>buf\<close>; the sum of the bound check is a \<open>size_t\<close>.\<close>

definition pb_write :: "pb_env \<Rightarrow> pb_ostream \<Rightarrow> byte list \<Rightarrow> (unit option \<times> pb_ostream) run" where
  "pb_write E s buf =
     (let count = of_nat (length buf) :: u64 in
      if os_callback s \<noteq> Null_Write then
        if bytes_written s + count > max_size s then os_return_error s ''stream full''
        else try_do (call_write E s buf)
               (\<lambda>_ s. ok () (s\<lparr>bytes_written := bytes_written s + count\<rparr>))
               (\<lambda>s. os_set_error s ''io error'')
      else ok () (s\<lparr>bytes_written := bytes_written s + count\<rparr>))"

text \<open>\<open>pb_write(stream, NULL, size)\<close>, which the encoders call on a sizing stream only.\<close>

definition pb_write_null :: "pb_ostream \<Rightarrow> u64 \<Rightarrow> (unit option \<times> pb_ostream) run" where
  "pb_write_null s count =
     (if os_callback s = Null_Write then ok () (s\<lparr>bytes_written := bytes_written s + count\<rparr>) else UB)"

section \<open>Encoders\<close>

text \<open>The loop of \<open>pb_encode_varint\<close> fills \<open>buffer\<close>, which has ten bytes.\<close>

function enc_varint_loop :: "u64 \<Rightarrow> byte list \<Rightarrow> byte list" where
  "enc_varint_loop value buffer =
     (if value \<noteq> 0
      then enc_varint_loop (drop_bit 7 value) (buffer @ [ucast ((value AND 0x7F) OR 0x80)])
      else buffer)"
  by pat_completeness auto
termination
proof (relation "measure (\<lambda>(value, buffer). unat value)")
  fix v :: u64 and buffer :: "byte list"
  assume "v \<noteq> 0"
  then have "0 < unat v" by (simp add: unat_gt_0)
  then have "unat v div 128 < unat v" by simp
  then show "((drop_bit 7 v, buffer @ [ucast ((v AND 0x7F) OR 0x80)]), v, buffer)
      \<in> measure (\<lambda>(value, buffer). unat value)"
    by (simp add: drop_bit_eq_div unat_div)
qed simp

declare enc_varint_loop.simps [simp del]

definition pb_encode_varint :: "pb_env \<Rightarrow> pb_ostream \<Rightarrow> u64 \<Rightarrow> (unit option \<times> pb_ostream) run" where
  "pb_encode_varint E s value =
     (if value \<le> 0x7F then pb_write E s [ucast value]
      else
        let buffer = enc_varint_loop value [];
            i = length buffer
        in pb_write E s (buffer[i - 1 := buffer ! (i - 1) AND 0x7F]))"

definition pb_encode_svarint :: "pb_env \<Rightarrow> pb_ostream \<Rightarrow> u64 \<Rightarrow> (unit option \<times> pb_ostream) run" where
  "pb_encode_svarint E s value =
     (let zigzagged = (if value <s 0 then NOT (push_bit 1 value) else push_bit 1 value)
      in pb_encode_varint E s zigzagged)"

definition pb_encode_fixed32 :: "pb_env \<Rightarrow> pb_ostream \<Rightarrow> u32 \<Rightarrow> (unit option \<times> pb_ostream) run" where
  "pb_encode_fixed32 E s val =
     pb_write E s [ucast (val AND 0xFF), ucast (drop_bit 8 val AND 0xFF),
       ucast (drop_bit 16 val AND 0xFF), ucast (drop_bit 24 val AND 0xFF)]"

definition pb_encode_fixed64 :: "pb_env \<Rightarrow> pb_ostream \<Rightarrow> u64 \<Rightarrow> (unit option \<times> pb_ostream) run" where
  "pb_encode_fixed64 E s val =
     pb_write E s [ucast (val AND 0xFF), ucast (drop_bit 8 val AND 0xFF),
       ucast (drop_bit 16 val AND 0xFF), ucast (drop_bit 24 val AND 0xFF),
       ucast (drop_bit 32 val AND 0xFF), ucast (drop_bit 40 val AND 0xFF),
       ucast (drop_bit 48 val AND 0xFF), ucast (drop_bit 56 val AND 0xFF)]"

definition pb_encode_tag :: "pb_env \<Rightarrow> pb_ostream \<Rightarrow> pb_wire_type_t \<Rightarrow> u32 \<Rightarrow> (unit option \<times> pb_ostream) run" where
  "pb_encode_tag E s wiretype field_number =
     pb_encode_varint E s (push_bit 3 (ucast field_number) OR ucast wiretype)"

definition pb_encode_tag_for_field :: "pb_env \<Rightarrow> pb_ostream \<Rightarrow> pb_field \<Rightarrow> (unit option \<times> pb_ostream) run" where
  "pb_encode_tag_for_field E s field =
     (let ltype = PB_LTYPE (f_type field) in
      if ltype = PB_LTYPE_VARINT \<or> ltype = PB_LTYPE_UVARINT \<or> ltype = PB_LTYPE_SVARINT
      then pb_encode_tag E s PB_WT_VARINT (f_tag field)
      else if ltype = PB_LTYPE_FIXED32 then pb_encode_tag E s PB_WT_32BIT (f_tag field)
      else if ltype = PB_LTYPE_FIXED64 then pb_encode_tag E s PB_WT_64BIT (f_tag field)
      else if ltype = PB_LTYPE_BYTES \<or> ltype = PB_LTYPE_STRING \<or> ltype = PB_LTYPE_SUBMESSAGE \<or>
              ltype = PB_LTYPE_FIXED_LENGTH_BYTES
      then pb_encode_tag E s PB_WT_STRING (f_tag field)
      else os_return_error s ''invalid field type'')"

definition pb_encode_string :: "pb_env \<Rightarrow> pb_ostream \<Rightarrow> byte list \<Rightarrow> (unit option \<times> pb_ostream) run" where
  "pb_encode_string E s buffer =
     check_do (pb_encode_varint E s (of_nat (length buffer))) (\<lambda>_ s. pb_write E s buffer)"

end
