(* ===== verification/Pb_Encode.thy ===== *)
theory Pb_Encode
  imports Pb_Common Pb_Ostream
begin

text \<open>
  \<open>Pods/nanopb/pb_encode.c\<close>, the message layer: field encoders, arrays, callbacks, extensions,
  submessages and \<open>pb_encode\<close>. The message is read from the memory \<open>m\<close>, which encoding does
  not write: the output buffer is an object of its own. Recursion takes the encoder of the
  submessage as the argument \<open>rec\<close> and is tied by fuel in \<open>pb_encode\<close>.
\<close>

section \<open>Scalar and string encoders\<close>

text \<open>The bytes of a signed or unsigned integer of the field's size, widened to 64 bits.\<close>

definition pb_enc_varint :: "pb_env \<Rightarrow> mem \<Rightarrow> pb_ostream \<Rightarrow> pb_field \<Rightarrow> addr \<Rightarrow> (unit option \<times> pb_ostream) run" where
  "pb_enc_varint E m s field src =
     (if f_data_size field = 1 then pb_encode_varint E s (scast (le_word (load m src 1) :: 8 word))
      else if f_data_size field = 2 then pb_encode_varint E s (scast (le_word (load m src 2) :: 16 word))
      else if f_data_size field = 4 then pb_encode_varint E s (scast (le_word (load m src 4) :: 32 word))
      else if f_data_size field = 8 then pb_encode_varint E s (le_word (load m src 8))
      else os_return_error s ''invalid data_size'')"

definition pb_enc_uvarint :: "pb_env \<Rightarrow> mem \<Rightarrow> pb_ostream \<Rightarrow> pb_field \<Rightarrow> addr \<Rightarrow> (unit option \<times> pb_ostream) run" where
  "pb_enc_uvarint E m s field src =
     (if f_data_size field = 1 then pb_encode_varint E s (ucast (le_word (load m src 1) :: 8 word))
      else if f_data_size field = 2 then pb_encode_varint E s (ucast (le_word (load m src 2) :: 16 word))
      else if f_data_size field = 4 then pb_encode_varint E s (ucast (le_word (load m src 4) :: 32 word))
      else if f_data_size field = 8 then pb_encode_varint E s (le_word (load m src 8))
      else os_return_error s ''invalid data_size'')"

definition pb_enc_svarint :: "pb_env \<Rightarrow> mem \<Rightarrow> pb_ostream \<Rightarrow> pb_field \<Rightarrow> addr \<Rightarrow> (unit option \<times> pb_ostream) run" where
  "pb_enc_svarint E m s field src =
     (if f_data_size field = 1 then pb_encode_svarint E s (scast (le_word (load m src 1) :: 8 word))
      else if f_data_size field = 2 then pb_encode_svarint E s (scast (le_word (load m src 2) :: 16 word))
      else if f_data_size field = 4 then pb_encode_svarint E s (scast (le_word (load m src 4) :: 32 word))
      else if f_data_size field = 8 then pb_encode_svarint E s (le_word (load m src 8))
      else os_return_error s ''invalid data_size'')"

definition pb_enc_fixed32 :: "pb_env \<Rightarrow> mem \<Rightarrow> pb_ostream \<Rightarrow> pb_field \<Rightarrow> addr \<Rightarrow> (unit option \<times> pb_ostream) run" where
  "pb_enc_fixed32 E m s field src = pb_encode_fixed32 E s (le_word (load m src 4))"

definition pb_enc_fixed64 :: "pb_env \<Rightarrow> mem \<Rightarrow> pb_ostream \<Rightarrow> pb_field \<Rightarrow> addr \<Rightarrow> (unit option \<times> pb_ostream) run" where
  "pb_enc_fixed64 E m s field src = pb_encode_fixed64 E s (le_word (load m src 8))"

definition pb_enc_bytes :: "pb_env \<Rightarrow> mem \<Rightarrow> pb_ostream \<Rightarrow> pb_field \<Rightarrow> addr \<Rightarrow> (unit option \<times> pb_ostream) run" where
  "pb_enc_bytes E m s field src =
     (if src = 0 then pb_encode_string E s []
      else if PB_ATYPE (f_type field) = PB_ATYPE_STATIC \<and>
              PB_BYTES_ARRAY_T_ALLOCSIZE (load_u32 m src) > ucast (f_data_size field)
      then os_return_error s ''bytes size exceeded''
      else pb_encode_string E s (load m (src + 4) (unat (load_u32 m src))))"

text \<open>The length loop of \<open>pb_enc_string\<close>: up to \<open>k\<close> more bytes.\<close>

fun string_length :: "mem \<Rightarrow> addr \<Rightarrow> nat \<Rightarrow> nat" where
  "string_length m p 0 = 0"
| "string_length m p (Suc k) = (if m p \<noteq> 0 then Suc (string_length m (p + 1) k) else 0)"

definition pb_enc_string :: "pb_env \<Rightarrow> mem \<Rightarrow> pb_ostream \<Rightarrow> pb_field \<Rightarrow> addr \<Rightarrow> (unit option \<times> pb_ostream) run" where
  "pb_enc_string E m s field src =
     (let max_sz = (if PB_ATYPE (f_type field) = PB_ATYPE_POINTER then 2 ^ 64 - 1
                    else unat (f_data_size field)) in
      if src = 0 then pb_encode_string E s []
      else pb_encode_string E s (load m src (string_length m src max_sz)))"

definition pb_enc_fixed_length_bytes ::
  "pb_env \<Rightarrow> mem \<Rightarrow> pb_ostream \<Rightarrow> pb_field \<Rightarrow> addr \<Rightarrow> (unit option \<times> pb_ostream) run" where
  "pb_enc_fixed_length_bytes E m s field src =
     pb_encode_string E s (load m src (unat (f_data_size field)))"

section \<open>Submessages\<close>

type_synonym msg_encoder = "pb_ostream \<Rightarrow> pb_field list \<Rightarrow> addr \<Rightarrow> (unit option \<times> pb_ostream) run"

text \<open>The message is encoded twice: on a sizing stream and, limited to that size, for real.\<close>

definition pb_encode_submessage ::
  "pb_env \<Rightarrow> msg_encoder \<Rightarrow> pb_ostream \<Rightarrow> pb_field list \<Rightarrow> addr \<Rightarrow> (unit option \<times> pb_ostream) run" where
  "pb_encode_submessage E rec s flds src =
     rbind (rec PB_OSTREAM_SIZING flds src) (\<lambda>(r, substream).
       case r of
         None \<Rightarrow> fail (s\<lparr>os_errmsg := os_errmsg substream\<rparr>)
       | Some _ \<Rightarrow>
           let sz = bytes_written substream in
           check_do (pb_encode_varint E s sz) (\<lambda>_ s.
             if os_callback s = Null_Write then pb_write_null s sz
             else if bytes_written s + sz > max_size s then os_return_error s ''stream full''
             else
               rbind (rec (substream\<lparr>os_callback := os_callback s, os_buf := os_buf s, os_pos := os_pos s,
                             max_size := sz, bytes_written := 0, os_errmsg := None\<rparr>) flds src)
                 (\<lambda>(status, substream).
                    let s = s\<lparr>bytes_written := bytes_written s + bytes_written substream,
                              os_buf := os_buf substream, os_pos := os_pos substream,
                              os_errmsg := os_errmsg substream\<rparr> in
                    if bytes_written substream \<noteq> sz then os_return_error s ''submsg size changed''
                    else Ret (status, s))))"

definition pb_enc_submessage ::
  "pb_env \<Rightarrow> msg_encoder \<Rightarrow> pb_ostream \<Rightarrow> pb_field \<Rightarrow> addr \<Rightarrow> (unit option \<times> pb_ostream) run" where
  "pb_enc_submessage E rec s field src =
     (if f_ptr field = 0 then os_return_error s ''invalid field descriptor''
      else pb_encode_submessage E rec s (env_tables E (f_ptr field)) src)"

text \<open>The table \<open>PB_ENCODERS\<close>: the entry for extensions is a null pointer.\<close>

definition PB_ENCODERS ::
  "pb_env \<Rightarrow> mem \<Rightarrow> msg_encoder \<Rightarrow> pb_type_t \<Rightarrow> pb_ostream \<Rightarrow> pb_field \<Rightarrow> addr \<Rightarrow> (unit option \<times> pb_ostream) run" where
  "PB_ENCODERS E m rec ltype s field src =
     (if ltype = PB_LTYPE_VARINT then pb_enc_varint E m s field src
      else if ltype = PB_LTYPE_UVARINT then pb_enc_uvarint E m s field src
      else if ltype = PB_LTYPE_SVARINT then pb_enc_svarint E m s field src
      else if ltype = PB_LTYPE_FIXED32 then pb_enc_fixed32 E m s field src
      else if ltype = PB_LTYPE_FIXED64 then pb_enc_fixed64 E m s field src
      else if ltype = PB_LTYPE_BYTES then pb_enc_bytes E m s field src
      else if ltype = PB_LTYPE_STRING then pb_enc_string E m s field src
      else if ltype = PB_LTYPE_SUBMESSAGE then pb_enc_submessage E rec s field src
      else if ltype = PB_LTYPE_FIXED_LENGTH_BYTES then pb_enc_fixed_length_bytes E m s field src
      else UB)"

section \<open>Arrays\<close>

text \<open>
  The loops over the items: \<open>p\<close> walks the array in steps of \<open>data_size\<close>; an item of a pointer
  array of strings or bytes is itself a pointer.
\<close>

fun items_loop ::
  "(pb_ostream \<Rightarrow> addr \<Rightarrow> (unit option \<times> pb_ostream) run) \<Rightarrow> u32 \<Rightarrow> nat \<Rightarrow> addr \<Rightarrow> pb_ostream \<Rightarrow>
     (unit option \<times> pb_ostream) run" where
  "items_loop body dsize 0 p s = ok () s"
| "items_loop body dsize (Suc k) p s =
     check_do (body s p) (\<lambda>_ s. items_loop body dsize k (p + ucast dsize) s)"

definition encode_array ::
  "pb_env \<Rightarrow> mem \<Rightarrow> msg_encoder \<Rightarrow> pb_ostream \<Rightarrow> pb_field \<Rightarrow> addr \<Rightarrow> u64 \<Rightarrow> (unit option \<times> pb_ostream) run" where
  "encode_array E m rec s field data count =
     (let ltype = PB_LTYPE (f_type field); func = PB_ENCODERS E m rec ltype in
      if count = 0 then ok () s
      else if PB_ATYPE (f_type field) \<noteq> PB_ATYPE_POINTER \<and> count > ucast (f_array_size field)
      then os_return_error s ''array max size exceeded''
      else if ltype \<le> PB_LTYPE_LAST_PACKABLE then
        check_do (pb_encode_tag E s PB_WT_STRING (f_tag field)) (\<lambda>_ s.
          rbind (if ltype = PB_LTYPE_FIXED32 then Ret (Some (), PB_OSTREAM_SIZING\<lparr>bytes_written := 4 * count\<rparr>)
                 else if ltype = PB_LTYPE_FIXED64 then Ret (Some (), PB_OSTREAM_SIZING\<lparr>bytes_written := 8 * count\<rparr>)
                 else items_loop (\<lambda>s p. func s field p) (f_data_size field) (unat count) data PB_OSTREAM_SIZING)
            (\<lambda>(r, sizestream).
               case r of
                 None \<Rightarrow> fail s
               | Some _ \<Rightarrow>
                   let sz = bytes_written sizestream in
                   check_do (pb_encode_varint E s sz) (\<lambda>_ s.
                     if os_callback s = Null_Write then pb_write_null s sz
                     else items_loop (\<lambda>s p. func s field p) (f_data_size field) (unat count) data s)))
      else
        items_loop (\<lambda>s p.
            check_do (pb_encode_tag_for_field E s field) (\<lambda>_ s.
              if PB_ATYPE (f_type field) = PB_ATYPE_POINTER \<and>
                 (ltype = PB_LTYPE_STRING \<or> ltype = PB_LTYPE_BYTES)
              then func s field (load_ptr m p) else func s field p))
          (f_data_size field) (unat count) data s)"

section \<open>Proto3 defaults\<close>

text \<open>
  \<open>pb_check_proto3_default_value\<close>: for a submessage, every field of it is looked at
  (\<open>fields_all\<close>, a loop over the iterator that ends at the first field that is not default).
\<close>

function fields_all :: "(pb_field_iter \<Rightarrow> bool run) \<Rightarrow> pb_field_iter \<Rightarrow> bool run" where
  "fields_all P it =
     rbind (P it) (\<lambda>b.
       if \<not> b then Ret False
       else if fst (pb_field_iter_next it) then fields_all P (snd (pb_field_iter_next it)) else Ret True)"
  by pat_completeness auto
termination
  by (relation "measure (\<lambda>(P, it). length (it_start it) - it_pos it)")
    (auto dest!: iter_next_advances)

declare fields_all.simps [simp del]

lemma fields_all_cong [fundef_cong]:
  "it = it' \<Longrightarrow> (\<And>i. P i = P' i) \<Longrightarrow> fields_all P it = fields_all P' it'"
proof -
  assume "\<And>i. P i = P' i" and eqs: "it = it'"
  then have "P = P'" by (intro ext)
  with eqs show ?thesis by simp
qed

fun pb_check_proto3_default_value :: "nat \<Rightarrow> pb_env \<Rightarrow> mem \<Rightarrow> pb_field \<Rightarrow> addr \<Rightarrow> bool run" where
  "pb_check_proto3_default_value 0 E m field data = Fuel_Out"
| "pb_check_proto3_default_value (Suc n) E m field data =
     (let ltype = PB_LTYPE (f_type field) in
      if PB_ATYPE (f_type field) = PB_ATYPE_STATIC \<and> ltype = PB_LTYPE_BYTES
      then Ret (load_u32 m data = 0)
      else if PB_ATYPE (f_type field) = PB_ATYPE_STATIC \<and> ltype = PB_LTYPE_STRING
      then Ret (m data = 0)
      else if PB_ATYPE (f_type field) = PB_ATYPE_STATIC \<and> ltype = PB_LTYPE_FIXED_LENGTH_BYTES
      then Ret (f_data_size field = 0)
      else if PB_ATYPE (f_type field) = PB_ATYPE_STATIC \<and> ltype = PB_LTYPE_SUBMESSAGE
      then
        (if fst (pb_field_iter_begin (env_tables E (f_ptr field)) data)
         then fields_all (\<lambda>it. pb_check_proto3_default_value n E m (cur_field it) (pData it))
                (snd (pb_field_iter_begin (env_tables E (f_ptr field)) data))
         else Ret True)
      else Ret (\<forall>b \<in> set (load m data (unat (f_data_size field))). b = 0))"

section \<open>Fields\<close>

text \<open>
  \<open>pSize\<close> points into the message or to the local \<open>implicit_has\<close>, a single byte: reading it
  as a count would read past it.
\<close>

definition read_has :: "mem \<Rightarrow> addr option \<Rightarrow> bool \<Rightarrow> bool" where
  "read_has m psize implicit_has = (case psize of Some p \<Rightarrow> load_bool m p | None \<Rightarrow> implicit_has)"

definition read_count :: "mem \<Rightarrow> addr option \<Rightarrow> u32 run" where
  "read_count m psize = (case psize of Some p \<Rightarrow> Ret (load_u32 m p) | None \<Rightarrow> UB)"

definition encode_basic_field ::
  "pb_env \<Rightarrow> nat \<Rightarrow> mem \<Rightarrow> msg_encoder \<Rightarrow> pb_ostream \<Rightarrow> pb_field \<Rightarrow> addr \<Rightarrow> (unit option \<times> pb_ostream) run" where
  "encode_basic_field E n m rec s field data =
     (let type = f_type field; func = PB_ENCODERS E m rec (PB_LTYPE type) in
      if PB_LTYPE type \<ge> PB_LTYPES_COUNT then UB
      else
        rbind (if f_size_offset field \<noteq> 0 then Ret (Some (data + scast (f_size_offset field)), True)
               else if PB_HTYPE type = PB_HTYPE_OPTIONAL
               then rbind (pb_check_proto3_default_value n E m field data) (\<lambda>b. Ret (None, \<not> b))
               else Ret (None, True))
          (\<lambda>(psize, implicit_has).
             let pdata = (if PB_ATYPE type = PB_ATYPE_POINTER then load_ptr m data else data);
                 implicit_has = (if PB_ATYPE type = PB_ATYPE_POINTER then pdata \<noteq> 0 else implicit_has) in
             if PB_HTYPE type = PB_HTYPE_REQUIRED then
               if pdata = 0 then os_return_error s ''missing required field''
               else check_do (pb_encode_tag_for_field E s field) (\<lambda>_ s. func s field pdata)
             else if PB_HTYPE type = PB_HTYPE_OPTIONAL then
               if read_has m psize implicit_has
               then check_do (pb_encode_tag_for_field E s field) (\<lambda>_ s. func s field pdata)
               else ok () s
             else if PB_HTYPE type = PB_HTYPE_REPEATED then
               rbind (read_count m psize) (\<lambda>count. encode_array E m rec s field pdata (ucast count))
             else if PB_HTYPE type = PB_HTYPE_ONEOF then
               rbind (read_count m psize) (\<lambda>which.
                 if which = f_tag field
                 then check_do (pb_encode_tag_for_field E s field) (\<lambda>_ s. func s field pdata)
                 else ok () s)
             else os_return_error s ''invalid field type''))"

definition encode_callback_field ::
  "pb_env \<Rightarrow> mem \<Rightarrow> pb_ostream \<Rightarrow> pb_field \<Rightarrow> addr \<Rightarrow> (unit option \<times> pb_ostream) run" where
  "encode_callback_field E m s field data =
     (if cb_funcs m data \<noteq> 0 then
        (case env_encode_cb E (cb_funcs m data) s field (cb_arg_addr data) m of (success, s) \<Rightarrow>
           if success then ok () s else os_return_error s ''callback error'')
      else ok () s)"

definition encode_field ::
  "pb_env \<Rightarrow> nat \<Rightarrow> mem \<Rightarrow> msg_encoder \<Rightarrow> pb_ostream \<Rightarrow> pb_field \<Rightarrow> addr \<Rightarrow> (unit option \<times> pb_ostream) run" where
  "encode_field E n m rec s field data =
     (let atype = PB_ATYPE (f_type field) in
      if atype = PB_ATYPE_STATIC \<or> atype = PB_ATYPE_POINTER then encode_basic_field E n m rec s field data
      else if atype = PB_ATYPE_CALLBACK then encode_callback_field E m s field data
      else os_return_error s ''invalid field type'')"

definition default_extension_encoder ::
  "pb_env \<Rightarrow> nat \<Rightarrow> mem \<Rightarrow> msg_encoder \<Rightarrow> pb_ostream \<Rightarrow> addr \<Rightarrow> (unit option \<times> pb_ostream) run" where
  "default_extension_encoder E n m rec s ext =
     (let field = ext_arg (env_ext_types E (ext_type_ptr m ext)) in
      if PB_ATYPE (f_type field) = PB_ATYPE_POINTER then encode_field E n m rec s field (ext + 8)
      else encode_field E n m rec s field (ext_dest m ext))"

fun encode_extension_field ::
  "nat \<Rightarrow> pb_env \<Rightarrow> nat \<Rightarrow> mem \<Rightarrow> msg_encoder \<Rightarrow> pb_ostream \<Rightarrow> addr \<Rightarrow> (unit option \<times> pb_ostream) run" where
  "encode_extension_field 0 E n m rec s ext = Fuel_Out"
| "encode_extension_field (Suc k) E n m rec s ext =
     (if ext = 0 then ok () s
      else check_do
        (case ext_encode (env_ext_types E (ext_type_ptr m ext)) of
           Some fn \<Rightarrow> (case env_ext_encode E fn s ext m of (success, s) \<Rightarrow> if success then ok () s else fail s)
         | None \<Rightarrow> default_extension_encoder E n m rec s ext)
        (\<lambda>_ s. encode_extension_field k E n m rec s (ext_next m ext)))"

section \<open>Messages\<close>

definition encode_one ::
  "pb_env \<Rightarrow> nat \<Rightarrow> mem \<Rightarrow> msg_encoder \<Rightarrow> pb_field_iter \<Rightarrow> pb_ostream \<Rightarrow> (unit option \<times> pb_ostream) run" where
  "encode_one E n m rec it s =
     (if PB_LTYPE (f_type (cur_field it)) = PB_LTYPE_EXTENSION
      then encode_extension_field n E n m rec s (load_ptr m (pData it))
      else encode_field E n m rec s (cur_field it) (pData it))"

text \<open>One level of \<open>pb_encode\<close> over the encoder of the levels below, and the knot.\<close>

definition encode_message :: "pb_env \<Rightarrow> nat \<Rightarrow> mem \<Rightarrow> msg_encoder \<Rightarrow> msg_encoder" where
  "encode_message E n m rec s flds src =
     (if \<not> fst (pb_field_iter_begin flds src) then ok () s
      else fields_loop (encode_one E n m rec) (snd (pb_field_iter_begin flds src)) s)"

primrec pb_encode :: "nat \<Rightarrow> pb_env \<Rightarrow> mem \<Rightarrow> msg_encoder" where
  "pb_encode 0 E m = (\<lambda>s flds src. Fuel_Out)"
| "pb_encode (Suc n) E m = encode_message E n m (pb_encode n E m)"

definition pb_encode_delimited :: "nat \<Rightarrow> pb_env \<Rightarrow> mem \<Rightarrow> msg_encoder" where
  "pb_encode_delimited n E m s flds src = pb_encode_submessage E (pb_encode n E m) s flds src"

definition pb_get_encoded_size :: "nat \<Rightarrow> pb_env \<Rightarrow> mem \<Rightarrow> pb_field list \<Rightarrow> addr \<Rightarrow> u64 option run" where
  "pb_get_encoded_size n E m flds src =
     rbind (pb_encode n E m PB_OSTREAM_SIZING flds src) (\<lambda>(r, stream).
       Ret (case r of None \<Rightarrow> None | Some _ \<Rightarrow> Some (bytes_written stream)))"

end
