(* ===== verification/Pb_Example.thy ===== *)
theory Pb_Example
  imports Pb_Decode Pb_Encode
begin

text \<open>
  A small protocol for concrete runs: a message with a required \<open>int32\<close>, an optional string of
  at most 7 characters, a repeated packed \<open>uint32\<close> of at most 3 items and an optional submessage
  with one required \<open>int32\<close>, laid out as a compiler lays out the generated struct. The
  environment has no callbacks and no extensions of the user.
\<close>

definition sub_fields :: "pb_field list" where
  "sub_fields = [PB_REQUIRED_STATIC 1 0 PB_LTYPE_VARINT 4 0]"

definition no_callbacks :: pb_env where
  "no_callbacks =
     \<lparr>env_tables = (\<lambda>a. if a = 0x100 then sub_fields else []),
      env_ext_types = (\<lambda>_. \<lparr>ext_decode = None, ext_encode = None, ext_arg = PB_LAST_FIELD\<rparr>),
      env_read = (\<lambda>i st count. (False, (\<lambda>_. 0), st)),
      env_write = (\<lambda>i buf pos bs. (False, buf, pos)),
      env_decode_cb = (\<lambda>fn s f arg m. (False, s, m)),
      env_encode_cb = (\<lambda>fn s f arg m. (False, s)),
      env_ext_decode = (\<lambda>fn s ext tag wt m. (False, s, m)),
      env_ext_encode = (\<lambda>fn s ext m. (False, s))\<rparr>"

text \<open>
  \<open>struct { int32_t a; bool has_name; char name[8]; pb_size_t items_count; uint32_t items[3];
  bool has_sub; Sub sub; }\<close>: offsets 0, 4, 5, 16, 20, 32 and 36, 40 bytes.
\<close>

definition msg_fields :: "pb_field list" where
  "msg_fields =
     [PB_REQUIRED_STATIC 1 0 PB_LTYPE_VARINT 4 0,
      PB_OPTIONAL_STATIC 2 1 PB_LTYPE_STRING (-1) 8 0,
      PB_REPEATED_STATIC 3 7 PB_LTYPE_UVARINT (-4) 4 3 0,
      PB_OPTIONAL_STATIC 4 4 PB_LTYPE_SUBMESSAGE (-4) 4 0x100]"

definition msg_bytes :: "byte list" where
  "msg_bytes = [0x08, 0x96, 0x01, 0x12, 0x02, 0x41, 0x42, 0x1A, 0x03, 1, 2, 3, 0x22, 2, 8, 7]"

end
