(* ===== verification/Pb_Decode_Safe.thy ===== *)
theory Pb_Decode_Safe
  imports Pb_Decode Pb_Example
begin

text \<open>
  Memory safety of \<open>pb_decode.c\<close>: on any input, a well-formed descriptor table (\<open>wf_table\<close>)
  makes every decoder return, keep its stream within the buffer and write only inside the
  message struct. The contract of the decoder of submessages is the locale
  \<open>submessage_decoder\<close>; its step lemma carries the contract from one level of
  \<open>pb_decode_noinit\<close> to the next.
\<close>

section \<open>Regions of memory\<close>

definition frames :: "addr \<Rightarrow> nat \<Rightarrow> mem \<Rightarrow> mem \<Rightarrow> bool" where
  "frames p n m m' \<longleftrightarrow> (\<forall>a. \<not> in_region p n a \<longrightarrow> m' a = m a)"

lemma frames_refl [simp]: "frames p n m m"
  by (simp add: frames_def)

lemma frames_trans: "frames p n m m' \<Longrightarrow> frames p n m' m'' \<Longrightarrow> frames p n m m''"
  by (simp add: frames_def)

lemma unat_add_le: "unat (a + b :: addr) \<le> unat a + unat b"
  by (simp add: unat_word_ariths)

lemma in_region_sub:
  assumes "in_region (p + q) k a" "unat q + k \<le> n"
  shows "in_region p n a"
proof -
  have "a - p = (a - (p + q)) + q" by simp
  then have "unat (a - p) \<le> unat (a - (p + q)) + unat q"
    using unat_add_le [of "a - (p + q)" q] by simp
  with assms show ?thesis by (simp add: in_region_def)
qed

lemma frames_sub: "frames (p + q) k m m' \<Longrightarrow> unat q + k \<le> n \<Longrightarrow> frames p n m m'"
  by (meson frames_def in_region_sub)

lemma frames_le: "frames p k m m' \<Longrightarrow> k \<le> n \<Longrightarrow> frames p n m m'"
  using frames_sub [of p 0 k m m' n] by simp

lemma frames_store: "unat q + length bs \<le> n \<Longrightarrow> frames p n m (store m (p + q) bs)"
  by (rule frames_sub [where k = "length bs"]) (simp_all add: frames_def store_outside)

lemma frames_store0: "length bs \<le> n \<Longrightarrow> frames p n m (store m p bs)"
  using frames_store [of 0 bs n p m] by simp

lemma frames_zero: "unat q + k \<le> n \<Longrightarrow> frames p n m (zero_fill m (p + q) k)"
  by (rule frames_sub [where k = k]) (simp_all add: frames_def zero_fill_outside)

lemma frames_zero0: "k \<le> n \<Longrightarrow> frames p n m (zero_fill m p k)"
  using frames_zero [of 0 k n p m] by simp

lemma frames_store_u32: "unat q + 4 \<le> n \<Longrightarrow> frames p n m (store_u32 m (p + q) w)"
  by (simp add: store_u32_def frames_store)

lemma frames_store_bool: "unat q + 1 \<le> n \<Longrightarrow> frames p n m (store_bool m (p + q) b)"
  by (simp add: store_bool_def frames_store)

lemma frames_store_ptr: "unat q + 8 \<le> n \<Longrightarrow> frames p n m (store_ptr m (p + q) w)"
  by (simp add: store_ptr_def frames_store)

section \<open>Streams after a failure\<close>

text \<open>
  A failing function may leave its stream between the positions of a substream and its parent:
  all that remains is that the limit did not grow and stays as far from the end of the buffer.
\<close>

definition within :: "pb_istream \<Rightarrow> pb_istream \<Rightarrow> bool" where
  "within s t \<longleftrightarrow> is_callback t = is_callback s \<and> unat (bytes_left t) \<le> unat (bytes_left s) \<and>
     (is_callback s = Buf_Read \<longrightarrow>
        length (is_state s) + unat (bytes_left t) \<le> length (is_state t) + unat (bytes_left s))"

lemma within_refl [simp]: "within s s"
  by (simp add: within_def)

lemma within_trans: "within s t \<Longrightarrow> within t u \<Longrightarrow> within s u"
  by (auto simp: within_def)

lemma within_ok: "within s t \<Longrightarrow> stream_ok s \<Longrightarrow> stream_ok t"
  by (auto simp: within_def stream_ok_def)

lemma reads_within: "reads s t \<Longrightarrow> stream_ok s \<Longrightarrow> within s t"
  by (auto simp: reads_def within_def stream_ok_def word_le_nat_alt)

lemma within_error [simp]: "within s (is_set_error t e) = within s t"
  by (simp add: within_def)

text \<open>What a decoder that may write \<open>n\<close> bytes from \<open>p\<close> leaves.\<close>

definition dec_post :: "pb_istream \<Rightarrow> mem \<Rightarrow> addr \<Rightarrow> nat \<Rightarrow> 'a option \<times> dstate \<Rightarrow> bool" where
  "dec_post s m p n r \<longleftrightarrow> (case r of (x, t, m') \<Rightarrow>
     within s t \<and> (x \<noteq> None \<longrightarrow> reads s t) \<and> frames p n m m')"

lemma dec_post_iff [simp]:
  "dec_post s m p n (x, t, m') \<longleftrightarrow> within s t \<and> (x \<noteq> None \<longrightarrow> reads s t) \<and> frames p n m m'"
  by (simp add: dec_post_def)

lemma dec_postI: "within s t \<Longrightarrow> (x \<noteq> None \<Longrightarrow> reads s t) \<Longrightarrow> frames p n m m' \<Longrightarrow> dec_post s m p n (x, t, m')"
  by (simp add: dec_post_def)

lemma dec_post_trans:
  "within s t \<Longrightarrow> reads s t \<Longrightarrow> frames p n m m' \<Longrightarrow> dec_post t m' p n r \<Longrightarrow> dec_post s m p n r"
  by (auto simp: dec_post_def intro: within_trans reads_trans frames_trans)

lemma dec_post_sub: "dec_post s m (p + q) k r \<Longrightarrow> unat q + k \<le> n \<Longrightarrow> dec_post s m p n r"
  by (auto simp: dec_post_def intro: frames_sub)

lemma dec_post_le: "dec_post s m p k r \<Longrightarrow> k \<le> n \<Longrightarrow> dec_post s m p n r"
  using dec_post_sub [of s m p 0 k r n] by simp

lemma returns_on_stream:
  assumes "returns r (stream_post s)" "stream_ok s"
  shows "returns (on_stream r m) (\<lambda>(x, t, m'). m' = m \<and> stream_ok t \<and> reads s t \<and> within s t)"
  using assms by (auto simp: on_stream_def returns_iff stream_post_def reads_within)

lemma returns_stream_then:
  assumes "stream_frame f" "stream_ok s"
    and "\<And>x t. stream_ok t \<Longrightarrow> reads s t \<Longrightarrow> within s t \<Longrightarrow> returns (g x (t, m)) (dec_post s m p n)"
  shows "returns (check_do (on_stream (f s) m) g) (dec_post s m p n)"
  by (rule returns_try_do [OF returns_on_stream [OF stream_frameD [OF assms(1,2)] assms(2)]])
    (use assms(3) in \<open>auto simp: dec_post_def\<close>)

lemma returns_ds_error [simp]: "within s t \<Longrightarrow> frames p n m m' \<Longrightarrow> returns (ds_error t m' e) (dec_post s m p n)"
  by (simp add: ds_error_def dec_post_def)

lemma returns_ok_post [simp]: "within s t \<Longrightarrow> reads s t \<Longrightarrow> frames p n m m' \<Longrightarrow> returns (ok x (t, m')) (dec_post s m p n)"
  by (simp add: dec_post_def)

section \<open>Scalar, bytes and string decoders\<close>

lemma pb_read_to_safe:
  assumes ok: "stream_ok s"
  shows "returns (pb_read_to E s m dest count) (dec_post s m dest (unat count))"
proof (cases "bytes_left s < count")
  case True
  then show ?thesis by (simp add: pb_read_to_def)
next
  case False
  then have le: "count \<le> bytes_left s" by simp
  then have sub: "unat (bytes_left s - count) = unat (bytes_left s) - unat count" "unat count \<le> unat (bytes_left s)"
    by (simp_all add: unat_sub word_le_nat_alt)
  have "returns (rbind (call_read E s count) (\<lambda>(r, s'). case r of
      Some buf \<Rightarrow> ok () (s'\<lparr>bytes_left := bytes_left s' - count\<rparr>, store m dest buf)
    | None \<Rightarrow> (case is_callback s of
         Buf_Read \<Rightarrow> ds_error s' m ''io error''
       | User_Read i \<Rightarrow> ds_error s'
           (store m dest (map (fst (snd (env_read E i (is_state s) count))) [0..<unat count])) ''io error'')))
    (dec_post s m dest (unat count))"
  proof (rule returns_rbind [OF call_read_frame [OF ok le]])
    fix x :: "byte list option \<times> pb_istream"
    assume "case x of (r, t) \<Rightarrow> is_callback t = is_callback s \<and> bytes_left t = bytes_left s \<and>
       (\<forall>bs. r = Some bs \<longrightarrow> length bs = unat count \<and>
          (is_callback s = Buf_Read \<longrightarrow> bs = take (unat count) (is_state s) \<and> is_state t = drop (unat count) (is_state s))) \<and>
       (r = None \<longrightarrow> is_callback s \<noteq> Buf_Read)"
    then show "returns (case x of (r, s') \<Rightarrow> (case r of
        Some buf \<Rightarrow> ok () (s'\<lparr>bytes_left := bytes_left s' - count\<rparr>, store m dest buf)
      | None \<Rightarrow> (case is_callback s of
           Buf_Read \<Rightarrow> ds_error s' m ''io error''
         | User_Read i \<Rightarrow> ds_error s'
             (store m dest (map (fst (snd (env_read E i (is_state s) count))) [0..<unat count])) ''io error'')))
      (dec_post s m dest (unat count))"
      using sub ok
      by (auto simp: within_def reads_def stream_ok_def word_le_nat_alt frames_store0
          split: option.split istream_callback.split)
  qed
  with False show ?thesis by (simp add: pb_read_to_def)
qed

definition int_size :: "u32 \<Rightarrow> nat" where
  "int_size dsize = (if dsize \<in> {1, 2, 4, 8} then unat dsize else 0)"

lemma pb_dec_varint_safe:
  "stream_ok s \<Longrightarrow> returns (pb_dec_varint E s f dest m) (dec_post s m dest (int_size (f_data_size f)))"
  unfolding pb_dec_varint_def
  by (rule returns_stream_then [where f = "pb_decode_varint E", OF stream_frame_strict_imp [OF pb_decode_varint_frame]])
    (auto simp: Let_def int_size_def frames_store0)

lemma pb_dec_uvarint_safe:
  "stream_ok s \<Longrightarrow> returns (pb_dec_uvarint E s f dest m) (dec_post s m dest (int_size (f_data_size f)))"
  unfolding pb_dec_uvarint_def
  by (rule returns_stream_then [where f = "pb_decode_varint E", OF stream_frame_strict_imp [OF pb_decode_varint_frame]])
    (auto simp: Let_def int_size_def frames_store0)

lemma pb_dec_svarint_safe:
  "stream_ok s \<Longrightarrow> returns (pb_dec_svarint E s f dest m) (dec_post s m dest (int_size (f_data_size f)))"
  unfolding pb_dec_svarint_def
  by (rule returns_stream_then [where f = "pb_decode_svarint E", OF stream_frame_strict_imp [OF pb_decode_svarint_frame]])
    (auto simp: Let_def int_size_def frames_store0)

lemma pb_dec_fixed32_safe:
  "stream_ok s \<Longrightarrow> returns (pb_dec_fixed32 E s f dest m) (dec_post s m dest 4)"
  unfolding pb_dec_fixed32_def
  by (rule returns_stream_then [where f = "pb_decode_fixed32 E", OF pb_decode_fixed32_frame])
    (auto simp: frames_store0)

lemma pb_dec_fixed64_safe:
  "stream_ok s \<Longrightarrow> returns (pb_dec_fixed64 E s f dest m) (dec_post s m dest 8)"
  unfolding pb_dec_fixed64_def
  by (rule returns_stream_then [where f = "pb_decode_fixed64 E", OF pb_decode_fixed64_frame])
    (auto simp: frames_store0)

lemma returns_dec_then:
  assumes "returns r (dec_post t m' p n)" "within s t" "reads s t" "frames p n m m'"
  shows "returns r (dec_post s m p n)"
  by (rule returns_mono [OF assms(1)]) (rule dec_post_trans [OF assms(2-4)])

lemma alloc_size: "unat (PB_BYTES_ARRAY_T_ALLOCSIZE sz) = unat sz + 4"
  using unsigned_less [of sz, where 'a = nat]
  by (simp add: PB_BYTES_ARRAY_T_ALLOCSIZE_def unat_word_ariths unsigned_ucast_eq take_bit_nat_eq_self)

lemma unat_ucast64: "unat (ucast (w :: u32) :: u64) = unat w"
  using unsigned_less [of w, where 'a = nat] by (simp add: unsigned_ucast_eq take_bit_nat_eq_self)

lemma pb_dec_bytes_safe:
  assumes "stream_ok s"
  shows "returns (pb_dec_bytes E s f dest m) (dec_post s m dest (unat (f_data_size f)))"
  unfolding pb_dec_bytes_def
proof (rule returns_stream_then [where f = "pb_decode_varint32 E",
      OF stream_frame_strict_imp [OF pb_decode_varint32_frame] assms])
  fix size :: u32 and t
  assume t: "stream_ok t" "reads s t" "within s t"
  let ?n = "unat (f_data_size f)"
  have read: "returns (pb_read_to E t (store_u32 m dest size) (dest + 4) (ucast size)) (dec_post s m dest ?n)"
    if "\<not> PB_BYTES_ARRAY_T_ALLOCSIZE size > ucast (f_data_size f)"
  proof -
    have le: "unat size + 4 \<le> ?n"
      using that by (simp add: word_less_nat_alt alloc_size unat_ucast64)
    have "returns (pb_read_to E t (store_u32 m dest size) (dest + 4) (ucast size))
        (dec_post t (store_u32 m dest size) dest ?n)"
      by (rule returns_mono [OF pb_read_to_safe [OF t(1)]])
        (rule dec_post_sub, assumption, use le in \<open>simp add: unat_ucast64\<close>)
    then show ?thesis
      by (rule returns_dec_then [OF _ t(3,2)])
        (use le frames_store_u32 [of 0 ?n dest m size] in simp)
  qed
  show "returns (case (t, m) of (s, m) \<Rightarrow>
      if size > PB_SIZE_MAX then ds_error s m ''bytes overflow''
      else let alloc_size = PB_BYTES_ARRAY_T_ALLOCSIZE size in
         if ucast size > alloc_size then ds_error s m ''size too large''
         else if PB_ATYPE (f_type f) = PB_ATYPE_POINTER then ds_error s m ''no malloc support''
         else if alloc_size > ucast (f_data_size f) then ds_error s m ''bytes overflow''
         else pb_read_to E s (store_u32 m dest size) (dest + 4) (ucast size)) (dec_post s m dest ?n)"
    using t read by (simp add: Let_def)
qed

lemma unat_Suc32:
  assumes "\<not> unat (w + 1) < unat (w :: u32)"
  shows "unat (w + 1) = unat w + 1"
proof -
  have "unat (w + 1) = (unat w + 1) mod 2 ^ 32" by (simp add: unat_word_ariths)
  moreover have "unat w < 2 ^ 32" using unsigned_less [of w, where 'a = nat] by simp
  ultimately show ?thesis using assms by (cases "unat w + 1 = 2 ^ 32") simp_all
qed

lemma pb_dec_string_safe:
  assumes "stream_ok s"
  shows "returns (pb_dec_string E s f dest m) (dec_post s m dest (unat (f_data_size f)))"
  unfolding pb_dec_string_def
proof (rule returns_stream_then [where f = "pb_decode_varint32 E",
      OF stream_frame_strict_imp [OF pb_decode_varint32_frame] assms])
  fix size :: u32 and t
  assume t: "stream_ok t" "reads s t" "within s t"
  let ?n = "unat (f_data_size f)"
  have read: "returns (rbind (pb_read_to E t m dest (ucast size)) (\<lambda>(status, (s, m)).
         Ret (status, (s, store m (dest + ucast size) [0])))) (dec_post s m dest ?n)"
    if "\<not> ucast (size + 1) < (ucast size :: u64)" "\<not> (ucast (size + 1) :: u64) > ucast (f_data_size f)"
  proof -
    have "unat (size + 1) = unat size + 1"
      using that(1) by (intro unat_Suc32) (simp add: word_less_nat_alt unat_ucast64)
    then have le: "unat size + 1 \<le> ?n"
      using that(2) by (simp add: word_less_nat_alt unat_ucast64)
    have "returns (pb_read_to E t m dest (ucast size)) (dec_post t m dest (unat size))"
      using pb_read_to_safe [OF t(1), of E m dest "ucast size"] by (simp add: unat_ucast64)
    then have "returns (rbind (pb_read_to E t m dest (ucast size)) (\<lambda>(status, (s, m)).
         Ret (status, (s, store m (dest + ucast size) [0])))) (dec_post t m dest ?n)"
    proof (rule returns_rbind)
      fix r :: "unit option \<times> dstate"
      assume r: "dec_post t m dest (unat size) r"
      obtain x u m' where [simp]: "r = (x, u, m')" by (cases r) auto
      have "frames dest ?n m m'" using r le by (auto elim: frames_le)
      moreover have "frames dest ?n m' (store m' (dest + ucast size) [0])"
        by (rule frames_store) (use le in \<open>simp add: unat_ucast64\<close>)
      ultimately have "frames dest ?n m (store m' (dest + ucast size) [0])" by (rule frames_trans)
      with r show "returns (case r of (status, s, m) \<Rightarrow>
          Ret (status, s, store m (dest + ucast size) [0])) (dec_post t m dest ?n)"
        by simp
    qed
    then show ?thesis by (rule returns_dec_then [OF _ t(3,2)]) simp
  qed
  show "returns (case (t, m) of (s, m) \<Rightarrow>
       let alloc_size = ucast (size + 1) :: u64 in
       if alloc_size < ucast size then ds_error s m ''size too large''
       else if PB_ATYPE (f_type f) = PB_ATYPE_POINTER then ds_error s m ''no malloc support''
       else if alloc_size > ucast (f_data_size f) then ds_error s m ''string overflow''
       else rbind (pb_read_to E s m dest (ucast size)) (\<lambda>(status, (s, m)).
         Ret (status, (s, store m (dest + ucast size) [0])))) (dec_post s m dest ?n)"
    using t read by (simp add: Let_def)
qed

lemma pb_dec_fixed_length_bytes_safe:
  "stream_ok s \<Longrightarrow> returns (pb_dec_fixed_length_bytes E s f dest m) (dec_post s m dest (unat (f_data_size f)))"
  unfolding pb_dec_fixed_length_bytes_def
  by (rule returns_stream_then [where f = "pb_decode_varint32 E",
        OF stream_frame_strict_imp [OF pb_decode_varint32_frame]])
    (auto simp: frames_zero0 unat_ucast64 intro: within_trans reads_trans
      intro!: returns_mono [OF pb_read_to_safe])

section \<open>Well-formed descriptor tables\<close>

text \<open>The iterator of a struct at \<open>d\<close> is the one of a struct at 0, shifted by \<open>d\<close>.\<close>

definition shift_iter :: "addr \<Rightarrow> pb_field_iter \<Rightarrow> pb_field_iter" where
  "shift_iter d it = it\<lparr>dest_struct := d, pData := d + pData it, pSize := d + pSize it\<rparr>"

lemma shift_begin: "snd (pb_field_iter_begin fs d) = shift_iter d (snd (pb_field_iter_begin fs 0))"
  by (simp add: pb_field_iter_begin_def shift_iter_def Let_def add.assoc)

lemma shift_next:
  assumes "dest_struct it = 0"
  shows "snd (pb_field_iter_next (shift_iter d it)) = shift_iter d (snd (pb_field_iter_next it))"
proof -
  let ?prev = "cur_field it" and ?f = "field_at (it_start it) (it_pos it + 1)"
  have cur: "cur_field (shift_iter d it) = ?prev" by (simp add: cur_field_def shift_iter_def)
  have start: "it_start (shift_iter d it) = it_start it" "it_pos (shift_iter d it) = it_pos it"
    by (simp_all add: shift_iter_def)
  consider "f_tag ?prev = 0" | "f_tag ?prev \<noteq> 0" "f_tag ?f = 0"
    | "f_tag ?prev \<noteq> 0" "f_tag ?f \<noteq> 0" "PB_HTYPE (f_type ?prev) = PB_HTYPE_ONEOF \<and>
         PB_HTYPE (f_type ?f) = PB_HTYPE_ONEOF \<and> f_data_offset ?f = PB_SIZE_MAX"
    | "f_tag ?prev \<noteq> 0" "f_tag ?f \<noteq> 0" "\<not> (PB_HTYPE (f_type ?prev) = PB_HTYPE_ONEOF \<and>
         PB_HTYPE (f_type ?f) = PB_HTYPE_ONEOF \<and> f_data_offset ?f = PB_SIZE_MAX)"
    by blast
  then show ?thesis
  proof cases
    case 1
    then show ?thesis by (simp add: pb_field_iter_next_def cur)
  next
    case 2
    then show ?thesis
      using shift_begin [of "it_start it" d] assms
      by (simp add: pb_field_iter_next_def cur start Let_def) (simp add: shift_iter_def)
  next
    case 3
    then show ?thesis by (simp add: pb_field_iter_next_def cur start Let_def) (simp add: shift_iter_def)
  next
    case 4
    then show ?thesis
      unfolding pb_field_iter_next_def cur start Let_def if_not_P [OF 4(1)] if_not_P [OF 4(2)] if_not_P [OF 4(3)]
      by (simp add: shift_iter_def add.assoc)
  qed
qed

lemma shift_iter_at: "iter_at fs d i = shift_iter d (iter_at fs 0 i)"
proof (induction i)
  case 0
  then show ?case by (simp add: iter_at.simps shift_begin [of fs d])
next
  case (Suc i)
  then show ?case by (simp only: iter_at.simps) (simp add: shift_next)
qed

lemma pData_at: "pData (iter_at fs d i) = d + pData (iter_at fs 0 i)"
  and pSize_at: "pSize (iter_at fs d i) = d + pSize (iter_at fs 0 i)"
  by (subst shift_iter_at, simp add: shift_iter_def)+

definition n_required :: "pb_field list \<Rightarrow> nat" where
  "n_required fs = length (filter (\<lambda>f. PB_HTYPE (f_type f) = PB_HTYPE_REQUIRED) fs)"

text \<open>
  \<open>wf_field sub E fs sz i\<close>: field \<open>i\<close> of a struct of \<open>sz\<close> bytes lies in it, with its count or
  flag, and \<open>sub\<close> holds of the table and size of a submessage. Callback and extension fields
  are left to the user's functions.
\<close>

definition wf_field :: "(pb_field list \<Rightarrow> nat \<Rightarrow> bool) \<Rightarrow> pb_env \<Rightarrow> pb_field list \<Rightarrow> nat \<Rightarrow> nat \<Rightarrow> bool" where
  "wf_field sub E fs sz i =
     (let f = fs ! i; it = iter_at fs 0 i; t = f_type f; dsize = unat (f_data_size f);
          data = unat (pData it); size = unat (pSize it) in
      PB_LTYPE t < PB_LTYPES_COUNT \<and> PB_LTYPE t \<noteq> PB_LTYPE_EXTENSION \<and>
      (if PB_ATYPE t = PB_ATYPE_STATIC then
         (PB_LTYPE t = PB_LTYPE_FIXED32 \<longrightarrow> dsize = 4) \<and> (PB_LTYPE t = PB_LTYPE_FIXED64 \<longrightarrow> dsize = 8) \<and>
         (PB_LTYPE t = PB_LTYPE_SUBMESSAGE \<longrightarrow> f_ptr f \<noteq> 0 \<and> sub (env_tables E (f_ptr f)) dsize) \<and>
         (if PB_HTYPE t = PB_HTYPE_REPEATED
          then uint (f_data_size f) * uint (f_array_size f) < 2 ^ 32 \<and> data + dsize * unat (f_array_size f) \<le> sz
          else data + dsize \<le> sz) \<and>
         (PB_HTYPE t = PB_HTYPE_OPTIONAL \<and> pSize it \<noteq> pData it \<longrightarrow> size + 1 \<le> sz)
       else PB_ATYPE t = PB_ATYPE_POINTER \<and> data + 8 \<le> sz) \<and>
      (PB_HTYPE t = PB_HTYPE_REPEATED \<or> PB_HTYPE t = PB_HTYPE_ONEOF \<longrightarrow> size + 4 \<le> sz))"

text \<open>
  \<open>wf_table d E fs sz\<close>: submessages nest less than \<open>d\<close> deep. The number of required fields
  is one that the check of \<open>pb_decode_noinit\<close> handles: less than 64 and not 32.
\<close>

primrec wf_table :: "nat \<Rightarrow> pb_env \<Rightarrow> pb_field list \<Rightarrow> nat \<Rightarrow> bool" where
  "wf_table 0 E = (\<lambda>fs sz. False)"
| "wf_table (Suc d) E = (\<lambda>fs sz. tags_ok fs \<and> n_required fs < 64 \<and> n_required fs \<noteq> 32 \<and>
     list_all (wf_field (wf_table d E) E fs sz) [0..<length fs])"

lemma uint_mult_less: "uint (a::u32) * uint (b::u32) < 2 ^ 32 \<longleftrightarrow> unat a * unat b < 2 ^ 32"
proof -
  have "uint a * uint b = int (unat a * unat b)" by simp
  then show ?thesis by (simp only: of_nat_less_iff [symmetric, where 'a = int]) simp
qed

lemma wf_field_nth: "wf_table (Suc d) E fs sz \<Longrightarrow> i < length fs \<Longrightarrow> wf_field (wf_table d E) E fs sz i"
  by (simp add: list_all_iff)

lemma wf_table_tags: "wf_table d E fs sz \<Longrightarrow> tags_ok fs"
  by (cases d) auto

lemma msg_fields_wf: "wf_table 2 no_callbacks msg_fields 40"
  by code_simp

section \<open>Setting the defaults\<close>

lemma field_default_safe:
  assumes wf: "wf_field sub E fs sz i" and tags: "tags_ok fs" and i: "i < length fs"
    and sub: "\<And>p m. PB_LTYPE (f_type (fs ! i)) = PB_LTYPE_SUBMESSAGE \<Longrightarrow>
      PB_ATYPE (f_type (fs ! i)) = PB_ATYPE_STATIC \<Longrightarrow> PB_HTYPE (f_type (fs ! i)) \<noteq> PB_HTYPE_REPEATED \<Longrightarrow>
      returns (pb_message_set_to_defaults n E (env_tables E (f_ptr (fs ! i))) p m)
        (frames p (unat (f_data_size (fs ! i))) m)"
  shows "returns (pb_field_set_to_default (Suc n) E (iter_at fs d i) m) (frames d sz m)"
proof -
  let ?f = "fs ! i" and ?t = "f_type (fs ! i)"
  let ?it = "iter_at fs d i" and ?data = "pData (iter_at fs 0 i)" and ?size = "pSize (iter_at fs 0 i)"
  note cur = iter_at_cur [OF tags i, of d]
  note at = pData_at [of fs d i] pSize_at [of fs d i]
  note wf' = wf [unfolded wf_field_def Let_def uint_mult_less]
  consider (ptr) "PB_ATYPE ?t = PB_ATYPE_POINTER" "PB_ATYPE ?t \<noteq> PB_ATYPE_STATIC"
    | (count) "PB_ATYPE ?t = PB_ATYPE_STATIC" "PB_HTYPE ?t = PB_HTYPE_REPEATED \<or> PB_HTYPE ?t = PB_HTYPE_ONEOF"
    | (val) "PB_ATYPE ?t = PB_ATYPE_STATIC" "\<not> (PB_HTYPE ?t = PB_HTYPE_REPEATED \<or> PB_HTYPE ?t = PB_HTYPE_ONEOF)"
    using wf' by (auto split: if_splits)
  then show ?thesis
  proof cases
    case ptr
    have "unat ?data + 8 \<le> sz" "PB_HTYPE ?t = PB_HTYPE_REPEATED \<or> PB_HTYPE ?t = PB_HTYPE_ONEOF \<longrightarrow> unat ?size + 4 \<le> sz"
      using wf' ptr by simp_all
    with ptr wf' show ?thesis
      by (auto simp: cur at Let_def intro: frames_store_ptr frames_trans [OF frames_store_ptr frames_store_u32])
  next
    case count
    then have "unat ?size + 4 \<le> sz" using wf' by auto
    with count wf' show ?thesis
      by (auto simp: cur at Let_def intro: frames_store_u32)
  next
    case val
    define m1 where "m1 = (if PB_HTYPE ?t = PB_HTYPE_OPTIONAL \<and> ?size \<noteq> ?data
      then store_bool m (d + ?size) False else m)"
    have m1: "frames d sz m m1"
      using wf' val by (auto simp: m1_def intro: frames_store_bool)
    have data: "unat ?data + unat (f_data_size ?f) \<le> sz" using wf' val by auto
    have "returns (if PB_LTYPE ?t = PB_LTYPE_SUBMESSAGE
          then pb_message_set_to_defaults n E (env_tables E (f_ptr ?f)) (d + ?data) m1
          else if f_ptr ?f \<noteq> 0 then Ret (store m1 (d + ?data) (load m1 (f_ptr ?f) (unat (f_data_size ?f))))
          else Ret (zero_fill m1 (d + ?data) (unat (f_data_size ?f)))) (frames d sz m1)"
    proof (cases "PB_LTYPE ?t = PB_LTYPE_SUBMESSAGE")
      case True
      then have "returns (pb_message_set_to_defaults n E (env_tables E (f_ptr ?f)) (d + ?data) m1) (frames d sz m1)"
        using val data by (intro returns_mono [OF sub [of "d + ?data" m1]]) (auto intro: frames_sub)
      with True show ?thesis by simp
    next
      case False
      with data show ?thesis by (simp add: frames_store frames_zero)
    qed
    then have "returns (if PB_LTYPE ?t = PB_LTYPE_SUBMESSAGE
          then pb_message_set_to_defaults n E (env_tables E (f_ptr ?f)) (d + ?data) m1
          else if f_ptr ?f \<noteq> 0 then Ret (store m1 (d + ?data) (load m1 (f_ptr ?f) (unat (f_data_size ?f))))
          else Ret (zero_fill m1 (d + ?data) (unat (f_data_size ?f)))) (frames d sz m)"
      by (rule returns_mono) (rule frames_trans [OF m1])
    with val wf' show ?thesis by (simp add: cur at Let_def m1_def split del: if_split cong del: if_weak_cong)
  qed
qed

lemma fields_do_frames:
  assumes "tags_ok fs" "fs \<noteq> []"
    and "\<And>i m. i < length fs \<Longrightarrow> returns (body (iter_at fs d i) m) (frames d sz m)"
  shows "returns (fields_do body (iter_at fs d 0) m) (frames d sz m)"
proof (rule fields_do_returns [OF assms(1)])
  fix j m' assume "j < length fs" "frames d sz m m'"
  then show "returns (body (iter_at fs d j) m') (frames d sz m)"
    by (intro returns_mono [OF assms(3)]) (auto intro: frames_trans)
qed (use assms(2) in auto)

lemma message_defaults_safe:
  "wf_table dep E fs sz \<Longrightarrow> 2 * dep \<le> n \<Longrightarrow> returns (pb_message_set_to_defaults n E fs d m) (frames d sz m)"
proof (induction dep arbitrary: fs sz n d m)
  case 0
  then show ?case by simp
next
  case (Suc dep)
  obtain k where n: "n = Suc (Suc k)" "2 * dep \<le> k"
    using Suc.prems(2) by (cases n; cases "n - 1") auto
  have tags: "tags_ok fs" using Suc.prems(1) by simp
  show ?case
  proof (cases "fs = []")
    case True
    then show ?thesis using tags iter_begin_fst [of "[]" d] by (simp add: n)
  next
    case False
    have "returns (fields_do (\<lambda>it m. pb_field_set_to_default (Suc k) E it m) (iter_at fs d 0) m) (frames d sz m)"
    proof (rule fields_do_frames [OF tags False])
      fix i m assume i: "i < length fs"
      note wf = wf_field_nth [OF Suc.prems(1) i]
      show "returns (pb_field_set_to_default (Suc k) E (iter_at fs d i) m) (frames d sz m)"
      proof (rule field_default_safe [OF wf tags i])
        fix p m
        assume "PB_LTYPE (f_type (fs ! i)) = PB_LTYPE_SUBMESSAGE" "PB_ATYPE (f_type (fs ! i)) = PB_ATYPE_STATIC"
        with wf have "wf_table dep E (env_tables E (f_ptr (fs ! i))) (unat (f_data_size (fs ! i)))"
          by (simp add: wf_field_def Let_def)
        then show "returns (pb_message_set_to_defaults k E (env_tables E (f_ptr (fs ! i))) p m)
            (frames p (unat (f_data_size (fs ! i))) m)"
          using n(2) by (rule Suc.IH)
      qed
    qed
    with False show ?thesis
      by (simp only: n pb_message_set_to_defaults.simps iter_begin_fst [OF tags] iter_begin_snd simp_thms if_False)
  qed
qed

section \<open>Substreams\<close>

lemma substream_within: "substream_of s sub t \<Longrightarrow> within s t"
  by (auto simp: substream_of_def within_def)

lemma substream_ok: "substream_of s sub t \<Longrightarrow> stream_ok sub"
  by (simp add: substream_of_def)

lemma substream_shorter: "substream_of s sub t \<Longrightarrow> unat (bytes_left sub) < unat (bytes_left s)"
  by (simp add: substream_of_def)

lemma pb_close_within:
  assumes sub: "substream_of s sub t" and sub': "within sub sub'"
  shows "returns (pb_close_string_substream E t sub') (\<lambda>(r, u). within s u)"
  unfolding pb_close_string_substream_def
proof (rule returns_rbind)
  have ok: "stream_ok sub'" using within_ok [OF sub' substream_ok [OF sub]] .
  show "returns (if bytes_left sub' \<noteq> 0 then pb_read_null E sub' (bytes_left sub') else ok () sub')
      (\<lambda>(r, v). within sub v)"
  proof (cases "bytes_left sub' = 0")
    case True
    with sub' show ?thesis by simp
  next
    case False
    have "returns (pb_read_null E sub' (bytes_left sub')) (\<lambda>(r, v). within sub v)"
      by (rule returns_mono [OF stream_frameD [OF pb_read_null_frame ok]])
        (auto simp: stream_post_def intro: within_trans [OF sub' reads_within [OF _ ok]])
    with False show ?thesis by simp
  qed
next
  fix x :: "unit option \<times> pb_istream"
  assume x: "case x of (r, v) \<Rightarrow> within sub v"
  obtain r v where rv: "x = (r, v)" by (cases x)
  show "returns (case x of (None, sub) \<Rightarrow> fail t
      | (Some _, sub) \<Rightarrow> ok () (t\<lparr>is_state := is_state sub, is_errmsg := is_errmsg sub\<rparr>)) (\<lambda>(r, u). within s u)"
  proof (cases r)
    case None
    with rv substream_within [OF sub] show ?thesis by simp
  next
    case (Some y)
    with rv x sub show ?thesis by (auto simp: substream_of_def within_def)
  qed
qed

lemma close_then:
  assumes sub: "substream_of s sub t" and sub': "within sub sub'" "x \<noteq> None \<Longrightarrow> reads sub sub'"
    and m: "frames p n m m'"
  shows "returns (check_do (on_stream (pb_close_string_substream E t sub') m') (\<lambda>_ (s, m). Ret (x, (s, m))))
    (dec_post s m p n)"
proof -
  have ok: "stream_ok sub'" using within_ok [OF sub'(1) substream_ok [OF sub]] .
  obtain r u where close: "pb_close_string_substream E t sub' = Ret (r, u)" and u: "within s u"
    using pb_close_within [OF sub sub'(1), of E] by (auto simp: returns_iff)
  have "reads s u" if "x \<noteq> None" "r \<noteq> None"
    using pb_close_string_substream_post [OF sub ok sub'(2) [OF that(1)], of E] that(2) close by auto
  with u m close show ?thesis
    by (cases r) (auto simp: on_stream_def)
qed

lemma make_substream_then:
  assumes ok: "stream_ok s"
    and sub: "\<And>sub t. substream_of s sub t \<Longrightarrow> returns (g sub (t, m)) (dec_post s m p n)"
  shows "returns (check_do (on_stream (pb_make_string_substream E s) m) g) (dec_post s m p n)"
proof -
  obtain r t where make: "pb_make_string_substream E s = Ret (r, t)"
    and rt: "case r of None \<Rightarrow> stream_ok t \<and> reads s t | Some sub \<Rightarrow> substream_of s sub t"
    using pb_make_string_substream_post [OF ok, of E] by (auto simp: returns_iff)
  show ?thesis
    using rt sub ok by (cases r) (auto simp: make on_stream_def intro: reads_within)
qed

section \<open>Items of packed arrays\<close>

lemma pb_read_frame_strict: "0 < count \<Longrightarrow> stream_frame_strict (\<lambda>s. pb_read E s count)"
  unfolding stream_frame_strict_def
  by (auto intro!: returns_mono [OF pb_read_post] simp: stream_post_def word_less_nat_alt)

lemma pb_decode_fixed32_strict: "stream_frame_strict (pb_decode_fixed32 E)"
  unfolding pb_decode_fixed32_def [abs_def]
  by (intro stream_frame_strict_bind pb_read_frame_strict stream_frame_ok) simp

lemma pb_decode_fixed64_strict: "stream_frame_strict (pb_decode_fixed64 E)"
  unfolding pb_decode_fixed64_def [abs_def]
  by (intro stream_frame_strict_bind pb_read_frame_strict stream_frame_ok) simp

text \<open>A decoder that succeeded has read at least one byte.\<close>

definition consumes :: "pb_istream \<Rightarrow> 'a option \<times> dstate \<Rightarrow> bool" where
  "consumes s r \<longleftrightarrow> (fst r \<noteq> None \<longrightarrow> bytes_left (fst (snd r)) < bytes_left s)"

lemma strict_then:
  assumes "stream_frame_strict f" "stream_ok s"
    and "\<And>x t. bytes_left t < bytes_left s \<Longrightarrow> returns (g x (t, m)) (consumes s)"
  shows "returns (check_do (on_stream (f s) m) g) (consumes s)"
proof -
  obtain x t where f: "f s = Ret (x, t)" "x \<noteq> None \<Longrightarrow> bytes_left t < bytes_left s"
    using stream_frame_strictD [OF assms(1,2)] by (auto simp: returns_iff)
  with assms(3) show ?thesis by (cases x) (auto simp: on_stream_def consumes_def)
qed

lemma packable_consumes:
  assumes ok: "stream_ok s" and ltype: "ltype \<le> PB_LTYPE_LAST_PACKABLE"
  shows "returns (PB_DECODERS E n noinit ltype s f dest m) (consumes s)"
proof -
  have *: "consumes s (x, t, m') \<longleftrightarrow> (x \<noteq> None \<longrightarrow> bytes_left t < bytes_left s)" for x :: "unit option" and t and m' :: mem
    by (simp add: consumes_def)
  note thens = strict_then [OF pb_decode_varint_frame ok] strict_then [OF pb_decode_svarint_frame ok]
    strict_then [OF pb_decode_fixed32_strict ok] strict_then [OF pb_decode_fixed64_strict ok]
  have "returns (pb_dec_varint E s f dest m) (consumes s)"
    unfolding pb_dec_varint_def by (rule thens) (auto simp: Let_def ds_error_def *)
  moreover have "returns (pb_dec_uvarint E s f dest m) (consumes s)"
    unfolding pb_dec_uvarint_def by (rule thens) (auto simp: Let_def ds_error_def *)
  moreover have "returns (pb_dec_svarint E s f dest m) (consumes s)"
    unfolding pb_dec_svarint_def by (rule thens) (auto simp: Let_def ds_error_def *)
  moreover have "returns (pb_dec_fixed32 E s f dest m) (consumes s)"
    unfolding pb_dec_fixed32_def by (rule thens) (auto simp: *)
  moreover have "returns (pb_dec_fixed64 E s f dest m) (consumes s)"
    unfolding pb_dec_fixed64_def by (rule thens) (auto simp: *)
  moreover have "ltype = 0 \<or> ltype = 1 \<or> ltype = 2 \<or> ltype = 3 \<or> ltype = 4"
    using ltype by (auto simp: word_le_nat_alt word_unat_eq_iff)
  ultimately show ?thesis by (auto simp: PB_DECODERS_def)
qed

lemma array_item_in:
  assumes "unat dsize * unat asize < 2 ^ 32" "i < asize"
  shows "unat (ucast (dsize * i :: u32) :: addr) + unat dsize \<le> unat dsize * unat asize"
proof -
  have i: "Suc (unat i) \<le> unat asize" using assms(2) by (simp add: word_less_nat_alt)
  then have "unat dsize * Suc (unat i) \<le> unat dsize * unat asize" by (rule mult_le_mono2)
  then have le: "unat dsize * unat i + unat dsize \<le> unat dsize * unat asize" by simp
  then have "unat (dsize * i) = unat dsize * unat i"
    using assms(1) by (simp add: unat_word_ariths)
  with le show ?thesis by (simp add: unat_ucast64)
qed

lemma packed_loop_safe:
  assumes func: "\<And>s q m. stream_ok s \<Longrightarrow> unat (bytes_left s) \<le> b \<Longrightarrow>
      returns (func s q m) (\<lambda>r. dec_post s m q (unat (f_data_size f)) r \<and> consumes s r)"
    and arr: "unat (f_data_size f) * unat (f_array_size f) < 2 ^ 32"
      "unat data + unat (f_data_size f) * unat (f_array_size f) \<le> sz"
    and size: "unat psize + 4 \<le> sz"
  shows "stream_ok s \<Longrightarrow> unat (bytes_left s) < k \<Longrightarrow> unat (bytes_left s) \<le> b \<Longrightarrow>
    returns (packed_loop k func f (d + data) (d + psize) s m)
      (\<lambda>(r, t, m'). within s t \<and> (r \<longrightarrow> reads s t) \<and> frames d sz m m')"
proof (induction k arbitrary: s m)
  case 0
  then show ?case by simp
next
  case (Suc k)
  let ?i = "load_u32 m (d + psize)"
  show ?case
  proof (cases "bytes_left s > 0 \<and> ?i < f_array_size f")
    case False
    then show ?thesis by auto
  next
    case True
    let ?item = "array_item (d + data) f ?i"
    have item: "?item = d + (data + ucast (f_data_size f * ?i))"
      by (simp add: array_item_def add.assoc)
    have "unat (data + ucast (f_data_size f * ?i)) + unat (f_data_size f) \<le> sz"
      using unat_add_le [of data "ucast (f_data_size f * ?i)"]
        array_item_in [OF arr(1) True [THEN conjunct2]] arr(2) by linarith
    then have one: "returns (func s ?item m) (\<lambda>r. dec_post s m d sz r \<and> consumes s r)"
      unfolding item by (intro returns_mono [OF func [OF Suc.prems(1,3)]]) (auto elim: dec_post_sub)
    have "returns (rbind (func s ?item m) (\<lambda>(r, (sub, m)). case r of
        None \<Rightarrow> Ret (False, (sub, m))
      | Some _ \<Rightarrow> packed_loop k func f (d + data) (d + psize) sub
          (store_u32 m (d + psize) (load_u32 m (d + psize) + 1))))
      (\<lambda>(r, t, m'). within s t \<and> (r \<longrightarrow> reads s t) \<and> frames d sz m m')"
    proof (rule returns_rbind [OF one])
      fix r :: "unit option \<times> dstate"
      assume r: "dec_post s m d sz r \<and> consumes s r"
      obtain x t m1 where [simp]: "r = (x, t, m1)" by (cases r) auto
      show "returns (case r of (r, (sub, m)) \<Rightarrow> (case r of
          None \<Rightarrow> Ret (False, (sub, m))
        | Some _ \<Rightarrow> packed_loop k func f (d + data) (d + psize) sub
            (store_u32 m (d + psize) (load_u32 m (d + psize) + 1))))
        (\<lambda>(r, t, m'). within s t \<and> (r \<longrightarrow> reads s t) \<and> frames d sz m m')"
      proof (cases x)
        case None
        with r show ?thesis by simp
      next
        case (Some y)
        let ?m2 = "store_u32 m1 (d + psize) (load_u32 m1 (d + psize) + 1)"
        from r Some have st: "within s t" "reads s t" "frames d sz m m1" "unat (bytes_left t) < unat (bytes_left s)"
          by (simp_all add: consumes_def word_less_nat_alt)
        have m2: "frames d sz m ?m2"
          by (rule frames_trans [OF st(3) frames_store_u32 [OF size]])
        have "returns (packed_loop k func f (d + data) (d + psize) t ?m2)
            (\<lambda>(r, u, m'). within t u \<and> (r \<longrightarrow> reads t u) \<and> frames d sz ?m2 m')"
          by (rule Suc.IH) (use st Suc.prems within_ok in auto)
        then have "returns (packed_loop k func f (d + data) (d + psize) t ?m2)
            (\<lambda>(r, u, m'). within s u \<and> (r \<longrightarrow> reads s u) \<and> frames d sz m m')"
          by (rule returns_mono)
            (auto intro: within_trans [OF st(1)] reads_trans [OF st(2)] frames_trans [OF m2])
        with Some show ?thesis by simp
      qed
    qed
    with True show ?thesis by simp
  qed
qed

section \<open>Iterators while a message is decoded\<close>

definition it_state :: "pb_field list \<Rightarrow> addr \<Rightarrow> pb_field_iter \<Rightarrow> bool" where
  "it_state fs d it \<longleftrightarrow> (\<exists>j. it = iter_at fs d j \<and> (j < length fs \<or> fs = [] \<and> j = 0))"

lemma it_state_at: "i < length fs \<Longrightarrow> it_state fs d (iter_at fs d i)"
  by (auto simp: it_state_def)

lemma it_state_0: "it_state fs d (iter_at fs d 0)"
  by (auto simp: it_state_def)

lemma it_state_start: "it_state fs d it \<Longrightarrow> it_start it = fs"
  by (auto simp: it_state_def)

lemma empty_table:
  "cur_field (iter_at [] d 0) = PB_LAST_FIELD" "pb_field_iter_next (iter_at [] d 0) = (False, iter_at [] d 0)"
  by (simp_all add: cur_field_def field_at_def pb_field_iter_next_def PB_LAST_FIELD_def)

lemma search_state:
  assumes tags: "tags_ok fs" and it: "it_state fs d it"
  shows "\<exists>b it'. iter_search (Suc (length fs)) P (it_pos it) it = Ret (b, it') \<and> it_state fs d it' \<and>
    (b \<and> fs \<noteq> [] \<longrightarrow> (\<exists>j<length fs. it' = iter_at fs d j \<and> P (fs ! j))) \<and>
    (b \<and> fs = [] \<longrightarrow> P PB_LAST_FIELD) \<and> (\<not> b \<longrightarrow> (\<forall>j<length fs. \<not> P (fs ! j)))"
proof (cases "fs = []")
  case True
  with it have "it = iter_at [] d 0" by (simp add: it_state_def)
  then show ?thesis using True it_state_0 [of "[]" d] by (cases "P PB_LAST_FIELD") (auto simp: empty_table)
next
  case False
  with it obtain i where i: "it = iter_at fs d i" "i < length fs" by (auto simp: it_state_def)
  from iter_search_returns [OF tags i(2), of "Suc (length fs)" P d]
  obtain b j where "j < length fs" "b \<longrightarrow> P (fs ! j)" "\<not> b \<longrightarrow> j = i \<and> (\<forall>l<length fs. \<not> P (fs ! l))"
    "iter_search (Suc (length fs)) P i (iter_at fs d i) = Ret (b, iter_at fs d j)"
    by auto
  with False show ?thesis using i iter_at_pos [OF tags i(2), of d] it_state_at by auto
qed

lemma required_index_at:
  "tags_ok fs \<Longrightarrow> i < length fs \<Longrightarrow>
     required_field_index (iter_at fs d i) = of_nat (n_required (take i fs))"
proof (induction i)
  case 0
  then show ?case by (simp add: n_required_def)
next
  case (Suc i)
  then have i: "i < length fs" by simp
  have tags: "f_tag (fs ! i) \<noteq> 0" "f_tag (fs ! Suc i) \<noteq> 0"
    using Suc.prems by (auto simp: tags_ok_def list_all_length)
  have req: "n_required (take (Suc i) fs) =
      n_required (take i fs) + (if PB_HTYPE (f_type (fs ! i)) = PB_HTYPE_REQUIRED then 1 else 0)"
    using i by (simp add: n_required_def take_Suc_conv_app_nth)
  have "required_field_index (iter_at fs d (Suc i)) = required_field_index (snd (pb_field_iter_next (iter_at fs d i)))"
    by (simp add: iter_at.simps)
  also have "\<dots> = required_field_index (iter_at fs d i) +
      (if PB_HTYPE (f_type (fs ! i)) = PB_HTYPE_REQUIRED then 1 else 0)"
    using tags i Suc.prems iter_at_cur [OF Suc.prems(1) i, of d] iter_at_pos [OF Suc.prems(1) i, of d]
    by (auto simp: pb_field_iter_next_def Let_def)
  finally show ?case using Suc.IH [OF Suc.prems(1) i] req by simp
qed

lemma seek_end_at:
  assumes tags: "tags_ok fs" and i: "i < length fs"
  shows "seek_end (iter_at fs d i) =
    (of_nat (n_required (take (length fs - 1) fs)), f_type (last fs), iter_at fs d 0)"
  using i
proof (induction "length fs - i" arbitrary: i)
  case 0
  then show ?case by simp
next
  case (Suc k)
  show ?case
  proof (cases "Suc i < length fs")
    case True
    with Suc.hyps have "seek_end (iter_at fs d (Suc i)) =
        (of_nat (n_required (take (length fs - 1) fs)), f_type (last fs), iter_at fs d 0)"
      by simp
    with True Suc.prems show ?thesis
      by (subst seek_end.simps) (simp add: iter_next_at [OF tags])
  next
    case False
    with Suc.prems have i: "length fs - 1 = i" "fs \<noteq> []" by auto
    then have "last fs = fs ! i" by (simp add: last_conv_nth)
    with i Suc.prems False show ?thesis
      by (subst seek_end.simps)
        (simp add: iter_next_at [OF tags] required_index_at [OF tags] iter_at_cur [OF tags])
  qed
qed

lemma n_required_last:
  "fs \<noteq> [] \<Longrightarrow> n_required fs = n_required (take (length fs - 1) fs) +
     (if PB_HTYPE (f_type (last fs)) = PB_HTYPE_REQUIRED then 1 else 0)"
  by (cases fs rule: rev_cases) (simp_all add: n_required_def)

text \<open>The check of the required fields sees their number.\<close>

lemma check_required_at:
  assumes tags: "tags_ok fs" and it: "it_state fs d it"
  shows "check_required it seen =
    (let req = of_nat (n_required fs) :: u32 in
     if req > 0 then
       rbind (check_words 0 (unat (drop_bit 5 req)) seen) (\<lambda>okay.
         if \<not> okay then Ret False
         else if unat (drop_bit 5 req) \<ge> length seen \<or> req AND 31 = 0 then UB
         else Ret (seen ! unat (drop_bit 5 req) = drop_bit (32 - unat (req AND 31)) (- 1)))
     else Ret True)"
proof (cases "fs = []")
  case True
  with it have "it = iter_at [] d 0" by (simp add: it_state_def)
  then have "seek_end it = (0, 0, it)"
    by (simp add: seek_end.simps empty_table PB_LAST_FIELD_def)
  then show ?thesis using True \<open>it = iter_at [] d 0\<close>
    by (simp add: check_required_def n_required_def empty_table PB_LAST_FIELD_def)
next
  case False
  with it obtain i where i: "it = iter_at fs d i" "i < length fs" by (auto simp: it_state_def)
  have "f_tag (cur_field (iter_at fs d 0)) \<noteq> 0"
    using False tags iter_at_cur [OF tags, of 0 d] by (auto simp: tags_ok_def list_all_length)
  then have "(if PB_HTYPE (f_type (last fs)) = PB_HTYPE_REQUIRED \<and> f_tag (cur_field (iter_at fs d 0)) \<noteq> 0
      then of_nat (n_required (take (length fs - 1) fs)) + 1
      else of_nat (n_required (take (length fs - 1) fs))) = (of_nat (n_required fs) :: u32)"
    by (simp add: n_required_last [OF False])
  then show ?thesis
    unfolding check_required_def i(1) seek_end_at [OF tags i(2)] prod.case by (simp only:)
qed

lemma check_words_returns: "i + k \<le> length seen \<Longrightarrow> \<exists>b. check_words i k seen = Ret b"
  by (induction k arbitrary: i) auto

lemma check_required_returns:
  assumes "tags_ok fs" "it_state fs d it" "length seen = 2" "n_required fs < 64" "n_required fs \<noteq> 32"
  shows "\<exists>b. check_required it seen = Ret b"
proof -
  let ?r = "of_nat (n_required fs) :: u32"
  have r: "unat ?r = n_required fs" by (rule unat_of_nat_small) (use assms(4) in simp)
  have q: "unat (drop_bit 5 ?r) = n_required fs div 32"
    using r by (simp add: drop_bit_eq_div unat_div)
  have m: "unat (?r AND 31) = n_required fs mod 32"
  proof -
    have "?r AND 31 = take_bit 5 ?r" by (simp add: take_bit_eq_mask mask_eq_exp_minus_1)
    then have "unat (?r AND 31) = take_bit 5 (unat ?r)" by (simp only: unsigned_take_bit_eq)
    then show ?thesis using r by (simp add: take_bit_eq_mod)
  qed
  have "n_required fs div 32 < 2" using assms(4) by simp
  then have q2: "unat (drop_bit 5 ?r) < length seen" using q assms(3) by simp
  have m0: "?r AND 31 \<noteq> 0" if "0 < ?r"
  proof
    assume "?r AND 31 = 0"
    then have "n_required fs mod 32 = 0" using m by simp
    moreover have "0 < n_required fs" using that r by (cases "n_required fs") auto
    ultimately show False using assms(4,5) by presburger
  qed
  obtain b where "check_words 0 (unat (drop_bit 5 ?r)) seen = Ret b"
    using check_words_returns [of 0 "unat (drop_bit 5 ?r)" seen] q2 by auto
  then show ?thesis
    using q2 m0 by (cases b) (auto simp: check_required_at [OF assms(1,2)] Let_def not_le)
qed

section \<open>The decoder of submessages\<close>

text \<open>
  What a level of \<open>pb_decode_noinit\<close> relies on: with fuel for the bytes left and the depth of
  the table, decoding a struct is safe.
\<close>

locale submessage_decoder =
  fixes n :: nat and E :: pb_env and noinit :: msg_decoder
  assumes noinit_safe: "stream_ok s \<Longrightarrow> unat (bytes_left s) + 2 \<le> n \<Longrightarrow> wf_table dep E fs sz \<Longrightarrow>
    2 * dep \<le> n \<Longrightarrow> returns (noinit s fs d m) (dec_post s m d sz)"
begin

lemma submessage_safe:
  assumes ok: "stream_ok s" and fuel: "unat (bytes_left s) + 1 \<le> n"
    and wf: "f_ptr f \<noteq> 0" "wf_table dep E (env_tables E (f_ptr f)) sz" "2 * dep \<le> n"
  shows "returns (pb_dec_submessage E n noinit s f dest m) (dec_post s m dest sz)"
  unfolding pb_dec_submessage_def
proof (rule make_substream_then [OF ok])
  fix sub t
  assume sub: "substream_of s sub t"
  then have sub_ok: "stream_ok sub" and sub_fuel: "unat (bytes_left sub) + 2 \<le> n"
    using fuel by (auto simp: substream_of_def)
  let ?fs = "env_tables E (f_ptr f)"
  let ?run = "if PB_HTYPE (f_type f) = PB_HTYPE_REPEATED
    then rbind (pb_message_set_to_defaults n E ?fs dest m) (\<lambda>m. noinit sub ?fs dest m)
    else noinit sub ?fs dest m"
  note noinit = noinit_safe [OF sub_ok sub_fuel wf(2,3)]
  have run: "returns ?run (dec_post sub m dest sz)"
  proof (rule returns_if)
    show "returns (rbind (pb_message_set_to_defaults n E ?fs dest m) (\<lambda>m. noinit sub ?fs dest m))
        (dec_post sub m dest sz)"
      by (rule returns_rbind [OF message_defaults_safe [OF wf(2,3)]])
        (auto intro!: returns_mono [OF noinit] elim: dec_post_trans [rotated 2])
  qed (rule noinit)
  have "returns (rbind ?run (\<lambda>(status, (sub, m)).
      check_do (on_stream (pb_close_string_substream E t sub) m) (\<lambda>_ (s, m). Ret (status, (s, m)))))
    (dec_post s m dest sz)"
    by (rule returns_rbind [OF run]) (auto intro!: close_then [OF sub])
  with wf(1) show "returns (case (t, m) of (s, m) \<Rightarrow>
      if f_ptr f = 0 then ds_error s m ''invalid field descriptor''
      else let submsg_fields = env_tables E (f_ptr f) in
        rbind (if PB_HTYPE (f_type f) = PB_HTYPE_REPEATED
            then rbind (pb_message_set_to_defaults n E submsg_fields dest m)
                   (\<lambda>m. noinit sub submsg_fields dest m)
            else noinit sub submsg_fields dest m)
          (\<lambda>(status, (sub, m)). check_do (on_stream (pb_close_string_substream E s sub) m)
             (\<lambda>_ (s, m). Ret (status, (s, m))))) (dec_post s m dest sz)"
    by (simp add: Let_def)
qed

text \<open>A field whose value is safe to decode at a place with room for it.\<close>

definition value_ok :: "pb_field \<Rightarrow> bool" where
  "value_ok f \<longleftrightarrow>
     PB_LTYPE (f_type f) < PB_LTYPES_COUNT \<and> PB_LTYPE (f_type f) \<noteq> PB_LTYPE_EXTENSION \<and>
     (PB_LTYPE (f_type f) = PB_LTYPE_FIXED32 \<longrightarrow> unat (f_data_size f) = 4) \<and>
     (PB_LTYPE (f_type f) = PB_LTYPE_FIXED64 \<longrightarrow> unat (f_data_size f) = 8) \<and>
     (PB_LTYPE (f_type f) = PB_LTYPE_SUBMESSAGE \<longrightarrow> f_ptr f \<noteq> 0 \<and>
        (\<exists>dep. wf_table dep E (env_tables E (f_ptr f)) (unat (f_data_size f)) \<and> 2 * dep \<le> n))"

lemma decoders_safe:
  assumes ok: "stream_ok s" and fuel: "unat (bytes_left s) + 1 \<le> n" and f: "value_ok f"
  shows "returns (PB_DECODERS E n noinit (PB_LTYPE (f_type f)) s f dest m)
    (dec_post s m dest (unat (f_data_size f)))"
proof -
  let ?l = "PB_LTYPE (f_type f)" and ?n = "unat (f_data_size f)"
  have int: "returns r (dec_post s m dest ?n)"
    if "returns r (dec_post s m dest (int_size (f_data_size f)))" for r :: "(unit option \<times> dstate) run"
    using that by (rule returns_mono) (erule dec_post_le, simp add: int_size_def)
  have "?l = 0 \<or> ?l = 1 \<or> ?l = 2 \<or> ?l = 3 \<or> ?l = 4 \<or> ?l = 5 \<or> ?l = 6 \<or> ?l = 7 \<or> ?l = 9"
    using f [unfolded value_ok_def, THEN conjunct1] f [unfolded value_ok_def, THEN conjunct2, THEN conjunct1]
    by (simp add: word_less_nat_alt word_unat_eq_iff) arith
  then consider "?l = 0" | "?l = 1" | "?l = 2" | "?l = 3" | "?l = 4" | "?l = 5" | "?l = 6" | "?l = 7" | "?l = 9"
    by blast
  then show ?thesis
  proof cases
    case 1 then show ?thesis by (simp add: PB_DECODERS_def int [OF pb_dec_varint_safe [OF ok]])
  next
    case 2 then show ?thesis by (simp add: PB_DECODERS_def int [OF pb_dec_uvarint_safe [OF ok]])
  next
    case 3 then show ?thesis by (simp add: PB_DECODERS_def int [OF pb_dec_svarint_safe [OF ok]])
  next
    case 4
    with f pb_dec_fixed32_safe [OF ok] show ?thesis by (simp add: PB_DECODERS_def value_ok_def)
  next
    case 5
    with f pb_dec_fixed64_safe [OF ok] show ?thesis by (simp add: PB_DECODERS_def value_ok_def)
  next
    case 6 then show ?thesis by (simp add: PB_DECODERS_def pb_dec_bytes_safe [OF ok])
  next
    case 7 then show ?thesis by (simp add: PB_DECODERS_def pb_dec_string_safe [OF ok])
  next
    case 8
    with f obtain dep where "f_ptr f \<noteq> 0" "wf_table dep E (env_tables E (f_ptr f)) ?n" "2 * dep \<le> n"
      by (auto simp: value_ok_def)
    from submessage_safe [OF ok fuel this] 8 show ?thesis by (simp add: PB_DECODERS_def)
  next
    case 9 then show ?thesis by (simp add: PB_DECODERS_def pb_dec_fixed_length_bytes_safe [OF ok])
  qed
qed

lemma packed_field_safe:
  assumes ok: "stream_ok s" and fuel: "unat (bytes_left s) + 1 \<le> n" and f: "value_ok f"
    and ltype: "PB_LTYPE (f_type f) \<le> PB_LTYPE_LAST_PACKABLE"
    and arr: "unat (f_data_size f) * unat (f_array_size f) < 2 ^ 32"
      "unat data + unat (f_data_size f) * unat (f_array_size f) \<le> sz" and size: "unat psize + 4 \<le> sz"
  shows "returns (check_do (on_stream (pb_make_string_substream E s) m) (\<lambda>sub (s, m).
      rbind (packed_loop (Suc (unat (bytes_left sub)))
          (\<lambda>s d m. PB_DECODERS E n noinit (PB_LTYPE (f_type f)) s f d m) f (d + data) (d + psize) sub m)
        (\<lambda>(status, (sub, m)).
          if bytes_left sub \<noteq> 0 then ds_error s m ''array overflow''
          else check_do (on_stream (pb_close_string_substream E s sub) m)
                 (\<lambda>_ (s, m). Ret (if status then Some () else None, (s, m)))))) (dec_post s m d sz)"
proof (rule make_substream_then [OF ok])
  fix sub t
  assume sub: "substream_of s sub t"
  have "returns (packed_loop (Suc (unat (bytes_left sub)))
      (\<lambda>s d m. PB_DECODERS E n noinit (PB_LTYPE (f_type f)) s f d m) f (d + data) (d + psize) sub m)
      (\<lambda>(r, u, m'). within sub u \<and> (r \<longrightarrow> reads sub u) \<and> frames d sz m m')"
  proof (rule packed_loop_safe [OF _ arr size substream_ok [OF sub]])
    fix s' :: pb_istream and q and m :: mem
    assume s': "stream_ok s'" "unat (bytes_left s') \<le> unat (bytes_left sub)"
    then have "unat (bytes_left s') + 1 \<le> n" using substream_shorter [OF sub] fuel by simp
    from decoders_safe [OF s'(1) this f] packable_consumes [OF s'(1) ltype]
    show "returns (PB_DECODERS E n noinit (PB_LTYPE (f_type f)) s' f q m)
        (\<lambda>r. dec_post s' m q (unat (f_data_size f)) r \<and> consumes s' r)"
      by (rule returns_conj)
  qed simp_all
  then show "returns (case (t, m) of (s, m) \<Rightarrow>
      rbind (packed_loop (Suc (unat (bytes_left sub)))
          (\<lambda>s d m. PB_DECODERS E n noinit (PB_LTYPE (f_type f)) s f d m) f (d + data) (d + psize) sub m)
        (\<lambda>(status, (sub, m)).
          if bytes_left sub \<noteq> 0 then ds_error s m ''array overflow''
          else check_do (on_stream (pb_close_string_substream E s sub) m)
                 (\<lambda>_ (s, m). Ret (if status then Some () else None, (s, m))))) (dec_post s m d sz)"
    unfolding prod.case
  proof (rule returns_rbind)
    fix r :: "bool \<times> dstate"
    assume r: "case r of (r, u, m') \<Rightarrow> within sub u \<and> (r \<longrightarrow> reads sub u) \<and> frames d sz m m'"
    obtain b u m' where [simp]: "r = (b, u, m')" by (cases r) auto
    show "returns (case r of (status, (sub, m)) \<Rightarrow>
        if bytes_left sub \<noteq> 0 then ds_error t m ''array overflow''
        else check_do (on_stream (pb_close_string_substream E t sub) m)
               (\<lambda>_ (s, m). Ret (if status then Some () else None, (s, m)))) (dec_post s m d sz)"
    proof (cases "bytes_left u = 0")
      case True
      have "returns (check_do (on_stream (pb_close_string_substream E t u) m')
          (\<lambda>_ (s, m). Ret (if b then Some () else None, (s, m)))) (dec_post s m d sz)"
        by (rule close_then [OF sub]) (use r in \<open>auto split: if_splits\<close>)
      with True show ?thesis by simp
    next
      case False
      with r substream_within [OF sub] show ?thesis by simp
    qed
  qed
qed

lemma static_field_safe:
  assumes ok: "stream_ok s" and fuel: "unat (bytes_left s) + 1 \<le> n"
    and tags: "tags_ok fs" and i: "i < length fs"
    and wf: "wf_field (wf_table dep E) E fs sz i" and dep: "2 * dep \<le> n"
    and static: "PB_ATYPE (f_type (fs ! i)) = PB_ATYPE_STATIC"
  shows "returns (decode_static_field E n noinit s wt (iter_at fs d i) m) (dec_post s m d sz)"
proof -
  let ?f = "fs ! i" and ?t = "f_type (fs ! i)" and ?n = "unat (f_data_size (fs ! i))"
  let ?data = "pData (iter_at fs 0 i)" and ?size = "pSize (iter_at fs 0 i)"
  let ?func = "\<lambda>s q m. PB_DECODERS E n noinit (PB_LTYPE ?t) s ?f q m"
  note cur = iter_at_cur [OF tags i, of d]
  note at = pData_at [of fs d i] pSize_at [of fs d i]
  note wf' = wf [unfolded wf_field_def Let_def uint_mult_less]
  have lt: "\<not> PB_LTYPE ?t \<ge> PB_LTYPES_COUNT" using wf' by (simp add: not_le)
  have vok: "value_ok ?f" using wf' dep static by (auto simp: value_ok_def)
  have func: "returns (?func s (d + q) m') (dec_post s m d sz)"
    if "unat q + ?n \<le> sz" "frames d sz m m'" for q m'
    by (rule returns_dec_then [OF returns_mono [OF decoders_safe [OF ok fuel vok]]])
      (use that in \<open>auto elim: dec_post_sub\<close>)
  consider (req) "PB_HTYPE ?t = PB_HTYPE_REQUIRED" | (opt) "PB_HTYPE ?t = PB_HTYPE_OPTIONAL"
    | (packed) "PB_HTYPE ?t = PB_HTYPE_REPEATED" "wt = PB_WT_STRING \<and> PB_LTYPE ?t \<le> PB_LTYPE_LAST_PACKABLE"
    | (item) "PB_HTYPE ?t = PB_HTYPE_REPEATED" "\<not> (wt = PB_WT_STRING \<and> PB_LTYPE ?t \<le> PB_LTYPE_LAST_PACKABLE)"
    | (oneof) "PB_HTYPE ?t = PB_HTYPE_ONEOF" | (other) "PB_HTYPE ?t \<notin> {PB_HTYPE_REQUIRED, PB_HTYPE_OPTIONAL, PB_HTYPE_REPEATED, PB_HTYPE_ONEOF}"
    by blast
  then show ?thesis
  proof cases
    case req
    have "unat ?data + ?n \<le> sz" using wf' static req by simp
    with req lt show ?thesis
      by (simp add: decode_static_field_def cur at Let_def func)
  next
    case opt
    let ?m = "if pSize (iter_at fs d i) \<noteq> pData (iter_at fs d i) then store_bool m (d + ?size) True else m"
    have data: "unat ?data + ?n \<le> sz" and size: "?size \<noteq> ?data \<Longrightarrow> unat ?size + 1 \<le> sz"
      using wf' static opt by auto
    have "frames d sz m ?m" using size by (auto simp: at intro: frames_store_bool)
    with opt lt func [OF data] show ?thesis
      by (simp add: decode_static_field_def cur at Let_def cong del: if_weak_cong)
  next
    case packed
    have arr: "?n * unat (f_array_size ?f) < 2 ^ 32" "unat ?data + ?n * unat (f_array_size ?f) \<le> sz"
      "unat ?size + 4 \<le> sz" using wf' static packed by auto
    from packed lt packed_field_safe [OF ok fuel vok _ arr, of m d] show ?thesis
      by (simp add: decode_static_field_def cur at Let_def)
  next
    case item
    have arr: "?n * unat (f_array_size ?f) < 2 ^ 32" "unat ?data + ?n * unat (f_array_size ?f) \<le> sz"
      "unat ?size + 4 \<le> sz" using wf' static item by auto
    let ?c = "load_u32 m (d + ?size)"
    have run: "returns (?func s (array_item (d + ?data) ?f ?c) (store_u32 m (d + ?size) (?c + 1))) (dec_post s m d sz)"
      if "?c < f_array_size ?f"
    proof -
      have "unat (?data + ucast (f_data_size ?f * ?c)) + ?n \<le> sz"
        using unat_add_le [of ?data "ucast (f_data_size ?f * ?c)"]
          array_item_in [OF arr(1) that] arr(2) by linarith
      then show ?thesis
        using func frames_store_u32 [OF arr(3)] by (simp add: array_item_def add.assoc)
    qed
    have "decode_static_field E n noinit s wt (iter_at fs d i) m =
        (if ?c \<ge> f_array_size ?f then ds_error s m ''array overflow''
         else ?func s (array_item (d + ?data) ?f ?c) (store_u32 m (d + ?size) (?c + 1)))"
      unfolding decode_static_field_def cur at Let_def
      using item lt by (auto simp del: packed_loop.simps)
    with run show ?thesis by (simp add: not_le)
  next
    case oneof
    have data: "unat ?data + ?n \<le> sz" and size: "unat ?size + 4 \<le> sz" using wf' static oneof by auto
    let ?m1 = "store_u32 m (d + ?size) (f_tag ?f)"
    have m1: "frames d sz m ?m1" using size by (rule frames_store_u32)
    have m2: "frames d sz m (zero_fill ?m1 (d + ?data) ?n)" using data by (rule frames_trans [OF m1 frames_zero])
    have sub: "returns (rbind (pb_message_set_to_defaults n E (env_tables E (f_ptr ?f)) (d + ?data)
          (zero_fill ?m1 (d + ?data) ?n)) (\<lambda>m. ?func s (d + ?data) m)) (dec_post s m d sz)"
      if "PB_LTYPE ?t = PB_LTYPE_SUBMESSAGE"
    proof (rule returns_rbind)
      have "wf_table dep E (env_tables E (f_ptr ?f)) ?n" using wf' static that by simp
      then show "returns (pb_message_set_to_defaults n E (env_tables E (f_ptr ?f)) (d + ?data)
          (zero_fill ?m1 (d + ?data) ?n)) (frames d sz m)"
        by (rule returns_mono [OF message_defaults_safe [OF _ dep]])
          (auto intro: frames_trans [OF m2] frames_sub [OF _ data])
    qed (rule func [OF data])
    show ?thesis
      unfolding decode_static_field_def cur at Let_def
      using oneof lt sub func [OF data m1] by simp
  next
    case other
    with lt show ?thesis by (simp add: decode_static_field_def cur Let_def)
  qed
qed

lemma decode_field_safe:
  assumes "stream_ok s" "unat (bytes_left s) + 1 \<le> n" "tags_ok fs" "i < length fs"
    and wf: "wf_field (wf_table dep E) E fs sz i" and "2 * dep \<le> n"
  shows "returns (decode_field E n noinit s wt (iter_at fs d i) m) (dec_post s m d sz)"
proof -
  have "PB_ATYPE (f_type (fs ! i)) = PB_ATYPE_STATIC \<or> PB_ATYPE (f_type (fs ! i)) = PB_ATYPE_POINTER"
    using wf by (auto simp: wf_field_def Let_def split: if_splits)
  then show ?thesis
    using static_field_safe [OF assms]
    by (auto simp: decode_field_def Let_def iter_at_cur [OF assms(3,4)] decode_pointer_field_def)
qed

lemma found_field_safe:
  assumes ok: "stream_ok s" and fuel: "unat (bytes_left s) + 1 \<le> n"
    and wf: "wf_table dep E fs sz" and dep: "2 * dep \<le> n + 2"
    and it: "it_state fs d it" "fs \<noteq> [] \<longrightarrow> (\<exists>j<length fs. it = iter_at fs d j)"
  shows "returns (decode_field E n noinit s wt it m) (dec_post s m d sz)"
proof (cases "fs = []")
  case True
  with it(1) have it0: "it = iter_at [] d 0" by (simp add: it_state_def)
  have "returns (pb_dec_varint E s PB_LAST_FIELD (pData it) m) (dec_post s m (pData it) 0)"
    using pb_dec_varint_safe [OF ok, of E PB_LAST_FIELD "pData it" m] by (simp add: int_size_def PB_LAST_FIELD_def)
  then have "returns (pb_dec_varint E s PB_LAST_FIELD (pData it) m) (dec_post s m d sz)"
    by (rule returns_mono) (auto simp: dec_post_def frames_def in_region_def)
  then show ?thesis
    by (simp add: it0 empty_table decode_field_def decode_static_field_def PB_DECODERS_def PB_LAST_FIELD_def
        PB_ATYPE_def PB_HTYPE_def PB_LTYPE_def Let_def)
next
  case False
  with it(2) obtain j where j: "j < length fs" "it = iter_at fs d j" by blast
  obtain dep' where dep': "dep = Suc dep'" using wf by (cases dep) auto
  have "2 * dep' \<le> n" using dep dep' by simp
  from decode_field_safe [OF ok fuel wf_table_tags [OF wf] j(1) wf_field_nth [OF wf [unfolded dep'] j(1)] this]
  show ?thesis by (simp add: j(2))
qed

lemma unknown_field_safe:
  assumes ok: "stream_ok s" and wf: "wf_table dep E fs sz" and it: "it_state fs d it"
    and tag: "tag < 2 ^ 29"
  shows "returns (decode_unknown E n noinit s tag wt it xrange m)
    (\<lambda>r. dec_post s m d sz r \<and> (\<forall>it' x. fst r = Some (it', x) \<longrightarrow> it_state fs d it'))"
proof -
  have skip: "returns (check_do (on_stream (pb_skip_field E s wt) m) (\<lambda>_ (s, m). ok (it', x) (s, m)))
      (\<lambda>r. dec_post s m d sz r \<and> (\<forall>it' x. fst r = Some (it', x) \<longrightarrow> it_state fs d it'))"
    if "it_state fs d it'" for it' and x :: u32
    by (rule returns_try_do [OF returns_on_stream [OF stream_frameD [OF pb_skip_field_frame ok] ok]])
      (use that in auto)
  have "\<exists>it'. find_extension_field it = Ret (False, it') \<and> it_state fs d it'"
  proof -
    from search_state [OF wf_table_tags [OF wf] it, of "\<lambda>f. PB_LTYPE (f_type f) = PB_LTYPE_EXTENSION"]
    obtain b it' where find: "find_extension_field it = Ret (b, it')" "it_state fs d it'"
      and b: "b \<and> fs \<noteq> [] \<longrightarrow> (\<exists>j<length fs. PB_LTYPE (f_type (fs ! j)) = PB_LTYPE_EXTENSION)"
        "b \<and> fs = [] \<longrightarrow> PB_LTYPE (f_type PB_LAST_FIELD) = PB_LTYPE_EXTENSION"
      using it_state_start [OF it] by (auto simp: find_extension_field_def)
    obtain dep' where dep': "dep = Suc dep'" using wf by (cases dep) auto
    have "PB_LTYPE (f_type (fs ! j)) \<noteq> PB_LTYPE_EXTENSION" if "j < length fs" for j
      using wf_field_nth [OF wf [unfolded dep'] that] by (simp add: wf_field_def Let_def)
    with b have "\<not> b" by (cases "fs = []") (auto simp: PB_LAST_FIELD_def PB_LTYPE_def)
    with find show ?thesis by auto
  qed
  then obtain it' where it': "find_extension_field it = Ret (False, it')" "it_state fs d it'" by blast
  have "\<not> tag \<ge> - 1"
    using tag by (simp add: word_le_nat_alt word_less_nat_alt not_le unsigned_minus_1_eq_mask mask_eq_exp_minus_1)
  with skip [OF it] skip [OF it'(2)] it'(1) show ?thesis
    by (simp add: decode_unknown_def)
qed

lemma decode_tag_29:
  "pb_decode_tag E s = Ret ((True, wt, tag, eof), t) \<Longrightarrow> tag < 2 ^ 29"
proof -
  have "drop_bit 3 w < 2 ^ 29" for w :: u32
  proof -
    have "unat w < 2 ^ 32" using unsigned_less [of w, where 'a = nat] by simp
    then have "unat w div 8 < 2 ^ 29" by simp
    then show ?thesis by (simp add: word_less_nat_alt drop_bit_eq_div unat_div)
  qed
  then show "pb_decode_tag E s = Ret ((True, wt, tag, eof), t) \<Longrightarrow> tag < 2 ^ 29"
    by (auto simp: pb_decode_tag_def rbind_Ret_iff split: option.splits if_splits)
qed

lemma length_mark_seen [simp]: "length (mark_seen it seen) = length seen"
  by (simp add: mark_seen_def Let_def)

text \<open>The loop: every pass reads at least a tag, so the bytes left bound the passes.\<close>

definition loop_post ::
  "pb_field list \<Rightarrow> pb_istream \<Rightarrow> mem \<Rightarrow> addr \<Rightarrow> nat \<Rightarrow> (pb_field_iter \<times> u32 list) option \<times> dstate \<Rightarrow> bool" where
  "loop_post fs s m d sz r \<longleftrightarrow> dec_post s m d sz r \<and>
     (\<forall>it seen. fst r = Some (it, seen) \<longrightarrow> it_state fs d it \<and> length seen = 2)"

lemma loop_post_then:
  "returns r (loop_post fs t m' d sz) \<Longrightarrow> within s t \<Longrightarrow> reads s t \<Longrightarrow> frames d sz m m' \<Longrightarrow>
     returns r (loop_post fs s m d sz)"
  by (erule returns_mono) (auto simp: loop_post_def elim: dec_post_trans [rotated 3])

lemma decode_loop_safe:
  assumes wf: "wf_table dep E fs sz" and dep: "2 * dep \<le> n + 2"
  shows "stream_ok s \<Longrightarrow> unat (bytes_left s) < k \<Longrightarrow> unat (bytes_left s) \<le> n \<Longrightarrow> it_state fs d it \<Longrightarrow>
    length seen = 2 \<Longrightarrow> returns (decode_loop k E n noinit s it seen xrange m) (loop_post fs s m d sz)"
proof (induction k arbitrary: s it seen xrange m)
  case 0
  then show ?case by simp
next
  case (Suc k)
  note tags = wf_table_tags [OF wf]
  show ?case
  proof (cases "bytes_left s = 0")
    case True
    with Suc.prems show ?thesis by (simp add: loop_post_def)
  next
    case False
    from pb_decode_tag_frame [OF Suc.prems(1), of E]
    obtain okay wt tag eof t where tag: "pb_decode_tag E s = Ret ((okay, wt, tag, eof), t)"
      and t: "stream_ok t" "reads s t" "okay \<Longrightarrow> bytes_left t < bytes_left s"
      by (auto simp: returns_iff)
    have st: "within s t" using reads_within [OF t(2) Suc.prems(1)] .
    show ?thesis
    proof (cases okay)
      case False
      with tag t st Suc.prems \<open>bytes_left s \<noteq> 0\<close> show ?thesis by (simp add: loop_post_def)
    next
      case okay: True
      have left: "unat (bytes_left t) < unat (bytes_left s)" using t(3) okay by (simp add: word_less_nat_alt)
      from search_state [OF tags Suc.prems(4), of "\<lambda>f. f_tag f = tag \<and> PB_LTYPE (f_type f) \<noteq> PB_LTYPE_EXTENSION"]
      obtain b it' where find: "pb_field_iter_find it tag = Ret (b, it')" and it': "it_state fs d it'"
        "b \<and> fs \<noteq> [] \<longrightarrow> (\<exists>j<length fs. it' = iter_at fs d j)"
        using it_state_start [OF Suc.prems(4)] by (auto simp: pb_field_iter_find_def)
      have next_pass: "returns (decode_loop k E n noinit u it2 seen2 x m2) (loop_post fs s m d sz)"
        if "within t u" "reads t u" "frames d sz m m2" "it_state fs d it2" "length seen2 = 2" for u it2 seen2 x m2
      proof (rule loop_post_then)
        have "unat (bytes_left u) \<le> unat (bytes_left t)" using that(1) by (simp add: within_def)
        then show "returns (decode_loop k E n noinit u it2 seen2 x m2) (loop_post fs u m2 d sz)"
          using that left Suc.prems within_ok [OF that(1) t(1)] by (intro Suc.IH) auto
      qed (use that st t(2) in \<open>auto intro: within_trans reads_trans\<close>)
      have pass: "returns (if \<not> b then
            check_do (decode_unknown E n noinit t tag wt it' xrange m)
              (\<lambda>(it, xrange) (s, m). decode_loop k E n noinit s it seen xrange m)
          else check_do (decode_field E n noinit t wt it' m)
              (\<lambda>_ (s, m). decode_loop k E n noinit s it' (mark_seen it' seen) xrange m)) (loop_post fs s m d sz)"
      proof (rule returns_if)
        have tag29: "tag < 2 ^ 29" using decode_tag_29 tag okay by simp
        show "returns (check_do (decode_unknown E n noinit t tag wt it' xrange m)
            (\<lambda>(it, xrange) (s, m). decode_loop k E n noinit s it seen xrange m)) (loop_post fs s m d sz)"
          by (rule returns_try_do [OF unknown_field_safe [OF t(1) wf it'(1) tag29]])
            (use st next_pass Suc.prems(5) in \<open>auto simp: loop_post_def intro: within_trans\<close>)
      next
        assume "\<not> \<not> b"
        then have "fs \<noteq> [] \<longrightarrow> (\<exists>j<length fs. it' = iter_at fs d j)" using it'(2) by simp
        from found_field_safe [OF t(1) _ wf dep it'(1) this, of wt m] left Suc.prems(3)
        have field: "returns (decode_field E n noinit t wt it' m) (dec_post t m d sz)" by simp
        show "returns (check_do (decode_field E n noinit t wt it' m)
            (\<lambda>_ (s, m). decode_loop k E n noinit s it' (mark_seen it' seen) xrange m)) (loop_post fs s m d sz)"
          by (rule returns_try_do [OF field])
            (use st next_pass it'(1) Suc.prems(5) in \<open>auto simp: loop_post_def intro: within_trans\<close>)
      qed
      with tag find okay False show ?thesis by (cases b) (simp_all add: Let_def)
    qed
  qed
qed

lemma decode_message_safe:
  assumes ok: "stream_ok s" and fuel: "unat (bytes_left s) + 1 \<le> n"
    and wf: "wf_table dep E fs sz" and dep: "2 * dep \<le> n + 2"
  shows "returns (decode_message E n noinit s fs d m) (dec_post s m d sz)"
  unfolding decode_message_def
proof (rule returns_try_do)
  show "returns (decode_loop n E n noinit s (snd (pb_field_iter_begin fs d)) [0, 0] 0 m) (loop_post fs s m d sz)"
    using fuel by (intro decode_loop_safe [OF wf dep ok]) (simp_all add: iter_begin_snd it_state_0)
next
  fix t :: dstate
  assume "loop_post fs s m d sz (None, t)"
  then show "dec_post s m d sz (None, t)" by (cases t) (simp add: loop_post_def)
next
  fix x :: "pb_field_iter \<times> u32 list" and t :: dstate
  assume post: "loop_post fs s m d sz (Some x, t)"
  obtain it seen u m' where [simp]: "x = (it, seen)" "t = (u, m')" by (cases x, cases t)
  obtain dep' where "dep = Suc dep'" using wf by (cases dep) auto
  with post wf check_required_returns [of fs d it seen]
  obtain b where "check_required it seen = Ret b" by (auto simp: loop_post_def)
  with post show "returns ((case x of (it, seen) \<Rightarrow> \<lambda>(s, m).
      rbind (check_required it seen) (\<lambda>okay.
        if okay then ok () (s, m) else ds_error s m ''missing required field'')) t) (dec_post s m d sz)"
    by (simp add: loop_post_def)
qed

lemma next_level: "submessage_decoder (Suc n) E (decode_message E n noinit)"
  by unfold_locales (rule decode_message_safe, auto)

end

text \<open>The model's decoder meets the contract at every fuel.\<close>

lemma pb_decode_noinit_contract: "submessage_decoder n E (pb_decode_noinit n E)"
proof (induction n)
  case 0
  then show ?case by unfold_locales simp
next
  case (Suc n)
  then show ?case by (simp add: submessage_decoder.next_level)
qed

interpretation noinit: submessage_decoder n E "pb_decode_noinit n E" for n E
  by (rule pb_decode_noinit_contract)

section \<open>Safety of the entry points\<close>

lemma pb_decode_post:
  assumes "stream_ok s" "unat (bytes_left s) + 2 \<le> n" "wf_table dep E fs sz" "2 * dep \<le> n"
  shows "returns (pb_decode n E s fs d m) (dec_post s m d sz)"
  unfolding pb_decode_def
  by (rule returns_rbind [OF message_defaults_safe [OF assms(3,4)]])
    (auto intro: returns_dec_then [OF noinit.noinit_safe [OF assms]])

text \<open>C1: Memory safety of pb_decode. For every input, with a well-formed descriptor table and a memory stream
  whose limit lies in its buffer, pb_decode returns without undefined behaviour (so it never reads past the
  buffer), writes no byte outside the message struct, and when it succeeds the stream has advanced by exactly
  what its limit shrank.\<close>

theorem pb_decode_safe:
  assumes "wf_table dep E fs sz" "is_callback s = Buf_Read" "unat (bytes_left s) \<le> length (is_state s)"
    and "unat (bytes_left s) + 2 \<le> n" "2 * dep \<le> n"
  shows "\<exists>r t m'. pb_decode n E s fs d m = Ret (r, (t, m')) \<and> (\<forall>a. \<not> in_region d sz a \<longrightarrow> m' a = m a) \<and>
    bytes_left t \<le> bytes_left s \<and>
    (r = Some () \<longrightarrow> is_state t = drop (unat (bytes_left s) - unat (bytes_left t)) (is_state s))"
proof -
  have "stream_ok s" using assms(3) by (simp add: stream_ok_def)
  from pb_decode_post [OF this assms(4,1,5), of d m] show ?thesis
    using assms(2) by (auto simp: returns_iff within_def frames_def reads_def word_le_nat_alt)
qed

theorem pb_decode_safe_witness:
  "\<exists>r t m'. pb_decode 18 no_callbacks (pb_istream_from_buffer msg_bytes 16) msg_fields 0x1000 (\<lambda>_. 0xEE) =
     Ret (r, (t, m')) \<and> (\<forall>a. \<not> in_region 0x1000 40 a \<longrightarrow> m' a = 0xEE) \<and> bytes_left t \<le> 16 \<and>
     (r = Some () \<longrightarrow> is_state t = drop (16 - unat (bytes_left t)) msg_bytes)"
  using pb_decode_safe [where dep = 2 and E = no_callbacks and fs = msg_fields and sz = 40 and
      s = "pb_istream_from_buffer msg_bytes 16" and n = 18 and d = "0x1000" and m = "\<lambda>_. 0xEE"]
  by (simp add: pb_istream_from_buffer_def msg_fields_wf) (simp add: msg_bytes_def)

end
