(* ===== verification/Pb_Required.thy ===== *)
theory Pb_Required
  imports Pb_Decode_Safe
begin

text \<open>
  The required fields of a message: \<open>pb_decode_noinit\<close> sets one bit per required field it
  meets (\<open>mark_seen\<close>) and compares the bits with their number at the end (\<open>check_required\<close>).
  The lemmas give the bits as the set of positions met, and what happens at the numbers of
  required fields that the comparison does not handle.
\<close>

section \<open>The index of a required field\<close>

abbreviation required :: "pb_field \<Rightarrow> bool" where
  "required f \<equiv> PB_HTYPE (f_type f) = PB_HTYPE_REQUIRED"

definition req_index :: "pb_field list \<Rightarrow> nat \<Rightarrow> nat" where
  "req_index fs i = n_required (take i fs)"

lemma n_required_append: "n_required (xs @ ys) = n_required xs + n_required ys"
  by (simp add: n_required_def)

lemma req_index_Suc:
  "i < length fs \<Longrightarrow> req_index fs (Suc i) = req_index fs i + (if required (fs ! i) then 1 else 0)"
  by (simp add: req_index_def take_Suc_conv_app_nth n_required_append) (simp add: n_required_def)

lemma req_index_mono: "i \<le> j \<Longrightarrow> req_index fs i \<le> req_index fs j"
proof -
  assume "i \<le> j"
  then have "take j fs = take i fs @ drop i (take j fs)"
    by (metis append_take_drop_id min.absorb1 take_take)
  then show ?thesis by (metis le_add1 n_required_append req_index_def)
qed

lemma req_index_less:
  assumes "i < length fs" "required (fs ! i)"
  shows "req_index fs i < n_required fs"
proof -
  have "req_index fs (Suc i) \<le> req_index fs (length fs)" by (rule req_index_mono) (use assms in simp)
  with assms show ?thesis by (simp add: req_index_Suc) (simp add: req_index_def)
qed

text \<open>Every index below the number of required fields belongs to one of them.\<close>

lemma req_index_onto:
  "k < n_required fs \<Longrightarrow> \<exists>i<length fs. required (fs ! i) \<and> req_index fs i = k"
proof (induction fs rule: rev_induct)
  case Nil
  then show ?case by (simp add: n_required_def)
next
  case (snoc f fs)
  show ?case
  proof (cases "k < n_required fs")
    case True
    with snoc.IH obtain i where i: "i < length fs" "required (fs ! i)" "req_index fs i = k" by blast
    then show ?thesis by (intro exI [of _ i]) (simp add: nth_append req_index_def)
  next
    case False
    with snoc.prems have "required f" "k = n_required fs"
      by (auto simp: n_required_append) (auto simp: n_required_def split: if_splits)
    then show ?thesis by (intro exI [of _ "length fs"]) (simp add: req_index_def)
  qed
qed

lemma req_index_inj:
  assumes "i < length fs" "j < length fs" "required (fs ! i)" "required (fs ! j)" "req_index fs i = req_index fs j"
  shows "i = j"
proof (rule ccontr)
  assume "i \<noteq> j"
  then consider "Suc i \<le> j" | "Suc j \<le> i" by linarith
  then show False
    using assms req_index_mono [of "Suc i" j fs] req_index_mono [of "Suc j" i fs] by cases (auto simp: req_index_Suc)
qed

section \<open>The bits of fields_seen\<close>

definition seen_bit :: "u32 list \<Rightarrow> nat \<Rightarrow> bool" where
  "seen_bit seen k = bit (seen ! (k div 32)) (k mod 32)"

lemma unat_and31: "unat ((w :: u32) AND 31) = unat w mod 32"
proof -
  have "w AND 31 = take_bit 5 w" by (simp add: take_bit_eq_mask mask_eq_exp_minus_1)
  then have "unat (w AND 31) = take_bit 5 (unat w)" by (simp only: unsigned_take_bit_eq)
  then show ?thesis by (simp add: take_bit_eq_mod)
qed

lemma unat_drop5: "unat (drop_bit 5 (w :: u32)) = unat w div 32"
  by (simp add: drop_bit_eq_div unat_div)

lemma mark_seen_bit:
  assumes tags: "tags_ok fs" and i: "i < length fs" and n: "n_required fs < 64"
    and seen: "length seen = 2" and k: "k < 64"
  shows "seen_bit (mark_seen (iter_at fs d i) seen) k \<longleftrightarrow> seen_bit seen k \<or> (required (fs ! i) \<and> req_index fs i = k)"
proof (cases "required (fs ! i)")
  case False
  then show ?thesis by (simp add: mark_seen_def Let_def iter_at_cur [OF tags i])
next
  case True
  let ?r = "req_index fs i"
  have r: "?r < 64" using req_index_less [OF i True] n by simp
  have idx: "unat (required_field_index (iter_at fs d i)) = ?r"
    unfolding required_index_at [OF tags i] req_index_def [symmetric]
    by (rule unat_of_nat_small) (use r in simp)
  have upd: "mark_seen (iter_at fs d i) seen =
      seen[?r div 32 := seen ! (?r div 32) OR push_bit (?r mod 32) 1]"
    using True r by (simp add: mark_seen_def Let_def iter_at_cur [OF tags i] unat_drop5 unat_and31 idx)
  have q: "?r div 32 < 2" "k div 32 < 2" using r k by simp_all
  have one: "bit (push_bit (?r mod 32) 1 :: u32) (k mod 32) \<longleftrightarrow> ?r mod 32 = k mod 32"
    by (auto simp: bit_push_bit_iff bit_1_iff simp del: push_bit_of_1)
  have "?r = k \<longleftrightarrow> ?r div 32 = k div 32 \<and> ?r mod 32 = k mod 32" by (metis div_mult_mod_eq)
  with True q one seen show ?thesis
    by (cases "?r div 32 = k div 32") (auto simp: seen_bit_def upd bit_or_iff nth_list_update)
qed

definition mark_all :: "pb_field list \<Rightarrow> addr \<Rightarrow> nat list \<Rightarrow> u32 list \<Rightarrow> u32 list" where
  "mark_all fs d is seen = foldl (\<lambda>seen i. mark_seen (iter_at fs d i) seen) seen is"

lemma mark_all_simps [simp]:
  "mark_all fs d [] seen = seen"
  "mark_all fs d (i # is) seen = mark_all fs d is (mark_seen (iter_at fs d i) seen)"
  by (simp_all add: mark_all_def)

lemma length_mark_all [simp]: "length (mark_all fs d is seen) = length seen"
  by (induction "is" arbitrary: seen) simp_all

lemma mark_all_append: "mark_all fs d (is @ [i]) seen = mark_seen (iter_at fs d i) (mark_all fs d is seen)"
  by (simp add: mark_all_def)

lemma mark_all_bit:
  assumes "tags_ok fs" "n_required fs < 64" "k < 64" "set is \<subseteq> {..<length fs}" "length seen = 2"
  shows "seen_bit (mark_all fs d is seen) k \<longleftrightarrow>
    seen_bit seen k \<or> (\<exists>i\<in>set is. required (fs ! i) \<and> req_index fs i = k)"
  using assms(4,5)
proof (induction "is" arbitrary: seen)
  case Nil
  then show ?case by simp
next
  case (Cons i "is")
  then show ?case
    using mark_seen_bit [OF assms(1) _ assms(2) _ assms(3), of i seen d] by auto
qed

section \<open>The comparison\<close>

lemma all_ones: "(w :: u32) = - 1 \<longleftrightarrow> (\<forall>t<32. bit w t)"
  by (auto simp: bit_eq_iff)

lemma low_ones:
  assumes "0 < j" "j < 32"
  shows "(w :: u32) = drop_bit (32 - j) (- 1) \<longleftrightarrow> (\<forall>t<32. bit w t \<longleftrightarrow> t < j)"
proof -
  have "bit (drop_bit (32 - j) (- 1) :: u32) t \<longleftrightarrow> t < j" for t
    using assms by (auto simp: bit_drop_bit_eq bit_mask_iff)
  then show ?thesis
    using bit_imp_le_length [of w] assms by (force simp: bit_eq_iff)
qed

lemma check_words_all: "i + k \<le> length seen \<Longrightarrow> check_words i k seen = Ret (\<forall>j<k. seen ! (i + j) = - 1)"
proof (induction k arbitrary: i)
  case 0
  then show ?case by simp
next
  case (Suc k)
  then show ?case
    by (simp add: All_less_Suc2)
qed

lemma check_required_bits:
  assumes tags: "tags_ok fs" and it: "it_state fs d it" and len: "length seen = 2"
    and n: "n_required fs < 64" "n_required fs \<noteq> 32"
    and high: "\<And>k. n_required fs \<le> k \<Longrightarrow> k < 64 \<Longrightarrow> \<not> seen_bit seen k"
  shows "check_required it seen = Ret (\<forall>k<n_required fs. seen_bit seen k)"
proof (cases "n_required fs = 0")
  case True
  then show ?thesis by (simp add: check_required_at [OF tags it] Let_def)
next
  case False
  let ?r = "n_required fs" and ?w = "of_nat (n_required fs) :: u32"
  let ?q = "?r div 32" and ?j = "?r mod 32"
  have r: "unat ?w = ?r" by (rule unat_of_nat_small) (use n(1) in simp)
  have pos: "?w > 0" using r False by (simp add: word_less_nat_alt)
  have q: "?q < 2" using n(1) by simp
  have j: "0 < ?j" "?j < 32"
    using n False by (auto simp: mod_greater_zero_iff_not_dvd dvd_def)
  have "?w AND 31 \<noteq> 0"
  proof
    assume "?w AND 31 = 0"
    then have "unat (?w AND 31) = 0" by simp
    with j(1) show False by (simp only: unat_and31 r)
  qed
  then have check: "check_required it seen =
      Ret ((\<forall>j<?q. seen ! j = - 1) \<and> seen ! ?q = drop_bit (32 - ?j) (- 1))"
    using pos q len
    by (auto simp: check_required_at [OF tags it] Let_def unat_drop5 unat_and31 r check_words_all)
  have whole: "seen ! i = - 1 \<longleftrightarrow> (\<forall>t<32. seen_bit seen (i * 32 + t))" for i
    by (simp add: all_ones seen_bit_def)
  have part: "seen ! ?q = drop_bit (32 - ?j) (- 1) \<longleftrightarrow> (\<forall>t<32. seen_bit seen (?q * 32 + t) \<longleftrightarrow> t < ?j)"
    by (simp only: low_ones [OF j]) (simp add: seen_bit_def)
  have high': "\<not> seen_bit seen (?q * 32 + t)" if "?j \<le> t" "t < 32" for t
  proof (rule high)
    have "?r = ?q * 32 + ?j" by (simp only: div_mult_mod_eq)
    then show "?r \<le> ?q * 32 + t" "?q * 32 + t < 64" using that q by linarith+
  qed
  have split: "(\<forall>k<?r. P k) \<longleftrightarrow> (\<forall>i<?q. \<forall>t<32. P (i * 32 + t)) \<and> (\<forall>t<?j. P (?q * 32 + t))" for P
  proof (intro iffI conjI allI impI)
    fix k
    assume P: "(\<forall>i<?q. \<forall>t<32. P (i * 32 + t)) \<and> (\<forall>t<?j. P (?q * 32 + t))" and k: "k < ?r"
    have "k div 32 < ?q \<or> k div 32 = ?q \<and> k mod 32 < ?j"
      using k by (metis div_le_mono div_mult_mod_eq le_less less_imp_le nat_add_left_cancel_less)
    then have "P (k div 32 * 32 + k mod 32)" using P by (metis mod_less_divisor zero_less_numeral)
    then show "P k" by simp
  next
    fix i t assume "\<forall>k<?r. P k" "i < ?q" "t < (32::nat)"
    moreover have "i * 32 + t < ?r" using \<open>i < ?q\<close> \<open>t < 32\<close> by linarith
    ultimately show "P (i * 32 + t)" by blast
  next
    fix t assume "\<forall>k<?r. P k" "t < ?j"
    moreover have "?q * 32 + t < ?r" using \<open>t < ?j\<close> by (metis div_mult_mod_eq nat_add_left_cancel_less)
    ultimately show "P (?q * 32 + t)" by blast
  qed
  have "(\<forall>t<32. seen_bit seen (?q * 32 + t) \<longleftrightarrow> t < ?j) \<longleftrightarrow> (\<forall>t<?j. seen_bit seen (?q * 32 + t))"
    using high' j(2) by (meson less_trans not_less)
  then show ?thesis
    unfolding check split whole part by (simp only:)
qed

lemma check_required_marks:
  assumes "tags_ok fs" "it_state fs d it" "n_required fs < 64" "n_required fs \<noteq> 32" "set is \<subseteq> {..<length fs}"
  shows "check_required it (mark_all fs d is [0, 0]) =
    Ret (\<forall>i<length fs. required (fs ! i) \<longrightarrow> i \<in> set is)"
proof -
  let ?seen = "mark_all fs d is [0, 0]"
  have zero: "\<not> seen_bit [0, 0] k" if "k < 64" for k
  proof -
    have "k div 32 = 0 \<or> k div 32 = 1" using that by linarith
    then show ?thesis by (auto simp: seen_bit_def)
  qed
  have bit: "seen_bit ?seen k \<longleftrightarrow> (\<exists>i\<in>set is. required (fs ! i) \<and> req_index fs i = k)" if "k < 64" for k
    using mark_all_bit [OF assms(1,3) that assms(5), of "[0, 0]" d] zero [OF that] by simp
  have high: "\<not> seen_bit ?seen k" if k: "n_required fs \<le> k" "k < 64" for k
  proof
    assume "seen_bit ?seen k"
    then obtain i where i: "i \<in> set is" "required (fs ! i)" "req_index fs i = k" using bit [OF k(2)] by blast
    then have "i < length fs" using assms(5) by blast
    from req_index_less [OF this i(2)] i(3) k(1) show False by simp
  qed
  have "(\<forall>k<n_required fs. seen_bit ?seen k) \<longleftrightarrow> (\<forall>i<length fs. required (fs ! i) \<longrightarrow> i \<in> set is)"
  proof (intro iffI allI impI)
    fix i
    assume all: "\<forall>k<n_required fs. seen_bit ?seen k" and i: "i < length fs" "required (fs ! i)"
    then have less: "req_index fs i < n_required fs" by (intro req_index_less)
    with all assms(3) bit [of "req_index fs i"] obtain j where
      "j \<in> set is" "required (fs ! j)" "req_index fs j = req_index fs i" by auto
    with i assms(5) req_index_inj [of i fs j] show "i \<in> set is" by auto
  next
    fix k
    assume all: "\<forall>i<length fs. required (fs ! i) \<longrightarrow> i \<in> set is" and k: "k < n_required fs"
    from req_index_onto [OF k] obtain i where "i < length fs" "required (fs ! i)" "req_index fs i = k" by blast
    with all k assms(3) bit [of k] show "seen_bit ?seen k" by auto
  qed
  with check_required_bits [OF assms(1,2) _ assms(3,4) high] show ?thesis by simp
qed

text \<open>C6: For a message type with fewer than 64 required fields, but not exactly 32, the check of the required
  fields is exact: after the fields at any positions have been met, in any order and any number of times, it answers
  whether every required field is among them. (With 32 or 64 of them it is undefined, as the next property shows.)\<close>

theorem required_fields_check:
  assumes "tags_ok fs" "it_state fs d it" "n_required fs < 64" "n_required fs \<noteq> 32" "set is \<subseteq> {..<length fs}"
  shows "check_required it (mark_all fs d is [0, 0]) =
    Ret (\<forall>i<length fs. required (fs ! i) \<longrightarrow> i \<in> set is)"
  using assms by (rule check_required_marks)

theorem required_fields_check_witness:
  "check_required (iter_at msg_fields 0x1000 3) (mark_all msg_fields 0x1000 [2, 0, 2] [0, 0]) = Ret True \<and>
   check_required (iter_at msg_fields 0x1000 3) (mark_all msg_fields 0x1000 [1, 3] [0, 0]) = Ret False"
proof -
  have four: "length msg_fields = 4" by (simp add: msg_fields_def)
  have "(\<forall>i<4. required (msg_fields ! i) \<longrightarrow> i \<in> {0, 2 :: nat}) \<and> \<not> (\<forall>i<4. required (msg_fields ! i) \<longrightarrow> i \<in> {1, 3 :: nat})"
    by code_simp
  moreover have "tags_ok msg_fields" "n_required msg_fields = 1" by code_simp+
  moreover have "it_state msg_fields 0x1000 (iter_at msg_fields 0x1000 3)" by (rule it_state_at) (simp add: four)
  ultimately show ?thesis
    using required_fields_check [of msg_fields "0x1000" "iter_at msg_fields 0x1000 3" "[2, 0, 2]"]
      required_fields_check [of msg_fields "0x1000" "iter_at msg_fields 0x1000 3" "[1, 3]"] four
    by (auto simp: insert_commute)
qed

text \<open>C7: With 32 or 64 required fields, all of them met, the comparison of the remaining bits is undefined: it
  shifts a 32-bit word by 32, and with 64 it also reads the third of two words.\<close>

theorem required_fields_undefined:
  assumes "tags_ok fs" "it_state fs d it" "n_required fs = 32 \<or> n_required fs = 64"
    and "length seen = 2" "\<forall>k<n_required fs. seen_bit seen k"
  shows "check_required it seen = UB"
proof -
  let ?w = "of_nat (n_required fs) :: u32"
  have r: "unat ?w = n_required fs" by (rule unat_of_nat_small) (use assms(3) in auto)
  have q: "n_required fs div 32 \<le> length seen" using assms(3,4) by auto
  have ones: "seen ! i = - 1" if "i < n_required fs div 32" for i
  proof -
    have "seen_bit seen (i * 32 + t)" if "t < 32" for t
      using assms(3,5) \<open>i < n_required fs div 32\<close> that by auto
    then show ?thesis by (simp add: all_ones seen_bit_def)
  qed
  have "check_words 0 (unat (drop_bit 5 ?w)) seen = Ret True"
    using check_words_all [of 0 "n_required fs div 32" seen] q ones by (simp add: unat_drop5 r)
  moreover have "?w AND 31 = 0"
  proof -
    have "unat (?w AND 31) = 0" using assms(3) by (auto simp: unat_and31 r)
    then show ?thesis by (simp only: unat_eq_0)
  qed
  moreover have "?w > 0" using assms(3) r by (auto simp: word_less_nat_alt)
  ultimately show ?thesis by (simp add: check_required_at [OF assms(1,2)] Let_def)
qed

theorem required_fields_undefined_witness:
  "check_required (iter_at (replicate 32 (PB_REQUIRED_STATIC 1 0 PB_LTYPE_VARINT 4 0)) 0x1000 0) [- 1, 0] = UB"
proof -
  let ?fs = "replicate 32 (PB_REQUIRED_STATIC 1 0 PB_LTYPE_VARINT 4 0)"
  have "tags_ok ?fs" "n_required ?fs = 32" by code_simp+
  moreover have "\<forall>k<32. seen_bit [- 1, 0] k" by (simp add: seen_bit_def)
  ultimately show ?thesis
    using required_fields_undefined [of ?fs "0x1000" "iter_at ?fs 0x1000 0" "[- 1, 0]"] it_state_0 [of ?fs "0x1000"]
    by simp
qed

section \<open>What a successful decode has met\<close>

text \<open>
  The tags of the fields that a run of the loop has decoded, in their order: the same calls as in
  \<open>decode_loop\<close>, on the same streams, iterators and memories, where a turn that calls
  \<open>decode_field\<close> with success adds its tag. A field that the message type does not have
  is skipped (or given to an extension) and adds nothing, whatever bytes it holds.
\<close>

fun decoded_tags :: "nat \<Rightarrow> pb_env \<Rightarrow> nat \<Rightarrow> msg_decoder \<Rightarrow> pb_istream \<Rightarrow> pb_field_iter \<Rightarrow> u32 \<Rightarrow> mem \<Rightarrow> u32 list" where
  "decoded_tags 0 E n noinit s it xrange m = []"
| "decoded_tags (Suc k) E n noinit s it xrange m =
     (if bytes_left s = 0 then []
      else case pb_decode_tag E s of
        Ret ((True, wire_type, tag, eof), s) \<Rightarrow>
          (case pb_field_iter_find it tag of
             Ret (True, it) \<Rightarrow>
               (case decode_field E n noinit s wire_type it m of
                  Ret (Some _, (s, m)) \<Rightarrow> tag # decoded_tags k E n noinit s it xrange m
                | _ \<Rightarrow> [])
           | Ret (False, it) \<Rightarrow>
               (case decode_unknown E n noinit s tag wire_type it xrange m of
                  Ret (Some (it, xrange), (s, m)) \<Rightarrow> decoded_tags k E n noinit s it xrange m
                | _ \<Rightarrow> [])
           | _ \<Rightarrow> [])
      | _ \<Rightarrow> [])"

definition pb_decode_tags :: "nat \<Rightarrow> pb_env \<Rightarrow> pb_istream \<Rightarrow> pb_field list \<Rightarrow> addr \<Rightarrow> mem \<Rightarrow> u32 list" where
  "pb_decode_tags n E s flds dest m =
     (case pb_message_set_to_defaults n E flds dest m of
        Ret m \<Rightarrow> decoded_tags (n - 1) E (n - 1) (pb_decode_noinit (n - 1) E) s (snd (pb_field_iter_begin flds dest)) 0 m
      | _ \<Rightarrow> [])"

context submessage_decoder
begin

lemma decode_loop_marks:
  assumes wf: "wf_table dep E fs sz" and dep: "2 * dep \<le> n + 2" and ne: "fs \<noteq> []"
  shows "stream_ok s \<Longrightarrow> unat (bytes_left s) \<le> n \<Longrightarrow> it_state fs d it \<Longrightarrow>
    decode_loop k E n noinit s it seen xrange m = Ret (Some (it', seen'), u) \<Longrightarrow>
    \<exists>is. seen' = mark_all fs d is seen \<and> it_state fs d it' \<and> set is \<subseteq> {..<length fs} \<and>
      decoded_tags k E n noinit s it xrange m = map (\<lambda>i. f_tag (fs ! i)) is"
proof (induction k arbitrary: s it seen xrange m)
  case 0
  then show ?case by simp
next
  case (Suc k)
  note tags = wf_table_tags [OF wf]
  show ?case
  proof (cases "bytes_left s = 0")
    case True
    with Suc.prems show ?thesis by (auto simp: ok_def intro!: exI [of _ "[]"])
  next
    case False
    from pb_decode_tag_frame [OF Suc.prems(1), of E]
    obtain okay wt tag eof t where tag: "pb_decode_tag E s = Ret ((okay, wt, tag, eof), t)"
      and t: "stream_ok t" "reads s t" "okay \<Longrightarrow> bytes_left t < bytes_left s"
      by (auto simp: returns_iff)
    show ?thesis
    proof (cases okay)
      case False
      with tag \<open>bytes_left s \<noteq> 0\<close> Suc.prems show ?thesis
        by (auto simp: ok_def fail_def split: if_splits intro!: exI [of _ "[]"])
    next
      case okay: True
      have left: "unat (bytes_left t) < unat (bytes_left s)" using t(3) okay by (simp add: word_less_nat_alt)
      from search_state [OF tags Suc.prems(3), of "\<lambda>f. f_tag f = tag \<and> PB_LTYPE (f_type f) \<noteq> PB_LTYPE_EXTENSION"]
      obtain b it1 where find: "pb_field_iter_find it tag = Ret (b, it1)" and it1: "it_state fs d it1"
        "b \<Longrightarrow> \<exists>j<length fs. it1 = iter_at fs d j \<and> f_tag (fs ! j) = tag"
        using it_state_start [OF Suc.prems(3)] ne by (auto simp: pb_field_iter_find_def)
      have later: "\<exists>is. seen' = mark_all fs d is seen2 \<and> it_state fs d it' \<and> set is \<subseteq> {..<length fs} \<and>
          decoded_tags k E n noinit v it2 x m2 = map (\<lambda>i. f_tag (fs ! i)) is"
        if "decode_loop k E n noinit v it2 seen2 x m2 = Ret (Some (it', seen'), u)" "within t v" "it_state fs d it2" for v it2 seen2 x m2
      proof -
        have "unat (bytes_left v) \<le> n" using that(2) left Suc.prems(2) by (simp add: within_def)
        from Suc.IH [OF within_ok [OF that(2) t(1)] this that(3,1)] show ?thesis .
      qed
      show ?thesis
      proof (cases b)
        case False
        have tag29: "tag < 2 ^ 29" using decode_tag_29 tag okay by simp
        from unknown_field_safe [OF t(1) wf it1(1) tag29, of wt xrange m]
        obtain r v m2 where unk: "decode_unknown E n noinit t tag wt it1 xrange m = Ret (r, (v, m2))"
          and v: "within t v" "\<And>it2 x. r = Some (it2, x) \<Longrightarrow> it_state fs d it2"
          by (auto simp: returns_iff)
        from Suc.prems(4) tag okay find False unk \<open>bytes_left s \<noteq> 0\<close> obtain it2 x
          where "r = Some (it2, x)" "decode_loop k E n noinit v it2 seen x m2 = Ret (Some (it', seen'), u)"
          by (cases r) auto
        with later [OF this(2) v(1)] v(2) tag okay find False unk \<open>bytes_left s \<noteq> 0\<close> show ?thesis by simp
      next
        case True
        with it1(2) obtain j where j: "j < length fs" "it1 = iter_at fs d j" "f_tag (fs ! j) = tag" by blast
        have "fs \<noteq> [] \<longrightarrow> (\<exists>j<length fs. it1 = iter_at fs d j)" using j by blast
        from found_field_safe [OF t(1) _ wf dep it1(1) this, of wt m] left Suc.prems(2)
        obtain r v m2 where fld: "decode_field E n noinit t wt it1 m = Ret (r, (v, m2))"
          and v: "within t v"
          by (auto simp: returns_iff)
        from Suc.prems(4) tag okay find True fld \<open>bytes_left s \<noteq> 0\<close>
        have "r = Some ()" "decode_loop k E n noinit v it1 (mark_seen it1 seen) xrange m2 = Ret (Some (it', seen'), u)"
          by (cases r; simp add: Let_def)+
        moreover from later [OF this(2) v it1(1)] obtain "is" where "seen' = mark_all fs d is (mark_seen it1 seen)" "it_state fs d it'"
          "set is \<subseteq> {..<length fs}" "decoded_tags k E n noinit v it1 xrange m2 = map (\<lambda>i. f_tag (fs ! i)) is"
          by blast
        ultimately show ?thesis using j tag okay find True fld \<open>bytes_left s \<noteq> 0\<close> by (intro exI [of _ "j # is"]) simp
      qed
    qed
  qed
qed

lemma decode_message_required:
  assumes wf: "wf_table dep E fs sz" and dep: "2 * dep \<le> n + 2" and ok: "stream_ok s"
    and fuel: "unat (bytes_left s) + 1 \<le> n"
    and run: "decode_message E n noinit s fs d m = Ret (Some (), u)"
    and i: "i < length fs" "required (fs ! i)"
  shows "f_tag (fs ! i) \<in> set (decoded_tags n E n noinit s (snd (pb_field_iter_begin fs d)) 0 m)"
proof -
  have ne: "fs \<noteq> []" using i by auto
  obtain dep' where dep': "dep = Suc dep'" using wf by (cases dep) auto
  from run obtain it' seen' t m' where
    loop: "decode_loop n E n noinit s (iter_at fs d 0) [0, 0] 0 m = Ret (Some (it', seen'), (t, m'))"
    and check: "check_required it' seen' = Ret True"
    by (auto simp: decode_message_def iter_begin_snd try_do_Ret_iff rbind_Ret_iff ds_error_def fail_def
        split: if_splits)
  have "unat (bytes_left s) \<le> n" using fuel by simp
  from decode_loop_marks [OF wf dep ne ok this it_state_0 loop]
  obtain "is" where idx: "seen' = mark_all fs d is [0, 0]" "it_state fs d it'" "set is \<subseteq> {..<length fs}"
    "decoded_tags n E n noinit s (iter_at fs d 0) 0 m = map (\<lambda>i. f_tag (fs ! i)) is" by blast
  have "tags_ok fs" "n_required fs < 64" "n_required fs \<noteq> 32" using wf dep' by simp_all
  from check_required_marks [OF this(1) idx(2) this(2,3) idx(3)] check idx(1)
  have "i \<in> set is" using i by simp
  then show ?thesis using idx(4) by (simp add: iter_begin_snd)
qed

end

text \<open>C5: A successful pb_decode has decoded every required field of the message type: its tag is among those of
  the fields that this run has found at the top level of the message and passed to decode_field with success. A
  tag that occurs only in the payload of another field does not count, and the message is refused.\<close>

theorem pb_decode_required:
  assumes "wf_table dep E fs sz" "is_callback s = Buf_Read" "unat (bytes_left s) \<le> length (is_state s)"
    and "unat (bytes_left s) + 2 \<le> n" "2 * dep \<le> n"
    and "pb_decode n E s fs d m = Ret (Some (), u)" "i < length fs" "required (fs ! i)"
  shows "f_tag (fs ! i) \<in> set (pb_decode_tags n E s fs d m)"
proof -
  obtain k where n: "n = Suc k" using assms(4) by (cases n) auto
  have ok: "stream_ok s" using assms(3) by (simp add: stream_ok_def)
  from assms(6) obtain m0 where m0: "pb_message_set_to_defaults n E fs d m = Ret m0"
    and "decode_message E k (pb_decode_noinit k E) s fs d m0 = Ret (Some (), u)"
    by (auto simp: pb_decode_def n rbind_Ret_iff)
  moreover have "2 * dep \<le> k + 2" "unat (bytes_left s) + 1 \<le> k" using assms(4,5) n by simp_all
  ultimately have "f_tag (fs ! i) \<in> set (decoded_tags k E k (pb_decode_noinit k E) s (snd (pb_field_iter_begin fs d)) 0 m0)"
    using noinit.decode_message_required [OF assms(1) _ ok _ _ assms(7,8)] by blast
  then show ?thesis by (simp add: pb_decode_tags_def m0) (simp add: n)
qed

text \<open>On the second input the required tag 1 is only inside the payload of an unknown field.\<close>

theorem pb_decode_required_witness:
  "1 \<in> set (pb_decode_tags 6 no_callbacks (pb_istream_from_buffer [8, 7] 2) sub_fields 0x1000 (\<lambda>_. 0)) \<and>
   pb_decode_tags 6 no_callbacks (pb_istream_from_buffer [0x22, 2, 8, 7] 4) sub_fields 0x1000 (\<lambda>_. 0) = [] \<and>
   (case pb_decode 6 no_callbacks (pb_istream_from_buffer [0x22, 2, 8, 7] 4) sub_fields 0x1000 (\<lambda>_. 0) of Ret (None, u) \<Rightarrow> True | _ \<Rightarrow> False)"
proof -
  let ?s = "pb_istream_from_buffer [8, 7] 2"
  have "(case pb_decode 6 no_callbacks ?s sub_fields 0x1000 (\<lambda>_. 0) of Ret (Some (), u) \<Rightarrow> True | _ \<Rightarrow> False)"
    by code_simp
  then obtain u where run: "pb_decode 6 no_callbacks ?s sub_fields 0x1000 (\<lambda>_. 0) = Ret (Some (), u)"
    by (auto split: run.splits option.splits)
  have wf: "wf_table 1 no_callbacks sub_fields 4" by code_simp
  have "sub_fields ! 0 = PB_REQUIRED_STATIC 1 0 PB_LTYPE_VARINT 4 0" "length sub_fields = 1"
    by (simp_all add: sub_fields_def)
  then have "1 \<in> set (pb_decode_tags 6 no_callbacks ?s sub_fields 0x1000 (\<lambda>_. 0))"
    using pb_decode_required [OF wf _ _ _ _ run, of 0]
    by (simp add: pb_istream_from_buffer_def PB_REQUIRED_STATIC_def PB_HTYPE_def)
  moreover have "pb_decode_tags 6 no_callbacks (pb_istream_from_buffer [0x22, 2, 8, 7] 4) sub_fields 0x1000 (\<lambda>_. 0) = []"
    by code_simp
  moreover have "(case pb_decode 6 no_callbacks (pb_istream_from_buffer [0x22, 2, 8, 7] 4) sub_fields 0x1000 (\<lambda>_. 0) of
      Ret (None, u) \<Rightarrow> True | _ \<Rightarrow> False)" by code_simp
  ultimately show ?thesis by blast
qed

end
