(* ===== verification/Varint.thy ===== *)
theory Varint
  imports Prelude
begin

text \<open>
  Bit lemmas about the base-128 varint, the integer format that nanopb and leveldb share: seven
  payload bits per byte, least significant first, the top bit set on every byte but the last.
\<close>

section \<open>Seven bits at a time\<close>

lemma mask7: "(0x7F::'a::len word) = mask 7"
  by (simp add: mask_eq_exp_minus_1)

lemma pow7: "(0x80::'a::len word) = push_bit 7 1"
  by simp

lemma payload_more: "ucast ((ucast ((v AND 0x7F) OR 0x80) :: byte) AND 0x7F) = v AND (0x7F::u64)"
  unfolding mask7 pow7 by (rule bit_word_eqI) (auto simp: bit_simps simp del: push_bit_of_1)

lemma payload_more32: "ucast ((ucast ((v AND 0x7F) OR (0x80::u64)) :: byte) AND 0x7F) = (ucast v :: u32) AND 0x7F"
  unfolding mask7 pow7 by (rule bit_word_eqI) (auto simp: bit_simps simp del: push_bit_of_1)

lemma msb_set: "(ucast ((v AND 0x7F) OR (0x80::u64)) :: byte) AND 0x80 \<noteq> 0"
proof -
  have "bit ((ucast ((v AND 0x7F) OR (0x80::u64)) :: byte) AND 0x80) 7"
    unfolding mask7 pow7 by (auto simp: bit_simps simp del: push_bit_of_1)
  then show ?thesis by (metis bit_0_eq bot_apply bot_bool_def)
qed

lemma small_iff: "v \<le> 0x7F \<longleftrightarrow> drop_bit 7 (v::u64) = 0"
proof -
  have "v \<le> 0x7F \<longleftrightarrow> unat v div 128 = 0"
    by (simp add: word_le_nat_alt div_eq_0_iff less_Suc_eq_le [symmetric])
  also have "\<dots> \<longleftrightarrow> unat (drop_bit 7 v) = 0" by (simp add: drop_bit_eq_div unat_div)
  also have "\<dots> \<longleftrightarrow> drop_bit 7 v = 0" by (rule unat_eq_0)
  finally show ?thesis .
qed

lemma small_bit:
  assumes "drop_bit 7 (v::u64) = 0" "bit v i"
  shows "i < 7"
proof (rule ccontr)
  assume "\<not> i < 7"
  with assms(2) have "bit (drop_bit 7 v) (i - 7)" by (simp add: bit_drop_bit_eq)
  with assms(1) have "bit (0::u64) (i - 7)" by (simp only:)
  then show False by simp
qed

lemma msb_small: "drop_bit 7 v = 0 \<Longrightarrow> (ucast (v::u64) :: byte) AND 0x80 = 0"
  unfolding pow7 by (rule bit_word_eqI) (auto simp: bit_simps simp del: push_bit_of_1 dest: small_bit)

lemma payload_small: "drop_bit 7 v = 0 \<Longrightarrow> ucast ((ucast (v::u64) :: byte) AND 0x7F) = v"
  unfolding mask7 by (rule bit_word_eqI) (auto simp: bit_simps dest: small_bit)

lemma payload_small32: "drop_bit 7 v = 0 \<Longrightarrow> ucast ((ucast (v::u64) :: byte) AND 0x7F) = (ucast v :: u32)"
  unfolding mask7 by (rule bit_word_eqI) (auto simp: bit_simps dest: small_bit)

lemma payload_last:
  "drop_bit 7 v = 0 \<Longrightarrow> (ucast ((v AND 0x7F) OR (0x80::u64)) :: byte) AND 0x7F = ucast v"
  unfolding mask7 pow7
  by (rule bit_word_eqI) (auto simp: bit_simps simp del: push_bit_of_1 dest: small_bit)

lemma join_payload: "push_bit n (v AND 0x7F) OR push_bit (n + 7) (drop_bit 7 v) = push_bit n (v::'a::len word)"
proof (rule bit_word_eqI)
  fix i assume i: "i < LENGTH('a)"
  show "bit (push_bit n (v AND 0x7F) OR push_bit (n + 7) (drop_bit 7 v)) i = bit (push_bit n v) i"
  proof (cases "i < n + 7")
    case True
    then show ?thesis using i unfolding mask7 by (auto simp: bit_simps)
  next
    case False
    then have "7 + (i - (n + 7)) = i - n" by simp
    with False i show ?thesis unfolding mask7 by (auto simp: bit_simps)
  qed
qed

end
