(* ===== verification/Pb_Wire.thy ===== *)
theory Pb_Wire
  imports Pb_Istream Pb_Ostream Varint
begin

text \<open>
  The wire format the encoder and the decoder share: the bytes of a varint, a tag, a
  fixed-width value, and what the stream functions of \<open>pb_encode.c\<close> and \<open>pb_decode.c\<close> do with
  them on memory streams. The lemmas about the two directions meet in the round trips.
\<close>

section \<open>The bytes of a varint\<close>

definition varint_bytes :: "u64 \<Rightarrow> byte list" where
  "varint_bytes v =
     (if v \<le> 0x7F then [ucast v]
      else let buffer = enc_varint_loop v []
           in buffer[length buffer - 1 := buffer ! (length buffer - 1) AND 0x7F])"

lemma pb_encode_varint_writes: "pb_encode_varint E s v = pb_write E s (varint_bytes v)"
  by (simp add: pb_encode_varint_def varint_bytes_def Let_def)

lemma enc_varint_loop_append: "enc_varint_loop v (xs @ ys) = xs @ enc_varint_loop v ys"
proof (induction v ys rule: enc_varint_loop.induct)
  case (1 v ys)
  show ?case
  proof (cases "v = 0")
    case True
    then show ?thesis by (simp add: enc_varint_loop.simps)
  next
    case False
    with 1 show ?thesis
      by (simp add: enc_varint_loop.simps [of v "xs @ ys"] enc_varint_loop.simps [of v ys])
  qed
qed

lemma enc_varint_loop_rec:
  "enc_varint_loop v [] = (if v = 0 then [] else
     ucast ((v AND 0x7F) OR 0x80) # enc_varint_loop (drop_bit 7 v) [])"
  using enc_varint_loop_append [of "drop_bit 7 v" "[ucast ((v AND 0x7F) OR 0x80)]" "[]"]
  by (subst enc_varint_loop.simps) simp

lemma varint_bytes_small: "drop_bit 7 v = 0 \<Longrightarrow> varint_bytes v = [ucast v]"
  by (simp add: varint_bytes_def small_iff)

lemma varint_bytes_more:
  assumes "drop_bit 7 v \<noteq> 0"
  shows "varint_bytes v = ucast ((v AND 0x7F) OR 0x80) # varint_bytes (drop_bit 7 v)"
proof -
  define w where "w = drop_bit 7 v"
  have v: "v \<noteq> 0" using assms by auto
  have rec: "enc_varint_loop v [] = ucast ((v AND 0x7F) OR 0x80) # enc_varint_loop w []"
    using v by (subst enc_varint_loop_rec) (simp add: w_def)
  have w: "w \<noteq> 0" using assms by (simp add: w_def)
  have ne: "enc_varint_loop w [] \<noteq> []"
    using w by (subst enc_varint_loop_rec) simp
  show ?thesis
  proof (cases "drop_bit 7 w = 0")
    case True
    have "enc_varint_loop w [] = [ucast ((w AND 0x7F) OR 0x80)]"
      using w True by (subst enc_varint_loop_rec) (simp add: enc_varint_loop.simps)
    with True assms show ?thesis
      by (simp add: varint_bytes_def [of v] small_iff rec Let_def payload_last varint_bytes_small flip: w_def)
  next
    case False
    obtain b bs where bs: "enc_varint_loop w [] = b # bs" using ne by (cases "enc_varint_loop w []") auto
    then have "bs \<noteq> []"
      using w False by (subst (asm) enc_varint_loop_rec) (auto simp: enc_varint_loop_rec [of "drop_bit 7 w"])
    with False assms bs show ?thesis
      by (simp add: varint_bytes_def small_iff rec Let_def nth_Cons' flip: w_def)
  qed
qed

lemma varint_bytes_nonempty [simp]: "varint_bytes v \<noteq> []"
  by (cases "drop_bit 7 v = 0") (simp_all add: varint_bytes_small varint_bytes_more)

lemma length_varint_bytes_le:
  assumes "drop_bit (7 * k) v = 0" "0 < k"
  shows "length (varint_bytes v) \<le> k"
  using assms
proof (induction k arbitrary: v)
  case 0
  then show ?case by simp
next
  case (Suc k)
  show ?case
  proof (cases "drop_bit 7 v = 0")
    case True
    then show ?thesis by (simp add: varint_bytes_small)
  next
    case False
    have "drop_bit (7 * k) (drop_bit 7 v) = 0"
      using Suc.prems(1) by (simp add: ac_simps)
    moreover from this False have "0 < k" by (cases k) auto
    ultimately have "length (varint_bytes (drop_bit 7 v)) \<le> k" by (rule Suc.IH)
    with False show ?thesis by (simp add: varint_bytes_more)
  qed
qed

lemma length_varint_bytes: "0 < length (varint_bytes v) \<and> length (varint_bytes v) \<le> 10"
proof -
  have "drop_bit (7 * 10) v = 0" by (rule bit_word_eqI) (simp add: bit_drop_bit_eq)
  then have "length (varint_bytes v) \<le> 10" by (rule length_varint_bytes_le) simp
  then show ?thesis by simp
qed

section \<open>Reading from a memory stream\<close>

definition advance :: "pb_istream \<Rightarrow> nat \<Rightarrow> pb_istream" where
  "advance s n = s\<lparr>is_state := drop n (is_state s), bytes_left := bytes_left s - of_nat n\<rparr>"

text \<open>\<open>at_bytes s bs\<close>: a memory stream whose next bytes, within its limit, are \<open>bs\<close>.\<close>

definition at_bytes :: "pb_istream \<Rightarrow> byte list \<Rightarrow> bool" where
  "at_bytes s bs \<longleftrightarrow> is_callback s = Buf_Read \<and> length bs \<le> unat (bytes_left s) \<and>
     length bs \<le> length (is_state s) \<and> take (length bs) (is_state s) = bs"

lemma at_bytes_append:
  "at_bytes s (xs @ ys) \<longleftrightarrow> at_bytes s xs \<and> at_bytes (advance s (length xs)) ys"
proof -
  have "unat (bytes_left s - of_nat (length xs)) = unat (bytes_left s) - length xs"
    if "length xs \<le> unat (bytes_left s)"
  proof -
    have "unat (of_nat (length xs) :: u64) = length xs"
      by (rule unat_of_nat_small) (use that unat_less64 [of "bytes_left s"] in simp)
    with that show ?thesis by (simp add: unat_sub word_le_nat_alt)
  qed
  then show ?thesis
    by (auto simp: at_bytes_def advance_def take_add append_eq_conv_conj drop_take
        intro: le_diff_conv2 [THEN iffD2])
qed

lemma advance_0 [simp]: "advance s 0 = s"
  by (simp add: advance_def)

lemma advance_add: "advance (advance s a) b = advance s (a + b)"
  by (simp add: advance_def add.commute algebra_simps)

lemma advance_sel [simp]: "is_callback (advance s n) = is_callback s" "is_errmsg (advance s n) = is_errmsg s"
  by (simp_all add: advance_def)

lemma at_bytes_Cons:
  "at_bytes s (b # bs) \<longleftrightarrow> at_bytes s [b] \<and> at_bytes (advance s 1) bs"
  using at_bytes_append [of s "[b]" bs] by simp

lemma pb_read_mem:
  assumes "at_bytes s bs"
  shows "pb_read E s (of_nat (length bs)) = ok bs (advance s (length bs))"
proof -
  have len: "unat (of_nat (length bs) :: u64) = length bs"
    by (rule unat_of_nat_small) (use assms unat_less64 [of "bytes_left s"] in \<open>simp add: at_bytes_def\<close>)
  with assms show ?thesis
    by (simp add: pb_read_def call_read_def buf_read_def at_bytes_def advance_def word_less_nat_alt)
qed

lemma pb_readbyte_mem: "at_bytes s [b] \<Longrightarrow> pb_readbyte E s = ok b (advance s 1)"
  using pb_read_mem [of s "[b]" E] by (simp add: pb_readbyte_eq)

section \<open>Decoding varints\<close>

lemma varint_loop_bytes:
  assumes "at_bytes s (varint_bytes v)" "bitpos < 64" "drop_bit (64 - bitpos) v = 0"
  shows "varint_loop E s bitpos r = ok (r OR push_bit bitpos v) (advance s (length (varint_bytes v)))"
  using assms
proof (induction "length (varint_bytes v)" arbitrary: s v bitpos r rule: less_induct)
  case less
  show ?case
  proof (cases "drop_bit 7 v = 0")
    case True
    with less.prems(1,2) show ?thesis
      by (subst varint_loop.simps)
        (simp add: varint_bytes_small pb_readbyte_mem Let_def msb_small payload_small)
  next
    case False
    let ?b = "ucast ((v AND 0x7F) OR 0x80) :: byte" and ?w = "drop_bit 7 v"
    note bytes = varint_bytes_more [OF False]
    have at: "at_bytes s [?b]" "at_bytes (advance s 1) (varint_bytes ?w)"
      using less.prems(1) by (simp_all add: bytes at_bytes_Cons [of s ?b "varint_bytes ?w"])
    have pos: "bitpos + 7 < 64"
    proof (rule ccontr)
      assume "\<not> bitpos + 7 < 64"
      then have "drop_bit (7 - (64 - bitpos)) (drop_bit (64 - bitpos) v) = ?w"
        using less.prems(2) by (simp only: drop_bit_drop_bit) simp
      with less.prems(3) False show False by simp
    qed
    have "64 - (bitpos + 7) + 7 = 64 - bitpos" using pos by simp
    then have w: "drop_bit (64 - (bitpos + 7)) ?w = 0"
      using less.prems(3) by simp
    have "varint_loop E (advance s 1) (bitpos + 7) (r OR push_bit bitpos (v AND 0x7F)) =
        ok ((r OR push_bit bitpos (v AND 0x7F)) OR push_bit (bitpos + 7) ?w)
           (advance (advance s 1) (length (varint_bytes ?w)))"
      by (rule less.hyps [OF _ at(2) pos w]) (simp add: bytes)
    then have "varint_loop E (advance s 1) (bitpos + 7) (r OR push_bit bitpos (v AND 0x7F)) =
        ok (r OR push_bit bitpos v) (advance (advance s 1) (length (varint_bytes ?w)))"
      by (simp only: or.assoc join_payload)
    then show ?thesis
      using less.prems(2) pos
      by (subst varint_loop.simps)
        (simp add: pb_readbyte_mem [OF at(1)] Let_def msb_set payload_more bytes advance_add)
  qed
qed

lemma decode_varint_bytes:
  "at_bytes s (varint_bytes v) \<Longrightarrow> pb_decode_varint E s = ok v (advance s (length (varint_bytes v)))"
proof -
  have "drop_bit (64 - 0) v = 0" by (rule bit_word_eqI) (simp add: bit_drop_bit_eq)
  then show "at_bytes s (varint_bytes v) \<Longrightarrow> pb_decode_varint E s = ok v (advance s (length (varint_bytes v)))"
    using varint_loop_bytes [of s v 0 E 0] by (simp add: pb_decode_varint_def)
qed

text \<open>
  The 32-bit decoder is the same loop from bit 0. It takes at most five bytes, of which the
  fifth loses its upper three payload bits: a value below \<open>2 ^ 35\<close> is cut to 32 bits, a longer
  varint is an error.
\<close>

lemma decode_varint32_loop: "pb_decode_varint32 E s = varint32_loop E s 0 0"
proof -
  have "(ucast (b AND 0x7F) :: u32) = ucast b" if "b AND 0x80 = 0" for b :: byte
  proof (rule bit_word_eqI)
    fix i assume "i < LENGTH(32)"
    have "\<not> bit b 7"
    proof
      assume "bit b 7"
      then have "bit (b AND 0x80) 7" unfolding pow7 by (simp add: bit_simps del: push_bit_of_1)
      with that show False by simp
    qed
    moreover have "bit b i \<Longrightarrow> i < 8" using bit_imp_le_length by force
    ultimately show "bit (ucast (b AND 0x7F) :: u32) i = bit (ucast b :: u32) i"
      unfolding mask7 by (auto simp: bit_simps less_Suc_eq numeral_eq_Suc)
  qed
  then show ?thesis
    unfolding pb_decode_varint32_def
    by (subst varint32_loop.simps [of E s 0 0])
      (auto simp: Let_def fun_eq_iff intro!: arg_cong2 [of _ _ _ _ "\<lambda>x y. try_do x y (\<lambda>s. s)"])
qed

lemma join_payload32:
  "push_bit n (ucast v AND 0x7F) OR push_bit (n + 7) (ucast (drop_bit 7 v)) = push_bit n (ucast (v::u64) :: u32)"
proof (rule bit_word_eqI)
  fix i assume i: "i < LENGTH(32)"
  show "bit (push_bit n (ucast v AND 0x7F) OR push_bit (n + 7) (ucast (drop_bit 7 v)) :: u32) i =
      bit (push_bit n (ucast v :: u32)) i"
  proof (cases "i < n + 7")
    case True
    then show ?thesis using i unfolding mask7 by (auto simp: bit_simps)
  next
    case False
    then have "7 + (i - (n + 7)) = i - n" by simp
    with False i show ?thesis unfolding mask7 by (auto simp: bit_simps)
  qed
qed

lemma varint32_loop_bytes:
  assumes "at_bytes s (varint_bytes v)" "bitpos \<le> 28" "drop_bit (35 - bitpos) v = 0" "7 dvd bitpos"
  shows "varint32_loop E s bitpos r = ok (r OR push_bit bitpos (ucast v)) (advance s (length (varint_bytes v)))"
  using assms
proof (induction "length (varint_bytes v)" arbitrary: s v bitpos r rule: less_induct)
  case less
  show ?case
  proof (cases "drop_bit 7 v = 0")
    case True
    with less.prems(1,2) show ?thesis
      by (subst varint32_loop.simps)
        (simp add: varint_bytes_small pb_readbyte_mem Let_def msb_small payload_small32)
  next
    case False
    let ?b = "ucast ((v AND 0x7F) OR 0x80) :: byte" and ?w = "drop_bit 7 v"
    note bytes = varint_bytes_more [OF False]
    have at: "at_bytes s [?b]" "at_bytes (advance s 1) (varint_bytes ?w)"
      using less.prems(1) by (simp_all add: bytes at_bytes_Cons [of s ?b "varint_bytes ?w"])
    have "bitpos \<noteq> 28" using False less.prems(3) by auto
    with less.prems(2,4) have pos: "bitpos + 7 \<le> 28" by presburger
    have "35 - (bitpos + 7) + 7 = 35 - bitpos" using pos by simp
    then have w: "drop_bit (35 - (bitpos + 7)) ?w = 0"
      using less.prems(3) by simp
    have "varint32_loop E (advance s 1) (bitpos + 7) (r OR push_bit bitpos (ucast v AND 0x7F)) =
        ok ((r OR push_bit bitpos (ucast v AND 0x7F)) OR push_bit (bitpos + 7) (ucast ?w))
           (advance (advance s 1) (length (varint_bytes ?w)))"
      by (rule less.hyps [OF _ at(2) pos w]) (use less.prems(4) in \<open>simp_all add: bytes\<close>)
    then have "varint32_loop E (advance s 1) (bitpos + 7) (r OR push_bit bitpos (ucast v AND 0x7F)) =
        ok (r OR push_bit bitpos (ucast v)) (advance (advance s 1) (length (varint_bytes ?w)))"
      by (simp only: or.assoc join_payload32)
    then show ?thesis
      using less.prems(2) pos
      by (subst varint32_loop.simps)
        (simp add: pb_readbyte_mem [OF at(1)] Let_def msb_set payload_more32 bytes advance_add)
  qed
qed

lemma decode_varint32_bytes:
  assumes "at_bytes s (varint_bytes v)" "drop_bit 35 v = 0"
  shows "pb_decode_varint32 E s = ok (ucast v) (advance s (length (varint_bytes v)))"
  using varint32_loop_bytes [of s v 0 E 0] assms by (simp add: decode_varint32_loop)

lemma varint32_loop_overflow:
  assumes "at_bytes s (varint_bytes v)" "bitpos \<le> 28" "drop_bit (35 - bitpos) v \<noteq> 0" "7 dvd bitpos"
  shows "\<exists>t. varint32_loop E s bitpos r = is_return_error t ''varint overflow'' \<and> is_errmsg t = is_errmsg s"
  using assms
proof (induction "28 - bitpos" arbitrary: s v bitpos r rule: less_induct)
  case less
  let ?b = "ucast ((v AND 0x7F) OR 0x80) :: byte" and ?w = "drop_bit 7 v"
  have False': "?w \<noteq> 0"
  proof
    assume "?w = 0"
    then have "drop_bit (28 - bitpos) ?w = 0" by simp
    moreover have "28 - bitpos + 7 = 35 - bitpos" using less.prems(2) by simp
    ultimately show False using less.prems(3) by simp
  qed
  note bytes = varint_bytes_more [OF False']
  have at: "at_bytes s [?b]" "at_bytes (advance s 1) (varint_bytes ?w)"
    using less.prems(1) by (simp_all add: bytes at_bytes_Cons [of s ?b "varint_bytes ?w"])
  show ?case
  proof (cases "bitpos = 28")
    case True
    have "varint32_loop E (advance s 1) 35 r' = is_return_error (advance s 1) ''varint overflow''" for r'
      by (subst varint32_loop.simps) simp
    with True show ?thesis
      by (subst varint32_loop.simps) (auto simp: pb_readbyte_mem [OF at(1)] Let_def msb_set)
  next
    case False
    with less.prems(2,4) have pos: "bitpos + 7 \<le> 28" by presburger
    have "35 - (bitpos + 7) + 7 = 35 - bitpos" using pos by simp
    then have w: "drop_bit (35 - (bitpos + 7)) ?w \<noteq> 0"
      using less.prems(3) by simp
    have "28 - (bitpos + 7) < 28 - bitpos" "7 dvd bitpos + 7"
      using pos less.prems(4) by auto
    from less.hyps [OF this(1) at(2) pos w this(2)]
    obtain t where "varint32_loop E (advance s 1) (bitpos + 7) (r OR push_bit bitpos (ucast (?b AND 0x7F))) =
        is_return_error t ''varint overflow''" "is_errmsg t = is_errmsg (advance s 1)"
      by blast
    then show ?thesis
      using less.prems(2) pos
      by (subst varint32_loop.simps) (auto simp: pb_readbyte_mem [OF at(1)] Let_def msb_set)
  qed
qed

section \<open>Zigzag integers\<close>

definition zigzag :: "u64 \<Rightarrow> u64" where
  "zigzag v = (if v <s 0 then NOT (push_bit 1 v) else push_bit 1 v)"

definition unzigzag :: "u64 \<Rightarrow> u64" where
  "unzigzag w = (if w AND 1 \<noteq> 0 then NOT (drop_bit 1 w) else drop_bit 1 w)"

lemma neg_iff_bit: "(v::u64) <s 0 \<longleftrightarrow> bit v 63"
  using bit_last_iff [of v] by (simp add: word_sless_alt)

lemma and_1_iff_bit: "(w::'a::len word) AND 1 = 0 \<longleftrightarrow> \<not> bit w 0"
  by (simp add: and_one_eq bit_0 odd_iff_mod_2_eq_one)

lemma bit_push_1: "bit (push_bit 1 (v::u64)) i \<longleftrightarrow> 1 \<le> i \<and> i < 64 \<and> bit v (i - 1)"
  by (simp only: bit_push_bit_iff) auto

lemma not_drop_not_push: "bit v 63 \<Longrightarrow> NOT (drop_bit 1 (NOT (push_bit 1 (v::u64)))) = v"
proof (rule bit_word_eqI)
  fix i assume v: "bit v 63" and "i < LENGTH(64)"
  then have "i < 63 \<or> i = 63" by auto
  with v show "bit (NOT (drop_bit 1 (NOT (push_bit 1 v)))) i = bit v i"
    by (elim disjE) (simp_all only: bit_not_iff bit_drop_bit_eq o_apply bit_push_1, simp_all)
qed

lemma drop_push: "\<not> bit v 63 \<Longrightarrow> drop_bit 1 (push_bit 1 (v::u64)) = v"
proof (rule bit_word_eqI)
  fix i assume v: "\<not> bit v 63" and "i < LENGTH(64)"
  then have "i < 63 \<or> i = 63" by auto
  with v show "bit (drop_bit 1 (push_bit 1 v)) i = bit v i"
    by (elim disjE) (simp_all only: bit_drop_bit_eq o_apply bit_push_1, simp_all)
qed

lemma unzigzag_zigzag: "unzigzag (zigzag v) = v"
proof (cases "bit v 63")
  case True
  have "bit (NOT (push_bit 1 v)) 0"
    by (simp only: bit_not_iff_eq bit_push_bit_iff) (simp add: possible_bit_def)
  with True show ?thesis
    by (simp only: unzigzag_def zigzag_def neg_iff_bit and_1_iff_bit not_drop_not_push if_True simp_thms)
next
  case False
  have "\<not> bit (push_bit 1 v) 0"
    by (simp only: bit_push_bit_iff) simp
  with False show ?thesis
    by (simp only: unzigzag_def zigzag_def neg_iff_bit and_1_iff_bit drop_push if_False simp_thms)
qed

lemma decode_svarint_bytes:
  "at_bytes s (varint_bytes w) \<Longrightarrow>
     pb_decode_svarint E s = ok (unzigzag w) (advance s (length (varint_bytes w)))"
  by (simp add: pb_decode_svarint_def decode_varint_bytes unzigzag_def)

lemma pb_encode_svarint_writes: "pb_encode_svarint E s v = pb_write E s (varint_bytes (zigzag v))"
  by (simp add: pb_encode_svarint_def pb_encode_varint_writes zigzag_def Let_def)

section \<open>Fixed-width values\<close>

lemma ff_mask: "(0xFF::'a::len word) = mask 8"
  by (simp add: mask_eq_exp_minus_1)

lemma low_byte: "ucast (drop_bit n (v::'a::len word) AND 0xFF) = (ucast (drop_bit n v) :: byte)"
  unfolding ff_mask by (rule bit_word_eqI) (auto simp: bit_simps dest: bit_imp_le_length)

lemma low_byte0: "ucast ((v::'a::len word) AND 0xFF) = (ucast v :: byte)"
  using low_byte [of 0 v] by simp

lemma upt8: "[0..<4] = [0,1,2,3]" "[0..<8] = [0,1,2,3,4,5,6,7]"
  by (simp_all add: upt_rec numeral_eq_Suc)

lemma pb_encode_fixed32_writes: "pb_encode_fixed32 E s v = pb_write E s (le_bytes 4 v)"
  by (simp add: pb_encode_fixed32_def le_bytes_def upt8 low_byte low_byte0)

lemma pb_encode_fixed64_writes: "pb_encode_fixed64 E s v = pb_write E s (le_bytes 8 v)"
  by (simp add: pb_encode_fixed64_def le_bytes_def upt8 low_byte low_byte0)

lemma le_word4: "length bs = 4 \<Longrightarrow>
  push_bit 0 (ucast (bs ! 0)) OR push_bit 8 (ucast (bs ! 1)) OR push_bit 16 (ucast (bs ! 2)) OR
    push_bit 24 (ucast (bs ! 3)) = (le_word bs :: 'a::len word)"
  by (auto simp: length_Suc_conv numeral_eq_Suc push_bit_or push_bit_push_bit)

lemma le_word8: "length bs = 8 \<Longrightarrow>
  push_bit 0 (ucast (bs ! 0)) OR push_bit 8 (ucast (bs ! 1)) OR push_bit 16 (ucast (bs ! 2)) OR
    push_bit 24 (ucast (bs ! 3)) OR push_bit 32 (ucast (bs ! 4)) OR push_bit 40 (ucast (bs ! 5)) OR
    push_bit 48 (ucast (bs ! 6)) OR push_bit 56 (ucast (bs ! 7)) = (le_word bs :: 'a::len word)"
  by (auto simp: length_Suc_conv numeral_eq_Suc push_bit_or push_bit_push_bit)

lemma decode_fixed32_bytes:
  assumes "at_bytes s bs" "length bs = 4"
  shows "pb_decode_fixed32 E s = ok (le_word bs) (advance s 4)"
  using pb_read_mem [OF assms(1), of E] assms(2) le_word4 [OF assms(2), where 'a = 32]
  by (simp add: pb_decode_fixed32_def)

lemma decode_fixed64_bytes:
  assumes "at_bytes s bs" "length bs = 8"
  shows "pb_decode_fixed64 E s = ok (le_word bs) (advance s 8)"
  using pb_read_mem [OF assms(1), of E] assms(2) le_word8 [OF assms(2), where 'a = 64]
  by (simp add: pb_decode_fixed64_def)

section \<open>Tags\<close>

definition tag_value :: "pb_wire_type_t \<Rightarrow> u32 \<Rightarrow> u64" where
  "tag_value wiretype field_number = push_bit 3 (ucast field_number) OR ucast wiretype"

definition tag_bytes :: "pb_wire_type_t \<Rightarrow> u32 \<Rightarrow> byte list" where
  "tag_bytes wiretype field_number = varint_bytes (tag_value wiretype field_number)"

lemma pb_encode_tag_writes: "pb_encode_tag E s wt tag = pb_write E s (tag_bytes wt tag)"
  by (simp add: pb_encode_tag_def tag_bytes_def tag_value_def pb_encode_varint_writes)

lemma mask3: "(7::'a::len word) = mask 3"
  by (simp add: mask_eq_exp_minus_1)

lemma wt_bit: "(wt::u32) < 8 \<Longrightarrow> bit wt i \<Longrightarrow> i < 3"
proof (rule ccontr)
  assume wt: "wt < 8" and b: "bit wt i" and i: "\<not> i < 3"
  have "unat wt div 8 = 0" using wt by (simp add: word_less_nat_alt)
  then have "drop_bit 3 wt = 0" by (simp add: drop_bit_eq_div unat_div flip: unat_eq_0)
  moreover have "bit (drop_bit 3 wt) (i - 3)" using b i by (simp add: bit_drop_bit_eq)
  ultimately show False by (simp only: bit_0_eq bot_apply bot_bool_def)
qed

lemma tag_bit:
  assumes "drop_bit 29 (tag::u32) = 0" "bit tag i"
  shows "i < 29"
proof (rule ccontr)
  assume "\<not> i < 29"
  with assms(2) have "bit (drop_bit 29 tag) (i - 29)" by (simp add: bit_drop_bit_eq)
  with assms(1) show False by (simp only: bit_0_eq bot_apply bot_bool_def)
qed

lemma tag_value_bits:
  "bit (tag_value wt tag) i \<longleftrightarrow> (3 \<le> i \<and> i < 64 \<and> bit tag (i - 3)) \<or> bit wt i"
  by (auto simp: tag_value_def bit_or_iff bit_push_bit_iff bit_ucast_iff dest: bit_imp_le_length)

lemma tag_value_small: "wt < 8 \<Longrightarrow> drop_bit 35 (tag_value wt tag) = 0"
proof (rule bit_word_eqI)
  fix i assume wt: "wt < 8" and "i < LENGTH(64)"
  have "\<not> bit tag (35 + i - 3)"
    using bit_imp_le_length [of tag "35 + i - 3"] by auto
  then show "bit (drop_bit 35 (tag_value wt tag)) i = bit 0 i"
    using wt_bit [OF wt, of "35 + i"] by (auto simp: bit_drop_bit_eq tag_value_bits)
qed

lemma tag_value_32:
  assumes "wt < 8" "drop_bit 29 tag = 0"
  shows "(ucast (tag_value wt tag) :: u32) AND 7 = wt" "drop_bit 3 (ucast (tag_value wt tag) :: u32) = tag"
proof -
  show "(ucast (tag_value wt tag) :: u32) AND 7 = wt"
    unfolding mask3 by (rule bit_word_eqI) (auto simp: bit_and_iff bit_mask_iff bit_ucast_iff tag_value_bits
        dest: wt_bit [OF assms(1)])
  show "drop_bit 3 (ucast (tag_value wt tag) :: u32) = tag"
    by (rule bit_word_eqI) (auto simp: bit_drop_bit_eq bit_ucast_iff tag_value_bits
        dest: wt_bit [OF assms(1)] tag_bit [OF assms(2)])
qed

lemma decode_tag_bytes:
  assumes "at_bytes s (tag_bytes wt tag)" "wt < 8" "drop_bit 29 tag = 0" "tag \<noteq> 0"
  shows "pb_decode_tag E s = Ret ((True, wt, tag, False), advance s (length (tag_bytes wt tag)))"
proof -
  have "(ucast (tag_value wt tag) :: u32) \<noteq> 0"
    using tag_value_32(2) [OF assms(2,3)] assms(4) by auto
  with assms(1) show ?thesis
    by (simp add: pb_decode_tag_def tag_bytes_def decode_varint32_bytes [OF _ tag_value_small [OF assms(2)]]
        tag_value_32 [OF assms(2,3)] ok_def)
qed

section \<open>Wire values and skipping\<close>

text \<open>The four payloads of the wire format; a decoder that does not know a field skips one.\<close>

datatype wire_value = Varint_V u64 | Fixed64_V u64 | Len_V "byte list" | Fixed32_V u32

fun wire_type_of :: "wire_value \<Rightarrow> pb_wire_type_t" where
  "wire_type_of (Varint_V v) = PB_WT_VARINT"
| "wire_type_of (Fixed64_V v) = PB_WT_64BIT"
| "wire_type_of (Len_V bs) = PB_WT_STRING"
| "wire_type_of (Fixed32_V v) = PB_WT_32BIT"

definition len_bytes :: "byte list \<Rightarrow> byte list" where
  "len_bytes bs = varint_bytes (of_nat (length bs)) @ bs"

fun wire_bytes :: "wire_value \<Rightarrow> byte list" where
  "wire_bytes (Varint_V v) = varint_bytes v"
| "wire_bytes (Fixed64_V v) = le_bytes 8 v"
| "wire_bytes (Len_V bs) = len_bytes bs"
| "wire_bytes (Fixed32_V v) = le_bytes 4 v"

fun wire_ok :: "wire_value \<Rightarrow> bool" where
  "wire_ok (Len_V bs) = (length bs < 2 ^ 32)"
| "wire_ok _ = True"

lemma wire_type_less: "wire_type_of w < 8"
  by (cases w) simp_all

lemma read_null_mem:
  assumes "at_bytes s bs"
  shows "pb_read_null E s (of_nat (length bs)) = ok () (advance s (length bs))"
  using assms by (simp add: pb_read_null_def pb_read_mem) (simp add: at_bytes_def)

lemma skip_varint_bytes:
  "at_bytes s (varint_bytes v) \<Longrightarrow> pb_skip_varint E s = ok () (advance s (length (varint_bytes v)))"
proof (induction "length (varint_bytes v)" arbitrary: s v rule: less_induct)
  case less
  show ?case
  proof (cases "drop_bit 7 v = 0")
    case True
    with less.prems pb_read_mem [of s "[ucast v]" E] show ?thesis
      by (subst pb_skip_varint.simps) (simp add: varint_bytes_small msb_small)
  next
    case False
    let ?b = "ucast ((v AND 0x7F) OR 0x80) :: byte" and ?w = "drop_bit 7 v"
    note bytes = varint_bytes_more [OF False]
    have at: "at_bytes s [?b]" "at_bytes (advance s 1) (varint_bytes ?w)"
      using less.prems by (simp_all add: bytes at_bytes_Cons [of s ?b "varint_bytes ?w"])
    have "pb_skip_varint E (advance s 1) = ok () (advance (advance s 1) (length (varint_bytes ?w)))"
      by (rule less.hyps [OF _ at(2)]) (simp add: bytes)
    with pb_read_mem [OF at(1), of E] show ?thesis
      by (subst pb_skip_varint.simps) (simp add: msb_set bytes advance_add)
  qed
qed

lemma ucast_of_nat_u32: "(ucast (of_nat n :: u64) :: u32) = of_nat n"
  by (simp add: word_unat_eq_iff unsigned_ucast_eq unat_of_nat take_bit_eq_mod mod_mod_cancel)

lemma ucast_of_nat_u64: "n < 2 ^ 32 \<Longrightarrow> (ucast (of_nat n :: u32) :: u64) = of_nat n"
  by (simp add: word_unat_eq_iff unsigned_ucast_eq unat_of_nat take_bit_eq_mod)

lemma of_nat_small_bits:
  assumes "n < 2 ^ 32" "32 \<le> k"
  shows "drop_bit k (of_nat n :: u64) = 0"
proof -
  have "n < 2 ^ k" using assms by (meson less_le_trans one_le_numeral power_increasing)
  then have "unat (of_nat n :: u64) div 2 ^ k = 0" using assms(1) by (simp add: unat_of_nat_small)
  then show ?thesis by (metis unat_drop_bit_eq drop_bit_eq_div unat_eq_0)
qed

lemma decode_length:
  assumes "at_bytes s (varint_bytes (of_nat n))" "n < 2 ^ 32"
  shows "pb_decode_varint32 E s = ok (of_nat n) (advance s (length (varint_bytes (of_nat n))))"
  using decode_varint32_bytes [OF assms(1) of_nat_small_bits [OF assms(2)], of E] by (simp add: ucast_of_nat_u32)

lemma skip_string_bytes:
  assumes "at_bytes s (len_bytes bs)" "length bs < 2 ^ 32"
  shows "pb_skip_string E s = ok () (advance s (length (len_bytes bs)))"
proof -
  have at: "at_bytes s (varint_bytes (of_nat (length bs)))"
    "at_bytes (advance s (length (varint_bytes (of_nat (length bs))))) bs"
    using assms(1) by (simp_all add: len_bytes_def at_bytes_append)
  from ucast_of_nat_u64 [OF assms(2)] read_null_mem [OF at(2), of E] show ?thesis
    by (simp add: pb_skip_string_def decode_length [OF at(1) assms(2)] advance_add len_bytes_def)
qed

lemma skip_field_bytes:
  assumes "at_bytes s (wire_bytes w)" "wire_ok w"
  shows "pb_skip_field E s (wire_type_of w) = ok () (advance s (length (wire_bytes w)))"
proof (cases w)
  case (Varint_V v)
  with assms show ?thesis by (simp add: pb_skip_field_def skip_varint_bytes)
next
  case (Fixed64_V v)
  with assms(1) read_null_mem [of s "le_bytes 8 v" E] show ?thesis by (simp add: pb_skip_field_def)
next
  case (Len_V bs)
  with assms show ?thesis by (simp add: pb_skip_field_def skip_string_bytes)
next
  case (Fixed32_V v)
  with assms(1) read_null_mem [of s "le_bytes 4 v" E] show ?thesis by (simp add: pb_skip_field_def)
qed

end
