(* ===== verification/Pb_Emit.thy ===== *)
theory Pb_Emit
  imports Pb_Encode Pb_Wire
begin

text \<open>
  What an encoder of \<open>pb_encode.c\<close> does to a stream, as a function of the bytes it stands for:
  \<open>encodes f (bs, b)\<close> says that on a sizing stream and on a memory stream the encoder \<open>f\<close>
  writes exactly \<open>bs\<close> when \<open>b\<close> holds and they fit, and fails inside the stream's window
  otherwise. The rules compose such encoders; the submessage rule covers the two passes.
\<close>

section \<open>Output streams\<close>

definition room :: "pb_ostream \<Rightarrow> nat" where
  "room s = unat (max_size s) - unat (bytes_written s)"

text \<open>The contract of a stream: a memory stream's limit lies within its buffer object.\<close>

definition ostream_ok :: "pb_ostream \<Rightarrow> bool" where
  "ostream_ok s = (case os_callback s of
     Null_Write \<Rightarrow> True
   | Buf_Write \<Rightarrow> bytes_written s \<le> max_size s \<and> unat (max_size s) < 2 ^ 63 \<and>
       os_pos s + room s \<le> length (os_buf s)
   | User_Write i \<Rightarrow> False)"

definition fresh :: "pb_ostream \<Rightarrow> bool" where
  "fresh s \<longleftrightarrow> ostream_ok s \<and> os_errmsg s = None"

definition fits :: "pb_ostream \<Rightarrow> nat \<Rightarrow> bool" where
  "fits s n \<longleftrightarrow> os_callback s = Null_Write \<or> n \<le> room s"

definition emit :: "pb_ostream \<Rightarrow> byte list \<Rightarrow> pb_ostream" where
  "emit s bs =
     (if os_callback s = Null_Write then s\<lparr>bytes_written := bytes_written s + of_nat (length bs)\<rparr>
      else s\<lparr>os_buf := take (os_pos s) (os_buf s) @ bs @ drop (os_pos s + length bs) (os_buf s),
             os_pos := os_pos s + length bs, bytes_written := bytes_written s + of_nat (length bs)\<rparr>)"

text \<open>The frame: the window of the stream is all of the buffer that may change.\<close>

definition oframe :: "pb_ostream \<Rightarrow> pb_ostream \<Rightarrow> bool" where
  "oframe s t \<longleftrightarrow> os_callback t = os_callback s \<and> max_size t = max_size s \<and> ostream_ok t \<and>
     (os_callback s = Buf_Write \<longrightarrow>
        bytes_written s \<le> bytes_written t \<and>
        os_pos t = os_pos s + (unat (bytes_written t) - unat (bytes_written s)) \<and>
        length (os_buf t) = length (os_buf s) \<and>
        take (os_pos s) (os_buf t) = take (os_pos s) (os_buf s) \<and>
        drop (os_pos s + room s) (os_buf t) = drop (os_pos s + room s) (os_buf s))"

lemma emit_sel [simp]:
  "os_callback (emit s bs) = os_callback s" "max_size (emit s bs) = max_size s"
  "os_errmsg (emit s bs) = os_errmsg s"
  "bytes_written (emit s bs) = bytes_written s + of_nat (length bs)"
  by (simp_all add: emit_def)

lemma fresh_sizing [simp]: "fresh PB_OSTREAM_SIZING"
  by (simp add: fresh_def ostream_ok_def PB_OSTREAM_SIZING_def)

lemma oframe_refl [simp]: "ostream_ok s \<Longrightarrow> oframe s s"
  by (simp add: oframe_def)

lemma ostream_ok_error [simp]: "ostream_ok (os_set_error s e) = ostream_ok s"
  by (cases "os_callback s") (simp_all add: ostream_ok_def room_def)

lemma oframe_error [simp]: "oframe s (os_set_error t e) = oframe s t"
  by (simp add: oframe_def)

lemma os_errmsg_error: "os_errmsg s = None \<Longrightarrow> os_errmsg (os_set_error s e) = Some e"
  by (simp add: os_set_error_def)

lemma ostream_ok_cases:
  assumes "ostream_ok s"
  obtains (sizing) "os_callback s = Null_Write"
  | (buffer) "os_callback s = Buf_Write" "bytes_written s \<le> max_size s" "unat (max_size s) < 2 ^ 63"
      "os_pos s + room s \<le> length (os_buf s)"
  using assms by (auto simp: ostream_ok_def split: ostream_callback.splits)

lemma unat_add_small:
  "unat (a::u64) + n < 2 ^ 64 \<Longrightarrow> unat (a + of_nat n) = unat a + n"
  by (simp add: unat_word_ariths unat_of_nat)

lemma emit_room:
  assumes "ostream_ok s" "os_callback s = Buf_Write" "n \<le> room s"
  shows "unat (bytes_written s + of_nat n) = unat (bytes_written s) + n"
    and "unat (bytes_written s) + n \<le> unat (max_size s)" and "unat (max_size s) < 2 ^ 63"
proof -
  show le: "unat (bytes_written s) + n \<le> unat (max_size s)" and lt: "unat (max_size s) < 2 ^ 63"
    using assms by (auto simp: ostream_ok_def room_def word_le_nat_alt)
  have "unat (bytes_written s) + n < 2 ^ 64" using le lt by simp
  then show "unat (bytes_written s + of_nat n) = unat (bytes_written s) + n"
    by (rule unat_add_small)
qed

lemma room_emit:
  "ostream_ok s \<Longrightarrow> os_callback s = Buf_Write \<Longrightarrow> length bs \<le> room s \<Longrightarrow>
     room (emit s bs) = room s - length bs"
  by (simp add: room_def emit_room)

lemma emit_okay:
  assumes "ostream_ok s" "fits s (length bs)"
  shows "ostream_ok (emit s bs) \<and> oframe s (emit s bs)"
  using assms(1)
proof (cases rule: ostream_ok_cases)
  case sizing
  then show ?thesis by (simp add: ostream_ok_def oframe_def)
next
  case buffer
  with assms(2) have le: "length bs \<le> room s" by (simp add: fits_def)
  note r = emit_room [OF assms(1) buffer(1) le] room_emit [OF assms(1) buffer(1) le]
  have "os_pos (emit s bs) = os_pos s + length bs" "length (os_buf (emit s bs)) = length (os_buf s)"
    "take (os_pos s) (os_buf (emit s bs)) = take (os_pos s) (os_buf s)"
    "drop (os_pos s + room s) (os_buf (emit s bs)) = drop (os_pos s + room s) (os_buf s)"
    using buffer le by (simp_all add: emit_def add.commute)
  with buffer le r show ?thesis
    by (simp add: ostream_ok_def oframe_def word_le_nat_alt)
qed

lemmas emit_ok = emit_okay [THEN conjunct1] emit_okay [THEN conjunct2]

lemma emit_fresh: "fresh s \<Longrightarrow> fits s (length bs) \<Longrightarrow> fresh (emit s bs)"
  by (simp add: fresh_def emit_ok)

lemma fits_emit:
  assumes "ostream_ok s" "fits s (length bs)"
  shows "fits (emit s bs) n = fits s (length bs + n)"
  using assms(1)
proof (cases rule: ostream_ok_cases)
  case sizing
  then show ?thesis by (simp add: fits_def)
next
  case buffer
  with assms show ?thesis by (auto simp: fits_def room_emit)
qed

lemma splice:
  assumes "p + length bs \<le> length xs"
  shows "take (p + length bs) (take p xs @ bs @ drop (p + length bs) xs) = take p xs @ bs"
    and "drop (p + length bs + k) (take p xs @ bs @ drop (p + length bs) xs) = drop (p + length bs + k) xs"
proof -
  have "length (take p xs @ bs) = p + length bs" using assms by simp
  then show "take (p + length bs) (take p xs @ bs @ drop (p + length bs) xs) = take p xs @ bs"
    "drop (p + length bs + k) (take p xs @ bs @ drop (p + length bs) xs) = drop (p + length bs + k) xs"
    by (simp_all only: append_assoc [symmetric] take_append drop_append) (simp_all add: add.commute)
qed

lemma emit_Nil [simp]: "emit s [] = s"
  by (simp add: emit_def)

lemma emit_emit:
  assumes "ostream_ok s" "fits s (length bs)"
  shows "emit (emit s bs) cs = emit s (bs @ cs)"
  using assms(1)
proof (cases rule: ostream_ok_cases)
  case sizing
  then show ?thesis by (simp add: emit_def add.assoc)
next
  case buffer
  with assms(2) have "os_pos s + length bs \<le> length (os_buf s)" by (simp add: fits_def)
  note this [THEN splice(1)] this [THEN splice(2)]
  with buffer show ?thesis
    by (simp add: emit_def add.assoc del: take_append drop_append)
qed

lemma oframe_trans:
  assumes "oframe s t" "oframe t u" "ostream_ok s"
  shows "oframe s u"
proof (cases "os_callback s = Buf_Write")
  case False
  with assms show ?thesis by (simp add: oframe_def)
next
  case True
  let ?d = "unat (bytes_written t) - unat (bytes_written s)"
  from assms True have st: "os_callback t = Buf_Write" "max_size t = max_size s"
    "unat (bytes_written s) \<le> unat (bytes_written t)" "os_pos t = os_pos s + ?d"
    "length (os_buf t) = length (os_buf s)" "take (os_pos s) (os_buf t) = take (os_pos s) (os_buf s)"
    "drop (os_pos s + room s) (os_buf t) = drop (os_pos s + room s) (os_buf s)"
    "unat (bytes_written t) \<le> unat (max_size t)"
    by (auto simp: oframe_def word_le_nat_alt ostream_ok_def)
  from assms True have tu: "os_callback u = Buf_Write" "max_size u = max_size t" "ostream_ok u"
    "unat (bytes_written t) \<le> unat (bytes_written u)"
    "os_pos u = os_pos t + (unat (bytes_written u) - unat (bytes_written t))"
    "length (os_buf u) = length (os_buf t)" "take (os_pos t) (os_buf u) = take (os_pos t) (os_buf t)"
    "drop (os_pos t + room t) (os_buf u) = drop (os_pos t + room t) (os_buf t)"
    by (auto simp: oframe_def word_le_nat_alt)
  have window: "os_pos t + room t = os_pos s + room s"
    using st by (simp add: room_def)
  have "take (os_pos s) (take (os_pos t) (os_buf u)) = take (os_pos s) (take (os_pos t) (os_buf t))"
    by (simp only: tu)
  then have "take (os_pos s) (os_buf u) = take (os_pos s) (os_buf s)"
    using st by (simp add: min_def split: if_splits)
  with st tu window True show ?thesis
    by (simp add: oframe_def word_le_nat_alt)
qed

section \<open>Encoders as byte lists\<close>

text \<open>The bytes of an encoding and whether it succeeds; a failure ends the encoding.\<close>

type_synonym encoding = "byte list \<times> bool"

definition good :: "byte list \<Rightarrow> encoding" where "good bs = (bs, True)"
definition bad :: encoding where "bad = ([], False)"

fun ejoin :: "encoding \<Rightarrow> encoding \<Rightarrow> encoding" where
  "ejoin (bs, True) (cs, c) = (bs @ cs, c)"
| "ejoin (bs, False) _ = (bs, False)"

fun econcat :: "encoding list \<Rightarrow> encoding" where
  "econcat [] = good []"
| "econcat (e # es) = ejoin e (econcat es)"

text \<open>
  \<open>2 ^ 63\<close> bounds the total, as it bounds every object in memory, so that no \<open>size_t\<close> wraps.
\<close>

definition encodes :: "(pb_ostream \<Rightarrow> (unit option \<times> pb_ostream) run) \<Rightarrow> encoding \<Rightarrow> bool" where
  "encodes f e \<longleftrightarrow> length (fst e) < 2 ^ 63 \<longrightarrow>
     (\<forall>s. fresh s \<longrightarrow>
        (if snd e \<and> fits s (length (fst e)) then f s = ok () (emit s (fst e))
         else \<exists>t. f s = fail t \<and> oframe s t \<and> (snd e \<longrightarrow> os_errmsg t = Some ''stream full'')))"

lemma encodesI:
  assumes "\<And>s. length bs < 2 ^ 63 \<Longrightarrow> fresh s \<Longrightarrow>
    if b \<and> fits s (length bs) then f s = ok () (emit s bs)
    else \<exists>t. f s = fail t \<and> oframe s t \<and> (b \<longrightarrow> os_errmsg t = Some ''stream full'')"
  shows "encodes f (bs, b)"
  unfolding encodes_def fst_conv snd_conv using assms by blast

lemma encodesD:
  assumes "encodes f (bs, b)" "length bs < 2 ^ 63" "fresh s"
  shows "if b \<and> fits s (length bs) then f s = ok () (emit s bs)
    else \<exists>t. f s = fail t \<and> oframe s t \<and> (b \<longrightarrow> os_errmsg t = Some ''stream full'')"
  using assms(1) [unfolded encodes_def fst_conv snd_conv] assms(2,3) by blast

lemma encodes_ok [intro]: "encodes (ok ()) (good [])"
  by (auto simp: encodes_def good_def fits_def)

lemma encodes_error [intro]: "encodes (\<lambda>s. os_return_error s msg) bad"
  by (auto simp: encodes_def bad_def os_return_error_def fresh_def)

lemma encodes_fail: "encodes f (bs, False) \<Longrightarrow> length bs \<le> length cs \<Longrightarrow> encodes f (cs, False)"
  by (auto simp: encodes_def)

lemma encodes_write [intro]: "encodes (\<lambda>s. pb_write E s bs) (good bs)"
  unfolding encodes_def good_def fst_conv snd_conv
proof (intro impI allI)
  fix s assume len: "length bs < 2 ^ 63" and s: "fresh s"
  then have "ostream_ok s" by (simp add: fresh_def)
  then show "if True \<and> fits s (length bs) then pb_write E s bs = ok () (emit s bs)
    else \<exists>t. pb_write E s bs = fail t \<and> oframe s t \<and> (True \<longrightarrow> os_errmsg t = Some ''stream full'')"
  proof (cases rule: ostream_ok_cases)
    case sizing
    then show ?thesis by (simp add: fits_def pb_write_def emit_def)
  next
    case buffer
    have "unat (bytes_written s) \<le> unat (max_size s)" using buffer by (simp add: word_le_nat_alt)
    then have "unat (bytes_written s) + length bs < 2 ^ 64" using buffer len by simp
    then have "max_size s < bytes_written s + of_nat (length bs) \<longleftrightarrow> room s < length bs"
      using \<open>unat (bytes_written s) \<le> unat (max_size s)\<close>
      by (auto simp: word_less_nat_alt unat_add_small room_def)
    with buffer s show ?thesis
      by (auto simp: fits_def pb_write_def call_write_def buf_write_def emit_def os_return_error_def
          not_less fresh_def os_errmsg_error intro!: exI [of _ "os_set_error s ''stream full''"])
  qed
qed

lemma encodes_bind [intro]:
  assumes "encodes f e" "snd e \<Longrightarrow> encodes g e'"
  shows "encodes (\<lambda>s. check_do (f s) (\<lambda>_. g)) (ejoin e e')"
proof (cases e)
  case (Pair bs b)
  obtain cs c where e': "e' = (cs, c)" by (cases e')
  show ?thesis
  proof (cases b)
    case False
    with assms(1) show ?thesis by (fastforce simp: Pair encodes_def fail_def)
  next
    case True
    have f: "encodes f (bs, True)" and g: "encodes g (cs, c)" using assms Pair True e' by auto
    have "encodes (\<lambda>s. check_do (f s) (\<lambda>_. g)) (bs @ cs, c)"
    proof (rule encodesI)
      fix s assume len: "length (bs @ cs) < 2 ^ 63" and s: "fresh s"
      then have ok: "ostream_ok s" by (simp add: fresh_def)
      show "if c \<and> fits s (length (bs @ cs)) then check_do (f s) (\<lambda>_. g) = ok () (emit s (bs @ cs))
        else \<exists>t. check_do (f s) (\<lambda>_. g) = fail t \<and> oframe s t \<and> (c \<longrightarrow> os_errmsg t = Some ''stream full'')"
      proof (cases "fits s (length bs)")
        case fit: True
        then have fs: "f s = ok () (emit s bs)" using f len s by (simp add: encodes_def)
        note fits = fits_emit [OF ok fit, of "length cs"]
        show ?thesis
        proof (cases "c \<and> fits s (length (bs @ cs))")
          case True
          with g len emit_fresh [OF s fit] fits have "g (emit s bs) = ok () (emit (emit s bs) cs)"
            by (simp add: encodes_def)
          with True fs show ?thesis by (simp add: emit_emit [OF ok fit])
        next
          case False
          from encodesD [OF g _ emit_fresh [OF s fit]] len
          have "if c \<and> fits (emit s bs) (length cs) then g (emit s bs) = ok () (emit (emit s bs) cs)
            else \<exists>t. g (emit s bs) = fail t \<and> oframe (emit s bs) t \<and> (c \<longrightarrow> os_errmsg t = Some ''stream full'')"
            by simp
          with False fits obtain t where "g (emit s bs) = fail t" "oframe (emit s bs) t"
            "c \<longrightarrow> os_errmsg t = Some ''stream full''"
            by (auto split: if_splits)
          with False fs show ?thesis
            by (auto intro: oframe_trans [OF emit_ok(2) [OF ok fit] _ ok])
        qed
      next
        case nofit: False
        have "length bs < 2 ^ 63" using len by simp
        from encodesD [OF f this s] nofit
        obtain t where "f s = fail t" "oframe s t" "os_errmsg t = Some ''stream full''"
          by auto
        moreover have "\<not> fits s (length (bs @ cs))" using nofit by (auto simp: fits_def)
        ultimately show ?thesis by (auto simp: fail_def)
      qed
    qed
    then show ?thesis using Pair e' True by simp
  qed
qed

section \<open>Loops and the two passes\<close>

fun item_addrs :: "addr \<Rightarrow> u32 \<Rightarrow> nat \<Rightarrow> addr list" where
  "item_addrs p dsize 0 = []"
| "item_addrs p dsize (Suc k) = p # item_addrs (p + ucast dsize) dsize k"

lemma length_item_addrs [simp]: "length (item_addrs p d k) = k"
  by (induction k arbitrary: p) auto

lemma items_loop_fun:
  "items_loop body dsize 0 p = ok ()"
  "items_loop body dsize (Suc k) p = (\<lambda>s. check_do (body s p) (\<lambda>_. items_loop body dsize k (p + ucast dsize)))"
  by (simp_all add: fun_eq_iff)

lemma encodes_items:
  "(\<And>q. q \<in> set (item_addrs p d k) \<Longrightarrow> encodes (\<lambda>s. body s q) (r q)) \<Longrightarrow>
     encodes (items_loop body d k p) (econcat (map r (item_addrs p d k)))"
proof (induction k arbitrary: p)
  case 0
  then show ?case by (simp add: items_loop_fun encodes_ok)
next
  case (Suc k)
  then have "encodes (items_loop body d k (p + ucast d)) (econcat (map r (item_addrs (p + ucast d) d k)))"
    by (intro Suc.IH) simp
  with Suc.prems show ?case by (simp only: items_loop_fun item_addrs.simps list.map econcat.simps) (intro encodes_bind, simp_all)
qed

text \<open>A length and what it counts, as \<open>len_bytes\<close>, when the content succeeds.\<close>

definition delimited :: "encoding \<Rightarrow> encoding" where
  "delimited e = (if snd e then good (len_bytes (fst e)) else e)"

lemma encodes_varint [intro]: "encodes (\<lambda>s. pb_encode_varint E s v) (good (varint_bytes v))"
  by (simp only: pb_encode_varint_writes encodes_write)

lemma encodes_tag [intro]: "encodes (\<lambda>s. pb_encode_tag E s wt tag) (good (tag_bytes wt tag))"
  by (simp only: pb_encode_tag_writes encodes_write)

lemma encodes_string [intro]: "encodes (\<lambda>s. pb_encode_string E s bs) (good (len_bytes bs))"
proof -
  have "encodes (\<lambda>s. check_do (pb_encode_varint E s (of_nat (length bs))) (\<lambda>_ s. pb_write E s bs))
    (ejoin (good (varint_bytes (of_nat (length bs)))) (good bs))"
    by (intro encodes_bind encodes_varint encodes_write)
  then show ?thesis by (simp add: pb_encode_string_def [abs_def] len_bytes_def good_def)
qed

lemma encodes_sizing:
  assumes "encodes f (bs, b)" "length bs < 2 ^ 63"
  shows "if b then f PB_OSTREAM_SIZING = ok () (emit PB_OSTREAM_SIZING bs) else \<exists>t. f PB_OSTREAM_SIZING = fail t"
  using encodesD [OF assms fresh_sizing] by (auto simp: fits_def PB_OSTREAM_SIZING_def split: if_splits)

lemma write_null_emit:
  "os_callback s = Null_Write \<Longrightarrow> pb_write_null s (of_nat (length bs)) = ok () (emit s bs)"
  by (simp add: pb_write_null_def emit_def)

lemma encodes_delimited:
  assumes err: "\<And>t s. oframe s (err t s) = oframe s s"
    and "b \<Longrightarrow> length bs < 2 ^ 63 \<Longrightarrow> \<exists>t. sizing = ok () t \<and> bytes_written t = of_nat (length bs)"
    and "\<not> b \<Longrightarrow> length bs < 2 ^ 63 \<Longrightarrow> \<exists>t. sizing = fail t"
    and "b \<Longrightarrow> encodes (\<lambda>s. if os_callback s = Null_Write then pb_write_null s (of_nat (length bs)) else g (of_nat (length bs)) s) (good bs)"
  shows "encodes (\<lambda>s. rbind sizing (\<lambda>(r, t). case r of None \<Rightarrow> fail (err t s) | Some _ \<Rightarrow>
      let sz = bytes_written t in check_do (pb_encode_varint E s sz) (\<lambda>_ s.
        if os_callback s = Null_Write then pb_write_null s sz else g sz s))) (delimited (bs, b))"
proof (cases b)
  case True
  have "encodes (\<lambda>s. check_do (pb_encode_varint E s (of_nat (length bs))) (\<lambda>_ s.
      if os_callback s = Null_Write then pb_write_null s (of_nat (length bs)) else g (of_nat (length bs)) s))
    (ejoin (good (varint_bytes (of_nat (length bs)))) (good bs))"
    by (intro encodes_bind encodes_varint assms(4) True)
  then have "encodes (\<lambda>s. check_do (pb_encode_varint E s (of_nat (length bs))) (\<lambda>_ s.
      if os_callback s = Null_Write then pb_write_null s (of_nat (length bs)) else g (of_nat (length bs)) s)) (len_bytes bs, True)"
    by (simp add: good_def len_bytes_def)
  then have delim: "encodes (\<lambda>s. check_do (pb_encode_varint E s (of_nat (length bs))) (\<lambda>_ s.
      if os_callback s = Null_Write then pb_write_null s (of_nat (length bs)) else g (of_nat (length bs)) s)) (delimited (bs, b))"
    using True by (simp add: delimited_def good_def)
  show ?thesis
  proof (cases "length bs < 2 ^ 63")
    case len: True
    then obtain t where t: "sizing = ok () t" "bytes_written t = of_nat (length bs)"
      using assms(2) True by blast
    with delim show ?thesis by (simp add: ok_def Let_def cong del: if_weak_cong)
  next
    case False
    with True show ?thesis by (simp add: encodes_def delimited_def good_def len_bytes_def)
  qed
next
  case False
  with assms(3) err show ?thesis
    by (fastforce simp: encodes_def delimited_def fail_def fresh_def)
qed

text \<open>The second pass of \<open>pb_encode_submessage\<close>, on a substream of exactly the size.\<close>

definition second_pass :: "msg_encoder \<Rightarrow> pb_field list \<Rightarrow> addr \<Rightarrow> u64 \<Rightarrow> pb_ostream \<Rightarrow> (unit option \<times> pb_ostream) run" where
  "second_pass rec flds src sz s =
     (if bytes_written s + sz > max_size s then os_return_error s ''stream full''
      else
        rbind (rec \<lparr>os_callback = os_callback s, os_buf = os_buf s, os_pos = os_pos s,
                     max_size = sz, bytes_written = 0, os_errmsg = None\<rparr> flds src)
          (\<lambda>(status, substream).
             let s = s\<lparr>bytes_written := bytes_written s + bytes_written substream,
                       os_buf := os_buf substream, os_pos := os_pos substream,
                       os_errmsg := os_errmsg substream\<rparr> in
             if bytes_written substream \<noteq> sz then os_return_error s ''submsg size changed''
             else Ret (status, s)))"

lemma encodes_second_pass:
  assumes rec: "encodes (\<lambda>s. rec s flds src) (bs, True)"
  shows "encodes (\<lambda>s. if os_callback s = Null_Write then pb_write_null s (of_nat (length bs))
    else second_pass rec flds src (of_nat (length bs)) s) (good bs)"
  unfolding good_def
proof (rule encodesI)
  fix s
  let ?f = "\<lambda>s. if os_callback s = Null_Write then pb_write_null s (of_nat (length bs))
    else second_pass rec flds src (of_nat (length bs)) s"
  assume len: "length bs < 2 ^ 63" and s: "fresh s"
  then have "ostream_ok s" by (simp add: fresh_def)
  then show "if True \<and> fits s (length bs) then ?f s = ok () (emit s bs)
    else \<exists>t. ?f s = fail t \<and> oframe s t \<and> (True \<longrightarrow> os_errmsg t = Some ''stream full'')"
  proof (cases rule: ostream_ok_cases)
    case sizing
    then show ?thesis by (simp add: fits_def write_null_emit)
  next
    case buffer
    have bound: "unat (bytes_written s) \<le> unat (max_size s)" using buffer by (simp add: word_le_nat_alt)
    then have "unat (bytes_written s) + length bs < 2 ^ 64" using buffer len by simp
    then have full: "max_size s < bytes_written s + of_nat (length bs) \<longleftrightarrow> room s < length bs"
      using bound by (auto simp: word_less_nat_alt unat_add_small room_def)
    have unat_len: "unat (of_nat (length bs) :: u64) = length bs"
      by (rule unat_of_nat_small) (use len in simp)
    show ?thesis
    proof (cases "length bs \<le> room s")
      case True
      let ?sub = "\<lparr>os_callback = Buf_Write, os_buf = os_buf s, os_pos = os_pos s,
                  max_size = of_nat (length bs), bytes_written = 0, os_errmsg = None\<rparr>"
      have "fresh ?sub" "fits ?sub (length bs)"
        using buffer True len by (simp_all add: fresh_def ostream_ok_def fits_def room_def unat_len)
      then have "rec ?sub flds src = ok () (emit ?sub bs)"
        using encodesD [OF rec len] by simp
      with True full buffer s show ?thesis
        by (simp add: fits_def emit_def ok_def fresh_def second_pass_def)
    next
      case False
      with full buffer s show ?thesis
        by (auto simp: fits_def os_return_error_def not_less fresh_def os_errmsg_error second_pass_def
            intro!: exI [of _ "os_set_error s ''stream full''"])
    qed
  qed
qed

lemma reset_stream:
  "t\<lparr>os_callback := a, os_buf := b, os_pos := c, max_size := d, bytes_written := e, os_errmsg := f\<rparr> =
   \<lparr>os_callback = a, os_buf = b, os_pos = c, max_size = d, bytes_written = e, os_errmsg = f\<rparr>"
  by (cases t) simp

lemma encodes_submessage:
  assumes "encodes (\<lambda>s. rec s flds src) e"
  shows "encodes (\<lambda>s. pb_encode_submessage E rec s flds src) (delimited e)"
proof (cases e)
  case (Pair bs b)
  note rec = assms [unfolded Pair]
  have "encodes (\<lambda>s. rbind (rec PB_OSTREAM_SIZING flds src) (\<lambda>(r, t). case r of
       None \<Rightarrow> fail (s\<lparr>os_errmsg := os_errmsg t\<rparr>)
     | Some _ \<Rightarrow> let sz = bytes_written t in check_do (pb_encode_varint E s sz) (\<lambda>_ s.
         if os_callback s = Null_Write then pb_write_null s sz
         else second_pass rec flds src sz s))) (delimited (bs, b))"
  proof (rule encodes_delimited [where g = "second_pass rec flds src"])
    show "oframe s (s\<lparr>os_errmsg := os_errmsg t\<rparr>) = oframe s s" for t s
      by (simp add: oframe_def ostream_ok_def room_def split: ostream_callback.splits)
  next
    assume "b" "length bs < 2 ^ 63"
    then show "\<exists>t. rec PB_OSTREAM_SIZING flds src = ok () t \<and> bytes_written t = of_nat (length bs)"
      using encodes_sizing [OF rec] by (auto simp: PB_OSTREAM_SIZING_def)
  next
    assume "\<not> b" "length bs < 2 ^ 63"
    then show "\<exists>t. rec PB_OSTREAM_SIZING flds src = fail t"
      using encodes_sizing [OF rec] by auto
  next
    assume b
    with rec show "encodes (\<lambda>s. if os_callback s = Null_Write then pb_write_null s (of_nat (length bs))
        else second_pass rec flds src (of_nat (length bs)) s) (good bs)"
      by (intro encodes_second_pass) simp
  qed
  then show ?thesis
    unfolding Pair pb_encode_submessage_def second_pass_def reset_stream .
qed

end
