(* ===== verification/Pb_Roundtrip.thy ===== *)
theory Pb_Roundtrip
  imports Pb_Emit Pb_Example
begin

text \<open>
  Round trips of the stream layer: what \<open>pb_encode.c\<close> writes into a buffer, \<open>pb_decode.c\<close>
  reads back from the bytes written. The rule \<open>written\<close> turns an \<open>encodes\<close> fact into the bytes at the
  start of an input stream.
\<close>

section \<open>Reading back what was written\<close>

definition ibuf :: "pb_ostream \<Rightarrow> pb_istream" where
  "ibuf t = pb_istream_from_buffer (os_buf t) (bytes_written t)"

lemma fresh_buffer:
  "unat sz \<le> length buf \<Longrightarrow> unat sz < 2 ^ 63 \<Longrightarrow> fresh (pb_ostream_from_buffer buf sz)"
  by (simp add: fresh_def ostream_ok_def pb_ostream_from_buffer_def room_def)

lemma room_buffer: "room (pb_ostream_from_buffer buf sz) = unat sz"
  by (simp add: room_def pb_ostream_from_buffer_def)

lemma at_bytes_ibuf:
  assumes "length bs \<le> unat sz" "unat sz \<le> length buf" "unat sz < 2 ^ 63"
  shows "at_bytes (ibuf (emit (pb_ostream_from_buffer buf sz) bs)) bs"
    and "bytes_left (ibuf (emit (pb_ostream_from_buffer buf sz) bs)) = of_nat (length bs)"
proof -
  have "unat (of_nat (length bs) :: u64) = length bs"
    by (rule unat_of_nat_small) (use assms in simp)
  then show "at_bytes (ibuf (emit (pb_ostream_from_buffer buf sz) bs)) bs"
    by (simp add: at_bytes_def ibuf_def pb_istream_from_buffer_def pb_ostream_from_buffer_def emit_def)
  show "bytes_left (ibuf (emit (pb_ostream_from_buffer buf sz) bs)) = of_nat (length bs)"
    by (simp add: ibuf_def pb_istream_from_buffer_def pb_ostream_from_buffer_def)
qed

lemma written:
  assumes enc: "encodes f (good bs)" and len: "length bs \<le> unat sz" "unat sz \<le> length buf" "unat sz < 2 ^ 63"
  shows "\<exists>t. f (pb_ostream_from_buffer buf sz) = ok () t \<and> at_bytes (ibuf t) bs \<and>
    bytes_left (advance (ibuf t) (length bs)) = 0"
proof -
  let ?s = "pb_ostream_from_buffer buf sz"
  have "fits ?s (length bs)" using len by (simp add: fits_def room_buffer)
  moreover have "length bs < 2 ^ 63" using len by simp
  ultimately have "f ?s = ok () (emit ?s bs)"
    using encodesD [OF enc [unfolded good_def] _ fresh_buffer [OF len(2,3)]] by simp
  with at_bytes_ibuf [OF len] show ?thesis
    by (intro exI [of _ "emit ?s bs"]) (simp add: advance_def)
qed

section \<open>Encoders of the stream layer\<close>

lemma encodes_svarint: "encodes (\<lambda>s. pb_encode_svarint E s v) (good (varint_bytes (zigzag v)))"
  by (simp only: pb_encode_svarint_writes encodes_write)

lemma encodes_fixed32: "encodes (\<lambda>s. pb_encode_fixed32 E s v) (good (le_bytes 4 v))"
  by (simp only: pb_encode_fixed32_writes encodes_write)

lemma encodes_fixed64: "encodes (\<lambda>s. pb_encode_fixed64 E s v) (good (le_bytes 8 v))"
  by (simp only: pb_encode_fixed64_writes encodes_write)

section \<open>Substreams of written strings\<close>

lemma advance_left:
  "at_bytes s bs \<Longrightarrow> unat (bytes_left (advance s (length bs))) = unat (bytes_left s) - length bs"
proof -
  assume at: "at_bytes s bs"
  then have le: "length bs \<le> unat (bytes_left s)" by (simp add: at_bytes_def)
  then have "unat (of_nat (length bs) :: u64) = length bs"
    using unat_less64 [of "bytes_left s"] by (intro unat_of_nat_small) simp
  with le show ?thesis by (simp add: advance_def unat_sub word_le_nat_alt)
qed

lemma make_substream_bytes:
  assumes at: "at_bytes s (len_bytes bs)" and len: "length bs < 2 ^ 32"
  shows "\<exists>sub t. pb_make_string_substream E s = ok sub t \<and> at_bytes sub bs \<and>
    bytes_left sub = of_nat (length bs) \<and> is_state t = is_state sub \<and> is_errmsg sub = is_errmsg s \<and>
    t = (advance s (length (varint_bytes (of_nat (length bs)))))
          \<lparr>bytes_left := bytes_left (advance s (length (len_bytes bs)))\<rparr>"
proof -
  let ?k = "length (varint_bytes (of_nat (length bs)))"
  have head: "at_bytes s (varint_bytes (of_nat (length bs)))" and tail: "at_bytes (advance s ?k) bs"
    using at by (simp_all add: len_bytes_def at_bytes_append)
  have n: "(ucast (of_nat (length bs) :: u32) :: u64) = of_nat (length bs)"
    by (rule ucast_of_nat_u64 [OF len])
  have unat_n: "unat (of_nat (length bs) :: u64) = length bs"
    by (rule unat_of_nat_small) (use len in simp)
  have "\<not> bytes_left (advance s ?k) < of_nat (length bs)"
    using tail by (simp add: at_bytes_def word_less_nat_alt unat_n not_less)
  moreover have "at_bytes ((advance s ?k)\<lparr>bytes_left := of_nat (length bs)\<rparr>) bs"
    using tail by (simp add: at_bytes_def unat_n)
  moreover have "bytes_left (advance s ?k) - of_nat (length bs) = bytes_left (advance s (length (len_bytes bs)))"
    by (simp add: advance_def len_bytes_def algebra_simps)
  ultimately show ?thesis
    by (intro exI [of _ "(advance s ?k)\<lparr>bytes_left := of_nat (length bs)\<rparr>"]
          exI [of _ "(advance s ?k)\<lparr>bytes_left := bytes_left (advance s (length (len_bytes bs)))\<rparr>"] conjI)
      (simp_all add: pb_make_string_substream_def decode_length [OF head len] n)
qed

lemma close_empty_substream:
  "bytes_left sub = 0 \<Longrightarrow> pb_close_string_substream E t sub =
     ok () (t\<lparr>is_state := is_state sub, is_errmsg := is_errmsg sub\<rparr>)"
  by (simp add: pb_close_string_substream_def ok_def)

section \<open>Truncated input\<close>

text \<open>A memory stream that ends after the first \<open>k\<close> of the bytes \<open>bs\<close>.\<close>

definition cut_at :: "pb_istream \<Rightarrow> byte list \<Rightarrow> nat \<Rightarrow> bool" where
  "cut_at s bs k \<longleftrightarrow> at_bytes s (take k bs) \<and> bytes_left s = of_nat k \<and> k < length bs"

lemma cut_at_step:
  assumes "cut_at s (b # bs) (Suc k)" "k < 2 ^ 32"
  shows "at_bytes s [b]" "cut_at (advance s 1) bs k"
proof -
  from assms(1) have at: "at_bytes s (b # take k bs)" by (simp add: cut_at_def)
  then show "at_bytes s [b]" by (simp only: at_bytes_Cons [of s b "take k bs"])
  from at assms(1) show "cut_at (advance s 1) bs k"
    by (simp only: at_bytes_Cons [of s b "take k bs"] cut_at_def) (simp add: advance_def)
qed

lemma varint_loop_cut:
  assumes "cut_at s (varint_bytes v) k" "bitpos < 64" "drop_bit (64 - bitpos) v = 0" "k < 2 ^ 32"
  shows "\<exists>t. varint_loop E s bitpos r = is_return_error t ''end-of-stream'' \<and> is_errmsg t = is_errmsg s"
  using assms
proof (induction k arbitrary: s v bitpos r)
  case 0
  then have "bytes_left s = 0" by (simp add: cut_at_def)
  then have "pb_readbyte E s = is_return_error s ''end-of-stream''" by (simp add: pb_readbyte_def)
  with 0(2) show ?case
    by (subst varint_loop.simps) (auto simp: is_return_error_def fail_def)
next
  case (Suc k)
  let ?b = "ucast ((v AND 0x7F) OR 0x80) :: byte" and ?w = "drop_bit 7 v"
  have big: "?w \<noteq> 0"
    using Suc.prems(1) by (cases "drop_bit 7 v = 0") (simp_all add: cut_at_def varint_bytes_small)
  have cut: "cut_at s (?b # varint_bytes ?w) (Suc k)"
    using Suc.prems(1) by (simp only: varint_bytes_more [OF big])
  have k: "k < 2 ^ 32" using Suc.prems(4) by simp
  note at = cut_at_step [OF cut k]
  have pos: "bitpos + 7 < 64"
  proof (rule ccontr)
    assume "\<not> bitpos + 7 < 64"
    then have "drop_bit (7 - (64 - bitpos)) (drop_bit (64 - bitpos) v) = ?w"
      using Suc.prems(2) by (simp only: drop_bit_drop_bit) simp
    with Suc.prems(3) big show False by simp
  qed
  have "64 - (bitpos + 7) + 7 = 64 - bitpos" using pos by simp
  then have w: "drop_bit (64 - (bitpos + 7)) ?w = 0" using Suc.prems(3) by simp
  from Suc.IH [OF at(2) pos w k, of "r OR push_bit bitpos (v AND 0x7F)"]
  obtain t where "varint_loop E (advance s 1) (bitpos + 7) (r OR push_bit bitpos (v AND 0x7F)) =
      is_return_error t ''end-of-stream''" "is_errmsg t = is_errmsg s"
    by auto
  then show ?case
    using Suc.prems(2) pos
    by (subst varint_loop.simps) (auto simp: pb_readbyte_mem [OF at(1)] Let_def msb_set payload_more)
qed

section \<open>The round trips\<close>

text \<open>C8: A 64-bit integer written by pb_encode_varint into a buffer with room for ten bytes is read back by
  pb_decode_varint, which consumes exactly the bytes written.\<close>

theorem varint_roundtrip:
  assumes "10 \<le> unat sz" "unat sz \<le> length buf" "unat sz < 2 ^ 63"
  shows "\<exists>t u. pb_encode_varint E (pb_ostream_from_buffer buf sz) v = ok () t \<and>
    pb_decode_varint E (ibuf t) = ok v u \<and> bytes_left u = 0"
proof -
  have "length (varint_bytes v) \<le> unat sz" using length_varint_bytes [of v] assms(1) by simp
  from written [OF encodes_varint this assms(2,3)] show ?thesis
    using decode_varint_bytes by blast
qed

theorem varint_roundtrip_witness:
  "\<exists>t u. pb_encode_varint no_callbacks (pb_ostream_from_buffer (replicate 10 0) 10) 300 = ok () t \<and>
    pb_decode_varint no_callbacks (ibuf t) = ok 300 u \<and> bytes_left u = 0"
  by (rule varint_roundtrip) simp_all

text \<open>A signed 64-bit integer survives the zigzag encoding of pb_encode_svarint and pb_decode_svarint.\<close>

theorem svarint_roundtrip:
  assumes "10 \<le> unat sz" "unat sz \<le> length buf" "unat sz < 2 ^ 63"
  shows "\<exists>t u. pb_encode_svarint E (pb_ostream_from_buffer buf sz) v = ok () t \<and>
    pb_decode_svarint E (ibuf t) = ok v u \<and> bytes_left u = 0"
proof -
  have "length (varint_bytes (zigzag v)) \<le> unat sz" using length_varint_bytes [of "zigzag v"] assms(1) by simp
  from written [OF encodes_svarint this assms(2,3)] show ?thesis
    using decode_svarint_bytes [of _ "zigzag v" E, unfolded unzigzag_zigzag] by blast
qed

theorem svarint_roundtrip_witness:
  "\<exists>t u. pb_encode_svarint no_callbacks (pb_ostream_from_buffer (replicate 10 0) 10) (- 150) = ok () t \<and>
    pb_decode_svarint no_callbacks (ibuf t) = ok (- 150) u \<and> bytes_left u = 0"
  by (rule svarint_roundtrip) simp_all

text \<open>C9: Fixed-width integers written by pb_encode_fixed32 and pb_encode_fixed64 are read back whole.\<close>

theorem fixed_roundtrip:
  assumes "8 \<le> unat sz" "unat sz \<le> length buf" "unat sz < 2 ^ 63"
  shows "(\<exists>t u. pb_encode_fixed32 E (pb_ostream_from_buffer buf sz) v = ok () t \<and>
      pb_decode_fixed32 E (ibuf t) = ok v u \<and> bytes_left u = 0) \<and>
    (\<exists>t u. pb_encode_fixed64 E (pb_ostream_from_buffer buf sz) w = ok () t \<and>
      pb_decode_fixed64 E (ibuf t) = ok w u \<and> bytes_left u = 0)"
proof -
  have "length (le_bytes 4 v) \<le> unat sz" "length (le_bytes 8 w) \<le> unat sz" using assms(1) by simp_all
  with written [OF encodes_fixed32 _ assms(2,3)] written [OF encodes_fixed64 _ assms(2,3)]
  show ?thesis
    using decode_fixed32_bytes [of _ "le_bytes 4 v" E] decode_fixed64_bytes [of _ "le_bytes 8 w" E]
    by (fastforce simp: le_word_le_bytes)
qed

theorem fixed_roundtrip_witness:
  "(\<exists>t u. pb_encode_fixed32 no_callbacks (pb_ostream_from_buffer (replicate 8 0) 8) 0xDEADBEEF = ok () t \<and>
      pb_decode_fixed32 no_callbacks (ibuf t) = ok 0xDEADBEEF u \<and> bytes_left u = 0) \<and>
    (\<exists>t u. pb_encode_fixed64 no_callbacks (pb_ostream_from_buffer (replicate 8 0) 8) 0xDEADBEEF = ok () t \<and>
      pb_decode_fixed64 no_callbacks (ibuf t) = ok 0xDEADBEEF u \<and> bytes_left u = 0)"
  by (rule fixed_roundtrip) simp_all

text \<open>A field number below 2^29 and a wire type survive pb_encode_tag and pb_decode_tag.\<close>

theorem tag_roundtrip:
  assumes "wt < 8" "0 < tag" "tag < 2 ^ 29" "10 \<le> unat sz" "unat sz \<le> length buf" "unat sz < 2 ^ 63"
  shows "\<exists>t u. pb_encode_tag E (pb_ostream_from_buffer buf sz) wt tag = ok () t \<and>
    pb_decode_tag E (ibuf t) = Ret ((True, wt, tag, False), u) \<and> bytes_left u = 0"
proof -
  have "length (tag_bytes wt tag) \<le> unat sz"
    using length_varint_bytes [of "tag_value wt tag"] assms(4) by (simp add: tag_bytes_def)
  moreover have "drop_bit 29 tag = 0"
  proof -
    have "unat tag div 2 ^ 29 = 0" using assms(3) by (simp add: word_less_nat_alt)
    then show ?thesis by (metis unat_drop_bit_eq drop_bit_eq_div unat_eq_0)
  qed
  moreover have "tag \<noteq> 0" using assms(2) by auto
  ultimately show ?thesis
    using written [OF encodes_tag _ assms(5,6)] decode_tag_bytes [OF _ assms(1)] by blast
qed

theorem tag_roundtrip_witness:
  "\<exists>t u. pb_encode_tag no_callbacks (pb_ostream_from_buffer (replicate 10 0) 10) PB_WT_STRING 536870911 = ok () t \<and>
    pb_decode_tag no_callbacks (ibuf t) = Ret ((True, PB_WT_STRING, 536870911, False), u) \<and> bytes_left u = 0"
  by (rule tag_roundtrip) simp_all

text \<open>C10: A string written by pb_encode_string is the content of the substream that pb_make_string_substream
  opens on it; reading it and closing the substream leaves the parent at its end.\<close>

theorem string_roundtrip:
  assumes "length bs < 2 ^ 32" "length bs + 10 \<le> unat sz" "unat sz \<le> length buf" "unat sz < 2 ^ 63"
  shows "\<exists>t sub parent sub' u. pb_encode_string E (pb_ostream_from_buffer buf sz) bs = ok () t \<and>
    pb_make_string_substream E (ibuf t) = ok sub parent \<and>
    pb_read E sub (of_nat (length bs)) = ok bs sub' \<and>
    pb_close_string_substream E parent sub' = ok () u \<and> bytes_left u = 0"
proof -
  have "length (len_bytes bs) \<le> unat sz"
    using length_varint_bytes [of "of_nat (length bs)"] assms(2) by (simp add: len_bytes_def)
  from written [OF encodes_string this assms(3,4)] obtain t where
    t: "pb_encode_string E (pb_ostream_from_buffer buf sz) bs = ok () t" "at_bytes (ibuf t) (len_bytes bs)"
      "bytes_left (advance (ibuf t) (length (len_bytes bs))) = 0"
    by blast
  from make_substream_bytes [OF t(2) assms(1), of E] obtain sub parent where
    sub: "pb_make_string_substream E (ibuf t) = ok sub parent" "at_bytes sub bs"
      "bytes_left sub = of_nat (length bs)" "bytes_left parent = bytes_left (advance (ibuf t) (length (len_bytes bs)))"
    by auto
  have "bytes_left (advance sub (length bs)) = 0" using sub(3) by (simp add: advance_def)
  from close_empty_substream [OF this] pb_read_mem [OF sub(2)] sub t show ?thesis by fastforce
qed

theorem string_roundtrip_witness:
  "\<exists>t sub parent sub' u. pb_encode_string no_callbacks (pb_ostream_from_buffer (replicate 12 0) 12) [65, 66] = ok () t \<and>
    pb_make_string_substream no_callbacks (ibuf t) = ok sub parent \<and>
    pb_read no_callbacks sub (of_nat (length [65, 66 :: byte])) = ok [65, 66] sub' \<and>
    pb_close_string_substream no_callbacks parent sub' = ok () u \<and> bytes_left u = 0"
  by (rule string_roundtrip) simp_all

text \<open>C11: On a memory stream positioned at any value of the wire format, pb_skip_field consumes exactly the
  bytes of that value.\<close>

theorem skip_field_exact:
  assumes "at_bytes s (wire_bytes w)" "wire_ok w"
  shows "pb_skip_field E s (wire_type_of w) = ok () (advance s (length (wire_bytes w)))"
  using assms by (rule skip_field_bytes)

theorem skip_field_exact_witness:
  "pb_skip_field no_callbacks (pb_istream_from_buffer [2, 65, 66, 9] 4) PB_WT_STRING =
     ok () (advance (pb_istream_from_buffer [2, 65, 66, 9] 4) (length [2, 65, 66 :: byte]))"
proof -
  have "varint_bytes 2 = [2]" using varint_bytes_small [of 2] by simp
  then show ?thesis
    using skip_field_exact [of "pb_istream_from_buffer [2, 65, 66, 9] 4" "Len_V [65, 66]" no_callbacks]
    by (simp add: at_bytes_def pb_istream_from_buffer_def len_bytes_def)
qed

text \<open>A varint that is cut off after any number of its bytes is refused with the message "end-of-stream".\<close>

theorem varint_truncated:
  assumes "cut_at s (varint_bytes v) k" "is_errmsg s = None"
  shows "\<exists>t. pb_decode_varint E s = fail t \<and> is_errmsg t = Some ''end-of-stream''"
proof -
  have "k < 10" using assms(1) length_varint_bytes [of v] by (simp add: cut_at_def)
  moreover have "drop_bit (64 - 0) v = 0" by (rule bit_word_eqI) (simp add: bit_drop_bit_eq)
  ultimately show ?thesis
    using varint_loop_cut [OF assms(1), of 0 E 0] assms(2)
    by (auto simp: pb_decode_varint_def is_return_error_def is_set_error_def)
qed

theorem varint_truncated_witness:
  "\<exists>t. pb_decode_varint no_callbacks (pb_istream_from_buffer [0xAC] 1) = fail t \<and> is_errmsg t = Some ''end-of-stream''"
proof -
  have "varint_bytes 300 = [0xAC, 2]"
    using varint_bytes_more [of 300] varint_bytes_small [of 2] by simp
  then show ?thesis
    using varint_truncated [of "pb_istream_from_buffer [0xAC] 1" 300 1 no_callbacks]
    by (simp add: cut_at_def at_bytes_def pb_istream_from_buffer_def)
qed

text \<open>C12: pb_decode_varint32 accepts a varint below 2^35 and keeps its low 32 bits; a longer varint, such as
  that of a negative int32, is refused with the message "varint overflow".\<close>

theorem varint32_range:
  assumes "at_bytes s (varint_bytes v)" "is_errmsg s = None"
  shows "if v < 2 ^ 35 then pb_decode_varint32 E s = ok (ucast v) (advance s (length (varint_bytes v)))
    else \<exists>t. pb_decode_varint32 E s = fail t \<and> is_errmsg t = Some ''varint overflow''"
proof -
  have "v < 2 ^ 35 \<longleftrightarrow> unat v div 2 ^ 35 = 0"
    by (simp add: word_less_nat_alt div_eq_0_iff)
  then have "v < 2 ^ 35 \<longleftrightarrow> drop_bit 35 v = 0"
    by (metis unat_drop_bit_eq drop_bit_eq_div unat_eq_0)
  moreover have "\<exists>u. is_return_error t e = fail u \<and> is_errmsg u = Some e" if "is_errmsg t = None" for t e
    using that by (intro exI [of _ "is_set_error t e"]) (simp add: is_return_error_def is_set_error_def)
  ultimately show ?thesis
    using decode_varint32_bytes [OF assms(1)] varint32_loop_overflow [OF assms(1), of 0 E 0] assms(2)
    by (auto simp: decode_varint32_loop)
qed

theorem varint32_range_witness:
  "pb_decode_varint32 no_callbacks (pb_istream_from_buffer [0xAC, 2] 2) =
     ok 300 (advance (pb_istream_from_buffer [0xAC, 2] 2) (length [0xAC, 2 :: byte]))"
proof -
  have "varint_bytes 300 = [0xAC, 2]"
    using varint_bytes_more [of 300] varint_bytes_small [of 2] by simp
  then show ?thesis
    using varint32_range [of "pb_istream_from_buffer [0xAC, 2] 2" 300 no_callbacks]
    by (simp add: at_bytes_def pb_istream_from_buffer_def)
qed

end
