(* ===== verification/Pb_Encode_Spec.thy ===== *)
theory Pb_Encode_Spec
  imports Pb_Roundtrip Pb_Example
begin

text \<open>
  The encoding of a message as bytes: \<open>spec_message\<close> reads the struct once and concatenates
  the bytes of its fields, without streams, limits or the sizing passes of \<open>pb_encode.c\<close>. It is
  \<open>None\<close> where the message leaves the library (a callback or an extension handler of the user)
  and where the C code has no defined behaviour. \<open>pb_encode_follows\<close> says that \<open>pb_encode\<close>
  implements it on sizing and memory streams.
\<close>

section \<open>Encodings that may be outside the library\<close>

definition oconj :: "encoding option \<Rightarrow> encoding option \<Rightarrow> encoding option" where
  "oconj a b = (case a of None \<Rightarrow> None | Some e \<Rightarrow>
     if snd e then map_option (ejoin e) b else Some e)"

fun oconcat :: "encoding option list \<Rightarrow> encoding option" where
  "oconcat [] = Some (good [])"
| "oconcat (e # es) = oconj e (oconcat es)"

definition follows :: "(pb_ostream \<Rightarrow> (unit option \<times> pb_ostream) run) \<Rightarrow> encoding option \<Rightarrow> bool" where
  "follows f r \<longleftrightarrow> (\<forall>e. r = Some e \<longrightarrow> encodes f e)"

named_theorems follows_rules \<open>composition of encoders\<close>

lemma follows_None [follows_rules]: "follows f None"
  by (simp add: follows_def)

lemma follows_Some [follows_rules]: "encodes f e \<Longrightarrow> follows f (Some e)"
  by (simp add: follows_def)

lemma follows_SomeD: "follows f (Some e) \<Longrightarrow> encodes f e"
  by (simp add: follows_def)

lemma encodes_failed: "encodes f (bs, False) \<Longrightarrow> encodes (\<lambda>s. check_do (f s) (\<lambda>_. g)) (bs, False)"
  using encodes_bind [of f "(bs, False)" g bad] by simp

lemma follows_bind [follows_rules]:
  assumes "follows f a" "follows g b"
  shows "follows (\<lambda>s. check_do (f s) (\<lambda>_. g)) (oconj a b)"
proof (cases a)
  case None
  then show ?thesis by (simp add: oconj_def follows_def)
next
  case (Some e)
  with assms(1) have f: "encodes f e" by (simp add: follows_def)
  obtain bs c where e: "e = (bs, c)" by (cases e)
  show ?thesis
  proof (cases c)
    case True
    with f e have "encodes g e' \<Longrightarrow> encodes (\<lambda>s. check_do (f s) (\<lambda>_. g)) (ejoin e e')" for e'
      by (intro encodes_bind)
    with assms(2) Some e True show ?thesis
      by (auto simp: oconj_def follows_def)
  next
    case False
    with f Some e show ?thesis by (simp add: oconj_def follows_def encodes_failed)
  qed
qed

lemma follows_if [follows_rules]:
  "(P \<Longrightarrow> follows f a) \<Longrightarrow> (\<not> P \<Longrightarrow> follows g b) \<Longrightarrow>
     follows (\<lambda>s. if P then f s else g s) (if P then a else b)"
  by simp

lemma follows_items [follows_rules]:
  "(\<And>q. q \<in> set (item_addrs p d k) \<Longrightarrow> follows (\<lambda>s. body s q) (r q)) \<Longrightarrow>
     follows (items_loop body d k p) (oconcat (map r (item_addrs p d k)))"
proof (induction k arbitrary: p)
  case 0
  then show ?case by (simp add: items_loop_fun follows_def encodes_ok)
next
  case (Suc k)
  then have "follows (items_loop body d k (p + ucast d)) (oconcat (map r (item_addrs (p + ucast d) d k)))"
    by (intro Suc.IH) simp
  with Suc.prems show ?case
    by (simp only: items_loop_fun item_addrs.simps list.map oconcat.simps) (intro follows_bind, simp_all)
qed

lemma follows_fields:
  "(\<And>i. i \<in> set is \<Longrightarrow> follows (body (iter_at fs d i)) (r i)) \<Longrightarrow>
     follows (run_fields body fs d is) (oconcat (map r is))"
proof (induction "is")
  case Nil
  then show ?case by (simp add: follows_def encodes_ok)
next
  case (Cons i "is")
  then show ?case
    by (simp only: run_fields_fun list.map oconcat.simps) (intro follows_bind, simp_all)
qed

section \<open>The bytes of a message\<close>

definition load_unsigned :: "mem \<Rightarrow> addr \<Rightarrow> u32 \<Rightarrow> u64 option" where
  "load_unsigned m p dsize =
     (if dsize \<in> {1, 2, 4, 8} then Some (le_word (load m p (unat dsize))) else None)"

definition load_signed :: "mem \<Rightarrow> addr \<Rightarrow> u32 \<Rightarrow> u64 option" where
  "load_signed m p dsize =
     (if dsize = 1 then Some (scast (le_word (load m p 1) :: 8 word))
      else if dsize = 2 then Some (scast (le_word (load m p 2) :: 16 word))
      else if dsize = 4 then Some (scast (le_word (load m p 4) :: 32 word))
      else if dsize = 8 then Some (le_word (load m p 8)) else None)"

definition opt_varint :: "u64 option \<Rightarrow> encoding" where
  "opt_varint v = (case v of Some v \<Rightarrow> good (varint_bytes v) | None \<Rightarrow> bad)"

type_synonym msg_spec = "pb_field list \<Rightarrow> addr \<Rightarrow> encoding option"

definition spec_value :: "pb_env \<Rightarrow> mem \<Rightarrow> msg_spec \<Rightarrow> pb_field \<Rightarrow> addr \<Rightarrow> encoding option" where
  "spec_value E m sub f src =
     (let ltype = PB_LTYPE (f_type f) in
      if ltype = PB_LTYPE_VARINT then Some (opt_varint (load_signed m src (f_data_size f)))
      else if ltype = PB_LTYPE_UVARINT then Some (opt_varint (load_unsigned m src (f_data_size f)))
      else if ltype = PB_LTYPE_SVARINT then Some (opt_varint (map_option zigzag (load_signed m src (f_data_size f))))
      else if ltype = PB_LTYPE_FIXED32 then Some (good (load m src 4))
      else if ltype = PB_LTYPE_FIXED64 then Some (good (load m src 8))
      else if ltype = PB_LTYPE_BYTES then Some
        (if src = 0 then good (len_bytes [])
         else if PB_ATYPE (f_type f) = PB_ATYPE_STATIC \<and>
                 PB_BYTES_ARRAY_T_ALLOCSIZE (load_u32 m src) > ucast (f_data_size f) then bad
         else good (len_bytes (load m (src + 4) (unat (load_u32 m src)))))
      else if ltype = PB_LTYPE_STRING then Some
        (if src = 0 then good (len_bytes [])
         else good (len_bytes (load m src (string_length m src
           (if PB_ATYPE (f_type f) = PB_ATYPE_POINTER then 2 ^ 64 - 1 else unat (f_data_size f))))))
      else if ltype = PB_LTYPE_SUBMESSAGE then
        (if f_ptr f = 0 then Some bad else map_option delimited (sub (env_tables E (f_ptr f)) src))
      else if ltype = PB_LTYPE_FIXED_LENGTH_BYTES then Some (good (len_bytes (load m src (unat (f_data_size f)))))
      else None)"

definition spec_wire_type :: "pb_type_t \<Rightarrow> pb_wire_type_t option" where
  "spec_wire_type ltype =
     (if ltype \<le> PB_LTYPE_SVARINT then Some PB_WT_VARINT
      else if ltype = PB_LTYPE_FIXED32 then Some PB_WT_32BIT
      else if ltype = PB_LTYPE_FIXED64 then Some PB_WT_64BIT
      else if ltype \<le> PB_LTYPE_SUBMESSAGE \<or> ltype = PB_LTYPE_FIXED_LENGTH_BYTES then Some PB_WT_STRING
      else None)"

definition spec_tag :: "pb_field \<Rightarrow> encoding" where
  "spec_tag f = (case spec_wire_type (PB_LTYPE (f_type f)) of
     Some wt \<Rightarrow> good (tag_bytes wt (f_tag f)) | None \<Rightarrow> bad)"

definition spec_tagged :: "pb_env \<Rightarrow> mem \<Rightarrow> msg_spec \<Rightarrow> pb_field \<Rightarrow> addr \<Rightarrow> encoding option" where
  "spec_tagged E m sub f src = oconj (Some (spec_tag f)) (spec_value E m sub f src)"

definition spec_array :: "pb_env \<Rightarrow> mem \<Rightarrow> msg_spec \<Rightarrow> pb_field \<Rightarrow> addr \<Rightarrow> u64 \<Rightarrow> encoding option" where
  "spec_array E m sub f data count =
     (let ltype = PB_LTYPE (f_type f); items = item_addrs data (f_data_size f) (unat count) in
      if count = 0 then Some (good [])
      else if PB_ATYPE (f_type f) \<noteq> PB_ATYPE_POINTER \<and> count > ucast (f_array_size f) then Some bad
      else if ltype \<le> PB_LTYPE_LAST_PACKABLE then
        oconj (Some (good (tag_bytes PB_WT_STRING (f_tag f))))
          (map_option delimited (oconcat (map (spec_value E m sub f) items)))
      else oconcat (map (\<lambda>p. spec_tagged E m sub f
             (if PB_ATYPE (f_type f) = PB_ATYPE_POINTER \<and> (ltype = PB_LTYPE_STRING \<or> ltype = PB_LTYPE_BYTES)
              then load_ptr m p else p)) items))"

text \<open>The presence of an optional field that has no \<open>has_\<close> flag is that its value is not the default.\<close>

definition spec_present :: "pb_env \<Rightarrow> nat \<Rightarrow> mem \<Rightarrow> pb_field \<Rightarrow> addr \<Rightarrow> bool option" where
  "spec_present E n m f data =
     (if f_size_offset f \<noteq> 0 then Some (load_bool m (data + scast (f_size_offset f)))
      else case pb_check_proto3_default_value n E m f data of
        Ret b \<Rightarrow> Some (if PB_ATYPE (f_type f) = PB_ATYPE_POINTER then load_ptr m data \<noteq> 0 else \<not> b)
      | _ \<Rightarrow> None)"

definition spec_basic_field :: "pb_env \<Rightarrow> nat \<Rightarrow> mem \<Rightarrow> msg_spec \<Rightarrow> pb_field \<Rightarrow> addr \<Rightarrow> encoding option" where
  "spec_basic_field E n m sub f data =
     (let htype = PB_HTYPE (f_type f);
          src = (if PB_ATYPE (f_type f) = PB_ATYPE_POINTER then load_ptr m data else data);
          count = load_u32 m (data + scast (f_size_offset f)) in
      if PB_LTYPE (f_type f) \<ge> PB_LTYPES_COUNT then None
      else if htype = PB_HTYPE_REQUIRED then (if src = 0 then Some bad else spec_tagged E m sub f src)
      else if htype = PB_HTYPE_OPTIONAL then
        (case spec_present E n m f data of
           None \<Rightarrow> None
         | Some b \<Rightarrow> if b then spec_tagged E m sub f src else Some (good []))
      else if f_size_offset f = 0 then None
      else if htype = PB_HTYPE_REPEATED then spec_array E m sub f src (ucast count)
      else if htype = PB_HTYPE_ONEOF then
        (if count = f_tag f then spec_tagged E m sub f src else Some (good []))
      else Some bad)"

definition spec_field :: "pb_env \<Rightarrow> nat \<Rightarrow> mem \<Rightarrow> msg_spec \<Rightarrow> pb_field \<Rightarrow> addr \<Rightarrow> encoding option" where
  "spec_field E n m sub f data =
     (let atype = PB_ATYPE (f_type f) in
      if atype = PB_ATYPE_STATIC \<or> atype = PB_ATYPE_POINTER then spec_basic_field E n m sub f data
      else if atype = PB_ATYPE_CALLBACK then (if cb_funcs m data \<noteq> 0 then None else Some (good []))
      else Some bad)"

fun spec_extensions :: "nat \<Rightarrow> pb_env \<Rightarrow> nat \<Rightarrow> mem \<Rightarrow> msg_spec \<Rightarrow> addr \<Rightarrow> encoding option" where
  "spec_extensions 0 E n m sub ext = None"
| "spec_extensions (Suc k) E n m sub ext =
     (let t = env_ext_types E (ext_type_ptr m ext) in
      if ext = 0 then Some (good [])
      else if ext_encode t \<noteq> None then None
      else oconj
        (spec_field E n m sub (ext_arg t)
          (if PB_ATYPE (f_type (ext_arg t)) = PB_ATYPE_POINTER then ext + 8 else ext_dest m ext))
        (spec_extensions k E n m sub (ext_next m ext)))"

definition spec_one :: "pb_env \<Rightarrow> nat \<Rightarrow> mem \<Rightarrow> msg_spec \<Rightarrow> pb_field \<Rightarrow> addr \<Rightarrow> encoding option" where
  "spec_one E n m sub f data =
     (if PB_LTYPE (f_type f) = PB_LTYPE_EXTENSION then spec_extensions n E n m sub (load_ptr m data)
      else spec_field E n m sub f data)"

primrec spec_message :: "nat \<Rightarrow> pb_env \<Rightarrow> mem \<Rightarrow> msg_spec" where
  "spec_message 0 E m = (\<lambda>flds src. None)"
| "spec_message (Suc n) E m = (\<lambda>flds src.
     if \<not> tags_ok flds then None
     else oconcat (map (\<lambda>i. spec_one E n m (spec_message n E m) (flds ! i) (pData (iter_at flds src i)))
            [0..<length flds]))"

section \<open>The encoders follow it\<close>

lemma le_bytes_load4: "pb_encode_fixed32 E s (le_word (load m src 4)) = pb_write E s (load m src 4)"
  by (simp add: pb_encode_fixed32_writes le_bytes_le_word)

lemma le_bytes_load8: "pb_encode_fixed64 E s (le_word (load m src 8)) = pb_write E s (load m src 8)"
  by (simp add: pb_encode_fixed64_writes le_bytes_le_word)

lemma encodes_opt_varint:
  "encodes (\<lambda>s. case v of Some w \<Rightarrow> pb_encode_varint E s w | None \<Rightarrow> os_return_error s msg) (opt_varint v)"
  by (cases v) (auto simp: opt_varint_def)

lemma pb_enc_varint_opt:
  "pb_enc_varint E m s f src = (case load_signed m src (f_data_size f) of
     Some w \<Rightarrow> pb_encode_varint E s w | None \<Rightarrow> os_return_error s ''invalid data_size'')"
  by (simp add: pb_enc_varint_def load_signed_def)

lemma pb_enc_svarint_opt:
  "pb_enc_svarint E m s f src = (case map_option zigzag (load_signed m src (f_data_size f)) of
     Some w \<Rightarrow> pb_encode_varint E s w | None \<Rightarrow> os_return_error s ''invalid data_size'')"
  by (simp add: pb_enc_svarint_def load_signed_def pb_encode_svarint_def zigzag_def Let_def)

lemma ucast_le_word: "length bs * 8 \<le> LENGTH('b) \<Longrightarrow> LENGTH('b::len) \<le> LENGTH('a::len) \<Longrightarrow>
    (ucast (le_word bs :: 'b word) :: 'a word) = le_word bs"
  by (rule bit_word_eqI) (auto simp: bit_ucast_iff bit_le_word)

lemma pb_enc_uvarint_opt:
  "pb_enc_uvarint E m s f src = (case load_unsigned m src (f_data_size f) of
     Some w \<Rightarrow> pb_encode_varint E s w | None \<Rightarrow> os_return_error s ''invalid data_size'')"
  by (auto simp: pb_enc_uvarint_def load_unsigned_def ucast_le_word)

lemma follows_value [follows_rules]:
  assumes sub: "\<And>flds src. follows (\<lambda>s. rec s flds src) (sub flds src)"
  shows "follows (\<lambda>s. PB_ENCODERS E m rec (PB_LTYPE (f_type f)) s f src) (spec_value E m sub f src)"
proof -
  have submsg: "follows (\<lambda>s. pb_encode_submessage E rec s flds q) (map_option delimited (sub flds q))" for flds q
    using sub [of flds q] by (cases "sub flds q") (simp_all add: follows_def encodes_submessage)
  show ?thesis
    unfolding PB_ENCODERS_def spec_value_def Let_def
    by (intro follows_if follows_None)
      (auto simp: pb_enc_varint_opt pb_enc_uvarint_opt pb_enc_svarint_opt pb_enc_fixed32_def pb_enc_fixed64_def
        pb_enc_bytes_def pb_enc_string_def pb_enc_submessage_def pb_enc_fixed_length_bytes_def
        le_bytes_load4 le_bytes_load8 Let_def simp del: case_map_option
        intro!: follows_Some encodes_opt_varint submsg)
qed

lemma encodes_tag_for_field [intro]: "encodes (\<lambda>s. pb_encode_tag_for_field E s f) (spec_tag f)"
proof -
  define l where "l = PB_LTYPE (f_type f)"
  have "l \<le> PB_LTYPE_SVARINT \<longleftrightarrow> l = PB_LTYPE_VARINT \<or> l = PB_LTYPE_UVARINT \<or> l = PB_LTYPE_SVARINT"
    by (auto simp: word_le_nat_alt word_unat_eq_iff)
  moreover have "l \<le> PB_LTYPE_SUBMESSAGE \<longleftrightarrow> l = PB_LTYPE_VARINT \<or> l = PB_LTYPE_UVARINT \<or> l = PB_LTYPE_SVARINT
      \<or> l = PB_LTYPE_FIXED32 \<or> l = PB_LTYPE_FIXED64 \<or> l = PB_LTYPE_BYTES \<or> l = PB_LTYPE_STRING
      \<or> l = PB_LTYPE_SUBMESSAGE"
    by (auto simp: word_le_nat_alt word_unat_eq_iff)
  ultimately show ?thesis
    unfolding pb_encode_tag_for_field_def spec_tag_def spec_wire_type_def Let_def l_def [symmetric]
    by (auto intro: encodes_tag)
qed

lemma follows_tagged [follows_rules]:
  assumes "follows (\<lambda>s. PB_ENCODERS E m rec (PB_LTYPE (f_type f)) s f src) (spec_value E m sub f src)"
  shows "follows (\<lambda>s. check_do (pb_encode_tag_for_field E s f) (\<lambda>_ s. PB_ENCODERS E m rec (PB_LTYPE (f_type f)) s f src))
    (spec_tagged E m sub f src)"
  unfolding spec_tagged_def by (intro follows_bind follows_Some encodes_tag_for_field assms)

lemma econcat_fixed:
  "(\<And>q. q \<in> set qs \<Longrightarrow> length (r q) = k) \<Longrightarrow>
     \<exists>bs. oconcat (map (\<lambda>q. Some (good (r q))) qs) = Some (bs, True) \<and> length bs = k * length qs"
proof (induction qs)
  case Nil
  then show ?case by (simp add: good_def)
next
  case (Cons q qs)
  then obtain bs where "oconcat (map (\<lambda>q. Some (good (r q))) qs) = Some (bs, True)" "length bs = k * length qs"
    by auto
  with Cons.prems show ?case by (simp add: oconj_def good_def)
qed

text \<open>The size of a packed array, computed or measured, is the length of its items.\<close>

definition packed_sizing ::
  "(pb_ostream \<Rightarrow> addr \<Rightarrow> (unit option \<times> pb_ostream) run) \<Rightarrow> pb_type_t \<Rightarrow> u32 \<Rightarrow> u64 \<Rightarrow> addr \<Rightarrow> (unit option \<times> pb_ostream) run" where
  "packed_sizing body ltype dsize count data =
     (if ltype = PB_LTYPE_FIXED32 then Ret (Some (), PB_OSTREAM_SIZING\<lparr>bytes_written := 4 * count\<rparr>)
      else if ltype = PB_LTYPE_FIXED64 then Ret (Some (), PB_OSTREAM_SIZING\<lparr>bytes_written := 8 * count\<rparr>)
      else items_loop body dsize (unat count) data PB_OSTREAM_SIZING)"

lemma of_nat_mult_unat: "(of_nat (k * unat (c::u64)) :: u64) = of_nat k * c"
  by simp

lemma packed_sizing_length:
  assumes items: "encodes (items_loop body dsize (unat count) data) (bs, b)" "length bs < 2 ^ 63"
    and fixed: "ltype = PB_LTYPE_FIXED32 \<Longrightarrow> b \<and> length bs = 4 * unat count"
      "ltype = PB_LTYPE_FIXED64 \<Longrightarrow> b \<and> length bs = 8 * unat count"
  shows "if b then \<exists>t. packed_sizing body ltype dsize count data = ok () t \<and> bytes_written t = of_nat (length bs)
    else \<exists>t. packed_sizing body ltype dsize count data = fail t"
  using encodes_sizing [OF items] fixed
  by (auto simp: packed_sizing_def ok_def PB_OSTREAM_SIZING_def)

lemma spec_value_fixed:
  assumes "PB_LTYPE (f_type f) = PB_LTYPE_FIXED32 \<and> k = 4 \<or> PB_LTYPE (f_type f) = PB_LTYPE_FIXED64 \<and> k = 8"
  shows "spec_value E m sub f = (\<lambda>src. Some (good (load m src k)))"
  using assms by (auto simp: spec_value_def fun_eq_iff)

lemma follows_packed:
  assumes val: "\<And>src. follows (\<lambda>s. func s f src) (spec_value E m sub f src)"
  shows "follows (\<lambda>s. rbind (packed_sizing (\<lambda>s p. func s f p) (PB_LTYPE (f_type f)) (f_data_size f) count data)
      (\<lambda>(r, sizestream). case r of None \<Rightarrow> fail s | Some _ \<Rightarrow>
         let sz = bytes_written sizestream in check_do (pb_encode_varint E s sz) (\<lambda>_ s.
           if os_callback s = Null_Write then pb_write_null s sz
           else items_loop (\<lambda>s p. func s f p) (f_data_size f) (unat count) data s)))
    (map_option delimited (oconcat (map (spec_value E m sub f) (item_addrs data (f_data_size f) (unat count)))))"
proof (cases "oconcat (map (spec_value E m sub f) (item_addrs data (f_data_size f) (unat count)))")
  case None
  then show ?thesis by (simp add: follows_None)
next
  case (Some e)
  obtain bs b where e: "e = (bs, b)" by (cases e)
  have "follows (items_loop (\<lambda>s p. func s f p) (f_data_size f) (unat count) data) (Some (bs, b))"
    using follows_items [of data "f_data_size f" "unat count" "\<lambda>s p. func s f p" "spec_value E m sub f"] val
    by (simp add: Some e)
  then have items: "encodes (items_loop (\<lambda>s p. func s f p) (f_data_size f) (unat count) data) (bs, b)"
    by (rule follows_SomeD)
  have fixed: "b \<and> length bs = k * unat count"
    if "PB_LTYPE (f_type f) = PB_LTYPE_FIXED32 \<and> k = 4 \<or> PB_LTYPE (f_type f) = PB_LTYPE_FIXED64 \<and> k = 8" for k
    using econcat_fixed [of "item_addrs data (f_data_size f) (unat count)" "\<lambda>q. load m q k" k]
    by (auto simp: Some [unfolded spec_value_fixed [OF that]] e)
  note size = packed_sizing_length [OF items, of "PB_LTYPE (f_type f)"]
  have null: "encodes (\<lambda>s. if os_callback s = Null_Write then pb_write_null s (of_nat (length bs))
      else items_loop (\<lambda>s p. func s f p) (f_data_size f) (unat count) data s) (good bs)" if b
    unfolding good_def
  proof (rule encodesI)
    fix s assume len: "length bs < 2 ^ 63" and s: "fresh s"
    from encodesD [OF items len s] that
    show "if True \<and> fits s (length bs) then (if os_callback s = Null_Write then pb_write_null s (of_nat (length bs))
        else items_loop (\<lambda>s p. func s f p) (f_data_size f) (unat count) data s) = ok () (emit s bs)
      else \<exists>t. (if os_callback s = Null_Write then pb_write_null s (of_nat (length bs))
        else items_loop (\<lambda>s p. func s f p) (f_data_size f) (unat count) data s) = fail t \<and> oframe s t \<and>
        (True \<longrightarrow> os_errmsg t = Some ''stream full'')"
      by (auto simp: write_null_emit fits_def split: if_splits)
  qed
  show ?thesis
    unfolding Some e option.map
  proof (intro follows_Some encodes_delimited)
    show "\<exists>t. packed_sizing (\<lambda>s p. func s f p) (PB_LTYPE (f_type f)) (f_data_size f) count data = ok () t \<and>
        bytes_written t = of_nat (length bs)" if b "length bs < 2 ^ 63"
      using size [OF that(2)] fixed that(1) by auto
    show "\<exists>t. packed_sizing (\<lambda>s p. func s f p) (PB_LTYPE (f_type f)) (f_data_size f) count data = fail t"
      if "\<not> b" "length bs < 2 ^ 63"
      using size [OF that(2)] fixed that(1) by auto
  qed (simp_all add: null)
qed

lemma follows_array:
  assumes sub: "\<And>flds src. follows (\<lambda>s. rec s flds src) (sub flds src)"
  shows "follows (\<lambda>s. encode_array E m rec s f data count) (spec_array E m sub f data count)"
proof -
  let ?func = "PB_ENCODERS E m rec (PB_LTYPE (f_type f))"
  note val = follows_value [OF sub]
  have packed: "follows (\<lambda>s. check_do (pb_encode_tag E s PB_WT_STRING (f_tag f)) (\<lambda>_ s.
      rbind (packed_sizing (\<lambda>s p. ?func s f p) (PB_LTYPE (f_type f)) (f_data_size f) count data)
      (\<lambda>(r, sizestream). case r of None \<Rightarrow> fail s | Some _ \<Rightarrow>
         let sz = bytes_written sizestream in check_do (pb_encode_varint E s sz) (\<lambda>_ s.
           if os_callback s = Null_Write then pb_write_null s sz
           else items_loop (\<lambda>s p. ?func s f p) (f_data_size f) (unat count) data s))))
    (oconj (Some (good (tag_bytes PB_WT_STRING (f_tag f)))) (map_option delimited
       (oconcat (map (spec_value E m sub f) (item_addrs data (f_data_size f) (unat count))))))"
    by (intro follows_bind follows_Some encodes_tag follows_packed val)
  have unpacked: "follows (items_loop (\<lambda>s p. check_do (pb_encode_tag_for_field E s f) (\<lambda>_ s.
        if c then ?func s f (load_ptr m p) else ?func s f p)) (f_data_size f) (unat count) data)
      (oconcat (map (\<lambda>p. spec_tagged E m sub f (if c then load_ptr m p else p))
        (item_addrs data (f_data_size f) (unat count))))" for c
    by (cases c) (auto intro!: follows_items follows_tagged val)
  show ?thesis
    unfolding encode_array_def spec_array_def Let_def
    by (intro follows_if follows_Some encodes_ok encodes_error packed [unfolded packed_sizing_def Let_def] unpacked)
qed

lemma PB_HTYPE_cases:
  "PB_HTYPE t = PB_HTYPE_REQUIRED \<or> PB_HTYPE t = PB_HTYPE_OPTIONAL \<or> PB_HTYPE t = PB_HTYPE_REPEATED \<or>
   PB_HTYPE t = PB_HTYPE_ONEOF"
proof -
  have eq: "PB_HTYPE t = (if bit t 4 then 0x10 else 0) OR (if bit t 5 then 0x20 else 0)"
  proof (rule bit_word_eqI)
    fix i :: nat assume "i < LENGTH(8)"
    then have "i \<in> {0, 1, 2, 3, 4, 5, 6, 7}" by auto
    then show "bit (PB_HTYPE t) i = bit ((if bit t 4 then 0x10 else 0) OR (if bit t 5 then 0x20 else 0) :: byte) i"
      by (auto simp: PB_HTYPE_def bit_simps)
  qed
  show ?thesis unfolding eq by (cases "bit t 4"; cases "bit t 5") simp_all
qed

lemma follows_basic_field:
  assumes sub: "\<And>flds src. follows (\<lambda>s. rec s flds src) (sub flds src)"
  shows "follows (\<lambda>s. encode_basic_field E n m rec s f data) (spec_basic_field E n m sub f data)"
proof -
  let ?p = "data + scast (f_size_offset f)"
  let ?src = "if PB_ATYPE (f_type f) = PB_ATYPE_POINTER then load_ptr m data else data"
  note rules = follows_if follows_Some encodes_ok encodes_error follows_None
    follows_tagged [OF follows_value [OF sub]] follows_array [OF sub]
  consider (bad) "PB_LTYPE (f_type f) \<ge> PB_LTYPES_COUNT"
    | (req) "\<not> PB_LTYPE (f_type f) \<ge> PB_LTYPES_COUNT" "PB_HTYPE (f_type f) = PB_HTYPE_REQUIRED"
    | (opt) "\<not> PB_LTYPE (f_type f) \<ge> PB_LTYPES_COUNT" "PB_HTYPE (f_type f) = PB_HTYPE_OPTIONAL"
    | (rep) "\<not> PB_LTYPE (f_type f) \<ge> PB_LTYPES_COUNT" "PB_HTYPE (f_type f) = PB_HTYPE_REPEATED"
    | (oneof) "\<not> PB_LTYPE (f_type f) \<ge> PB_LTYPES_COUNT" "PB_HTYPE (f_type f) = PB_HTYPE_ONEOF"
    using PB_HTYPE_cases [of "f_type f"] by blast
  then show ?thesis
  proof cases
    case bad
    then show ?thesis by (simp add: spec_basic_field_def follows_None)
  next
    case req
    then have "encode_basic_field E n m rec s f data =
        (if ?src = 0 then os_return_error s ''missing required field''
         else check_do (pb_encode_tag_for_field E s f) (\<lambda>_ s. PB_ENCODERS E m rec (PB_LTYPE (f_type f)) s f ?src))" for s
      by (simp add: encode_basic_field_def Let_def)
    moreover have "spec_basic_field E n m sub f data = (if ?src = 0 then Some bad else spec_tagged E m sub f ?src)"
      using req by (simp add: spec_basic_field_def Let_def)
    ultimately show ?thesis by (simp only:) (intro rules)
  next
    case opt
    show ?thesis
    proof (cases "spec_present E n m f data")
      case None
      with opt show ?thesis by (simp add: spec_basic_field_def follows_None)
    next
      case (Some b)
      then have "encode_basic_field E n m rec s f data =
          (if b then check_do (pb_encode_tag_for_field E s f) (\<lambda>_ s. PB_ENCODERS E m rec (PB_LTYPE (f_type f)) s f ?src)
           else ok () s)" for s
        using opt by (auto simp: encode_basic_field_def spec_present_def read_has_def Let_def
            split: run.splits if_splits)
      moreover have "spec_basic_field E n m sub f data = (if b then spec_tagged E m sub f ?src else Some (good []))"
        using opt Some by (simp add: spec_basic_field_def Let_def)
      ultimately show ?thesis by (simp only:) (intro rules)
    qed
  next
    case rep
    then have "encode_basic_field E n m rec s f data = encode_array E m rec s f ?src (ucast (load_u32 m ?p))"
      if "f_size_offset f \<noteq> 0" for s
      using that by (simp add: encode_basic_field_def read_count_def Let_def)
    moreover have "spec_basic_field E n m sub f data =
        (if f_size_offset f = 0 then None else spec_array E m sub f ?src (ucast (load_u32 m ?p)))"
      using rep by (simp add: spec_basic_field_def Let_def)
    ultimately show ?thesis
      by (cases "f_size_offset f = 0") (simp_all add: follows_None follows_array [OF sub])
  next
    case oneof
    then have "encode_basic_field E n m rec s f data =
        (if load_u32 m ?p = f_tag f
         then check_do (pb_encode_tag_for_field E s f) (\<lambda>_ s. PB_ENCODERS E m rec (PB_LTYPE (f_type f)) s f ?src)
         else ok () s)"
      if "f_size_offset f \<noteq> 0" for s
      using that by (simp add: encode_basic_field_def read_count_def Let_def)
    moreover have "spec_basic_field E n m sub f data =
        (if f_size_offset f = 0 then None
         else if load_u32 m ?p = f_tag f then spec_tagged E m sub f ?src else Some (good []))"
      using oneof by (simp add: spec_basic_field_def Let_def)
    ultimately show ?thesis
      by (cases "f_size_offset f = 0") (simp_all add: rules)
  qed
qed

lemma follows_field:
  assumes sub: "\<And>flds src. follows (\<lambda>s. rec s flds src) (sub flds src)"
  shows "follows (\<lambda>s. encode_field E n m rec s f data) (spec_field E n m sub f data)"
proof -
  have cb: "follows (\<lambda>s. encode_callback_field E m s f data) (if cb_funcs m data \<noteq> 0 then None else Some (good []))"
    by (simp add: encode_callback_field_def follows_None follows_Some encodes_ok)
  show ?thesis
    unfolding encode_field_def spec_field_def Let_def
    by (intro follows_if follows_basic_field sub cb follows_Some encodes_error)
qed

lemma follows_extensions:
  assumes sub: "\<And>flds src. follows (\<lambda>s. rec s flds src) (sub flds src)"
  shows "follows (\<lambda>s. encode_extension_field k E n m rec s ext) (spec_extensions k E n m sub ext)"
proof (induction k arbitrary: ext)
  case 0
  then show ?case by (simp add: follows_None)
next
  case (Suc k)
  let ?t = "env_ext_types E (ext_type_ptr m ext)"
  have default: "follows (\<lambda>s. default_extension_encoder E n m rec s ext)
      (spec_field E n m sub (ext_arg ?t)
        (if PB_ATYPE (f_type (ext_arg ?t)) = PB_ATYPE_POINTER then ext + 8 else ext_dest m ext))"
    unfolding default_extension_encoder_def Let_def by (simp add: follows_field [OF sub])
  show ?case
  proof (cases "ext_encode ?t")
    case None
    have "follows (\<lambda>s. if ext = 0 then ok () s else check_do (default_extension_encoder E n m rec s ext)
        (\<lambda>_ s. encode_extension_field k E n m rec s (ext_next m ext)))
      (if ext = 0 then Some (good []) else oconj (spec_field E n m sub (ext_arg ?t)
        (if PB_ATYPE (f_type (ext_arg ?t)) = PB_ATYPE_POINTER then ext + 8 else ext_dest m ext))
        (spec_extensions k E n m sub (ext_next m ext)))"
      by (intro follows_if follows_Some encodes_ok follows_bind default Suc.IH)
    with None show ?thesis by (cases "ext = 0") (simp_all add: Let_def split del: if_split)
  next
    case (Some h)
    then show ?thesis
      by (cases "ext = 0") (simp_all add: Let_def follows_None follows_Some encodes_ok)
  qed
qed

lemma follows_one:
  assumes sub: "\<And>flds src. follows (\<lambda>s. rec s flds src) (sub flds src)"
  shows "follows (encode_one E n m rec it) (spec_one E n m sub (cur_field it) (pData it))"
  unfolding encode_one_def [abs_def] spec_one_def
  by (intro follows_if follows_extensions follows_field sub)

lemma follows_message:
  "follows (\<lambda>s. pb_encode n E m s flds src) (spec_message n E m flds src)"
proof (induction n arbitrary: flds src)
  case 0
  then show ?case by (simp add: follows_None)
next
  case (Suc n)
  show ?case
  proof (cases "tags_ok flds")
    case False
    then show ?thesis by (simp add: follows_None)
  next
    case tags: True
    show ?thesis
    proof (cases "flds = []")
      case True
      then show ?thesis
        using tags iter_begin_fst [of "[]" src]
        by (simp add: encode_message_def follows_Some encodes_ok)
    next
      case False
      have "follows (run_fields (encode_one E n m (pb_encode n E m)) flds src [0..<length flds])
          (oconcat (map (\<lambda>i. spec_one E n m (spec_message n E m) (flds ! i) (pData (iter_at flds src i))) [0..<length flds]))"
      proof (rule follows_fields)
        fix i assume "i \<in> set [0..<length flds]"
        then have "cur_field (iter_at flds src i) = flds ! i" using tags by (simp add: iter_at_cur)
        then show "follows (encode_one E n m (pb_encode n E m) (iter_at flds src i))
            (spec_one E n m (spec_message n E m) (flds ! i) (pData (iter_at flds src i)))"
          using follows_one [OF Suc.IH, where it = "iter_at flds src i"] by simp
      qed
      moreover have "pb_encode (Suc n) E m s flds src =
          run_fields (encode_one E n m (pb_encode n E m)) flds src [0..<length flds] s" for s
        using tags False fields_loop_at [OF tags, of 0]
        by (simp add: encode_message_def iter_begin_fst iter_begin_snd del: run_fields_fun)
      ultimately show ?thesis using tags by simp
    qed
  qed
qed

section \<open>What a caller sees\<close>

lemma pb_encode_buffer_exact:
  assumes spec: "spec_message n E m flds src = Some (bs, True)" and len: "length bs < 2 ^ 63" and s: "fresh s"
  shows "if fits s (length bs) then pb_encode n E m s flds src = ok () (emit s bs)
    else \<exists>t. pb_encode n E m s flds src = fail t \<and> oframe s t \<and> os_errmsg t = Some ''stream full''"
  using encodesD [OF follows_SomeD [OF follows_message [of n E m flds src, unfolded spec]] len s] by auto

lemma pb_encode_rejects:
  assumes "spec_message n E m flds src = Some (bs, False)" "length bs < 2 ^ 63" "fresh s"
  shows "\<exists>t. pb_encode n E m s flds src = fail t \<and> oframe s t"
  using encodesD [OF follows_SomeD [OF follows_message [of n E m flds src, unfolded assms(1)]] assms(2,3)] by auto

lemma pb_get_encoded_size_spec:
  assumes "spec_message n E m flds src = Some (bs, b)" "length bs < 2 ^ 63"
  shows "pb_get_encoded_size n E m flds src = Ret (if b then Some (of_nat (length bs)) else None)"
  using encodes_sizing [OF follows_SomeD [OF follows_message [of n E m flds src, unfolded assms(1)]] assms(2)]
  by (auto simp: pb_get_encoded_size_def ok_def fail_def PB_OSTREAM_SIZING_def split: if_splits)

lemma pb_encode_delimited_spec:
  "follows (\<lambda>s. pb_encode_delimited n E m s flds src) (map_option delimited (spec_message n E m flds src))"
  using follows_message [of n E m flds src]
  by (cases "spec_message n E m flds src") (simp_all add: pb_encode_delimited_def follows_def encodes_submessage)

section \<open>Encoding into a buffer\<close>

lemma oframe_buffer:
  assumes "oframe (pb_ostream_from_buffer buf sz) t"
  shows "drop (unat sz) (os_buf t) = drop (unat sz) buf \<and> length (os_buf t) = length buf \<and>
    bytes_written t \<le> sz"
  using assms by (auto simp: oframe_def pb_ostream_from_buffer_def room_def ostream_ok_def)

lemma emit_buffer:
  assumes "length bs \<le> length buf"
  shows "os_buf (emit (pb_ostream_from_buffer buf sz) bs) = bs @ drop (length bs) buf"
    and "bytes_written (emit (pb_ostream_from_buffer buf sz) bs) = of_nat (length bs)"
  by (simp_all add: emit_def pb_ostream_from_buffer_def)

definition example_struct :: mem where
  "example_struct = store (\<lambda>_. 0) 0x1000 [0x96, 0, 0, 0]"

lemma example_encoding:
  "spec_message 2 no_callbacks example_struct sub_fields 0x1000 = Some ([0x08, 0x96, 0x01], True)"
  by code_simp

lemma four: "4 = Suc (Suc (Suc (Suc 0)))"
  by simp

text \<open>C2: pb_encode implements the one-pass byte encoding of a message. Into a buffer with room it writes exactly
  those bytes, leaves the rest of the buffer and reports their number; into a smaller one it fails with the
  message "stream full" and no byte beyond the limit changes.\<close>

theorem pb_encode_refines:
  assumes "spec_message n E m fs src = Some (bs, True)" "length bs < 2 ^ 63"
    and "unat sz \<le> length buf" "unat sz < 2 ^ 63"
  shows "if length bs \<le> unat sz
    then \<exists>t. pb_encode n E m (pb_ostream_from_buffer buf sz) fs src = ok () t \<and>
      os_buf t = bs @ drop (length bs) buf \<and> bytes_written t = of_nat (length bs)
    else \<exists>t. pb_encode n E m (pb_ostream_from_buffer buf sz) fs src = fail t \<and>
      os_errmsg t = Some ''stream full'' \<and> length (os_buf t) = length buf \<and>
      drop (unat sz) (os_buf t) = drop (unat sz) buf"
proof -
  let ?s = "pb_ostream_from_buffer buf sz"
  have "fits ?s (length bs) \<longleftrightarrow> length bs \<le> unat sz"
    by (simp add: fits_def room_buffer) (simp add: pb_ostream_from_buffer_def)
  then show ?thesis
    using pb_encode_buffer_exact [OF assms(1,2) fresh_buffer [OF assms(3,4)]] emit_buffer [of bs buf sz]
      oframe_buffer [of buf sz] assms(3) by (auto split: if_splits)
qed

theorem pb_encode_refines_witness:
  "(\<exists>t. pb_encode 2 no_callbacks example_struct (pb_ostream_from_buffer [9, 9, 9, 9] 4) sub_fields 0x1000 = ok () t \<and>
      os_buf t = [0x08, 0x96, 0x01, 9] \<and> bytes_written t = 3) \<and>
   (\<exists>t. pb_encode 2 no_callbacks example_struct (pb_ostream_from_buffer [9, 9, 9, 9] 2) sub_fields 0x1000 = fail t \<and>
      os_errmsg t = Some ''stream full'' \<and> length (os_buf t) = 4 \<and> drop 2 (os_buf t) = [9, 9])"
  using pb_encode_refines [OF example_encoding, of 4 "[9, 9, 9, 9]"]
    pb_encode_refines [OF example_encoding, of 2 "[9, 9, 9, 9]"]
  by (simp flip: four)

text \<open>C3: The size that pb_get_encoded_size reports is the number of bytes of the message, and a buffer of that
  size is enough: pb_encode then succeeds and writes exactly that many bytes. It reports failure exactly when
  the message cannot be encoded.\<close>

theorem encoded_size_suffices:
  assumes "spec_message n E m fs src = Some (bs, b)" "length bs < 2 ^ 63"
  shows "pb_get_encoded_size n E m fs src = Ret (if b then Some (of_nat (length bs)) else None) \<and>
    (b \<longrightarrow> (\<forall>buf. length bs \<le> length buf \<longrightarrow>
       (\<exists>t. pb_encode n E m (pb_ostream_from_buffer buf (of_nat (length bs))) fs src = ok () t \<and>
          bytes_written t = of_nat (length bs))))"
proof -
  have "unat (of_nat (length bs) :: u64) = length bs" by (rule unat_of_nat_small) (use assms(2) in simp)
  then have "\<exists>t. pb_encode n E m (pb_ostream_from_buffer buf (of_nat (length bs))) fs src = ok () t \<and>
      bytes_written t = of_nat (length bs)" if "b" "length bs \<le> length buf" for buf
    using pb_encode_buffer_exact [OF assms(1) [unfolded eqTrueI [OF that(1)]] assms(2)
        fresh_buffer [of "of_nat (length bs)" buf]] that assms(2)
    by (auto simp: fits_def room_buffer intro!: exI [of _ "emit (pb_ostream_from_buffer buf (of_nat (length bs))) bs"])
      (simp_all add: pb_ostream_from_buffer_def)
  with pb_get_encoded_size_spec [OF assms] show ?thesis by blast
qed

theorem encoded_size_suffices_witness:
  "pb_get_encoded_size 2 no_callbacks example_struct sub_fields 0x1000 = Ret (Some 3) \<and>
   (\<exists>t. pb_encode 2 no_callbacks example_struct (pb_ostream_from_buffer [0, 0, 0] 3) sub_fields 0x1000 = ok () t \<and>
      bytes_written t = 3)"
  using encoded_size_suffices [OF example_encoding] spec [of _ "[0, 0, 0 :: byte]"] by auto

end
