(* ===== verification/Pb_Fields.thy ===== *)
theory Pb_Fields
  imports Pb_Encode_Spec Pb_Decode_Safe
begin

text \<open>
  The field coders of \<open>pb_encode.c\<close> and \<open>pb_decode.c\<close> against each other: the C integer in the
  message struct, of 1, 2, 4 or 8 bytes, survives encoding and decoding, and what the decoders of
  strings and byte arrays leave in the struct.
\<close>

section \<open>Sign and zero extension\<close>

lemma bit_scast_up:
  fixes w :: "'a::len word"
  assumes "LENGTH('a) \<le> LENGTH('b::len)"
  shows "bit (scast w :: 'b word) i \<longleftrightarrow> i < LENGTH('b) \<and> bit w (min i (LENGTH('a) - 1))"
  by (simp add: bit_signed_iff) (metis One_nat_def min.commute)

lemma ucast_scast:
  fixes w :: "'a::len word"
  assumes "LENGTH('a) \<le> LENGTH('b::len)"
  shows "ucast (scast w :: 'b word) = w"
  by (rule bit_word_eqI) (use assms in \<open>auto simp: bit_ucast_iff bit_scast_up min_def\<close>)

lemma ucast_ucast_back:
  fixes w :: "'a::len word"
  assumes "LENGTH('a) \<le> LENGTH('b::len)"
  shows "ucast (ucast w :: 'b word) = w"
  by (rule bit_word_eqI) (use assms in \<open>auto simp: bit_ucast_iff\<close>)

lemma scast_via32:
  fixes w :: "'a::len word"
  assumes "LENGTH('a) \<le> 32"
  shows "scast (ucast (scast w :: u64) :: u32) = (scast w :: u64)"
proof (rule bit_word_eqI)
  fix i assume "i < LENGTH(64)"
  moreover have "min 31 (LENGTH('a) - 1) = LENGTH('a) - 1" using assms by simp
  moreover have "i \<le> 31 \<or> min i (LENGTH('a) - 1) = LENGTH('a) - 1" using assms by auto
  ultimately show "bit (scast (ucast (scast w :: u64) :: u32) :: u64) i = bit (scast w :: u64) i"
    using assms by (cases "i \<le> 31") (auto simp: bit_scast_up bit_ucast_iff min_absorb1 min_absorb2 not_le)
qed

lemma le_bytes_scast:
  fixes w :: "'a::len word"
  assumes "8 * k \<le> LENGTH('a)" "LENGTH('a) \<le> LENGTH('b::len)"
  shows "le_bytes k (scast w :: 'b word) = le_bytes k w"
proof (rule nth_equalityI)
  fix i assume "i < length (le_bytes k (scast w :: 'b word))"
  then have i: "i < k" by simp
  show "le_bytes k (scast w :: 'b word) ! i = le_bytes k w ! i"
  proof (rule bit_word_eqI)
    fix j assume "j < LENGTH(8)"
    then have "8 * i + j < LENGTH('a)" using i assms(1) by simp
    then show "bit (le_bytes k (scast w :: 'b word) ! i) j = bit (le_bytes k w ! i) j"
      using i assms(2) by (simp add: le_bytes_def bit_ucast_iff bit_drop_bit_eq bit_scast_up min_def)
  qed
qed simp

lemma le_bytes_ucast:
  fixes w :: "'a::len word"
  assumes "8 * k \<le> LENGTH('a)" "LENGTH('a) \<le> LENGTH('b::len)"
  shows "le_bytes k (ucast w :: 'b word) = le_bytes k w"
proof (rule nth_equalityI)
  fix i assume "i < length (le_bytes k (ucast w :: 'b word))"
  then have i: "i < k" by simp
  show "le_bytes k (ucast w :: 'b word) ! i = le_bytes k w ! i"
  proof (rule bit_word_eqI)
    fix j assume "j < LENGTH(8)"
    then have "8 * i + j < LENGTH('a)" using i assms(1) by simp
    then show "bit (le_bytes k (ucast w :: 'b word) ! i) j = bit (le_bytes k w ! i) j"
      using i assms(2) by (simp add: le_bytes_def bit_ucast_iff bit_drop_bit_eq)
  qed
qed simp

section \<open>Integers\<close>

definition scalar_field :: "pb_field \<Rightarrow> bool" where
  "scalar_field f \<longleftrightarrow>
     (PB_LTYPE (f_type f) \<in> {PB_LTYPE_VARINT, PB_LTYPE_UVARINT, PB_LTYPE_SVARINT} \<and> f_data_size f \<in> {1, 2, 4, 8}) \<or>
     (PB_LTYPE (f_type f) = PB_LTYPE_FIXED32 \<and> f_data_size f = 4) \<or>
     (PB_LTYPE (f_type f) = PB_LTYPE_FIXED64 \<and> f_data_size f = 8)"

lemma load_bytes: "le_bytes k (le_word (load m p k) :: 'a::len word) = load m p k" if "8 * k \<le> LENGTH('a)"
  using that by (simp add: le_bytes_le_word)

lemma dec_varint_stored:
  assumes at: "at_bytes s (varint_bytes v)" and size: "f_data_size f \<in> {1, 2, 4, 8}"
    and v: "load_signed m src (f_data_size f) = Some v"
  shows "pb_dec_varint E s f dest m' =
    ok () (advance s (length (varint_bytes v)), store m' dest (load m src (unat (f_data_size f))))"
proof -
  note dec = decode_varint_bytes [OF at, of E]
  from size consider "f_data_size f = 1" | "f_data_size f = 2" | "f_data_size f = 4" | "f_data_size f = 8" by blast
  then show ?thesis
  proof cases
    case 1
    let ?w = "le_word (load m src 1) :: 8 word"
    have v': "v = scast ?w" using v 1 by (simp add: load_signed_def)
    with 1 show ?thesis
      by (simp add: pb_dec_varint_def on_stream_def dec ok_def Let_def scast_via32 ucast_scast le_bytes_scast
          load_bytes del: One_nat_def)
  next
    case 2
    let ?w = "le_word (load m src 2) :: 16 word"
    have v': "v = scast ?w" using v 2 by (simp add: load_signed_def)
    with 2 show ?thesis
      by (simp add: pb_dec_varint_def on_stream_def dec ok_def Let_def scast_via32 ucast_scast le_bytes_scast load_bytes)
  next
    case 3
    let ?w = "le_word (load m src 4) :: 32 word"
    have v': "v = scast ?w" using v 3 by (simp add: load_signed_def)
    with 3 show ?thesis
      by (simp add: pb_dec_varint_def on_stream_def dec ok_def Let_def scast_via32 ucast_scast le_bytes_scast load_bytes)
  next
    case 4
    then have "v = le_word (load m src 8)" using v by (simp add: load_signed_def)
    with 4 show ?thesis
      by (simp add: pb_dec_varint_def on_stream_def dec ok_def Let_def load_bytes)
  qed
qed

lemma dec_uvarint_stored:
  assumes at: "at_bytes s (varint_bytes v)" and size: "f_data_size f \<in> {1, 2, 4, 8}"
    and v: "load_unsigned m src (f_data_size f) = Some v"
  shows "pb_dec_uvarint E s f dest m' =
    ok () (advance s (length (varint_bytes v)), store m' dest (load m src (unat (f_data_size f))))"
proof -
  note dec = decode_varint_bytes [OF at, of E]
  have v': "v = le_word (load m src (unat (f_data_size f)))" using v size by (auto simp: load_unsigned_def)
  have up: "ucast (le_word (load m src k) :: 'a::len word) = (le_word (load m src k) :: u64)"
    if "k * 8 \<le> LENGTH('a)" "LENGTH('a) \<le> 64" for k
    by (rule ucast_le_word) (use that in simp_all)
  have down: "ucast (le_word (load m src k) :: u64) = (le_word (load m src k) :: 'a::len word)"
    if "k * 8 \<le> LENGTH('a)" "LENGTH('a) \<le> 64" for k
    by (rule bit_word_eqI) (use that in \<open>auto simp: bit_ucast_iff bit_le_word\<close>)
  from size consider "f_data_size f = 1" | "f_data_size f = 2" | "f_data_size f = 4" | "f_data_size f = 8" by blast
  then show ?thesis
  proof cases
    case 1
    with v' show ?thesis
      by (simp add: pb_dec_uvarint_def on_stream_def dec ok_def Let_def load_bytes down up del: One_nat_def)
  next
    case 2
    with v' show ?thesis
      by (simp add: pb_dec_uvarint_def on_stream_def dec ok_def Let_def load_bytes down up)
  next
    case 3
    with v' show ?thesis
      by (simp add: pb_dec_uvarint_def on_stream_def dec ok_def Let_def load_bytes down up)
  next
    case 4
    with v' show ?thesis
      by (simp add: pb_dec_uvarint_def on_stream_def dec ok_def Let_def load_bytes)
  qed
qed

lemma dec_svarint_stored:
  assumes at: "at_bytes s (varint_bytes (zigzag v))" and size: "f_data_size f \<in> {1, 2, 4, 8}"
    and v: "load_signed m src (f_data_size f) = Some v"
  shows "pb_dec_svarint E s f dest m' =
    ok () (advance s (length (varint_bytes (zigzag v))), store m' dest (load m src (unat (f_data_size f))))"
proof -
  note dec = decode_svarint_bytes [OF at, of E, unfolded unzigzag_zigzag]
  from size consider "f_data_size f = 1" | "f_data_size f = 2" | "f_data_size f = 4" | "f_data_size f = 8" by blast
  then show ?thesis
  proof cases
    case 1
    then have "v = scast (le_word (load m src 1) :: 8 word)" using v by (simp add: load_signed_def)
    with 1 show ?thesis
      by (simp add: pb_dec_svarint_def on_stream_def dec ok_def Let_def ucast_scast le_bytes_scast load_bytes del: One_nat_def)
  next
    case 2
    then have "v = scast (le_word (load m src 2) :: 16 word)" using v by (simp add: load_signed_def)
    with 2 show ?thesis
      by (simp add: pb_dec_svarint_def on_stream_def dec ok_def Let_def ucast_scast le_bytes_scast load_bytes)
  next
    case 3
    then have "v = scast (le_word (load m src 4) :: 32 word)" using v by (simp add: load_signed_def)
    with 3 show ?thesis
      by (simp add: pb_dec_svarint_def on_stream_def dec ok_def Let_def ucast_scast le_bytes_scast load_bytes)
  next
    case 4
    then have "v = le_word (load m src 8)" using v by (simp add: load_signed_def)
    with 4 show ?thesis
      by (simp add: pb_dec_svarint_def on_stream_def dec ok_def Let_def load_bytes)
  qed
qed

lemma scalar_stored:
  assumes f: "scalar_field f" and spec: "spec_value E m sub f src = Some (bs, True)" and at: "at_bytes s bs"
  shows "PB_DECODERS E n noinit (PB_LTYPE (f_type f)) s f dest m' =
    ok () (advance s (length bs), store m' dest (load m src (unat (f_data_size f))))"
proof -
  let ?l = "PB_LTYPE (f_type f)"
  from f consider
      (v) "?l = 0" "f_data_size f \<in> {1, 2, 4, 8}" | (u) "?l = 1" "f_data_size f \<in> {1, 2, 4, 8}"
    | (s) "?l = 2" "f_data_size f \<in> {1, 2, 4, 8}" | (f32) "?l = 3" "f_data_size f = 4"
    | (f64) "?l = 4" "f_data_size f = 8"
    by (auto simp: scalar_field_def)
  then show ?thesis
  proof cases
    case v
    then obtain w where "load_signed m src (f_data_size f) = Some w" "bs = varint_bytes w"
      using spec by (auto simp: spec_value_def opt_varint_def good_def bad_def split: option.splits)
    with v at show ?thesis by (simp add: PB_DECODERS_def dec_varint_stored)
  next
    case u
    then obtain w where "load_unsigned m src (f_data_size f) = Some w" "bs = varint_bytes w"
      using spec by (auto simp: spec_value_def opt_varint_def good_def bad_def split: option.splits)
    with u at show ?thesis by (simp add: PB_DECODERS_def dec_uvarint_stored)
  next
    case s
    then obtain w where "load_signed m src (f_data_size f) = Some w" "bs = varint_bytes (zigzag w)"
      using spec by (auto simp: spec_value_def opt_varint_def good_def bad_def split: option.splits)
    with s at show ?thesis by (simp add: PB_DECODERS_def dec_svarint_stored)
  next
    case f32
    then have "bs = load m src 4" using spec by (simp add: spec_value_def good_def)
    with f32 decode_fixed32_bytes [OF at, of E] show ?thesis
      by (simp add: PB_DECODERS_def pb_dec_fixed32_def on_stream_def ok_def load_bytes)
  next
    case f64
    then have "bs = load m src 8" using spec by (simp add: spec_value_def good_def)
    with f64 decode_fixed64_bytes [OF at, of E] show ?thesis
      by (simp add: PB_DECODERS_def pb_dec_fixed64_def on_stream_def ok_def load_bytes)
  qed
qed

lemma scalar_spec:
  assumes "scalar_field f"
  shows "\<exists>bs. spec_value E m sub f src = Some (bs, True) \<and> length bs \<le> 10"
proof -
  have "length (varint_bytes v) \<le> 10" for v using length_varint_bytes [of v] by simp
  with assms show ?thesis
    by (auto simp: scalar_field_def spec_value_def opt_varint_def load_signed_def load_unsigned_def good_def
        split: option.splits)
qed

text \<open>C4: Every integer field, of the varint, unsigned, zigzag and fixed-width types and of each width of the C
  member, survives its encoder and decoder: the bytes of the decoded member are those of the encoded one, and
  the decoder consumes exactly what the encoder wrote.\<close>

theorem scalar_field_roundtrip:
  assumes f: "scalar_field f" and buf: "10 \<le> unat sz" "unat sz \<le> length buf" "unat sz < 2 ^ 63"
  shows "\<exists>t u. PB_ENCODERS E m rec (PB_LTYPE (f_type f)) (pb_ostream_from_buffer buf sz) f src = ok () t \<and>
    PB_DECODERS E n noinit (PB_LTYPE (f_type f)) (ibuf t) f dest m' =
      ok () (u, store m' dest (load m src (unat (f_data_size f)))) \<and> bytes_left u = 0"
proof -
  obtain bs where spec: "spec_value E m (\<lambda>flds src. None) f src = Some (bs, True)" and len: "length bs \<le> 10"
    using scalar_spec [OF f] by blast
  have "follows (\<lambda>s. PB_ENCODERS E m rec (PB_LTYPE (f_type f)) s f src) (Some (bs, True))"
    using follows_value [of rec "\<lambda>flds src. None" E m f src] spec by (simp add: follows_None)
  then have enc: "encodes (\<lambda>s. PB_ENCODERS E m rec (PB_LTYPE (f_type f)) s f src) (good bs)"
    by (simp add: follows_def good_def)
  have "length bs \<le> unat sz" using len buf(1) by simp
  from written [OF enc this buf(2,3)] obtain t where
    "PB_ENCODERS E m rec (PB_LTYPE (f_type f)) (pb_ostream_from_buffer buf sz) f src = ok () t"
    "at_bytes (ibuf t) bs" "bytes_left (advance (ibuf t) (length bs)) = 0" by blast
  with scalar_stored [OF f spec] show ?thesis by blast
qed

theorem scalar_field_roundtrip_witness:
  "\<exists>t u. PB_ENCODERS no_callbacks example_struct (\<lambda>s flds src. fail s) PB_LTYPE_SVARINT
      (pb_ostream_from_buffer (replicate 10 0) 10) (PB_REQUIRED_STATIC 1 0 PB_LTYPE_SVARINT 4 0) 0x1000 = ok () t \<and>
    PB_DECODERS no_callbacks 1 (\<lambda>s flds d m. fail (s, m)) PB_LTYPE_SVARINT (ibuf t)
      (PB_REQUIRED_STATIC 1 0 PB_LTYPE_SVARINT 4 0) 0x2000 (\<lambda>_. 0) =
      ok () (u, store (\<lambda>_. 0) 0x2000 (load example_struct 0x1000 4)) \<and> bytes_left u = 0"
  using scalar_field_roundtrip [of "PB_REQUIRED_STATIC 1 0 PB_LTYPE_SVARINT 4 0" 10 "replicate 10 0" no_callbacks
      example_struct "\<lambda>s flds src. fail s" "0x1000" 1 "\<lambda>s flds d m. fail (s, m)" "0x2000" "\<lambda>_. 0"]
  by (simp add: scalar_field_def PB_REQUIRED_STATIC_def PB_LTYPE_def)

end
