(* ===== verification/Ldb_Slice.thy ===== *)
theory Ldb_Slice
  imports Prelude "HOL-Library.List_Lexorder"
begin

text \<open>
  leveldb, \<open>include/leveldb/slice.h\<close>, \<open>include/leveldb/status.h\<close>, \<open>util/status.cc\<close> and
  \<open>util/comparator.cc\<close>: byte strings and their order, status values, and the bytewise comparator.
  A \<open>Slice\<close>, a \<open>std::string\<close> and a \<open>char*\<close> with its limit are all the list of their bytes: the
  model does not tell a slice from a copy of what it refers to. The locales \<open>key_order\<close> and
  \<open>comparator\<close> are the contract of \<open>leveldb::Comparator\<close>, over the keys that are \<open>valid\<close>;
  the bytewise comparator is shown to keep it.
\<close>

section \<open>Slices\<close>

type_synonym slice = "byte list"

text \<open>\<open>memcmp\<close> of the first \<open>n\<close> bytes: the sign of the first difference of unsigned bytes.\<close>

fun memcmp :: "slice \<Rightarrow> slice \<Rightarrow> nat \<Rightarrow> int" where
  "memcmp (a # as) (b # bs) (Suc n) = (if a < b then - 1 else if b < a then 1 else memcmp as bs n)"
| "memcmp _ _ _ = 0"

definition slice_compare :: "slice \<Rightarrow> slice \<Rightarrow> int" where
  "slice_compare a b =
     (let min_len = (if length a < length b then length a else length b);
          r = memcmp a b min_len
      in if r = 0 then if length a < length b then - 1 else if length a > length b then 1 else r
         else r)"

definition starts_with :: "slice \<Rightarrow> slice \<Rightarrow> bool" where
  "starts_with s x \<longleftrightarrow> length s \<ge> length x \<and> memcmp s x (length x) = 0"

definition slice_eq :: "slice \<Rightarrow> slice \<Rightarrow> bool" where
  "slice_eq x y \<longleftrightarrow> length x = length y \<and> memcmp x y (length x) = 0"

definition remove_prefix :: "nat \<Rightarrow> slice \<Rightarrow> slice" where
  "remove_prefix n s = drop n s"

text \<open>\<open>std::string::resize\<close>: cut, or filled up with zero bytes.\<close>

definition resize :: "nat \<Rightarrow> slice \<Rightarrow> slice" where
  "resize n s = take n s @ replicate (n - length s) 0"

text \<open>The bytes of a C string literal, and a number in decimal as \<open>printf\<close> writes it.\<close>

definition cstr :: "string \<Rightarrow> slice" where
  "cstr s = map of_char s"

fun decimal :: "nat \<Rightarrow> slice" where
  "decimal n = (if n < 10 then [of_nat (48 + n)] else decimal (n div 10) @ [of_nat (48 + n mod 10)])"

declare decimal.simps [simp del]

section \<open>Status values\<close>

text \<open>
  The state of a \<open>Status\<close>: null for OK, otherwise an array of the message length (four bytes), the
  code and the message.
\<close>

type_synonym status = "byte list option"

definition kOk :: byte where "kOk = 0"
definition kNotFound :: byte where "kNotFound = 1"
definition kCorruption :: byte where "kCorruption = 2"
definition kNotSupported :: byte where "kNotSupported = 3"
definition kInvalidArgument :: byte where "kInvalidArgument = 4"
definition kIOError :: byte where "kIOError = 5"

lemmas status_codes = kOk_def kNotFound_def kCorruption_def kNotSupported_def kInvalidArgument_def kIOError_def

definition status_make :: "byte \<Rightarrow> slice \<Rightarrow> slice \<Rightarrow> status" where
  "status_make code msg msg2 =
     (let len1 = of_nat (length msg) :: u32;
          len2 = of_nat (length msg2) :: u32;
          size = len1 + (if len2 \<noteq> 0 then 2 + len2 else 0)
      in Some (le_bytes 4 size @ [code] @ take (unat len1) msg @
           (if len2 \<noteq> 0 then cstr '': '' @ take (unat len2) msg2 else [])))"

definition Status_OK :: status where "Status_OK = None"
definition NotFound :: "slice \<Rightarrow> slice \<Rightarrow> status" where "NotFound = status_make kNotFound"
definition Corruption :: "slice \<Rightarrow> slice \<Rightarrow> status" where "Corruption = status_make kCorruption"
definition NotSupported :: "slice \<Rightarrow> slice \<Rightarrow> status" where "NotSupported = status_make kNotSupported"
definition InvalidArgument :: "slice \<Rightarrow> slice \<Rightarrow> status" where "InvalidArgument = status_make kInvalidArgument"
definition IOError :: "slice \<Rightarrow> slice \<Rightarrow> status" where "IOError = status_make kIOError"

definition status_ok :: "status \<Rightarrow> bool" where
  "status_ok s \<longleftrightarrow> s = None"

lemma Status_OK_ok [simp]: "status_ok Status_OK"
  by (simp add: status_ok_def Status_OK_def)

definition status_code :: "status \<Rightarrow> byte" where
  "status_code s = (case s of None \<Rightarrow> kOk | Some st \<Rightarrow> st ! 4)"

definition IsNotFound :: "status \<Rightarrow> bool" where "IsNotFound s \<longleftrightarrow> status_code s = kNotFound"
definition IsCorruption :: "status \<Rightarrow> bool" where "IsCorruption s \<longleftrightarrow> status_code s = kCorruption"
definition IsIOError :: "status \<Rightarrow> bool" where "IsIOError s \<longleftrightarrow> status_code s = kIOError"

text \<open>\<open>CopyState\<close> copies \<open>size + 5\<close> bytes, with the size from the first four.\<close>

definition CopyState :: "byte list \<Rightarrow> byte list" where
  "CopyState st = take (unat (le_word (take 4 st) :: u32) + 5) st"

definition status_assign :: "status \<Rightarrow> status" where
  "status_assign s = (case s of None \<Rightarrow> None | Some st \<Rightarrow> Some (CopyState st))"

definition status_ToString :: "status \<Rightarrow> slice" where
  "status_ToString s =
     (case s of
        None \<Rightarrow> cstr ''OK''
      | Some st \<Rightarrow>
          let code = status_code s;
              type = (if code = kOk then cstr ''OK''
                      else if code = kNotFound then cstr ''NotFound: ''
                      else if code = kCorruption then cstr ''Corruption: ''
                      else if code = kNotSupported then cstr ''Not implemented: ''
                      else if code = kInvalidArgument then cstr ''Invalid argument: ''
                      else if code = kIOError then cstr ''IO error: ''
                      else cstr ''Unknown code('' @
                        (if code <s 0 then cstr ''-'' @ decimal (nat (- sint code)) else decimal (unat code)) @
                        cstr ''): '');
              len = unat (le_word (take 4 st) :: u32)
          in type @ take len (drop 5 st))"

section \<open>The contract of a comparator\<close>

locale key_order =
  fixes valid :: "'k \<Rightarrow> bool" and compare :: "'k \<Rightarrow> 'k \<Rightarrow> int"
  assumes compare_flip: "valid a \<Longrightarrow> valid b \<Longrightarrow> compare a b < 0 \<longleftrightarrow> 0 < compare b a"
    and compare_trans: "valid a \<Longrightarrow> valid b \<Longrightarrow> valid c \<Longrightarrow> compare a b \<le> 0 \<Longrightarrow> compare b c \<le> 0 \<Longrightarrow> compare a c \<le> 0"
begin

lemma compare_refl: "valid a \<Longrightarrow> compare a a = 0"
  using compare_flip [of a a] by linarith

lemma compare_not_less: "valid a \<Longrightarrow> valid b \<Longrightarrow> \<not> compare a b < 0 \<longleftrightarrow> compare b a \<le> 0"
  using compare_flip [of a b] by linarith

lemma compare_less_le: "valid a \<Longrightarrow> valid b \<Longrightarrow> valid c \<Longrightarrow> compare a b < 0 \<Longrightarrow> compare b c \<le> 0 \<Longrightarrow> compare a c < 0"
  using compare_trans [of b c a] compare_flip [of a b] compare_flip [of a c] by linarith

lemma compare_le_less: "valid a \<Longrightarrow> valid b \<Longrightarrow> valid c \<Longrightarrow> compare a b \<le> 0 \<Longrightarrow> compare b c < 0 \<Longrightarrow> compare a c < 0"
  using compare_trans [of c a b] compare_flip [of b c] compare_flip [of a c] by linarith

lemma compare_less_trans: "valid a \<Longrightarrow> valid b \<Longrightarrow> valid c \<Longrightarrow> compare a b < 0 \<Longrightarrow> compare b c < 0 \<Longrightarrow> compare a c < 0"
  using compare_less_le [of a b c] by simp

lemma compare_eq_less: "valid a \<Longrightarrow> valid b \<Longrightarrow> valid c \<Longrightarrow> compare a b = 0 \<Longrightarrow> compare b c < 0 \<longleftrightarrow> compare a c < 0"
  using compare_le_less [of a b c] compare_le_less [of b a c] compare_flip [of b a] compare_flip [of a b] by auto

end

text \<open>The same for keys that are slices, as every comparator of leveldb has them.\<close>

locale slice_order = key_order valid compare
  for valid :: "slice \<Rightarrow> bool" and compare :: "slice \<Rightarrow> slice \<Rightarrow> int"

locale comparator = slice_order valid compare
  for valid :: "slice \<Rightarrow> bool" and compare :: "slice \<Rightarrow> slice \<Rightarrow> int" +
  fixes separator :: "slice \<Rightarrow> slice \<Rightarrow> slice" and successor :: "slice \<Rightarrow> slice"
  assumes separator_valid: "valid start \<Longrightarrow> valid limit \<Longrightarrow> valid (separator start limit)"
    and separator_between: "valid start \<Longrightarrow> valid limit \<Longrightarrow> compare start limit < 0 \<Longrightarrow>
      compare start (separator start limit) \<le> 0 \<and> compare (separator start limit) limit < 0"
    and separator_same: "valid start \<Longrightarrow> valid limit \<Longrightarrow> \<not> compare start limit < 0 \<Longrightarrow> separator start limit = start"
    and successor_valid: "valid key \<Longrightarrow> valid (successor key)"
    and successor_ge: "valid key \<Longrightarrow> compare key (successor key) \<le> 0"

section \<open>The bytewise comparator\<close>

text \<open>The length of the common prefix, and the keys made from it.\<close>

fun common_prefix :: "slice \<Rightarrow> slice \<Rightarrow> nat" where
  "common_prefix (a # as) (b # bs) = (if a = b then Suc (common_prefix as bs) else 0)"
| "common_prefix _ _ = 0"

definition bytewise_separator :: "slice \<Rightarrow> slice \<Rightarrow> slice" where
  "bytewise_separator start limit =
     (let min_length = min (length start) (length limit);
          diff_index = common_prefix start limit
      in if diff_index \<ge> min_length then start
         else let diff_byte = start ! diff_index in
           if diff_byte < 0xFF \<and> unat diff_byte + 1 < unat (limit ! diff_index)
           then resize (diff_index + 1) (start[diff_index := start ! diff_index + 1])
           else start)"

fun bytewise_successor :: "slice \<Rightarrow> slice" where
  "bytewise_successor [] = []"
| "bytewise_successor (byte # bs) = (if byte \<noteq> 0xFF then [byte + 1] else byte # bytewise_successor bs)"

lemma slice_compare_rec [simp]:
  "slice_compare [] [] = 0" "slice_compare [] (b # bs) = - 1" "slice_compare (a # as) [] = 1"
  "slice_compare (a # as) (b # bs) = (if a < b then - 1 else if b < a then 1 else slice_compare as bs)"
  by (simp_all add: slice_compare_def Let_def)

lemma slice_compare_lex: "slice_compare a b = (if a < b then - 1 else if b < a then 1 else 0)"
  by (induction a b rule: list_induct2') auto

lemma memcmp_0: "length b = n \<Longrightarrow> n \<le> length a \<Longrightarrow> memcmp a b n = 0 \<longleftrightarrow> take n a = b"
  by (induction a b n rule: memcmp.induct) (auto simp: not_less_iff_gr_or_eq dest: order_antisym)

lemma slice_eq_iff: "slice_eq x y \<longleftrightarrow> x = y"
  using memcmp_0 [of y "length x" x] by (auto simp: slice_eq_def)

lemma starts_with_iff: "starts_with s x \<longleftrightarrow> (\<exists>t. s = x @ t)"
  using memcmp_0 [of x "length x" s]
  by (auto simp: starts_with_def) (metis append_take_drop_id)

lemma bytewise_separator_rec [simp]:
  "bytewise_separator [] l = []" "bytewise_separator (a # s) [] = a # s"
  "bytewise_separator (a # s) (b # l) =
     (if a = b then a # bytewise_separator s l
      else if a < 0xFF \<and> unat a + 1 < unat b then [a + 1] else a # s)"
  by (simp_all add: bytewise_separator_def Let_def resize_def)

lemma byte_range: "unat (b :: byte) < 256"
proof -
  have "unat b < 2 ^ LENGTH(8)" by (rule unsigned_less)
  then show ?thesis by simp
qed

lemma byte_less_inc: "a < 0xFF \<Longrightarrow> a < a + (1 :: byte)"
  by (simp add: word_less_nat_alt unat_word_ariths)

lemma separator_lex: "s < l \<Longrightarrow> s \<le> bytewise_separator s l \<and> bytewise_separator s l < l"
proof (induction s l rule: list_induct2')
  case (4 a s b l)
  have "a + 1 < b" if "unat a + 1 < unat b"
  proof -
    have "unat (a + 1) = unat a + 1"
      using that byte_range [of b] by (simp add: unat_word_ariths)
    with that show ?thesis by (simp add: word_less_nat_alt)
  qed
  with 4 byte_less_inc [of a] show ?case by (auto simp: less_imp_le)
qed simp_all

lemma separator_lex_same: "\<not> s < l \<Longrightarrow> bytewise_separator s l = s"
  by (induction s l rule: list_induct2') (auto simp: word_less_nat_alt)

lemma successor_lex: "k \<le> bytewise_successor k"
proof (induction k)
  case (Cons b k)
  have "b < b + 1" if "b \<noteq> 0xFF"
  proof -
    have "b \<le> 0xFF" using byte_range [of b] by (simp add: word_le_nat_alt)
    with that show ?thesis by (intro byte_less_inc) simp
  qed
  with Cons show ?case by simp
qed simp

interpretation bytewise: comparator "\<lambda>_. True" slice_compare bytewise_separator bytewise_successor
proof unfold_locales
  fix a b c :: slice
  show "slice_compare a b < 0 \<longleftrightarrow> 0 < slice_compare b a" by (auto simp: slice_compare_lex)
  show "slice_compare a b \<le> 0 \<Longrightarrow> slice_compare b c \<le> 0 \<Longrightarrow> slice_compare a c \<le> 0"
    by (auto simp: slice_compare_lex split: if_splits)
next
  fix s l :: slice
  assume "slice_compare s l < 0"
  then have "s < l" by (simp add: slice_compare_lex split: if_splits)
  from separator_lex [OF this]
  show "slice_compare s (bytewise_separator s l) \<le> 0 \<and> slice_compare (bytewise_separator s l) l < 0"
    by (auto simp: slice_compare_lex)
next
  fix s l :: slice
  assume "\<not> slice_compare s l < 0"
  then show "bytewise_separator s l = s"
    by (intro separator_lex_same) (simp add: slice_compare_lex split: if_splits)
next
  fix k :: slice
  show "slice_compare k (bytewise_successor k) \<le> 0"
    using successor_lex [of k] by (auto simp: slice_compare_lex)
qed simp_all

text \<open>C40: The bytewise comparator orders slices lexicographically by unsigned bytes; when start is below limit,
  FindShortestSeparator yields a key in [start, limit) that is not longer than start, and FindShortSuccessor
  yields a key at or above its argument that is not longer.\<close>

theorem bytewise_comparator_spec:
  "(slice_compare a b < 0 \<longleftrightarrow> a < b) \<and> (slice_compare a b = 0 \<longleftrightarrow> a = b) \<and>
   (if a < b then a \<le> bytewise_separator a b \<and> bytewise_separator a b < b else bytewise_separator a b = a) \<and>
   length (bytewise_separator a b) \<le> length a \<and>
   a \<le> bytewise_successor a \<and> length (bytewise_successor a) \<le> length a"
proof -
  have "length (bytewise_separator a b) \<le> length a"
    by (induction a b rule: list_induct2') auto
  moreover have "length (bytewise_successor a) \<le> length a"
    by (induction a) auto
  ultimately show ?thesis
    using separator_lex [of a b] separator_lex_same [of a b] successor_lex [of a]
    by (auto simp: slice_compare_lex)
qed

section \<open>Messages of statuses\<close>

lemma cstr_length [simp]: "length (cstr s) = length s"
  by (simp add: cstr_def)

lemma status_make_parts:
  assumes "length msg + length msg2 + 2 < 2 ^ 32"
  shows "status_make code msg msg2 =
    Some (le_bytes 4 (of_nat (length (msg @ (if msg2 = [] then [] else cstr '': '' @ msg2))) :: u32) @
      [code] @ msg @ (if msg2 = [] then [] else cstr '': '' @ msg2))"
proof -
  have len: "unat (of_nat (length msg) :: u32) = length msg" "unat (of_nat (length msg2) :: u32) = length msg2"
    using assms by (simp_all add: unat_of_nat_small)
  have "(of_nat (length msg2) :: u32) \<noteq> 0 \<longleftrightarrow> msg2 \<noteq> []"
    using len(2) by (metis length_0_conv unat_eq_0)
  then show ?thesis by (auto simp: status_make_def Let_def len)
qed

text \<open>A status made from a code and two messages has that code and prints its messages, joined by ": " when
  the second is not empty; a copy of it is equal to it.\<close>

lemma status_message:
  assumes "length msg + length msg2 + 2 < 2 ^ 32"
  shows "status_code (status_make code msg msg2) = code \<and>
    status_assign (status_make code msg msg2) = status_make code msg msg2 \<and>
    status_ToString (IOError msg msg2) = cstr ''IO error: '' @ msg @ (if msg2 = [] then [] else cstr '': '' @ msg2) \<and>
    status_ToString (Corruption msg msg2) = cstr ''Corruption: '' @ msg @ (if msg2 = [] then [] else cstr '': '' @ msg2) \<and>
    status_ToString (NotFound msg msg2) = cstr ''NotFound: '' @ msg @ (if msg2 = [] then [] else cstr '': '' @ msg2)"
proof -
  define m where "m = msg @ (if msg2 = [] then [] else cstr '': '' @ msg2)"
  have m: "unat (of_nat (length m) :: u32) = length m"
    using assms by (intro unat_of_nat_small) (simp add: m_def)
  have make: "status_make c msg msg2 = Some (le_bytes 4 (of_nat (length m) :: u32) @ [c] @ m)" for c
    unfolding m_def by (rule status_make_parts [OF assms])
  have word: "le_word (le_bytes 4 (of_nat (length m) :: u32)) = (of_nat (length m) :: u32)"
    by (rule le_word_le_bytes) simp
  have code: "status_code (status_make c msg msg2) = c" for c
    by (simp only: make) (simp add: status_code_def nth_append)
  have copy: "status_assign (status_make c msg msg2) = status_make c msg msg2" for c
    by (simp add: make status_assign_def CopyState_def word m)
  have "status_ToString (status_make c msg msg2) = t @ m"
    if "c = kIOError \<and> t = cstr ''IO error: '' \<or> c = kCorruption \<and> t = cstr ''Corruption: '' \<or>
      c = kNotFound \<and> t = cstr ''NotFound: ''" for c t
    using that code [of c] unfolding make
    by (auto simp: status_ToString_def Let_def word m status_codes)
  with code copy show ?thesis
    by (simp only: IOError_def Corruption_def NotFound_def flip: m_def) simp
qed

theorem status_message_witness:
  "status_ToString (IOError (cstr ''f'') (cstr ''eof'')) = cstr ''IO error: '' @ cstr ''f'' @ cstr '': '' @ cstr ''eof''"
  using status_message [of "cstr ''f''" "cstr ''eof''"] by (simp add: cstr_def)

end
