(* ===== verification/Ldb_Coding.thy ===== *)
theory Ldb_Coding
  imports Ldb_Slice Varint
begin

text \<open>
  leveldb, \<open>util/coding.h\<close> and \<open>util/coding.cc\<close>: fixed-width integers, varints and length-prefixed
  slices. An encoder yields the bytes it writes; a decoder takes the bytes from its pointer to its
  limit and yields the value with the bytes after it, or \<open>None\<close> where the C++ returns null or
  false. The build is little-endian.
\<close>

section \<open>Encoders\<close>

definition EncodeFixed32 :: "u32 \<Rightarrow> slice" where
  "EncodeFixed32 value = le_bytes 4 value"

definition EncodeFixed64 :: "u64 \<Rightarrow> slice" where
  "EncodeFixed64 value = le_bytes 8 value"

definition PutFixed32 :: "slice \<Rightarrow> u32 \<Rightarrow> slice" where
  "PutFixed32 dst value = dst @ EncodeFixed32 value"

definition PutFixed64 :: "slice \<Rightarrow> u64 \<Rightarrow> slice" where
  "PutFixed64 dst value = dst @ EncodeFixed64 value"

definition EncodeVarint32 :: "u32 \<Rightarrow> slice" where
  "EncodeVarint32 v =
     (if v < push_bit 7 1 then [ucast v]
      else if v < push_bit 14 1 then [ucast (v OR 128), ucast (drop_bit 7 v)]
      else if v < push_bit 21 1 then [ucast (v OR 128), ucast (drop_bit 7 v OR 128), ucast (drop_bit 14 v)]
      else if v < push_bit 28 1 then
        [ucast (v OR 128), ucast (drop_bit 7 v OR 128), ucast (drop_bit 14 v OR 128), ucast (drop_bit 21 v)]
      else [ucast (v OR 128), ucast (drop_bit 7 v OR 128), ucast (drop_bit 14 v OR 128),
            ucast (drop_bit 21 v OR 128), ucast (drop_bit 28 v)])"

definition PutVarint32 :: "slice \<Rightarrow> u32 \<Rightarrow> slice" where
  "PutVarint32 dst v = dst @ EncodeVarint32 v"

lemma drop7_less: "128 \<le> (v :: u64) \<Longrightarrow> unat (drop_bit 7 v) < unat v"
  by (simp add: word_le_nat_alt drop_bit_eq_div unat_div)

function EncodeVarint64 :: "u64 \<Rightarrow> slice" where
  "EncodeVarint64 v =
     (if v \<ge> 128 then ucast ((v AND (128 - 1)) OR 128) # EncodeVarint64 (drop_bit 7 v) else [ucast v])"
  by pat_completeness auto
termination
  by (relation "measure unat") (auto dest: drop7_less)

definition PutVarint64 :: "slice \<Rightarrow> u64 \<Rightarrow> slice" where
  "PutVarint64 dst v = dst @ EncodeVarint64 v"

definition PutLengthPrefixedSlice :: "slice \<Rightarrow> slice \<Rightarrow> slice" where
  "PutLengthPrefixedSlice dst value = PutVarint32 dst (of_nat (length value)) @ value"

function varint_length_loop :: "u64 \<Rightarrow> nat \<Rightarrow> nat" where
  "varint_length_loop v len = (if v \<ge> 128 then varint_length_loop (drop_bit 7 v) (len + 1) else len)"
  by pat_completeness auto
termination
  by (relation "measure (\<lambda>(v, len). unat v)") (auto dest: drop7_less)

definition VarintLength :: "u64 \<Rightarrow> nat" where
  "VarintLength v = varint_length_loop v 1"

declare EncodeVarint64.simps [simp del] varint_length_loop.simps [simp del]

section \<open>Decoders\<close>

text \<open>The fixed-width decoders read four and eight bytes without a bound: their callers give as many.\<close>

definition DecodeFixed32 :: "slice \<Rightarrow> u32" where
  "DecodeFixed32 ptr = le_word (take 4 ptr)"

definition DecodeFixed64 :: "slice \<Rightarrow> u64" where
  "DecodeFixed64 ptr = le_word (take 8 ptr)"

fun varint32_ptr_loop :: "nat \<Rightarrow> u32 \<Rightarrow> slice \<Rightarrow> (u32 \<times> slice) option" where
  "varint32_ptr_loop shift result [] = None"
| "varint32_ptr_loop shift result (b # p) =
     (if shift \<le> 28 then
        let byte = ucast b :: u32 in
        if byte AND 128 \<noteq> 0 then varint32_ptr_loop (shift + 7) (result OR push_bit shift (byte AND 127)) p
        else Some (result OR push_bit shift byte, p)
      else None)"

definition GetVarint32PtrFallback :: "slice \<Rightarrow> (u32 \<times> slice) option" where
  "GetVarint32PtrFallback p = varint32_ptr_loop 0 0 p"

definition GetVarint32Ptr :: "slice \<Rightarrow> (u32 \<times> slice) option" where
  "GetVarint32Ptr p =
     (if p \<noteq> [] \<and> (ucast (p ! 0) :: u32) AND 128 = 0 then Some (ucast (p ! 0), drop 1 p)
      else GetVarint32PtrFallback p)"

definition GetVarint32 :: "slice \<Rightarrow> (u32 \<times> slice) option" where
  "GetVarint32 input =
     (case GetVarint32Ptr input of None \<Rightarrow> None | Some (value, q) \<Rightarrow> Some (value, q))"

fun varint64_ptr_loop :: "nat \<Rightarrow> u64 \<Rightarrow> slice \<Rightarrow> (u64 \<times> slice) option" where
  "varint64_ptr_loop shift result [] = None"
| "varint64_ptr_loop shift result (b # p) =
     (if shift \<le> 63 then
        let byte = ucast b :: u64 in
        if byte AND 128 \<noteq> 0 then varint64_ptr_loop (shift + 7) (result OR push_bit shift (byte AND 127)) p
        else Some (result OR push_bit shift byte, p)
      else None)"

definition GetVarint64Ptr :: "slice \<Rightarrow> (u64 \<times> slice) option" where
  "GetVarint64Ptr p = varint64_ptr_loop 0 0 p"

definition GetVarint64 :: "slice \<Rightarrow> (u64 \<times> slice) option" where
  "GetVarint64 input =
     (case GetVarint64Ptr input of None \<Rightarrow> None | Some (value, q) \<Rightarrow> Some (value, q))"

text \<open>The two versions: on a pointer with a limit, and on a slice. Both yield the slice and what follows it.\<close>

definition GetLengthPrefixedSlicePtr :: "slice \<Rightarrow> (slice \<times> slice) option" where
  "GetLengthPrefixedSlicePtr p =
     (case GetVarint32Ptr p of None \<Rightarrow> None
      | Some (len, p) \<Rightarrow>
          if unat len > length p then None else Some (take (unat len) p, drop (unat len) p))"

definition GetLengthPrefixedSlice :: "slice \<Rightarrow> (slice \<times> slice) option" where
  "GetLengthPrefixedSlice input =
     (case GetVarint32 input of None \<Rightarrow> None
      | Some (len, input) \<Rightarrow>
          if length input \<ge> unat len then Some (take (unat len) input, remove_prefix (unat len) input) else None)"

section \<open>The bytes of a varint\<close>

lemma mask7': "(127::'a::len word) = mask 7"
  by (simp add: mask_eq_exp_minus_1)

lemma pow7': "(128::'a::len word) = push_bit 7 1"
  by simp

lemma ge128: "128 \<le> v \<longleftrightarrow> drop_bit 7 (v::u64) \<noteq> 0"
proof -
  have "128 \<le> v \<longleftrightarrow> \<not> v \<le> 0x7F" by (auto simp: word_le_nat_alt)
  then show ?thesis by (simp only: small_iff)
qed

lemma EncodeVarint64_small: "drop_bit 7 v = 0 \<Longrightarrow> EncodeVarint64 v = [ucast v]"
  by (subst EncodeVarint64.simps) (simp add: ge128)

lemma EncodeVarint64_more:
  "drop_bit 7 v \<noteq> 0 \<Longrightarrow> EncodeVarint64 v = ucast ((v AND 0x7F) OR 0x80) # EncodeVarint64 (drop_bit 7 v)"
  by (subst EncodeVarint64.simps) (simp add: ge128)

lemma EncodeVarint64_nonempty [simp]: "EncodeVarint64 v \<noteq> []"
  by (subst EncodeVarint64.simps) simp

lemma varint_length_loop_eq: "varint_length_loop v n = n + length (EncodeVarint64 v) - 1"
proof (induction v n rule: varint_length_loop.induct)
  case (1 v n)
  have "0 < length (EncodeVarint64 (drop_bit 7 v))" by simp
  with 1 show ?case
    by (subst varint_length_loop.simps, subst EncodeVarint64.simps) simp
qed

lemma more_byte: "(ucast (w OR 128 :: u32) :: byte) = ucast ((v AND 0x7F) OR (0x80 :: u64))"
  if "(ucast w :: byte) AND 127 = ucast v AND 127"
proof (rule bit_word_eqI)
  fix i assume "i < LENGTH(8)"
  then have i: "i < 8" by simp
  have eq: "bit ((ucast w :: byte) AND 127) i = bit ((ucast v :: byte) AND 127) i" using that by (simp only:)
  then show "bit (ucast (w OR 128 :: u32) :: byte) i = bit (ucast ((v AND 0x7F) OR (0x80 :: u64)) :: byte) i"
    using i unfolding mask7' pow7' by (cases "i = 7") (auto simp: bit_simps simp del: push_bit_of_1)
qed

lemma ucast_ucast_u32: "(ucast (ucast (v :: u32) :: u64) :: byte) = ucast v"
  by (rule bit_word_eqI) (auto simp: bit_simps)

lemma drop_ucast: "drop_bit n (ucast (v :: u32) :: u64) = ucast (drop_bit n v)"
  by (rule bit_word_eqI) (auto simp: bit_simps dest: bit_imp_le_length)

lemma ucast_zero_iff: "(ucast (v :: u32) :: u64) = 0 \<longleftrightarrow> v = 0"
proof
  have "v = ucast (ucast v :: u64)" by (rule bit_word_eqI) (auto simp: bit_simps)
  then show "(ucast v :: u64) = 0 \<Longrightarrow> v = 0" by simp
qed simp

lemma less_pow_drop: "unat p = 2 ^ n \<Longrightarrow> v < p \<longleftrightarrow> drop_bit n v = 0" for v p :: u32
proof -
  assume p: "unat p = 2 ^ n"
  have "v < p \<longleftrightarrow> unat v div 2 ^ n = 0"
    by (simp only: word_less_nat_alt p) (simp add: div_eq_0_iff)
  also have "unat v div 2 ^ n = unat (drop_bit n v)" by (metis unat_drop_bit_eq drop_bit_eq_div)
  finally show ?thesis by (simp only: unat_eq_0)
qed

lemma varint_limits:
  fixes v :: u32
  shows "v < push_bit 7 1 \<longleftrightarrow> drop_bit 7 v = 0" "v < push_bit 14 1 \<longleftrightarrow> drop_bit 14 v = 0"
    "v < push_bit 21 1 \<longleftrightarrow> drop_bit 21 v = 0" "v < push_bit 28 1 \<longleftrightarrow> drop_bit 28 v = 0"
  by (rule less_pow_drop; simp)+

lemma byte_more: "(ucast (w OR 128 :: u32) :: byte) = ucast ((ucast w AND 0x7F) OR (0x80 :: u64))"
  by (rule more_byte, rule bit_word_eqI) (auto simp: bit_simps)

lemma EncodeVarint32_64: "EncodeVarint32 v = EncodeVarint64 (ucast v)"
proof -
  have more: "EncodeVarint64 (ucast w) = ucast (w OR 128) # EncodeVarint64 (ucast (drop_bit 7 w))"
    if "drop_bit 7 w \<noteq> 0" for w :: u32
    using that by (subst EncodeVarint64_more) (simp_all add: drop_ucast ucast_zero_iff byte_more)
  have last: "EncodeVarint64 (ucast w) = [ucast w]" if "drop_bit 7 w = 0" for w :: u32
    using that by (simp add: EncodeVarint64_small drop_ucast ucast_zero_iff ucast_ucast_u32)
  have top: "drop_bit 35 v = 0" by (rule bit_word_eqI) (auto simp: bit_simps dest: bit_imp_le_length)
  have shorter: "drop_bit m v = 0" if "drop_bit n v = 0" "n \<le> m" for m n
  proof -
    have "drop_bit m v = drop_bit (m - n) (drop_bit n v)" using that(2) by (simp add: drop_bit_drop_bit)
    with that(1) show ?thesis by simp
  qed
  note steps = more [of v] more [of "drop_bit 7 v"] more [of "drop_bit 14 v"] more [of "drop_bit 21 v"]
    last [of v] last [of "drop_bit 7 v"] last [of "drop_bit 14 v"] last [of "drop_bit 21 v"] last [of "drop_bit 28 v"]
  show ?thesis
    using shorter [of 7 14] shorter [of 14 21] shorter [of 21 28] steps top
    unfolding EncodeVarint32_def varint_limits by (auto simp: drop_bit_drop_bit)
qed

section \<open>Decoding what was encoded\<close>

lemma and_128: "(w :: 'a::len word) AND 128 = 0 \<longleftrightarrow> \<not> bit w 7"
  using and_exp_eq_0_iff_not_bit [of w 7] by simp

lemma more_flag: "bit (ucast (ucast ((v AND 0x7F) OR (0x80::u64)) :: byte) :: 'a::len word) 7 \<longleftrightarrow> 7 < LENGTH('a)"
  unfolding mask7 pow7 by (auto simp: bit_simps simp del: push_bit_of_1)

lemma more_payload: "ucast (ucast ((v AND 0x7F) OR 0x80) :: byte) AND 127 = v AND (0x7F::u64)"
  unfolding mask7 mask7' pow7 by (rule bit_word_eqI) (auto simp: bit_simps simp del: push_bit_of_1)

lemma last_flag: "drop_bit 7 v = 0 \<Longrightarrow> \<not> bit (ucast (ucast (v::u64) :: byte) :: 'a::len word) 7"
  by (auto simp: bit_simps dest: small_bit)

lemma last_payload: "drop_bit 7 v = 0 \<Longrightarrow> ucast (ucast (v::u64) :: byte) = v"
  by (rule bit_word_eqI) (auto simp: bit_simps dest: small_bit)

lemma varint64_loop_bytes:
  assumes "shift < 64" "drop_bit (64 - shift) v = 0"
  shows "varint64_ptr_loop shift r (EncodeVarint64 v @ rest) = Some (r OR push_bit shift v, rest)"
  using assms
proof (induction v arbitrary: shift r rule: EncodeVarint64.induct)
  case (1 v)
  show ?case
  proof (cases "drop_bit 7 v = 0")
    case True
    then show ?thesis
      using 1(2) small_bit [OF True, of 7]
      by (auto simp: EncodeVarint64_small and_128 last_flag last_payload Let_def)
  next
    case False
    have pos: "shift + 7 < 64"
    proof (rule ccontr)
      assume "\<not> shift + 7 < 64"
      then have "drop_bit (7 - (64 - shift)) (drop_bit (64 - shift) v) = drop_bit 7 v"
        using 1(2) by (simp only: drop_bit_drop_bit) simp
      with 1(3) False show False by simp
    qed
    have "64 - (shift + 7) + 7 = 64 - shift" using pos by simp
    then have "drop_bit (64 - (shift + 7)) (drop_bit 7 v) = 0" using 1(3) by simp
    from 1(1) [OF _ pos this] False show ?thesis
      using 1(2) by (simp add: EncodeVarint64_more and_128 more_flag more_payload Let_def ge128 or.assoc join_payload del: push_bit_and)
  qed
qed

lemma join_payload_u32:
  "push_bit n (ucast v AND 127) OR push_bit (n + 7) (ucast (drop_bit 7 v)) = push_bit n (ucast (v::u64) :: u32)"
proof (rule bit_word_eqI)
  fix i assume i: "i < LENGTH(32)"
  show "bit (push_bit n (ucast v AND 127) OR push_bit (n + 7) (ucast (drop_bit 7 v)) :: u32) i =
      bit (push_bit n (ucast v :: u32)) i"
  proof (cases "i < n + 7")
    case True
    then show ?thesis using i unfolding mask7' by (auto simp: bit_simps)
  next
    case False
    then have "7 + (i - (n + 7)) = i - n" by simp
    with False i show ?thesis unfolding mask7' by (auto simp: bit_simps)
  qed
qed

lemma more_payload_u32: "ucast (ucast ((v AND 0x7F) OR (0x80::u64)) :: byte) AND 127 = (ucast v :: u32) AND 127"
  unfolding mask7 mask7' pow7 by (rule bit_word_eqI) (auto simp: bit_simps simp del: push_bit_of_1)

lemma last_payload_u32: "drop_bit 7 v = 0 \<Longrightarrow> ucast (ucast (v::u64) :: byte) = (ucast v :: u32)"
  by (rule bit_word_eqI) (auto simp: bit_simps dest: small_bit)

lemma varint32_loop_bytes_ldb:
  assumes "shift \<le> 28" "7 dvd shift" "drop_bit (35 - shift) v = 0"
  shows "varint32_ptr_loop shift r (EncodeVarint64 v @ rest) = Some (r OR push_bit shift (ucast v), rest)"
  using assms
proof (induction v arbitrary: shift r rule: EncodeVarint64.induct)
  case (1 v)
  show ?case
  proof (cases "drop_bit 7 v = 0")
    case True
    then show ?thesis
      using 1(2) small_bit [OF True, of 7]
      by (auto simp: EncodeVarint64_small and_128 last_flag last_payload_u32 Let_def bit_ucast_iff)
  next
    case False
    have pos: "shift + 7 \<le> 28"
    proof (rule ccontr)
      assume "\<not> shift + 7 \<le> 28"
      moreover obtain k where "shift = 7 * k" using 1(3) by auto
      ultimately have "shift = 28" using 1(2) by simp
      with 1(4) False show False by simp
    qed
    have "35 - (shift + 7) + 7 = 35 - shift" using pos by simp
    then have w: "drop_bit (35 - (shift + 7)) (drop_bit 7 v) = 0" using 1(4) by simp
    have "7 dvd shift + 7" using 1(3) by simp
    from 1(1) [OF _ pos this w] False show ?thesis
      using 1(2)
      by (simp add: EncodeVarint64_more and_128 more_flag more_payload_u32 Let_def ge128 or.assoc join_payload_u32 del: push_bit_and)
  qed
qed

lemma GetVarint32Ptr_loop: "GetVarint32Ptr p = varint32_ptr_loop 0 0 p"
  by (cases p) (simp_all add: GetVarint32Ptr_def GetVarint32PtrFallback_def Let_def)

lemma GetVarint32Ptr_bytes [simp]: "GetVarint32Ptr (EncodeVarint32 v @ rest) = Some (v, rest)"
proof -
  have "drop_bit (35 - 0) (ucast v :: u64) = 0"
    by (rule bit_word_eqI) (auto simp: bit_simps dest: bit_imp_le_length)
  moreover have "ucast (ucast v :: u64) = v" by (rule bit_word_eqI) (auto simp: bit_simps)
  ultimately show ?thesis
    using varint32_loop_bytes_ldb [of 0 "ucast v" 0 rest] by (simp add: GetVarint32Ptr_loop EncodeVarint32_64)
qed

lemma GetVarint64Ptr_bytes [simp]: "GetVarint64Ptr (EncodeVarint64 v @ rest) = Some (v, rest)"
proof -
  have "drop_bit (64 - 0) v = 0" by (rule bit_word_eqI) (simp add: bit_simps)
  from varint64_loop_bytes [OF _ this] show ?thesis by (simp add: GetVarint64Ptr_def)
qed

lemma GetVarint32_bytes [simp]: "GetVarint32 (EncodeVarint32 v @ rest) = Some (v, rest)"
  by (simp add: GetVarint32_def)

lemma GetVarint64_bytes [simp]: "GetVarint64 (EncodeVarint64 v @ rest) = Some (v, rest)"
  by (simp add: GetVarint64_def)

lemma DecodeFixed32_bytes [simp]: "DecodeFixed32 (EncodeFixed32 v @ rest) = v"
  by (simp add: DecodeFixed32_def EncodeFixed32_def le_word_le_bytes)

lemma DecodeFixed64_bytes [simp]: "DecodeFixed64 (EncodeFixed64 v @ rest) = v"
  by (simp add: DecodeFixed64_def EncodeFixed64_def le_word_le_bytes)

lemma length_EncodeFixed [simp]: "length (EncodeFixed32 v) = 4" "length (EncodeFixed64 w) = 8"
  by (simp_all add: EncodeFixed32_def EncodeFixed64_def)

lemma length_EncodeVarint32: "1 \<le> length (EncodeVarint32 v) \<and> length (EncodeVarint32 v) \<le> 5"
  by (simp add: EncodeVarint32_def)

text \<open>The bytes of a length-prefixed slice.\<close>

definition prefixed :: "slice \<Rightarrow> slice" where
  "prefixed s = EncodeVarint32 (of_nat (length s)) @ s"

lemma PutLengthPrefixedSlice_append: "PutLengthPrefixedSlice dst s = dst @ prefixed s"
  by (simp add: PutLengthPrefixedSlice_def PutVarint32_def prefixed_def)

lemma GetLengthPrefixedSlice_bytes [simp]:
  "length s < 2 ^ 32 \<Longrightarrow> GetLengthPrefixedSlice (prefixed s @ rest) = Some (s, rest)"
  by (simp add: GetLengthPrefixedSlice_def prefixed_def unat_of_nat_small remove_prefix_def)

lemma GetLengthPrefixedSlicePtr_bytes [simp]:
  "length s < 2 ^ 32 \<Longrightarrow> GetLengthPrefixedSlicePtr (prefixed s @ rest) = Some (s, rest)"
  by (simp add: GetLengthPrefixedSlicePtr_def prefixed_def unat_of_nat_small)

section \<open>What a decoder consumes\<close>

lemma varint32_ptr_loop_consumes:
  "varint32_ptr_loop shift r p = Some (v, q) \<Longrightarrow> shift \<le> 28 \<and> (\<exists>pre. p = pre @ q \<and> pre \<noteq> [] \<and> 7 * length pre + shift \<le> 35)"
proof (induction shift r p rule: varint32_ptr_loop.induct)
  case (2 shift r b p)
  show ?case
  proof (cases "(ucast b :: u32) AND 128 = 0")
    case True
    with 2(2) show ?thesis by (auto simp: Let_def intro!: exI [of _ "[b]"] split: if_splits)
  next
    case False
    then have sh: "shift \<le> 28" using 2(2) by (simp split: if_splits)
    with False 2(2) have "varint32_ptr_loop (shift + 7) (r OR push_bit shift (ucast b AND 127)) p = Some (v, q)"
      by (simp add: Let_def)
    from 2(1) [OF sh refl False this] obtain pre where "p = pre @ q" "7 * length pre + (shift + 7) \<le> 35" by blast
    with sh show ?thesis by (auto intro!: exI [of _ "b # pre"])
  qed
qed simp

lemma varint64_ptr_loop_consumes:
  "varint64_ptr_loop shift r p = Some (v, q) \<Longrightarrow> shift \<le> 63 \<and> (\<exists>pre. p = pre @ q \<and> pre \<noteq> [] \<and> 7 * length pre + shift \<le> 70)"
proof (induction shift r p rule: varint64_ptr_loop.induct)
  case (2 shift r b p)
  show ?case
  proof (cases "(ucast b :: u64) AND 128 = 0")
    case True
    with 2(2) show ?thesis by (auto simp: Let_def intro!: exI [of _ "[b]"] split: if_splits)
  next
    case False
    then have sh: "shift \<le> 63" using 2(2) by (simp split: if_splits)
    with False 2(2) have "varint64_ptr_loop (shift + 7) (r OR push_bit shift (ucast b AND 127)) p = Some (v, q)"
      by (simp add: Let_def)
    from 2(1) [OF sh refl False this] obtain pre where "p = pre @ q" "7 * length pre + (shift + 7) \<le> 70" by blast
    with sh show ?thesis by (auto intro!: exI [of _ "b # pre"])
  qed
qed simp

lemma GetVarint32_consumes:
  "GetVarint32 p = Some (v, q) \<Longrightarrow> \<exists>pre. p = pre @ q \<and> 1 \<le> length pre \<and> length pre \<le> 5"
  by (auto simp: GetVarint32_def GetVarint32Ptr_loop Suc_le_eq
      dest!: varint32_ptr_loop_consumes split: option.splits prod.splits)

section \<open>The properties of the encodings\<close>

text \<open>C39: Whatever follows them, fixed-width integers, varints and slices shorter than 4 GB are read back from
  their encodings, with exactly the bytes that follow left over; VarintLength is the length of the varint.\<close>

theorem coding_roundtrip:
  "DecodeFixed32 (EncodeFixed32 a @ rest) = a \<and> DecodeFixed64 (EncodeFixed64 b @ rest) = b \<and>
   GetVarint32 (EncodeVarint32 a @ rest) = Some (a, rest) \<and> GetVarint64 (EncodeVarint64 b @ rest) = Some (b, rest) \<and>
   VarintLength b = length (EncodeVarint64 b) \<and>
   (length s < 2 ^ 32 \<longrightarrow> GetLengthPrefixedSlice (PutLengthPrefixedSlice [] s @ rest) = Some (s, rest))"
proof -
  have "0 < length (EncodeVarint64 b)" by simp
  then have "VarintLength b = length (EncodeVarint64 b)"
    unfolding VarintLength_def varint_length_loop_eq by linarith
  then show ?thesis by (simp add: PutLengthPrefixedSlice_append)
qed

theorem coding_roundtrip_witness:
  "GetLengthPrefixedSlice (PutLengthPrefixedSlice [] [7, 8] @ [9]) = Some ([7, 8], [9])"
  using coding_roundtrip [of 0 "[9]" 0 "[7, 8]"] by simp

text \<open>The decoders of varints and length-prefixed slices take a prefix of their input, of one to five bytes
  for the varint of a length, and leave the rest; they never read past the end.\<close>

lemma decoders_consume_prefix:
  assumes "GetLengthPrefixedSlice input = Some (result, rest)"
  shows "\<exists>pre len. input = pre @ result @ rest \<and> 1 \<le> length pre \<and> length pre \<le> 5 \<and>
    GetVarint32 input = Some (len, result @ rest) \<and> unat len = length result"
proof -
  obtain len q where q: "GetVarint32 input = Some (len, q)" "unat len \<le> length q"
    "result = take (unat len) q" "rest = drop (unat len) q"
    using assms by (auto simp: GetLengthPrefixedSlice_def remove_prefix_def split: option.splits if_splits)
  from GetVarint32_consumes [OF q(1)] q show ?thesis by auto
qed

theorem decoders_consume_prefix_witness:
  "\<exists>pre len. [2, 7, 8, 9 :: byte] = pre @ [7, 8] @ [9] \<and> 1 \<le> length pre \<and> length pre \<le> 5 \<and>
    GetVarint32 [2, 7, 8, 9 :: byte] = Some (len, [7, 8] @ [9]) \<and> unat len = length [7, 8 :: byte]"
proof (rule decoders_consume_prefix)
  show "GetLengthPrefixedSlice [2, 7, 8, 9] = Some ([7, 8], [9])" by code_simp
qed

text \<open>The unrolled EncodeVarint32 writes the same bytes as the loop of EncodeVarint64, at most five.\<close>

lemma varint32_unrolled:
  "EncodeVarint32 v = EncodeVarint64 (ucast v) \<and> length (EncodeVarint32 v) \<le> 5"
  using length_EncodeVarint32 [of v] by (simp add: EncodeVarint32_64)

end
