(* ===== verification/Ldb_Dbformat.thy ===== *)
theory Ldb_Dbformat
  imports Ldb_Coding
begin

text \<open>
  leveldb, \<open>db/dbformat.h\<close> and \<open>db/dbformat.cc\<close>: internal keys, which are a user key followed by
  eight bytes that pack a sequence number and a value type; the comparator that orders them by user
  key and then by decreasing sequence number; the filter policy on them; and the lookup key. The
  operations that take the user's comparator or filter policy have it as an argument. \<open>ValueType\<close>
  is a byte, because the code casts any byte read from a key to it.
\<close>

section \<open>Internal keys\<close>

type_synonym value_type = byte
type_synonym sequence_number = u64

definition kTypeDeletion :: value_type where [simp]: "kTypeDeletion = 0"
definition kTypeValue :: value_type where [simp]: "kTypeValue = 1"
definition kValueTypeForSeek :: value_type where [simp]: "kValueTypeForSeek = kTypeValue"
definition kMaxSequenceNumber :: sequence_number where "kMaxSequenceNumber = push_bit 56 1 - 1"

record parsed_internal_key =
  pk_user_key :: slice
  pk_sequence :: sequence_number
  pk_type :: value_type

definition InternalKeyEncodingLength :: "parsed_internal_key \<Rightarrow> nat" where
  "InternalKeyEncodingLength key = length (pk_user_key key) + 8"

text \<open>
  The eight bytes behind a user key, and an internal key as bytes. The code makes them with \<open>PackSequenceAndType\<close>,
  whose two assertions fail for a sequence number of more than 56 bits or a type that no entry has.
\<close>

definition packed_tag :: "sequence_number \<Rightarrow> value_type \<Rightarrow> u64" where
  "packed_tag seq t = push_bit 8 seq OR ucast t"

definition PackSequenceAndType :: "sequence_number \<Rightarrow> value_type \<Rightarrow> u64 run" where
  "PackSequenceAndType seq t =
     (if \<not> seq \<le> kMaxSequenceNumber then UB
      else if \<not> t \<le> kValueTypeForSeek then UB
      else Ret (packed_tag seq t))"

definition AppendInternalKey :: "slice \<Rightarrow> parsed_internal_key \<Rightarrow> slice run" where
  "AppendInternalKey result key =
     rbind (PackSequenceAndType (pk_sequence key) (pk_type key)) (\<lambda>tag. Ret (PutFixed64 (result @ pk_user_key key) tag))"

definition ikey_bytes :: "parsed_internal_key \<Rightarrow> slice" where
  "ikey_bytes k = pk_user_key k @ EncodeFixed64 (packed_tag (pk_sequence k) (pk_type k))"

lemma PackSequenceAndType_Ret [simp]:
  "seq \<le> kMaxSequenceNumber \<Longrightarrow> t \<le> kValueTypeForSeek \<Longrightarrow> PackSequenceAndType seq t = Ret (packed_tag seq t)"
  by (simp add: PackSequenceAndType_def)

lemma AppendInternalKey_at:
  "AppendInternalKey dst k =
     (if pk_sequence k \<le> kMaxSequenceNumber \<and> pk_type k \<le> kValueTypeForSeek then Ret (dst @ ikey_bytes k) else UB)"
  by (simp add: AppendInternalKey_def PackSequenceAndType_def ikey_bytes_def PutFixed64_def)

text \<open>These read the last eight bytes: an internal key has at least as many (\<open>8 \<le> length\<close>).\<close>

definition ExtractUserKey :: "slice \<Rightarrow> slice" where
  "ExtractUserKey internal_key = take (length internal_key - 8) internal_key"

definition internal_tag :: "slice \<Rightarrow> u64" where
  "internal_tag internal_key = DecodeFixed64 (drop (length internal_key - 8) internal_key)"

definition ExtractValueType :: "slice \<Rightarrow> value_type" where
  "ExtractValueType internal_key = ucast (internal_tag internal_key AND 0xFF)"

definition ParseInternalKey :: "slice \<Rightarrow> parsed_internal_key option" where
  "ParseInternalKey internal_key =
     (let n = length internal_key in
      if n < 8 then None
      else let num = DecodeFixed64 (drop (n - 8) internal_key);
               c = ucast (num AND 0xFF) :: byte
           in if c \<le> kTypeValue
              then Some \<lparr>pk_user_key = take (n - 8) internal_key, pk_sequence = drop_bit 8 num, pk_type = c\<rparr>
              else None)"

section \<open>The comparator of internal keys\<close>

definition ikey_compare :: "(slice \<Rightarrow> slice \<Rightarrow> int) \<Rightarrow> slice \<Rightarrow> slice \<Rightarrow> int" where
  "ikey_compare cmp akey bkey =
     (let r = cmp (ExtractUserKey akey) (ExtractUserKey bkey) in
      if r = 0 then
        let anum = internal_tag akey; bnum = internal_tag bkey in
        if anum > bnum then - 1 else if anum < bnum then 1 else r
      else r)"

text \<open>The arguments of \<open>PackSequenceAndType\<close> are constants here, for which its assertions hold. The assertions on the result
  of the separator hold whenever the user comparator keeps its contract, as the lemmas on the comparator below show.\<close>

definition ikey_separator ::
  "(slice \<Rightarrow> slice \<Rightarrow> int) \<Rightarrow> (slice \<Rightarrow> slice \<Rightarrow> slice) \<Rightarrow> slice \<Rightarrow> slice \<Rightarrow> slice" where
  "ikey_separator cmp sep start limit =
     (let user_start = ExtractUserKey start;
          user_limit = ExtractUserKey limit;
          tmp = sep user_start user_limit
      in if length tmp < length user_start \<and> cmp user_start tmp < 0
         then PutFixed64 tmp (packed_tag kMaxSequenceNumber kValueTypeForSeek)
         else start)"

definition ikey_successor :: "(slice \<Rightarrow> slice \<Rightarrow> int) \<Rightarrow> (slice \<Rightarrow> slice) \<Rightarrow> slice \<Rightarrow> slice" where
  "ikey_successor cmp succ key =
     (let user_key = ExtractUserKey key;
          tmp = succ user_key
      in if length tmp < length user_key \<and> cmp user_key tmp < 0
         then PutFixed64 tmp (packed_tag kMaxSequenceNumber kValueTypeForSeek)
         else key)"

section \<open>The filter policy of internal keys and lookup keys\<close>

definition ifilter_CreateFilter :: "(slice list \<Rightarrow> slice \<Rightarrow> 'a) \<Rightarrow> slice list \<Rightarrow> slice \<Rightarrow> 'a" where
  "ifilter_CreateFilter create keys dst = create (map ExtractUserKey keys) dst"

definition ifilter_KeyMayMatch :: "(slice \<Rightarrow> slice \<Rightarrow> bool) \<Rightarrow> slice \<Rightarrow> slice \<Rightarrow> bool" where
  "ifilter_KeyMayMatch may_match key f = may_match (ExtractUserKey key) f"

text \<open>
  The buffer of a lookup key from \<open>start_\<close> to \<open>end_\<close>, and the offset of \<open>kstart_\<close> in it.
\<close>

record lookup_key =
  lk_start :: slice
  lk_kstart :: nat

definition LookupKey :: "slice \<Rightarrow> sequence_number \<Rightarrow> lookup_key run" where
  "LookupKey user_key s =
     (let usize = length user_key;
          head = EncodeVarint32 (of_nat (usize + 8))
      in rbind (PackSequenceAndType s kValueTypeForSeek) (\<lambda>tag.
           Ret \<lparr>lk_start = head @ user_key @ EncodeFixed64 tag, lk_kstart = length head\<rparr>))"

definition lookup_key_of :: "slice \<Rightarrow> sequence_number \<Rightarrow> lookup_key" where
  "lookup_key_of user_key s =
     (let head = EncodeVarint32 (of_nat (length user_key + 8))
      in \<lparr>lk_start = head @ user_key @ EncodeFixed64 (packed_tag s kValueTypeForSeek), lk_kstart = length head\<rparr>)"

lemma LookupKey_at: "s \<le> kMaxSequenceNumber \<Longrightarrow> LookupKey u s = Ret (lookup_key_of u s)"
  by (simp add: LookupKey_def lookup_key_of_def Let_def)

definition lk_memtable_key :: "lookup_key \<Rightarrow> slice" where
  "lk_memtable_key k = lk_start k"

definition lk_internal_key :: "lookup_key \<Rightarrow> slice" where
  "lk_internal_key k = drop (lk_kstart k) (lk_start k)"

definition lk_user_key :: "lookup_key \<Rightarrow> slice" where
  "lk_user_key k = take (length (lk_start k) - lk_kstart k - 8) (drop (lk_kstart k) (lk_start k))"

section \<open>Packing\<close>

lemma seq_bit: "seq \<le> kMaxSequenceNumber \<Longrightarrow> bit seq i \<Longrightarrow> i < 56"
proof -
  assume "seq \<le> kMaxSequenceNumber" and bit: "bit seq i"
  then have "unat seq div 2 ^ 56 = 0" by (simp add: kMaxSequenceNumber_def word_le_nat_alt div_eq_0_iff)
  then have zero: "drop_bit 56 seq = 0" by (metis unat_drop_div unat_eq_0)
  show "i < 56"
  proof (rule ccontr)
    assume "\<not> i < 56"
    then have "bit (drop_bit 56 seq) (i - 56)" using bit by (simp add: bit_drop_bit_eq)
    with zero show False by simp
  qed
qed

lemma mask8: "(0xFF::'a::len word) = mask 8"
  by (simp add: mask_eq_exp_minus_1)

lemma packed_type: "ucast (packed_tag seq t AND 0xFF) = t"
  unfolding packed_tag_def mask8 by (rule bit_word_eqI) (auto simp: bit_simps)

lemma packed_sequence:
  assumes "seq \<le> kMaxSequenceNumber"
  shows "drop_bit 8 (packed_tag seq t) = seq"
proof (rule bit_word_eqI)
  fix i assume "i < LENGTH(64)"
  then show "bit (drop_bit 8 (packed_tag seq t)) i = bit seq i"
    using seq_bit [OF assms, of i] bit_imp_le_length [of t "8 + i"]
    by (auto simp: packed_tag_def bit_simps)
qed

lemma packed_value: "seq \<le> kMaxSequenceNumber \<Longrightarrow> unat (packed_tag seq t) = unat seq * 256 + unat t"
proof -
  assume seq: "seq \<le> kMaxSequenceNumber"
  let ?p = "packed_tag seq t"
  have "unat ?p = unat ?p div 256 * 256 + unat ?p mod 256" by simp
  moreover have "unat ?p div 256 = unat (drop_bit 8 ?p)"
    by (simp only: unat_drop_div) simp
  moreover have "unat ?p mod 256 = unat t"
  proof -
    have "unat (ucast (?p AND 0xFF) :: byte) = unat t" by (simp only: packed_type)
    moreover have "unat (ucast (?p AND 0xFF) :: byte) = unat ?p mod 256"
      unfolding mask8
      by (simp only: unsigned_ucast_eq unsigned_take_bit_eq flip: take_bit_eq_mask) (simp add: take_bit_eq_mod)
    ultimately show ?thesis by simp
  qed
  ultimately show ?thesis by (simp only: packed_sequence [OF seq])
qed

lemma user_key_append [simp]: "ExtractUserKey (u @ EncodeFixed64 w) = u"
  by (simp add: ExtractUserKey_def)

lemma tag_append [simp]: "internal_tag (u @ EncodeFixed64 w) = w"
  using DecodeFixed64_bytes [of w "[]"] by (simp add: internal_tag_def)

section \<open>The order of internal keys\<close>

text \<open>
  What a user comparator promises carries over to internal keys; the sublocale-like step is a lemma
  of the contract, and the interpretation below instantiates it for the bytewise comparator.
\<close>

context slice_order begin

lemma ikey_less_iff:
  "ikey_compare compare a b < 0 \<longleftrightarrow> compare (ExtractUserKey a) (ExtractUserKey b) < 0 \<or>
     compare (ExtractUserKey a) (ExtractUserKey b) = 0 \<and> internal_tag b < internal_tag a"
  by (auto simp: ikey_compare_def Let_def)

lemma ikey_le_iff:
  "ikey_compare compare a b \<le> 0 \<longleftrightarrow> compare (ExtractUserKey a) (ExtractUserKey b) < 0 \<or>
     compare (ExtractUserKey a) (ExtractUserKey b) = 0 \<and> internal_tag b \<le> internal_tag a"
  by (auto simp: ikey_compare_def Let_def)

lemma ikey_greater_iff:
  "0 < ikey_compare compare a b \<longleftrightarrow> 0 < compare (ExtractUserKey a) (ExtractUserKey b) \<or>
     compare (ExtractUserKey a) (ExtractUserKey b) = 0 \<and> internal_tag a < internal_tag b"
  by (auto simp: ikey_compare_def Let_def)

lemma compare_zero_flip: "valid a \<Longrightarrow> valid b \<Longrightarrow> compare a b = 0 \<longleftrightarrow> compare b a = 0"
  using compare_flip [of a b] compare_flip [of b a] by linarith

lemma ikey_order: "slice_order (\<lambda>k. 8 \<le> length k \<and> valid (ExtractUserKey k)) (ikey_compare compare)"
proof
  fix a b
  assume "8 \<le> length a \<and> valid (ExtractUserKey a)" "8 \<le> length b \<and> valid (ExtractUserKey b)"
  then show "ikey_compare compare a b < 0 \<longleftrightarrow> 0 < ikey_compare compare b a"
    using compare_flip compare_zero_flip by (simp add: ikey_less_iff ikey_greater_iff)
next
  fix a b c
  let ?a = "ExtractUserKey a" and ?b = "ExtractUserKey b" and ?c = "ExtractUserKey c"
  assume "8 \<le> length a \<and> valid ?a" "8 \<le> length b \<and> valid ?b" "8 \<le> length c \<and> valid ?c"
  then have v: "valid ?a" "valid ?b" "valid ?c" by simp_all
  assume ab: "ikey_compare compare a b \<le> 0" and bc: "ikey_compare compare b c \<le> 0"
  consider "compare ?a ?b < 0 \<or> compare ?b ?c < 0" | "compare ?a ?b = 0" "compare ?b ?c = 0"
    using ab bc by (auto simp: ikey_le_iff)
  then show "ikey_compare compare a c \<le> 0"
  proof cases
    case 1
    moreover have "compare ?a ?b \<le> 0" "compare ?b ?c \<le> 0" using ab bc by (auto simp: ikey_le_iff)
    ultimately have "compare ?a ?c < 0" using compare_less_le compare_le_less v by blast
    then show ?thesis by (simp add: ikey_le_iff)
  next
    case 2
    then have "compare ?a ?c \<le> 0" "compare ?c ?a \<le> 0"
      using compare_trans [of ?a ?b ?c] compare_trans [of ?c ?b ?a] compare_zero_flip [of ?a ?b]
        compare_zero_flip [of ?b ?c] v by simp_all
    then have "compare ?a ?c = 0" using compare_flip [of ?a ?c] v by auto
    with 2 ab bc show ?thesis by (auto simp: ikey_le_iff)
  qed
qed

end

context comparator begin

lemma shortened_key:
  assumes "valid tmp"
  shows "8 \<le> length (PutFixed64 tmp (packed_tag s t)) \<and>
    valid (ExtractUserKey (PutFixed64 tmp (packed_tag s t)))"
  using assms by (simp add: PutFixed64_def)

lemma ikey_comparator:
  "comparator (\<lambda>k. 8 \<le> length k \<and> valid (ExtractUserKey k)) (ikey_compare compare)
     (ikey_separator compare separator) (ikey_successor compare successor)"
proof (intro comparator.intro ikey_order, unfold_locales)
  fix start limit
  let ?s = "ExtractUserKey start" and ?l = "ExtractUserKey limit"
  let ?sep = "ikey_separator compare separator start limit"
  assume start: "8 \<le> length start \<and> valid ?s" and limit: "8 \<le> length limit \<and> valid ?l"
  then have v: "valid ?s" "valid ?l" "valid (separator ?s ?l)" by (simp_all add: separator_valid)
  show "8 \<le> length ?sep \<and> valid (ExtractUserKey ?sep)"
    using start shortened_key [OF v(3)] by (simp add: ikey_separator_def Let_def)
  have less: "compare ?s ?l < 0" if "compare ?s (separator ?s ?l) < 0"
  proof (rule ccontr)
    assume "\<not> compare ?s ?l < 0"
    from separator_same [OF v(1,2) this] that compare_refl [OF v(1)] show False by simp
  qed
  have same: "ikey_compare compare start start = 0"
    using key_order.compare_refl [OF slice_order.axioms [OF ikey_order]] start by simp
  show "ikey_compare compare start ?sep \<le> 0 \<and> ikey_compare compare ?sep limit < 0"
    if "ikey_compare compare start limit < 0"
  proof (cases "length (separator ?s ?l) < length ?s \<and> compare ?s (separator ?s ?l) < 0")
    case True
    with separator_between [OF v(1,2) less] show ?thesis
      by (simp add: ikey_separator_def Let_def ikey_less_iff ikey_le_iff PutFixed64_def)
  next
    case False
    then have "?sep = start" by (auto simp: ikey_separator_def Let_def)
    with that same show ?thesis by simp
  qed
  show "?sep = start" if "\<not> ikey_compare compare start limit < 0"
    using that less by (auto simp: ikey_separator_def Let_def ikey_less_iff)
next
  fix key
  let ?k = "ExtractUserKey key" and ?succ = "ikey_successor compare successor key"
  assume key: "8 \<le> length key \<and> valid ?k"
  then show "8 \<le> length ?succ \<and> valid (ExtractUserKey ?succ)"
    using shortened_key [OF successor_valid] by (simp add: ikey_successor_def Let_def)
  have "compare ?k ?k = 0" using compare_refl key by simp
  then show "ikey_compare compare key ?succ \<le> 0"
    by (auto simp: ikey_successor_def Let_def ikey_le_iff PutFixed64_def)
qed

end

interpretation ikey: comparator "\<lambda>k. 8 \<le> length k \<and> True" "ikey_compare slice_compare"
    "ikey_separator slice_compare bytewise_separator" "ikey_successor slice_compare bytewise_successor"
  by (rule bytewise.ikey_comparator)

section \<open>The properties of internal keys\<close>

text \<open>C37: An internal key with a sequence number of at most 56 bits and the type of a deletion or a value is appended
  to any string, has the announced length, and is parsed back into its user key, sequence number and type; with
  another sequence number or type an assertion fails. A key from elsewhere whose last eight bytes have another type is refused.\<close>

theorem internal_key_roundtrip:
  "if pk_sequence k \<le> kMaxSequenceNumber \<and> pk_type k \<le> kValueTypeForSeek
   then \<exists>b. AppendInternalKey dst k = Ret (dst @ b) \<and> ParseInternalKey b = Some k \<and>
     length b = InternalKeyEncodingLength k \<and> ExtractUserKey b = pk_user_key k \<and> ExtractValueType b = pk_type k
   else AppendInternalKey dst k = UB \<and>
     (pk_type k > kTypeValue \<longrightarrow> ParseInternalKey (pk_user_key k @ EncodeFixed64 (packed_tag (pk_sequence k) (pk_type k))) = None)"
  using packed_sequence [of "pk_sequence k" "pk_type k"] DecodeFixed64_bytes [of _ "[]"]
  by (auto simp: AppendInternalKey_at ikey_bytes_def ParseInternalKey_def Let_def packed_type ExtractValueType_def
      InternalKeyEncodingLength_def not_le)

theorem internal_key_roundtrip_witness:
  "AppendInternalKey [9] \<lparr>pk_user_key = [1, 2], pk_sequence = 300, pk_type = 1\<rparr> = Ret [9, 1, 2, 1, 44, 1, 0, 0, 0, 0, 0] \<and>
   ParseInternalKey [1, 2, 1, 44, 1, 0, 0, 0, 0, 0] = Some \<lparr>pk_user_key = [1, 2], pk_sequence = 300, pk_type = 1\<rparr> \<and>
   ParseInternalKey [1, 2, 2, 44, 1, 0, 0, 0, 0, 0] = None"
proof -
  have a: "AppendInternalKey [9] \<lparr>pk_user_key = [1, 2], pk_sequence = 300, pk_type = 1\<rparr> = Ret [9, 1, 2, 1, 44, 1, 0, 0, 0, 0, 0]"
    by code_simp
  moreover have "pk_user_key k @ EncodeFixed64 (packed_tag (pk_sequence k) (pk_type k)) = [1, 2, 2, 44, 1, 0, 0, 0, 0, 0]"
    if "k = \<lparr>pk_user_key = [1, 2], pk_sequence = 300, pk_type = 2\<rparr>" for k
    unfolding that by code_simp
  ultimately show ?thesis
    using internal_key_roundtrip [of "\<lparr>pk_user_key = [1, 2], pk_sequence = 300, pk_type = 1\<rparr>" "[9]"]
      internal_key_roundtrip [of "\<lparr>pk_user_key = [1, 2], pk_sequence = 300, pk_type = 2\<rparr>" "[]"]
    by (auto simp: kMaxSequenceNumber_def word_le_nat_alt word_less_nat_alt)
qed

text \<open>C36: The internal key comparator orders encoded keys by user key, then by decreasing sequence number, then
  by decreasing type byte, for the keys that AppendInternalKey makes and for every other type byte that a file may hold;
  a separator lies in [start, limit), and the assertions on a shortened one hold.\<close>

theorem internal_key_order:
  assumes "pk_sequence a \<le> kMaxSequenceNumber" "pk_sequence b \<le> kMaxSequenceNumber"
  shows "let x = ikey_bytes a; y = ikey_bytes b;
      sep = ikey_separator slice_compare bytewise_separator x y in
    (ikey_compare slice_compare x y < 0 \<longleftrightarrow>
       pk_user_key a < pk_user_key b \<or> pk_user_key a = pk_user_key b \<and>
         (pk_sequence b < pk_sequence a \<or> pk_sequence b = pk_sequence a \<and> pk_type b < pk_type a)) \<and>
    (if ikey_compare slice_compare x y < 0
     then ikey_compare slice_compare x sep \<le> 0 \<and> ikey_compare slice_compare sep y < 0 else sep = x) \<and>
    (sep \<noteq> x \<longrightarrow> ikey_compare slice_compare x sep < 0) \<and>
    (pk_type a \<le> kValueTypeForSeek \<longrightarrow> AppendInternalKey [] a = Ret x)"
proof -
  let ?x = "ikey_bytes a" and ?y = "ikey_bytes b"
  have "unat (pk_type a) < 256" "unat (pk_type b) < 256" by (rule byte_range)+
  then have "packed_tag (pk_sequence b) (pk_type b) < packed_tag (pk_sequence a) (pk_type a) \<longleftrightarrow>
      unat (pk_sequence b) < unat (pk_sequence a) \<or>
      unat (pk_sequence b) = unat (pk_sequence a) \<and> unat (pk_type b) < unat (pk_type a)"
    unfolding word_less_nat_alt packed_value [OF assms(1)] packed_value [OF assms(2)] by linarith
  then have "ikey_compare slice_compare ?x ?y < 0 \<longleftrightarrow>
       pk_user_key a < pk_user_key b \<or> pk_user_key a = pk_user_key b \<and>
         (pk_sequence b < pk_sequence a \<or> pk_sequence b = pk_sequence a \<and> pk_type b < pk_type a)"
    by (auto simp: bytewise.ikey_less_iff ikey_bytes_def slice_compare_lex word_less_nat_alt
        simp flip: word_unat_eq_iff)
  moreover have "8 \<le> length ?x \<and> True" "8 \<le> length ?y \<and> True" by (simp_all add: ikey_bytes_def)
  note ikey.separator_between [OF this] ikey.separator_same [OF this]
  moreover have "ikey_compare slice_compare ?x sep < 0"
    if "sep = ikey_separator slice_compare bytewise_separator ?x ?y" "sep \<noteq> ?x" for sep
    using that by (auto simp: ikey_separator_def Let_def bytewise.ikey_less_iff PutFixed64_def split: if_splits)
  ultimately show ?thesis using assms(1) by (simp add: Let_def AppendInternalKey_at)
qed

theorem internal_key_order_witness:
  "\<exists>x y. AppendInternalKey [] \<lparr>pk_user_key = [1], pk_sequence = 9, pk_type = 1\<rparr> = Ret x \<and>
     AppendInternalKey [] \<lparr>pk_user_key = [1], pk_sequence = 8, pk_type = 1\<rparr> = Ret y \<and> ikey_compare slice_compare x y < 0"
  using internal_key_order [of "\<lparr>pk_user_key = [1], pk_sequence = 9, pk_type = 1\<rparr>" "\<lparr>pk_user_key = [1], pk_sequence = 8, pk_type = 1\<rparr>"]
    internal_key_order [of "\<lparr>pk_user_key = [1], pk_sequence = 8, pk_type = 1\<rparr>" "\<lparr>pk_user_key = [1], pk_sequence = 8, pk_type = 1\<rparr>"]
  by (simp add: kMaxSequenceNumber_def Let_def)

text \<open>C38: The lookup key of a user key at a snapshot is the length-prefixed internal key with the largest type,
  and it is at or before the entries of that user key that the snapshot sees, and after the newer ones.\<close>

theorem lookup_key_snapshot:
  assumes "length u + 8 < 2 ^ 32" "s \<le> kMaxSequenceNumber" "s' \<le> kMaxSequenceNumber" "t \<le> kTypeValue"
  shows "\<exists>k e. LookupKey u s = Ret k \<and> lk_user_key k = u \<and>
    GetLengthPrefixedSlice (lk_memtable_key k) = Some (lk_internal_key k, []) \<and>
    ParseInternalKey (lk_internal_key k) = Some \<lparr>pk_user_key = u, pk_sequence = s, pk_type = kTypeValue\<rparr> \<and>
    length (lk_memtable_key k) \<le> length u + 13 \<and>
    AppendInternalKey [] \<lparr>pk_user_key = u, pk_sequence = s', pk_type = t\<rparr> = Ret e \<and>
    (ikey_compare slice_compare (lk_internal_key k) e \<le> 0 \<longleftrightarrow> s' \<le> s)"
proof -
  let ?k = "\<lparr>pk_user_key = u, pk_sequence = s, pk_type = kTypeValue\<rparr>"
  have ik: "lk_internal_key (lookup_key_of u s) = ikey_bytes ?k"
    by (simp add: lk_internal_key_def lookup_key_of_def Let_def ikey_bytes_def)
  have mem: "lk_memtable_key (lookup_key_of u s) = prefixed (ikey_bytes ?k) @ []"
    by (simp add: lk_memtable_key_def lookup_key_of_def Let_def prefixed_def ikey_bytes_def)
  have "length (ikey_bytes ?k) < 2 ^ 32" using assms(1) by (simp add: ikey_bytes_def)
  then have get: "GetLengthPrefixedSlice (lk_memtable_key (lookup_key_of u s)) = Some (lk_internal_key (lookup_key_of u s), [])"
    unfolding mem ik by (rule GetLengthPrefixedSlice_bytes)
  have t: "unat t \<le> 1" using assms(4) by (simp add: word_le_nat_alt)
  have "packed_tag s' t \<le> packed_tag s 1 \<longleftrightarrow> unat s' \<le> unat s"
    unfolding word_le_nat_alt packed_value [OF assms(2)] packed_value [OF assms(3)] using t by auto
  then have "ikey_compare slice_compare (ikey_bytes ?k)
       (ikey_bytes \<lparr>pk_user_key = u, pk_sequence = s', pk_type = t\<rparr>) \<le> 0 \<longleftrightarrow> s' \<le> s"
    by (simp add: bytewise.ikey_le_iff ikey_bytes_def slice_compare_lex word_le_nat_alt)
  moreover have "ParseInternalKey (ikey_bytes ?k) = Some ?k"
    using packed_sequence [OF assms(2), of kTypeValue] DecodeFixed64_bytes [of _ "[]"]
    by (simp add: ikey_bytes_def ParseInternalKey_def Let_def packed_type)
  moreover have "length (lk_memtable_key (lookup_key_of u s)) \<le> length u + 13"
    using length_EncodeVarint32 [of "of_nat (length u + 8)"]
    by (simp add: lk_memtable_key_def lookup_key_of_def Let_def)
  moreover have "lk_user_key (lookup_key_of u s) = u"
    by (simp add: lk_user_key_def lookup_key_of_def Let_def)
  moreover have "LookupKey u s = Ret (lookup_key_of u s)"
    "AppendInternalKey [] \<lparr>pk_user_key = u, pk_sequence = s', pk_type = t\<rparr> = Ret (ikey_bytes \<lparr>pk_user_key = u, pk_sequence = s', pk_type = t\<rparr>)"
    using assms(2-4) by (simp_all add: LookupKey_at AppendInternalKey_at)
  ultimately show ?thesis using get
    by (intro exI [of _ "lookup_key_of u s"] exI [of _ "ikey_bytes \<lparr>pk_user_key = u, pk_sequence = s', pk_type = t\<rparr>"])
      (simp add: ik)
qed

theorem lookup_key_snapshot_witness:
  "\<exists>k e. LookupKey [1] 9 = Ret k \<and> AppendInternalKey [] \<lparr>pk_user_key = [1], pk_sequence = 8, pk_type = 0\<rparr> = Ret e \<and>
     ikey_compare slice_compare (lk_internal_key k) e \<le> 0"
  using lookup_key_snapshot [of "[1]" 9 8 0] by (auto simp: kMaxSequenceNumber_def)

end
