(* ===== verification/Ldb_Batch.thy ===== *)
theory Ldb_Batch
  imports Ldb_Dbformat
begin

text \<open>
  leveldb, \<open>db/write_batch.cc\<close>: a batch of updates is a byte string, an eight-byte sequence number, a
  four-byte count and the records. \<open>batch_rep\<close> relates the string to the list of its updates; every
  operation is shown to implement the operation on the list, and \<open>Iterate\<close> to run the handler over
  that list and to accept nothing else. The handler is an argument, two functions on its state. The
  count is an \<open>int\<close>, whose sums are undefined outside 32 bits; a failed assertion on the
  length of a batch is undefined too.
\<close>

section \<open>The representation\<close>

definition kHeader :: nat where [simp]: "kHeader = 12"

definition batch_Clear :: slice where
  "batch_Clear = resize kHeader []"

text \<open>The sum of two numbers of the C type \<open>int\<close>.\<close>

definition int_add :: "int \<Rightarrow> int \<Rightarrow> int run" where
  "int_add a b = (if - (2 ^ 31) \<le> a + b \<and> a + b < 2 ^ 31 then Ret (a + b) else UB)"

definition batch_Count :: "slice \<Rightarrow> int" where
  "batch_Count rep = sint (DecodeFixed32 (drop 8 rep))"

definition batch_SetCount :: "slice \<Rightarrow> int \<Rightarrow> slice" where
  "batch_SetCount rep n = take 8 rep @ EncodeFixed32 (of_int n) @ drop 12 rep"

definition batch_Sequence :: "slice \<Rightarrow> sequence_number" where
  "batch_Sequence rep = DecodeFixed64 rep"

definition batch_SetSequence :: "slice \<Rightarrow> sequence_number \<Rightarrow> slice" where
  "batch_SetSequence rep seq = EncodeFixed64 seq @ drop 8 rep"

definition batch_Put :: "slice \<Rightarrow> slice \<Rightarrow> slice \<Rightarrow> slice run" where
  "batch_Put rep key value =
     rbind (int_add (batch_Count rep) 1) (\<lambda>n.
       let rep = batch_SetCount rep n;
           rep = rep @ [kTypeValue];
           rep = PutLengthPrefixedSlice rep key
       in Ret (PutLengthPrefixedSlice rep value))"

definition batch_Delete :: "slice \<Rightarrow> slice \<Rightarrow> slice run" where
  "batch_Delete rep key =
     rbind (int_add (batch_Count rep) 1) (\<lambda>n.
       let rep = batch_SetCount rep n;
           rep = rep @ [kTypeDeletion]
       in Ret (PutLengthPrefixedSlice rep key))"

definition batch_SetContents :: "slice \<Rightarrow> slice run" where
  "batch_SetContents contents = (if length contents < kHeader then UB else Ret contents)"

definition batch_Append :: "slice \<Rightarrow> slice \<Rightarrow> slice run" where
  "batch_Append dst src =
     rbind (int_add (batch_Count dst) (batch_Count src)) (\<lambda>n.
       let dst = batch_SetCount dst n
       in if length src < kHeader then UB else Ret (dst @ drop kHeader src))"

section \<open>Iteration\<close>

lemma GetLengthPrefixedSlice_shorter:
  "GetLengthPrefixedSlice input = Some (s, rest) \<Longrightarrow> length rest < length input"
  by (auto simp: GetLengthPrefixedSlice_def remove_prefix_def
      dest!: GetVarint32_consumes split: option.splits prod.splits if_splits)

text \<open>The loop: \<open>Inl\<close> is the status of an early return, \<open>Inr\<close> the number of records found.\<close>

function iterate_loop ::
  "(slice \<Rightarrow> slice \<Rightarrow> 'h \<Rightarrow> 'h) \<Rightarrow> (slice \<Rightarrow> 'h \<Rightarrow> 'h) \<Rightarrow> int \<Rightarrow> slice \<Rightarrow> 'h \<Rightarrow> ((status + int) \<times> 'h) run" where
  "iterate_loop put del found [] h = Ret (Inr found, h)"
| "iterate_loop put del found (tag # input) h =
     rbind (int_add found 1) (\<lambda>found.
       if tag = kTypeValue then
         (case GetLengthPrefixedSlice input of
            None \<Rightarrow> Ret (Inl (Corruption (cstr ''bad WriteBatch Put'') []), h)
          | Some (key, input) \<Rightarrow>
              (case GetLengthPrefixedSlice input of
                 None \<Rightarrow> Ret (Inl (Corruption (cstr ''bad WriteBatch Put'') []), h)
               | Some (value, input) \<Rightarrow> iterate_loop put del found input (put key value h)))
       else if tag = kTypeDeletion then
         (case GetLengthPrefixedSlice input of
            None \<Rightarrow> Ret (Inl (Corruption (cstr ''bad WriteBatch Delete'') []), h)
          | Some (key, input) \<Rightarrow> iterate_loop put del found input (del key h))
       else Ret (Inl (Corruption (cstr ''unknown WriteBatch tag'') []), h))"
  by pat_completeness auto
termination
  by (relation "measure (\<lambda>(put, del, found, input, h). length input)")
    (auto dest!: GetLengthPrefixedSlice_shorter)

definition batch_Iterate ::
  "(slice \<Rightarrow> slice \<Rightarrow> 'h \<Rightarrow> 'h) \<Rightarrow> (slice \<Rightarrow> 'h \<Rightarrow> 'h) \<Rightarrow> slice \<Rightarrow> 'h \<Rightarrow> (status \<times> 'h) run" where
  "batch_Iterate put del rep h =
     (if length rep < kHeader then Ret (Corruption (cstr ''malformed WriteBatch (too small)'') [], h)
      else rbind (iterate_loop put del 0 (remove_prefix kHeader rep) h) (\<lambda>(r, h).
        case r of
          Inl s \<Rightarrow> Ret (s, h)
        | Inr found \<Rightarrow>
            if found \<noteq> batch_Count rep then Ret (Corruption (cstr ''WriteBatch has wrong count'') [], h)
            else Ret (Status_OK, h)))"

section \<open>The list of updates\<close>

datatype update = Put_Op slice slice | Delete_Op slice

fun run_update :: "(slice \<Rightarrow> slice \<Rightarrow> 'h \<Rightarrow> 'h) \<Rightarrow> (slice \<Rightarrow> 'h \<Rightarrow> 'h) \<Rightarrow> update \<Rightarrow> 'h \<Rightarrow> 'h" where
  "run_update put del (Put_Op k v) h = put k v h"
| "run_update put del (Delete_Op k) h = del k h"

fun update_bytes :: "update \<Rightarrow> slice" where
  "update_bytes (Put_Op k v) = kTypeValue # prefixed k @ prefixed v"
| "update_bytes (Delete_Op k) = kTypeDeletion # prefixed k"

fun update_ok :: "update \<Rightarrow> bool" where
  "update_ok (Put_Op k v) \<longleftrightarrow> length k < 2 ^ 32 \<and> length v < 2 ^ 32"
| "update_ok (Delete_Op k) \<longleftrightarrow> length k < 2 ^ 32"

definition batch_rep :: "slice \<Rightarrow> sequence_number \<Rightarrow> update list \<Rightarrow> bool" where
  "batch_rep rep seq us \<longleftrightarrow>
     rep = EncodeFixed64 seq @ EncodeFixed32 (of_nat (length us)) @ concat (map update_bytes us)"

lemma batch_rep_Clear: "batch_rep batch_Clear 0 []"
proof -
  have "EncodeFixed64 0 @ EncodeFixed32 0 = replicate 12 0" by code_simp
  then show ?thesis by (simp add: batch_rep_def batch_Clear_def resize_def)
qed

lemma batch_rep_Count: "batch_rep rep seq us \<Longrightarrow> length us < 2 ^ 31 \<Longrightarrow> batch_Count rep = int (length us)"
proof -
  assume "batch_rep rep seq us" "length us < 2 ^ 31"
  then show ?thesis by (simp add: batch_rep_def batch_Count_def signed_of_nat signed_take_bit_int_eq_self)
qed

lemma batch_rep_Sequence: "batch_rep rep seq us \<Longrightarrow> batch_Sequence rep = seq"
  by (simp add: batch_rep_def batch_Sequence_def)

lemma batch_rep_SetSequence: "batch_rep rep seq us \<Longrightarrow> batch_rep (batch_SetSequence rep seq') seq' us"
  by (simp add: batch_rep_def batch_SetSequence_def)

lemma batch_rep_SetCount:
  "batch_rep rep seq us \<Longrightarrow> batch_SetCount rep n = EncodeFixed64 seq @ EncodeFixed32 (of_int n) @ concat (map update_bytes us)"
  by (simp add: batch_rep_def batch_SetCount_def)

lemma batch_rep_length: "batch_rep rep seq us \<Longrightarrow> kHeader \<le> length rep"
  by (simp add: batch_rep_def)

lemma batch_rep_Put:
  assumes "batch_rep rep seq us" "length us + 1 < 2 ^ 31"
  shows "\<exists>rep'. batch_Put rep k v = Ret rep' \<and> batch_rep rep' seq (us @ [Put_Op k v])"
  using batch_rep_Count [OF assms(1)] batch_rep_SetCount [OF assms(1)] assms(2)
  by (simp add: batch_Put_def int_add_def Let_def PutLengthPrefixedSlice_append batch_rep_def [of _ _ "_ @ _"] ac_simps)

lemma batch_rep_Delete:
  assumes "batch_rep rep seq us" "length us + 1 < 2 ^ 31"
  shows "\<exists>rep'. batch_Delete rep k = Ret rep' \<and> batch_rep rep' seq (us @ [Delete_Op k])"
  using batch_rep_Count [OF assms(1)] batch_rep_SetCount [OF assms(1)] assms(2)
  by (simp add: batch_Delete_def int_add_def Let_def PutLengthPrefixedSlice_append batch_rep_def [of _ _ "_ @ _"] ac_simps)

lemma batch_rep_Append:
  assumes "batch_rep dst seq us" "batch_rep src seq' us'" "length us + length us' < 2 ^ 31"
  shows "\<exists>rep. batch_Append dst src = Ret rep \<and> batch_rep rep seq (us @ us')"
  using batch_rep_Count [OF assms(1)] batch_rep_Count [OF assms(2)] batch_rep_SetCount [OF assms(1)] assms(2,3)
    batch_rep_length [OF assms(2)]
  by (simp add: batch_Append_def int_add_def Let_def batch_rep_def)

lemma iterate_loop_updates:
  "list_all update_ok us \<Longrightarrow> 0 \<le> n \<Longrightarrow> n + int (length us) < 2 ^ 31 \<Longrightarrow>
     iterate_loop put del n (concat (map update_bytes us)) h = Ret (Inr (n + int (length us)), fold (run_update put del) us h)"
proof (induction us arbitrary: n h)
  case (Cons u us)
  have "int_add n 1 = Ret (n + 1)" using Cons.prems by (simp add: int_add_def)
  then show ?case using Cons by (cases u) (simp_all add: ac_simps)
qed simp

lemma Corruption_not_ok [simp]: "Corruption msg msg2 \<noteq> Status_OK"
  by (simp add: Corruption_def status_make_def Status_OK_def Let_def)

lemma IsCorruption_Corruption [simp]: "IsCorruption (Corruption msg msg2)"
  by (simp add: IsCorruption_def Corruption_def status_code_def status_make_def Let_def nth_append)

text \<open>The loop over any bytes: what it returns, and that the count does not overflow on less than \<open>2 ^ 32\<close> of them.\<close>

lemma iterate_loop_error:
  "iterate_loop put del n input h = Ret (Inl e, h') \<Longrightarrow> \<exists>a b. e = Corruption a b"
  by (induction put del n input h rule: iterate_loop.induct)
    (auto simp: rbind_Ret_iff split: if_splits option.splits prod.splits)

lemma iterate_loop_returns:
  "0 \<le> n \<Longrightarrow> 2 * n + int (length input) < 2 ^ 32 - 1 \<Longrightarrow> \<exists>r. iterate_loop put del n input h = Ret r"
proof (induction put del n input h rule: iterate_loop.induct)
  case (2 put del found tag input h)
  have "found + 1 < 2 ^ 31" using 2(4) by simp
  then have add: "int_add found 1 = Ret (found + 1)" using 2(3) by (simp add: int_add_def)
  show ?case
  proof (cases "tag = kTypeValue")
    case put: True
    have "\<exists>r. iterate_loop put del (found + 1) i2 (put k v h) = Ret r"
      if "GetLengthPrefixedSlice input = Some (k, i)" "GetLengthPrefixedSlice i = Some (v, i2)" for k i v i2
      using 2(1) [OF add put that(1) refl that(2) refl] 2(3,4) GetLengthPrefixedSlice_shorter [OF that(1)]
        GetLengthPrefixedSlice_shorter [OF that(2)] by simp
    then show ?thesis using put add by (auto split: option.split)
  next
    case False
    have "\<exists>r. iterate_loop put del (found + 1) i (del k h) = Ret r"
      if "tag = kTypeDeletion" "GetLengthPrefixedSlice input = Some (k, i)" for k i
      using 2(2) [OF add False that refl] 2(3,4) GetLengthPrefixedSlice_shorter [OF that(2)] by simp
    then show ?thesis using False add by (auto split: option.split)
  qed
qed simp

lemma iterate_loop_no_fuel: "iterate_loop put del n input h \<noteq> Fuel_Out"
proof (induction put del n input h rule: iterate_loop.induct)
  case (2 put del found tag input h)
  show ?case
  proof (cases "int_add found 1")
    case (Ret m)
    then show ?thesis using 2(1) [OF Ret] 2(2) [OF Ret] by (auto split: option.split)
  qed (auto simp: int_add_def split: if_splits)
qed simp

lemma iterate_loop_sound:
  "iterate_loop put del n input h = Ret (Inr n', h') \<Longrightarrow>
     \<exists>us. h' = fold (run_update put del) us h \<and> n' = n + int (length us) \<and> 2 * length us \<le> length input"
proof (induction put del n input h rule: iterate_loop.induct)
  case (1 put del found h)
  then show ?case by (intro exI [of _ "[]"]) simp
next
  case (2 put del found tag input h)
  have add: "int_add found 1 = Ret (found + 1)" using 2(3) by (auto simp: int_add_def split: if_splits)
  consider (put) k i v r where "tag = kTypeValue" "GetLengthPrefixedSlice input = Some (k, i)"
      "GetLengthPrefixedSlice i = Some (v, r)" "iterate_loop put del (found + 1) r (put k v h) = Ret (Inr n', h')"
    | (del) k r where "tag \<noteq> kTypeValue" "tag = kTypeDeletion" "GetLengthPrefixedSlice input = Some (k, r)"
      "iterate_loop put del (found + 1) r (del k h) = Ret (Inr n', h')"
    using 2(3) add by (auto split: if_splits option.splits prod.splits)
  then show ?case
  proof cases
    case put
    from 2(1) [OF add put(1,2) refl put(3) refl put(4)] obtain us where
      "h' = fold (run_update put del) us (put k v h)" "n' = found + 1 + int (length us)" "2 * length us \<le> length r"
      by auto
    then show ?thesis
      using GetLengthPrefixedSlice_shorter [OF put(2)] GetLengthPrefixedSlice_shorter [OF put(3)]
      by (intro exI [of _ "Put_Op k v # us"]) simp
  next
    case del
    from 2(2) [OF add del(1-3) refl del(4)] obtain us where
      "h' = fold (run_update put del) us (del k h)" "n' = found + 1 + int (length us)" "2 * length us \<le> length r"
      by auto
    then show ?thesis
      using GetLengthPrefixedSlice_shorter [OF del(3)]
      by (intro exI [of _ "Delete_Op k # us"]) simp
  qed
qed

section \<open>The properties of batches\<close>

fun build :: "update list \<Rightarrow> slice \<Rightarrow> slice run" where
  "build [] rep = Ret rep"
| "build (Put_Op k v # us) rep = rbind (batch_Put rep k v) (build us)"
| "build (Delete_Op k # us) rep = rbind (batch_Delete rep k) (build us)"

lemma batch_rep_build:
  "batch_rep rep seq us \<Longrightarrow> length us + length us' < 2 ^ 31 \<Longrightarrow>
     \<exists>rep'. build us' rep = Ret rep' \<and> batch_rep rep' seq (us @ us')"
proof (induction us' arbitrary: rep us)
  case (Cons u us')
  have l: "length us + 1 < 2 ^ 31" "length (us @ [u]) + length us' < 2 ^ 31" using Cons.prems(2) by simp_all
  have "\<exists>rep1. build (u # us') rep = build us' rep1 \<and> batch_rep rep1 seq (us @ [u])"
  proof (cases u)
    case (Put_Op k v)
    with batch_rep_Put [OF Cons.prems(1) l(1), of k v] show ?thesis by auto
  next
    case (Delete_Op k)
    with batch_rep_Delete [OF Cons.prems(1) l(1), of k] show ?thesis by auto
  qed
  then obtain rep1 where r: "build (u # us') rep = build us' rep1" "batch_rep rep1 seq (us @ [u])" by blast
  then show ?case using Cons.IH [OF r(2) l(2)] by simp
qed simp

lemma batch_Iterate_rep:
  assumes "batch_rep b seq us" "list_all update_ok us" "length us < 2 ^ 31"
  shows "batch_Iterate put del b h = Ret (Status_OK, fold (run_update put del) us h)"
proof -
  have "int (length us) < 2 ^ 31" using assms(3) by simp
  then show ?thesis
    using iterate_loop_updates [OF assms(2), of 0 put del h] batch_rep_Count [OF assms(1,3)] assms(1)
    by (simp add: batch_Iterate_def batch_rep_def remove_prefix_def)
qed

text \<open>C34: A batch built by any sequence of Put and Delete, given a sequence number and appended to another such
  batch, is iterated in the order of the calls, as long as the number of updates fits in an int: the handler sees exactly
  the updates of the first batch and then those of the second, the status is OK, and count and sequence number are those
  of the calls.\<close>

theorem batch_iterate_built:
  assumes "list_all update_ok (us @ us')" "length us + length us' < 2 ^ 31"
  shows "\<exists>a a' b. build us batch_Clear = Ret a \<and> build us' batch_Clear = Ret a' \<and> batch_Append a a' = Ret b \<and>
    (let b = batch_SetSequence b seq in
     batch_Iterate put del b h = Ret (Status_OK, fold (run_update put del) (us @ us') h) \<and>
     batch_Count b = int (length us + length us') \<and> batch_Sequence b = seq)"
proof -
  from batch_rep_build [OF batch_rep_Clear, of us] assms(2) obtain a where a: "build us batch_Clear = Ret a" "batch_rep a 0 us" by auto
  from batch_rep_build [OF batch_rep_Clear, of us'] assms(2) obtain a' where a': "build us' batch_Clear = Ret a'" "batch_rep a' 0 us'" by auto
  from batch_rep_Append [OF a(2) a'(2) assms(2)] obtain b where b: "batch_Append a a' = Ret b" "batch_rep b 0 (us @ us')" by blast
  have rep: "batch_rep (batch_SetSequence b seq) seq (us @ us')" by (rule batch_rep_SetSequence [OF b(2)])
  have l: "length (us @ us') < 2 ^ 31" using assms(2) by simp
  show ?thesis
    using a(1) a'(1) b(1) batch_Iterate_rep [OF rep assms(1) l, of put del h] batch_rep_Count [OF rep l] batch_rep_Sequence [OF rep]
    by (simp add: Let_def)
qed

theorem batch_iterate_built_witness:
  "\<exists>a a' b. build [Put_Op [1] [2, 3]] batch_Clear = Ret a \<and> build [Delete_Op [1]] batch_Clear = Ret a' \<and>
     batch_Append a a' = Ret b \<and>
     batch_Iterate (\<lambda>k v h. h @ [Put_Op k v]) (\<lambda>k h. h @ [Delete_Op k]) (batch_SetSequence b 7) [] =
       Ret (Status_OK, [Put_Op [1] [2, 3], Delete_Op [1]])"
  using batch_iterate_built [of "[Put_Op [1] [2, 3]]" "[Delete_Op [1]]" 7 "\<lambda>k v h. h @ [Put_Op k v]"
      "\<lambda>k h. h @ [Delete_Op k]" "[]"]
  by (simp add: Let_def) blast

text \<open>C35: Whatever bytes a batch holds, Iterate returns OK only when the handler was run on exactly as many
  updates as the count in the header says, and with any other result the status is a corruption. It returns on every
  batch of less than 2^32 bytes; on a longer one the count of the records may overflow.\<close>

theorem batch_iterate_sound:
  "case batch_Iterate put del rep h of
     Ret (s, h') \<Rightarrow>
       (s = Status_OK \<longrightarrow> 12 \<le> length rep \<and> (\<exists>us. h' = fold (run_update put del) us h \<and>
          batch_Count rep = int (length us) \<and> 12 + 2 * length us \<le> length rep)) \<and>
       (s = Status_OK \<or> IsCorruption s)
   | UB \<Rightarrow> 2 ^ 32 < length rep
   | Fuel_Out \<Rightarrow> False"
proof (cases "length rep < kHeader")
  case True
  then show ?thesis by (simp add: batch_Iterate_def)
next
  case False
  let ?input = "remove_prefix kHeader rep"
  have l: "length ?input = length rep - 12" by (simp add: remove_prefix_def)
  show ?thesis
  proof (cases "iterate_loop put del 0 ?input h")
    case UB
    then have "\<not> 2 * 0 + int (length ?input) < 2 ^ 32 - 1" using iterate_loop_returns [of 0 ?input put del h] by auto
    then show ?thesis using UB False l by (simp add: batch_Iterate_def)
  next
    case Fuel_Out
    then show ?thesis using iterate_loop_no_fuel [of put del 0 ?input h] by simp
  next
    case (Ret r)
    obtain q h1 where r: "r = (q, h1)" by force
    show ?thesis
    proof (cases q)
      case (Inl e)
      from iterate_loop_error [OF Ret [unfolded r Inl]] obtain a b where "e = Corruption a b" by auto
      with Inl r Ret False show ?thesis by (simp add: batch_Iterate_def)
    next
      case (Inr n)
      from iterate_loop_sound [OF Ret [unfolded r Inr]] obtain us where
        us: "h1 = fold (run_update put del) us h" "n = int (length us)" "2 * length us \<le> length ?input"
        by auto
      have "batch_Iterate put del rep h = (if n \<noteq> batch_Count rep then Ret (Corruption (cstr ''WriteBatch has wrong count'') [], h1)
            else Ret (Status_OK, h1))"
        using Inr r Ret False by (simp add: batch_Iterate_def)
      then show ?thesis using us l False by (auto intro!: exI [of _ us])
    qed
  qed
qed

theorem batch_iterate_sound_witness:
  "case batch_Iterate (\<lambda>k v h. Suc h) (\<lambda>k h. Suc h) [0, 0, 0, 0, 0, 0, 0, 0, 2, 0, 0, 0, 0, 1, 65] 0 of
     Ret (s, h) \<Rightarrow> IsCorruption s | _ \<Rightarrow> False"
proof -
  have "case batch_Iterate (\<lambda>k v h. Suc h) (\<lambda>k h. Suc h) [0, 0, 0, 0, 0, 0, 0, 0, 2, 0, 0, 0, 0, 1, 65] 0 of
      Ret (s, h) \<Rightarrow> s \<noteq> Status_OK | _ \<Rightarrow> False"
    by code_simp
  then show ?thesis
    using batch_iterate_sound [where put = "\<lambda>k v h. Suc h" and del = "\<lambda>k h. Suc h" and h = 0 and
        rep = "[0, 0, 0, 0, 0, 0, 0, 0, 2, 0, 0, 0, 0, 1, 65]"]
    by (simp split: run.splits prod.splits)
qed

end
