(* ===== verification/Ldb_Random.thy ===== *)
theory Ldb_Random
  imports Prelude
begin

text \<open>
  leveldb, \<open>util/random.h\<close>: the generator of the skip list's heights. The state is the seed; an
  operation yields its value and the new seed. The lemmas show that the shift-and-mask reduction of
  \<open>Next\<close> is multiplication modulo \<open>2 ^ 31 - 1\<close> and never leaves the range of good seeds.
\<close>

definition Random_init :: "u32 \<Rightarrow> u32" where
  "Random_init s =
     (let seed = s AND 0x7FFFFFFF in if seed = 0 \<or> seed = 2147483647 then 1 else seed)"

definition Random_Next :: "u32 \<Rightarrow> u32 \<times> u32" where
  "Random_Next seed =
     (let M = 2147483647 :: u32;
          A = 16807 :: u64;
          product = ucast seed * A;
          seed = ucast (drop_bit 31 product + (product AND ucast M)) :: u32;
          seed = (if seed > M then seed - M else seed)
      in (seed, seed))"

definition Random_Uniform :: "u32 \<Rightarrow> u32 \<Rightarrow> u32 \<times> u32" where
  "Random_Uniform n seed = (case Random_Next seed of (r, seed) \<Rightarrow> (r mod n, seed))"

definition Random_OneIn :: "u32 \<Rightarrow> u32 \<Rightarrow> bool \<times> u32" where
  "Random_OneIn n seed = (case Random_Next seed of (r, seed) \<Rightarrow> (r mod n = 0, seed))"

definition Random_Skewed :: "u32 \<Rightarrow> u32 \<Rightarrow> u32 \<times> u32" where
  "Random_Skewed max_log seed =
     (case Random_Uniform (max_log + 1) seed of (base, seed) \<Rightarrow>
        Random_Uniform (push_bit (unat base) 1) seed)"

definition good_seed :: "u32 \<Rightarrow> bool" where
  "good_seed s \<longleftrightarrow> 0 < s \<and> s < 2147483647"

lemma good_seed_init: "good_seed (Random_init s)"
proof -
  define w where "w = s AND 0x7FFFFFFF"
  have "w = take_bit 31 s" by (simp add: w_def take_bit_eq_mask mask_eq_exp_minus_1)
  then have "unat w < 2 ^ 31" by (simp only: unsigned_take_bit_eq) (simp add: take_bit_eq_mod)
  moreover have "unat w \<noteq> 2147483647" if "w \<noteq> 2147483647"
    using that by (simp add: word_unat_eq_iff)
  moreover have "0 < unat w" if "w \<noteq> 0" using that by (simp add: unat_gt_0)
  ultimately have "good_seed w" if "w \<noteq> 0" "w \<noteq> 2147483647"
    using that by (simp add: good_seed_def word_less_nat_alt)
  then show ?thesis by (auto simp: Random_init_def Let_def good_seed_def simp flip: w_def)
qed

lemma mod_M_fold: "(p :: nat) mod 2147483647 = (p div 2 ^ 31 + p mod 2 ^ 31) mod 2147483647"
proof -
  have "p = 2147483647 * (p div 2 ^ 31) + (p div 2 ^ 31 + p mod 2 ^ 31)"
    using div_mult_mod_eq [of p "2 ^ 31"] by simp
  then show ?thesis by (metis mod_mult_self4)
qed

lemma reduce_once: "(n :: nat) \<noteq> m \<Longrightarrow> n < m + m \<Longrightarrow> (if n > m then n - m else n) = n mod m"
  by (auto simp: le_mod_geq)

text \<open>From a seed in 1 .. 2^31-2, Next yields seed * 16807 modulo the prime 2^31-1, which is in the same
  range, so the generator never reaches the two bad seeds; the constructor yields a seed in that range.\<close>

lemma random_next_mod:
  assumes "good_seed seed"
  shows "unat (fst (Random_Next seed)) = unat seed * 16807 mod 2147483647 \<and>
    snd (Random_Next seed) = fst (Random_Next seed) \<and> good_seed (fst (Random_Next seed)) \<and>
    good_seed (Random_init s)"
proof -
  let ?p = "unat seed * 16807"
  have s: "0 < unat seed" "unat seed < 2147483647"
    using assms by (simp_all add: good_seed_def word_less_nat_alt unat_gt_0)
  have p: "unat (ucast seed * 16807 :: u64) = ?p"
    using s by (simp add: unat_word_ariths unsigned_ucast_eq take_bit_nat_eq_self)
  let ?w = "drop_bit 31 (ucast seed * 16807) + (ucast seed * 16807 AND 2147483647) :: u64"
  have hi: "unat (drop_bit 31 (ucast seed * 16807 :: u64)) = ?p div 2 ^ 31" by (simp only: unat_drop_div p)
  have "(2147483647 :: u64) = mask 31" by (simp add: mask_eq_exp_minus_1)
  then have lo: "unat (ucast seed * 16807 AND 2147483647 :: u64) = ?p mod 2 ^ 31"
    by (simp only: unsigned_take_bit_eq p flip: take_bit_eq_mask) (simp add: take_bit_eq_mod)
  have bound: "?p div 2 ^ 31 \<le> 16806" "?p mod 2 ^ 31 < 2 ^ 31" using s by (simp_all add: div_le_mono)
  then have w: "unat ?w = ?p div 2 ^ 31 + ?p mod 2 ^ 31" by (simp add: unat_word_ariths hi lo)
  have c: "unat (ucast ?w :: u32) = ?p div 2 ^ 31 + ?p mod 2 ^ 31"
    using bound by (simp only: unsigned_ucast_eq w) (simp add: take_bit_nat_eq_self)
  have nz: "?p mod 2147483647 \<noteq> 0"
  proof
    assume "?p mod 2147483647 = 0"
    then have "2147483647 dvd unat seed * 16807" by (simp add: dvd_eq_mod_eq_0)
    moreover have "coprime 2147483647 (16807 :: nat)" by (simp add: coprime_iff_gcd_eq_1 gcd_non_0_nat)
    ultimately have "2147483647 dvd unat seed" by (simp add: coprime_dvd_mult_left_iff)
    with s show False by (auto dest: dvd_imp_le)
  qed
  let ?n = "?p div 2 ^ 31 + ?p mod 2 ^ 31"
  have n: "?n \<noteq> 2147483647" "?n < 2147483647 + 2147483647"
  proof -
    show "?n \<noteq> 2147483647" using nz mod_M_fold [of ?p] by auto
    have "?n \<le> 16806 + (2 ^ 31 - 1)" using bound by linarith
    then show "?n < 2147483647 + 2147483647" by simp
  qed
  have next_eq: "unat (fst (Random_Next seed)) = (if ?n > 2147483647 then ?n - 2147483647 else ?n)"
    using bound
    by (simp add: Random_Next_def Let_def word_less_nat_alt c unat_sub word_le_nat_alt)
  also have "\<dots> = ?n mod 2147483647"
    using n by (rule reduce_once)
  also have "\<dots> = ?p mod 2147483647" by (rule mod_M_fold [symmetric])
  finally have val: "unat (fst (Random_Next seed)) = ?p mod 2147483647" .
  moreover have "good_seed (fst (Random_Next seed))"
    using nz by (simp add: good_seed_def word_less_nat_alt val flip: unat_gt_0)
  ultimately show ?thesis by (simp add: good_seed_init Random_Next_def Let_def)
qed

theorem random_next_mod_witness: "unat (fst (Random_Next 301)) = 301 * 16807 mod 2147483647"
  using random_next_mod [of 301] by (simp add: good_seed_def)

end
