(* ===== verification/Ldb_Skiplist.thy ===== *)
theory Ldb_Skiplist
  imports Ldb_Slice Ldb_Random "HOL-Library.Multiset"
begin

text \<open>
  leveldb, \<open>db/skiplist.h\<close>: the ordered structure of the memtable. The nodes are a list, the arena in
  the order of allocation with the head at position 0; a \<open>Node*\<close> is an optional position. Following
  a link a node does not have, using an entry of \<open>prev\<close> that was never set, and a failed assertion
  are \<open>UB\<close>; the searches have fuel, and \<open>search_fuel\<close> is shown to be enough. The comparator is an
  argument; the lemmas rest on the contract \<open>key_order\<close>. \<open>skiplist_of\<close> relates the structure to the
  ascending list of its keys, and every operation is shown to implement the one on the list.
\<close>

section \<open>Nodes and the list\<close>

record 'k sl_node =
  node_key :: 'k
  node_links :: "nat option list"

record 'k skiplist =
  sl_nodes :: "'k sl_node list"
  sl_max_height :: nat
  sl_rnd :: u32

definition kMaxHeight :: nat where [simp]: "kMaxHeight = 12"

definition sl_key :: "'k skiplist \<Rightarrow> nat \<Rightarrow> 'k" where
  "sl_key sl x = node_key (sl_nodes sl ! x)"

definition node_Next :: "'k skiplist \<Rightarrow> nat \<Rightarrow> nat \<Rightarrow> nat option run" where
  "node_Next sl x n =
     (if x < length (sl_nodes sl) \<and> n < length (node_links (sl_nodes sl ! x))
      then Ret (node_links (sl_nodes sl ! x) ! n) else UB)"

definition node_SetNext :: "'k skiplist \<Rightarrow> nat \<Rightarrow> nat \<Rightarrow> nat option \<Rightarrow> 'k skiplist run" where
  "node_SetNext sl x n p =
     (if x < length (sl_nodes sl) \<and> n < length (node_links (sl_nodes sl ! x))
      then let nd = sl_nodes sl ! x
           in Ret (sl\<lparr>sl_nodes := (sl_nodes sl)[x := nd\<lparr>node_links := (node_links nd)[n := p]\<rparr>]\<rparr>)
      else UB)"

definition NewNode :: "'k skiplist \<Rightarrow> 'k \<Rightarrow> nat \<Rightarrow> nat \<times> 'k skiplist" where
  "NewNode sl key height =
     (length (sl_nodes sl),
      sl\<lparr>sl_nodes := sl_nodes sl @ [\<lparr>node_key = key, node_links = replicate height None\<rparr>]\<rparr>)"

text \<open>The constructor; \<open>any\<close> is the key of the head node, which is never compared.\<close>

definition SkipList :: "'k \<Rightarrow> 'k skiplist" where
  "SkipList any =
     \<lparr>sl_nodes = [\<lparr>node_key = any, node_links = replicate kMaxHeight None\<rparr>], sl_max_height = 1,
      sl_rnd = Random_init 0xDEADBEEF\<rparr>"

section \<open>Searching\<close>

definition Equal :: "('k \<Rightarrow> 'k \<Rightarrow> int) \<Rightarrow> 'k \<Rightarrow> 'k \<Rightarrow> bool" where
  "Equal cmp a b \<longleftrightarrow> cmp a b = 0"

definition KeyIsAfterNode :: "('k \<Rightarrow> 'k \<Rightarrow> int) \<Rightarrow> 'k skiplist \<Rightarrow> 'k \<Rightarrow> nat option \<Rightarrow> bool" where
  "KeyIsAfterNode cmp sl key n = (case n of None \<Rightarrow> False | Some x \<Rightarrow> cmp (sl_key sl x) key < 0)"

text \<open>\<open>prev\<close> is the array of the caller, \<open>None\<close> where it is not set; a null \<open>prev\<close> is an empty list.\<close>

fun find_ge_loop ::
  "nat \<Rightarrow> ('k \<Rightarrow> 'k \<Rightarrow> int) \<Rightarrow> 'k skiplist \<Rightarrow> 'k \<Rightarrow> nat \<Rightarrow> nat \<Rightarrow> nat option list \<Rightarrow>
     (nat option \<times> nat option list) run" where
  "find_ge_loop 0 cmp sl key x level prev = Fuel_Out"
| "find_ge_loop (Suc k) cmp sl key x level prev =
     rbind (node_Next sl x level) (\<lambda>nxt.
       if KeyIsAfterNode cmp sl key nxt then find_ge_loop k cmp sl key (the nxt) level prev
       else let prev = prev[level := Some x] in
         if level = 0 then Ret (nxt, prev) else find_ge_loop k cmp sl key x (level - 1) prev)"

definition search_fuel :: "'k skiplist \<Rightarrow> nat" where
  "search_fuel sl = length (sl_nodes sl) + sl_max_height sl"

definition FindGreaterOrEqual ::
  "('k \<Rightarrow> 'k \<Rightarrow> int) \<Rightarrow> 'k skiplist \<Rightarrow> 'k \<Rightarrow> nat option list \<Rightarrow> (nat option \<times> nat option list) run" where
  "FindGreaterOrEqual cmp sl key prev =
     find_ge_loop (search_fuel sl) cmp sl key 0 (sl_max_height sl - 1) prev"

fun find_lt_loop :: "nat \<Rightarrow> ('k \<Rightarrow> 'k \<Rightarrow> int) \<Rightarrow> 'k skiplist \<Rightarrow> 'k \<Rightarrow> nat \<Rightarrow> nat \<Rightarrow> nat run" where
  "find_lt_loop 0 cmp sl key x level = Fuel_Out"
| "find_lt_loop (Suc k) cmp sl key x level =
     (if \<not> (x = 0 \<or> cmp (sl_key sl x) key < 0) then UB
      else rbind (node_Next sl x level) (\<lambda>nxt.
        if nxt = None \<or> cmp (sl_key sl (the nxt)) key \<ge> 0 then
          if level = 0 then Ret x else find_lt_loop k cmp sl key x (level - 1)
        else find_lt_loop k cmp sl key (the nxt) level))"

definition FindLessThan :: "('k \<Rightarrow> 'k \<Rightarrow> int) \<Rightarrow> 'k skiplist \<Rightarrow> 'k \<Rightarrow> nat run" where
  "FindLessThan cmp sl key = find_lt_loop (search_fuel sl) cmp sl key 0 (sl_max_height sl - 1)"

fun find_last_loop :: "nat \<Rightarrow> 'k skiplist \<Rightarrow> nat \<Rightarrow> nat \<Rightarrow> nat run" where
  "find_last_loop 0 sl x level = Fuel_Out"
| "find_last_loop (Suc k) sl x level =
     rbind (node_Next sl x level) (\<lambda>nxt.
       if nxt = None then
         if level = 0 then Ret x else find_last_loop k sl x (level - 1)
       else find_last_loop k sl (the nxt) level)"

definition FindLast :: "'k skiplist \<Rightarrow> nat run" where
  "FindLast sl = find_last_loop (search_fuel sl) sl 0 (sl_max_height sl - 1)"

section \<open>Inserting\<close>

function random_height_loop :: "nat \<Rightarrow> u32 \<Rightarrow> nat \<times> u32" where
  "random_height_loop height rnd =
     (if height < kMaxHeight then
        case Random_Next rnd of (r, rnd) \<Rightarrow>
          if r mod 4 = 0 then random_height_loop (height + 1) rnd else (height, rnd)
      else (height, rnd))"
  by pat_completeness auto
termination
  by (relation "measure (\<lambda>(height, rnd). kMaxHeight - height)") auto

declare random_height_loop.simps [simp del]

definition RandomHeight :: "u32 \<Rightarrow> nat \<times> u32" where
  "RandomHeight rnd = random_height_loop 1 rnd"

text \<open>Linking the new node \<open>x\<close> on the levels from \<open>i\<close> up.\<close>

fun link_loop :: "nat \<Rightarrow> nat \<Rightarrow> nat \<Rightarrow> nat option list \<Rightarrow> 'k skiplist \<Rightarrow> 'k skiplist run" where
  "link_loop i 0 x prev sl = Ret sl"
| "link_loop i (Suc n) x prev sl =
     (case prev ! i of
        None \<Rightarrow> UB
      | Some p \<Rightarrow>
          rbind (node_Next sl p i) (\<lambda>nxt.
          rbind (node_SetNext sl x i nxt) (\<lambda>sl.
          rbind (node_SetNext sl p i (Some x)) (\<lambda>sl. link_loop (Suc i) n x prev sl))))"

definition Insert :: "('k \<Rightarrow> 'k \<Rightarrow> int) \<Rightarrow> 'k skiplist \<Rightarrow> 'k \<Rightarrow> 'k skiplist run" where
  "Insert cmp sl key =
     rbind (FindGreaterOrEqual cmp sl key (replicate kMaxHeight None)) (\<lambda>(x, prev).
       if \<not> (x = None \<or> \<not> Equal cmp key (sl_key sl (the x))) then UB
       else case RandomHeight (sl_rnd sl) of (height, rnd) \<Rightarrow>
         let old = sl_max_height sl;
             prev = (if height > old
                     then map (\<lambda>i. if old \<le> i \<and> i < height then Some 0 else prev ! i) [0..<length prev] else prev);
             sl = sl\<lparr>sl_rnd := rnd, sl_max_height := (if height > old then height else old)\<rparr>
         in case NewNode sl key height of (x, sl) \<Rightarrow> link_loop 0 height x prev sl)"

definition Contains :: "('k \<Rightarrow> 'k \<Rightarrow> int) \<Rightarrow> 'k skiplist \<Rightarrow> 'k \<Rightarrow> bool run" where
  "Contains cmp sl key =
     rbind (FindGreaterOrEqual cmp sl key []) (\<lambda>(x, prev).
       Ret (x \<noteq> None \<and> Equal cmp key (sl_key sl (the x))))"

section \<open>Iterators\<close>

text \<open>An iterator is its \<open>node_\<close>; the assertion that it is valid is a branch.\<close>

definition sl_Valid :: "nat option \<Rightarrow> bool" where
  "sl_Valid node \<longleftrightarrow> node \<noteq> None"

definition sl_iter_key :: "'k skiplist \<Rightarrow> nat option \<Rightarrow> 'k run" where
  "sl_iter_key sl node = (case node of None \<Rightarrow> UB | Some x \<Rightarrow> Ret (sl_key sl x))"

definition sl_iter_Next :: "'k skiplist \<Rightarrow> nat option \<Rightarrow> nat option run" where
  "sl_iter_Next sl node = (case node of None \<Rightarrow> UB | Some x \<Rightarrow> node_Next sl x 0)"

definition sl_iter_Prev :: "('k \<Rightarrow> 'k \<Rightarrow> int) \<Rightarrow> 'k skiplist \<Rightarrow> nat option \<Rightarrow> nat option run" where
  "sl_iter_Prev cmp sl node =
     (case node of None \<Rightarrow> UB
      | Some x \<Rightarrow> rbind (FindLessThan cmp sl (sl_key sl x)) (\<lambda>y. Ret (if y = 0 then None else Some y)))"

definition sl_Seek :: "('k \<Rightarrow> 'k \<Rightarrow> int) \<Rightarrow> 'k skiplist \<Rightarrow> 'k \<Rightarrow> nat option run" where
  "sl_Seek cmp sl target = rbind (FindGreaterOrEqual cmp sl target []) (\<lambda>(x, prev). Ret x)"

definition sl_SeekToFirst :: "'k skiplist \<Rightarrow> nat option run" where
  "sl_SeekToFirst sl = node_Next sl 0 0"

definition sl_SeekToLast :: "'k skiplist \<Rightarrow> nat option run" where
  "sl_SeekToLast sl = rbind (FindLast sl) (\<lambda>y. Ret (if y = 0 then None else Some y))"

section \<open>Chains of links\<close>

text \<open>\<open>links f x ys\<close>: following \<open>f\<close> from \<open>x\<close> visits \<open>ys\<close> and ends.\<close>

primrec links :: "(nat \<Rightarrow> nat option) \<Rightarrow> nat \<Rightarrow> nat list \<Rightarrow> bool" where
  "links f x [] \<longleftrightarrow> f x = None"
| "links f x (y # ys) \<longleftrightarrow> f x = Some y \<and> links f y ys"

definition hd_opt :: "'a list \<Rightarrow> 'a option" where
  "hd_opt xs = (case xs of [] \<Rightarrow> None | y # ys \<Rightarrow> Some y)"

lemma hd_opt_simps [simp]: "hd_opt [] = None" "hd_opt (y # ys) = Some y"
  by (simp_all add: hd_opt_def)

lemma hd_opt_in: "hd_opt xs = Some y \<Longrightarrow> y \<in> set xs"
  by (cases xs) auto

lemma hd_opt_stop: "(\<And>y. y \<in> set xs \<Longrightarrow> \<not> P y) \<Longrightarrow> hd_opt xs = None \<or> \<not> P (the (hd_opt xs))"
  by (cases xs) auto

lemma links_last: "links f x (us @ vs) \<Longrightarrow> f (last (x # us)) = hd_opt vs"
proof (induction us arbitrary: x)
  case Nil
  then show ?case by (cases vs) simp_all
qed simp

lemma links_cong: "(\<And>y. y \<in> set (x # ys) \<Longrightarrow> f y = g y) \<Longrightarrow> links f x ys = links g x ys"
  by (induction ys arbitrary: x) simp_all

lemma links_insert:
  assumes "links f x (us @ vs)" "distinct (x # us @ vs)" "z \<notin> set (x # us @ vs)" "p = last (x # us)"
    and "g p = Some z" "g z = f p" "\<And>y. y \<in> set (x # us @ vs) \<Longrightarrow> y \<noteq> p \<Longrightarrow> g y = f y"
  shows "links g x (us @ z # vs)"
  using assms
proof (induction us arbitrary: x)
  case Nil
  then have p: "p = x" by simp
  show ?case
  proof (cases vs)
    case Nil
    with Nil.prems p show ?thesis by simp
  next
    case (Cons v vs')
    have "links g v vs' = links f v vs'"
      by (rule links_cong) (use Nil.prems Cons p in auto)
    with Nil.prems Cons p show ?thesis by simp
  qed
next
  case (Cons u us)
  then have "p \<in> set (u # us)" by simp
  with Cons.prems(2) have "x \<noteq> p" by auto
  moreover have "links g u (us @ z # vs)"
    by (rule Cons.IH) (use Cons.prems in auto)
  ultimately show ?case using Cons.prems by simp
qed

lemma last_filter: "xs \<noteq> [] \<Longrightarrow> P (last xs) \<Longrightarrow> last (filter P xs) = last xs"
  by (induction xs rule: rev_induct) auto

lemma last_filter0: "P (last (x # us)) \<Longrightarrow> last (x # filter P us) = last (x # us)"
  using last_filter [of us P] by (cases "us = []") (auto simp: filter_empty_conv)

section \<open>The invariant\<close>

definition node_height :: "'k skiplist \<Rightarrow> nat \<Rightarrow> nat" where
  "node_height sl x = length (node_links (sl_nodes sl ! x))"

definition link :: "'k skiplist \<Rightarrow> nat \<Rightarrow> nat \<Rightarrow> nat option" where
  "link sl i x = node_links (sl_nodes sl ! x) ! i"

abbreviation level_of :: "'k skiplist \<Rightarrow> nat \<Rightarrow> nat list \<Rightarrow> nat list" where
  "level_of sl i xs \<equiv> filter (\<lambda>x. i < node_height sl x) xs"

text \<open>
  \<open>shape sl order\<close>: \<open>order\<close> holds every node but the head, the heights are in bounds, and level \<open>i\<close>
  links exactly the nodes higher than \<open>i\<close>, in the order of \<open>order\<close>.
\<close>

definition shape :: "'k skiplist \<Rightarrow> nat list \<Rightarrow> bool" where
  "shape sl order \<longleftrightarrow> sl_nodes sl \<noteq> [] \<and> distinct (0 # order) \<and> set (0 # order) = {..<length (sl_nodes sl)} \<and>
     node_height sl 0 = kMaxHeight \<and> 1 \<le> sl_max_height sl \<and> sl_max_height sl \<le> kMaxHeight \<and>
     (\<forall>x\<in>set order. 1 \<le> node_height sl x \<and> node_height sl x \<le> sl_max_height sl) \<and>
     (\<forall>i<kMaxHeight. links (link sl i) 0 (level_of sl i order))"

definition sl_inv :: "('k \<Rightarrow> bool) \<Rightarrow> ('k \<Rightarrow> 'k \<Rightarrow> int) \<Rightarrow> 'k skiplist \<Rightarrow> nat list \<Rightarrow> bool" where
  "sl_inv valid cmp sl order \<longleftrightarrow> shape sl order \<and> (\<forall>x\<in>set order. valid (sl_key sl x)) \<and>
     sorted_wrt (\<lambda>x y. cmp (sl_key sl x) (sl_key sl y) < 0) order"

definition skiplist_of :: "('k \<Rightarrow> bool) \<Rightarrow> ('k \<Rightarrow> 'k \<Rightarrow> int) \<Rightarrow> 'k skiplist \<Rightarrow> 'k list \<Rightarrow> bool" where
  "skiplist_of valid cmp sl ks \<longleftrightarrow> (\<exists>order. sl_inv valid cmp sl order \<and> ks = map (sl_key sl) order)"

lemma shape_length: "shape sl order \<Longrightarrow> length (sl_nodes sl) = Suc (length order)"
  unfolding shape_def by (metis card_lessThan distinct_card length_Cons)

lemma node_Next_eq: "x < length (sl_nodes sl) \<Longrightarrow> i < node_height sl x \<Longrightarrow> node_Next sl x i = Ret (link sl i x)"
  by (simp add: node_Next_def node_height_def link_def)

lemma shape_Next:
  assumes sh: "shape sl (A1 @ R)" and i: "i < node_height sl (last (0 # A1))" "i < kMaxHeight"
  shows "node_Next sl (last (0 # A1)) i = Ret (hd_opt (level_of sl i R))"
proof -
  have "last (0 # A1) \<in> set (0 # A1)" by (rule last_in_set) simp
  then have "last (0 # A1) < length (sl_nodes sl)" using sh by (auto simp: shape_def)
  moreover have "links (link sl i) 0 (level_of sl i A1 @ level_of sl i R)"
    using sh i(2) by (auto simp: shape_def)
  from links_last [OF this] have "link sl i (last (0 # A1)) = hd_opt (level_of sl i R)"
    by (simp only: last_filter0 [of "\<lambda>x. i < node_height sl x", OF i(1)])
  ultimately show ?thesis using i(1) by (simp add: node_Next_eq)
qed

section \<open>The searches\<close>

text \<open>What a search leaves in \<open>prev\<close> on the levels up to \<open>level\<close>, when it goes past the nodes \<open>A\<close>.\<close>

definition prev_set :: "'k skiplist \<Rightarrow> nat list \<Rightarrow> nat \<Rightarrow> nat option list \<Rightarrow> nat option list" where
  "prev_set sl A level prev =
     map (\<lambda>j. if j \<le> level then Some (last (0 # level_of sl j A)) else prev ! j) [0..<length prev]"

lemma prev_set_step:
  "prev_set sl A (level - 1) (prev[level := Some (last (0 # level_of sl level A))]) = prev_set sl A level prev"
  if "0 < level"
  using that by (auto simp: prev_set_def nth_list_update)

lemma prev_set_0: "prev_set sl A 0 prev = prev[0 := Some (last (0 # level_of sl 0 A))]"
  by (rule nth_equalityI) (auto simp: prev_set_def nth_list_update simp del: last.simps)

lemma filter_first:
  "filter P xs = y # ys \<Longrightarrow> \<exists>us vs. xs = us @ y # vs \<and> P y \<and> (\<forall>u\<in>set us. \<not> P u)"
  unfolding filter_eq_Cons_iff by blast

lemma shape_height: "shape sl order \<Longrightarrow> x \<in> set order \<Longrightarrow> 0 < node_height sl x"
  by (auto simp: shape_def Suc_le_eq)

lemma shape_bounds:
  "shape sl order \<Longrightarrow> x \<in> set order \<Longrightarrow> node_height sl x \<le> sl_max_height sl \<and> x < length (sl_nodes sl)"
  by (auto simp: shape_def)

lemma level_0: "shape sl (A1 @ A2 @ B) \<Longrightarrow> level_of sl 0 A2 = A2" "shape sl (A1 @ A2 @ B) \<Longrightarrow> level_of sl 0 B = B"
  using shape_height [of sl "A1 @ A2 @ B"] by (simp_all add: filter_id_conv)

lemma find_ge_loop_finds:
  assumes "shape sl (A1 @ A2 @ B)" "level < node_height sl x" "level < kMaxHeight" "x = last (0 # A1)"
    and "\<And>y. y \<in> set A2 \<Longrightarrow> cmp (sl_key sl y) key < 0" "\<And>y. y \<in> set B \<Longrightarrow> \<not> cmp (sl_key sl y) key < 0"
    and "length A2 + level < k"
  shows "find_ge_loop k cmp sl key x level prev = Ret (hd_opt B, prev_set sl (A1 @ A2) level prev)"
  using assms
proof (induction k arbitrary: A1 A2 x level prev)
  case (Suc k)
  have next_eq: "node_Next sl x level = Ret (hd_opt (level_of sl level (A2 @ B)))"
    using shape_Next [of sl A1 "A2 @ B" level] Suc.prems(1-4) by (simp del: last.simps filter_append)
  show ?case
  proof (cases "level_of sl level A2")
    case (Cons y ys)
    then obtain us vs where A2: "A2 = us @ y # vs" "level < node_height sl y"
      using filter_first by fastforce
    have "find_ge_loop k cmp sl key y level prev = Ret (hd_opt B, prev_set sl ((A1 @ us @ [y]) @ vs) level prev)"
      by (rule Suc.IH) (use Suc.prems A2 in auto)
    moreover have "node_Next sl x level = Ret (Some y)" using next_eq Cons by simp
    ultimately show ?thesis using Suc.prems(5) [of y] A2 by (simp add: KeyIsAfterNode_def)
  next
    case Nil
    have stop: "\<not> KeyIsAfterNode cmp sl key (hd_opt (level_of sl level (A2 @ B)))"
    proof -
      have "level_of sl level (A2 @ B) = level_of sl level B" using Nil by simp
      moreover have "hd_opt (level_of sl level B) = None \<or> \<not> cmp (sl_key sl (the (hd_opt (level_of sl level B)))) key < 0"
        by (rule hd_opt_stop) (use Suc.prems(6) in simp)
      ultimately show ?thesis
        by (cases "hd_opt (level_of sl level B)") (simp_all add: KeyIsAfterNode_def del: filter_append)
    qed
    have x: "last (0 # level_of sl level (A1 @ A2)) = x"
      using Nil last_filter0 [of "\<lambda>x. level < node_height sl x" 0 A1] Suc.prems(2,4) by (simp del: last.simps)
    show ?thesis
    proof (cases "level = 0")
      case True
      with Nil level_0 [OF Suc.prems(1)] have "A2 = []" "level_of sl 0 B = B" by simp_all
      moreover from this next_eq True have "node_Next sl x 0 = Ret (hd_opt B)" by simp
      ultimately show ?thesis using True stop x by (simp add: prev_set_0 del: last.simps)
    next
      case False
      have "find_ge_loop k cmp sl key x (level - 1) (prev[level := Some x]) =
        Ret (hd_opt B, prev_set sl (A1 @ A2) (level - 1) (prev[level := Some x]))"
        by (rule Suc.IH) (use Suc.prems False in auto)
      moreover have "prev_set sl (A1 @ A2) (level - 1) (prev[level := Some x]) = prev_set sl (A1 @ A2) level prev"
        using False prev_set_step [of level sl "A1 @ A2" prev] by (simp only: x)
      ultimately show ?thesis using False stop by (simp add: next_eq del: filter_append)
    qed
  qed
qed simp

text \<open>The other two searches only keep the node: \<open>walk\<close> is their common form, over the test to go on.\<close>

fun walk :: "nat \<Rightarrow> (nat \<Rightarrow> bool) \<Rightarrow> 'k skiplist \<Rightarrow> nat \<Rightarrow> nat \<Rightarrow> nat run" where
  "walk 0 P sl x level = Fuel_Out"
| "walk (Suc k) P sl x level =
     rbind (node_Next sl x level) (\<lambda>nxt.
       if nxt \<noteq> None \<and> P (the nxt) then walk k P sl (the nxt) level
       else if level = 0 then Ret x else walk k P sl x (level - 1))"

lemma find_lt_loop_walk:
  "x = 0 \<or> cmp (sl_key sl x) key < 0 \<Longrightarrow>
     find_lt_loop k cmp sl key x level = walk k (\<lambda>y. cmp (sl_key sl y) key < 0) sl x level"
  by (induction k cmp sl key x level rule: find_lt_loop.induct) (auto intro!: rbind_cong simp: not_le not_less)

lemma find_last_loop_walk: "find_last_loop k sl x level = walk k (\<lambda>y. True) sl x level"
  by (induction k sl x level rule: find_last_loop.induct) (auto intro!: rbind_cong)

lemma walk_finds:
  assumes "shape sl (A1 @ A2 @ B)" "level < node_height sl x" "level < kMaxHeight" "x = last (0 # A1)"
    and "\<And>y. y \<in> set A2 \<Longrightarrow> P y" "\<And>y. y \<in> set B \<Longrightarrow> \<not> P y" "length A2 + level < k"
  shows "walk k P sl x level = Ret (last (0 # A1 @ A2))"
  using assms
proof (induction k arbitrary: A1 A2 x level)
  case (Suc k)
  have next_eq: "node_Next sl x level = Ret (hd_opt (level_of sl level (A2 @ B)))"
    using shape_Next [of sl A1 "A2 @ B" level] Suc.prems(1-4) by (simp del: last.simps filter_append)
  show ?case
  proof (cases "level_of sl level A2")
    case (Cons y ys)
    then obtain us vs where A2: "A2 = us @ y # vs" "level < node_height sl y"
      using filter_first by fastforce
    have "walk k P sl y level = Ret (last (0 # (A1 @ us @ [y]) @ vs))"
      by (rule Suc.IH) (use Suc.prems A2 in auto)
    moreover have "node_Next sl x level = Ret (Some y)" using next_eq Cons by simp
    ultimately show ?thesis using Suc.prems(5) [of y] A2 by (simp del: last.simps)
  next
    case Nil
    have stop: "\<not> (hd_opt (level_of sl level (A2 @ B)) \<noteq> None \<and> P (the (hd_opt (level_of sl level (A2 @ B)))))"
    proof -
      have "level_of sl level (A2 @ B) = level_of sl level B" using Nil by simp
      moreover have "hd_opt (level_of sl level B) = None \<or> \<not> P (the (hd_opt (level_of sl level B)))"
        by (rule hd_opt_stop) (use Suc.prems(6) in simp)
      ultimately show ?thesis by auto
    qed
    show ?thesis
    proof (cases "level = 0")
      case True
      with Nil level_0 [OF Suc.prems(1)] have "A2 = []" "level_of sl 0 B = B" by simp_all
      moreover from this next_eq True have "node_Next sl x 0 = Ret (hd_opt B)" by simp
      ultimately show ?thesis using True stop by (auto simp: Suc.prems(4) [symmetric] simp del: last.simps)
    next
      case False
      have "walk k P sl x (level - 1) = Ret (last (0 # A1 @ A2))"
        by (rule Suc.IH) (use Suc.prems False in auto)
      with False stop show ?thesis by (auto simp add: next_eq simp del: last.simps filter_append)
    qed
  qed
qed simp

section \<open>Linking a node\<close>

text \<open>\<open>relinked sl sl' f\<close>: the same nodes with the links \<open>f\<close>.\<close>

definition relinked :: "'k skiplist \<Rightarrow> 'k skiplist \<Rightarrow> (nat \<Rightarrow> nat \<Rightarrow> nat option) \<Rightarrow> bool" where
  "relinked sl sl' f \<longleftrightarrow> length (sl_nodes sl') = length (sl_nodes sl) \<and> sl_key sl' = sl_key sl \<and>
     node_height sl' = node_height sl \<and> sl_max_height sl' = sl_max_height sl \<and> sl_rnd sl' = sl_rnd sl \<and>
     link sl' = f"

lemma nth_update_in: "x < length xs \<Longrightarrow> xs[x := v] ! y = (if y = x then v else xs ! y)"
  by (cases "y = x") simp_all

lemma node_SetNext_relinks:
  assumes "x < length (sl_nodes sl)" "n < node_height sl x"
  shows "\<exists>sl'. node_SetNext sl x n p = Ret sl' \<and>
    relinked sl sl' (\<lambda>j y. if j = n \<and> y = x then p else link sl j y)"
  using assms
  by (auto simp: node_SetNext_def relinked_def node_height_def link_def sl_key_def Let_def fun_eq_iff nth_update_in)

lemma link_loop_relinks:
  assumes "x < length (sl_nodes sl)" "i + n \<le> node_height sl x"
    and "\<And>j. i \<le> j \<Longrightarrow> j < i + n \<Longrightarrow> prev ! j = Some (p j) \<and> p j < length (sl_nodes sl) \<and> p j \<noteq> x \<and> j < node_height sl (p j)"
  shows "\<exists>sl'. link_loop i n x prev sl = Ret sl' \<and> relinked sl sl' (\<lambda>j y.
    if i \<le> j \<and> j < i + n then if y = p j then Some x else if y = x then link sl j (p j) else link sl j y
    else link sl j y)"
  using assms
proof (induction n arbitrary: i sl)
  case 0
  then show ?case by (auto simp: relinked_def fun_eq_iff)
next
  case (Suc n)
  from Suc.prems(3) [of i] have p: "prev ! i = Some (p i)" "p i < length (sl_nodes sl)" "p i \<noteq> x" "i < node_height sl (p i)"
    by simp_all
  have "i < node_height sl x" using Suc.prems(2) by simp
  from node_SetNext_relinks [OF Suc.prems(1) this] obtain sl1 where
    sl1: "node_SetNext sl x i (link sl i (p i)) = Ret sl1"
      "relinked sl sl1 (\<lambda>j y. if j = i \<and> y = x then link sl i (p i) else link sl j y)" by blast
  then have "p i < length (sl_nodes sl1)" "i < node_height sl1 (p i)" using p by (simp_all add: relinked_def)
  from node_SetNext_relinks [OF this] obtain sl2 where
    sl2: "node_SetNext sl1 (p i) i (Some x) = Ret sl2"
      "relinked sl1 sl2 (\<lambda>j y. if j = i \<and> y = p i then Some x else link sl1 j y)" by blast
  have same: "length (sl_nodes sl2) = length (sl_nodes sl)" "node_height sl2 = node_height sl"
    using sl1(2) sl2(2) by (simp_all add: relinked_def)
  have lk: "link sl2 = (\<lambda>j y. if j = i \<and> y = p i then Some x else if j = i \<and> y = x then link sl i (p i) else link sl j y)"
    using sl1(2) sl2(2) by (auto simp: relinked_def fun_eq_iff)
  have "\<exists>sl'. link_loop (Suc i) n x prev sl2 = Ret sl' \<and> relinked sl2 sl' (\<lambda>j y.
    if Suc i \<le> j \<and> j < Suc i + n then if y = p j then Some x else if y = x then link sl2 j (p j) else link sl2 j y
    else link sl2 j y)"
    by (rule Suc.IH) (use Suc.prems same in auto)
  then obtain sl' where sl': "link_loop (Suc i) n x prev sl2 = Ret sl'" "relinked sl2 sl' (\<lambda>j y.
    if Suc i \<le> j \<and> j < Suc i + n then if y = p j then Some x else if y = x then link sl2 j (p j) else link sl2 j y
    else link sl2 j y)" by blast
  have "link_loop i (Suc n) x prev sl = Ret sl'"
    using p by (simp add: node_Next_eq sl1 sl2 sl')
  moreover have "link sl' j y = (if i \<le> j \<and> j < i + Suc n then if y = p j then Some x else if y = x
      then link sl j (p j) else link sl j y else link sl j y)" for j y
  proof -
    have "i \<le> j \<longleftrightarrow> j = i \<or> Suc i \<le> j" by auto
    with sl'(2) p(3) show ?thesis by (cases "j = i") (simp_all add: relinked_def lk)
  qed
  ultimately show ?case
    using sl'(2) sl2(2) sl1(2) by (auto simp: relinked_def fun_eq_iff)
qed

lemma RandomHeight_range: "1 \<le> fst (RandomHeight rnd) \<and> fst (RandomHeight rnd) \<le> kMaxHeight"
proof -
  have "h \<le> fst (random_height_loop h rnd) \<and> fst (random_height_loop h rnd) \<le> kMaxHeight" if "h \<le> kMaxHeight" for h
    using that
  proof (induction h rnd rule: random_height_loop.induct)
    case (1 h rnd)
    obtain r s where r: "Random_Next rnd = (r, s)" by force
    show ?case
    proof (cases "h < kMaxHeight \<and> r mod 4 = 0")
      case True
      with 1 r have "h + 1 \<le> fst (random_height_loop (h + 1) s) \<and> fst (random_height_loop (h + 1) s) \<le> kMaxHeight"
        by simp
      moreover have "random_height_loop h rnd = random_height_loop (h + 1) s"
        using True r by (subst random_height_loop.simps) simp
      ultimately show ?thesis by simp
    next
      case False
      then have "fst (random_height_loop h rnd) = h" using r by (subst random_height_loop.simps) auto
      with 1(2) show ?thesis by simp
    qed
  qed
  from this [of 1] show ?thesis by (simp add: RandomHeight_def)
qed

section \<open>The operations on a sorted list\<close>

context key_order begin

definition before :: "'k skiplist \<Rightarrow> 'k \<Rightarrow> nat \<Rightarrow> bool" where
  "before sl key x \<longleftrightarrow> compare (sl_key sl x) key < 0"

lemma split_order:
  assumes "sl_inv valid compare sl order" "valid key"
  shows "y \<in> set (takeWhile (before sl key) order) \<Longrightarrow> compare (sl_key sl y) key < 0"
    and "y \<in> set (dropWhile (before sl key) order) \<Longrightarrow> \<not> compare (sl_key sl y) key < 0"
proof -
  show "y \<in> set (takeWhile (before sl key) order) \<Longrightarrow> compare (sl_key sl y) key < 0"
    by (auto dest: set_takeWhileD simp: before_def)
  assume y: "y \<in> set (dropWhile (before sl key) order)"
  then obtain b bs where B: "dropWhile (before sl key) order = b # bs" by (cases "dropWhile (before sl key) order") auto
  then have b: "\<not> compare (sl_key sl b) key < 0"
    using hd_dropWhile [of "before sl key" order] by (simp add: before_def)
  have "order = takeWhile (before sl key) order @ b # bs" using B by (metis takeWhile_dropWhile_id)
  then have "sorted_wrt (\<lambda>x y. compare (sl_key sl x) (sl_key sl y) < 0) (takeWhile (before sl key) order @ b # bs)"
    and v: "\<forall>x\<in>set (b # bs). valid (sl_key sl x)"
    using assms(1) unfolding sl_inv_def by (metis, metis Un_iff set_append)
  then have "y = b \<or> compare (sl_key sl b) (sl_key sl y) < 0" using y B by (auto simp: sorted_wrt_append)
  moreover have "valid (sl_key sl y)" "valid (sl_key sl b)" using v y B by auto
  ultimately show "\<not> compare (sl_key sl y) key < 0"
    using b compare_less_trans [of "sl_key sl b" "sl_key sl y" key] assms(2) by auto
qed

lemma FindGreaterOrEqual_finds:
  assumes "sl_inv valid compare sl order" "valid key"
  shows "FindGreaterOrEqual compare sl key prev = Ret (hd_opt (dropWhile (before sl key) order),
    prev_set sl (takeWhile (before sl key) order) (sl_max_height sl - 1) prev)"
proof -
  let ?A = "takeWhile (before sl key) order" and ?B = "dropWhile (before sl key) order"
  have sh: "shape sl ([] @ ?A @ ?B)" using assms(1) by (simp add: sl_inv_def)
  then have "sl_max_height sl - 1 < node_height sl 0" "sl_max_height sl - 1 < kMaxHeight"
    by (auto simp: shape_def)
  moreover have "length ?A + (sl_max_height sl - 1) < search_fuel sl"
    using shape_length [OF sh] length_takeWhile_le [of "before sl key" order] by (simp add: search_fuel_def)
  ultimately show ?thesis
    unfolding FindGreaterOrEqual_def
    by (subst find_ge_loop_finds [OF sh]) (use split_order [OF assms] in auto)
qed

lemma FindLessThan_finds:
  assumes "sl_inv valid compare sl order" "valid key"
  shows "FindLessThan compare sl key = Ret (last (0 # takeWhile (before sl key) order))"
proof -
  let ?A = "takeWhile (before sl key) order" and ?B = "dropWhile (before sl key) order"
  have sh: "shape sl ([] @ ?A @ ?B)" using assms(1) by (simp add: sl_inv_def)
  then have "sl_max_height sl - 1 < node_height sl 0" "sl_max_height sl - 1 < kMaxHeight"
    by (auto simp: shape_def)
  moreover have "length ?A + (sl_max_height sl - 1) < search_fuel sl"
    using shape_length [OF sh] length_takeWhile_le [of "before sl key" order] by (simp add: search_fuel_def)
  ultimately show ?thesis
    using walk_finds [OF sh, of _ 0 "\<lambda>y. compare (sl_key sl y) key < 0"] split_order [OF assms]
    by (simp add: FindLessThan_def find_lt_loop_walk)
qed

end

lemma FindLast_finds:
  assumes "shape sl order"
  shows "FindLast sl = Ret (last (0 # order))"
proof -
  have "sl_max_height sl - 1 < node_height sl 0" "sl_max_height sl - 1 < kMaxHeight"
    using assms by (auto simp: shape_def)
  moreover have "length order + (sl_max_height sl - 1) < search_fuel sl"
    using shape_length [OF assms] by (simp add: search_fuel_def)
  ultimately show ?thesis
    using walk_finds [of sl "[]" order "[]" _ 0 "\<lambda>y. True"] assms
    by (simp add: FindLast_def find_last_loop_walk)
qed

section \<open>Inserting\<close>

lemma shape_insert:
  assumes sh: "shape sl (A @ B)" and h: "1 \<le> h" "h \<le> kMaxHeight" and mh: "mh = max h (sl_max_height sl)"
    and sl1: "sl1 = snd (NewNode (sl\<lparr>sl_rnd := rnd, sl_max_height := mh\<rparr>) key h)"
    and re: "relinked sl1 sl' (\<lambda>j y. if j < h then if y = last (0 # level_of sl j A) then Some (length (sl_nodes sl))
        else if y = length (sl_nodes sl) then link sl1 j (last (0 # level_of sl j A)) else link sl1 j y
        else link sl1 j y)"
  shows "shape sl' (A @ length (sl_nodes sl) # B) \<and> sl_key sl' (length (sl_nodes sl)) = key \<and>
    (\<forall>y\<in>set (A @ B). sl_key sl' y = sl_key sl y)"
proof -
  let ?z = "length (sl_nodes sl)"
  have new: "sl_nodes sl1 = sl_nodes sl @ [\<lparr>node_key = key, node_links = replicate h None\<rparr>]" "sl_max_height sl1 = mh"
    by (simp_all add: sl1 NewNode_def)
  have old: "y < ?z" if "y \<in> set (0 # A @ B)" for y
    using sh that by (auto simp: shape_def)
  have height: "node_height sl' y = (if y = ?z then h else node_height sl y)" if "y \<le> ?z" for y
    using re that by (simp add: relinked_def) (simp add: node_height_def new nth_append)
  have key: "sl_key sl' y = (if y = ?z then key else sl_key sl y)" if "y \<le> ?z" for y
    using re that by (simp add: relinked_def) (simp add: sl_key_def new nth_append)
  have link1: "link sl1 j y = link sl j y" if "y < ?z" for j y
    using that by (simp add: link_def new nth_append)
  have height_old: "node_height sl' y = node_height sl y" if "y \<in> set (0 # A @ B)" for y
    using height [of y] old [OF that] by simp
  have levels: "level_of sl' i A = level_of sl i A" "level_of sl' i B = level_of sl i B" for i
    using height_old by (auto intro!: filter_cong)
  have chain: "links (link sl' i) 0 (level_of sl' i (A @ ?z # B))" if i: "i < kMaxHeight" for i
  proof -
    let ?us = "level_of sl i A" and ?vs = "level_of sl i B"
    have ch: "links (link sl i) 0 (?us @ ?vs)" using sh i by (auto simp: shape_def)
    have mem: "y < ?z" if "y \<in> set (0 # ?us @ ?vs)" for y using old that by auto
    have last: "last (0 # ?us) \<in> set (0 # ?us)" by (rule last_in_set) simp
    have lnk: "link sl' i y = (if i < h then if y = last (0 # ?us) then Some ?z
        else if y = ?z then link sl1 i (last (0 # ?us)) else link sl1 i y else link sl1 i y)" for y
      using re by (simp add: relinked_def)
    show ?thesis
    proof (cases "i < h")
      case True
      have "distinct (0 # ?us @ ?vs)" using sh by (auto simp: shape_def)
      moreover have "?z \<notin> set (0 # ?us @ ?vs)" using mem by blast
      moreover have "link sl' i ?z = link sl i (last (0 # ?us))"
        using True lnk link1 mem [of "last (0 # ?us)"] last by (auto simp del: last.simps)
      ultimately have "links (link sl' i) 0 (?us @ ?z # ?vs)"
        using True lnk link1 mem by (intro links_insert [OF ch]) (auto simp del: last.simps)
      with True show ?thesis by (simp add: levels height)
    next
      case False
      have "links (link sl' i) 0 (?us @ ?vs) = links (link sl i) 0 (?us @ ?vs)"
        by (rule links_cong) (use False lnk link1 mem in auto)
      with False ch show ?thesis by (simp add: levels height)
    qed
  qed
  have n0: "0 < ?z" using sh by (simp add: shape_def)
  have "shape sl' (A @ ?z # B)"
    unfolding shape_def
  proof (intro conjI ballI allI impI chain)
    show "sl_nodes sl' \<noteq> []" using re by (auto simp: relinked_def new)
    show "distinct (0 # A @ ?z # B)" using sh old by (fastforce simp: shape_def)
    have "set (0 # A @ ?z # B) = insert ?z (set (0 # A @ B))" by auto
    also have "set (0 # A @ B) = {..<?z}" using sh unfolding shape_def by (elim conjE)
    also have "insert ?z {..<?z} = {..<length (sl_nodes sl')}"
      using re by (simp only: relinked_def new) (simp add: lessThan_Suc)
    finally show "set (0 # A @ ?z # B) = {..<length (sl_nodes sl')}" .
    show "node_height sl' 0 = kMaxHeight" using height [of 0] n0 sh by (simp add: shape_def)
    show "1 \<le> sl_max_height sl'" "sl_max_height sl' \<le> kMaxHeight"
      using re sh h by (simp_all add: relinked_def new mh shape_def)
    fix x assume "x \<in> set (A @ ?z # B)"
    then consider "x = ?z" | "x \<in> set (A @ B)" by auto
    then have "1 \<le> node_height sl' x \<and> node_height sl' x \<le> mh"
    proof cases
      case 1
      then show ?thesis using height [of ?z] h mh by simp
    next
      case 2
      then have "node_height sl' x = node_height sl x" by (intro height_old) auto
      with shape_bounds [OF sh 2] shape_height [OF sh 2] mh show ?thesis by (auto simp: max_def)
    qed
    moreover have "sl_max_height sl' = mh" using re by (simp add: relinked_def new)
    ultimately show "1 \<le> node_height sl' x" "node_height sl' x \<le> sl_max_height sl'" by simp_all
  qed
  moreover have "\<forall>y\<in>set (A @ B). sl_key sl' y = sl_key sl y"
  proof
    fix y assume "y \<in> set (A @ B)"
    then have "y < ?z" by (intro old) auto
    then show "sl_key sl' y = sl_key sl y" using key [of y] by simp
  qed
  ultimately show ?thesis using key by simp
qed

context key_order begin

text \<open>The keys after an insertion: the new key stands before the first key that is not below it.\<close>

lemma Insert_inserts:
  assumes inv: "sl_inv valid compare sl order" and key: "valid key"
    and new: "\<And>x. x \<in> set order \<Longrightarrow> compare (sl_key sl x) key \<noteq> 0"
  shows "\<exists>sl' z. Insert compare sl key = Ret sl' \<and>
    sl_inv valid compare sl' (takeWhile (before sl key) order @ z # dropWhile (before sl key) order) \<and>
    sl_key sl' z = key \<and> (\<forall>y\<in>set order. sl_key sl' y = sl_key sl y)"
proof -
  define A where "A = takeWhile (before sl key) order"
  define B where "B = dropWhile (before sl key) order"
  have order: "order = A @ B" by (simp add: A_def B_def)
  have sh: "shape sl (A @ B)" using inv by (simp add: sl_inv_def order)
  note split = split_order [OF inv key, folded A_def B_def]
  obtain h rnd where hr: "RandomHeight (sl_rnd sl) = (h, rnd)" by force
  have h: "1 \<le> h" "h \<le> kMaxHeight" using RandomHeight_range [of "sl_rnd sl"] hr by simp_all
  define old where "old = sl_max_height sl"
  have o: "1 \<le> old" "old \<le> kMaxHeight" using sh by (auto simp: old_def shape_def)
  define prev where "prev = prev_set sl A (old - 1) (replicate kMaxHeight None)"
  have find: "FindGreaterOrEqual compare sl key (replicate kMaxHeight None) = Ret (hd_opt B, prev)"
    using FindGreaterOrEqual_finds [OF inv key] by (simp add: A_def B_def prev_def old_def)
  define prev' where "prev' = (if h > old
      then map (\<lambda>i. if old \<le> i \<and> i < h then Some 0 else prev ! i) [0..<length prev] else prev)"
  have high: "level_of sl i A = []" if "old \<le> i" for i
    unfolding filter_empty_conv
  proof
    fix x assume "x \<in> set A"
    with shape_bounds [OF sh, of x] that show "\<not> i < node_height sl x" by (simp add: old_def)
  qed
  have prev': "prev' ! i = Some (last (0 # level_of sl i A))" if "i < h" for i
    using that h o high [of i] by (auto simp: prev'_def prev_def prev_set_def)
  let ?sl = "sl\<lparr>sl_rnd := rnd, sl_max_height := max h old\<rparr>"
  define z where "z = length (sl_nodes sl)"
  define sl1 where "sl1 = snd (NewNode ?sl key h)"
  have nodes1: "sl_nodes sl1 = sl_nodes sl @ [\<lparr>node_key = key, node_links = replicate h None\<rparr>]"
    by (simp add: sl1_def NewNode_def)
  have "\<exists>sl'. link_loop 0 h z prev' sl1 = Ret sl' \<and> relinked sl1 sl' (\<lambda>j y.
    if 0 \<le> j \<and> j < 0 + h then if y = last (0 # level_of sl j A) then Some z
      else if y = z then link sl1 j (last (0 # level_of sl j A)) else link sl1 j y
    else link sl1 j y)"
  proof (rule link_loop_relinks)
    show "z < length (sl_nodes sl1)" "0 + h \<le> node_height sl1 z" by (simp_all add: nodes1 z_def node_height_def)
    fix j assume j: "j < 0 + h"
    define p where "p = last (0 # level_of sl j A)"
    have "p \<in> set (0 # level_of sl j A)" unfolding p_def by (rule last_in_set) simp
    then have p: "p = 0 \<or> p \<in> set A \<and> j < node_height sl p" by auto
    then have "p < z" using sh by (auto simp: shape_def z_def)
    moreover from p have "j < node_height sl p" using j h sh by (auto simp: shape_def)
    ultimately have "p < length (sl_nodes sl1) \<and> p \<noteq> z \<and> j < node_height sl1 p"
      by (simp add: nodes1 z_def node_height_def nth_append)
    with prev' [of j] j show "prev' ! j = Some (last (0 # level_of sl j A)) \<and> last (0 # level_of sl j A) < length (sl_nodes sl1) \<and>
        last (0 # level_of sl j A) \<noteq> z \<and> j < node_height sl1 (last (0 # level_of sl j A))"
      by (simp only: p_def) simp
  qed
  then obtain sl' where sl': "link_loop 0 h z prev' sl1 = Ret sl'" "relinked sl1 sl' (\<lambda>j y.
    if j < h then if y = last (0 # level_of sl j A) then Some z
      else if y = z then link sl1 j (last (0 # level_of sl j A)) else link sl1 j y
    else link sl1 j y)" by (auto simp del: last.simps)
  have "hd_opt B = None \<or> \<not> Equal compare key (sl_key sl (the (hd_opt B)))"
  proof (cases B)
    case (Cons b bs)
    then have "b \<in> set order" by (simp add: order)
    with new [of b] have "compare key (sl_key sl b) \<noteq> 0"
      using compare_flip [of key "sl_key sl b"] compare_flip [of "sl_key sl b" key] inv key
      by (auto simp: sl_inv_def)
    with Cons show ?thesis by (simp add: Equal_def)
  qed simp
  then have "Insert compare sl key = link_loop 0 h z prev' (snd (NewNode (sl\<lparr>sl_rnd := rnd,
      sl_max_height := (if h > old then h else old)\<rparr>) key h))"
    unfolding Insert_def find rbind_simps prod.case hr Let_def prev'_def old_def z_def by (simp add: NewNode_def)
  moreover have "(if h > old then h else old) = max h old" by simp
  ultimately have ins: "Insert compare sl key = Ret sl'" using sl'(1) by (simp only: sl1_def)
  from shape_insert [OF sh h _ sl1_def [unfolded old_def] sl'(2) [unfolded z_def]]
  have sh': "shape sl' (A @ z # B)" and kz: "sl_key sl' z = key" and ks: "\<forall>y\<in>set (A @ B). sl_key sl' y = sl_key sl y"
    by (simp_all add: z_def)
  have v: "\<forall>x\<in>set (A @ B). valid (sl_key sl x)" using inv by (simp add: sl_inv_def order)
  have sorted: "sorted_wrt (\<lambda>x y. compare (sl_key sl x) (sl_key sl y) < 0) (A @ B)"
    using inv by (simp add: sl_inv_def order)
  have "compare key (sl_key sl b) < 0" if "b \<in> set B" for b
    using split(2) [OF that] new [of b] that compare_flip [of key "sl_key sl b"] v key
    by (auto simp: order)
  then have "sorted_wrt (\<lambda>x y. compare (sl_key sl' x) (sl_key sl' y) < 0) (A @ z # B)"
    using sorted ks kz split(1) by (auto simp: sorted_wrt_append intro: sorted_wrt_mono_rel [rotated])
  then have "sl_inv valid compare sl' (A @ z # B)"
    using sh' v ks kz key by (auto simp: sl_inv_def)
  with ins kz ks show ?thesis by (auto simp: A_def B_def order [symmetric])
qed

end

section \<open>Positions of iterators\<close>

definition sl_cursor :: "nat list \<Rightarrow> nat \<Rightarrow> nat option" where
  "sl_cursor order n = (if n < length order then Some (order ! n) else None)"

lemma sl_cursor_hd: "hd_opt (drop n order) = sl_cursor order n"
  by (cases "n < length order") (simp_all add: sl_cursor_def Cons_nth_drop_Suc [symmetric])

lemma shape_Next_0:
  assumes "shape sl order" "n \<le> length order"
  shows "node_Next sl (last (0 # take n order)) 0 = Ret (sl_cursor order n)"
proof -
  have sh: "shape sl (take n order @ drop n order)" using assms(1) by simp
  have "last (0 # take n order) \<in> set (0 # take n order)" by (rule last_in_set) simp
  then have "last (0 # take n order) = 0 \<or> last (0 # take n order) \<in> set order" by (auto dest: in_set_takeD)
  then have "0 < node_height sl (last (0 # take n order))"
    using assms(1) shape_height [OF assms(1)] by (auto simp: shape_def simp del: last.simps)
  from shape_Next [OF sh this] show ?thesis
    using level_0(2) [of sl "[]" "take n order" "drop n order"] sh by (simp add: sl_cursor_hd del: last.simps)
qed

lemma last_take: "n < length order \<Longrightarrow> last (0 # take (Suc n) order) = order ! n"
  by (simp add: take_Suc_conv_app_nth)

lemma sl_iter_Next_cursor:
  "shape sl order \<Longrightarrow> n < length order \<Longrightarrow> sl_iter_Next sl (sl_cursor order n) = Ret (sl_cursor order (Suc n))"
  using shape_Next_0 [of sl order "Suc n"] by (simp add: sl_iter_Next_def sl_cursor_def last_take del: last.simps)

lemma cursor_of_last:
  assumes "shape sl order" "n \<le> length order"
  shows "(if last (0 # take n order) = 0 then None else Some (last (0 # take n order))) =
    (if n = 0 then None else sl_cursor order (n - 1))"
proof (cases n)
  case (Suc m)
  then have "order ! m \<in> set order" using assms(2) by simp
  then have "order ! m \<noteq> 0" using assms(1) by (auto simp: shape_def)
  with Suc assms(2) last_take [of m order] show ?thesis by (simp add: sl_cursor_def del: last.simps)
qed simp

context key_order begin

lemma takeWhile_before:
  assumes "sl_inv valid compare sl order" "n < length order"
  shows "takeWhile (before sl (sl_key sl (order ! n))) order = take n order"
proof -
  let ?k = "sl_key sl (order ! n)"
  have srt: "sorted_wrt (\<lambda>x y. compare (sl_key sl x) (sl_key sl y) < 0) order"
    and v: "\<And>i. i < length order \<Longrightarrow> valid (sl_key sl (order ! i))"
    using assms(1) by (simp_all add: sl_inv_def)
  have "before sl ?k (order ! i)" if "i < n" for i
    using srt that assms(2) by (simp add: before_def sorted_wrt_iff_nth_less)
  moreover have "\<not> before sl ?k (order ! n)"
    using compare_refl [OF v [OF assms(2)]] by (simp add: before_def)
  ultimately show ?thesis using assms(2) by (simp add: takeWhile_eq_take_P_nth)
qed

lemma sl_iter_Prev_cursor:
  assumes "sl_inv valid compare sl order" "n < length order"
  shows "sl_iter_Prev compare sl (sl_cursor order n) = Ret (if n = 0 then None else sl_cursor order (n - 1))"
proof -
  have "valid (sl_key sl (order ! n))" "shape sl order" using assms by (simp_all add: sl_inv_def)
  then show ?thesis
    using FindLessThan_finds [OF assms(1)] takeWhile_before [OF assms] cursor_of_last [of sl order n] assms(2)
    by (simp add: sl_iter_Prev_def sl_cursor_def del: last.simps)
qed

lemma sl_Seek_cursor:
  assumes "sl_inv valid compare sl order" "valid key"
  shows "sl_Seek compare sl key = Ret (sl_cursor order (length (takeWhile (before sl key) order)))"
proof -
  have "dropWhile (before sl key) order = drop (length (takeWhile (before sl key) order)) order"
    by (rule dropWhile_eq_drop)
  then show ?thesis by (simp add: sl_Seek_def FindGreaterOrEqual_finds [OF assms] sl_cursor_hd)
qed

lemma Contains_iff:
  assumes "sl_inv valid compare sl order" "valid key"
  shows "Contains compare sl key = Ret (\<exists>x\<in>set order. compare (sl_key sl x) key = 0)"
proof -
  let ?A = "takeWhile (before sl key) order" and ?B = "dropWhile (before sl key) order"
  have order: "order = ?A @ ?B" by simp
  have v: "\<forall>x\<in>set order. valid (sl_key sl x)" using assms(1) by (simp add: sl_inv_def)
  have flip: "compare key (sl_key sl x) = 0 \<longleftrightarrow> compare (sl_key sl x) key = 0" if "x \<in> set order" for x
    using compare_flip [of key "sl_key sl x"] compare_flip [of "sl_key sl x" key] v that assms(2) by force
  have "(hd_opt ?B \<noteq> None \<and> Equal compare key (sl_key sl (the (hd_opt ?B)))) \<longleftrightarrow>
      (\<exists>x\<in>set order. compare (sl_key sl x) key = 0)"
  proof (cases ?B)
    case Nil
    have "set order = set ?A" using Nil order by (metis append_Nil2)
    then have "compare (sl_key sl x) key < 0" if "x \<in> set order" for x
      using split_order(1) [OF assms] that by simp
    then have "\<not> (\<exists>x\<in>set order. compare (sl_key sl x) key = 0)" by force
    moreover have "hd_opt ?B = None" by (simp only: Nil hd_opt_simps)
    ultimately show ?thesis by simp
  next
    case (Cons b bs)
    have b: "b \<in> set order" using order Cons by (metis in_set_conv_decomp)
    have "compare (sl_key sl b) key = 0" if x: "x \<in> set order" "compare (sl_key sl x) key = 0" for x
    proof -
      have "x \<in> set ?A \<or> x \<in> set ?B" using x(1) order by (metis Un_iff set_append)
      with split_order(1) [OF assms, of x] x(2) have xB: "x \<in> set (b # bs)" unfolding Cons by auto
      have nb: "\<not> compare (sl_key sl b) key < 0" using split_order(2) [OF assms, of b] Cons by simp
      have "sorted_wrt (\<lambda>x y. compare (sl_key sl x) (sl_key sl y) < 0) (?A @ b # bs)"
        using assms(1) order Cons unfolding sl_inv_def by metis
      then have "x = b \<or> compare (sl_key sl b) (sl_key sl x) < 0" using xB by (auto simp: sorted_wrt_append)
      then show ?thesis
        using nb x compare_less_le [of "sl_key sl b" "sl_key sl x" key] v b assms(2) by auto
    qed
    with Cons flip [OF b] b show ?thesis by (auto simp: Equal_def)
  qed
  then show ?thesis by (simp add: Contains_def FindGreaterOrEqual_finds [OF assms])
qed

end

lemma empty_inv: "sl_inv valid cmp (SkipList any) []"
  by (auto simp: sl_inv_def shape_def SkipList_def node_height_def link_def)

section \<open>The properties of skip lists\<close>

lemma skiplist_of_Insert:
  assumes ko: "key_order valid cmp" and of: "skiplist_of valid cmp sl ks" "valid key"
    and new: "\<forall>k\<in>set ks. cmp k key \<noteq> 0"
  shows "\<exists>sl'. Insert cmp sl key = Ret sl' \<and>
    skiplist_of valid cmp sl' (takeWhile (\<lambda>k. cmp k key < 0) ks @ key # dropWhile (\<lambda>k. cmp k key < 0) ks)"
proof -
  obtain order where inv: "sl_inv valid cmp sl order" and ks: "ks = map (sl_key sl) order"
    using of by (auto simp: skiplist_of_def)
  have bf: "key_order.before cmp sl key = (\<lambda>x. cmp (sl_key sl x) key < 0)"
    by (simp add: key_order.before_def [OF ko] fun_eq_iff)
  from key_order.Insert_inserts [OF ko inv of(2)] new ks obtain sl' z where
    sl': "Insert cmp sl key = Ret sl'" "sl_key sl' z = key" "\<forall>y\<in>set order. sl_key sl' y = sl_key sl y"
      "sl_inv valid cmp sl' (takeWhile (\<lambda>x. cmp (sl_key sl x) key < 0) order @ z #
         dropWhile (\<lambda>x. cmp (sl_key sl x) key < 0) order)"
    unfolding bf by auto
  let ?A = "takeWhile (\<lambda>x. cmp (sl_key sl x) key < 0) order" and ?B = "dropWhile (\<lambda>x. cmp (sl_key sl x) key < 0) order"
  have "map (sl_key sl') xs = map (sl_key sl) xs" if "set xs \<subseteq> set order" for xs
    using sl'(3) that by (auto intro!: map_cong)
  moreover have "set ?A \<subseteq> set order" "set ?B \<subseteq> set order" by (auto dest: set_takeWhileD set_dropWhileD)
  ultimately have "map (sl_key sl') (?A @ z # ?B) = takeWhile (\<lambda>k. cmp k key < 0) ks @ key # dropWhile (\<lambda>k. cmp k key < 0) ks"
    using sl'(2) by (simp add: ks takeWhile_map dropWhile_map o_def)
  with sl'(1,4) show ?thesis unfolding skiplist_of_def by metis
qed

text \<open>C32: Insert puts a key into the skip list where the order of the comparator wants it: it returns, leaves
  the links of every level consistent (each level links exactly the nodes of that height, in key order), and
  the keys are those before with the new key before the first one that is not below it, strictly ascending.\<close>

theorem skiplist_insert:
  assumes "key_order valid cmp" "skiplist_of valid cmp sl ks" "valid key" "\<forall>k\<in>set ks. cmp k key \<noteq> 0"
  shows "\<exists>sl'. Insert cmp sl key = Ret sl' \<and>
    skiplist_of valid cmp sl' (takeWhile (\<lambda>k. cmp k key < 0) ks @ key # dropWhile (\<lambda>k. cmp k key < 0) ks) \<and>
    sorted_wrt (\<lambda>a b. cmp a b < 0) (takeWhile (\<lambda>k. cmp k key < 0) ks @ key # dropWhile (\<lambda>k. cmp k key < 0) ks)"
proof -
  from skiplist_of_Insert [OF assms] obtain sl' where sl': "Insert cmp sl key = Ret sl'"
    "skiplist_of valid cmp sl' (takeWhile (\<lambda>k. cmp k key < 0) ks @ key # dropWhile (\<lambda>k. cmp k key < 0) ks)" by blast
  have "sorted_wrt (\<lambda>a b. cmp a b < 0) xs" if "skiplist_of valid cmp s xs" for s xs
    using that by (auto simp: skiplist_of_def sl_inv_def sorted_wrt_map)
  with sl' show ?thesis by blast
qed

theorem skiplist_insert_witness:
  "\<exists>sl'. Insert slice_compare (SkipList []) [7] = Ret sl' \<and> skiplist_of (\<lambda>_. True) slice_compare sl' [[7]]"
proof -
  have "skiplist_of (\<lambda>_. True) slice_compare (SkipList []) []"
    using empty_inv by (auto simp: skiplist_of_def)
  from skiplist_insert [OF bytewise.key_order_axioms this, of "[7]"] show ?thesis by auto
qed

lemma skiplist_reads:
  assumes ko: "key_order valid cmp" and of: "skiplist_of valid cmp sl ks" "valid key"
  shows "Contains cmp sl key = Ret (\<exists>k\<in>set ks. cmp k key = 0) \<and>
    (\<exists>at. sl_Seek cmp sl key = Ret (at (length (takeWhile (\<lambda>k. cmp k key < 0) ks))) \<and>
      sl_SeekToFirst sl = Ret (at 0) \<and> sl_SeekToLast sl = Ret (if ks = [] then None else at (length ks - 1)) \<and>
      (\<forall>n. sl_Valid (at n) \<longleftrightarrow> n < length ks) \<and>
      (\<forall>n<length ks. sl_iter_key sl (at n) = Ret (ks ! n) \<and> sl_iter_Next sl (at n) = Ret (at (Suc n)) \<and>
        sl_iter_Prev cmp sl (at n) = Ret (if n = 0 then None else at (n - 1))))"
proof -
  obtain order where inv: "sl_inv valid cmp sl order" and ks: "ks = map (sl_key sl) order"
    using of by (auto simp: skiplist_of_def)
  then have sh: "shape sl order" by (simp add: sl_inv_def)
  have bf: "key_order.before cmp sl key = (\<lambda>x. cmp (sl_key sl x) key < 0)"
    by (simp add: key_order.before_def [OF ko] fun_eq_iff)
  have "Contains cmp sl key = Ret (\<exists>k\<in>set ks. cmp k key = 0)"
    using key_order.Contains_iff [OF ko inv of(2)] by (simp add: ks)
  moreover have "sl_Seek cmp sl key = Ret (sl_cursor order (length (takeWhile (\<lambda>k. cmp k key < 0) ks)))"
    using key_order.sl_Seek_cursor [OF ko inv of(2)] by (simp add: ks bf takeWhile_map o_def)
  moreover have "sl_SeekToFirst sl = Ret (sl_cursor order 0)"
    using shape_Next_0 [OF sh, of 0] by (simp add: sl_SeekToFirst_def)
  moreover have "sl_SeekToLast sl = Ret (if ks = [] then None else sl_cursor order (length ks - 1))"
  proof (cases "order = []")
    case True
    then show ?thesis by (simp add: sl_SeekToLast_def FindLast_finds [OF sh] ks)
  next
    case False
    with cursor_of_last [OF sh order_refl, unfolded take_all [OF order_refl]] show ?thesis
      by (simp add: sl_SeekToLast_def FindLast_finds [OF sh] ks del: last.simps)
  qed
  moreover have "sl_Valid (sl_cursor order n) \<longleftrightarrow> n < length ks" for n
    by (simp add: sl_Valid_def sl_cursor_def ks)
  moreover have "sl_iter_key sl (sl_cursor order n) = Ret (ks ! n)" if "n < length ks" for n
    using that by (simp add: sl_iter_key_def sl_cursor_def ks)
  ultimately show ?thesis
    using sl_iter_Next_cursor [OF sh] key_order.sl_iter_Prev_cursor [OF ko inv]
    by (intro conjI exI [of _ "sl_cursor order"]) (simp_all add: ks)
qed

text \<open>C33: On a skip list, Contains answers whether a key is in it, Seek positions an iterator at the first key
  that is not below the target, Next and Prev move by one position of the ascending list of keys, SeekToFirst
  and SeekToLast go to its ends, and an iterator is valid exactly when it is at a position; none of them
  follows a link that does not exist or runs forever.\<close>

theorem skiplist_read:
  assumes ko: "key_order valid cmp" and of: "skiplist_of valid cmp sl ks" "valid key"
  shows "Contains cmp sl key = Ret (\<exists>k\<in>set ks. cmp k key = 0) \<and>
    (\<exists>at. sl_Seek cmp sl key = Ret (at (length (takeWhile (\<lambda>k. cmp k key < 0) ks))) \<and>
      sl_SeekToFirst sl = Ret (at 0) \<and> sl_SeekToLast sl = Ret (if ks = [] then None else at (length ks - 1)) \<and>
      (\<forall>n. sl_Valid (at n) \<longleftrightarrow> n < length ks) \<and>
      (\<forall>n<length ks. sl_iter_key sl (at n) = Ret (ks ! n) \<and> sl_iter_Next sl (at n) = Ret (at (Suc n)) \<and>
        sl_iter_Prev cmp sl (at n) = Ret (if n = 0 then None else at (n - 1))))"
  using assms by (rule skiplist_reads)

theorem skiplist_read_witness:
  "Contains slice_compare (SkipList []) [7] = Ret False \<and> sl_SeekToFirst (SkipList ([] :: slice)) = Ret None"
proof -
  have of: "skiplist_of (\<lambda>_. True) slice_compare (SkipList []) []"
    using empty_inv by (auto simp: skiplist_of_def)
  from skiplist_read [OF bytewise.key_order_axioms this, of "[7]"] show ?thesis
    by (auto simp: sl_Valid_def)
qed

text \<open>Inserting one key after another.\<close>

fun insert_all :: "('k \<Rightarrow> 'k \<Rightarrow> int) \<Rightarrow> 'k list \<Rightarrow> 'k skiplist \<Rightarrow> 'k skiplist run" where
  "insert_all cmp [] sl = Ret sl"
| "insert_all cmp (k # ks) sl = rbind (Insert cmp sl k) (\<lambda>sl. insert_all cmp ks sl)"

lemma insert_all_of:
  assumes "key_order valid cmp" "skiplist_of valid cmp sl ks0" "\<forall>k\<in>set ks. valid k"
    and "\<forall>k\<in>set ks. \<forall>l\<in>set ks0. cmp l k \<noteq> 0" "sorted_wrt (\<lambda>a b. cmp a b \<noteq> 0) ks"
  shows "\<exists>sl' ks'. insert_all cmp ks sl = Ret sl' \<and> skiplist_of valid cmp sl' ks' \<and> mset ks' = mset ks0 + mset ks"
  using assms(2-5)
proof (induction ks arbitrary: sl ks0)
  case (Cons k ks)
  have "valid k" "\<forall>l\<in>set ks0. cmp l k \<noteq> 0" using Cons.prems by simp_all
  from skiplist_of_Insert [OF assms(1) Cons.prems(1) this] obtain sl' where
    sl': "Insert cmp sl k = Ret sl'"
      "skiplist_of valid cmp sl' (takeWhile (\<lambda>x. cmp x k < 0) ks0 @ k # dropWhile (\<lambda>x. cmp x k < 0) ks0)" by blast
  let ?ks1 = "takeWhile (\<lambda>x. cmp x k < 0) ks0 @ k # dropWhile (\<lambda>x. cmp x k < 0) ks0"
  have "mset ks0 = mset (takeWhile (\<lambda>x. cmp x k < 0) ks0) + mset (dropWhile (\<lambda>x. cmp x k < 0) ks0)"
    by (metis mset_append takeWhile_dropWhile_id)
  then have m: "mset ?ks1 = add_mset k (mset ks0)" by simp
  then have "set ?ks1 = insert k (set ks0)" by (metis set_mset_add_mset_insert set_mset_mset)
  then have "\<forall>x\<in>set ks. \<forall>l\<in>set ?ks1. cmp l x \<noteq> 0" using Cons.prems by (simp del: set_append)
  from Cons.IH [OF sl'(2) _ this] Cons.prems sl'(1) m show ?case by auto
qed auto

text \<open>Inserting keys that compare different from each other into an empty skip list, in any order, yields
  a skip list of exactly those keys in ascending order.\<close>

theorem skiplist_sorts:
  assumes "key_order valid cmp" "\<forall>k\<in>set ks. valid k" "sorted_wrt (\<lambda>a b. cmp a b \<noteq> 0) ks"
  shows "\<exists>sl ks'. insert_all cmp ks (SkipList any) = Ret sl \<and> skiplist_of valid cmp sl ks' \<and>
    mset ks' = mset ks \<and> sorted_wrt (\<lambda>a b. cmp a b < 0) ks'"
proof -
  have "skiplist_of valid cmp (SkipList any) []" using empty_inv by (auto simp: skiplist_of_def)
  from insert_all_of [OF assms(1) this assms(2) _ assms(3)] obtain sl ks' where
    "insert_all cmp ks (SkipList any) = Ret sl" "skiplist_of valid cmp sl ks'" "mset ks' = mset ks" by auto
  moreover from this(2) have "sorted_wrt (\<lambda>a b. cmp a b < 0) ks'"
    by (auto simp: skiplist_of_def sl_inv_def sorted_wrt_map)
  ultimately show ?thesis by blast
qed

theorem skiplist_sorts_witness:
  "\<exists>sl ks'. insert_all slice_compare [[3], [1], [2]] (SkipList []) = Ret sl \<and>
    skiplist_of (\<lambda>_. True) slice_compare sl ks' \<and> mset ks' = mset [[3], [1], [2]] \<and> sorted_wrt (\<lambda>a b. slice_compare a b < 0) ks'"
  by (rule skiplist_sorts [OF bytewise.key_order_axioms]) (simp_all add: slice_compare_lex)

end
