(* ===== verification/Ldb_Memtable.thy ===== *)
theory Ldb_Memtable
  imports Ldb_Batch Ldb_Skiplist
begin

text \<open>
  leveldb, \<open>db/memtable.h\<close>, \<open>db/memtable.cc\<close> and the inserter of \<open>db/write_batch.cc\<close>: the memtable is a
  skip list of encoded entries. A \<open>const char*\<close> key is the bytes of its entry. The user comparator is
  an argument of the operations, and the properties are about the bytewise one. \<open>memtable_of\<close> relates
  a memtable to the set of its entries; \<open>Get\<close> is shown to find the newest entry that a snapshot sees.
\<close>

section \<open>Entries\<close>

text \<open>
  \<open>GetLengthPrefixedSlice\<close> of a pointer: the length is read from at most five bytes; the bytes are
  those of a whole entry, so the null case does not occur.
\<close>

definition mem_slice_rest :: "slice \<Rightarrow> slice \<times> slice" where
  "mem_slice_rest data =
     (case GetVarint32Ptr (take 5 data) of
        None \<Rightarrow> ([], [])
      | Some (len, q) \<Rightarrow>
          let p = drop (length (take 5 data) - length q) data
          in (take (unat len) p, drop (unat len) p))"

definition mem_slice :: "slice \<Rightarrow> slice" where
  "mem_slice data = fst (mem_slice_rest data)"

definition mem_compare :: "(slice \<Rightarrow> slice \<Rightarrow> int) \<Rightarrow> slice \<Rightarrow> slice \<Rightarrow> int" where
  "mem_compare ucmp aptr bptr = ikey_compare ucmp (mem_slice aptr) (mem_slice bptr)"

definition EncodeKey :: "slice \<Rightarrow> slice" where
  "EncodeKey target = PutVarint32 [] (of_nat (length target)) @ target"

section \<open>The memtable\<close>

record memtable =
  mt_refs :: int
  mt_table :: "slice skiplist"

definition MemTable :: "memtable" where
  "MemTable = \<lparr>mt_refs = 0, mt_table = SkipList []\<rparr>"

definition mt_Ref :: "memtable \<Rightarrow> memtable" where
  "mt_Ref mt = mt\<lparr>mt_refs := mt_refs mt + 1\<rparr>"

text \<open>\<open>Unref\<close> deletes the table when the last reference goes: \<open>None\<close>.\<close>

definition mt_Unref :: "memtable \<Rightarrow> memtable option run" where
  "mt_Unref mt =
     (let refs = mt_refs mt - 1 in
      if \<not> refs \<ge> 0 then UB
      else if refs \<le> 0 then Ret None else Ret (Some (mt\<lparr>mt_refs := refs\<rparr>)))"

definition mt_Add ::
  "(slice \<Rightarrow> slice \<Rightarrow> int) \<Rightarrow> memtable \<Rightarrow> sequence_number \<Rightarrow> value_type \<Rightarrow> slice \<Rightarrow> slice \<Rightarrow> memtable run" where
  "mt_Add ucmp mt s type key value =
     (let key_size = length key;
          val_size = length value;
          internal_key_size = key_size + 8;
          encoded_len = VarintLength (of_nat internal_key_size) + internal_key_size +
            VarintLength (of_nat val_size) + val_size;
          buf = EncodeVarint32 (of_nat internal_key_size) @ key @ EncodeFixed64 (push_bit 8 s OR ucast type) @
            EncodeVarint32 (of_nat val_size) @ value
      in if length buf \<noteq> encoded_len then UB
         else rbind (Insert (mem_compare ucmp) (mt_table mt) buf) (\<lambda>t. Ret (mt\<lparr>mt_table := t\<rparr>)))"

text \<open>The outcome of \<open>Get\<close>: false, or true with the value or with the status NotFound.\<close>

datatype mem_result = Mem_Miss | Mem_Value slice | Mem_Deleted

definition mt_Get :: "(slice \<Rightarrow> slice \<Rightarrow> int) \<Rightarrow> memtable \<Rightarrow> lookup_key \<Rightarrow> mem_result run" where
  "mt_Get ucmp mt key =
     rbind (sl_Seek (mem_compare ucmp) (mt_table mt) (lk_memtable_key key)) (\<lambda>iter.
       if \<not> sl_Valid iter then Ret Mem_Miss
       else rbind (sl_iter_key (mt_table mt) iter) (\<lambda>entry.
         let ikey = mem_slice entry; rest = snd (mem_slice_rest entry) in
         if ucmp (ExtractUserKey ikey) (lk_user_key key) = 0 then
           let type = ucast (internal_tag ikey AND 0xFF) :: value_type in
           if type = kTypeValue then Ret (Mem_Value (mem_slice rest))
           else if type = kTypeDeletion then Ret Mem_Deleted
           else Ret Mem_Miss
         else Ret Mem_Miss))"

text \<open>The memtable's iterator is one of the skip list; these are its operations that differ.\<close>

definition mt_iter_Seek :: "(slice \<Rightarrow> slice \<Rightarrow> int) \<Rightarrow> memtable \<Rightarrow> slice \<Rightarrow> nat option run" where
  "mt_iter_Seek ucmp mt k = sl_Seek (mem_compare ucmp) (mt_table mt) (EncodeKey k)"

definition mt_iter_key :: "memtable \<Rightarrow> nat option \<Rightarrow> slice run" where
  "mt_iter_key mt iter = rbind (sl_iter_key (mt_table mt) iter) (\<lambda>entry. Ret (mem_slice entry))"

definition mt_iter_value :: "memtable \<Rightarrow> nat option \<Rightarrow> slice run" where
  "mt_iter_value mt iter =
     rbind (sl_iter_key (mt_table mt) iter) (\<lambda>entry. Ret (mem_slice (snd (mem_slice_rest entry))))"

section \<open>Inserting a batch\<close>

text \<open>The handler's state: the next sequence number and the memtable.\<close>

definition inserter_Put ::
  "(slice \<Rightarrow> slice \<Rightarrow> int) \<Rightarrow> slice \<Rightarrow> slice \<Rightarrow> sequence_number \<times> memtable run \<Rightarrow> sequence_number \<times> memtable run" where
  "inserter_Put ucmp key value h =
     (case h of (seq, mem) \<Rightarrow> (seq + 1, rbind mem (\<lambda>mem. mt_Add ucmp mem seq kTypeValue key value)))"

definition inserter_Delete ::
  "(slice \<Rightarrow> slice \<Rightarrow> int) \<Rightarrow> slice \<Rightarrow> sequence_number \<times> memtable run \<Rightarrow> sequence_number \<times> memtable run" where
  "inserter_Delete ucmp key h =
     (case h of (seq, mem) \<Rightarrow> (seq + 1, rbind mem (\<lambda>mem. mt_Add ucmp mem seq kTypeDeletion key [])))"

definition batch_InsertInto :: "(slice \<Rightarrow> slice \<Rightarrow> int) \<Rightarrow> slice \<Rightarrow> memtable \<Rightarrow> (status \<times> memtable) run" where
  "batch_InsertInto ucmp b mem =
     rbind (batch_Iterate (inserter_Put ucmp) (inserter_Delete ucmp) b (batch_Sequence b, Ret mem)) (\<lambda>(s, (seq, mem)).
       rbind mem (\<lambda>mem. Ret (s, mem)))"

section \<open>Entries and their bytes\<close>

record mem_entry = parsed_internal_key +
  me_value :: slice

definition entry_bytes :: "mem_entry \<Rightarrow> slice" where
  "entry_bytes e = prefixed (pk_user_key e @ EncodeFixed64 (packed_tag (pk_sequence e) (pk_type e))) @
     prefixed (me_value e)"

definition entry_ok :: "mem_entry \<Rightarrow> bool" where
  "entry_ok e \<longleftrightarrow> length (pk_user_key e) + 8 < 2 ^ 32 \<and> length (me_value e) < 2 ^ 32 \<and>
     pk_sequence e \<le> kMaxSequenceNumber \<and> pk_type e \<le> kTypeValue"

lemma mem_slice_rest_prefixed: "length x < 2 ^ 32 \<Longrightarrow> mem_slice_rest (prefixed x @ rest) = (x, rest)"
proof -
  assume x: "length x < 2 ^ 32"
  let ?n = "of_nat (length x) :: u32"
  have "length (EncodeVarint32 ?n) \<le> 5" using length_EncodeVarint32 [of ?n] by simp
  then have t: "take 5 (EncodeVarint32 ?n @ x @ rest) = EncodeVarint32 ?n @ take (5 - length (EncodeVarint32 ?n)) (x @ rest)"
    by simp
  have "unat ?n = length x" by (rule unat_of_nat_small) (use x in simp)
  then show ?thesis
    unfolding mem_slice_rest_def prefixed_def append_assoc t GetVarint32Ptr_bytes by (simp add: Let_def)
qed

lemma mem_slice_prefixed [simp]: "length x < 2 ^ 32 \<Longrightarrow> mem_slice (prefixed x @ rest) = x"
  by (simp add: mem_slice_def mem_slice_rest_prefixed)

lemma mem_slice_entry:
  "entry_ok e \<Longrightarrow> mem_slice (entry_bytes e) =
     pk_user_key e @ EncodeFixed64 (packed_tag (pk_sequence e) (pk_type e))"
  by (simp add: entry_ok_def entry_bytes_def)

lemma mem_value_entry: "entry_ok e \<Longrightarrow> mem_slice (snd (mem_slice_rest (entry_bytes e))) = me_value e"
  using mem_slice_prefixed [of "me_value e" "[]"]
  by (simp add: entry_ok_def entry_bytes_def mem_slice_rest_prefixed)

text \<open>The order of the entries of a memtable.\<close>

abbreviation mem_order :: "slice \<Rightarrow> slice \<Rightarrow> int" where
  "mem_order \<equiv> mem_compare slice_compare"

definition mem_valid :: "slice \<Rightarrow> bool" where
  "mem_valid k \<longleftrightarrow> 8 \<le> length (mem_slice k)"

interpretation mem: key_order mem_valid mem_order
proof
  fix a b c
  show "mem_valid a \<Longrightarrow> mem_valid b \<Longrightarrow> mem_order a b < 0 \<longleftrightarrow> 0 < mem_order b a"
    unfolding mem_compare_def mem_valid_def by (intro ikey.compare_flip) simp_all
  show "mem_valid a \<Longrightarrow> mem_valid b \<Longrightarrow> mem_valid c \<Longrightarrow> mem_order a b \<le> 0 \<Longrightarrow> mem_order b c \<le> 0 \<Longrightarrow> mem_order a c \<le> 0"
    unfolding mem_compare_def mem_valid_def by (rule ikey.compare_trans [of "mem_slice a" "mem_slice b"]) simp_all
qed

lemma entry_valid: "entry_ok e \<Longrightarrow> mem_valid (entry_bytes e)"
  by (simp add: mem_valid_def mem_slice_entry)

lemma VarintLength_u32: "VarintLength (ucast v) = length (EncodeVarint32 v)"
proof -
  have "0 < length (EncodeVarint64 (ucast v))" by simp
  then show ?thesis unfolding VarintLength_def varint_length_loop_eq EncodeVarint32_64 by linarith
qed

lemma VarintLength_of_nat: "n < 2 ^ 32 \<Longrightarrow> VarintLength (of_nat n) = length (EncodeVarint32 (of_nat n))"
proof -
  assume n: "n < 2 ^ 32"
  have "(of_nat n :: u64) = ucast (of_nat n :: u32)"
    using n by (intro word_unat_eq_iff [THEN iffD2]) (simp add: unsigned_ucast_eq unat_of_nat take_bit_eq_mod)
  then show ?thesis by (simp only: VarintLength_u32)
qed

lemma mt_Add_entry:
  assumes "entry_ok e"
  shows "mt_Add ucmp mt (pk_sequence e) (pk_type e) (pk_user_key e) (me_value e) =
    rbind (Insert (mem_compare ucmp) (mt_table mt) (entry_bytes e)) (\<lambda>t. Ret (mt\<lparr>mt_table := t\<rparr>))"
proof -
  have "VarintLength (of_nat (length (pk_user_key e) + 8)) = length (EncodeVarint32 (of_nat (length (pk_user_key e) + 8)))"
    "VarintLength (of_nat (length (me_value e))) = length (EncodeVarint32 (of_nat (length (me_value e))))"
    using assms by (intro VarintLength_of_nat; simp add: entry_ok_def)+
  then show ?thesis
    unfolding mt_Add_def Let_def by (simp add: entry_bytes_def prefixed_def packed_tag_def)
qed

section \<open>What a memtable holds\<close>

definition memtable_of :: "memtable \<Rightarrow> mem_entry set \<Rightarrow> bool" where
  "memtable_of mt es \<longleftrightarrow> (\<exists>ks. skiplist_of mem_valid mem_order (mt_table mt) ks \<and> set ks = entry_bytes ` es) \<and>
     (\<forall>e\<in>es. entry_ok e) \<and>
     (\<forall>e\<in>es. \<forall>e'\<in>es. pk_user_key e = pk_user_key e' \<longrightarrow> pk_sequence e = pk_sequence e' \<longrightarrow> e = e')"

lemma memtable_of_empty: "memtable_of MemTable {}"
  using empty_inv by (auto simp: memtable_of_def MemTable_def skiplist_of_def)

lemma tag_le_iff:
  assumes "s \<le> kMaxSequenceNumber" "s' \<le> kMaxSequenceNumber"
  shows "packed_tag s t \<le> packed_tag s' t' \<longleftrightarrow> s < s' \<or> s = s' \<and> t \<le> t'"
  using byte_range [of t] byte_range [of t']
  unfolding word_le_nat_alt word_less_nat_alt packed_value [OF assms(1)] packed_value [OF assms(2)] word_unat_eq_iff
  by linarith

lemma mem_order_entries:
  assumes "entry_ok e" "entry_ok e'"
  shows "mem_order (entry_bytes e) (entry_bytes e') = 0 \<longleftrightarrow>
    pk_user_key e = pk_user_key e' \<and> pk_sequence e = pk_sequence e' \<and> pk_type e = pk_type e'"
proof -
  have s: "pk_sequence e \<le> kMaxSequenceNumber" "pk_sequence e' \<le> kMaxSequenceNumber"
    using assms by (simp_all add: entry_ok_def)
  let ?t = "packed_tag (pk_sequence e) (pk_type e)" and ?t' = "packed_tag (pk_sequence e') (pk_type e')"
  have "?t = ?t' \<longleftrightarrow> pk_sequence e = pk_sequence e' \<and> pk_type e = pk_type e'"
    by (metis packed_sequence [OF s(1)] packed_sequence [OF s(2)] packed_type)
  moreover have "mem_order (entry_bytes e) (entry_bytes e') = 0 \<longleftrightarrow> pk_user_key e = pk_user_key e' \<and> ?t = ?t'"
    by (auto simp: mem_compare_def mem_slice_entry assms ikey_compare_def Let_def slice_compare_lex)
  ultimately show ?thesis by simp
qed

lemma memtable_of_Add:
  assumes "memtable_of mt es" "entry_ok e"
    and "\<And>e'. e' \<in> es \<Longrightarrow> pk_user_key e' = pk_user_key e \<Longrightarrow> pk_sequence e' \<noteq> pk_sequence e"
  shows "\<exists>mt'. mt_Add slice_compare mt (pk_sequence e) (pk_type e) (pk_user_key e) (me_value e) = Ret mt' \<and>
    memtable_of mt' (insert e es)"
proof -
  obtain ks where ks: "skiplist_of mem_valid mem_order (mt_table mt) ks" "set ks = entry_bytes ` es"
    using assms(1) by (auto simp: memtable_of_def)
  have ok: "\<forall>e\<in>es. entry_ok e" using assms(1) by (simp add: memtable_of_def)
  have "\<forall>k\<in>set ks. mem_order k (entry_bytes e) \<noteq> 0"
    using assms(3) ok by (auto simp: ks(2) mem_order_entries [OF _ assms(2)])
  from skiplist_of_Insert [OF mem.key_order_axioms ks(1) entry_valid [OF assms(2)] this] obtain t where
    t: "Insert mem_order (mt_table mt) (entry_bytes e) = Ret t"
      "skiplist_of mem_valid mem_order t (takeWhile (\<lambda>k. mem_order k (entry_bytes e) < 0) ks @ entry_bytes e #
        dropWhile (\<lambda>k. mem_order k (entry_bytes e) < 0) ks)" by blast
  have "set (takeWhile P ks @ x # dropWhile P ks) = insert x (set ks)" for P and x :: slice
  proof -
    have "set (takeWhile P ks) \<union> set (dropWhile P ks) = set ks" by (metis set_append takeWhile_dropWhile_id)
    then show ?thesis by simp
  qed
  then have "set (takeWhile (\<lambda>k. mem_order k (entry_bytes e) < 0) ks @ entry_bytes e #
      dropWhile (\<lambda>k. mem_order k (entry_bytes e) < 0) ks) = entry_bytes ` insert e es"
    by (simp add: ks(2))
  with t(2) have "memtable_of (mt\<lparr>mt_table := t\<rparr>) (insert e es)"
    using assms unfolding memtable_of_def by (auto simp: dest: sym)
  with t(1) show ?thesis by (simp add: mt_Add_entry [OF assms(2)])
qed

section \<open>What a lookup finds\<close>

definition mem_result_of :: "mem_entry \<Rightarrow> mem_result" where
  "mem_result_of e = (if pk_type e = kTypeValue then Mem_Value (me_value e) else Mem_Deleted)"

text \<open>The entries of a user key that a snapshot sees, and the newest of them.\<close>

definition visible :: "mem_entry set \<Rightarrow> slice \<Rightarrow> sequence_number \<Rightarrow> mem_entry set" where
  "visible es u s = {e \<in> es. pk_user_key e = u \<and> pk_sequence e \<le> s}"

definition newest :: "mem_entry set \<Rightarrow> slice \<Rightarrow> sequence_number \<Rightarrow> mem_entry \<Rightarrow> bool" where
  "newest es u s e \<longleftrightarrow> e \<in> visible es u s \<and> (\<forall>e'\<in>visible es u s. pk_sequence e' \<le> pk_sequence e)"

lemma lookup_memkey:
  assumes "length u + 8 < 2 ^ 32"
  shows "mem_slice (lk_memtable_key (lookup_key_of u s)) = u @ EncodeFixed64 (packed_tag s 1)"
    and "lk_user_key (lookup_key_of u s) = u"
proof -
  have "length (u @ EncodeFixed64 (packed_tag s 1)) < 2 ^ 32" using assms by simp
  from mem_slice_prefixed [OF this, of "[]"]
  show "mem_slice (lk_memtable_key (lookup_key_of u s)) = u @ EncodeFixed64 (packed_tag s 1)"
    by (simp add: lk_memtable_key_def lookup_key_of_def Let_def prefixed_def)
  show "lk_user_key (lookup_key_of u s) = u" by (simp add: lk_user_key_def lookup_key_of_def Let_def)
qed

lemma before_lookup:
  assumes "entry_ok e" "length u + 8 < 2 ^ 32" "s \<le> kMaxSequenceNumber"
  shows "mem_order (entry_bytes e) (lk_memtable_key (lookup_key_of u s)) < 0 \<longleftrightarrow>
    pk_user_key e < u \<or> pk_user_key e = u \<and> s < pk_sequence e"
proof -
  have seq: "pk_sequence e \<le> kMaxSequenceNumber" and t: "pk_type e \<le> 1" using assms(1) by (simp_all add: entry_ok_def)
  have "packed_tag s 1 < packed_tag (pk_sequence e) (pk_type e) \<longleftrightarrow> s < pk_sequence e"
    using tag_le_iff [OF seq assms(3), of "pk_type e" 1] t by (auto simp: not_le [symmetric] not_less)
  then show ?thesis
    by (auto simp: mem_compare_def mem_slice_entry assms(1) lookup_memkey [OF assms(2)] bytewise.ikey_less_iff
        slice_compare_lex)
qed

lemma entry_less:
  assumes "entry_ok e" "entry_ok e'" "mem_order (entry_bytes e) (entry_bytes e') < 0"
  shows "pk_user_key e < pk_user_key e' \<or> pk_user_key e = pk_user_key e' \<and> pk_sequence e' \<le> pk_sequence e"
proof -
  have s: "pk_sequence e \<le> kMaxSequenceNumber" "pk_sequence e' \<le> kMaxSequenceNumber"
    using assms by (simp_all add: entry_ok_def)
  from assms show ?thesis
    using tag_le_iff [OF s(2,1), of "pk_type e'" "pk_type e"]
    by (auto simp: mem_compare_def mem_slice_entry bytewise.ikey_less_iff slice_compare_lex split: if_splits)
qed

lemma mt_Get_spec:
  assumes of: "memtable_of mt es" and u: "length u + 8 < 2 ^ 32" and s: "s \<le> kMaxSequenceNumber"
  shows "(newest es u s e \<longrightarrow> mt_Get slice_compare mt (lookup_key_of u s) = Ret (mem_result_of e)) \<and>
    (visible es u s = {} \<longrightarrow> mt_Get slice_compare mt (lookup_key_of u s) = Ret Mem_Miss)"
proof -
  let ?T = "lk_memtable_key (lookup_key_of u s)" and ?P = "\<lambda>k. mem_order k (lk_memtable_key (lookup_key_of u s)) < 0"
  obtain ks where ks: "skiplist_of mem_valid mem_order (mt_table mt) ks" "set ks = entry_bytes ` es"
    using of by (auto simp: memtable_of_def)
  have ok: "\<And>e. e \<in> es \<Longrightarrow> entry_ok e"
    and uniq: "\<And>e e'. e \<in> es \<Longrightarrow> e' \<in> es \<Longrightarrow> pk_user_key e = pk_user_key e' \<Longrightarrow> pk_sequence e = pk_sequence e' \<Longrightarrow> e = e'"
    using of by (auto simp: memtable_of_def)
  have vT: "mem_valid ?T" by (simp add: mem_valid_def lookup_memkey [OF u])
  define n where "n = length (takeWhile ?P ks)"
  obtain at where at: "sl_Seek mem_order (mt_table mt) ?T = Ret (at n)" "\<And>n. sl_Valid (at n) \<longleftrightarrow> n < length ks"
    "\<And>n. n < length ks \<Longrightarrow> sl_iter_key (mt_table mt) (at n) = Ret (ks ! n)"
    using skiplist_reads [OF mem.key_order_axioms ks(1) vT] by (auto simp: n_def)
  have sorted: "sorted_wrt (\<lambda>a b. mem_order a b < 0) ks"
    using ks(1) by (auto simp: skiplist_of_def sl_inv_def sorted_wrt_map)
  have first: "i < n \<Longrightarrow> ?P (ks ! i)" "n < length ks \<Longrightarrow> \<not> ?P (ks ! n)" for i
  proof -
    show "\<not> ?P (ks ! n)" if "n < length ks" using that unfolding n_def by (rule nth_length_takeWhile)
    assume i: "i < n"
    then have "takeWhile ?P ks ! i \<in> set (takeWhile ?P ks)" by (simp add: n_def)
    then have "?P (takeWhile ?P ks ! i)" by (rule conjunct2 [OF set_takeWhileD])
    with i show "?P (ks ! i)" by (simp add: n_def takeWhile_nth)
  qed
  have get: "mt_Get slice_compare mt (lookup_key_of u s) = Ret (if n < length ks \<and> pk_user_key x = u then mem_result_of x else Mem_Miss)"
    if "n < length ks \<Longrightarrow> x \<in> es \<and> ks ! n = entry_bytes x" for x
  proof (cases "n < length ks")
    case True
    with that have x: "x \<in> es" "ks ! n = entry_bytes x" "entry_ok x" using ok by auto
    have t: "pk_type x = 0 \<or> pk_type x = 1"
    proof -
      have "unat (pk_type x) \<le> 1" using x(3) by (simp add: entry_ok_def word_le_nat_alt)
      then have "unat (pk_type x) = 0 \<or> unat (pk_type x) = 1" by linarith
      then show ?thesis by (auto simp: word_unat_eq_iff)
    qed
    with True at x show ?thesis
      by (auto simp: mt_Get_def Let_def mem_slice_entry mem_value_entry lookup_memkey [OF u] slice_compare_lex
          packed_type mem_result_of_def)
  next
    case False
    with at show ?thesis by (simp add: mt_Get_def)
  qed
  have seen: "\<not> ?P (entry_bytes e)" if "e \<in> visible es u s" for e
    using that before_lookup [OF ok u s] by (auto simp: visible_def)
  show ?thesis
  proof (cases "n < length ks")
    case True
    then have "ks ! n \<in> entry_bytes ` es" by (simp flip: ks(2))
    then obtain x where x: "x \<in> es" "ks ! n = entry_bytes x" by blast
    have nx: "\<not> (pk_user_key x < u \<or> pk_user_key x = u \<and> s < pk_sequence x)"
      using first(2) [OF True] before_lookup [OF ok [OF x(1)] u s] x(2) by simp
    have g: "mt_Get slice_compare mt (lookup_key_of u s) = Ret (if pk_user_key x = u then mem_result_of x else Mem_Miss)"
      using get [of x] x True by simp
    have "x = e" if e: "newest es u s e"
    proof -
      have e': "e \<in> es" "pk_user_key e = u" "pk_sequence e \<le> s" using e by (auto simp: newest_def visible_def)
      then have "entry_bytes e \<in> set ks" by (simp add: ks(2))
      then obtain j where j: "j < length ks" "ks ! j = entry_bytes e" by (auto simp: in_set_conv_nth)
      have "\<not> j < n" using seen [of e] e j first(1) [of j] by (auto simp: newest_def)
      then consider "j = n" | "mem_order (entry_bytes x) (entry_bytes e) < 0"
        using sorted j x(2) by (metis linorder_neqE_nat sorted_wrt_nth_less)
      then have le: "pk_user_key x \<le> u \<and> (pk_user_key x = u \<longrightarrow> pk_sequence e \<le> pk_sequence x)"
      proof cases
        case 1
        with j x(2) have "mem_order (entry_bytes e) (entry_bytes x) = 0"
          using mem.compare_refl [OF entry_valid [OF ok [OF x(1)]]] by simp
        then show ?thesis using mem_order_entries [OF ok [OF e'(1)] ok [OF x(1)]] e' by simp
      next
        case 2
        then show ?thesis using entry_less [OF ok [OF x(1)] ok [OF e'(1)]] e'(2) by auto
      qed
      with nx have xu: "pk_user_key x = u" "pk_sequence x \<le> s" by auto
      then have "x \<in> visible es u s" using x(1) by (simp add: visible_def)
      with e have "pk_sequence x \<le> pk_sequence e" by (simp add: newest_def)
      with le xu(1) have "pk_sequence x = pk_sequence e" by simp
      with uniq [OF x(1) e'(1)] xu(1) e'(2) show ?thesis by simp
    qed
    moreover have "pk_user_key x \<noteq> u" if "visible es u s = {}"
      using that nx x(1) by (auto simp: visible_def not_less)
    ultimately show ?thesis using g by (auto simp: newest_def visible_def)
  next
    case False
    have "n \<le> length ks" unfolding n_def by (rule length_takeWhile_le)
    with False have all: "\<And>k. k \<in> set ks \<Longrightarrow> ?P k" using first(1) by (metis in_set_conv_nth le_neq_implies_less)
    then have "visible es u s = {}" using seen ks(2) by (auto simp: visible_def)
    moreover have "mt_Get slice_compare mt (lookup_key_of u s) = Ret Mem_Miss" using get False by simp
    ultimately show ?thesis by (simp add: newest_def)
  qed
qed

section \<open>Batches in the memtable\<close>

fun entry_of :: "sequence_number \<Rightarrow> update \<Rightarrow> mem_entry" where
  "entry_of seq (Put_Op k v) = \<lparr>pk_user_key = k, pk_sequence = seq, pk_type = kTypeValue, me_value = v\<rparr>"
| "entry_of seq (Delete_Op k) = \<lparr>pk_user_key = k, pk_sequence = seq, pk_type = kTypeDeletion, me_value = []\<rparr>"

fun entries_of :: "sequence_number \<Rightarrow> update list \<Rightarrow> mem_entry list" where
  "entries_of seq [] = []"
| "entries_of seq (u # us) = entry_of seq u # entries_of (seq + 1) us"

fun update_key :: "update \<Rightarrow> slice" where
  "update_key (Put_Op k v) = k"
| "update_key (Delete_Op k) = k"

fun update_fits :: "update \<Rightarrow> bool" where
  "update_fits (Put_Op k v) \<longleftrightarrow> length k + 8 < 2 ^ 32 \<and> length v < 2 ^ 32"
| "update_fits (Delete_Op k) \<longleftrightarrow> length k + 8 < 2 ^ 32"

text \<open>The reference: what the updates, in order, make of a key.\<close>

fun result_after :: "update list \<Rightarrow> slice \<Rightarrow> mem_result \<Rightarrow> mem_result" where
  "result_after [] u r = r"
| "result_after (Put_Op k v # us) u r = result_after us u (if k = u then Mem_Value v else r)"
| "result_after (Delete_Op k # us) u r = result_after us u (if k = u then Mem_Deleted else r)"

lemma update_fits_ok: "update_fits x \<Longrightarrow> update_ok x"
  by (cases x) simp_all

lemma entry_of_sel [simp]: "pk_user_key (entry_of seq x) = update_key x" "pk_sequence (entry_of seq x) = seq"
  by (cases x; simp)+

lemma entry_of_ok: "update_fits x \<Longrightarrow> seq \<le> kMaxSequenceNumber \<Longrightarrow> entry_ok (entry_of seq x)"
  by (cases x) (simp_all add: entry_ok_def)

lemma max_sequence: "unat kMaxSequenceNumber = 2 ^ 56 - 1"
  by (simp add: kMaxSequenceNumber_def)

lemma seq_next: "unat seq < 2 ^ 56 \<Longrightarrow> unat (seq + 1 :: u64) = unat seq + 1"
  by (simp add: unat_word_ariths)

lemma insert_updates:
  assumes "memtable_of mt es" "\<forall>e\<in>es. unat (pk_sequence e) < unat seq" "list_all update_fits us"
    and "unat seq + length us \<le> 2 ^ 56"
  shows "\<exists>mt'. fold (run_update (inserter_Put slice_compare) (inserter_Delete slice_compare)) us (seq, Ret mt) =
      (seq + of_nat (length us), Ret mt') \<and> memtable_of mt' (es \<union> set (entries_of seq us))"
  using assms
proof (induction us arbitrary: mt es seq)
  case (Cons x us)
  have seq: "unat seq < 2 ^ 56" using Cons.prems(4) by simp
  then have "seq \<le> kMaxSequenceNumber" by (simp add: word_le_nat_alt max_sequence)
  then have ok: "entry_ok (entry_of seq x)" using Cons.prems(3) by (simp add: entry_of_ok)
  have "pk_sequence e' \<noteq> pk_sequence (entry_of seq x)" if "e' \<in> es" for e'
    using Cons.prems(2) that by auto
  from memtable_of_Add [OF Cons.prems(1) ok this] obtain mt1 where
    mt1: "mt_Add slice_compare mt seq (pk_type (entry_of seq x)) (update_key x) (me_value (entry_of seq x)) = Ret mt1"
      "memtable_of mt1 (insert (entry_of seq x) es)" by auto
  have step: "run_update (inserter_Put slice_compare) (inserter_Delete slice_compare) x (seq, Ret mt) = (seq + 1, Ret mt1)"
    using mt1(1) by (cases x) (simp_all add: inserter_Put_def inserter_Delete_def)
  have "\<exists>mt'. fold (run_update (inserter_Put slice_compare) (inserter_Delete slice_compare)) us (seq + 1, Ret mt1) =
      (seq + 1 + of_nat (length us), Ret mt') \<and> memtable_of mt' (insert (entry_of seq x) es \<union> set (entries_of (seq + 1) us))"
    by (rule Cons.IH [OF mt1(2)]) (use Cons.prems seq_next [OF seq] in auto)
  then show ?case using step by (auto simp: ac_simps)
qed simp

lemma InsertInto_rep:
  assumes "batch_rep b seq us" "list_all update_fits us" "memtable_of mt es"
    and "\<forall>e\<in>es. unat (pk_sequence e) < unat seq" "unat seq + length us \<le> 2 ^ 56" "length us < 2 ^ 31"
  shows "\<exists>mt'. batch_InsertInto slice_compare b mt = Ret (Status_OK, mt') \<and>
    memtable_of mt' (es \<union> set (entries_of seq us))"
proof -
  have "list_all update_ok us" using assms(2) by (auto simp: list_all_iff update_fits_ok)
  note run = batch_Iterate_rep [OF assms(1) this assms(6), of "inserter_Put slice_compare" "inserter_Delete slice_compare" "(seq, Ret mt)"]
  from insert_updates [OF assms(3,4,2,5)] show ?thesis
    by (auto simp: batch_InsertInto_def batch_rep_Sequence [OF assms(1)] run)
qed

lemma entries_of_snoc: "entries_of seq (us @ [x]) = entries_of seq us @ [entry_of (seq + of_nat (length us)) x]"
  by (induction us arbitrary: seq) (simp_all add: ac_simps)

lemma entries_of_sequences:
  "e \<in> set (entries_of seq us) \<Longrightarrow> unat seq + length us \<le> 2 ^ 56 \<Longrightarrow>
     unat seq \<le> unat (pk_sequence e) \<and> unat (pk_sequence e) < unat seq + length us"
proof (induction us arbitrary: seq)
  case (Cons x us)
  have "unat seq < 2 ^ 56" using Cons.prems(2) by simp
  with Cons seq_next [of seq] show ?case by fastforce
qed simp

lemma result_after_snoc:
  "result_after (us @ [x]) u r = (if update_key x = u then mem_result_of (entry_of seq x) else result_after us u r)"
  by (induction us u r rule: result_after.induct) (cases x; simp add: mem_result_of_def)+

lemma newest_entries:
  assumes "unat seq + length us \<le> 2 ^ 56" "unat seq + length us \<le> unat s + 1"
  shows "(\<exists>e. newest (set (entries_of seq us)) u s e \<and> result_after us u Mem_Miss = mem_result_of e) \<or>
    visible (set (entries_of seq us)) u s = {} \<and> result_after us u Mem_Miss = Mem_Miss"
  using assms
proof (induction us rule: rev_induct)
  case Nil
  then show ?case by (simp add: visible_def)
next
  case (snoc x us)
  let ?n = "seq + of_nat (length us)"
  have small: "unat seq + length us < 2 ^ 64" using snoc.prems(1) by simp
  then have n: "unat ?n = unat seq + length us" by (simp add: unat_word_ariths unat_of_nat)
  show ?case
  proof (cases "update_key x = u")
    case True
    have "newest (set (entries_of seq (us @ [x]))) u s (entry_of ?n x)"
      unfolding newest_def visible_def entries_of_snoc
      using True snoc.prems n entries_of_sequences [of _ seq us] by (auto simp: word_le_nat_alt less_imp_le)
    with True show ?thesis by (auto simp: result_after_snoc [where seq = ?n])
  next
    case False
    then have "visible (set (entries_of seq (us @ [x]))) u s = visible (set (entries_of seq us)) u s"
      by (auto simp: visible_def entries_of_snoc)
    then have "newest (set (entries_of seq (us @ [x]))) u s = newest (set (entries_of seq us)) u s"
      by (simp add: newest_def fun_eq_iff)
    with False snoc.IH snoc.prems \<open>visible _ _ _ = _\<close> show ?thesis by (simp add: result_after_snoc [where seq = seq])
  qed
qed

section \<open>The properties of memtables\<close>

text \<open>C15: Add keeps a memtable's invariant: given an entry whose user key and sequence number are not in it, it
  returns, the table holds that entry and those before, and the length it computed for the entry is right.\<close>

theorem memtable_add:
  assumes "memtable_of mt es" "entry_ok e"
    and "\<forall>e'\<in>es. pk_user_key e' = pk_user_key e \<longrightarrow> pk_sequence e' \<noteq> pk_sequence e"
  shows "\<exists>mt'. mt_Add slice_compare mt (pk_sequence e) (pk_type e) (pk_user_key e) (me_value e) = Ret mt' \<and>
    memtable_of mt' (insert e es)"
  using memtable_of_Add [OF assms(1,2)] assms(3) by blast

theorem memtable_add_witness:
  "\<exists>mt'. mt_Add slice_compare MemTable 5 1 [1] [2] = Ret mt' \<and>
    memtable_of mt' {\<lparr>pk_user_key = [1], pk_sequence = 5, pk_type = 1, me_value = [2]\<rparr>}"
  using memtable_add [OF memtable_of_empty, of "\<lparr>pk_user_key = [1], pk_sequence = 5, pk_type = 1, me_value = [2]\<rparr>"]
  by (simp add: entry_ok_def kMaxSequenceNumber_def)

text \<open>C14: Get answers for a snapshot: the value or the deletion of the newest entry of the user key whose sequence
  number is not above the snapshot's, and a miss when there is none.\<close>

theorem memtable_get:
  assumes "memtable_of mt es" "length u + 8 < 2 ^ 32" "s \<le> kMaxSequenceNumber"
  shows "(newest es u s e \<longrightarrow> rbind (LookupKey u s) (mt_Get slice_compare mt) = Ret (mem_result_of e)) \<and>
    (visible es u s = {} \<longrightarrow> rbind (LookupKey u s) (mt_Get slice_compare mt) = Ret Mem_Miss)"
  using mt_Get_spec [OF assms] LookupKey_at [OF assms(3)] by simp

theorem memtable_get_witness:
  "\<exists>mt. mt_Add slice_compare MemTable 5 1 [1] [2] = Ret mt \<and> rbind (LookupKey [1] 9) (mt_Get slice_compare mt) = Ret (Mem_Value [2]) \<and>
     rbind (LookupKey [1] 4) (mt_Get slice_compare mt) = Ret Mem_Miss"
proof -
  let ?e = "\<lparr>pk_user_key = [1], pk_sequence = 5, pk_type = 1, me_value = [2]\<rparr>"
  from memtable_of_Add [OF memtable_of_empty, of ?e] obtain mt where
    mt: "mt_Add slice_compare MemTable 5 1 [1] [2] = Ret mt" "memtable_of mt {?e}"
    by (auto simp: entry_ok_def kMaxSequenceNumber_def)
  have "newest {?e} [1] 9 ?e" "visible {?e} [1] 4 = {}" by (auto simp: newest_def visible_def)
  then show ?thesis
    using memtable_get [OF mt(2), of "[1]" 9] memtable_get [OF mt(2), of "[1]" 4] mt(1)
    by (auto simp: kMaxSequenceNumber_def mem_result_of_def)
qed

text \<open>C13: A batch of fewer than 2^31 Puts and Deletes, built, given a sequence number and inserted into an empty
  memtable, is what later lookups see: for any key, Get at a snapshot not before the batch's last sequence number yields the
  last update of that key in the batch, and a miss for a key the batch does not mention.\<close>

theorem batch_then_get:
  assumes "list_all update_fits us" "length us < 2 ^ 31" "unat seq + length us \<le> 2 ^ 56" "length u + 8 < 2 ^ 32"
    and "s \<le> kMaxSequenceNumber" "unat seq + length us \<le> unat s + 1"
  shows "\<exists>b mt. build us batch_Clear = Ret b \<and>
    batch_InsertInto slice_compare (batch_SetSequence b seq) MemTable = Ret (Status_OK, mt) \<and>
    rbind (LookupKey u s) (mt_Get slice_compare mt) = Ret (result_after us u Mem_Miss)"
proof -
  from batch_rep_build [OF batch_rep_Clear, of us] assms(2) obtain b where b: "build us batch_Clear = Ret b" "batch_rep b 0 us" by auto
  from InsertInto_rep [OF batch_rep_SetSequence [OF b(2)] assms(1) memtable_of_empty _ assms(3,2)] obtain mt where
    mt: "batch_InsertInto slice_compare (batch_SetSequence b seq) MemTable = Ret (Status_OK, mt)"
      "memtable_of mt (set (entries_of seq us))" by auto
  from mt_Get_spec [OF mt(2) assms(4,5)] newest_entries [OF assms(3,6), of u] mt(1) b(1) LookupKey_at [OF assms(5)]
  show ?thesis by auto
qed

theorem batch_then_get_witness:
  "\<exists>b mt. build [Put_Op [1] [2], Put_Op [3] [4], Delete_Op [1]] batch_Clear = Ret b \<and>
    batch_InsertInto slice_compare (batch_SetSequence b 7) MemTable = Ret (Status_OK, mt) \<and>
    rbind (LookupKey [1] 9) (mt_Get slice_compare mt) = Ret Mem_Deleted"
  using batch_then_get [of "[Put_Op [1] [2], Put_Op [3] [4], Delete_Op [1]]" 7 "[1]" 9]
  by (simp add: kMaxSequenceNumber_def)

end
