(* ===== verification/Ldb_File.thy ===== *)
theory Ldb_File
  imports Ldb_Slice
begin

text \<open>
  leveldb, the files of \<open>util/env_posix.cc\<close> that the log uses: \<open>PosixWritableFile\<close> and
  \<open>PosixSequentialFile\<close> over the C library's \<open>FILE\<close>. A file being written has what reached the disk, the
  buffer, and the number of bytes that will still be accepted before the device is full; one being
  read has its bytes, a position, and the position up to which the device can be read. The contract
  of a writable file, which the log writer relies on, is the locale \<open>writable_file\<close>.
\<close>

section \<open>The C library\<close>

record wFILE =
  wf_disk :: slice
  wf_buf :: slice
  wf_room :: nat
  wf_flushes :: bool
  wf_strerror :: slice

definition fwrite :: "slice \<Rightarrow> wFILE \<Rightarrow> nat \<times> wFILE" where
  "fwrite data f =
     (let n = min (length data) (wf_room f)
      in (n, f\<lparr>wf_buf := wf_buf f @ take n data, wf_room := wf_room f - n\<rparr>))"

definition fflush :: "wFILE \<Rightarrow> int \<times> wFILE" where
  "fflush f = (if wf_flushes f then (0, f\<lparr>wf_disk := wf_disk f @ wf_buf f, wf_buf := []\<rparr>) else (- 1, f))"

record rFILE =
  rf_data :: slice
  rf_pos :: nat
  rf_limit :: nat
  rf_strerror :: slice

definition fread :: "nat \<Rightarrow> rFILE \<Rightarrow> slice \<times> rFILE" where
  "fread n f =
     (let r = take n (drop (rf_pos f) (take (rf_limit f) (rf_data f)))
      in (r, f\<lparr>rf_pos := rf_pos f + length r\<rparr>))"

text \<open>After a short read the end-of-file flag tells the end of the file from an error.\<close>

definition feof :: "rFILE \<Rightarrow> bool" where
  "feof f \<longleftrightarrow> length (rf_data f) \<le> rf_pos f"

definition fseek_cur :: "int \<Rightarrow> rFILE \<Rightarrow> int \<times> rFILE" where
  "fseek_cur n f =
     (if int (rf_pos f) + n < 0 then (- 1, f) else (0, f\<lparr>rf_pos := nat (int (rf_pos f) + n)\<rparr>))"

section \<open>The files of the POSIX environment\<close>

record posix_wfile =
  pw_filename :: slice
  pw_file :: wFILE

definition PosixIOError :: "slice \<Rightarrow> slice \<Rightarrow> status" where
  "PosixIOError context strerr = IOError context strerr"

definition posix_Append :: "slice \<Rightarrow> posix_wfile \<Rightarrow> status \<times> posix_wfile" where
  "posix_Append data p =
     (case fwrite data (pw_file p) of (r, f) \<Rightarrow>
        let p = p\<lparr>pw_file := f\<rparr> in
        if r \<noteq> length data then (PosixIOError (pw_filename p) (wf_strerror f), p) else (Status_OK, p))"

definition posix_Flush :: "posix_wfile \<Rightarrow> status \<times> posix_wfile" where
  "posix_Flush p =
     (case fflush (pw_file p) of (r, f) \<Rightarrow>
        let p = p\<lparr>pw_file := f\<rparr> in
        if r \<noteq> 0 then (PosixIOError (pw_filename p) (wf_strerror f), p) else (Status_OK, p))"

record posix_rfile =
  pr_filename :: slice
  pr_file :: rFILE

definition posix_Read :: "nat \<Rightarrow> posix_rfile \<Rightarrow> status \<times> slice \<times> posix_rfile" where
  "posix_Read n p =
     (case fread n (pr_file p) of (r, f) \<Rightarrow>
        let p = p\<lparr>pr_file := f\<rparr> in
        if length r < n then
          if feof f then (Status_OK, r, p) else (PosixIOError (pr_filename p) (rf_strerror f), r, p)
        else (Status_OK, r, p))"

definition posix_Skip :: "u64 \<Rightarrow> posix_rfile \<Rightarrow> status \<times> posix_rfile" where
  "posix_Skip n p =
     (case fseek_cur (sint n) (pr_file p) of (r, f) \<Rightarrow>
        let p = p\<lparr>pr_file := f\<rparr> in
        if r \<noteq> 0 then (PosixIOError (pr_filename p) (rf_strerror f), p) else (Status_OK, p))"

section \<open>The contract of a writable file\<close>

text \<open>
  \<open>contents\<close> are the bytes accepted so far, \<open>room\<close> how many more will be accepted: an append takes as much as
  there is room for, and succeeds when that is all of it.
\<close>

locale writable_file =
  fixes append :: "slice \<Rightarrow> 'f \<Rightarrow> status \<times> 'f"
    and flush :: "'f \<Rightarrow> status \<times> 'f"
    and contents :: "'f \<Rightarrow> slice"
    and room :: "'f \<Rightarrow> nat"
  assumes append_contents: "append data f = (s, f') \<Longrightarrow> contents f' = contents f @ take (room f) data"
    and append_room: "append data f = (s, f') \<Longrightarrow> room f' = room f - length data"
    and append_ok: "append data f = (s, f') \<Longrightarrow> status_ok s \<longleftrightarrow> length data \<le> room f"
    and flush_contents: "flush f = (s, f') \<Longrightarrow> contents f' = contents f"
    and flush_room: "flush f = (s, f') \<Longrightarrow> room f' = room f"

definition posix_contents :: "posix_wfile \<Rightarrow> slice" where
  "posix_contents p = wf_disk (pw_file p) @ wf_buf (pw_file p)"

definition posix_room :: "posix_wfile \<Rightarrow> nat" where
  "posix_room p = wf_room (pw_file p)"

lemma PosixIOError_not_ok [simp]: "\<not> status_ok (PosixIOError a b)"
  by (simp add: PosixIOError_def IOError_def status_make_def status_ok_def Let_def)

interpretation posix: writable_file posix_Append posix_Flush posix_contents posix_room
  by unfold_locales
    (auto simp: posix_Append_def posix_Flush_def fwrite_def fflush_def posix_contents_def posix_room_def Let_def
      min_def split: if_splits)

end
