(* ===== verification/Ldb_Log.thy ===== *)
theory Ldb_Log
  imports Ldb_Crc Ldb_File
begin

text \<open>
  leveldb, \<open>db/log_format.h\<close>, \<open>db/log_writer.h\<close> and \<open>db/log_writer.cc\<close>: the write-ahead log is a sequence of
  32 KB blocks of physical records; a record that does not fit in a block is written in fragments.
  \<open>record_bytes\<close> is the layout of a record as a function of the offset in the block; \<open>AddRecord\<close> is
  shown to write it, or a prefix of it when the file fails.
\<close>

section \<open>The format\<close>

definition kZeroType :: byte where [simp]: "kZeroType = 0"
definition kFullType :: byte where [simp]: "kFullType = 1"
definition kFirstType :: byte where [simp]: "kFirstType = 2"
definition kMiddleType :: byte where [simp]: "kMiddleType = 3"
definition kLastType :: byte where [simp]: "kLastType = 4"
definition kMaxRecordType :: byte where [simp]: "kMaxRecordType = kLastType"
definition kBlockSize :: nat where [simp]: "kBlockSize = 32768"
definition kHeaderSize :: nat where [simp]: "kHeaderSize = 4 + 2 + 1"

section \<open>The writer\<close>

record 'f log_writer =
  lw_dest :: 'f
  lw_block_offset :: int
  lw_type_crc :: "u32 list"

definition Writer :: "'f \<Rightarrow> 'f log_writer" where
  "Writer dest =
     \<lparr>lw_dest = dest, lw_block_offset = 0,
      lw_type_crc = map (\<lambda>i. crc_Value [of_nat i]) [0..<unat kMaxRecordType + 1]\<rparr>"

definition EmitPhysicalRecord ::
  "(slice \<Rightarrow> 'f \<Rightarrow> status \<times> 'f) \<Rightarrow> ('f \<Rightarrow> status \<times> 'f) \<Rightarrow> byte \<Rightarrow> slice \<Rightarrow> 'f log_writer \<Rightarrow> (status \<times> 'f log_writer) run" where
  "EmitPhysicalRecord dest_append dest_flush t ptr w =
     (let n = length ptr in
      if \<not> n \<le> 0xffff then UB
      else if \<not> lw_block_offset w + int kHeaderSize + int n \<le> int kBlockSize then UB
      else
        let crc = Extend 0 (lw_type_crc w ! unat t) ptr;
            crc = Mask crc;
            buf = EncodeFixed32 crc @ [of_nat n AND 0xff, of_nat (n div 2 ^ 8), t];
            (s, dest) = dest_append buf (lw_dest w);
            (s, dest) =
              (if status_ok s then
                 case dest_append ptr dest of (s, dest) \<Rightarrow> if status_ok s then dest_flush dest else (s, dest)
               else (s, dest))
        in Ret (s, w\<lparr>lw_dest := dest, lw_block_offset := lw_block_offset w + int (kHeaderSize + n)\<rparr>))"

text \<open>Filling the trailer of a block that has no room for a header; the status of the append is not looked at.\<close>

definition switch_block :: "(slice \<Rightarrow> 'f \<Rightarrow> status \<times> 'f) \<Rightarrow> 'f log_writer \<Rightarrow> 'f log_writer" where
  "switch_block dest_append w =
     (let leftover = int kBlockSize - lw_block_offset w in
      if leftover < int kHeaderSize then
        let dest = (if leftover > 0 then snd (dest_append (take (nat leftover) (replicate 6 0)) (lw_dest w)) else lw_dest w)
        in w\<lparr>lw_dest := dest, lw_block_offset := 0\<rparr>
      else w)"

text \<open>The \<open>do\<close> loop of \<open>AddRecord\<close>.\<close>

function (domintros) add_record_loop ::
  "(slice \<Rightarrow> 'f \<Rightarrow> status \<times> 'f) \<Rightarrow> ('f \<Rightarrow> status \<times> 'f) \<Rightarrow> bool \<Rightarrow> slice \<Rightarrow> 'f log_writer \<Rightarrow> (status \<times> 'f log_writer) run" where
  "add_record_loop dest_append dest_flush begin ptr w =
     (let leftover = int kBlockSize - lw_block_offset w in
      if \<not> leftover \<ge> 0 then UB
      else
        let w = switch_block dest_append w in
        if \<not> int kBlockSize - lw_block_offset w - int kHeaderSize \<ge> 0 then UB
        else
          let avail = nat (int kBlockSize - lw_block_offset w - int kHeaderSize);
              left = length ptr;
              fragment_length = (if left < avail then left else avail);
              end = (left = fragment_length);
              type = (if begin \<and> end then kFullType else if begin then kFirstType
                      else if end then kLastType else kMiddleType)
          in rbind (EmitPhysicalRecord dest_append dest_flush type (take fragment_length ptr) w) (\<lambda>(s, w).
               if status_ok s \<and> drop fragment_length ptr \<noteq> [] then
                 add_record_loop dest_append dest_flush False (drop fragment_length ptr) w
               else Ret (s, w)))"
  by pat_completeness auto

lemma EmitPhysicalRecord_offset:
  "EmitPhysicalRecord dest_append dest_flush t ptr w = Ret (s, w') \<Longrightarrow>
     lw_block_offset w' = lw_block_offset w + int (kHeaderSize + length ptr)"
  by (auto simp: EmitPhysicalRecord_def Let_def split: if_splits prod.splits)

termination add_record_loop
  by (relation "measure (\<lambda>(dest_append, dest_flush, begin, ptr, w).
        2 * length ptr + (if lw_block_offset w = int kBlockSize - int kHeaderSize then 1 else 0))")
    (auto simp: Let_def switch_block_def dest!: EmitPhysicalRecord_offset split: if_splits)

declare add_record_loop.simps [simp del]

definition AddRecord ::
  "(slice \<Rightarrow> 'f \<Rightarrow> status \<times> 'f) \<Rightarrow> ('f \<Rightarrow> status \<times> 'f) \<Rightarrow> slice \<Rightarrow> 'f log_writer \<Rightarrow> (status \<times> 'f log_writer) run" where
  "AddRecord dest_append dest_flush rec w = add_record_loop dest_append dest_flush True rec w"

section \<open>The layout of a record\<close>

definition phys :: "byte \<Rightarrow> slice \<Rightarrow> slice" where
  "phys t d = EncodeFixed32 (Mask (crc_Value (t # d))) @ [of_nat (length d) AND 0xff, of_nat (length d div 2 ^ 8), t] @ d"

definition fragment_type :: "bool \<Rightarrow> bool \<Rightarrow> byte" where
  "fragment_type begin end =
     (if begin then if end then kFullType else kFirstType else if end then kLastType else kMiddleType)"

text \<open>The padding before a physical record at an offset in the block, and where it then starts.\<close>

definition pad :: "nat \<Rightarrow> nat" where
  "pad off = (if kBlockSize - off < kHeaderSize then kBlockSize - off else 0)"

definition start :: "nat \<Rightarrow> nat" where
  "start off = (if kBlockSize - off < kHeaderSize then 0 else off)"

definition room_at :: "nat \<Rightarrow> nat" where
  "room_at off = kBlockSize - start off - kHeaderSize"

function record_bytes :: "nat \<Rightarrow> bool \<Rightarrow> slice \<Rightarrow> slice" where
  "record_bytes off begin d =
     replicate (pad off) 0 @
     (if length d \<le> room_at off then phys (fragment_type begin True) d
      else phys (fragment_type begin False) (take (room_at off) d) @ record_bytes kBlockSize False (drop (room_at off) d))"
  by pat_completeness auto
termination
  by (relation "measure (\<lambda>(off, begin, d). 2 * length d + (if off = kBlockSize then 0 else 1))")
    (auto simp: room_at_def start_def split: if_splits)

declare record_bytes.simps [simp del]

fun log_bytes :: "nat \<Rightarrow> slice list \<Rightarrow> slice" where
  "log_bytes p [] = []"
| "log_bytes p (d # ds) =
     (let r = record_bytes (p mod kBlockSize) True d in r @ log_bytes (p + length r) ds)"

section \<open>The writer writes the layout\<close>

definition writer_at :: "'f log_writer \<Rightarrow> nat \<Rightarrow> bool" where
  "writer_at w off \<longleftrightarrow> lw_block_offset w = int off \<and> off \<le> kBlockSize \<and>
     (\<forall>t \<le> kMaxRecordType. lw_type_crc w ! unat t = crc_Value [t])"

lemma writer_at_Writer: "writer_at (Writer dest) 0"
proof -
  have "map (\<lambda>i. crc_Value [of_nat i]) [0..<5] ! unat t = crc_Value [t]" if "t \<le> 4" for t :: byte
    using that by (simp add: word_le_nat_alt)
  then show ?thesis by (simp add: writer_at_def Writer_def)
qed

lemma length_phys [simp]: "length (phys t d) = kHeaderSize + length d"
  by (simp add: phys_def)

lemma pad_start: "off \<le> kBlockSize \<Longrightarrow> (off + pad off) mod kBlockSize = start off mod kBlockSize"
    "start off + kHeaderSize \<le> kBlockSize" "pad off \<le> 6" "off \<le> kBlockSize \<Longrightarrow> start off = off \<and> pad off = 0 \<or> start off = 0 \<and> off + pad off = kBlockSize"
  by (auto simp: pad_def start_def)

lemma take_append_min: "take (min r (length xs)) (xs @ ys) = take r xs"
  by (cases "r \<le> length xs") (simp_all add: min_def)

lemma offset_mod:
  assumes "off \<le> kBlockSize"
  shows "(off + (pad off + l)) mod kBlockSize = (start off + l) mod kBlockSize"
proof -
  have "(off + pad off + l) mod kBlockSize = (start off + l) mod kBlockSize"
    by (rule mod_add_cong [OF pad_start(1) [OF assms] refl])
  then show ?thesis by (simp only: add.assoc)
qed

lemma record_bytes_mod: "off \<le> kBlockSize \<Longrightarrow> record_bytes (off mod kBlockSize) b d = record_bytes off b d"
  by (cases "off = kBlockSize") (auto simp: record_bytes.simps [of _ b d] pad_def start_def room_at_def)

context writable_file begin

lemma emit:
  assumes "writer_at w off" "t \<le> kMaxRecordType" "off + kHeaderSize + length d \<le> kBlockSize"
  shows "\<exists>s w'. EmitPhysicalRecord append flush t d w = Ret (s, w') \<and>
    contents (lw_dest w') = contents (lw_dest w) @ take (room (lw_dest w)) (phys t d) \<and>
    (status_ok s \<longrightarrow> length (phys t d) \<le> room (lw_dest w)) \<and> writer_at w' (off + kHeaderSize + length d)"
proof -
  define h where "h = EncodeFixed32 (Mask (crc_Value (t # d))) @ [of_nat (length d) AND 0xff, of_nat (length d div 2 ^ 8), t]"
  have h: "length h = 7" "phys t d = h @ d" by (simp_all add: h_def phys_def)
  have "Extend 0 (crc_Value [t]) d = crc_Value (t # d)"
    using Extend_append [of 0 0 0 "[t]" d 0] by (simp add: crc_Value_def)
  then have crc: "Extend 0 (lw_type_crc w ! unat t) d = crc_Value (t # d)"
    using assms(1,2) by (simp add: writer_at_def)
  obtain s1 f1 where 1: "append h (lw_dest w) = (s1, f1)" by fastforce
  obtain s2 f2 where 2: "append d f1 = (s2, f2)" by fastforce
  obtain s3 f3 where 3: "flush f2 = (s3, f3)" by fastforce
  have "EmitPhysicalRecord append flush t d w =
      Ret (if status_ok s1 then if status_ok s2 then s3 else s2 else s1,
        w\<lparr>lw_dest := if status_ok s1 then if status_ok s2 then f3 else f2 else f1,
          lw_block_offset := lw_block_offset w + int (kHeaderSize + length d)\<rparr>)"
    using assms 1 2 3 unfolding EmitPhysicalRecord_def Let_def crc writer_at_def h_def by simp
  then show ?thesis
    using assms append_contents [OF 1] append_room [OF 1] append_ok [OF 1] append_contents [OF 2] append_room [OF 2]
      append_ok [OF 2] flush_contents [OF 3]
    by (auto simp: writer_at_def h)
qed

lemma emit_at:
  assumes "writer_at w off" "t \<le> kMaxRecordType" "length d \<le> room_at off"
  shows "\<exists>s w'. EmitPhysicalRecord append flush t d (switch_block append w) = Ret (s, w') \<and>
    contents (lw_dest w') = contents (lw_dest w) @ take (room (lw_dest w)) (replicate (pad off) 0 @ phys t d) \<and>
    (status_ok s \<longrightarrow> pad off + length (phys t d) \<le> room (lw_dest w)) \<and>
    writer_at w' (start off + kHeaderSize + length d)"
proof (cases "kBlockSize - off < kHeaderSize")
  case True
  let ?z = "take (nat (int kBlockSize - int off)) (replicate 6 0)"
  let ?w = "switch_block append w"
  have off: "lw_block_offset w = int off" "off \<le> kBlockSize" using assms(1) by (simp_all add: writer_at_def)
  have z: "?z = replicate (pad off) 0" using True by (simp add: pad_def nat_diff_distrib nat_le_iff)
  obtain s1 f1 where 1: "append ?z (lw_dest w) = (s1, f1)" by fastforce
  have f: "contents (lw_dest ?w) = contents (lw_dest w) @ take (room (lw_dest w)) (replicate (pad off) 0)"
      "room (lw_dest ?w) = room (lw_dest w) - pad off"
    using append_contents [OF 1] append_room [OF 1] 1 z True off
    by (auto simp: pad_def switch_block_def Let_def)
  have "writer_at ?w 0" using assms(1) True off by (auto simp: writer_at_def switch_block_def Let_def)
  from emit [OF this assms(2), of d] assms(3) True obtain s w' where
    "EmitPhysicalRecord append flush t d ?w = Ret (s, w')"
    "contents (lw_dest w') = contents (lw_dest ?w) @ take (room (lw_dest ?w)) (phys t d)"
    "status_ok s \<longrightarrow> length (phys t d) \<le> room (lw_dest ?w)" "writer_at w' (0 + kHeaderSize + length d)"
    by (auto simp: room_at_def start_def)
  with f True show ?thesis by (auto simp: start_def)
next
  case False
  with assms(1) have "switch_block append w = w" by (auto simp: switch_block_def writer_at_def Let_def)
  with emit [OF assms(1,2), of d] assms(3) False show ?thesis
    by (auto simp: room_at_def start_def pad_def)
qed

lemma add_record_step:
  assumes "writer_at w off"
  shows "add_record_loop append flush b d w =
    rbind (EmitPhysicalRecord append flush (fragment_type b (length d \<le> room_at off)) (take (room_at off) d) (switch_block append w))
      (\<lambda>(s, w). if status_ok s \<and> room_at off < length d
         then add_record_loop append flush False (drop (room_at off) d) w else Ret (s, w))"
proof -
  have off: "lw_block_offset w = int off" "off \<le> kBlockSize" using assms by (simp_all add: writer_at_def)
  have "int kBlockSize - int off < int kHeaderSize \<longleftrightarrow> kBlockSize - off < kHeaderSize" using off by simp arith
  then have sw: "lw_block_offset (switch_block append w) = int (start off)"
    using off by (auto simp: switch_block_def start_def Let_def)
  have room: "nat (int kBlockSize - int (start off) - int kHeaderSize) = room_at off"
    by (simp add: room_at_def nat_diff_distrib start_def)
  define n where "n = (if length d < room_at off then length d else room_at off)"
  have n: "take n d = take (room_at off) d" "length d = n \<longleftrightarrow> length d \<le> room_at off"
      "drop n d \<noteq> [] \<longleftrightarrow> room_at off < length d" by (auto simp: n_def)
  have "\<not> \<not> int kBlockSize - int off \<ge> 0" "\<not> \<not> int kBlockSize - int (start off) - int kHeaderSize \<ge> 0"
    using off by (simp_all add: start_def) arith
  then have "add_record_loop append flush b d w =
      rbind (EmitPhysicalRecord append flush (fragment_type b (length d = n)) (take n d) (switch_block append w)) (\<lambda>(s, w).
        if status_ok s \<and> drop n d \<noteq> [] then add_record_loop append flush False (drop n d) w else Ret (s, w))"
    by (subst add_record_loop.simps) (simp only: Let_def off(1) sw room n_def [symmetric] if_False fragment_type_def
      split: if_split, simp)
  also have "\<dots> = rbind (EmitPhysicalRecord append flush (fragment_type b (length d \<le> room_at off)) (take (room_at off) d)
        (switch_block append w))
      (\<lambda>(s, w). if status_ok s \<and> room_at off < length d
         then add_record_loop append flush False (drop (room_at off) d) w else Ret (s, w))"
    unfolding n by (rule arg_cong [where f = "rbind _"]) (auto simp: n_def fun_eq_iff)
  finally show ?thesis .
qed

lemma add_record_loop_writes:
  "writer_at w off \<Longrightarrow>
   \<exists>s w' k. add_record_loop append flush b d w = Ret (s, w') \<and>
     contents (lw_dest w') = contents (lw_dest w) @ take k (record_bytes off b d) \<and>
     (status_ok s \<longrightarrow> length (record_bytes off b d) \<le> k \<and>
        (\<exists>off'. writer_at w' off' \<and> off' mod kBlockSize = (off + length (record_bytes off b d)) mod kBlockSize))"
proof (induction off b d arbitrary: w rule: record_bytes.induct)
  case (1 off b d)
  define n where "n = room_at off"
  define t where "t = fragment_type b (length d \<le> n)"
  have t: "t \<le> kMaxRecordType" by (simp add: t_def fragment_type_def)
  have n: "length (take n d) \<le> room_at off" by (simp add: n_def)
  note step = add_record_step [OF "1.prems", of b d, folded n_def, folded t_def]
  note layout = record_bytes.simps [of off b d, folded n_def]
  from emit_at [OF "1.prems" t n] obtain s w' where
    w': "EmitPhysicalRecord append flush t (take n d) (switch_block append w) = Ret (s, w')"
    and c: "contents (lw_dest w') = contents (lw_dest w) @ take (room (lw_dest w)) (replicate (pad off) 0 @ phys t (take n d))"
    and ok: "status_ok s \<Longrightarrow> pad off + length (phys t (take n d)) \<le> room (lw_dest w)"
    and at: "writer_at w' (start off + kHeaderSize + length (take n d))"
    by auto
  show ?case
  proof (cases "status_ok s \<and> n < length d")
    case False
    have prefix: "length (take n d) = length d \<and> record_bytes off b d = replicate (pad off) 0 @ phys t (take n d)" if "status_ok s"
      using that False layout by (simp add: t_def)
    have "(off + length (replicate (pad off) (0 :: byte) @ phys t (take n d))) mod kBlockSize =
        (start off + kHeaderSize + length (take n d)) mod kBlockSize"
      using offset_mod [of off "length (phys t (take n d))"] "1.prems"
      by (simp only: writer_at_def length_append length_replicate length_phys add.assoc)
    moreover obtain rest where "record_bytes off b d = (replicate (pad off) 0 @ phys t (take n d)) @ rest"
      using layout by (cases "length d \<le> n") (auto simp: t_def)
    then have "take (min (room (lw_dest w)) (length (replicate (pad off) (0 :: byte) @ phys t (take n d)))) (record_bytes off b d) =
        take (room (lw_dest w)) (replicate (pad off) 0 @ phys t (take n d))"
      by (simp only: take_append_min)
    moreover have "length (replicate (pad off) (0 :: byte) @ phys t (take n d)) \<le> room (lw_dest w)" if "status_ok s"
      using ok [OF that] by simp
    ultimately show ?thesis
      using False w' c at prefix
      by (intro exI [of _ s] exI [of _ w'] exI [of _ "min (room (lw_dest w)) (length (replicate (pad off) (0 :: byte) @ phys t (take n d)))"])
        (auto simp: step simp del: take_append length_append length_phys)
  next
    case True
    then have r: "record_bytes off b d = (replicate (pad off) 0 @ phys t (take n d)) @ record_bytes kBlockSize False (drop n d)"
      using layout by (simp add: t_def)
    have end_block: "start off + kHeaderSize + length (take n d) = kBlockSize"
      using True by (simp add: n_def room_at_def start_def)
    have c': "contents (lw_dest w') = contents (lw_dest w) @ replicate (pad off) 0 @ phys t (take n d)"
      using c ok True by simp
    have "writer_at w' kBlockSize" using at by (simp only: end_block)
    from "1.IH" [OF _ this, folded n_def] True obtain s2 w2 k where
      w2: "add_record_loop append flush False (drop n d) w' = Ret (s2, w2)"
      and c2: "contents (lw_dest w2) = contents (lw_dest w') @ take k (record_bytes kBlockSize False (drop n d))"
      and ok2: "status_ok s2 \<longrightarrow> length (record_bytes kBlockSize False (drop n d)) \<le> k \<and>
        (\<exists>off'. writer_at w2 off' \<and>
           off' mod kBlockSize = (kBlockSize + length (record_bytes kBlockSize False (drop n d))) mod kBlockSize)"
      by auto
    have "(off + (pad off + length (phys t (take n d)) + l)) mod kBlockSize = (kBlockSize + l) mod kBlockSize" for l
      using offset_mod [of off "length (phys t (take n d)) + l"] "1.prems" end_block
      by (simp only: writer_at_def length_phys add.assoc [symmetric])
    then show ?thesis
      using True w' w2 c' c2 ok2 by (intro exI [of _ s2] exI [of _ w2] exI [of _ "pad off + length (phys t (take n d)) + k"])
        (auto simp: step r add.assoc simp del: length_phys)
  qed
qed

lemma AddRecord_writes:
  assumes "writer_at w off" "off mod kBlockSize = length (contents (lw_dest w)) mod kBlockSize"
  shows "\<exists>s w' k. AddRecord append flush d w = Ret (s, w') \<and>
     contents (lw_dest w') = contents (lw_dest w) @
       take k (record_bytes (length (contents (lw_dest w)) mod kBlockSize) True d) \<and>
     (status_ok s \<longrightarrow> length (record_bytes (length (contents (lw_dest w)) mod kBlockSize) True d) \<le> k \<and>
        (\<exists>off'. writer_at w' off' \<and> off' mod kBlockSize = length (contents (lw_dest w')) mod kBlockSize))"
proof -
  let ?b = "record_bytes (length (contents (lw_dest w)) mod kBlockSize) True d"
  have b: "record_bytes off True d = ?b"
    using record_bytes_mod [of off] assms by (simp only: writer_at_def)
  from add_record_loop_writes [OF assms(1), of True d] obtain s w' k where
    w': "add_record_loop append flush True d w = Ret (s, w')"
    and c: "contents (lw_dest w') = contents (lw_dest w) @ take k ?b"
    and ok: "status_ok s \<Longrightarrow> length ?b \<le> k \<and>
       (\<exists>off'. writer_at w' off' \<and> off' mod kBlockSize = (off + length ?b) mod kBlockSize)"
    by (auto simp: b)
  have "(off + length ?b) mod kBlockSize = (length (contents (lw_dest w)) + length ?b) mod kBlockSize"
    by (rule mod_add_cong [OF assms(2) refl])
  with w' c ok show ?thesis
    by (intro exI [of _ s] exI [of _ w'] exI [of _ k]) (auto simp: AddRecord_def)
qed

end

text \<open>The caller adds records until one fails; how many were added, and the file at the end.\<close>

fun add_records ::
  "(slice \<Rightarrow> 'f \<Rightarrow> status \<times> 'f) \<Rightarrow> ('f \<Rightarrow> status \<times> 'f) \<Rightarrow> slice list \<Rightarrow> 'f log_writer \<Rightarrow> (nat \<times> 'f log_writer) run" where
  "add_records dest_append dest_flush [] w = Ret (0, w)"
| "add_records dest_append dest_flush (d # ds) w =
     rbind (AddRecord dest_append dest_flush d w) (\<lambda>(s, w).
       if status_ok s then rbind (add_records dest_append dest_flush ds w) (\<lambda>(n, w). Ret (n + 1, w)) else Ret (0, w))"

context writable_file begin

lemma add_records_writes:
  "writer_at w off \<Longrightarrow> off mod kBlockSize = length (contents (lw_dest w)) mod kBlockSize \<Longrightarrow>
   \<exists>n w' k. add_records append flush ds w = Ret (n, w') \<and> n \<le> length ds \<and>
     contents (lw_dest w') = contents (lw_dest w) @ take k (log_bytes (length (contents (lw_dest w))) ds) \<and>
     length (log_bytes (length (contents (lw_dest w))) (take n ds)) \<le> k"
proof (induction ds arbitrary: w off)
  case Nil
  then show ?case by simp
next
  case (Cons d ds)
  let ?c = "contents (lw_dest w)" and ?b = "record_bytes (length (contents (lw_dest w)) mod kBlockSize) True d"
  from AddRecord_writes [OF Cons.prems, of d] obtain s w' k where
    w': "AddRecord append flush d w = Ret (s, w')" and c: "contents (lw_dest w') = ?c @ take k ?b"
    and ok: "status_ok s \<longrightarrow> length ?b \<le> k \<and>
        (\<exists>off'. writer_at w' off' \<and> off' mod kBlockSize = length (contents (lw_dest w')) mod kBlockSize)"
    by blast
  show ?case
  proof (cases "status_ok s")
    case True
    with ok c obtain off' where at: "writer_at w' off'" "off' mod kBlockSize = length (contents (lw_dest w')) mod kBlockSize"
      and c': "contents (lw_dest w') = ?c @ ?b" by auto
    from Cons.IH [OF at] obtain n w2 k2 where
      "add_records append flush ds w' = Ret (n, w2)" "n \<le> length ds"
      "contents (lw_dest w2) = ?c @ ?b @ take k2 (log_bytes (length ?c + length ?b) ds)"
      "length (log_bytes (length ?c + length ?b) (take n ds)) \<le> k2"
      by (auto simp: c')
    with w' True show ?thesis
      by (intro exI [of _ "n + 1"] exI [of _ w2] exI [of _ "length ?b + k2"]) (simp add: Let_def)
  next
    case False
    show ?thesis
      by (rule exI [of _ 0], rule exI [of _ w'], rule exI [of _ "min k (length ?b)"]) (use False w' c take_append_min [of k ?b "[]"] in \<open>simp add: Let_def\<close>)
  qed
qed

end

end
