(* ===== verification/Ldb_Log_Reader.thy ===== *)
theory Ldb_Log_Reader
  imports Ldb_Log
begin

text \<open>
  leveldb, \<open>db/log_reader.h\<close> and \<open>db/log_reader.cc\<close>: reading the records of a log back. The file is the
  \<open>PosixSequentialFile\<close> of the POSIX environment; the reporter is the list of its calls, or \<open>None\<close> where
  the pointer is null. Both loops of the reader are shown to end. \<open>log_recovery\<close> says what is read
  from any prefix of what the writer writes.
\<close>

section \<open>The reader\<close>

definition kEof :: u32 where [simp]: "kEof = ucast kMaxRecordType + 1"
definition kBadRecord :: u32 where [simp]: "kBadRecord = ucast kMaxRecordType + 2"

record log_reader =
  lr_file :: posix_rfile
  lr_reporter :: "(nat \<times> status) list option"
  lr_checksum :: bool
  lr_buffer :: slice
  lr_eof :: bool
  lr_last_record_offset :: u64
  lr_end_of_buffer_offset :: u64
  lr_initial_offset :: u64

definition Reader :: "posix_rfile \<Rightarrow> (nat \<times> status) list option \<Rightarrow> bool \<Rightarrow> u64 \<Rightarrow> log_reader" where
  "Reader file reporter checksum initial_offset =
     \<lparr>lr_file = file, lr_reporter = reporter, lr_checksum = checksum, lr_buffer = [], lr_eof = False,
      lr_last_record_offset = 0, lr_end_of_buffer_offset = 0, lr_initial_offset = initial_offset\<rparr>"

definition ReportDrop :: "u64 \<Rightarrow> status \<Rightarrow> log_reader \<Rightarrow> log_reader" where
  "ReportDrop bytes reason r =
     (case lr_reporter r of
        None \<Rightarrow> r
      | Some calls \<Rightarrow>
          if lr_end_of_buffer_offset r - of_nat (length (lr_buffer r)) - bytes \<ge> lr_initial_offset r
          then r\<lparr>lr_reporter := Some (calls @ [(unat bytes, reason)])\<rparr> else r)"

definition ReportCorruption :: "u64 \<Rightarrow> slice \<Rightarrow> log_reader \<Rightarrow> log_reader" where
  "ReportCorruption bytes reason r = ReportDrop bytes (Corruption reason []) r"

definition SkipToInitialBlock :: "log_reader \<Rightarrow> bool \<times> log_reader" where
  "SkipToInitialBlock r =
     (let offset_in_block = lr_initial_offset r mod of_nat kBlockSize;
          block_start_location = lr_initial_offset r - offset_in_block;
          block_start_location =
            (if offset_in_block > of_nat (kBlockSize - 6) then block_start_location + of_nat kBlockSize
             else block_start_location);
          r = r\<lparr>lr_end_of_buffer_offset := block_start_location\<rparr>
      in if block_start_location > 0 then
           case posix_Skip block_start_location (lr_file r) of (skip_status, file) \<Rightarrow>
             let r = r\<lparr>lr_file := file\<rparr> in
             if \<not> status_ok skip_status then (False, ReportDrop block_start_location skip_status r) else (True, r)
         else (True, r))"

text \<open>
  One physical record, with its type, from a buffer that holds its header. \<open>result\<close> is the output parameter:
  what it held stays unless a record is read. A header byte is a \<open>char\<close>, so the type is sign-extended.
\<close>

definition parse_physical_record :: "slice \<Rightarrow> log_reader \<Rightarrow> u32 \<times> slice \<times> log_reader" where
  "parse_physical_record result r =
     (let header = lr_buffer r;
          a = ucast (header ! 4) AND 0xff :: u32;
          b = ucast (header ! 5) AND 0xff :: u32;
          type = scast (header ! 6) :: u32;
          len = a OR push_bit 8 b
      in if kHeaderSize + unat len > length (lr_buffer r) then
           let drop_size = of_nat (length (lr_buffer r));
               r = r\<lparr>lr_buffer := []\<rparr>
           in if \<not> lr_eof r then (kBadRecord, result, ReportCorruption drop_size (cstr ''bad record length'') r)
              else (kEof, result, r)
         else if type = ucast kZeroType \<and> len = 0 then (kBadRecord, result, r\<lparr>lr_buffer := []\<rparr>)
         else if lr_checksum r \<and> crc_Value (take (1 + unat len) (drop 6 header)) \<noteq> Unmask (DecodeFixed32 header) then
           let drop_size = of_nat (length (lr_buffer r));
               r = r\<lparr>lr_buffer := []\<rparr>
           in (kBadRecord, result, ReportCorruption drop_size (cstr ''checksum mismatch'') r)
         else
           let r = r\<lparr>lr_buffer := remove_prefix (kHeaderSize + unat len) (lr_buffer r)\<rparr> in
           if lr_end_of_buffer_offset r - of_nat (length (lr_buffer r)) - of_nat kHeaderSize - ucast len
              < lr_initial_offset r then (kBadRecord, [], r)
           else (type, take (unat len) (drop kHeaderSize header), r))"

function ReadPhysicalRecord :: "slice \<Rightarrow> log_reader \<Rightarrow> u32 \<times> slice \<times> log_reader" where
  "ReadPhysicalRecord result r =
     (if length (lr_buffer r) < kHeaderSize then
        if \<not> lr_eof r then
          case posix_Read kBlockSize (lr_file r) of (status, data, file) \<Rightarrow>
            let r = r\<lparr>lr_file := file, lr_buffer := data,
                      lr_end_of_buffer_offset := lr_end_of_buffer_offset r + of_nat (length data)\<rparr>
            in if \<not> status_ok status then
                 (kEof, result, (ReportDrop (of_nat kBlockSize) status (r\<lparr>lr_buffer := []\<rparr>))\<lparr>lr_eof := True\<rparr>)
               else ReadPhysicalRecord result (if length data < kBlockSize then r\<lparr>lr_eof := True\<rparr> else r)
        else (kEof, result, r\<lparr>lr_buffer := []\<rparr>)
      else parse_physical_record result r)"
  by pat_completeness auto
termination
  by (relation "measure (\<lambda>(result, r). if length (lr_buffer r) < kHeaderSize \<and> \<not> lr_eof r then 1 else 0)")
    (auto split: if_splits)

declare ReadPhysicalRecord.simps [simp del]

text \<open>What is left to read: it shrinks with every physical record, so the loop over them ends.\<close>

definition unread :: "log_reader \<Rightarrow> nat" where
  "unread r = length (lr_buffer r) +
     (length (take (rf_limit (pr_file (lr_file r))) (rf_data (pr_file (lr_file r)))) - rf_pos (pr_file (lr_file r)))"

lemma unread_ReportDrop [simp]: "unread (ReportDrop bytes reason r) = unread r"
  by (simp add: ReportDrop_def unread_def split: option.splits)

lemma unread_ReportCorruption [simp]: "unread (ReportCorruption bytes reason r) = unread r"
  by (simp add: ReportCorruption_def)

lemma unread_Read:
  "posix_Read n (lr_file r) = (s, data, file) \<Longrightarrow>
     unread (r\<lparr>lr_file := file, lr_buffer := data, lr_end_of_buffer_offset := e\<rparr>) \<le> unread r"
  by (auto simp: posix_Read_def fread_def unread_def Let_def split: if_splits)

lemma parse_unread:
  "parse_physical_record result r = (t, result', r') \<Longrightarrow> kHeaderSize \<le> length (lr_buffer r) \<Longrightarrow> unread r' < unread r"
  by (auto simp: parse_physical_record_def Let_def ReportCorruption_def remove_prefix_def unread_def ReportDrop_def
    split: if_splits option.splits)

lemma ReadPhysicalRecord_unread:
  "ReadPhysicalRecord result r = (t, result', r') \<Longrightarrow> t \<noteq> kEof \<Longrightarrow> unread r' < unread r"
proof (induction result r rule: ReadPhysicalRecord.induct)
  case (1 result r)
  show ?case
  proof (cases "length (lr_buffer r) < kHeaderSize \<and> \<not> lr_eof r")
    case True
    obtain s data fl where read: "posix_Read kBlockSize (lr_file r) = (s, data, fl)" by (cases "posix_Read kBlockSize (lr_file r)")
    let ?r = "r\<lparr>lr_file := fl, lr_buffer := data, lr_end_of_buffer_offset := lr_end_of_buffer_offset r + of_nat (length data)\<rparr>"
    have s: "status_ok s" using "1.prems" True by (auto simp: ReadPhysicalRecord.simps [of result r] read [simplified] Let_def split: if_splits)
    then have rec: "ReadPhysicalRecord result (if length data < kBlockSize then ?r\<lparr>lr_eof := True\<rparr> else ?r) = (t, result', r')"
      using "1.prems"(1) True by (simp add: ReadPhysicalRecord.simps [of result r] read [simplified] Let_def)
    have "unread r' < unread (if length data < kBlockSize then ?r\<lparr>lr_eof := True\<rparr> else ?r)"
      by (rule "1.IH" [OF _ _ read [symmetric] refl refl _ rec "1.prems"(2)]) (use True s in auto)
    also have "\<dots> = unread ?r" by (simp add: unread_def)
    also have "\<dots> \<le> unread r" by (rule unread_Read [OF read])
    finally show ?thesis .
  next
    case False
    with "1.prems" parse_unread show ?thesis
      by (auto simp: ReadPhysicalRecord.simps [of result r] split: if_splits)
  qed
qed

section \<open>Reading a logical record\<close>

text \<open>
  The loop of \<open>ReadRecord\<close>: whether it is inside a fragmented record, the scratch string, the offset
  of that record's start, and the fragment variable. The record is \<open>None\<close> at the end of the input.
\<close>

function read_record_loop :: "bool \<Rightarrow> slice \<Rightarrow> u64 \<Rightarrow> slice \<Rightarrow> log_reader \<Rightarrow> slice option \<times> log_reader" where
  "read_record_loop in_fragmented scratch prospective fragment r =
     (let physical_record_offset = lr_end_of_buffer_offset r - of_nat (length (lr_buffer r)) in
      case ReadPhysicalRecord fragment r of (record_type, fragment, r) \<Rightarrow>
        if record_type = ucast kFullType then
          let r = (if in_fragmented \<and> scratch \<noteq> [] then
                     ReportCorruption (of_nat (length scratch)) (cstr ''partial record without end(1)'') r else r)
          in (Some fragment, r\<lparr>lr_last_record_offset := physical_record_offset\<rparr>)
        else if record_type = ucast kFirstType then
          let r = (if in_fragmented \<and> scratch \<noteq> [] then
                     ReportCorruption (of_nat (length scratch)) (cstr ''partial record without end(2)'') r else r)
          in read_record_loop True fragment physical_record_offset fragment r
        else if record_type = ucast kMiddleType then
          if \<not> in_fragmented then
            read_record_loop in_fragmented scratch prospective fragment
              (ReportCorruption (of_nat (length fragment)) (cstr ''missing start of fragmented record(1)'') r)
          else read_record_loop in_fragmented (scratch @ fragment) prospective fragment r
        else if record_type = ucast kLastType then
          if \<not> in_fragmented then
            read_record_loop in_fragmented scratch prospective fragment
              (ReportCorruption (of_nat (length fragment)) (cstr ''missing start of fragmented record(2)'') r)
          else (Some (scratch @ fragment), r\<lparr>lr_last_record_offset := prospective\<rparr>)
        else if record_type = kEof then (None, r)
        else if record_type = kBadRecord then
          if in_fragmented then
            read_record_loop False [] prospective fragment
              (ReportCorruption (of_nat (length scratch)) (cstr ''error in middle of record'') r)
          else read_record_loop in_fragmented scratch prospective fragment r
        else
          read_record_loop False [] prospective fragment
            (ReportCorruption (of_nat (length fragment + (if in_fragmented then length scratch else 0)))
               (cstr ''unknown record type '' @ decimal (unat record_type)) r))"
  by pat_completeness auto

termination
  by (relation "measure (\<lambda>(in_fragmented, scratch, prospective, fragment, r). unread r)")
    (auto dest!: ReadPhysicalRecord_unread [OF sym])

declare read_record_loop.simps [simp del]

definition ReadRecord :: "log_reader \<Rightarrow> slice option \<times> log_reader" where
  "ReadRecord r =
     (if lr_last_record_offset r < lr_initial_offset r then
        case SkipToInitialBlock r of (success, r) \<Rightarrow> if \<not> success then (None, r) else read_record_loop False [] 0 [] r
      else read_record_loop False [] 0 [] r)"

definition LastRecordOffset :: "log_reader \<Rightarrow> u64" where
  "LastRecordOffset r = lr_last_record_offset r"

text \<open>Reading on until the end of the input, at most \<open>n\<close> times.\<close>

fun read_records :: "nat \<Rightarrow> log_reader \<Rightarrow> (slice list \<times> log_reader) run" where
  "read_records 0 r = Fuel_Out"
| "read_records (Suc n) r =
     (case ReadRecord r of
        (None, r) \<Rightarrow> Ret ([], r)
      | (Some d, r) \<Rightarrow> rbind (read_records n r) (\<lambda>(ds, r). Ret (d # ds, r)))"

section \<open>Physical records in the buffer\<close>

lemma header_length:
  assumes "n < 65536"
  shows "(ucast (of_nat n AND 0xff :: byte) AND 0xff) OR push_bit 8 (ucast (of_nat (n div 2 ^ 8) :: byte) AND 0xff) = (of_nat n :: u32)"
proof (rule bit_word_eqI)
  fix i
  assume "i < LENGTH(32)"
  have "take_bit 16 n = n" using assms by (simp add: take_bit_nat_eq_self)
  then have n: "bit n i \<longleftrightarrow> i < 16 \<and> bit n i" for i by (metis bit_take_bit_iff)
  have m: "(0xff :: 'a::len word) = mask 8" by (simp add: mask_eq_exp_minus_1)
  have d: "n div 2 ^ 8 = drop_bit 8 n" by (simp add: drop_bit_eq_div)
  show "bit ((ucast (of_nat n AND 0xff :: byte) AND 0xff) OR push_bit 8 (ucast (of_nat (n div 2 ^ 8) :: byte) AND 0xff) :: u32) i =
      bit (of_nat n :: u32) i"
    unfolding m d using n [of i] \<open>i < LENGTH(32)\<close> by (cases "i < 8") (auto simp: bit_simps)
qed

lemma header_parts:
  "length (phys t d) = 7 + length d" "phys t d ! 4 = of_nat (length d) AND 0xff"
  "phys t d ! 5 = of_nat (length d div 2 ^ 8)" "phys t d ! 6 = t" "drop 7 (phys t d) = d"
  "drop 6 (phys t d) = t # d" "DecodeFixed32 (phys t d @ rest) = Mask (crc_Value (t # d))"
  by (simp_all add: phys_def nth_append)

text \<open>The buffer holds the bytes of the file from \<open>p\<close> to the end of block \<open>q\<close>, or of the file.\<close>

definition reads_from :: "slice \<Rightarrow> log_reader \<Rightarrow> nat \<Rightarrow> bool" where
  "reads_from F r p \<longleftrightarrow>
     (let f = pr_file (lr_file r) in
      rf_data f = F \<and> length F \<le> rf_limit f \<and> length F < 2 ^ 64 \<and> lr_initial_offset r = 0 \<and>
      lr_end_of_buffer_offset r = of_nat (rf_pos f) \<and> lr_buffer r = drop p (take (rf_pos f) F) \<and>
      p \<le> rf_pos f \<and> rf_pos f \<le> length F)"

definition loaded :: "slice \<Rightarrow> log_reader \<Rightarrow> nat \<Rightarrow> nat \<Rightarrow> bool" where
  "loaded F r p q \<longleftrightarrow> reads_from F r p \<and> q * kBlockSize \<le> p \<and>
     rf_pos (pr_file (lr_file r)) = min (length F) (q * kBlockSize + kBlockSize) \<and>
     lr_eof r = (length F < q * kBlockSize + kBlockSize)"

definition reader_at :: "slice \<Rightarrow> log_reader \<Rightarrow> nat \<Rightarrow> bool" where
  "reader_at F r p \<longleftrightarrow>
     (reads_from F r p \<and> p = 0 \<and> rf_pos (pr_file (lr_file r)) = 0 \<and> \<not> lr_eof r) \<or> (\<exists>q. loaded F r p q)"

definition same_reader :: "log_reader \<Rightarrow> log_reader \<Rightarrow> bool" where
  "same_reader r r' \<longleftrightarrow> lr_reporter r' = lr_reporter r \<and> lr_last_record_offset r' = lr_last_record_offset r"

lemma same_reader_trans: "same_reader r r' \<Longrightarrow> same_reader r' r'' \<Longrightarrow> same_reader r r''"
  by (simp add: same_reader_def)

lemma load_next:
  assumes "reads_from F r p" "rf_pos (pr_file (lr_file r)) = q * kBlockSize" "\<not> lr_eof r"
    "length (lr_buffer r) < kHeaderSize"
  shows "\<exists>r'. loaded F r' (q * kBlockSize) q \<and> same_reader r r' \<and> ReadPhysicalRecord res r = ReadPhysicalRecord res r'"
proof -
  let ?f = "pr_file (lr_file r)" and ?p = "q * kBlockSize"
  define data where "data = take kBlockSize (drop ?p F)"
  define fl where "fl = (lr_file r)\<lparr>pr_file := ?f\<lparr>rf_pos := ?p + length data\<rparr>\<rparr>"
  define r' where "r' = r\<lparr>lr_file := fl, lr_buffer := data,
      lr_end_of_buffer_offset := lr_end_of_buffer_offset r + of_nat (length data), lr_eof := length data < kBlockSize\<rparr>"
  note r = assms(1) [unfolded reads_from_def Let_def]
  have "fread kBlockSize ?f = (data, ?f\<lparr>rf_pos := ?p + length data\<rparr>)"
    using r assms(2) by (simp add: fread_def Let_def data_def)
  moreover have "length data < kBlockSize \<Longrightarrow> length F \<le> ?p + length data" by (simp add: data_def)
  ultimately have read: "posix_Read kBlockSize (lr_file r) = (Status_OK, data, fl)"
    using r by (simp add: posix_Read_def feof_def fl_def Let_def)
  have "(if length data < kBlockSize then
      (r\<lparr>lr_file := fl, lr_buffer := data, lr_end_of_buffer_offset := lr_end_of_buffer_offset r + of_nat (length data)\<rparr>)\<lparr>lr_eof := True\<rparr>
      else r\<lparr>lr_file := fl, lr_buffer := data, lr_end_of_buffer_offset := lr_end_of_buffer_offset r + of_nat (length data)\<rparr>) = r'"
    using assms(3) by (cases r) (simp add: r'_def)
  then have "ReadPhysicalRecord res r = ReadPhysicalRecord res r'"
    using assms(3,4) by (subst ReadPhysicalRecord.simps) (simp only: if_True if_False read Let_def prod.case Status_OK_ok simp_thms)
  moreover have "loaded F r' ?p q"
    using r assms(2) by (auto simp: loaded_def reads_from_def r'_def fl_def data_def min_def Let_def drop_take)
  moreover have "same_reader r r'" by (simp add: same_reader_def r'_def)
  ultimately show ?thesis by auto
qed

lemma buffer_take: "reads_from F r p \<Longrightarrow> lr_buffer r = take (rf_pos (pr_file (lr_file r)) - p) (drop p F)"
  by (simp add: reads_from_def Let_def drop_take)

lemma length_buffer: "reads_from F r p \<Longrightarrow> length (lr_buffer r) = rf_pos (pr_file (lr_file r)) - p"
  by (auto simp: reads_from_def Let_def)

lemma end_of_file:
  assumes "reads_from F r p" "lr_eof r" "length (lr_buffer r) < kHeaderSize"
  shows "\<exists>r'. ReadPhysicalRecord res r = (kEof, res, r') \<and> same_reader r r'"
  using assms by (simp add: ReadPhysicalRecord.simps [of res r] same_reader_def)

lemma advance:
  assumes "reader_at F r p" "p + pad (p mod kBlockSize) \<le> length F"
  shows "\<exists>r'. loaded F r' (p + pad (p mod kBlockSize)) ((p + pad (p mod kBlockSize)) div kBlockSize) \<and>
    same_reader r r' \<and> ReadPhysicalRecord res r = ReadPhysicalRecord res r'"
  using assms(1) unfolding reader_at_def
proof (elim disjE exE conjE)
  assume r: "reads_from F r p" "p = 0" "rf_pos (pr_file (lr_file r)) = 0" "\<not> lr_eof r"
  then have "length (lr_buffer r) < kHeaderSize" by (simp add: length_buffer)
  from load_next [OF r(1) _ r(4) this, of 0 res] r show ?thesis by (simp add: pad_def)
next
  fix q
  assume r: "loaded F r p q"
  then have rf: "reads_from F r p" and q: "q * kBlockSize \<le> p"
    and e: "rf_pos (pr_file (lr_file r)) = min (length F) (q * kBlockSize + kBlockSize)"
    and eof: "lr_eof r = (length F < q * kBlockSize + kBlockSize)" by (simp_all add: loaded_def)
  then have p: "p \<le> min (length F) (q * kBlockSize + kBlockSize)" by (simp add: reads_from_def Let_def)
  obtain m where m: "p = q * kBlockSize + m" using q le_Suc_ex by blast
  show ?thesis
  proof (cases "m + kHeaderSize \<le> kBlockSize")
    case True
    then have "pad m = 0" "m < kBlockSize" by (simp_all add: pad_def)
    with r show ?thesis by (intro exI [of _ r]) (simp add: m same_reader_def)
  next
    case False
    have nxt: "p + pad (p mod kBlockSize) = (q + 1) * kBlockSize"
    proof (cases "m = kBlockSize")
      case True
      then have "p mod kBlockSize = 0" by (simp add: m)
      then show ?thesis using True by (simp add: m pad_def)
    next
      case less: False
      with p m have "m < kBlockSize" by simp
      then show ?thesis using False by (simp add: m pad_def)
    qed
    with assms(2) have pos: "rf_pos (pr_file (lr_file r)) = (q + 1) * kBlockSize" and neof: "\<not> lr_eof r"
      using e eof by simp_all
    have "length (lr_buffer r) < kHeaderSize" using False by (simp add: length_buffer [OF rf] pos m)
    from load_next [OF rf pos neof this] nxt show ?thesis by simp
  qed
qed

lemma advance_end:
  assumes "reader_at F r p" "p \<le> length F" "length F < p + pad (p mod kBlockSize)"
  shows "\<exists>r'. ReadPhysicalRecord res r = (kEof, res, r') \<and> same_reader r r'"
proof -
  have "0 < p" using assms(2,3) by (cases p) (simp_all add: pad_def)
  with assms(1) obtain q where r: "loaded F r p q" by (auto simp: reader_at_def)
  then have rf: "reads_from F r p" and q: "q * kBlockSize \<le> p"
    and e: "rf_pos (pr_file (lr_file r)) = min (length F) (q * kBlockSize + kBlockSize)"
    and eof: "lr_eof r = (length F < q * kBlockSize + kBlockSize)" by (simp_all add: loaded_def)
  then have p: "p \<le> min (length F) (q * kBlockSize + kBlockSize)" by (simp add: reads_from_def Let_def)
  obtain m where m: "p = q * kBlockSize + m" using q le_Suc_ex by blast
  have "m \<noteq> kBlockSize" using assms(2,3) by (auto simp: m pad_def)
  with p m have "m < kBlockSize" by simp
  then have "p mod kBlockSize = m" by (simp add: m)
  with assms(3) have eof: "lr_eof r" and "kBlockSize - m < kHeaderSize"
    using eof m assms(2) by (auto simp: pad_def split: if_splits)
  then have "length (lr_buffer r) < kHeaderSize" using length_buffer [OF rf] e m by simp
  from end_of_file [OF rf eof this] show ?thesis .
qed

lemma same_reader_buffer [simp]: "same_reader r (r\<lparr>lr_buffer := b\<rparr>)"
  by (simp add: same_reader_def)

lemma small_type: "t \<le> 4 \<Longrightarrow> t = 0 \<or> t = 1 \<or> t = 2 \<or> t = 3 \<or> t = (4 :: byte)"
proof -
  assume "t \<le> 4"
  then have "unat t \<in> {..<5}" by (simp add: word_le_nat_alt)
  then have "(of_nat (unat t) :: byte) \<in> of_nat ` {..<5}" by (rule imageI)
  then show ?thesis by (auto simp: lessThan_nat_numeral lessThan_Suc)
qed

lemma parse_record:
  assumes "loaded F r p q" "drop p F = phys t d @ rest" "p + kHeaderSize + length d \<le> q * kBlockSize + kBlockSize"
    "1 \<le> t" "t \<le> kMaxRecordType"
  shows "\<exists>r'. ReadPhysicalRecord res r = (ucast t, d, r') \<and> loaded F r' (p + kHeaderSize + length d) q \<and> same_reader r r'"
proof -
  have rf: "reads_from F r p" and q: "q * kBlockSize \<le> p"
    and e: "rf_pos (pr_file (lr_file r)) = min (length F) (q * kBlockSize + kBlockSize)"
    using assms(1) by (simp_all add: loaded_def)
  define pos where "pos = rf_pos (pr_file (lr_file r))"
  have "length F - p = kHeaderSize + length d + length rest" using arg_cong [OF assms(2), of length] by simp
  then have fits: "p + kHeaderSize + length d \<le> pos" using e assms(3) by (simp add: pos_def)
  then obtain rest' where b: "lr_buffer r = phys t d @ rest'"
    using buffer_take [OF rf] assms(2) by (simp add: pos_def [symmetric])
  have small: "length d < 65536" using assms(3) q by simp
  let ?len = "(ucast (lr_buffer r ! 4) AND 0xff) OR push_bit 8 (ucast (lr_buffer r ! 5) AND 0xff) :: u32"
  have len: "?len = of_nat (length d)" "unat (of_nat (length d) :: u32) = length d"
    using header_length [OF small] small by (simp_all add: b header_parts nth_append unat_of_nat_small)
  from assms(4,5) have "t = 1 \<or> t = 2 \<or> t = 3 \<or> t = 4" using small_type [of t] by auto
  then have t: "(scast t :: u32) = ucast t" "(ucast t :: u32) \<noteq> 0" by auto
  have init: "lr_initial_offset r = 0" using rf by (simp add: reads_from_def Let_def)
  have fetch: "parse_physical_record res r = (ucast t, d, r\<lparr>lr_buffer := rest'\<rparr>)"
    using t init unfolding parse_physical_record_def Let_def len
    by (simp add: b len header_parts nth_append Mask_rotate remove_prefix_def)
  have "\<not> length (lr_buffer r) < kHeaderSize" by (simp add: b)
  then have "ReadPhysicalRecord res r = (ucast t, d, r\<lparr>lr_buffer := rest'\<rparr>)"
    using fetch by (simp add: ReadPhysicalRecord.simps [of res r])
  moreover have "rest' = drop (kHeaderSize + length d) (lr_buffer r)" by (simp add: b)
  then have "rest' = drop (p + kHeaderSize + length d) (take pos F)"
    using rf by (simp only: reads_from_def Let_def pos_def drop_drop ac_simps)
  then have "loaded F (r\<lparr>lr_buffer := rest'\<rparr>) (p + kHeaderSize + length d) q"
    using assms(1) fits by (simp add: loaded_def reads_from_def Let_def pos_def)
  ultimately show ?thesis by auto
qed

lemma parse_end:
  assumes "loaded F r p q" "drop p F = take k (phys t d)" "k < kHeaderSize + length d"
    "p + kHeaderSize + length d \<le> q * kBlockSize + kBlockSize"
  shows "\<exists>r'. ReadPhysicalRecord res r = (kEof, res, r') \<and> same_reader r r'"
proof -
  have rf: "reads_from F r p" and q: "q * kBlockSize \<le> p"
    and e: "rf_pos (pr_file (lr_file r)) = min (length F) (q * kBlockSize + kBlockSize)"
    and eof: "lr_eof r = (length F < q * kBlockSize + kBlockSize)" using assms(1) by (simp_all add: loaded_def)
  have p: "p \<le> length F" using rf by (simp add: reads_from_def Let_def)
  have "length F - p = k" using arg_cong [OF assms(2), of length] assms(3) by simp
  with p assms(3,4) have F: "length F = p + k" "length F < q * kBlockSize + kBlockSize" by simp_all
  then have b: "lr_buffer r = take k (phys t d)"
    using buffer_take [OF rf] assms(2) e by simp
  show ?thesis
  proof (cases "k < kHeaderSize")
    case True
    with end_of_file [OF rf] F eof show ?thesis by (simp add: b)
  next
    case False
    have small: "length d < 65536" using assms(4) q by simp
    have "\<not> length (lr_buffer r) < kHeaderSize" using False assms(3) by (simp add: b)
    moreover have "parse_physical_record res r = (kEof, res, r\<lparr>lr_buffer := []\<rparr>)"
      using False assms(3) header_length [OF small] small F eof unfolding parse_physical_record_def Let_def
      by (simp add: b header_parts unat_of_nat_small)
    ultimately show ?thesis
      using same_reader_buffer by (simp add: ReadPhysicalRecord.simps [of res r])
  qed
qed

lemma pad_mod: "off \<le> kBlockSize \<Longrightarrow> pad (off mod kBlockSize) = pad off"
  by (cases "off = kBlockSize") (simp_all add: pad_def)

lemma drop_padding: "drop n (replicate n x @ xs) = xs"
  by simp

lemma drop_phys: "drop (kHeaderSize + length d) (phys t d @ xs) = xs"
  by (metis append_eq_conv_conj length_phys)

lemma next_physical:
  assumes "reader_at F r p" "p \<le> length F" "off \<le> kBlockSize" "off mod kBlockSize = p mod kBlockSize"
    "length d \<le> room_at off" "1 \<le> t" "t \<le> kMaxRecordType"
    "drop p F = take m (replicate (pad off) 0 @ phys t d @ rest)"
  shows "m < pad off + kHeaderSize + length d \<Longrightarrow> \<exists>r'. ReadPhysicalRecord res r = (kEof, res, r') \<and> same_reader r r'"
    and "pad off + kHeaderSize + length d \<le> m \<Longrightarrow>
      \<exists>r' q. ReadPhysicalRecord res r = (ucast t, d, r') \<and> same_reader r r' \<and>
        loaded F r' (p + pad off + kHeaderSize + length d) q \<and>
        drop (p + pad off + kHeaderSize + length d) F = take (m - (pad off + kHeaderSize + length d)) rest"
proof -
  let ?p = "p + pad off"
  have pad: "pad (p mod kBlockSize) = pad off" using pad_mod [OF assms(3)] assms(4) by simp
  have "?p mod kBlockSize = (off + pad off) mod kBlockSize" by (rule mod_add_cong [OF assms(4) [symmetric] refl])
  also have "\<dots> = start off" using pad_start(1,2) [of off] assms(3) by simp
  finally have "?p = ?p div kBlockSize * kBlockSize + start off" by (metis div_mult_mod_eq)
  moreover have "start off + kHeaderSize + length d \<le> kBlockSize"
    using assms(5) pad_start(2) [of off] by (simp add: room_at_def)
  ultimately have fits: "?p + kHeaderSize + length d \<le> ?p div kBlockSize * kBlockSize + kBlockSize" by linarith
  have len: "length F - p = min m (pad off + kHeaderSize + length d + length rest)"
    using arg_cong [OF assms(8), of length]
    by (simp only: length_drop length_take length_append length_replicate length_phys add.assoc min.commute)
  have loaded: "\<exists>r'. loaded F r' ?p (?p div kBlockSize) \<and> same_reader r r' \<and> ReadPhysicalRecord res r = ReadPhysicalRecord res r'"
    if "pad off \<le> m"
    using advance [OF assms(1), of res] len that assms(2) unfolding pad by simp
  have drop: "drop ?p F = take (m - pad off) (phys t d @ rest)"
    using arg_cong [OF assms(8), of "drop (pad off)"] by (simp only: drop_drop drop_take drop_padding add.commute)
  { assume m: "m < pad off + kHeaderSize + length d"
    show "\<exists>r'. ReadPhysicalRecord res r = (kEof, res, r') \<and> same_reader r r'"
    proof (cases "m < pad off")
      case True
      with len assms(2) have "length F < p + pad (p mod kBlockSize)" unfolding pad by simp
      from advance_end [OF assms(1,2) this] show ?thesis .
    next
      case False
      with loaded obtain r' where r': "loaded F r' ?p (?p div kBlockSize)" "same_reader r r'"
        "ReadPhysicalRecord res r = ReadPhysicalRecord res r'" by auto
      have "drop ?p F = take (m - pad off) (phys t d)" using drop m by simp
      moreover have "m - pad off < kHeaderSize + length d" using m False by linarith
      ultimately obtain r'' where "ReadPhysicalRecord res r' = (kEof, res, r'')" "same_reader r' r''"
        using parse_end [OF r'(1) _ _ fits, where res = res] by blast
      with r'(2,3) same_reader_trans show ?thesis by auto
    qed }
  assume m: "pad off + kHeaderSize + length d \<le> m"
  with loaded obtain r' where r': "loaded F r' ?p (?p div kBlockSize)" "same_reader r r'"
    "ReadPhysicalRecord res r = ReadPhysicalRecord res r'" by auto
  have d: "drop ?p F = phys t d @ take (m - (pad off + kHeaderSize + length d)) rest"
    using drop m by (simp add: add.assoc)
  have "drop (p + pad off + kHeaderSize + length d) F = take (m - (pad off + kHeaderSize + length d)) rest"
    using arg_cong [OF d, of "drop (kHeaderSize + length d)"]
    by (simp only: drop_phys) (simp only: drop_drop ac_simps)
  with parse_record [OF r'(1) d fits assms(6,7), of res] r' same_reader_trans
  show "\<exists>r' q. ReadPhysicalRecord res r = (ucast t, d, r') \<and> same_reader r r' \<and>
        loaded F r' (p + pad off + kHeaderSize + length d) q \<and>
        drop (p + pad off + kHeaderSize + length d) F = take (m - (pad off + kHeaderSize + length d)) rest"
    by (metis (no_types, lifting))
qed

section \<open>Records\<close>

lemma reader_at_loaded: "loaded F r p q \<Longrightarrow> reader_at F r p"
  by (auto simp: reader_at_def)

lemma reader_at_last: "reader_at F (r\<lparr>lr_last_record_offset := x\<rparr>) p = reader_at F r p"
  by (simp add: reader_at_def loaded_def reads_from_def)

lemma reader_offset:
  assumes "reader_at F r p"
  shows "lr_end_of_buffer_offset r - of_nat (length (lr_buffer r)) = of_nat p"
proof -
  have rf: "reads_from F r p" using assms by (auto simp: reader_at_def loaded_def)
  then have "p \<le> rf_pos (pr_file (lr_file r))" by (simp add: reads_from_def Let_def)
  then have "(of_nat (rf_pos (pr_file (lr_file r))) :: u64) = of_nat p + of_nat (length (lr_buffer r))"
    by (simp add: length_buffer [OF rf] flip: of_nat_add)
  with rf show ?thesis by (simp add: reads_from_def Let_def)
qed

lemma read_fragments:
  assumes "reader_at F r p" "p \<le> length F" "off \<le> kBlockSize" "off mod kBlockSize = p mod kBlockSize"
    "drop p F = take m (record_bytes off b d @ rest)"
  shows "(m < length (record_bytes off b d) \<longrightarrow>
      (\<exists>r'. read_record_loop (\<not> b) scratch pro frag r = (None, r') \<and> lr_reporter r' = lr_reporter r)) \<and>
    (length (record_bytes off b d) \<le> m \<longrightarrow>
      (\<exists>r'. read_record_loop (\<not> b) scratch pro frag r = (Some ((if b then [] else scratch) @ d), r') \<and>
         lr_reporter r' = lr_reporter r \<and> lr_last_record_offset r' = (if b then of_nat p else pro) \<and>
         reader_at F r' (p + length (record_bytes off b d))))"
  using assms
proof (induction off b d arbitrary: r p m scratch pro frag rule: record_bytes.induct)
  case (1 off b d)
  define n where "n = room_at off"
  define t where "t = fragment_type b (length d \<le> n)"
  define more where "more = (if length d \<le> n then [] else record_bytes kBlockSize False (drop n d))"
  have t: "1 \<le> t" "t \<le> kMaxRecordType" by (simp_all add: t_def fragment_type_def)
  have bytes: "record_bytes off b d = replicate (pad off) 0 @ phys t (take n d) @ more"
    by (subst record_bytes.simps) (simp add: t_def n_def more_def)
  have n: "length (take n d) \<le> room_at off" by (simp add: n_def)
  have drop: "drop p F = take m (replicate (pad off) 0 @ phys t (take n d) @ more @ rest)"
    using "1.prems"(5) by (simp add: bytes)
  note phys_next = next_physical [OF "1.prems"(1-4) n t drop]
  note offset = reader_offset [OF "1.prems"(1)]
  show ?case
  proof (cases "m < pad off + kHeaderSize + length (take n d)")
    case True
    from phys_next(1) [OF True, of frag] obtain r' where
      "ReadPhysicalRecord frag r = (kEof, frag, r')" "same_reader r r'" by auto
    then have "read_record_loop (\<not> b) scratch pro frag r = (None, r')" "lr_reporter r' = lr_reporter r"
      by (simp_all add: read_record_loop.simps [of _ _ _ _ r] same_reader_def)
    moreover have "m < length (record_bytes off b d)" using True by (simp add: bytes)
    ultimately show ?thesis by auto
  next
    case False
    then have m: "pad off + kHeaderSize + length (take n d) \<le> m" by simp
    from phys_next(2) [OF m, of frag] obtain r' q where
      r': "ReadPhysicalRecord frag r = (ucast t, take n d, r')" "same_reader r r'"
        "loaded F r' (p + pad off + kHeaderSize + length (take n d)) q"
      and d': "drop (p + pad off + kHeaderSize + length (take n d)) F = take (m - (pad off + kHeaderSize + length (take n d))) (more @ rest)"
      by blast
    show ?thesis
    proof (cases "length d \<le> n")
      case True
      have size: "length (record_bytes off b d) = pad off + kHeaderSize + length (take n d)"
        using True by (simp add: bytes more_def)
      moreover have "read_record_loop (\<not> b) scratch pro frag r = (Some ((if b then [] else scratch) @ d),
          r'\<lparr>lr_last_record_offset := if b then of_nat p else pro\<rparr>)"
        using True by (subst read_record_loop.simps) (simp add: r'(1) t_def fragment_type_def offset)
      moreover have "reader_at F (r'\<lparr>lr_last_record_offset := if b then of_nat p else pro\<rparr>) (p + length (record_bytes off b d))"
        using reader_at_loaded [OF r'(3)] by (simp only: size add.assoc reader_at_last)
      ultimately show ?thesis using m r'(2) by (auto simp: same_reader_def)
    next
      case long: False
      let ?p = "p + pad off + kHeaderSize + length (take n d)" and ?k = "pad off + kHeaderSize + length (take n d)"
      let ?rest = "record_bytes kBlockSize False (drop n d)"
      have "?p mod kBlockSize = 0"
      proof -
        have "?p mod kBlockSize = (off + pad off + (kHeaderSize + length (take n d))) mod kBlockSize"
          using mod_add_cong [OF "1.prems"(4) [symmetric] refl, of "?k"] by (simp only: add.assoc)
        also have "\<dots> = (start off + (kHeaderSize + length (take n d))) mod kBlockSize"
          using offset_mod [OF "1.prems"(3)] by (simp only: add.assoc)
        also have "\<dots> = 0" using long pad_start(2) [of off] by (simp add: n_def room_at_def)
        finally show ?thesis .
      qed
      then have off: "kBlockSize mod kBlockSize = ?p mod kBlockSize" by simp
      have p: "?p \<le> length F"
        using r'(3) by (auto simp: loaded_def reads_from_def Let_def)
      have d'': "drop ?p F = take (m - ?k) (?rest @ rest)"
        using d' long by (simp add: more_def)
      have size: "length (record_bytes off b d) = ?k + length ?rest"
        using long by (simp add: bytes more_def)
      define s where "s = (if b then take n d else scratch @ take n d)"
      define p0 where "p0 = (if b then of_nat p else pro :: u64)"
      have loop: "read_record_loop (\<not> b) scratch pro frag r = read_record_loop (\<not> False) s p0 (take n d) r'"
        using long by (subst read_record_loop.simps) (simp add: r'(1) t_def fragment_type_def offset s_def p0_def)
      have s: "s @ drop n d = (if b then [] else scratch) @ d" by (simp add: s_def)
      note ih = "1.IH" [OF _ reader_at_loaded [OF r'(3)] p order_refl off, folded n_def, OF long d'', of s p0 "take n d"]
      show ?thesis
      proof (intro conjI impI)
        assume "m < length (record_bytes off b d)"
        then have "m - ?k < length ?rest" using m size by linarith
        with ih obtain r'' where "read_record_loop (\<not> False) s p0 (take n d) r' = (None, r'')" "lr_reporter r'' = lr_reporter r'"
          by blast
        then show "\<exists>r'. read_record_loop (\<not> b) scratch pro frag r = (None, r') \<and> lr_reporter r' = lr_reporter r"
          using r'(2) by (simp add: loop same_reader_def)
      next
        assume "length (record_bytes off b d) \<le> m"
        then have "length ?rest \<le> m - ?k" using size by linarith
        with ih obtain r'' where r'': "read_record_loop (\<not> False) s p0 (take n d) r' = (Some (s @ drop n d), r'')"
          "lr_reporter r'' = lr_reporter r'" "lr_last_record_offset r'' = p0" and at: "reader_at F r'' (?p + length ?rest)"
          by auto
        have "?p + length ?rest = p + length (record_bytes off b d)" using size by linarith
        with at have "reader_at F r'' (p + length (record_bytes off b d))" by (simp only:)
        moreover have "read_record_loop (\<not> b) scratch pro frag r = (Some ((if b then [] else scratch) @ d), r'')"
          using r''(1) s loop by simp
        moreover have "lr_reporter r'' = lr_reporter r" using r''(2) r'(2) by (simp add: same_reader_def)
        ultimately show "\<exists>r'. read_record_loop (\<not> b) scratch pro frag r = (Some ((if b then [] else scratch) @ d), r') \<and>
            lr_reporter r' = lr_reporter r \<and> lr_last_record_offset r' = (if b then of_nat p else pro) \<and>
            reader_at F r' (p + length (record_bytes off b d))"
          using r''(3) p0_def by blast
      qed
    qed
  qed
qed

lemma record_bytes_nonempty: "0 < length (record_bytes off b d)"
  by (subst record_bytes.simps) (simp add: phys_def)

lemma ReadRecord_loop: "reader_at F r p \<Longrightarrow> ReadRecord r = read_record_loop False [] 0 [] r"
  by (auto simp: ReadRecord_def reader_at_def loaded_def reads_from_def Let_def)

lemma ReadRecord_log:
  assumes "reader_at F r p" "p \<le> length F" "drop p F = take m (record_bytes (p mod kBlockSize) True d @ rest)"
  shows "m < length (record_bytes (p mod kBlockSize) True d) \<Longrightarrow>
      \<exists>r'. ReadRecord r = (None, r') \<and> lr_reporter r' = lr_reporter r"
    and "length (record_bytes (p mod kBlockSize) True d) \<le> m \<Longrightarrow>
      \<exists>r'. ReadRecord r = (Some d, r') \<and> lr_reporter r' = lr_reporter r \<and> LastRecordOffset r' = of_nat p \<and>
        reader_at F r' (p + length (record_bytes (p mod kBlockSize) True d))"
  using read_fragments [OF assms(1,2) _ _ assms(3), of "[]" 0 "[]"] ReadRecord_loop [OF assms(1)]
  by (auto simp: LastRecordOffset_def)

lemma read_log:
  "reader_at F r p \<Longrightarrow> p \<le> length F \<Longrightarrow> drop p F = take m (log_bytes p ds) \<Longrightarrow> length ds < fuel \<Longrightarrow>
    \<exists>n r'. read_records fuel r = Ret (take n ds, r') \<and> n \<le> length ds \<and> lr_reporter r' = lr_reporter r \<and>
      (\<forall>k \<le> length ds. length (log_bytes p (take k ds)) \<le> m \<longleftrightarrow> k \<le> n)"
proof (induction ds arbitrary: r p m fuel)
  case Nil
  then obtain fuel' where fuel: "fuel = Suc fuel'" by (cases fuel) auto
  have "drop p F = take 0 (record_bytes (p mod kBlockSize) True [] @ [])" using Nil.prems(3) by simp
  from ReadRecord_log(1) [OF Nil.prems(1,2) this record_bytes_nonempty] fuel show ?case by auto
next
  case (Cons d ds)
  let ?b = "record_bytes (p mod kBlockSize) True d"
  from Cons.prems(4) obtain fuel' where fuel: "fuel = Suc fuel'" "length ds < fuel'" by (cases fuel) auto
  have F: "drop p F = take m (?b @ log_bytes (p + length ?b) ds)" using Cons.prems(3) by (simp add: Let_def)
  show ?case
  proof (cases "length ?b \<le> m")
    case False
    then have "m < length ?b" by simp
    from ReadRecord_log(1) [OF Cons.prems(1,2) F this] obtain r' where
      r': "ReadRecord r = (None, r')" "lr_reporter r' = lr_reporter r" by auto
    have "length (log_bytes p (take k (d # ds))) \<le> m \<longleftrightarrow> k \<le> 0" for k
      using False by (cases k) (auto simp: Let_def)
    with r' fuel(1) show ?thesis by (intro exI [of _ "0 :: nat"] exI [of _ r']) simp
  next
    case True
    from ReadRecord_log(2) [OF Cons.prems(1,2) F True] obtain r' where
      r': "ReadRecord r = (Some d, r')" "lr_reporter r' = lr_reporter r" "reader_at F r' (p + length ?b)" by auto
    have "p + length ?b \<le> length F" using arg_cong [OF F, of length] True Cons.prems(2) by simp
    moreover have "drop (p + length ?b) F = take (m - length ?b) (log_bytes (p + length ?b) ds)"
      using arg_cong [OF F, of "drop (length ?b)"] True by (simp add: add.commute)
    ultimately obtain n r'' where n: "read_records fuel' r' = Ret (take n ds, r'')" "n \<le> length ds" "lr_reporter r'' = lr_reporter r'"
      "\<forall>k \<le> length ds. length (log_bytes (p + length ?b) (take k ds)) \<le> m - length ?b \<longleftrightarrow> k \<le> n"
      using Cons.IH [OF r'(3) _ _ fuel(2)] by blast
    have "length (log_bytes p (take k (d # ds))) \<le> m \<longleftrightarrow> k \<le> Suc n" if "k \<le> length (d # ds)" for k
      using that n(4) True by (cases k) (auto simp: Let_def le_diff_conv2 ac_simps)
    with n r' fuel(1) show ?thesis by (intro exI [of _ "Suc n"] exI [of _ r'']) simp
  qed
qed

lemma log_bytes_take: "\<exists>rest. log_bytes p ds = log_bytes p (take k ds) @ rest"
  by (induction ds arbitrary: p k) (auto simp: Let_def take_Cons split: nat.splits)

text \<open>A file opened for reading.\<close>

definition open_log :: "slice \<Rightarrow> slice \<Rightarrow> slice \<Rightarrow> posix_rfile" where
  "open_log name err data =
     \<lparr>pr_filename = name, pr_file = \<lparr>rf_data = data, rf_pos = 0, rf_limit = length data, rf_strerror = err\<rparr>\<rparr>"

lemma reader_at_open: "length data < 2 ^ 64 \<Longrightarrow> reader_at data (Reader (open_log name err data) rep checksum 0) 0"
  by (simp add: reader_at_def reads_from_def Reader_def open_log_def)

text \<open>C21: Records are added to an empty log until one fails, on a file with any room and with flushes that work
  or fail; then the file is cut off anywhere. Reading it back from its start, with or without checksums,
  returns exactly the records whose last byte is there, in order, then reports the end; nothing is
  reported as corrupted. On the whole file, every record that was added successfully is returned.\<close>

theorem log_recovery:
  assumes "posix_contents f = []" "length (log_bytes 0 ds) < 2 ^ 64" "length ds < fuel"
  shows "\<exists>n w. add_records posix_Append posix_Flush ds (Writer f) = Ret (n, w) \<and> n \<le> length ds \<and>
    (\<forall>m name err checksum. \<exists>k r.
       read_records fuel (Reader (open_log name err (take m (posix_contents (lw_dest w)))) (Some []) checksum 0) =
         Ret (take k ds, r) \<and> k \<le> length ds \<and> lr_reporter r = Some [] \<and>
       (\<forall>j \<le> length ds. length (log_bytes 0 (take j ds)) \<le> min m (length (posix_contents (lw_dest w))) \<longleftrightarrow> j \<le> k) \<and>
       (length (posix_contents (lw_dest w)) \<le> m \<longrightarrow> n \<le> k))"
proof -
  have "0 mod kBlockSize = length (posix_contents (lw_dest (Writer f))) mod kBlockSize"
    using assms(1) by (simp add: Writer_def)
  from posix.add_records_writes [OF writer_at_Writer this, of ds] assms(1) obtain n w j where
    w: "add_records posix_Append posix_Flush ds (Writer f) = Ret (n, w)" "n \<le> length ds"
    and c: "posix_contents (lw_dest w) = take j (log_bytes 0 ds)" and j: "length (log_bytes 0 (take n ds)) \<le> j"
    by (auto simp: Writer_def)
  have "\<exists>k r. read_records fuel (Reader (open_log name err (take m (posix_contents (lw_dest w)))) (Some []) checksum 0) =
         Ret (take k ds, r) \<and> k \<le> length ds \<and> lr_reporter r = Some [] \<and>
       (\<forall>j \<le> length ds. length (log_bytes 0 (take j ds)) \<le> min m (length (posix_contents (lw_dest w))) \<longleftrightarrow> j \<le> k) \<and>
       (length (posix_contents (lw_dest w)) \<le> m \<longrightarrow> n \<le> k)" for m name err checksum
  proof -
    let ?F = "take m (posix_contents (lw_dest w))" and ?m = "min m (length (posix_contents (lw_dest w)))"
    have "drop 0 ?F = take ?m (log_bytes 0 ds)" 
      using take_append_min [of "min m j" "log_bytes 0 ds" "[]"] by (simp add: c ac_simps)
    moreover have "length ?F < 2 ^ 64" using assms(2) by (simp add: c)
    moreover have "lr_reporter (Reader (open_log name err ?F) (Some []) checksum 0) = Some []" by (simp add: Reader_def)
    ultimately obtain k r where k:
      "read_records fuel (Reader (open_log name err ?F) (Some []) checksum 0) = Ret (take k ds, r)" "k \<le> length ds"
      "lr_reporter r = Some []" "\<forall>j \<le> length ds. length (log_bytes 0 (take j ds)) \<le> ?m \<longleftrightarrow> j \<le> k"
      using read_log [OF reader_at_open [of ?F name err "Some []" checksum] _ _ assms(3), of ?m] by auto
    have "length (log_bytes 0 (take n ds)) \<le> length (posix_contents (lw_dest w))"
      using log_bytes_take [of 0 ds n] j by (auto simp: c)
    with k(4) have "length (posix_contents (lw_dest w)) \<le> m \<longrightarrow> n \<le> k" using w(2) by auto
    with k show ?thesis by blast
  qed
  with w show ?thesis by blast
qed

theorem log_recovery_witness:
  "\<exists>n w. add_records posix_Append posix_Flush [[1, 2], []]
      (Writer \<lparr>pw_filename = [], pw_file = \<lparr>wf_disk = [], wf_buf = [], wf_room = 100, wf_flushes = True, wf_strerror = []\<rparr>\<rparr>) =
      Ret (n, w) \<and>
    (\<forall>m. \<exists>k r. read_records 3 (Reader (open_log [] [] (take m (posix_contents (lw_dest w)))) (Some []) True 0) =
       Ret (take k [[1, 2], []], r) \<and> lr_reporter r = Some [])"
proof -
  have "length (log_bytes 0 [[1, 2], []]) < 2 ^ 64"
    by (simp add: Let_def record_bytes.simps [of _ True] room_at_def start_def pad_def)
  then obtain n w where w:
    "add_records posix_Append posix_Flush [[1, 2], []] (Writer \<lparr>pw_filename = [], pw_file = \<lparr>wf_disk = [], wf_buf = [],
       wf_room = 100, wf_flushes = True, wf_strerror = []\<rparr>\<rparr>) = Ret (n, w)"
    and r: "\<forall>m name err checksum. \<exists>k r.
       read_records 3 (Reader (open_log name err (take m (posix_contents (lw_dest w)))) (Some []) checksum 0) =
         Ret (take k [[1, 2], []], r) \<and> k \<le> length [[1, 2], []] \<and> lr_reporter r = Some [] \<and>
       (\<forall>j \<le> length [[1, 2], []]. length (log_bytes 0 (take j [[1, 2], []])) \<le> min m (length (posix_contents (lw_dest w))) \<longleftrightarrow> j \<le> k) \<and>
       (length (posix_contents (lw_dest w)) \<le> m \<longrightarrow> n \<le> k)"
    using log_recovery [of "\<lparr>pw_filename = [], pw_file = \<lparr>wf_disk = [], wf_buf = [],
       wf_room = 100, wf_flushes = True, wf_strerror = []\<rparr>\<rparr>" "[[1, 2], []]" 3]
    by (simp only: posix_contents_def) auto
  from r have "\<forall>m. \<exists>k r. read_records 3 (Reader (open_log [] [] (take m (posix_contents (lw_dest w)))) (Some []) True 0) =
       Ret (take k [[1, 2], []], r) \<and> lr_reporter r = Some []" by blast
  with w show ?thesis by blast
qed

text \<open>C22: LastRecordOffset of a record is the end of the record before it. When the writer had to fill the
  trailer of a block, that is not where the record starts: it lies the padding further on.\<close>

theorem last_record_offset:
  assumes "length (log_bytes 0 [d, d']) < 2 ^ 64"
  shows "\<exists>r r'. ReadRecord (Reader (open_log name err (log_bytes 0 [d, d'])) rep checksum 0) = (Some d, r) \<and>
    ReadRecord r = (Some d', r') \<and> unat (LastRecordOffset r') = length (log_bytes 0 [d]) \<and>
    (\<exists>t data rest. drop (length (log_bytes 0 [d]) + pad (length (log_bytes 0 [d]) mod kBlockSize)) (log_bytes 0 [d, d']) =
       phys t data @ rest)"
proof -
  define F where "F = log_bytes 0 [d, d']"
  define b where "b = record_bytes 0 True d"
  define b' where "b' = record_bytes (length b mod kBlockSize) True d'"
  have F: "F = b @ b'" and d: "log_bytes 0 [d] = b" by (simp_all add: F_def b_def b'_def Let_def)
  have "drop 0 F = take (length F) (record_bytes (0 mod kBlockSize) True d @ b')" by (simp add: F b_def)
  from ReadRecord_log(2) [OF reader_at_open [OF assms [folded F_def]] _ this, of name err rep checksum] obtain r where
    r: "ReadRecord (Reader (open_log name err F) rep checksum 0) = (Some d, r)" "reader_at F r (length b)"
    by (auto simp: F b_def)
  have "drop (length b) F = take (length b') (record_bytes (length b mod kBlockSize) True d' @ [])" "length b \<le> length F"
    by (simp_all add: F b'_def)
  from ReadRecord_log(2) [OF r(2) this(2,1)] obtain r' where
    r': "ReadRecord r = (Some d', r')" "LastRecordOffset r' = of_nat (length b)" by (auto simp: b'_def)
  have "length b < 2 ^ 64" using assms [folded F_def] by (simp add: F)
  moreover obtain t data rest where "b' = replicate (pad (length b mod kBlockSize)) 0 @ phys t data @ rest"
  proof (cases "length d' \<le> room_at (length b mod kBlockSize)")
    case True
    with that [of _ _ "[]"] show thesis unfolding b'_def by (subst (asm) record_bytes.simps) simp
  next
    case False
    with that show thesis unfolding b'_def by (subst (asm) record_bytes.simps) simp
  qed
  ultimately show ?thesis using r r' unfolding F_def [symmetric] d by (auto simp: F unat_of_nat_small)
qed

theorem last_record_offset_witness:
  "\<exists>r r'. ReadRecord (Reader (open_log [] [] (log_bytes 0 [replicate 32755 7, [1]])) None True 0) = (Some (replicate 32755 7), r) \<and>
    ReadRecord r = (Some [1], r') \<and> unat (LastRecordOffset r') = 32762 \<and> pad (32762 mod kBlockSize) = 6"
proof -
  have b: "length (record_bytes 0 True (replicate 32755 7)) = 32762"
    by (subst record_bytes.simps) (simp add: room_at_def start_def pad_def)
  then have "length (log_bytes 0 [replicate 32755 7, [1]]) < 2 ^ 64"
    by (simp add: Let_def record_bytes.simps [of _ True "[1]"] room_at_def start_def pad_def)
  from last_record_offset [OF this, of "[]" "[]" None True] b show ?thesis by (auto simp: Let_def pad_def)
qed

end
