(* ===== verification/Ldb_Block.thy ===== *)
theory Ldb_Block
  imports Ldb_Coding
begin

text \<open>
  leveldb, \<open>table/block_builder.h\<close>, \<open>table/block_builder.cc\<close>, \<open>table/block.h\<close> and \<open>table/block.cc\<close>: the
  blocks of a table. A block holds entries with prefix-compressed keys and an array of restart
  points. The iterator's pointers are offsets in the block; a read past the end of the block and a
  failed assertion are \<open>UB\<close>. The loops over restart points and entries have fuel.
\<close>

section \<open>Building a block\<close>

record block_builder =
  bb_buffer :: slice
  bb_restarts :: "u32 list"
  bb_counter :: int
  bb_finished :: bool
  bb_last_key :: slice

definition BlockBuilder :: "int \<Rightarrow> block_builder run" where
  "BlockBuilder block_restart_interval =
     (if \<not> block_restart_interval \<ge> 1 then UB
      else Ret \<lparr>bb_buffer = [], bb_restarts = [0], bb_counter = 0, bb_finished = False, bb_last_key = []\<rparr>)"

definition bb_Reset :: "block_builder \<Rightarrow> block_builder" where
  "bb_Reset b = b\<lparr>bb_buffer := [], bb_restarts := [0], bb_counter := 0, bb_finished := False, bb_last_key := []\<rparr>"

definition bb_CurrentSizeEstimate :: "block_builder \<Rightarrow> nat" where
  "bb_CurrentSizeEstimate b = length (bb_buffer b) + length (bb_restarts b) * 4 + 4"

definition bb_Finish :: "block_builder \<Rightarrow> slice \<times> block_builder" where
  "bb_Finish b =
     (let buffer = fold (\<lambda>r buf. PutFixed32 buf r) (bb_restarts b) (bb_buffer b);
          buffer = PutFixed32 buffer (of_nat (length (bb_restarts b)))
      in (buffer, b\<lparr>bb_buffer := buffer, bb_finished := True\<rparr>))"

fun shared_loop :: "slice \<Rightarrow> slice \<Rightarrow> nat \<Rightarrow> nat" where
  "shared_loop (a # last_key) (b # key) shared = (if a = b then shared_loop last_key key (shared + 1) else shared)"
| "shared_loop _ _ shared = shared"

definition bb_Add :: "(slice \<Rightarrow> slice \<Rightarrow> int) \<Rightarrow> int \<Rightarrow> slice \<Rightarrow> slice \<Rightarrow> block_builder \<Rightarrow> block_builder run" where
  "bb_Add compare block_restart_interval key value b =
     (let last_key_piece = bb_last_key b in
      if bb_finished b then UB
      else if \<not> bb_counter b \<le> block_restart_interval then UB
      else if \<not> (bb_buffer b = [] \<or> compare key last_key_piece > 0) then UB
      else
        let (shared, b) =
              (if bb_counter b < block_restart_interval then (shared_loop last_key_piece key 0, b)
               else (0, b\<lparr>bb_restarts := bb_restarts b @ [of_nat (length (bb_buffer b))], bb_counter := 0\<rparr>));
            non_shared = length key - shared;
            buffer = PutVarint32 (bb_buffer b) (of_nat shared);
            buffer = PutVarint32 buffer (of_nat non_shared);
            buffer = PutVarint32 buffer (of_nat (length value));
            buffer = buffer @ take non_shared (drop shared key);
            buffer = buffer @ value;
            last_key = resize shared (bb_last_key b);
            last_key = last_key @ take non_shared (drop shared key)
        in if last_key \<noteq> key then UB
           else Ret (b\<lparr>bb_buffer := buffer, bb_last_key := last_key, bb_counter := bb_counter b + 1\<rparr>))"

section \<open>The block\<close>

record block =
  bl_data :: slice
  bl_size :: nat
  bl_restart_offset :: u32

definition NumRestarts :: "slice \<Rightarrow> nat \<Rightarrow> u32" where
  "NumRestarts data sz = DecodeFixed32 (drop (sz - 4) data)"

text \<open>A block that is too small for its restart array has size 0; its restart offset is not set.\<close>

definition Block :: "slice \<Rightarrow> block" where
  "Block contents =
     (let sz = length contents in
      if sz < 4 then \<lparr>bl_data = contents, bl_size = 0, bl_restart_offset = 0\<rparr>
      else
        let max_restarts_allowed = (sz - 4) div 4 in
        if unat (NumRestarts contents sz) > max_restarts_allowed
        then \<lparr>bl_data = contents, bl_size = 0, bl_restart_offset = 0\<rparr>
        else \<lparr>bl_data = contents, bl_size = sz,
              bl_restart_offset = of_nat (sz - unat (1 + NumRestarts contents sz) * 4)\<rparr>)"

text \<open>
  The three lengths of an entry and the bytes after them, from the bytes between \<open>p\<close> and \<open>limit\<close>. The
  sum of the last two lengths is taken in 32 bits.
\<close>

definition DecodeEntry :: "slice \<Rightarrow> (u32 \<times> u32 \<times> u32 \<times> slice) option" where
  "DecodeEntry p =
     (if length p < 3 then None
      else
        let shared = ucast (p ! 0); non_shared = ucast (p ! 1); value_length = ucast (p ! 2) :: u32;
            decoded =
              (if (shared OR non_shared OR value_length) < 128 then Some (shared, non_shared, value_length, drop 3 p)
               else case GetVarint32Ptr p of None \<Rightarrow> None
                 | Some (shared, p) \<Rightarrow> (case GetVarint32Ptr p of None \<Rightarrow> None
                   | Some (non_shared, p) \<Rightarrow> (case GetVarint32Ptr p of None \<Rightarrow> None
                     | Some (value_length, p) \<Rightarrow> Some (shared, non_shared, value_length, p))))
        in case decoded of None \<Rightarrow> None
           | Some (shared, non_shared, value_length, p) \<Rightarrow>
               if (of_nat (length p) :: u32) < non_shared + value_length then None
               else Some (shared, non_shared, value_length, p))"

section \<open>The iterator of a block\<close>

text \<open>\<open>value_\<close> is its offset in the block and its length.\<close>

record block_iter =
  bi_data :: slice
  bi_restarts :: u32
  bi_num_restarts :: u32
  bi_current :: u32
  bi_restart_index :: u32
  bi_key :: slice
  bi_value_pos :: nat
  bi_value_len :: nat
  bi_status :: status

definition NextEntryOffset :: "block_iter \<Rightarrow> u32" where
  "NextEntryOffset it = of_nat (bi_value_pos it + bi_value_len it)"

definition GetRestartPoint :: "block_iter \<Rightarrow> u32 \<Rightarrow> u32 run" where
  "GetRestartPoint it index =
     (if \<not> index < bi_num_restarts it then UB
      else
        let p = unat (bi_restarts it) + unat index * 4 in
        if p + 4 > length (bi_data it) then UB else Ret (DecodeFixed32 (drop p (bi_data it))))"

definition SeekToRestartPoint :: "u32 \<Rightarrow> block_iter \<Rightarrow> block_iter run" where
  "SeekToRestartPoint index it =
     (let it = it\<lparr>bi_key := [], bi_restart_index := index\<rparr> in
      rbind (GetRestartPoint it index) (\<lambda>offset.
        Ret (it\<lparr>bi_value_pos := unat offset, bi_value_len := 0\<rparr>)))"

definition Iter :: "slice \<Rightarrow> u32 \<Rightarrow> u32 \<Rightarrow> block_iter run" where
  "Iter data restarts num_restarts =
     (if \<not> num_restarts > 0 then UB
      else Ret \<lparr>bi_data = data, bi_restarts = restarts, bi_num_restarts = num_restarts, bi_current = restarts,
                bi_restart_index = num_restarts, bi_key = [], bi_value_pos = 0, bi_value_len = 0, bi_status = Status_OK\<rparr>)"

definition bi_Valid :: "block_iter \<Rightarrow> bool" where
  "bi_Valid it \<longleftrightarrow> bi_current it < bi_restarts it"

definition bi_get_key :: "block_iter \<Rightarrow> slice run" where
  "bi_get_key it = (if \<not> bi_Valid it then UB else Ret (bi_key it))"

definition bi_get_value :: "block_iter \<Rightarrow> slice run" where
  "bi_get_value it =
     (if \<not> bi_Valid it then UB
      else if bi_value_pos it + bi_value_len it > length (bi_data it) then UB
      else Ret (take (bi_value_len it) (drop (bi_value_pos it) (bi_data it))))"

definition CorruptionError :: "block_iter \<Rightarrow> block_iter" where
  "CorruptionError it =
     it\<lparr>bi_current := bi_restarts it, bi_restart_index := bi_num_restarts it,
        bi_status := Corruption (cstr ''bad entry in block'') [], bi_key := [], bi_value_pos := 0, bi_value_len := 0\<rparr>"

fun restart_index_loop :: "nat \<Rightarrow> block_iter \<Rightarrow> block_iter run" where
  "restart_index_loop 0 it = Fuel_Out"
| "restart_index_loop (Suc fuel) it =
     (if bi_restart_index it + 1 < bi_num_restarts it then
        rbind (GetRestartPoint it (bi_restart_index it + 1)) (\<lambda>r.
          if r < bi_current it then restart_index_loop fuel (it\<lparr>bi_restart_index := bi_restart_index it + 1\<rparr>)
          else Ret it)
      else Ret it)"

definition ParseNextKey :: "block_iter \<Rightarrow> (bool \<times> block_iter) run" where
  "ParseNextKey it =
     (let it = it\<lparr>bi_current := NextEntryOffset it\<rparr>;
          p = unat (bi_current it);
          limit = unat (bi_restarts it)
      in if p \<ge> limit then
           Ret (False, it\<lparr>bi_current := bi_restarts it, bi_restart_index := bi_num_restarts it\<rparr>)
         else case DecodeEntry (drop p (take limit (bi_data it))) of
             None \<Rightarrow> Ret (False, CorruptionError it)
           | Some (shared, non_shared, value_length, rest) \<Rightarrow>
               if length (bi_key it) < unat shared then Ret (False, CorruptionError it)
               else
                 let p = limit - length rest in
                 if p + unat non_shared > length (bi_data it) then UB
                 else
                   let key = resize (unat shared) (bi_key it) @ take (unat non_shared) (drop p (bi_data it));
                       it = it\<lparr>bi_key := key, bi_value_pos := p + unat non_shared, bi_value_len := unat value_length\<rparr>
                   in rbind (restart_index_loop (unat (bi_num_restarts it) + 1) it) (\<lambda>it. Ret (True, it)))"

definition bi_Next :: "block_iter \<Rightarrow> block_iter run" where
  "bi_Next it = (if \<not> bi_Valid it then UB else rbind (ParseNextKey it) (\<lambda>(more, it). Ret it))"

text \<open>The loops of \<open>Prev\<close>: back to a restart point before the entry, then on to the entry just before it.\<close>

fun prev_restart_loop :: "nat \<Rightarrow> u32 \<Rightarrow> block_iter \<Rightarrow> (bool \<times> block_iter) run" where
  "prev_restart_loop 0 original it = Fuel_Out"
| "prev_restart_loop (Suc fuel) original it =
     rbind (GetRestartPoint it (bi_restart_index it)) (\<lambda>r.
       if r \<ge> original then
         if bi_restart_index it = 0 then
           Ret (False, it\<lparr>bi_current := bi_restarts it, bi_restart_index := bi_num_restarts it\<rparr>)
         else prev_restart_loop fuel original (it\<lparr>bi_restart_index := bi_restart_index it - 1\<rparr>)
       else Ret (True, it))"

fun skip_until_loop :: "nat \<Rightarrow> u32 \<Rightarrow> block_iter \<Rightarrow> block_iter run" where
  "skip_until_loop 0 bound it = Fuel_Out"
| "skip_until_loop (Suc fuel) bound it =
     rbind (ParseNextKey it) (\<lambda>(more, it).
       if more \<and> NextEntryOffset it < bound then skip_until_loop fuel bound it else Ret it)"

definition bi_fuel :: "block_iter \<Rightarrow> nat" where
  "bi_fuel it = length (bi_data it) + 1"

definition bi_Prev :: "block_iter \<Rightarrow> block_iter run" where
  "bi_Prev it =
     (if \<not> bi_Valid it then UB
      else
        let original = bi_current it in
        rbind (prev_restart_loop (unat (bi_num_restarts it) + 1) original it) (\<lambda>(found, it).
          if \<not> found then Ret it
          else rbind (SeekToRestartPoint (bi_restart_index it) it) (\<lambda>it. skip_until_loop (bi_fuel it) original it)))"

fun seek_binary_loop ::
  "nat \<Rightarrow> (slice \<Rightarrow> slice \<Rightarrow> int) \<Rightarrow> slice \<Rightarrow> u32 \<Rightarrow> u32 \<Rightarrow> block_iter \<Rightarrow> (u32 option \<times> block_iter) run" where
  "seek_binary_loop 0 compare target left right it = Fuel_Out"
| "seek_binary_loop (Suc fuel) compare target left right it =
     (if left < right then
        let mid = (left + right + 1) div 2 in
        rbind (GetRestartPoint it mid) (\<lambda>region_offset.
          case DecodeEntry (drop (unat region_offset) (take (unat (bi_restarts it)) (bi_data it))) of
            None \<Rightarrow> Ret (None, CorruptionError it)
          | Some (shared, non_shared, value_length, rest) \<Rightarrow>
              if shared \<noteq> 0 then Ret (None, CorruptionError it)
              else
                let key_ptr = unat (bi_restarts it) - length rest in
                if key_ptr + unat non_shared > length (bi_data it) then UB
                else
                  let mid_key = take (unat non_shared) (drop key_ptr (bi_data it)) in
                  if compare mid_key target < 0 then seek_binary_loop fuel compare target mid right it
                  else seek_binary_loop fuel compare target left (mid - 1) it)
      else Ret (Some left, it))"

fun seek_linear_loop :: "nat \<Rightarrow> (slice \<Rightarrow> slice \<Rightarrow> int) \<Rightarrow> slice \<Rightarrow> block_iter \<Rightarrow> block_iter run" where
  "seek_linear_loop 0 compare target it = Fuel_Out"
| "seek_linear_loop (Suc fuel) compare target it =
     rbind (ParseNextKey it) (\<lambda>(more, it).
       if \<not> more then Ret it
       else if compare (bi_key it) target \<ge> 0 then Ret it
       else seek_linear_loop fuel compare target it)"

definition bi_Seek :: "(slice \<Rightarrow> slice \<Rightarrow> int) \<Rightarrow> slice \<Rightarrow> block_iter \<Rightarrow> block_iter run" where
  "bi_Seek compare target it =
     rbind (seek_binary_loop (unat (bi_num_restarts it) + 1) compare target 0 (bi_num_restarts it - 1) it) (\<lambda>(left, it).
       case left of None \<Rightarrow> Ret it
       | Some left \<Rightarrow>
           rbind (SeekToRestartPoint left it) (\<lambda>it. seek_linear_loop (bi_fuel it) compare target it))"

definition bi_SeekToFirst :: "block_iter \<Rightarrow> block_iter run" where
  "bi_SeekToFirst it = rbind (SeekToRestartPoint 0 it) (\<lambda>it. rbind (ParseNextKey it) (\<lambda>(more, it). Ret it))"

definition bi_SeekToLast :: "block_iter \<Rightarrow> block_iter run" where
  "bi_SeekToLast it =
     rbind (SeekToRestartPoint (bi_num_restarts it - 1) it) (\<lambda>it. skip_until_loop (bi_fuel it) (bi_restarts it) it)"

text \<open>The iterator of a block: one that only reports an error, one over nothing, or one over the entries.\<close>

datatype block_iterator = Error_Iterator status | Empty_Iterator | Block_Iterator block_iter

definition bl_NewIterator :: "block \<Rightarrow> block_iterator run" where
  "bl_NewIterator b =
     (if bl_size b < 4 then Ret (Error_Iterator (Corruption (cstr ''bad block contents'') []))
      else
        let num_restarts = NumRestarts (bl_data b) (bl_size b) in
        if num_restarts = 0 then Ret Empty_Iterator
        else rbind (Iter (bl_data b) (bl_restart_offset b) num_restarts) (\<lambda>it. Ret (Block_Iterator it)))"

end
