(* ===== verification/Ldb_Block_Iter.thy ===== *)
theory Ldb_Block_Iter
  imports Ldb_Block
begin

text \<open>
  The correctness of leveldb's blocks. \<open>block_image\<close> says what a block's bytes are: entries, each sharing
  a prefix with the key before it, and restart points at some entries that share nothing. The builder is
  shown to make such a block and the operations of the iterator to be those of a cursor in the list of
  entries: they return, read only inside the block, and find no corruption.
\<close>

section \<open>One entry\<close>

type_synonym entry = "nat \<times> slice \<times> slice"

definition entry_bytes :: "entry \<Rightarrow> slice" where
  "entry_bytes e = (case e of (sh, k, v) \<Rightarrow>
     EncodeVarint32 (of_nat sh) @ EncodeVarint32 (of_nat (length k - sh)) @ EncodeVarint32 (of_nat (length v)) @ drop sh k @ v)"

lemma EncodeVarint32_cases:
  obtains "EncodeVarint32 v = [ucast v]" "drop_bit 7 v = 0"
  | b rest where "EncodeVarint32 v = b # rest" "rest \<noteq> []" "bit b 7"
proof (cases "drop_bit 7 v = 0")
  case True
  then have "drop_bit 7 (ucast v :: u64) = 0" by (simp add: drop_ucast)
  then show ?thesis using that(1) True by (simp add: EncodeVarint32_64 EncodeVarint64_small ucast_ucast_u32)
next
  case False
  then have "drop_bit 7 (ucast v :: u64) \<noteq> 0" by (simp add: drop_ucast ucast_zero_iff)
  moreover have "bit (ucast ((ucast v AND 0x7F) OR (0x80 :: u64)) :: byte) 7" by (simp add: bit_simps)
  ultimately show ?thesis
    using that(2) by (simp add: EncodeVarint32_64 EncodeVarint64_more)
qed

lemma less_128: "w < 128 \<longleftrightarrow> drop_bit 7 (w :: u32) = 0"
  by (rule less_pow_drop) simp

lemma byte_128: "drop_bit 7 (ucast (b :: byte) :: u32) = 0 \<longleftrightarrow> \<not> bit b 7"
proof -
  have "drop_bit 7 (ucast b :: u32) = (if bit b 7 then 1 else 0)"
  proof (rule bit_word_eqI)
    fix n :: nat
    have "bit b (7 + n) \<Longrightarrow> n = 0" using bit_imp_le_length [of b "7 + n"] by simp
    then show "bit (drop_bit 7 (ucast b :: u32)) n = bit (if bit b 7 then 1 else 0 :: u32) n"
      by (auto simp: bit_simps bit_1_iff)
  qed
  then show ?thesis by simp
qed

lemma fast_path: "(ucast a OR ucast b OR ucast c :: u32) < 128 \<longleftrightarrow> \<not> bit (a :: byte) 7 \<and> \<not> bit (b :: byte) 7 \<and> \<not> bit (c :: byte) 7"
  unfolding less_128 by (simp only: drop_bit_or or_eq_0_iff byte_128)

lemma single_byte: "drop_bit 7 v = 0 \<Longrightarrow> ucast (ucast v :: byte) = (v :: u32)"
proof -
  assume v: "drop_bit 7 v = 0"
  show ?thesis
  proof (rule bit_word_eqI)
    fix n
    show "bit (ucast (ucast v :: byte) :: u32) n = bit v n"
      using arg_cong [OF v, of "\<lambda>w. bit w (n - 7)"] by (cases "n < 8") (auto simp: bit_simps)
  qed
qed

lemma DecodeEntry_via:
  assumes "3 \<le> length p"
    and "(case GetVarint32Ptr p of None \<Rightarrow> None
       | Some (shared, p) \<Rightarrow> (case GetVarint32Ptr p of None \<Rightarrow> None
         | Some (non_shared, p) \<Rightarrow> (case GetVarint32Ptr p of None \<Rightarrow> None
           | Some (value_length, p) \<Rightarrow> Some (shared, non_shared, value_length, p)))) = Some (s, n, v, q)"
    and "(ucast (p ! 0) OR ucast (p ! 1) OR ucast (p ! 2) :: u32) < 128 \<Longrightarrow>
      ucast (p ! 0) = s \<and> ucast (p ! 1) = n \<and> ucast (p ! 2) = v \<and> drop 3 p = q"
    and "n + v \<le> of_nat (length q)"
  shows "DecodeEntry p = Some (s, n, v, q)"
proof -
  have "(if (ucast (p ! 0) OR ucast (p ! 1) OR ucast (p ! 2) :: u32) < 128
      then Some (ucast (p ! 0), ucast (p ! 1), ucast (p ! 2), drop 3 p) else Some (s, n, v, q)) = Some (s, n, v, q)"
    using assms(3) by auto
  then show ?thesis
    using assms(1,4) unfolding DecodeEntry_def Let_def assms(2) by (simp only:) simp
qed

lemma DecodeEntry_varints:
  assumes "(of_nat (length rest) :: u32) \<ge> n + v"
  shows "DecodeEntry (EncodeVarint32 s @ EncodeVarint32 n @ EncodeVarint32 v @ rest) = Some (s, n, v, rest)"
proof (rule DecodeEntry_via)
  let ?p = "EncodeVarint32 s @ EncodeVarint32 n @ EncodeVarint32 v @ rest"
  show "3 \<le> length ?p"
    using length_EncodeVarint32 [of s] length_EncodeVarint32 [of n] length_EncodeVarint32 [of v] by simp
  assume fast: "(ucast (?p ! 0) OR ucast (?p ! 1) OR ucast (?p ! 2) :: u32) < 128"
  show "ucast (?p ! 0) = s \<and> ucast (?p ! 1) = n \<and> ucast (?p ! 2) = v \<and> drop 3 ?p = rest"
  proof (cases s rule: EncodeVarint32_cases)
    case s: 1
    show ?thesis
    proof (cases n rule: EncodeVarint32_cases)
      case n: 1
      show ?thesis
        by (cases v rule: EncodeVarint32_cases)
          (use s n fast in \<open>auto simp: single_byte less_128 or_eq_0_iff byte_128\<close>)
    next
      case (2 b r)
      then show ?thesis using fast s by (auto simp: fast_path)
    qed
  next
    case (2 b r)
    then show ?thesis using fast by (auto simp: fast_path)
  qed
qed (simp_all add: assms)

lemma DecodeEntry_entry:
  assumes "length (entry_bytes (sh, k, v) @ rest) < 2 ^ 32" "sh \<le> length k"
  shows "DecodeEntry (entry_bytes (sh, k, v) @ rest) =
    Some (of_nat sh, of_nat (length k - sh), of_nat (length v), drop sh k @ v @ rest)"
proof -
  have "(of_nat (length (drop sh k @ v @ rest)) :: u32) \<ge> of_nat (length k - sh) + of_nat (length v)"
  proof -
    have small: "length (drop sh k @ v @ rest) < 2 ^ 32" using assms by (simp add: entry_bytes_def)
    then have "unat (of_nat (length k - sh) + of_nat (length v) :: u32) = length k - sh + length v"
      by (simp add: unat_of_nat_small flip: of_nat_add)
    moreover have "unat (of_nat (length (drop sh k @ v @ rest)) :: u32) = length k - sh + length v + length rest"
      using small by (subst unat_of_nat_small) simp_all
    ultimately show ?thesis by (simp add: word_le_nat_alt del: length_append length_drop)
  qed
  from DecodeEntry_varints [OF this] show ?thesis by (simp add: entry_bytes_def)
qed

section \<open>A block and its iterator\<close>

abbreviation shared_of :: "entry \<Rightarrow> nat" where "shared_of e \<equiv> fst e"
abbreviation key_of :: "entry \<Rightarrow> slice" where "key_of e \<equiv> fst (snd e)"
abbreviation value_of :: "entry \<Rightarrow> slice" where "value_of e \<equiv> snd (snd e)"

definition blk_bytes :: "entry list \<Rightarrow> slice" where
  "blk_bytes blk = concat (map entry_bytes blk)"

definition offset :: "entry list \<Rightarrow> nat \<Rightarrow> nat" where
  "offset blk i = length (blk_bytes (take i blk))"

text \<open>Every entry shares with the key before it what it says.\<close>

fun chain :: "slice \<Rightarrow> entry list \<Rightarrow> bool" where
  "chain prev [] \<longleftrightarrow> True"
| "chain prev (e # es) \<longleftrightarrow>
     shared_of e \<le> length prev \<and> shared_of e \<le> length (key_of e) \<and>
     take (shared_of e) prev = take (shared_of e) (key_of e) \<and> chain (key_of e) es"

definition restart_bytes :: "entry list \<Rightarrow> nat list \<Rightarrow> slice" where
  "restart_bytes blk ri = concat (map (\<lambda>i. EncodeFixed32 (of_nat (offset blk i))) ri)"

definition block_image :: "slice \<Rightarrow> entry list \<Rightarrow> nat list \<Rightarrow> bool" where
  "block_image data blk ri \<longleftrightarrow>
     chain [] blk \<and> ri \<noteq> [] \<and> hd ri = 0 \<and>
     (if blk = [] then ri = [0] else \<forall>i \<in> set ri. i < length blk \<and> shared_of (blk ! i) = 0) \<and>
     data = blk_bytes blk @ restart_bytes blk ri @ EncodeFixed32 (of_nat (length ri)) \<and> length data < 2 ^ 32"

definition iter_of :: "slice \<Rightarrow> entry list \<Rightarrow> nat list \<Rightarrow> block_iter \<Rightarrow> bool" where
  "iter_of data blk ri it \<longleftrightarrow>
     block_image data blk ri \<and> bi_data it = data \<and> bi_restarts it = of_nat (length (blk_bytes blk)) \<and>
     bi_num_restarts it = of_nat (length ri) \<and> bi_status it = Status_OK"

text \<open>The iterator is ready to parse entry \<open>i\<close>; it stands at entry \<open>i\<close>; it has run off the block.\<close>

definition before :: "slice \<Rightarrow> entry list \<Rightarrow> nat list \<Rightarrow> block_iter \<Rightarrow> nat \<Rightarrow> bool" where
  "before data blk ri it i \<longleftrightarrow>
     iter_of data blk ri it \<and> i \<le> length blk \<and> bi_value_pos it + bi_value_len it = offset blk i \<and>
     unat (bi_restart_index it) < length ri \<and>
     (i < length blk \<longrightarrow> shared_of (blk ! i) \<le> length (bi_key it) \<and>
        take (shared_of (blk ! i)) (bi_key it) = take (shared_of (blk ! i)) (key_of (blk ! i)))"

definition stands_at :: "slice \<Rightarrow> entry list \<Rightarrow> nat list \<Rightarrow> block_iter \<Rightarrow> nat \<Rightarrow> bool" where
  "stands_at data blk ri it i \<longleftrightarrow>
     iter_of data blk ri it \<and> i < length blk \<and> bi_current it = of_nat (offset blk i) \<and>
     bi_key it = key_of (blk ! i) \<and> bi_value_pos it + length (value_of (blk ! i)) = offset blk (Suc i) \<and>
     bi_value_len it = length (value_of (blk ! i)) \<and> unat (bi_restart_index it) < length ri"

definition off_block :: "slice \<Rightarrow> entry list \<Rightarrow> nat list \<Rightarrow> block_iter \<Rightarrow> bool" where
  "off_block data blk ri it \<longleftrightarrow> iter_of data blk ri it \<and> \<not> bi_Valid it"

lemma offset_0 [simp]: "offset blk 0 = 0"
  by (simp add: offset_def blk_bytes_def)

lemma offset_end: "offset blk (length blk) = length (blk_bytes blk)"
  by (simp add: offset_def)

lemma blk_bytes_append: "blk_bytes (xs @ ys) = blk_bytes xs @ blk_bytes ys"
  by (simp add: blk_bytes_def)

lemma blk_bytes_Cons: "blk_bytes (e # es) = entry_bytes e @ blk_bytes es"
  by (simp add: blk_bytes_def)

lemma blk_bytes_split: "blk_bytes blk = blk_bytes (take i blk) @ blk_bytes (drop i blk)"
  by (simp flip: blk_bytes_append)

lemma drop_offset: "drop (offset blk i) (blk_bytes blk) = blk_bytes (drop i blk)"
  by (subst blk_bytes_split [of blk i]) (simp add: offset_def)

lemma offset_Suc: "i < length blk \<Longrightarrow> offset blk (Suc i) = offset blk i + length (entry_bytes (blk ! i))"
  by (simp add: offset_def take_Suc_conv_app_nth blk_bytes_append blk_bytes_Cons blk_bytes_def)

lemma length_entry_bytes: "3 \<le> length (entry_bytes e)"
proof (cases e)
  case (fields sh k v)
  then show ?thesis
    using length_EncodeVarint32 [of "of_nat sh"] length_EncodeVarint32 [of "of_nat (length k - sh)"]
      length_EncodeVarint32 [of "of_nat (length v)"]
    by (simp add: entry_bytes_def)
qed

lemma offset_mono: "i < j \<Longrightarrow> j \<le> length blk \<Longrightarrow> offset blk i + (j - i) \<le> offset blk j"
proof (induction j)
  case (Suc j)
  have "offset blk (Suc j) = offset blk j + length (entry_bytes (blk ! j))" using Suc.prems by (intro offset_Suc) simp
  then show ?case using Suc length_entry_bytes [of "blk ! j"] by (cases "i = j") (auto simp: less_Suc_eq)
qed simp

lemma offset_le: "i \<le> length blk \<Longrightarrow> offset blk i \<le> length (blk_bytes blk)"
  using offset_mono [of i "length blk" blk] by (cases "i = length blk") (simp_all add: offset_end)

lemma offset_less: "i \<le> length blk \<Longrightarrow> j \<le> length blk \<Longrightarrow> offset blk i < offset blk j \<longleftrightarrow> i < j"
  using offset_mono [of i j blk] offset_mono [of j i blk] by (cases i j rule: linorder_cases) auto

lemma chain_nth:
  "chain prev blk \<Longrightarrow> i < length blk \<Longrightarrow>
     shared_of (blk ! i) \<le> length (key_of (blk ! i)) \<and>
     (0 < i \<longrightarrow> shared_of (blk ! i) \<le> length (key_of (blk ! (i - 1))) \<and>
        take (shared_of (blk ! i)) (key_of (blk ! (i - 1))) = take (shared_of (blk ! i)) (key_of (blk ! i))) \<and>
     (i = 0 \<longrightarrow> shared_of (blk ! i) \<le> length prev \<and> take (shared_of (blk ! i)) prev = take (shared_of (blk ! i)) (key_of (blk ! i)))"
proof (induction blk arbitrary: prev i)
  case (Cons e es)
  show ?case
  proof (cases i)
    case (Suc j)
    with Cons.IH [of "key_of e" j] Cons.prems show ?thesis by (cases j) auto
  qed (use Cons.prems in simp)
qed simp

lemma block_image_sizes:
  assumes "block_image data blk ri"
  shows "length (blk_bytes blk) + 4 * length ri + 4 < 2 ^ 32" "length ri < 2 ^ 30"
    "take (length (blk_bytes blk)) data = blk_bytes blk"
proof -
  have "length (restart_bytes blk ri) = 4 * length ri" for ri by (induction ri) (simp_all add: restart_bytes_def)
  then show "length (blk_bytes blk) + 4 * length ri + 4 < 2 ^ 32" "length ri < 2 ^ 30"
    using assms by (auto simp: block_image_def)
  show "take (length (blk_bytes blk)) data = blk_bytes blk" using assms by (auto simp: block_image_def)
qed

lemma drop_restart_bytes:
  "j < length ri \<Longrightarrow> \<exists>rest. drop (4 * j) (restart_bytes blk ri) = EncodeFixed32 (of_nat (offset blk (ri ! j))) @ rest"
proof (induction ri arbitrary: j)
  case (Cons i ri)
  then show ?case by (cases j) (auto simp: restart_bytes_def)
qed simp

lemma GetRestartPoint_image:
  assumes "iter_of data blk ri it" "unat index < length ri"
  shows "GetRestartPoint it index = Ret (of_nat (offset blk (ri ! unat index)))"
proof -
  have img: "block_image data blk ri" using assms(1) by (simp add: iter_of_def)
  let ?R = "length (blk_bytes blk)"
  have n: "unat (of_nat (length ri) :: u32) = length ri" "unat (of_nat ?R :: u32) = ?R"
    using block_image_sizes [OF img] by (simp_all add: unat_of_nat_small)
  obtain rest where "drop (4 * unat index) (restart_bytes blk ri) = EncodeFixed32 (of_nat (offset blk (ri ! unat index))) @ rest"
    using drop_restart_bytes [OF assms(2)] by auto
  moreover have "length (restart_bytes blk ri) = 4 * length ri" for ri by (induction ri) (simp_all add: restart_bytes_def)
  ultimately have "\<exists>rest. drop (?R + unat index * 4) data = EncodeFixed32 (of_nat (offset blk (ri ! unat index))) @ rest"
    using img assms(2) by (auto simp: block_image_def mult.commute)
  moreover have "?R + unat index * 4 + 4 \<le> length data"
    using img assms(2) \<open>\<And>ri. length (restart_bytes blk ri) = 4 * length ri\<close> by (simp add: block_image_def)
  ultimately show ?thesis
    using assms n by (auto simp: GetRestartPoint_def iter_of_def word_less_nat_alt Let_def)
qed

lemma image_restart:
  assumes "block_image data blk ri" "j < length ri"
  shows "ri ! j \<le> length blk" "blk \<noteq> [] \<Longrightarrow> ri ! j < length blk"
    "ri ! j < length blk \<Longrightarrow> shared_of (blk ! (ri ! j)) = 0"
proof -
  have "ri ! j \<in> set ri" using assms(2) by simp
  then show "ri ! j \<le> length blk" "blk \<noteq> [] \<Longrightarrow> ri ! j < length blk"
    "ri ! j < length blk \<Longrightarrow> shared_of (blk ! (ri ! j)) = 0"
    using assms(1) by (auto simp: block_image_def split: if_splits)
qed

section \<open>Parsing\<close>

lemma restart_index_loop_ok:
  "iter_of data blk ri it \<Longrightarrow> unat (bi_restart_index it) < length ri \<Longrightarrow>
     length ri - unat (bi_restart_index it) \<le> fuel \<Longrightarrow>
   \<exists>idx. restart_index_loop fuel it = Ret (it\<lparr>bi_restart_index := idx\<rparr>) \<and> unat idx < length ri"
proof (induction fuel arbitrary: it)
  case (Suc fuel)
  have img: "block_image data blk ri" using Suc.prems(1) by (simp add: iter_of_def)
  have num: "unat (bi_num_restarts it) = length ri"
    using Suc.prems(1) block_image_sizes(2) [OF img] by (simp add: iter_of_def unat_of_nat_small)
  have nxt: "unat (bi_restart_index it + 1) = unat (bi_restart_index it) + 1"
    using Suc.prems(2) block_image_sizes(2) [OF img] by (simp add: unat_word_ariths)
  show ?case
  proof (cases "bi_restart_index it + 1 < bi_num_restarts it")
    case True
    then have less: "unat (bi_restart_index it + 1) < length ri" by (simp add: word_less_nat_alt num)
    note r = GetRestartPoint_image [OF Suc.prems(1) this]
    let ?it = "it\<lparr>bi_restart_index := bi_restart_index it + 1\<rparr>"
    have "iter_of data blk ri ?it" using Suc.prems(1) by (simp add: iter_of_def)
    moreover have "length ri - unat (bi_restart_index it + 1) \<le> fuel" using Suc.prems(3) nxt by linarith
    ultimately obtain idx where
      "restart_index_loop fuel ?it = Ret (it\<lparr>bi_restart_index := idx\<rparr>)" "unat idx < length ri"
      using Suc.IH [of ?it] less by auto
    moreover have "\<exists>idx. Ret it = Ret (it\<lparr>bi_restart_index := idx\<rparr>) \<and> unat idx < length ri"
      using Suc.prems(2) by (intro exI [of _ "bi_restart_index it"]) simp
    ultimately show ?thesis using True by (auto simp: r)
  next
    case False
    then show ?thesis using Suc.prems(2) by (auto intro: exI [of _ "bi_restart_index it"])
  qed
qed simp

lemma iter_of_update [simp]:
  "iter_of data blk ri (it\<lparr>bi_restart_index := idx\<rparr>) = iter_of data blk ri it"
  "iter_of data blk ri (it\<lparr>bi_current := c\<rparr>) = iter_of data blk ri it"
  "iter_of data blk ri (it\<lparr>bi_key := k\<rparr>) = iter_of data blk ri it"
  "iter_of data blk ri (it\<lparr>bi_value_pos := p\<rparr>) = iter_of data blk ri it"
  "iter_of data blk ri (it\<lparr>bi_value_len := n\<rparr>) = iter_of data blk ri it"
  by (simp_all add: iter_of_def)

lemma iter_of_words:
  assumes "iter_of data blk ri it"
  shows "unat (bi_restarts it) = length (blk_bytes blk)" "unat (bi_num_restarts it) = length ri"
    "i \<le> length blk \<Longrightarrow> unat (of_nat (offset blk i) :: u32) = offset blk i"
  using assms block_image_sizes [of data blk ri] offset_le [of i blk] by (auto simp: iter_of_def unat_of_nat_small)

lemma at_before: "stands_at data blk ri it i \<Longrightarrow> before data blk ri it (Suc i)"
  using chain_nth [of "[]" blk "Suc i"]
  by (auto simp: stands_at_def before_def iter_of_def block_image_def)

lemma decode_at:
  assumes "iter_of data blk ri it" "i < length blk"
  shows "DecodeEntry (drop (offset blk i) (take (unat (bi_restarts it)) (bi_data it))) =
      Some (of_nat (shared_of (blk ! i)), of_nat (length (key_of (blk ! i)) - shared_of (blk ! i)),
        of_nat (length (value_of (blk ! i))),
        drop (shared_of (blk ! i)) (key_of (blk ! i)) @ value_of (blk ! i) @ blk_bytes (drop (Suc i) blk))"
proof -
  have img: "block_image data blk ri" using assms(1) by (simp add: iter_of_def)
  obtain sh k v where e: "blk ! i = (sh, k, v)" by (cases "blk ! i")
  have d: "drop (offset blk i) (take (unat (bi_restarts it)) (bi_data it)) = entry_bytes (blk ! i) @ blk_bytes (drop (Suc i) blk)"
    using assms img iter_of_words(1) [OF assms(1)] block_image_sizes(3) [OF img]
    by (simp add: iter_of_def drop_offset blk_bytes_Cons flip: Cons_nth_drop_Suc)
  have "length (drop (offset blk i) (blk_bytes blk)) < 2 ^ 32" using block_image_sizes(1) [OF img] by simp
  then have "length (entry_bytes (sh, k, v) @ blk_bytes (drop (Suc i) blk)) < 2 ^ 32"
    using assms(2) e by (simp add: drop_offset blk_bytes_Cons flip: Cons_nth_drop_Suc)
  moreover have "sh \<le> length k" using chain_nth [of "[]" blk i] assms(2) img e by (simp add: block_image_def)
  ultimately show ?thesis unfolding d by (simp only: e fst_conv snd_conv DecodeEntry_entry)
qed

lemma key_bytes_at:
  assumes "iter_of data blk ri it" "i < length blk"
  defines "rest \<equiv> drop (shared_of (blk ! i)) (key_of (blk ! i)) @ value_of (blk ! i) @ blk_bytes (drop (Suc i) blk)"
  defines "p \<equiv> unat (bi_restarts it) - length rest"
  shows "drop p (bi_data it) = rest @ drop (length (blk_bytes blk)) data"
    and "p + (length (key_of (blk ! i)) - shared_of (blk ! i)) + length (value_of (blk ! i)) = offset blk (Suc i)"
    and "length rest \<le> length (blk_bytes blk)"
proof -
  have img: "block_image data blk ri" using assms(1) by (simp add: iter_of_def)
  then obtain tail where data: "data = blk_bytes blk @ tail" by (auto simp: block_image_def)
  obtain sh k v where e: "blk ! i = (sh, k, v)" by (cases "blk ! i")
  have "drop (offset blk i) (blk_bytes blk) = entry_bytes (blk ! i) @ blk_bytes (drop (Suc i) blk)"
    using assms(2) by (simp add: drop_offset blk_bytes_Cons flip: Cons_nth_drop_Suc)
  then have "\<exists>hdr. drop (offset blk i) (blk_bytes blk) = hdr @ rest"
    by (simp add: e rest_def entry_bytes_def)
  then obtain pre where pre: "blk_bytes blk = pre @ rest"
    by (metis append_take_drop_id append.assoc)
  have p: "p = length pre" by (simp add: p_def pre iter_of_words(1) [OF assms(1)])
  show "drop p (bi_data it) = rest @ drop (length (blk_bytes blk)) data"
    using assms(1) by (simp add: p iter_of_def data) (simp add: pre)
  show "length rest \<le> length (blk_bytes blk)" by (simp add: pre)
  have "length (blk_bytes blk) = offset blk (Suc i) + length (blk_bytes (drop (Suc i) blk))"
    using blk_bytes_split [of blk "Suc i"] by (simp add: offset_def)
  then show "p + (length (key_of (blk ! i)) - shared_of (blk ! i)) + length (value_of (blk ! i)) = offset blk (Suc i)"
    by (simp add: p pre rest_def)
qed

lemma key_length: "chain [] blk \<Longrightarrow> i < length blk \<Longrightarrow> length (key_of (blk ! i)) \<le> offset blk (Suc i)"
proof (induction i)
  case 0
  obtain sh k v where "blk ! 0 = (sh, k, v)" by (cases "blk ! 0")
  with 0 chain_nth [of "[]" blk 0] show ?case by (simp add: offset_Suc entry_bytes_def)
next
  case (Suc i)
  obtain sh k v where e: "blk ! Suc i = (sh, k, v)" by (cases "blk ! Suc i")
  have "sh \<le> length (key_of (blk ! i))" using chain_nth [OF Suc.prems] e by simp
  moreover have "length (key_of (blk ! i)) \<le> offset blk (Suc i)" using Suc by simp
  moreover have "offset blk (Suc (Suc i)) = offset blk (Suc i) + length (entry_bytes (blk ! Suc i))"
    using Suc.prems by (intro offset_Suc) simp
  ultimately show ?case by (simp add: e entry_bytes_def)
qed

lemma ParseNextKey_entry:
  assumes "before data blk ri it i" "i < length blk"
  shows "\<exists>it'. ParseNextKey it = Ret (True, it') \<and> stands_at data blk ri it' i"
proof -
  have it: "iter_of data blk ri it" using assms(1) by (simp add: before_def)
  have img: "block_image data blk ri" using it by (simp add: iter_of_def)
  obtain sh k v where e: "blk ! i = (sh, k, v)" by (cases "blk ! i")
  define rest where "rest = drop sh k @ v @ blk_bytes (drop (Suc i) blk)"
  define p where "p = unat (bi_restarts it) - length rest"
  note bytes = key_bytes_at [OF it assms(2), unfolded e fst_conv snd_conv, folded rest_def, folded p_def]
  note dec = decode_at [OF it assms(2), unfolded e fst_conv snd_conv, folded rest_def]
  have sh: "sh \<le> length k" "sh \<le> length (bi_key it)" "take sh (bi_key it) = take sh k"
    using assms chain_nth [of "[]" blk i] img e by (auto simp: before_def block_image_def)
  have R: "unat (bi_restarts it) = length (blk_bytes blk)" by (rule iter_of_words(1) [OF it])
  have sizes: "length rest < 2 ^ 32" using bytes(3) block_image_sizes(1) [OF img] by simp
  have u: "unat (of_nat sh :: u32) = sh" "unat (of_nat (length k - sh) :: u32) = length k - sh"
    "unat (of_nat (length v) :: u32) = length v"
  proof -
    show "unat (of_nat (length k - sh) :: u32) = length k - sh" "unat (of_nat (length v) :: u32) = length v"
      using sizes by (simp_all add: rest_def unat_of_nat_small)
    have "length k \<le> offset blk (Suc i)"
      using key_length [of blk i] assms(2) img e by (simp add: block_image_def)
    then show "unat (of_nat sh :: u32) = sh"
      using sh(1) offset_le [of "Suc i" blk] assms(2) block_image_sizes(1) [OF img] by (simp add: unat_of_nat_small)
  qed
  have off: "NextEntryOffset it = of_nat (offset blk i)" "unat (of_nat (offset blk i) :: u32) = offset blk i"
    using assms iter_of_words(3) [OF it, of i] by (simp_all add: NextEntryOffset_def before_def)
  have less: "\<not> unat (bi_restarts it) \<le> offset blk i"
    using offset_less [of i blk "length blk"] assms(2) R by (simp add: offset_end)
  have fits: "\<not> length (bi_data it) < p + (length k - sh)"
  proof -
    have "length (drop p (bi_data it)) \<ge> length k - sh" by (simp add: bytes(1) rest_def)
    moreover have "p \<le> length (bi_data it)"
      using it block_image_sizes(1) [OF img] R by (auto simp: p_def iter_of_def block_image_def)
    ultimately show ?thesis by simp
  qed
  have key: "resize sh (bi_key it) @ take (length k - sh) (drop p (bi_data it)) = k"
    using sh by (simp add: bytes(1) rest_def resize_def)
  let ?it = "it\<lparr>bi_current := of_nat (offset blk i), bi_key := k, bi_value_pos := p + (length k - sh), bi_value_len := length v\<rparr>"
  have "ParseNextKey it = rbind (restart_index_loop (unat (bi_num_restarts it) + 1) ?it) (\<lambda>it. Ret (True, it))"
    using dec sh(2) fits key less off u
    by (simp add: ParseNextKey_def Let_def p_def [symmetric] del: restart_index_loop.simps)
  moreover have "length ri - unat (bi_restart_index ?it) \<le> unat (bi_num_restarts it) + 1"
    using iter_of_words(2) [OF it] by simp
  then obtain idx where "restart_index_loop (unat (bi_num_restarts it) + 1) ?it = Ret (?it\<lparr>bi_restart_index := idx\<rparr>)"
    "unat idx < length ri"
    using restart_index_loop_ok [of data blk ri ?it "unat (bi_num_restarts it) + 1"] it assms(1)
    by (auto simp: before_def simp del: restart_index_loop.simps)
  moreover have "stands_at data blk ri (?it\<lparr>bi_restart_index := idx\<rparr>) i"
    using it assms(2) e bytes(2) \<open>unat idx < length ri\<close> by (simp add: stands_at_def)
  ultimately show ?thesis by auto
qed

lemma ParseNextKey_end:
  assumes "before data blk ri it (length blk)"
  shows "\<exists>it'. ParseNextKey it = Ret (False, it') \<and> off_block data blk ri it'"
proof -
  have it: "iter_of data blk ri it" using assms by (simp add: before_def)
  have "NextEntryOffset it = of_nat (length (blk_bytes blk))"
    using assms by (simp add: NextEntryOffset_def before_def offset_end)
  moreover have "unat (of_nat (length (blk_bytes blk)) :: u32) = length (blk_bytes blk)"
    using iter_of_words(3) [OF it, of "length blk"] by (simp add: offset_end)
  ultimately show ?thesis
    using it iter_of_words(1) [OF it]
    by (simp add: ParseNextKey_def Let_def off_block_def bi_Valid_def)
qed

section \<open>Moving the iterator\<close>

lemma SeekToRestartPoint_before:
  assumes "iter_of data blk ri it" "unat index < length ri"
  shows "\<exists>it'. SeekToRestartPoint index it = Ret it' \<and> before data blk ri it' (ri ! unat index)"
proof -
  have i: "ri ! unat index \<le> length blk"
    "ri ! unat index < length blk \<Longrightarrow> shared_of (blk ! (ri ! unat index)) = 0"
    using image_restart assms by (auto simp: iter_of_def)
  have "iter_of data blk ri (it\<lparr>bi_key := [], bi_restart_index := index\<rparr>)" using assms(1) by simp
  from GetRestartPoint_image [OF this assms(2)] iter_of_words(3) [OF assms(1) i(1)] assms i
  show ?thesis by (simp add: SeekToRestartPoint_def Let_def before_def)
qed

lemma NextEntryOffset_at:
  "stands_at data blk ri it i \<Longrightarrow> NextEntryOffset it = of_nat (offset blk (Suc i))"
  by (simp add: stands_at_def NextEntryOffset_def)

lemma skip_until_reaches:
  "before data blk ri it i \<Longrightarrow> i \<le> j \<Longrightarrow> j < length blk \<Longrightarrow> j - i < fuel \<Longrightarrow>
     \<exists>it'. skip_until_loop fuel (of_nat (offset blk (Suc j))) it = Ret it' \<and> stands_at data blk ri it' j"
proof (induction fuel arbitrary: it i)
  case (Suc fuel)
  then obtain it' where it': "ParseNextKey it = Ret (True, it')" "stands_at data blk ri it' i"
    using ParseNextKey_entry [OF Suc.prems(1)] by auto
  have it: "iter_of data blk ri it'" using it'(2) by (simp add: stands_at_def)
  have "NextEntryOffset it' < of_nat (offset blk (Suc j)) \<longleftrightarrow> i < j"
    using iter_of_words(3) [OF it, of "Suc i"] iter_of_words(3) [OF it, of "Suc j"] Suc.prems
      offset_less [of "Suc i" blk "Suc j"]
    by (simp add: NextEntryOffset_at [OF it'(2)] word_less_nat_alt)
  then show ?case
    using Suc.IH [OF at_before [OF it'(2)]] it' Suc.prems by (cases "i < j") auto
qed simp

lemma skip_until_empty:
  "before data blk ri it (length blk) \<Longrightarrow> \<exists>it'. skip_until_loop (Suc fuel) bound it = Ret it' \<and> off_block data blk ri it'"
  using ParseNextKey_end [of data blk ri it] by auto

lemma bi_fuel_enough: "iter_of data blk ri it \<Longrightarrow> length blk < bi_fuel it"
  using offset_mono [of 0 "length blk" blk] block_image_sizes(1) [of data blk ri]
  by (cases "blk = []") (auto simp: iter_of_def bi_fuel_def block_image_def offset_end)

lemma SeekToFirst_first:
  assumes "iter_of data blk ri it"
  shows "\<exists>it'. bi_SeekToFirst it = Ret it' \<and> (if blk = [] then off_block data blk ri it' else stands_at data blk ri it' 0)"
proof -
  have ri: "ri \<noteq> []" "hd ri = 0" using assms by (auto simp: iter_of_def block_image_def)
  then have "ri ! unat (0 :: u32) = 0" by (simp add: hd_conv_nth)
  with SeekToRestartPoint_before [OF assms, of 0] ri obtain it' where
    "SeekToRestartPoint 0 it = Ret it'" "before data blk ri it' 0" by auto
  with ParseNextKey_entry [of data blk ri it' 0] ParseNextKey_end [of data blk ri it'] show ?thesis
    by (cases "blk = []") (auto simp: bi_SeekToFirst_def)
qed

lemma SeekToLast_last:
  assumes "iter_of data blk ri it"
  shows "\<exists>it'. bi_SeekToLast it = Ret it' \<and>
    (if blk = [] then off_block data blk ri it' else stands_at data blk ri it' (length blk - 1))"
proof -
  have img: "block_image data blk ri" using assms by (simp add: iter_of_def)
  then have ri: "ri \<noteq> []" by (simp add: block_image_def)
  have num: "unat (bi_num_restarts it - 1) = length ri - 1"
    using iter_of_words(2) [OF assms] ri by (subst unat_minus_one) (auto simp: unat_eq_0 [symmetric])
  then have idx: "unat (bi_num_restarts it - 1) < length ri" using ri by (cases ri) auto
  define i where "i = ri ! unat (bi_num_restarts it - 1)"
  note i = image_restart [OF img idx, folded i_def]
  from SeekToRestartPoint_before [OF assms idx] obtain it' where
    it': "SeekToRestartPoint (bi_num_restarts it - 1) it = Ret it'" "before data blk ri it' i" by (auto simp: i_def)
  have it: "iter_of data blk ri it'" using it'(2) by (simp add: before_def)
  show ?thesis
  proof (cases "blk = []")
    case True
    then show ?thesis
      using it' i(1) skip_until_empty [of data blk ri it' "length (bi_data it')"]
      by (auto simp: bi_SeekToLast_def bi_fuel_def simp del: skip_until_loop.simps)
  next
    case False
    then have "bi_restarts it' = of_nat (offset blk (Suc (length blk - 1)))"
      using it by (simp add: iter_of_def offset_end)
    then show ?thesis
      using it' False i(2) skip_until_reaches [OF it'(2), of "length blk - 1" "bi_fuel it'"] bi_fuel_enough [OF it]
      by (auto simp: bi_SeekToLast_def)
  qed
qed

lemma stands_Valid: "stands_at data blk ri it i \<Longrightarrow> bi_Valid it"
  using iter_of_words(1) [of data blk ri it] iter_of_words(3) [of data blk ri it i] offset_less [of i blk "length blk"]
  by (auto simp: stands_at_def bi_Valid_def word_less_nat_alt offset_end)

lemma Next_moves:
  assumes "stands_at data blk ri it i"
  shows "\<exists>it'. bi_Next it = Ret it' \<and>
    (if Suc i < length blk then stands_at data blk ri it' (Suc i) else off_block data blk ri it')"
proof -
  have "bi_Valid it" by (rule stands_Valid [OF assms])
  moreover have "i < length blk" using assms by (simp add: stands_at_def)
  moreover note at_before [OF assms]
  ultimately show ?thesis
    using ParseNextKey_entry [of data blk ri it "Suc i"] ParseNextKey_end [of data blk ri it]
    by (cases "Suc i = length blk") (auto simp: bi_Next_def)
qed

text \<open>Back from entry \<open>i\<close> to the last restart point before it, or off the block when there is none.\<close>

lemma prev_restart_loop_finds:
  assumes "iter_of data blk ri it" "unat (bi_restart_index it) < length ri" "unat (bi_restart_index it) < fuel"
    "i < length blk"
  shows "\<exists>it'. prev_restart_loop fuel (of_nat (offset blk i)) it = Ret (0 < i, it') \<and>
     (if i = 0 then off_block data blk ri it'
      else iter_of data blk ri it' \<and> unat (bi_restart_index it') < length ri \<and> ri ! unat (bi_restart_index it') < i)"
  using assms
proof (induction fuel arbitrary: it)
  case (Suc fuel)
  have img: "block_image data blk ri" using Suc.prems(1) by (simp add: iter_of_def)
  define j where "j = ri ! unat (bi_restart_index it)"
  have j: "j \<le> length blk" using image_restart [OF img Suc.prems(2)] by (simp add: j_def)
  have r: "GetRestartPoint it (bi_restart_index it) = Ret (of_nat (offset blk j))"
    using GetRestartPoint_image [OF Suc.prems(1,2)] by (simp add: j_def)
  have less: "of_nat (offset blk i) \<le> (of_nat (offset blk j) :: u32) \<longleftrightarrow> i \<le> j"
    using iter_of_words(3) [OF Suc.prems(1), of i] iter_of_words(3) [OF Suc.prems(1), of j] j Suc.prems(4)
      offset_less [of j blk i]
    by (auto simp: word_le_nat_alt)
  show ?case
  proof (cases "i \<le> j")
    case False
    then show ?thesis using r less Suc.prems by (auto simp: j_def)
  next
    case True
    show ?thesis
    proof (cases "bi_restart_index it = 0")
      case 0: True
      then have "i = 0" using True img by (auto simp: j_def block_image_def hd_conv_nth)
      then show ?thesis
        using 0 r less True Suc.prems by (simp add: off_block_def bi_Valid_def iter_of_def)
    next
      case False
      let ?it = "it\<lparr>bi_restart_index := bi_restart_index it - 1\<rparr>"
      have "unat (bi_restart_index it - 1) = unat (bi_restart_index it) - 1" using False by (rule unat_minus_one)
      moreover have "0 < unat (bi_restart_index it)" using False by (simp add: unat_gt_0)
      ultimately have "unat (bi_restart_index ?it) < length ri" "unat (bi_restart_index ?it) < fuel"
        using Suc.prems(2,3) by simp_all
      from Suc.IH [OF _ this Suc.prems(4)] show ?thesis
        using False r less True Suc.prems by simp
    qed
  qed
qed simp

lemma Prev_moves:
  assumes "stands_at data blk ri it i"
  shows "\<exists>it'. bi_Prev it = Ret it' \<and> (if 0 < i then stands_at data blk ri it' (i - 1) else off_block data blk ri it')"
proof -
  have it: "iter_of data blk ri it" "unat (bi_restart_index it) < length ri" "i < length blk"
    "bi_current it = of_nat (offset blk i)" using assms by (simp_all add: stands_at_def)
  have fuel: "unat (bi_restart_index it) < unat (bi_num_restarts it) + 1"
    using it(2) iter_of_words(2) [OF it(1)] by simp
  from prev_restart_loop_finds [OF it(1,2) fuel it(3)] obtain it' where
    loop: "prev_restart_loop (unat (bi_num_restarts it) + 1) (bi_current it) it = Ret (0 < i, it')"
    and it': "if i = 0 then off_block data blk ri it'
      else iter_of data blk ri it' \<and> unat (bi_restart_index it') < length ri \<and> ri ! unat (bi_restart_index it') < i"
    unfolding it(4) by blast
  show ?thesis
  proof (cases "i = 0")
    case True
    then show ?thesis using it' stands_Valid [OF assms] loop by (simp add: bi_Prev_def Let_def del: prev_restart_loop.simps)
  next
    case False
    define j where "j = ri ! unat (bi_restart_index it')"
    from SeekToRestartPoint_before [of data blk ri it' "bi_restart_index it'"] it' False obtain it2 where
      it2: "SeekToRestartPoint (bi_restart_index it') it' = Ret it2" "before data blk ri it2 j" by (auto simp: j_def)
    have "iter_of data blk ri it2" using it2(2) by (simp add: before_def)
    from bi_fuel_enough [OF this] have "j \<le> i - 1" "i - 1 < length blk" "i - 1 - j < bi_fuel it2"
      using it' False it(3) by (auto simp: j_def)
    from skip_until_reaches [OF it2(2) this] show ?thesis
      using it2(1) stands_Valid [OF assms] loop it(4) False
      by (simp add: bi_Prev_def Let_def del: prev_restart_loop.simps)
  qed
qed

section \<open>Seeking\<close>

text \<open>The keys of a block are strictly sorted by a total order, the sign of the comparator.\<close>

definition sorted_entries :: "(slice \<Rightarrow> slice \<Rightarrow> int) \<Rightarrow> entry list \<Rightarrow> bool" where
  "sorted_entries compare blk \<longleftrightarrow> (\<forall>i < length blk. \<forall>j < i. compare (key_of (blk ! j)) (key_of (blk ! i)) < 0)"

definition first_not_before :: "(slice \<Rightarrow> slice \<Rightarrow> int) \<Rightarrow> slice \<Rightarrow> entry list \<Rightarrow> nat" where
  "first_not_before compare target blk = length (takeWhile (\<lambda>e. compare (key_of e) target < 0) blk)"

definition arrives :: "slice \<Rightarrow> entry list \<Rightarrow> nat list \<Rightarrow> nat \<Rightarrow> block_iter \<Rightarrow> bool" where
  "arrives data blk ri i it \<longleftrightarrow> (if i < length blk then stands_at data blk ri it i else off_block data blk ri it)"

lemma takeWhile_first:
  assumes "i \<le> length (takeWhile P xs)" "i < length xs"
  shows "P (xs ! i) \<longleftrightarrow> i < length (takeWhile P xs)"
proof
  assume "P (xs ! i)"
  then show "i < length (takeWhile P xs)"
    using assms nth_length_takeWhile [of P xs] by (cases "i = length (takeWhile P xs)") auto
next
  assume i: "i < length (takeWhile P xs)"
  then have "takeWhile P xs ! i \<in> set (takeWhile P xs)" by simp
  then show "P (xs ! i)" using set_takeWhileD takeWhile_nth [OF i] by fastforce
qed

lemma seek_linear_reaches:
  assumes "before data blk ri it i" "i \<le> first_not_before compare target blk" "length blk - i < fuel"
  shows "\<exists>it'. seek_linear_loop fuel compare target it = Ret it' \<and>
    arrives data blk ri (first_not_before compare target blk) it'"
  using assms
proof (induction fuel arbitrary: it i)
  case (Suc fuel)
  let ?f = "first_not_before compare target blk"
  have f: "?f \<le> length blk" by (simp add: first_not_before_def length_takeWhile_le)
  show ?case
  proof (cases "i = length blk")
    case True
    then have "?f = length blk" using f Suc.prems(2) by simp
    then show ?thesis using True Suc.prems(1) ParseNextKey_end [of data blk ri it] by (auto simp: arrives_def)
  next
    case False
    then have i: "i < length blk" using f Suc.prems(2) by simp
    from ParseNextKey_entry [OF Suc.prems(1) i] obtain it' where
      it': "ParseNextKey it = Ret (True, it')" "stands_at data blk ri it' i" by auto
    have key: "bi_key it' = key_of (blk ! i)" using it'(2) by (simp add: stands_at_def)
    have "compare (key_of (blk ! i)) target < 0 \<longleftrightarrow> i < ?f"
      using takeWhile_first [of i "\<lambda>e. compare (key_of e) target < 0" blk] i Suc.prems(2)
      by (simp add: first_not_before_def)
    then show ?thesis
      using Suc.IH [OF at_before [OF it'(2)]] it' i Suc.prems(2,3) key by (cases "i < ?f") (auto simp: arrives_def)
  qed
qed simp

definition sorted_for :: "(slice \<Rightarrow> slice \<Rightarrow> int) \<Rightarrow> slice \<Rightarrow> entry list \<Rightarrow> bool" where
  "sorted_for compare target blk \<longleftrightarrow>
     (\<forall>i < length blk. compare (key_of (blk ! i)) target < 0 \<longrightarrow> i < first_not_before compare target blk)"

text \<open>The key at a restart point, as the binary search reads it.\<close>

lemma restart_key:
  assumes "iter_of data blk ri it" "j < length ri" "blk \<noteq> []"
  shows "\<exists>n v rest. DecodeEntry (drop (offset blk (ri ! j)) (take (unat (bi_restarts it)) (bi_data it))) = Some (0, n, v, rest) \<and>
    unat (bi_restarts it) - length rest + unat n \<le> length (bi_data it) \<and>
    take (unat n) (drop (unat (bi_restarts it) - length rest) (bi_data it)) = key_of (blk ! (ri ! j))"
proof -
  have img: "block_image data blk ri" using assms(1) by (simp add: iter_of_def)
  define i where "i = ri ! j"
  have i: "i < length blk" "shared_of (blk ! i) = 0"
    using image_restart [OF img assms(2)] assms(3) by (simp_all add: i_def)
  obtain k v where e: "blk ! i = (0, k, v)" using i(2) by (cases "blk ! i") simp
  note bytes = key_bytes_at [OF assms(1) i(1), unfolded e fst_conv snd_conv drop_0 diff_zero]
  note dec = decode_at [OF assms(1) i(1), unfolded e fst_conv snd_conv drop_0 diff_zero]
  have "length k < 2 ^ 32" using bytes(3) block_image_sizes(1) [OF img] by simp
  then have k: "unat (of_nat (length k) :: u32) = length k" by (simp add: unat_of_nat_small)
  have "offset blk (Suc i) \<le> length (blk_bytes blk)" using i(1) by (intro offset_le) simp
  moreover have "length (blk_bytes blk) \<le> length (bi_data it)"
    using assms(1) img by (auto simp: iter_of_def block_image_def)
  ultimately show ?thesis
    using dec bytes(1,2) k e by (fold i_def) auto
qed

lemma seek_binary_reaches:
  assumes "iter_of data blk ri it" "sorted_for compare target blk" "left \<le> right" "unat right < length ri"
    "ri ! unat left \<le> first_not_before compare target blk" "unat right - unat left < fuel"
  shows "\<exists>l. seek_binary_loop fuel compare target left right it = Ret (Some l, it) \<and> unat l < length ri \<and>
    ri ! unat l \<le> first_not_before compare target blk"
  using assms(3-)
proof (induction fuel arbitrary: left right)
  case (Suc fuel)
  have img: "block_image data blk ri" using assms(1) by (simp add: iter_of_def)
  show ?case
  proof (cases "left < right")
    case False
    then have "left = right" using Suc.prems(1) by simp
    then show ?thesis using Suc.prems by simp
  next
    case True
    let ?mid = "(left + right + 1) div 2"
    have less: "unat left < unat right" using True by (simp add: word_less_nat_alt)
    have mid: "unat ?mid = (unat left + unat right + 1) div 2"
      using Suc.prems(2) block_image_sizes(2) [OF img] less by (simp add: unat_div unat_word_ariths)
    then have between: "unat left < unat ?mid" "unat ?mid \<le> unat right" using less by simp_all
    have blk: "blk \<noteq> []" using img less Suc.prems(2) by (auto simp: block_image_def)
    have ml: "unat ?mid < length ri" using between Suc.prems(2) by simp
    define i where "i = ri ! unat ?mid"
    have i: "i < length blk" using image_restart(2) [OF img ml blk] by (simp add: i_def)
    obtain n v rest where dec:
      "DecodeEntry (drop (offset blk i) (take (unat (bi_restarts it)) (bi_data it))) = Some (0, n, v, rest)"
      "unat (bi_restarts it) - length rest + unat n \<le> length (bi_data it)"
      "take (unat n) (drop (unat (bi_restarts it) - length rest) (bi_data it)) = key_of (blk ! i)"
      using restart_key [OF assms(1) ml blk] by (auto simp: i_def)
    have step: "seek_binary_loop (Suc fuel) compare target left right it =
      (if compare (key_of (blk ! i)) target < 0 then seek_binary_loop fuel compare target ?mid right it
       else seek_binary_loop fuel compare target left (?mid - 1) it)"
      using True dec GetRestartPoint_image [OF assms(1) ml] iter_of_words(3) [OF assms(1), of i] i
      by (simp add: Let_def i_def [symmetric] del: seek_binary_loop.simps add: seek_binary_loop.simps(2))
    show ?thesis
    proof (cases "compare (key_of (blk ! i)) target < 0")
      case lt: True
      then have "i < first_not_before compare target blk" using assms(2) i by (simp add: sorted_for_def)
      then show ?thesis
        using Suc.IH [of ?mid right] between Suc.prems step lt by (simp add: word_le_nat_alt i_def)
    next
      case ge: False
      have "?mid \<noteq> 0" using between(1) by auto
      then have "unat (?mid - 1) = unat ?mid - 1" by (rule unat_minus_one)
      then show ?thesis
        using Suc.IH [of left "?mid - 1"] between Suc.prems step ge by (simp add: word_le_nat_alt)
    qed
  qed
qed simp

lemma Seek_arrives:
  assumes "iter_of data blk ri it" "sorted_for compare target blk"
  shows "\<exists>it'. bi_Seek compare target it = Ret it' \<and> arrives data blk ri (first_not_before compare target blk) it'"
proof -
  let ?f = "first_not_before compare target blk"
  have img: "block_image data blk ri" using assms(1) by (simp add: iter_of_def)
  then have ri: "ri \<noteq> []" "ri ! 0 = 0" by (auto simp: block_image_def hd_conv_nth)
  have num: "unat (bi_num_restarts it - 1) = length ri - 1"
    using iter_of_words(2) [OF assms(1)] ri(1) by (subst unat_minus_one) (auto simp: unat_eq_0 [symmetric])
  obtain l where l: "seek_binary_loop (unat (bi_num_restarts it) + 1) compare target 0 (bi_num_restarts it - 1) it =
      Ret (Some l, it)" "unat l < length ri" "ri ! unat l \<le> ?f"
  proof -
    have "unat (bi_num_restarts it - 1) - unat (0 :: u32) < unat (bi_num_restarts it) + 1"
      using num iter_of_words(2) [OF assms(1)] by simp
    then show thesis
      using seek_binary_reaches [OF assms, of 0 "bi_num_restarts it - 1" "unat (bi_num_restarts it) + 1"] ri num that
      by (auto simp del: seek_binary_loop.simps)
  qed
  obtain it' where it': "SeekToRestartPoint l it = Ret it'" "before data blk ri it' (ri ! unat l)"
    using SeekToRestartPoint_before [OF assms(1) l(2)] by auto
  have "iter_of data blk ri it'" using it'(2) by (simp add: before_def)
  from bi_fuel_enough [OF this] have "length blk - ri ! unat l < bi_fuel it'" by simp
  from seek_linear_reaches [OF it'(2) l(3) this] show ?thesis
    using l(1) it'(1) by (simp add: bi_Seek_def del: seek_binary_loop.simps)
qed

context key_order begin

lemma sorted_first:
  "sorted_wrt (\<lambda>a b. compare (key a) (key b) < 0) xs \<Longrightarrow> \<forall>x\<in>set xs. valid (key x) \<Longrightarrow> valid target \<Longrightarrow>
    i < length xs \<Longrightarrow> compare (key (xs ! i)) target < 0 \<Longrightarrow>
    i < length (takeWhile (\<lambda>x. compare (key x) target < 0) xs)"
proof (induction xs arbitrary: i)
  case (Cons x xs)
  show ?case
  proof (cases i)
    case (Suc j)
    then have j: "j < length xs" "compare (key (xs ! j)) target < 0" using Cons.prems(4,5) by simp_all
    then have "xs ! j \<in> set xs" by simp
    then have "compare (key x) (key (xs ! j)) < 0" "valid (key (xs ! j))" using Cons.prems(1,2) by simp_all
    then have "compare (key x) target < 0"
      using compare_less_trans [of "key x" "key (xs ! j)" target] j(2) Cons.prems(2,3) by simp
    moreover have "j < length (takeWhile (\<lambda>x. compare (key x) target < 0) xs)"
      using Cons.IH [OF _ _ Cons.prems(3) j] Cons.prems(1,2) by simp
    ultimately show ?thesis using Suc by simp
  qed (use Cons.prems in simp)
qed simp

end

text \<open>What the iterator reads where it stands.\<close>

lemma reads_at:
  assumes "stands_at data blk ri it i"
  shows "bi_get_key it = Ret (key_of (blk ! i))" "bi_get_value it = Ret (value_of (blk ! i))"
proof -
  have it: "iter_of data blk ri it" "i < length blk" using assms by (simp_all add: stands_at_def)
  obtain sh k v where e: "blk ! i = (sh, k, v)" by (cases "blk ! i")
  note bytes = key_bytes_at [OF it, unfolded e fst_conv snd_conv]
  define p where "p = unat (bi_restarts it) - length (drop sh k @ v @ blk_bytes (drop (Suc i) blk))"
  note bytes = bytes [folded p_def]
  have pos: "bi_value_pos it = (length k - sh) + p" "bi_value_len it = length v"
    using assms bytes(2) e by (simp_all add: stands_at_def)
  have "drop (bi_value_pos it) (bi_data it) = drop (length k - sh) (drop p (bi_data it))"
    by (simp add: pos(1))
  then have d: "drop (bi_value_pos it) (bi_data it) = v @ blk_bytes (drop (Suc i) blk) @ drop (length (blk_bytes blk)) data"
    by (simp add: bytes(1))
  have "offset blk (Suc i) \<le> length (blk_bytes blk)" using it(2) by (intro offset_le) simp
  moreover have "length (blk_bytes blk) \<le> length (bi_data it)"
    using it(1) by (auto simp: iter_of_def block_image_def)
  ultimately have "bi_value_pos it + bi_value_len it \<le> length (bi_data it)"
    using assms e by (simp add: stands_at_def)
  then show "bi_get_value it = Ret (value_of (blk ! i))"
    using stands_Valid [OF assms] by (simp add: bi_get_value_def d pos(2) e)
  show "bi_get_key it = Ret (key_of (blk ! i))"
    using stands_Valid [OF assms] assms by (simp add: bi_get_key_def stands_at_def)
qed

section \<open>Opening a block\<close>

lemma open_image:
  assumes "block_image data blk ri"
  shows "\<exists>it. bl_NewIterator (Block data) = Ret (Block_Iterator it) \<and> iter_of data blk ri it \<and> \<not> bi_Valid it"
proof -
  let ?n = "of_nat (length ri) :: u32"
  note sz = block_image_sizes [OF assms]
  have ri: "ri \<noteq> []" using assms by (simp add: block_image_def)
  have len: "length (restart_bytes blk ri) = 4 * length ri" for ri by (induction ri) (simp_all add: restart_bytes_def)
  have length_data: "length data = length (blk_bytes blk) + 4 * length ri + 4"
    using assms len by (auto simp: block_image_def)
  have drop_data: "drop (length data - 4) data = EncodeFixed32 ?n"
    using assms len by (auto simp: block_image_def)
  have n: "NumRestarts data (length data) = ?n"
    using DecodeFixed32_bytes [of ?n "[]"] by (simp add: NumRestarts_def drop_data)
  have u: "unat ?n = length ri" "unat (1 + ?n) = length ri + 1"
    using sz(2) by (simp_all add: unat_of_nat_small unat_word_ariths)
  have pos: "0 < ?n" using u(1) ri by (simp add: word_less_nat_alt)
  have blk: "Block data = \<lparr>bl_data = data, bl_size = length data, bl_restart_offset = of_nat (length (blk_bytes blk))\<rparr>"
    using u by (simp add: Block_def Let_def length_data n [unfolded length_data])
  show ?thesis
    using pos n length_data assms
    by (auto simp: blk bl_NewIterator_def Iter_def Let_def iter_of_def bi_Valid_def)
qed

end
