(* ===== verification/Ldb_Iterator.thy ===== *)
theory Ldb_Iterator
  imports Ldb_Dbformat
begin

text \<open>
  leveldb, \<open>include/leveldb/iterator.h\<close>, \<open>table/iterator.cc\<close> and \<open>table/iterator_wrapper.h\<close>: the interface of
  iterators. An iterator is a state with the record of its virtual functions. The locale \<open>iterator_contract\<close> is
  what the interface promises: the state stands at a position of a strictly sorted list, or at its end when
  it is not valid. The wrapper that caches \<open>Valid\<close> and \<open>key\<close> keeps the contract.
\<close>

section \<open>The interface\<close>

type_synonym pair = "slice \<times> slice"

record 's iter_ops =
  io_Valid :: "'s \<Rightarrow> bool"
  io_SeekToFirst :: "'s \<Rightarrow> 's run"
  io_SeekToLast :: "'s \<Rightarrow> 's run"
  io_Seek :: "slice \<Rightarrow> 's \<Rightarrow> 's run"
  io_Next :: "'s \<Rightarrow> 's run"
  io_Prev :: "'s \<Rightarrow> 's run"
  io_key :: "'s \<Rightarrow> slice run"
  io_value :: "'s \<Rightarrow> slice run"
  io_status :: "'s \<Rightarrow> status run"

text \<open>The cleanup functions: the first one is a field of the iterator, the others are linked behind it.\<close>

definition RegisterCleanup :: "'f \<Rightarrow> 'f list \<Rightarrow> 'f list" where
  "RegisterCleanup f cleanup = (case cleanup of [] \<Rightarrow> [f] | c # next_ones \<Rightarrow> c # f # next_ones)"

fun Iterator_destroy :: "('d \<Rightarrow> 'd run) list \<Rightarrow> 'd \<Rightarrow> 'd run" where
  "Iterator_destroy [] d = Ret d"
| "Iterator_destroy (c # next_ones) d = rbind (c d) (Iterator_destroy next_ones)"

text \<open>The iterator over nothing, with a status.\<close>

definition empty_ops :: "status iter_ops" where
  "empty_ops = \<lparr>io_Valid = (\<lambda>s. False), io_SeekToFirst = Ret, io_SeekToLast = Ret, io_Seek = (\<lambda>target. Ret),
     io_Next = (\<lambda>s. UB), io_Prev = (\<lambda>s. UB), io_key = (\<lambda>s. UB), io_value = (\<lambda>s. UB), io_status = Ret\<rparr>"

text \<open>A loop over iterators in an array.\<close>

fun run_map :: "('a \<Rightarrow> 'b run) \<Rightarrow> 'a list \<Rightarrow> 'b list run" where
  "run_map f [] = Ret []"
| "run_map f (x # xs) = rbind (f x) (\<lambda>y. rbind (run_map f xs) (\<lambda>ys. Ret (y # ys)))"

lemma run_map_all:
  "(\<And>j. j < length xs \<Longrightarrow> \<exists>y. f (xs ! j) = Ret y \<and> Q j y) \<Longrightarrow>
     \<exists>ys. run_map f xs = Ret ys \<and> length ys = length xs \<and> (\<forall>j < length xs. Q j (ys ! j))"
proof (induction xs arbitrary: Q)
  case (Cons x xs)
  obtain y where y: "f x = Ret y" "Q 0 y" using Cons.prems [of 0] by auto
  have "\<exists>y. f (xs ! j) = Ret y \<and> Q (Suc j) y" if "j < length xs" for j
    using Cons.prems [of "Suc j"] that by simp
  then obtain ys where "run_map f xs = Ret ys" "length ys = length xs" "\<forall>j < length xs. Q (Suc j) (ys ! j)"
    using Cons.IH [of "\<lambda>j. Q (Suc j)"] by auto
  then show ?case using y by (auto simp: less_Suc_eq_0_disj)
qed simp

section \<open>The wrapper\<close>

record 's wrapper =
  iw_iter :: "'s option"
  iw_valid :: bool
  iw_cached_key :: slice

definition iw_Update :: "'s iter_ops \<Rightarrow> 's wrapper \<Rightarrow> 's wrapper run" where
  "iw_Update ops w =
     (case iw_iter w of None \<Rightarrow> UB
      | Some s \<Rightarrow>
          let w = w\<lparr>iw_valid := io_Valid ops s\<rparr> in
          if iw_valid w then rbind (io_key ops s) (\<lambda>k. Ret (w\<lparr>iw_cached_key := k\<rparr>)) else Ret w)"

definition iw_Set :: "'s iter_ops \<Rightarrow> 's option \<Rightarrow> 's wrapper \<Rightarrow> 's wrapper run" where
  "iw_Set ops iter w =
     (let w = w\<lparr>iw_iter := iter\<rparr> in
      if iter = None then Ret (w\<lparr>iw_valid := False\<rparr>) else iw_Update ops w)"

definition IteratorWrapper :: "'s wrapper" where
  "IteratorWrapper = \<lparr>iw_iter = None, iw_valid = False, iw_cached_key = []\<rparr>"

definition iw_Valid :: "'s wrapper \<Rightarrow> bool" where
  "iw_Valid w = iw_valid w"

definition iw_key :: "'s wrapper \<Rightarrow> slice run" where
  "iw_key w = (if \<not> iw_Valid w then UB else Ret (iw_cached_key w))"

definition iw_value :: "'s iter_ops \<Rightarrow> 's wrapper \<Rightarrow> slice run" where
  "iw_value ops w =
     (if \<not> iw_Valid w then UB else case iw_iter w of None \<Rightarrow> UB | Some s \<Rightarrow> io_value ops s)"

text \<open>The status of a null iterator is a failed assertion; the clients ask for it only when there is one.\<close>

definition iw_status :: "'s iter_ops \<Rightarrow> 's wrapper \<Rightarrow> status run" where
  "iw_status ops w = (case iw_iter w of None \<Rightarrow> UB | Some s \<Rightarrow> io_status ops s)"

definition iw_move :: "'s iter_ops \<Rightarrow> ('s \<Rightarrow> 's run) \<Rightarrow> 's wrapper \<Rightarrow> 's wrapper run" where
  "iw_move ops f w =
     (case iw_iter w of None \<Rightarrow> UB
      | Some s \<Rightarrow> rbind (f s) (\<lambda>s. iw_Update ops (w\<lparr>iw_iter := Some s\<rparr>)))"

definition iw_Next :: "'s iter_ops \<Rightarrow> 's wrapper \<Rightarrow> 's wrapper run" where
  "iw_Next ops = iw_move ops (io_Next ops)"

definition iw_Prev :: "'s iter_ops \<Rightarrow> 's wrapper \<Rightarrow> 's wrapper run" where
  "iw_Prev ops = iw_move ops (io_Prev ops)"

definition iw_Seek :: "'s iter_ops \<Rightarrow> slice \<Rightarrow> 's wrapper \<Rightarrow> 's wrapper run" where
  "iw_Seek ops k = iw_move ops (io_Seek ops k)"

definition iw_SeekToFirst :: "'s iter_ops \<Rightarrow> 's wrapper \<Rightarrow> 's wrapper run" where
  "iw_SeekToFirst ops = iw_move ops (io_SeekToFirst ops)"

definition iw_SeekToLast :: "'s iter_ops \<Rightarrow> 's wrapper \<Rightarrow> 's wrapper run" where
  "iw_SeekToLast ops = iw_move ops (io_SeekToLast ops)"

section \<open>The contract\<close>

abbreviation keys_less :: "(slice \<Rightarrow> slice \<Rightarrow> int) \<Rightarrow> pair \<Rightarrow> pair \<Rightarrow> bool" where
  "keys_less compare x y \<equiv> compare (fst x) (fst y) < 0"

definition sorted_pairs :: "(slice \<Rightarrow> bool) \<Rightarrow> (slice \<Rightarrow> slice \<Rightarrow> int) \<Rightarrow> pair list \<Rightarrow> bool" where
  "sorted_pairs valid compare kvs \<longleftrightarrow> sorted_wrt (keys_less compare) kvs \<and> (\<forall>x \<in> set kvs. valid (fst x))"

text \<open>The position of the first key that is not before the target.\<close>

definition first_at :: "(slice \<Rightarrow> slice \<Rightarrow> int) \<Rightarrow> slice \<Rightarrow> pair list \<Rightarrow> nat" where
  "first_at compare target kvs = length (takeWhile (\<lambda>x. compare (fst x) target < 0) kvs)"

locale iterator_contract = slice_order valid compare
  for valid :: "slice \<Rightarrow> bool" and compare :: "slice \<Rightarrow> slice \<Rightarrow> int" +
  fixes ops :: "'s iter_ops" and cursor :: "'s \<Rightarrow> pair list \<Rightarrow> nat \<Rightarrow> bool"
  assumes cursor_sorted: "cursor s kvs i \<Longrightarrow> sorted_pairs valid compare kvs"
    and cursor_le: "cursor s kvs i \<Longrightarrow> i \<le> length kvs"
    and Valid_iff: "cursor s kvs i \<Longrightarrow> io_Valid ops s \<longleftrightarrow> i < length kvs"
    and key_at: "cursor s kvs i \<Longrightarrow> i < length kvs \<Longrightarrow> io_key ops s = Ret (fst (kvs ! i))"
    and value_at: "cursor s kvs i \<Longrightarrow> i < length kvs \<Longrightarrow> io_value ops s = Ret (snd (kvs ! i))"
    and status_at: "cursor s kvs i \<Longrightarrow> io_status ops s = Ret Status_OK"
    and SeekToFirst_at: "cursor s kvs i \<Longrightarrow> \<exists>s'. io_SeekToFirst ops s = Ret s' \<and> cursor s' kvs 0"
    and SeekToLast_at: "cursor s kvs i \<Longrightarrow> \<exists>s'. io_SeekToLast ops s = Ret s' \<and> cursor s' kvs (length kvs - 1)"
    and Seek_at: "cursor s kvs i \<Longrightarrow> valid target \<Longrightarrow>
      \<exists>s'. io_Seek ops target s = Ret s' \<and> cursor s' kvs (first_at compare target kvs)"
    and Next_at: "cursor s kvs i \<Longrightarrow> i < length kvs \<Longrightarrow> \<exists>s'. io_Next ops s = Ret s' \<and> cursor s' kvs (Suc i)"
    and Prev_at: "cursor s kvs i \<Longrightarrow> i < length kvs \<Longrightarrow>
      \<exists>s'. io_Prev ops s = Ret s' \<and> cursor s' kvs (if i = 0 then length kvs else i - 1)"

section \<open>Scripts\<close>

text \<open>
  A client of an iterator is a list of moves; after each move it looks at the entry where the iterator stands.
  \<open>cursor_script\<close> is what it must see on a list of pairs: \<open>None\<close> when it moves an iterator that is not valid.
\<close>

datatype move = To_First | To_Last | To_Key slice | To_Next | To_Prev

fun iter_move :: "'s iter_ops \<Rightarrow> move \<Rightarrow> 's \<Rightarrow> 's run" where
  "iter_move ops To_First s = io_SeekToFirst ops s"
| "iter_move ops To_Last s = io_SeekToLast ops s"
| "iter_move ops (To_Key target) s = io_Seek ops target s"
| "iter_move ops To_Next s = io_Next ops s"
| "iter_move ops To_Prev s = io_Prev ops s"

definition iter_look :: "'s iter_ops \<Rightarrow> 's \<Rightarrow> pair option run" where
  "iter_look ops s =
     (if io_Valid ops s then rbind (io_key ops s) (\<lambda>k. rbind (io_value ops s) (\<lambda>v. Ret (Some (k, v)))) else Ret None)"

fun iter_script :: "'s iter_ops \<Rightarrow> move list \<Rightarrow> 's \<Rightarrow> pair option list run" where
  "iter_script ops [] s = Ret []"
| "iter_script ops (mv # mvs) s =
     rbind (iter_move ops mv s) (\<lambda>s. rbind (iter_look ops s) (\<lambda>x. rbind (iter_script ops mvs s) (\<lambda>xs. Ret (x # xs))))"

text \<open>The state that the moves leave behind.\<close>

fun iter_after :: "'s iter_ops \<Rightarrow> move list \<Rightarrow> 's \<Rightarrow> 's run" where
  "iter_after ops [] s = Ret s"
| "iter_after ops (mv # mvs) s = rbind (iter_move ops mv s) (iter_after ops mvs)"

fun cursor_move :: "(slice \<Rightarrow> slice \<Rightarrow> int) \<Rightarrow> pair list \<Rightarrow> move \<Rightarrow> nat \<Rightarrow> nat option" where
  "cursor_move compare kvs To_First i = Some 0"
| "cursor_move compare kvs To_Last i = Some (length kvs - 1)"
| "cursor_move compare kvs (To_Key target) i = Some (first_at compare target kvs)"
| "cursor_move compare kvs To_Next i = (if i < length kvs then Some (Suc i) else None)"
| "cursor_move compare kvs To_Prev i = (if i < length kvs then Some (if i = 0 then length kvs else i - 1) else None)"

fun cursor_script :: "(slice \<Rightarrow> slice \<Rightarrow> int) \<Rightarrow> pair list \<Rightarrow> move list \<Rightarrow> nat \<Rightarrow> pair option list option" where
  "cursor_script compare kvs [] i = Some []"
| "cursor_script compare kvs (mv # mvs) i =
     (case cursor_move compare kvs mv i of None \<Rightarrow> None
      | Some j \<Rightarrow> (case cursor_script compare kvs mvs j of None \<Rightarrow> None
         | Some xs \<Rightarrow> Some ((if j < length kvs then Some (kvs ! j) else None) # xs)))"

fun valid_move :: "(slice \<Rightarrow> bool) \<Rightarrow> move \<Rightarrow> bool" where
  "valid_move valid (To_Key target) = valid target"
| "valid_move valid _ = True"

context iterator_contract begin

lemma look_at: "cursor s kvs i \<Longrightarrow> iter_look ops s = Ret (if i < length kvs then Some (kvs ! i) else None)"
  using Valid_iff [of s kvs i] key_at [of s kvs i] value_at [of s kvs i] by (simp add: iter_look_def)

lemma move_at:
  "cursor s kvs i \<Longrightarrow> valid_move valid mv \<Longrightarrow> cursor_move compare kvs mv i = Some j \<Longrightarrow>
     \<exists>s'. iter_move ops mv s = Ret s' \<and> cursor s' kvs j"
  using SeekToFirst_at [of s kvs i] SeekToLast_at [of s kvs i] Seek_at [of s kvs i] Next_at [of s kvs i] Prev_at [of s kvs i]
  by (cases mv) (auto split: if_splits)

lemma script_at:
  "cursor s kvs i \<Longrightarrow> list_all (valid_move valid) mvs \<Longrightarrow> cursor_script compare kvs mvs i = Some obs \<Longrightarrow>
     iter_script ops mvs s = Ret obs"
proof (induction mvs arbitrary: s i obs)
  case (Cons mv mvs)
  then obtain j xs where j: "cursor_move compare kvs mv i = Some j" "cursor_script compare kvs mvs j = Some xs"
    "obs = (if j < length kvs then Some (kvs ! j) else None) # xs" by (auto split: option.splits)
  obtain s' where "iter_move ops mv s = Ret s'" "cursor s' kvs j" using move_at [OF Cons.prems(1) _ j(1)] Cons.prems(2) by auto
  with Cons.IH [OF this(2) _ j(2)] Cons.prems(2) j(3) look_at [OF this(2)] show ?case by simp
qed simp

lemma after_at:
  "cursor s kvs i \<Longrightarrow> list_all (valid_move valid) mvs \<Longrightarrow> cursor_script compare kvs mvs i = Some obs \<Longrightarrow>
     \<exists>s' j. iter_after ops mvs s = Ret s' \<and> cursor s' kvs j"
proof (induction mvs arbitrary: s i obs)
  case (Cons mv mvs)
  then obtain j xs where j: "cursor_move compare kvs mv i = Some j" "cursor_script compare kvs mvs j = Some xs"
    by (auto split: option.splits)
  obtain s' where "iter_move ops mv s = Ret s'" "cursor s' kvs j" using move_at [OF Cons.prems(1) _ j(1)] Cons.prems(2) by auto
  with Cons.IH [OF this(2) _ j(2)] Cons.prems(2) show ?case by simp
qed auto

end

section \<open>The wrapper keeps the contract\<close>

definition wrapper_ops :: "'s iter_ops \<Rightarrow> 's wrapper iter_ops" where
  "wrapper_ops ops = \<lparr>io_Valid = iw_Valid, io_SeekToFirst = iw_SeekToFirst ops, io_SeekToLast = iw_SeekToLast ops,
     io_Seek = iw_Seek ops, io_Next = iw_Next ops, io_Prev = iw_Prev ops, io_key = iw_key, io_value = iw_value ops,
     io_status = iw_status ops\<rparr>"

lemma wrapper_ops_simps [simp]:
  "io_Valid (wrapper_ops ops) = iw_Valid" "io_SeekToFirst (wrapper_ops ops) = iw_SeekToFirst ops"
  "io_SeekToLast (wrapper_ops ops) = iw_SeekToLast ops" "io_Seek (wrapper_ops ops) = iw_Seek ops"
  "io_Next (wrapper_ops ops) = iw_Next ops" "io_Prev (wrapper_ops ops) = iw_Prev ops"
  "io_key (wrapper_ops ops) = iw_key" "io_value (wrapper_ops ops) = iw_value ops"
  "io_status (wrapper_ops ops) = iw_status ops"
  by (simp_all add: wrapper_ops_def)

definition wrapped :: "('s \<Rightarrow> pair list \<Rightarrow> nat \<Rightarrow> bool) \<Rightarrow> 's wrapper \<Rightarrow> pair list \<Rightarrow> nat \<Rightarrow> bool" where
  "wrapped cursor w kvs i \<longleftrightarrow> (\<exists>s. iw_iter w = Some s \<and> cursor s kvs i \<and> (iw_valid w \<longleftrightarrow> i < length kvs) \<and>
     (i < length kvs \<longrightarrow> iw_cached_key w = fst (kvs ! i)))"

context iterator_contract begin

lemma Update_at: "iw_iter w = Some s \<Longrightarrow> cursor s kvs i \<Longrightarrow> \<exists>w'. iw_Update ops w = Ret w' \<and> wrapped cursor w' kvs i"
  using Valid_iff [of s kvs i] key_at [of s kvs i] by (auto simp: iw_Update_def Let_def wrapped_def)

lemma wrap_move:
  assumes "wrapped cursor w kvs i" "\<And>s. cursor s kvs i \<Longrightarrow> \<exists>s'. f s = Ret s' \<and> cursor s' kvs j"
  shows "\<exists>w'. iw_move ops f w = Ret w' \<and> wrapped cursor w' kvs j"
proof -
  obtain s where s: "iw_iter w = Some s" "cursor s kvs i" using assms(1) by (auto simp: wrapped_def)
  obtain s' where s': "f s = Ret s'" "cursor s' kvs j" using assms(2) [OF s(2)] by auto
  from Update_at [of "w\<lparr>iw_iter := Some s'\<rparr>", OF _ s'(2)] s(1) s'(1) show ?thesis by (simp add: iw_move_def)
qed

lemma wrap_Set: "cursor s kvs i \<Longrightarrow> \<exists>w'. iw_Set ops (Some s) w = Ret w' \<and> wrapped cursor w' kvs i"
  using Update_at [of "w\<lparr>iw_iter := Some s\<rparr>"] by (simp add: iw_Set_def)

lemma wrapper_contract: "iterator_contract valid compare (wrapper_ops ops) (wrapped cursor)"
proof unfold_locales
  fix w kvs i target
  assume w: "wrapped cursor w kvs i"
  then obtain s where s: "iw_iter w = Some s" "cursor s kvs i" "iw_valid w \<longleftrightarrow> i < length kvs"
    "i < length kvs \<longrightarrow> iw_cached_key w = fst (kvs ! i)" by (auto simp: wrapped_def)
  show "sorted_pairs valid compare kvs" "i \<le> length kvs" using cursor_sorted cursor_le s(2) by auto
  show "io_Valid (wrapper_ops ops) w \<longleftrightarrow> i < length kvs" using s(3) by (simp add: iw_Valid_def)
  show "i < length kvs \<Longrightarrow> io_key (wrapper_ops ops) w = Ret (fst (kvs ! i))"
    using s by (simp add: iw_key_def iw_Valid_def)
  show "i < length kvs \<Longrightarrow> io_value (wrapper_ops ops) w = Ret (snd (kvs ! i))"
    using s value_at by (simp add: iw_value_def iw_Valid_def)
  show "io_status (wrapper_ops ops) w = Ret Status_OK" using s status_at by (simp add: iw_status_def)
  show "\<exists>w'. io_SeekToFirst (wrapper_ops ops) w = Ret w' \<and> wrapped cursor w' kvs 0"
    unfolding wrapper_ops_simps iw_SeekToFirst_def by (rule wrap_move [OF w SeekToFirst_at])
  show "\<exists>w'. io_SeekToLast (wrapper_ops ops) w = Ret w' \<and> wrapped cursor w' kvs (length kvs - 1)"
    unfolding wrapper_ops_simps iw_SeekToLast_def by (rule wrap_move [OF w SeekToLast_at])
  show "valid target \<Longrightarrow> \<exists>w'. io_Seek (wrapper_ops ops) target w = Ret w' \<and> wrapped cursor w' kvs (first_at compare target kvs)"
    unfolding wrapper_ops_simps iw_Seek_def by (rule wrap_move [OF w Seek_at])
  show "i < length kvs \<Longrightarrow> \<exists>w'. io_Next (wrapper_ops ops) w = Ret w' \<and> wrapped cursor w' kvs (Suc i)"
    unfolding wrapper_ops_simps iw_Next_def by (rule wrap_move [OF w Next_at])
  show "i < length kvs \<Longrightarrow> \<exists>w'. io_Prev (wrapper_ops ops) w = Ret w' \<and> wrapped cursor w' kvs (if i = 0 then length kvs else i - 1)"
    unfolding wrapper_ops_simps iw_Prev_def by (rule wrap_move [OF w Prev_at])
qed

end

end
