(* ===== verification/Ldb_Block_Build.thy ===== *)
theory Ldb_Block_Build
  imports Ldb_Block_Iter Ldb_Iterator
begin

text \<open>
  What leveldb's block builder writes is read back by the iterator of a block: \<open>build_block\<close> is a client that
  adds sorted keys and finishes, \<open>block_scan\<close>, \<open>block_scan_back\<close> and \<open>block_scan_from\<close> are the loops over
  a block with \<open>Next\<close>, with \<open>Prev\<close> and after \<open>Seek\<close>.
\<close>

section \<open>Clients of a block\<close>

fun bb_Add_all :: "(slice \<Rightarrow> slice \<Rightarrow> int) \<Rightarrow> int \<Rightarrow> pair list \<Rightarrow> block_builder \<Rightarrow> block_builder run" where
  "bb_Add_all compare block_restart_interval [] b = Ret b"
| "bb_Add_all compare block_restart_interval ((key, value) # kvs) b =
     rbind (bb_Add compare block_restart_interval key value b) (bb_Add_all compare block_restart_interval kvs)"

definition build_block :: "(slice \<Rightarrow> slice \<Rightarrow> int) \<Rightarrow> int \<Rightarrow> pair list \<Rightarrow> slice run" where
  "build_block compare block_restart_interval kvs =
     rbind (BlockBuilder block_restart_interval) (\<lambda>b.
       rbind (bb_Add_all compare block_restart_interval kvs b) (\<lambda>b. Ret (fst (bb_Finish b))))"

fun bi_scan :: "(block_iter \<Rightarrow> block_iter run) \<Rightarrow> nat \<Rightarrow> block_iter \<Rightarrow> (status \<times> pair list) run" where
  "bi_scan move 0 it = Fuel_Out"
| "bi_scan move (Suc fuel) it =
     (if \<not> bi_Valid it then Ret (bi_status it, [])
      else rbind (bi_get_key it) (\<lambda>k. rbind (bi_get_value it) (\<lambda>v.
        rbind (move it) (\<lambda>it. rbind (bi_scan move fuel it) (\<lambda>(s, kvs). Ret (s, (k, v) # kvs))))))"

definition scan_with ::
  "(block_iter \<Rightarrow> block_iter run) \<Rightarrow> (block_iter \<Rightarrow> block_iter run) \<Rightarrow> slice \<Rightarrow> (status \<times> pair list) run" where
  "scan_with start move data =
     rbind (bl_NewIterator (Block data)) (\<lambda>i. case i of
       Error_Iterator s \<Rightarrow> Ret (s, [])
     | Empty_Iterator \<Rightarrow> Ret (Status_OK, [])
     | Block_Iterator it \<Rightarrow> rbind (start it) (bi_scan move (bi_fuel it)))"

definition block_scan :: "slice \<Rightarrow> (status \<times> pair list) run" where
  "block_scan = scan_with bi_SeekToFirst bi_Next"

definition block_scan_back :: "slice \<Rightarrow> (status \<times> pair list) run" where
  "block_scan_back = scan_with bi_SeekToLast bi_Prev"

definition block_scan_from :: "(slice \<Rightarrow> slice \<Rightarrow> int) \<Rightarrow> slice \<Rightarrow> slice \<Rightarrow> (status \<times> pair list) run" where
  "block_scan_from compare target = scan_with (bi_Seek compare target) bi_Next"

section \<open>The builder makes a block\<close>

definition built :: "int \<Rightarrow> block_builder \<Rightarrow> entry list \<Rightarrow> nat list \<Rightarrow> bool" where
  "built interval b blk ri \<longleftrightarrow>
     bb_buffer b = blk_bytes blk \<and> bb_restarts b = map (\<lambda>i. of_nat (offset blk i)) ri \<and>
     chain [] blk \<and> ri \<noteq> [] \<and> hd ri = 0 \<and>
     (if blk = [] then ri = [0] else \<forall>i \<in> set ri. i < length blk \<and> shared_of (blk ! i) = 0) \<and>
     \<not> bb_finished b \<and> 0 \<le> bb_counter b \<and> bb_counter b \<le> interval \<and>
     bb_last_key b = (if blk = [] then [] else key_of (last blk)) \<and> (blk = [] \<longrightarrow> bb_counter b = 0)"

lemma shared_loop_prefix: "shared_loop a b n = n + common_prefix a b"
  by (induction a b n rule: shared_loop.induct) simp_all

lemma common_prefix_le: "common_prefix a b \<le> length a" "common_prefix a b \<le> length b"
  by (induction a b rule: common_prefix.induct) auto

lemma common_prefix_take: "take (common_prefix a b) a = take (common_prefix a b) b"
  by (induction a b rule: common_prefix.induct) auto

lemma chain_snoc:
  "chain prev (blk @ [e]) \<longleftrightarrow> chain prev blk \<and> shared_of e \<le> length (if blk = [] then prev else key_of (last blk)) \<and>
     shared_of e \<le> length (key_of e) \<and>
     take (shared_of e) (if blk = [] then prev else key_of (last blk)) = take (shared_of e) (key_of e)"
  by (induction blk arbitrary: prev) auto

lemma offset_snoc: "i \<le> length blk \<Longrightarrow> offset (blk @ [e]) i = offset blk i"
  by (simp add: offset_def)

text \<open>The bytes \<open>Add\<close> appends, with the prefix it shares with the last key.\<close>

lemma bb_Add_bytes:
  assumes "\<not> bb_finished b" "bb_counter b \<le> interval" "bb_buffer b = [] \<or> compare key (bb_last_key b) > 0"
  defines "sh \<equiv> (if bb_counter b < interval then common_prefix (bb_last_key b) key else 0)"
  shows "bb_Add compare interval key value b = Ret (b\<lparr>bb_buffer := bb_buffer b @ entry_bytes (sh, key, value),
    bb_restarts := bb_restarts b @ (if bb_counter b < interval then [] else [of_nat (length (bb_buffer b))]),
    bb_counter := (if bb_counter b < interval then bb_counter b + 1 else 1), bb_last_key := key\<rparr>)"
proof -
  have sh: "sh \<le> length key" "sh \<le> length (bb_last_key b)" "take sh (bb_last_key b) = take sh key"
    using common_prefix_le common_prefix_take by (auto simp: sh_def)
  then have key: "resize sh (bb_last_key b) @ take (length key - sh) (drop sh key) = key" "take (length key - sh) (drop sh key) = drop sh key"
    by (simp_all add: resize_def)
  show ?thesis
  proof (cases "bb_counter b < interval")
    case True
    then have "sh = common_prefix (bb_last_key b) key" by (simp add: sh_def)
    with True key assms(1-3) show ?thesis
      by (simp add: bb_Add_def shared_loop_prefix Let_def entry_bytes_def PutVarint32_def)
  next
    case False
    then have "sh = 0" by (simp add: sh_def)
    with False key assms(1-3) show ?thesis
      by (simp add: bb_Add_def Let_def entry_bytes_def PutVarint32_def resize_def)
  qed
qed

lemma entry_bytes_nonempty: "entry_bytes e \<noteq> []"
  using length_entry_bytes [of e] by auto

lemma blk_bytes_Nil: "blk_bytes blk = [] \<longleftrightarrow> blk = []"
  by (cases blk) (simp_all add: blk_bytes_def entry_bytes_nonempty)

lemma bb_Add_built:
  assumes b: "built interval b blk ri" and "1 \<le> interval" "blk = [] \<or> compare key (key_of (last blk)) > 0"
  shows "\<exists>b' sh ri'. bb_Add compare interval key value b = Ret b' \<and> built interval b' (blk @ [(sh, key, value)]) ri'"
proof -
  define sh where "sh = (if bb_counter b < interval then common_prefix (bb_last_key b) key else 0)"
  define ri' where "ri' = (if bb_counter b < interval then ri else ri @ [length blk])"
  have "bb_buffer b = [] \<or> compare key (bb_last_key b) > 0"
    using assms by (auto simp: built_def blk_bytes_Nil)
  then have "bb_Add compare interval key value b = Ret (b\<lparr>bb_buffer := bb_buffer b @ entry_bytes (sh, key, value),
    bb_restarts := bb_restarts b @ (if bb_counter b < interval then [] else [of_nat (length (bb_buffer b))]),
    bb_counter := (if bb_counter b < interval then bb_counter b + 1 else 1), bb_last_key := key\<rparr>)"
    using b unfolding sh_def by (intro bb_Add_bytes) (simp_all add: built_def)
  with b obtain b' where
    b': "bb_Add compare interval key value b = Ret b'"
      "bb_buffer b' = bb_buffer b @ entry_bytes (sh, key, value)"
      "bb_restarts b' = bb_restarts b @ (if bb_counter b < interval then [] else [of_nat (length (bb_buffer b))])"
      "bb_counter b' = (if bb_counter b < interval then bb_counter b + 1 else 1)" "bb_last_key b' = key"
      "\<not> bb_finished b'"
    by (simp add: built_def)
  have sh: "sh \<le> length key" "sh \<le> length (bb_last_key b)" "take sh (bb_last_key b) = take sh key"
    using common_prefix_le common_prefix_take by (auto simp: sh_def)
  then have "chain [] (blk @ [(sh, key, value)])" using b by (auto simp: chain_snoc built_def split: if_splits)
  moreover have "map (\<lambda>i. of_nat (offset (blk @ [(sh, key, value)]) i)) ri' = bb_restarts b'"
  proof -
    have "\<And>i. i \<in> set ri \<Longrightarrow> i \<le> length blk" using b by (auto simp: built_def split: if_splits)
    then have "map (\<lambda>i. of_nat (offset (blk @ [(sh, key, value)]) i)) ri = bb_restarts b"
      using b by (simp add: built_def offset_snoc)
    moreover have "offset (blk @ [(sh, key, value)]) (length blk) = length (bb_buffer b)"
      using b by (simp add: offset_snoc offset_end built_def)
    ultimately show ?thesis by (simp add: ri'_def b'(3))
  qed
  moreover have "\<forall>i \<in> set ri'. i < length (blk @ [(sh, key, value)]) \<and> shared_of ((blk @ [(sh, key, value)]) ! i) = 0"
  proof (cases "blk = []")
    case True
    then have "bb_counter b = 0" "sh = 0" using b sh(2) by (simp_all add: built_def)
    then show ?thesis using True b \<open>1 \<le> interval\<close> by (simp add: built_def ri'_def)
  next
    case False
    then have "\<forall>i \<in> set ri. i < length blk \<and> shared_of (blk ! i) = 0" using b by (simp add: built_def)
    then show ?thesis by (auto simp: ri'_def nth_append sh_def)
  qed
  moreover have "ri' \<noteq> []" "hd ri' = 0" using b by (auto simp: built_def ri'_def)
  ultimately have "built interval b' (blk @ [(sh, key, value)]) ri'"
    using b b'(2-) \<open>1 \<le> interval\<close> by (simp add: built_def blk_bytes_append blk_bytes_Cons blk_bytes_def)
  with b'(1) show ?thesis by blast
qed

definition pairs_of :: "entry list \<Rightarrow> pair list" where
  "pairs_of blk = map snd blk"

lemma bb_Add_all_built:
  assumes "built interval b blk ri" "1 \<le> interval" "key_order valid compare"
    "sorted_wrt (\<lambda>a b. compare a b < 0) (map fst (pairs_of blk @ kvs))" "\<forall>(k, v) \<in> set (pairs_of blk @ kvs). valid k"
  shows "\<exists>b' blk' ri'. bb_Add_all compare interval kvs b = Ret b' \<and> built interval b' blk' ri' \<and>
    pairs_of blk' = pairs_of blk @ kvs"
  using assms
proof (induction kvs arbitrary: b blk ri)
  case (Cons kv kvs)
  obtain k v where kv: "kv = (k, v)" by fastforce
  have "compare k (key_of (last blk)) > 0" if "blk \<noteq> []"
  proof -
    have l: "snd (last blk) \<in> set (pairs_of blk)" using that by (simp add: pairs_of_def)
    then have "compare (key_of (last blk)) k < 0" using Cons.prems(4) by (simp add: kv sorted_wrt_append)
    moreover have "valid (key_of (last blk))" "valid k" using l Cons.prems(5) kv by (auto simp: case_prod_beta)
    ultimately show ?thesis using key_order.compare_flip [OF Cons.prems(3)] by blast
  qed
  then obtain b' sh ri' where b': "bb_Add compare interval k v b = Ret b'" "built interval b' (blk @ [(sh, k, v)]) ri'"
    using bb_Add_built [OF Cons.prems(1,2)] by blast
  have p: "pairs_of (blk @ [(sh, k, v)]) @ kvs = pairs_of blk @ kv # kvs" by (simp add: pairs_of_def kv)
  from Cons.IH [OF b'(2) Cons.prems(2,3), unfolded p, OF Cons.prems(4,5)] show ?case
    using b'(1) by (simp add: kv)
qed auto

lemma Finish_image:
  assumes "built interval b blk ri" "length (fst (bb_Finish b)) < 2 ^ 32"
  shows "block_image (fst (bb_Finish b)) blk ri" "length (fst (bb_Finish b)) = bb_CurrentSizeEstimate b"
proof -
  have put: "fold (\<lambda>r buf. PutFixed32 buf r) rs buf = buf @ concat (map EncodeFixed32 rs)" for rs buf
    by (induction rs arbitrary: buf) (simp_all add: PutFixed32_def)
  have len: "length (concat (map EncodeFixed32 rs)) = 4 * length rs" for rs by (induction rs) simp_all
  have eq: "fst (bb_Finish b) = blk_bytes blk @ restart_bytes blk ri @ EncodeFixed32 (of_nat (length ri))"
    using assms(1) by (simp add: bb_Finish_def Let_def put built_def) (simp add: PutFixed32_def restart_bytes_def o_def)
  then show "block_image (fst (bb_Finish b)) blk ri"
    using assms by (simp add: block_image_def built_def)
  show "length (fst (bb_Finish b)) = bb_CurrentSizeEstimate b"
    by (simp add: bb_Finish_def Let_def put bb_CurrentSizeEstimate_def) (simp add: PutFixed32_def len)
qed

section \<open>Reading it back\<close>

lemma arrives_status: "arrives data blk ri i it \<Longrightarrow> bi_status it = Status_OK \<and> (bi_Valid it \<longleftrightarrow> i < length blk)"
  using stands_Valid [of data blk ri it i] by (auto simp: arrives_def off_block_def stands_at_def iter_of_def split: if_splits)

lemma scan_Next:
  "arrives data blk ri i it \<Longrightarrow> length blk - i < fuel \<Longrightarrow> bi_scan bi_Next fuel it = Ret (Status_OK, drop i (pairs_of blk))"
proof (induction fuel arbitrary: it i)
  case (Suc fuel)
  note status = arrives_status [OF Suc.prems(1)]
  show ?case
  proof (cases "i < length blk")
    case True
    then have at: "stands_at data blk ri it i" using Suc.prems(1) by (simp add: arrives_def)
    from Next_moves [OF at] obtain it' where it': "bi_Next it = Ret it'" "arrives data blk ri (Suc i) it'"
      by (auto simp: arrives_def)
    have "drop i (pairs_of blk) = snd (blk ! i) # drop (Suc i) (pairs_of blk)"
      using True by (simp add: pairs_of_def flip: Cons_nth_drop_Suc)
    then show ?thesis
      using Suc.IH [OF it'(2)] Suc.prems(2) True status reads_at [OF at] it'(1) by simp
  next
    case False
    then show ?thesis using status by (simp add: pairs_of_def)
  qed
qed simp

lemma scan_Prev:
  "(if i = 0 then off_block data blk ri it else stands_at data blk ri it (i - 1)) \<Longrightarrow> i < fuel \<Longrightarrow>
     bi_scan bi_Prev fuel it = Ret (Status_OK, rev (take i (pairs_of blk)))"
proof (induction fuel arbitrary: it i)
  case (Suc fuel)
  show ?case
  proof (cases i)
    case 0
    then show ?thesis using Suc.prems(1) by (simp add: off_block_def iter_of_def)
  next
    case (Suc j)
    then have at: "stands_at data blk ri it j" using Suc.prems(1) by simp
    from Prev_moves [OF at] obtain it' where it': "bi_Prev it = Ret it'"
      "if j = 0 then off_block data blk ri it' else stands_at data blk ri it' (j - 1)"
      by (auto split: if_splits)
    have "j < length (pairs_of blk)" "pairs_of blk ! j = snd (blk ! j)" using at by (simp_all add: stands_at_def pairs_of_def)
    then show ?thesis
      using Suc.IH [OF it'(2)] Suc.prems(2) \<open>i = Suc j\<close> stands_Valid [OF at] reads_at [OF at] it'(1)
      by (simp add: take_Suc_conv_app_nth)
  qed
qed simp

lemma scan_with_image:
  assumes "block_image data blk ri"
    and "\<And>it. iter_of data blk ri it \<Longrightarrow> \<exists>it'. start it = Ret it' \<and> bi_scan move (bi_fuel it) it' = Ret r"
  shows "scan_with start move data = Ret r"
proof -
  from open_image [OF assms(1)] obtain it where
    it: "bl_NewIterator (Block data) = Ret (Block_Iterator it)" "iter_of data blk ri it" by blast
  from assms(2) [OF it(2)] it(1) show ?thesis by (auto simp: scan_with_def)
qed

lemma scan_image:
  assumes img: "block_image data blk ri"
  shows "block_scan data = Ret (Status_OK, pairs_of blk)"
    "block_scan_back data = Ret (Status_OK, rev (pairs_of blk))"
    "sorted_for compare target blk \<Longrightarrow>
       block_scan_from compare target data = Ret (Status_OK, dropWhile (\<lambda>(k, v). compare k target < 0) (pairs_of blk))"
proof -
  show "block_scan data = Ret (Status_OK, pairs_of blk)"
    unfolding block_scan_def
  proof (rule scan_with_image [OF img])
    fix it assume it: "iter_of data blk ri it"
    from SeekToFirst_first [OF it] obtain it' where "bi_SeekToFirst it = Ret it'" "arrives data blk ri 0 it'"
      by (auto simp: arrives_def split: if_splits)
    with scan_Next [of data blk ri 0 it' "bi_fuel it"] bi_fuel_enough [OF it]
    show "\<exists>it'. bi_SeekToFirst it = Ret it' \<and> bi_scan bi_Next (bi_fuel it) it' = Ret (Status_OK, pairs_of blk)" by simp
  qed
  show "block_scan_back data = Ret (Status_OK, rev (pairs_of blk))"
    unfolding block_scan_back_def
  proof (rule scan_with_image [OF img])
    fix it assume it: "iter_of data blk ri it"
    from SeekToLast_last [OF it] obtain it' where
      "bi_SeekToLast it = Ret it'" "if length blk = 0 then off_block data blk ri it' else stands_at data blk ri it' (length blk - 1)"
      by auto
    with scan_Prev [of "length blk" data blk ri it' "bi_fuel it"] bi_fuel_enough [OF it]
    show "\<exists>it'. bi_SeekToLast it = Ret it' \<and> bi_scan bi_Prev (bi_fuel it) it' = Ret (Status_OK, rev (pairs_of blk))"
      by (simp add: pairs_of_def)
  qed
  assume sorted: "sorted_for compare target blk"
  show "block_scan_from compare target data = Ret (Status_OK, dropWhile (\<lambda>(k, v). compare k target < 0) (pairs_of blk))"
    unfolding block_scan_from_def
  proof (rule scan_with_image [OF img])
    fix it assume it: "iter_of data blk ri it"
    let ?f = "first_not_before compare target blk"
    from Seek_arrives [OF it sorted] obtain it' where
      it': "bi_Seek compare target it = Ret it'" "arrives data blk ri ?f it'" by auto
    have "drop ?f (pairs_of blk) = dropWhile (\<lambda>(k, v). compare k target < 0) (pairs_of blk)"
      by (simp add: first_not_before_def pairs_of_def dropWhile_eq_drop takeWhile_map o_def case_prod_beta)
    then show "\<exists>it'. bi_Seek compare target it = Ret it' \<and> bi_scan bi_Next (bi_fuel it) it' =
        Ret (Status_OK, dropWhile (\<lambda>(k, v). compare k target < 0) (pairs_of blk))"
      using scan_Next [OF it'(2), of "bi_fuel it"] bi_fuel_enough [OF it] it'(1) by simp
  qed
qed

lemma build_block_image:
  assumes "key_order valid compare" "1 \<le> interval"
    "sorted_wrt (\<lambda>a b. compare a b < 0) (map fst kvs)" "\<forall>(k, v) \<in> set kvs. valid k"
  obtains b blk ri where "build_block compare interval kvs = Ret (fst (bb_Finish b))" "built interval b blk ri" "pairs_of blk = kvs"
proof -
  define b0 where "b0 = \<lparr>bb_buffer = [], bb_restarts = [0], bb_counter = 0, bb_finished = False, bb_last_key = []\<rparr>"
  have "built interval b0 [] [0]" using assms(2) by (simp add: built_def b0_def blk_bytes_def)
  from bb_Add_all_built [OF this assms(2,1), of kvs] assms(3,4) obtain b blk ri where
    "bb_Add_all compare interval kvs b0 = Ret b" "built interval b blk ri" "pairs_of blk = kvs"
    by (auto simp: pairs_of_def)
  with that assms(2) show ?thesis by (simp add: build_block_def BlockBuilder_def b0_def)
qed

lemma sorted_for_pairs:
  assumes "key_order valid compare" "sorted_wrt (\<lambda>a b. compare a b < 0) (map fst (pairs_of blk))"
    "\<forall>(k, v) \<in> set (pairs_of blk). valid k" "valid target"
  shows "sorted_for compare target blk"
  using key_order.sorted_first [OF assms(1), where key = "\<lambda>e. fst (snd e)" and xs = blk and target = target] assms(2-)
  by (auto simp: sorted_for_def first_not_before_def pairs_of_def sorted_wrt_map o_def case_prod_beta)

section \<open>The iterator of a block keeps the contract of iterators\<close>

definition block_ops :: "(slice \<Rightarrow> slice \<Rightarrow> int) \<Rightarrow> block_iter iter_ops" where
  "block_ops compare = \<lparr>io_Valid = bi_Valid, io_SeekToFirst = bi_SeekToFirst, io_SeekToLast = bi_SeekToLast,
     io_Seek = bi_Seek compare, io_Next = bi_Next, io_Prev = bi_Prev, io_key = bi_get_key, io_value = bi_get_value,
     io_status = (\<lambda>it. Ret (bi_status it))\<rparr>"

definition block_cursor ::
  "(slice \<Rightarrow> bool) \<Rightarrow> (slice \<Rightarrow> slice \<Rightarrow> int) \<Rightarrow> block_iter \<Rightarrow> pair list \<Rightarrow> nat \<Rightarrow> bool" where
  "block_cursor valid compare it kvs i \<longleftrightarrow> sorted_pairs valid compare kvs \<and> i \<le> length kvs \<and>
     (\<exists>data blk ri. pairs_of blk = kvs \<and> arrives data blk ri i it)"

lemma arrives_iter: "arrives data blk ri i it \<Longrightarrow> iter_of data blk ri it"
  by (auto simp: arrives_def stands_at_def off_block_def split: if_splits)

lemma block_contract:
  assumes "key_order valid compare"
  shows "iterator_contract valid compare (block_ops compare) (block_cursor valid compare)"
proof (rule iterator_contract.intro [OF slice_order.intro [OF assms]], unfold_locales)
  fix it kvs i target
  assume cur: "block_cursor valid compare it kvs i"
  then obtain data blk ri where c: "sorted_pairs valid compare kvs" "i \<le> length kvs" "kvs = pairs_of blk"
    "arrives data blk ri i it" by (auto simp: block_cursor_def)
  note it = arrives_iter [OF c(4)]
  have len: "length kvs = length blk" by (simp add: c(3) pairs_of_def)
  have curI: "block_cursor valid compare it' kvs j" if "arrives data blk ri j it'" "j \<le> length kvs" for it' j
    using that c by (auto simp: block_cursor_def)
  show "sorted_pairs valid compare kvs" "i \<le> length kvs" by (fact c)+
  show "io_Valid (block_ops compare) it \<longleftrightarrow> i < length kvs" "io_status (block_ops compare) it = Ret Status_OK"
    using arrives_status [OF c(4)] len by (simp_all add: block_ops_def)
  show "\<exists>it'. io_SeekToFirst (block_ops compare) it = Ret it' \<and> block_cursor valid compare it' kvs 0"
    using SeekToFirst_first [OF it] by (auto simp: block_ops_def arrives_def intro!: curI split: if_splits)
  show "\<exists>it'. io_SeekToLast (block_ops compare) it = Ret it' \<and> block_cursor valid compare it' kvs (length kvs - 1)"
    using SeekToLast_last [OF it] by (cases "blk = []") (auto simp: block_ops_def arrives_def len intro!: curI)
  show "\<exists>it'. io_Seek (block_ops compare) target it = Ret it' \<and> block_cursor valid compare it' kvs (first_at compare target kvs)"
    if "valid target"
  proof -
    have "sorted_for compare target blk"
      using sorted_for_pairs [OF assms _ _ that] c(1,3) by (auto simp: sorted_pairs_def sorted_wrt_map case_prod_beta)
    moreover have "first_at compare target kvs = first_not_before compare target blk"
      by (simp add: first_at_def first_not_before_def c(3) pairs_of_def takeWhile_map o_def)
    moreover have "first_at compare target kvs \<le> length kvs" by (simp add: first_at_def length_takeWhile_le)
    ultimately show ?thesis using Seek_arrives [OF it, of compare target] by (auto simp: block_ops_def intro!: curI)
  qed
  assume i: "i < length kvs"
  then have at: "stands_at data blk ri it i" using c(4) len by (simp add: arrives_def)
  show "io_key (block_ops compare) it = Ret (fst (kvs ! i))" "io_value (block_ops compare) it = Ret (snd (kvs ! i))"
    using reads_at [OF at] i len by (simp_all add: block_ops_def c(3) pairs_of_def)
  show "\<exists>it'. io_Next (block_ops compare) it = Ret it' \<and> block_cursor valid compare it' kvs (Suc i)"
    using Next_moves [OF at] i by (auto simp: block_ops_def arrives_def len intro!: curI split: if_splits)
  show "\<exists>it'. io_Prev (block_ops compare) it = Ret it' \<and> block_cursor valid compare it' kvs (if i = 0 then length kvs else i - 1)"
  proof -
    have "i - 1 < length blk" using i len by simp
    then show ?thesis
      using Prev_moves [OF at] by (cases "i = 0") (auto simp: block_ops_def arrives_def len intro!: curI)
  qed
qed

interpretation bytewise_block: iterator_contract "\<lambda>_. True" slice_compare "block_ops slice_compare"
  "block_cursor (\<lambda>_. True) slice_compare"
  by (rule block_contract [OF bytewise.key_order_axioms])

section \<open>Properties\<close>

text \<open>C23: A block built from strictly sorted keys, for every restart interval, holds its estimated size and is read
back, forwards and backwards, as the same keys and values, with no error and no read outside it.\<close>

theorem block_roundtrip:
  assumes "key_order valid compare" "1 \<le> interval"
    "sorted_wrt (\<lambda>a b. compare a b < 0) (map fst kvs)" "\<forall>(k, v) \<in> set kvs. valid k"
  shows "\<exists>data. build_block compare interval kvs = Ret data \<and>
    (length data < 2 ^ 32 \<longrightarrow>
       block_scan data = Ret (Status_OK, kvs) \<and> block_scan_back data = Ret (Status_OK, rev kvs))"
proof -
  obtain b blk ri where b: "build_block compare interval kvs = Ret (fst (bb_Finish b))" "built interval b blk ri" "pairs_of blk = kvs"
    using build_block_image [OF assms] by blast
  with Finish_image(1) [OF b(2)] scan_image(1,2) [of "fst (bb_Finish b)" blk ri] show ?thesis by auto
qed

lemma block_roundtrip_witness:
  "\<exists>data. build_block slice_compare 2 [([1, 2], [7]), ([1, 3], []), ([2], [8, 9])] = Ret data \<and>
    (length data < 2 ^ 32 \<longrightarrow>
       block_scan data = Ret (Status_OK, [([1, 2], [7]), ([1, 3], []), ([2], [8, 9])]) \<and>
       block_scan_back data = Ret (Status_OK, rev [([1, 2], [7]), ([1, 3], []), ([2], [8, 9])]))"
  by (rule block_roundtrip [OF bytewise.key_order_axioms]) simp_all

text \<open>C24: Seek in a block built from strictly sorted keys stops at the first key that is not before the target.\<close>

theorem block_seek:
  assumes "key_order valid compare" "1 \<le> interval"
    "sorted_wrt (\<lambda>a b. compare a b < 0) (map fst kvs)" "\<forall>(k, v) \<in> set kvs. valid k" "valid target"
  shows "\<exists>data. build_block compare interval kvs = Ret data \<and>
    (length data < 2 ^ 32 \<longrightarrow>
       block_scan_from compare target data = Ret (Status_OK, dropWhile (\<lambda>(k, v). compare k target < 0) kvs))"
proof -
  obtain b blk ri where b: "build_block compare interval kvs = Ret (fst (bb_Finish b))" "built interval b blk ri" "pairs_of blk = kvs"
    using build_block_image [OF assms(1-4)] by blast
  have "sorted_for compare target blk" using sorted_for_pairs assms b(3) by blast
  with b Finish_image(1) [OF b(2)] scan_image(3) [of "fst (bb_Finish b)" blk ri compare target] show ?thesis by auto
qed

lemma block_seek_witness:
  "\<exists>data. build_block slice_compare 2 [([1, 2], [7]), ([1, 3], []), ([2], [8, 9])] = Ret data \<and>
    (length data < 2 ^ 32 \<longrightarrow>
       block_scan_from slice_compare [1, 3] data =
         Ret (Status_OK, dropWhile (\<lambda>(k, v). slice_compare k [1, 3] < 0) [([1, 2], [7]), ([1, 3], []), ([2], [8, 9])]))"
  by (rule block_seek [OF bytewise.key_order_axioms]) simp_all

text \<open>
  The bound check of an entry adds two 32-bit lengths, and the sum wraps: a block of 15 bytes whose entry says
  that its key has \<open>2 ^ 32 - 1\<close> bytes and its value one passes it, and the key is read past the end of the block.
\<close>

lemma entry_length_wraps:
  "block_scan (EncodeVarint32 0 @ EncodeVarint32 0xFFFFFFFF @ EncodeVarint32 1 @ EncodeFixed32 0 @ EncodeFixed32 1) = UB"
proof -
  define entry where "entry = EncodeVarint32 0 @ EncodeVarint32 0xFFFFFFFF @ EncodeVarint32 1"
  have 7: "length entry = 7" unfolding entry_def by code_simp
  have dec: "DecodeEntry entry = Some (0, 0xFFFFFFFF, 1, [])"
    using DecodeEntry_varints [where n = "0xFFFFFFFF" and v = 1 and rest = "[]" and s = 0] by (simp add: entry_def)
  define data where "data = entry @ EncodeFixed32 0 @ EncodeFixed32 1"
  have 15: "length data = 15" by (simp add: data_def 7)
  have fixed: "DecodeFixed32 (drop 7 data) = 0" "DecodeFixed32 (drop 11 data) = 1"
    using DecodeFixed32_bytes [of 0 "EncodeFixed32 1"] DecodeFixed32_bytes [of 1 "[]"] by (simp_all add: data_def 7)
  have blk: "Block data = \<lparr>bl_data = data, bl_size = 15, bl_restart_offset = 7\<rparr>"
    by (simp add: Block_def NumRestarts_def 15 fixed)
  define it where "it = \<lparr>bi_data = data, bi_restarts = 7, bi_num_restarts = 1, bi_current = 7, bi_restart_index = 1,
    bi_key = [], bi_value_pos = 0, bi_value_len = 0, bi_status = Status_OK\<rparr>"
  have iter: "bl_NewIterator (Block data) = Ret (Block_Iterator it)"
    by (simp add: bl_NewIterator_def blk NumRestarts_def fixed Iter_def it_def)
  have "take 7 data = entry" by (simp add: data_def 7)
  then have "bi_SeekToFirst it = UB"
    using fixed dec
    by (simp add: bi_SeekToFirst_def SeekToRestartPoint_def GetRestartPoint_def it_def 15 ParseNextKey_def NextEntryOffset_def Let_def)
  then show ?thesis
    using iter by (simp add: block_scan_def scan_with_def data_def entry_def)
qed

end
