(* ===== verification/Ldb_Block_Total.thy ===== *)
theory Ldb_Block_Total
  imports Ldb_Block_Build
begin

text \<open>
  The loops of leveldb's block iterator end on every block, also on a corrupted one: \<open>ends\<close> says that a run
  returns or is undefined, but does not use up its fuel. The offset of the next entry grows with each parsed
  entry, and \<open>Prev\<close> moves to a smaller offset.
\<close>

definition ends :: "'a run \<Rightarrow> ('a \<Rightarrow> bool) \<Rightarrow> bool" where
  "ends m Q \<longleftrightarrow> (case m of Ret x \<Rightarrow> Q x | UB \<Rightarrow> True | Fuel_Out \<Rightarrow> False)"

lemma ends_simps [simp]: "ends (Ret x) Q = Q x" "ends UB Q" "\<not> ends Fuel_Out Q"
  by (simp_all add: ends_def)

lemma ends_rbind: "ends m P \<Longrightarrow> (\<And>x. P x \<Longrightarrow> ends (f x) Q) \<Longrightarrow> ends (rbind m f) Q"
  by (cases m) simp_all

lemma ends_mono: "ends m P \<Longrightarrow> (\<And>x. P x \<Longrightarrow> Q x) \<Longrightarrow> ends m Q"
  by (cases m) simp_all

lemma ends_fuel: "ends m Q \<Longrightarrow> m \<noteq> Fuel_Out"
  by auto

text \<open>What the iterator of any block keeps; the block may hold anything.\<close>

definition iter_ok :: "block_iter \<Rightarrow> bool" where
  "iter_ok it \<longleftrightarrow> length (bi_data it) < 2 ^ 32 \<and> 0 < bi_num_restarts it \<and>
     unat (bi_restarts it) + 4 * unat (bi_num_restarts it) \<le> length (bi_data it) \<and>
     bi_restart_index it \<le> bi_num_restarts it"

definition advanced :: "block_iter \<Rightarrow> bool" where
  "advanced it \<longleftrightarrow> (bi_Valid it \<longrightarrow> bi_current it < NextEntryOffset it)"

definition same_block :: "block_iter \<Rightarrow> block_iter \<Rightarrow> bool" where
  "same_block it it' \<longleftrightarrow> bi_data it' = bi_data it \<and> bi_restarts it' = bi_restarts it \<and> bi_num_restarts it' = bi_num_restarts it"

lemma GetRestartPoint_ends: "ends (GetRestartPoint it i) (\<lambda>r. GetRestartPoint it i = Ret r)"
  by (simp add: GetRestartPoint_def Let_def)

lemma restart_index_loop_ends:
  "unat (bi_num_restarts it) < 2 ^ 30 \<Longrightarrow> bi_restart_index it \<le> bi_num_restarts it \<Longrightarrow> unat (bi_num_restarts it) - unat (bi_restart_index it) < fuel \<Longrightarrow>
     ends (restart_index_loop fuel it) (\<lambda>it'. \<exists>idx. it' = it\<lparr>bi_restart_index := idx\<rparr> \<and> idx \<le> bi_num_restarts it)"
proof (induction fuel arbitrary: it)
  case (Suc fuel)
  let ?it = "it\<lparr>bi_restart_index := bi_restart_index it + 1\<rparr>"
  have self: "\<exists>idx. it = it\<lparr>bi_restart_index := idx\<rparr> \<and> idx \<le> bi_num_restarts it"
    using Suc.prems(2) by (intro exI [of _ "bi_restart_index it"]) simp
  show ?case
  proof (cases "bi_restart_index it + 1 < bi_num_restarts it")
    case True
    have "unat (bi_restart_index it + 1) = unat (bi_restart_index it) + 1"
      using Suc.prems(1,2) by (simp add: unat_word_ariths word_le_nat_alt)
    then have "unat (bi_num_restarts ?it) - unat (bi_restart_index ?it) < fuel" "bi_restart_index ?it \<le> bi_num_restarts ?it"
      using True Suc.prems by (simp_all add: word_less_nat_alt word_le_nat_alt)
    from ends_mono [OF Suc.IH [OF _ this(2,1)], of "\<lambda>it'. \<exists>idx. it' = it\<lparr>bi_restart_index := idx\<rparr> \<and> idx \<le> bi_num_restarts it"]
    show ?thesis using self True Suc.prems(1)
      by (auto intro!: ends_rbind [OF GetRestartPoint_ends])
  qed (use self in simp)
qed simp

lemma GetVarint32Ptr_shorter: "GetVarint32Ptr p = Some (v, q) \<Longrightarrow> length q < length p"
proof -
  have "varint32_ptr_loop shift r p = Some (v, q) \<Longrightarrow> length q < length p" for shift r p
    by (induction shift r p rule: varint32_ptr_loop.induct) (auto simp: Let_def split: if_splits)
  then show "GetVarint32Ptr p = Some (v, q) \<Longrightarrow> length q < length p" by (simp add: GetVarint32Ptr_loop)
qed

lemma DecodeEntry_progress:
  assumes "DecodeEntry p = Some (s, n, v, rest)"
  shows "length rest < length p" "n + v \<le> of_nat (length rest)"
proof -
  show "n + v \<le> of_nat (length rest)"
    using assms by (auto simp: DecodeEntry_def Let_def not_less split: if_splits option.splits)
  show "length rest < length p"
    using assms by (auto simp: DecodeEntry_def Let_def split: if_splits option.splits dest!: GetVarint32Ptr_shorter)
qed

lemma ParseNextKey_ends:
  assumes "iter_ok it"
  shows "ends (ParseNextKey it) (\<lambda>(more, it'). iter_ok it' \<and> advanced it' \<and> same_block it it' \<and>
    (more \<longrightarrow> bi_current it' = NextEntryOffset it \<and> bi_Valid it') \<and> (\<not> more \<longrightarrow> \<not> bi_Valid it'))"
proof -
  let ?c = "NextEntryOffset it" and ?limit = "unat (bi_restarts it)"
  have ok: "length (bi_data it) < 2 ^ 32" "?limit \<le> length (bi_data it)" "unat (bi_num_restarts it) < 2 ^ 30"
    "bi_restart_index it \<le> bi_num_restarts it" using assms by (auto simp: iter_ok_def)
  show ?thesis
  proof (cases "?limit \<le> unat ?c")
    case True
    then show ?thesis
      using assms by (simp add: ParseNextKey_def Let_def iter_ok_def advanced_def same_block_def bi_Valid_def)
  next
    case less: False
    have bad: "iter_ok (CorruptionError it')" "advanced (CorruptionError it')" "\<not> bi_Valid (CorruptionError it')" "same_block it (CorruptionError it')"
      if "it' = it\<lparr>bi_current := ?c\<rparr>" for it'
      using assms that by (simp_all add: CorruptionError_def iter_ok_def advanced_def same_block_def bi_Valid_def)
    show ?thesis
    proof (cases "DecodeEntry (drop (unat ?c) (take ?limit (bi_data it)))")
      case None
      then show ?thesis using less bad by (simp add: ParseNextKey_def Let_def)
    next
      case (Some e)
      obtain s n v rest where e: "e = (s, n, v, rest)" by (cases e) auto
      define p where "p = ?limit - length rest"
      note progress = DecodeEntry_progress [OF Some [unfolded e]]
      have p: "unat ?c < p" "p + length rest = ?limit" using progress(1) less ok(2) by (simp_all add: p_def)
      define it2 where "it2 = it\<lparr>bi_current := ?c, bi_key := resize (unat s) (bi_key it) @ take (unat n) (drop p (bi_data it)),
        bi_value_pos := p + unat n, bi_value_len := unat v\<rparr>"
      have parse: "ParseNextKey it =
        (if length (bi_key it) < unat s then Ret (False, CorruptionError (it\<lparr>bi_current := ?c\<rparr>))
         else if length (bi_data it) < p + unat n then UB
         else rbind (restart_index_loop (unat (bi_num_restarts it) + 1) it2) (\<lambda>it. Ret (True, it)))"
        using less by (simp add: ParseNextKey_def Let_def Some e p_def it2_def del: restart_index_loop.simps)
      have "unat (of_nat (length rest) :: u32) = length rest" using p(2) ok(1,2) by (simp add: unat_of_nat_small)
      then have "unat (n + v) \<le> length rest" using progress(2) by (simp add: word_le_nat_alt)
      moreover have "unat (of_nat p :: u32) = p" using p(2) ok(1,2) by (simp add: unat_of_nat_small)
      ultimately have "unat (of_nat p + (n + v)) = p + unat (n + v)"
        using p(2) ok(1,2) by (simp add: unat_word_ariths(1) [of "of_nat p"])
      moreover have "NextEntryOffset it2 = of_nat p + (n + v)" by (simp add: NextEntryOffset_def it2_def add.assoc)
      ultimately have grows: "?c < NextEntryOffset it2" using p(1) by (simp add: word_less_nat_alt)
      have ok2: "iter_ok (it2\<lparr>bi_restart_index := idx\<rparr>) \<and> advanced (it2\<lparr>bi_restart_index := idx\<rparr>)" if "idx \<le> bi_num_restarts it" for idx
        using assms that grows by (simp add: iter_ok_def advanced_def NextEntryOffset_def it2_def)
      have eqs: "bi_current it2 = ?c" "same_block it (it2\<lparr>bi_restart_index := idx\<rparr>)"
        "bi_Valid (it2\<lparr>bi_restart_index := idx\<rparr>)" for idx
        using less by (simp_all add: same_block_def it2_def bi_Valid_def word_less_nat_alt)
      have "unat (bi_num_restarts it2) < 2 ^ 30" "bi_restart_index it2 \<le> bi_num_restarts it2"
        "unat (bi_num_restarts it2) - unat (bi_restart_index it2) < unat (bi_num_restarts it) + 1"
        using ok by (simp_all add: it2_def)
      from restart_index_loop_ends [OF this]
      have loop: "ends (restart_index_loop (unat (bi_num_restarts it) + 1) it2)
          (\<lambda>it'. \<exists>idx. it' = it2\<lparr>bi_restart_index := idx\<rparr> \<and> idx \<le> bi_num_restarts it)" by (simp add: it2_def)
      have "ends (rbind (restart_index_loop (unat (bi_num_restarts it) + 1) it2) (\<lambda>it. Ret (True, it)))
        (\<lambda>(more, it'). iter_ok it' \<and> advanced it' \<and> same_block it it' \<and>
          (more \<longrightarrow> bi_current it' = ?c \<and> bi_Valid it') \<and> (\<not> more \<longrightarrow> \<not> bi_Valid it'))"
        by (rule ends_rbind [OF loop]) (use ok2 eqs in auto)
      then show ?thesis using bad by (simp add: parse del: restart_index_loop.simps)
    qed
  qed
qed

lemma same_block_trans: "same_block a b \<Longrightarrow> same_block b c \<Longrightarrow> same_block a c"
  by (simp add: same_block_def)

lemma same_block_refl [simp]: "same_block it it" "same_block it (it\<lparr>bi_restart_index := idx\<rparr>)"
  by (simp_all add: same_block_def)

text \<open>A move of the iterator ends in a position from which the next entry is further on.\<close>

abbreviation moved :: "block_iter \<Rightarrow> block_iter \<Rightarrow> bool" where
  "moved it it' \<equiv> iter_ok it' \<and> advanced it' \<and> same_block it it'"

lemma parsed_measure:
  assumes "advanced it'" "same_block it it'" "bi_current it' = NextEntryOffset it" "bi_Valid it'"
    "unat (bi_restarts it) - unat (NextEntryOffset it) < Suc fuel"
  shows "unat (bi_restarts it') - unat (NextEntryOffset it') < fuel"
  using assms by (auto simp: advanced_def same_block_def bi_Valid_def word_less_nat_alt)

lemma skip_until_ends:
  "iter_ok it \<Longrightarrow> unat (bi_restarts it) - unat (NextEntryOffset it) < fuel \<Longrightarrow>
     ends (skip_until_loop fuel bound it)
       (\<lambda>it'. moved it it' \<and> (bi_Valid it' \<and> NextEntryOffset it < bound \<longrightarrow> bi_current it' < bound))"
proof (induction fuel arbitrary: it)
  case (Suc fuel)
  show ?case
    unfolding skip_until_loop.simps
  proof (rule ends_rbind [OF ParseNextKey_ends [OF Suc.prems(1)]], clarify)
    fix more it'
    assume it': "iter_ok it'" "advanced it'" "same_block it it'" "more \<longrightarrow> bi_current it' = NextEntryOffset it \<and> bi_Valid it'"
      "\<not> more \<longrightarrow> \<not> bi_Valid it'"
    show "ends (if more \<and> NextEntryOffset it' < bound then skip_until_loop fuel bound it' else Ret it')
       (\<lambda>it'. moved it it' \<and> (bi_Valid it' \<and> NextEntryOffset it < bound \<longrightarrow> bi_current it' < bound))"
    proof (cases "more \<and> NextEntryOffset it' < bound")
      case True
      then have "unat (bi_restarts it') - unat (NextEntryOffset it') < fuel"
        using parsed_measure it' Suc.prems(2) by blast
      from Suc.IH [OF it'(1) this] show ?thesis
        using True same_block_trans [OF it'(3)] by (auto elim!: ends_mono)
    next
      case False
      then show ?thesis using it' by auto
    qed
  qed
qed simp

lemma seek_linear_ends:
  "iter_ok it \<Longrightarrow> unat (bi_restarts it) - unat (NextEntryOffset it) < fuel \<Longrightarrow>
     ends (seek_linear_loop fuel compare target it) (moved it)"
proof (induction fuel arbitrary: it)
  case (Suc fuel)
  show ?case
    unfolding seek_linear_loop.simps
  proof (rule ends_rbind [OF ParseNextKey_ends [OF Suc.prems(1)]], clarify)
    fix more it'
    assume it': "iter_ok it'" "advanced it'" "same_block it it'" "more \<longrightarrow> bi_current it' = NextEntryOffset it \<and> bi_Valid it'"
    show "ends (if \<not> more then Ret it' else if 0 \<le> compare (bi_key it') target then Ret it'
        else seek_linear_loop fuel compare target it') (moved it)"
    proof (cases more)
      case True
      then have "unat (bi_restarts it') - unat (NextEntryOffset it') < fuel"
        using parsed_measure it' Suc.prems(2) by blast
      from Suc.IH [OF it'(1) this] show ?thesis
        using it' same_block_trans [OF it'(3)] by (auto elim!: ends_mono)
    qed (use it' in simp)
  qed
qed simp

lemma fuel_restarts:
  assumes "iter_ok it"
  shows "unat (bi_restarts it) - k < bi_fuel it" "unat (bi_num_restarts it) < 2 ^ 30"
  using assms by (auto simp: iter_ok_def bi_fuel_def)

lemma SeekToRestartPoint_ends:
  assumes "iter_ok it" "index \<le> bi_num_restarts it"
  shows "ends (SeekToRestartPoint index it) (\<lambda>it'. iter_ok it' \<and> same_block it it' \<and> GetRestartPoint it index = Ret (NextEntryOffset it'))"
proof -
  have "GetRestartPoint (it\<lparr>bi_key := [], bi_restart_index := index\<rparr>) index = GetRestartPoint it index"
    by (simp add: GetRestartPoint_def Let_def)
  then show ?thesis
    using assms by (cases "GetRestartPoint it index")
      (auto simp: SeekToRestartPoint_def Let_def iter_ok_def same_block_def NextEntryOffset_def GetRestartPoint_def split: if_splits)
qed

lemma SeekToFirst_ends: "iter_ok it \<Longrightarrow> ends (bi_SeekToFirst it) (moved it)"
  unfolding bi_SeekToFirst_def
proof (rule ends_rbind [OF SeekToRestartPoint_ends], simp_all, clarify)
  fix it' assume it': "iter_ok it'" "same_block it it'"
  show "ends (rbind (ParseNextKey it') (\<lambda>(more, it). Ret it)) (moved it)"
    by (rule ends_rbind [OF ParseNextKey_ends [OF it'(1)]]) (use same_block_trans [OF it'(2)] in auto)
qed

lemma SeekToLast_ends: "iter_ok it \<Longrightarrow> ends (bi_SeekToLast it) (moved it)"
  unfolding bi_SeekToLast_def
proof (rule ends_rbind [OF SeekToRestartPoint_ends])
  assume it: "iter_ok it"
  then have "unat (bi_num_restarts it - 1) = unat (bi_num_restarts it) - 1"
    by (intro unat_minus_one) (auto simp: iter_ok_def)
  then show "bi_num_restarts it - 1 \<le> bi_num_restarts it" by (simp add: word_le_nat_alt)
  fix it' assume "iter_ok it' \<and> same_block it it' \<and> GetRestartPoint it (bi_num_restarts it - 1) = Ret (NextEntryOffset it')"
  then have it': "iter_ok it'" "same_block it it'" by simp_all
  show "ends (skip_until_loop (bi_fuel it') (bi_restarts it') it') (moved it)"
    by (rule ends_mono [OF skip_until_ends [OF it'(1) fuel_restarts(1) [OF it'(1)]]])
      (use same_block_trans [OF it'(2)] in auto)
qed

lemma Next_ends: "iter_ok it \<Longrightarrow> ends (bi_Next it) (\<lambda>it'. moved it it' \<and> (bi_Valid it' \<longrightarrow> bi_current it' = NextEntryOffset it))"
  by (auto simp: bi_Next_def intro!: ends_rbind [OF ParseNextKey_ends])

lemma prev_restart_ends:
  "iter_ok it \<Longrightarrow> unat (bi_restart_index it) < fuel \<Longrightarrow>
     ends (prev_restart_loop fuel original it) (\<lambda>(found, it'). iter_ok it' \<and> same_block it it' \<and>
       (found \<longrightarrow> (\<exists>r. GetRestartPoint it' (bi_restart_index it') = Ret r \<and> r < original)) \<and> (\<not> found \<longrightarrow> \<not> bi_Valid it'))"
proof (induction fuel arbitrary: it)
  case (Suc fuel)
  show ?case
    unfolding prev_restart_loop.simps
  proof (rule ends_rbind [OF GetRestartPoint_ends])
    fix r assume r: "GetRestartPoint it (bi_restart_index it) = Ret r"
    let ?it = "it\<lparr>bi_restart_index := bi_restart_index it - 1\<rparr>"
    show "ends (if original \<le> r then if bi_restart_index it = 0
        then Ret (False, it\<lparr>bi_current := bi_restarts it, bi_restart_index := bi_num_restarts it\<rparr>)
        else prev_restart_loop fuel original ?it else Ret (True, it))
      (\<lambda>(found, it'). iter_ok it' \<and> same_block it it' \<and>
       (found \<longrightarrow> (\<exists>r. GetRestartPoint it' (bi_restart_index it') = Ret r \<and> r < original)) \<and> (\<not> found \<longrightarrow> \<not> bi_Valid it'))"
    proof (cases "original \<le> r \<and> bi_restart_index it \<noteq> 0")
      case True
      then have "unat (bi_restart_index it - 1) = unat (bi_restart_index it) - 1" "0 < unat (bi_restart_index it)"
        by (auto simp: unat_minus_one unat_gt_0)
      then have "iter_ok ?it" "unat (bi_restart_index ?it) < fuel"
        using Suc.prems by (simp_all add: iter_ok_def word_le_nat_alt) linarith
      from Suc.IH [OF this] show ?thesis
        using True by (auto elim!: ends_mono simp: same_block_def)
    next
      case False
      then show ?thesis
        using Suc.prems(1) r by (auto simp: iter_ok_def same_block_def bi_Valid_def)
    qed
  qed
qed simp

lemma Prev_ends:
  assumes "iter_ok it"
  shows "ends (bi_Prev it) (\<lambda>it'. moved it it' \<and> (bi_Valid it' \<longrightarrow> bi_current it' < bi_current it))"
proof (cases "bi_Valid it")
  case True
  have fuel: "unat (bi_restart_index it) < unat (bi_num_restarts it) + 1"
    using assms by (simp add: iter_ok_def word_le_nat_alt)
  have "ends (rbind (prev_restart_loop (unat (bi_num_restarts it) + 1) (bi_current it) it) (\<lambda>(found, it').
      if \<not> found then Ret it'
      else rbind (SeekToRestartPoint (bi_restart_index it') it') (\<lambda>it'. skip_until_loop (bi_fuel it') (bi_current it) it')))
    (\<lambda>it'. moved it it' \<and> (bi_Valid it' \<longrightarrow> bi_current it' < bi_current it))"
  proof (rule ends_rbind [OF prev_restart_ends [OF assms fuel]], clarify)
    fix found it'
    assume it': "iter_ok it'" "same_block it it'" "\<not> found \<longrightarrow> \<not> bi_Valid it'"
      and r: "found \<longrightarrow> (\<exists>r. GetRestartPoint it' (bi_restart_index it') = Ret r \<and> r < bi_current it)"
    show "ends (if \<not> found then Ret it'
      else rbind (SeekToRestartPoint (bi_restart_index it') it') (\<lambda>it'. skip_until_loop (bi_fuel it') (bi_current it) it'))
      (\<lambda>it'. moved it it' \<and> (bi_Valid it' \<longrightarrow> bi_current it' < bi_current it))"
    proof (cases found)
      case False
      then show ?thesis using it' by (simp add: advanced_def)
    next
      case True
      have idx: "bi_restart_index it' \<le> bi_num_restarts it'" using it'(1) by (simp add: iter_ok_def)
      have "ends (rbind (SeekToRestartPoint (bi_restart_index it') it') (\<lambda>it'. skip_until_loop (bi_fuel it') (bi_current it) it'))
        (\<lambda>it'. moved it it' \<and> (bi_Valid it' \<longrightarrow> bi_current it' < bi_current it))"
      proof (rule ends_rbind [OF SeekToRestartPoint_ends [OF it'(1) idx]])
        fix it2
        assume it2: "iter_ok it2 \<and> same_block it' it2 \<and> GetRestartPoint it' (bi_restart_index it') = Ret (NextEntryOffset it2)"
        then have "NextEntryOffset it2 < bi_current it" "same_block it it2" using True r same_block_trans [OF it'(2)] by auto
        then show "ends (skip_until_loop (bi_fuel it2) (bi_current it) it2)
          (\<lambda>it'. moved it it' \<and> (bi_Valid it' \<longrightarrow> bi_current it' < bi_current it))"
          using it2 skip_until_ends [of it2 "bi_fuel it2" "bi_current it"] fuel_restarts(1) [of it2]
          by (auto elim!: ends_mono dest: same_block_trans)
      qed
      then show ?thesis using True by simp
    qed
  qed
  then show ?thesis using True by (simp add: bi_Prev_def Let_def del: prev_restart_loop.simps)
qed (simp add: bi_Prev_def)

lemma seek_binary_ends:
  "iter_ok it \<Longrightarrow> right < bi_num_restarts it \<Longrightarrow> left \<le> right \<Longrightarrow> unat right - unat left < fuel \<Longrightarrow>
     ends (seek_binary_loop fuel compare target left right it)
       (\<lambda>(l, it'). iter_ok it' \<and> same_block it it' \<and> (case l of Some l \<Rightarrow> l < bi_num_restarts it' | None \<Rightarrow> \<not> bi_Valid it'))"
proof (induction fuel arbitrary: left right)
  case (Suc fuel)
  let ?mid = "(left + right + 1) div 2"
  let ?Q = "\<lambda>(l, it'). iter_ok it' \<and> same_block it it' \<and> (case l of Some l \<Rightarrow> l < bi_num_restarts it' | None \<Rightarrow> \<not> bi_Valid it')"
  have bad: "?Q (None, CorruptionError it)"
    using Suc.prems(1) by (simp add: CorruptionError_def iter_ok_def same_block_def bi_Valid_def)
  show ?case
  proof (cases "left < right")
    case False
    then have "left = right" using Suc.prems(3) by simp
    then show ?thesis using Suc.prems(1,2) by simp
  next
    case True
    have small: "unat right < 2 ^ 30"
      using fuel_restarts(2) [OF Suc.prems(1)] Suc.prems(2) by (simp add: word_less_nat_alt)
    have less: "unat left < unat right" using True by (simp add: word_less_nat_alt)
    have mid: "unat ?mid = (unat left + unat right + 1) div 2"
      using small less by (simp add: unat_div unat_word_ariths)
    then have between: "unat left < unat ?mid" "unat ?mid \<le> unat right" using less by simp_all
    then have m1: "unat (?mid - 1) = unat ?mid - 1" by (intro unat_minus_one) auto
    have up: "ends (seek_binary_loop fuel compare target ?mid right it) ?Q"
      using Suc.IH [OF Suc.prems(1,2), of ?mid] between Suc.prems(4) by (simp add: word_le_nat_alt)
    have down: "ends (seek_binary_loop fuel compare target left (?mid - 1) it) ?Q"
    proof -
      have "?mid - 1 < bi_num_restarts it" "left \<le> ?mid - 1" "unat (?mid - 1) - unat left < fuel"
        using m1 between Suc.prems(2,4) by (simp_all add: word_le_nat_alt word_less_nat_alt)
      from Suc.IH [OF Suc.prems(1) this] show ?thesis .
    qed
    show ?thesis
      unfolding seek_binary_loop.simps(2) Let_def if_P [OF True]
    proof (rule ends_rbind [OF GetRestartPoint_ends])
      fix r
      show "ends (case DecodeEntry (drop (unat r) (take (unat (bi_restarts it)) (bi_data it))) of
          None \<Rightarrow> Ret (None, CorruptionError it)
        | Some (shared, non_shared, value_length, rest) \<Rightarrow>
            if shared \<noteq> 0 then Ret (None, CorruptionError it)
            else if length (bi_data it) < unat (bi_restarts it) - length rest + unat non_shared then UB
            else if compare (take (unat non_shared) (drop (unat (bi_restarts it) - length rest) (bi_data it))) target < 0
              then seek_binary_loop fuel compare target ?mid right it
              else seek_binary_loop fuel compare target left (?mid - 1) it) ?Q"
        using up down bad by (simp del: seek_binary_loop.simps split: option.split)
    qed
  qed
qed simp

lemma Seek_ends:
  assumes it: "iter_ok it"
  shows "ends (bi_Seek compare target it) (\<lambda>it'. iter_ok it' \<and> advanced it' \<and> same_block it it')"
proof -
  have "0 < unat (bi_num_restarts it)" using it by (auto simp: iter_ok_def word_less_nat_alt)
  then have "unat (bi_num_restarts it - 1) < unat (bi_num_restarts it)" by (subst unat_minus_one) auto
  then have "bi_num_restarts it - 1 < bi_num_restarts it" "0 \<le> bi_num_restarts it - 1"
    "unat (bi_num_restarts it - 1) - unat (0 :: u32) < unat (bi_num_restarts it) + 1"
    by (simp_all add: word_less_nat_alt)
  note binary = seek_binary_ends [OF it this]
  show ?thesis
    unfolding bi_Seek_def
  proof (rule ends_rbind [OF binary], clarify)
    fix l it'
    assume it': "iter_ok it'" "same_block it it'" and l: "case l of None \<Rightarrow> \<not> bi_Valid it' | Some l \<Rightarrow> l < bi_num_restarts it'"
    show "ends (case l of None \<Rightarrow> Ret it'
        | Some l \<Rightarrow> rbind (SeekToRestartPoint l it') (\<lambda>it. seek_linear_loop (bi_fuel it) compare target it)) (moved it)"
    proof (cases l)
      case None
      then show ?thesis using it' l by (simp add: advanced_def)
    next
      case (Some i)
      then have "i \<le> bi_num_restarts it'" using l by simp
      then have "ends (rbind (SeekToRestartPoint i it') (\<lambda>it. seek_linear_loop (bi_fuel it) compare target it)) (moved it)"
      proof (rule ends_rbind [OF SeekToRestartPoint_ends [OF it'(1)]])
        fix it2 assume "iter_ok it2 \<and> same_block it' it2 \<and> GetRestartPoint it' i = Ret (NextEntryOffset it2)"
        then have it2: "iter_ok it2" "same_block it it2" using same_block_trans [OF it'(2)] by auto
        show "ends (seek_linear_loop (bi_fuel it2) compare target it2) (moved it)"
          by (rule ends_mono [OF seek_linear_ends [OF it2(1) fuel_restarts(1) [OF it2(1)]]])
            (use same_block_trans [OF it2(2)] in auto)
      qed
      then show ?thesis using Some by simp
    qed
  qed
qed

section \<open>The scans of a block\<close>

lemma scan_ends:
  assumes move: "\<And>it. P it \<Longrightarrow> bi_Valid it \<Longrightarrow> ends (move it) (\<lambda>it'. P it' \<and> (bi_Valid it' \<longrightarrow> m it' < (m it :: nat)))"
  shows "P it \<Longrightarrow> 0 < fuel \<Longrightarrow> (bi_Valid it \<Longrightarrow> m it + 1 < fuel) \<Longrightarrow> ends (bi_scan move fuel it) (\<lambda>_. True)"
proof (induction fuel arbitrary: it)
  case (Suc fuel)
  show ?case
  proof (cases "bi_Valid it")
    case True
    have val: "ends (bi_get_value it) (\<lambda>_. True)" by (simp add: bi_get_value_def)
    have "ends (rbind (move it) (\<lambda>it. rbind (bi_scan move fuel it) (\<lambda>(s, kvs). Ret (s, (k, v) # kvs)))) (\<lambda>_. True)" for k v
    proof (rule ends_rbind [OF move [OF Suc.prems(1) True]])
      fix it' assume it': "P it' \<and> (bi_Valid it' \<longrightarrow> m it' < m it)"
      then have "ends (bi_scan move fuel it') (\<lambda>_. True)" using Suc.IH [of it'] Suc.prems(3) True by (cases "bi_Valid it'") auto
      then show "ends (rbind (bi_scan move fuel it') (\<lambda>(s, kvs). Ret (s, (k, v) # kvs))) (\<lambda>_. True)"
        by (rule ends_rbind) auto
    qed
    then show ?thesis
      using True by (auto simp: bi_get_key_def intro!: ends_rbind [OF val])
  qed simp
qed simp

lemma open_ends:
  assumes "length data < 2 ^ 32"
  shows "ends (bl_NewIterator (Block data)) (\<lambda>i. \<forall>it. i = Block_Iterator it \<longrightarrow> iter_ok it)"
proof (cases "4 \<le> length data \<and> unat (NumRestarts data (length data)) \<le> (length data - 4) div 4")
  case True
  define n where "n = NumRestarts data (length data)"
  have n: "4 * unat n + 4 \<le> length data" using True unfolding n_def by linarith
  then have "unat (1 + n) = unat n + 1" using assms by (simp add: unat_word_ariths)
  then have blk: "Block data = \<lparr>bl_data = data, bl_size = length data, bl_restart_offset = of_nat (length data - (unat n + 1) * 4)\<rparr>"
    using True by (simp add: Block_def Let_def flip: n_def)
  have "unat (of_nat (length data - (unat n + 1) * 4) :: u32) = length data - (unat n + 1) * 4"
    using assms by (simp add: unat_of_nat_small)
  then show ?thesis
    using True assms n
    by (auto simp: blk bl_NewIterator_def Let_def Iter_def iter_ok_def word_gt_0 simp flip: n_def)
next
  case False
  then have "bl_size (Block data) = 0" by (auto simp: Block_def Let_def)
  then show ?thesis by (simp add: bl_NewIterator_def)
qed

lemma scan_with_ends:
  assumes "length data < 2 ^ 32" and start: "\<And>it. iter_ok it \<Longrightarrow> ends (start it) (moved it)"
    and move: "\<And>it. iter_ok it \<Longrightarrow> advanced it \<Longrightarrow> bi_Valid it \<Longrightarrow>
      ends (move it) (\<lambda>it'. moved it it' \<and> (bi_Valid it' \<longrightarrow> m it' < (m it :: nat)))"
    and m: "\<And>it. iter_ok it \<Longrightarrow> bi_Valid it \<Longrightarrow> m it \<le> unat (bi_restarts it)"
  shows "scan_with start move data \<noteq> Fuel_Out"
proof -
  have "ends (scan_with start move data) (\<lambda>_. True)"
    unfolding scan_with_def
  proof (rule ends_rbind [OF open_ends [OF assms(1)]])
    fix i assume i: "\<forall>it. i = Block_Iterator it \<longrightarrow> iter_ok it"
    show "ends (case i of Error_Iterator s \<Rightarrow> Ret (s, []) | Empty_Iterator \<Rightarrow> Ret (Status_OK, [])
       | Block_Iterator it \<Rightarrow> rbind (start it) (bi_scan move (bi_fuel it))) (\<lambda>_. True)"
    proof (cases i)
      case (Block_Iterator it)
      have "ends (rbind (start it) (bi_scan move (bi_fuel it))) (\<lambda>_. True)"
      proof (rule ends_rbind [OF start])
        show "iter_ok it" using i Block_Iterator by simp
        fix it' assume it': "moved it it'"
        then have "m it' + 1 < bi_fuel it" if "bi_Valid it'"
          using m [of it'] that fuel_restarts(1) [of it' 0]
          by (auto simp: bi_fuel_def same_block_def iter_ok_def word_less_nat_alt)
        moreover have "0 < bi_fuel it" by (simp add: bi_fuel_def)
        moreover have "iter_ok it' \<and> advanced it'" using it' by simp
        ultimately show "ends (bi_scan move (bi_fuel it) it') (\<lambda>_. True)"
          by (intro scan_ends [where P = "\<lambda>it. iter_ok it \<and> advanced it" and m = m])
            (auto elim!: ends_mono [OF move])
      qed
      then show ?thesis using Block_Iterator by simp
    qed simp_all
  qed
  then show ?thesis by auto
qed

text \<open>C25: Every loop over a block ends, whatever bytes the block holds: reading a corrupted block with Next, with
Prev or after Seek, for any comparator, never runs on for ever.\<close>

theorem block_scans_end:
  assumes "length data < 2 ^ 32"
  shows "block_scan data \<noteq> Fuel_Out \<and> block_scan_back data \<noteq> Fuel_Out \<and> block_scan_from compare target data \<noteq> Fuel_Out"
proof -
  have step: "ends (bi_Next it) (\<lambda>it'. moved it it' \<and> (bi_Valid it' \<longrightarrow>
      unat (bi_restarts it') - unat (bi_current it') < unat (bi_restarts it) - unat (bi_current it)))"
    if "iter_ok it" "advanced it" "bi_Valid it" for it
    using that Next_ends [OF that(1)]
    by (auto simp: advanced_def bi_Valid_def same_block_def word_less_nat_alt elim!: ends_mono)
  have step_back: "ends (bi_Prev it) (\<lambda>it'. moved it it' \<and> (bi_Valid it' \<longrightarrow> unat (bi_current it') < unat (bi_current it)))"
    if "iter_ok it" for it
    by (rule ends_mono [OF Prev_ends [OF that]]) (simp add: word_less_nat_alt)
  show ?thesis
    unfolding block_scan_def block_scan_back_def block_scan_from_def
    by (intro conjI scan_with_ends [OF assms SeekToFirst_ends step] scan_with_ends [OF assms Seek_ends step]
        scan_with_ends [OF assms SeekToLast_ends step_back])
      (auto simp: bi_Valid_def word_less_nat_alt)
qed

lemma block_scans_end_witness:
  "block_scan [1, 2, 3, 4, 1, 0, 0, 0] \<noteq> Fuel_Out \<and> block_scan_back [1, 2, 3, 4, 1, 0, 0, 0] \<noteq> Fuel_Out \<and>
   block_scan_from slice_compare [7] [1, 2, 3, 4, 1, 0, 0, 0] \<noteq> Fuel_Out"
  by (rule block_scans_end) simp

end
