(* ===== verification/Ldb_Bloom.thy ===== *)
theory Ldb_Bloom
  imports Ldb_Dbformat
begin

text \<open>
  leveldb, \<open>util/hash.cc\<close> and \<open>util/bloom.cc\<close>: the hash of a byte string and the Bloom filter policy. The
  locale \<open>filter_policy\<close> is the contract of \<open>include/leveldb/filter_policy.h\<close>: a filter made from keys matches
  each of them. It is interpreted on the Bloom filter, and on the policy that \<open>db/dbformat.cc\<close> makes of a
  user's policy.
\<close>

section \<open>The hash\<close>

text \<open>Four bytes at a time, then the rest; \<open>limit - data\<close> is the length of what is left.\<close>

fun Hash_words :: "u32 \<Rightarrow> slice \<Rightarrow> u32 \<times> slice" where
  "Hash_words h (a # b # c # d # data) =
     (let w = DecodeFixed32 [a, b, c, d];
          h = h + w;
          h = h * 0xc6a4a793;
          h = h XOR drop_bit 16 h
      in Hash_words h data)"
| "Hash_words h data = (h, data)"

definition Hash :: "slice \<Rightarrow> u32 \<Rightarrow> u32" where
  "Hash data seed =
     (let m = 0xc6a4a793;
          r = 24;
          (h, data) = Hash_words (seed XOR of_nat (length data) * m) data;
          h = (if length data = 3 then h + push_bit 16 (ucast (data ! 2)) else h);
          h = (if length data \<ge> 2 then h + push_bit 8 (ucast (data ! 1)) else h)
      in if length data \<ge> 1 then
           let h = h + ucast (data ! 0);
               h = h * m
           in h XOR drop_bit r h
         else h)"

definition BloomHash :: "slice \<Rightarrow> u32" where
  "BloomHash key = Hash key 0xbc9f1d34"

section \<open>The Bloom filter policy\<close>

record bloom_policy =
  bits_per_key :: u64
  bloom_k :: u64

text \<open>
  \<open>bits_per_key * 0.69\<close> is a double; cut off it is \<open>69 * bits_per_key div 100\<close> below 100, and from there on
  both are above the bound of 30. The cast of a value at most \<open>-1\<close> is undefined.
\<close>

definition BloomFilterPolicy :: "int \<Rightarrow> bloom_policy run" where
  "BloomFilterPolicy bpk =
     (if bpk < - 1 then UB
      else
        let k = (if bpk < 0 then 0 else 69 * bpk div 100);
            k = (if k < 1 then 1 else k);
            k = (if k > 30 then 30 else k)
        in Ret \<lparr>bits_per_key = of_int bpk, bloom_k = of_int k\<rparr>)"

definition rotr17 :: "u32 \<Rightarrow> u32" where
  "rotr17 h = drop_bit 17 h OR push_bit 15 h"

definition bitpos :: "u32 \<Rightarrow> u64 \<Rightarrow> nat" where
  "bitpos h bits = unat (ucast (ucast h mod bits) :: u32)"

text \<open>The probes of one key, and the loop over the keys. \<open>array\<close> is the filter from \<open>init_size\<close> on.\<close>

fun set_probes :: "nat \<Rightarrow> u64 \<Rightarrow> u32 \<Rightarrow> u32 \<Rightarrow> slice \<Rightarrow> slice run" where
  "set_probes 0 bits delta h array = Ret array"
| "set_probes (Suc j) bits delta h array =
     (let p = bitpos h bits in
      if bits = 0 \<or> p div 8 \<ge> length array then UB
      else set_probes j bits delta (h + delta) (array[p div 8 := array ! (p div 8) OR push_bit (p mod 8) 1]))"

fun set_keys :: "bloom_policy \<Rightarrow> u64 \<Rightarrow> slice list \<Rightarrow> slice \<Rightarrow> slice run" where
  "set_keys policy bits [] array = Ret array"
| "set_keys policy bits (key # keys) array =
     (let h = BloomHash key; delta = rotr17 h in
      rbind (set_probes (unat (bloom_k policy)) bits delta h array) (set_keys policy bits keys))"

definition CreateFilter :: "bloom_policy \<Rightarrow> slice list \<Rightarrow> slice \<Rightarrow> slice run" where
  "CreateFilter policy keys dst =
     (let bits = of_nat (length keys) * bits_per_key policy;
          bits = (if bits < 64 then 64 else bits);
          bytes = (bits + 7) div 8;
          bits = bytes * 8
      in rbind (set_keys policy bits keys (replicate (unat bytes) 0 @ [ucast (bloom_k policy)])) (\<lambda>array.
           Ret (dst @ array)))"

fun all_probes :: "nat \<Rightarrow> u64 \<Rightarrow> u32 \<Rightarrow> u32 \<Rightarrow> slice \<Rightarrow> bool" where
  "all_probes 0 bits delta h array = True"
| "all_probes (Suc j) bits delta h array =
     (let p = bitpos h bits in
      if array ! (p div 8) AND push_bit (p mod 8) 1 = 0 then False else all_probes j bits delta (h + delta) array)"

text \<open>\<open>char\<close> is signed: a last byte from 128 on is a huge \<open>k\<close>.\<close>

definition KeyMayMatch :: "slice \<Rightarrow> slice \<Rightarrow> bool" where
  "KeyMayMatch key bloom_filter =
     (let len = length bloom_filter in
      if len < 2 then False
      else
        let array = bloom_filter;
            bits = of_nat ((len - 1) * 8);
            k = scast (array ! (len - 1)) :: u64
        in if k > 30 then True
           else let h = BloomHash key; delta = rotr17 h in all_probes (unat k) bits delta h array)"

section \<open>The contract of a filter policy\<close>

locale filter_policy =
  fixes good :: "slice list \<Rightarrow> bool"
    and create :: "slice list \<Rightarrow> slice \<Rightarrow> slice run"
    and may_match :: "slice \<Rightarrow> slice \<Rightarrow> bool"
  assumes creates: "good keys \<Longrightarrow> \<exists>f. (\<forall>dst. create keys dst = Ret (dst @ f)) \<and> (\<forall>key \<in> set keys. may_match key f)"
    and good_part: "good (xs @ ys @ zs) \<Longrightarrow> good ys"
begin

text \<open>The policy of internal keys, which filters their user keys.\<close>

lemma internal: "filter_policy (\<lambda>keys. good (map ExtractUserKey keys)) (ifilter_CreateFilter create) (ifilter_KeyMayMatch may_match)"
proof
  fix keys assume "good (map ExtractUserKey keys)"
  from creates [OF this]
  show "\<exists>f. (\<forall>dst. ifilter_CreateFilter create keys dst = Ret (dst @ f)) \<and> (\<forall>key\<in>set keys. ifilter_KeyMayMatch may_match key f)"
    by (auto simp: ifilter_CreateFilter_def ifilter_KeyMayMatch_def)
next
  fix xs ys zs :: "slice list"
  assume "good (map ExtractUserKey (xs @ ys @ zs))"
  then show "good (map ExtractUserKey ys)" using good_part by simp
qed

end

section \<open>No key is missed\<close>

lemma bitpos_less: "bits \<noteq> 0 \<Longrightarrow> bitpos h bits < unat bits"
proof -
  assume "bits \<noteq> 0"
  then have "unat (ucast h mod bits) < unat bits" by (simp add: unat_mod unat_gt_0)
  moreover have "bitpos h bits \<le> unat (ucast h mod bits)"
    by (simp add: bitpos_def unsigned_ucast_eq take_bit_nat_eq_self unat_of_nat)
  ultimately show ?thesis by simp
qed

definition has_bit :: "slice \<Rightarrow> nat \<Rightarrow> bool" where
  "has_bit array p \<longleftrightarrow> bit (array ! (p div 8)) (p mod 8)"

lemma all_probes_iff:
  "all_probes j bits delta h array \<longleftrightarrow> (\<forall>i < j. has_bit array (bitpos (h + of_nat i * delta) bits))"
proof (induction j arbitrary: h)
  case (Suc j)
  have one: "b AND push_bit (p mod 8) 1 = 0 \<longleftrightarrow> \<not> bit b (p mod 8)" for b :: byte and p :: nat
  proof -
    have "b AND push_bit n 1 = (if bit b n then push_bit n 1 else 0)" for n
      by (rule bit_word_eqI) (auto simp: bit_simps bit_1_iff)
    moreover have "push_bit (p mod 8) 1 \<noteq> (0 :: byte)"
    proof -
      have "bit (push_bit (p mod 8) 1 :: byte) (p mod 8)" by (simp add: bit_simps)
      then show ?thesis by auto
    qed
    ultimately show ?thesis by auto
  qed
  have "(\<forall>i < Suc j. has_bit array (bitpos (h + of_nat i * delta) bits)) \<longleftrightarrow>
      has_bit array (bitpos h bits) \<and> (\<forall>i < j. has_bit array (bitpos (h + delta + of_nat i * delta) bits))"
    by (auto simp: less_Suc_eq_0_disj algebra_simps)
  then show ?case by (simp only: all_probes.simps Let_def one has_bit_def Suc.IH [of "h + delta"]) simp
qed simp

lemma has_bit_set:
  assumes "p div 8 < length array"
  shows "has_bit (array[p div 8 := array ! (p div 8) OR push_bit (p mod 8) 1]) q \<longleftrightarrow> has_bit array q \<or> q = p"
proof (cases "q div 8 = p div 8")
  case True
  have bits: "bit (b OR push_bit m 1) n \<longleftrightarrow> bit b n \<or> n = m" if "n < 8" for b :: byte and m n
    using that by (auto simp: bit_or_iff bit_push_bit_iff bit_1_iff simp del: push_bit_of_1)
  have "q = p \<longleftrightarrow> q mod 8 = p mod 8" using True by (metis div_mult_mod_eq)
  then show ?thesis
    using assms bits [of "q mod 8"] by (simp only: has_bit_def True nth_list_update_eq)
next
  case False
  then have "q \<noteq> p" by auto
  with False show ?thesis by (simp add: has_bit_def)
qed

lemma set_probes_sets:
  assumes "bits \<noteq> 0" "unat bits \<le> 8 * n" "length array = Suc n"
  shows "\<exists>array'. set_probes j bits delta h array = Ret array' \<and> length array' = Suc n \<and> last array' = last array \<and>
    (\<forall>q. has_bit array q \<longrightarrow> has_bit array' q) \<and> (\<forall>i < j. has_bit array' (bitpos (h + of_nat i * delta) bits))"
  using assms(3)
proof (induction j arbitrary: h array)
  case (Suc j)
  define p where "p = bitpos h bits"
  have "p < 8 * n" using bitpos_less [OF assms(1), of h] assms(2) by (simp add: p_def)
  then have p: "p div 8 < n" by linarith
  define a2 where "a2 = array[p div 8 := array ! (p div 8) OR push_bit (p mod 8) 1]"
  have a2: "length a2 = Suc n" using Suc.prems by (simp add: a2_def)
  have "last a2 = last array" using Suc.prems p by (cases array rule: rev_cases) (simp_all add: a2_def list_update_append)
  moreover have bits2: "has_bit a2 q \<longleftrightarrow> has_bit array q \<or> q = p" for q
    unfolding a2_def using p Suc.prems by (intro has_bit_set) simp
  moreover obtain array' where array': "set_probes j bits delta (h + delta) a2 = Ret array'" "length array' = Suc n"
    "last array' = last a2" "\<forall>q. has_bit a2 q \<longrightarrow> has_bit array' q"
    "\<forall>i < j. has_bit array' (bitpos (h + delta + of_nat i * delta) bits)"
    using Suc.IH [OF a2, of "h + delta"] by blast
  moreover have "set_probes (Suc j) bits delta h array = Ret array'"
    using array'(1) assms(1) p Suc.prems by (simp add: Let_def a2_def p_def [symmetric] del: push_bit_of_1)
  moreover have "\<forall>i < Suc j. has_bit array' (bitpos (h + of_nat i * delta) bits)"
    using array'(4,5) bits2 by (auto simp: less_Suc_eq_0_disj p_def algebra_simps)
  ultimately show ?case by auto
qed simp

definition matches :: "bloom_policy \<Rightarrow> u64 \<Rightarrow> slice \<Rightarrow> slice \<Rightarrow> bool" where
  "matches policy bits array key \<longleftrightarrow>
     (\<forall>i < unat (bloom_k policy). has_bit array (bitpos (BloomHash key + of_nat i * rotr17 (BloomHash key)) bits))"

lemma set_keys_sets:
  assumes "bits \<noteq> 0" "unat bits \<le> 8 * n" "length array = Suc n"
  shows "\<exists>array'. set_keys policy bits keys array = Ret array' \<and> length array' = Suc n \<and> last array' = last array \<and>
    (\<forall>q. has_bit array q \<longrightarrow> has_bit array' q) \<and> (\<forall>key \<in> set keys. matches policy bits array' key)"
  using assms(3)
proof (induction keys arbitrary: array)
  case (Cons key keys)
  obtain a2 where a2: "set_probes (unat (bloom_k policy)) bits (rotr17 (BloomHash key)) (BloomHash key) array = Ret a2"
    "length a2 = Suc n" "last a2 = last array" "\<forall>q. has_bit array q \<longrightarrow> has_bit a2 q" "matches policy bits a2 key"
    using set_probes_sets [OF assms(1,2) Cons.prems] unfolding matches_def by blast
  obtain array' where "set_keys policy bits keys a2 = Ret array'" "length array' = Suc n" "last array' = last a2"
    "\<forall>q. has_bit a2 q \<longrightarrow> has_bit array' q" "\<forall>key \<in> set keys. matches policy bits array' key"
    using Cons.IH [OF a2(2)] by blast
  moreover have "matches policy bits array' key" using a2(5) calculation(4) by (simp add: matches_def)
  ultimately show ?case using a2 by (auto simp: Let_def)
qed simp

definition bloom_ok :: "bloom_policy \<Rightarrow> bool" where
  "bloom_ok policy \<longleftrightarrow> bits_per_key policy < 2 ^ 31 \<and> 1 \<le> bloom_k policy \<and> bloom_k policy \<le> 30"

lemma BloomFilterPolicy_ok:
  "0 \<le> bpk \<Longrightarrow> bpk < 2 ^ 31 \<Longrightarrow> \<exists>policy. BloomFilterPolicy bpk = Ret policy \<and> bloom_ok policy"
proof -
  assume bpk: "0 \<le> bpk" "bpk < 2 ^ 31"
  define k where "k = (if 69 * bpk div 100 < 1 then 1 else if 69 * bpk div 100 > 30 then 30 else 69 * bpk div 100)"
  have "1 \<le> k" "k \<le> 30" by (auto simp: k_def)
  then have "1 \<le> (of_int k :: u64) \<and> (of_int k :: u64) \<le> 30"
    by (simp add: word_le_nat_alt unsigned_of_int take_bit_int_eq_self nat_le_iff unat_eq_nat_uint)
  moreover have "(of_int bpk :: u64) < 2 ^ 31"
    using bpk by (simp add: word_less_def uint_word_of_int take_bit_int_eq_self)
  moreover have "BloomFilterPolicy bpk = Ret \<lparr>bits_per_key = of_int bpk, bloom_k = of_int k\<rparr>"
    using bpk by (simp add: BloomFilterPolicy_def Let_def k_def)
  ultimately show ?thesis by (simp add: bloom_ok_def)
qed

lemma small_char: "k \<le> 30 \<Longrightarrow> (scast (ucast k :: byte) :: u64) = k"
proof -
  assume "k \<le> (30 :: u64)"
  then have "unat k div 32 = 0" by (simp add: word_le_nat_alt)
  then have "unat (drop_bit 5 k) = 0" by (simp only: drop_bit_eq_div unat_div) simp
  then have z: "drop_bit 5 k = 0" by (simp add: unat_eq_0)
  have "bit k n \<Longrightarrow> n < 5" for n using arg_cong [OF z, of "\<lambda>w. bit w (n - 5)"] by (cases "n < 5") (auto simp: bit_simps)
  then show ?thesis by (intro bit_word_eqI) (fastforce simp: bit_simps)
qed

lemma CreateFilter_creates:
  assumes "bloom_ok policy" "length keys < 2 ^ 31"
  shows "\<exists>f. (\<forall>dst. CreateFilter policy keys dst = Ret (dst @ f)) \<and> (\<forall>key \<in> set keys. KeyMayMatch key f)"
proof -
  define bits0 where "bits0 = of_nat (length keys) * bits_per_key policy"
  define bits1 where "bits1 = (if bits0 < 64 then 64 else bits0)"
  define bytes where "bytes = (bits1 + 7) div 8"
  define n where "n = unat bytes"
  have b0: "unat bits0 < 2 ^ 62"
  proof -
    have "unat (bits_per_key policy) < 2 ^ 31" using assms(1) by (simp add: bloom_ok_def word_less_nat_alt)
    then have "length keys * unat (bits_per_key policy) < 2 ^ 31 * 2 ^ 31" using assms(2) by (intro mult_strict_mono) simp_all
    moreover have "unat (of_nat (length keys) :: u64) = length keys" using assms(2) by (simp add: unat_of_nat_small)
    moreover have "unat bits0 \<le> unat (of_nat (length keys) :: u64) * unat (bits_per_key policy)"
      by (simp add: bits0_def unat_word_ariths)
    ultimately show ?thesis by simp
  qed
  have b1: "64 \<le> unat bits1" "unat bits1 < 2 ^ 62" using b0 by (simp_all add: bits1_def word_less_nat_alt)
  then have n: "n = (unat bits1 + 7) div 8" by (simp add: n_def bytes_def unat_div unat_word_ariths)
  then have bits: "unat (bytes * 8) = 8 * n" using b1 by (simp add: n_def [symmetric] unat_word_ariths)
  have n8: "8 \<le> n" using n b1 by linarith
  then have nz: "bytes * 8 \<noteq> 0" using bits by auto
  define init where "init = replicate n (0 :: byte) @ [ucast (bloom_k policy)]"
  obtain f where f: "set_keys policy (bytes * 8) keys init = Ret f" "length f = Suc n" "last f = last init"
    "\<forall>key \<in> set keys. matches policy (bytes * 8) f key"
    using set_keys_sets [OF nz, of n init policy keys] bits by (auto simp: init_def)
  have "CreateFilter policy keys dst = Ret (dst @ f)" for dst
    using f(1) unfolding CreateFilter_def Let_def
    by (fold bits0_def, fold bits1_def, fold bytes_def, fold n_def, fold init_def) simp
  moreover have "KeyMayMatch key f" if "key \<in> set keys" for key
  proof -
    have "f ! n = ucast (bloom_k policy)" using f(2,3) by (cases f rule: rev_cases) (auto simp: nth_append init_def)
    then have k: "scast (f ! (length f - 1)) = bloom_k policy"
      using assms(1) f(2) by (simp add: bloom_ok_def small_char)
    have "(of_nat ((length f - 1) * 8) :: u64) = bytes * 8" using f(2) by (simp add: n_def)
    then show ?thesis
      using f(2,4) that assms(1) n8 unfolding KeyMayMatch_def Let_def k
      by (simp add: all_probes_iff matches_def bloom_ok_def not_less)
  qed
  ultimately show ?thesis by blast
qed

definition bloom_good :: "bloom_policy \<Rightarrow> slice list \<Rightarrow> bool" where
  "bloom_good policy keys \<longleftrightarrow> bloom_ok policy \<and> length keys < 2 ^ 31"

interpretation bloom: filter_policy "bloom_good policy" "CreateFilter policy" KeyMayMatch for policy
  by unfold_locales (simp_all add: bloom_good_def CreateFilter_creates)

interpretation internal_bloom: filter_policy "\<lambda>keys. bloom_good policy (map ExtractUserKey keys)"
  "ifilter_CreateFilter (CreateFilter policy)" "ifilter_KeyMayMatch KeyMayMatch" for policy
  by (rule bloom.internal)

section \<open>Properties\<close>

text \<open>C30: A Bloom filter has no false negatives: whatever the keys and the number of bits for each, the filter made
from the keys matches every one of them, and so does the filter of internal keys on their user keys.\<close>

theorem bloom_no_false_negatives:
  assumes "0 \<le> bpk" "bpk < 2 ^ 31" "length keys < 2 ^ 31"
  shows "\<exists>policy f. BloomFilterPolicy bpk = Ret policy \<and> (\<forall>dst. CreateFilter policy keys dst = Ret (dst @ f)) \<and>
    (\<forall>key \<in> set keys. KeyMayMatch key f)"
proof -
  obtain policy where p: "BloomFilterPolicy bpk = Ret policy" "bloom_ok policy"
    using BloomFilterPolicy_ok assms(1,2) by blast
  then have "bloom_good policy keys" using assms(3) by (simp add: bloom_good_def)
  from bloom.creates [OF this] p(1) show ?thesis by blast
qed

lemma bloom_no_false_negatives_witness:
  "\<exists>policy f. BloomFilterPolicy 10 = Ret policy \<and> (\<forall>dst. CreateFilter policy [[1, 2, 3], []] dst = Ret (dst @ f)) \<and>
    (\<forall>key \<in> set [[1, 2, 3], []]. KeyMayMatch key f)"
  by (rule bloom_no_false_negatives) simp_all

end
