(* ===== verification/Ldb_Filter_Block.thy ===== *)
theory Ldb_Filter_Block
  imports Ldb_Bloom
begin

text \<open>
  leveldb, \<open>table/filter_block.h\<close> and \<open>table/filter_block.cc\<close>: the filter block of a table, a filter for each 2 KB
  of the file with the keys of the blocks that start there. The policy is an argument; the lemmas rest on the
  contract \<open>filter_policy\<close>, and hold for the Bloom filter by its interpretation.
\<close>

definition kFilterBaseLg :: nat where "kFilterBaseLg = 11"

definition kFilterBase :: u64 where "kFilterBase = push_bit kFilterBaseLg 1"

section \<open>Building\<close>

record filter_block_builder =
  fb_keys :: slice
  fb_start :: "nat list"
  fb_result :: slice
  fb_tmp_keys :: "slice list"
  fb_filter_offsets :: "u32 list"

definition FilterBlockBuilder :: filter_block_builder where
  "FilterBlockBuilder = \<lparr>fb_keys = [], fb_start = [], fb_result = [], fb_tmp_keys = [], fb_filter_offsets = []\<rparr>"

definition GenerateFilter :: "(slice list \<Rightarrow> slice \<Rightarrow> slice run) \<Rightarrow> filter_block_builder \<Rightarrow> filter_block_builder run" where
  "GenerateFilter create b =
     (let num_keys = length (fb_start b) in
      if num_keys = 0 then Ret (b\<lparr>fb_filter_offsets := fb_filter_offsets b @ [of_nat (length (fb_result b))]\<rparr>)
      else
        let start = fb_start b @ [length (fb_keys b)];
            tmp_keys = map (\<lambda>i. take (start ! (i + 1) - start ! i) (drop (start ! i) (fb_keys b))) [0..<num_keys];
            b = b\<lparr>fb_start := start, fb_tmp_keys := tmp_keys,
                  fb_filter_offsets := fb_filter_offsets b @ [of_nat (length (fb_result b))]\<rparr>
        in rbind (create tmp_keys (fb_result b)) (\<lambda>result.
             Ret (b\<lparr>fb_result := result, fb_tmp_keys := [], fb_keys := [], fb_start := []\<rparr>)))"

text \<open>Each turn of the loop adds a filter, so that \<open>filter_index\<close> and one more turns are enough.\<close>

fun generate_loop ::
  "nat \<Rightarrow> (slice list \<Rightarrow> slice \<Rightarrow> slice run) \<Rightarrow> u64 \<Rightarrow> filter_block_builder \<Rightarrow> filter_block_builder run" where
  "generate_loop 0 create filter_index b = Fuel_Out"
| "generate_loop (Suc fuel) create filter_index b =
     (if filter_index > of_nat (length (fb_filter_offsets b)) then
        rbind (GenerateFilter create b) (generate_loop fuel create filter_index)
      else Ret b)"

definition StartBlock ::
  "(slice list \<Rightarrow> slice \<Rightarrow> slice run) \<Rightarrow> u64 \<Rightarrow> filter_block_builder \<Rightarrow> filter_block_builder run" where
  "StartBlock create block_offset b =
     (let filter_index = block_offset div kFilterBase in
      if \<not> filter_index \<ge> of_nat (length (fb_filter_offsets b)) then UB
      else generate_loop (unat filter_index + 1) create filter_index b)"

definition AddKey :: "slice \<Rightarrow> filter_block_builder \<Rightarrow> filter_block_builder" where
  "AddKey key b = b\<lparr>fb_start := fb_start b @ [length (fb_keys b)], fb_keys := fb_keys b @ key\<rparr>"

definition filter_Finish ::
  "(slice list \<Rightarrow> slice \<Rightarrow> slice run) \<Rightarrow> filter_block_builder \<Rightarrow> (slice \<times> filter_block_builder) run" where
  "filter_Finish create b =
     rbind (if fb_start b \<noteq> [] then GenerateFilter create b else Ret b) (\<lambda>b.
       let array_offset = of_nat (length (fb_result b)) :: u32;
           result = fold (\<lambda>offset result. PutFixed32 result offset) (fb_filter_offsets b) (fb_result b);
           result = PutFixed32 result array_offset;
           result = result @ [of_nat kFilterBaseLg]
       in Ret (result, b\<lparr>fb_result := result\<rparr>))"

section \<open>Reading\<close>

text \<open>
  \<open>fr_offset\<close> is the position of the offset array in the contents. \<open>char\<close> is signed. A shift by 64 or more
  is undefined, and nothing bounds \<open>base_lg_\<close>, a byte of the file.
\<close>

record filter_block_reader =
  fr_data :: slice
  fr_offset :: nat
  fr_num :: nat
  fr_base_lg :: u64

definition FilterBlockReader :: "slice \<Rightarrow> filter_block_reader" where
  "FilterBlockReader contents =
     (let r = \<lparr>fr_data = [], fr_offset = 0, fr_num = 0, fr_base_lg = 0\<rparr>;
          n = length contents
      in if n < 5 then r
         else
           let r = r\<lparr>fr_base_lg := scast (contents ! (n - 1))\<rparr>;
               last_word = unat (DecodeFixed32 (drop (n - 5) contents))
           in if last_word > n - 5 then r
              else r\<lparr>fr_data := contents, fr_offset := last_word, fr_num := (n - 5 - last_word) div 4\<rparr>)"

definition filter_KeyMayMatch ::
  "(slice \<Rightarrow> slice \<Rightarrow> bool) \<Rightarrow> filter_block_reader \<Rightarrow> u64 \<Rightarrow> slice \<Rightarrow> bool run" where
  "filter_KeyMayMatch may_match r block_offset key =
     (if fr_base_lg r \<ge> 64 then UB
      else
        let index = unat (drop_bit (unat (fr_base_lg r)) block_offset) in
        if index < fr_num r then
          let start = unat (DecodeFixed32 (drop (fr_offset r + index * 4) (fr_data r)));
              limit = unat (DecodeFixed32 (drop (fr_offset r + index * 4 + 4) (fr_data r)))
          in if start \<le> limit \<and> limit \<le> fr_offset r then
               Ret (may_match key (take (limit - start) (drop start (fr_data r))))
             else if start = limit then Ret False
             else Ret True
        else Ret True)"

section \<open>A client\<close>

text \<open>The sequence of calls that the header asks for: \<open>StartBlock\<close> and its keys, again and again, then \<open>Finish\<close>.\<close>

fun add_blocks ::
  "(slice list \<Rightarrow> slice \<Rightarrow> slice run) \<Rightarrow> (u64 \<times> slice list) list \<Rightarrow> filter_block_builder \<Rightarrow> filter_block_builder run" where
  "add_blocks create [] b = Ret b"
| "add_blocks create ((block_offset, keys) # blocks) b =
     rbind (StartBlock create block_offset b) (\<lambda>b. add_blocks create blocks (fold AddKey keys b))"

definition build_filter :: "(slice list \<Rightarrow> slice \<Rightarrow> slice run) \<Rightarrow> (u64 \<times> slice list) list \<Rightarrow> slice run" where
  "build_filter create blocks =
     rbind (add_blocks create blocks FilterBlockBuilder) (\<lambda>b. rbind (filter_Finish create b) (\<lambda>(contents, b). Ret contents))"

section \<open>What the builder holds\<close>

text \<open>The groups of keys that have a filter, their filters, and the keys that wait for the next one.\<close>

definition starts :: "slice list \<Rightarrow> nat list" where
  "starts keys = map (\<lambda>i. length (concat (take i keys))) [0..<length keys]"

definition offsets :: "slice list \<Rightarrow> u32 list" where
  "offsets filters = map (\<lambda>i. of_nat (length (concat (take i filters)))) [0..<length filters]"

definition holds :: "filter_block_builder \<Rightarrow> slice list \<Rightarrow> slice list \<Rightarrow> bool" where
  "holds b filters pending \<longleftrightarrow>
     fb_result b = concat filters \<and> fb_filter_offsets b = offsets filters \<and>
     fb_keys b = concat pending \<and> fb_start b = starts pending"

lemma starts_snoc: "starts (keys @ [key]) = starts keys @ [length (concat keys)]"
  by (simp add: starts_def)

lemma offsets_snoc: "offsets (fs @ [f]) = offsets fs @ [of_nat (length (concat fs))]"
  by (simp add: offsets_def)

lemma starts_Nil [simp]: "starts keys = [] \<longleftrightarrow> keys = []" "length (starts keys) = length keys" "starts [] = []"
  by (simp_all add: starts_def)

lemma length_offsets [simp]: "length (offsets fs) = length fs"
  by (simp add: offsets_def)

lemma AddKey_holds: "holds b filters pending \<Longrightarrow> holds (AddKey key b) filters (pending @ [key])"
  by (simp add: holds_def AddKey_def starts_snoc)

lemma AddKeys_hold: "holds b filters pending \<Longrightarrow> holds (fold AddKey keys b) filters (pending @ keys)"
proof (induction keys arbitrary: b pending)
  case (Cons key keys)
  from Cons.IH [OF AddKey_holds [OF Cons.prems], of key] show ?case by simp
qed simp

text \<open>The flattened keys are cut where they were joined.\<close>

lemma cut_keys:
  "map (\<lambda>i. take ((starts keys @ [length (concat keys)]) ! (i + 1) - (starts keys @ [length (concat keys)]) ! i)
       (drop ((starts keys @ [length (concat keys)]) ! i) (concat keys))) [0..<length keys] = keys"
proof (rule nth_equalityI)
  fix i
  assume "i < length (map (\<lambda>i. take ((starts keys @ [length (concat keys)]) ! (i + 1) - (starts keys @ [length (concat keys)]) ! i)
       (drop ((starts keys @ [length (concat keys)]) ! i) (concat keys))) [0..<length keys])"
  then have i: "i < length keys" by simp
  have at: "(starts keys @ [length (concat keys)]) ! j = length (concat (take j keys))" if "j \<le> length keys" for j
    using that by (cases "j = length keys") (simp_all add: starts_def nth_append)
  have "concat keys = concat (take i keys) @ keys ! i @ concat (drop (Suc i) keys)"
    using i by (metis append_take_drop_id concat_append Cons_nth_drop_Suc concat.simps(2))
  moreover have "length (concat (take (Suc i) keys)) = length (concat (take i keys)) + length (keys ! i)"
    using i by (simp add: take_Suc_conv_app_nth)
  ultimately have "take (length (concat (take (Suc i) keys)) - length (concat (take i keys)))
      (drop (length (concat (take i keys))) (concat keys)) = keys ! i"
    by simp
  then show "map (\<lambda>i. take ((starts keys @ [length (concat keys)]) ! (i + 1) - (starts keys @ [length (concat keys)]) ! i)
       (drop ((starts keys @ [length (concat keys)]) ! i) (concat keys))) [0..<length keys] ! i = keys ! i"
    using i at [of i] at [of "Suc i"] by simp
qed simp

context filter_policy begin

lemma GenerateFilter_holds:
  assumes "holds b filters pending" "good pending"
  shows "\<exists>b' f. GenerateFilter create b = Ret b' \<and> holds b' (filters @ [f]) [] \<and> (\<forall>key \<in> set pending. may_match key f)"
proof (cases "pending = []")
  case True
  then show ?thesis
    using assms(1) by (intro exI [of _ "b\<lparr>fb_filter_offsets := fb_filter_offsets b @ [of_nat (length (fb_result b))]\<rparr>"] exI [of _ "[]"])
      (simp add: GenerateFilter_def holds_def offsets_snoc)
next
  case False
  from creates [OF assms(2)] obtain f where
    f: "\<And>dst. create pending dst = Ret (dst @ f)" "\<forall>key \<in> set pending. may_match key f" by blast
  have b: "fb_result b = concat filters" "fb_filter_offsets b = offsets filters" "fb_keys b = concat pending"
    "fb_start b = starts pending" using assms(1) by (simp_all add: holds_def)
  show ?thesis
    using False f(2) unfolding GenerateFilter_def Let_def b starts_Nil cut_keys f(1)
    by (auto simp: holds_def offsets_snoc b)
qed

lemma generate_loop_holds:
  "holds b filters pending \<Longrightarrow> good pending \<Longrightarrow> length filters \<le> unat i \<Longrightarrow> unat i - length filters < fuel \<Longrightarrow>
     \<exists>b' fs. generate_loop fuel create i b = Ret b' \<and> length (filters @ fs) = unat i \<and>
       holds b' (filters @ fs) (if fs = [] then pending else []) \<and> (fs \<noteq> [] \<longrightarrow> (\<forall>key \<in> set pending. may_match key (hd fs)))"
proof (induction fuel arbitrary: b filters pending)
  case (Suc fuel)
  have n: "unat (of_nat (length filters) :: u64) = length filters"
  proof -
    have "unat i < 2 ^ LENGTH(64)" by (rule unsigned_less)
    then show ?thesis using Suc.prems(3) by (intro unat_of_nat_small) simp
  qed
  have offs: "fb_filter_offsets b = offsets filters" using Suc.prems(1) by (simp add: holds_def)
  show ?case
  proof (cases "length filters < unat i")
    case True
    from GenerateFilter_holds [OF Suc.prems(1,2)] obtain b1 f where
      b1: "GenerateFilter create b = Ret b1" "holds b1 (filters @ [f]) []" "\<forall>key \<in> set pending. may_match key f" by blast
    have "good []" using good_part [of "[]" "[]" pending] Suc.prems(2) by simp
    moreover have "length (filters @ [f]) \<le> unat i" "unat i - length (filters @ [f]) < fuel"
      using True Suc.prems(4) by auto
    ultimately obtain b' fs where b': "generate_loop fuel create i b1 = Ret b'" "length ((filters @ [f]) @ fs) = unat i"
      "holds b' ((filters @ [f]) @ fs) []"
      using Suc.IH [OF b1(2)] by (auto split: if_splits)
    then show ?thesis
      using True b1(1,3) n by (intro exI [of _ b'] exI [of _ "f # fs"]) (simp add: offs word_less_nat_alt)
  next
    case False
    then have "length filters = unat i" using Suc.prems(3) by simp
    then show ?thesis
      using Suc.prems(1) n by (intro exI [of _ b] exI [of _ "[]"]) (simp add: offs word_less_nat_alt)
  qed
qed simp

end

definition index_of :: "u64 \<Rightarrow> nat" where
  "index_of block_offset = unat (block_offset div kFilterBase)"

lemma index_of_shift: "index_of block_offset = unat (drop_bit 11 block_offset)"
  by (simp add: index_of_def kFilterBase_def kFilterBaseLg_def drop_bit_eq_div)

lemma index_of_mono: "a \<le> b \<Longrightarrow> index_of a \<le> index_of b"
  by (simp add: index_of_def unat_div word_le_nat_alt div_le_mono)

text \<open>Each key is in the filter of its block, or waits for it.\<close>

definition covered :: "(slice \<Rightarrow> slice \<Rightarrow> bool) \<Rightarrow> slice list \<Rightarrow> slice list \<Rightarrow> (u64 \<times> slice list) list \<Rightarrow> bool" where
  "covered may_match filters pending blocks \<longleftrightarrow> (\<forall>(off, keys) \<in> set blocks. \<forall>key \<in> set keys.
     index_of off < length filters \<and> may_match key (filters ! index_of off) \<or> index_of off = length filters \<and> key \<in> set pending)"

lemma covered_generate:
  assumes "covered may_match filters pending blocks" "fs \<noteq> [] \<Longrightarrow> \<forall>key \<in> set pending. may_match key (hd fs)"
  shows "covered may_match (filters @ fs) (if fs = [] then pending else []) blocks"
proof (cases fs)
  case (Cons f fs')
  then show ?thesis using assms by (fastforce simp: covered_def nth_append)
qed (use assms in simp)

lemma covered_add:
  "covered may_match filters pending blocks \<Longrightarrow> index_of off = length filters \<Longrightarrow>
     covered may_match filters (pending @ keys) (blocks @ [(off, keys)])"
  by (fastforce simp: covered_def)

context filter_policy begin

lemma StartBlock_holds:
  assumes "holds b filters pending" "good pending" "length filters \<le> index_of off" "covered may_match filters pending blocks"
  shows "\<exists>b' fs p. StartBlock create off b = Ret b' \<and> holds b' fs p \<and> length fs = index_of off \<and>
    covered may_match fs p blocks \<and> (p = pending \<or> p = [])"
proof -
  let ?i = "off div kFilterBase"
  from assms(3) have le: "length filters \<le> unat ?i" by (simp add: index_of_def)
  have "unat ?i - length filters < unat ?i + 1" by simp
  from generate_loop_holds [OF assms(1,2) le this] obtain b' fs where
    b': "generate_loop (unat ?i + 1) create ?i b = Ret b'" "length (filters @ fs) = unat ?i"
      "holds b' (filters @ fs) (if fs = [] then pending else [])" "fs \<noteq> [] \<Longrightarrow> \<forall>key \<in> set pending. may_match key (hd fs)"
    by blast
  have "fb_filter_offsets b = offsets filters" using assms(1) by (simp add: holds_def)
  moreover have "(of_nat (length filters) :: u64) \<le> ?i"
  proof -
    have "unat ?i < 2 ^ LENGTH(64)" by (rule unsigned_less)
    then have "unat (of_nat (length filters) :: u64) = length filters" using le by (intro unat_of_nat_small) simp
    then show ?thesis using le by (simp add: word_le_nat_alt)
  qed
  ultimately have "StartBlock create off b = Ret b'" using b'(1) by (simp add: StartBlock_def Let_def del: generate_loop.simps)
  moreover have "length (filters @ fs) = index_of off" using b'(2) by (simp add: index_of_def)
  moreover note b'(3) covered_generate [OF assms(4) b'(4)]
  ultimately show ?thesis
    by (intro exI [of _ b'] exI [of _ "filters @ fs"] exI [of _ "if fs = [] then pending else []"]) simp
qed

lemma add_blocks_cover:
  "holds b filters pending \<Longrightarrow> good (pending @ concat (map snd blocks)) \<Longrightarrow> covered may_match filters pending past \<Longrightarrow>
   sorted (map fst blocks) \<Longrightarrow> (blocks \<noteq> [] \<Longrightarrow> length filters \<le> index_of (fst (hd blocks))) \<Longrightarrow>
     \<exists>b' fs p. add_blocks create blocks b = Ret b' \<and> holds b' fs p \<and> good p \<and> covered may_match fs p (past @ blocks)"
proof (induction blocks arbitrary: b filters pending past)
  case (Cons block blocks)
  obtain off keys where block: "block = (off, keys)" by fastforce
  have "good pending" using good_part [of "[]" pending] Cons.prems(2) by simp
  from StartBlock_holds [OF Cons.prems(1) this _ Cons.prems(3), of off] Cons.prems(5) block obtain b1 fs p where
    b1: "StartBlock create off b = Ret b1" "holds b1 fs p" "length fs = index_of off" "covered may_match fs p past"
      "p = pending \<or> p = []" by auto
  have "good ((p @ keys) @ concat (map snd blocks))"
    using b1(5) Cons.prems(2) block good_part [of pending "keys @ concat (map snd blocks)" "[]"] by auto
  moreover have "blocks \<noteq> [] \<Longrightarrow> length fs \<le> index_of (fst (hd blocks))"
    using Cons.prems(4) block b1(3) by (cases blocks) (auto intro: index_of_mono)
  ultimately obtain b' fs' p' where "add_blocks create blocks (fold AddKey keys b1) = Ret b'" "holds b' fs' p'" "good p'"
    "covered may_match fs' p' ((past @ [(off, keys)]) @ blocks)"
    using Cons.IH [OF AddKeys_hold [OF b1(2), of keys] _ covered_add [OF b1(4) b1(3) [symmetric], of keys]] Cons.prems(4)
    by auto
  then show ?case using b1(1) block by auto
qed auto

end

section \<open>What the reader finds\<close>

definition filter_image :: "slice list \<Rightarrow> slice" where
  "filter_image fs = concat fs @ concat (map EncodeFixed32 (offsets fs)) @ EncodeFixed32 (of_nat (length (concat fs))) @ [11]"

lemma put_offsets: "fold (\<lambda>offset result. PutFixed32 result offset) os result = result @ concat (map EncodeFixed32 os)"
  by (induction os arbitrary: result) (simp_all add: PutFixed32_def)

lemma filter_Finish_image:
  "holds b fs [] \<Longrightarrow> \<exists>b'. filter_Finish create b = Ret (filter_image fs, b')"
  unfolding filter_Finish_def Let_def put_offsets
  by (simp add: holds_def PutFixed32_def filter_image_def kFilterBaseLg_def)

context filter_policy begin

lemma Finish_covers:
  assumes "holds b fs p" "good p" "covered may_match fs p blocks"
  shows "\<exists>b' fs'. filter_Finish create b = Ret (filter_image fs', b') \<and> covered may_match fs' [] blocks"
proof (cases "p = []")
  case True
  then show ?thesis using filter_Finish_image [of b fs create] assms by auto
next
  case False
  from GenerateFilter_holds [OF assms(1,2)] obtain b1 f where
    b1: "GenerateFilter create b = Ret b1" "holds b1 (fs @ [f]) []" "\<forall>key \<in> set p. may_match key f" by blast
  have "fb_start b \<noteq> []" "fb_start b1 = []" using assms(1) b1(2) False by (simp_all add: holds_def)
  then have "filter_Finish create b = filter_Finish create b1" using b1(1) by (simp add: filter_Finish_def)
  then show ?thesis
    using filter_Finish_image [OF b1(2), of create] covered_generate [OF assms(3), of "[f]"] b1(3) by auto
qed

end

lemma image_words:
  assumes "length (filter_image fs) < 2 ^ 32" "i \<le> length fs"
  shows "DecodeFixed32 (drop (length (concat fs) + i * 4) (filter_image fs)) = of_nat (length (concat (take i fs)))"
proof -
  have len: "length (concat (map EncodeFixed32 os)) = length os * 4" for os by (induction os) simp_all
  define os where "os = offsets fs @ [of_nat (length (concat fs))]"
  have i: "i < length os" using assms(2) by (simp add: os_def)
  have "filter_image fs = concat fs @ concat (map EncodeFixed32 os) @ [11]" by (simp add: filter_image_def os_def)
  moreover have "concat (map EncodeFixed32 os) = concat (map EncodeFixed32 (take i os)) @ EncodeFixed32 (os ! i) @ concat (map EncodeFixed32 (drop (Suc i) os))"
    using i by (metis append_take_drop_id concat.simps(2) concat_append Cons_nth_drop_Suc list.simps(9) map_append)
  moreover have "length (concat (map EncodeFixed32 (take i os))) = i * 4" using i by (simp add: len)
  ultimately have "drop (length (concat fs) + i * 4) (filter_image fs) =
      EncodeFixed32 (os ! i) @ concat (map EncodeFixed32 (drop (Suc i) os)) @ [11]" by simp
  moreover have "os ! i = of_nat (length (concat (take i fs)))"
    using assms(2) by (cases "i = length fs") (simp_all add: os_def offsets_def nth_append)
  ultimately show ?thesis by simp
qed

lemma image_reader:
  assumes "length (filter_image fs) < 2 ^ 32" "index_of off < length fs"
  shows "filter_KeyMayMatch may_match (FilterBlockReader (filter_image fs)) off key = Ret (may_match key (fs ! index_of off))"
proof -
  let ?R = "length (concat fs)" and ?n = "length (filter_image fs)" and ?i = "index_of off"
  have "length (concat (map EncodeFixed32 os)) = length os * 4" for os by (induction os) simp_all
  then have n: "?n = ?R + length fs * 4 + 5" by (simp add: filter_image_def)
  have lg: "filter_image fs ! (?n - 1) = 11"
    by (subst last_conv_nth [symmetric]) (simp_all add: filter_image_def)
  note lg = lg [unfolded n, simplified]
  have base: "scast (11 :: byte) = (11 :: u64)" using small_char [of 11] by (simp add: word_le_nat_alt)
  have small: "unat (of_nat (length (concat (take j fs))) :: u32) = length (concat (take j fs))" for j
  proof -
    have "length (concat (take j fs)) + length (concat (drop j fs)) = ?R"
      by (metis append_take_drop_id concat_append length_append)
    then show ?thesis using n assms(1) by (simp add: unat_of_nat_small)
  qed
  have "DecodeFixed32 (drop (?n - 5) (filter_image fs)) = of_nat ?R"
    using image_words [OF assms(1), of "length fs"] by (simp add: n)
  then have r: "FilterBlockReader (filter_image fs) =
      \<lparr>fr_data = filter_image fs, fr_offset = ?R, fr_num = length fs, fr_base_lg = 11\<rparr>"
    using small [of "length fs"] n lg base by (simp add: FilterBlockReader_def Let_def n)
  have "DecodeFixed32 (drop (?R + ?i * 4) (filter_image fs)) = of_nat (length (concat (take ?i fs)))"
    "DecodeFixed32 (drop (?R + ?i * 4 + 4) (filter_image fs)) = of_nat (length (concat (take (Suc ?i) fs)))"
    using image_words [OF assms(1), of ?i] image_words [OF assms(1), of "Suc ?i"] assms(2) by (simp_all add: ac_simps)
  moreover have take: "length (concat (take (Suc ?i) fs)) = length (concat (take ?i fs)) + length (fs ! ?i)"
    using assms(2) by (simp add: take_Suc_conv_app_nth)
  moreover have "concat fs = concat (take ?i fs) @ fs ! ?i @ concat (drop (Suc ?i) fs)"
    using assms(2) by (metis append_take_drop_id concat_append Cons_nth_drop_Suc concat.simps(2))
  then have "take (length (fs ! ?i)) (drop (length (concat (take ?i fs))) (filter_image fs)) = fs ! ?i"
    "length (concat (take ?i fs)) + length (fs ! ?i) \<le> ?R"
    by (simp_all add: filter_image_def)
  ultimately show ?thesis
    using assms(2) small [of ?i] small [of "Suc ?i"]
    by (simp add: r filter_KeyMayMatch_def Let_def flip: index_of_shift)
qed

section \<open>Properties\<close>

text \<open>C28: A filter block has no false negatives, for every filter policy that has none: after the blocks of a table
were added in the order of their offsets, each key matches at the offset of its block.\<close>

theorem filter_block_no_false_negatives:
  assumes "filter_policy good create may_match" "good (concat (map snd blocks))" "sorted (map fst blocks)"
  shows "\<exists>contents. build_filter create blocks = Ret contents \<and>
    (length contents < 2 ^ 32 \<longrightarrow> (\<forall>(block_offset, keys) \<in> set blocks. \<forall>key \<in> set keys.
       filter_KeyMayMatch may_match (FilterBlockReader contents) block_offset key = Ret True))"
proof -
  have "holds FilterBlockBuilder [] []" by (simp add: holds_def FilterBlockBuilder_def offsets_def)
  from filter_policy.add_blocks_cover [OF assms(1) this, of blocks "[]"] assms(2,3) obtain b fs p where
    b: "add_blocks create blocks FilterBlockBuilder = Ret b" "holds b fs p" "good p" "covered may_match fs p blocks"
    by (auto simp: covered_def)
  from filter_policy.Finish_covers [OF assms(1) b(2-)] obtain b' fs' where
    fin: "filter_Finish create b = Ret (filter_image fs', b')" "covered may_match fs' [] blocks" by blast
  have "filter_KeyMayMatch may_match (FilterBlockReader (filter_image fs')) off key = Ret True"
    if "length (filter_image fs') < 2 ^ 32" "(off, keys) \<in> set blocks" "key \<in> set keys" for off keys key
    using that fin(2) image_reader [OF that(1), of off] by (fastforce simp: covered_def)
  then show ?thesis using b(1) fin(1) by (auto simp: build_filter_def)
qed

lemma filter_block_no_false_negatives_witness:
  "\<exists>contents. build_filter (CreateFilter \<lparr>bits_per_key = 10, bloom_k = 6\<rparr>) [(0, [[1], [2, 3]]), (5000, [[4]])] = Ret contents \<and>
    (length contents < 2 ^ 32 \<longrightarrow> (\<forall>(block_offset, keys) \<in> set [(0, [[1], [2, 3]]), (5000, [[4]])]. \<forall>key \<in> set keys.
       filter_KeyMayMatch KeyMayMatch (FilterBlockReader contents) block_offset key = Ret True))"
  by (rule filter_block_no_false_negatives [OF bloom.filter_policy_axioms])
    (simp_all add: bloom_good_def bloom_ok_def word_le_nat_alt word_less_nat_alt)

end
