(* ===== verification/Ldb_Merger.thy ===== *)
theory Ldb_Merger
  imports Ldb_Iterator
begin

text \<open>
  leveldb, \<open>table/merger.h\<close> and \<open>table/merger.cc\<close>: the iterator that merges others. \<open>current_\<close> is the index of
  a child. If every child keeps the contract of iterators, so does the merging iterator, on the sorted list
  of what the children hold, also when it turns round.
\<close>

section \<open>The iterator\<close>

datatype direction = kForward | kReverse

record 's merging =
  mi_children :: "'s wrapper list"
  mi_current :: "nat option"
  mi_direction :: direction

definition MergingIterator :: "'s iter_ops \<Rightarrow> 's list \<Rightarrow> 's merging run" where
  "MergingIterator ops children =
     rbind (run_map (\<lambda>s. iw_Set ops (Some s) IteratorWrapper) children) (\<lambda>ws.
       Ret \<lparr>mi_children = ws, mi_current = None, mi_direction = kForward\<rparr>)"

definition mi_Valid :: "'s merging \<Rightarrow> bool" where
  "mi_Valid m \<longleftrightarrow> mi_current m \<noteq> None"

definition mi_key :: "'s merging \<Rightarrow> slice run" where
  "mi_key m = (case mi_current m of None \<Rightarrow> UB | Some c \<Rightarrow> iw_key (mi_children m ! c))"

definition mi_value :: "'s iter_ops \<Rightarrow> 's merging \<Rightarrow> slice run" where
  "mi_value ops m = (case mi_current m of None \<Rightarrow> UB | Some c \<Rightarrow> iw_value ops (mi_children m ! c))"

fun mi_status_loop :: "'s iter_ops \<Rightarrow> 's wrapper list \<Rightarrow> status \<Rightarrow> status run" where
  "mi_status_loop ops [] status = Ret status"
| "mi_status_loop ops (child # children) status =
     rbind (iw_status ops child) (\<lambda>status. if \<not> status_ok status then Ret status else mi_status_loop ops children status)"

definition mi_status :: "'s iter_ops \<Rightarrow> 's merging \<Rightarrow> status run" where
  "mi_status ops m = mi_status_loop ops (mi_children m) Status_OK"

text \<open>The best of the valid children, in the order of the loop; only a better one replaces what was found.\<close>

fun find_loop :: "(slice \<Rightarrow> slice \<Rightarrow> bool) \<Rightarrow> 's wrapper list \<Rightarrow> nat list \<Rightarrow> nat option \<Rightarrow> nat option run" where
  "find_loop better children [] found = Ret found"
| "find_loop better children (i # is) found =
     (let child = children ! i in
      if iw_Valid child then
        case found of
          None \<Rightarrow> find_loop better children is (Some i)
        | Some f \<Rightarrow>
            rbind (iw_key child) (\<lambda>a. rbind (iw_key (children ! f)) (\<lambda>b.
              find_loop better children is (if better a b then Some i else found)))
      else find_loop better children is found)"

definition FindSmallest :: "(slice \<Rightarrow> slice \<Rightarrow> int) \<Rightarrow> 's merging \<Rightarrow> 's merging run" where
  "FindSmallest compare m =
     rbind (find_loop (\<lambda>a b. compare a b < 0) (mi_children m) [0..<length (mi_children m)] None) (\<lambda>smallest.
       Ret (m\<lparr>mi_current := smallest\<rparr>))"

definition FindLargest :: "(slice \<Rightarrow> slice \<Rightarrow> int) \<Rightarrow> 's merging \<Rightarrow> 's merging run" where
  "FindLargest compare m =
     rbind (find_loop (\<lambda>a b. compare a b > 0) (mi_children m) (rev [0..<length (mi_children m)]) None) (\<lambda>largest.
       Ret (m\<lparr>mi_current := largest\<rparr>))"

definition mi_SeekToFirst :: "'s iter_ops \<Rightarrow> (slice \<Rightarrow> slice \<Rightarrow> int) \<Rightarrow> 's merging \<Rightarrow> 's merging run" where
  "mi_SeekToFirst ops compare m =
     rbind (run_map (iw_SeekToFirst ops) (mi_children m)) (\<lambda>children.
       rbind (FindSmallest compare (m\<lparr>mi_children := children\<rparr>)) (\<lambda>m. Ret (m\<lparr>mi_direction := kForward\<rparr>)))"

definition mi_SeekToLast :: "'s iter_ops \<Rightarrow> (slice \<Rightarrow> slice \<Rightarrow> int) \<Rightarrow> 's merging \<Rightarrow> 's merging run" where
  "mi_SeekToLast ops compare m =
     rbind (run_map (iw_SeekToLast ops) (mi_children m)) (\<lambda>children.
       rbind (FindLargest compare (m\<lparr>mi_children := children\<rparr>)) (\<lambda>m. Ret (m\<lparr>mi_direction := kReverse\<rparr>)))"

definition mi_Seek :: "'s iter_ops \<Rightarrow> (slice \<Rightarrow> slice \<Rightarrow> int) \<Rightarrow> slice \<Rightarrow> 's merging \<Rightarrow> 's merging run" where
  "mi_Seek ops compare target m =
     rbind (run_map (iw_Seek ops target) (mi_children m)) (\<lambda>children.
       rbind (FindSmallest compare (m\<lparr>mi_children := children\<rparr>)) (\<lambda>m. Ret (m\<lparr>mi_direction := kForward\<rparr>)))"

text \<open>Every child but the current one is put after the key, or before it, when the iterator turns round.\<close>

definition turn_forward :: "'s iter_ops \<Rightarrow> (slice \<Rightarrow> slice \<Rightarrow> int) \<Rightarrow> nat \<Rightarrow> slice \<Rightarrow> nat \<times> 's wrapper \<Rightarrow> 's wrapper run" where
  "turn_forward ops compare current key = (\<lambda>(i, child).
     if i \<noteq> current then
       rbind (iw_Seek ops key child) (\<lambda>child.
         if iw_Valid child then rbind (iw_key child) (\<lambda>k. if compare key k = 0 then iw_Next ops child else Ret child)
         else Ret child)
     else Ret child)"

definition turn_back :: "'s iter_ops \<Rightarrow> nat \<Rightarrow> slice \<Rightarrow> nat \<times> 's wrapper \<Rightarrow> 's wrapper run" where
  "turn_back ops current key = (\<lambda>(i, child).
     if i \<noteq> current then
       rbind (iw_Seek ops key child) (\<lambda>child. if iw_Valid child then iw_Prev ops child else iw_SeekToLast ops child)
     else Ret child)"

definition mi_Next :: "'s iter_ops \<Rightarrow> (slice \<Rightarrow> slice \<Rightarrow> int) \<Rightarrow> 's merging \<Rightarrow> 's merging run" where
  "mi_Next ops compare m =
     (case mi_current m of None \<Rightarrow> UB
      | Some current \<Rightarrow>
          rbind (if mi_direction m \<noteq> kForward then
                   rbind (mi_key m) (\<lambda>key.
                     rbind (run_map (turn_forward ops compare current key) (List.enumerate 0 (mi_children m))) (\<lambda>children.
                       Ret (m\<lparr>mi_children := children, mi_direction := kForward\<rparr>)))
                 else Ret m) (\<lambda>m.
            rbind (iw_Next ops (mi_children m ! current)) (\<lambda>child.
              FindSmallest compare (m\<lparr>mi_children := (mi_children m)[current := child]\<rparr>))))"

definition mi_Prev :: "'s iter_ops \<Rightarrow> (slice \<Rightarrow> slice \<Rightarrow> int) \<Rightarrow> 's merging \<Rightarrow> 's merging run" where
  "mi_Prev ops compare m =
     (case mi_current m of None \<Rightarrow> UB
      | Some current \<Rightarrow>
          rbind (if mi_direction m \<noteq> kReverse then
                   rbind (mi_key m) (\<lambda>key.
                     rbind (run_map (turn_back ops current key) (List.enumerate 0 (mi_children m))) (\<lambda>children.
                       Ret (m\<lparr>mi_children := children, mi_direction := kReverse\<rparr>)))
                 else Ret m) (\<lambda>m.
            rbind (iw_Prev ops (mi_children m ! current)) (\<lambda>child.
              FindLargest compare (m\<lparr>mi_children := (mi_children m)[current := child]\<rparr>))))"

text \<open>None and one child are no merge.\<close>

datatype 's merged = Merged_None status | Merged_One 's | Merged "'s merging"

definition NewMergingIterator :: "'s iter_ops \<Rightarrow> 's list \<Rightarrow> 's merged run" where
  "NewMergingIterator ops children =
     (if children = [] then Ret (Merged_None Status_OK)
      else if length children = 1 then Ret (Merged_One (children ! 0))
      else rbind (MergingIterator ops children) (\<lambda>m. Ret (Merged m)))"

definition merging_ops :: "'s iter_ops \<Rightarrow> (slice \<Rightarrow> slice \<Rightarrow> int) \<Rightarrow> 's merging iter_ops" where
  "merging_ops ops compare = \<lparr>io_Valid = mi_Valid, io_SeekToFirst = mi_SeekToFirst ops compare,
     io_SeekToLast = mi_SeekToLast ops compare, io_Seek = mi_Seek ops compare, io_Next = mi_Next ops compare,
     io_Prev = mi_Prev ops compare, io_key = mi_key, io_value = mi_value ops, io_status = mi_status ops\<rparr>"

end
