(* ===== verification/Ldb_Merge_Iter.thy ===== *)
theory Ldb_Merge_Iter
  imports Ldb_Merger Ldb_Block_Build
begin

text \<open>
  The merging iterator keeps the contract of iterators. Its children are cursors of sorted lists with no key in
  common; it is a cursor of their sorted union. The position is the number of entries that satisfy a
  predicate that holds of a prefix of every sorted list; \<open>FindSmallest\<close> finds the first entry after it and
  \<open>FindLargest\<close> the last one before it.
\<close>

section \<open>Sorted lists of pairs\<close>

abbreviation pre :: "(pair \<Rightarrow> bool) \<Rightarrow> pair list \<Rightarrow> nat" where
  "pre P kvs \<equiv> length (takeWhile P kvs)"

context iterator_contract begin

definition down :: "(pair \<Rightarrow> bool) \<Rightarrow> bool" where
  "down P \<longleftrightarrow> (\<forall>x y. valid (fst x) \<longrightarrow> valid (fst y) \<longrightarrow> compare (fst x) (fst y) < 0 \<longrightarrow> P y \<longrightarrow> P x)"

lemma down_less: "valid k \<Longrightarrow> down (\<lambda>x. compare (fst x) k < 0)"
  by (simp add: down_def) (blast intro: compare_less_trans)

lemma down_le: "valid k \<Longrightarrow> down (\<lambda>x. compare (fst x) k \<le> 0)"
  by (simp add: down_def) (blast intro: compare_trans less_imp_le)

lemma down_const: "down (\<lambda>_. b)"
  by (simp add: down_def)

lemma sorted_nth:
  "sorted_pairs valid compare kvs \<Longrightarrow> i < length kvs \<Longrightarrow> valid (fst (kvs ! i))"
  "sorted_pairs valid compare kvs \<Longrightarrow> i < length kvs \<Longrightarrow> j < length kvs \<Longrightarrow>
     compare (fst (kvs ! i)) (fst (kvs ! j)) < 0 \<longleftrightarrow> i < j"
proof -
  show val: "sorted_pairs valid compare kvs \<Longrightarrow> i < length kvs \<Longrightarrow> valid (fst (kvs ! i))" for i
    by (simp add: sorted_pairs_def)
  assume s: "sorted_pairs valid compare kvs" "i < length kvs" "j < length kvs"
  have less: "a < b \<Longrightarrow> b < length kvs \<Longrightarrow> compare (fst (kvs ! a)) (fst (kvs ! b)) < 0" for a b
    using s(1) by (simp add: sorted_pairs_def sorted_wrt_iff_nth_less)
  show "compare (fst (kvs ! i)) (fst (kvs ! j)) < 0 \<longleftrightarrow> i < j"
    using less [of i j] less [of j i] s compare_refl [OF val [OF s(1,2)]] compare_flip [OF val [OF s(1,3)] val [OF s(1,2)]]
    by (cases i j rule: linorder_cases) auto
qed

lemma sorted_nth_le:
  "sorted_pairs valid compare kvs \<Longrightarrow> i < length kvs \<Longrightarrow> j < length kvs \<Longrightarrow>
     compare (fst (kvs ! i)) (fst (kvs ! j)) \<le> 0 \<longleftrightarrow> i \<le> j"
  using sorted_nth(2) [of kvs j i] sorted_nth(1) [of kvs i] sorted_nth(1) [of kvs j]
    compare_flip [of "fst (kvs ! j)" "fst (kvs ! i)"] by auto

text \<open>On a sorted list, the entries that satisfy a downward closed predicate are a prefix.\<close>

lemma pre_iff:
  assumes "sorted_pairs valid compare kvs" "down P" "i < length kvs"
  shows "P (kvs ! i) \<longleftrightarrow> i < pre P kvs"
proof
  assume "i < pre P kvs"
  then have "takeWhile P kvs ! i \<in> set (takeWhile P kvs)" by (rule nth_mem)
  then show "P (kvs ! i)" using set_takeWhileD takeWhile_nth [OF \<open>i < pre P kvs\<close>] by fastforce
next
  assume i: "P (kvs ! i)"
  show "i < pre P kvs"
  proof (rule ccontr)
    assume n: "\<not> i < pre P kvs"
    then have m: "pre P kvs < length kvs" using assms(3) by simp
    then have not: "\<not> P (kvs ! pre P kvs)" by (rule nth_length_takeWhile)
    then have "pre P kvs < i" using n i by (cases "pre P kvs = i") auto
    then have "compare (fst (kvs ! pre P kvs)) (fst (kvs ! i)) < 0"
      using sorted_nth(2) [OF assms(1) m assms(3)] by simp
    then show False
      using not i assms(2) sorted_nth(1) [OF assms(1) m] sorted_nth(1) [OF assms(1,3)] unfolding down_def by blast
  qed
qed

lemma pre_cong: "(\<And>x. x \<in> set kvs \<Longrightarrow> P x \<longleftrightarrow> Q x) \<Longrightarrow> pre P kvs = pre Q kvs"
  by (rule arg_cong [where f = length]) (rule takeWhile_cong, auto)

lemma pre_le: "pre P kvs \<le> length kvs"
  by (rule length_takeWhile_le)

lemma pre_key:
  assumes "sorted_pairs valid compare kvs" "i < length kvs"
  shows "pre (\<lambda>x. compare (fst x) (fst (kvs ! i)) < 0) kvs = i" "pre (\<lambda>x. compare (fst x) (fst (kvs ! i)) \<le> 0) kvs = Suc i"
proof -
  have val: "valid (fst (kvs ! i))" using sorted_nth(1) [OF assms] .
  have "j < pre (\<lambda>x. compare (fst x) (fst (kvs ! i)) < 0) kvs \<longleftrightarrow> j < i" if "j < length kvs" for j
    using pre_iff [OF assms(1) down_less [OF val] that] sorted_nth(2) [OF assms(1) that assms(2)] by simp
  then show "pre (\<lambda>x. compare (fst x) (fst (kvs ! i)) < 0) kvs = i"
    using assms(2) pre_le [of "\<lambda>x. compare (fst x) (fst (kvs ! i)) < 0" kvs]
    by (metis le_antisym le_neq_implies_less less_irrefl not_le)
  have "j < pre (\<lambda>x. compare (fst x) (fst (kvs ! i)) \<le> 0) kvs \<longleftrightarrow> j < Suc i" if "j < length kvs" for j
    using pre_iff [OF assms(1) down_le [OF val] that] sorted_nth_le [OF assms(1) that assms(2)]
    by (simp add: less_Suc_eq_le)
  then show "pre (\<lambda>x. compare (fst x) (fst (kvs ! i)) \<le> 0) kvs = Suc i"
    using assms(2) pre_le [of "\<lambda>x. compare (fst x) (fst (kvs ! i)) \<le> 0" kvs]
    by (metis Suc_leI le_antisym le_neq_implies_less lessI less_irrefl not_le)
qed

section \<open>The union of the children\<close>

definition union_of :: "pair list list \<Rightarrow> pair list \<Rightarrow> bool" where
  "union_of Ls kvs \<longleftrightarrow> sorted_pairs valid compare kvs \<and> (\<forall>L \<in> set Ls. sorted_pairs valid compare L) \<and>
     set kvs = (\<Union>L \<in> set Ls. set L) \<and>
     (\<forall>j < length Ls. \<forall>j' < length Ls. j \<noteq> j' \<longrightarrow> set (Ls ! j) \<inter> set (Ls ! j') = {})"

lemma union_nth:
  assumes "union_of Ls kvs" "j < length Ls"
  shows "sorted_pairs valid compare (Ls ! j)" "i < length (Ls ! j) \<Longrightarrow> \<exists>m < length kvs. kvs ! m = Ls ! j ! i"
proof -
  show "sorted_pairs valid compare (Ls ! j)" using assms by (simp add: union_of_def)
  assume "i < length (Ls ! j)"
  then have "Ls ! j ! i \<in> set (Ls ! j)" "Ls ! j \<in> set Ls" using assms(2) by simp_all
  then have "Ls ! j ! i \<in> set kvs" using assms(1) by (auto simp: union_of_def)
  then show "\<exists>m < length kvs. kvs ! m = Ls ! j ! i" by (simp add: in_set_conv_nth)
qed

lemma union_disjoint:
  "union_of Ls kvs \<Longrightarrow> j < length Ls \<Longrightarrow> c < length Ls \<Longrightarrow> y \<in> set (Ls ! j) \<Longrightarrow> y \<in> set (Ls ! c) \<Longrightarrow> j = c"
  unfolding union_of_def by blast

text \<open>The child that holds an entry of the union; every other child has smaller and larger keys only.\<close>

lemma union_child:
  assumes "union_of Ls kvs" "m < length kvs"
  shows "\<exists>c < length Ls. \<exists>i < length (Ls ! c). Ls ! c ! i = kvs ! m"
proof -
  have "kvs ! m \<in> set kvs" using assms(2) by simp
  then obtain L where "L \<in> set Ls" "kvs ! m \<in> set L" using assms(1) by (auto simp: union_of_def)
  then show ?thesis by (metis in_set_conv_nth)
qed

text \<open>The entry of the union after the prefix is the first one after it in its child; it is before those of the others.\<close>

lemma union_after:
  assumes u: "union_of Ls kvs" and d: "down P" and m: "pre P kvs < length kvs"
  defines "x \<equiv> kvs ! pre P kvs"
  shows "j < length Ls \<Longrightarrow> pre P (Ls ! j) = first_at compare (fst x) (Ls ! j)"
    and "\<exists>c < length Ls. pre P (Ls ! c) < length (Ls ! c) \<and> Ls ! c ! pre P (Ls ! c) = x \<and>
      (\<forall>j < length Ls. j \<noteq> c \<longrightarrow> pre P (Ls ! j) < length (Ls ! j) \<longrightarrow> compare (fst x) (fst (Ls ! j ! pre P (Ls ! j))) < 0)"
proof -
  have s: "sorted_pairs valid compare kvs" using u by (simp add: union_of_def)
  have P: "P (kvs ! i) \<longleftrightarrow> compare (fst (kvs ! i)) (fst x) < 0" if "i < length kvs" for i
    using pre_iff [OF s d that] sorted_nth(2) [OF s that m] by (simp add: x_def)
  have first: "pre P (Ls ! j) = first_at compare (fst x) (Ls ! j)" if "j < length Ls" for j
    unfolding first_at_def
  proof (rule pre_cong)
    fix y assume "y \<in> set (Ls ! j)"
    then have "y \<in> set kvs" using u that by (auto simp: union_of_def)
    then show "P y \<longleftrightarrow> compare (fst y) (fst x) < 0" using P by (auto simp: in_set_conv_nth)
  qed
  then show "j < length Ls \<Longrightarrow> pre P (Ls ! j) = first_at compare (fst x) (Ls ! j)" .
  obtain c i where c: "c < length Ls" "i < length (Ls ! c)" "Ls ! c ! i = x"
    using union_child [OF u m] by (auto simp: x_def)
  have "pre P (Ls ! c) = i"
    using first [OF c(1)] pre_key(1) [OF union_nth(1) [OF u c(1)] c(2)] c(3) by (simp add: first_at_def)
  moreover have "compare (fst x) (fst (Ls ! j ! pre P (Ls ! j))) < 0"
    if j: "j < length Ls" "j \<noteq> c" "pre P (Ls ! j) < length (Ls ! j)" for j
  proof -
    obtain n where n: "n < length kvs" "kvs ! n = Ls ! j ! pre P (Ls ! j)" using union_nth(2) [OF u j(1,3)] by auto
    have "\<not> P (kvs ! n)" using nth_length_takeWhile [OF j(3)] n(2) by simp
    then have "pre P kvs \<le> n" using pre_iff [OF s d n(1)] by simp
    moreover have "kvs ! n \<noteq> x"
    proof
      assume "kvs ! n = x"
      then have "x \<in> set (Ls ! j)" using n(2) j(3) by (metis nth_mem)
      moreover have "x \<in> set (Ls ! c)" using c(2,3) by (metis nth_mem)
      ultimately show False using union_disjoint [OF u j(1) c(1)] j(2) by blast
    qed
    ultimately have "pre P kvs < n" by (cases "pre P kvs = n") (auto simp: x_def)
    then show ?thesis using sorted_nth(2) [OF s m n(1)] n(2) by (simp add: x_def)
  qed
  ultimately show "\<exists>c < length Ls. pre P (Ls ! c) < length (Ls ! c) \<and> Ls ! c ! pre P (Ls ! c) = x \<and>
      (\<forall>j < length Ls. j \<noteq> c \<longrightarrow> pre P (Ls ! j) < length (Ls ! j) \<longrightarrow> compare (fst x) (fst (Ls ! j ! pre P (Ls ! j))) < 0)"
    using c by auto
qed

text \<open>The entry before the end of the prefix is the last one of it in its child; it is after those of the others.\<close>

lemma union_before:
  assumes u: "union_of Ls kvs" and d: "down P" and m: "0 < pre P kvs"
  defines "x \<equiv> kvs ! (pre P kvs - 1)"
  shows "\<exists>c < length Ls. 0 < pre P (Ls ! c) \<and> Ls ! c ! (pre P (Ls ! c) - 1) = x \<and>
      (\<forall>j < length Ls. j \<noteq> c \<longrightarrow> pre P (Ls ! j) = first_at compare (fst x) (Ls ! j) \<and>
        (0 < pre P (Ls ! j) \<longrightarrow> compare (fst (Ls ! j ! (pre P (Ls ! j) - 1))) (fst x) < 0))"
proof -
  have s: "sorted_pairs valid compare kvs" using u by (simp add: union_of_def)
  have m': "pre P kvs - 1 < length kvs" using m pre_le [of P kvs] by linarith
  have P: "P (kvs ! i) \<longleftrightarrow> compare (fst (kvs ! i)) (fst x) \<le> 0" if "i < length kvs" for i
    using pre_iff [OF s d that] sorted_nth_le [OF s that m'] m unfolding x_def by linarith
  have P': "P y \<longleftrightarrow> compare (fst y) (fst x) \<le> 0" if "j < length Ls" "y \<in> set (Ls ! j)" for j y
  proof -
    have "y \<in> set kvs" using u that by (auto simp: union_of_def)
    then show ?thesis using P by (auto simp: in_set_conv_nth)
  qed
  obtain c i where c: "c < length Ls" "i < length (Ls ! c)" "Ls ! c ! i = x"
    using union_child [OF u m'] by (auto simp: x_def)
  have "pre P (Ls ! c) = pre (\<lambda>y. compare (fst y) (fst x) \<le> 0) (Ls ! c)" by (rule pre_cong) (rule P' [OF c(1)])
  then have pc: "pre P (Ls ! c) = Suc i" using pre_key(2) [OF union_nth(1) [OF u c(1)] c(2)] c(3) by simp
  have "compare (fst y) (fst x) < 0 \<longleftrightarrow> P y" if j: "j < length Ls" "j \<noteq> c" "y \<in> set (Ls ! j)" for j y
  proof -
    have "y \<in> set kvs" using u j by (auto simp: union_of_def)
    then obtain n where n: "n < length kvs" "kvs ! n = y" by (auto simp: in_set_conv_nth)
    have "x \<in> set (Ls ! c)" using c(2,3) by (metis nth_mem)
    then have "y \<noteq> x" using union_disjoint [OF u j(1) c(1)] j(2,3) by blast
    then have "n \<noteq> pre P kvs - 1" using n(2) by (auto simp: x_def)
    then show ?thesis
      using P [OF n(1)] sorted_nth_le [OF s n(1) m'] sorted_nth(2) [OF s n(1) m'] n(2) unfolding x_def by auto
  qed
  note others = this
  have rest: "pre P (Ls ! j) = first_at compare (fst x) (Ls ! j)"
    "0 < pre P (Ls ! j) \<Longrightarrow> compare (fst (Ls ! j ! (pre P (Ls ! j) - 1))) (fst x) < 0" if j: "j < length Ls" "j \<noteq> c" for j
  proof -
    show "pre P (Ls ! j) = first_at compare (fst x) (Ls ! j)"
      unfolding first_at_def by (rule pre_cong) (simp add: others [OF j])
    assume pos: "0 < pre P (Ls ! j)"
    then have l: "pre P (Ls ! j) - 1 < length (Ls ! j)" using pre_le [of P "Ls ! j"] by linarith
    then have "P (Ls ! j ! (pre P (Ls ! j) - 1))" using pre_iff [OF union_nth(1) [OF u j(1)] d l] pos by simp
    then show "compare (fst (Ls ! j ! (pre P (Ls ! j) - 1))) (fst x) < 0" using others [OF j nth_mem [OF l]] by simp
  qed
  have "0 < pre P (Ls ! c)" "Ls ! c ! (pre P (Ls ! c) - 1) = x" using pc c(3) by (simp_all only: diff_Suc_1 zero_less_Suc)
  then show ?thesis using c(1) rest by blast
qed

section \<open>Finding the next child\<close>

text \<open>\<open>ps j\<close> is the position of child \<open>j\<close>.\<close>

definition children_at :: "'s wrapper list \<Rightarrow> pair list list \<Rightarrow> (nat \<Rightarrow> nat) \<Rightarrow> bool" where
  "children_at ws Ls ps \<longleftrightarrow> length ws = length Ls \<and> (\<forall>j < length Ls. wrapped cursor (ws ! j) (Ls ! j) (ps j))"

lemma children_valid:
  "children_at ws Ls ps \<Longrightarrow> j < length Ls \<Longrightarrow> iw_Valid (ws ! j) \<longleftrightarrow> ps j < length (Ls ! j)"
  "children_at ws Ls ps \<Longrightarrow> j < length Ls \<Longrightarrow> ps j < length (Ls ! j) \<Longrightarrow> iw_key (ws ! j) = Ret (fst (Ls ! j ! ps j))"
  by (auto simp: children_at_def wrapped_def iw_Valid_def iw_key_def)

lemma find_loop_none:
  "(\<And>i. i \<in> set is \<Longrightarrow> \<not> iw_Valid (ws ! i)) \<Longrightarrow> find_loop better ws is found = Ret found"
  by (induction "is") (simp_all add: Let_def)

lemma find_loop_best:
  assumes at: "children_at ws Ls ps" and c: "c < length Ls" "ps c < length (Ls ! c)"
    and best: "\<And>j. j < length Ls \<Longrightarrow> j \<noteq> c \<Longrightarrow> ps j < length (Ls ! j) \<Longrightarrow>
      better (fst (Ls ! c ! ps c)) (fst (Ls ! j ! ps j)) \<and> \<not> better (fst (Ls ! j ! ps j)) (fst (Ls ! c ! ps c))"
    and irrefl: "\<not> better (fst (Ls ! c ! ps c)) (fst (Ls ! c ! ps c))"
  shows "(\<And>i. i \<in> set is \<Longrightarrow> i < length Ls) \<Longrightarrow> (\<And>f. found = Some f \<Longrightarrow> f < length Ls \<and> ps f < length (Ls ! f)) \<Longrightarrow>
    c \<in> set is \<or> found = Some c \<Longrightarrow> find_loop better ws is found = Ret (Some c)"
proof (induction "is" arbitrary: found)
  case (Cons i "is")
  note key = children_valid [OF at]
  have i: "i < length Ls" using Cons.prems(1) by simp
  show ?case
  proof (cases "iw_Valid (ws ! i)")
    case True
    then have vi: "ps i < length (Ls ! i)" using key(1) i by simp
    show ?thesis
    proof (cases found)
      case None
      then show ?thesis using True Cons vi i by auto
    next
      case (Some f)
      then have f: "f < length Ls" "ps f < length (Ls ! f)" using Cons.prems(2) by simp_all
      let ?b = "better (fst (Ls ! i ! ps i)) (fst (Ls ! f ! ps f))"
      have "?b \<or> i \<noteq> c \<or> f = c" "\<not> ?b \<or> f \<noteq> c" using best [OF f(1)] best [OF i] irrefl f(2) vi by auto
      then have "find_loop better ws is (if ?b then Some i else found) = Ret (Some c)"
        using Cons.prems Some f i vi by (intro Cons.IH) (auto split: if_splits)
      then show ?thesis using True Some key(2) [OF i vi] key(2) [OF f] by (auto simp: Let_def split: if_splits)
    qed
  next
    case False
    then have "i \<noteq> c" using key(1) [OF i] c by auto
    then show ?thesis using False Cons by (auto simp: Let_def)
  qed
qed auto

section \<open>The cursor of the merging iterator\<close>

text \<open>Where a child other than the current one stands, by the direction of the iterator.\<close>

definition beside :: "direction \<Rightarrow> slice \<Rightarrow> pair list \<Rightarrow> nat" where
  "beside d key L =
     (let f = first_at compare key L in
      case d of kForward \<Rightarrow> f | kReverse \<Rightarrow> if f = 0 then length L else f - 1)"

definition merge_cursor :: "'s merging \<Rightarrow> pair list \<Rightarrow> nat \<Rightarrow> bool" where
  "merge_cursor m kvs i \<longleftrightarrow> i \<le> length kvs \<and> (\<exists>Ls ps. union_of Ls kvs \<and> children_at (mi_children m) Ls ps \<and>
     (case mi_current m of None \<Rightarrow> i = length kvs
      | Some c \<Rightarrow> c < length Ls \<and> i < length kvs \<and> ps c < length (Ls ! c) \<and> Ls ! c ! ps c = kvs ! i \<and>
          (\<forall>j < length Ls. j \<noteq> c \<longrightarrow> ps j = beside (mi_direction m) (fst (kvs ! i)) (Ls ! j))))"

lemma merge_cursorI:
  assumes "union_of Ls kvs" "children_at (mi_children m) Ls ps" "i < length kvs" "mi_current m = Some c"
    "c < length Ls" "ps c < length (Ls ! c)" "Ls ! c ! ps c = kvs ! i"
    "\<And>j. j < length Ls \<Longrightarrow> j \<noteq> c \<Longrightarrow> ps j = beside (mi_direction m) (fst (kvs ! i)) (Ls ! j)"
  shows "merge_cursor m kvs i"
  using assms by (auto simp: merge_cursor_def)

lemma FindSmallest_at:
  assumes u: "union_of Ls kvs" and d: "down P" and at: "children_at (mi_children m) Ls (\<lambda>j. pre P (Ls ! j))"
  shows "\<exists>cur. FindSmallest compare m = Ret (m\<lparr>mi_current := cur\<rparr>) \<and>
    merge_cursor (m\<lparr>mi_current := cur, mi_direction := kForward\<rparr>) kvs (pre P kvs)"
proof (cases "pre P kvs < length kvs")
  case False
  have all: "pre P (Ls ! j) = length (Ls ! j)" if "j < length Ls" for j
  proof -
    have "pre P kvs = length kvs" using False pre_le [of P kvs] by simp
    then have "takeWhile P kvs = kvs" using takeWhile_eq_take [of P kvs] by simp
    then have "\<forall>x \<in> set kvs. P x" by simp
    then have "\<forall>x \<in> set (Ls ! j). P x" using u that by (auto simp: union_of_def)
    then have "takeWhile P (Ls ! j) = Ls ! j" by simp
    then show ?thesis by (rule arg_cong)
  qed
  have "\<not> iw_Valid (mi_children m ! j)" if "j < length Ls" for j
    using children_valid(1) [OF at that] all [OF that] by simp
  then have "FindSmallest compare m = Ret (m\<lparr>mi_current := None\<rparr>)"
    using at unfolding FindSmallest_def children_at_def by (subst find_loop_none) auto
  moreover have "merge_cursor (m\<lparr>mi_current := None, mi_direction := kForward\<rparr>) kvs (pre P kvs)"
    using u at False pre_le [of P kvs] by (auto simp: merge_cursor_def)
  ultimately show ?thesis by blast
next
  case True
  obtain c where c: "c < length Ls" "pre P (Ls ! c) < length (Ls ! c)" "Ls ! c ! pre P (Ls ! c) = kvs ! pre P kvs"
    and best: "\<And>j. j < length Ls \<Longrightarrow> j \<noteq> c \<Longrightarrow> pre P (Ls ! j) < length (Ls ! j) \<Longrightarrow>
      compare (fst (kvs ! pre P kvs)) (fst (Ls ! j ! pre P (Ls ! j))) < 0"
    using union_after(2) [OF u d True] by blast
  have val: "valid (fst (Ls ! j ! pre P (Ls ! j)))" if "j < length Ls" "pre P (Ls ! j) < length (Ls ! j)" for j
    using sorted_nth(1) [OF union_nth(1) [OF u that(1)] that(2)] .
  have "find_loop (\<lambda>a b. compare a b < 0) (mi_children m) [0..<length (mi_children m)] None = Ret (Some c)"
  proof (rule find_loop_best [OF at c(1,2)])
    fix j assume j: "j < length Ls" "j \<noteq> c" "pre P (Ls ! j) < length (Ls ! j)"
    then show "compare (fst (Ls ! c ! pre P (Ls ! c))) (fst (Ls ! j ! pre P (Ls ! j))) < 0 \<and>
        \<not> compare (fst (Ls ! j ! pre P (Ls ! j))) (fst (Ls ! c ! pre P (Ls ! c))) < 0"
      using best [OF j] compare_flip [OF val [OF c(1,2)] val [OF j(1,3)]] c(3) by auto
  qed (use c at compare_refl [OF val [OF c(1,2)]] in \<open>auto simp: children_at_def\<close>)
  then have "FindSmallest compare m = Ret (m\<lparr>mi_current := Some c\<rparr>)" by (simp add: FindSmallest_def)
  moreover have "merge_cursor (m\<lparr>mi_current := Some c, mi_direction := kForward\<rparr>) kvs (pre P kvs)"
    by (rule merge_cursorI [where Ls = Ls and c = c and ps = "\<lambda>j. pre P (Ls ! j)"])
      (use u at True c union_after(1) [OF u d True] in \<open>simp_all add: beside_def\<close>)
  ultimately show ?thesis by blast
qed

text \<open>The position before the end of a prefix.\<close>

abbreviation before_pre :: "(pair \<Rightarrow> bool) \<Rightarrow> pair list \<Rightarrow> nat" where
  "before_pre P L \<equiv> (if pre P L = 0 then length L else pre P L - 1)"

lemma before_pre_less: "before_pre P L < length L \<longleftrightarrow> pre P L \<noteq> 0"
  using pre_le [of P L] by (cases L) auto

lemma FindLargest_at:
  assumes u: "union_of Ls kvs" and d: "down P" and at: "children_at (mi_children m) Ls (\<lambda>j. before_pre P (Ls ! j))"
  shows "\<exists>cur. FindLargest compare m = Ret (m\<lparr>mi_current := cur\<rparr>) \<and>
    merge_cursor (m\<lparr>mi_current := cur, mi_direction := kReverse\<rparr>) kvs (before_pre P kvs)"
proof (cases "pre P kvs = 0")
  case True
  have "pre P (Ls ! j) = 0" if j: "j < length Ls" for j
  proof (rule ccontr)
    assume n: "pre P (Ls ! j) \<noteq> 0"
    then have l: "0 < length (Ls ! j)" using pre_le [of P "Ls ! j"] by linarith
    have "P (Ls ! j ! 0)" using pre_iff [OF union_nth(1) [OF u j] d l] n by simp
    moreover obtain n where "n < length kvs" "kvs ! n = Ls ! j ! 0" using union_nth(2) [OF u j l] by auto
    ultimately show False using pre_iff [of kvs P n] u d True by (auto simp: union_of_def)
  qed
  then have "\<not> iw_Valid (mi_children m ! j)" if "j < length Ls" for j
    using children_valid(1) [OF at that] that by simp
  then have "FindLargest compare m = Ret (m\<lparr>mi_current := None\<rparr>)"
    using at unfolding FindLargest_def children_at_def by (subst find_loop_none) auto
  moreover have "merge_cursor (m\<lparr>mi_current := None, mi_direction := kReverse\<rparr>) kvs (before_pre P kvs)"
    using u at True by (auto simp: merge_cursor_def)
  ultimately show ?thesis by blast
next
  case False
  then have pos: "0 < pre P kvs" by simp
  obtain c where c: "c < length Ls" "0 < pre P (Ls ! c)" "Ls ! c ! (pre P (Ls ! c) - 1) = kvs ! (pre P kvs - 1)"
    and rest: "\<And>j. j < length Ls \<Longrightarrow> j \<noteq> c \<Longrightarrow> pre P (Ls ! j) = first_at compare (fst (kvs ! (pre P kvs - 1))) (Ls ! j)"
      "\<And>j. j < length Ls \<Longrightarrow> j \<noteq> c \<Longrightarrow> 0 < pre P (Ls ! j) \<Longrightarrow>
         compare (fst (Ls ! j ! (pre P (Ls ! j) - 1))) (fst (kvs ! (pre P kvs - 1))) < 0"
    using union_before [OF u d pos] by blast
  have bc: "before_pre P (Ls ! c) = pre P (Ls ! c) - 1" "before_pre P (Ls ! c) < length (Ls ! c)"
    using c(2) before_pre_less [of P "Ls ! c"] by simp_all
  have val: "valid (fst (Ls ! j ! before_pre P (Ls ! j)))" if "j < length Ls" "before_pre P (Ls ! j) < length (Ls ! j)" for j
    using sorted_nth(1) [OF union_nth(1) [OF u that(1)] that(2)] .
  have "find_loop (\<lambda>a b. compare a b > 0) (mi_children m) (rev [0..<length (mi_children m)]) None = Ret (Some c)"
  proof (rule find_loop_best [OF at c(1) bc(2)])
    fix j assume j: "j < length Ls" "j \<noteq> c" "before_pre P (Ls ! j) < length (Ls ! j)"
    then have n: "pre P (Ls ! j) \<noteq> 0" using before_pre_less by blast
    then have "compare (fst (Ls ! j ! before_pre P (Ls ! j))) (fst (Ls ! c ! before_pre P (Ls ! c))) < 0"
      using rest(2) [OF j(1,2)] c(2,3) by simp
    then show "compare (fst (Ls ! c ! before_pre P (Ls ! c))) (fst (Ls ! j ! before_pre P (Ls ! j))) > 0 \<and>
        \<not> compare (fst (Ls ! j ! before_pre P (Ls ! j))) (fst (Ls ! c ! before_pre P (Ls ! c))) > 0"
      using compare_flip [OF val [OF j(1,3)] val [OF c(1) bc(2)]] by linarith
  qed (use c at compare_refl [OF val [OF c(1) bc(2)]] in \<open>auto simp: children_at_def\<close>)
  then have "FindLargest compare m = Ret (m\<lparr>mi_current := Some c\<rparr>)" by (simp add: FindLargest_def)
  moreover have "merge_cursor (m\<lparr>mi_current := Some c, mi_direction := kReverse\<rparr>) kvs (before_pre P kvs)"
  proof (rule merge_cursorI [where Ls = Ls and c = c and ps = "\<lambda>j. before_pre P (Ls ! j)"])
    show "before_pre P kvs < length kvs" using before_pre_less False by blast
    show "before_pre P (Ls ! j) = beside (mi_direction (m\<lparr>mi_current := Some c, mi_direction := kReverse\<rparr>))
        (fst (kvs ! before_pre P kvs)) (Ls ! j)" if "j < length Ls" "j \<noteq> c" for j
      using rest(1) [OF that] False by (simp add: beside_def Let_def)
  qed (use u at c bc False in simp_all)
  ultimately show ?thesis by blast
qed

section \<open>Moving the children\<close>

lemmas wrapper_moves =
  iterator_contract.SeekToFirst_at [OF wrapper_contract, unfolded wrapper_ops_simps]
  iterator_contract.SeekToLast_at [OF wrapper_contract, unfolded wrapper_ops_simps]
  iterator_contract.Seek_at [OF wrapper_contract, unfolded wrapper_ops_simps]
  iterator_contract.Next_at [OF wrapper_contract, unfolded wrapper_ops_simps]
  iterator_contract.Prev_at [OF wrapper_contract, unfolded wrapper_ops_simps]

lemma children_move:
  assumes "children_at ws Ls ps"
    "\<And>j w. j < length Ls \<Longrightarrow> wrapped cursor w (Ls ! j) (ps j) \<Longrightarrow> \<exists>w'. f (j, w) = Ret w' \<and> wrapped cursor w' (Ls ! j) (qs j)"
  shows "\<exists>ws'. run_map f (List.enumerate 0 ws) = Ret ws' \<and> children_at ws' Ls qs"
  using run_map_all [of "List.enumerate 0 ws" f "\<lambda>j w'. wrapped cursor w' (Ls ! j) (qs j)"] assms
  by (fastforce simp: children_at_def nth_enumerate_eq)

lemma children_all:
  assumes "children_at ws Ls ps"
    "\<And>j w. j < length Ls \<Longrightarrow> wrapped cursor w (Ls ! j) (ps j) \<Longrightarrow> \<exists>w'. f w = Ret w' \<and> wrapped cursor w' (Ls ! j) (qs j)"
  shows "\<exists>ws'. run_map f ws = Ret ws' \<and> children_at ws' Ls qs"
  using run_map_all [of ws f "\<lambda>j w'. wrapped cursor w' (Ls ! j) (qs j)"] assms
  by (fastforce simp: children_at_def)

lemma children_atD: "children_at ws Ls ps \<Longrightarrow> j < length Ls \<Longrightarrow> wrapped cursor (ws ! j) (Ls ! j) (ps j)"
  by (simp add: children_at_def)

lemma children_update:
  "children_at ws Ls ps \<Longrightarrow> wrapped cursor w (Ls ! c) p \<Longrightarrow> c < length Ls \<Longrightarrow> (\<And>j. j < length Ls \<Longrightarrow> qs j = (if j = c then p else ps j)) \<Longrightarrow>
     children_at (ws[c := w]) Ls qs"
  by (auto simp: children_at_def nth_list_update)

lemma same_direction: "mi_direction m = d \<Longrightarrow> m\<lparr>mi_direction := d\<rparr> = m"
  by (cases m) auto

lemma other_child:
  assumes u: "union_of Ls kvs" and i: "i < length kvs" "kvs ! i \<in> set (Ls ! c)" "c < length Ls"
    and y: "j < length Ls" "j \<noteq> c" "y \<in> set (Ls ! j)"
  shows "compare (fst y) (fst (kvs ! i)) \<noteq> 0" "compare (fst (kvs ! i)) (fst y) \<noteq> 0"
proof -
  have s: "sorted_pairs valid compare kvs" using u by (simp add: union_of_def)
  have "y \<in> set kvs" using u y by (auto simp: union_of_def)
  then obtain n where n: "n < length kvs" "kvs ! n = y" by (auto simp: in_set_conv_nth)
  have "y \<noteq> kvs ! i" using union_disjoint [OF u y(1) i(3)] y(2,3) i(2) by blast
  then have "n \<noteq> i" using n by auto
  then show "compare (fst y) (fst (kvs ! i)) \<noteq> 0" "compare (fst (kvs ! i)) (fst y) \<noteq> 0"
    using sorted_nth(2) [OF s n(1) i(1)] sorted_nth(2) [OF s i(1) n(1)] sorted_nth_le [OF s n(1) i(1)]
      sorted_nth_le [OF s i(1) n(1)] n(2) by auto
qed

lemma Next_from:
  assumes u: "union_of Ls kvs" and at: "children_at (mi_children m) Ls (\<lambda>j. first_at compare (fst (kvs ! i)) (Ls ! j))"
    and i: "i < length kvs" and c: "c < length Ls" "p < length (Ls ! c)" "Ls ! c ! p = kvs ! i" and d: "mi_direction m = kForward"
  shows "\<exists>m'. rbind (iw_Next ops (mi_children m ! c)) (\<lambda>child.
      FindSmallest compare (m\<lparr>mi_children := (mi_children m)[c := child]\<rparr>)) = Ret m' \<and> merge_cursor m' kvs (Suc i)"
proof -
  let ?key = "fst (kvs ! i)" and ?P = "\<lambda>x. compare (fst x) (fst (kvs ! i)) \<le> 0"
  have s: "sorted_pairs valid compare kvs" using u by (simp add: union_of_def)
  have x: "kvs ! i \<in> set (Ls ! c)" using c(2,3) by (metis nth_mem)
  have fc: "first_at compare ?key (Ls ! c) = p" "pre ?P (Ls ! c) = Suc p"
    using pre_key [OF union_nth(1) [OF u c(1)] c(2)] c(3) by (simp_all add: first_at_def)
  have fj: "pre ?P (Ls ! j) = first_at compare ?key (Ls ! j)" if "j < length Ls" "j \<noteq> c" for j
    unfolding first_at_def by (rule pre_cong) (use other_child(1) [OF u i x c(1) that] in \<open>auto simp: le_less\<close>)
  have "wrapped cursor (mi_children m ! c) (Ls ! c) p" using children_atD [OF at c(1)] fc(1) by simp
  from wrapper_moves(4) [OF this c(2)] obtain w where
    w: "iw_Next ops (mi_children m ! c) = Ret w" "wrapped cursor w (Ls ! c) (Suc p)" by blast
  let ?m = "m\<lparr>mi_children := (mi_children m)[c := w]\<rparr>"
  have "children_at ((mi_children m)[c := w]) Ls (\<lambda>j. pre ?P (Ls ! j))"
    by (rule children_update [OF at w(2) c(1)]) (use fc fj in auto)
  then have "children_at (mi_children ?m) Ls (\<lambda>j. pre ?P (Ls ! j))" by simp
  from FindSmallest_at [OF u down_le [OF sorted_nth(1) [OF s i]] this] obtain cur where
    "FindSmallest compare ?m = Ret (?m\<lparr>mi_current := cur\<rparr>)"
    "merge_cursor (?m\<lparr>mi_current := cur, mi_direction := kForward\<rparr>) kvs (Suc i)"
    using pre_key(2) [OF s i] by auto
  moreover have "?m\<lparr>mi_current := cur, mi_direction := kForward\<rparr> = ?m\<lparr>mi_current := cur\<rparr>"
    using d by (intro same_direction) simp
  ultimately show ?thesis using w(1) by simp
qed

lemma Prev_from:
  assumes u: "union_of Ls kvs" and at: "children_at (mi_children m) Ls (\<lambda>j. if j = c then p else before_pre (\<lambda>x. compare (fst x) (fst (kvs ! i)) < 0) (Ls ! j))"
    and i: "i < length kvs" and c: "c < length Ls" "p < length (Ls ! c)" "Ls ! c ! p = kvs ! i" and d: "mi_direction m = kReverse"
  shows "\<exists>m'. rbind (iw_Prev ops (mi_children m ! c)) (\<lambda>child.
      FindLargest compare (m\<lparr>mi_children := (mi_children m)[c := child]\<rparr>)) = Ret m' \<and>
      merge_cursor m' kvs (if i = 0 then length kvs else i - 1)"
proof -
  let ?P = "\<lambda>x. compare (fst x) (fst (kvs ! i)) < 0"
  have s: "sorted_pairs valid compare kvs" using u by (simp add: union_of_def)
  have fc: "pre ?P (Ls ! c) = p" using pre_key [OF union_nth(1) [OF u c(1)] c(2)] c(3) by simp
  have "wrapped cursor (mi_children m ! c) (Ls ! c) p" using children_atD [OF at c(1)] by simp
  from wrapper_moves(5) [OF this c(2)] obtain w where
    w: "iw_Prev ops (mi_children m ! c) = Ret w" "wrapped cursor w (Ls ! c) (before_pre ?P (Ls ! c))" unfolding fc by blast
  let ?m = "m\<lparr>mi_children := (mi_children m)[c := w]\<rparr>"
  have "children_at ((mi_children m)[c := w]) Ls (\<lambda>j. before_pre ?P (Ls ! j))"
    by (rule children_update [OF at w(2) c(1)]) simp
  then have "children_at (mi_children ?m) Ls (\<lambda>j. before_pre ?P (Ls ! j))" by simp
  from FindLargest_at [OF u down_less [OF sorted_nth(1) [OF s i]] this] obtain cur where
    "FindLargest compare ?m = Ret (?m\<lparr>mi_current := cur\<rparr>)"
    "merge_cursor (?m\<lparr>mi_current := cur, mi_direction := kReverse\<rparr>) kvs (if i = 0 then length kvs else i - 1)"
    unfolding pre_key(1) [OF s i] by blast
  moreover have "?m\<lparr>mi_current := cur, mi_direction := kReverse\<rparr> = ?m\<lparr>mi_current := cur\<rparr>"
    using d by (intro same_direction) simp
  ultimately show ?thesis using w(1) by simp
qed

section \<open>The operations\<close>

lemma merge_cursorD:
  assumes "merge_cursor m kvs i" "i < length kvs"
  obtains Ls ps c where "union_of Ls kvs" "children_at (mi_children m) Ls ps" "mi_current m = Some c" "c < length Ls"
    "ps c < length (Ls ! c)" "Ls ! c ! ps c = kvs ! i"
    "\<forall>j < length Ls. j \<noteq> c \<longrightarrow> ps j = beside (mi_direction m) (fst (kvs ! i)) (Ls ! j)"
proof (cases "mi_current m")
  case None
  then show ?thesis using assms by (auto simp: merge_cursor_def)
next
  case (Some c)
  with assms show ?thesis by (simp add: merge_cursor_def) (blast intro: that)
qed

lemma mi_Next_at:
  assumes cur: "merge_cursor m kvs i" and i: "i < length kvs"
  shows "\<exists>m'. mi_Next ops compare m = Ret m' \<and> merge_cursor m' kvs (Suc i)"
proof -
  from merge_cursorD [OF assms] obtain Ls ps c where
    u: "union_of Ls kvs" and at: "children_at (mi_children m) Ls ps" and c: "mi_current m = Some c" "c < length Ls"
      "ps c < length (Ls ! c)" "Ls ! c ! ps c = kvs ! i"
    and ps: "\<forall>j < length Ls. j \<noteq> c \<longrightarrow> ps j = beside (mi_direction m) (fst (kvs ! i)) (Ls ! j)" .
  let ?key = "fst (kvs ! i)"
  have s: "sorted_pairs valid compare kvs" using u by (simp add: union_of_def)
  have fc: "first_at compare ?key (Ls ! c) = ps c"
    using pre_key [OF union_nth(1) [OF u c(2)] c(3)] c(4) by (simp add: first_at_def)
  have x: "kvs ! i \<in> set (Ls ! c)" using c(3,4) by (metis nth_mem)
  show ?thesis
  proof (cases "mi_direction m")
    case kForward
    have "children_at (mi_children m) Ls (\<lambda>j. first_at compare ?key (Ls ! j))"
      using at ps fc unfolding children_at_def by (metis beside_def direction.case(1) kForward)
    from Next_from [OF u this i c(2-4) kForward] show ?thesis using c(1) kForward by (simp add: mi_Next_def)
  next
    case kReverse
    have "\<exists>w'. turn_forward ops compare c ?key (j, w) = Ret w' \<and> wrapped cursor w' (Ls ! j) (first_at compare ?key (Ls ! j))"
      if j: "j < length Ls" "wrapped cursor w (Ls ! j) (ps j)" for j w
    proof (cases "j = c")
      case False
      let ?f = "first_at compare ?key (Ls ! j)"
      from wrapper_moves(3) [OF j(2) sorted_nth(1) [OF s i]] obtain w' where
        w': "iw_Seek ops ?key w = Ret w'" "wrapped cursor w' (Ls ! j) ?f" by blast
      have "compare ?key (fst (Ls ! j ! ?f)) \<noteq> 0" if "?f < length (Ls ! j)"
        using other_child(2) [OF u i x c(2) j(1) False] that by simp
      then show ?thesis using w' False by (auto simp: turn_forward_def wrapped_def iw_Valid_def iw_key_def)
    qed (use j fc in \<open>simp add: turn_forward_def\<close>)
    from children_move [OF at this] obtain ws where
      ws: "run_map (turn_forward ops compare c ?key) (List.enumerate 0 (mi_children m)) = Ret ws"
        "children_at ws Ls (\<lambda>j. first_at compare ?key (Ls ! j))" by blast
    have "mi_key m = Ret ?key" using children_valid(2) [OF at c(2,3)] c(1,4) by (simp add: mi_key_def)
    then show ?thesis
      using Next_from [OF u _ i c(2-4), of "m\<lparr>mi_children := ws, mi_direction := kForward\<rparr>"] ws c(1) kReverse
      by (simp add: mi_Next_def)
  qed
qed

lemma mi_Prev_at:
  assumes cur: "merge_cursor m kvs i" and i: "i < length kvs"
  shows "\<exists>m'. mi_Prev ops compare m = Ret m' \<and> merge_cursor m' kvs (if i = 0 then length kvs else i - 1)"
proof -
  from merge_cursorD [OF assms] obtain Ls ps c where
    u: "union_of Ls kvs" and at: "children_at (mi_children m) Ls ps" and c: "mi_current m = Some c" "c < length Ls"
      "ps c < length (Ls ! c)" "Ls ! c ! ps c = kvs ! i"
    and ps: "\<forall>j < length Ls. j \<noteq> c \<longrightarrow> ps j = beside (mi_direction m) (fst (kvs ! i)) (Ls ! j)" .
  let ?key = "fst (kvs ! i)" and ?P = "\<lambda>x. compare (fst x) (fst (kvs ! i)) < 0"
  define qs where "qs j = (if j = c then ps c else before_pre ?P (Ls ! j))" for j
  have s: "sorted_pairs valid compare kvs" using u by (simp add: union_of_def)
  show ?thesis
  proof (cases "mi_direction m")
    case kReverse
    have "ps j = qs j" if "j < length Ls" for j
      using ps that kReverse by (auto simp: qs_def beside_def first_at_def Let_def)
    then have "children_at (mi_children m) Ls qs" using at by (simp add: children_at_def)
    from Prev_from [OF u this [unfolded qs_def] i c(2-4) kReverse] show ?thesis using c(1) kReverse by (simp add: mi_Prev_def)
  next
    case kForward
    have "\<exists>w'. turn_back ops c ?key (j, w) = Ret w' \<and> wrapped cursor w' (Ls ! j) (qs j)"
      if j: "j < length Ls" "wrapped cursor w (Ls ! j) (ps j)" for j w
    proof (cases "j = c")
      case False
      let ?f = "first_at compare ?key (Ls ! j)"
      from wrapper_moves(3) [OF j(2) sorted_nth(1) [OF s i]] obtain w' where
        w': "iw_Seek ops ?key w = Ret w'" "wrapped cursor w' (Ls ! j) ?f" by blast
      have q: "qs j = (if ?f = 0 then length (Ls ! j) else ?f - 1)" using False by (simp add: qs_def first_at_def)
      have v: "iw_Valid w' \<longleftrightarrow> ?f < length (Ls ! j)" using w'(2) by (auto simp: wrapped_def iw_Valid_def)
      have "?f \<le> length (Ls ! j)" by (simp add: first_at_def pre_le)
      then show ?thesis
        using wrapper_moves(5) [OF w'(2)] wrapper_moves(2) [OF w'(2)] w'(1) v q False
        by (cases "?f < length (Ls ! j)") (auto simp: turn_back_def)
    qed (use j in \<open>simp add: turn_back_def qs_def\<close>)
    from children_move [OF at this] obtain ws where
      ws: "run_map (turn_back ops c ?key) (List.enumerate 0 (mi_children m)) = Ret ws" "children_at ws Ls qs" by blast
    have "mi_key m = Ret ?key" using children_valid(2) [OF at c(2,3)] c(1,4) by (simp add: mi_key_def)
    then show ?thesis
      using Prev_from [OF u _ i c(2-4), of "m\<lparr>mi_children := ws, mi_direction := kReverse\<rparr>"] ws [unfolded qs_def] c(1) kForward
      by (simp add: mi_Prev_def)
  qed
qed

lemma mi_status_at: "children_at ws Ls ps \<Longrightarrow> mi_status_loop ops ws Status_OK = Ret Status_OK"
proof (induction ws arbitrary: Ls ps)
  case (Cons w ws)
  then obtain L Ls' where Ls: "Ls = L # Ls'" by (cases Ls) (auto simp: children_at_def)
  have "wrapped cursor w L (ps 0)" using children_atD [OF Cons.prems, of 0] Ls by simp
  then have "iw_status ops w = Ret Status_OK" using iterator_contract.status_at [OF wrapper_contract] by fastforce
  moreover have "children_at ws Ls' (\<lambda>j. ps (Suc j))" using Cons.prems Ls by (fastforce simp: children_at_def)
  ultimately show ?case using Cons.IH by simp
qed simp

lemma merging_contract: "iterator_contract valid compare (merging_ops ops compare) merge_cursor"
proof unfold_locales
  fix m kvs i target
  assume cur: "merge_cursor m kvs i"
  then obtain Ls ps where u: "union_of Ls kvs" and at: "children_at (mi_children m) Ls ps" by (auto simp: merge_cursor_def)
  show "sorted_pairs valid compare kvs" using u by (simp add: union_of_def)
  show "i \<le> length kvs" using cur by (simp add: merge_cursor_def)
  show "io_Valid (merging_ops ops compare) m \<longleftrightarrow> i < length kvs"
    using cur by (auto simp: merging_ops_def mi_Valid_def merge_cursor_def split: option.splits)
  show "io_status (merging_ops ops compare) m = Ret Status_OK"
    using mi_status_at [OF at] by (simp add: merging_ops_def mi_status_def)
  show "\<exists>m'. io_SeekToFirst (merging_ops ops compare) m = Ret m' \<and> merge_cursor m' kvs 0"
  proof -
    obtain ws where
      ws: "run_map (iw_SeekToFirst ops) (mi_children m) = Ret ws" "children_at ws Ls (\<lambda>j. 0)" 
      using children_all [OF at, of "iw_SeekToFirst ops" "\<lambda>j. 0"] wrapper_moves(1) by blast
    have none: "takeWhile (\<lambda>_. False) L = []" for L :: "pair list" by (cases L) simp_all
    have "children_at (mi_children (m\<lparr>mi_children := ws\<rparr>)) Ls (\<lambda>j. pre (\<lambda>_. False) (Ls ! j))"
      using ws(2) by (simp add: none)
    from FindSmallest_at [OF u down_const this] ws(1) show ?thesis
      by (auto simp: merging_ops_def mi_SeekToFirst_def none)
  qed
  show "\<exists>m'. io_SeekToLast (merging_ops ops compare) m = Ret m' \<and> merge_cursor m' kvs (length kvs - 1)"
  proof -
    have true: "takeWhile (\<lambda>_. True) L = L" for L :: "pair list" by (induction L) simp_all
    have all: "before_pre (\<lambda>_. True) L = length L - 1" for L :: "pair list" unfolding true by simp
    obtain ws where
      ws: "run_map (iw_SeekToLast ops) (mi_children m) = Ret ws" "children_at ws Ls (\<lambda>j. length (Ls ! j) - 1)" 
      using children_all [OF at, of "iw_SeekToLast ops" "\<lambda>j. length (Ls ! j) - 1"] wrapper_moves(2) by blast
    have "children_at (mi_children (m\<lparr>mi_children := ws\<rparr>)) Ls (\<lambda>j. before_pre (\<lambda>_. True) (Ls ! j))"
      unfolding all using ws(2) by simp
    from FindLargest_at [OF u down_const this, unfolded all] ws(1) show ?thesis
      by (auto simp: merging_ops_def mi_SeekToLast_def)
  qed
  show "\<exists>m'. io_Seek (merging_ops ops compare) target m = Ret m' \<and> merge_cursor m' kvs (first_at compare target kvs)"
    if tv: "valid target"
  proof -
    obtain ws where
      ws: "run_map (iw_Seek ops target) (mi_children m) = Ret ws" "children_at ws Ls (\<lambda>j. first_at compare target (Ls ! j))" 
      using children_all [OF at, of "iw_Seek ops target" "\<lambda>j. first_at compare target (Ls ! j)"] wrapper_moves(3) [OF _ tv]
      by blast
    from FindSmallest_at [OF u down_less [OF tv], of "m\<lparr>mi_children := ws\<rparr>"] ws show ?thesis
      by (auto simp: merging_ops_def mi_Seek_def first_at_def)
  qed
  assume i: "i < length kvs"
  show "\<exists>m'. io_Next (merging_ops ops compare) m = Ret m' \<and> merge_cursor m' kvs (Suc i)"
    using mi_Next_at [OF cur i] by (simp add: merging_ops_def)
  show "\<exists>m'. io_Prev (merging_ops ops compare) m = Ret m' \<and> merge_cursor m' kvs (if i = 0 then length kvs else i - 1)"
    using mi_Prev_at [OF cur i] by (simp add: merging_ops_def)
  from merge_cursorD [OF cur i] obtain Ls ps c where c: "children_at (mi_children m) Ls ps" "mi_current m = Some c" "c < length Ls"
    "ps c < length (Ls ! c)" "Ls ! c ! ps c = kvs ! i" .
  show "io_key (merging_ops ops compare) m = Ret (fst (kvs ! i))"
    using children_valid(2) [OF c(1,3,4)] c(2,5) by (simp add: merging_ops_def mi_key_def)
  show "io_value (merging_ops ops compare) m = Ret (snd (kvs ! i))"
    using iterator_contract.value_at [OF wrapper_contract children_atD [OF c(1,3)] c(4)] c(2,5)
    by (simp add: merging_ops_def mi_value_def)
qed

lemma MergingIterator_at:
  assumes "list_all2 (\<lambda>s L. \<exists>i. cursor s L i) children Ls" "union_of Ls kvs"
  shows "\<exists>m. MergingIterator ops children = Ret m \<and> merge_cursor m kvs (length kvs)"
proof -
  have "\<exists>w. iw_Set ops (Some (children ! j)) IteratorWrapper = Ret w \<and> (\<exists>p. wrapped cursor w (Ls ! j) p)"
    if "j < length children" for j
    using wrap_Set list_all2_nthD [OF assms(1) that] by blast
  from run_map_all [of children "\<lambda>s. iw_Set ops (Some s) IteratorWrapper" "\<lambda>j w. \<exists>p. wrapped cursor w (Ls ! j) p", OF this]
  obtain ws where
    ws: "run_map (\<lambda>s. iw_Set ops (Some s) IteratorWrapper) children = Ret ws" "length ws = length children"
      "\<forall>j < length children. \<exists>p. wrapped cursor (ws ! j) (Ls ! j) p" by blast
  then obtain ps where "\<forall>j < length children. wrapped cursor (ws ! j) (Ls ! j) (ps j)" by metis
  then have "children_at ws Ls ps" using ws(2) list_all2_lengthD [OF assms(1)] by (simp add: children_at_def)
  then show ?thesis using ws(1) assms(2) by (auto simp: MergingIterator_def merge_cursor_def)
qed

end

section \<open>Properties\<close>

definition sorted_union :: "(slice \<Rightarrow> bool) \<Rightarrow> (slice \<Rightarrow> slice \<Rightarrow> int) \<Rightarrow> pair list list \<Rightarrow> pair list \<Rightarrow> bool" where
  "sorted_union valid compare Ls kvs \<longleftrightarrow> sorted_pairs valid compare kvs \<and> (\<forall>L \<in> set Ls. sorted_pairs valid compare L) \<and>
     set kvs = (\<Union>L \<in> set Ls. set L) \<and>
     (\<forall>j < length Ls. \<forall>j' < length Ls. j \<noteq> j' \<longrightarrow> set (Ls ! j) \<inter> set (Ls ! j') = {})"

text \<open>C27: The merging iterator is an iterator over the sorted union of its children, for every kind of child that keeps
the contract of iterators: any script of moves, forwards, backwards, turning round and seeking, sees what it would see
on the sorted list.\<close>

theorem merging_iterator_refines:
  assumes "iterator_contract valid compare ops cursor"
    and "list_all2 (\<lambda>s L. \<exists>i. cursor s L i) children Ls" "sorted_union valid compare Ls kvs"
    and "list_all (valid_move valid) moves" "cursor_script compare kvs moves (length kvs) = Some seen"
  shows "\<exists>m. MergingIterator ops children = Ret m \<and> iter_script (merging_ops ops compare) moves m = Ret seen"
proof -
  have "iterator_contract.union_of valid compare Ls kvs"
    using assms(3) by (simp add: iterator_contract.union_of_def [OF assms(1)] sorted_union_def)
  from iterator_contract.MergingIterator_at [OF assms(1,2) this] obtain m where
    m: "MergingIterator ops children = Ret m" "iterator_contract.merge_cursor valid compare cursor m kvs (length kvs)" by blast
  from iterator_contract.script_at [OF iterator_contract.merging_contract [OF assms(1)] m(2) assms(4,5)] m(1)
  show ?thesis by blast
qed

text \<open>The blocks of a table are such children.\<close>

interpretation merging_blocks: iterator_contract "\<lambda>_. True" slice_compare
  "merging_ops (block_ops slice_compare) slice_compare" bytewise_block.merge_cursor
  by (rule bytewise_block.merging_contract)

lemma open_built:
  assumes "key_order valid compare" "1 \<le> interval" "sorted_wrt (\<lambda>a b. compare a b < 0) (map fst kvs)"
    "\<forall>(k, v) \<in> set kvs. valid k" "build_block compare interval kvs = Ret data" "length data < 2 ^ 32"
  shows "\<exists>it. bl_NewIterator (Block data) = Ret (Block_Iterator it) \<and> block_cursor valid compare it kvs (length kvs)"
proof -
  obtain b blk ri where b: "build_block compare interval kvs = Ret (fst (bb_Finish b))" "built interval b blk ri" "pairs_of blk = kvs"
    using build_block_image [OF assms(1-4)] by blast
  with assms(5) have data: "data = fst (bb_Finish b)" by simp
  from open_image [OF Finish_image(1) [OF b(2)]] assms(6) obtain it where
    it: "bl_NewIterator (Block data) = Ret (Block_Iterator it)" "iter_of data blk ri it" "\<not> bi_Valid it" by (auto simp: data)
  have "length kvs = length blk" using b(3) by (auto simp: pairs_of_def)
  then have "arrives data blk ri (length kvs) it" using it(2,3) by (simp add: arrives_def off_block_def)
  moreover have "sorted_pairs valid compare kvs"
    using assms(3,4) by (auto simp: sorted_pairs_def sorted_wrt_map case_prod_beta)
  ultimately show ?thesis using it(1) b(3) by (auto simp: block_cursor_def)
qed

lemma merging_iterator_refines_witness:
  "\<exists>a b m. bl_NewIterator (Block ([0, 1, 1, 1, 10, 1, 1, 0, 2] @ EncodeFixed32 0 @ EncodeFixed32 1)) = Ret (Block_Iterator a) \<and>
     bl_NewIterator (Block ([0, 1, 0, 3] @ EncodeFixed32 0 @ EncodeFixed32 1)) = Ret (Block_Iterator b) \<and>
     MergingIterator (block_ops slice_compare) [a, b] = Ret m \<and>
     iter_script (merging_ops (block_ops slice_compare) slice_compare) [To_Last, To_Prev, To_Prev, To_Next, To_Key [2]] m =
       Ret [Some ([3], []), Some ([1, 2], []), Some ([1], [10]), Some ([1, 2], []), Some ([3], [])]"
proof -
  have "build_block slice_compare 16 [([1], [10]), ([1, 2], [])] = Ret ([0, 1, 1, 1, 10, 1, 1, 0, 2] @ EncodeFixed32 0 @ EncodeFixed32 1)"
    by code_simp
  from open_built [OF bytewise.key_order_axioms _ _ _ this] obtain a where
    a: "bl_NewIterator (Block ([0, 1, 1, 1, 10, 1, 1, 0, 2] @ EncodeFixed32 0 @ EncodeFixed32 1)) = Ret (Block_Iterator a)"
      "block_cursor (\<lambda>_. True) slice_compare a [([1], [10]), ([1, 2], [])] (Suc (Suc 0))" by auto
  have "build_block slice_compare 16 [([3], [])] = Ret ([0, 1, 0, 3] @ EncodeFixed32 0 @ EncodeFixed32 1)" by code_simp
  from open_built [OF bytewise.key_order_axioms _ _ _ this] obtain b where
    b: "bl_NewIterator (Block ([0, 1, 0, 3] @ EncodeFixed32 0 @ EncodeFixed32 1)) = Ret (Block_Iterator b)"
      "block_cursor (\<lambda>_. True) slice_compare b [([3], [])] 1" by auto
  have h1: "list_all2 (\<lambda>s L. \<exists>i. block_cursor (\<lambda>_. True) slice_compare s L i) [a, b] [[([1], [10]), ([1, 2], [])], [([3], [])]]"
    using a(2) b(2) by auto
  have h2: "sorted_union (\<lambda>_. True) slice_compare [[([1], [10]), ([1, 2], [])], [([3], [])]] [([1], [10]), ([1, 2], []), ([3], [])]"
  proof -
    have "slice_compare [1] [1, 2] < 0" "slice_compare [1] [3] < 0" "slice_compare [1, 2] [3] < 0" by code_simp+
    then show ?thesis
      by (auto simp: sorted_union_def sorted_pairs_def less_Suc_eq numeral_2_eq_2 simp del: slice_compare_rec)
  qed
  have h3: "cursor_script slice_compare [([1], [10]), ([1, 2], []), ([3], [])] [To_Last, To_Prev, To_Prev, To_Next, To_Key [2]]
      (length [([1], [10]), ([1, 2], []), ([3 :: byte], [])]) =
    Some [Some ([3], []), Some ([1, 2], []), Some ([1], [10]), Some ([1, 2], []), Some ([3], [])]" by code_simp
  have "\<exists>m. MergingIterator (block_ops slice_compare) [a, b] = Ret m \<and>
     iter_script (merging_ops (block_ops slice_compare) slice_compare) [To_Last, To_Prev, To_Prev, To_Next, To_Key [2]] m =
       Ret [Some ([3], []), Some ([1, 2], []), Some ([1], [10]), Some ([1, 2], []), Some ([3], [])]"
    by (rule merging_iterator_refines [OF bytewise_block.iterator_contract_axioms h1 h2 _ h3]) simp
  with a(1) b(1) show ?thesis by blast
qed

end
