(* ===== verification/Ldb_Db_Iter.thy ===== *)
theory Ldb_Db_Iter
  imports Ldb_Merger Ldb_Random
begin

text \<open>
  leveldb, \<open>db/db_iter.h\<close> and \<open>db/db_iter.cc\<close>: the iterator of the database. It reads an iterator over internal
  keys and shows each user key once, with its newest value that the snapshot sees. \<open>saved_value_\<close> is modelled
  without its capacity. The read samples go to the database, a state that only they change. The loops over
  entries have fuel, an argument; the loop that adds sampling periods gets enough of its own.
\<close>

definition kReadBytesPeriod :: int where "kReadBytesPeriod = 1048576"

record ('s, 'd) db_iter =
  di_db :: 'd
  di_iter :: 's
  di_sequence :: sequence_number
  di_status :: status
  di_saved_key :: slice
  di_saved_value :: slice
  di_direction :: direction
  di_valid :: bool
  di_rnd :: u32
  di_bytes_counter :: int

definition RandomPeriod :: "u32 \<Rightarrow> int \<times> u32" where
  "RandomPeriod rnd = (case Random_Uniform (of_int (2 * kReadBytesPeriod)) rnd of (r, rnd) \<Rightarrow> (uint r, rnd))"

definition DBIter :: "'d \<Rightarrow> 's \<Rightarrow> sequence_number \<Rightarrow> u32 \<Rightarrow> ('s, 'd) db_iter" where
  "DBIter db iter s seed =
     (let (period, rnd) = RandomPeriod (Random_init seed) in
      \<lparr>di_db = db, di_iter = iter, di_sequence = s, di_status = Status_OK, di_saved_key = [], di_saved_value = [],
       di_direction = kForward, di_valid = False, di_rnd = rnd, di_bytes_counter = period\<rparr>)"

definition di_Valid :: "('s, 'd) db_iter \<Rightarrow> bool" where
  "di_Valid it = di_valid it"

definition di_key :: "'s iter_ops \<Rightarrow> ('s, 'd) db_iter \<Rightarrow> slice run" where
  "di_key ops it =
     (if \<not> di_valid it then UB
      else if di_direction it = kForward then rbind (io_key ops (di_iter it)) (\<lambda>k. Ret (ExtractUserKey k))
      else Ret (di_saved_key it))"

definition di_value :: "'s iter_ops \<Rightarrow> ('s, 'd) db_iter \<Rightarrow> slice run" where
  "di_value ops it =
     (if \<not> di_valid it then UB
      else if di_direction it = kForward then io_value ops (di_iter it) else Ret (di_saved_value it))"

definition di_status_of :: "'s iter_ops \<Rightarrow> ('s, 'd) db_iter \<Rightarrow> status run" where
  "di_status_of ops it = (if status_ok (di_status it) then io_status ops (di_iter it) else Ret (di_status it))"

definition ClearSavedValue :: "('s, 'd) db_iter \<Rightarrow> ('s, 'd) db_iter" where
  "ClearSavedValue it = it\<lparr>di_saved_value := []\<rparr>"

fun sample_loop :: "nat \<Rightarrow> (slice \<Rightarrow> 'd \<Rightarrow> 'd) \<Rightarrow> slice \<Rightarrow> ('s, 'd) db_iter \<Rightarrow> ('s, 'd) db_iter run" where
  "sample_loop 0 record_sample k it = Fuel_Out"
| "sample_loop (Suc fuel) record_sample k it =
     (if di_bytes_counter it < 0 then
        let (period, rnd) = RandomPeriod (di_rnd it) in
        sample_loop fuel record_sample k
          (it\<lparr>di_bytes_counter := di_bytes_counter it + period, di_rnd := rnd, di_db := record_sample k (di_db it)\<rparr>)
      else Ret it)"

definition ParseKey ::
  "'s iter_ops \<Rightarrow> (slice \<Rightarrow> 'd \<Rightarrow> 'd) \<Rightarrow> ('s, 'd) db_iter \<Rightarrow> (parsed_internal_key option \<times> ('s, 'd) db_iter) run" where
  "ParseKey ops record_sample it =
     rbind (io_key ops (di_iter it)) (\<lambda>k. rbind (io_value ops (di_iter it)) (\<lambda>v.
       let n = int (length k) + int (length v);
           it = it\<lparr>di_bytes_counter := di_bytes_counter it - n\<rparr>
       in rbind (sample_loop (2 * nat (- di_bytes_counter it) + 2) record_sample k it) (\<lambda>it.
            case ParseInternalKey k of
              None \<Rightarrow> Ret (None, it\<lparr>di_status := Corruption (cstr ''corrupted internal key in DBIter'') []\<rparr>)
            | Some ikey \<Rightarrow> Ret (Some ikey, it))))"

text \<open>\<open>skip\<close> is \<open>saved_key_\<close> in every call.\<close>

fun next_entry_loop ::
  "nat \<Rightarrow> 's iter_ops \<Rightarrow> (slice \<Rightarrow> slice \<Rightarrow> int) \<Rightarrow> (slice \<Rightarrow> 'd \<Rightarrow> 'd) \<Rightarrow> bool \<Rightarrow> ('s, 'd) db_iter \<Rightarrow> ('s, 'd) db_iter run" where
  "next_entry_loop 0 ops ucmp record_sample skipping it = Fuel_Out"
| "next_entry_loop (Suc fuel) ops ucmp record_sample skipping it =
     rbind (ParseKey ops record_sample it) (\<lambda>(ikey, it).
       let (yield, skipping, it) =
             (case ikey of
                Some ik \<Rightarrow>
                  if pk_sequence ik \<le> di_sequence it then
                    if pk_type ik = kTypeDeletion then (False, True, it\<lparr>di_saved_key := pk_user_key ik\<rparr>)
                    else if skipping \<and> ucmp (pk_user_key ik) (di_saved_key it) \<le> 0 then (False, skipping, it)
                    else (True, skipping, it\<lparr>di_valid := True, di_saved_key := []\<rparr>)
                  else (False, skipping, it)
              | None \<Rightarrow> (False, skipping, it))
       in if yield then Ret it
          else rbind (io_Next ops (di_iter it)) (\<lambda>s.
            let it = it\<lparr>di_iter := s\<rparr> in
            if io_Valid ops s then next_entry_loop fuel ops ucmp record_sample skipping it
            else Ret (it\<lparr>di_saved_key := [], di_valid := False\<rparr>)))"

definition FindNextUserEntry ::
  "nat \<Rightarrow> 's iter_ops \<Rightarrow> (slice \<Rightarrow> slice \<Rightarrow> int) \<Rightarrow> (slice \<Rightarrow> 'd \<Rightarrow> 'd) \<Rightarrow> bool \<Rightarrow> ('s, 'd) db_iter \<Rightarrow> ('s, 'd) db_iter run" where
  "FindNextUserEntry fuel ops ucmp record_sample skipping it =
     (if \<not> io_Valid ops (di_iter it) then UB
      else if di_direction it \<noteq> kForward then UB
      else next_entry_loop fuel ops ucmp record_sample skipping it)"

definition di_Next ::
  "nat \<Rightarrow> 's iter_ops \<Rightarrow> (slice \<Rightarrow> slice \<Rightarrow> int) \<Rightarrow> (slice \<Rightarrow> 'd \<Rightarrow> 'd) \<Rightarrow> ('s, 'd) db_iter \<Rightarrow> ('s, 'd) db_iter run" where
  "di_Next fuel ops ucmp record_sample it =
     (if \<not> di_valid it then UB
      else if di_direction it = kReverse then
        let it = it\<lparr>di_direction := kForward\<rparr> in
        rbind (if \<not> io_Valid ops (di_iter it) then io_SeekToFirst ops (di_iter it) else io_Next ops (di_iter it)) (\<lambda>s.
          let it = it\<lparr>di_iter := s\<rparr> in
          if \<not> io_Valid ops s then Ret (it\<lparr>di_valid := False, di_saved_key := []\<rparr>)
          else FindNextUserEntry fuel ops ucmp record_sample True it)
      else
        rbind (io_key ops (di_iter it)) (\<lambda>k.
          FindNextUserEntry fuel ops ucmp record_sample True (it\<lparr>di_saved_key := ExtractUserKey k\<rparr>)))"

text \<open>
  The loop yields the last value type it saw. \<open>scan_back_loop\<close> is the loop of \<open>Prev\<close> that leaves the current key
  when the direction changes; it tells whether there was an entry before it.
\<close>

fun prev_entry_loop ::
  "nat \<Rightarrow> 's iter_ops \<Rightarrow> (slice \<Rightarrow> slice \<Rightarrow> int) \<Rightarrow> (slice \<Rightarrow> 'd \<Rightarrow> 'd) \<Rightarrow> value_type \<Rightarrow> ('s, 'd) db_iter \<Rightarrow>
     (value_type \<times> ('s, 'd) db_iter) run" where
  "prev_entry_loop 0 ops ucmp record_sample t it = Fuel_Out"
| "prev_entry_loop (Suc fuel) ops ucmp record_sample t it =
     rbind (ParseKey ops record_sample it) (\<lambda>(ikey, it).
       rbind (case ikey of
                Some ik \<Rightarrow>
                  if pk_sequence ik \<le> di_sequence it then
                    if t \<noteq> kTypeDeletion \<and> ucmp (pk_user_key ik) (di_saved_key it) < 0 then Ret (True, t, it)
                    else if pk_type ik = kTypeDeletion
                    then Ret (False, pk_type ik, ClearSavedValue (it\<lparr>di_saved_key := []\<rparr>))
                    else rbind (io_value ops (di_iter it)) (\<lambda>raw_value. rbind (io_key ops (di_iter it)) (\<lambda>k.
                      Ret (False, pk_type ik, it\<lparr>di_saved_key := ExtractUserKey k, di_saved_value := raw_value\<rparr>)))
                  else Ret (False, t, it)
              | None \<Rightarrow> Ret (False, t, it)) (\<lambda>(stop, t, it).
         if stop then Ret (t, it)
         else rbind (io_Prev ops (di_iter it)) (\<lambda>s.
           let it = it\<lparr>di_iter := s\<rparr> in
           if io_Valid ops s then prev_entry_loop fuel ops ucmp record_sample t it else Ret (t, it))))"

definition FindPrevUserEntry ::
  "nat \<Rightarrow> 's iter_ops \<Rightarrow> (slice \<Rightarrow> slice \<Rightarrow> int) \<Rightarrow> (slice \<Rightarrow> 'd \<Rightarrow> 'd) \<Rightarrow> ('s, 'd) db_iter \<Rightarrow> ('s, 'd) db_iter run" where
  "FindPrevUserEntry fuel ops ucmp record_sample it =
     (if di_direction it \<noteq> kReverse then UB
      else
        rbind (if io_Valid ops (di_iter it) then prev_entry_loop fuel ops ucmp record_sample kTypeDeletion it
               else Ret (kTypeDeletion, it)) (\<lambda>(value_type, it).
          if value_type = kTypeDeletion
          then Ret ((ClearSavedValue (it\<lparr>di_valid := False, di_saved_key := []\<rparr>))\<lparr>di_direction := kForward\<rparr>)
          else Ret (it\<lparr>di_valid := True\<rparr>)))"

fun scan_back_loop ::
  "nat \<Rightarrow> 's iter_ops \<Rightarrow> (slice \<Rightarrow> slice \<Rightarrow> int) \<Rightarrow> ('s, 'd) db_iter \<Rightarrow> (bool \<times> ('s, 'd) db_iter) run" where
  "scan_back_loop 0 ops ucmp it = Fuel_Out"
| "scan_back_loop (Suc fuel) ops ucmp it =
     rbind (io_Prev ops (di_iter it)) (\<lambda>s.
       let it = it\<lparr>di_iter := s\<rparr> in
       if \<not> io_Valid ops s then Ret (False, ClearSavedValue (it\<lparr>di_valid := False, di_saved_key := []\<rparr>))
       else rbind (io_key ops s) (\<lambda>k.
         if ucmp (ExtractUserKey k) (di_saved_key it) < 0 then Ret (True, it)
         else scan_back_loop fuel ops ucmp it))"

definition di_Prev ::
  "nat \<Rightarrow> 's iter_ops \<Rightarrow> (slice \<Rightarrow> slice \<Rightarrow> int) \<Rightarrow> (slice \<Rightarrow> 'd \<Rightarrow> 'd) \<Rightarrow> ('s, 'd) db_iter \<Rightarrow> ('s, 'd) db_iter run" where
  "di_Prev fuel ops ucmp record_sample it =
     (if \<not> di_valid it then UB
      else if di_direction it = kForward then
        if \<not> io_Valid ops (di_iter it) then UB
        else rbind (io_key ops (di_iter it)) (\<lambda>k.
          rbind (scan_back_loop fuel ops ucmp (it\<lparr>di_saved_key := ExtractUserKey k\<rparr>)) (\<lambda>(more, it).
            if \<not> more then Ret it
            else FindPrevUserEntry fuel ops ucmp record_sample (it\<lparr>di_direction := kReverse\<rparr>)))
      else FindPrevUserEntry fuel ops ucmp record_sample it)"

definition di_Seek ::
  "nat \<Rightarrow> 's iter_ops \<Rightarrow> (slice \<Rightarrow> slice \<Rightarrow> int) \<Rightarrow> (slice \<Rightarrow> 'd \<Rightarrow> 'd) \<Rightarrow> slice \<Rightarrow> ('s, 'd) db_iter \<Rightarrow> ('s, 'd) db_iter run" where
  "di_Seek fuel ops ucmp record_sample target it =
     (let it = ClearSavedValue (it\<lparr>di_direction := kForward\<rparr>) in
      rbind (AppendInternalKey [] \<lparr>pk_user_key = target, pk_sequence = di_sequence it, pk_type = kValueTypeForSeek\<rparr>) (\<lambda>key.
        let it = it\<lparr>di_saved_key := key\<rparr> in
        rbind (io_Seek ops (di_saved_key it) (di_iter it)) (\<lambda>s.
          let it = it\<lparr>di_iter := s\<rparr> in
          if io_Valid ops s then FindNextUserEntry fuel ops ucmp record_sample False it
          else Ret (it\<lparr>di_valid := False\<rparr>))))"

definition di_SeekToFirst ::
  "nat \<Rightarrow> 's iter_ops \<Rightarrow> (slice \<Rightarrow> slice \<Rightarrow> int) \<Rightarrow> (slice \<Rightarrow> 'd \<Rightarrow> 'd) \<Rightarrow> ('s, 'd) db_iter \<Rightarrow> ('s, 'd) db_iter run" where
  "di_SeekToFirst fuel ops ucmp record_sample it =
     (let it = ClearSavedValue (it\<lparr>di_direction := kForward\<rparr>) in
      rbind (io_SeekToFirst ops (di_iter it)) (\<lambda>s.
        let it = it\<lparr>di_iter := s\<rparr> in
        if io_Valid ops s then FindNextUserEntry fuel ops ucmp record_sample False it
        else Ret (it\<lparr>di_valid := False\<rparr>)))"

definition di_SeekToLast ::
  "nat \<Rightarrow> 's iter_ops \<Rightarrow> (slice \<Rightarrow> slice \<Rightarrow> int) \<Rightarrow> (slice \<Rightarrow> 'd \<Rightarrow> 'd) \<Rightarrow> ('s, 'd) db_iter \<Rightarrow> ('s, 'd) db_iter run" where
  "di_SeekToLast fuel ops ucmp record_sample it =
     (let it = ClearSavedValue (it\<lparr>di_direction := kReverse\<rparr>) in
      rbind (io_SeekToLast ops (di_iter it)) (\<lambda>s.
        FindPrevUserEntry fuel ops ucmp record_sample (it\<lparr>di_iter := s\<rparr>)))"

definition db_iter_ops ::
  "nat \<Rightarrow> 's iter_ops \<Rightarrow> (slice \<Rightarrow> slice \<Rightarrow> int) \<Rightarrow> (slice \<Rightarrow> 'd \<Rightarrow> 'd) \<Rightarrow> ('s, 'd) db_iter iter_ops" where
  "db_iter_ops fuel ops ucmp record_sample =
     \<lparr>io_Valid = di_Valid, io_SeekToFirst = di_SeekToFirst fuel ops ucmp record_sample,
      io_SeekToLast = di_SeekToLast fuel ops ucmp record_sample, io_Seek = di_Seek fuel ops ucmp record_sample,
      io_Next = di_Next fuel ops ucmp record_sample, io_Prev = di_Prev fuel ops ucmp record_sample,
      io_key = di_key ops, io_value = di_value ops, io_status = di_status_of ops\<rparr>"

end
