(* ===== verification/Ldb_Db_Iter_View.thy ===== *)
theory Ldb_Db_Iter_View
  imports Ldb_Db_Iter Ldb_Merge_Iter
begin

text \<open>
  What the iterator of the database shows: \<open>newest\<close> are the positions of the internal entries that a snapshot
  sees as the values of user keys, \<open>user_view\<close> the pairs at them. The loops of the iterator are shown to go to
  the next and the previous newest entry, and the iterator to keep the contract of iterators on \<open>user_view\<close>
  when its internal iterator keeps it on the internal entries.
\<close>

section \<open>The sampling loop ends\<close>

text \<open>Of two periods in a row one is not zero.\<close>

lemma period_step: "(a :: nat) < 1024 \<Longrightarrow> 0 < a \<Longrightarrow> (a * 2 ^ 21 * 16807 mod 2147483647) mod 2 ^ 21 \<noteq> 0"
proof -
  assume a: "a < 1024" "0 < a"
  define q where "q = a * 16807 div 1024"
  define r where "r = a * 16807 mod 1024"
  have "a * 16807 = 1024 * q + r" by (simp add: q_def r_def)
  then have eq: "a * 2 ^ 21 * 16807 = 2147483647 * q + (q + r * 2 ^ 21)" by simp
  have "16807 \<le> a * 16807" "a * 16807 \<le> 1023 * 16807" using a by simp_all
  then have q: "16 \<le> q" "q \<le> 16790" by (simp_all add: q_def)
  have "r < 1024" by (simp add: r_def)
  then have "q + r * 2 ^ 21 < 2147483647" using q by simp
  then have "a * 2 ^ 21 * 16807 mod 2147483647 = q + r * 2 ^ 21"
    unfolding eq by (simp only: mod_mult_self4 mod_less)
  then show ?thesis using q by simp
qed

lemma RandomPeriod_step:
  assumes "good_seed rnd"
  shows "0 \<le> fst (RandomPeriod rnd)" "good_seed (snd (RandomPeriod rnd))"
    "fst (RandomPeriod rnd) = 0 \<Longrightarrow> 0 < fst (RandomPeriod (snd (RandomPeriod rnd)))"
proof -
  note r = random_next_mod [OF assms, of 0]
  have p: "fst (RandomPeriod s) = int (unat (fst (Random_Next s)) mod 2 ^ 21)" for s
  proof -
    have n: "(of_int (2 * kReadBytesPeriod) :: u32) = 2097152" by (simp add: kReadBytesPeriod_def)
    have "fst (RandomPeriod s) = uint (fst (Random_Next s) mod 2097152)"
      unfolding RandomPeriod_def n Random_Uniform_def by (simp add: case_prod_beta)
    also have "\<dots> = uint (fst (Random_Next s)) mod 2097152" by (simp only: uint_mod) simp
    also have "\<dots> = int (unat (fst (Random_Next s)) mod 2 ^ 21)" by (simp add: zmod_int)
    finally show ?thesis .
  qed
  have s: "snd (RandomPeriod s) = snd (Random_Next s)" for s
    by (simp add: RandomPeriod_def Random_Uniform_def case_prod_beta)
  show "0 \<le> fst (RandomPeriod rnd)" by (simp add: p)
  show good: "good_seed (snd (RandomPeriod rnd))" using r by (simp add: s)
  assume "fst (RandomPeriod rnd) = 0"
  then have "unat (fst (Random_Next rnd)) mod 2 ^ 21 = 0" unfolding p by linarith
  then obtain a where a: "unat (fst (Random_Next rnd)) = a * 2 ^ 21" by (metis mod_0_imp_dvd dvd_mult_div_cancel mult.commute)
  define x where "x = fst (Random_Next rnd)"
  have x: "0 < unat x" "unat x < 2147483647" "unat x = a * 2 ^ 21" "snd (Random_Next rnd) = x"
    using r a by (simp_all add: good_seed_def word_less_nat_alt x_def)
  then have a: "a < 1024" "0 < a" by auto
  have "unat (fst (Random_Next x)) = a * 2 ^ 21 * 16807 mod 2147483647"
    using random_next_mod [of x 0] r x by (simp add: x_def)
  then have "unat (fst (Random_Next x)) mod 2 ^ 21 \<noteq> 0" using period_step [OF a] by simp
  then show "0 < fst (RandomPeriod (snd (RandomPeriod rnd)))" by (simp only: p s x(4))
qed

definition sampled :: "('s, 'd) db_iter \<Rightarrow> ('s, 'd) db_iter \<Rightarrow> bool" where
  "sampled it it' \<longleftrightarrow> good_seed (di_rnd it') \<and>
     (\<exists>c r d. it' = it\<lparr>di_bytes_counter := c, di_rnd := r, di_db := d\<rparr>)"

lemma sampled_fields:
  "sampled it it' \<Longrightarrow> di_iter it' = di_iter it \<and> di_sequence it' = di_sequence it \<and> di_status it' = di_status it \<and>
     di_saved_key it' = di_saved_key it \<and> di_saved_value it' = di_saved_value it \<and> di_direction it' = di_direction it \<and>
     di_valid it' = di_valid it \<and> good_seed (di_rnd it')"
  by (auto simp: sampled_def)

lemma sampled_refl: "good_seed (di_rnd it) \<Longrightarrow> sampled it it"
  unfolding sampled_def by (intro conjI exI [of _ "di_bytes_counter it"] exI [of _ "di_rnd it"] exI [of _ "di_db it"]) simp_all

lemma sample_loop_ends:
  "good_seed (di_rnd it) \<Longrightarrow> nat (- di_bytes_counter it) \<le> n \<Longrightarrow> 2 * n + 1 \<le> fuel \<Longrightarrow>
     \<exists>it'. sample_loop fuel record_sample k it = Ret it' \<and> sampled it it'"
proof (induction n arbitrary: it fuel)
  case (0 it fuel)
  then obtain f where "fuel = Suc f" by (cases fuel) auto
  then show ?case using 0 by (simp add: sampled_refl)
next
  case (Suc n)
  obtain f where f: "fuel = Suc (Suc f)" "2 * n + 1 \<le> f" using Suc.prems(3) by (cases fuel; cases "fuel - 1") auto
  show ?case
  proof (cases "di_bytes_counter it < 0")
    case False
    then show ?thesis using Suc.prems(1) f by (simp add: sampled_refl)
  next
    case neg: True
    note step = RandomPeriod_step [OF Suc.prems(1)]
    obtain p1 r1 where p1: "RandomPeriod (di_rnd it) = (p1, r1)" by fastforce
    obtain p2 r2 where p2: "RandomPeriod r1 = (p2, r2)" by fastforce
    note step2 = RandomPeriod_step [of r1]
    have facts: "0 \<le> p1" "good_seed r1" "p1 = 0 \<Longrightarrow> 0 < p2" "0 \<le> p2" "good_seed r2"
      using step step2 p1 p2 by auto
    let ?it1 = "it\<lparr>di_bytes_counter := di_bytes_counter it + p1, di_rnd := r1, di_db := record_sample k (di_db it)\<rparr>"
    show ?thesis
    proof (cases "di_bytes_counter it + p1 < 0")
      case False
      then show ?thesis using neg p1 f facts by (auto simp: sampled_def)
    next
      case True
      let ?it2 = "it\<lparr>di_bytes_counter := di_bytes_counter it + p1 + p2, di_rnd := r2,
        di_db := record_sample k (record_sample k (di_db it))\<rparr>"
      have "1 \<le> p1 + p2" using facts by linarith
      then have "nat (- di_bytes_counter ?it2) \<le> n" using Suc.prems(2) neg by simp
      from Suc.IH [OF _ this f(2)] facts(5) obtain it' where
        "sample_loop f record_sample k ?it2 = Ret it'" "sampled ?it2 it'" by auto
      moreover have "sample_loop fuel record_sample k it = sample_loop f record_sample k ?it2"
        using neg True p1 p2 by (simp add: f(1))
      moreover have "sampled it it'" using \<open>sampled ?it2 it'\<close> by (auto simp: sampled_def)
      ultimately show ?thesis by auto
    qed
  qed
qed

section \<open>What a snapshot sees\<close>

definition ik_user :: "pair \<Rightarrow> slice" where "ik_user x = ExtractUserKey (fst x)"
definition ik_seq :: "pair \<Rightarrow> sequence_number" where "ik_seq x = drop_bit 8 (internal_tag (fst x))"
definition ik_type :: "pair \<Rightarrow> value_type" where "ik_type x = ExtractValueType (fst x)"

definition parses :: "pair list \<Rightarrow> bool" where
  "parses L \<longleftrightarrow> (\<forall>x \<in> set L. 8 \<le> length (fst x) \<and> ik_type x \<le> kTypeValue)"

definition visible :: "sequence_number \<Rightarrow> pair list \<Rightarrow> nat \<Rightarrow> bool" where
  "visible s L i \<longleftrightarrow> i < length L \<and> ik_seq (L ! i) \<le> s"

text \<open>The entry at \<open>i\<close> is a value, and no entry before it has its user key and is seen.\<close>

definition newest :: "(slice \<Rightarrow> slice \<Rightarrow> int) \<Rightarrow> sequence_number \<Rightarrow> pair list \<Rightarrow> nat \<Rightarrow> bool" where
  "newest ucmp s L i \<longleftrightarrow> visible s L i \<and> ik_type (L ! i) = kTypeValue \<and>
     (\<forall>j < i. visible s L j \<longrightarrow> ucmp (ik_user (L ! j)) (ik_user (L ! i)) \<noteq> 0)"

definition user_view :: "(slice \<Rightarrow> slice \<Rightarrow> int) \<Rightarrow> sequence_number \<Rightarrow> pair list \<Rightarrow> pair list" where
  "user_view ucmp s L = map (\<lambda>i. (ik_user (L ! i), snd (L ! i))) (filter (newest ucmp s L) [0..<length L])"

definition newer :: "(slice \<Rightarrow> slice \<Rightarrow> int) \<Rightarrow> sequence_number \<Rightarrow> pair list \<Rightarrow> nat \<Rightarrow> nat" where
  "newer ucmp s L i = length (filter (newest ucmp s L) [0..<i])"

lemma newest_less: "newest ucmp s L i \<Longrightarrow> i < length L"
  by (simp add: newest_def visible_def)

lemma newer_split: "i \<le> j \<Longrightarrow> newer ucmp s L j = newer ucmp s L i + length (filter (newest ucmp s L) [i..<j])"
proof -
  assume "i \<le> j"
  then have "[0..<j] = [0..<i] @ [i..<j]" by (metis le_add_diff_inverse upt_add_eq_append zero_le)
  then show ?thesis by (simp add: newer_def)
qed

lemma newer_same:
  "i \<le> j \<Longrightarrow> (\<And>k. i \<le> k \<Longrightarrow> k < j \<Longrightarrow> \<not> newest ucmp s L k) \<Longrightarrow> newer ucmp s L j = newer ucmp s L i"
proof -
  assume "i \<le> j" "\<And>k. i \<le> k \<Longrightarrow> k < j \<Longrightarrow> \<not> newest ucmp s L k"
  moreover from this have "filter (newest ucmp s L) [i..<j] = []" by (auto simp: filter_empty_conv)
  ultimately show ?thesis by (simp add: newer_split [of i j])
qed

lemma length_view: "length (user_view ucmp s L) = newer ucmp s L (length L)"
  by (simp add: user_view_def newer_def)

lemma newer_all: "(\<And>k. i \<le> k \<Longrightarrow> \<not> newest ucmp s L k) \<Longrightarrow> i \<le> length L \<Longrightarrow> newer ucmp s L i = length (user_view ucmp s L)"
  using newer_same [of i "length L" ucmp s L] by (simp add: length_view)

lemma newer_Suc: "newer ucmp s L (Suc i) = newer ucmp s L i + (if newest ucmp s L i then 1 else 0)"
  by (simp add: newer_def)

lemma view_at:
  assumes "newest ucmp s L m"
  shows "newer ucmp s L m < length (user_view ucmp s L)"
    "user_view ucmp s L ! newer ucmp s L m = (ik_user (L ! m), snd (L ! m))"
proof -
  have m: "m < length L" using assms by (rule newest_less)
  then have "[0..<length L] = [0..<m] @ m # [Suc m..<length L]" by (metis upt_conv_Cons upt_add_eq_append le_add_diff_inverse less_imp_le zero_le)
  then have f: "filter (newest ucmp s L) [0..<length L] = filter (newest ucmp s L) [0..<m] @ m # filter (newest ucmp s L) [Suc m..<length L]"
    using assms by simp
  show "newer ucmp s L m < length (user_view ucmp s L)" by (simp add: user_view_def f newer_def)
  show "user_view ucmp s L ! newer ucmp s L m = (ik_user (L ! m), snd (L ! m))"
    by (simp add: user_view_def f newer_def nth_append)
qed

lemma parse_nth:
  assumes "parses L" "i < length L"
  shows "ParseInternalKey (fst (L ! i)) = Some \<lparr>pk_user_key = ik_user (L ! i), pk_sequence = ik_seq (L ! i), pk_type = ik_type (L ! i)\<rparr>"
    "ik_type (L ! i) = kTypeDeletion \<or> ik_type (L ! i) = kTypeValue"
proof -
  have "L ! i \<in> set L" using assms(2) by simp
  then have p: "8 \<le> length (fst (L ! i))" "ik_type (L ! i) \<le> kTypeValue" using assms(1) by (simp_all add: parses_def)
  then show "ParseInternalKey (fst (L ! i)) = Some \<lparr>pk_user_key = ik_user (L ! i), pk_sequence = ik_seq (L ! i), pk_type = ik_type (L ! i)\<rparr>"
    by (simp add: ParseInternalKey_def Let_def ik_user_def ik_seq_def ik_type_def ExtractUserKey_def ExtractValueType_def internal_tag_def)
  have "unat (ik_type (L ! i)) \<le> 1" using p(2) by (simp add: word_le_nat_alt)
  then show "ik_type (L ! i) = kTypeDeletion \<or> ik_type (L ! i) = kTypeValue"
    by (auto simp: le_Suc_eq word_unat_eq_iff)
qed

section \<open>The order of the entries\<close>

locale internal_iterator = slice_order valid ucmp +
  internal: iterator_contract "\<lambda>k. 8 \<le> length k \<and> valid (ExtractUserKey k)" "ikey_compare ucmp" ops cursor
  for valid :: "slice \<Rightarrow> bool" and ucmp :: "slice \<Rightarrow> slice \<Rightarrow> int"
    and ops :: "'s iter_ops" and cursor :: "'s \<Rightarrow> pair list \<Rightarrow> nat \<Rightarrow> bool"
begin

abbreviation sorted_entries :: "pair list \<Rightarrow> bool" where
  "sorted_entries L \<equiv> sorted_pairs (\<lambda>k. 8 \<le> length k \<and> valid (ExtractUserKey k)) (ikey_compare ucmp) L"

lemma user_valid: "sorted_entries L \<Longrightarrow> i < length L \<Longrightarrow> valid (ik_user (L ! i))"
  using internal.sorted_nth(1) [of L i] by (simp add: ik_user_def)

lemma user_mono: "sorted_entries L \<Longrightarrow> i \<le> j \<Longrightarrow> j < length L \<Longrightarrow> ucmp (ik_user (L ! i)) (ik_user (L ! j)) \<le> 0"
  using internal.sorted_nth_le [of L i j] by (auto simp: ikey_le_iff ik_user_def)

lemma user_less_iff:
  assumes "sorted_entries L" "i < length L" "j < length L"
  shows "ucmp (ik_user (L ! i)) (ik_user (L ! j)) < 0 \<longleftrightarrow> i < j \<and> ucmp (ik_user (L ! i)) (ik_user (L ! j)) \<noteq> 0"
  using user_mono [OF assms(1), of i j] user_mono [OF assms(1), of j i] assms(2,3)
    compare_flip [OF user_valid [OF assms(1,2)] user_valid [OF assms(1,3)]]
    compare_flip [OF user_valid [OF assms(1,3)] user_valid [OF assms(1,2)]]
  by (cases "i < j") auto

lemma newest_strict:
  "sorted_entries L \<Longrightarrow> newest ucmp s L i \<Longrightarrow> newest ucmp s L j \<Longrightarrow> ucmp (ik_user (L ! i)) (ik_user (L ! j)) < 0 \<longleftrightarrow> i < j"
  using user_less_iff [of L i j] by (auto simp: newest_def visible_def)

lemma sorted_view:
  assumes "sorted_entries L"
  shows "sorted_pairs valid ucmp (user_view ucmp s L)"
proof -
  have "sorted_wrt (\<lambda>i j. newest ucmp s L i \<and> newest ucmp s L j \<and> i < j) (filter (newest ucmp s L) [0..<length L])"
  proof -
    have "sorted_wrt (<) (filter (newest ucmp s L) [0..<length L])" by (rule sorted_wrt_filter) simp
    then show ?thesis by (rule sorted_wrt_mono_rel [rotated]) auto
  qed
  then have "sorted_wrt (\<lambda>i j. ucmp (ik_user (L ! i)) (ik_user (L ! j)) < 0) (filter (newest ucmp s L) [0..<length L])"
    by (rule sorted_wrt_mono_rel [rotated]) (use newest_strict [OF assms] in auto)
  moreover have "\<forall>i \<in> set (filter (newest ucmp s L) [0..<length L]). valid (ik_user (L ! i))"
    using user_valid [OF assms] by auto
  ultimately show ?thesis by (simp add: sorted_pairs_def user_view_def sorted_wrt_map)
qed

text \<open>The internal key that \<open>Seek\<close> looks for is before what the snapshot sees of the target and after what it does not.\<close>

lemma tag_le:
  assumes "ik_seq x \<le> s" "ik_type x \<le> kTypeValue" "s \<le> kMaxSequenceNumber"
  shows "internal_tag (fst x) \<le> packed_tag s kValueTypeForSeek"
proof -
  let ?t = "internal_tag (fst x)"
  have "unat ?t = 256 * (unat ?t div 256) + unat ?t mod 256" by simp
  moreover have "unat ?t div 256 = unat (ik_seq x)" by (simp add: ik_seq_def drop_bit_eq_div unat_div)
  moreover have "unat ?t mod 256 = unat (ik_type x)"
  proof -
    have "(0xFF :: u64) = mask 8" by (simp add: mask_eq_exp_minus_1)
    then have "ik_type x = ucast (take_bit 8 ?t)"
      unfolding ik_type_def ExtractValueType_def by (simp only: take_bit_eq_mask)
    then show ?thesis by (simp only: unsigned_ucast_eq unsigned_take_bit_eq) (simp add: take_bit_eq_mod)
  qed
  moreover have "unat (ik_seq x) \<le> unat s" "unat (ik_type x) \<le> 1" using assms(1,2) by (simp_all add: word_le_nat_alt)
  moreover have "unat (packed_tag s kValueTypeForSeek) = unat s * 256 + 1"
    using packed_value [OF assms(3), of kValueTypeForSeek] by simp
  ultimately show ?thesis unfolding word_le_nat_alt by linarith
qed

lemma seek_key:
  assumes "valid target" "s \<le> kMaxSequenceNumber"
  defines "k \<equiv> ikey_bytes \<lparr>pk_user_key = target, pk_sequence = s, pk_type = kValueTypeForSeek\<rparr>"
  shows "8 \<le> length k \<and> valid (ExtractUserKey k)"
    "ik_seq x \<le> s \<Longrightarrow> ik_type x \<le> kTypeValue \<Longrightarrow> ikey_compare ucmp (fst x) k < 0 \<longleftrightarrow> ucmp (ik_user x) target < 0"
proof -
  have k: "ExtractUserKey k = target" "8 \<le> length k" "internal_tag k = packed_tag s kValueTypeForSeek"
    using DecodeFixed64_bytes [of "packed_tag s kValueTypeForSeek" "[]"]
    by (simp_all add: k_def ikey_bytes_def ExtractUserKey_def internal_tag_def)
  then show "8 \<le> length k \<and> valid (ExtractUserKey k)" using assms(1) by simp
  assume "ik_seq x \<le> s" "ik_type x \<le> kTypeValue"
  then have "\<not> internal_tag k < internal_tag (fst x)" using tag_le [OF _ _ assms(2)] k(3) by (simp add: not_less)
  then show "ikey_compare ucmp (fst x) k < 0 \<longleftrightarrow> ucmp (ik_user x) target < 0"
    by (simp add: ikey_less_iff ik_user_def k(1))
qed

section \<open>Parsing and the forward loop\<close>

lemma ParseKey_at:
  assumes "cursor (di_iter it) L i" "i < length L" "parses L" "good_seed (di_rnd it)"
  shows "\<exists>it'. ParseKey ops record_sample it =
      Ret (Some \<lparr>pk_user_key = ik_user (L ! i), pk_sequence = ik_seq (L ! i), pk_type = ik_type (L ! i)\<rparr>, it') \<and> sampled it it'"
proof -
  let ?n = "int (length (fst (L ! i))) + int (length (snd (L ! i)))"
  define it0 where "it0 = it\<lparr>di_bytes_counter := di_bytes_counter it - ?n\<rparr>"
  have "good_seed (di_rnd it0)" "2 * nat (- di_bytes_counter it0) + 1 \<le> 2 * nat (- di_bytes_counter it0) + 2"
    using assms(4) by (simp_all add: it0_def)
  from sample_loop_ends [OF this(1) order_refl this(2)] obtain it' where
    it': "sample_loop (2 * nat (- di_bytes_counter it0) + 2) record_sample (fst (L ! i)) it0 = Ret it'" "sampled it0 it'" by blast
  have "sampled it it'" using it'(2) by (auto simp: sampled_def it0_def)
  moreover have "ParseKey ops record_sample it = rbind (sample_loop (2 * nat (- di_bytes_counter it0) + 2) record_sample (fst (L ! i)) it0) (\<lambda>it.
      Ret (Some \<lparr>pk_user_key = ik_user (L ! i), pk_sequence = ik_seq (L ! i), pk_type = ik_type (L ! i)\<rparr>, it))"
    using parse_nth(1) [OF assms(3,2)] internal.key_at [OF assms(1,2)] internal.value_at [OF assms(1,2)]
    by (simp add: ParseKey_def Let_def it0_def del: sample_loop.simps)
  ultimately show ?thesis using it'(1) by (simp del: sample_loop.simps)
qed

lemma from_Suc: "i < k \<Longrightarrow> (\<forall>j. i \<le> j \<longrightarrow> j < k \<longrightarrow> P j) \<longleftrightarrow> P i \<and> (\<forall>j. Suc i \<le> j \<longrightarrow> j < k \<longrightarrow> P j)"
  by (metis Suc_leD Suc_leI le_neq_implies_less le_refl)

text \<open>
  \<open>goal\<close> holds of the positions from \<open>i\<close> on at which the loop may stop: those of seen values that it does not
  skip, with no seen entry of the same user key between \<open>i\<close> and them.
\<close>

definition aims :: "sequence_number \<Rightarrow> pair list \<Rightarrow> nat \<Rightarrow> bool \<Rightarrow> slice \<Rightarrow> (nat \<Rightarrow> bool) \<Rightarrow> bool" where
  "aims s L i skipping saved goal \<longleftrightarrow>
     (skipping \<longrightarrow> valid saved \<and> (\<forall>k \<ge> i. visible s L k \<longrightarrow> ucmp saved (ik_user (L ! k)) \<le> 0)) \<and>
     (\<forall>k \<ge> i. goal k \<longleftrightarrow> visible s L k \<and> ik_type (L ! k) = kTypeValue \<and>
        \<not> (skipping \<and> ucmp (ik_user (L ! k)) saved \<le> 0) \<and>
        (\<forall>j. i \<le> j \<longrightarrow> j < k \<longrightarrow> visible s L j \<longrightarrow> ucmp (ik_user (L ! j)) (ik_user (L ! k)) \<noteq> 0))"

lemma aims_unseen:
  assumes "aims s L i skipping saved goal" "\<not> visible s L i"
  shows "aims s L (Suc i) skipping saved goal" "\<not> goal i"
proof -
  have "(\<forall>j. i \<le> j \<longrightarrow> j < k \<longrightarrow> visible s L j \<longrightarrow> Q j) \<longleftrightarrow> (\<forall>j. Suc i \<le> j \<longrightarrow> j < k \<longrightarrow> visible s L j \<longrightarrow> Q j)"
    if "Suc i \<le> k" for k Q
    using from_Suc [of i k "\<lambda>j. visible s L j \<longrightarrow> Q j"] that assms(2) by simp
  then show "aims s L (Suc i) skipping saved goal" using assms(1) by (simp add: aims_def)
  show "\<not> goal i" using assms by (auto simp: aims_def)
qed

lemma aims_deletion:
  assumes L: "sorted_entries L" and a: "aims s L i skipping saved goal" and i: "visible s L i" "ik_type (L ! i) = kTypeDeletion"
  shows "aims s L (Suc i) True (ik_user (L ! i)) goal" "\<not> goal i"
proof -
  have il: "i < length L" using i(1) by (simp add: visible_def)
  show "\<not> goal i" using a i(2) by (auto simp: aims_def)
  have "goal k \<longleftrightarrow> visible s L k \<and> ik_type (L ! k) = kTypeValue \<and> \<not> ucmp (ik_user (L ! k)) (ik_user (L ! i)) \<le> 0 \<and>
        (\<forall>j. Suc i \<le> j \<longrightarrow> j < k \<longrightarrow> visible s L j \<longrightarrow> ucmp (ik_user (L ! j)) (ik_user (L ! k)) \<noteq> 0)" if k: "Suc i \<le> k" for k
  proof (cases "visible s L k")
    case True
    then have kl: "k < length L" by (simp add: visible_def)
    note v = user_valid [OF L il] user_valid [OF L kl]
    have le: "ucmp (ik_user (L ! i)) (ik_user (L ! k)) \<le> 0" using user_mono [OF L _ kl] k by simp
    have eq: "ucmp (ik_user (L ! k)) (ik_user (L ! i)) \<le> 0 \<longleftrightarrow> ucmp (ik_user (L ! i)) (ik_user (L ! k)) = 0"
      using le compare_flip [OF v] compare_flip [OF v(2,1)] by linarith
    have unskipped: "ucmp (ik_user (L ! i)) (ik_user (L ! k)) \<noteq> 0 \<Longrightarrow> skipping \<Longrightarrow> \<not> ucmp (ik_user (L ! k)) saved \<le> 0"
    proof -
      assume ne: "ucmp (ik_user (L ! i)) (ik_user (L ! k)) \<noteq> 0" and sk: "skipping"
      then have sv: "valid saved" "ucmp saved (ik_user (L ! i)) \<le> 0" using a i(1) by (auto simp: aims_def)
      have "ucmp saved (ik_user (L ! k)) < 0" using compare_le_less [OF sv(1) v sv(2)] le ne by linarith
      then show "\<not> ucmp (ik_user (L ! k)) saved \<le> 0" using compare_flip [OF sv(1) v(2)] by linarith
    qed
    have "(\<forall>j. i \<le> j \<longrightarrow> j < k \<longrightarrow> visible s L j \<longrightarrow> ucmp (ik_user (L ! j)) (ik_user (L ! k)) \<noteq> 0) \<longleftrightarrow>
        ucmp (ik_user (L ! i)) (ik_user (L ! k)) \<noteq> 0 \<and>
        (\<forall>j. Suc i \<le> j \<longrightarrow> j < k \<longrightarrow> visible s L j \<longrightarrow> ucmp (ik_user (L ! j)) (ik_user (L ! k)) \<noteq> 0)"
      using from_Suc [of i k "\<lambda>j. visible s L j \<longrightarrow> ucmp (ik_user (L ! j)) (ik_user (L ! k)) \<noteq> 0"] i(1) k by simp
    then show ?thesis using a k eq unskipped by (auto simp: aims_def)
  next
    case False
    then show ?thesis using a k by (auto simp: aims_def)
  qed
  moreover have "\<forall>k \<ge> Suc i. visible s L k \<longrightarrow> ucmp (ik_user (L ! i)) (ik_user (L ! k)) \<le> 0"
    using user_mono [OF L] by (auto simp: visible_def)
  ultimately show "aims s L (Suc i) True (ik_user (L ! i)) goal"
    using user_valid [OF L il] by (simp add: aims_def)
qed

lemma aims_hidden:
  assumes L: "sorted_entries L" and a: "aims s L i True saved goal" and i: "visible s L i" "ucmp (ik_user (L ! i)) saved \<le> 0"
  shows "aims s L (Suc i) True saved goal" "\<not> goal i"
proof -
  have il: "i < length L" using i(1) by (simp add: visible_def)
  have sv: "valid saved" "ucmp saved (ik_user (L ! i)) \<le> 0" using a i(1) by (auto simp: aims_def)
  show "\<not> goal i" using a i(2) by (auto simp: aims_def)
  have "ucmp (ik_user (L ! k)) saved \<le> 0" if "visible s L k" "ucmp (ik_user (L ! i)) (ik_user (L ! k)) = 0" for k
  proof -
    have kl: "k < length L" using that(1) by (simp add: visible_def)
    note v = user_valid [OF L il] user_valid [OF L kl]
    have "ucmp (ik_user (L ! k)) (ik_user (L ! i)) \<le> 0" using that(2) compare_flip [OF v] compare_flip [OF v(2,1)] by linarith
    from compare_trans [OF v(2,1) sv(1) this i(2)] show ?thesis .
  qed
  then have "(\<forall>j. i \<le> j \<longrightarrow> j < k \<longrightarrow> visible s L j \<longrightarrow> ucmp (ik_user (L ! j)) (ik_user (L ! k)) \<noteq> 0) \<longleftrightarrow>
      (\<forall>j. Suc i \<le> j \<longrightarrow> j < k \<longrightarrow> visible s L j \<longrightarrow> ucmp (ik_user (L ! j)) (ik_user (L ! k)) \<noteq> 0)"
    if "Suc i \<le> k" "visible s L k" "\<not> ucmp (ik_user (L ! k)) saved \<le> 0" for k
    using from_Suc [of i k "\<lambda>j. visible s L j \<longrightarrow> ucmp (ik_user (L ! j)) (ik_user (L ! k)) \<noteq> 0"] that by auto
  then show "aims s L (Suc i) True saved goal" using a by (auto simp: aims_def)
qed

definition same_run :: "('s, 'd) db_iter \<Rightarrow> ('s, 'd) db_iter \<Rightarrow> bool" where
  "same_run it it' \<longleftrightarrow> good_seed (di_rnd it') \<and> di_sequence it' = di_sequence it \<and> di_status it' = di_status it"

definition goes_next :: "pair list \<Rightarrow> nat \<Rightarrow> (nat \<Rightarrow> bool) \<Rightarrow> ('s, 'd) db_iter \<Rightarrow> ('s, 'd) db_iter \<Rightarrow> bool" where
  "goes_next L i goal it it' \<longleftrightarrow> same_run it it' \<and> di_direction it' = di_direction it \<and>
     (\<exists>m. i \<le> m \<and> (\<forall>k. i \<le> k \<longrightarrow> k < m \<longrightarrow> \<not> goal k) \<and> cursor (di_iter it') L m \<and>
        (if m < length L then goal m \<and> di_valid it' else \<not> di_valid it'))"

lemma goes_next_Suc:
  assumes "goes_next L (Suc i) goal it2 it'" "same_run it it2" "di_direction it2 = di_direction it" "\<not> goal i"
  shows "goes_next L i goal it it'"
proof -
  obtain m where m: "Suc i \<le> m" "\<forall>k. Suc i \<le> k \<longrightarrow> k < m \<longrightarrow> \<not> goal k" "cursor (di_iter it') L m"
    "if m < length L then goal m \<and> di_valid it' else \<not> di_valid it'" using assms(1) by (auto simp: goes_next_def)
  then have "\<forall>k. i \<le> k \<longrightarrow> k < m \<longrightarrow> \<not> goal k" using from_Suc [of i m "\<lambda>k. \<not> goal k"] assms(4) by simp
  moreover have "i \<le> m" using m(1) by simp
  ultimately show ?thesis using assms m(3,4) unfolding goes_next_def same_run_def by metis
qed

lemma goes_next_here:
  assumes "same_run it it'" "di_direction it' = di_direction it" "cursor (di_iter it') L i"
    "if i < length L then goal i \<and> di_valid it' else \<not> di_valid it'"
  shows "goes_next L i goal it it'"
  unfolding goes_next_def
proof (intro conjI exI [of _ i])
  show "\<forall>k. i \<le> k \<longrightarrow> k < i \<longrightarrow> \<not> goal k" by simp
qed (use assms in auto)

lemma next_entry_loop_goes:
  "cursor (di_iter it) L i \<Longrightarrow> i < length L \<Longrightarrow> parses L \<Longrightarrow> good_seed (di_rnd it) \<Longrightarrow>
   aims (di_sequence it) L i skipping (di_saved_key it) goal \<Longrightarrow> length L - i < fuel \<Longrightarrow>
     \<exists>it'. next_entry_loop fuel ops ucmp record_sample skipping it = Ret it' \<and> goes_next L i goal it it'"
proof (induction fuel arbitrary: it i skipping)
  case (Suc fuel)
  have L: "sorted_entries L" using internal.cursor_sorted [OF Suc.prems(1)] .
  let ?u = "ik_user (L ! i)" and ?t = "ik_type (L ! i)"
  obtain it1 where it1: "ParseKey ops record_sample it = Ret (Some \<lparr>pk_user_key = ?u, pk_sequence = ik_seq (L ! i), pk_type = ?t\<rparr>, it1)"
    "sampled it it1" using ParseKey_at [OF Suc.prems(1-4)] by blast
  note f = sampled_fields [OF it1(2)]
  have vis: "visible (di_sequence it) L i \<longleftrightarrow> ik_seq (L ! i) \<le> di_sequence it" using Suc.prems(2) by (simp add: visible_def)
  note type = parse_nth(2) [OF Suc.prems(3,2)]
  have on: "\<exists>it'. rbind (io_Next ops (di_iter it2)) (\<lambda>s.
      if io_Valid ops s then next_entry_loop fuel ops ucmp record_sample sk (it2\<lparr>di_iter := s\<rparr>)
      else Ret (it2\<lparr>di_iter := s, di_saved_key := [], di_valid := False\<rparr>)) = Ret it' \<and> goes_next L i goal it it'"
    if a: "aims (di_sequence it) L (Suc i) sk (di_saved_key it2) goal" "\<not> goal i"
      and it2: "di_iter it2 = di_iter it" "same_run it it2" "di_direction it2 = di_direction it" for it2 sk
  proof -
    obtain c where c: "io_Next ops (di_iter it) = Ret c" "cursor c L (Suc i)" using internal.Next_at [OF Suc.prems(1,2)] by blast
    show ?thesis
    proof (cases "Suc i < length L")
      case True
      have "\<exists>it'. next_entry_loop fuel ops ucmp record_sample sk (it2\<lparr>di_iter := c\<rparr>) = Ret it' \<and> goes_next L (Suc i) goal (it2\<lparr>di_iter := c\<rparr>) it'"
        using Suc.IH [of "it2\<lparr>di_iter := c\<rparr>" "Suc i" sk] c(2) True Suc.prems(3,6) a(1) it2 by (simp add: same_run_def)
      then obtain it' where it': "next_entry_loop fuel ops ucmp record_sample sk (it2\<lparr>di_iter := c\<rparr>) = Ret it'"
        "goes_next L (Suc i) goal (it2\<lparr>di_iter := c\<rparr>) it'" by blast
      have "goes_next L i goal it it'" by (rule goes_next_Suc [OF it'(2)]) (use it2 a(2) in \<open>simp_all add: same_run_def\<close>)
      then show ?thesis using c(1) True internal.Valid_iff [OF c(2)] it2(1) it'(1) by simp
    next
      case False
      let ?it = "it2\<lparr>di_iter := c, di_saved_key := [], di_valid := False\<rparr>"
      have "goes_next L (Suc i) goal ?it ?it"
        by (rule goes_next_here) (use c(2) False it2(2) in \<open>simp_all add: same_run_def\<close>)
      then have "goes_next L i goal it ?it" by (rule goes_next_Suc) (use it2 a(2) in \<open>simp_all add: same_run_def\<close>)
      then show ?thesis using c(1) False internal.Valid_iff [OF c(2)] it2(1) by simp
    qed
  qed
  have s1: "same_run it it1" "di_iter it1 = di_iter it" "di_direction it1 = di_direction it" using f by (simp_all add: same_run_def)
  consider "\<not> visible (di_sequence it) L i"
    | "visible (di_sequence it) L i" "?t = kTypeDeletion"
    | "visible (di_sequence it) L i" "?t = kTypeValue" "skipping" "ucmp ?u (di_saved_key it) \<le> 0"
    | "visible (di_sequence it) L i" "?t = kTypeValue" "\<not> (skipping \<and> ucmp ?u (di_saved_key it) \<le> 0)"
    using type by blast
  then show ?case
  proof cases
    case 1
    note a = aims_unseen [OF Suc.prems(5) 1]
    show ?thesis using 1 on [of skipping it1] a f s1 it1(1) vis by (simp add: Let_def)
  next
    case 2
    note a = aims_deletion [OF L Suc.prems(5) 2]
    show ?thesis using 2 on [of True "it1\<lparr>di_saved_key := ?u\<rparr>"] a f s1 it1(1) vis by (simp add: Let_def same_run_def)
  next
    case 3
    have "aims (di_sequence it) L i True (di_saved_key it) goal" using Suc.prems(5) 3(3) by simp
    note a = aims_hidden [OF L this 3(1,4)]
    show ?thesis using 3 on [of True it1] a f s1 it1(1) vis by (simp add: Let_def)
  next
    case 4
    then have "goal i" using Suc.prems(5) by (auto simp: aims_def)
    let ?it = "it1\<lparr>di_valid := True, di_saved_key := []\<rparr>"
    have "goes_next L i goal it ?it"
      by (rule goes_next_here) (use \<open>goal i\<close> s1 Suc.prems(1,2) in \<open>simp_all add: same_run_def\<close>)
    moreover have "next_entry_loop (Suc fuel) ops ucmp record_sample skipping it = Ret ?it"
    proof -
      have "?t \<noteq> kTypeDeletion" using 4(2) by simp
      then show ?thesis using 4(1,3) f it1(1) vis by (cases skipping) simp_all
    qed
    ultimately show ?thesis by blast
  qed
qed simp

end

end
