(* ===== verification/Ldb_Db_Iter_Spec.thy ===== *)
theory Ldb_Db_Iter_Spec
  imports Ldb_Db_Iter_View
begin

text \<open>
  The iterator of the database keeps the contract of iterators on \<open>user_view\<close>: the loop of \<open>FindPrevUserEntry\<close>,
  the loop of \<open>Prev\<close> that leaves the current key, the operations with both directions, and the property over the
  scripts of a client.
\<close>

section \<open>The backward loop\<close>

context internal_iterator begin

text \<open>The entries from \<open>r\<close> to \<open>i0\<close> have been read, the last of them first.\<close>

definition read_back :: "pair list \<Rightarrow> nat \<Rightarrow> nat \<Rightarrow> value_type \<Rightarrow> ('s, 'd) db_iter \<Rightarrow> bool" where
  "read_back L i0 r t it \<longleftrightarrow>
     (t = kTypeDeletion \<and> (\<forall>d. r \<le> d \<longrightarrow> d \<le> i0 \<longrightarrow> \<not> newest ucmp (di_sequence it) L d)) \<or>
     (t = kTypeValue \<and> (\<exists>c. r \<le> c \<and> c \<le> i0 \<and> visible (di_sequence it) L c \<and> ik_type (L ! c) = kTypeValue \<and>
        di_saved_key it = ik_user (L ! c) \<and> di_saved_value it = snd (L ! c) \<and>
        (\<forall>j. r \<le> j \<longrightarrow> j < c \<longrightarrow> \<not> visible (di_sequence it) L j) \<and>
        (\<forall>d. c < d \<longrightarrow> d \<le> i0 \<longrightarrow> \<not> newest ucmp (di_sequence it) L d)))"

text \<open>In the backward direction the iterator shows what it saved, and stands before the entries of that user key.\<close>

definition behind :: "pair list \<Rightarrow> nat \<Rightarrow> ('s, 'd) db_iter \<Rightarrow> bool" where
  "behind L b it \<longleftrightarrow> newest ucmp (di_sequence it) L b \<and> di_saved_key it = ik_user (L ! b) \<and> di_saved_value it = snd (L ! b) \<and>
     (\<exists>i. cursor (di_iter it) L i \<and> (i < length L \<longrightarrow> ucmp (ik_user (L ! i)) (ik_user (L ! b)) < 0) \<and>
        (\<forall>j. visible (di_sequence it) L j \<longrightarrow> i = length L \<or> i < j \<longrightarrow> ucmp (ik_user (L ! b)) (ik_user (L ! j)) \<le> 0))"

definition goes_prev :: "pair list \<Rightarrow> nat \<Rightarrow> ('s, 'd) db_iter \<Rightarrow> value_type \<times> ('s, 'd) db_iter \<Rightarrow> bool" where
  "goes_prev L i0 it r \<longleftrightarrow> (case r of (t, it') \<Rightarrow> same_run it it' \<and> di_direction it' = di_direction it \<and>
     (if t = kTypeDeletion
      then (\<forall>d \<le> i0. \<not> newest ucmp (di_sequence it) L d) \<and> (\<exists>i. cursor (di_iter it') L i)
      else \<exists>b \<le> i0. behind L b it' \<and> (\<forall>d. b < d \<longrightarrow> d \<le> i0 \<longrightarrow> \<not> newest ucmp (di_sequence it) L d)))"

lemma read_back_cong:
  "di_sequence it' = di_sequence it \<Longrightarrow> di_saved_key it' = di_saved_key it \<Longrightarrow> di_saved_value it' = di_saved_value it \<Longrightarrow>
     read_back L i0 r t it' = read_back L i0 r t it"
  by (simp add: read_back_def)

lemma read_back_newest:
  assumes L: "sorted_entries L" and c: "visible s L c" "ik_type (L ! c) = kTypeValue"
    and before: "\<And>j. visible s L j \<Longrightarrow> j < c \<Longrightarrow> j \<le> i" and i: "ucmp (ik_user (L ! i)) (ik_user (L ! c)) < 0" "i < c"
  shows "newest ucmp s L c"
  unfolding newest_def
proof (intro conjI allI impI c)
  fix j
  assume j: "j < c" "visible s L j"
  have cl: "c < length L" using c(1) by (simp add: visible_def)
  then have il: "i < length L" "j < length L" using i(2) j(1) by simp_all
  have "ucmp (ik_user (L ! j)) (ik_user (L ! i)) \<le> 0" using user_mono [OF L _ il(1)] before [OF j(2,1)] by simp
  from compare_le_less [OF user_valid [OF L il(2)] user_valid [OF L il(1)] user_valid [OF L cl] this i(1)]
  show "ucmp (ik_user (L ! j)) (ik_user (L ! c)) \<noteq> 0" by simp
qed

lemma goes_prev_trans:
  "goes_prev L i0 it2 r \<Longrightarrow> same_run it it2 \<Longrightarrow> di_direction it2 = di_direction it \<Longrightarrow> goes_prev L i0 it r"
  by (cases r; cases "fst r = kTypeDeletion") (simp_all add: goes_prev_def same_run_def)

lemma goes_prev_front:
  assumes L: "sorted_entries L" and r: "read_back L i0 0 t it'" and it': "cursor (di_iter it') L (length L)"
    "same_run it it'" "di_direction it' = di_direction it"
  shows "goes_prev L i0 it (t, it')"
proof (cases "t = kTypeDeletion")
  case True
  then show ?thesis using r it' by (auto simp: goes_prev_def same_run_def read_back_def)
next
  case False
  then obtain c where c: "c \<le> i0" "visible (di_sequence it') L c" "ik_type (L ! c) = kTypeValue"
    "di_saved_key it' = ik_user (L ! c)" "di_saved_value it' = snd (L ! c)"
    "\<And>j. j < c \<Longrightarrow> \<not> visible (di_sequence it') L j" "\<And>d. c < d \<Longrightarrow> d \<le> i0 \<Longrightarrow> \<not> newest ucmp (di_sequence it') L d"
    using r by (auto simp: read_back_def)
  have "newest ucmp (di_sequence it') L c" using c by (auto simp: newest_def)
  moreover have "ucmp (ik_user (L ! c)) (ik_user (L ! j)) \<le> 0" if "visible (di_sequence it') L j" for j
  proof -
    have "c \<le> j" using c(6) [of j] that by (meson not_le)
    moreover have "j < length L" using that by (simp add: visible_def)
    ultimately show ?thesis by (rule user_mono [OF L])
  qed
  ultimately have "behind L c it'" using c(4,5) it'(1) unfolding behind_def by blast
  moreover have "\<forall>d. c < d \<longrightarrow> d \<le> i0 \<longrightarrow> \<not> newest ucmp (di_sequence it) L d"
    using c(7) it'(2) by (simp add: same_run_def)
  ultimately show ?thesis using False it'(2,3) c(1) by (auto simp: goes_prev_def)
qed

lemma goes_prev_stop:
  assumes L: "sorted_entries L" and r: "read_back L i0 (Suc i) kTypeValue it'" and it': "cursor (di_iter it') L i"
    "same_run it it'" "di_direction it' = di_direction it" and i: "i < length L" "ucmp (ik_user (L ! i)) (di_saved_key it') < 0"
  shows "goes_prev L i0 it (kTypeValue, it')"
proof -
  obtain c where c: "i < c" "c \<le> i0" "visible (di_sequence it') L c" "ik_type (L ! c) = kTypeValue"
    "di_saved_key it' = ik_user (L ! c)" "di_saved_value it' = snd (L ! c)"
    "\<And>j. i < j \<Longrightarrow> j < c \<Longrightarrow> \<not> visible (di_sequence it') L j" "\<And>d. c < d \<Longrightarrow> d \<le> i0 \<Longrightarrow> \<not> newest ucmp (di_sequence it') L d"
    using r by (auto simp: read_back_def Suc_le_eq)
  have less: "ucmp (ik_user (L ! i)) (ik_user (L ! c)) < 0" using i(2) c(5) by simp
  have "newest ucmp (di_sequence it') L c"
    by (rule read_back_newest [OF L c(3,4) _ less c(1)]) (use c(7) in \<open>meson not_le\<close>)
  moreover have "ucmp (ik_user (L ! c)) (ik_user (L ! j)) \<le> 0" if "visible (di_sequence it') L j" "i < j" for j
  proof -
    have "c \<le> j" using c(7) [of j] that by (meson not_le)
    moreover have "j < length L" using that by (simp add: visible_def)
    ultimately show ?thesis by (rule user_mono [OF L])
  qed
  ultimately have "behind L c it'" using c(5,6) it'(1) less i(1) unfolding behind_def by (metis less_irrefl)
  moreover have "\<forall>d. c < d \<longrightarrow> d \<le> i0 \<longrightarrow> \<not> newest ucmp (di_sequence it) L d"
    using c(8) it'(2) by (simp add: same_run_def)
  ultimately show ?thesis using it'(2,3) c(2) by (auto simp: goes_prev_def)
qed

lemma read_back_unseen:
  assumes "read_back L i0 (Suc i) t it" "\<not> visible (di_sequence it) L i"
  shows "read_back L i0 i t it"
proof -
  have "\<not> newest ucmp (di_sequence it) L i" using assms(2) by (simp add: newest_def)
  moreover have "i \<le> j \<longleftrightarrow> i = j \<or> Suc i \<le> j" for j by auto
  ultimately show ?thesis using assms unfolding read_back_def by (metis Suc_leD)
qed

lemma read_back_none:
  assumes L: "sorted_entries L" and r: "read_back L i0 (Suc i) t it" and i: "visible (di_sequence it) L i"
    "\<not> (t \<noteq> kTypeDeletion \<and> ucmp (ik_user (L ! i)) (di_saved_key it) < 0)"
    and d: "i < d" "d \<le> i0"
  shows "\<not> newest ucmp (di_sequence it) L d"
proof (cases "t = kTypeDeletion")
  case True
  then show ?thesis using r d by (auto simp: read_back_def)
next
  case False
  then obtain c where c: "Suc i \<le> c" "c \<le> i0" "visible (di_sequence it) L c"
    "di_saved_key it = ik_user (L ! c)"
    "\<And>j. Suc i \<le> j \<Longrightarrow> j < c \<Longrightarrow> \<not> visible (di_sequence it) L j" "\<And>d. c < d \<Longrightarrow> d \<le> i0 \<Longrightarrow> \<not> newest ucmp (di_sequence it) L d"
    using r by (auto simp: read_back_def)
  consider "d < c" | "d = c" | "c < d" by linarith
  then show ?thesis
  proof cases
    case 1
    then show ?thesis using c(5) [of d] d(1) by (simp add: newest_def)
  next
    case 2
    have "c < length L" using c(3) by (simp add: visible_def)
    then have "ucmp (ik_user (L ! i)) (ik_user (L ! c)) \<le> 0" using user_mono [OF L, of i c] c(1) by simp
    then have "ucmp (ik_user (L ! i)) (ik_user (L ! c)) = 0" using i(2) False c(4) by auto
    then show ?thesis using 2 i(1) d(1) by (auto simp: newest_def)
  next
    case 3
    then show ?thesis using c(6) d(2) by blast
  qed
qed

lemma read_back_deletion:
  assumes "\<And>d. i < d \<Longrightarrow> d \<le> i0 \<Longrightarrow> \<not> newest ucmp (di_sequence it) L d" "ik_type (L ! i) = kTypeDeletion"
  shows "read_back L i0 i kTypeDeletion it"
proof -
  have "\<not> newest ucmp (di_sequence it) L d" if "i \<le> d" "d \<le> i0" for d
    using assms that by (cases "i = d") (auto simp: newest_def)
  then show ?thesis by (simp add: read_back_def)
qed

lemma read_back_value:
  assumes "\<And>d. i < d \<Longrightarrow> d \<le> i0 \<Longrightarrow> \<not> newest ucmp (di_sequence it) L d" "ik_type (L ! i) = kTypeValue"
    "visible (di_sequence it) L i" "i \<le> i0" "di_saved_key it = ik_user (L ! i)" "di_saved_value it = snd (L ! i)"
  shows "read_back L i0 i kTypeValue it"
  using assms unfolding read_back_def by (metis le_refl not_le)

lemma prev_entry_loop_goes:
  "cursor (di_iter it) L i \<Longrightarrow> i < length L \<Longrightarrow> i \<le> i0 \<Longrightarrow> parses L \<Longrightarrow> good_seed (di_rnd it) \<Longrightarrow>
   read_back L i0 (Suc i) t it \<Longrightarrow> i < fuel \<Longrightarrow>
     \<exists>r. prev_entry_loop fuel ops ucmp record_sample t it = Ret r \<and> goes_prev L i0 it r"
proof (induction fuel arbitrary: it i t)
  case (Suc fuel)
  have L: "sorted_entries L" using internal.cursor_sorted [OF Suc.prems(1)] .
  let ?u = "ik_user (L ! i)" and ?t = "ik_type (L ! i)"
  obtain it1 where it1: "ParseKey ops record_sample it = Ret (Some \<lparr>pk_user_key = ?u, pk_sequence = ik_seq (L ! i), pk_type = ?t\<rparr>, it1)"
    "sampled it it1" using ParseKey_at [OF Suc.prems(1,2,4,5)] by blast
  note f = sampled_fields [OF it1(2)]
  have vis: "visible (di_sequence it) L i \<longleftrightarrow> ik_seq (L ! i) \<le> di_sequence it" using Suc.prems(2) by (simp add: visible_def)
  note type = parse_nth(2) [OF Suc.prems(4,2)]
  note key = internal.key_at [OF Suc.prems(1,2)] and val = internal.value_at [OF Suc.prems(1,2)]
  have on: "\<exists>r. rbind (io_Prev ops (di_iter it2)) (\<lambda>s.
      if io_Valid ops s then prev_entry_loop fuel ops ucmp record_sample t2 (it2\<lparr>di_iter := s\<rparr>)
      else Ret (t2, it2\<lparr>di_iter := s\<rparr>)) = Ret r \<and> goes_prev L i0 it r"
    if a: "read_back L i0 i t2 it2"
      and it2: "di_iter it2 = di_iter it" "same_run it it2" "di_direction it2 = di_direction it" for it2 t2
  proof -
    obtain c where c: "io_Prev ops (di_iter it) = Ret c" "cursor c L (if i = 0 then length L else i - 1)"
      using internal.Prev_at [OF Suc.prems(1,2)] by blast
    have it3: "same_run it (it2\<lparr>di_iter := c\<rparr>)" "di_direction (it2\<lparr>di_iter := c\<rparr>) = di_direction it"
      using it2 by (simp_all add: same_run_def)
    have a3: "read_back L i0 i t2 (it2\<lparr>di_iter := c\<rparr>)" using a by (simp add: read_back_def)
    show ?thesis
    proof (cases "i = 0")
      case True
      then have "goes_prev L i0 it (t2, it2\<lparr>di_iter := c\<rparr>)" using goes_prev_front [OF L _ _ it3] a3 c(2) by simp
      then show ?thesis using c True internal.Valid_iff [OF c(2)] it2(1) by simp
    next
      case False
      have "\<exists>r. prev_entry_loop fuel ops ucmp record_sample t2 (it2\<lparr>di_iter := c\<rparr>) = Ret r \<and> goes_prev L i0 (it2\<lparr>di_iter := c\<rparr>) r"
        using Suc.IH [of "it2\<lparr>di_iter := c\<rparr>" "i - 1" t2] c(2) False Suc.prems(2-4,7) a3 it2(2) by (simp add: same_run_def)
      then obtain r where r: "prev_entry_loop fuel ops ucmp record_sample t2 (it2\<lparr>di_iter := c\<rparr>) = Ret r"
        "goes_prev L i0 (it2\<lparr>di_iter := c\<rparr>) r" by blast
      have "io_Valid ops c" using internal.Valid_iff [OF c(2)] False Suc.prems(2) by simp
      then show ?thesis using c(1) it2(1) r(1) goes_prev_trans [OF r(2) it3] by simp
    qed
  qed
  have s1: "same_run it it1" "di_iter it1 = di_iter it" "di_direction it1 = di_direction it" using f by (simp_all add: same_run_def)
  have rb: "read_back L i0 (Suc i) t it1" using Suc.prems(6) f by (simp add: read_back_def)
  consider "\<not> visible (di_sequence it) L i"
    | "visible (di_sequence it) L i" "t = kTypeValue" "ucmp ?u (di_saved_key it) < 0"
    | "visible (di_sequence it) L i" "\<not> (t \<noteq> kTypeDeletion \<and> ucmp ?u (di_saved_key it) < 0)"
    using Suc.prems(6) by (auto simp: read_back_def)
  then show ?case
  proof cases
    case 1
    have "read_back L i0 i t it1" using read_back_unseen [OF rb] 1 f by simp
    from on [OF this] show ?thesis using 1 f s1 it1(1) vis by (simp add: Let_def)
  next
    case 2
    have "goes_prev L i0 it (kTypeValue, it1)"
      by (rule goes_prev_stop [OF L, where i = i]) (use rb s1 Suc.prems(1,2) 2 f in simp_all)
    then show ?thesis using 2 f it1(1) vis by (simp add: Let_def)
  next
    case 3
    have none: "\<not> newest ucmp (di_sequence it) L d" if "i < d" "d \<le> i0" for d
      using read_back_none [OF L rb _ _ that] 3 f by simp
    show ?thesis
    proof (cases "?t = kTypeDeletion")
      case True
      let ?it = "it1\<lparr>di_saved_key := [], di_saved_value := []\<rparr>"
      have "read_back L i0 i kTypeDeletion ?it" by (rule read_back_deletion) (use none True f in simp_all)
      then have "read_back L i0 i 0 ?it" by simp
      from on [OF this] show ?thesis using 3 f s1 it1(1) vis True
        by (cases "t = 0") (simp_all add: Let_def ClearSavedValue_def same_run_def)
    next
      case False
      let ?it = "it1\<lparr>di_saved_key := ?u, di_saved_value := snd (L ! i)\<rparr>"
      have "read_back L i0 i kTypeValue ?it"
        by (rule read_back_value) (use none type False 3(1) f Suc.prems(3) in simp_all)
      moreover have "ExtractUserKey (fst (L ! i)) = ?u" by (simp add: ik_user_def)
      moreover have "?t = 1" using False type by simp
      ultimately show ?thesis using on [of 1 ?it] 3 f s1 it1(1) vis key val
        by (cases "t = 0") (simp_all add: Let_def same_run_def)
    qed
  qed
qed simp

lemma scan_back_loop_goes:
  "cursor (di_iter it) L i \<Longrightarrow> i < length L \<Longrightarrow> i < fuel \<Longrightarrow>
     \<exists>c. (\<exists>t < i. cursor c L t \<and> ucmp (ik_user (L ! t)) (di_saved_key it) < 0 \<and>
            (\<forall>k. t < k \<longrightarrow> k < i \<longrightarrow> \<not> ucmp (ik_user (L ! k)) (di_saved_key it) < 0) \<and>
            scan_back_loop fuel ops ucmp it = Ret (True, it\<lparr>di_iter := c\<rparr>)) \<or>
         (cursor c L (length L) \<and> (\<forall>k < i. \<not> ucmp (ik_user (L ! k)) (di_saved_key it) < 0) \<and>
            scan_back_loop fuel ops ucmp it =
              Ret (False, it\<lparr>di_iter := c, di_valid := False, di_saved_key := [], di_saved_value := []\<rparr>))"
proof (induction fuel arbitrary: it i)
  case (Suc fuel)
  obtain c where c: "io_Prev ops (di_iter it) = Ret c" "cursor c L (if i = 0 then length L else i - 1)"
    using internal.Prev_at [OF Suc.prems(1,2)] by blast
  note valid_c = internal.Valid_iff [OF c(2)]
  show ?case
  proof (cases "i = 0")
    case True
    then have "scan_back_loop (Suc fuel) ops ucmp it =
        Ret (False, it\<lparr>di_iter := c, di_valid := False, di_saved_key := [], di_saved_value := []\<rparr>)"
      using c(1) valid_c by (simp add: Let_def ClearSavedValue_def)
    then show ?thesis using True c(2) by auto
  next
    case False
    then obtain j where j: "i = Suc j" by (cases i) auto
    then have cj: "cursor c L j" "j < length L" "j < fuel" using c(2) Suc.prems(2,3) by simp_all
    have k: "io_Valid ops c" "io_key ops c = Ret (fst (L ! j))" using valid_c cj(2) j internal.key_at [OF cj(1,2)] by simp_all
    have u: "ExtractUserKey (fst (L ! j)) = ik_user (L ! j)" by (simp add: ik_user_def)
    show ?thesis
    proof (cases "ucmp (ik_user (L ! j)) (di_saved_key it) < 0")
      case True
      then have "scan_back_loop (Suc fuel) ops ucmp it = Ret (True, it\<lparr>di_iter := c\<rparr>)"
        using c(1) k u by (simp add: Let_def)
      then show ?thesis using True cj(1) j by (intro exI [of _ c] disjI1 exI [of _ j]) simp
    next
      case False
      have step: "scan_back_loop (Suc fuel) ops ucmp it = scan_back_loop fuel ops ucmp (it\<lparr>di_iter := c\<rparr>)"
        using c(1) k u False by (simp add: Let_def)
      have up: "(\<forall>k < i. P k) \<longleftrightarrow> P j \<and> (\<forall>k < j. P k)" for P using j by (auto simp: less_Suc_eq)
      have up2: "(\<forall>k. t < k \<longrightarrow> k < i \<longrightarrow> P k) \<longleftrightarrow> P j \<and> (\<forall>k. t < k \<longrightarrow> k < j \<longrightarrow> P k)" if "t < j" for t P
        using j that by (auto simp: less_Suc_eq)
      from Suc.IH [of "it\<lparr>di_iter := c\<rparr>" j] cj obtain c2 where
        "(\<exists>t < j. cursor c2 L t \<and> ucmp (ik_user (L ! t)) (di_saved_key it) < 0 \<and>
            (\<forall>k. t < k \<longrightarrow> k < j \<longrightarrow> \<not> ucmp (ik_user (L ! k)) (di_saved_key it) < 0) \<and>
            scan_back_loop fuel ops ucmp (it\<lparr>di_iter := c\<rparr>) = Ret (True, it\<lparr>di_iter := c2\<rparr>)) \<or>
         (cursor c2 L (length L) \<and> (\<forall>k < j. \<not> ucmp (ik_user (L ! k)) (di_saved_key it) < 0) \<and>
            scan_back_loop fuel ops ucmp (it\<lparr>di_iter := c\<rparr>) =
              Ret (False, it\<lparr>di_iter := c2, di_valid := False, di_saved_key := [], di_saved_value := []\<rparr>))" by auto
      then show ?thesis
      proof (elim disjE exE conjE)
        fix t
        assume "t < j" "cursor c2 L t" "ucmp (ik_user (L ! t)) (di_saved_key it) < 0"
          "\<forall>k. t < k \<longrightarrow> k < j \<longrightarrow> \<not> ucmp (ik_user (L ! k)) (di_saved_key it) < 0"
          "scan_back_loop fuel ops ucmp (it\<lparr>di_iter := c\<rparr>) = Ret (True, it\<lparr>di_iter := c2\<rparr>)"
        then show ?thesis using False j step up2 by (intro exI [of _ c2] disjI1 exI [of _ t]) simp
      next
        assume "cursor c2 L (length L)" "\<forall>k < j. \<not> ucmp (ik_user (L ! k)) (di_saved_key it) < 0"
          "scan_back_loop fuel ops ucmp (it\<lparr>di_iter := c\<rparr>) =
              Ret (False, it\<lparr>di_iter := c2, di_valid := False, di_saved_key := [], di_saved_value := []\<rparr>)"
        then show ?thesis using False step up by (intro exI [of _ c2] disjI2) simp
      qed
    qed
  qed
qed simp

section \<open>The cursor of the database iterator\<close>

definition ahead :: "pair list \<Rightarrow> nat \<Rightarrow> ('s, 'd) db_iter \<Rightarrow> bool" where
  "ahead L m it \<longleftrightarrow> newest ucmp (di_sequence it) L m \<and> cursor (di_iter it) L m"

definition reads :: "nat \<Rightarrow> pair list \<Rightarrow> pair list \<Rightarrow> ('s, 'd) db_iter \<Rightarrow> bool" where
  "reads fuel L uvs it \<longleftrightarrow> (\<exists>i. cursor (di_iter it) L i) \<and> length L < fuel \<and> parses L \<and>
     uvs = user_view ucmp (di_sequence it) L \<and> good_seed (di_rnd it) \<and> di_status it = Status_OK \<and>
     di_sequence it \<le> kMaxSequenceNumber"

definition stands :: "pair list \<Rightarrow> pair list \<Rightarrow> ('s, 'd) db_iter \<Rightarrow> nat \<Rightarrow> bool" where
  "stands L uvs it p \<longleftrightarrow>
     (if di_valid it
      then \<exists>b. p = newer ucmp (di_sequence it) L b \<and> (if di_direction it = kForward then ahead L b it else behind L b it)
      else p = length uvs)"

definition db_cursor :: "nat \<Rightarrow> ('s, 'd) db_iter \<Rightarrow> pair list \<Rightarrow> nat \<Rightarrow> bool" where
  "db_cursor fuel it uvs p \<longleftrightarrow> (\<exists>L. reads fuel L uvs it \<and> stands L uvs it p)"

lemma reads_same:
  "reads fuel L uvs it \<Longrightarrow> same_run it it' \<Longrightarrow> cursor (di_iter it') L i \<Longrightarrow> reads fuel L uvs it'"
  by (auto simp: reads_def same_run_def)

lemma reads_sorted: "reads fuel L uvs it \<Longrightarrow> sorted_entries L"
  using internal.cursor_sorted by (auto simp: reads_def)

lemma land_next:
  assumes r: "reads fuel L uvs it" and it': "same_run it it'" "di_direction it' = kForward" "cursor (di_iter it') L m"
    "if m < length L then newest ucmp (di_sequence it) L m \<and> di_valid it' else \<not> di_valid it'"
  shows "db_cursor fuel it' uvs (newer ucmp (di_sequence it) L m)"
proof -
  have "newer ucmp (di_sequence it) L m = length uvs" if "\<not> m < length L"
  proof -
    have "m = length L" using internal.cursor_le [OF it'(3)] that by simp
    then show ?thesis using r by (simp add: reads_def length_view)
  qed
  then have "stands L uvs it' (newer ucmp (di_sequence it) L m)"
    using it' newest_less by (auto simp: stands_def ahead_def same_run_def split: if_splits)
  then show ?thesis using reads_same [OF r it'(1,3)] by (auto simp: db_cursor_def)
qed

lemma goes_next_from:
  assumes r: "reads fuel L uvs it" and it': "goes_next L i (newest ucmp (di_sequence it) L) it it'" "di_direction it = kForward"
  shows "db_cursor fuel it' uvs (newer ucmp (di_sequence it) L i)"
proof -
  obtain m where m: "i \<le> m" "\<forall>k. i \<le> k \<longrightarrow> k < m \<longrightarrow> \<not> newest ucmp (di_sequence it) L k" "cursor (di_iter it') L m"
    "if m < length L then newest ucmp (di_sequence it) L m \<and> di_valid it' else \<not> di_valid it'"
    using it'(1) by (auto simp: goes_next_def)
  have "newer ucmp (di_sequence it) L m = newer ucmp (di_sequence it) L i" using newer_same [OF m(1)] m(2) by blast
  moreover have "same_run it it'" "di_direction it' = kForward" using it' by (auto simp: goes_next_def)
  ultimately show ?thesis using land_next [OF r _ _ m(3,4)] by simp
qed

lemma goes_next_after:
  assumes r: "reads fuel L uvs it" and b: "newest ucmp (di_sequence it) L b" "i \<le> b"
    and it': "goes_next L i (\<lambda>k. newest ucmp (di_sequence it) L k \<and> b < k) it it'" "di_direction it = kForward"
  shows "db_cursor fuel it' uvs (Suc (newer ucmp (di_sequence it) L b))"
proof -
  obtain m where m: "i \<le> m" "\<forall>k. i \<le> k \<longrightarrow> k < m \<longrightarrow> \<not> (newest ucmp (di_sequence it) L k \<and> b < k)" "cursor (di_iter it') L m"
    "if m < length L then (newest ucmp (di_sequence it) L m \<and> b < m) \<and> di_valid it' else \<not> di_valid it'"
    using it'(1) by (auto simp: goes_next_def)
  have "b < m" using m(4) newest_less [OF b(1)] by (auto split: if_splits)
  moreover have "\<not> newest ucmp (di_sequence it) L k" if "Suc b \<le> k" "k < m" for k
    using m(2) [rule_format, of k] that b(2) by simp
  ultimately have "newer ucmp (di_sequence it) L m = newer ucmp (di_sequence it) L (Suc b)"
    using newer_same [of "Suc b" m] by simp
  also have "\<dots> = Suc (newer ucmp (di_sequence it) L b)" using b(1) by (simp add: newer_Suc)
  finally have p: "newer ucmp (di_sequence it) L m = Suc (newer ucmp (di_sequence it) L b)" .
  have "if m < length L then newest ucmp (di_sequence it) L m \<and> di_valid it' else \<not> di_valid it'"
    using m(4) by (simp split: if_splits)
  moreover have "same_run it it'" "di_direction it' = kForward" using it' by (auto simp: goes_next_def)
  ultimately show ?thesis using land_next [OF r _ _ m(3)] p by simp
qed

lemma aims_from:
  assumes "\<And>j k. j < i \<Longrightarrow> i \<le> k \<Longrightarrow> visible s L j \<Longrightarrow> visible s L k \<Longrightarrow> ucmp (ik_user (L ! j)) (ik_user (L ! k)) \<noteq> 0"
  shows "aims s L i False saved (newest ucmp s L)"
proof -
  have "(\<forall>j < k. visible s L j \<longrightarrow> ucmp (ik_user (L ! j)) (ik_user (L ! k)) \<noteq> 0) \<longleftrightarrow>
      (\<forall>j. i \<le> j \<longrightarrow> j < k \<longrightarrow> visible s L j \<longrightarrow> ucmp (ik_user (L ! j)) (ik_user (L ! k)) \<noteq> 0)"
    if "i \<le> k" "visible s L k" for k
    using assms [OF _ that(1) _ that(2)] by (meson not_le)
  then show ?thesis by (auto simp: aims_def newest_def)
qed

lemma aims_after:
  assumes L: "sorted_entries L" and b: "newest ucmp s L b"
    and from_i: "\<And>k. i \<le> k \<Longrightarrow> visible s L k \<Longrightarrow> ucmp (ik_user (L ! b)) (ik_user (L ! k)) \<le> 0"
    and to_i: "\<And>j. j < i \<Longrightarrow> visible s L j \<Longrightarrow> ucmp (ik_user (L ! j)) (ik_user (L ! b)) \<le> 0"
  shows "aims s L i True (ik_user (L ! b)) (\<lambda>k. newest ucmp s L k \<and> b < k)"
proof -
  have bl: "b < length L" using b by (rule newest_less)
  note vb = user_valid [OF L bl]
  have "newest ucmp s L k \<and> b < k \<longleftrightarrow> visible s L k \<and> ik_type (L ! k) = kTypeValue \<and> \<not> ucmp (ik_user (L ! k)) (ik_user (L ! b)) \<le> 0 \<and>
      (\<forall>j. i \<le> j \<longrightarrow> j < k \<longrightarrow> visible s L j \<longrightarrow> ucmp (ik_user (L ! j)) (ik_user (L ! k)) \<noteq> 0)" (is "?l \<longleftrightarrow> ?r") if k: "i \<le> k" for k
  proof
    assume l: ?l
    then have kl: "k < length L" by (simp add: newest_def visible_def)
    have "ucmp (ik_user (L ! b)) (ik_user (L ! k)) < 0" using newest_strict [OF L b, of k] l by simp
    then have "\<not> ucmp (ik_user (L ! k)) (ik_user (L ! b)) \<le> 0" using compare_flip [OF vb user_valid [OF L kl]] by simp
    then show ?r using l by (simp add: newest_def)
  next
    assume r: ?r
    then have kl: "k < length L" by (simp add: visible_def)
    note vk = user_valid [OF L kl]
    have less: "ucmp (ik_user (L ! b)) (ik_user (L ! k)) < 0" using r compare_flip [OF vb vk] by simp
    have "ucmp (ik_user (L ! j)) (ik_user (L ! k)) \<noteq> 0" if j: "j < k" "visible s L j" for j
    proof (cases "i \<le> j")
      case True
      then show ?thesis using r j by simp
    next
      case False
      then have "ucmp (ik_user (L ! j)) (ik_user (L ! b)) \<le> 0" using to_i [of j] j(2) by simp
      from compare_le_less [OF user_valid [OF L] vb vk this less] j kl show ?thesis by simp
    qed
    then have "newest ucmp s L k" using r by (simp add: newest_def)
    then show ?l using newest_strict [OF L b, of k] less by simp
  qed
  then show ?thesis using vb from_i by (simp add: aims_def)
qed

lemma first_at_iff:
  assumes "sorted_entries L" "8 \<le> length k \<and> valid (ExtractUserKey k)" "j < length L"
  shows "j < first_at (ikey_compare ucmp) k L \<longleftrightarrow> ikey_compare ucmp (fst (L ! j)) k < 0"
  using internal.pre_iff [OF assms(1) internal.down_less [OF assms(2)] assms(3)] by (simp add: first_at_def)

lemma takeWhile_split:
  "\<forall>x \<in> set xs. P x \<Longrightarrow> \<forall>y \<in> set ys. \<not> P y \<Longrightarrow> length (takeWhile P (xs @ ys)) = length xs"
  by (cases ys) (simp_all add: takeWhile_append2 takeWhile_eq_all_conv [THEN iffD2])

lemma seek_position:
  assumes L: "sorted_entries L" "parses L" and s: "valid target" "s \<le> kMaxSequenceNumber"
  defines "k \<equiv> ikey_bytes \<lparr>pk_user_key = target, pk_sequence = s, pk_type = kValueTypeForSeek\<rparr>"
  shows "visible s L j \<Longrightarrow> j < first_at (ikey_compare ucmp) k L \<longleftrightarrow> ucmp (ik_user (L ! j)) target < 0"
    "newer ucmp s L (first_at (ikey_compare ucmp) k L) = first_at ucmp target (user_view ucmp s L)"
proof -
  let ?f = "first_at (ikey_compare ucmp) k L"
  note key = seek_key [OF s, folded k_def]
  have split: "j < ?f \<longleftrightarrow> ucmp (ik_user (L ! j)) target < 0" if v: "visible s L j" for j
  proof -
    have j: "j < length L" using v by (simp add: visible_def)
    then have "L ! j \<in> set L" by simp
    then have "ik_seq (L ! j) \<le> s" "ik_type (L ! j) \<le> kTypeValue" using v L(2) by (simp_all add: visible_def parses_def)
    then show ?thesis using first_at_iff [OF L(1) key(1) j] key(2) by simp
  qed
  then show "visible s L j \<Longrightarrow> j < ?f \<longleftrightarrow> ucmp (ik_user (L ! j)) target < 0" .
  have f: "?f \<le> length L" unfolding first_at_def by (rule internal.pre_le)
  let ?e = "\<lambda>i. (ik_user (L ! i), snd (L ! i))"
  have "[0..<length L] = [0..<?f] @ [?f..<length L]" using f by (metis le_add_diff_inverse upt_add_eq_append zero_le)
  then have "user_view ucmp s L = map ?e (filter (newest ucmp s L) [0..<?f]) @ map ?e (filter (newest ucmp s L) [?f..<length L])"
    by (simp add: user_view_def)
  moreover have "\<forall>x \<in> set (map ?e (filter (newest ucmp s L) [0..<?f])). ucmp (fst x) target < 0"
    using split by (auto simp: newest_def)
  moreover have "\<forall>x \<in> set (map ?e (filter (newest ucmp s L) [?f..<length L])). \<not> ucmp (fst x) target < 0"
  proof -
    have "\<not> ucmp (ik_user (L ! i)) target < 0" if "newest ucmp s L i" "?f \<le> i" for i
      using split [of i] that by (simp add: newest_def)
    then show ?thesis by auto
  qed
  ultimately have "first_at ucmp target (user_view ucmp s L) = length (map ?e (filter (newest ucmp s L) [0..<?f]))"
    by (simp only: first_at_def takeWhile_split)
  then show "newer ucmp s L ?f = first_at ucmp target (user_view ucmp s L)" by (simp add: newer_def)
qed

section \<open>The operations\<close>

lemma land_end: "reads fuel L uvs it \<Longrightarrow> \<not> di_valid it \<Longrightarrow> db_cursor fuel it uvs (length uvs)"
  by (auto simp: db_cursor_def stands_def)

lemma FindNext_goes:
  assumes "reads fuel L uvs it" "cursor (di_iter it) L i" "i < length L" "di_direction it = kForward"
    "aims (di_sequence it) L i skipping (di_saved_key it) goal"
  shows "\<exists>it'. FindNextUserEntry fuel ops ucmp record_sample skipping it = Ret it' \<and> goes_next L i goal it it'"
proof -
  have "io_Valid ops (di_iter it)" using internal.Valid_iff [OF assms(2)] assms(3) by simp
  moreover have "\<exists>it'. next_entry_loop fuel ops ucmp record_sample skipping it = Ret it' \<and> goes_next L i goal it it'"
    by (rule next_entry_loop_goes [OF assms(2,3) _ _ assms(5)]) (use assms(1) in \<open>auto simp: reads_def\<close>)
  ultimately show ?thesis using assms(4) by (simp add: FindNextUserEntry_def)
qed

text \<open>What \<open>Seek\<close> and \<open>SeekToFirst\<close> do after they have moved the internal iterator to \<open>i\<close>.\<close>

lemma seek_from:
  assumes r: "reads fuel L uvs it" and i: "cursor (di_iter it) L i" "di_direction it = kForward"
    and sep: "\<And>j k. j < i \<Longrightarrow> i \<le> k \<Longrightarrow> visible (di_sequence it) L j \<Longrightarrow> visible (di_sequence it) L k \<Longrightarrow>
      ucmp (ik_user (L ! j)) (ik_user (L ! k)) \<noteq> 0"
  shows "\<exists>it'. (if io_Valid ops (di_iter it) then FindNextUserEntry fuel ops ucmp record_sample False it
      else Ret (it\<lparr>di_valid := False\<rparr>)) = Ret it' \<and> db_cursor fuel it' uvs (newer ucmp (di_sequence it) L i)"
proof (cases "i < length L")
  case True
  from FindNext_goes [OF r i(1) True i(2) aims_from [OF sep]] obtain it' where
    it': "FindNextUserEntry fuel ops ucmp record_sample False it = Ret it'"
      "goes_next L i (newest ucmp (di_sequence it) L) it it'" by blast
  then show ?thesis using goes_next_from [OF r it'(2) i(2)] internal.Valid_iff [OF i(1)] True by simp
next
  case False
  then have "i = length L" using internal.cursor_le [OF i(1)] by simp
  then have "newer ucmp (di_sequence it) L i = length uvs" using r by (simp add: reads_def length_view)
  moreover have "reads fuel L uvs (it\<lparr>di_valid := False\<rparr>)" using r by (simp add: reads_def)
  ultimately show ?thesis using land_end [of fuel L uvs "it\<lparr>di_valid := False\<rparr>"] internal.Valid_iff [OF i(1)] False by simp
qed

lemma di_SeekToFirst_at:
  assumes "db_cursor fuel it uvs p"
  shows "\<exists>it'. di_SeekToFirst fuel ops ucmp record_sample it = Ret it' \<and> db_cursor fuel it' uvs 0"
proof -
  obtain L i where r: "reads fuel L uvs it" and i: "cursor (di_iter it) L i" using assms by (auto simp: db_cursor_def reads_def)
  obtain c where c: "io_SeekToFirst ops (di_iter it) = Ret c" "cursor c L 0" using internal.SeekToFirst_at [OF i] by blast
  let ?it = "it\<lparr>di_direction := kForward, di_saved_value := [], di_iter := c\<rparr>"
  have "reads fuel L uvs ?it" using r c(2) by (auto simp: reads_def)
  from seek_from [OF this, of 0] c(2) show ?thesis
    using c(1) by (simp add: di_SeekToFirst_def ClearSavedValue_def Let_def newer_def)
qed

lemma di_Seek_at:
  assumes "db_cursor fuel it uvs p" "valid target"
  shows "\<exists>it'. di_Seek fuel ops ucmp record_sample target it = Ret it' \<and> db_cursor fuel it' uvs (first_at ucmp target uvs)"
proof -
  obtain L i where r: "reads fuel L uvs it" and i: "cursor (di_iter it) L i" using assms by (auto simp: db_cursor_def reads_def)
  define k where "k = ikey_bytes \<lparr>pk_user_key = target, pk_sequence = di_sequence it, pk_type = kValueTypeForSeek\<rparr>"
  let ?f = "first_at (ikey_compare ucmp) k L"
  have L: "sorted_entries L" "parses L" and s: "di_sequence it \<le> kMaxSequenceNumber"
    using r reads_sorted [OF r] by (simp_all add: reads_def)
  note pos = seek_position [OF L assms(2) s, folded k_def]
  obtain c where c: "io_Seek ops k (di_iter it) = Ret c" "cursor c L ?f"
    using internal.Seek_at [OF i seek_key(1) [OF assms(2) s], folded k_def] by blast
  let ?it = "it\<lparr>di_direction := kForward, di_saved_value := [], di_saved_key := k, di_iter := c\<rparr>"
  have r2: "reads fuel L uvs ?it" using r c(2) by (auto simp: reads_def)
  have sep: "ucmp (ik_user (L ! j)) (ik_user (L ! m)) \<noteq> 0"
    if "j < ?f" "?f \<le> m" "visible (di_sequence it) L j" "visible (di_sequence it) L m" for j m
  proof -
    have "ucmp (ik_user (L ! j)) target < 0" "\<not> ucmp (ik_user (L ! m)) target < 0"
      using pos(1) [OF that(3)] pos(1) [OF that(4)] that(1,2) by simp_all
    moreover have "valid (ik_user (L ! j))" "valid (ik_user (L ! m))" using user_valid [OF L(1)] that(3,4) by (simp_all add: visible_def)
    ultimately show ?thesis using compare_eq_less [of "ik_user (L ! j)" "ik_user (L ! m)" target] assms(2) by auto
  qed
  have "\<exists>it'. (if io_Valid ops (di_iter ?it) then FindNextUserEntry fuel ops ucmp record_sample False ?it
      else Ret (?it\<lparr>di_valid := False\<rparr>)) = Ret it' \<and> db_cursor fuel it' uvs (newer ucmp (di_sequence ?it) L ?f)"
    by (rule seek_from [OF r2]) (use c(2) sep in simp_all)
  then obtain it' where
    it': "(if io_Valid ops c then FindNextUserEntry fuel ops ucmp record_sample False ?it else Ret (?it\<lparr>di_valid := False\<rparr>)) = Ret it'"
      "db_cursor fuel it' uvs (newer ucmp (di_sequence it) L ?f)" by auto
  have "uvs = user_view ucmp (di_sequence it) L" using r by (simp add: reads_def)
  then have "db_cursor fuel it' uvs (first_at ucmp target uvs)" using it'(2) pos(2) by simp
  moreover have "di_Seek fuel ops ucmp record_sample target it = Ret it'"
    using it'(1) c(1) s by (simp add: di_Seek_def ClearSavedValue_def Let_def AppendInternalKey_at k_def cong: if_cong)
  ultimately show ?thesis by blast
qed

lemma FindPrev_at:
  assumes r: "reads fuel L uvs it" and i: "cursor (di_iter it) L i" "di_direction it = kReverse"
    and q: "q = (if i < length L then newer ucmp (di_sequence it) L (Suc i) else 0)"
  shows "\<exists>it'. FindPrevUserEntry fuel ops ucmp record_sample it = Ret it' \<and>
     db_cursor fuel it' uvs (if q = 0 then length uvs else q - 1)"
proof (cases "i < length L")
  case False
  let ?it = "it\<lparr>di_valid := False, di_saved_key := [], di_saved_value := [], di_direction := kForward\<rparr>"
  have "reads fuel L uvs ?it" using r by (simp add: reads_def)
  from land_end [OF this] have "db_cursor fuel ?it uvs (length uvs)" by simp
  moreover have "FindPrevUserEntry fuel ops ucmp record_sample it = Ret ?it"
    using i internal.Valid_iff [OF i(1)] False by (simp add: FindPrevUserEntry_def ClearSavedValue_def)
  ultimately show ?thesis using q False by simp
next
  case True
  have "read_back L i (Suc i) kTypeDeletion it" by (simp add: read_back_def)
  then obtain t it1 where it1: "prev_entry_loop fuel ops ucmp record_sample kTypeDeletion it = Ret (t, it1)" "goes_prev L i it (t, it1)"
    using prev_entry_loop_goes [OF i(1) True le_refl _ _, where fuel = fuel and record_sample = record_sample] r True
    by (fastforce simp: reads_def)
  have s: "same_run it it1" "di_direction it1 = kReverse" using it1(2) i(2) by (simp_all add: goes_prev_def)
  have loop: "(if io_Valid ops (di_iter it) then prev_entry_loop fuel ops ucmp record_sample kTypeDeletion it
      else Ret (kTypeDeletion, it)) = Ret (t, it1)" using internal.Valid_iff [OF i(1)] True it1(1) by simp
  show ?thesis
  proof (cases "t = kTypeDeletion")
    case del: True
    let ?it = "it1\<lparr>di_valid := False, di_saved_key := [], di_saved_value := [], di_direction := kForward\<rparr>"
    have g: "\<forall>d \<le> i. \<not> newest ucmp (di_sequence it) L d" "\<exists>i. cursor (di_iter it1) L i" using it1(2) del by (simp_all add: goes_prev_def)
    then obtain i1 where "cursor (di_iter it1) L i1" by blast
    from reads_same [OF r s(1) this] have "reads fuel L uvs ?it" by (simp add: reads_def)
    from land_end [OF this] have "db_cursor fuel ?it uvs (length uvs)" by simp
    moreover have "q = 0" using newer_same [of 0 "Suc i" ucmp "di_sequence it" L] g(1) q True by (simp add: less_Suc_eq_le newer_def)
    ultimately show ?thesis using loop i(2) del by (simp add: FindPrevUserEntry_def ClearSavedValue_def)
  next
    case False
    then obtain b where b: "b \<le> i" "behind L b it1" "\<And>d. b < d \<Longrightarrow> d \<le> i \<Longrightarrow> \<not> newest ucmp (di_sequence it) L d"
      using it1(2) by (auto simp: goes_prev_def)
    let ?it = "it1\<lparr>di_valid := True\<rparr>"
    have seq: "di_sequence it1 = di_sequence it" using s(1) by (simp add: same_run_def)
    have nb: "newest ucmp (di_sequence it) L b" using b(2) seq by (simp add: behind_def)
    have "q = newer ucmp (di_sequence it) L (Suc b)"
      using newer_same [of "Suc b" "Suc i" ucmp "di_sequence it" L] b(1,3) q True by (simp add: less_Suc_eq_le Suc_le_eq)
    then have qb: "q = Suc (newer ucmp (di_sequence it) L b)" using nb by (simp add: newer_Suc)
    obtain i1 where "cursor (di_iter it1) L i1" using b(2) by (auto simp: behind_def)
    from reads_same [OF r s(1) this] have "reads fuel L uvs ?it" by (simp add: reads_def)
    moreover have "behind L b ?it" using b(2) by (simp add: behind_def)
    ultimately have "db_cursor fuel ?it uvs (newer ucmp (di_sequence it) L b)"
      using s(2) seq by (auto simp: db_cursor_def stands_def)
    then show ?thesis using loop i(2) False qb by (simp add: FindPrevUserEntry_def)
  qed
qed

lemma di_SeekToLast_at:
  assumes "db_cursor fuel it uvs p"
  shows "\<exists>it'. di_SeekToLast fuel ops ucmp record_sample it = Ret it' \<and> db_cursor fuel it' uvs (length uvs - 1)"
proof -
  obtain L i where r: "reads fuel L uvs it" and i: "cursor (di_iter it) L i" using assms by (auto simp: db_cursor_def reads_def)
  obtain c where c: "io_SeekToLast ops (di_iter it) = Ret c" "cursor c L (length L - 1)" using internal.SeekToLast_at [OF i] by blast
  let ?it = "it\<lparr>di_direction := kReverse, di_saved_value := [], di_iter := c\<rparr>"
  have r2: "reads fuel L uvs ?it" using r c(2) by (auto simp: reads_def)
  have u: "length uvs = newer ucmp (di_sequence it) L (length L)" using r by (simp add: reads_def length_view)
  have q: "length uvs = (if length L - 1 < length L then newer ucmp (di_sequence ?it) L (Suc (length L - 1)) else 0)"
    using u by (cases "L = []") (simp_all add: newer_def)
  have "\<exists>it'. FindPrevUserEntry fuel ops ucmp record_sample ?it = Ret it' \<and>
     db_cursor fuel it' uvs (if length uvs = 0 then length uvs else length uvs - 1)"
    by (rule FindPrev_at [OF r2 _ _ q]) (use c(2) in simp_all)
  then show ?thesis using c(1) by (cases "length uvs = 0") (simp_all add: di_SeekToLast_def ClearSavedValue_def Let_def)
qed

lemma standing:
  assumes "db_cursor fuel it uvs p" "p < length uvs"
  obtains L b where "reads fuel L uvs it" "di_valid it" "p = newer ucmp (di_sequence it) L b"
    "if di_direction it = kForward then ahead L b it else behind L b it" "newest ucmp (di_sequence it) L b"
proof -
  obtain L where L: "reads fuel L uvs it" "stands L uvs it p" using assms(1) by (auto simp: db_cursor_def)
  then obtain b where "di_valid it" "p = newer ucmp (di_sequence it) L b"
    "if di_direction it = kForward then ahead L b it else behind L b it"
    using assms(2) by (auto simp: stands_def split: if_splits)
  moreover from this(3) have "newest ucmp (di_sequence it) L b" by (auto simp: ahead_def behind_def split: if_splits)
  ultimately show thesis using that L(1) by blast
qed

text \<open>Both directions look for the entry after \<open>b\<close> from a position \<open>i\<close> that is not after \<open>b\<close>.\<close>

lemma next_from:
  assumes r: "reads fuel L uvs it" and b: "newest ucmp (di_sequence it) L b" "i \<le> b" "di_saved_key it = ik_user (L ! b)"
    and i: "cursor (di_iter it) L i" "di_direction it = kForward"
    and from_i: "\<And>k. i \<le> k \<Longrightarrow> visible (di_sequence it) L k \<Longrightarrow> ucmp (ik_user (L ! b)) (ik_user (L ! k)) \<le> 0"
  shows "\<exists>it'. FindNextUserEntry fuel ops ucmp record_sample True it = Ret it' \<and>
     db_cursor fuel it' uvs (Suc (newer ucmp (di_sequence it) L b))"
proof -
  have bl: "b < length L" using b(1) by (rule newest_less)
  have to_i: "ucmp (ik_user (L ! j)) (ik_user (L ! b)) \<le> 0" if "j < i" for j
    by (rule user_mono [OF reads_sorted [OF r]]) (use that b(2) bl in simp_all)
  have a: "aims (di_sequence it) L i True (di_saved_key it) (\<lambda>k. newest ucmp (di_sequence it) L k \<and> b < k)"
    unfolding b(3) by (rule aims_after [OF reads_sorted [OF r] b(1) from_i to_i])
  have il: "i < length L" using b(2) bl by simp
  from FindNext_goes [OF r i(1) il i(2) a] obtain it' where
    it': "FindNextUserEntry fuel ops ucmp record_sample True it = Ret it'"
      "goes_next L i (\<lambda>k. newest ucmp (di_sequence it) L k \<and> b < k) it it'" by blast
  then show ?thesis using goes_next_after [OF r b(1,2) it'(2) i(2)] by blast
qed

lemma di_Next_at:
  assumes "db_cursor fuel it uvs p" "p < length uvs"
  shows "\<exists>it'. di_Next fuel ops ucmp record_sample it = Ret it' \<and> db_cursor fuel it' uvs (Suc p)"
proof (rule standing [OF assms])
  fix L b
  assume r: "reads fuel L uvs it" and v: "di_valid it" and p: "p = newer ucmp (di_sequence it) L b"
    and dir: "if di_direction it = kForward then ahead L b it else behind L b it" and nb: "newest ucmp (di_sequence it) L b"
  have L: "sorted_entries L" using r by (rule reads_sorted)
  have bl: "b < length L" using nb by (rule newest_less)
  show ?thesis
  proof (cases "di_direction it = kForward")
    case True
    then have b: "cursor (di_iter it) L b" using dir by (simp add: ahead_def)
    let ?it = "it\<lparr>di_saved_key := ik_user (L ! b)\<rparr>"
    have "\<exists>it'. FindNextUserEntry fuel ops ucmp record_sample True ?it = Ret it' \<and>
        db_cursor fuel it' uvs (Suc (newer ucmp (di_sequence ?it) L b))"
    proof (rule next_from [where i = b and L = L])
      show "reads fuel L uvs ?it" using r by (simp add: reads_def)
      fix k
      assume "b \<le> k" "visible (di_sequence ?it) L k"
      then show "ucmp (ik_user (L ! b)) (ik_user (L ! k)) \<le> 0" using user_mono [OF L, of b k] by (simp add: visible_def)
    qed (use nb b True in simp_all)
    then show ?thesis using v True p internal.key_at [OF b bl] by (simp add: di_Next_def ik_user_def)
  next
    case False
    then have rev: "di_direction it = kReverse" by (cases "di_direction it") auto
    obtain i where i: "di_saved_key it = ik_user (L ! b)" "cursor (di_iter it) L i"
      "i < length L \<longrightarrow> ucmp (ik_user (L ! i)) (ik_user (L ! b)) < 0"
      "\<And>j. visible (di_sequence it) L j \<Longrightarrow> i = length L \<or> i < j \<Longrightarrow> ucmp (ik_user (L ! b)) (ik_user (L ! j)) \<le> 0"
      using dir False by (auto simp: behind_def)
    define i1 where "i1 = (if i < length L then Suc i else 0)"
    have i1: "i1 \<le> b" using i(3) user_less_iff [OF L _ bl, of i] by (auto simp: i1_def)
    have from_i: "ucmp (ik_user (L ! b)) (ik_user (L ! k)) \<le> 0" if "i1 \<le> k" "visible (di_sequence it) L k" for k
      using i(4) [OF that(2)] that(1) internal.cursor_le [OF i(2)] by (auto simp: i1_def split: if_splits)
    obtain c where c: "(if \<not> io_Valid ops (di_iter it) then io_SeekToFirst ops (di_iter it) else io_Next ops (di_iter it)) = Ret c"
      "cursor c L i1"
      using internal.SeekToFirst_at [OF i(2)] internal.Next_at [OF i(2)] internal.Valid_iff [OF i(2)] by (auto simp: i1_def)
    let ?it = "it\<lparr>di_direction := kForward, di_iter := c\<rparr>"
    have "\<exists>it'. FindNextUserEntry fuel ops ucmp record_sample True ?it = Ret it' \<and>
        db_cursor fuel it' uvs (Suc (newer ucmp (di_sequence ?it) L b))"
      by (rule next_from [where i = i1 and L = L]) (use r c(2) nb i1 i(1) from_i in \<open>auto simp: reads_def\<close>)
    moreover have "io_Valid ops c" using internal.Valid_iff [OF c(2)] i1 bl by simp
    ultimately show ?thesis using v rev p c(1)
      by (cases "io_Valid ops (di_iter it)") (simp_all add: di_Next_def Let_def)
  qed
qed

lemma di_Prev_at:
  assumes "db_cursor fuel it uvs p" "p < length uvs"
  shows "\<exists>it'. di_Prev fuel ops ucmp record_sample it = Ret it' \<and> db_cursor fuel it' uvs (if p = 0 then length uvs else p - 1)"
proof (rule standing [OF assms])
  fix L b
  assume r: "reads fuel L uvs it" and v: "di_valid it" and p: "p = newer ucmp (di_sequence it) L b"
    and dir: "if di_direction it = kForward then ahead L b it else behind L b it" and nb: "newest ucmp (di_sequence it) L b"
  have L: "sorted_entries L" using r by (rule reads_sorted)
  have bl: "b < length L" using nb by (rule newest_less)
  have same_key: "\<not> newest ucmp (di_sequence it) L k" if "k < b" "\<not> ucmp (ik_user (L ! k)) (ik_user (L ! b)) < 0" for k
    using newest_strict [OF L _ nb, of k] that by blast
  show ?thesis
  proof (cases "di_direction it = kForward")
    case True
    then have b: "cursor (di_iter it) L b" using dir by (simp add: ahead_def)
    have bv: "io_Valid ops (di_iter it)" "io_key ops (di_iter it) = Ret (fst (L ! b))"
      using internal.Valid_iff [OF b] internal.key_at [OF b] bl by simp_all
    define it0 where "it0 = it\<lparr>di_saved_key := ik_user (L ! b)\<rparr>"
    have fb: "b < fuel" using r bl by (simp add: reads_def)
    have cur0: "cursor (di_iter it0) L b" using b by (simp add: it0_def)
    have start: "di_Prev fuel ops ucmp record_sample it =
        rbind (scan_back_loop fuel ops ucmp it0) (\<lambda>(more, it).
          if \<not> more then Ret it else FindPrevUserEntry fuel ops ucmp record_sample (it\<lparr>di_direction := kReverse\<rparr>))"
      using v True bv by (simp add: di_Prev_def it0_def ik_user_def)
    from scan_back_loop_goes [OF cur0 bl fb] obtain c where
      "(\<exists>t < b. cursor c L t \<and> ucmp (ik_user (L ! t)) (di_saved_key it0) < 0 \<and>
            (\<forall>k. t < k \<longrightarrow> k < b \<longrightarrow> \<not> ucmp (ik_user (L ! k)) (di_saved_key it0) < 0) \<and>
            scan_back_loop fuel ops ucmp it0 = Ret (True, it0\<lparr>di_iter := c\<rparr>)) \<or>
         (cursor c L (length L) \<and> (\<forall>k < b. \<not> ucmp (ik_user (L ! k)) (di_saved_key it0) < 0) \<and>
            scan_back_loop fuel ops ucmp it0 =
              Ret (False, it0\<lparr>di_iter := c, di_valid := False, di_saved_key := [], di_saved_value := []\<rparr>))" by blast
    then show ?thesis
    proof (elim disjE exE conjE)
      fix t
      assume t: "t < b" "cursor c L t" "\<forall>k. t < k \<longrightarrow> k < b \<longrightarrow> \<not> ucmp (ik_user (L ! k)) (di_saved_key it0) < 0"
        "scan_back_loop fuel ops ucmp it0 = Ret (True, it0\<lparr>di_iter := c\<rparr>)"
      let ?it = "it0\<lparr>di_iter := c, di_direction := kReverse\<rparr>"
      have "newer ucmp (di_sequence it) L b = newer ucmp (di_sequence it) L (Suc t)"
        by (rule newer_same) (use t(1,3) same_key in \<open>auto simp: it0_def Suc_le_eq\<close>)
      then have q: "p = (if t < length L then newer ucmp (di_sequence ?it) L (Suc t) else 0)" using p t(1) bl by (simp add: it0_def)
      have "\<exists>it'. FindPrevUserEntry fuel ops ucmp record_sample ?it = Ret it' \<and>
          db_cursor fuel it' uvs (if p = 0 then length uvs else p - 1)"
        by (rule FindPrev_at [OF _ _ _ q]) (use r t(2) in \<open>auto simp: reads_def it0_def\<close>)
      then show ?thesis using start t(4) by simp
    next
      assume n: "cursor c L (length L)" "\<forall>k < b. \<not> ucmp (ik_user (L ! k)) (di_saved_key it0) < 0"
        "scan_back_loop fuel ops ucmp it0 = Ret (False, it0\<lparr>di_iter := c, di_valid := False, di_saved_key := [], di_saved_value := []\<rparr>)"
      let ?it = "it0\<lparr>di_iter := c, di_valid := False, di_saved_key := [], di_saved_value := []\<rparr>"
      have "newer ucmp (di_sequence it) L b = newer ucmp (di_sequence it) L 0"
        by (rule newer_same) (use n(2) same_key in \<open>auto simp: it0_def\<close>)
      then have "p = 0" using p by (simp add: newer_def)
      moreover have "reads fuel L uvs ?it" using r n(1) by (auto simp: reads_def it0_def)
      ultimately show ?thesis using start n(3) land_end [of fuel L uvs ?it] by simp
    qed
  next
    case False
    then have rev: "di_direction it = kReverse" by (cases "di_direction it") auto
    obtain i where i: "cursor (di_iter it) L i" "i < length L \<longrightarrow> ucmp (ik_user (L ! i)) (ik_user (L ! b)) < 0"
      "\<And>j. visible (di_sequence it) L j \<Longrightarrow> i = length L \<or> i < j \<Longrightarrow> ucmp (ik_user (L ! b)) (ik_user (L ! j)) \<le> 0"
      using dir False by (auto simp: behind_def)
    have "newer ucmp (di_sequence it) L b = newer ucmp (di_sequence it) L (if i < length L then Suc i else 0)"
    proof (rule newer_same)
      show "(if i < length L then Suc i else 0) \<le> b" using i(2) user_less_iff [OF L _ bl, of i] by auto
      fix k
      assume k: "(if i < length L then Suc i else 0) \<le> k" "k < b"
      have "\<not> ucmp (ik_user (L ! k)) (ik_user (L ! b)) < 0" if "visible (di_sequence it) L k"
        using i(3) [OF that] k internal.cursor_le [OF i(1)] user_valid [OF L, of k] user_valid [OF L bl] compare_flip bl
        by (auto split: if_splits)
      then show "\<not> newest ucmp (di_sequence it) L k" using same_key [OF k(2)] by (auto simp: newest_def)
    qed
    then have q: "p = (if i < length L then newer ucmp (di_sequence it) L (Suc i) else 0)" using p by (simp add: newer_def)
    from FindPrev_at [OF r i(1) rev q] show ?thesis using v rev by (simp add: di_Prev_def)
  qed
qed

lemma standing_key:
  assumes "db_cursor fuel it uvs p" "p < length uvs"
  shows "di_key ops it = Ret (fst (uvs ! p))" "di_value ops it = Ret (snd (uvs ! p))"
proof (atomize (full), rule standing [OF assms])
  fix L b
  assume r: "reads fuel L uvs it" and v: "di_valid it" and p: "p = newer ucmp (di_sequence it) L b"
    and dir: "if di_direction it = kForward then ahead L b it else behind L b it" and nb: "newest ucmp (di_sequence it) L b"
  have bl: "b < length L" using nb by (rule newest_less)
  have e: "uvs ! p = (ik_user (L ! b), snd (L ! b))" using view_at(2) [OF nb] r p by (simp add: reads_def)
  show "di_key ops it = Ret (fst (uvs ! p)) \<and> di_value ops it = Ret (snd (uvs ! p))"
  proof (cases "di_direction it = kForward")
    case True
    then have b: "cursor (di_iter it) L b" using dir by (simp add: ahead_def)
    show ?thesis using v True e internal.key_at [OF b bl] internal.value_at [OF b bl]
      by (simp add: di_key_def di_value_def ik_user_def)
  next
    case False
    then show ?thesis using v e dir by (simp add: di_key_def di_value_def behind_def)
  qed
qed

lemma standing_facts:
  assumes "db_cursor fuel it uvs p"
  shows "sorted_pairs valid ucmp uvs" "p \<le> length uvs" "di_valid it \<longleftrightarrow> p < length uvs" "di_status_of ops it = Ret Status_OK"
proof -
  obtain L where r: "reads fuel L uvs it" and s: "stands L uvs it p" using assms by (auto simp: db_cursor_def)
  show "sorted_pairs valid ucmp uvs" using sorted_view [OF reads_sorted [OF r]] r by (simp add: reads_def)
  have "p < length uvs" if dv: "di_valid it"
  proof -
    obtain b where "p = newer ucmp (di_sequence it) L b" "newest ucmp (di_sequence it) L b"
      using s dv by (auto simp: stands_def ahead_def behind_def split: if_splits)
    then show ?thesis using view_at(1) r by (simp add: reads_def)
  qed
  moreover have "p = length uvs" if "\<not> di_valid it" using s that by (simp add: stands_def)
  ultimately show "p \<le> length uvs" "di_valid it \<longleftrightarrow> p < length uvs" by (cases "di_valid it"; simp)+
  show "di_status_of ops it = Ret Status_OK" using r internal.status_at by (auto simp: di_status_of_def reads_def)
qed

lemma db_contract:
  fixes record_sample :: "slice \<Rightarrow> 'd \<Rightarrow> 'd"
  shows "iterator_contract valid ucmp (db_iter_ops fuel ops ucmp record_sample) (db_cursor fuel)"
proof unfold_locales
  fix it :: "('s, 'd) db_iter" and uvs p target
  assume c: "db_cursor fuel it uvs p"
  let ?ops = "db_iter_ops fuel ops ucmp record_sample"
  note f = standing_facts [OF c]
  show "sorted_pairs valid ucmp uvs" "p \<le> length uvs" by (fact f)+
  show "io_Valid ?ops it \<longleftrightarrow> p < length uvs" using f by (simp add: db_iter_ops_def di_Valid_def)
  show "io_status ?ops it = Ret Status_OK" using f by (simp add: db_iter_ops_def)
  show "\<exists>it'. io_SeekToFirst ?ops it = Ret it' \<and> db_cursor fuel it' uvs 0"
    using di_SeekToFirst_at [OF c] by (simp add: db_iter_ops_def)
  show "\<exists>it'. io_SeekToLast ?ops it = Ret it' \<and> db_cursor fuel it' uvs (length uvs - 1)"
    using di_SeekToLast_at [OF c] by (simp add: db_iter_ops_def)
  show "\<exists>it'. io_Seek ?ops target it = Ret it' \<and> db_cursor fuel it' uvs (first_at ucmp target uvs)" if "valid target"
    using di_Seek_at [OF c that] by (simp add: db_iter_ops_def)
  assume p: "p < length uvs"
  show "io_key ?ops it = Ret (fst (uvs ! p))" "io_value ?ops it = Ret (snd (uvs ! p))"
    using standing_key [OF c p] by (simp_all add: db_iter_ops_def)
  show "\<exists>it'. io_Next ?ops it = Ret it' \<and> db_cursor fuel it' uvs (Suc p)" using di_Next_at [OF c p] by (simp add: db_iter_ops_def)
  show "\<exists>it'. io_Prev ?ops it = Ret it' \<and> db_cursor fuel it' uvs (if p = 0 then length uvs else p - 1)"
    using di_Prev_at [OF c p] by (simp add: db_iter_ops_def)
qed

lemma DBIter_at:
  assumes "cursor iter L i" "parses L" "length L < fuel" "s \<le> kMaxSequenceNumber"
  shows "db_cursor fuel (DBIter db iter s seed) (user_view ucmp s L) (length (user_view ucmp s L))"
proof -
  obtain p r where pr: "RandomPeriod (Random_init seed) = (p, r)" by fastforce
  have "good_seed r" using RandomPeriod_step(2) [OF good_seed_init [of seed]] pr by simp
  then have "reads fuel L (user_view ucmp s L) (DBIter db iter s seed)" using assms pr by (auto simp: reads_def DBIter_def)
  moreover have "\<not> di_valid (DBIter db iter s seed)" using pr by (simp add: DBIter_def)
  ultimately show ?thesis by (rule land_end)
qed

end

section \<open>Properties\<close>

text \<open>The iterators of blocks of internal keys, and what merges them, are internal iterators.\<close>

interpretation internal_blocks: iterator_contract "\<lambda>k. 8 \<le> length k \<and> True" "ikey_compare slice_compare"
  "block_ops (ikey_compare slice_compare)" "block_cursor (\<lambda>k. 8 \<le> length k \<and> True) (ikey_compare slice_compare)"
  by (rule block_contract) (rule ikey.key_order_axioms)

interpretation db_blocks: internal_iterator "\<lambda>_. True" slice_compare "block_ops (ikey_compare slice_compare)"
  "block_cursor (\<lambda>k. 8 \<le> length k \<and> True) (ikey_compare slice_compare)"
  by (intro internal_iterator.intro bytewise.slice_order_axioms internal_blocks.iterator_contract_axioms)

interpretation db_merged: internal_iterator "\<lambda>_. True" slice_compare
  "merging_ops (block_ops (ikey_compare slice_compare)) (ikey_compare slice_compare)" internal_blocks.merge_cursor
  by (intro internal_iterator.intro bytewise.slice_order_axioms internal_blocks.merging_contract)

text \<open>C26: The iterator of the database is an iterator over the user keys that a snapshot sees: over any internal
iterator that keeps the contract of iterators on entries whose internal keys parse, any script of moves, forwards,
backwards, turning round and seeking user keys, sees what it would see on the list of the newest values that are not
newer than the snapshot, the deleted keys left out.\<close>

theorem db_iterator_refines:
  assumes "slice_order valid ucmp"
    and "iterator_contract (\<lambda>k. 8 \<le> length k \<and> valid (ExtractUserKey k)) (ikey_compare ucmp) ops cursor"
    and "cursor iter entries i" "parses entries" "length entries < fuel" "s \<le> kMaxSequenceNumber"
    and "list_all (valid_move valid) moves"
    and "cursor_script ucmp (user_view ucmp s entries) moves (length (user_view ucmp s entries)) = Some seen"
  shows "iter_script (db_iter_ops fuel ops ucmp record_sample) moves (DBIter db iter s seed) = Ret seen"
proof -
  have loc: "internal_iterator valid ucmp ops cursor" using assms(1,2) by (rule internal_iterator.intro)
  show ?thesis
    by (rule iterator_contract.script_at [OF internal_iterator.db_contract [OF loc]
        internal_iterator.DBIter_at [OF loc assms(3-6)] assms(7,8)])
qed

text \<open>Internal keys: a byte of user key, the type, the sequence number. At 6 the second user key is deleted.\<close>

definition snapshot_example :: "pair list" where
  "snapshot_example =
     [([1, 1, 7, 0, 0, 0, 0, 0, 0], [70]), ([1, 1, 3, 0, 0, 0, 0, 0, 0], [30]), ([2, 0, 6, 0, 0, 0, 0, 0, 0], []),
      ([2, 1, 4, 0, 0, 0, 0, 0, 0], [40]), ([3, 1, 2, 0, 0, 0, 0, 0, 0], [20])]"

definition snapshot_block :: slice where
  "snapshot_block = [0, 9, 1, 1, 1, 7, 0, 0, 0, 0, 0, 0, 70, 2, 7, 1, 3, 0, 0, 0, 0, 0, 0, 30,
     0, 9, 0, 2, 0, 6, 0, 0, 0, 0, 0, 0, 1, 8, 1, 1, 4, 0, 0, 0, 0, 0, 0, 40,
     0, 9, 1, 3, 1, 2, 0, 0, 0, 0, 0, 0, 20, 0, 0, 0, 0, 1, 0, 0, 0]"

lemma snapshot_built: "build_block (ikey_compare slice_compare) 16 snapshot_example = Ret snapshot_block"
  by code_simp

lemma snapshot_seen: "user_view slice_compare 6 snapshot_example = [([1], [30]), ([3], [20])]"
  by code_simp

lemma db_iterator_refines_witness:
  "\<exists>it. build_block (ikey_compare slice_compare) 16 snapshot_example = Ret snapshot_block \<and>
     bl_NewIterator (Block snapshot_block) = Ret (Block_Iterator it) \<and>
     iter_script (db_iter_ops 10 (block_ops (ikey_compare slice_compare)) slice_compare (\<lambda>k samples. Suc samples))
       [To_First, To_Next, To_Prev, To_Key [2], To_Last, To_Prev, To_Prev] (DBIter 0 it 6 42) =
     Ret [Some ([1], [30]), Some ([3], [20]), Some ([1], [30]), Some ([3], [20]), Some ([3], [20]), Some ([1], [30]), None]"
proof -
  note data = snapshot_built
  have size: "length snapshot_block < 2 ^ 32" by (simp add: snapshot_block_def)
  have "sorted_wrt (\<lambda>a b. ikey_compare slice_compare a b < 0) (map fst snapshot_example)" by code_simp
  moreover have "\<forall>(k, v) \<in> set snapshot_example. 8 \<le> length k \<and> True" by code_simp
  ultimately obtain it where it: "bl_NewIterator (Block snapshot_block) = Ret (Block_Iterator it)"
    "block_cursor (\<lambda>k. 8 \<le> length k \<and> True) (ikey_compare slice_compare) it snapshot_example (length snapshot_example)"
    using open_built [OF ikey.key_order_axioms _ _ _ data size] by auto
  have parsed: "parses snapshot_example" by code_simp
  have short: "length snapshot_example < 10" by code_simp
  have seen: "cursor_script slice_compare (user_view slice_compare 6 snapshot_example)
      [To_First, To_Next, To_Prev, To_Key [2], To_Last, To_Prev, To_Prev] (length (user_view slice_compare 6 snapshot_example)) =
    Some [Some ([1], [30]), Some ([3], [20]), Some ([1], [30]), Some ([3], [20]), Some ([3], [20]), Some ([1], [30]), None]"
    unfolding snapshot_seen by code_simp
  have "(6 :: sequence_number) \<le> kMaxSequenceNumber" by code_simp
  from db_iterator_refines [OF bytewise.slice_order_axioms internal_blocks.iterator_contract_axioms it(2) parsed short this _ seen]
  show ?thesis using data it(1) by (intro exI [of _ it]) simp
qed

end
