(* ===== verification/Ldb_Cache.thy ===== *)
theory Ldb_Cache
  imports Ldb_Bloom
begin

text \<open>
  leveldb, \<open>util/cache.cc\<close>: the LRU cache, its hash table and the sharded cache. An entry is a number in a heap of
  handles; a chain of the hash table is the list of its entries, and the circular list of a cache is the list of
  its entries from the oldest to the newest. A read through a pointer to an entry that was freed, the removal of an entry
  that is not in the list and a failed assertion are \<open>UB\<close>. The deleters that ran are recorded in their order. The
  mutex makes every operation atomic.
\<close>

section \<open>The hash table\<close>

record 'v lru_handle =
  lh_key :: slice
  lh_value :: 'v
  lh_charge :: u64
  lh_refs :: u32
  lh_hash :: u32

type_synonym 'v handle_heap = "nat \<Rightarrow> 'v lru_handle option"

record handle_table =
  ht_length :: u32
  ht_elems :: u32
  ht_list :: "nat list list"

definition ht_chain :: "handle_table \<Rightarrow> u32 \<Rightarrow> (nat \<times> nat list) run" where
  "ht_chain T hash =
     (let i = unat (hash AND (ht_length T - 1)) in if i < length (ht_list T) then Ret (i, ht_list T ! i) else UB)"

text \<open>The number of entries before the slot that \<open>FindPointer\<close> returns.\<close>

fun FindPointer :: "'v handle_heap \<Rightarrow> slice \<Rightarrow> u32 \<Rightarrow> nat list \<Rightarrow> nat run" where
  "FindPointer heap key hash [] = Ret 0"
| "FindPointer heap key hash (h # hs) =
     (case heap h of None \<Rightarrow> UB
      | Some e \<Rightarrow>
          if lh_hash e \<noteq> hash \<or> key \<noteq> lh_key e then rbind (FindPointer heap key hash hs) (\<lambda>n. Ret (Suc n)) else Ret 0)"

definition ht_Lookup :: "'v handle_heap \<Rightarrow> slice \<Rightarrow> u32 \<Rightarrow> handle_table \<Rightarrow> nat option run" where
  "ht_Lookup heap key hash T =
     rbind (ht_chain T hash) (\<lambda>(i, chain).
       rbind (FindPointer heap key hash chain) (\<lambda>n. Ret (if n < length chain then Some (chain ! n) else None)))"

fun new_length_loop :: "nat \<Rightarrow> u32 \<Rightarrow> u32 \<Rightarrow> u32 run" where
  "new_length_loop 0 elems new_length = Fuel_Out"
| "new_length_loop (Suc fuel) elems new_length =
     (if new_length < elems then new_length_loop fuel elems (new_length * 2) else Ret new_length)"

fun rehash :: "'v handle_heap \<Rightarrow> u32 \<Rightarrow> nat list \<Rightarrow> nat list list \<Rightarrow> nat list list run" where
  "rehash heap new_length [] new_list = Ret new_list"
| "rehash heap new_length (h # hs) new_list =
     (case heap h of None \<Rightarrow> UB
      | Some e \<Rightarrow>
          let i = unat (lh_hash e AND (new_length - 1)) in
          if i < length new_list then rehash heap new_length hs (new_list[i := h # new_list ! i]) else UB)"

definition ht_Resize :: "'v handle_heap \<Rightarrow> handle_table \<Rightarrow> handle_table run" where
  "ht_Resize heap T =
     rbind (new_length_loop 33 (ht_elems T) 4) (\<lambda>new_length.
       rbind (rehash heap new_length (concat (ht_list T)) (replicate (unat new_length) [])) (\<lambda>new_list.
         if ht_elems T \<noteq> of_nat (length (concat (ht_list T))) then UB
         else Ret (T\<lparr>ht_list := new_list, ht_length := new_length\<rparr>)))"

definition HandleTable :: "handle_table run" where
  "HandleTable = ht_Resize (\<lambda>h. None :: unit lru_handle option) \<lparr>ht_length = 0, ht_elems = 0, ht_list = []\<rparr>"

definition ht_Insert :: "'v handle_heap \<Rightarrow> nat \<Rightarrow> handle_table \<Rightarrow> (nat option \<times> handle_table) run" where
  "ht_Insert heap h T =
     (case heap h of None \<Rightarrow> UB
      | Some e \<Rightarrow>
          rbind (ht_chain T (lh_hash e)) (\<lambda>(i, chain).
            rbind (FindPointer heap (lh_key e) (lh_hash e) chain) (\<lambda>n.
              if n < length chain then Ret (Some (chain ! n), T\<lparr>ht_list := (ht_list T)[i := chain[n := h]]\<rparr>)
              else
                let T = T\<lparr>ht_list := (ht_list T)[i := chain @ [h]], ht_elems := ht_elems T + 1\<rparr> in
                if ht_elems T > ht_length T then rbind (ht_Resize heap T) (\<lambda>T. Ret (None, T)) else Ret (None, T))))"

definition ht_Remove :: "'v handle_heap \<Rightarrow> slice \<Rightarrow> u32 \<Rightarrow> handle_table \<Rightarrow> (nat option \<times> handle_table) run" where
  "ht_Remove heap key hash T =
     rbind (ht_chain T hash) (\<lambda>(i, chain).
       rbind (FindPointer heap key hash chain) (\<lambda>n.
         if n < length chain
         then Ret (Some (chain ! n), T\<lparr>ht_list := (ht_list T)[i := take n chain @ drop (Suc n) chain], ht_elems := ht_elems T - 1\<rparr>)
         else Ret (None, T)))"

section \<open>One shard\<close>

record 'v lru_cache =
  lc_capacity :: u64
  lc_usage :: u64
  lc_lru :: "nat list"
  lc_table :: handle_table
  lc_heap :: "nat \<Rightarrow> 'v lru_handle option"
  lc_fresh :: nat
  lc_deleted :: "(slice \<times> 'v) list"

definition LRUCache :: "'v lru_cache run" where
  "LRUCache =
     rbind HandleTable (\<lambda>T. Ret \<lparr>lc_capacity = 0, lc_usage = 0, lc_lru = [], lc_table = T, lc_heap = (\<lambda>h. None), lc_fresh = 0,
       lc_deleted = []\<rparr>)"

definition SetCapacity :: "u64 \<Rightarrow> 'v lru_cache \<Rightarrow> 'v lru_cache" where
  "SetCapacity capacity c = c\<lparr>lc_capacity := capacity\<rparr>"

definition Unref :: "nat \<Rightarrow> 'v lru_cache \<Rightarrow> 'v lru_cache run" where
  "Unref h c =
     (case lc_heap c h of None \<Rightarrow> UB
      | Some e \<Rightarrow>
          if \<not> lh_refs e > 0 then UB
          else
            let refs = lh_refs e - 1 in
            if refs = 0
            then Ret (c\<lparr>lc_usage := lc_usage c - lh_charge e, lc_deleted := lc_deleted c @ [(lh_key e, lh_value e)],
              lc_heap := (lc_heap c)(h := None)\<rparr>)
            else Ret (c\<lparr>lc_heap := (lc_heap c)(h \<mapsto> e\<lparr>lh_refs := refs\<rparr>)\<rparr>))"

definition LRU_Remove :: "nat \<Rightarrow> 'v lru_cache \<Rightarrow> 'v lru_cache run" where
  "LRU_Remove h c = (if h \<in> set (lc_lru c) then Ret (c\<lparr>lc_lru := remove1 h (lc_lru c)\<rparr>) else UB)"

definition LRU_Append :: "nat \<Rightarrow> 'v lru_cache \<Rightarrow> 'v lru_cache" where
  "LRU_Append h c = c\<lparr>lc_lru := lc_lru c @ [h]\<rparr>"

definition lc_Lookup :: "slice \<Rightarrow> u32 \<Rightarrow> 'v lru_cache \<Rightarrow> (nat option \<times> 'v lru_cache) run" where
  "lc_Lookup key hash c =
     rbind (ht_Lookup (lc_heap c) key hash (lc_table c)) (\<lambda>r.
       case r of
         None \<Rightarrow> Ret (None, c)
       | Some h \<Rightarrow>
           (case lc_heap c h of None \<Rightarrow> UB
            | Some e \<Rightarrow>
                rbind (LRU_Remove h (c\<lparr>lc_heap := (lc_heap c)(h \<mapsto> e\<lparr>lh_refs := lh_refs e + 1\<rparr>)\<rparr>)) (\<lambda>c.
                  Ret (Some h, LRU_Append h c))))"

definition lc_Release :: "nat \<Rightarrow> 'v lru_cache \<Rightarrow> 'v lru_cache run" where
  "lc_Release = Unref"

fun evict_loop :: "nat \<Rightarrow> 'v lru_cache \<Rightarrow> 'v lru_cache run" where
  "evict_loop 0 c = Fuel_Out"
| "evict_loop (Suc fuel) c =
     (if lc_usage c > lc_capacity c \<and> lc_lru c \<noteq> [] then
        let old = hd (lc_lru c) in
        rbind (LRU_Remove old c) (\<lambda>c.
          case lc_heap c old of None \<Rightarrow> UB
          | Some e \<Rightarrow>
              rbind (ht_Remove (lc_heap c) (lh_key e) (lh_hash e) (lc_table c)) (\<lambda>(r, T).
                rbind (Unref old (c\<lparr>lc_table := T\<rparr>)) (evict_loop fuel)))
      else Ret c)"

definition lc_Insert :: "slice \<Rightarrow> u32 \<Rightarrow> 'v \<Rightarrow> u64 \<Rightarrow> 'v lru_cache \<Rightarrow> (nat \<times> 'v lru_cache) run" where
  "lc_Insert key hash value charge c =
     (let h = lc_fresh c;
          e = \<lparr>lh_key = key, lh_value = value, lh_charge = charge, lh_refs = 2, lh_hash = hash\<rparr>;
          c = LRU_Append h (c\<lparr>lc_fresh := h + 1, lc_heap := (lc_heap c)(h \<mapsto> e)\<rparr>);
          c = c\<lparr>lc_usage := lc_usage c + charge\<rparr>
      in rbind (ht_Insert (lc_heap c) h (lc_table c)) (\<lambda>(old, T).
           let c = c\<lparr>lc_table := T\<rparr> in
           rbind (case old of None \<Rightarrow> Ret c | Some old \<Rightarrow> rbind (LRU_Remove old c) (Unref old)) (\<lambda>c.
             rbind (evict_loop (length (lc_lru c) + 1) c) (\<lambda>c. Ret (h, c)))))"

definition lc_Erase :: "slice \<Rightarrow> u32 \<Rightarrow> 'v lru_cache \<Rightarrow> 'v lru_cache run" where
  "lc_Erase key hash c =
     rbind (ht_Remove (lc_heap c) key hash (lc_table c)) (\<lambda>(r, T).
       let c = c\<lparr>lc_table := T\<rparr> in
       case r of None \<Rightarrow> Ret c | Some h \<Rightarrow> rbind (LRU_Remove h c) (Unref h))"

fun lc_destroy_loop :: "nat list \<Rightarrow> 'v lru_cache \<Rightarrow> 'v lru_cache run" where
  "lc_destroy_loop [] c = Ret c"
| "lc_destroy_loop (h # hs) c =
     (case lc_heap c h of None \<Rightarrow> UB
      | Some e \<Rightarrow> if lh_refs e \<noteq> 1 then UB else rbind (Unref h c) (lc_destroy_loop hs))"

definition lc_destroy :: "'v lru_cache \<Rightarrow> 'v lru_cache run" where
  "lc_destroy c = lc_destroy_loop (lc_lru c) c"

section \<open>The sharded cache\<close>

definition kNumShardBits :: nat where "kNumShardBits = 4"
definition kNumShards :: nat where "kNumShards = 2 ^ kNumShardBits"

record 'v sharded_cache =
  sc_shards :: "'v lru_cache list"
  sc_last_id :: u64

definition HashSlice :: "slice \<Rightarrow> u32" where
  "HashSlice s = Hash s 0"

definition Shard :: "u32 \<Rightarrow> nat" where
  "Shard hash = unat (drop_bit (32 - kNumShardBits) hash)"

definition ShardedLRUCache :: "u64 \<Rightarrow> 'v sharded_cache run" where
  "ShardedLRUCache capacity =
     (let per_shard = (capacity + (of_nat kNumShards - 1)) div of_nat kNumShards in
      rbind LRUCache (\<lambda>c. Ret \<lparr>sc_shards = replicate kNumShards (SetCapacity per_shard c), sc_last_id = 0\<rparr>))"

text \<open>A handle of the sharded cache is an entry with its hash, which names the shard.\<close>

type_synonym sc_handle = "nat \<times> u32"

definition on_shard :: "u32 \<Rightarrow> ('v lru_cache \<Rightarrow> ('r \<times> 'v lru_cache) run) \<Rightarrow> 'v sharded_cache \<Rightarrow> ('r \<times> 'v sharded_cache) run" where
  "on_shard hash f c =
     (if Shard hash < length (sc_shards c)
      then rbind (f (sc_shards c ! Shard hash)) (\<lambda>(r, s). Ret (r, c\<lparr>sc_shards := (sc_shards c)[Shard hash := s]\<rparr>))
      else UB)"

definition sc_Insert :: "slice \<Rightarrow> 'v \<Rightarrow> u64 \<Rightarrow> 'v sharded_cache \<Rightarrow> (sc_handle \<times> 'v sharded_cache) run" where
  "sc_Insert key value charge c =
     (let hash = HashSlice key in
      rbind (on_shard hash (lc_Insert key hash value charge) c) (\<lambda>(h, c). Ret ((h, hash), c)))"

definition sc_Lookup :: "slice \<Rightarrow> 'v sharded_cache \<Rightarrow> (sc_handle option \<times> 'v sharded_cache) run" where
  "sc_Lookup key c =
     (let hash = HashSlice key in
      rbind (on_shard hash (lc_Lookup key hash) c) (\<lambda>(r, c). Ret (map_option (\<lambda>h. (h, hash)) r, c)))"

definition sc_Release :: "sc_handle \<Rightarrow> 'v sharded_cache \<Rightarrow> 'v sharded_cache run" where
  "sc_Release handle c =
     (case handle of (h, hash) \<Rightarrow>
        rbind (on_shard hash (\<lambda>s. rbind (lc_Release h s) (\<lambda>s. Ret ((), s))) c) (\<lambda>(r, c). Ret c))"

definition sc_Erase :: "slice \<Rightarrow> 'v sharded_cache \<Rightarrow> 'v sharded_cache run" where
  "sc_Erase key c =
     (let hash = HashSlice key in
      rbind (on_shard hash (\<lambda>s. rbind (lc_Erase key hash s) (\<lambda>s. Ret ((), s))) c) (\<lambda>(r, c). Ret c))"

definition sc_Value :: "sc_handle \<Rightarrow> 'v sharded_cache \<Rightarrow> 'v run" where
  "sc_Value handle c =
     (case handle of (h, hash) \<Rightarrow>
        if Shard hash < length (sc_shards c) then
          (case lc_heap (sc_shards c ! Shard hash) h of None \<Rightarrow> UB | Some e \<Rightarrow> Ret (lh_value e))
        else UB)"

definition sc_NewId :: "'v sharded_cache \<Rightarrow> u64 \<times> 'v sharded_cache" where
  "sc_NewId c = (let last_id = sc_last_id c + 1 in (last_id, c\<lparr>sc_last_id := last_id\<rparr>))"


text \<open>The destructor of the array of shards starts with the last one.\<close>

fun destroy_shards :: "'v lru_cache list \<Rightarrow> 'v lru_cache list run" where
  "destroy_shards [] = Ret []"
| "destroy_shards (s # shards) =
     rbind (destroy_shards shards) (\<lambda>shards. rbind (lc_destroy s) (\<lambda>s. Ret (s # shards)))"

definition sc_destroy :: "'v sharded_cache \<Rightarrow> 'v lru_cache list run" where
  "sc_destroy c = destroy_shards (sc_shards c)"

end
