(* ===== verification/Ldb_Cache_Table.thy ===== *)
theory Ldb_Cache_Table
  imports Ldb_Cache "HOL-Library.Multiset"
begin

text \<open>
  The hash table of leveldb's LRU cache is a map from keys to entries: \<open>table_ok\<close> says that it holds a set of entries, each
  once and in the chain of its hash; the lookup finds what it holds, and insertion and removal change the set. It grows
  with the number of entries, up to \<open>2 ^ 31\<close>.
\<close>

section \<open>The hash table\<close>

definition hash_key :: "'v handle_heap \<Rightarrow> nat \<Rightarrow> slice \<times> u32" where
  "hash_key heap h = (lh_key (the (heap h)), lh_hash (the (heap h)))"

definition slot :: "u32 \<Rightarrow> u32 \<Rightarrow> nat" where
  "slot n hash = unat (hash AND (n - 1))"

text \<open>The table \<open>T\<close> holds the entries \<open>S\<close>, each in the chain of its hash.\<close>

definition chains_ok :: "'v handle_heap \<Rightarrow> handle_table \<Rightarrow> nat set \<Rightarrow> bool" where
  "chains_ok heap T S \<longleftrightarrow> finite S \<and> (\<forall>h \<in> S. heap h \<noteq> None) \<and> inj_on (hash_key heap) S \<and>
     mset (concat (ht_list T)) = mset_set S \<and> ht_elems T = of_nat (card S)"

definition table_ok :: "'v handle_heap \<Rightarrow> handle_table \<Rightarrow> nat set \<Rightarrow> bool" where
  "table_ok heap T S \<longleftrightarrow> chains_ok heap T S \<and> (\<exists>k. 2 \<le> k \<and> k \<le> 31 \<and> ht_length T = 2 ^ k \<and> length (ht_list T) = 2 ^ k) \<and>
     (\<forall>i < length (ht_list T). \<forall>h \<in> set (ht_list T ! i). slot (ht_length T) (snd (hash_key heap h)) = i)"

lemma unat_pow32: "k \<le> 31 \<Longrightarrow> unat (2 ^ k :: u32) = 2 ^ k"
proof -
  assume "k \<le> 31"
  then have "(2 :: nat) ^ k \<le> 2 ^ 31" by (rule power_increasing) simp
  then have "unat (of_nat (2 ^ k) :: u32) = 2 ^ k" by (intro unat_of_nat_small) simp
  then show ?thesis by simp
qed

lemma slot_less: "k \<le> 31 \<Longrightarrow> slot (2 ^ k) hash < 2 ^ k"
proof -
  assume k: "k \<le> 31"
  have "hash AND (2 ^ k - 1) = take_bit k hash" by (simp add: take_bit_eq_mask mask_eq_exp_minus_1)
  then have "slot (2 ^ k) hash = take_bit k (unat hash)" by (simp add: slot_def unsigned_take_bit_eq)
  then show ?thesis by simp
qed

lemma set_chains: "chains_ok heap T S \<Longrightarrow> set (concat (ht_list T)) = S"
  unfolding chains_ok_def by (metis finite_set_mset_mset_set set_mset_mset)

lemma mset_concat_update:
  assumes "i < length L" shows "mset (concat (L[i := xs])) + mset (L ! i) = mset (concat L) + mset xs"
proof -
  have "concat (L[i := xs]) = concat (take i L) @ xs @ concat (drop (Suc i) L)" using assms by (simp add: upd_conv_take_nth_drop)
  moreover have "concat (take i L @ L ! i # drop (Suc i) L) = concat (take i L) @ L ! i @ concat (drop (Suc i) L)" by simp
  then have "concat L = concat (take i L) @ L ! i @ concat (drop (Suc i) L)" by (simp only: id_take_nth_drop [OF assms, symmetric])
  ultimately show ?thesis by simp
qed

lemma FindPointer_at:
  "\<forall>h \<in> set chain. heap h \<noteq> None \<Longrightarrow>
     FindPointer heap key hash chain = Ret (length (takeWhile (\<lambda>h. hash_key heap h \<noteq> (key, hash)) chain))"
  by (induction chain) (auto simp: hash_key_def)

lemma find_at:
  assumes t: "table_ok heap T S"
  shows "\<exists>n. ht_chain T hash = Ret (slot (ht_length T) hash, ht_list T ! slot (ht_length T) hash) \<and> slot (ht_length T) hash < length (ht_list T) \<and>
    FindPointer heap key hash (ht_list T ! slot (ht_length T) hash) = Ret n \<and>
    (if n < length (ht_list T ! slot (ht_length T) hash)
     then ht_list T ! slot (ht_length T) hash ! n \<in> S \<and> hash_key heap (ht_list T ! slot (ht_length T) hash ! n) = (key, hash)
     else (key, hash) \<notin> hash_key heap ` S)"
proof -
  let ?i = "slot (ht_length T) hash"
  let ?chain = "ht_list T ! ?i"
  let ?n = "length (takeWhile (\<lambda>h. hash_key heap h \<noteq> (key, hash)) ?chain)"
  from t obtain k where k: "k \<le> 31" "ht_length T = 2 ^ k" "length (ht_list T) = 2 ^ k" by (auto simp: table_ok_def)
  have c: "chains_ok heap T S" using t by (simp add: table_ok_def)
  have i: "?i < length (ht_list T)" using slot_less [OF k(1)] k(2,3) by simp
  have sub: "set ?chain \<subseteq> S" using set_chains [OF c] nth_mem [OF i] by auto
  then have "\<forall>h \<in> set ?chain. heap h \<noteq> None" using c by (auto simp: chains_ok_def)
  from FindPointer_at [OF this] have f: "FindPointer heap key hash ?chain = Ret ?n" .
  have ch: "ht_chain T hash = Ret (?i, ?chain)" using i by (simp add: ht_chain_def slot_def Let_def)
  have "(key, hash) \<notin> hash_key heap ` S" if "\<not> ?n < length ?chain"
  proof
    assume "(key, hash) \<in> hash_key heap ` S"
    then obtain h where h: "h \<in> S" "hash_key heap h = (key, hash)" by force
    then obtain L where "L \<in> set (ht_list T)" "h \<in> set L" using set_chains [OF c] by auto
    then obtain j where j: "j < length (ht_list T)" "h \<in> set (ht_list T ! j)" by (auto simp: in_set_conv_nth)
    then have "slot (ht_length T) (snd (hash_key heap h)) = j" using t by (simp add: table_ok_def)
    then have "h \<in> set ?chain" using j(2) h(2) by simp
    moreover have "?n = length ?chain" using that length_takeWhile_le [of "\<lambda>h. hash_key heap h \<noteq> (key, hash)" ?chain] by simp
    then have "takeWhile (\<lambda>h. hash_key heap h \<noteq> (key, hash)) ?chain = ?chain" by (metis takeWhile_eq_take take_all_iff order_refl)
    then have "\<forall>h \<in> set ?chain. hash_key heap h \<noteq> (key, hash)" by (simp only: takeWhile_eq_all_conv)
    ultimately show False using h(2) by blast
  qed
  moreover have "hash_key heap (?chain ! ?n) = (key, hash)" if "?n < length ?chain" using nth_length_takeWhile [OF that] by simp
  ultimately show ?thesis using f ch i sub by (intro exI [of _ ?n]) auto
qed

lemma ht_Lookup_at:
  assumes "table_ok heap T S"
  shows "\<exists>r. ht_Lookup heap key hash T = Ret r \<and>
    (case r of None \<Rightarrow> (key, hash) \<notin> hash_key heap ` S | Some h \<Rightarrow> h \<in> S \<and> hash_key heap h = (key, hash))"
proof -
  from find_at [OF assms, of hash key] obtain n where n: "ht_chain T hash = Ret (slot (ht_length T) hash, ht_list T ! slot (ht_length T) hash)"
    "FindPointer heap key hash (ht_list T ! slot (ht_length T) hash) = Ret n"
    "if n < length (ht_list T ! slot (ht_length T) hash)
     then ht_list T ! slot (ht_length T) hash ! n \<in> S \<and> hash_key heap (ht_list T ! slot (ht_length T) hash ! n) = (key, hash)
     else (key, hash) \<notin> hash_key heap ` S" by blast
  then show ?thesis by (auto simp: ht_Lookup_def)
qed

text \<open>Growing the table.\<close>

lemma new_length_at:
  "k \<le> 31 \<Longrightarrow> unat elems \<le> 2 ^ 31 \<Longrightarrow> 31 - k < fuel \<Longrightarrow>
     \<exists>k'. k \<le> k' \<and> k' \<le> 31 \<and> new_length_loop fuel elems (2 ^ k) = Ret (2 ^ k') \<and> unat elems \<le> 2 ^ k'"
proof (induction fuel arbitrary: k)
  case (Suc fuel)
  have u: "unat (2 ^ k :: u32) = 2 ^ k" using Suc.prems(1) by (rule unat_pow32)
  show ?case
  proof (cases "(2 :: u32) ^ k < elems")
    case True
    then have "(2 :: nat) ^ k < 2 ^ 31" using u Suc.prems(2) by (simp add: word_less_nat_alt)
    then have k: "k < 31" by (rule power_less_imp_less_exp [rotated]) simp
    then have "Suc k \<le> 31" "31 - Suc k < fuel" using Suc.prems(3) by arith+
    from Suc.IH [OF this(1) Suc.prems(2) this(2)] obtain k' where "Suc k \<le> k'" "k' \<le> 31"
      "new_length_loop fuel elems (2 ^ Suc k) = Ret (2 ^ k')" "unat elems \<le> 2 ^ k'" by blast
    then show ?thesis using True by (intro exI [of _ k']) (simp add: mult.commute)
  next
    case False
    then show ?thesis using u Suc.prems by (intro exI [of _ k]) (simp add: word_less_nat_alt)
  qed
qed simp

lemma rehash_at:
  "\<forall>h \<in> set hs. heap h \<noteq> None \<Longrightarrow> k \<le> 31 \<Longrightarrow> length L = 2 ^ k \<Longrightarrow>
     \<exists>L'. rehash heap (2 ^ k) hs L = Ret L' \<and> length L' = 2 ^ k \<and> mset (concat L') = mset hs + mset (concat L) \<and>
       (\<forall>i < 2 ^ k. set (L' ! i) = set (L ! i) \<union> {h \<in> set hs. slot (2 ^ k) (snd (hash_key heap h)) = i})"
proof (induction hs arbitrary: L)
  case (Cons h hs)
  obtain e where e: "heap h = Some e" using Cons.prems(1) by auto
  let ?i = "slot (2 ^ k) (lh_hash e)"
  have i: "?i < length L" using slot_less [OF Cons.prems(2)] Cons.prems(3) by simp
  let ?L = "L[?i := h # L ! ?i]"
  from Cons.IH [of ?L] Cons.prems obtain L' where L': "rehash heap (2 ^ k) hs ?L = Ret L'" "length L' = 2 ^ k"
    "mset (concat L') = mset hs + mset (concat ?L)" "\<forall>i < 2 ^ k. set (L' ! i) = set (?L ! i) \<union> {h \<in> set hs. slot (2 ^ k) (snd (hash_key heap h)) = i}"
    by auto
  have "mset (concat ?L) + mset (L ! ?i) = add_mset h (mset (concat L)) + mset (L ! ?i)" using mset_concat_update [OF i, of "h # L ! ?i"] by simp
  then have "mset (concat ?L) = add_mset h (mset (concat L))" by (simp only: add_right_cancel)
  moreover have "slot (2 ^ k) (snd (hash_key heap h)) = ?i" by (simp add: hash_key_def e)
  moreover have "rehash heap (2 ^ k) (h # hs) L = Ret L'" using e i L'(1) by (simp add: slot_def Let_def)
  ultimately show ?case using L' i Cons.prems(3) by (auto simp: nth_list_update split: if_splits)
qed simp

lemma ht_Resize_at:
  assumes "chains_ok heap T S" "card S \<le> 2 ^ 31"
  shows "\<exists>T'. ht_Resize heap T = Ret T' \<and> table_ok heap T' S"
proof -
  have el: "unat (ht_elems T) = card S" using assms by (simp add: chains_ok_def unat_of_nat_small)
  have "2 ^ 2 = (4 :: u32)" by simp
  with new_length_at [of 2 "ht_elems T" 33] el assms(2) obtain k where k: "2 \<le> k" "k \<le> 31" "new_length_loop 33 (ht_elems T) 4 = Ret (2 ^ k)"
    by auto
  have u: "unat (2 ^ k :: u32) = 2 ^ k" using k(2) by (rule unat_pow32)
  let ?hs = "concat (ht_list T)"
  have "\<forall>h \<in> set ?hs. heap h \<noteq> None" using assms(1) set_chains [OF assms(1)] by (simp add: chains_ok_def)
  from rehash_at [OF this k(2), of "replicate (2 ^ k) []"] obtain L' where L': "rehash heap (2 ^ k) ?hs (replicate (2 ^ k) []) = Ret L'"
    "length L' = 2 ^ k" "mset (concat L') = mset ?hs" "\<forall>i < 2 ^ k. set (L' ! i) = {h \<in> set ?hs. slot (2 ^ k) (snd (hash_key heap h)) = i}"
    by auto
  have "length ?hs = card S" using assms(1) by (metis chains_ok_def size_mset size_mset_set)
  then have "ht_Resize heap T = Ret (T\<lparr>ht_list := L', ht_length := 2 ^ k\<rparr>)"
    using k(3) L'(1) u assms(1) by (simp add: ht_Resize_def chains_ok_def)
  moreover have "table_ok heap (T\<lparr>ht_list := L', ht_length := 2 ^ k\<rparr>) S"
    using assms(1) k(1,2) L'(2-4) by (auto simp: table_ok_def chains_ok_def)
  ultimately show ?thesis by blast
qed

text \<open>One chain changes: an entry is put in for another one, or behind the chain, or is taken out.\<close>

lemma table_chain:
  assumes t: "table_ok heap T S" and i: "i < length (ht_list T)" and c: "chain' = ht_list T ! i"
    and m: "mset xs + mset_set R = mset chain' + mset_set A" "finite A" "R \<subseteq> S" "A \<inter> S = {}"
    and x: "\<forall>h \<in> set xs. slot (ht_length T) (snd (hash_key heap h)) = i"
    and inj: "\<forall>h \<in> A. heap h \<noteq> None" "inj_on (hash_key heap) ((S - R) \<union> A)"
    and n: "n = of_nat (card ((S - R) \<union> A))"
  shows "table_ok heap (T\<lparr>ht_list := (ht_list T)[i := xs], ht_elems := n\<rparr>) ((S - R) \<union> A)"
proof -
  have f: "finite S" using t by (simp add: table_ok_def chains_ok_def)
  then have fR: "finite R" using m(3) by (rule rev_finite_subset)
  have "(S - R) \<union> R = S" using m(3) by blast
  then have "mset_set S = mset_set ((S - R) \<union> R)" by simp
  also have "\<dots> = mset_set (S - R) + mset_set R" using f fR by (intro mset_set_Union) auto
  finally have S: "mset_set S = mset_set (S - R) + mset_set R" .
  have U: "mset_set ((S - R) \<union> A) = mset_set (S - R) + mset_set A" using f m(2,4) by (intro mset_set_Union) auto
  have "mset (concat ((ht_list T)[i := xs])) + mset chain' = mset_set S + mset xs"
    using mset_concat_update [OF i, of xs] t c by (simp add: table_ok_def chains_ok_def)
  then have "mset (concat ((ht_list T)[i := xs])) + mset chain' + mset_set R = mset_set (S - R) + mset_set R + (mset chain' + mset_set A)"
    using m(1) by (metis S add.assoc)
  then have "mset (concat ((ht_list T)[i := xs])) + (mset chain' + mset_set R) = mset_set ((S - R) \<union> A) + (mset chain' + mset_set R)"
    unfolding U by (simp only: ac_simps)
  then have M: "mset (concat ((ht_list T)[i := xs])) = mset_set ((S - R) \<union> A)" by (simp only: add_right_cancel)
  have "chains_ok heap (T\<lparr>ht_list := (ht_list T)[i := xs], ht_elems := n\<rparr>) ((S - R) \<union> A)"
    unfolding chains_ok_def using t inj n m(2) f M by (auto simp: table_ok_def chains_ok_def)
  then show ?thesis using t x i by (auto simp: table_ok_def nth_list_update)
qed

lemma mset_update_nth: "n < length xs \<Longrightarrow> mset (xs[n := y]) + {#xs ! n#} = add_mset y (mset xs)"
  by (simp add: mset_update)

lemma mset_remove_nth: "n < length xs \<Longrightarrow> mset (take n xs @ drop (Suc n) xs) + {#xs ! n#} = mset xs"
proof -
  assume n: "n < length xs"
  have "mset xs = mset (take n xs @ xs ! n # drop (Suc n) xs)" by (simp only: id_take_nth_drop [OF n, symmetric])
  then show ?thesis by simp
qed

lemma ht_Insert_at:
  assumes t: "table_ok heap T S" and h: "heap h = Some e" "h \<notin> S" and c: "card S < 2 ^ 31"
  shows "\<exists>r T'. ht_Insert heap h T = Ret (r, T') \<and> (case r of
      None \<Rightarrow> hash_key heap h \<notin> hash_key heap ` S \<and> table_ok heap T' (insert h S)
    | Some old \<Rightarrow> old \<in> S \<and> hash_key heap old = hash_key heap h \<and> table_ok heap T' (insert h (S - {old})))"
proof -
  have k: "hash_key heap h = (lh_key e, lh_hash e)" by (simp add: hash_key_def h(1))
  let ?i = "slot (ht_length T) (lh_hash e)"
  let ?chain = "ht_list T ! ?i"
  from find_at [OF t, of "lh_hash e" "lh_key e"] obtain n where f: "ht_chain T (lh_hash e) = Ret (?i, ?chain)" "?i < length (ht_list T)"
    "FindPointer heap (lh_key e) (lh_hash e) ?chain = Ret n"
    "if n < length ?chain then ?chain ! n \<in> S \<and> hash_key heap (?chain ! n) = (lh_key e, lh_hash e)
     else (lh_key e, lh_hash e) \<notin> hash_key heap ` S" by blast
  have fin: "finite S" and inj: "inj_on (hash_key heap) S" and el: "ht_elems T = of_nat (card S)" using t by (simp_all add: table_ok_def chains_ok_def)
  have ch: "\<forall>x \<in> set ?chain. slot (ht_length T) (snd (hash_key heap x)) = ?i" using t f(2) by (auto simp: table_ok_def)
  have hi: "slot (ht_length T) (snd (hash_key heap h)) = ?i" by (simp add: k)
  show ?thesis
  proof (cases "n < length ?chain")
    case True
    let ?old = "?chain ! n"
    have old: "?old \<in> S" "hash_key heap ?old = hash_key heap h" using f(4) True by (simp_all add: k)
    have set: "(S - {?old}) \<union> {h} = insert h (S - {?old})" by simp
    have M: "mset (?chain[n := h]) + mset_set {?old} = mset ?chain + mset_set {h}" using mset_update_nth [OF True, of h] by simp
    have I: "inj_on (hash_key heap) ((S - {?old}) \<union> {h})" using inj old by (auto simp: inj_on_def)
    have "card ((S - {?old}) \<union> {h}) = card S" unfolding set using fin h(2) card_Suc_Diff1 [OF fin old(1)] by simp
    then have N: "ht_elems T = of_nat (card ((S - {?old}) \<union> {h}))" using el by simp
    have X: "\<forall>x \<in> set (?chain[n := h]). slot (ht_length T) (snd (hash_key heap x)) = ?i"
      using ch hi set_update_subset_insert [of ?chain n h] by auto
    have "finite {h}" "{?old} \<subseteq> S" "{h} \<inter> S = {}" "\<forall>h \<in> {h}. heap h \<noteq> None" using old(1) h by simp_all
    from table_chain [OF t f(2) refl M this(1-3) X this(4) I N]
    have "table_ok heap (T\<lparr>ht_list := (ht_list T)[?i := ?chain[n := h]]\<rparr>) (insert h (S - {?old}))" by (simp add: set)
    then show ?thesis using h(1) f(1,3) True old by (auto simp: ht_Insert_def)
  next
    case False
    define T1 where "T1 = T\<lparr>ht_list := (ht_list T)[?i := ?chain @ [h]], ht_elems := ht_elems T + 1\<rparr>"
    have nk: "hash_key heap h \<notin> hash_key heap ` S" using f(4) False by (simp add: k)
    have M: "mset (?chain @ [h]) + mset_set {} = mset ?chain + mset_set {h}" by simp
    have X: "\<forall>x \<in> set (?chain @ [h]). slot (ht_length T) (snd (hash_key heap x)) = ?i" using ch hi by auto
    have I: "inj_on (hash_key heap) ((S - {}) \<union> {h})" using nk inj h(2) by simp
    have N: "ht_elems T + 1 = of_nat (card ((S - {}) \<union> {h}))" using h(2) fin el by simp
    have "finite {h}" "{} \<subseteq> S" "{h} \<inter> S = {}" "\<forall>h \<in> {h}. heap h \<noteq> None" using h by simp_all
    from table_chain [OF t f(2) refl M this(1-3) X this(4) I N] have "table_ok heap T1 ((S - {}) \<union> {h})" by (simp add: T1_def)
    then have T1: "table_ok heap T1 (insert h S)" by simp
    then have "chains_ok heap T1 (insert h S)" by (simp add: table_ok_def)
    from ht_Resize_at [OF this] c fin h(2) obtain T2 where "ht_Resize heap T1 = Ret T2" "table_ok heap T2 (insert h S)" by auto
    moreover have "ht_Insert heap h T =
        (if ht_elems T1 > ht_length T1 then rbind (ht_Resize heap T1) (\<lambda>T. Ret (None, T)) else Ret (None, T1))"
      using h(1) f(1,3) False by (simp add: ht_Insert_def T1_def Let_def)
    ultimately show ?thesis using nk T1 by (cases "ht_elems T1 > ht_length T1") auto
  qed
qed

lemma ht_Remove_at:
  assumes t: "table_ok heap T S"
  shows "\<exists>r T'. ht_Remove heap key hash T = Ret (r, T') \<and> (case r of
      None \<Rightarrow> (key, hash) \<notin> hash_key heap ` S \<and> T' = T
    | Some h \<Rightarrow> h \<in> S \<and> hash_key heap h = (key, hash) \<and> table_ok heap T' (S - {h}))"
proof -
  let ?i = "slot (ht_length T) hash"
  let ?chain = "ht_list T ! ?i"
  from find_at [OF t, of hash key] obtain n where f: "ht_chain T hash = Ret (?i, ?chain)" "?i < length (ht_list T)"
    "FindPointer heap key hash ?chain = Ret n"
    "if n < length ?chain then ?chain ! n \<in> S \<and> hash_key heap (?chain ! n) = (key, hash) else (key, hash) \<notin> hash_key heap ` S" by blast
  have fin: "finite S" and inj: "inj_on (hash_key heap) S" and el: "ht_elems T = of_nat (card S)" using t by (simp_all add: table_ok_def chains_ok_def)
  have ch: "\<forall>x \<in> set ?chain. slot (ht_length T) (snd (hash_key heap x)) = ?i" using t f(2) by (auto simp: table_ok_def)
  show ?thesis
  proof (cases "n < length ?chain")
    case True
    let ?old = "?chain ! n"
    have old: "?old \<in> S" using f(4) True by simp
    have "card S = Suc (card (S - {?old}))" using old fin by (metis card_Suc_Diff1)
    then have el': "ht_elems T - 1 = of_nat (card ((S - {?old}) \<union> {}))" using el by simp
    have "\<forall>x \<in> set (take n ?chain @ drop (Suc n) ?chain). slot (ht_length T) (snd (hash_key heap x)) = ?i"
      using ch by (auto dest: in_set_takeD in_set_dropD)
    note X = this
    have M: "mset (take n ?chain @ drop (Suc n) ?chain) + mset_set {?old} = mset ?chain + mset_set {}" using mset_remove_nth [OF True] by simp
    have I: "inj_on (hash_key heap) ((S - {?old}) \<union> {})" using inj by (auto intro: inj_on_diff)
    have "finite {}" "{?old} \<subseteq> S" "{} \<inter> S = {}" "\<forall>h \<in> {}. heap h \<noteq> None" using old by simp_all
    from table_chain [OF t f(2) refl M this(1-3) X this(4) I el']
    have "table_ok heap (T\<lparr>ht_list := (ht_list T)[?i := take n ?chain @ drop (Suc n) ?chain], ht_elems := ht_elems T - 1\<rparr>) (S - {?old})" by simp
    then show ?thesis using f(1,3,4) True by (auto simp: ht_Remove_def)
  qed (use f in \<open>auto simp: ht_Remove_def\<close>)
qed

lemma table_heap:
  "table_ok heap T S \<Longrightarrow> (\<And>h. h \<in> S \<Longrightarrow> heap' h \<noteq> None \<and> hash_key heap' h = hash_key heap h) \<Longrightarrow> table_ok heap' T S"
proof -
  assume t: "table_ok heap T S" and e: "\<And>h. h \<in> S \<Longrightarrow> heap' h \<noteq> None \<and> hash_key heap' h = hash_key heap h"
  have c: "chains_ok heap T S" using t by (simp add: table_ok_def)
  then have "chains_ok heap' T S" using e by (auto simp: chains_ok_def inj_on_def)
  moreover have "h \<in> S" if "i < length (ht_list T)" "h \<in> set (ht_list T ! i)" for i h using set_chains [OF c] nth_mem [OF that(1)] that(2) by auto
  ultimately show ?thesis using t e by (simp add: table_ok_def)
qed

end
