(* ===== verification/Ldb_Cache_Shard.thy ===== *)
theory Ldb_Cache_Shard
  imports Ldb_Cache_Table
begin

text \<open>
  The LRU cache of leveldb against its specification: a list of entries in the order of their last use, and the list of the
  handles that clients hold. The counts of references, the heap, the hash table and the usage follow from the two lists; an
  entry is deleted when it is in neither.
\<close>

section \<open>The specification\<close>

record 'v spec_entry =
  se_key :: "slice \<times> u32"
  se_value :: 'v
  se_charge :: u64

text \<open>\<open>sp_entries\<close> are all entries ever made, an entry is its position there. \<open>sp_lru\<close> are the entries in the cache, the
  oldest first, \<open>sp_held\<close> has an entry as often as clients hold it.\<close>

record 'v lru_spec =
  sp_capacity :: u64
  sp_entries :: "'v spec_entry list"
  sp_lru :: "nat list"
  sp_held :: "nat list"
  sp_deleted :: "(slice \<times> 'v) list"

definition sp_live :: "'v lru_spec \<Rightarrow> nat set" where
  "sp_live s = set (sp_lru s) \<union> set (sp_held s)"

definition sp_usage :: "'v lru_spec \<Rightarrow> u64" where
  "sp_usage s = sum_list (map (\<lambda>h. se_charge (sp_entries s ! h)) (remdups (sp_lru s @ sp_held s)))"

definition sp_find :: "slice \<times> u32 \<Rightarrow> 'v lru_spec \<Rightarrow> nat option" where
  "sp_find k s = find (\<lambda>h. se_key (sp_entries s ! h) = k) (sp_lru s)"

definition sp_bury :: "nat \<Rightarrow> 'v lru_spec \<Rightarrow> 'v lru_spec" where
  "sp_bury h s =
     (if h \<in> sp_live s then s
      else s\<lparr>sp_deleted := sp_deleted s @ [(fst (se_key (sp_entries s ! h)), se_value (sp_entries s ! h))]\<rparr>)"

definition sp_uncache :: "nat \<Rightarrow> 'v lru_spec \<Rightarrow> 'v lru_spec" where
  "sp_uncache h s = sp_bury h (s\<lparr>sp_lru := remove1 h (sp_lru s)\<rparr>)"

definition sp_lookup :: "slice \<times> u32 \<Rightarrow> 'v lru_spec \<Rightarrow> nat option \<times> 'v lru_spec" where
  "sp_lookup k s =
     (case sp_find k s of
        None \<Rightarrow> (None, s)
      | Some h \<Rightarrow> (Some h, s\<lparr>sp_lru := remove1 h (sp_lru s) @ [h], sp_held := h # sp_held s\<rparr>))"

definition sp_release :: "nat \<Rightarrow> 'v lru_spec \<Rightarrow> 'v lru_spec" where
  "sp_release h s = sp_bury h (s\<lparr>sp_held := remove1 h (sp_held s)\<rparr>)"

definition sp_erase :: "slice \<times> u32 \<Rightarrow> 'v lru_spec \<Rightarrow> 'v lru_spec" where
  "sp_erase k s = (case sp_find k s of None \<Rightarrow> s | Some h \<Rightarrow> sp_uncache h s)"

fun sp_evict :: "nat list \<Rightarrow> 'v lru_spec \<Rightarrow> 'v lru_spec" where
  "sp_evict [] s = s"
| "sp_evict (h # hs) s = (if sp_usage s > sp_capacity s then sp_evict hs (sp_uncache h s) else s)"

definition sp_add :: "slice \<times> u32 \<Rightarrow> 'v \<Rightarrow> u64 \<Rightarrow> 'v lru_spec \<Rightarrow> 'v lru_spec" where
  "sp_add k v charge s =
     s\<lparr>sp_entries := sp_entries s @ [\<lparr>se_key = k, se_value = v, se_charge = charge\<rparr>],
       sp_lru := sp_lru s @ [length (sp_entries s)], sp_held := length (sp_entries s) # sp_held s\<rparr>"

definition sp_insert :: "slice \<times> u32 \<Rightarrow> 'v \<Rightarrow> u64 \<Rightarrow> 'v lru_spec \<Rightarrow> nat \<times> 'v lru_spec" where
  "sp_insert k v charge s =
     (let t = (case sp_find k s of None \<Rightarrow> sp_add k v charge s | Some old \<Rightarrow> sp_uncache old (sp_add k v charge s))
      in (length (sp_entries s), sp_evict (sp_lru t) t))"

section \<open>What a shard has of its specification\<close>

definition pins :: "'v lru_spec \<Rightarrow> nat \<Rightarrow> nat" where
  "pins s h = count_list (sp_held s) h + (if h \<in> set (sp_lru s) then 1 else 0)"

definition entry_handle :: "'v spec_entry \<Rightarrow> nat \<Rightarrow> 'v lru_handle" where
  "entry_handle e n =
     \<lparr>lh_key = fst (se_key e), lh_value = se_value e, lh_charge = se_charge e, lh_refs = of_nat n, lh_hash = snd (se_key e)\<rparr>"

definition heap_of :: "'v lru_spec \<Rightarrow> 'v handle_heap" where
  "heap_of s h = (if h \<in> sp_live s then Some (entry_handle (sp_entries s ! h) (pins s h)) else None)"

definition shard_of :: "'v lru_spec \<Rightarrow> handle_table \<Rightarrow> 'v lru_cache" where
  "shard_of s T =
     \<lparr>lc_capacity = sp_capacity s, lc_usage = sp_usage s, lc_lru = sp_lru s, lc_table = T, lc_heap = heap_of s,
      lc_fresh = length (sp_entries s), lc_deleted = sp_deleted s\<rparr>"

text \<open>\<open>n\<close> bounds the references and the entries in the cache.\<close>

definition sp_ok :: "nat \<Rightarrow> 'v lru_spec \<Rightarrow> bool" where
  "sp_ok n s \<longleftrightarrow> distinct (sp_lru s) \<and> (\<forall>h \<in> sp_live s. h < length (sp_entries s)) \<and> length (sp_held s) \<le> n \<and> length (sp_lru s) \<le> n"

definition shard_rep :: "nat \<Rightarrow> 'v lru_cache \<Rightarrow> 'v lru_spec \<Rightarrow> bool" where
  "shard_rep n c s \<longleftrightarrow> sp_ok n s \<and> (\<exists>T. c = shard_of s T \<and> table_ok (heap_of s) T (set (sp_lru s)))"

lemma shard_of_simps [simp]:
  "lc_capacity (shard_of s T) = sp_capacity s" "lc_usage (shard_of s T) = sp_usage s" "lc_lru (shard_of s T) = sp_lru s"
  "lc_table (shard_of s T) = T" "lc_heap (shard_of s T) = heap_of s" "lc_fresh (shard_of s T) = length (sp_entries s)"
  "lc_deleted (shard_of s T) = sp_deleted s" "(shard_of s T)\<lparr>lc_table := T'\<rparr> = shard_of s T'"
  "(shard_of s T)\<lparr>lc_lru := hs, lc_table := T'\<rparr> = (shard_of s T')\<lparr>lc_lru := hs\<rparr>"
  by (simp_all add: shard_of_def)

lemma shard_repI: "sp_ok n s \<Longrightarrow> table_ok (heap_of s) T (set (sp_lru s)) \<Longrightarrow> shard_rep n (shard_of s T) s"
  by (auto simp: shard_rep_def)

lemma live_pins: "h \<in> sp_live s \<longleftrightarrow> 0 < pins s h"
proof -
  have "0 < count_list (sp_held s) h \<longleftrightarrow> h \<in> set (sp_held s)" using count_list_0_iff [of "sp_held s" h] by linarith
  then show ?thesis by (simp add: sp_live_def pins_def)
qed

lemma finite_live [simp]: "finite (sp_live s)"
  by (simp add: sp_live_def)

lemma usage_sum: "sp_usage s = (\<Sum>h \<in> sp_live s. se_charge (sp_entries s ! h))"
  by (simp add: sp_usage_def sp_live_def sum_list_distinct_conv_sum_set)

lemma pins_le: "sp_ok n s \<Longrightarrow> pins s h \<le> Suc n"
  using count_le_length [of "sp_held s" h] by (simp add: sp_ok_def pins_def)

lemma hash_key_heap: "h \<in> sp_live s \<Longrightarrow> hash_key (heap_of s) h = se_key (sp_entries s ! h)"
  by (simp add: hash_key_def heap_of_def entry_handle_def)

lemma live_lru: "h \<in> set (sp_lru s) \<Longrightarrow> h \<in> sp_live s"
  by (simp add: sp_live_def)

lemma lru_live: "set (sp_lru s) \<subseteq> sp_live s"
  by (simp add: sp_live_def)

text \<open>A table stays right when the entries it holds stay.\<close>

lemma table_heap_of:
  assumes "table_ok (heap_of s) T S" "S \<subseteq> sp_live s" "S \<subseteq> sp_live t"
    and "\<And>h. h \<in> S \<Longrightarrow> sp_entries t ! h = sp_entries s ! h"
  shows "table_ok (heap_of t) T S"
proof (rule table_heap [OF assms(1)])
  fix h assume "h \<in> S"
  then have "h \<in> sp_live s" "h \<in> sp_live t" "sp_entries t ! h = sp_entries s ! h" using assms by blast+
  then show "heap_of t h \<noteq> None \<and> hash_key (heap_of t) h = hash_key (heap_of s) h"
    by (simp add: hash_key_heap) (simp add: heap_of_def)
qed

lemma table_inj:
  assumes "table_ok (heap_of s) T S" "S \<subseteq> sp_live s" "h \<in> S" "i \<in> S" "se_key (sp_entries s ! h) = se_key (sp_entries s ! i)"
  shows "h = i"
proof -
  have "inj_on (hash_key (heap_of s)) S" using assms(1) by (simp add: table_ok_def chains_ok_def)
  moreover have "hash_key (heap_of s) h = hash_key (heap_of s) i" using assms by (simp add: hash_key_heap subsetD)
  ultimately show ?thesis using assms(3,4) by (simp add: inj_onD)
qed

lemma find_table:
  assumes t: "table_ok (heap_of s) T (set (sp_lru s))"
  shows "ht_Lookup (heap_of s) key hash T = Ret (sp_find (key, hash) s)"
proof -
  have k: "hash_key (heap_of s) h = se_key (sp_entries s ! h)" if "h \<in> set (sp_lru s)" for h
    using that by (simp add: hash_key_heap live_lru)
  from ht_Lookup_at [OF t, of key hash] obtain r where r: "ht_Lookup (heap_of s) key hash T = Ret r"
    "case r of None \<Rightarrow> (key, hash) \<notin> hash_key (heap_of s) ` set (sp_lru s)
     | Some h \<Rightarrow> h \<in> set (sp_lru s) \<and> hash_key (heap_of s) h = (key, hash)" by blast
  have "r = sp_find (key, hash) s"
  proof (cases "sp_find (key, hash) s")
    case None
    then have "(key, hash) \<notin> hash_key (heap_of s) ` set (sp_lru s)" using k by (force simp: sp_find_def find_None_iff)
    then show ?thesis using r(2) None by (cases r) force+
  next
    case (Some h)
    then have h: "h \<in> set (sp_lru s)" "se_key (sp_entries s ! h) = (key, hash)" by (auto simp: sp_find_def find_Some_iff)
    then have "(key, hash) \<in> hash_key (heap_of s) ` set (sp_lru s)" using k by force
    then obtain i where i: "r = Some i" "i \<in> set (sp_lru s)" "hash_key (heap_of s) i = (key, hash)" using r(2) by (cases r) auto
    have "set (sp_lru s) \<subseteq> sp_live s" by (simp add: sp_live_def)
    from table_inj [OF t this h(1) i(2)] have "h = i" using h i(2,3) k by simp
    then show ?thesis using i(1) Some by simp
  qed
  then show ?thesis using r(1) by simp
qed

lemma sp_findD: "sp_find k s = Some h \<Longrightarrow> h \<in> set (sp_lru s) \<and> se_key (sp_entries s ! h) = k"
  by (auto simp: sp_find_def find_Some_iff)


section \<open>References\<close>

lemma unat_pins: "sp_ok n s \<Longrightarrow> n < 2 ^ 31 \<Longrightarrow> unat (of_nat (pins s h) :: u32) = pins s h"
  using pins_le [of n s h] by (intro unat_of_nat_small) simp

text \<open>One reference to an entry goes.\<close>

lemma Unref_rep:
  assumes p: "pins s h = Suc (pins t h)" "\<And>i. i \<noteq> h \<Longrightarrow> pins t i = pins s i" and n: "unat (of_nat (pins s h) :: u32) = pins s h"
    and e: "sp_entries t = sp_entries s" "sp_capacity t = sp_capacity s" "sp_deleted t = sp_deleted s"
  shows "Unref h ((shard_of s T)\<lparr>lc_lru := sp_lru t\<rparr>) = Ret (shard_of (sp_bury h t) T)"
proof -
  let ?e = "entry_handle (sp_entries s ! h) (pins s h)"
  have h: "h \<in> sp_live s" using p(1) by (simp add: live_pins)
  have live: "i \<in> sp_live t \<longleftrightarrow> i \<in> sp_live s" if "i \<noteq> h" for i using p(2) [OF that] by (simp add: live_pins)
  have heap: "heap_of t i = heap_of s i" if "i \<noteq> h" for i using live [OF that] p(2) [OF that] by (simp add: heap_of_def e(1))
  have hs: "heap_of s h = Some ?e" using h by (simp add: heap_of_def)
  have pos: "0 < lh_refs ?e" using n p(1) by (simp add: entry_handle_def word_less_nat_alt)
  have dec: "lh_refs ?e - 1 = of_nat (pins t h)" by (simp add: entry_handle_def p(1))
  have ue: "unat (lh_refs ?e) = pins s h" using n by (simp add: entry_handle_def)
  have "unat (lh_refs ?e - 1) = unat (lh_refs ?e) - 1" using pos by (intro unat_minus_one) auto
  then have "unat (of_nat (pins t h) :: u32) = pins s h - 1" by (simp only: dec ue)
  then have nt: "unat (of_nat (pins t h) :: u32) = pins t h" by (simp only: p(1) diff_Suc_1)
  show ?thesis
  proof (cases "h \<in> sp_live t")
    case False
    then have z: "pins t h = 0" by (simp add: live_pins)
    have L: "sp_live s = insert h (sp_live t)"
    proof (rule set_eqI)
      fix i show "i \<in> sp_live s \<longleftrightarrow> i \<in> insert h (sp_live t)" by (cases "i = h") (simp_all add: h live)
    qed
    have u: "sp_usage s - se_charge (sp_entries s ! h) = sp_usage t" using False by (simp add: usage_sum L e(1))
    have ht: "heap_of t h = None" using False by (simp add: heap_of_def)
    have hp: "(heap_of s)(h := None) = heap_of t"
    proof (rule ext)
      fix i show "((heap_of s)(h := None)) i = heap_of t i" by (cases "i = h") (simp_all add: heap ht)
    qed
    have u': "sp_usage (sp_bury h t) = sp_usage t" "heap_of (sp_bury h t) = heap_of t"
      by (simp_all add: sp_bury_def sp_usage_def fun_eq_iff heap_of_def pins_def sp_live_def)
    show ?thesis using pos hs hp u u' dec z e
      by (simp add: Unref_def shard_of_def Let_def) (simp add: sp_bury_def False entry_handle_def)
  next
    case True
    then have nz: "of_nat (pins t h) \<noteq> (0 :: u32)" using nt by (metis live_pins unat_0 less_irrefl)
    have L: "sp_live s = sp_live t"
    proof (rule set_eqI)
      fix i show "i \<in> sp_live s \<longleftrightarrow> i \<in> sp_live t" by (cases "i = h") (simp_all add: h live True)
    qed
    have u: "sp_usage s = sp_usage t" by (simp add: usage_sum L e(1))
    have ht: "heap_of t h = Some (?e\<lparr>lh_refs := of_nat (pins t h)\<rparr>)" using True by (simp add: heap_of_def entry_handle_def e(1))
    have hp: "(heap_of s)(h \<mapsto> ?e\<lparr>lh_refs := of_nat (pins t h)\<rparr>) = heap_of t"
    proof (rule ext)
      fix i show "((heap_of s)(h \<mapsto> ?e\<lparr>lh_refs := of_nat (pins t h)\<rparr>)) i = heap_of t i" by (cases "i = h") (simp_all add: heap ht)
    qed
    show ?thesis using pos hs hp u dec nz e True
      by (simp add: Unref_def shard_of_def Let_def sp_bury_def)
  qed
qed


lemma bury_simps [simp]:
  "sp_lru (sp_bury h s) = sp_lru s" "sp_held (sp_bury h s) = sp_held s" "sp_entries (sp_bury h s) = sp_entries s"
  "sp_capacity (sp_bury h s) = sp_capacity s" "sp_live (sp_bury h s) = sp_live s" "heap_of (sp_bury h s) = heap_of s"
  "sp_ok n (sp_bury h s) = sp_ok n s"
  by (simp_all add: sp_bury_def sp_live_def pins_def heap_of_def sp_ok_def fun_eq_iff)

lemma uncache_ok: "sp_ok n s \<Longrightarrow> sp_ok n (sp_uncache h s)"
  using length_remove1 [of h "sp_lru s"] by (auto simp: sp_uncache_def sp_ok_def sp_live_def dest: notin_set_remove1 split: if_splits)

lemma uncache_Unref:
  assumes s: "sp_ok n s" and n: "n < 2 ^ 31" and h: "h \<in> set (sp_lru s)"
  shows "Unref h ((shard_of s T)\<lparr>lc_lru := remove1 h (sp_lru s)\<rparr>) = Ret (shard_of (sp_uncache h s) T)"
proof -
  let ?t = "s\<lparr>sp_lru := remove1 h (sp_lru s)\<rparr>"
  have set: "set (remove1 h (sp_lru s)) = set (sp_lru s) - {h}" using s by (simp add: sp_ok_def set_remove1_eq)
  have "pins s h = Suc (pins ?t h)" using h by (simp add: pins_def set)
  moreover have "pins ?t i = pins s i" if "i \<noteq> h" for i using that by (simp add: pins_def set)
  ultimately have "Unref h ((shard_of s T)\<lparr>lc_lru := sp_lru ?t\<rparr>) = Ret (shard_of (sp_bury h ?t) T)"
    by (rule Unref_rep [OF _ _ unat_pins [OF s n]]) simp_all
  then show ?thesis by (simp add: sp_uncache_def)
qed

lemma uncache_rep:
  assumes s: "sp_ok n s" and n: "n < 2 ^ 31" and h: "h \<in> set (sp_lru s)" and t: "table_ok (heap_of s) T (set (sp_lru s) - {h})"
  shows "rbind (LRU_Remove h (shard_of s T)) (Unref h) = Ret (shard_of (sp_uncache h s) T) \<and>
    shard_rep n (shard_of (sp_uncache h s) T) (sp_uncache h s)"
proof -
  have set: "set (remove1 h (sp_lru s)) = set (sp_lru s) - {h}" using s by (simp add: sp_ok_def set_remove1_eq)
  have "rbind (LRU_Remove h (shard_of s T)) (Unref h) = Ret (shard_of (sp_uncache h s) T)"
    using h uncache_Unref [OF s n h] by (simp add: LRU_Remove_def)
  moreover have "table_ok (heap_of (sp_uncache h s)) T (set (sp_lru (sp_uncache h s)))"
    using table_heap_of [OF t, of "sp_uncache h s"] by (auto simp: sp_uncache_def set sp_live_def)
  ultimately show ?thesis using uncache_ok [OF s] by (simp add: shard_repI)
qed

lemma lc_Release_rep:
  assumes c: "shard_rep n c s" and n: "n < 2 ^ 31" and h: "h \<in> set (sp_held s)"
  shows "\<exists>c'. lc_Release h c = Ret c' \<and> shard_rep n c' (sp_release h s)"
proof -
  from c obtain T where s: "sp_ok n s" and T: "c = shard_of s T" "table_ok (heap_of s) T (set (sp_lru s))" by (auto simp: shard_rep_def)
  let ?t = "s\<lparr>sp_held := remove1 h (sp_held s)\<rparr>"
  have "0 < count_list (sp_held s) h" using h count_list_0_iff [of "sp_held s" h] by linarith
  then have "pins s h = Suc (pins ?t h)" by (simp add: pins_def count_list_remove1)
  moreover have "pins ?t i = pins s i" if "i \<noteq> h" for i using that by (simp add: pins_def count_list_remove1)
  ultimately have "Unref h ((shard_of s T)\<lparr>lc_lru := sp_lru ?t\<rparr>) = Ret (shard_of (sp_bury h ?t) T)"
    by (rule Unref_rep [OF _ _ unat_pins [OF s n]]) simp_all
  then have "lc_Release h c = Ret (shard_of (sp_release h s) T)" by (simp add: lc_Release_def T(1) sp_release_def) (simp add: shard_of_def)
  moreover have "sp_ok n (sp_release h s)"
    using s length_remove1 [of h "sp_held s"] by (auto simp: sp_release_def sp_ok_def sp_live_def dest: notin_set_remove1 split: if_splits)
  moreover have "table_ok (heap_of (sp_release h s)) T (set (sp_lru (sp_release h s)))"
    using table_heap_of [OF T(2), of "sp_release h s"] by (auto simp: sp_release_def sp_live_def)
  ultimately show ?thesis by (blast intro: shard_repI)
qed

lemma remove_table:
  assumes t: "table_ok (heap_of s) T (set (sp_lru s))"
  shows "\<exists>T'. ht_Remove (heap_of s) key hash T = Ret (sp_find (key, hash) s, T') \<and>
    (case sp_find (key, hash) s of None \<Rightarrow> T' = T | Some h \<Rightarrow> table_ok (heap_of s) T' (set (sp_lru s) - {h}))"
proof -
  have k: "hash_key (heap_of s) h = se_key (sp_entries s ! h)" if "h \<in> set (sp_lru s)" for h
    using that by (simp add: hash_key_heap live_lru)
  from ht_Remove_at [OF t, of key hash] obtain r T' where r: "ht_Remove (heap_of s) key hash T = Ret (r, T')"
    "case r of None \<Rightarrow> (key, hash) \<notin> hash_key (heap_of s) ` set (sp_lru s) \<and> T' = T
     | Some h \<Rightarrow> h \<in> set (sp_lru s) \<and> hash_key (heap_of s) h = (key, hash) \<and> table_ok (heap_of s) T' (set (sp_lru s) - {h})" by blast
  have l: "ht_Lookup (heap_of s) key hash T = Ret r"
    using r(1) by (auto simp: ht_Remove_def ht_Lookup_def rbind_Ret_iff split: if_splits prod.splits)
  then have "r = sp_find (key, hash) s" using find_table [OF t, of key hash] by simp
  then show ?thesis using r by (auto split: option.splits)
qed

lemma lc_Erase_rep:
  assumes c: "shard_rep n c s" and n: "n < 2 ^ 31"
  shows "\<exists>c'. lc_Erase key hash c = Ret c' \<and> shard_rep n c' (sp_erase (key, hash) s)"
proof -
  from c obtain T where s: "sp_ok n s" and T: "c = shard_of s T" "table_ok (heap_of s) T (set (sp_lru s))" by (auto simp: shard_rep_def)
  from remove_table [OF T(2)] obtain T' where T': "ht_Remove (heap_of s) key hash T = Ret (sp_find (key, hash) s, T')"
    "case sp_find (key, hash) s of None \<Rightarrow> T' = T | Some h \<Rightarrow> table_ok (heap_of s) T' (set (sp_lru s) - {h})" by blast
  have e: "lc_Erase key hash c = (case sp_find (key, hash) s of None \<Rightarrow> Ret (shard_of s T')
      | Some h \<Rightarrow> rbind (LRU_Remove h (shard_of s T')) (Unref h))"
    using T'(1) by (simp add: lc_Erase_def T(1) Let_def)
  show ?thesis
  proof (cases "sp_find (key, hash) s")
    case None
    then show ?thesis using e T'(2) c T(1) by (simp add: sp_erase_def)
  next
    case (Some h)
    then show ?thesis using e T'(2) uncache_rep [OF s n, of h T'] sp_findD [OF Some] by (simp add: sp_erase_def)
  qed
qed


lemma lc_Lookup_rep:
  assumes c: "shard_rep n c s" and n: "n < 2 ^ 31"
  shows "\<exists>c'. lc_Lookup key hash c = Ret (fst (sp_lookup (key, hash) s), c') \<and> shard_rep (Suc n) c' (snd (sp_lookup (key, hash) s))"
proof -
  from c obtain T where s: "sp_ok n s" and T: "c = shard_of s T" "table_ok (heap_of s) T (set (sp_lru s))" by (auto simp: shard_rep_def)
  have l: "ht_Lookup (heap_of s) key hash T = Ret (sp_find (key, hash) s)" by (rule find_table [OF T(2)])
  show ?thesis
  proof (cases "sp_find (key, hash) s")
    case None
    have "sp_ok (Suc n) s" using s by (simp add: sp_ok_def)
    then show ?thesis using None l T by (auto simp: lc_Lookup_def sp_lookup_def intro!: shard_repI)
  next
    case (Some h)
    then have h: "h \<in> set (sp_lru s)" by (simp add: sp_findD)
    let ?t = "s\<lparr>sp_lru := remove1 h (sp_lru s) @ [h], sp_held := h # sp_held s\<rparr>"
    let ?e = "entry_handle (sp_entries s ! h) (pins s h)"
    have set: "set (remove1 h (sp_lru s)) = set (sp_lru s) - {h}" using s by (simp add: sp_ok_def set_remove1_eq)
    have live: "sp_live ?t = sp_live s" using h by (auto simp: sp_live_def set)
    have pins: "pins ?t i = (if i = h then Suc (pins s h) else pins s i)" for i using h by (simp add: pins_def set)
    have hs: "heap_of s h = Some ?e" using live_lru [OF h] by (simp add: heap_of_def)
    have heap: "(heap_of s)(h \<mapsto> ?e\<lparr>lh_refs := lh_refs ?e + 1\<rparr>) = heap_of ?t"
    proof (rule ext)
      fix i show "((heap_of s)(h \<mapsto> ?e\<lparr>lh_refs := lh_refs ?e + 1\<rparr>)) i = heap_of ?t i"
        using live_lru [OF h] by (simp add: heap_of_def live pins entry_handle_def)
    qed
    have "sp_usage ?t = sp_usage s" by (simp add: usage_sum live)
    then have "lc_Lookup key hash c = Ret (Some h, shard_of ?t T)"
      using l Some hs heap h by (simp add: lc_Lookup_def T(1) LRU_Remove_def LRU_Append_def shard_of_def)
    moreover have "table_ok (heap_of ?t) T (set (sp_lru ?t))"
      using table_heap_of [OF T(2) lru_live, of ?t] h by (simp add: live insert_absorb set lru_live)
    moreover have "sp_ok (Suc n) ?t" using s h by (auto simp: sp_ok_def live set length_remove1)
    ultimately show ?thesis using Some by (auto simp: sp_lookup_def intro!: shard_repI)
  qed
qed

lemma evict_rep:
  "shard_rep n c s \<Longrightarrow> n < 2 ^ 31 \<Longrightarrow> length (sp_lru s) < fuel \<Longrightarrow>
     \<exists>c'. evict_loop fuel c = Ret c' \<and> shard_rep n c' (sp_evict (sp_lru s) s)"
proof (induction "sp_lru s" arbitrary: c s fuel)
  case Nil
  from Nil.prems(1) obtain T where "c = shard_of s T" by (auto simp: shard_rep_def)
  then show ?case using Nil.prems Nil.hyps by (cases fuel) auto
next
  case (Cons h hs)
  have L: "sp_lru s = h # hs" by (rule Cons.hyps(2) [symmetric])
  from Cons.prems(1) obtain T where s: "sp_ok n s" and T: "c = shard_of s T" "table_ok (heap_of s) T (set (sp_lru s))"
    by (auto simp: shard_rep_def)
  obtain f where f: "fuel = Suc f" "length hs < f" using Cons.prems(3) by (cases fuel) (simp_all add: L)
  show ?case
  proof (cases "sp_usage s > sp_capacity s")
    case False
    then show ?thesis using Cons.prems(1) f(1) T(1) by (simp add: L)
  next
    case True
    let ?k = "se_key (sp_entries s ! h)"
    have h: "h \<in> set (sp_lru s)" by (simp add: L)
    have hs: "heap_of s h = Some (entry_handle (sp_entries s ! h) (pins s h))" using live_lru [OF h] by (simp add: heap_of_def)
    have fd: "sp_find ?k s = Some h" by (simp add: sp_find_def L)
    from remove_table [OF T(2), of "fst ?k" "snd ?k"] obtain T' where T': "ht_Remove (heap_of s) (fst ?k) (snd ?k) T = Ret (Some h, T')"
      "table_ok (heap_of s) T' (set (sp_lru s) - {h})" by (auto simp: fd)
    from uncache_rep [OF s Cons.prems(2) h T'(2)] have u: "rbind (LRU_Remove h (shard_of s T')) (Unref h) = Ret (shard_of (sp_uncache h s) T')"
      "shard_rep n (shard_of (sp_uncache h s) T') (sp_uncache h s)" by blast+
    have hd: "hs = sp_lru (sp_uncache h s)" by (simp add: sp_uncache_def L)
    have "evict_loop fuel c = evict_loop f (shard_of (sp_uncache h s) T')"
      using True h hs T' u(1) f(1) by (simp add: T(1) LRU_Remove_def entry_handle_def Let_def L)
    moreover from Cons.hyps(1) [OF hd u(2) Cons.prems(2)] f(2) hd obtain c' where
      "evict_loop f (shard_of (sp_uncache h s) T') = Ret c'" "shard_rep n c' (sp_evict (sp_lru (sp_uncache h s)) (sp_uncache h s))" by auto
    ultimately show ?thesis using True hd by (simp add: L)
  qed
qed


text \<open>A new entry, in the cache and held by the client.\<close>

lemma sp_add_rep:
  assumes s: "sp_ok n s" and T: "table_ok (heap_of s) T (set (sp_lru s))" and t: "t = sp_add (key, hash) v charge s"
  shows "sp_ok (Suc n) t" "table_ok (heap_of t) T (set (sp_lru s))" "length (sp_entries s) \<notin> set (sp_lru s)"
    and "heap_of t (length (sp_entries s)) = Some \<lparr>lh_key = key, lh_value = v, lh_charge = charge, lh_refs = 2, lh_hash = hash\<rparr>"
    and "\<And>i. i \<in> set (sp_lru s) \<Longrightarrow> hash_key (heap_of t) i = se_key (sp_entries s ! i)"
    and "shard_of t T' = \<lparr>lc_capacity = sp_capacity s, lc_usage = sp_usage s + charge, lc_lru = sp_lru s @ [length (sp_entries s)],
      lc_table = T', lc_heap = (heap_of s)(length (sp_entries s) \<mapsto>
        \<lparr>lh_key = key, lh_value = v, lh_charge = charge, lh_refs = 2, lh_hash = hash\<rparr>),
      lc_fresh = length (sp_entries s) + 1, lc_deleted = sp_deleted s\<rparr>"
proof -
  let ?h = "length (sp_entries s)" and ?e = "\<lparr>lh_key = key, lh_value = v, lh_charge = charge, lh_refs = 2, lh_hash = hash\<rparr>"
  have new: "?h \<notin> sp_live s" using s by (auto simp: sp_ok_def)
  then have new': "?h \<notin> set (sp_lru s)" "?h \<notin> set (sp_held s)" by (auto simp: sp_live_def)
  have old: "sp_entries t ! i = sp_entries s ! i" if "i \<in> sp_live s" for i using that s by (simp add: sp_ok_def nth_append t sp_add_def)
  have live: "sp_live t = insert ?h (sp_live s)" by (auto simp: sp_live_def t sp_add_def)
  have pins: "pins t i = (if i = ?h then 2 else pins s i)" for i using new' by (auto simp: pins_def count_list_0_iff t sp_add_def)
  have heap: "heap_of t = (heap_of s)(?h \<mapsto> ?e)"
  proof (rule ext)
    fix i show "heap_of t i = ((heap_of s)(?h \<mapsto> ?e)) i"
      using new old [of i] by (simp add: heap_of_def live pins) (simp add: entry_handle_def t sp_add_def)
  qed
  have "sp_usage s + charge = sp_usage t" using new old by (simp add: usage_sum live) (simp add: t sp_add_def)
  then show "shard_of t T' = \<lparr>lc_capacity = sp_capacity s, lc_usage = sp_usage s + charge, lc_lru = sp_lru s @ [?h],
      lc_table = T', lc_heap = (heap_of s)(?h \<mapsto> ?e), lc_fresh = ?h + 1, lc_deleted = sp_deleted s\<rparr>"
    by (simp add: shard_of_def heap) (simp add: t sp_add_def)
  show "sp_ok (Suc n) t" using s new' by (auto simp: sp_ok_def live) (auto simp: t sp_add_def)
  show "table_ok (heap_of t) T (set (sp_lru s))"
    by (rule table_heap_of [OF T lru_live]) (use lru_live old in \<open>auto simp: live\<close>)
  show "?h \<notin> set (sp_lru s)" "heap_of t ?h = Some ?e" using new' by (simp_all add: heap)
  show "hash_key (heap_of t) i = se_key (sp_entries s ! i)" if "i \<in> set (sp_lru s)" for i
    using hash_key_heap [of i t] old [OF live_lru [OF that]] live_lru [OF that] by (simp add: live)
qed

lemma sp_find_unique:
  assumes "table_ok (heap_of s) T (set (sp_lru s))" "i \<in> set (sp_lru s)" "se_key (sp_entries s ! i) = k"
  shows "sp_find k s = Some i"
proof -
  from assms(2,3) obtain j where j: "sp_find k s = Some j" by (cases "sp_find k s") (auto simp: sp_find_def find_None_iff)
  then have "i = j" using table_inj [OF assms(1) lru_live assms(2)] sp_findD [OF j] assms(3) by simp
  then show ?thesis using j by simp
qed

lemma insert_table:
  assumes s: "sp_ok n s" and T: "table_ok (heap_of s) T (set (sp_lru s))" and t: "t = sp_add (key, hash) v charge s" and n: "n < 2 ^ 31"
    and h: "h = length (sp_entries s)"
  shows "\<exists>T'. ht_Insert (heap_of t) h T = Ret (sp_find (key, hash) s, T') \<and> (case sp_find (key, hash) s of
      None \<Rightarrow> table_ok (heap_of t) T' (set (sp_lru t))
    | Some old \<Rightarrow> old \<in> set (sp_lru t) \<and> table_ok (heap_of t) T' (set (sp_lru t) - {old}))"
proof -
  note a = sp_add_rep [OF s T t, folded h]
  have "card (set (sp_lru s)) \<le> n" using s card_length [of "sp_lru s"] by (simp add: sp_ok_def)
  then have card: "card (set (sp_lru s)) < 2 ^ 31" using n by simp
  from ht_Insert_at [OF a(2,4,3) card] obtain r T' where r: "ht_Insert (heap_of t) h T = Ret (r, T')"
    "case r of None \<Rightarrow> hash_key (heap_of t) h \<notin> hash_key (heap_of t) ` set (sp_lru s) \<and> table_ok (heap_of t) T' (insert h (set (sp_lru s)))
     | Some old \<Rightarrow> old \<in> set (sp_lru s) \<and> hash_key (heap_of t) old = hash_key (heap_of t) h \<and>
         table_ok (heap_of t) T' (insert h (set (sp_lru s) - {old}))" by blast
  have k: "hash_key (heap_of t) h = (key, hash)" by (simp add: hash_key_def a(4))
  have L: "set (sp_lru t) = insert h (set (sp_lru s))" by (simp add: t sp_add_def h)
  show ?thesis
  proof (cases r)
    case None
    then have "sp_find (key, hash) s = None" using r(2) k a(5) by (auto simp: sp_find_def find_None_iff image_iff)
    then show ?thesis using r None by (simp add: L)
  next
    case (Some i)
    then have i: "i \<in> set (sp_lru s)" "se_key (sp_entries s ! i) = (key, hash)" using r(2) k a(5) by auto
    then have "insert h (set (sp_lru s)) - {i} = insert h (set (sp_lru s) - {i})" using a(3) by auto
    then show ?thesis using r Some i by (simp add: L sp_find_unique [OF T i])
  qed
qed

lemma lc_Insert_rep:
  assumes c: "shard_rep n c s" and n: "Suc n < 2 ^ 31"
  shows "\<exists>c'. lc_Insert key hash v charge c = Ret (fst (sp_insert (key, hash) v charge s), c') \<and>
    shard_rep (Suc n) c' (snd (sp_insert (key, hash) v charge s))"
proof -
  from c obtain T where s: "sp_ok n s" and T: "c = shard_of s T" "table_ok (heap_of s) T (set (sp_lru s))" by (auto simp: shard_rep_def)
  let ?h = "length (sp_entries s)"
  let ?e = "\<lparr>lh_key = key, lh_value = v, lh_charge = charge, lh_refs = 2, lh_hash = hash\<rparr>"
  define t where "t = sp_add (key, hash) v charge s"
  define t' where "t' = (case sp_find (key, hash) s of None \<Rightarrow> t | Some old \<Rightarrow> sp_uncache old t)"
  note a = sp_add_rep [OF s T(2) t_def]
  from insert_table [OF s T(2) t_def _ refl] n obtain T' where T': "ht_Insert (heap_of t) ?h T = Ret (sp_find (key, hash) s, T')"
    "case sp_find (key, hash) s of None \<Rightarrow> table_ok (heap_of t) T' (set (sp_lru t))
     | Some old \<Rightarrow> old \<in> set (sp_lru t) \<and> table_ok (heap_of t) T' (set (sp_lru t) - {old})" by auto
  let ?replaced = "case sp_find (key, hash) s of None \<Rightarrow> Ret (shard_of t T') | Some old \<Rightarrow> rbind (LRU_Remove old (shard_of t T')) (Unref old)"
  have "\<exists>c1. ?replaced = Ret c1 \<and> shard_rep (Suc n) c1 t'"
    using T'(2) a(1) uncache_rep [OF a(1) n, of _ T'] by (auto simp: t'_def intro!: shard_repI split: option.splits)
  then obtain c1 where c1: "?replaced = Ret c1" "shard_rep (Suc n) c1 t'" by blast
  have "lc_lru c1 = sp_lru t'" using c1(2) by (auto simp: shard_rep_def)
  with evict_rep [OF c1(2) n, of "length (lc_lru c1) + 1"] obtain c2 where c2: "evict_loop (length (lc_lru c1) + 1) c1 = Ret c2"
    "shard_rep (Suc n) c2 (sp_evict (sp_lru t') t')" by auto
  let ?app = "LRU_Append (lc_fresh c) (c\<lparr>lc_fresh := lc_fresh c + 1, lc_heap := (lc_heap c)(lc_fresh c \<mapsto> ?e)\<rparr>)"
  have app: "?app\<lparr>lc_usage := lc_usage ?app + charge\<rparr> = shard_of t T"
    unfolding a(6) by (simp add: T(1) LRU_Append_def shard_of_def)
  have fresh: "lc_fresh c = ?h" by (simp add: T(1))
  have "lc_Insert key hash v charge c = Ret (?h, c2)"
    using T'(1) c1(1) c2(1) by (cases "sp_find (key, hash) s") (simp_all only: lc_Insert_def Let_def app, auto simp add: fresh simp del: evict_loop.simps)
  moreover have "sp_insert (key, hash) v charge s = (?h, sp_evict (sp_lru t') t')"
    by (cases "sp_find (key, hash) s") (simp_all add: sp_insert_def Let_def t_def t'_def)
  ultimately show ?thesis using c2(2) by auto
qed


section \<open>Construction and destruction\<close>

definition LRU_Spec :: "u64 \<Rightarrow> 'v lru_spec" where
  "LRU_Spec capacity = \<lparr>sp_capacity = capacity, sp_entries = [], sp_lru = [], sp_held = [], sp_deleted = []\<rparr>"

lemma HandleTable_at: "\<exists>T. HandleTable = Ret T \<and> table_ok heap T {}"
proof -
  let ?T = "\<lparr>ht_length = 0, ht_elems = 0, ht_list = []\<rparr>"
  have "chains_ok (\<lambda>h. None :: unit lru_handle option) ?T {}" by (simp add: chains_ok_def)
  from ht_Resize_at [OF this] obtain T where T: "HandleTable = Ret T" "table_ok (\<lambda>h. None :: unit lru_handle option) T {}"
    by (auto simp: HandleTable_def)
  from T(2) have "chains_ok (\<lambda>h. None :: unit lru_handle option) T {}" by (simp add: table_ok_def)
  from set_chains [OF this] have "\<forall>x \<in> set (ht_list T). x = []" by auto
  then have e: "h \<notin> set (ht_list T ! i)" if "i < length (ht_list T)" for h i using nth_mem [OF that] by auto
  have "\<forall>i < length (ht_list T). \<forall>h \<in> set (ht_list T ! i). slot (ht_length T) (snd (hash_key heap h)) = i" using e by blast
  then have "table_ok heap T {}" using T(2) unfolding table_ok_def chains_ok_def by simp
  then show ?thesis using T(1) by blast
qed

lemma LRUCache_rep: "\<exists>c. LRUCache = Ret c \<and> shard_rep n (SetCapacity capacity c) (LRU_Spec capacity :: 'v lru_spec)"
proof -
  let ?s = "LRU_Spec capacity :: 'v lru_spec"
  from HandleTable_at obtain T where T: "HandleTable = Ret T" "table_ok (heap_of ?s) T {}" by blast
  let ?c = "\<lparr>lc_capacity = 0, lc_usage = 0, lc_lru = [], lc_table = T, lc_heap = (\<lambda>h. None), lc_fresh = 0, lc_deleted = []\<rparr>"
  have "SetCapacity capacity ?c = shard_of ?s T"
    by (simp add: SetCapacity_def shard_of_def LRU_Spec_def sp_usage_def heap_of_def sp_live_def fun_eq_iff)
  moreover have "sp_ok n ?s" by (simp add: sp_ok_def LRU_Spec_def sp_live_def)
  moreover have "table_ok (heap_of ?s) T (set (sp_lru ?s))" using T(2) by (simp add: LRU_Spec_def)
  ultimately have "shard_rep n (SetCapacity capacity ?c) ?s" by (simp add: shard_repI)
  moreover have "LRUCache = Ret ?c" by (simp add: LRUCache_def T(1))
  ultimately show ?thesis by blast
qed

text \<open>When no client holds an entry, the destructor deletes what is in the cache, the oldest first.\<close>

definition sp_destroy :: "'v lru_spec \<Rightarrow> 'v lru_spec" where
  "sp_destroy s = fold sp_uncache (sp_lru s) s"

lemma destroy_loop_rep:
  "sp_ok n s \<Longrightarrow> n < 2 ^ 31 \<Longrightarrow> sp_held s = [] \<Longrightarrow> \<exists>c'. lc_destroy_loop (sp_lru s) ((shard_of s T)\<lparr>lc_lru := L\<rparr>) = Ret c' \<and>
     lc_heap c' = Map.empty \<and> lc_deleted c' = sp_deleted (fold sp_uncache (sp_lru s) s)"
proof (induction "sp_lru s" arbitrary: s)
  case Nil
  then have "heap_of s = Map.empty" by (simp add: fun_eq_iff heap_of_def sp_live_def)
  then show ?case using Nil.hyps by simp
next
  case (Cons h hs)
  have l: "sp_lru s = h # hs" by (rule Cons.hyps(2) [symmetric])
  have h: "h \<in> set (sp_lru s)" by (simp add: l)
  have u: "Unref h ((shard_of s T)\<lparr>lc_lru := remove1 h (sp_lru s)\<rparr>) = Ret (shard_of (sp_uncache h s) T)"
    by (rule uncache_Unref [OF Cons.prems(1,2) h])
  have hd: "hs = sp_lru (sp_uncache h s)" "sp_held (sp_uncache h s) = []" using Cons.prems(3) by (simp_all add: sp_uncache_def l)
  have "pins s h = 1" using Cons.prems(3) h by (simp add: pins_def)
  then have e: "heap_of s h = Some (entry_handle (sp_entries s ! h) 1)" using live_lru [OF h] by (simp add: heap_of_def)
  have "Unref h ((shard_of s T)\<lparr>lc_lru := L\<rparr>) = Ret ((shard_of (sp_uncache h s) T)\<lparr>lc_lru := L\<rparr>)"
    using u e h by (simp add: Unref_def shard_of_def Let_def entry_handle_def)
  then show ?case using Cons.hyps(1) [OF hd(1) uncache_ok [OF Cons.prems(1)] Cons.prems(2) hd(2)] hd(1) e
    by (simp add: l entry_handle_def)
qed

lemma lc_destroy_rep:
  assumes c: "shard_rep n c s" and n: "n < 2 ^ 31" and h: "sp_held s = []"
  shows "\<exists>c'. lc_destroy c = Ret c' \<and> lc_heap c' = Map.empty \<and> lc_deleted c' = sp_deleted (sp_destroy s)"
proof -
  from c obtain T where T: "sp_ok n s" "c = shard_of s T" by (auto simp: shard_rep_def)
  have e: "(shard_of s T)\<lparr>lc_lru := sp_lru s\<rparr> = shard_of s T" by (simp add: shard_of_def)
  from destroy_loop_rep [OF T(1) n h, where T = T and L = "sp_lru s", unfolded e] show ?thesis
    by (simp add: lc_destroy_def T(2) sp_destroy_def)
qed


section \<open>Every entry is deleted once\<close>

abbreviation deletion :: "'v spec_entry \<Rightarrow> slice \<times> 'v" where
  "deletion e \<equiv> (fst (se_key e), se_value e)"

text \<open>The entries ever made are the deleted ones and the live ones.\<close>

definition accounted :: "'v lru_spec \<Rightarrow> bool" where
  "accounted s \<longleftrightarrow> distinct (sp_lru s) \<and> (\<forall>h \<in> sp_live s. h < length (sp_entries s)) \<and>
     mset (sp_deleted s) + image_mset (\<lambda>h. deletion (sp_entries s ! h)) (mset_set (sp_live s)) = mset (map deletion (sp_entries s))"

lemma accounted_bury:
  assumes s: "accounted s" and h: "h \<in> sp_live s" and t: "sp_entries t = sp_entries s" "sp_deleted t = sp_deleted s"
    and l: "sp_live s = insert h (sp_live t)" "distinct (sp_lru t)"
  shows "accounted (sp_bury h t)"
proof (cases "h \<in> sp_live t")
  case True
  then show ?thesis using s t l by (simp add: accounted_def sp_bury_def insert_absorb)
next
  case False
  then have "mset_set (sp_live s) = add_mset h (mset_set (sp_live t))" using l(1) by simp
  then show ?thesis using s t l False by (simp add: accounted_def) (simp add: sp_bury_def)
qed

lemma accounted_uncache: "accounted s \<Longrightarrow> h \<in> set (sp_lru s) \<Longrightarrow> accounted (sp_uncache h s)"
  unfolding sp_uncache_def
  by (rule accounted_bury) (auto simp: sp_live_def accounted_def set_remove1_eq)

lemma accounted_release: "accounted s \<Longrightarrow> h \<in> set (sp_held s) \<Longrightarrow> accounted (sp_release h s)"
  unfolding sp_release_def
  by (rule accounted_bury) (auto simp: sp_live_def accounted_def dest: notin_set_remove1)

lemma accounted_lookup: "accounted s \<Longrightarrow> accounted (snd (sp_lookup k s))"
proof (cases "sp_find k s")
  case (Some h)
  assume s: "accounted s"
  let ?t = "s\<lparr>sp_lru := remove1 h (sp_lru s) @ [h], sp_held := h # sp_held s\<rparr>"
  have "sp_live ?t = sp_live s" using s sp_findD [OF Some] by (auto simp: sp_live_def accounted_def set_remove1_eq)
  then have "accounted ?t" using s by (simp add: accounted_def set_remove1_eq)
  then show ?thesis by (simp add: sp_lookup_def Some)
qed (simp add: sp_lookup_def)

lemma accounted_erase: "accounted s \<Longrightarrow> accounted (sp_erase k s)"
  using sp_findD [of k s] by (auto simp: sp_erase_def accounted_uncache split: option.splits)

lemma accounted_evict: "accounted s \<Longrightarrow> accounted (sp_evict (sp_lru s) s)"
proof (induction "sp_lru s" arbitrary: s)
  case (Cons h hs)
  have l: "sp_lru s = h # hs" by (rule Cons.hyps(2) [symmetric])
  then have "hs = sp_lru (sp_uncache h s)" by (simp add: sp_uncache_def)
  then show ?case using Cons.hyps(1) accounted_uncache [OF Cons.prems] Cons.prems by (simp add: l)
qed simp

lemma evict_entries [simp]: "sp_entries (sp_evict hs s) = sp_entries s" "sp_held (sp_evict hs s) = sp_held s"
  by (induction hs arbitrary: s) (simp_all add: sp_uncache_def)

lemma accounted_add: "accounted s \<Longrightarrow> accounted (sp_add k v charge s)"
proof -
  assume s: "accounted s"
  let ?t = "sp_add k v charge s"
  have n: "length (sp_entries s) \<notin> sp_live s" using s by (auto simp: accounted_def)
  have l: "sp_live ?t = insert (length (sp_entries s)) (sp_live s)" by (auto simp: sp_live_def sp_add_def)
  have "image_mset (\<lambda>h. deletion (sp_entries ?t ! h)) (mset_set (sp_live s)) = image_mset (\<lambda>h. deletion (sp_entries s ! h)) (mset_set (sp_live s))"
    using s by (intro image_mset_cong) (auto simp: sp_add_def accounted_def nth_append)
  moreover have "distinct (sp_lru ?t)" using s n by (simp add: accounted_def sp_add_def sp_live_def)
  moreover have "sp_entries ?t = sp_entries s @ [\<lparr>se_key = k, se_value = v, se_charge = charge\<rparr>]" "sp_deleted ?t = sp_deleted s"
    by (simp_all add: sp_add_def)
  ultimately show "accounted ?t" using s n by (auto simp: accounted_def l less_Suc_eq)
qed

lemma accounted_insert: "accounted s \<Longrightarrow> accounted (snd (sp_insert k v charge s))"
proof -
  assume s: "accounted s"
  have "old \<in> set (sp_lru (sp_add k v charge s))" if "sp_find k s = Some old" for old using sp_findD [OF that] by (simp add: sp_add_def)
  then show "accounted (snd (sp_insert k v charge s))"
    using accounted_add [OF s] by (auto simp: sp_insert_def Let_def accounted_evict accounted_uncache split: option.splits)
qed

lemma accounted_destroy: "accounted s \<Longrightarrow> sp_held s = [] \<Longrightarrow> mset (sp_deleted (sp_destroy s)) = mset (map deletion (sp_entries s))"
  unfolding sp_destroy_def
proof (induction "sp_lru s" arbitrary: s)
  case Nil
  then show ?case by (simp add: accounted_def sp_live_def)
next
  case (Cons h hs)
  have l: "sp_lru s = h # hs" by (rule Cons.hyps(2) [symmetric])
  have u: "hs = sp_lru (sp_uncache h s)" "sp_held (sp_uncache h s) = []" "sp_entries (sp_uncache h s) = sp_entries s"
    using Cons.prems(2) by (simp_all add: sp_uncache_def l)
  show ?case using Cons.hyps(1) [OF u(1) accounted_uncache u(2)] Cons.prems(1) u by (simp add: l)
qed

text \<open>After an insertion, a shard uses no more than its capacity, or has nothing left that it could evict.\<close>

lemma evict_bound: "sp_usage (sp_evict (sp_lru s) s) \<le> sp_capacity s \<or> sp_lru (sp_evict (sp_lru s) s) = []"
proof (induction "sp_lru s" arbitrary: s)
  case (Cons h hs)
  have l: "sp_lru s = h # hs" by (rule Cons.hyps(2) [symmetric])
  have u: "hs = sp_lru (sp_uncache h s)" "sp_capacity (sp_uncache h s) = sp_capacity s" by (simp_all add: sp_uncache_def l)
  show ?case using Cons.hyps(1) [OF u(1)] u by (auto simp: l not_less)
qed simp

end
