(* ===== verification/Ldb_Cache_Spec.thy ===== *)
theory Ldb_Cache_Spec
  imports Ldb_Cache_Shard
begin

text \<open>
  The sharded cache of leveldb, run on the script of a client: every call returns, and answers as the sixteen specified
  shards do.
\<close>

section \<open>A client of the cache\<close>

datatype 'v cache_call =
    Call_Insert slice 'v u64
  | Call_Lookup slice
  | Call_Release sc_handle
  | Call_Erase slice
  | Call_Value sc_handle

datatype 'v cache_reply =
    Reply_Handle sc_handle
  | Reply_Found "sc_handle option"
  | Reply_Value 'v
  | Reply_None

fun sc_call :: "'v cache_call \<Rightarrow> 'v sharded_cache \<Rightarrow> ('v cache_reply \<times> 'v sharded_cache) run" where
  "sc_call (Call_Insert key v charge) c = rbind (sc_Insert key v charge c) (\<lambda>(h, c). Ret (Reply_Handle h, c))"
| "sc_call (Call_Lookup key) c = rbind (sc_Lookup key c) (\<lambda>(r, c). Ret (Reply_Found r, c))"
| "sc_call (Call_Release handle) c = rbind (sc_Release handle c) (\<lambda>c. Ret (Reply_None, c))"
| "sc_call (Call_Erase key) c = rbind (sc_Erase key c) (\<lambda>c. Ret (Reply_None, c))"
| "sc_call (Call_Value handle) c = rbind (sc_Value handle c) (\<lambda>v. Ret (Reply_Value v, c))"

fun sc_script :: "'v cache_call list \<Rightarrow> 'v sharded_cache \<Rightarrow> ('v cache_reply list \<times> 'v sharded_cache) run" where
  "sc_script [] c = Ret ([], c)"
| "sc_script (call # calls) c =
     rbind (sc_call call c) (\<lambda>(r, c). rbind (sc_script calls c) (\<lambda>(rs, c). Ret (r # rs, c)))"

text \<open>What the shards of the specification answer. A client releases only what it holds, and asks only for the value of
  what it holds.\<close>

fun spec_call :: "'v cache_call \<Rightarrow> 'v lru_spec list \<Rightarrow> ('v cache_reply \<times> 'v lru_spec list) option" where
  "spec_call (Call_Insert key v charge) S =
     (let hash = HashSlice key; (h, s) = sp_insert (key, hash) v charge (S ! Shard hash)
      in Some (Reply_Handle (h, hash), S[Shard hash := s]))"
| "spec_call (Call_Lookup key) S =
     (let hash = HashSlice key; (r, s) = sp_lookup (key, hash) (S ! Shard hash)
      in Some (Reply_Found (map_option (\<lambda>h. (h, hash)) r), S[Shard hash := s]))"
| "spec_call (Call_Release (h, hash)) S =
     (if h \<in> set (sp_held (S ! Shard hash)) then Some (Reply_None, S[Shard hash := sp_release h (S ! Shard hash)]) else None)"
| "spec_call (Call_Erase key) S =
     (let hash = HashSlice key in Some (Reply_None, S[Shard hash := sp_erase (key, hash) (S ! Shard hash)]))"
| "spec_call (Call_Value (h, hash)) S =
     (let s = S ! Shard hash in if h \<in> set (sp_held s) then Some (Reply_Value (se_value (sp_entries s ! h)), S) else None)"

fun spec_script :: "'v cache_call list \<Rightarrow> 'v lru_spec list \<Rightarrow> ('v cache_reply list \<times> 'v lru_spec list) option" where
  "spec_script [] S = Some ([], S)"
| "spec_script (call # calls) S =
     (case spec_call call S of None \<Rightarrow> None
      | Some (r, S) \<Rightarrow> (case spec_script calls S of None \<Rightarrow> None | Some (rs, S) \<Rightarrow> Some (r # rs, S)))"

definition spec_shards :: "u64 \<Rightarrow> 'v lru_spec list" where
  "spec_shards capacity = replicate kNumShards (LRU_Spec ((capacity + 15) div 16))"

section \<open>Every call is the specified one\<close>

definition cache_rep :: "nat \<Rightarrow> 'v sharded_cache \<Rightarrow> 'v lru_spec list \<Rightarrow> bool" where
  "cache_rep n c S \<longleftrightarrow> length S = kNumShards \<and> list_all2 (shard_rep n) (sc_shards c) S"

lemma Shard_less: "Shard hash < kNumShards"
proof -
  have "Shard hash = drop_bit 28 (unat hash)" by (simp only: Shard_def unat_drop_bit_eq) (simp add: kNumShardBits_def)
  then have "Shard hash = unat hash div 2 ^ 28" by (simp only: drop_bit_eq_div)
  moreover have "unat hash < 2 ^ LENGTH(32)" by (rule unsigned_less)
  ultimately show ?thesis by (simp add: kNumShards_def kNumShardBits_def)
qed

lemma shard_rep_mono: "shard_rep n c s \<Longrightarrow> n \<le> m \<Longrightarrow> shard_rep m c s"
  by (auto simp: shard_rep_def sp_ok_def)

lemma on_shard_rep:
  assumes c: "cache_rep n c S" and m: "n \<le> m"
    and f: "\<And>s. shard_rep n s (S ! Shard hash) \<Longrightarrow> \<exists>s'. f s = Ret (r, s') \<and> shard_rep m s' t"
  shows "\<exists>c'. on_shard hash f c = Ret (r, c') \<and> cache_rep m c' (S[Shard hash := t])"
proof -
  let ?i = "Shard hash"
  have l: "length S = kNumShards" "length (sc_shards c) = kNumShards" using c by (auto simp: cache_rep_def list_all2_lengthD)
  have nth: "shard_rep n (sc_shards c ! i) (S ! i)" if "i < kNumShards" for i using c that l by (simp add: cache_rep_def list_all2_nthD)
  from f [OF nth [OF Shard_less]] obtain s' where s': "f (sc_shards c ! ?i) = Ret (r, s')" "shard_rep m s' t" by blast
  have "list_all2 (shard_rep m) ((sc_shards c)[?i := s']) (S[?i := t])"
    using s'(2) shard_rep_mono [OF nth m] l by (auto simp: list_all2_conv_all_nth nth_list_update Shard_less)
  then show ?thesis using s'(1) l Shard_less [of hash] by (simp add: on_shard_def cache_rep_def)
qed

lemma cache_call_rep:
  assumes c: "cache_rep n c S" and n: "Suc n < 2 ^ 31" and s: "spec_call call S = Some (r, S')"
  shows "\<exists>c'. sc_call call c = Ret (r, c') \<and> cache_rep (Suc n) c' S'"
proof (cases call)
  case (Call_Insert key v charge)
  let ?h = "HashSlice key"
  let ?r = "sp_insert (key, ?h) v charge (S ! Shard ?h)"
  have "\<exists>c'. on_shard ?h (lc_Insert key ?h v charge) c = Ret (fst ?r, c') \<and> cache_rep (Suc n) c' (S[Shard ?h := snd ?r])"
    by (rule on_shard_rep [OF c]) (use lc_Insert_rep n in auto)
  then show ?thesis using s Call_Insert by (auto simp: sc_Insert_def Let_def split_def)
next
  case (Call_Lookup key)
  let ?h = "HashSlice key"
  let ?r = "sp_lookup (key, ?h) (S ! Shard ?h)"
  have "\<exists>c'. on_shard ?h (lc_Lookup key ?h) c = Ret (fst ?r, c') \<and> cache_rep (Suc n) c' (S[Shard ?h := snd ?r])"
    by (rule on_shard_rep [OF c]) (use lc_Lookup_rep [where n = n] n in auto)
  then show ?thesis using s Call_Lookup by (auto simp: sc_Lookup_def Let_def split_def)
next
  case (Call_Release handle)
  obtain h hash where hd: "handle = (h, hash)" by force
  have h: "h \<in> set (sp_held (S ! Shard hash))" "r = Reply_None" "S' = S[Shard hash := sp_release h (S ! Shard hash)]"
    using s Call_Release hd by (auto split: if_splits)
  have "\<exists>c'. on_shard hash (\<lambda>s. rbind (lc_Release h s) (\<lambda>s. Ret ((), s))) c = Ret ((), c') \<and>
      cache_rep (Suc n) c' (S[Shard hash := sp_release h (S ! Shard hash)])"
  proof (rule on_shard_rep [OF c])
    fix sh assume "shard_rep n sh (S ! Shard hash)"
    from lc_Release_rep [OF this _ h(1)] n obtain c' where "lc_Release h sh = Ret c'" "shard_rep n c' (sp_release h (S ! Shard hash))" by auto
    then show "\<exists>s'. rbind (lc_Release h sh) (\<lambda>s. Ret ((), s)) = Ret ((), s') \<and> shard_rep (Suc n) s' (sp_release h (S ! Shard hash))"
      by (auto intro: shard_rep_mono)
  qed simp
  then show ?thesis using Call_Release hd h(2,3) by (auto simp: sc_Release_def)
next
  case (Call_Erase key)
  let ?h = "HashSlice key"
  have "\<exists>c'. on_shard ?h (\<lambda>s. rbind (lc_Erase key ?h s) (\<lambda>s. Ret ((), s))) c = Ret ((), c') \<and>
      cache_rep (Suc n) c' (S[Shard ?h := sp_erase (key, ?h) (S ! Shard ?h)])"
  proof (rule on_shard_rep [OF c])
    fix sh assume "shard_rep n sh (S ! Shard ?h)"
    from lc_Erase_rep [OF this] n obtain c' where "lc_Erase key ?h sh = Ret c'" "shard_rep n c' (sp_erase (key, ?h) (S ! Shard ?h))" by force
    then show "\<exists>s'. rbind (lc_Erase key ?h sh) (\<lambda>s. Ret ((), s)) = Ret ((), s') \<and> shard_rep (Suc n) s' (sp_erase (key, ?h) (S ! Shard ?h))"
      by (auto intro: shard_rep_mono)
  qed simp
  then show ?thesis using s Call_Erase by (auto simp: sc_Erase_def Let_def)
next
  case (Call_Value handle)
  obtain h hash where hd: "handle = (h, hash)" by force
  let ?i = "Shard hash"
  have h: "h \<in> set (sp_held (S ! ?i))" "r = Reply_Value (se_value (sp_entries (S ! ?i) ! h))" "S' = S"
    using s Call_Value hd by (auto simp: Let_def split: if_splits)
  have l: "length (sc_shards c) = kNumShards" using c by (auto simp: cache_rep_def list_all2_lengthD)
  then have "shard_rep n (sc_shards c ! ?i) (S ! ?i)" using c Shard_less by (simp add: cache_rep_def list_all2_nthD)
  then have "lc_heap (sc_shards c ! ?i) = heap_of (S ! ?i)" by (auto simp: shard_rep_def)
  moreover have "h \<in> sp_live (S ! ?i)" using h(1) by (simp add: sp_live_def)
  moreover have "cache_rep (Suc n) c S" using c by (auto simp: cache_rep_def intro: shard_rep_mono elim!: list_all2_mono)
  ultimately show ?thesis using Call_Value hd h(2,3) l Shard_less [of hash] by (simp add: sc_Value_def heap_of_def entry_handle_def)
qed

lemma sc_script_rep:
  "cache_rep n c S \<Longrightarrow> n + length calls < 2 ^ 31 \<Longrightarrow> spec_script calls S = Some (rs, S') \<Longrightarrow>
     \<exists>c'. sc_script calls c = Ret (rs, c') \<and> cache_rep (n + length calls) c' S'"
proof (induction calls arbitrary: n c S rs)
  case (Cons call calls)
  from Cons.prems(3) obtain r S1 rs1 where s: "spec_call call S = Some (r, S1)" "spec_script calls S1 = Some (rs1, S')" "rs = r # rs1"
    by (auto split: option.splits prod.splits)
  from cache_call_rep [OF Cons.prems(1) _ s(1)] Cons.prems(2) obtain c1 where c1: "sc_call call c = Ret (r, c1)" "cache_rep (Suc n) c1 S1" by auto
  from Cons.IH [OF c1(2) _ s(2)] Cons.prems(2) c1(1) s(3) show ?case by auto
qed simp

lemma ShardedLRUCache_rep: "\<exists>c :: 'v sharded_cache. ShardedLRUCache capacity = Ret c \<and> sc_last_id c = 0 \<and> cache_rep 0 c (spec_shards capacity)"
proof -
  have p: "(capacity + (of_nat kNumShards - 1)) div of_nat kNumShards = (capacity + 15) div 16" by (simp add: kNumShards_def kNumShardBits_def)
  from LRUCache_rep [of 0 "(capacity + 15) div 16"] obtain c :: "'v lru_cache" where c: "LRUCache = Ret c"
    "shard_rep 0 (SetCapacity ((capacity + 15) div 16) c) (LRU_Spec ((capacity + 15) div 16))" by blast
  let ?c = "\<lparr>sc_shards = replicate kNumShards (SetCapacity ((capacity + 15) div 16) c), sc_last_id = 0\<rparr>"
  have "ShardedLRUCache capacity = Ret ?c" unfolding ShardedLRUCache_def Let_def p by (simp add: c(1))
  moreover have "cache_rep 0 ?c (spec_shards capacity)" using c(2) by (simp add: cache_rep_def spec_shards_def list_all2_conv_all_nth)
  ultimately show ?thesis by auto
qed


section \<open>What a client inserts is deleted once\<close>

fun inserted :: "'v cache_call list \<Rightarrow> (slice \<times> 'v) list" where
  "inserted [] = []"
| "inserted (Call_Insert key v charge # calls) = (key, v) # inserted calls"
| "inserted (call # calls) = inserted calls"

definition made :: "'v lru_spec list \<Rightarrow> (slice \<times> 'v) multiset" where
  "made S = (\<Sum>s \<leftarrow> S. mset (map deletion (sp_entries s)))"

lemma made_update:
  assumes "i < length S" "mset (map deletion (sp_entries s)) = M + mset (map deletion (sp_entries (S ! i)))"
  shows "made (S[i := s]) = M + made S"
proof -
  have "made (S[i := s]) = made (take i S) + mset (map deletion (sp_entries s)) + made (drop (Suc i) S)"
    using assms(1) by (simp add: made_def upd_conv_take_nth_drop)
  moreover have "made (take i S @ S ! i # drop (Suc i) S) = made (take i S) + mset (map deletion (sp_entries (S ! i))) + made (drop (Suc i) S)"
    by (simp add: made_def)
  then have "made S = made (take i S) + mset (map deletion (sp_entries (S ! i))) + made (drop (Suc i) S)"
    by (simp only: id_take_nth_drop [OF assms(1), symmetric])
  ultimately show ?thesis by (simp only: assms(2) ac_simps)
qed

lemma spec_call_made:
  assumes "length S = kNumShards" "list_all accounted S" "spec_call call S = Some (r, S')"
  shows "length S' = kNumShards \<and> list_all accounted S' \<and> made S' = mset (inserted [call]) + made S"
proof -
  have acc: "accounted (S ! Shard hash)" for hash using assms(1,2) Shard_less by (simp add: list_all_length)
  have up: "list_all accounted (S[i := s])" if "accounted s" for i s
    using assms(2) that set_update_subset_insert [of S i s] by (auto simp: list_all_iff)
  have m: "made (S[Shard hash := s]) = M + made S" if "mset (map deletion (sp_entries s)) = M + mset (map deletion (sp_entries (S ! Shard hash)))" for hash s M
    using made_update [OF _ that] assms(1) Shard_less by simp
  show ?thesis
  proof (cases call)
    case (Call_Insert key v charge)
    let ?k = "(key, HashSlice key)" let ?s = "S ! Shard (HashSlice key)"
    have "sp_entries (snd (sp_insert ?k v charge ?s)) = sp_entries ?s @ [\<lparr>se_key = ?k, se_value = v, se_charge = charge\<rparr>]"
      by (auto simp: sp_insert_def Let_def sp_add_def sp_uncache_def split: option.splits)
    then show ?thesis using assms(1,3) Call_Insert up [OF accounted_insert [OF acc]] by (auto simp: Let_def split_def m)
  next
    case (Call_Lookup key)
    have "sp_entries (snd (sp_lookup k s)) = sp_entries s" for k and s :: "'a lru_spec" by (auto simp: sp_lookup_def split: option.splits)
    then show ?thesis using assms(1,3) Call_Lookup up [OF accounted_lookup [OF acc]] m [where M = "{#}"] by (auto simp: Let_def split_def)
  next
    case (Call_Release handle)
    obtain h hash where "handle = (h, hash)" by force
    moreover have "sp_entries (sp_release h s) = sp_entries s" for s :: "'a lru_spec" by (simp add: sp_release_def)
    ultimately show ?thesis using assms(1,3) Call_Release up [OF accounted_release [OF acc]] m [where M = "{#}"] by (auto split: if_splits)
  next
    case (Call_Erase key)
    have "sp_entries (sp_erase k s) = sp_entries s" for k and s :: "'a lru_spec" by (auto simp: sp_erase_def sp_uncache_def split: option.splits)
    then show ?thesis using assms(1,3) Call_Erase up [OF accounted_erase [OF acc]] m [where M = "{#}"] by (auto simp: Let_def)
  next
    case (Call_Value handle)
    then show ?thesis using assms by (cases handle) (auto simp: Let_def split: if_splits)
  qed
qed

lemma spec_script_made:
  "length S = kNumShards \<Longrightarrow> list_all accounted S \<Longrightarrow> spec_script calls S = Some (rs, S') \<Longrightarrow>
     length S' = kNumShards \<and> list_all accounted S' \<and> made S' = mset (inserted calls) + made S"
proof (induction calls arbitrary: S rs)
  case (Cons call calls)
  from Cons.prems(3) obtain r S1 rs1 where s: "spec_call call S = Some (r, S1)" "spec_script calls S1 = Some (rs1, S')"
    by (auto split: option.splits prod.splits)
  have i: "inserted (call # calls) = inserted [call] @ inserted calls" by (cases call) simp_all
  from spec_call_made [OF Cons.prems(1,2) s(1)] Cons.IH [OF _ _ s(2)] show ?case by (simp only: i) simp
qed simp

lemma made_spec_shards: "made (spec_shards capacity) = {#}" "list_all accounted (spec_shards capacity)" "length (spec_shards capacity) = kNumShards"
proof -
  have "made (replicate n (LRU_Spec u)) = {#}" for n u by (induction n) (simp_all add: made_def LRU_Spec_def)
  then show "made (spec_shards capacity) = {#}" by (simp add: spec_shards_def)
qed (simp_all add: spec_shards_def LRU_Spec_def accounted_def sp_live_def list_all_iff)

lemma destroy_shards_rep:
  "list_all2 (shard_rep n) L S \<Longrightarrow> n < 2 ^ 31 \<Longrightarrow> list_all (\<lambda>s. sp_held s = []) S \<Longrightarrow> list_all accounted S \<Longrightarrow>
     \<exists>L'. destroy_shards L = Ret L' \<and> list_all (\<lambda>c. lc_heap c = Map.empty) L' \<and> mset (concat (map lc_deleted L')) = made S"
proof (induction rule: list_all2_induct)
  case (Cons c L s S)
  then obtain L' where L': "destroy_shards L = Ret L'" "list_all (\<lambda>c. lc_heap c = Map.empty) L'" "mset (concat (map lc_deleted L')) = made S" by auto
  from lc_destroy_rep [OF Cons.hyps(1)] Cons.prems obtain c' where c': "lc_destroy c = Ret c'" "lc_heap c' = Map.empty" "lc_deleted c' = sp_deleted (sp_destroy s)"
    by auto
  then show ?case using L' accounted_destroy [of s] Cons.prems by (simp add: made_def)
qed (simp add: made_def)

section \<open>The properties\<close>

lemma cache_script_at:
  assumes "spec_script (calls :: 'v cache_call list) (spec_shards capacity) = Some (replies, S)" "length calls < 2 ^ 31"
  shows "\<exists>c. rbind (ShardedLRUCache capacity) (sc_script calls) = Ret (replies, c) \<and> list_all2 (shard_rep (length calls)) (sc_shards c) S"
proof -
  from ShardedLRUCache_rep [of capacity] obtain b :: "'v sharded_cache" where b: "ShardedLRUCache capacity = Ret b" "cache_rep 0 b (spec_shards capacity)"
    by auto
  from sc_script_rep [OF b(2) _ assms(1)] assms(2) b(1) show ?thesis by (auto simp: cache_rep_def)
qed

text \<open>C19: The sharded LRU cache answers every script of a client that releases only what it holds as its specification
  does: sixteen lists of entries in the order of their last use, from which the oldest entries go as long as the entries in
  use charge more than the capacity. No read goes through a freed entry, no count wraps, and the deleters have
  run for just the entries that are neither in the cache nor held.\<close>

theorem cache_refines:
  assumes "spec_script calls (spec_shards capacity) = Some (replies, S)" "length calls < 2 ^ 31"
  shows "\<exists>c. rbind (ShardedLRUCache capacity) (sc_script calls) = Ret (replies, c) \<and>
    map lc_lru (sc_shards c) = map sp_lru S \<and> map lc_usage (sc_shards c) = map sp_usage S \<and>
    map lc_deleted (sc_shards c) = map sp_deleted S"
proof -
  from cache_script_at [OF assms] obtain c where c: "rbind (ShardedLRUCache capacity) (sc_script calls) = Ret (replies, c)"
    "list_all2 (shard_rep (length calls)) (sc_shards c) S" by blast
  from c(2) have "map lc_lru (sc_shards c) = map sp_lru S \<and> map lc_usage (sc_shards c) = map sp_usage S \<and> map lc_deleted (sc_shards c) = map sp_deleted S"
    by (induction rule: list_all2_induct) (auto simp: shard_rep_def)
  then show ?thesis using c(1) by blast
qed

text \<open>Two entries for one key, of which the first is replaced while it is held; and an entry that is larger than its shard, which
  is not kept, but stays with its client.\<close>

definition example_calls :: "slice cache_call list" where
  "example_calls =
     [Call_Insert [1] [10] 1, Call_Insert [1] [20] 1, Call_Lookup [1], Call_Insert [2] [30] 5, Call_Lookup [2],
      Call_Value (0, 1286456752), Call_Value (0, 324169116), Call_Release (0, 1286456752), Call_Release (1, 1286456752),
      Call_Release (1, 1286456752), Call_Release (0, 324169116)]"

definition example_replies :: "slice cache_reply list" where
  "example_replies =
     [Reply_Handle (0, 1286456752), Reply_Handle (1, 1286456752), Reply_Found (Some (1, 1286456752)), Reply_Handle (0, 324169116),
      Reply_Found None, Reply_Value [10], Reply_Value [30], Reply_None, Reply_None, Reply_None, Reply_None]"

lemma example_spec:
  obtains S where "spec_script example_calls (spec_shards 32) = Some (example_replies, S)"
    "concat (map sp_deleted S) = [([2], [30]), ([1], [10])]" "list_all (\<lambda>s. sp_held s = []) S"
proof -
  have "case spec_script example_calls (spec_shards 32) of None \<Rightarrow> False
     | Some (r, S) \<Rightarrow> r = example_replies \<and> concat (map sp_deleted S) = [([2], [30]), ([1], [10])] \<and> list_all (\<lambda>s. sp_held s = []) S"
    by code_simp
  then show thesis using that by (auto split: option.splits prod.splits)
qed

lemma cache_refines_witness:
  "\<exists>c. rbind (ShardedLRUCache 32) (sc_script example_calls) = Ret (example_replies, c) \<and>
     concat (map lc_deleted (sc_shards c)) = [([2], [30]), ([1], [10])]"
proof -
  obtain S where S: "spec_script example_calls (spec_shards 32) = Some (example_replies, S)"
    "concat (map sp_deleted S) = [([2], [30]), ([1], [10])]" by (rule example_spec)
  have "length example_calls < 2 ^ 31" by (simp add: example_calls_def)
  from cache_refines [OF S(1) this] S(2) show ?thesis by auto
qed

text \<open>C20: A client that gives back every handle leaks nothing: when the cache is then destroyed, no assertion fails,
  each entry that was inserted has been deleted, with its key and value, exactly once, and no memory of an entry is
  left.\<close>

theorem cache_no_leak:
  assumes "spec_script calls (spec_shards capacity) = Some (replies, S)" "length calls < 2 ^ 31"
    and "list_all (\<lambda>s. sp_held s = []) S"
  shows "\<exists>c L. rbind (ShardedLRUCache capacity) (sc_script calls) = Ret (replies, c) \<and> sc_destroy c = Ret L \<and>
    list_all (\<lambda>c. lc_heap c = Map.empty) L \<and> mset (concat (map lc_deleted L)) = mset (inserted calls)"
proof -
  from cache_script_at [OF assms(1,2)] obtain c where c: "rbind (ShardedLRUCache capacity) (sc_script calls) = Ret (replies, c)"
    "list_all2 (shard_rep (length calls)) (sc_shards c) S" by blast
  have m: "list_all accounted S" "made S = mset (inserted calls)"
    using spec_script_made [OF made_spec_shards(3,2) assms(1)] by (simp_all add: made_spec_shards)
  from destroy_shards_rep [of "length calls" "sc_shards c" S] c(2) assms(2,3) m(1) obtain L where
    "destroy_shards (sc_shards c) = Ret L" "list_all (\<lambda>c. lc_heap c = Map.empty) L" "mset (concat (map lc_deleted L)) = made S"
    by auto
  then show ?thesis using c(1) m(2) by (auto simp: sc_destroy_def)
qed


lemma cache_no_leak_witness:
  "\<exists>c L. rbind (ShardedLRUCache 32) (sc_script example_calls) = Ret (example_replies, c) \<and> sc_destroy c = Ret L \<and>
     mset (concat (map lc_deleted L)) = {#([1], [10]), ([1], [20]), ([2], [30])#}"
proof -
  obtain S where S: "spec_script example_calls (spec_shards 32) = Some (example_replies, S)" "list_all (\<lambda>s. sp_held s = []) S"
    by (rule example_spec)
  have "length example_calls < 2 ^ 31" "inserted example_calls = [([1], [10]), ([1], [20]), ([2], [30])]" by (simp_all add: example_calls_def)
  with cache_no_leak [OF S(1) this(1) S(2)] show ?thesis by auto
qed

end
