(* ===== verification/Ldb_Two_Level.thy ===== *)
theory Ldb_Two_Level
  imports Ldb_Merge_Iter
begin

text \<open>
  leveldb, \<open>table/two_level_iterator.cc\<close>: the iterator over the blocks that an index names. The block function
  makes the iterator of a block from the value of its index entry; what it reads and changes is a state of its
  own, \<open>tl_env\<close>. The operations of a block's iterator read this state too (the block may be one of a cache, which
  must not have freed it), and destroying the iterator, which happens when another one takes its place, runs
  its cleanup on that state. The loops that skip empty blocks have fuel, an argument: two turns more than there are index
  entries are enough. The iterator keeps the contract of iterators on the concatenated blocks.
\<close>

section \<open>The iterator\<close>

record ('i, 'd, 'e) two_level =
  tl_env :: 'e
  tl_status :: status
  tl_index :: "'i wrapper"
  tl_data :: "'d wrapper"
  tl_handle :: slice

definition TwoLevelIterator :: "'i iter_ops \<Rightarrow> 'e \<Rightarrow> 'i \<Rightarrow> ('i, 'd, 'e) two_level run" where
  "TwoLevelIterator iops env index_iter =
     rbind (iw_Set iops (Some index_iter) IteratorWrapper) (\<lambda>w.
       Ret \<lparr>tl_env = env, tl_status = Status_OK, tl_index = w, tl_data = IteratorWrapper, tl_handle = []\<rparr>)"

definition tl_Valid :: "('i, 'd, 'e) two_level \<Rightarrow> bool" where
  "tl_Valid t = iw_Valid (tl_data t)"

definition tl_key :: "('i, 'd, 'e) two_level \<Rightarrow> slice run" where
  "tl_key t = (if \<not> tl_Valid t then UB else iw_key (tl_data t))"

definition tl_value :: "('e \<Rightarrow> 'd iter_ops) \<Rightarrow> ('i, 'd, 'e) two_level \<Rightarrow> slice run" where
  "tl_value dops t = (if \<not> tl_Valid t then UB else iw_value (dops (tl_env t)) (tl_data t))"

definition tl_status_of :: "'i iter_ops \<Rightarrow> ('e \<Rightarrow> 'd iter_ops) \<Rightarrow> ('i, 'd, 'e) two_level \<Rightarrow> status run" where
  "tl_status_of iops dops t =
     rbind (iw_status iops (tl_index t)) (\<lambda>s.
       if \<not> status_ok s then Ret s
       else if iw_iter (tl_data t) \<noteq> None then
         rbind (iw_status (dops (tl_env t)) (tl_data t)) (\<lambda>s. if \<not> status_ok s then Ret s else Ret (tl_status t))
       else Ret (tl_status t))"

definition SaveError :: "status \<Rightarrow> ('i, 'd, 'e) two_level \<Rightarrow> ('i, 'd, 'e) two_level" where
  "SaveError s t = (if status_ok (tl_status t) \<and> \<not> status_ok s then t\<lparr>tl_status := s\<rparr> else t)"

text \<open>Giving the wrapper another iterator deletes the one it has: \<open>destroy\<close> is what the cleanup of that does.\<close>

definition SetDataIterator ::
  "('e \<Rightarrow> 'd iter_ops) \<Rightarrow> ('d \<Rightarrow> 'e \<Rightarrow> 'e run) \<Rightarrow> 'd option \<Rightarrow> ('i, 'd, 'e) two_level \<Rightarrow> ('i, 'd, 'e) two_level run" where
  "SetDataIterator dops destroy data_iter t =
     rbind (if iw_iter (tl_data t) \<noteq> None
            then rbind (iw_status (dops (tl_env t)) (tl_data t)) (\<lambda>s. Ret (SaveError s t)) else Ret t) (\<lambda>t.
       rbind (case iw_iter (tl_data t) of None \<Rightarrow> Ret (tl_env t) | Some old \<Rightarrow> destroy old (tl_env t)) (\<lambda>env.
         rbind (iw_Set (dops env) data_iter (tl_data t)) (\<lambda>w. Ret (t\<lparr>tl_env := env, tl_data := w\<rparr>))))"

definition InitDataBlock ::
  "'i iter_ops \<Rightarrow> ('e \<Rightarrow> 'd iter_ops) \<Rightarrow> ('d \<Rightarrow> 'e \<Rightarrow> 'e run) \<Rightarrow> (slice \<Rightarrow> 'e \<Rightarrow> ('d \<times> 'e) run) \<Rightarrow>
     ('i, 'd, 'e) two_level \<Rightarrow> ('i, 'd, 'e) two_level run" where
  "InitDataBlock iops dops destroy block_function t =
     (if \<not> iw_Valid (tl_index t) then SetDataIterator dops destroy None t
      else
        rbind (iw_value iops (tl_index t)) (\<lambda>handle.
          if iw_iter (tl_data t) \<noteq> None \<and> slice_compare handle (tl_handle t) = 0 then Ret t
          else
            rbind (block_function handle (tl_env t)) (\<lambda>(iter, env).
              SetDataIterator dops destroy (Some iter) (t\<lparr>tl_env := env, tl_handle := handle\<rparr>))))"

text \<open>Moves the iterator over the data, when there is one.\<close>

definition move_data ::
  "('e \<Rightarrow> 'd iter_ops) \<Rightarrow> ('d iter_ops \<Rightarrow> 'd wrapper \<Rightarrow> 'd wrapper run) \<Rightarrow> ('i, 'd, 'e) two_level \<Rightarrow> ('i, 'd, 'e) two_level run" where
  "move_data dops f t =
     (if iw_iter (tl_data t) \<noteq> None then rbind (f (dops (tl_env t)) (tl_data t)) (\<lambda>w. Ret (t\<lparr>tl_data := w\<rparr>)) else Ret t)"

definition move_index :: "('i wrapper \<Rightarrow> 'i wrapper run) \<Rightarrow> ('i, 'd, 'e) two_level \<Rightarrow> ('i, 'd, 'e) two_level run" where
  "move_index f t = rbind (f (tl_index t)) (\<lambda>w. Ret (t\<lparr>tl_index := w\<rparr>))"

fun skip_forward ::
  "nat \<Rightarrow> 'i iter_ops \<Rightarrow> ('e \<Rightarrow> 'd iter_ops) \<Rightarrow> ('d \<Rightarrow> 'e \<Rightarrow> 'e run) \<Rightarrow> (slice \<Rightarrow> 'e \<Rightarrow> ('d \<times> 'e) run) \<Rightarrow>
     ('i, 'd, 'e) two_level \<Rightarrow> ('i, 'd, 'e) two_level run" where
  "skip_forward 0 iops dops destroy block_function t = Fuel_Out"
| "skip_forward (Suc fuel) iops dops destroy block_function t =
     (if iw_iter (tl_data t) = None \<or> \<not> iw_Valid (tl_data t) then
        if \<not> iw_Valid (tl_index t) then SetDataIterator dops destroy None t
        else
          rbind (move_index (iw_Next iops) t) (\<lambda>t.
            rbind (InitDataBlock iops dops destroy block_function t) (\<lambda>t.
              rbind (move_data dops iw_SeekToFirst t) (skip_forward fuel iops dops destroy block_function)))
      else Ret t)"

fun skip_backward ::
  "nat \<Rightarrow> 'i iter_ops \<Rightarrow> ('e \<Rightarrow> 'd iter_ops) \<Rightarrow> ('d \<Rightarrow> 'e \<Rightarrow> 'e run) \<Rightarrow> (slice \<Rightarrow> 'e \<Rightarrow> ('d \<times> 'e) run) \<Rightarrow>
     ('i, 'd, 'e) two_level \<Rightarrow> ('i, 'd, 'e) two_level run" where
  "skip_backward 0 iops dops destroy block_function t = Fuel_Out"
| "skip_backward (Suc fuel) iops dops destroy block_function t =
     (if iw_iter (tl_data t) = None \<or> \<not> iw_Valid (tl_data t) then
        if \<not> iw_Valid (tl_index t) then SetDataIterator dops destroy None t
        else
          rbind (move_index (iw_Prev iops) t) (\<lambda>t.
            rbind (InitDataBlock iops dops destroy block_function t) (\<lambda>t.
              rbind (move_data dops iw_SeekToLast t) (skip_backward fuel iops dops destroy block_function)))
      else Ret t)"

definition tl_Seek ::
  "nat \<Rightarrow> 'i iter_ops \<Rightarrow> ('e \<Rightarrow> 'd iter_ops) \<Rightarrow> ('d \<Rightarrow> 'e \<Rightarrow> 'e run) \<Rightarrow> (slice \<Rightarrow> 'e \<Rightarrow> ('d \<times> 'e) run) \<Rightarrow> slice \<Rightarrow>
     ('i, 'd, 'e) two_level \<Rightarrow> ('i, 'd, 'e) two_level run" where
  "tl_Seek fuel iops dops destroy block_function target t =
     rbind (move_index (iw_Seek iops target) t) (\<lambda>t.
       rbind (InitDataBlock iops dops destroy block_function t) (\<lambda>t.
         rbind (move_data dops (\<lambda>ops. iw_Seek ops target) t) (skip_forward fuel iops dops destroy block_function)))"

definition tl_SeekToFirst ::
  "nat \<Rightarrow> 'i iter_ops \<Rightarrow> ('e \<Rightarrow> 'd iter_ops) \<Rightarrow> ('d \<Rightarrow> 'e \<Rightarrow> 'e run) \<Rightarrow> (slice \<Rightarrow> 'e \<Rightarrow> ('d \<times> 'e) run) \<Rightarrow>
     ('i, 'd, 'e) two_level \<Rightarrow> ('i, 'd, 'e) two_level run" where
  "tl_SeekToFirst fuel iops dops destroy block_function t =
     rbind (move_index (iw_SeekToFirst iops) t) (\<lambda>t.
       rbind (InitDataBlock iops dops destroy block_function t) (\<lambda>t.
         rbind (move_data dops iw_SeekToFirst t) (skip_forward fuel iops dops destroy block_function)))"

definition tl_SeekToLast ::
  "nat \<Rightarrow> 'i iter_ops \<Rightarrow> ('e \<Rightarrow> 'd iter_ops) \<Rightarrow> ('d \<Rightarrow> 'e \<Rightarrow> 'e run) \<Rightarrow> (slice \<Rightarrow> 'e \<Rightarrow> ('d \<times> 'e) run) \<Rightarrow>
     ('i, 'd, 'e) two_level \<Rightarrow> ('i, 'd, 'e) two_level run" where
  "tl_SeekToLast fuel iops dops destroy block_function t =
     rbind (move_index (iw_SeekToLast iops) t) (\<lambda>t.
       rbind (InitDataBlock iops dops destroy block_function t) (\<lambda>t.
         rbind (move_data dops iw_SeekToLast t) (skip_backward fuel iops dops destroy block_function)))"

definition tl_Next ::
  "nat \<Rightarrow> 'i iter_ops \<Rightarrow> ('e \<Rightarrow> 'd iter_ops) \<Rightarrow> ('d \<Rightarrow> 'e \<Rightarrow> 'e run) \<Rightarrow> (slice \<Rightarrow> 'e \<Rightarrow> ('d \<times> 'e) run) \<Rightarrow>
     ('i, 'd, 'e) two_level \<Rightarrow> ('i, 'd, 'e) two_level run" where
  "tl_Next fuel iops dops destroy block_function t =
     (if \<not> tl_Valid t then UB
      else rbind (iw_Next (dops (tl_env t)) (tl_data t)) (\<lambda>w.
        skip_forward fuel iops dops destroy block_function (t\<lparr>tl_data := w\<rparr>)))"

definition tl_Prev ::
  "nat \<Rightarrow> 'i iter_ops \<Rightarrow> ('e \<Rightarrow> 'd iter_ops) \<Rightarrow> ('d \<Rightarrow> 'e \<Rightarrow> 'e run) \<Rightarrow> (slice \<Rightarrow> 'e \<Rightarrow> ('d \<times> 'e) run) \<Rightarrow>
     ('i, 'd, 'e) two_level \<Rightarrow> ('i, 'd, 'e) two_level run" where
  "tl_Prev fuel iops dops destroy block_function t =
     (if \<not> tl_Valid t then UB
      else rbind (iw_Prev (dops (tl_env t)) (tl_data t)) (\<lambda>w.
        skip_backward fuel iops dops destroy block_function (t\<lparr>tl_data := w\<rparr>)))"

text \<open>The destructor: the wrapper of the data deletes its iterator; the one of the index has no cleanup.\<close>

definition tl_destroy :: "('d \<Rightarrow> 'e \<Rightarrow> 'e run) \<Rightarrow> ('i, 'd, 'e) two_level \<Rightarrow> 'e run" where
  "tl_destroy destroy t = (case iw_iter (tl_data t) of None \<Rightarrow> Ret (tl_env t) | Some d \<Rightarrow> destroy d (tl_env t))"

definition two_level_ops ::
  "nat \<Rightarrow> 'i iter_ops \<Rightarrow> ('e \<Rightarrow> 'd iter_ops) \<Rightarrow> ('d \<Rightarrow> 'e \<Rightarrow> 'e run) \<Rightarrow> (slice \<Rightarrow> 'e \<Rightarrow> ('d \<times> 'e) run) \<Rightarrow>
     ('i, 'd, 'e) two_level iter_ops" where
  "two_level_ops fuel iops dops destroy block_function =
     \<lparr>io_Valid = tl_Valid, io_SeekToFirst = tl_SeekToFirst fuel iops dops destroy block_function,
      io_SeekToLast = tl_SeekToLast fuel iops dops destroy block_function, io_Seek = tl_Seek fuel iops dops destroy block_function,
      io_Next = tl_Next fuel iops dops destroy block_function, io_Prev = tl_Prev fuel iops dops destroy block_function,
      io_key = tl_key, io_value = tl_value dops, io_status = tl_status_of iops dops\<rparr>"

section \<open>Blocks under an index\<close>

text \<open>
  The entries of the index are the separators: no key of a block is after its entry, and every key of a later block
  is. The client says what the block of an index value holds and which values the block function knows.
\<close>

text \<open>
  An iterator over a block owns a token, which stands for what its cleanup gives back. \<open>held xs e\<close> says that the
  iterators with the tokens \<open>xs\<close> are alive in the state \<open>e\<close>; making an iterator adds its token, when there are fewer than
  \<open>most\<close>, and destroying it takes its token away; neither hurts the iterators with the other tokens.
\<close>

locale two_level =
  index: iterator_contract valid compare iops icursor
  for valid :: "slice \<Rightarrow> bool" and compare :: "slice \<Rightarrow> slice \<Rightarrow> int"
    and iops :: "'i iter_ops" and icursor :: "'i \<Rightarrow> pair list \<Rightarrow> nat \<Rightarrow> bool" +
  fixes dops :: "'e \<Rightarrow> 'd iter_ops" and dcursor :: "'x \<Rightarrow> 'e \<Rightarrow> 'd \<Rightarrow> pair list \<Rightarrow> nat \<Rightarrow> bool"
    and destroy :: "'d \<Rightarrow> 'e \<Rightarrow> 'e run" and block_function :: "slice \<Rightarrow> 'e \<Rightarrow> ('d \<times> 'e) run"
    and held :: "'x list \<Rightarrow> 'e \<Rightarrow> bool" and most :: nat and known :: "slice \<Rightarrow> bool" and block :: "slice \<Rightarrow> pair list"
  assumes data_contract: "iterator_contract valid compare (dops e) (dcursor x e)"
    and block_function_at: "held xs e \<Longrightarrow> length xs < most \<Longrightarrow> known h \<Longrightarrow>
      \<exists>d e' x q. block_function h e = Ret (d, e') \<and> held (x # xs) e' \<and> dcursor x e' d (block h) q \<and>
        (\<forall>y \<in> set xs. \<forall>d L q. dcursor y e d L q \<longrightarrow> dcursor y e' d L q)"
    and destroy_at: "held xs e \<Longrightarrow> x \<in> set xs \<Longrightarrow> dcursor x e d L q \<Longrightarrow>
      \<exists>e'. destroy d e = Ret e' \<and> held (remove1 x xs) e' \<and>
        (\<forall>y \<in> set (remove1 x xs). \<forall>d L q. dcursor y e d L q \<longrightarrow> dcursor y e' d L q)"

sublocale two_level \<subseteq> iw: iterator_contract valid compare "wrapper_ops iops" "wrapped icursor"
  by (rule index.wrapper_contract)

definition separates :: "(slice \<Rightarrow> slice \<Rightarrow> int) \<Rightarrow> pair list \<Rightarrow> pair list list \<Rightarrow> bool" where
  "separates compare idx Ls \<longleftrightarrow> length Ls = length idx \<and>
     (\<forall>j < length idx. (\<forall>x \<in> set (Ls ! j). compare (fst x) (fst (idx ! j)) \<le> 0) \<and>
        (\<forall>j'. j < j' \<longrightarrow> j' < length idx \<longrightarrow> (\<forall>x \<in> set (Ls ! j'). compare (fst (idx ! j)) (fst x) < 0)))"

definition base :: "'a list list \<Rightarrow> nat \<Rightarrow> nat" where
  "base Ls j = length (concat (take j Ls))"

lemma base_Suc: "j < length Ls \<Longrightarrow> base Ls (Suc j) = base Ls j + length (Ls ! j)"
  by (simp add: base_def take_Suc_conv_app_nth)

lemma base_all: "length Ls \<le> j \<Longrightarrow> base Ls j = length (concat Ls)"
  by (simp add: base_def)

lemma base_0 [simp]: "base Ls 0 = 0"
  by (simp add: base_def)

lemma base_nth:
  assumes "j < length Ls" "q < length (Ls ! j)"
  shows "base Ls j + q < length (concat Ls)" "concat Ls ! (base Ls j + q) = Ls ! j ! q"
proof -
  have "concat Ls = concat (take j Ls) @ Ls ! j @ concat (drop (Suc j) Ls)"
    using assms(1) by (metis append_take_drop_id concat.simps(2) concat_append Cons_nth_drop_Suc)
  then show "base Ls j + q < length (concat Ls)" "concat Ls ! (base Ls j + q) = Ls ! j ! q"
    using assms(2) by (simp_all add: base_def nth_append)
qed

lemma in_concat_take: "x \<in> set (concat (take j Ls)) \<Longrightarrow> \<exists>i < j. i < length Ls \<and> x \<in> set (Ls ! i)"
proof -
  assume "x \<in> set (concat (take j Ls))"
  then obtain L where "L \<in> set (take j Ls)" "x \<in> set L" by auto
  moreover from this(1) obtain i where "i < length (take j Ls)" "take j Ls ! i = L" by (auto simp: in_set_conv_nth)
  ultimately show ?thesis by (intro exI [of _ i]) auto
qed

lemma in_concat_drop: "x \<in> set (concat (drop j Ls)) \<Longrightarrow> \<exists>i \<ge> j. i < length Ls \<and> x \<in> set (Ls ! i)"
proof -
  assume "x \<in> set (concat (drop j Ls))"
  then obtain L where "L \<in> set (drop j Ls)" "x \<in> set L" by auto
  moreover from this(1) obtain i where "i < length (drop j Ls)" "drop j Ls ! i = L" by (auto simp: in_set_conv_nth)
  ultimately show ?thesis by (intro exI [of _ "j + i"]) auto
qed

text \<open>Where \<open>Seek\<close> lands in the concatenation.\<close>

context slice_order begin

lemma seek_concat:
  assumes "separates compare idx Ls" "sorted_pairs valid compare idx" "\<forall>x \<in> set (concat Ls). valid (fst x)" "valid target"
  defines "j \<equiv> first_at compare target idx"
  shows "first_at compare target (concat Ls) = (if j < length idx then base Ls j + first_at compare target (Ls ! j) else length (concat Ls))"
proof -
  have len: "length Ls = length idx" using assms(1) by (simp add: separates_def)
  have sep: "i < length idx \<Longrightarrow> x \<in> set (Ls ! i) \<Longrightarrow> compare (fst x) (fst (idx ! i)) \<le> 0"
    "i < i' \<Longrightarrow> i' < length idx \<Longrightarrow> x \<in> set (Ls ! i') \<Longrightarrow> compare (fst (idx ! i)) (fst x) < 0" for i i' x
    using assms(1) by (auto simp: separates_def)
  have vi: "i < length idx \<Longrightarrow> valid (fst (idx ! i))" for i using assms(2) by (simp add: sorted_pairs_def)
  have vx: "i < length idx \<Longrightarrow> x \<in> set (Ls ! i) \<Longrightarrow> valid (fst x)" for i x using assms(3) len by auto
  have jl: "j \<le> length idx" by (simp add: j_def first_at_def length_takeWhile_le)
  have less: "compare (fst (idx ! i)) target < 0" if "i < j" for i
  proof -
    have "takeWhile (\<lambda>x. compare (fst x) target < 0) idx ! i \<in> set (takeWhile (\<lambda>x. compare (fst x) target < 0) idx)"
      using that by (intro nth_mem) (simp add: j_def first_at_def)
    then show ?thesis using that takeWhile_nth [of i "\<lambda>x. compare (fst x) target < 0" idx]
      by (auto simp: j_def first_at_def dest: set_takeWhileD)
  qed
  have before: "\<forall>x \<in> set (concat (take j Ls)). compare (fst x) target < 0"
  proof
    fix x
    assume "x \<in> set (concat (take j Ls))"
    then obtain i where i: "i < j" "x \<in> set (Ls ! i)" using in_concat_take [of x j Ls] by blast
    then have "i < length idx" using jl by simp
    from compare_le_less [OF vx [OF this i(2)] vi [OF this] assms(4) sep(1) [OF this i(2)] less [OF i(1)]]
    show "compare (fst x) target < 0" .
  qed
  show ?thesis
  proof (cases "j < length idx")
    case True
    have "\<not> compare (fst (idx ! j)) target < 0"
      using True nth_length_takeWhile [of "\<lambda>x. compare (fst x) target < 0" idx] by (simp add: j_def first_at_def)
    then have tj: "compare target (fst (idx ! j)) \<le> 0" using compare_not_less [OF vi [OF True] assms(4)] by simp
    have after: "\<forall>x \<in> set (concat (drop (Suc j) Ls)). \<not> compare (fst x) target < 0"
    proof
      fix x
      assume "x \<in> set (concat (drop (Suc j) Ls))"
      from in_concat_drop [OF this] obtain i where i: "j < i" "i < length idx" "x \<in> set (Ls ! i)"
        using len by (auto simp: Suc_le_eq)
      have "compare target (fst x) < 0"
        by (rule compare_le_less [OF assms(4) vi [OF True] vx [OF i(2,3)] tj sep(2) [OF i(1,2,3)]])
      then show "\<not> compare (fst x) target < 0" using compare_flip [OF assms(4) vx [OF i(2,3)]] by simp
    qed
    have "concat Ls = concat (take j Ls) @ Ls ! j @ concat (drop (Suc j) Ls)"
      using True len by (metis append_take_drop_id concat.simps(2) concat_append Cons_nth_drop_Suc)
    moreover have "takeWhile (\<lambda>x. compare (fst x) target < 0) (concat (drop (Suc j) Ls)) = []"
      using after by (metis takeWhile_eq_Nil_iff hd_in_set)
    then have "length (takeWhile (\<lambda>x. compare (fst x) target < 0) (Ls ! j @ concat (drop (Suc j) Ls))) =
        length (takeWhile (\<lambda>x. compare (fst x) target < 0) (Ls ! j))"
      by (cases "\<forall>x \<in> set (Ls ! j). compare (fst x) target < 0") (auto simp: takeWhile_append takeWhile_eq_all_conv [THEN iffD2])
    moreover have "takeWhile (\<lambda>x. compare (fst x) target < 0) (concat (take j Ls) @ R) =
        concat (take j Ls) @ takeWhile (\<lambda>x. compare (fst x) target < 0) R" for R
      by (rule takeWhile_append2) (use before in blast)
    ultimately show ?thesis using True by (simp add: first_at_def base_def)
  next
    case False
    then have "\<forall>x \<in> set (concat Ls). compare (fst x) target < 0" using before jl len by simp
    then have all: "takeWhile (\<lambda>x. compare (fst x) target < 0) (concat Ls) = concat Ls" by (simp only: takeWhile_eq_all_conv)
    have "first_at compare target (concat Ls) = length (concat Ls)" unfolding first_at_def all ..
    then show ?thesis using False by simp
  qed
qed

end

section \<open>The parts of a move\<close>

context two_level begin

definition blocks :: "pair list \<Rightarrow> pair list list" where
  "blocks idx = map (block \<circ> snd) idx"

lemma dw_contract: "iterator_contract valid compare (wrapper_ops (dops e)) (wrapped (dcursor x e))"
  by (rule iterator_contract.wrapper_contract [OF data_contract])

lemmas dw_status = iterator_contract.status_at [OF dw_contract, unfolded wrapper_ops_simps]
  and dw_Valid = iterator_contract.Valid_iff [OF dw_contract, unfolded wrapper_ops_simps]
  and dw_le = iterator_contract.cursor_le [OF dw_contract]
  and dw_key = iterator_contract.key_at [OF dw_contract, unfolded wrapper_ops_simps]
  and dw_value = iterator_contract.value_at [OF dw_contract, unfolded wrapper_ops_simps]
  and dw_SeekToFirst = iterator_contract.SeekToFirst_at [OF dw_contract, unfolded wrapper_ops_simps]
  and dw_SeekToLast = iterator_contract.SeekToLast_at [OF dw_contract, unfolded wrapper_ops_simps]
  and dw_Seek = iterator_contract.Seek_at [OF dw_contract, unfolded wrapper_ops_simps]
  and dw_Next = iterator_contract.Next_at [OF dw_contract, unfolded wrapper_ops_simps]
  and dw_Prev = iterator_contract.Prev_at [OF dw_contract, unfolded wrapper_ops_simps]

text \<open>The iterator over the data, alive at position \<open>q\<close> of the entries \<open>L\<close>, next to iterators of others.\<close>

definition data_at :: "'x list \<Rightarrow> 'e \<Rightarrow> 'd wrapper \<Rightarrow> pair list \<Rightarrow> nat \<Rightarrow> bool" where
  "data_at xs e w L q \<longleftrightarrow> (\<exists>x. held (x # xs) e \<and> wrapped (dcursor x e) w L q)"

text \<open>The index stands at entry \<open>j\<close>; the data, if there are any, are those of the last value asked for.\<close>

definition sound :: "'x list \<Rightarrow> pair list \<Rightarrow> nat \<Rightarrow> ('i, 'd, 'e) two_level \<Rightarrow> bool" where
  "sound xs idx j t \<longleftrightarrow> tl_status t = Status_OK \<and> wrapped icursor (tl_index t) idx j \<and> (\<forall>x \<in> set idx. known (snd x)) \<and>
     length xs + 1 < most \<and>
     (if iw_iter (tl_data t) = None then \<not> iw_valid (tl_data t) \<and> held xs (tl_env t)
      else \<exists>q. data_at xs (tl_env t) (tl_data t) (block (tl_handle t)) q)"

definition at_block :: "'x list \<Rightarrow> pair list \<Rightarrow> nat \<Rightarrow> nat \<Rightarrow> ('i, 'd, 'e) two_level \<Rightarrow> bool" where
  "at_block xs idx j q t \<longleftrightarrow> sound xs idx j t \<and>
     (if j < length idx then tl_handle t = snd (idx ! j) \<and> data_at xs (tl_env t) (tl_data t) (block (snd (idx ! j))) q
      else iw_iter (tl_data t) = None)"

lemma wrapped_iter: "wrapped c w L q \<Longrightarrow> \<exists>s. iw_iter w = Some s \<and> c s L q"
  by (auto simp: wrapped_def)

lemma data_there: "data_at xs e w L q \<Longrightarrow> iw_iter w \<noteq> None"
  using wrapped_iter by (fastforce simp: data_at_def)

lemma data_status: "data_at xs e w L q \<Longrightarrow> iw_status (dops e) w = Ret Status_OK"
  using dw_status by (auto simp: data_at_def)

lemma data_moves:
  assumes "data_at xs e w L q" "\<And>x. wrapped (dcursor x e) w L q \<Longrightarrow> \<exists>w'. f w = Ret w' \<and> wrapped (dcursor x e) w' L q'"
  shows "\<exists>w'. f w = Ret w' \<and> data_at xs e w' L q'"
  using assms by (fastforce simp: data_at_def)

lemma sound_le: "sound xs idx j t \<Longrightarrow> j \<le> length idx"
  using iw.cursor_le by (auto simp: sound_def)

lemma sound_index: "sound xs idx j t \<Longrightarrow> iw_Valid (tl_index t) \<longleftrightarrow> j < length idx"
  using iw.Valid_iff by (auto simp: sound_def)

lemma Set_at: "dcursor x e d L q \<Longrightarrow> \<exists>w'. iw_Set (dops e) (Some d) w = Ret w' \<and> wrapped (dcursor x e) w' L q"
  using iterator_contract.Update_at [OF data_contract, of "w\<lparr>iw_iter := Some d\<rparr>" d x e L q] by (simp add: iw_Set_def)

text \<open>The old iterator is destroyed before the new one takes its place; \<open>ys\<close> are the tokens that are left.\<close>

lemma SetDataIterator_at:
  fixes t :: "('i, 'd, 'e) two_level"
  assumes st: "tl_status t = Status_OK"
    and old: "if iw_iter (tl_data t) = None then ys = zs
      else \<exists>x L q. x \<in> set zs \<and> wrapped (dcursor x (tl_env t)) (tl_data t) L q \<and> ys = remove1 x zs"
    and zs: "held zs (tl_env t)"
    and new: "case d of None \<Rightarrow> True | Some d \<Rightarrow> y \<in> set ys \<and> dcursor y (tl_env t) d L q"
  shows "\<exists>e w. SetDataIterator dops destroy d t = Ret (t\<lparr>tl_env := e, tl_data := w\<rparr>) \<and> held ys e \<and>
    (case d of None \<Rightarrow> iw_iter w = None \<and> \<not> iw_valid w | Some d \<Rightarrow> wrapped (dcursor y e) w L q)"
proof -
  have "\<exists>e. rbind (if iw_iter (tl_data t) \<noteq> None
            then rbind (iw_status (dops (tl_env t)) (tl_data t)) (\<lambda>s. Ret (SaveError s t)) else Ret t) (\<lambda>t.
       rbind (case iw_iter (tl_data t) of None \<Rightarrow> Ret (tl_env t) | Some old \<Rightarrow> destroy old (tl_env t)) (k t)) = k t e \<and> held ys e \<and>
      (\<forall>y \<in> set ys. \<forall>d L q. dcursor y (tl_env t) d L q \<longrightarrow> dcursor y e d L q)" for k :: "('i, 'd, 'e) two_level \<Rightarrow> 'e \<Rightarrow> 'b run"
  proof (cases "iw_iter (tl_data t)")
    case None
    then show ?thesis using old zs by (intro exI [of _ "tl_env t"]) simp
  next
    case (Some d)
    then obtain x L q where x: "x \<in> set zs" "wrapped (dcursor x (tl_env t)) (tl_data t) L q" "ys = remove1 x zs" using old by auto
    have "dcursor x (tl_env t) d L q" using wrapped_iter [OF x(2)] Some by simp
    from destroy_at [OF zs x(1) this] x(3) obtain e where "destroy d (tl_env t) = Ret e" "held ys e"
      "\<forall>y \<in> set ys. \<forall>d L q. dcursor y (tl_env t) d L q \<longrightarrow> dcursor y e d L q" by blast
    then show ?thesis using Some dw_status [OF x(2)] by (intro exI [of _ e]) (simp add: SaveError_def)
  qed
  from this [of "\<lambda>t e. rbind (iw_Set (dops e) d (tl_data t)) (\<lambda>w. Ret (t\<lparr>tl_env := e, tl_data := w\<rparr>))"] obtain e where
    e: "SetDataIterator dops destroy d t = rbind (iw_Set (dops e) d (tl_data t)) (\<lambda>w. Ret (t\<lparr>tl_env := e, tl_data := w\<rparr>))" "held ys e"
      "\<forall>y \<in> set ys. \<forall>d L q. dcursor y (tl_env t) d L q \<longrightarrow> dcursor y e d L q" unfolding SetDataIterator_def by blast
  show ?thesis
  proof (cases d)
    case None
    then show ?thesis using e(1,2)
      by (intro exI [of _ e] exI [of _ "tl_data t\<lparr>iw_iter := None, iw_valid := False\<rparr>"]) (simp add: iw_Set_def)
  next
    case (Some d')
    then have "dcursor y e d' L q" using new e(3) by auto
    from Set_at [OF this, of "tl_data t"] obtain w where "iw_Set (dops e) (Some d') (tl_data t) = Ret w" "wrapped (dcursor y e) w L q" by blast
    then show ?thesis using e(1,2) Some by (intro exI [of _ e] exI [of _ w]) simp
  qed
qed

lemma clear_data:
  assumes "sound xs idx j t"
  shows "\<exists>t'. SetDataIterator dops destroy None t = Ret t' \<and> sound xs idx j t' \<and> iw_iter (tl_data t') = None"
proof -
  have "\<exists>zs. held zs (tl_env t) \<and> (if iw_iter (tl_data t) = None then xs = zs
      else \<exists>x L q. x \<in> set zs \<and> wrapped (dcursor x (tl_env t)) (tl_data t) L q \<and> xs = remove1 x zs)"
  proof (cases "iw_iter (tl_data t) = None")
    case False
    then obtain x q where "held (x # xs) (tl_env t)" "wrapped (dcursor x (tl_env t)) (tl_data t) (block (tl_handle t)) q"
      using assms by (auto simp: sound_def data_at_def)
    then show ?thesis using False by (intro exI [of _ "x # xs"]) auto
  qed (use assms in \<open>simp add: sound_def\<close>)
  then obtain zs where zs: "held zs (tl_env t)" "if iw_iter (tl_data t) = None then xs = zs
      else \<exists>x L q. x \<in> set zs \<and> wrapped (dcursor x (tl_env t)) (tl_data t) L q \<and> xs = remove1 x zs" by blast
  have "tl_status t = Status_OK" using assms by (simp add: sound_def)
  from SetDataIterator_at [OF this zs(2,1), where d = None] obtain e w where
    "SetDataIterator dops destroy None t = Ret (t\<lparr>tl_env := e, tl_data := w\<rparr>)" "held xs e" "iw_iter w = None" "\<not> iw_valid w" by auto
  then show ?thesis using assms by (auto simp: sound_def)
qed

lemma InitDataBlock_at:
  assumes "sound xs idx j t"
  shows "\<exists>t' q. InitDataBlock iops dops destroy block_function t = Ret t' \<and> at_block xs idx j q t'"
proof (cases "j < length idx")
  case False
  then show ?thesis
    using clear_data [OF assms] sound_index [OF assms] by (auto simp: InitDataBlock_def at_block_def)
next
  case True
  let ?h = "snd (idx ! j)"
  have w: "wrapped icursor (tl_index t) idx j" and st: "tl_status t = Status_OK" using assms by (simp_all add: sound_def)
  have h: "iw_value iops (tl_index t) = Ret ?h" using iw.value_at [OF w True] by simp
  have valid: "iw_Valid (tl_index t)" using sound_index [OF assms] True by simp
  show ?thesis
  proof (cases "iw_iter (tl_data t) \<noteq> None \<and> slice_compare ?h (tl_handle t) = 0")
    case reuse: True
    then have "tl_handle t = ?h" by (auto simp: slice_compare_lex split: if_splits)
    moreover obtain q where "data_at xs (tl_env t) (tl_data t) (block (tl_handle t)) q" using reuse assms by (auto simp: sound_def)
    ultimately have "at_block xs idx j q t" using assms True by (simp add: at_block_def)
    then show ?thesis using valid h reuse by (auto simp: InitDataBlock_def)
  next
    case False
    have known: "known ?h" and few: "length xs + 1 < most" using assms True by (simp_all add: sound_def)
    let ?t = "\<lambda>e. t\<lparr>tl_env := e, tl_handle := ?h\<rparr>"
    have "\<exists>d e q y zs. block_function ?h (tl_env t) = Ret (d, e) \<and> held zs e \<and> y \<in> set (y # xs) \<and> dcursor y e d (block ?h) q \<and>
        (if iw_iter (tl_data t) = None then y # xs = zs
         else \<exists>x L q. x \<in> set zs \<and> wrapped (dcursor x e) (tl_data t) L q \<and> y # xs = remove1 x zs)"
    proof (cases "iw_iter (tl_data t) = None")
      case True
      then have "held xs (tl_env t)" using assms by (simp add: sound_def)
      from block_function_at [OF this _ known] few show ?thesis using True by auto
    next
      case False
      then obtain x q where x: "held (x # xs) (tl_env t)" "wrapped (dcursor x (tl_env t)) (tl_data t) (block (tl_handle t)) q"
        using assms by (auto simp: sound_def data_at_def)
      from block_function_at [OF x(1) _ known] few obtain d e y q' where
        d: "block_function ?h (tl_env t) = Ret (d, e)" "held (y # x # xs) e" "dcursor y e d (block ?h) q'"
          "\<forall>y \<in> set (x # xs). \<forall>d L q. dcursor y (tl_env t) d L q \<longrightarrow> dcursor y e d L q" by fastforce
      have "wrapped (dcursor x e) (tl_data t) (block (tl_handle t)) q" using x(2) d(4) by (auto simp: wrapped_def)
      moreover have "x \<in> set (y # x # xs)" "y # xs = remove1 x (y # x # xs)" by auto
      ultimately show ?thesis using d(1-3) False by (metis list.set_intros(1))
    qed
    then obtain d e q y zs where d: "block_function ?h (tl_env t) = Ret (d, e)" "held zs e" "dcursor y e d (block ?h) q"
      "if iw_iter (tl_data t) = None then y # xs = zs
         else \<exists>x L q. x \<in> set zs \<and> wrapped (dcursor x e) (tl_data t) L q \<and> y # xs = remove1 x zs" by blast
    from d(4) have "if iw_iter (tl_data (?t e)) = None then y # xs = zs
         else \<exists>x L q. x \<in> set zs \<and> wrapped (dcursor x (tl_env (?t e))) (tl_data (?t e)) L q \<and> y # xs = remove1 x zs"
      by (simp cong: if_cong split del: if_split)
    moreover have "tl_status (?t e) = Status_OK" "held zs (tl_env (?t e))"
      "case Some d of None \<Rightarrow> True | Some d \<Rightarrow> y \<in> set (y # xs) \<and> dcursor y (tl_env (?t e)) d (block ?h) q"
      using st d(2,3) by simp_all
    ultimately have "\<exists>e' w. SetDataIterator dops destroy (Some d) (?t e) = Ret ((?t e)\<lparr>tl_env := e', tl_data := w\<rparr>) \<and> held (y # xs) e' \<and>
      (case Some d of None \<Rightarrow> iw_iter w = None \<and> \<not> iw_valid w | Some d \<Rightarrow> wrapped (dcursor y e') w (block ?h) q)"
      by (intro SetDataIterator_at)
    then obtain e' w where
      w: "SetDataIterator dops destroy (Some d) (?t e) = Ret ((?t e)\<lparr>tl_env := e', tl_data := w\<rparr>)" "held (y # xs) e'"
        "wrapped (dcursor y e') w (block ?h) q" by (auto simp del: two_level.simps)
    have data: "data_at xs e' w (block ?h) q" using w(2,3) by (auto simp: data_at_def)
    then have "at_block xs idx j q ((?t e)\<lparr>tl_env := e', tl_data := w\<rparr>)"
      using assms True data_there [OF data] by (auto simp: at_block_def sound_def)
    moreover have "InitDataBlock iops dops destroy block_function t = Ret ((?t e)\<lparr>tl_env := e', tl_data := w\<rparr>)"
      using valid h d(1) w(1) False by (cases "iw_iter (tl_data t) = None") (simp_all add: InitDataBlock_def)
    ultimately show ?thesis by blast
  qed
qed

lemma move_index_at:
  assumes "sound xs idx j t" "\<And>w. wrapped icursor w idx j \<Longrightarrow> \<exists>w'. f w = Ret w' \<and> wrapped icursor w' idx j'"
  shows "\<exists>t'. move_index f t = Ret t' \<and> sound xs idx j' t'"
proof -
  have "wrapped icursor (tl_index t) idx j" using assms(1) by (simp add: sound_def)
  from assms(2) [OF this] assms(1) show ?thesis by (auto simp: move_index_def sound_def)
qed

lemma move_data_at:
  assumes "at_block xs idx j q t"
    "\<And>e w x. j < length idx \<Longrightarrow> wrapped (dcursor x e) w (block (snd (idx ! j))) q \<Longrightarrow>
       \<exists>w'. f (dops e) w = Ret w' \<and> wrapped (dcursor x e) w' (block (snd (idx ! j))) q'"
  shows "\<exists>t'. move_data dops f t = Ret t' \<and> at_block xs idx j q' t'"
proof (cases "j < length idx")
  case True
  then have w: "data_at xs (tl_env t) (tl_data t) (block (snd (idx ! j))) q" using assms(1) by (simp add: at_block_def)
  from data_moves [OF w, where f = "f (dops (tl_env t))"] assms(2) [OF True] obtain w' where
    w': "f (dops (tl_env t)) (tl_data t) = Ret w'" "data_at xs (tl_env t) w' (block (snd (idx ! j))) q'" by blast
  then have "move_data dops f t = Ret (t\<lparr>tl_data := w'\<rparr>)" "at_block xs idx j q' (t\<lparr>tl_data := w'\<rparr>)"
    using assms(1) True data_there [OF w] data_there [OF w'(2)] by (auto simp: move_data_def at_block_def sound_def)
  then show ?thesis by blast
next
  case False
  then show ?thesis using assms(1) by (auto simp: move_data_def at_block_def)
qed

lemma move_all:
  assumes "sound xs idx j t" "\<And>w. wrapped icursor w idx j \<Longrightarrow> \<exists>w'. f w = Ret w' \<and> wrapped icursor w' idx j'"
    "\<And>e w q x. j' < length idx \<Longrightarrow> wrapped (dcursor x e) w (block (snd (idx ! j'))) q \<Longrightarrow>
       \<exists>w'. g (dops e) w = Ret w' \<and> wrapped (dcursor x e) w' (block (snd (idx ! j'))) q'"
  shows "\<exists>t'. at_block xs idx j' q' t' \<and>
     rbind (move_index f t) (\<lambda>t. rbind (InitDataBlock iops dops destroy block_function t) (\<lambda>t. rbind (move_data dops g t) k)) = k t'"
proof -
  from move_index_at [of xs idx j t f, OF assms(1,2)] obtain t1 where t1: "move_index f t = Ret t1" "sound xs idx j' t1" by blast
  from InitDataBlock_at [OF t1(2)] obtain t2 q where
    t2: "InitDataBlock iops dops destroy block_function t1 = Ret t2" "at_block xs idx j' q t2" by blast
  from move_data_at [OF t2(2), of g q'] assms(3) obtain t3 where "move_data dops g t2 = Ret t3" "at_block xs idx j' q' t3" by blast
  then show ?thesis using t1(1) t2(1) by auto
qed

section \<open>The loops that skip empty blocks\<close>

definition stands :: "'x list \<Rightarrow> pair list \<Rightarrow> ('i, 'd, 'e) two_level \<Rightarrow> nat \<Rightarrow> bool" where
  "stands xs idx t p \<longleftrightarrow>
     (\<exists>j q. at_block xs idx j q t \<and> j < length idx \<and> q < length (block (snd (idx ! j))) \<and> p = base (blocks idx) j + q) \<or>
     (\<exists>j. sound xs idx j t \<and> iw_iter (tl_data t) = None \<and> p = length (concat (blocks idx)))"

lemma blocks_simps [simp]: "length (blocks idx) = length idx" "j < length idx \<Longrightarrow> blocks idx ! j = block (snd (idx ! j))"
  by (simp_all add: blocks_def)

lemma at_end: "at_block xs idx j q t \<Longrightarrow> \<not> j < length idx \<Longrightarrow> \<exists>t'. SetDataIterator dops destroy None t = Ret t' \<and>
    stands xs idx t' (length (concat (blocks idx)))"
  using clear_data [of xs idx j t] by (auto simp: at_block_def stands_def)

lemma at_data:
  assumes "at_block xs idx j q t" "j < length idx"
  shows "iw_iter (tl_data t) \<noteq> None" "iw_Valid (tl_data t) \<longleftrightarrow> q < length (block (snd (idx ! j)))" "q \<le> length (block (snd (idx ! j)))"
proof -
  obtain x where w: "wrapped (dcursor x (tl_env t)) (tl_data t) (block (snd (idx ! j))) q"
    using assms by (auto simp: at_block_def data_at_def)
  show "iw_iter (tl_data t) \<noteq> None" using wrapped_iter [OF w] by auto
  show "iw_Valid (tl_data t) \<longleftrightarrow> q < length (block (snd (idx ! j)))" by (rule dw_Valid [OF w])
  show "q \<le> length (block (snd (idx ! j)))" by (rule dw_le [OF w])
qed

lemma skip_forward_at:
  "at_block xs idx j q t \<Longrightarrow> length idx - j + 1 \<le> fuel \<Longrightarrow>
     \<exists>t'. skip_forward fuel iops dops destroy block_function t = Ret t' \<and>
       stands xs idx t' (if j < length idx then base (blocks idx) j + q else length (concat (blocks idx)))"
proof (induction fuel arbitrary: j q t)
  case (Suc fuel)
  have s: "sound xs idx j t" using Suc.prems(1) by (simp add: at_block_def)
  note index = sound_index [OF s]
  show ?case
  proof (cases "j < length idx")
    case False
    then have "iw_iter (tl_data t) = None" using Suc.prems(1) by (simp add: at_block_def)
    then show ?thesis using at_end [OF Suc.prems(1) False] index False by simp
  next
    case True
    note d = at_data [OF Suc.prems(1) True]
    show ?thesis
    proof (cases "q < length (block (snd (idx ! j)))")
      case q: True
      then have "stands xs idx t (base (blocks idx) j + q)" using Suc.prems(1) True by (auto simp: stands_def)
      moreover have "skip_forward (Suc fuel) iops dops destroy block_function t = Ret t" using d(1,2) q by auto
      ultimately show ?thesis using True by simp
    next
      case False
      then have q: "q = length (block (snd (idx ! j)))" using d(3) by simp
      have "\<exists>t1. at_block xs idx (Suc j) 0 t1 \<and>
          rbind (move_index (iw_Next iops) t) (\<lambda>t. rbind (InitDataBlock iops dops destroy block_function t) (\<lambda>t.
            rbind (move_data dops iw_SeekToFirst t) (skip_forward fuel iops dops destroy block_function))) =
          skip_forward fuel iops dops destroy block_function t1"
        by (rule move_all [OF s]) (use iw.Next_at [OF _ True] dw_SeekToFirst in auto)
      then obtain t1 where t1: "at_block xs idx (Suc j) 0 t1"
        "skip_forward (Suc fuel) iops dops destroy block_function t = skip_forward fuel iops dops destroy block_function t1"
        using d(1,2) False index True by auto
      have "length idx - Suc j + 1 \<le> fuel" using Suc.prems(2) True by simp
      from Suc.IH [OF t1(1) this] t1(2) obtain t' where
        "skip_forward (Suc fuel) iops dops destroy block_function t = Ret t'"
        "stands xs idx t' (if Suc j < length idx then base (blocks idx) (Suc j) + 0 else length (concat (blocks idx)))" by auto
      moreover have "(if Suc j < length idx then base (blocks idx) (Suc j) + 0 else length (concat (blocks idx))) = base (blocks idx) j + q"
        using base_Suc [of j "blocks idx"] base_all [of "blocks idx" "Suc j"] True q by simp
      ultimately show ?thesis using True by simp
    qed
  qed
qed simp

text \<open>The position before the first one of block \<open>j\<close>.\<close>

definition before_block :: "pair list \<Rightarrow> nat \<Rightarrow> nat" where
  "before_block idx j = (if base (blocks idx) j = 0 then length (concat (blocks idx)) else base (blocks idx) j - 1)"

lemma skip_backward_at:
  "at_block xs idx j q t \<Longrightarrow> (if j < length idx then j + 2 else 1) \<le> fuel \<Longrightarrow>
     \<exists>t'. skip_backward fuel iops dops destroy block_function t = Ret t' \<and>
       stands xs idx t' (if j < length idx then if q < length (block (snd (idx ! j))) then base (blocks idx) j + q else before_block idx j
                      else length (concat (blocks idx)))"
proof (induction fuel arbitrary: j q t)
  case (Suc fuel)
  have s: "sound xs idx j t" using Suc.prems(1) by (simp add: at_block_def)
  note index = sound_index [OF s]
  show ?case
  proof (cases "j < length idx")
    case False
    then have "iw_iter (tl_data t) = None" using Suc.prems(1) by (simp add: at_block_def)
    then show ?thesis using at_end [OF Suc.prems(1) False] index False by simp
  next
    case True
    note d = at_data [OF Suc.prems(1) True]
    show ?thesis
    proof (cases "q < length (block (snd (idx ! j)))")
      case q: True
      then have "stands xs idx t (base (blocks idx) j + q)" using Suc.prems(1) True by (auto simp: stands_def)
      moreover have "skip_backward (Suc fuel) iops dops destroy block_function t = Ret t" using d(1,2) q by auto
      ultimately show ?thesis using True q by simp
    next
      case False
      define j' where "j' = (if j = 0 then length idx else j - 1)"
      define q' where "q' = length (block (snd (idx ! j'))) - 1"
      have "\<exists>t1. at_block xs idx j' q' t1 \<and>
          rbind (move_index (iw_Prev iops) t) (\<lambda>t. rbind (InitDataBlock iops dops destroy block_function t) (\<lambda>t.
            rbind (move_data dops iw_SeekToLast t) (skip_backward fuel iops dops destroy block_function))) =
          skip_backward fuel iops dops destroy block_function t1"
        by (rule move_all [OF s]) (use iw.Prev_at [OF _ True] dw_SeekToLast in \<open>auto simp: j'_def q'_def\<close>)
      then obtain t1 where t1: "at_block xs idx j' q' t1"
        "skip_backward (Suc fuel) iops dops destroy block_function t = skip_backward fuel iops dops destroy block_function t1"
        using d(1,2) False index True by auto
      have "(if j' < length idx then j' + 2 else 1) \<le> fuel" using Suc.prems(2) True by (auto simp: j'_def split: if_splits)
      from Suc.IH [OF t1(1) this] t1(2) obtain t' where t': "skip_backward (Suc fuel) iops dops destroy block_function t = Ret t'"
        "stands xs idx t' (if j' < length idx then if q' < length (block (snd (idx ! j'))) then base (blocks idx) j' + q' else before_block idx j'
                      else length (concat (blocks idx)))" by auto
      have "(if j' < length idx then if q' < length (block (snd (idx ! j'))) then base (blocks idx) j' + q' else before_block idx j'
                      else length (concat (blocks idx))) = before_block idx j"
      proof (cases j)
        case 0
        then show ?thesis using True by (simp add: j'_def before_block_def)
      next
        case (Suc i)
        then have "base (blocks idx) j = base (blocks idx) i + length (block (snd (idx ! i)))"
          using base_Suc [of i "blocks idx"] True by simp
        then show ?thesis using Suc True by (auto simp: j'_def q'_def before_block_def)
      qed
      then show ?thesis using t' True False by simp
    qed
  qed
qed (simp split: if_splits)

section \<open>The contract\<close>

definition tl_cursor :: "nat \<Rightarrow> 'x list \<Rightarrow> ('i, 'd, 'e) two_level \<Rightarrow> pair list \<Rightarrow> nat \<Rightarrow> bool" where
  "tl_cursor fuel xs t kvs p \<longleftrightarrow> sorted_pairs valid compare kvs \<and>
     (\<exists>idx. kvs = concat (blocks idx) \<and> separates compare idx (blocks idx) \<and> length idx + 2 \<le> fuel \<and> stands xs idx t p)"

lemma tl_cursorI:
  "sorted_pairs valid compare (concat (blocks idx)) \<Longrightarrow> separates compare idx (blocks idx) \<Longrightarrow> length idx + 2 \<le> fuel \<Longrightarrow>
     stands xs idx t p \<Longrightarrow> p = p' \<Longrightarrow> tl_cursor fuel xs t (concat (blocks idx)) p'"
  by (auto simp: tl_cursor_def)

lemma stands_sound: "stands xs idx t p \<Longrightarrow> \<exists>j. sound xs idx j t"
  by (auto simp: stands_def at_block_def)

lemma stands_facts:
  assumes "stands xs idx t p"
  shows "p \<le> length (concat (blocks idx))" "tl_Valid t \<longleftrightarrow> p < length (concat (blocks idx))"
    "tl_status_of iops dops t = Ret Status_OK"
    "p < length (concat (blocks idx)) \<Longrightarrow> tl_key t = Ret (fst (concat (blocks idx) ! p)) \<and> tl_value dops t = Ret (snd (concat (blocks idx) ! p))"
proof -
  obtain j where s: "sound xs idx j t" using stands_sound [OF assms] by blast
  have "iw_status iops (tl_index t) = Ret Status_OK" using iw.status_at s by (auto simp: sound_def)
  moreover have "iw_status (dops (tl_env t)) (tl_data t) = Ret Status_OK" if "iw_iter (tl_data t) \<noteq> None"
    using s that data_status by (auto simp: sound_def)
  ultimately show "tl_status_of iops dops t = Ret Status_OK" using s by (auto simp: tl_status_of_def sound_def)
  have "(tl_Valid t \<and> p < length (concat (blocks idx)) \<and> tl_key t = Ret (fst (concat (blocks idx) ! p)) \<and>
      tl_value dops t = Ret (snd (concat (blocks idx) ! p))) \<or> (\<not> tl_Valid t \<and> p = length (concat (blocks idx)))"
    using assms unfolding stands_def
  proof (elim disjE exE conjE)
    fix j q
    assume a: "at_block xs idx j q t" "j < length idx" "q < length (block (snd (idx ! j)))" "p = base (blocks idx) j + q"
    obtain x where w: "wrapped (dcursor x (tl_env t)) (tl_data t) (block (snd (idx ! j))) q"
      using a(1,2) by (auto simp: at_block_def data_at_def)
    note n = base_nth [of j "blocks idx" q]
    show ?thesis
      using n a(2-4) at_data [OF a(1,2)] dw_key [OF w a(3)] dw_value [OF w a(3)]
      by (simp add: tl_Valid_def tl_key_def tl_value_def)
  next
    fix j
    assume a: "sound xs idx j t" "iw_iter (tl_data t) = None" "p = length (concat (blocks idx))"
    then show ?thesis by (simp add: tl_Valid_def iw_Valid_def sound_def)
  qed
  then show "p \<le> length (concat (blocks idx))" "tl_Valid t \<longleftrightarrow> p < length (concat (blocks idx))"
    "p < length (concat (blocks idx)) \<Longrightarrow> tl_key t = Ret (fst (concat (blocks idx) ! p)) \<and> tl_value dops t = Ret (snd (concat (blocks idx) ! p))"
    by auto
qed

lemma valid_block:
  assumes "stands xs idx t p" "p < length (concat (blocks idx))"
  obtains j q where "at_block xs idx j q t" "j < length idx" "q < length (block (snd (idx ! j)))" "p = base (blocks idx) j + q"
  using assms by (auto simp: stands_def)

lemma two_level_contract: "iterator_contract valid compare (two_level_ops fuel iops dops destroy block_function) (tl_cursor fuel xs)"
proof unfold_locales
  fix t :: "('i, 'd, 'e) two_level" and kvs p target
  assume cur: "tl_cursor fuel xs t kvs p"
  let ?ops = "two_level_ops fuel iops dops destroy block_function"
  obtain idx where c: "sorted_pairs valid compare kvs" "kvs = concat (blocks idx)" "separates compare idx (blocks idx)"
    "length idx + 2 \<le> fuel" "stands xs idx t p" using cur by (auto simp: tl_cursor_def)
  note I = tl_cursorI [OF c(1) [unfolded c(2)] c(3,4), folded c(2)]
  have fin: "\<exists>t'. r = Ret t' \<and> tl_cursor fuel xs t' kvs p'" if "\<exists>t'. r = Ret t' \<and> stands xs idx t' q'" "q' = p'" for r p' q'
    using that I by blast
  note f = stands_facts [OF c(5), folded c(2)]
  obtain j0 where s: "sound xs idx j0 t" using stands_sound [OF c(5)] by blast
  then have w: "wrapped icursor (tl_index t) idx j0" by (simp add: sound_def)
  have vi: "sorted_pairs valid compare idx" using iw.cursor_sorted [OF w] .
  show "sorted_pairs valid compare kvs" "p \<le> length kvs" by (fact c(1) f(1))+
  show "io_Valid ?ops t \<longleftrightarrow> p < length kvs" "io_status ?ops t = Ret Status_OK" using f by (simp_all add: two_level_ops_def)
  show "\<exists>t'. io_SeekToFirst ?ops t = Ret t' \<and> tl_cursor fuel xs t' kvs 0"
  proof -
    have "\<exists>t1. at_block xs idx 0 0 t1 \<and> tl_SeekToFirst fuel iops dops destroy block_function t = skip_forward fuel iops dops destroy block_function t1"
      unfolding tl_SeekToFirst_def by (rule move_all [OF s]) (use iw.SeekToFirst_at dw_SeekToFirst in auto)
    then obtain t1 where t1: "at_block xs idx 0 0 t1" "io_SeekToFirst ?ops t = skip_forward fuel iops dops destroy block_function t1"
      by (auto simp: two_level_ops_def)
    show ?thesis unfolding t1(2)
      by (rule fin [OF skip_forward_at [OF t1(1)]]) (use c(2,4) in \<open>auto simp: blocks_def\<close>)
  qed
  show "\<exists>t'. io_SeekToLast ?ops t = Ret t' \<and> tl_cursor fuel xs t' kvs (length kvs - 1)"
  proof -
    let ?j = "length idx - 1"
    let ?q = "length (block (snd (idx ! ?j))) - 1"
    have "\<exists>t1. at_block xs idx ?j ?q t1 \<and> tl_SeekToLast fuel iops dops destroy block_function t = skip_backward fuel iops dops destroy block_function t1"
      unfolding tl_SeekToLast_def by (rule move_all [OF s]) (use iw.SeekToLast_at dw_SeekToLast in auto)
    then obtain t1 where t1: "at_block xs idx ?j ?q t1" "io_SeekToLast ?ops t = skip_backward fuel iops dops destroy block_function t1"
      by (auto simp: two_level_ops_def)
    show ?thesis unfolding t1(2)
    proof (cases "idx = []")
      case True
      then show "\<exists>t'. skip_backward fuel iops dops destroy block_function t1 = Ret t' \<and> tl_cursor fuel xs t' kvs (length kvs - 1)"
        by (intro fin [OF skip_backward_at [OF t1(1)]]) (use c(2,4) in \<open>auto simp: blocks_def\<close>)
    next
      case False
      then have j: "?j < length idx" by simp
      then have "length kvs = base (blocks idx) ?j + length (block (snd (idx ! ?j)))"
        using base_Suc [of ?j "blocks idx"] base_all [of "blocks idx" "Suc ?j"] c(2) by simp
      then have "(if ?q < length (block (snd (idx ! ?j))) then base (blocks idx) ?j + ?q else before_block idx ?j) = length kvs - 1"
        using c(2) by (cases "block (snd (idx ! ?j))") (simp_all add: before_block_def)
      then show "\<exists>t'. skip_backward fuel iops dops destroy block_function t1 = Ret t' \<and> tl_cursor fuel xs t' kvs (length kvs - 1)"
        using j c(4) by (intro fin [OF skip_backward_at [OF t1(1)]]) simp_all
    qed
  qed
  show "\<exists>t'. io_Seek ?ops target t = Ret t' \<and> tl_cursor fuel xs t' kvs (first_at compare target kvs)" if v: "valid target"
  proof -
    let ?j = "first_at compare target idx"
    let ?q = "first_at compare target (block (snd (idx ! ?j)))"
    have "\<exists>t1. at_block xs idx ?j ?q t1 \<and> tl_Seek fuel iops dops destroy block_function target t = skip_forward fuel iops dops destroy block_function t1"
      unfolding tl_Seek_def by (rule move_all [OF s]) (use iw.Seek_at dw_Seek v in auto)
    then obtain t1 where t1: "at_block xs idx ?j ?q t1" "io_Seek ?ops target t = skip_forward fuel iops dops destroy block_function t1"
      by (auto simp: two_level_ops_def)
    have "\<forall>x \<in> set (concat (blocks idx)). valid (fst x)" using c(1,2) by (simp add: sorted_pairs_def)
    from index.seek_concat [OF c(3) vi this v] have
      "(if ?j < length idx then base (blocks idx) ?j + ?q else length (concat (blocks idx))) = first_at compare target kvs"
      using c(2) by simp
    then show ?thesis unfolding t1(2) using c(4) by (intro fin [OF skip_forward_at [OF t1(1)]]) simp_all
  qed
  assume p: "p < length kvs"
  show "io_key ?ops t = Ret (fst (kvs ! p))" "io_value ?ops t = Ret (snd (kvs ! p))"
    using f(4) p by (simp_all add: two_level_ops_def)
  obtain j q where b: "at_block xs idx j q t" "j < length idx" "q < length (block (snd (idx ! j)))" "p = base (blocks idx) j + q"
    using valid_block [OF c(5)] p c(2) by blast
  have d: "data_at xs (tl_env t) (tl_data t) (block (snd (idx ! j))) q" using b(1,2) by (simp add: at_block_def)
  have put: "at_block xs idx j q' (t\<lparr>tl_data := w\<rparr>)" if "data_at xs (tl_env t) w (block (snd (idx ! j))) q'" for w q'
    using b(1,2) that data_there [OF that] by (auto simp: at_block_def sound_def)
  have tv: "tl_Valid t" using f(2) p by simp
  show "\<exists>t'. io_Next ?ops t = Ret t' \<and> tl_cursor fuel xs t' kvs (Suc p)"
  proof -
    obtain w where w: "iw_Next (dops (tl_env t)) (tl_data t) = Ret w" "data_at xs (tl_env t) w (block (snd (idx ! j))) (Suc q)"
      using data_moves [OF d, where f = "iw_Next (dops (tl_env t))" and q' = "Suc q"] dw_Next [OF _ b(3)] by blast
    have n: "io_Next ?ops t = skip_forward fuel iops dops destroy block_function (t\<lparr>tl_data := w\<rparr>)"
      using w(1) tv by (simp add: two_level_ops_def tl_Next_def)
    show ?thesis unfolding n by (rule fin [OF skip_forward_at [OF put [OF w(2)]]]) (use c(4) b(2,4) in simp_all)
  qed
  show "\<exists>t'. io_Prev ?ops t = Ret t' \<and> tl_cursor fuel xs t' kvs (if p = 0 then length kvs else p - 1)"
  proof -
    let ?q = "if q = 0 then length (block (snd (idx ! j))) else q - 1"
    obtain w where w: "iw_Prev (dops (tl_env t)) (tl_data t) = Ret w" "data_at xs (tl_env t) w (block (snd (idx ! j))) ?q"
      using data_moves [OF d, where f = "iw_Prev (dops (tl_env t))" and q' = ?q] dw_Prev [OF _ b(3)] by blast
    have "(if ?q < length (block (snd (idx ! j))) then base (blocks idx) j + ?q else before_block idx j) =
        (if p = 0 then length kvs else p - 1)"
      using b(3,4) c(2) by (auto simp: before_block_def)
    moreover have n: "io_Prev ?ops t = skip_backward fuel iops dops destroy block_function (t\<lparr>tl_data := w\<rparr>)"
      using w(1) tv by (simp add: two_level_ops_def tl_Prev_def)
    ultimately show ?thesis unfolding n using c(4) b(2) by (intro fin [OF skip_backward_at [OF put [OF w(2)]]]) simp_all
  qed
qed

lemma TwoLevelIterator_at:
  assumes "icursor i idx j" "held xs e" "length xs + 1 < most" "\<forall>x \<in> set idx. known (snd x)" "separates compare idx (blocks idx)"
    "sorted_pairs valid compare (concat (blocks idx))" "length idx + 2 \<le> fuel"
  shows "\<exists>t. TwoLevelIterator iops e i = Ret t \<and> tl_cursor fuel xs t (concat (blocks idx)) (length (concat (blocks idx)))"
proof -
  obtain w where w: "iw_Set iops (Some i) IteratorWrapper = Ret w" "wrapped icursor w idx j" using index.wrap_Set [OF assms(1)] by blast
  let ?t = "\<lparr>tl_env = e, tl_status = Status_OK, tl_index = w, tl_data = IteratorWrapper, tl_handle = []\<rparr>"
  have "sound xs idx j ?t" using w(2) assms(2-4) by (simp add: sound_def IteratorWrapper_def)
  then have "stands xs idx ?t (length (concat (blocks idx)))" by (auto simp: stands_def IteratorWrapper_def)
  then show ?thesis using w(1) assms(5-7) by (auto simp: TwoLevelIterator_def tl_cursor_def)
qed

text \<open>When the iterator is destroyed, just the iterators of the others are left.\<close>

lemma tl_destroy_at:
  assumes "tl_cursor fuel xs t kvs p"
  shows "\<exists>e. tl_destroy destroy t = Ret e \<and> held xs e"
proof -
  obtain idx j where s: "sound xs idx j t" using assms stands_sound by (fastforce simp: tl_cursor_def)
  show ?thesis
  proof (cases "iw_iter (tl_data t)")
    case None
    then show ?thesis using s by (simp add: tl_destroy_def sound_def)
  next
    case (Some d)
    then obtain x q where x: "held (x # xs) (tl_env t)" "wrapped (dcursor x (tl_env t)) (tl_data t) (block (tl_handle t)) q"
      using s by (auto simp: sound_def data_at_def)
    then have "dcursor x (tl_env t) d (block (tl_handle t)) q" using wrapped_iter [OF x(2)] Some by auto
    from destroy_at [OF x(1) _ this] show ?thesis using Some by (auto simp: tl_destroy_def)
  qed
qed

end

end
