(* ===== verification/Ldb_Format.thy ===== *)
theory Ldb_Format
  imports Ldb_File Ldb_Crc
begin

text \<open>
  leveldb, \<open>table/format.h\<close> and \<open>table/format.cc\<close>, the random access files of \<open>util/env_posix.cc\<close> and the
  compression of \<open>port/port_posix.h\<close>: block handles, the footer of a table, and reading a stored block. A
  file is its \<open>Read\<close> function; its result says whether the bytes were put into the caller's buffer. A read
  outside a buffer is \<open>UB\<close>; the allocation of a buffer does not fail.
\<close>

section \<open>Random access files\<close>

type_synonym read_fun = "u64 \<Rightarrow> u64 \<Rightarrow> (status \<times> slice \<times> bool) run"

record posix_ra_file =
  pa_filename :: slice
  pa_data :: slice
  pa_readable :: bool
  pa_strerror :: slice

text \<open>\<open>pread\<close> gives what there is from the offset on, at most \<open>n\<close> bytes, or fails.\<close>

definition pread :: "nat \<Rightarrow> int \<Rightarrow> posix_ra_file \<Rightarrow> slice option" where
  "pread n off p = (if \<not> pa_readable p \<or> off < 0 then None else Some (take n (drop (nat off) (pa_data p))))"

definition posix_ra_Read :: "posix_ra_file \<Rightarrow> read_fun" where
  "posix_ra_Read p off n =
     (case pread (unat n) (sint off) p of
        None \<Rightarrow> Ret (PosixIOError (pa_filename p) (pa_strerror p), [], True)
      | Some r \<Rightarrow> Ret (Status_OK, r, True))"

record posix_mmap_file =
  pm_filename :: slice
  pm_region :: slice
  pm_strerror :: slice

text \<open>The sum of offset and length wraps; when it does, the result reaches outside the mapped region.\<close>

definition posix_mmap_Read :: "posix_mmap_file \<Rightarrow> read_fun" where
  "posix_mmap_Read p off n =
     (if off + n > of_nat (length (pm_region p)) then Ret (PosixIOError (pm_filename p) (pm_strerror p), [], False)
      else if unat off + unat n > length (pm_region p) then UB
      else Ret (Status_OK, take (unat n) (drop (unat off) (pm_region p)), False))"

text \<open>What a reader of tables relies on: reads inside a file in order succeed.\<close>

locale random_file =
  fixes read :: "'f \<Rightarrow> read_fun" and contents :: "'f \<Rightarrow> slice" and readable :: "'f \<Rightarrow> bool"
  assumes read_at: "readable f \<Longrightarrow> unat off + unat n \<le> length (contents f) \<Longrightarrow>
    \<exists>scratch. read f off n = Ret (Status_OK, take (unat n) (drop (unat off) (contents f)), scratch)"

interpretation posix_ra: random_file posix_ra_Read pa_data "\<lambda>p. pa_readable p \<and> length (pa_data p) < 2 ^ 63"
proof
  fix p :: posix_ra_file and off n :: u64
  assume p: "pa_readable p \<and> length (pa_data p) < 2 ^ 63" and le: "unat off + unat n \<le> length (pa_data p)"
  then have "unat off < 2 ^ 63" by simp
  then have u: "int (unat off) < 2 ^ 63" by (metis of_nat_less_iff of_nat_numeral of_nat_power)
  have "sint off = signed_take_bit 63 (int (unat off))" using sint_uint [of off] by (simp only: uint_nat) simp
  also have "\<dots> = int (unat off)"
  proof (rule signed_take_bit_int_eq_self [OF _ u])
    show "- (2 ^ 63) \<le> int (unat off)" by (rule order_trans [of _ 0]) simp_all
  qed
  finally have "sint off = int (unat off)" .
  then show "\<exists>scratch. posix_ra_Read p off n = Ret (Status_OK, take (unat n) (drop (unat off) (pa_data p)), scratch)"
    using p by (auto simp: posix_ra_Read_def pread_def)
qed

interpretation posix_mmap: random_file posix_mmap_Read pm_region "\<lambda>p. length (pm_region p) < 2 ^ 64"
proof
  fix p :: posix_mmap_file and off n :: u64
  assume p: "length (pm_region p) < 2 ^ 64" and le: "unat off + unat n \<le> length (pm_region p)"
  then have "unat (off + n) = unat off + unat n" by (simp add: unat_word_ariths)
  moreover have "unat (of_nat (length (pm_region p)) :: u64) = length (pm_region p)" using p by (simp add: unat_of_nat_small)
  ultimately show "\<exists>scratch. posix_mmap_Read p off n = Ret (Status_OK, take (unat n) (drop (unat off) (pm_region p)), scratch)"
    using le by (auto simp: posix_mmap_Read_def word_less_nat_alt not_less)
qed

section \<open>Compression\<close>

record snappy =
  sn_compress :: "slice \<Rightarrow> slice option"
  sn_uncompressed_length :: "slice \<Rightarrow> nat option"
  sn_uncompress :: "slice \<Rightarrow> slice option"

text \<open>The port of this build, which has no Snappy.\<close>

definition port_snappy :: snappy where
  "port_snappy = \<lparr>sn_compress = (\<lambda>raw. None), sn_uncompressed_length = (\<lambda>c. None), sn_uncompress = (\<lambda>c. None)\<rparr>"

text \<open>What Snappy promises: it inverts itself, and its format has lengths of 32 bits.\<close>

locale compressor =
  fixes sn :: snappy
  assumes uncompresses: "sn_compress sn raw = Some c \<Longrightarrow>
    length raw < 2 ^ 32 \<and> sn_uncompressed_length sn c = Some (length raw) \<and> sn_uncompress sn c = Some raw"

interpretation port: compressor port_snappy
  by unfold_locales (simp_all add: port_snappy_def)

definition kNoCompression :: byte where "kNoCompression = 0"
definition kSnappyCompression :: byte where "kSnappyCompression = 1"

section \<open>Handles and the footer\<close>

record block_handle =
  bh_offset :: u64
  bh_size :: u64

definition BlockHandle :: block_handle where
  "BlockHandle = \<lparr>bh_offset = - 1, bh_size = - 1\<rparr>"

definition bh_EncodeTo :: "slice \<Rightarrow> block_handle \<Rightarrow> slice run" where
  "bh_EncodeTo dst h =
     (if bh_offset h = - 1 \<or> bh_size h = - 1 then UB else Ret (PutVarint64 (PutVarint64 dst (bh_offset h)) (bh_size h)))"

definition bh_DecodeFrom :: "slice \<Rightarrow> block_handle \<Rightarrow> status \<times> block_handle \<times> slice" where
  "bh_DecodeFrom input h =
     (case GetVarint64 input of
        None \<Rightarrow> (Corruption (cstr ''bad block handle'') [], h, input)
      | Some (off, input) \<Rightarrow>
          (case GetVarint64 input of
             None \<Rightarrow> (Corruption (cstr ''bad block handle'') [], h\<lparr>bh_offset := off\<rparr>, input)
           | Some (sz, input) \<Rightarrow> (Status_OK, h\<lparr>bh_offset := off, bh_size := sz\<rparr>, input)))"

definition kMaxEncodedLength :: nat where "kMaxEncodedLength = 10 + 10"
definition kEncodedLength :: nat where "kEncodedLength = 2 * kMaxEncodedLength + 8"
definition kTableMagicNumber :: u64 where "kTableMagicNumber = 0xdb4775248b80fb57"
definition kBlockTrailerSize :: u64 where "kBlockTrailerSize = 5"

record footer =
  ft_metaindex_handle :: block_handle
  ft_index_handle :: block_handle

definition Footer_EncodeTo :: "slice \<Rightarrow> footer \<Rightarrow> slice run" where
  "Footer_EncodeTo dst f =
     (let original_size = length dst in
      rbind (bh_EncodeTo dst (ft_metaindex_handle f)) (\<lambda>dst.
        rbind (bh_EncodeTo dst (ft_index_handle f)) (\<lambda>dst.
          let dst = resize (2 * kMaxEncodedLength) dst;
              dst = PutFixed32 dst (ucast (kTableMagicNumber AND 0xffffffff));
              dst = PutFixed32 dst (ucast (drop_bit 32 kTableMagicNumber))
          in if length dst \<noteq> original_size + kEncodedLength then UB else Ret dst)))"

text \<open>The magic number is read where a footer of full length has it, whatever the length of the input is.\<close>

definition Footer_DecodeFrom :: "slice \<Rightarrow> footer \<Rightarrow> (status \<times> footer \<times> slice) run" where
  "Footer_DecodeFrom input f =
     (if length input < kEncodedLength then UB
      else
        let magic_ptr = drop (kEncodedLength - 8) input;
            magic_lo = DecodeFixed32 magic_ptr;
            magic_hi = DecodeFixed32 (drop 4 magic_ptr);
            magic = push_bit 32 (ucast magic_hi) OR ucast magic_lo :: u64
        in if magic \<noteq> kTableMagicNumber then Ret (Corruption (cstr ''not an sstable (bad magic number)'') [], f, input)
           else
             case bh_DecodeFrom input (ft_metaindex_handle f) of (result, h, rest) \<Rightarrow>
               let f = f\<lparr>ft_metaindex_handle := h\<rparr> in
               if \<not> status_ok result then Ret (result, f, rest)
               else
                 case bh_DecodeFrom rest (ft_index_handle f) of (result, h, rest) \<Rightarrow>
                   let f = f\<lparr>ft_index_handle := h\<rparr> in
                   if \<not> status_ok result then Ret (result, f, rest)
                   else Ret (result, f, drop kEncodedLength input))"

section \<open>Reading a block\<close>

record block_contents =
  bc_data :: slice
  bc_cachable :: bool
  bc_heap_allocated :: bool

record read_options =
  ro_verify_checksums :: bool
  ro_fill_cache :: bool

definition ReadOptions :: read_options where
  "ReadOptions = \<lparr>ro_verify_checksums = False, ro_fill_cache = True\<rparr>"

text \<open>
  A read behind the bytes that \<open>Read\<close> gave is undefined: of the checksum at \<open>data + n + 1\<close>, and of the type at
  \<open>data + n\<close>. So is a pointer further than their end, also where the address \<open>data + n + 1\<close> would wrap around to \<open>data\<close>.
\<close>

definition ReadBlock :: "snappy \<Rightarrow> read_fun \<Rightarrow> read_options \<Rightarrow> block_handle \<Rightarrow> (status \<times> block_contents) run" where
  "ReadBlock sn read options handle =
     (let result = \<lparr>bc_data = [], bc_cachable = False, bc_heap_allocated = False\<rparr>;
          n = bh_size handle
      in rbind (read (bh_offset handle) (n + kBlockTrailerSize)) (\<lambda>(s, contents, scratch).
           if \<not> status_ok s then Ret (s, result)
           else if of_nat (length contents) \<noteq> n + kBlockTrailerSize then
             Ret (Corruption (cstr ''truncated block read'') [], result)
           else
             rbind (if ro_verify_checksums options then
                      if length contents < unat n + 5 then UB
                      else Ret (crc_Value (take (unat n + 1) contents) = Unmask (DecodeFixed32 (drop (unat n + 1) contents)))
                    else Ret True) (\<lambda>crc_matches.
               if \<not> crc_matches then Ret (Corruption (cstr ''block checksum mismatch'') [], result)
               else if length contents \<le> unat n then UB
               else
                 let data = take (unat n) contents;
                     t = contents ! unat n
                 in if t = kNoCompression then
                      Ret (Status_OK, \<lparr>bc_data = data, bc_cachable = scratch, bc_heap_allocated = scratch\<rparr>)
                    else if t = kSnappyCompression then
                      case sn_uncompressed_length sn data of
                        None \<Rightarrow> Ret (Corruption (cstr ''corrupted compressed block contents'') [], result)
                      | Some ulength \<Rightarrow>
                          (case sn_uncompress sn data of
                             None \<Rightarrow> Ret (Corruption (cstr ''corrupted compressed block contents'') [], result)
                           | Some ubuf \<Rightarrow>
                               if length ubuf \<noteq> ulength then UB
                               else Ret (Status_OK, \<lparr>bc_data = ubuf, bc_cachable = True, bc_heap_allocated = True\<rparr>))
                    else Ret (Corruption (cstr ''bad block type'') [], result))))"

section \<open>Handles and footers are read back\<close>

definition handle_bytes :: "block_handle \<Rightarrow> slice" where
  "handle_bytes h = EncodeVarint64 (bh_offset h) @ EncodeVarint64 (bh_size h)"

lemma bh_EncodeTo_bytes:
  "bh_offset h \<noteq> - 1 \<Longrightarrow> bh_size h \<noteq> - 1 \<Longrightarrow> bh_EncodeTo dst h = Ret (dst @ handle_bytes h)"
  by (simp add: bh_EncodeTo_def handle_bytes_def PutVarint64_def)

lemma bh_DecodeFrom_bytes: "bh_DecodeFrom (handle_bytes h @ rest) h0 = (Status_OK, h, rest)"
  by (cases h; cases h0) (simp add: bh_DecodeFrom_def handle_bytes_def)

lemma length_EncodeVarint64: "length (EncodeVarint64 v) \<le> 10"
proof -
  have "length (EncodeVarint64 v) \<le> n + 1" if "unat v < 2 ^ (7 * n + 7)" for n
    using that
  proof (induction n arbitrary: v)
    case 0
    then have "unat (drop_bit 7 v) = 0" by (simp add: drop_bit_eq_div unat_div)
    then have "drop_bit 7 v = 0" by (simp only: unat_eq_0)
    then show ?case by (simp add: EncodeVarint64_small)
  next
    case (Suc n)
    show ?case
    proof (cases "drop_bit 7 v = 0")
      case False
      have "unat (drop_bit 7 v) = unat v div 128" by (simp add: drop_bit_eq_div unat_div)
      moreover have "unat v < 2 ^ (7 * n + 7) * 128" using Suc.prems by (simp add: power_add)
      ultimately have "unat (drop_bit 7 v) < 2 ^ (7 * n + 7)" by (simp only: less_mult_imp_div_less)
      from Suc.IH [OF this] show ?thesis using EncodeVarint64_more [OF False] by simp
    qed (simp add: EncodeVarint64_small)
  qed
  moreover have "unat v < 2 ^ (7 * 9 + 7)"
  proof -
    have "unat v < 2 ^ 64" using unsigned_less [of v, where ?'a = nat] by simp
    then show ?thesis by simp
  qed
  ultimately show ?thesis by fastforce
qed

lemma length_handle_bytes: "length (handle_bytes h) \<le> 20"
  using length_EncodeVarint64 [of "bh_offset h"] length_EncodeVarint64 [of "bh_size h"] by (simp add: handle_bytes_def)

definition footer_bytes :: "footer \<Rightarrow> slice" where
  "footer_bytes f =
     (let handles = handle_bytes (ft_metaindex_handle f) @ handle_bytes (ft_index_handle f)
      in handles @ replicate (40 - length handles) 0 @ EncodeFixed32 0x8b80fb57 @ EncodeFixed32 0xdb477524)"

definition handles_set :: "footer \<Rightarrow> bool" where
  "handles_set f \<longleftrightarrow> (\<forall>h \<in> {ft_metaindex_handle f, ft_index_handle f}. bh_offset h \<noteq> - 1 \<and> bh_size h \<noteq> - 1)"

lemma length_footer_bytes [simp]: "length (footer_bytes f) = 48"
  using length_handle_bytes [of "ft_metaindex_handle f"] length_handle_bytes [of "ft_index_handle f"]
  by (simp add: footer_bytes_def Let_def)

lemma Footer_EncodeTo_bytes: "handles_set f \<Longrightarrow> Footer_EncodeTo [] f = Ret (footer_bytes f)"
proof -
  assume "handles_set f"
  then have h: "bh_EncodeTo dst (ft_metaindex_handle f) = Ret (dst @ handle_bytes (ft_metaindex_handle f))"
    "bh_EncodeTo dst (ft_index_handle f) = Ret (dst @ handle_bytes (ft_index_handle f))" for dst
    by (simp_all add: handles_set_def bh_EncodeTo_bytes)
  have l: "length (handle_bytes (ft_metaindex_handle f) @ handle_bytes (ft_index_handle f)) \<le> 40"
    using length_handle_bytes [of "ft_metaindex_handle f"] length_handle_bytes [of "ft_index_handle f"] by simp
  have m: "(ucast (kTableMagicNumber AND 0xffffffff) :: u32) = 0x8b80fb57" "(ucast (drop_bit 32 kTableMagicNumber) :: u32) = 0xdb477524"
    by (simp_all add: kTableMagicNumber_def)
  show ?thesis
    using l by (simp add: Footer_EncodeTo_def h m Let_def kMaxEncodedLength_def kEncodedLength_def resize_def footer_bytes_def PutFixed32_def)
qed

lemma Footer_DecodeFrom_bytes: "Footer_DecodeFrom (footer_bytes f) f0 = Ret (Status_OK, f, [])"
proof -
  define handles where "handles = handle_bytes (ft_metaindex_handle f) @ handle_bytes (ft_index_handle f)"
  define rest where "rest = replicate (40 - length handles) 0 @ EncodeFixed32 0x8b80fb57 @ EncodeFixed32 0xdb477524"
  have l: "length handles \<le> 40"
    using length_handle_bytes [of "ft_metaindex_handle f"] length_handle_bytes [of "ft_index_handle f"] by (simp add: handles_def)
  have bytes: "footer_bytes f = handles @ rest" by (simp add: footer_bytes_def handles_def rest_def Let_def)
  have d40: "drop 40 (footer_bytes f) = EncodeFixed32 0x8b80fb57 @ EncodeFixed32 0xdb477524"
    using l by (simp add: bytes rest_def)
  then have "drop 4 (drop 40 (footer_bytes f)) = EncodeFixed32 0xdb477524 @ []" by simp
  then have words: "DecodeFixed32 (drop 40 (footer_bytes f)) = 0x8b80fb57" "DecodeFixed32 (drop 4 (drop 40 (footer_bytes f))) = 0xdb477524"
    using d40 by (simp_all only: DecodeFixed32_bytes)
  have magic: "push_bit 32 (ucast (0xdb477524 :: u32)) OR ucast (0x8b80fb57 :: u32) = kTableMagicNumber" by (simp add: kTableMagicNumber_def)
  have h1: "bh_DecodeFrom (footer_bytes f) h = (Status_OK, ft_metaindex_handle f, handle_bytes (ft_index_handle f) @ rest)" for h
    using bh_DecodeFrom_bytes [of "ft_metaindex_handle f" "handle_bytes (ft_index_handle f) @ rest"] by (simp add: bytes handles_def)
  have k: "kEncodedLength - 8 = 40" "kEncodedLength = 48" by (simp_all add: kEncodedLength_def kMaxEncodedLength_def)
  have "\<not> length (footer_bytes f) < 48" "drop 48 (footer_bytes f) = []" by simp_all
  then show ?thesis
    using words magic unfolding Footer_DecodeFrom_def k Let_def h1 by (simp add: bh_DecodeFrom_bytes)
qed

section \<open>Stored blocks\<close>

text \<open>The bytes of a block and its trailer.\<close>

definition stored :: "slice \<Rightarrow> byte \<Rightarrow> slice" where
  "stored c t = c @ [t] @ EncodeFixed32 (Mask (Extend 0 (crc_Value c) [t]))"

lemma length_stored [simp]: "length (stored c t) = length c + 5"
  by (simp add: stored_def)

context random_file begin

lemma ReadBlock_stored:
  assumes f: "readable f" and at: "contents f = before @ stored c t @ after" and size: "length (contents f) < 2 ^ 64"
  defines "h \<equiv> \<lparr>bh_offset = of_nat (length before), bh_size = of_nat (length c)\<rparr>"
  shows "t = kNoCompression \<Longrightarrow> \<exists>b. ReadBlock sn (read f) options h = Ret (Status_OK, b) \<and> bc_data b = c"
    "t = kSnappyCompression \<Longrightarrow> sn_uncompressed_length sn c = Some (length raw) \<Longrightarrow> sn_uncompress sn c = Some raw \<Longrightarrow>
       \<exists>b. ReadBlock sn (read f) options h = Ret (Status_OK, b) \<and> bc_data b = raw"
proof -
  have u: "unat (of_nat (length before) :: u64) = length before" "unat (of_nat (length c) :: u64) = length c"
    using size by (simp_all add: at unat_of_nat_small)
  have n: "unat (of_nat (length c) + kBlockTrailerSize) = length c + 5"
    using size u(2) by (simp add: at kBlockTrailerSize_def unat_word_ariths)
  have "unat (of_nat (length before) :: u64) + unat (of_nat (length c) + kBlockTrailerSize) \<le> length (contents f)"
    unfolding u(1) n by (simp add: at)
  from read_at [OF f this] obtain scratch where
    r: "read f (of_nat (length before)) (of_nat (length c) + kBlockTrailerSize) = Ret (Status_OK, stored c t, scratch)"
    unfolding u(1) n by (auto simp: at)
  have len: "of_nat (length (stored c t)) = of_nat (length c) + kBlockTrailerSize"
    by (simp add: kBlockTrailerSize_def)
  have crc: "crc_Value (take (length c + 1) (stored c t)) = Unmask (DecodeFixed32 (drop (length c + 1) (stored c t)))"
    using DecodeFixed32_bytes [of _ "[]"]
    by (simp add: stored_def crc_Value_def Mask_rotate) (metis Extend_append)
  have parts: "take (length c) (stored c t) = c" "stored c t ! length c = t" by (simp_all add: stored_def)
  show "t = kNoCompression \<Longrightarrow> \<exists>b. ReadBlock sn (read f) options h = Ret (Status_OK, b) \<and> bc_data b = c"
    using r len crc parts by (simp add: ReadBlock_def h_def u(2) Let_def)
  show "t = kSnappyCompression \<Longrightarrow> sn_uncompressed_length sn c = Some (length raw) \<Longrightarrow> sn_uncompress sn c = Some raw \<Longrightarrow>
       \<exists>b. ReadBlock sn (read f) options h = Ret (Status_OK, b) \<and> bc_data b = raw"
    using r len crc parts by (simp add: ReadBlock_def h_def u(2) Let_def kNoCompression_def kSnappyCompression_def)
qed

end

section \<open>Properties\<close>

text \<open>C29: The size of a block handle plus the size of the trailer wraps in 64 bits: on a file of at least four bytes, a
corrupted handle that is decoded without an error makes ReadBlock form pointers and read outside the four bytes it asked for, with and without the check of the checksum.\<close>

theorem read_block_size_wraps:
  assumes "pa_readable p" "4 \<le> length (pa_data p)"
  shows "\<exists>input h. bh_DecodeFrom input BlockHandle = (Status_OK, h, []) \<and> ReadBlock sn (posix_ra_Read p) options h = UB"
proof -
  define h where "h = \<lparr>bh_offset = 0 :: u64, bh_size = - 1 :: u64\<rparr>"
  have max: "unat (- 1 :: u64) = 2 ^ 64 - 1" by (simp add: unsigned_minus_1_eq_mask mask_eq_exp_minus_1)
  have "bh_DecodeFrom (handle_bytes h) BlockHandle = (Status_OK, h, [])" using bh_DecodeFrom_bytes [of h "[]"] by simp
  moreover have "posix_ra_Read p 0 4 = Ret (Status_OK, take 4 (pa_data p), True)"
    using assms(1) by (simp add: posix_ra_Read_def pread_def)
  then have "ReadBlock sn (posix_ra_Read p) options h = UB"
    using assms(2) max by (simp add: ReadBlock_def h_def kBlockTrailerSize_def Let_def)
  ultimately show ?thesis by blast
qed

lemma read_block_size_wraps_witness:
  "\<exists>input h. bh_DecodeFrom input BlockHandle = (Status_OK, h, []) \<and>
     ReadBlock port_snappy (posix_ra_Read \<lparr>pa_filename = [], pa_data = [1, 2, 3, 4, 5], pa_readable = True, pa_strerror = []\<rparr>) ReadOptions h = UB"
  by (rule read_block_size_wraps) simp_all

end
