(* ===== verification/Ldb_Table_Builder.thy ===== *)
theory Ldb_Table_Builder
  imports Ldb_Format Ldb_Filter_Block Ldb_Block_Build
begin

text \<open>
  leveldb, \<open>table/table_builder.cc\<close>: building a table into a writable file. The options hold the functions of the
  comparator, with an identity to compare pointers, and of the filter policy. The data block reads the
  options of the builder and the index block its own copy of them, as the pointers in the code do. A failed
  assertion and a null filter policy are \<open>UB\<close>. The number of entries, an \<open>int64_t\<close>, is taken not to overflow: that
  would need \<open>2 ^ 63\<close> calls of \<open>Add\<close>.
\<close>

section \<open>Options\<close>

record comparator_funs =
  cm_id :: nat
  cm_compare :: "slice \<Rightarrow> slice \<Rightarrow> int"
  cm_separator :: "slice \<Rightarrow> slice \<Rightarrow> slice"
  cm_successor :: "slice \<Rightarrow> slice"

record filter_funs =
  fp_name :: slice
  fp_create :: "slice list \<Rightarrow> slice \<Rightarrow> slice run"
  fp_may_match :: "slice \<Rightarrow> slice \<Rightarrow> bool"

record options =
  op_comparator :: comparator_funs
  op_paranoid_checks :: bool
  op_block_size :: u64
  op_block_restart_interval :: int
  op_compression :: byte
  op_filter_policy :: "filter_funs option"

text \<open>The comparator and the options that a client has without its own, and the Bloom filter as a policy.\<close>

definition BytewiseComparator :: comparator_funs where
  "BytewiseComparator = \<lparr>cm_id = 0, cm_compare = slice_compare, cm_separator = bytewise_separator, cm_successor = bytewise_successor\<rparr>"

definition Options :: options where
  "Options = \<lparr>op_comparator = BytewiseComparator, op_paranoid_checks = False, op_block_size = 4096,
     op_block_restart_interval = 16, op_compression = kSnappyCompression, op_filter_policy = None\<rparr>"

definition bloom_funs :: "bloom_policy \<Rightarrow> filter_funs" where
  "bloom_funs policy = \<lparr>fp_name = cstr ''leveldb.BuiltinBloomFilter2'', fp_create = CreateFilter policy, fp_may_match = KeyMayMatch\<rparr>"

record 'f file_ops =
  fo_append :: "slice \<Rightarrow> 'f \<Rightarrow> status \<times> 'f"
  fo_flush :: "'f \<Rightarrow> status \<times> 'f"

section \<open>The builder\<close>

record 'f table_builder =
  tb_options :: options
  tb_index_options :: options
  tb_file :: 'f
  tb_offset :: u64
  tb_status :: status
  tb_data_block :: block_builder
  tb_index_block :: block_builder
  tb_last_key :: slice
  tb_num_entries :: int
  tb_closed :: bool
  tb_filter_block :: "(filter_funs \<times> filter_block_builder) option"
  tb_pending_index_entry :: bool
  tb_pending_handle :: block_handle
  tb_compressed_output :: slice

definition filter_StartBlock :: "u64 \<Rightarrow> 'f table_builder \<Rightarrow> 'f table_builder run" where
  "filter_StartBlock off r =
     (case tb_filter_block r of None \<Rightarrow> Ret r
      | Some (policy, b) \<Rightarrow> rbind (StartBlock (fp_create policy) off b) (\<lambda>b. Ret (r\<lparr>tb_filter_block := Some (policy, b)\<rparr>)))"

definition TableBuilder :: "options \<Rightarrow> 'f \<Rightarrow> 'f table_builder run" where
  "TableBuilder options file =
     rbind (BlockBuilder (op_block_restart_interval options)) (\<lambda>data_block.
       rbind (BlockBuilder (op_block_restart_interval options)) (\<lambda>index_block.
         filter_StartBlock 0
           \<lparr>tb_options = options, tb_index_options = options\<lparr>op_block_restart_interval := 1\<rparr>, tb_file = file, tb_offset = 0,
            tb_status = Status_OK, tb_data_block = data_block, tb_index_block = index_block, tb_last_key = [],
            tb_num_entries = 0, tb_closed = False,
            tb_filter_block = map_option (\<lambda>policy. (policy, FilterBlockBuilder)) (op_filter_policy options),
            tb_pending_index_entry = False, tb_pending_handle = BlockHandle, tb_compressed_output = []\<rparr>))"

definition tb_ok :: "'f table_builder \<Rightarrow> bool" where
  "tb_ok r = status_ok (tb_status r)"

definition ChangeOptions :: "options \<Rightarrow> 'f table_builder \<Rightarrow> status \<times> 'f table_builder" where
  "ChangeOptions options r =
     (if cm_id (op_comparator options) \<noteq> cm_id (op_comparator (tb_options r)) then
        (InvalidArgument (cstr ''changing comparator while building table'') [], r)
      else (Status_OK, r\<lparr>tb_options := options, tb_index_options := options\<lparr>op_block_restart_interval := 1\<rparr>\<rparr>))"

definition WriteRawBlock ::
  "'f file_ops \<Rightarrow> slice \<Rightarrow> byte \<Rightarrow> 'f table_builder \<Rightarrow> block_handle \<times> 'f table_builder" where
  "WriteRawBlock fo block_contents t r =
     (let handle = \<lparr>bh_offset = tb_offset r, bh_size = of_nat (length block_contents)\<rparr> in
      case fo_append fo block_contents (tb_file r) of (s, f) \<Rightarrow>
        let r = r\<lparr>tb_status := s, tb_file := f\<rparr> in
        if status_ok s then
          let crc = crc_Value block_contents;
              crc = Extend 0 crc [t];
              trailer = t # EncodeFixed32 (Mask crc)
          in case fo_append fo trailer (tb_file r) of (s, f) \<Rightarrow>
               let r = r\<lparr>tb_status := s, tb_file := f\<rparr> in
               if status_ok s then (handle, r\<lparr>tb_offset := tb_offset r + (of_nat (length block_contents) + kBlockTrailerSize)\<rparr>)
               else (handle, r)
        else (handle, r))"

text \<open>The block is the data block, the index block or the metaindex block; it is returned reset.\<close>

definition WriteBlock ::
  "snappy \<Rightarrow> 'f file_ops \<Rightarrow> block_builder \<Rightarrow> 'f table_builder \<Rightarrow> (block_builder \<times> block_handle \<times> 'f table_builder) run" where
  "WriteBlock sn fo block r =
     (if \<not> tb_ok r then UB
      else
        let (raw, block) = bb_Finish block;
            t = op_compression (tb_options r);
            (block_contents, t, r) =
              (if t = kNoCompression then (raw, t, r)
               else if t = kSnappyCompression then
                 case sn_compress sn raw of
                   Some compressed \<Rightarrow>
                     if length compressed < length raw - length raw div 8
                     then (compressed, t, r\<lparr>tb_compressed_output := compressed\<rparr>)
                     else (raw, kNoCompression, r\<lparr>tb_compressed_output := compressed\<rparr>)
                 | None \<Rightarrow> (raw, kNoCompression, r)
               else ([], t, r));
            (handle, r) = WriteRawBlock fo block_contents t r
        in Ret (bb_Reset block, handle, r\<lparr>tb_compressed_output := []\<rparr>))"

definition tb_Flush :: "snappy \<Rightarrow> 'f file_ops \<Rightarrow> 'f table_builder \<Rightarrow> 'f table_builder run" where
  "tb_Flush sn fo r =
     (if tb_closed r then UB
      else if \<not> tb_ok r then Ret r
      else if bb_buffer (tb_data_block r) = [] then Ret r
      else if tb_pending_index_entry r then UB
      else
        rbind (WriteBlock sn fo (tb_data_block r) r) (\<lambda>(block, handle, r).
          let r = r\<lparr>tb_data_block := block, tb_pending_handle := handle\<rparr>;
              r = (if tb_ok r then
                     let r = r\<lparr>tb_pending_index_entry := True\<rparr> in
                     case fo_flush fo (tb_file r) of (s, f) \<Rightarrow> r\<lparr>tb_status := s, tb_file := f\<rparr>
                   else r)
          in filter_StartBlock (tb_offset r) r))"

text \<open>The index entry of the last block, under the key that the comparator made of \<open>last_key\<close>.\<close>

definition add_index_entry :: "slice \<Rightarrow> 'f table_builder \<Rightarrow> 'f table_builder run" where
  "add_index_entry last_key r =
     (let r = r\<lparr>tb_last_key := last_key\<rparr> in
      rbind (bh_EncodeTo [] (tb_pending_handle r)) (\<lambda>handle_encoding.
        rbind (bb_Add (cm_compare (op_comparator (tb_index_options r))) (op_block_restart_interval (tb_index_options r))
          last_key handle_encoding (tb_index_block r)) (\<lambda>b.
          Ret (r\<lparr>tb_index_block := b, tb_pending_index_entry := False\<rparr>))))"

definition tb_Add :: "snappy \<Rightarrow> 'f file_ops \<Rightarrow> slice \<Rightarrow> slice \<Rightarrow> 'f table_builder \<Rightarrow> 'f table_builder run" where
  "tb_Add sn fo key value r =
     (if tb_closed r then UB
      else if \<not> tb_ok r then Ret r
      else if tb_num_entries r > 0 \<and> \<not> cm_compare (op_comparator (tb_options r)) key (tb_last_key r) > 0 then UB
      else
        rbind (if tb_pending_index_entry r then
                 if bb_buffer (tb_data_block r) \<noteq> [] then UB
                 else add_index_entry (cm_separator (op_comparator (tb_options r)) (tb_last_key r) key) r
               else Ret r) (\<lambda>r.
          let r = r\<lparr>tb_filter_block := map_option (\<lambda>(policy, b). (policy, AddKey key b)) (tb_filter_block r)\<rparr>;
              r = r\<lparr>tb_last_key := key, tb_num_entries := tb_num_entries r + 1\<rparr>
          in rbind (bb_Add (cm_compare (op_comparator (tb_options r))) (op_block_restart_interval (tb_options r))
               key value (tb_data_block r)) (\<lambda>b.
               let r = r\<lparr>tb_data_block := b\<rparr>;
                   estimated_block_size = of_nat (bb_CurrentSizeEstimate (tb_data_block r)) :: u64
               in if estimated_block_size \<ge> op_block_size (tb_options r) then tb_Flush sn fo r else Ret r)))"

text \<open>The parts of \<open>Finish\<close>: the filter block, the metaindex block, the index block and the footer.\<close>

definition finish_filter :: "'f file_ops \<Rightarrow> 'f table_builder \<Rightarrow> (block_handle \<times> 'f table_builder) run" where
  "finish_filter fo r =
     (case tb_filter_block r of
        Some (policy, b) \<Rightarrow>
          if tb_ok r then
            rbind (filter_Finish (fp_create policy) b) (\<lambda>(contents, b).
              Ret (WriteRawBlock fo contents kNoCompression (r\<lparr>tb_filter_block := Some (policy, b)\<rparr>)))
          else Ret (BlockHandle, r)
      | None \<Rightarrow> Ret (BlockHandle, r))"

definition finish_metaindex ::
  "snappy \<Rightarrow> 'f file_ops \<Rightarrow> block_handle \<Rightarrow> 'f table_builder \<Rightarrow> (block_handle \<times> 'f table_builder) run" where
  "finish_metaindex sn fo filter_block_handle r =
     (if tb_ok r then
        rbind (BlockBuilder (op_block_restart_interval (tb_options r))) (\<lambda>meta_index_block.
          rbind (if tb_filter_block r \<noteq> None then
                   case op_filter_policy (tb_options r) of None \<Rightarrow> UB
                   | Some policy \<Rightarrow>
                       rbind (bh_EncodeTo [] filter_block_handle) (\<lambda>handle_encoding.
                         bb_Add (cm_compare (op_comparator (tb_options r))) (op_block_restart_interval (tb_options r))
                           (cstr ''filter.'' @ fp_name policy) handle_encoding meta_index_block)
                 else Ret meta_index_block) (\<lambda>meta_index_block.
            rbind (WriteBlock sn fo meta_index_block r) (\<lambda>(b, handle, r). Ret (handle, r))))
      else Ret (BlockHandle, r))"

definition finish_index :: "snappy \<Rightarrow> 'f file_ops \<Rightarrow> 'f table_builder \<Rightarrow> (block_handle \<times> 'f table_builder) run" where
  "finish_index sn fo r =
     (if tb_ok r then
        rbind (if tb_pending_index_entry r then
                 add_index_entry (cm_successor (op_comparator (tb_options r)) (tb_last_key r)) r
               else Ret r) (\<lambda>r.
          rbind (WriteBlock sn fo (tb_index_block r) r) (\<lambda>(b, handle, r). Ret (handle, r\<lparr>tb_index_block := b\<rparr>)))
      else Ret (BlockHandle, r))"

definition finish_footer ::
  "'f file_ops \<Rightarrow> block_handle \<Rightarrow> block_handle \<Rightarrow> 'f table_builder \<Rightarrow> (status \<times> 'f table_builder) run" where
  "finish_footer fo metaindex_block_handle index_block_handle r =
     (if tb_ok r then
        rbind (Footer_EncodeTo [] \<lparr>ft_metaindex_handle = metaindex_block_handle, ft_index_handle = index_block_handle\<rparr>)
          (\<lambda>footer_encoding.
            case fo_append fo footer_encoding (tb_file r) of (s, f) \<Rightarrow>
              let r = r\<lparr>tb_status := s, tb_file := f\<rparr>;
                  r = (if status_ok s then r\<lparr>tb_offset := tb_offset r + of_nat (length footer_encoding)\<rparr> else r)
              in Ret (tb_status r, r))
      else Ret (tb_status r, r))"

definition tb_Finish :: "snappy \<Rightarrow> 'f file_ops \<Rightarrow> 'f table_builder \<Rightarrow> (status \<times> 'f table_builder) run" where
  "tb_Finish sn fo r =
     rbind (tb_Flush sn fo r) (\<lambda>r.
       if tb_closed r then UB
       else
         rbind (finish_filter fo (r\<lparr>tb_closed := True\<rparr>)) (\<lambda>(filter_block_handle, r).
           rbind (finish_metaindex sn fo filter_block_handle r) (\<lambda>(metaindex_block_handle, r).
             rbind (finish_index sn fo r) (\<lambda>(index_block_handle, r).
               finish_footer fo metaindex_block_handle index_block_handle r))))"

definition Abandon :: "'f table_builder \<Rightarrow> 'f table_builder run" where
  "Abandon r = (if tb_closed r then UB else Ret (r\<lparr>tb_closed := True\<rparr>))"

definition NumEntries :: "'f table_builder \<Rightarrow> u64" where
  "NumEntries r = of_int (tb_num_entries r)"

definition FileSize :: "'f table_builder \<Rightarrow> u64" where
  "FileSize r = tb_offset r"

end
