(* ===== verification/Ldb_Table_Built.thy ===== *)
theory Ldb_Table_Built
  imports Ldb_Table_Builder
begin

text \<open>
  What leveldb's table builder writes. \<open>build_table\<close> is a client that adds sorted keys and finishes. The builder is
  shown never to fail an assertion, and when it finishes with no error, the file is a \<open>table_image\<close>: data blocks,
  a filter block, a metaindex block and an index block, each stored with its checksum, and a footer.
\<close>

fun tb_Add_all :: "snappy \<Rightarrow> 'f file_ops \<Rightarrow> pair list \<Rightarrow> 'f table_builder \<Rightarrow> 'f table_builder run" where
  "tb_Add_all sn fo [] r = Ret r"
| "tb_Add_all sn fo ((key, value) # kvs) r = rbind (tb_Add sn fo key value r) (tb_Add_all sn fo kvs)"

definition build_table :: "snappy \<Rightarrow> 'f file_ops \<Rightarrow> options \<Rightarrow> pair list \<Rightarrow> 'f \<Rightarrow> (status \<times> 'f table_builder) run" where
  "build_table sn fo options kvs file =
     rbind (TableBuilder options file) (\<lambda>r. rbind (tb_Add_all sn fo kvs r) (tb_Finish sn fo))"

section \<open>The layout of the data blocks\<close>

type_synonym data_block = "pair list \<times> slice \<times> byte"

definition chunk :: "snappy \<Rightarrow> slice \<Rightarrow> byte \<Rightarrow> slice \<Rightarrow> bool" where
  "chunk sn c t raw \<longleftrightarrow> t = kNoCompression \<and> c = raw \<or>
     t = kSnappyCompression \<and> sn_uncompressed_length sn c = Some (length raw) \<and> sn_uncompress sn c = Some raw"

definition image :: "slice \<Rightarrow> pair list \<Rightarrow> bool" where
  "image raw kvs \<longleftrightarrow> (\<exists>blk ri. block_image raw blk ri \<and> pairs_of blk = kvs)"

definition stores :: "snappy \<Rightarrow> slice \<Rightarrow> byte \<Rightarrow> pair list \<Rightarrow> bool" where
  "stores sn c t kvs \<longleftrightarrow> (\<exists>raw. chunk sn c t raw \<and> image raw kvs)"

definition layout :: "data_block list \<Rightarrow> slice" where
  "layout Ws = concat (map (\<lambda>(L, c, t). stored c t) Ws)"

definition block_offset :: "data_block list \<Rightarrow> nat \<Rightarrow> nat" where
  "block_offset Ws i = length (layout (take i Ws))"

definition handle_of :: "data_block list \<Rightarrow> nat \<Rightarrow> block_handle" where
  "handle_of Ws i = \<lparr>bh_offset = of_nat (block_offset Ws i), bh_size = of_nat (length (fst (snd (Ws ! i))))\<rparr>"

definition entries_of :: "data_block list \<Rightarrow> pair list" where
  "entries_of Ws = concat (map fst Ws)"

definition groups :: "data_block list \<Rightarrow> (u64 \<times> slice list) list" where
  "groups Ws = map (\<lambda>i. (of_nat (block_offset Ws i), map fst (fst (Ws ! i)))) [0..<length Ws]"

lemma layout_snoc: "layout (Ws @ [(L, c, t)]) = layout Ws @ stored c t"
  by (simp add: layout_def)

lemma layout_split:
  assumes "j < length Ws" "Ws ! j = (L, c, t)"
  shows "layout Ws = layout (take j Ws) @ stored c t @ layout (drop (Suc j) Ws)"
proof -
  have "layout Ws = layout (take j Ws @ Ws ! j # drop (Suc j) Ws)" by (simp only: id_take_nth_drop [OF assms(1), symmetric])
  then show ?thesis by (simp add: assms(2) layout_def)
qed

lemma entries_snoc: "entries_of (Ws @ [(L, c, t)]) = entries_of Ws @ L"
  by (simp add: entries_of_def)

lemma offset_snoc_block: "i \<le> length Ws \<Longrightarrow> block_offset (Ws @ [W]) i = block_offset Ws i"
  by (simp add: block_offset_def)

lemma handle_snoc: "i < length Ws \<Longrightarrow> handle_of (Ws @ [W]) i = handle_of Ws i"
  by (simp add: handle_of_def offset_snoc_block nth_append)

lemma handle_last: "handle_of (Ws @ [(L, c, t)]) (length Ws) = \<lparr>bh_offset = of_nat (length (layout Ws)), bh_size = of_nat (length c)\<rparr>"
  by (simp add: handle_of_def block_offset_def)

lemma groups_snoc: "groups (Ws @ [(L, c, t)]) = groups Ws @ [(of_nat (length (layout Ws)), map fst L)]"
  by (simp add: groups_def offset_snoc_block nth_append block_offset_def)

text \<open>The entries of the index that are written: a separator and the handle for each of the first blocks.\<close>

definition indexed ::
  "(slice \<Rightarrow> bool) \<Rightarrow> (slice \<Rightarrow> slice \<Rightarrow> int) \<Rightarrow> data_block list \<Rightarrow> pair list \<Rightarrow> pair list \<Rightarrow> bool" where
  "indexed valid compare Ws cur idx \<longleftrightarrow> length idx \<le> length Ws \<and>
     (\<forall>j < length idx. snd (idx ! j) = handle_bytes (handle_of Ws j) \<and> valid (fst (idx ! j)) \<and>
        (\<forall>x \<in> set (fst (Ws ! j)). compare (fst x) (fst (idx ! j)) \<le> 0) \<and>
        (\<forall>x \<in> set (entries_of (drop (Suc j) Ws) @ cur). compare (fst (idx ! j)) (fst x) < 0))"

definition filtering ::
  "(slice \<Rightarrow> slice \<Rightarrow> bool) \<Rightarrow> filter_block_builder \<Rightarrow> data_block list \<Rightarrow> pair list \<Rightarrow> bool" where
  "filtering may_match b Ws cur \<longleftrightarrow> (\<exists>fs pend before. holds b fs pend \<and>
     length fs = index_of (of_nat (length (layout Ws))) \<and>
     covered may_match fs pend (groups Ws @ [(of_nat (length (layout Ws)), map fst cur)]) \<and>
     map fst (entries_of Ws @ cur) = before @ pend)"

section \<open>The state of the builder\<close>

text \<open>The options name the functions of the comparator and of the filter policy.\<close>

definition options_suit ::
  "(slice \<Rightarrow> slice \<Rightarrow> int) \<Rightarrow> (slice \<Rightarrow> slice \<Rightarrow> slice) \<Rightarrow> (slice \<Rightarrow> slice) \<Rightarrow> (slice list \<Rightarrow> slice \<Rightarrow> slice run) \<Rightarrow>
     (slice \<Rightarrow> slice \<Rightarrow> bool) \<Rightarrow> options \<Rightarrow> bool" where
  "options_suit compare separator successor create may_match o1 \<longleftrightarrow>
     cm_compare (op_comparator o1) = compare \<and> cm_separator (op_comparator o1) = separator \<and>
     cm_successor (op_comparator o1) = successor \<and> 1 \<le> op_block_restart_interval o1 \<and>
     op_compression o1 \<in> {kNoCompression, kSnappyCompression} \<and>
     (case op_filter_policy o1 of None \<Rightarrow> True | Some p \<Rightarrow> fp_create p = create \<and> fp_may_match p = may_match)"

locale table_building = comparator valid compare separator successor +
  writer: writable_file append flush contents room +
  compressor sn +
  policy: filter_policy good create may_match
  for valid :: "slice \<Rightarrow> bool" and compare :: "slice \<Rightarrow> slice \<Rightarrow> int"
    and separator :: "slice \<Rightarrow> slice \<Rightarrow> slice" and successor :: "slice \<Rightarrow> slice"
    and append :: "slice \<Rightarrow> 'f \<Rightarrow> status \<times> 'f" and flush :: "'f \<Rightarrow> status \<times> 'f"
    and contents :: "'f \<Rightarrow> slice" and room :: "'f \<Rightarrow> nat" and sn :: snappy
    and good :: "slice list \<Rightarrow> bool" and create :: "slice list \<Rightarrow> slice \<Rightarrow> slice run" and may_match :: "slice \<Rightarrow> slice \<Rightarrow> bool"
begin

abbreviation fo :: "'f file_ops" where
  "fo \<equiv> \<lparr>fo_append = append, fo_flush = flush\<rparr>"

abbreviation suits :: "options \<Rightarrow> bool" where
  "suits \<equiv> options_suit compare separator successor create may_match"

lemmas suits_def = options_suit_def [of compare separator successor create may_match]

definition written :: "data_block list \<Rightarrow> 'f \<Rightarrow> bool" where
  "written Ws f \<longleftrightarrow> contents f = layout Ws \<and> length (layout Ws) + room f < 2 ^ 32 \<and>
     (\<forall>(L, c, t) \<in> set Ws. L \<noteq> [] \<and> stores sn c t L)"

definition state :: "options \<Rightarrow> pair list \<Rightarrow> 'f table_builder \<Rightarrow> data_block list \<Rightarrow> entry list \<Rightarrow> entry list \<Rightarrow> bool" where
  "state o1 kvs r Ws blk iblk \<longleftrightarrow>
     written Ws (tb_file r) \<and> tb_offset r = of_nat (length (layout Ws)) \<and>
     (\<exists>ri. built (op_block_restart_interval o1) (tb_data_block r) blk ri) \<and> (\<exists>ri. built 1 (tb_index_block r) iblk ri) \<and>
     kvs = entries_of Ws @ pairs_of blk \<and> tb_num_entries r = int (length kvs) \<and>
     tb_last_key r = (if kvs = [] then [] else fst (last kvs)) \<and>
     indexed valid compare Ws (pairs_of blk) (pairs_of iblk) \<and>
     tb_pending_index_entry r = (Ws \<noteq> [] \<and> blk = []) \<and>
     length iblk = (if tb_pending_index_entry r then length Ws - 1 else length Ws) \<and>
     (tb_pending_index_entry r \<longrightarrow> tb_pending_handle r = handle_of Ws (length Ws - 1)) \<and>
     (case tb_filter_block r of None \<Rightarrow> op_filter_policy o1 = None
      | Some (p, b) \<Rightarrow> op_filter_policy o1 = Some p \<and> filtering may_match b Ws (pairs_of blk))"

definition building :: "options \<Rightarrow> pair list \<Rightarrow> 'f table_builder \<Rightarrow> bool" where
  "building o1 kvs r \<longleftrightarrow> \<not> tb_closed r \<and> tb_options r = o1 \<and> tb_index_options r = o1\<lparr>op_block_restart_interval := 1\<rparr> \<and>
     (tb_ok r \<longrightarrow> (\<exists>Ws blk iblk. state o1 kvs r Ws blk iblk))"

section \<open>Writing a block\<close>

lemma small_nat: "n < 2 ^ 32 \<Longrightarrow> unat (of_nat n :: u64) = n"
  by (simp add: unat_of_nat_small)

lemma WriteRawBlock_at:
  assumes "tb_offset r = of_nat (length (contents (tb_file r)))"
  shows "\<exists>s f off. WriteRawBlock fo c t r = (\<lparr>bh_offset = tb_offset r, bh_size = of_nat (length c)\<rparr>,
      r\<lparr>tb_status := s, tb_file := f, tb_offset := off\<rparr>) \<and>
    (status_ok s \<longrightarrow> contents f = contents (tb_file r) @ stored c t \<and> room (tb_file r) = room f + length (stored c t) \<and>
       off = of_nat (length (contents f))) \<and> (\<not> status_ok s \<longrightarrow> off = tb_offset r)"
proof -
  let ?trailer = "t # EncodeFixed32 (Mask (Extend 0 (crc_Value c) [t]))"
  obtain s1 f1 where a1: "append c (tb_file r) = (s1, f1)" by fastforce
  obtain s2 f2 where a2: "append ?trailer f1 = (s2, f2)" by fastforce
  note l1 = writer.append_contents [OF a1] writer.append_room [OF a1] writer.append_ok [OF a1]
  note l2 = writer.append_contents [OF a2] writer.append_room [OF a2] writer.append_ok [OF a2]
  show ?thesis
  proof (cases "status_ok s1")
    case False
    then show ?thesis using a1
      by (intro exI [of _ s1] exI [of _ f1] exI [of _ "tb_offset r"]) (simp add: WriteRawBlock_def)
  next
    case ok1: True
    show ?thesis
    proof (cases "status_ok s2")
      case False
      then show ?thesis using a1 a2 ok1
        by (intro exI [of _ s2] exI [of _ f2] exI [of _ "tb_offset r"]) (simp add: WriteRawBlock_def)
    next
      case True
      have "contents f2 = contents (tb_file r) @ stored c t" "room (tb_file r) = room f2 + length (stored c t)"
        using l1 l2 ok1 True by (simp_all add: stored_def)
      moreover have "tb_offset r + (of_nat (length c) + kBlockTrailerSize) = of_nat (length (contents f2))"
        using calculation(1) assms by (simp add: kBlockTrailerSize_def)
      ultimately show ?thesis using a1 a2 ok1 True
        by (intro exI [of _ s2] exI [of _ f2] exI [of _ "of_nat (length (contents f2))"]) (simp add: WriteRawBlock_def Let_def)
    qed
  qed
qed

lemma built_Reset: "0 \<le> i \<Longrightarrow> built i (bb_Reset b) [] [0]"
  by (simp add: built_def bb_Reset_def blk_bytes_def)

lemma WriteBlock_at:
  assumes r: "tb_ok r" "tb_offset r = of_nat (length (contents (tb_file r)))" "room (tb_file r) < 2 ^ 32"
    and o1: "suits (tb_options r)" and b: "built i block blk ri"
  shows "\<exists>c t s f off. WriteBlock sn fo block r = Ret (bb_Reset block, \<lparr>bh_offset = tb_offset r, bh_size = of_nat (length c)\<rparr>,
      r\<lparr>tb_status := s, tb_file := f, tb_offset := off, tb_compressed_output := []\<rparr>) \<and>
    (status_ok s \<longrightarrow> contents f = contents (tb_file r) @ stored c t \<and> room (tb_file r) = room f + length (stored c t) \<and>
       off = of_nat (length (contents f)) \<and> stores sn c t (pairs_of blk)) \<and> (\<not> status_ok s \<longrightarrow> off = tb_offset r)"
proof -
  define raw where "raw = fst (bb_Finish block)"
  have fin: "bb_Finish block = (raw, block\<lparr>bb_buffer := raw, bb_finished := True\<rparr>)" by (simp add: raw_def bb_Finish_def Let_def)
  have reset: "bb_Reset (block\<lparr>bb_buffer := raw, bb_finished := True\<rparr>) = bb_Reset block" by (simp add: bb_Reset_def)
  have "\<exists>c t co. (if op_compression (tb_options r) = kNoCompression then (raw, op_compression (tb_options r), r)
      else if op_compression (tb_options r) = kSnappyCompression then
        case sn_compress sn raw of
          Some compressed \<Rightarrow>
            if length compressed < length raw - length raw div 8
            then (compressed, op_compression (tb_options r), r\<lparr>tb_compressed_output := compressed\<rparr>)
            else (raw, kNoCompression, r\<lparr>tb_compressed_output := compressed\<rparr>)
        | None \<Rightarrow> (raw, kNoCompression, r)
      else ([], op_compression (tb_options r), r)) = (c, t, r\<lparr>tb_compressed_output := co\<rparr>) \<and> chunk sn c t raw \<and>
      (t = kNoCompression \<or> length raw < 2 ^ 32)"
  proof (cases "op_compression (tb_options r) = kNoCompression")
    case True
    then show ?thesis by (intro exI [of _ raw] exI [of _ kNoCompression] exI [of _ "tb_compressed_output r"]) (simp add: chunk_def)
  next
    case False
    then have snap: "op_compression (tb_options r) = kSnappyCompression" using o1 by (auto simp: suits_def)
    show ?thesis
    proof (cases "sn_compress sn raw")
      case None
      then show ?thesis using False snap
        by (intro exI [of _ raw] exI [of _ kNoCompression] exI [of _ "tb_compressed_output r"]) (simp add: chunk_def)
    next
      case (Some c)
      note u = uncompresses [OF Some]
      show ?thesis
      proof (cases "length c < length raw - length raw div 8")
        case True
        then show ?thesis using False snap Some u
          by (intro exI [of _ c] exI [of _ kSnappyCompression] exI [of _ c]) (simp add: chunk_def)
      next
        case nsmall: False
        then show ?thesis using False snap Some
          by (intro exI [of _ raw] exI [of _ kNoCompression] exI [of _ c]) (simp add: chunk_def)
      qed
    qed
  qed
  then obtain c t co where ct: "(if op_compression (tb_options r) = kNoCompression then (raw, op_compression (tb_options r), r)
      else if op_compression (tb_options r) = kSnappyCompression then
        case sn_compress sn raw of
          Some compressed \<Rightarrow>
            if length compressed < length raw - length raw div 8
            then (compressed, op_compression (tb_options r), r\<lparr>tb_compressed_output := compressed\<rparr>)
            else (raw, kNoCompression, r\<lparr>tb_compressed_output := compressed\<rparr>)
        | None \<Rightarrow> (raw, kNoCompression, r)
      else ([], op_compression (tb_options r), r)) = (c, t, r\<lparr>tb_compressed_output := co\<rparr>)" "chunk sn c t raw"
      "t = kNoCompression \<or> length raw < 2 ^ 32" by blast
  from WriteRawBlock_at [of "r\<lparr>tb_compressed_output := co\<rparr>" c t] r(2) obtain s f off where
    w: "WriteRawBlock fo c t (r\<lparr>tb_compressed_output := co\<rparr>) = (\<lparr>bh_offset = tb_offset r, bh_size = of_nat (length c)\<rparr>,
        r\<lparr>tb_compressed_output := co, tb_status := s, tb_file := f, tb_offset := off\<rparr>)"
      "status_ok s \<Longrightarrow> contents f = contents (tb_file r) @ stored c t \<and> room (tb_file r) = room f + length (stored c t) \<and>
         off = of_nat (length (contents f))" "\<not> status_ok s \<Longrightarrow> off = tb_offset r" by auto
  have "stores sn c t (pairs_of blk)" if "status_ok s"
  proof -
    have "length raw < 2 ^ 32" using ct(2,3) w(2) [OF that] r(3)
      by (auto simp: chunk_def kNoCompression_def kSnappyCompression_def)
    from Finish_image(1) [OF b this [unfolded raw_def], folded raw_def] ct(2) show ?thesis by (auto simp: stores_def image_def)
  qed
  moreover have "WriteBlock sn fo block r = Ret (bb_Reset block, \<lparr>bh_offset = tb_offset r, bh_size = of_nat (length c)\<rparr>,
      r\<lparr>tb_status := s, tb_file := f, tb_offset := off, tb_compressed_output := []\<rparr>)"
    by (simp only: WriteBlock_def Let_def fin prod.case ct(1) w(1) reset r(1) not_True_eq_False if_False) simp
  ultimately show ?thesis using w(2,3) by blast
qed

section \<open>Flush\<close>

lemma filter_StartBlock_at:
  assumes "case tb_filter_block r of None \<Rightarrow> True | Some (p, b) \<Rightarrow> fp_create p = create \<and>
    (\<exists>fs pend. holds b fs pend \<and> good pend \<and> length fs \<le> index_of off \<and> covered may_match fs pend blocks \<and> pend \<in> P)"
  shows "\<exists>fb. filter_StartBlock off r = Ret (r\<lparr>tb_filter_block := fb\<rparr>) \<and>
    (case tb_filter_block r of None \<Rightarrow> fb = None | Some (p, b) \<Rightarrow> \<exists>b' fs pend. fb = Some (p, b') \<and> holds b' fs pend \<and>
       length fs = index_of off \<and> covered may_match fs pend blocks \<and> (pend \<in> P \<or> pend = []))"
proof (cases "tb_filter_block r")
  case None
  then show ?thesis by (intro exI [of _ None]) (simp add: filter_StartBlock_def)
next
  case (Some pb)
  obtain p b where pb: "pb = (p, b)" by fastforce
  from assms Some pb obtain fs pend where a: "fp_create p = create" "holds b fs pend" "good pend" "length fs \<le> index_of off"
    "covered may_match fs pend blocks" "pend \<in> P" by auto
  from policy.StartBlock_holds [OF a(2-5)] obtain b' fs' p' where
    "StartBlock create off b = Ret b'" "holds b' fs' p'" "length fs' = index_of off" "covered may_match fs' p' blocks"
    "p' = pend \<or> p' = []" by blast
  then show ?thesis using Some pb a(1,6)
    by (intro exI [of _ "Some (p, b')"]) (auto simp: filter_StartBlock_def)
qed

lemma index_le: "a \<le> b \<Longrightarrow> b < 2 ^ 32 \<Longrightarrow> index_of (of_nat a) \<le> index_of (of_nat b)"
  by (rule index_of_mono) (simp add: word_le_nat_alt small_nat)

lemma indexed_snoc:
  "indexed valid compare Ws cur idx \<Longrightarrow> indexed valid compare (Ws @ [(cur, c, t)]) [] idx"
  unfolding indexed_def
proof (elim conjE, intro conjI allI impI)
  fix j
  assume i: "length idx \<le> length Ws" "j < length idx"
    "\<forall>j < length idx. snd (idx ! j) = handle_bytes (handle_of Ws j) \<and> valid (fst (idx ! j)) \<and>
        (\<forall>x \<in> set (fst (Ws ! j)). compare (fst x) (fst (idx ! j)) \<le> 0) \<and>
        (\<forall>x \<in> set (entries_of (drop (Suc j) Ws) @ cur). compare (fst (idx ! j)) (fst x) < 0)"
  then have j: "j < length Ws" by simp
  note f = i(3) [rule_format, OF i(2)]
  show "snd (idx ! j) = handle_bytes (handle_of (Ws @ [(cur, c, t)]) j)" using f handle_snoc [OF j] by simp
  show "valid (fst (idx ! j))" using f by simp
  show "\<forall>x \<in> set (fst ((Ws @ [(cur, c, t)]) ! j)). compare (fst x) (fst (idx ! j)) \<le> 0" using f j by (simp add: nth_append)
  have "entries_of (drop (Suc j) (Ws @ [(cur, c, t)])) @ [] = entries_of (drop (Suc j) Ws) @ cur" using j by (simp add: entries_of_def)
  then show "\<forall>x \<in> set (entries_of (drop (Suc j) (Ws @ [(cur, c, t)])) @ []). compare (fst (idx ! j)) (fst x) < 0" using f by simp
qed simp

lemma pairs_Nil: "pairs_of blk = [] \<longleftrightarrow> blk = []"
  by (simp add: pairs_of_def)

lemma Flush_at:
  assumes B: "building o1 kvs r" and o1: "suits o1" and g: "good (map fst kvs @ rest)"
  shows "\<exists>r'. tb_Flush sn fo r = Ret r' \<and> building o1 kvs r' \<and> (tb_ok r' \<longrightarrow> bb_buffer (tb_data_block r') = [])"
proof (cases "tb_ok r \<and> bb_buffer (tb_data_block r) \<noteq> []")
  case False
  then have "tb_Flush sn fo r = Ret r" using B by (auto simp: tb_Flush_def building_def)
  then show ?thesis using B False by blast
next
  case True
  from B True obtain Ws blk iblk where S: "state o1 kvs r Ws blk iblk" by (auto simp: building_def)
  note S = S [unfolded state_def]
  obtain ri iri where D: "built (op_block_restart_interval o1) (tb_data_block r) blk ri" "built 1 (tb_index_block r) iblk iri"
    using S by blast
  have W: "written Ws (tb_file r)" "tb_offset r = of_nat (length (layout Ws))"
    and K: "kvs = entries_of Ws @ pairs_of blk" "tb_num_entries r = int (length kvs)" "tb_last_key r = (if kvs = [] then [] else fst (last kvs))"
    and I: "indexed valid compare Ws (pairs_of blk) (pairs_of iblk)" "tb_pending_index_entry r = (Ws \<noteq> [] \<and> blk = [])"
      "length iblk = (if tb_pending_index_entry r then length Ws - 1 else length Ws)"
    and F: "case tb_filter_block r of None \<Rightarrow> op_filter_policy o1 = None
         | Some (p, b) \<Rightarrow> op_filter_policy o1 = Some p \<and> filtering may_match b Ws (pairs_of blk)"
    using S by blast+
  have blk: "blk \<noteq> []" using True D(1) by (auto simp: built_def blk_bytes_def)
  have opt: "tb_options r = o1" "tb_index_options r = o1\<lparr>op_block_restart_interval := 1\<rparr>" "\<not> tb_closed r" using B by (simp_all add: building_def)
  have fl0: "contents (tb_file r) = layout Ws" "length (layout Ws) + room (tb_file r) < 2 ^ 32" using W(1) by (simp_all add: written_def)
  have pre: "tb_ok r" "tb_offset r = of_nat (length (contents (tb_file r)))" "room (tb_file r) < 2 ^ 32" "suits (tb_options r)"
    using True W(2) fl0 o1 opt(1) by simp_all
  from WriteBlock_at [OF pre D(1)] obtain c t s f off where wb: "WriteBlock sn fo (tb_data_block r) r = Ret (bb_Reset (tb_data_block r),
      \<lparr>bh_offset = tb_offset r, bh_size = of_nat (length c)\<rparr>, r\<lparr>tb_status := s, tb_file := f, tb_offset := off, tb_compressed_output := []\<rparr>)"
    and ok0: "status_ok s \<longrightarrow> contents f = contents (tb_file r) @ stored c t \<and> room (tb_file r) = room f + length (stored c t) \<and>
       off = of_nat (length (contents f)) \<and> stores sn c t (pairs_of blk)" and nok: "\<not> status_ok s \<longrightarrow> off = tb_offset r" by blast
  have ok: "contents f = layout Ws @ stored c t" "room (tb_file r) = room f + length (stored c t)"
       "off = of_nat (length (contents f))" "stores sn c t (pairs_of blk)" if "status_ok s" using ok0 that fl0(1) by simp_all
  let ?h = "\<lparr>bh_offset = tb_offset r, bh_size = of_nat (length c)\<rparr>"
  obtain s2 f2 where fl: "flush f = (s2, f2)" by fastforce
  define r1 where "r1 = (let r = r\<lparr>tb_status := s, tb_file := f, tb_offset := off, tb_compressed_output := [],
      tb_data_block := bb_Reset (tb_data_block r), tb_pending_handle := ?h\<rparr> in
    if status_ok s then r\<lparr>tb_pending_index_entry := True, tb_status := s2, tb_file := f2\<rparr> else r)"
  have step: "tb_Flush sn fo r = filter_StartBlock (tb_offset r1) r1"
    using True opt(3) I(2) blk wb fl by (simp add: tb_Flush_def r1_def Let_def tb_ok_def)
  have r1: "tb_offset r1 = off" "tb_filter_block r1 = tb_filter_block r" "tb_closed r1 = tb_closed r" "tb_options r1 = tb_options r"
    "tb_index_options r1 = tb_index_options r" by (simp_all add: r1_def Let_def)
  define P where "P = {pend. \<exists>before. map fst kvs = before @ pend}"
  let ?groups = "groups Ws @ [(of_nat (length (layout Ws)), map fst (pairs_of blk))]"
  have off: "index_of (of_nat (length (layout Ws))) \<le> index_of off"
  proof (cases "status_ok s")
    case True
    then show ?thesis using index_le [of "length (layout Ws)" "length (contents f)"] ok fl0(2) by simp
  qed (use nok W(2) in simp)
  have "case tb_filter_block r1 of None \<Rightarrow> True | Some (p, b) \<Rightarrow> fp_create p = create \<and>
    (\<exists>fs pend. holds b fs pend \<and> good pend \<and> length fs \<le> index_of off \<and> covered may_match fs pend ?groups \<and> pend \<in> P)"
  proof (cases "tb_filter_block r")
    case (Some pb)
    obtain p b where pb: "pb = (p, b)" by fastforce
    with Some F obtain fs pend before where h: "op_filter_policy o1 = Some p" "holds b fs pend"
      "length fs = index_of (of_nat (length (layout Ws)))" "covered may_match fs pend ?groups" "map fst kvs = before @ pend"
      by (auto simp: filtering_def K(1))
    have "good pend" using policy.good_part [of before pend rest] g h(5) by simp
    moreover have "fp_create p = create" using o1 h(1) by (simp add: suits_def)
    moreover have "pend \<in> P" using h(5) by (auto simp: P_def)
    moreover have "length fs \<le> index_of off" using h(3) off by simp
    ultimately show ?thesis using Some pb h(2,4) by (simp add: r1(2)) blast
  qed (simp add: r1(2))
  from filter_StartBlock_at [OF this] obtain fb where fb: "filter_StartBlock off r1 = Ret (r1\<lparr>tb_filter_block := fb\<rparr>)"
    "case tb_filter_block r of None \<Rightarrow> fb = None | Some (p, b) \<Rightarrow> \<exists>b' fs pend. fb = Some (p, b') \<and> holds b' fs pend \<and>
       length fs = index_of off \<and> covered may_match fs pend ?groups \<and> (pend \<in> P \<or> pend = [])" by (auto simp: r1(2))
  let ?r = "r1\<lparr>tb_filter_block := fb\<rparr>" and ?Ws = "Ws @ [(pairs_of blk, c, t)]"
  have "building o1 kvs ?r \<and> (tb_ok ?r \<longrightarrow> bb_buffer (tb_data_block ?r) = [])"
  proof (cases "tb_ok ?r")
    case False
    then show ?thesis using opt by (simp add: building_def r1)
  next
    case okr: True
    have s: "status_ok s" using okr by (auto simp: r1_def tb_ok_def Let_def split: if_splits)
    note ok = ok [OF s]
    have lay: "layout ?Ws = contents f" using ok by (simp add: layout_snoc)
    have "written ?Ws (tb_file ?r)"
      using W(1) ok blk writer.flush_contents [OF fl] writer.flush_room [OF fl] s lay fl0(2)
      by (auto simp: written_def r1_def Let_def layout_snoc pairs_Nil)
    moreover have "tb_offset ?r = of_nat (length (layout ?Ws))" using ok by (simp add: lay r1(1))
    moreover have dr: "built (op_block_restart_interval o1) (tb_data_block ?r) [] [0]"
      using built_Reset [of "op_block_restart_interval o1" "tb_data_block r"] o1 s by (simp add: r1_def Let_def suits_def)
    moreover have "built 1 (tb_index_block ?r) iblk iri" using D(2) s by (simp add: r1_def Let_def)
    moreover have "kvs = entries_of ?Ws @ pairs_of []" by (simp add: K(1) entries_snoc pairs_of_def)
    moreover have "tb_num_entries ?r = int (length kvs)" "tb_last_key ?r = (if kvs = [] then [] else fst (last kvs))"
      using K(2,3) s by (simp_all add: r1_def Let_def)
    moreover have "indexed valid compare ?Ws (pairs_of []) (pairs_of iblk)" using indexed_snoc [OF I(1)] by (simp add: pairs_of_def)
    moreover have "tb_pending_index_entry ?r = (?Ws \<noteq> [] \<and> [] = [])" using s by (simp add: r1_def Let_def)
    moreover have "length iblk = length ?Ws - 1" using I(2,3) blk by simp
    moreover have "tb_pending_handle ?r = handle_of ?Ws (length ?Ws - 1)" using s W(2) by (simp add: r1_def Let_def handle_last)
    moreover have "case tb_filter_block ?r of None \<Rightarrow> op_filter_policy o1 = None
         | Some (p, b) \<Rightarrow> op_filter_policy o1 = Some p \<and> filtering may_match b ?Ws (pairs_of [])"
    proof (cases "tb_filter_block r")
      case (Some pb)
      obtain p b where pb: "pb = (p, b)" by fastforce
      with Some fb(2) obtain b' fs pend where h: "fb = Some (p, b')" "holds b' fs pend" "length fs = index_of off"
        "covered may_match fs pend ?groups" "pend \<in> P \<or> pend = []" by auto
      have "covered may_match fs pend (groups ?Ws @ [(of_nat (length (layout ?Ws)), map fst (pairs_of []))])"
        using h(4) by (simp add: groups_snoc covered_def pairs_of_def)
      moreover have "length fs = index_of (of_nat (length (layout ?Ws)))" using h(3) ok lay by simp
      moreover have "\<exists>before. map fst (entries_of ?Ws @ pairs_of []) = before @ pend"
        using h(5) by (auto simp: P_def entries_snoc pairs_of_def [of "[]"] K(1))
      ultimately show ?thesis using F Some pb h(1,2) by (auto simp: filtering_def)
    qed (use fb(2) F in simp)
    ultimately have "state o1 kvs ?r ?Ws [] iblk" unfolding state_def by auto
    then have "building o1 kvs ?r" using opt r1 by (auto simp: building_def)
    moreover have "bb_buffer (tb_data_block ?r) = []" using dr by (simp add: built_def blk_bytes_def)
    ultimately show ?thesis by blast
  qed
  then show ?thesis using step fb(1) r1(1) by auto
qed

section \<open>Add\<close>

lemma written_nonempty: "written Ws f \<Longrightarrow> j < length Ws \<Longrightarrow> fst (Ws ! j) \<noteq> []"
proof -
  assume w: "written Ws f" "j < length Ws"
  obtain L c t where "Ws ! j = (L, c, t)" by (metis prod_cases3)
  moreover from this have "(L, c, t) \<in> set Ws" using nth_mem [OF w(2)] by simp
  ultimately show ?thesis using w(1) by (auto simp: written_def)
qed

lemma indexed_new:
  assumes i: "indexed valid compare Ws cur idx" and w: "written Ws f" and l: "length idx < length Ws \<or> cur \<noteq> [] \<or> idx = []"
    and v: "\<forall>x \<in> set (entries_of Ws @ cur). valid (fst x) \<and> compare (fst x) (fst kv) < 0" "valid (fst kv)"
  shows "indexed valid compare Ws (cur @ [kv]) idx"
proof -
  have "compare (fst (idx ! j)) (fst kv) < 0" if j: "j < length idx" for j
  proof -
    note f = i [unfolded indexed_def, THEN conjunct2, rule_format, OF j]
    have "\<exists>x. x \<in> set (entries_of (drop (Suc j) Ws) @ cur)"
    proof (cases "cur = []")
      case True
      then have lt: "Suc j < length Ws" using l j by auto
      then have "Ws ! Suc j \<in> set (drop (Suc j) Ws)" by (metis Cons_nth_drop_Suc list.set_intros(1))
      moreover obtain x where "x \<in> set (fst (Ws ! Suc j))" using written_nonempty [OF w lt] by (cases "fst (Ws ! Suc j)") auto
      ultimately show ?thesis by (intro exI [of _ x]) (auto simp: entries_of_def)
    next
      case False
      then show ?thesis by (intro exI [of _ "hd cur"]) simp
    qed
    then obtain x where x: "x \<in> set (entries_of (drop (Suc j) Ws) @ cur)" by blast
    then have "x \<in> set (entries_of Ws @ cur)" by (auto simp: entries_of_def dest: in_set_dropD)
    with f x v show ?thesis by (meson compare_less_trans)
  qed
  then show ?thesis using i by (auto simp: indexed_def)
qed

lemma indexed_add:
  assumes "indexed valid compare Ws cur idx" "Ws \<noteq> []" "length idx = length Ws - 1" "valid k"
    "\<forall>x \<in> set (fst (last Ws)). compare (fst x) k \<le> 0" "\<forall>x \<in> set cur. compare k (fst x) < 0"
  shows "indexed valid compare Ws cur (idx @ [(k, handle_bytes (handle_of Ws (length Ws - 1)))])"
  using assms by (cases "length Ws") (auto simp: indexed_def nth_append less_Suc_eq last_conv_nth entries_of_def)

text \<open>The handle of the last block goes into the index.\<close>

lemma handle_small:
  assumes "written Ws f" "j < length Ws"
  shows "block_offset Ws j + length (fst (snd (Ws ! j))) < 2 ^ 32"
    "bh_EncodeTo [] (handle_of Ws j) = Ret (handle_bytes (handle_of Ws j))"
proof -
  obtain L c t where W: "Ws ! j = (L, c, t)" by (metis prod_cases3)
  have "layout Ws = layout (take j Ws) @ stored c t @ layout (drop (Suc j) Ws)"
    by (rule layout_split [OF assms(2) W])
  then show lt: "block_offset Ws j + length (fst (snd (Ws ! j))) < 2 ^ 32"
    using assms(1) by (simp add: written_def block_offset_def W)
  moreover have "of_nat n \<noteq> (- 1 :: u64)" if "n < 2 ^ 32" for n
  proof
    assume "of_nat n = (- 1 :: u64)"
    moreover have "unat (- 1 :: u64) = 2 ^ 64 - 1" by (simp add: unsigned_minus_1_eq_mask mask_eq_exp_minus_1)
    ultimately show False using small_nat [OF that] that by simp
  qed
  ultimately have "of_nat (block_offset Ws j) \<noteq> (- 1 :: u64)" "of_nat (length (fst (snd (Ws ! j)))) \<noteq> (- 1 :: u64)" by simp_all
  then show "bh_EncodeTo [] (handle_of Ws j) = Ret (handle_bytes (handle_of Ws j))"
    by (simp add: bh_EncodeTo_bytes handle_of_def)
qed

lemma add_index_entry_at:
  assumes o1: "suits o1" and r: "tb_index_options r = o1\<lparr>op_block_restart_interval := 1\<rparr>" "tb_pending_handle r = handle_of Ws (length Ws - 1)"
    and b: "built 1 (tb_index_block r) iblk iri" and i: "indexed valid compare Ws [] (pairs_of iblk)" "length iblk = length Ws - 1"
    and w: "written Ws f" "Ws \<noteq> []" and k: "valid k" "\<forall>x \<in> set (fst (last Ws)). valid (fst x) \<and> compare (fst x) k \<le> 0"
    "\<forall>x \<in> set cur. compare k (fst x) < 0" and cur: "indexed valid compare Ws cur (pairs_of iblk)"
  shows "\<exists>b' e iri'. add_index_entry k r = Ret (r\<lparr>tb_last_key := k, tb_index_block := b', tb_pending_index_entry := False\<rparr>) \<and>
    built 1 b' (iblk @ [e]) iri' \<and> indexed valid compare Ws cur (pairs_of (iblk @ [e]))"
proof -
  let ?h = "handle_bytes (handle_of Ws (length Ws - 1))"
  have "compare k (key_of (last iblk)) > 0" if ne: "iblk \<noteq> []"
  proof -
    let ?j = "length iblk - 1"
    have j: "?j < length (pairs_of iblk)" "pairs_of iblk ! ?j = snd (last iblk)" "Suc ?j = length Ws - 1"
      using ne i(2) length_greater_0_conv [of iblk] by (simp_all add: pairs_of_def last_conv_nth)
    obtain x where x: "x \<in> set (fst (last Ws))" using written_nonempty [OF w(1), of "length Ws - 1"] w(2)
      by (cases "fst (last Ws)") (auto simp: last_conv_nth)
    moreover have "last Ws \<in> set (drop (Suc ?j) Ws)" using j(3) w(2) by (simp add: last_conv_nth Cons_nth_drop_Suc [symmetric])
    ultimately have "valid (key_of (last iblk))" "compare (key_of (last iblk)) (fst x) < 0"
      using i(1) [unfolded indexed_def, THEN conjunct2, rule_format, OF j(1), unfolded j(2)] by (auto simp: entries_of_def)
    then show ?thesis using k(1,2) x by (metis compare_flip compare_less_le)
  qed
  then obtain b' sh iri' where b': "bb_Add compare 1 k ?h (tb_index_block r) = Ret b'" "built 1 b' (iblk @ [(sh, k, ?h)]) iri'"
    using bb_Add_built [OF b, of compare k ?h] by auto
  have "length Ws - 1 < length Ws" using w(2) by simp
  then have "add_index_entry k r = Ret (r\<lparr>tb_last_key := k, tb_index_block := b', tb_pending_index_entry := False\<rparr>)"
    using handle_small(2) [OF w(1)] b'(1) o1 by (simp add: add_index_entry_def r suits_def)
  moreover have "indexed valid compare Ws cur (pairs_of (iblk @ [(sh, k, ?h)]))"
    using indexed_add [OF cur w(2) _ k(1) _ k(3)] i(2) k(2) by (simp add: pairs_of_def)
  ultimately show ?thesis using b'(2) by blast
qed

lemma filtering_AddKey:
  assumes "filtering may_match b Ws cur" shows "filtering may_match (AddKey (fst kv) b) Ws (cur @ [kv])"
proof -
  obtain fs pend before where f: "holds b fs pend" "length fs = index_of (of_nat (length (layout Ws)))"
    "covered may_match fs pend (groups Ws @ [(of_nat (length (layout Ws)), map fst cur)])"
    "map fst (entries_of Ws @ cur) = before @ pend" using assms by (auto simp: filtering_def)
  have "covered may_match fs (pend @ [fst kv]) (groups Ws @ [(of_nat (length (layout Ws)), map fst (cur @ [kv]))])"
    using f(2,3) by (fastforce simp: covered_def)
  then show ?thesis
    unfolding filtering_def
    by (intro exI [of _ fs] exI [of _ "pend @ [fst kv]"] exI [of _ before]) (use AddKey_holds [OF f(1), of "fst kv"] f(2,4) in simp)
qed

lemma sorted_last: "sorted_wrt P xs \<Longrightarrow> x \<in> set xs \<Longrightarrow> x = last xs \<or> P x (last xs)"
  by (cases xs rule: rev_cases) (auto simp: sorted_wrt_append)

lemma last_block:
  assumes "written Ws f" "Ws \<noteq> []" "kvs = entries_of Ws" "sorted_pairs valid compare kvs"
  shows "kvs \<noteq> []" "valid (fst (last kvs))" "\<forall>x \<in> set (fst (last Ws)). valid (fst x) \<and> compare (fst x) (fst (last kvs)) \<le> 0"
proof -
  have ne: "fst (last Ws) \<noteq> []" using written_nonempty [OF assms(1), of "length Ws - 1"] assms(2) by (simp add: last_conv_nth)
  have "entries_of (butlast Ws @ [last Ws]) = entries_of (butlast Ws) @ fst (last Ws)" by (simp add: entries_of_def)
  then have last: "kvs = entries_of (butlast Ws) @ fst (last Ws)" using assms(2,3) by simp
  then show k: "kvs \<noteq> []" using ne by simp
  have v: "\<forall>x \<in> set kvs. valid (fst x)" using assms(4) by (simp add: sorted_pairs_def)
  then show l: "valid (fst (last kvs))" using k by simp
  have "compare (fst x) (fst (last kvs)) \<le> 0" if "x \<in> set kvs" for x
    using sorted_last [of "keys_less compare" kvs x] assms(4) that compare_refl [OF l] by (auto simp: sorted_pairs_def)
  then show "\<forall>x \<in> set (fst (last Ws)). valid (fst x) \<and> compare (fst x) (fst (last kvs)) \<le> 0" using v last by auto
qed

lemma index_ready:
  assumes S: "state o1 kvs r Ws blk iblk" and o1: "suits o1" and r: "tb_options r = o1" "tb_index_options r = o1\<lparr>op_block_restart_interval := 1\<rparr>"
    and s: "sorted_pairs valid compare (kvs @ [(key, value)])"
  shows "\<exists>lk b' iblk' iri. (if tb_pending_index_entry r then
        if bb_buffer (tb_data_block r) \<noteq> [] then UB
        else add_index_entry (cm_separator (op_comparator (tb_options r)) (tb_last_key r) key) r
      else Ret r) = Ret (r\<lparr>tb_last_key := lk, tb_index_block := b', tb_pending_index_entry := False\<rparr>) \<and>
    built 1 b' iblk' iri \<and> indexed valid compare Ws (pairs_of blk @ [(key, value)]) (pairs_of iblk') \<and> length iblk' = length Ws"
proof -
  have v: "\<forall>x \<in> set kvs. valid (fst x) \<and> compare (fst x) key < 0" "valid key" using s by (auto simp: sorted_pairs_def sorted_wrt_append)
  from S obtain ri iri where D: "built (op_block_restart_interval o1) (tb_data_block r) blk ri" "built 1 (tb_index_block r) iblk iri"
    by (auto simp: state_def)
  from S have W: "written Ws (tb_file r)" and K: "kvs = entries_of Ws @ pairs_of blk" "tb_last_key r = (if kvs = [] then [] else fst (last kvs))"
    and I: "indexed valid compare Ws (pairs_of blk) (pairs_of iblk)" "tb_pending_index_entry r = (Ws \<noteq> [] \<and> blk = [])"
      "length iblk = (if tb_pending_index_entry r then length Ws - 1 else length Ws)"
    and H: "tb_pending_index_entry r \<Longrightarrow> tb_pending_handle r = handle_of Ws (length Ws - 1)" by (auto simp: state_def)
  have "length (pairs_of iblk) < length Ws \<or> pairs_of blk \<noteq> [] \<or> pairs_of iblk = []"
    using I(2,3) by (auto simp: pairs_of_def)
  from indexed_new [OF I(1) W this, of "(key, value)"] v K(1) have N: "indexed valid compare Ws (pairs_of blk @ [(key, value)]) (pairs_of iblk)"
    by simp
  show ?thesis
  proof (cases "tb_pending_index_entry r")
    case False
    then have "r = r\<lparr>tb_last_key := tb_last_key r, tb_index_block := tb_index_block r, tb_pending_index_entry := False\<rparr>" by simp
    moreover have "length iblk = length Ws" using I(3) False by simp
    ultimately show ?thesis using False D(2) N
      by (intro exI [of _ "tb_last_key r"] exI [of _ "tb_index_block r"] exI [of _ iblk] exI [of _ iri]) simp
  next
    case True
    then have blk: "blk = []" "Ws \<noteq> []" "length iblk = length Ws - 1" using I by auto
    have K1: "kvs = entries_of Ws" using K(1) blk(1) by (simp add: pairs_of_def)
    have s1: "sorted_pairs valid compare kvs" using s by (simp add: sorted_pairs_def sorted_wrt_append)
    note lb = last_block [OF W blk(2) K1 s1]
    let ?l = "fst (last kvs)" let ?k = "separator ?l key"
    have l: "kvs \<noteq> []" "tb_last_key r = ?l" using lb(1) K(2) by auto
    have vl: "valid ?l" "compare ?l key < 0" using v l(1) by auto
    note sep = separator_valid [OF vl(1) v(2)] separator_between [OF vl(1) v(2) vl(2)]
    have A: "\<forall>x \<in> set (fst (last Ws)). valid (fst x) \<and> compare (fst x) ?k \<le> 0"
      using sep vl(1) lb(3) by (auto intro: compare_trans)
    have B: "\<forall>x \<in> set [(key, value)]. compare ?k (fst x) < 0" using sep by simp
    have Nil: "pairs_of blk = []" by (simp add: blk(1) pairs_of_def)
    from add_index_entry_at [OF o1 r(2) H [OF True] D(2) I(1) [unfolded Nil] blk(3) W blk(2) sep(1) A B N [unfolded Nil append_Nil]]
    obtain b' e iri' where "add_index_entry ?k r = Ret (r\<lparr>tb_last_key := ?k, tb_index_block := b', tb_pending_index_entry := False\<rparr>)"
      "built 1 b' (iblk @ [e]) iri'" "indexed valid compare Ws [(key, value)] (pairs_of (iblk @ [e]))" by blast
    moreover have "bb_buffer (tb_data_block r) = []" using D(1) blk(1) by (simp add: built_def blk_bytes_def)
    moreover have "length (iblk @ [e]) = length Ws" using blk(2,3) by simp
    ultimately show ?thesis using True l(2) r(1) o1 unfolding Nil append_Nil
      by (intro exI [of _ ?k] exI [of _ b'] exI [of _ "iblk @ [e]"] exI [of _ iri']) (simp add: suits_def)
  qed
qed

lemma tb_Add_at:
  assumes B: "building o1 kvs r" and o1: "suits o1" and g: "good (map fst kvs @ key # rest)"
    and s: "sorted_pairs valid compare (kvs @ [(key, value)])"
  shows "\<exists>r'. tb_Add sn fo key value r = Ret r' \<and> building o1 (kvs @ [(key, value)]) r'"
proof (cases "tb_ok r")
  case False
  then show ?thesis using B by (auto simp: tb_Add_def building_def)
next
  case ok: True
  from B ok obtain Ws blk iblk where S: "state o1 kvs r Ws blk iblk" by (auto simp: building_def)
  have opt: "tb_options r = o1" "tb_index_options r = o1\<lparr>op_block_restart_interval := 1\<rparr>" "\<not> tb_closed r" using B by (simp_all add: building_def)
  have v: "\<forall>x \<in> set kvs. valid (fst x) \<and> compare (fst x) key < 0" "valid key" using s by (auto simp: sorted_pairs_def sorted_wrt_append)
  note S1 = S [unfolded state_def]
  from index_ready [OF S o1 opt(1,2) s] obtain lk b' iblk' iri where
    ix: "(if tb_pending_index_entry r then
        if bb_buffer (tb_data_block r) \<noteq> [] then UB
        else add_index_entry (cm_separator (op_comparator (tb_options r)) (tb_last_key r) key) r
      else Ret r) = Ret (r\<lparr>tb_last_key := lk, tb_index_block := b', tb_pending_index_entry := False\<rparr>)"
    "built 1 b' iblk' iri" "indexed valid compare Ws (pairs_of blk @ [(key, value)]) (pairs_of iblk')" "length iblk' = length Ws" by blast
  have guard: "\<not> (tb_num_entries r > 0 \<and> \<not> cm_compare (op_comparator (tb_options r)) key (tb_last_key r) > 0)"
  proof -
    have cmp: "cm_compare (op_comparator (tb_options r)) = compare" using o1 opt(1) by (simp add: suits_def)
    have k: "tb_num_entries r = int (length kvs)" "tb_last_key r = (if kvs = [] then [] else fst (last kvs))" using S1 by simp_all
    show ?thesis unfolding cmp k using v compare_flip [of "fst (last kvs)" key] by (cases "kvs = []") simp_all
  qed
  from S1 obtain ri where D: "built (op_block_restart_interval o1) (tb_data_block r) blk ri" and kvs: "kvs = entries_of Ws @ pairs_of blk" by blast
  have oi: "1 \<le> op_block_restart_interval o1" using o1 by (simp add: suits_def)
  have "blk = [] \<or> compare key (key_of (last blk)) > 0"
  proof (cases "blk = []")
    case False
    then have "snd (last blk) \<in> set kvs" by (simp add: kvs pairs_of_def)
    then show ?thesis using v compare_flip [of "key_of (last blk)" key] by auto
  qed simp
  from bb_Add_built [where compare = compare and key = key, OF D oi this] obtain db sh ri' where
    db: "bb_Add compare (op_block_restart_interval o1) key value (tb_data_block r) = Ret db"
      "built (op_block_restart_interval o1) db (blk @ [(sh, key, value)]) ri'" by blast
  define r' where "r' = r\<lparr>tb_index_block := b', tb_pending_index_entry := False,
    tb_filter_block := map_option (\<lambda>(p, b). (p, AddKey key b)) (tb_filter_block r), tb_last_key := key, tb_num_entries := tb_num_entries r + 1, tb_data_block := db\<rparr>"
  have cmp: "cm_compare (op_comparator o1) = compare" using o1 by (simp add: suits_def)
  have step: "tb_Add sn fo key value r =
    (if of_nat (bb_CurrentSizeEstimate db) \<ge> op_block_size o1 then tb_Flush sn fo r' else Ret r')"
    unfolding tb_Add_def if_not_P [OF guard] ix(1) using ok opt(3) db(1) by (simp add: opt(1) r'_def cmp Let_def)
  have pairs: "pairs_of (blk @ [(sh, key, value)]) = pairs_of blk @ [(key, value)]" by (simp add: pairs_of_def)
  have "case tb_filter_block r' of None \<Rightarrow> op_filter_policy o1 = None
      | Some (p, b) \<Rightarrow> op_filter_policy o1 = Some p \<and> filtering may_match b Ws (pairs_of (blk @ [(sh, key, value)]))"
    using S1 filtering_AddKey [of _ Ws "pairs_of blk" "(key, value)"] by (auto simp: r'_def pairs split: option.splits)
  then have "state o1 (kvs @ [(key, value)]) r' Ws (blk @ [(sh, key, value)]) iblk'"
    using S1 ix(2-4) db(2) unfolding state_def pairs by (auto simp: r'_def)
  then have "building o1 (kvs @ [(key, value)]) r'" using opt by (auto simp: building_def r'_def)
  with Flush_at [OF this o1, of rest] g show ?thesis by (cases "of_nat (bb_CurrentSizeEstimate db) \<ge> op_block_size o1") (auto simp: step)
qed

lemma tb_Add_all_at:
  "building o1 kvs0 r \<Longrightarrow> suits o1 \<Longrightarrow> good (map fst (kvs0 @ kvs)) \<Longrightarrow> sorted_pairs valid compare (kvs0 @ kvs) \<Longrightarrow>
     \<exists>r'. tb_Add_all sn fo kvs r = Ret r' \<and> building o1 (kvs0 @ kvs) r'"
proof (induction kvs arbitrary: kvs0 r)
  case (Cons kv kvs)
  obtain key val where kv: "kv = (key, val)" by fastforce
  have "sorted_pairs valid compare (kvs0 @ [(key, val)])" using Cons.prems(4) by (auto simp: kv sorted_pairs_def sorted_wrt_append)
  from tb_Add_at [OF Cons.prems(1,2) _ this, of "map fst kvs"] Cons.prems(3) obtain r1 where
    r1: "tb_Add sn fo key val r = Ret r1" "building o1 (kvs0 @ [(key, val)]) r1" by (auto simp: kv)
  from Cons.IH [OF r1(2) Cons.prems(2)] Cons.prems(3,4) show ?case by (simp add: r1(1) kv)
qed simp

lemma TableBuilder_at:
  assumes "suits o1" "contents f0 = []" "room f0 < 2 ^ 32" "good []"
  shows "\<exists>r. TableBuilder o1 f0 = Ret r \<and> building o1 [] r"
proof -
  define b0 where "b0 = \<lparr>bb_buffer = [], bb_restarts = [0], bb_counter = 0, bb_finished = False, bb_last_key = []\<rparr>"
  define r0 where "r0 = \<lparr>tb_options = o1, tb_index_options = o1\<lparr>op_block_restart_interval := 1\<rparr>, tb_file = f0, tb_offset = 0,
            tb_status = Status_OK, tb_data_block = b0, tb_index_block = b0, tb_last_key = [],
            tb_num_entries = 0, tb_closed = False,
            tb_filter_block = map_option (\<lambda>policy. (policy, FilterBlockBuilder)) (op_filter_policy o1),
            tb_pending_index_entry = False, tb_pending_handle = BlockHandle, tb_compressed_output = []\<rparr>"
  have i: "1 \<le> op_block_restart_interval o1" using assms(1) by (simp add: suits_def)
  have b0: "built i b0 [] [0]" if "1 \<le> i" for i using that by (simp add: built_def b0_def blk_bytes_def)
  have z: "index_of 0 = 0" by (simp add: index_of_def)
  have h: "holds FilterBlockBuilder [] []" by (simp add: holds_def FilterBlockBuilder_def offsets_def)
  have "case tb_filter_block r0 of None \<Rightarrow> True | Some (p, b) \<Rightarrow> fp_create p = create \<and>
    (\<exists>fs pend. holds b fs pend \<and> good pend \<and> length fs \<le> index_of 0 \<and> covered may_match fs pend [] \<and> pend \<in> {[]})"
    using assms(1,4) h by (auto simp: r0_def suits_def z covered_def split: option.splits)
  from filter_StartBlock_at [OF this] obtain fb where fb: "filter_StartBlock 0 r0 = Ret (r0\<lparr>tb_filter_block := fb\<rparr>)"
    "case tb_filter_block r0 of None \<Rightarrow> fb = None | Some (p, b) \<Rightarrow> \<exists>b' fs pend. fb = Some (p, b') \<and> holds b' fs pend \<and>
       length fs = 0 \<and> covered may_match fs pend [] \<and> (pend \<in> {[]} \<or> pend = [])" unfolding z by blast
  have "TableBuilder o1 f0 = Ret (r0\<lparr>tb_filter_block := fb\<rparr>)"
    using i fb(1) by (simp add: TableBuilder_def BlockBuilder_def r0_def b0_def)
  moreover have "state o1 [] (r0\<lparr>tb_filter_block := fb\<rparr>) [] [] []"
    using assms(2,3) b0 i fb(2)
    by (auto simp: state_def written_def layout_def entries_of_def pairs_of_def indexed_def filtering_def groups_def covered_def z r0_def
        split: option.splits)
  ultimately show ?thesis by (auto simp: building_def r0_def)
qed

end

end
