(* ===== verification/Ldb_Table.thy ===== *)
theory Ldb_Table
  imports Ldb_Two_Level Ldb_Table_Built
begin

text \<open>
  leveldb, \<open>table/table.cc\<close>: opening a table, its filter, the reader of its blocks, its iterator and its lookup. The
  iterator of a block is one of the three that \<open>Block::NewIterator\<close> gives, with the cleanup that \<open>BlockReader\<close> registers:
  a block of the iterator's own is deleted with it, the handle of a block in the cache is released with it. The block
  cache is a record of operations on a state of its own. An iterator over a cached block reads it only while the value of
  its handle is there; a read after that is undefined.
\<close>

section \<open>Iterators of blocks\<close>

definition bit_move :: "(block_iter \<Rightarrow> block_iter run) \<Rightarrow> block_iterator \<Rightarrow> block_iterator run" where
  "bit_move f i = (case i of Block_Iterator it \<Rightarrow> rbind (f it) (\<lambda>it. Ret (Block_Iterator it)) | _ \<Rightarrow> Ret i)"

definition bit_step :: "(block_iter \<Rightarrow> 'a run) \<Rightarrow> block_iterator \<Rightarrow> 'a run" where
  "bit_step f i = (case i of Block_Iterator it \<Rightarrow> f it | _ \<Rightarrow> UB)"

definition bit_ops :: "(slice \<Rightarrow> slice \<Rightarrow> int) \<Rightarrow> block_iterator iter_ops" where
  "bit_ops compare = \<lparr>io_Valid = (\<lambda>i. case i of Block_Iterator it \<Rightarrow> bi_Valid it | _ \<Rightarrow> False),
     io_SeekToFirst = bit_move bi_SeekToFirst, io_SeekToLast = bit_move bi_SeekToLast,
     io_Seek = (\<lambda>target. bit_move (bi_Seek compare target)),
     io_Next = bit_step (\<lambda>it. rbind (bi_Next it) (\<lambda>it. Ret (Block_Iterator it))),
     io_Prev = bit_step (\<lambda>it. rbind (bi_Prev it) (\<lambda>it. Ret (Block_Iterator it))),
     io_key = bit_step bi_get_key, io_value = bit_step bi_get_value,
     io_status = (\<lambda>i. Ret (case i of Error_Iterator s \<Rightarrow> s | Empty_Iterator \<Rightarrow> Status_OK | Block_Iterator it \<Rightarrow> bi_status it))\<rparr>"

section \<open>Opening a table\<close>

text \<open>The operations of \<open>Cache\<close> that tables call; \<open>'h\<close> are its handles.\<close>

record ('c, 'h) block_cache =
  bca_NewId :: "'c \<Rightarrow> u64 \<times> 'c"
  bca_Lookup :: "slice \<Rightarrow> 'c \<Rightarrow> ('h option \<times> 'c) run"
  bca_Value :: "'h \<Rightarrow> 'c \<Rightarrow> block run"
  bca_Insert :: "slice \<Rightarrow> block \<Rightarrow> u64 \<Rightarrow> 'c \<Rightarrow> ('h \<times> 'c) run"
  bca_Release :: "'h \<Rightarrow> 'c \<Rightarrow> 'c run"

record table =
  ta_options :: options
  ta_file :: read_fun
  ta_cache_id :: u64
  ta_filter :: "(filter_funs \<times> filter_block_reader) option"
  ta_metaindex_handle :: block_handle
  ta_index_block :: block

definition paranoid_options :: "options \<Rightarrow> read_options" where
  "paranoid_options options = (if op_paranoid_checks options then ReadOptions\<lparr>ro_verify_checksums := True\<rparr> else ReadOptions)"

definition ReadFilter :: "snappy \<Rightarrow> filter_funs \<Rightarrow> slice \<Rightarrow> table \<Rightarrow> table run" where
  "ReadFilter sn policy filter_handle_value t =
     (case bh_DecodeFrom filter_handle_value BlockHandle of (s, filter_handle, v) \<Rightarrow>
        if \<not> status_ok s then Ret t
        else rbind (ReadBlock sn (ta_file t) (paranoid_options (ta_options t)) filter_handle) (\<lambda>(s, block).
          if \<not> status_ok s then Ret t else Ret (t\<lparr>ta_filter := Some (policy, FilterBlockReader (bc_data block))\<rparr>)))"

definition ReadMeta :: "snappy \<Rightarrow> footer \<Rightarrow> table \<Rightarrow> table run" where
  "ReadMeta sn footer t =
     (case op_filter_policy (ta_options t) of None \<Rightarrow> Ret t
      | Some policy \<Rightarrow>
          rbind (ReadBlock sn (ta_file t) (paranoid_options (ta_options t)) (ft_metaindex_handle footer)) (\<lambda>(s, contents).
            if \<not> status_ok s then Ret t
            else
              let meta = Block (bc_data contents);
                  ops = bit_ops slice_compare;
                  key = cstr ''filter.'' @ fp_name policy
              in rbind (bl_NewIterator meta) (\<lambda>iter.
                   rbind (io_Seek ops key iter) (\<lambda>iter.
                     if io_Valid ops iter then
                       rbind (io_key ops iter) (\<lambda>k.
                         if k = key then rbind (io_value ops iter) (\<lambda>v. ReadFilter sn policy v t) else Ret t)
                     else Ret t))))"

definition Open ::
  "snappy \<Rightarrow> ('c, 'h) block_cache option \<Rightarrow> options \<Rightarrow> read_fun \<Rightarrow> u64 \<Rightarrow> 'c \<Rightarrow> (status \<times> table option \<times> 'c) run" where
  "Open sn cache options file sz c =
     (if sz < of_nat kEncodedLength then Ret (Corruption (cstr ''file is too short to be an sstable'') [], None, c)
      else
        rbind (file (sz - of_nat kEncodedLength) (of_nat kEncodedLength)) (\<lambda>(s, footer_input, scratch).
          if \<not> status_ok s then Ret (s, None, c)
          else
            rbind (Footer_DecodeFrom footer_input \<lparr>ft_metaindex_handle = BlockHandle, ft_index_handle = BlockHandle\<rparr>)
              (\<lambda>(s, footer, footer_input).
                if \<not> status_ok s then Ret (s, None, c)
                else
                  rbind (ReadBlock sn file (paranoid_options options) (ft_index_handle footer)) (\<lambda>(s, contents).
                    if \<not> status_ok s then Ret (s, None, c)
                    else
                      let index_block = Block (bc_data contents);
                          (cache_id, c) = (case cache of Some ops \<Rightarrow> bca_NewId ops c | None \<Rightarrow> (0, c));
                          t = \<lparr>ta_options = options, ta_file = file, ta_cache_id = cache_id, ta_filter = None,
                               ta_metaindex_handle = ft_metaindex_handle footer, ta_index_block = index_block\<rparr>
                      in rbind (ReadMeta sn footer t) (\<lambda>t. Ret (s, Some t, c))))))"

section \<open>Reading a table\<close>

definition cache_key :: "u64 \<Rightarrow> block_handle \<Rightarrow> slice" where
  "cache_key cache_id handle = EncodeFixed64 cache_id @ EncodeFixed64 (bh_offset handle)"

definition read_new_block :: "snappy \<Rightarrow> table \<Rightarrow> read_options \<Rightarrow> block_handle \<Rightarrow> (status \<times> block option \<times> bool) run" where
  "read_new_block sn t options handle =
     rbind (ReadBlock sn (ta_file t) options handle) (\<lambda>(s, contents).
       Ret (if status_ok s then (s, Some (Block (bc_data contents)), bc_cachable contents) else (s, None, False)))"

text \<open>What happens to the block when its iterator is destroyed.\<close>

datatype 'h cleanup = DeleteBlock | ReleaseBlock 'h

record 'h data_iterator =
  dt_iter :: block_iterator
  dt_cleanup :: "'h cleanup list"

fun run_cleanup :: "('c, 'h) block_cache option \<Rightarrow> 'h cleanup \<Rightarrow> 'c \<Rightarrow> 'c run" where
  "run_cleanup cache DeleteBlock c = Ret c"
| "run_cleanup cache (ReleaseBlock handle) c = (case cache of None \<Rightarrow> UB | Some ops \<Rightarrow> bca_Release ops handle c)"

definition data_destroy :: "('c, 'h) block_cache option \<Rightarrow> 'h data_iterator \<Rightarrow> 'c \<Rightarrow> 'c run" where
  "data_destroy cache i = Iterator_destroy (map (run_cleanup cache) (dt_cleanup i))"

text \<open>The block that the iterator reads has not been freed: it is the iterator's own, or the value of its handle.\<close>

fun block_there :: "('c, 'h) block_cache option \<Rightarrow> 'c \<Rightarrow> 'h cleanup \<Rightarrow> bool" where
  "block_there cache c DeleteBlock = True"
| "block_there cache c (ReleaseBlock handle) =
     (case cache of None \<Rightarrow> False | Some ops \<Rightarrow> (case bca_Value ops handle c of Ret b \<Rightarrow> True | _ \<Rightarrow> False))"

definition reads_block :: "('c, 'h) block_cache option \<Rightarrow> 'c \<Rightarrow> (block_iterator \<Rightarrow> 'a run) \<Rightarrow> 'h data_iterator \<Rightarrow> 'a run" where
  "reads_block cache c f i =
     (case dt_iter i of
        Block_Iterator it \<Rightarrow> if list_all (block_there cache c) (dt_cleanup i) then f (dt_iter i) else UB
      | _ \<Rightarrow> f (dt_iter i))"

definition data_move :: "('c, 'h) block_cache option \<Rightarrow> 'c \<Rightarrow> (block_iterator \<Rightarrow> block_iterator run) \<Rightarrow> 'h data_iterator \<Rightarrow> 'h data_iterator run" where
  "data_move cache c f i = rbind (reads_block cache c f i) (\<lambda>it. Ret (i\<lparr>dt_iter := it\<rparr>))"

definition data_ops :: "(slice \<Rightarrow> slice \<Rightarrow> int) \<Rightarrow> ('c, 'h) block_cache option \<Rightarrow> 'c \<Rightarrow> 'h data_iterator iter_ops" where
  "data_ops compare cache c =
     (let ops = bit_ops compare; mv = data_move cache c in
      \<lparr>io_Valid = (\<lambda>i. io_Valid ops (dt_iter i)), io_SeekToFirst = mv (io_SeekToFirst ops), io_SeekToLast = mv (io_SeekToLast ops),
       io_Seek = (\<lambda>target. mv (io_Seek ops target)), io_Next = mv (io_Next ops), io_Prev = mv (io_Prev ops),
       io_key = (\<lambda>i. io_key ops (dt_iter i)), io_value = reads_block cache c (io_value ops),
       io_status = (\<lambda>i. io_status ops (dt_iter i))\<rparr>)"

definition BlockReader ::
  "snappy \<Rightarrow> ('c, 'h) block_cache option \<Rightarrow> table \<Rightarrow> read_options \<Rightarrow> slice \<Rightarrow> 'c \<Rightarrow> ('h data_iterator \<times> 'c) run" where
  "BlockReader sn cache t options index_value c =
     (case bh_DecodeFrom index_value BlockHandle of (s, handle, input) \<Rightarrow>
        rbind (if \<not> status_ok s then Ret (s, None, None, c)
               else
                 case cache of
                   Some ops \<Rightarrow>
                     let key = cache_key (ta_cache_id t) handle in
                     rbind (bca_Lookup ops key c) (\<lambda>(cache_handle, c).
                       case cache_handle of
                         Some h \<Rightarrow> rbind (bca_Value ops h c) (\<lambda>block. Ret (s, Some block, Some h, c))
                       | None \<Rightarrow>
                           rbind (read_new_block sn t options handle) (\<lambda>(s, block, cachable).
                             case block of
                               None \<Rightarrow> Ret (s, None, None, c)
                             | Some b \<Rightarrow>
                                 if cachable \<and> ro_fill_cache options
                                 then rbind (bca_Insert ops key b (of_nat (bl_size b)) c) (\<lambda>(h, c). Ret (s, Some b, Some h, c))
                                 else Ret (s, Some b, None, c)))
                 | None \<Rightarrow> rbind (read_new_block sn t options handle) (\<lambda>(s, block, cachable). Ret (s, block, None, c)))
          (\<lambda>(s, block, cache_handle, c).
            case block of
              Some b \<Rightarrow>
                rbind (bl_NewIterator b) (\<lambda>iter.
                  let f = (case cache_handle of None \<Rightarrow> DeleteBlock | Some h \<Rightarrow> ReleaseBlock h)
                  in Ret (\<lparr>dt_iter = iter, dt_cleanup = RegisterCleanup f []\<rparr>, c))
            | None \<Rightarrow> Ret (\<lparr>dt_iter = Error_Iterator s, dt_cleanup = []\<rparr>, c)))"

abbreviation table_compare :: "table \<Rightarrow> slice \<Rightarrow> slice \<Rightarrow> int" where
  "table_compare t \<equiv> cm_compare (op_comparator (ta_options t))"

type_synonym ('c, 'h) table_iter = "(block_iterator, 'h data_iterator, 'c) two_level"

definition ta_NewIterator :: "table \<Rightarrow> 'c \<Rightarrow> ('c, 'h) table_iter run" where
  "ta_NewIterator t c =
     rbind (bl_NewIterator (ta_index_block t)) (\<lambda>i. TwoLevelIterator (bit_ops (table_compare t)) c i)"

definition table_iter_ops ::
  "nat \<Rightarrow> snappy \<Rightarrow> ('c, 'h) block_cache option \<Rightarrow> table \<Rightarrow> read_options \<Rightarrow> ('c, 'h) table_iter iter_ops" where
  "table_iter_ops fuel sn cache t options =
     two_level_ops fuel (bit_ops (table_compare t)) (data_ops (table_compare t) cache) (data_destroy cache)
       (BlockReader sn cache t options)"

definition table_iter_destroy :: "('c, 'h) block_cache option \<Rightarrow> ('c, 'h) table_iter \<Rightarrow> 'c run" where
  "table_iter_destroy cache = tl_destroy (data_destroy cache)"

text \<open>The filter is asked only for a handle that can be decoded.\<close>

definition filtered_out :: "table \<Rightarrow> slice \<Rightarrow> slice \<Rightarrow> bool run" where
  "filtered_out t handle_value k =
     (case ta_filter t of None \<Rightarrow> Ret False
      | Some (policy, reader) \<Rightarrow>
          (case bh_DecodeFrom handle_value BlockHandle of (s, handle, rest) \<Rightarrow>
             if status_ok s then
               rbind (filter_KeyMayMatch (fp_may_match policy) reader (bh_offset handle) k) (\<lambda>m. Ret (\<not> m))
             else Ret False))"

definition InternalGet ::
  "snappy \<Rightarrow> ('c, 'h) block_cache option \<Rightarrow> read_options \<Rightarrow> slice \<Rightarrow> (slice \<Rightarrow> slice \<Rightarrow> 'a \<Rightarrow> 'a) \<Rightarrow> table \<Rightarrow> 'a \<Rightarrow> 'c \<Rightarrow>
     (status \<times> 'a \<times> 'c) run" where
  "InternalGet sn cache options k saver t arg c =
     (let ops = bit_ops (table_compare t) in
      rbind (bl_NewIterator (ta_index_block t)) (\<lambda>iiter.
        rbind (io_Seek ops k iiter) (\<lambda>iiter.
          rbind (if io_Valid ops iiter then
                   rbind (io_value ops iiter) (\<lambda>handle_value.
                     rbind (filtered_out t handle_value k) (\<lambda>out.
                       if out then Ret (Status_OK, arg, c)
                       else
                         rbind (io_value ops iiter) (\<lambda>index_value.
                           rbind (BlockReader sn cache t options index_value c) (\<lambda>(block_iter, c).
                             let bops = data_ops (table_compare t) cache c in
                             rbind (io_Seek bops k block_iter) (\<lambda>block_iter.
                               rbind (if io_Valid bops block_iter then
                                        rbind (io_key bops block_iter) (\<lambda>key.
                                          rbind (io_value bops block_iter) (\<lambda>v. Ret (saver key v arg)))
                                      else Ret arg) (\<lambda>arg.
                                 rbind (io_status bops block_iter) (\<lambda>s.
                                   rbind (data_destroy cache block_iter c) (\<lambda>c. Ret (s, arg, c)))))))))
                 else Ret (Status_OK, arg, c)) (\<lambda>(s, arg, c).
            if status_ok s then rbind (io_status ops iiter) (\<lambda>s. Ret (s, arg, c)) else Ret (s, arg, c)))))"

definition ApproximateOffsetOf :: "slice \<Rightarrow> table \<Rightarrow> u64 run" where
  "ApproximateOffsetOf key t =
     (let ops = bit_ops (table_compare t) in
      rbind (bl_NewIterator (ta_index_block t)) (\<lambda>index_iter.
        rbind (io_Seek ops key index_iter) (\<lambda>index_iter.
          if io_Valid ops index_iter then
            rbind (io_value ops index_iter) (\<lambda>input.
              case bh_DecodeFrom input BlockHandle of (s, handle, rest) \<Rightarrow>
                Ret (if status_ok s then bh_offset handle else bh_offset (ta_metaindex_handle t)))
          else Ret (bh_offset (ta_metaindex_handle t)))))"

section \<open>The iterator of a block keeps the contract\<close>

definition bit_cursor ::
  "(slice \<Rightarrow> bool) \<Rightarrow> (slice \<Rightarrow> slice \<Rightarrow> int) \<Rightarrow> block_iterator \<Rightarrow> pair list \<Rightarrow> nat \<Rightarrow> bool" where
  "bit_cursor valid compare i kvs p \<longleftrightarrow> (\<exists>it. i = Block_Iterator it \<and> block_cursor valid compare it kvs p)"

lemma bit_contract:
  assumes "key_order valid compare"
  shows "iterator_contract valid compare (bit_ops compare) (bit_cursor valid compare)"
proof (rule iterator_contract.intro [OF slice_order.intro [OF assms]], unfold_locales)
  note b = block_contract [OF assms]
  fix i kvs p target
  assume "bit_cursor valid compare i kvs p"
  then obtain it where i: "i = Block_Iterator it" and c: "block_cursor valid compare it kvs p" by (auto simp: bit_cursor_def)
  have mv: "\<exists>i'. bit_move f i = Ret i' \<and> bit_cursor valid compare i' kvs q"
    if "\<exists>it'. f it = Ret it' \<and> block_cursor valid compare it' kvs q" for f q
    using that i by (auto simp: bit_move_def bit_cursor_def)
  have st: "\<exists>i'. bit_step (\<lambda>it. rbind (f it) (\<lambda>it. Ret (Block_Iterator it))) i = Ret i' \<and> bit_cursor valid compare i' kvs q"
    if "\<exists>it'. f it = Ret it' \<and> block_cursor valid compare it' kvs q" for f q
    using that i by (auto simp: bit_step_def bit_cursor_def)
  show "sorted_pairs valid compare kvs" "p \<le> length kvs"
    using iterator_contract.cursor_sorted [OF b c] iterator_contract.cursor_le [OF b c] .
  show "io_Valid (bit_ops compare) i \<longleftrightarrow> p < length kvs" "io_status (bit_ops compare) i = Ret Status_OK"
    using iterator_contract.Valid_iff [OF b c] iterator_contract.status_at [OF b c] by (simp_all add: i bit_ops_def block_ops_def)
  show "\<exists>i'. io_SeekToFirst (bit_ops compare) i = Ret i' \<and> bit_cursor valid compare i' kvs 0"
    using mv [of bi_SeekToFirst] iterator_contract.SeekToFirst_at [OF b c] by (simp add: bit_ops_def block_ops_def)
  show "\<exists>i'. io_SeekToLast (bit_ops compare) i = Ret i' \<and> bit_cursor valid compare i' kvs (length kvs - 1)"
    using mv [of bi_SeekToLast] iterator_contract.SeekToLast_at [OF b c] by (simp add: bit_ops_def block_ops_def)
  show "\<exists>i'. io_Seek (bit_ops compare) target i = Ret i' \<and> bit_cursor valid compare i' kvs (first_at compare target kvs)" if "valid target"
    using mv [of "bi_Seek compare target"] iterator_contract.Seek_at [OF b c that] by (simp add: bit_ops_def block_ops_def)
  assume p: "p < length kvs"
  show "io_key (bit_ops compare) i = Ret (fst (kvs ! p))" "io_value (bit_ops compare) i = Ret (snd (kvs ! p))"
    using iterator_contract.key_at [OF b c p] iterator_contract.value_at [OF b c p] by (simp_all add: i bit_ops_def block_ops_def bit_step_def)
  show "\<exists>i'. io_Next (bit_ops compare) i = Ret i' \<and> bit_cursor valid compare i' kvs (Suc p)"
    using st [of bi_Next] iterator_contract.Next_at [OF b c p] by (simp add: bit_ops_def block_ops_def)
  show "\<exists>i'. io_Prev (bit_ops compare) i = Ret i' \<and> bit_cursor valid compare i' kvs (if p = 0 then length kvs else p - 1)"
    using st [of bi_Prev] iterator_contract.Prev_at [OF b c p] by (simp add: bit_ops_def block_ops_def)
qed

text \<open>So does the one with a cleanup, as long as the block is there. Its token is the handle that it holds.\<close>

definition cleanup_of :: "'h option \<Rightarrow> 'h cleanup" where
  "cleanup_of x = (case x of None \<Rightarrow> DeleteBlock | Some h \<Rightarrow> ReleaseBlock h)"

definition data_cursor ::
  "(slice \<Rightarrow> bool) \<Rightarrow> (slice \<Rightarrow> slice \<Rightarrow> int) \<Rightarrow> ('c, 'h) block_cache option \<Rightarrow> 'h option \<Rightarrow> 'c \<Rightarrow> 'h data_iterator \<Rightarrow> pair list \<Rightarrow> nat \<Rightarrow> bool" where
  "data_cursor valid compare cache x c i kvs p \<longleftrightarrow>
     dt_cleanup i = [cleanup_of x] \<and> block_there cache c (cleanup_of x) \<and> bit_cursor valid compare (dt_iter i) kvs p"

lemma reads_there: "dt_cleanup i = [f] \<Longrightarrow> block_there cache c f \<Longrightarrow> reads_block cache c g i = g (dt_iter i)"
  by (simp add: reads_block_def split: block_iterator.split)

lemma data_iterator_contract:
  assumes "key_order valid compare"
  shows "iterator_contract valid compare (data_ops compare cache c) (data_cursor valid compare cache x c)"
proof (rule iterator_contract.intro [OF slice_order.intro [OF assms]], unfold_locales)
  note b = bit_contract [OF assms]
  fix i kvs p target
  assume "data_cursor valid compare cache x c i kvs p"
  then have f: "dt_cleanup i = [cleanup_of x]" "block_there cache c (cleanup_of x)" and d: "bit_cursor valid compare (dt_iter i) kvs p"
    by (simp_all add: data_cursor_def)
  note r = reads_there [OF f]
  have mv: "\<exists>i'. data_move cache c g i = Ret i' \<and> data_cursor valid compare cache x c i' kvs q"
    if "\<exists>it. g (dt_iter i) = Ret it \<and> bit_cursor valid compare it kvs q" for g q
    using that f by (auto simp: data_move_def data_cursor_def r)
  show "sorted_pairs valid compare kvs" "p \<le> length kvs"
    using iterator_contract.cursor_sorted [OF b d] iterator_contract.cursor_le [OF b d] .
  show "io_Valid (data_ops compare cache c) i \<longleftrightarrow> p < length kvs" "io_status (data_ops compare cache c) i = Ret Status_OK"
    using iterator_contract.Valid_iff [OF b d] iterator_contract.status_at [OF b d] by (simp_all add: data_ops_def Let_def)
  show "\<exists>i'. io_SeekToFirst (data_ops compare cache c) i = Ret i' \<and> data_cursor valid compare cache x c i' kvs 0"
    using mv iterator_contract.SeekToFirst_at [OF b d] by (simp add: data_ops_def Let_def)
  show "\<exists>i'. io_SeekToLast (data_ops compare cache c) i = Ret i' \<and> data_cursor valid compare cache x c i' kvs (length kvs - 1)"
    using mv iterator_contract.SeekToLast_at [OF b d] by (simp add: data_ops_def Let_def)
  show "\<exists>i'. io_Seek (data_ops compare cache c) target i = Ret i' \<and> data_cursor valid compare cache x c i' kvs (first_at compare target kvs)"
    if "valid target"
    using mv iterator_contract.Seek_at [OF b d that] by (simp add: data_ops_def Let_def)
  assume p: "p < length kvs"
  show "io_key (data_ops compare cache c) i = Ret (fst (kvs ! p))" "io_value (data_ops compare cache c) i = Ret (snd (kvs ! p))"
    using iterator_contract.key_at [OF b d p] iterator_contract.value_at [OF b d p] by (simp_all add: data_ops_def Let_def r)
  show "\<exists>i'. io_Next (data_ops compare cache c) i = Ret i' \<and> data_cursor valid compare cache x c i' kvs (Suc p)"
    using mv iterator_contract.Next_at [OF b d p] by (simp add: data_ops_def Let_def)
  show "\<exists>i'. io_Prev (data_ops compare cache c) i = Ret i' \<and> data_cursor valid compare cache x c i' kvs (if p = 0 then length kvs else p - 1)"
    using mv iterator_contract.Prev_at [OF b d p] by (simp add: data_ops_def Let_def)
qed

lemma NewIterator_image:
  assumes "image raw kvs" "sorted_pairs valid compare kvs"
  shows "\<exists>i. bl_NewIterator (Block raw) = Ret i \<and> bit_cursor valid compare i kvs (length kvs)"
proof -
  from assms(1) obtain blk ri where b: "block_image raw blk ri" "pairs_of blk = kvs" by (auto simp: image_def)
  from open_image [OF b(1)] obtain it where it: "bl_NewIterator (Block raw) = Ret (Block_Iterator it)" "iter_of raw blk ri it" "\<not> bi_Valid it" by blast
  then have "arrives raw blk ri (length kvs) it" using b(2) by (auto simp: arrives_def off_block_def pairs_of_def)
  then show ?thesis using it(1) b(2) assms(2) by (auto simp: bit_cursor_def block_cursor_def)
qed

end
