(* ===== verification/Ldb_Table_Finish.thy ===== *)
theory Ldb_Table_Finish
  imports Ldb_Table_Built
begin

text \<open>
  The end of a table: what \<open>Finish\<close> of the table builder writes after the data blocks, and the whole file it leaves,
  \<open>table_image\<close>.
\<close>

section \<open>The image of a table\<close>

text \<open>The filter block, absent without a policy, and the entries of the metaindex block.\<close>

definition filter_part :: "filter_funs option \<Rightarrow> data_block list \<Rightarrow> slice \<Rightarrow> pair list \<Rightarrow> bool" where
  "filter_part policy Ws flt meta \<longleftrightarrow>
     (case policy of None \<Rightarrow> flt = [] \<and> meta = []
      | Some p \<Rightarrow> \<exists>fs. flt = stored (filter_image fs) kNoCompression \<and> covered (fp_may_match p) fs [] (groups Ws) \<and>
          meta = [(cstr ''filter.'' @ fp_name p,
            handle_bytes \<lparr>bh_offset = of_nat (length (layout Ws)), bh_size = of_nat (length (filter_image fs))\<rparr>)])"

definition handle_at :: "slice \<Rightarrow> slice \<Rightarrow> block_handle" where
  "handle_at front c = \<lparr>bh_offset = of_nat (length front), bh_size = of_nat (length c)\<rparr>"

definition table_image ::
  "(slice \<Rightarrow> bool) \<Rightarrow> (slice \<Rightarrow> slice \<Rightarrow> int) \<Rightarrow> snappy \<Rightarrow> filter_funs option \<Rightarrow> slice \<Rightarrow> pair list \<Rightarrow> bool" where
  "table_image valid compare sn policy data kvs \<longleftrightarrow> length data < 2 ^ 32 \<and>
     (\<exists>Ws flt meta mc mt idx ic it.
        kvs = entries_of Ws \<and> (\<forall>(L, c, t) \<in> set Ws. L \<noteq> [] \<and> stores sn c t L) \<and>
        filter_part policy Ws flt meta \<and> stores sn mc mt meta \<and>
        indexed valid compare Ws [] idx \<and> length idx = length Ws \<and> stores sn ic it idx \<and>
        data = layout Ws @ flt @ stored mc mt @ stored ic it @
          footer_bytes \<lparr>ft_metaindex_handle = handle_at (layout Ws @ flt) mc,
            ft_index_handle = handle_at (layout Ws @ flt @ stored mc mt) ic\<rparr>)"

lemma small_not_minus: "n < 2 ^ 32 \<Longrightarrow> of_nat n \<noteq> (- 1 :: u64)"
proof
  assume n: "n < 2 ^ 32" and "of_nat n = (- 1 :: u64)"
  moreover have "unat (- 1 :: u64) = 2 ^ 64 - 1" by (simp add: unsigned_minus_1_eq_mask mask_eq_exp_minus_1)
  moreover have "unat (of_nat n :: u64) = n" using n by (simp add: unat_of_nat_small)
  ultimately show False by simp
qed

lemma handle_at_set: "length front + length c < 2 ^ 32 \<Longrightarrow> bh_offset (handle_at front c) \<noteq> - 1 \<and> bh_size (handle_at front c) \<noteq> - 1"
  by (simp add: handle_at_def small_not_minus)

lemma finish_skip:
  assumes "\<not> tb_ok r"
  shows "finish_metaindex sn fo h r = Ret (BlockHandle, r)" "finish_index sn fo r = Ret (BlockHandle, r)"
    "finish_footer fo h h' r = Ret (tb_status r, r)"
  using assms by (simp_all add: finish_metaindex_def finish_index_def finish_footer_def)

section \<open>The parts of Finish\<close>

context table_building begin

text \<open>The file after the builder has put \<open>data\<close> behind the contents it had.\<close>

definition grown :: "'f table_builder \<Rightarrow> slice \<Rightarrow> 'f table_builder \<Rightarrow> bool" where
  "grown r data r' \<longleftrightarrow> contents (tb_file r') = contents (tb_file r) @ data \<and> room (tb_file r) = room (tb_file r') + length data"

definition ready :: "'f table_builder \<Rightarrow> bool" where
  "ready r \<longleftrightarrow> tb_offset r = of_nat (length (contents (tb_file r))) \<and>
     length (contents (tb_file r)) + room (tb_file r) < 2 ^ 32 \<and> suits (tb_options r)"

definition same_index :: "'f table_builder \<Rightarrow> 'f table_builder \<Rightarrow> bool" where
  "same_index r r' \<longleftrightarrow> tb_options r' = tb_options r \<and> tb_index_options r' = tb_index_options r \<and> tb_index_block r' = tb_index_block r \<and>
     tb_pending_index_entry r' = tb_pending_index_entry r \<and> tb_pending_handle r' = tb_pending_handle r \<and> tb_last_key r' = tb_last_key r"

lemma finish_filter_at:
  assumes r: "tb_ok r" "ready r" "contents (tb_file r) = layout Ws" and g: "good (map fst (entries_of Ws))"
    and f: "case tb_filter_block r of None \<Rightarrow> op_filter_policy (tb_options r) = None
      | Some (p, b) \<Rightarrow> op_filter_policy (tb_options r) = Some p \<and> filtering may_match b Ws []"
  shows "\<exists>h r'. finish_filter fo r = Ret (h, r') \<and> (tb_ok r' \<longrightarrow> ready r' \<and> same_index r r' \<and>
    (tb_filter_block r' = None \<longleftrightarrow> op_filter_policy (tb_options r) = None) \<and>
    (\<exists>flt. grown r flt r' \<and> filter_part (op_filter_policy (tb_options r)) Ws flt
      (case op_filter_policy (tb_options r) of None \<Rightarrow> [] | Some p \<Rightarrow> [(cstr ''filter.'' @ fp_name p, handle_bytes h)]) \<and>
      (op_filter_policy (tb_options r) \<noteq> None \<longrightarrow> bh_offset h \<noteq> - 1 \<and> bh_size h \<noteq> - 1)))"
proof (cases "tb_filter_block r")
  case None
  then show ?thesis using r f
    by (intro exI [of _ BlockHandle] exI [of _ r]) (auto simp: finish_filter_def same_index_def grown_def filter_part_def)
next
  case (Some pb)
  obtain p b where pb: "pb = (p, b)" by fastforce
  with Some f have p: "op_filter_policy (tb_options r) = Some p" "filtering may_match b Ws []" by simp_all
  have cr: "fp_create p = create" "fp_may_match p = may_match" using r(2) p(1) by (simp_all add: ready_def suits_def)
  from p(2) obtain fs pend pre where h: "holds b fs pend" "covered may_match fs pend (groups Ws @ [(of_nat (length (layout Ws)), map fst [])])"
    "map fst (entries_of Ws @ []) = pre @ pend" by (auto simp: filtering_def)
  have "good pend" using policy.good_part [of pre pend "[]"] g h(3) by simp
  from policy.Finish_covers [OF h(1) this h(2)] obtain b' fs' where
    b': "filter_Finish create b = Ret (filter_image fs', b')" "covered may_match fs' [] (groups Ws)" by (auto simp: covered_def)
  let ?r = "r\<lparr>tb_filter_block := Some (p, b')\<rparr>" and ?c = "filter_image fs'"
  from WriteRawBlock_at [of ?r ?c kNoCompression] r(2) obtain s fl off where
    w: "WriteRawBlock fo ?c kNoCompression ?r = (\<lparr>bh_offset = tb_offset r, bh_size = of_nat (length ?c)\<rparr>,
      ?r\<lparr>tb_status := s, tb_file := fl, tb_offset := off\<rparr>)"
    "status_ok s \<Longrightarrow> contents fl = contents (tb_file r) @ stored ?c kNoCompression \<and>
       room (tb_file r) = room fl + length (stored ?c kNoCompression) \<and> off = of_nat (length (contents fl))"
    by (auto simp: ready_def)
  have "finish_filter fo r = Ret (\<lparr>bh_offset = tb_offset r, bh_size = of_nat (length ?c)\<rparr>, ?r\<lparr>tb_status := s, tb_file := fl, tb_offset := off\<rparr>)"
    using Some pb r(1) b'(1) w(1) cr by (simp add: finish_filter_def)
  moreover have "filter_part (Some p) Ws (stored ?c kNoCompression)
      [(cstr ''filter.'' @ fp_name p, handle_bytes \<lparr>bh_offset = tb_offset r, bh_size = of_nat (length ?c)\<rparr>)]"
    using b'(2) r(2,3) cr by (auto simp: filter_part_def ready_def)
  moreover have "bh_offset h \<noteq> - 1 \<and> bh_size h \<noteq> - 1" if "status_ok s" "h = \<lparr>bh_offset = tb_offset r, bh_size = of_nat (length ?c)\<rparr>" for h
    using w(2) [OF that(1)] r(2) that(2) by (auto simp: ready_def intro!: small_not_minus)
  ultimately show ?thesis using w(2) r(2) p(1)
    by (intro exI [of _ "\<lparr>bh_offset = tb_offset r, bh_size = of_nat (length ?c)\<rparr>"]
        exI [of _ "?r\<lparr>tb_status := s, tb_file := fl, tb_offset := off\<rparr>"])
      (auto simp: tb_ok_def ready_def same_index_def grown_def)
qed

lemma finish_metaindex_at:
  assumes r: "tb_ok r" "ready r" and f: "tb_filter_block r = None \<longleftrightarrow> op_filter_policy (tb_options r) = None"
    and h: "op_filter_policy (tb_options r) \<noteq> None \<longrightarrow> bh_offset h \<noteq> - 1 \<and> bh_size h \<noteq> - 1"
  shows "\<exists>mh r'. finish_metaindex sn fo h r = Ret (mh, r') \<and> (tb_ok r' \<longrightarrow> ready r' \<and> same_index r r' \<and>
    (\<exists>mc mt. grown r (stored mc mt) r' \<and> mh = handle_at (contents (tb_file r)) mc \<and> stores sn mc mt
      (case op_filter_policy (tb_options r) of None \<Rightarrow> [] | Some p \<Rightarrow> [(cstr ''filter.'' @ fp_name p, handle_bytes h)])))"
proof -
  define i where "i = op_block_restart_interval (tb_options r)"
  have i: "1 \<le> i" using r(2) by (simp add: ready_def suits_def i_def)
  define b0 where "b0 = \<lparr>bb_buffer = [], bb_restarts = [0], bb_counter = 0, bb_finished = False, bb_last_key = []\<rparr>"
  have b0: "built i b0 [] [0]" using i by (simp add: built_def b0_def blk_bytes_def)
  define meta where "meta = (case op_filter_policy (tb_options r) of None \<Rightarrow> [] | Some p \<Rightarrow> [(cstr ''filter.'' @ fp_name p, handle_bytes h)])"
  have "\<exists>b blk ri. (if tb_filter_block r \<noteq> None then
                   case op_filter_policy (tb_options r) of None \<Rightarrow> UB
                   | Some policy \<Rightarrow>
                       rbind (bh_EncodeTo [] h) (\<lambda>handle_encoding.
                         bb_Add (cm_compare (op_comparator (tb_options r))) i (cstr ''filter.'' @ fp_name policy) handle_encoding b0)
                 else Ret b0) = Ret b \<and> built i b blk ri \<and> pairs_of blk = meta"
  proof (cases "op_filter_policy (tb_options r)")
    case None
    then show ?thesis using f b0 by (intro exI [of _ b0] exI [of _ "[]"] exI [of _ "[0]"]) (simp add: meta_def pairs_of_def)
  next
    case (Some p)
    from bb_Add_built [OF b0 i, of "cm_compare (op_comparator (tb_options r))" "cstr ''filter.'' @ fp_name p" "handle_bytes h"]
    obtain b sh ri where "bb_Add (cm_compare (op_comparator (tb_options r))) i (cstr ''filter.'' @ fp_name p) (handle_bytes h) b0 = Ret b"
      "built i b [(sh, cstr ''filter.'' @ fp_name p, handle_bytes h)] ri" by auto
    then show ?thesis using Some f h by (auto simp: bh_EncodeTo_bytes meta_def pairs_of_def)
  qed
  then obtain b blk ri where b: "(if tb_filter_block r \<noteq> None then
                   case op_filter_policy (tb_options r) of None \<Rightarrow> UB
                   | Some policy \<Rightarrow>
                       rbind (bh_EncodeTo [] h) (\<lambda>handle_encoding.
                         bb_Add (cm_compare (op_comparator (tb_options r))) i (cstr ''filter.'' @ fp_name policy) handle_encoding b0)
                 else Ret b0) = Ret b" "built i b blk ri" "pairs_of blk = meta" by blast
  have pre: "tb_offset r = of_nat (length (contents (tb_file r)))" "room (tb_file r) < 2 ^ 32" "suits (tb_options r)"
    using r(2) by (simp_all add: ready_def)
  from WriteBlock_at [OF r(1) pre b(2)] obtain c t s fl off where
    w: "WriteBlock sn fo b r = Ret (bb_Reset b, \<lparr>bh_offset = tb_offset r, bh_size = of_nat (length c)\<rparr>,
      r\<lparr>tb_status := s, tb_file := fl, tb_offset := off, tb_compressed_output := []\<rparr>)"
    "status_ok s \<longrightarrow> contents fl = contents (tb_file r) @ stored c t \<and> room (tb_file r) = room fl + length (stored c t) \<and>
       off = of_nat (length (contents fl)) \<and> stores sn c t (pairs_of blk)" by blast
  have bb: "BlockBuilder i = Ret b0" using i by (simp add: BlockBuilder_def b0_def)
  have "finish_metaindex sn fo h r = Ret (\<lparr>bh_offset = tb_offset r, bh_size = of_nat (length c)\<rparr>,
      r\<lparr>tb_status := s, tb_file := fl, tb_offset := off, tb_compressed_output := []\<rparr>)"
    unfolding finish_metaindex_def if_P [OF r(1)] i_def [symmetric] bb rbind_simps b(1) w(1) by simp
  then show ?thesis using w(2) r(2) pre(1) b(3) unfolding meta_def [symmetric]
    by (intro exI [of _ "\<lparr>bh_offset = tb_offset r, bh_size = of_nat (length c)\<rparr>"]
        exI [of _ "r\<lparr>tb_status := s, tb_file := fl, tb_offset := off, tb_compressed_output := []\<rparr>"]) (auto simp: tb_ok_def ready_def same_index_def grown_def handle_at_def)
qed

lemma finish_index_at:
  assumes r: "tb_ok r" "ready r" "tb_index_options r = (tb_options r)\<lparr>op_block_restart_interval := 1\<rparr>"
    and D: "built 1 (tb_index_block r) iblk iri" and I: "indexed valid compare Ws [] (pairs_of iblk)" "tb_pending_index_entry r = (Ws \<noteq> [])"
      "length iblk = length Ws - 1" "Ws \<noteq> [] \<longrightarrow> tb_pending_handle r = handle_of Ws (length Ws - 1)"
    and K: "tb_last_key r = (if kvs = [] then [] else fst (last kvs))" "kvs = entries_of Ws" "sorted_pairs valid compare kvs"
    and W: "written Ws f"
  shows "\<exists>ih r'. finish_index sn fo r = Ret (ih, r') \<and> (tb_ok r' \<longrightarrow> ready r' \<and>
    (\<exists>ic it idx. grown r (stored ic it) r' \<and> ih = handle_at (contents (tb_file r)) ic \<and> stores sn ic it idx \<and>
      indexed valid compare Ws [] idx \<and> length idx = length Ws))"
proof -
  have "\<exists>lk b iblk' iri'. (if tb_pending_index_entry r then
        add_index_entry (cm_successor (op_comparator (tb_options r)) (tb_last_key r)) r
      else Ret r) = Ret (r\<lparr>tb_last_key := lk, tb_index_block := b, tb_pending_index_entry := False\<rparr>) \<and>
    built 1 b iblk' iri' \<and> indexed valid compare Ws [] (pairs_of iblk') \<and> length iblk' = length Ws"
  proof (cases "Ws = []")
    case True
    then have "r = r\<lparr>tb_last_key := tb_last_key r, tb_index_block := tb_index_block r, tb_pending_index_entry := False\<rparr>" using I(2) by simp
    then show ?thesis using True I D
      by (intro exI [of _ "tb_last_key r"] exI [of _ "tb_index_block r"] exI [of _ iblk] exI [of _ iri]) simp
  next
    case False
    note l = last_block [OF W False K(2,3)]
    let ?k = "successor (fst (last kvs))"
    note suc = successor_valid [OF l(2)] successor_ge [OF l(2)]
    have A: "\<forall>x \<in> set (fst (last Ws)). valid (fst x) \<and> compare (fst x) ?k \<le> 0" using l(2,3) suc by (auto intro: compare_trans)
    have sb: "suits (tb_options r)" using r(2) by (simp add: ready_def)
    have Nil: "\<forall>x \<in> set ([] :: pair list). compare ?k (fst x) < 0" by simp
    from add_index_entry_at [OF sb r(3) mp [OF I(4) False] D I(1,3) W False suc(1) A Nil I(1)] obtain b e iri' where
      "add_index_entry ?k r = Ret (r\<lparr>tb_last_key := ?k, tb_index_block := b, tb_pending_index_entry := False\<rparr>)"
      "built 1 b (iblk @ [e]) iri'" "indexed valid compare Ws [] (pairs_of (iblk @ [e]))" by blast
    moreover have "length (iblk @ [e]) = length Ws" using I(3) False by simp
    ultimately show ?thesis using False I(2) K(1) l(1) sb
      by (intro exI [of _ ?k] exI [of _ b] exI [of _ "iblk @ [e]"] exI [of _ iri']) (simp add: suits_def)
  qed
  then obtain lk b iblk' iri' where b: "(if tb_pending_index_entry r then
        add_index_entry (cm_successor (op_comparator (tb_options r)) (tb_last_key r)) r
      else Ret r) = Ret (r\<lparr>tb_last_key := lk, tb_index_block := b, tb_pending_index_entry := False\<rparr>)"
    "built 1 b iblk' iri'" "indexed valid compare Ws [] (pairs_of iblk')" "length iblk' = length Ws" by blast
  let ?r = "r\<lparr>tb_last_key := lk, tb_index_block := b, tb_pending_index_entry := False\<rparr>"
  have pre: "tb_ok ?r" "tb_offset ?r = of_nat (length (contents (tb_file ?r)))" "room (tb_file ?r) < 2 ^ 32" "suits (tb_options ?r)"
    using r(1,2) by (simp_all add: ready_def tb_ok_def)
  from WriteBlock_at [OF pre b(2)] obtain c t s fl off where
    w: "WriteBlock sn fo b ?r = Ret (bb_Reset b, \<lparr>bh_offset = tb_offset ?r, bh_size = of_nat (length c)\<rparr>,
      ?r\<lparr>tb_status := s, tb_file := fl, tb_offset := off, tb_compressed_output := []\<rparr>)"
    "status_ok s \<longrightarrow> contents fl = contents (tb_file ?r) @ stored c t \<and> room (tb_file ?r) = room fl + length (stored c t) \<and>
       off = of_nat (length (contents fl)) \<and> stores sn c t (pairs_of iblk')" by blast
  have "finish_index sn fo r = Ret (\<lparr>bh_offset = tb_offset ?r, bh_size = of_nat (length c)\<rparr>,
      ?r\<lparr>tb_status := s, tb_file := fl, tb_offset := off, tb_compressed_output := [], tb_index_block := bb_Reset b\<rparr>)"
    unfolding finish_index_def if_P [OF r(1)] b(1) rbind_simps using w(1) by simp
  moreover have "length (pairs_of iblk') = length Ws" using b(4) by (simp add: pairs_of_def)
  ultimately show ?thesis using w(2) r(2) b(3) pre(2)
    by (intro exI [of _ "\<lparr>bh_offset = tb_offset ?r, bh_size = of_nat (length c)\<rparr>"]
        exI [of _ "?r\<lparr>tb_status := s, tb_file := fl, tb_offset := off, tb_compressed_output := [], tb_index_block := bb_Reset b\<rparr>"])
      (auto simp: tb_ok_def ready_def grown_def handle_at_def intro!: exI [of _ "pairs_of iblk'"])
qed

lemma finish_footer_at:
  assumes "tb_ok r" "handles_set \<lparr>ft_metaindex_handle = mh, ft_index_handle = ih\<rparr>"
  shows "\<exists>s r'. finish_footer fo mh ih r = Ret (s, r') \<and>
    (status_ok s \<longrightarrow> grown r (footer_bytes \<lparr>ft_metaindex_handle = mh, ft_index_handle = ih\<rparr>) r')"
proof -
  let ?b = "footer_bytes \<lparr>ft_metaindex_handle = mh, ft_index_handle = ih\<rparr>"
  obtain s f where a: "append ?b (tb_file r) = (s, f)" by fastforce
  note l = writer.append_contents [OF a] writer.append_room [OF a] writer.append_ok [OF a]
  have "\<exists>r'. finish_footer fo mh ih r = Ret (s, r') \<and> tb_file r' = f"
    using a assms by (simp add: finish_footer_def Footer_EncodeTo_bytes Let_def)
  then show ?thesis using l by (auto simp: grown_def)
qed

section \<open>The whole file\<close>

lemma tb_Finish_at:
  assumes B: "building o1 kvs r" and o1: "suits o1" and g: "good (map fst kvs)" and s: "sorted_pairs valid compare kvs"
  shows "\<exists>s r'. tb_Finish sn fo r = Ret (s, r') \<and>
    (status_ok s \<longrightarrow> table_image valid compare sn (op_filter_policy o1) (contents (tb_file r')) kvs)"
proof -
  from Flush_at [OF B o1, of "[]"] g obtain r0 where
    r0: "tb_Flush sn fo r = Ret r0" "building o1 kvs r0" "tb_ok r0 \<longrightarrow> bb_buffer (tb_data_block r0) = []" by auto
  let ?r = "r0\<lparr>tb_closed := True\<rparr>"
  have fin: "tb_Finish sn fo r = rbind (finish_filter fo ?r) (\<lambda>(filter_block_handle, r).
      rbind (finish_metaindex sn fo filter_block_handle r) (\<lambda>(metaindex_block_handle, r).
        rbind (finish_index sn fo r) (\<lambda>(index_block_handle, r). finish_footer fo metaindex_block_handle index_block_handle r)))"
    using r0 by (simp add: tb_Finish_def building_def)
  have stop: ?thesis if "finish_filter fo ?r = Ret (h, r1)" "\<not> tb_ok r1" for h r1
    using that by (simp add: fin finish_skip tb_ok_def)
  show ?thesis
  proof (cases "tb_ok ?r")
    case False
    then have "\<exists>h. finish_filter fo ?r = Ret (h, ?r)" by (auto simp: finish_filter_def split: option.splits)
    then show ?thesis using stop False by blast
  next
    case True
    then have ok0: "tb_ok r0" by (simp add: tb_ok_def)
    with r0(2) obtain Ws blk iblk where S: "state o1 kvs r0 Ws blk iblk" by (auto simp: building_def)
    note S = S [unfolded state_def]
    from S obtain ri iri where D: "built (op_block_restart_interval o1) (tb_data_block r0) blk ri" "built 1 (tb_index_block r0) iblk iri" by blast
    have Nil: "blk = []" using D(1) r0(3) ok0 blk_bytes_Nil [of blk] by (simp add: built_def)
    have pNil: "pairs_of [] = []" by (simp add: pairs_of_def)
    have W: "written Ws (tb_file r0)" "kvs = entries_of Ws" and I: "indexed valid compare Ws [] (pairs_of iblk)"
      "tb_pending_index_entry r0 = (Ws \<noteq> [])" "length iblk = length Ws - 1" "Ws \<noteq> [] \<longrightarrow> tb_pending_handle r0 = handle_of Ws (length Ws - 1)"
      using S by (auto simp: Nil pNil)
    have opt: "tb_options r0 = o1" "tb_index_options r0 = o1\<lparr>op_block_restart_interval := 1\<rparr>" using r0(2) by (simp_all add: building_def)
    have c0: "contents (tb_file ?r) = layout Ws" using W(1) by (simp add: written_def)
    have rd: "ready ?r" using S o1 opt(1) by (simp add: ready_def written_def)
    have gd: "good (map fst (entries_of Ws))" using g W(2) by simp
    have rr: "tb_options ?r = o1" "tb_filter_block ?r = tb_filter_block r0" by (simp_all add: opt)
    have ft: "case tb_filter_block ?r of None \<Rightarrow> op_filter_policy (tb_options ?r) = None
      | Some (p, b) \<Rightarrow> op_filter_policy (tb_options ?r) = Some p \<and> filtering may_match b Ws []" using S unfolding Nil pNil rr by blast
    have po: "op_filter_policy (tb_options ?r) = op_filter_policy o1" by (simp add: opt)
    from finish_filter_at [OF True rd c0 gd ft, unfolded po] obtain h r1 where F1: "finish_filter fo ?r = Ret (h, r1)"
      and F: "tb_ok r1 \<longrightarrow> ready r1 \<and> same_index ?r r1 \<and> (tb_filter_block r1 = None \<longleftrightarrow> op_filter_policy o1 = None) \<and>
        (\<exists>flt. grown ?r flt r1 \<and> filter_part (op_filter_policy o1) Ws flt
          (case op_filter_policy o1 of None \<Rightarrow> [] | Some p \<Rightarrow> [(cstr ''filter.'' @ fp_name p, handle_bytes h)]) \<and>
          (op_filter_policy o1 \<noteq> None \<longrightarrow> bh_offset h \<noteq> - 1 \<and> bh_size h \<noteq> - 1))" by (elim exE conjE)
    show ?thesis
    proof (cases "tb_ok r1")
      case False
      then show ?thesis using stop F1 by blast
    next
      case ok1: True
      define meta where "meta = (case op_filter_policy o1 of None \<Rightarrow> [] | Some p \<Rightarrow> [(cstr ''filter.'' @ fp_name p, handle_bytes h)])"
      from mp [OF F ok1] obtain flt where f1: "ready r1" "same_index ?r r1" "tb_filter_block r1 = None \<longleftrightarrow> op_filter_policy o1 = None"
        "grown ?r flt r1" "filter_part (op_filter_policy o1) Ws flt meta" "op_filter_policy o1 \<noteq> None \<longrightarrow> bh_offset h \<noteq> - 1 \<and> bh_size h \<noteq> - 1"
        by (auto simp: meta_def)
      have o1r: "tb_options r1 = o1" "tb_index_options r1 = (tb_options r1)\<lparr>op_block_restart_interval := 1\<rparr>" "tb_index_block r1 = tb_index_block r0"
        "tb_pending_index_entry r1 = tb_pending_index_entry r0" "tb_pending_handle r1 = tb_pending_handle r0" "tb_last_key r1 = tb_last_key r0"
        using f1(2) opt by (simp_all add: same_index_def)
      have c1: "contents (tb_file r1) = layout Ws @ flt" using f1(4) c0 by (simp add: grown_def)
      from finish_metaindex_at [OF ok1 f1(1), unfolded o1r(1), OF f1(3,6), folded meta_def] obtain mh r2 where M1: "finish_metaindex sn fo h r1 = Ret (mh, r2)"
        and M: "tb_ok r2 \<longrightarrow> ready r2 \<and> same_index r1 r2 \<and>
          (\<exists>mc mt. grown r1 (stored mc mt) r2 \<and> mh = handle_at (contents (tb_file r1)) mc \<and> stores sn mc mt meta)" by blast
      show ?thesis
      proof (cases "tb_ok r2")
        case False
        then show ?thesis using F1 M1 by (simp add: fin finish_skip tb_ok_def)
      next
        case ok2: True
        from mp [OF M ok2] obtain mc mt where f2: "ready r2" "same_index r1 r2" "grown r1 (stored mc mt) r2" "mh = handle_at (contents (tb_file r1)) mc"
          "stores sn mc mt meta" by blast
        have c2: "contents (tb_file r2) = layout Ws @ flt @ stored mc mt" using f2(3) c1 by (simp add: grown_def)
        have o2: "tb_index_options r2 = (tb_options r2)\<lparr>op_block_restart_interval := 1\<rparr>" "tb_index_block r2 = tb_index_block r0"
          "tb_pending_index_entry r2 = tb_pending_index_entry r0" "tb_pending_handle r2 = tb_pending_handle r0" "tb_last_key r2 = tb_last_key r0"
          using f2(2) o1r by (simp_all add: same_index_def)
        have K: "tb_last_key r2 = (if kvs = [] then [] else fst (last kvs))" using S o2 by simp
        from finish_index_at [OF ok2 f2(1) o2(1) D(2) [folded o2(2)] I(1) I(2) [folded o2(3)] I(3) I(4) [folded o2(4)] K W(2) s W(1)]
        obtain ih r3 where X1: "finish_index sn fo r2 = Ret (ih, r3)" and X: "tb_ok r3 \<longrightarrow> ready r3 \<and>
          (\<exists>ic it idx. grown r2 (stored ic it) r3 \<and> ih = handle_at (contents (tb_file r2)) ic \<and> stores sn ic it idx \<and>
             indexed valid compare Ws [] idx \<and> length idx = length Ws)" by blast
        show ?thesis
        proof (cases "tb_ok r3")
          case False
          then show ?thesis using F1 M1 X1 by (simp add: fin finish_skip tb_ok_def)
        next
          case ok3: True
          from mp [OF X ok3] obtain ic it idx where f3: "ready r3" "grown r2 (stored ic it) r3" "ih = handle_at (contents (tb_file r2)) ic"
            "stores sn ic it idx" "indexed valid compare Ws [] idx" "length idx = length Ws" by blast
          let ?f = "\<lparr>ft_metaindex_handle = mh, ft_index_handle = ih\<rparr>"
          have c3: "contents (tb_file r3) = layout Ws @ flt @ stored mc mt @ stored ic it" using f3(2) c2 by (simp add: grown_def)
          have "length (contents (tb_file r3)) + room (tb_file r3) < 2 ^ 32" using f3(1) by (simp add: ready_def)
          then have "handles_set ?f" using f2(4) f3(3) by (auto simp: handles_set_def c1 c2 c3 intro!: handle_at_set [THEN conjunct1] handle_at_set [THEN conjunct2])
          from finish_footer_at [OF ok3 this] obtain s r4 where Z: "finish_footer fo mh ih r3 = Ret (s, r4)"
            "status_ok s \<longrightarrow> grown r3 (footer_bytes ?f) r4" by blast
          have "table_image valid compare sn (op_filter_policy o1) (contents (tb_file r4)) kvs" if "status_ok s"
          proof -
            have c4: "contents (tb_file r4) = layout Ws @ flt @ stored mc mt @ stored ic it @ footer_bytes ?f"
              and "length (contents (tb_file r4)) + room (tb_file r4) = length (contents (tb_file r3)) + room (tb_file r3)"
              using Z(2) that c3 by (simp_all add: grown_def)
            then have len: "length (contents (tb_file r4)) < 2 ^ 32" using f3(1) by (simp add: ready_def)
            have "\<forall>(L, c, t) \<in> set Ws. L \<noteq> [] \<and> stores sn c t L" using W(1) by (simp add: written_def)
            then show ?thesis using len f1(5) f2(5) f3(4-6) W(2) c4 unfolding table_image_def f2(4) f3(3) c1 c2 by blast
          qed
          then show ?thesis using F1 M1 X1 Z(1) by (simp add: fin)
        qed
      qed
    qed
  qed
qed

lemma build_table_at:
  assumes "suits o1" "contents f0 = []" "room f0 < 2 ^ 32" "good (map fst kvs)" "sorted_pairs valid compare kvs"
  shows "\<exists>s r'. build_table sn fo o1 kvs f0 = Ret (s, r') \<and>
    (status_ok s \<longrightarrow> table_image valid compare sn (op_filter_policy o1) (contents (tb_file r')) kvs)"
proof -
  have "good []" using policy.good_part [of "[]" "[]" "map fst kvs"] assms(4) by simp
  from TableBuilder_at [OF assms(1-3) this] obtain r where r: "TableBuilder o1 f0 = Ret r" "building o1 [] r" by blast
  from tb_Add_all_at [OF r(2) assms(1), of kvs] assms(4,5) obtain r' where
    r': "tb_Add_all sn fo kvs r = Ret r'" "building o1 kvs r'" by auto
  from tb_Finish_at [OF r'(2) assms(1,4,5)] r(1) r'(1) show ?thesis by (simp add: build_table_def)
qed

end

text \<open>The tables that the POSIX files, the bytewise comparator and the Bloom filter make.\<close>

interpretation bytewise_table: table_building "\<lambda>_. True" slice_compare bytewise_separator bytewise_successor posix_Append posix_Flush
  posix_contents posix_room port_snappy "bloom_good policy" "CreateFilter policy" KeyMayMatch for policy
  by unfold_locales

lemma Options_suit:
  "options_suit slice_compare bytewise_separator bytewise_successor (CreateFilter policy) KeyMayMatch
     (Options\<lparr>op_filter_policy := Some (bloom_funs policy)\<rparr>)"
  by (simp add: options_suit_def Options_def BytewiseComparator_def bloom_funs_def)

end
