(* ===== verification/Ldb_Table_Read.thy ===== *)
theory Ldb_Table_Read
  imports Ldb_Table Ldb_Table_Finish
begin

text \<open>
  Reading back what the table builder wrote: a \<open>table_image\<close> is opened, its filter is found, its blocks are read
  through the handles in the index, with or without a block cache, and the two-level iterator and \<open>InternalGet\<close>
  give its entries.
\<close>

section \<open>Stored blocks are readable\<close>

definition readable_at :: "snappy \<Rightarrow> read_fun \<Rightarrow> block_handle \<Rightarrow> slice \<Rightarrow> bool" where
  "readable_at sn file h raw \<longleftrightarrow> (\<forall>options. \<exists>b. ReadBlock sn file options h = Ret (Status_OK, b) \<and> bc_data b = raw)"

context random_file begin

lemma readable_stored:
  assumes "readable f" "contents f = front @ stored c t @ rest" "length (contents f) < 2 ^ 64" "chunk sn c t raw"
  shows "readable_at sn (read f) (handle_at front c) raw"
  using ReadBlock_stored [OF assms(1-3)] assms(4) by (auto simp: readable_at_def handle_at_def chunk_def)

end

section \<open>What an opened table knows\<close>

definition filter_right :: "(filter_funs \<times> filter_block_reader) option \<Rightarrow> data_block list \<Rightarrow> bool" where
  "filter_right flt Ws \<longleftrightarrow> (case flt of None \<Rightarrow> True | Some (p, reader) \<Rightarrow>
     \<forall>j < length Ws. \<forall>k. \<exists>m. filter_KeyMayMatch (fp_may_match p) reader (bh_offset (handle_of Ws j)) k = Ret m \<and>
       (k \<in> fst ` set (fst (Ws ! j)) \<longrightarrow> m))"

definition opened ::
  "(slice \<Rightarrow> bool) \<Rightarrow> (slice \<Rightarrow> slice \<Rightarrow> int) \<Rightarrow> snappy \<Rightarrow> table \<Rightarrow> data_block list \<Rightarrow> pair list \<Rightarrow> bool" where
  "opened valid compare sn t Ws idx \<longleftrightarrow>
     (\<exists>raw. ta_index_block t = Block raw \<and> image raw idx) \<and> sorted_pairs valid compare idx \<and>
     length idx = length Ws \<and> indexed valid compare Ws [] idx \<and> sorted_pairs valid compare (entries_of Ws) \<and>
     length (layout Ws) < 2 ^ 32 \<and> (\<forall>j < length Ws. \<exists>raw. readable_at sn (ta_file t) (handle_of Ws j) raw \<and> image raw (fst (Ws ! j))) \<and>
     filter_right (ta_filter t) Ws \<and>
     (\<exists>m \<ge> length (layout Ws). m < 2 ^ 32 \<and> bh_offset (ta_metaindex_handle t) = of_nat m)"

lemma handle_of_at: "Ws ! j = (L, c, t) \<Longrightarrow> handle_of Ws j = handle_at (layout (take j Ws)) c"
  by (simp add: handle_of_def handle_at_def block_offset_def)

lemma block_offset_less:
  assumes "i < j" "j \<le> length Ws" shows "block_offset Ws i < block_offset Ws j"
proof -
  obtain L c t where W: "Ws ! i = (L, c, t)" by (metis prod_cases3)
  have "take j Ws ! i = (L, c, t)" "i < length (take j Ws)" using assms W by simp_all
  from layout_split [OF this(2,1)] assms show ?thesis by (simp add: block_offset_def min_def)
qed

lemma offset_small: "length (layout Ws) < 2 ^ 32 \<Longrightarrow> j \<le> length Ws \<Longrightarrow> unat (of_nat (block_offset Ws j) :: u64) = block_offset Ws j"
  using block_offset_less [of j "length Ws" Ws] by (cases "j = length Ws") (auto simp: block_offset_def unat_of_nat_small)

lemma handle_of_inject:
  assumes "length (layout Ws) < 2 ^ 32" "i < length Ws" "j < length Ws" "handle_bytes (handle_of Ws i) = handle_bytes (handle_of Ws j)"
  shows "i = j"
proof -
  have "handle_of Ws i = handle_of Ws j"
    using bh_DecodeFrom_bytes [of "handle_of Ws i" "[]" BlockHandle] bh_DecodeFrom_bytes [of "handle_of Ws j" "[]" BlockHandle] assms(4) by simp
  then have "bh_offset (handle_of Ws i) = bh_offset (handle_of Ws j)" by simp
  then have "unat (of_nat (block_offset Ws i) :: u64) = unat (of_nat (block_offset Ws j) :: u64)" by (simp only: handle_of_def block_handle.simps)
  then have "block_offset Ws i = block_offset Ws j" using assms(2,3) by (simp only: offset_small [OF assms(1)] less_imp_le)
  then show ?thesis using block_offset_less [of i j Ws] block_offset_less [of j i Ws] assms(2,3) by (metis less_irrefl linorder_neqE_nat less_imp_le)
qed

section \<open>The index\<close>

lemma entries_split: "j < length Ws \<Longrightarrow> entries_of Ws = entries_of (take j Ws) @ fst (Ws ! j) @ entries_of (drop (Suc j) Ws)"
proof -
  assume "j < length Ws"
  then have "entries_of Ws = entries_of (take j Ws @ Ws ! j # drop (Suc j) Ws)" by (simp only: id_take_nth_drop [symmetric])
  then show ?thesis by (simp add: entries_of_def)
qed

lemma in_entries: "i < length Ws \<Longrightarrow> x \<in> set (fst (Ws ! i)) \<Longrightarrow> x \<in> set (entries_of Ws)"
  using nth_mem [of i Ws] by (auto simp: entries_of_def)

lemma indexed_after:
  assumes "indexed valid compare Ws [] idx" "j < length idx" "j < i" "i < length Ws" "x \<in> set (fst (Ws ! i))"
  shows "compare (fst (idx ! j)) (fst x) < 0"
proof -
  have "Ws ! i \<in> set (drop (Suc j) Ws)" using assms(3,4) by (auto simp: in_set_conv_nth intro!: exI [of _ "i - Suc j"])
  then have "x \<in> set (entries_of (drop (Suc j) Ws) @ [])" using assms(5) by (auto simp: entries_of_def)
  then show ?thesis using assms(1,2) by (auto simp: indexed_def)
qed

lemma indexed_separates:
  assumes "indexed valid compare Ws [] idx" "length idx = length Ws"
  shows "separates compare idx (map fst Ws)"
  using assms(1) indexed_after [OF assms(1)] assms(2) by (auto simp: separates_def indexed_def)

lemma indexed_sorted:
  assumes "key_order valid compare" "indexed valid compare Ws [] idx" "length idx = length Ws" "\<forall>j < length Ws. fst (Ws ! j) \<noteq> []"
    "sorted_pairs valid compare (entries_of Ws)"
  shows "sorted_pairs valid compare idx"
proof -
  have v: "valid (fst (idx ! j))" if "j < length idx" for j using assms(2) that by (simp add: indexed_def)
  have "keys_less compare (idx ! j) (idx ! i)" if ji: "j < i" "i < length idx" for i j
  proof -
    obtain x where x: "x \<in> set (fst (Ws ! i))" using assms(3,4) ji(2) by (cases "fst (Ws ! i)") auto
    have "compare (fst (idx ! j)) (fst x) < 0" using indexed_after [OF assms(2) _ ji(1) _ x] ji assms(3) by simp
    moreover have "compare (fst x) (fst (idx ! i)) \<le> 0" using assms(2) ji(2) x by (simp add: indexed_def)
    moreover have "valid (fst x)" using assms(3,5) ji(2) in_entries [OF _ x] by (simp add: sorted_pairs_def)
    moreover have "valid (fst (idx ! j))" "valid (fst (idx ! i))" using v ji by simp_all
    ultimately show ?thesis by (meson key_order.compare_less_le [OF assms(1)])
  qed
  moreover have "\<forall>x \<in> set idx. valid (fst x)" using v by (simp add: all_set_conv_all_nth)
  ultimately show ?thesis by (simp add: sorted_pairs_def sorted_wrt_iff_nth_less)
qed

lemma sorted_part: "sorted_pairs valid compare (entries_of Ws) \<Longrightarrow> j < length Ws \<Longrightarrow> sorted_pairs valid compare (fst (Ws ! j))"
  using entries_split [of j Ws] by (auto simp: sorted_pairs_def sorted_wrt_append)

section \<open>Opening\<close>

lemma filter_part_right:
  assumes "filter_part (Some p) Ws flt meta" "length flt < 2 ^ 32" "length (layout Ws) < 2 ^ 32" "\<forall>j < length Ws. fst (Ws ! j) \<noteq> []"
  shows "\<exists>fs. flt = stored (filter_image fs) kNoCompression \<and>
    meta = [(cstr ''filter.'' @ fp_name p, handle_bytes (handle_at (layout Ws) (filter_image fs)))] \<and>
    filter_right (Some (p, FilterBlockReader (filter_image fs))) Ws"
proof -
  from assms(1) obtain fs where fs: "flt = stored (filter_image fs) kNoCompression" "covered (fp_may_match p) fs [] (groups Ws)"
    "meta = [(cstr ''filter.'' @ fp_name p, handle_bytes (handle_at (layout Ws) (filter_image fs)))]"
    by (auto simp: filter_part_def handle_at_def)
  have "\<exists>m. filter_KeyMayMatch (fp_may_match p) (FilterBlockReader (filter_image fs)) (bh_offset (handle_of Ws j)) k = Ret m \<and>
       (k \<in> fst ` set (fst (Ws ! j)) \<longrightarrow> m)" if j: "j < length Ws" for j k
  proof -
    let ?off = "of_nat (block_offset Ws j) :: u64"
    have "(?off, map fst (fst (Ws ! j))) \<in> set (groups Ws)" using j by (auto simp: groups_def)
    then have c: "index_of ?off < length fs \<and> fp_may_match p key (fs ! index_of ?off)" if "key \<in> fst ` set (fst (Ws ! j))" for key
      using fs(2) that by (fastforce simp: covered_def)
    obtain key where "key \<in> fst ` set (fst (Ws ! j))" using assms(4) j by (cases "fst (Ws ! j)") auto
    from c [OF this] have "index_of ?off < length fs" ..
    moreover have "length (filter_image fs) < 2 ^ 32" using assms(2) fs(1) by simp
    ultimately show ?thesis using image_reader [of fs ?off "fp_may_match p" k] c by (simp add: handle_of_def)
  qed
  then show ?thesis using fs by (auto simp: filter_right_def)
qed

lemma readable_ReadBlock:
  assumes "readable_at sn file h raw"
  obtains b where "ReadBlock sn file options h = Ret (Status_OK, b)" "bc_data b = raw"
  using assms by (auto simp: readable_at_def)

lemma ReadFilter_at:
  assumes "readable_at sn (ta_file t) h raw"
  shows "ReadFilter sn p (handle_bytes h) t = Ret (t\<lparr>ta_filter := Some (p, FilterBlockReader raw)\<rparr>)"
proof -
  obtain b where "ReadBlock sn (ta_file t) (paranoid_options (ta_options t)) h = Ret (Status_OK, b)" "bc_data b = raw"
    by (rule readable_ReadBlock [OF assms])
  then show ?thesis using bh_DecodeFrom_bytes [of h "[]" BlockHandle] by (simp add: ReadFilter_def)
qed

lemma ReadMeta_at:
  assumes p: "op_filter_policy (ta_options t) = Some p" and m: "readable_at sn (ta_file t) (ft_metaindex_handle ft) raw"
    and i: "image raw [(cstr ''filter.'' @ fp_name p, handle_bytes h)]" and h: "readable_at sn (ta_file t) h fraw"
  shows "ReadMeta sn ft t = Ret (t\<lparr>ta_filter := Some (p, FilterBlockReader fraw)\<rparr>)"
proof -
  define key where "key = cstr ''filter.'' @ fp_name p"
  define kvs where "kvs = [(key, handle_bytes h)]"
  obtain b where b: "ReadBlock sn (ta_file t) (paranoid_options (ta_options t)) (ft_metaindex_handle ft) = Ret (Status_OK, b)" "bc_data b = raw"
    by (rule readable_ReadBlock [OF m])
  have s: "sorted_pairs (\<lambda>_. True) slice_compare kvs" by (simp add: sorted_pairs_def kvs_def)
  from NewIterator_image [OF i [folded key_def, folded kvs_def] s] obtain it where it: "bl_NewIterator (Block raw) = Ret it"
    "bit_cursor (\<lambda>_. True) slice_compare it kvs (length kvs)" by blast
  note bc = bit_contract [OF bytewise.key_order_axioms]
  have first: "first_at slice_compare key kvs = 0" using bytewise.compare_refl [of key] by (simp add: first_at_def kvs_def)
  from iterator_contract.Seek_at [OF bc it(2) TrueI, of key] obtain it2 where it2: "io_Seek (bit_ops slice_compare) key it = Ret it2"
    "bit_cursor (\<lambda>_. True) slice_compare it2 kvs 0" unfolding first by blast
  have "io_Valid (bit_ops slice_compare) it2" "io_key (bit_ops slice_compare) it2 = Ret key"
    "io_value (bit_ops slice_compare) it2 = Ret (handle_bytes h)"
    using iterator_contract.Valid_iff [OF bc it2(2)] iterator_contract.key_at [OF bc it2(2)] iterator_contract.value_at [OF bc it2(2)]
    by (simp_all add: kvs_def)
  then show ?thesis using b it(1) it2(1) ReadFilter_at [OF h] by (simp add: ReadMeta_def p Let_def flip: key_def)
qed

context random_file begin

lemma Open_image:
  assumes K: "key_order valid compare" and T: "table_image valid compare sn (op_filter_policy o1) (contents f) kvs"
    and S: "sorted_pairs valid compare kvs" and f: "readable f"
  shows "\<exists>t Ws idx. Open sn cache o1 (read f) (of_nat (length (contents f))) c =
      Ret (Status_OK, Some t, case cache of Some ops \<Rightarrow> snd (bca_NewId ops c) | None \<Rightarrow> c) \<and>
    ta_options t = o1 \<and> opened valid compare sn t Ws idx \<and> entries_of Ws = kvs \<and> length Ws \<le> length kvs"
proof -
  from T obtain Ws flt meta mc mt idx ic it where len: "length (contents f) < 2 ^ 32" and kvs: "kvs = entries_of Ws"
    and st: "\<forall>(L, c, t) \<in> set Ws. L \<noteq> [] \<and> stores sn c t L" and fp: "filter_part (op_filter_policy o1) Ws flt meta" "stores sn mc mt meta"
    and ix: "indexed valid compare Ws [] idx" "length idx = length Ws" "stores sn ic it idx"
    and data: "contents f = layout Ws @ flt @ stored mc mt @ stored ic it @
      footer_bytes \<lparr>ft_metaindex_handle = handle_at (layout Ws @ flt) mc, ft_index_handle = handle_at (layout Ws @ flt @ stored mc mt) ic\<rparr>"
    unfolding table_image_def by blast
  let ?ft = "\<lparr>ft_metaindex_handle = handle_at (layout Ws @ flt) mc, ft_index_handle = handle_at (layout Ws @ flt @ stored mc mt) ic\<rparr>"
  let ?n = "length (contents f)"
  have len64: "?n < 2 ^ 64" using len by simp
  have n48: "48 \<le> ?n" by (simp add: data)
  have k: "kEncodedLength = 48" by (simp add: kEncodedLength_def kMaxEncodedLength_def)
  have u: "unat (of_nat ?n :: u64) = ?n" using len64 by (simp add: unat_of_nat_small)
  have sz: "\<not> (of_nat ?n :: u64) < of_nat kEncodedLength" using u n48 by (simp add: word_less_nat_alt k)
  have off: "unat (of_nat ?n - of_nat kEncodedLength :: u64) = ?n - 48"
    using u n48 by (simp add: unat_sub word_le_nat_alt k)
  have u48: "unat (of_nat kEncodedLength :: u64) = 48" by (simp add: k)
  from read_at [OF f, of "of_nat ?n - of_nat kEncodedLength" "of_nat kEncodedLength"] n48 obtain sc where
    rd: "read f (of_nat ?n - of_nat kEncodedLength) (of_nat kEncodedLength) = Ret (Status_OK, footer_bytes ?ft, sc)"
    unfolding off u48 by (auto simp: data)
  have ne: "\<forall>j < length Ws. fst (Ws ! j) \<noteq> []" using st by (fastforce simp: all_set_conv_all_nth)
  have lay: "length (layout Ws) < 2 ^ 32" "length flt < 2 ^ 32" using len by (simp_all add: data)
  have blocks: "\<exists>raw. readable_at sn (read f) (handle_of Ws j) raw \<and> image raw (fst (Ws ! j))" if j: "j < length Ws" for j
  proof -
    obtain L c t where W: "Ws ! j = (L, c, t)" by (metis prod_cases3)
    then have "stores sn c t L" using st nth_mem [OF j] by auto
    then obtain raw where raw: "chunk sn c t raw" "image raw L" by (auto simp: stores_def)
    have "contents f = layout (take j Ws) @ stored c t @ (layout (drop (Suc j) Ws) @ flt @ stored mc mt @ stored ic it @ footer_bytes ?ft)"
      using layout_split [OF j W] by (simp add: data)
    from readable_stored [OF f this len64 raw(1)] handle_of_at [OF W] raw(2) W show ?thesis by auto
  qed
  from ix(3) obtain iraw where iraw: "chunk sn ic it iraw" "image iraw idx" by (auto simp: stores_def)
  have "contents f = (layout Ws @ flt @ stored mc mt) @ stored ic it @ footer_bytes ?ft" by (simp add: data)
  from readable_stored [OF f this len64 iraw(1)] have ir: "readable_at sn (read f) (ft_index_handle ?ft) iraw" by simp
  obtain ib where ib: "ReadBlock sn (read f) (paranoid_options o1) (ft_index_handle ?ft) = Ret (Status_OK, ib)" "bc_data ib = iraw"
    by (rule readable_ReadBlock [OF ir])
  from fp(2) obtain mraw where mraw: "chunk sn mc mt mraw" "image mraw meta" by (auto simp: stores_def)
  have "contents f = (layout Ws @ flt) @ stored mc mt @ (stored ic it @ footer_bytes ?ft)" by (simp add: data)
  from readable_stored [OF f this len64 mraw(1)] have mr: "readable_at sn (read f) (ft_metaindex_handle ?ft) mraw" by simp
  define t where "t = \<lparr>ta_options = o1, ta_file = read f, ta_cache_id = (case cache of Some ops \<Rightarrow> fst (bca_NewId ops c) | None \<Rightarrow> 0),
    ta_filter = None, ta_metaindex_handle = ft_metaindex_handle ?ft, ta_index_block = Block iraw\<rparr>"
  have "\<exists>flt'. ReadMeta sn ?ft t = Ret (t\<lparr>ta_filter := flt'\<rparr>) \<and> filter_right flt' Ws"
  proof (cases "op_filter_policy o1")
    case None
    then have "ReadMeta sn ?ft t = Ret (t\<lparr>ta_filter := None\<rparr>)" by (simp add: ReadMeta_def t_def)
    then show ?thesis by (auto simp: filter_right_def)
  next
    case (Some p)
    from filter_part_right [OF fp(1) [unfolded Some] lay(2,1) ne] obtain fs where fs: "flt = stored (filter_image fs) kNoCompression"
      "meta = [(cstr ''filter.'' @ fp_name p, handle_bytes (handle_at (layout Ws) (filter_image fs)))]"
      "filter_right (Some (p, FilterBlockReader (filter_image fs))) Ws" by blast
    have "contents f = layout Ws @ stored (filter_image fs) kNoCompression @ (stored mc mt @ stored ic it @ footer_bytes ?ft)"
      by (simp add: data fs(1))
    from readable_stored [OF f this len64] have "readable_at sn (read f) (handle_at (layout Ws) (filter_image fs)) (filter_image fs)"
      by (simp add: chunk_def)
    with ReadMeta_at [of t p sn ?ft mraw "handle_at (layout Ws) (filter_image fs)" "filter_image fs"] mr mraw(2) fs(2,3) Some
    show ?thesis by (auto simp: t_def)
  qed
  then obtain flt' where rm: "ReadMeta sn ?ft t = Ret (t\<lparr>ta_filter := flt'\<rparr>)" "filter_right flt' Ws" by blast
  have "Open sn cache o1 (read f) (of_nat ?n) c =
      Ret (Status_OK, Some (t\<lparr>ta_filter := flt'\<rparr>), case cache of Some ops \<Rightarrow> snd (bca_NewId ops c) | None \<Rightarrow> c)"
    using sz rd ib rm(1) by (cases cache) (simp_all add: Open_def Footer_DecodeFrom_bytes Let_def t_def case_prod_beta)
  moreover have "opened valid compare sn (t\<lparr>ta_filter := flt'\<rparr>) Ws idx"
    using iraw(2) indexed_sorted [OF K ix(1,2) ne] S ix(1,2) lay(1) blocks rm(2) len
    by (auto simp: opened_def t_def kvs data handle_at_def intro!: exI [of _ "length (layout Ws) + length flt"])
  moreover have "length Ws \<le> length (entries_of Ws)" using st
  proof (induction Ws)
    case (Cons W Ws)
    then have "fst W \<noteq> []" "length Ws \<le> length (entries_of Ws)" by (auto simp: case_prod_beta)
    then show ?case by (cases "fst W") (simp_all add: entries_of_def)
  qed simp
  ultimately show ?thesis using kvs by (intro exI [of _ "t\<lparr>ta_filter := flt'\<rparr>"] exI [of _ Ws] exI [of _ idx]) (simp add: t_def)
qed

end

end
