(* ===== verification/Ldb_Table_Spec.thy ===== *)
theory Ldb_Table_Spec
  imports Ldb_Table_Read
begin

text \<open>
  What an opened table gives its readers: the iterator over all entries, the lookup and the approximate offsets. A block
  cache may answer with a handle of the block that is asked for, or not at all, and keeps the blocks of the handles that are
  held; \<open>serves\<close> says so.
\<close>

section \<open>The reader of blocks\<close>

text \<open>\<open>held hs c\<close>: the handles \<open>hs\<close> are held in the cache \<open>c\<close>, each as often as it is in the list.\<close>

abbreviation most_held :: nat where "most_held \<equiv> 2 ^ 30"

definition serves ::
  "('c, 'h) block_cache option \<Rightarrow> ('h list \<Rightarrow> 'c \<Rightarrow> bool) \<Rightarrow> snappy \<Rightarrow> table \<Rightarrow> data_block list \<Rightarrow> bool" where
  "serves cache held sn t Ws \<longleftrightarrow> (case cache of None \<Rightarrow> True | Some ops \<Rightarrow>
     \<forall>hs c. held hs c \<longrightarrow>
       (\<forall>h \<in> set hs. (\<exists>b. bca_Value ops h c = Ret b) \<and> (\<exists>c'. bca_Release ops h c = Ret c' \<and> held (remove1 h hs) c')) \<and>
       (\<forall>j raw. length hs < most_held \<and> j < length Ws \<and> readable_at sn (ta_file t) (handle_of Ws j) raw \<longrightarrow>
          (\<exists>r c'. bca_Lookup ops (cache_key (ta_cache_id t) (handle_of Ws j)) c = Ret (r, c') \<and>
             (case r of None \<Rightarrow> held hs c' | Some h \<Rightarrow> held (h # hs) c' \<and> bca_Value ops h c' = Ret (Block raw))) \<and>
          (\<exists>h c'. bca_Insert ops (cache_key (ta_cache_id t) (handle_of Ws j)) (Block raw) (of_nat (bl_size (Block raw))) c = Ret (h, c') \<and>
             held (h # hs) c')))"

text \<open>The iterators whose tokens are \<open>xs\<close>: the handles among the tokens are held.\<close>

fun handles_in :: "'h option list \<Rightarrow> 'h list" where
  "handles_in [] = []"
| "handles_in (None # xs) = handles_in xs"
| "handles_in (Some h # xs) = h # handles_in xs"

definition cache_held ::
  "('c, 'h) block_cache option \<Rightarrow> ('h list \<Rightarrow> 'c \<Rightarrow> bool) \<Rightarrow> snappy \<Rightarrow> table \<Rightarrow> data_block list \<Rightarrow> 'h option list \<Rightarrow> 'c \<Rightarrow> bool" where
  "cache_held cache held sn t Ws xs c \<longleftrightarrow>
     serves cache held sn t Ws \<and> held (handles_in xs) c \<and> (cache = None \<longrightarrow> handles_in xs = [])"

lemma tokens_mem: "h \<in> set (handles_in xs) \<longleftrightarrow> Some h \<in> set xs"
  by (induction xs rule: handles_in.induct) auto

lemma tokens_le: "length (handles_in xs) \<le> length xs"
  by (induction xs rule: handles_in.induct) auto

lemma tokens_remove: "handles_in (remove1 x xs) = (case x of None \<Rightarrow> handles_in xs | Some h \<Rightarrow> remove1 h (handles_in xs))"
  by (induction xs rule: handles_in.induct) (auto split: option.splits)

lemma serves_held:
  "serves (Some ops) held sn t Ws \<Longrightarrow> held hs c \<Longrightarrow> h \<in> set hs \<Longrightarrow>
     (\<exists>b. bca_Value ops h c = Ret b) \<and> (\<exists>c'. bca_Release ops h c = Ret c' \<and> held (remove1 h hs) c')"
  unfolding serves_def option.case by blast

lemma held_there: "cache_held cache held sn t Ws xs c \<Longrightarrow> x \<in> set xs \<Longrightarrow> block_there cache c (cleanup_of x)"
proof (cases x)
  case (Some h)
  assume a: "cache_held cache held sn t Ws xs c" "x \<in> set xs"
  then have "h \<in> set (handles_in xs)" using Some by (simp add: tokens_mem)
  moreover from this obtain ops where "cache = Some ops" using a(1) by (cases cache) (auto simp: cache_held_def)
  ultimately show ?thesis using a(1) Some serves_held [of ops held sn t Ws "handles_in xs" c h]
    by (auto simp: cache_held_def cleanup_of_def)
qed (simp add: cleanup_of_def)

lemma data_destroy_at:
  assumes "cache_held cache held sn t Ws xs c" "x \<in> set xs" "dt_cleanup i = [cleanup_of x]"
  shows "\<exists>c'. data_destroy cache i c = Ret c' \<and> cache_held cache held sn t Ws (remove1 x xs) c'"
proof (cases x)
  case None
  then have "data_destroy cache i c = Ret c" using assms(3) by (simp add: data_destroy_def cleanup_of_def)
  moreover have "cache_held cache held sn t Ws (remove1 x xs) c" using assms(1) None by (simp add: cache_held_def tokens_remove)
  ultimately show ?thesis by blast
next
  case (Some h)
  then have h: "h \<in> set (handles_in xs)" using assms(2) by (simp add: tokens_mem)
  then obtain ops where ops: "cache = Some ops" using assms(1) by (cases cache) (auto simp: cache_held_def)
  then obtain c' where "bca_Release ops h c = Ret c'" "held (remove1 h (handles_in xs)) c'"
    using assms(1) h serves_held [of ops held sn t Ws "handles_in xs" c h] by (auto simp: cache_held_def)
  then show ?thesis using assms(1,3) Some ops by (simp add: data_destroy_def cleanup_of_def cache_held_def tokens_remove)
qed

lemma BlockReader_at:
  assumes o: "opened valid compare sn t Ws idx" and c: "cache_held cache held sn t Ws xs c" and few: "length xs < most_held"
    and j: "j < length Ws"
  shows "\<exists>i c' x. BlockReader sn cache t options (handle_bytes (handle_of Ws j)) c = Ret (i, c') \<and>
    cache_held cache held sn t Ws (x # xs) c' \<and> data_cursor valid compare cache x c' i (fst (Ws ! j)) (length (fst (Ws ! j)))"
proof -
  from o j obtain raw where raw: "readable_at sn (ta_file t) (handle_of Ws j) raw" "image raw (fst (Ws ! j))" by (auto simp: opened_def)
  have "sorted_pairs valid compare (fst (Ws ! j))" using o j by (intro sorted_part) (simp_all add: opened_def)
  from NewIterator_image [OF raw(2) this] obtain i where i: "bl_NewIterator (Block raw) = Ret i"
    "bit_cursor valid compare i (fst (Ws ! j)) (length (fst (Ws ! j)))" by blast
  obtain b where b: "ReadBlock sn (ta_file t) options (handle_of Ws j) = Ret (Status_OK, b)" "bc_data b = raw"
    by (rule readable_ReadBlock [OF raw(1)])
  have new: "read_new_block sn t options (handle_of Ws j) = Ret (Status_OK, Some (Block raw), bc_cachable b)"
    using b by (simp add: read_new_block_def)
  have h: "bh_DecodeFrom (handle_bytes (handle_of Ws j)) BlockHandle = (Status_OK, handle_of Ws j, [])"
    using bh_DecodeFrom_bytes [of "handle_of Ws j" "[]" BlockHandle] by simp
  let ?hs = "handles_in xs" and ?key = "cache_key (ta_cache_id t) (handle_of Ws j)"
  let ?i = "\<lambda>x. \<lparr>dt_iter = i, dt_cleanup = [cleanup_of x]\<rparr>"
  have fewer: "length ?hs < most_held" using tokens_le [of xs] few by simp
  have own: "cache_held cache held sn t Ws (None # xs) c'" if "held ?hs c'" for c' using c that by (simp add: cache_held_def)
  have shared: "cache_held cache held sn t Ws (Some h # xs) c'" if "held (h # ?hs) c'" "cache = Some ops" for h c' ops
    using c that by (simp add: cache_held_def)
  have "\<exists>c' x. BlockReader sn cache t options (handle_bytes (handle_of Ws j)) c = Ret (?i x, c') \<and> cache_held cache held sn t Ws (x # xs) c'"
  proof (cases cache)
    case None
    then have "BlockReader sn cache t options (handle_bytes (handle_of Ws j)) c = Ret (?i None, c)"
      using h i(1) new by (simp add: BlockReader_def RegisterCleanup_def cleanup_of_def)
    moreover have "held ?hs c" using c by (simp add: cache_held_def)
    ultimately show ?thesis using own by blast
  next
    case (Some ops)
    have cached: "(\<exists>r c'. bca_Lookup ops ?key c = Ret (r, c') \<and>
             (case r of None \<Rightarrow> held ?hs c' | Some h \<Rightarrow> held (h # ?hs) c' \<and> bca_Value ops h c' = Ret (Block raw))) \<and>
          (\<exists>h c'. bca_Insert ops ?key (Block raw) (of_nat (bl_size (Block raw))) c = Ret (h, c') \<and> held (h # ?hs) c')"
      if "held ?hs c" for c
    proof -
      have "serves (Some ops) held sn t Ws" using c Some by (simp add: cache_held_def)
      then show ?thesis unfolding serves_def option.case using that fewer j raw(1) by blast
    qed
    have "held ?hs c" using c by (simp add: cache_held_def)
    from cached [OF this] obtain r c1 where r: "bca_Lookup ops ?key c = Ret (r, c1)"
      "case r of None \<Rightarrow> held ?hs c1 | Some h \<Rightarrow> held (h # ?hs) c1 \<and> bca_Value ops h c1 = Ret (Block raw)" by blast
    show ?thesis
    proof (cases r)
      case hit: (Some g)
      then have "BlockReader sn cache t options (handle_bytes (handle_of Ws j)) c = Ret (?i (Some g), c1)"
        using r h i(1) Some by (simp add: BlockReader_def RegisterCleanup_def cleanup_of_def)
      then show ?thesis using shared [OF _ Some] r(2) hit by auto
    next
      case None
      then have c1: "held ?hs c1" using r(2) by simp
      from cached [OF this] obtain g c2 where g: "bca_Insert ops ?key (Block raw) (of_nat (bl_size (Block raw))) c1 = Ret (g, c2)"
        "held (g # ?hs) c2" by blast
      show ?thesis
      proof (cases "bc_cachable b \<and> ro_fill_cache options")
        case True
        then have "BlockReader sn cache t options (handle_bytes (handle_of Ws j)) c = Ret (?i (Some g), c2)"
          using r(1) None g(1) h i(1) new Some by (simp add: BlockReader_def RegisterCleanup_def cleanup_of_def)
        then show ?thesis using shared [OF g(2) Some] by blast
      next
        case False
        then have "BlockReader sn cache t options (handle_bytes (handle_of Ws j)) c = Ret (?i None, c1)"
          using r(1) None h i(1) new Some by (auto simp: BlockReader_def RegisterCleanup_def cleanup_of_def)
        then show ?thesis using own [OF c1] by blast
      qed
    qed
  qed
  then obtain c' x where at: "BlockReader sn cache t options (handle_bytes (handle_of Ws j)) c = Ret (?i x, c')"
    "cache_held cache held sn t Ws (x # xs) c'" by blast
  have "data_cursor valid compare cache x c' (?i x) (fst (Ws ! j)) (length (fst (Ws ! j)))"
    using held_there [OF at(2), of x] i(2) by (simp add: data_cursor_def)
  with at show ?thesis by blast
qed

text \<open>The handles of a table that is open, and the entries of their blocks.\<close>

definition known_handle ::
  "(slice \<Rightarrow> bool) \<Rightarrow> (slice \<Rightarrow> slice \<Rightarrow> int) \<Rightarrow> snappy \<Rightarrow> table \<Rightarrow> data_block list \<Rightarrow> pair list \<Rightarrow> slice \<Rightarrow> bool" where
  "known_handle valid compare sn t Ws idx h \<longleftrightarrow>
     opened valid compare sn t Ws idx \<and> (\<exists>j < length Ws. h = handle_bytes (handle_of Ws j))"

definition block_of :: "data_block list \<Rightarrow> slice \<Rightarrow> pair list" where
  "block_of Ws h = (case filter (\<lambda>j. h = handle_bytes (handle_of Ws j)) [0..<length Ws] of [] \<Rightarrow> [] | j # js \<Rightarrow> fst (Ws ! j))"

lemma block_of_handle:
  assumes "length (layout Ws) < 2 ^ 32" "j < length Ws"
  shows "block_of Ws (handle_bytes (handle_of Ws j)) = fst (Ws ! j)"
proof -
  let ?l = "filter (\<lambda>i. handle_bytes (handle_of Ws j) = handle_bytes (handle_of Ws i)) [0..<length Ws]"
  have m: "i = j" if "i \<in> set ?l" for i using that handle_of_inject [OF assms(1,2), of i] by auto
  have "j \<in> set ?l" using assms(2) by simp
  then obtain i js where l: "?l = i # js" by (cases ?l) auto
  then have "i = j" using m [of i] by simp
  then show ?thesis using l by (simp add: block_of_def)
qed

lemma reader_two_level:
  assumes "key_order valid compare"
  shows "two_level valid compare (bit_ops compare) (bit_cursor valid compare) (data_ops compare cache) (data_cursor valid compare cache)
    (data_destroy cache) (BlockReader sn cache t options) (cache_held cache held sn t Ws) most_held
    (known_handle valid compare sn t Ws idx) (block_of Ws)"
proof (intro two_level.intro two_level_axioms.intro bit_contract [OF assms] data_iterator_contract [OF assms])
  have keeps: "\<forall>y \<in> set ys. \<forall>i L q. data_cursor valid compare cache y c i L q \<longrightarrow> data_cursor valid compare cache y c' i L q"
    if "cache_held cache held sn t Ws xs c'" "set ys \<subseteq> set xs" for c c' xs ys
    using held_there [OF that(1)] that(2) by (auto simp: data_cursor_def)
  fix xs c
  assume c: "cache_held cache held sn t Ws xs c"
  show "\<exists>i c' x q. BlockReader sn cache t options h c = Ret (i, c') \<and> cache_held cache held sn t Ws (x # xs) c' \<and>
      data_cursor valid compare cache x c' i (block_of Ws h) q \<and>
      (\<forall>y \<in> set xs. \<forall>i L q. data_cursor valid compare cache y c i L q \<longrightarrow> data_cursor valid compare cache y c' i L q)"
    if few: "length xs < most_held" and "known_handle valid compare sn t Ws idx h" for h
  proof -
    from that(2) obtain j where o: "opened valid compare sn t Ws idx" "j < length Ws" "h = handle_bytes (handle_of Ws j)"
      by (auto simp: known_handle_def)
    have "block_of Ws h = fst (Ws ! j)" using o by (simp add: block_of_handle opened_def)
    with BlockReader_at [OF o(1) c few o(2), of options] o(3) obtain i c' x where
      at: "BlockReader sn cache t options h c = Ret (i, c')" "cache_held cache held sn t Ws (x # xs) c'"
        "data_cursor valid compare cache x c' i (block_of Ws h) (length (fst (Ws ! j)))" by auto
    moreover have "set xs \<subseteq> set (x # xs)" by auto
    ultimately show ?thesis using keeps [OF at(2), of xs] by blast
  qed
  show "\<exists>c'. data_destroy cache i c = Ret c' \<and> cache_held cache held sn t Ws (remove1 x xs) c' \<and>
      (\<forall>y \<in> set (remove1 x xs). \<forall>i L q. data_cursor valid compare cache y c i L q \<longrightarrow> data_cursor valid compare cache y c' i L q)"
    if x: "x \<in> set xs" "data_cursor valid compare cache x c i L q" for x i L q
  proof -
    from data_destroy_at [OF c x(1), of i] x(2) obtain c' where
      at: "data_destroy cache i c = Ret c'" "cache_held cache held sn t Ws (remove1 x xs) c'" by (auto simp: data_cursor_def)
    then show ?thesis using keeps [OF at(2), of "remove1 x xs"] by blast
  qed
qed

interpretation bytewise_blocks: two_level "\<lambda>_. True" slice_compare "bit_ops slice_compare" "bit_cursor (\<lambda>_. True) slice_compare"
  "data_ops slice_compare cache" "data_cursor (\<lambda>_. True) slice_compare cache" "data_destroy cache" "BlockReader sn cache t options"
  "cache_held cache held sn t Ws" most_held "known_handle (\<lambda>_. True) slice_compare sn t Ws idx" "block_of Ws"
  for sn cache t options held Ws idx
  by (rule reader_two_level [OF bytewise.key_order_axioms])

section \<open>The iterator\<close>

lemma index_values: "opened valid compare sn t Ws idx \<Longrightarrow> j < length Ws \<Longrightarrow> snd (idx ! j) = handle_bytes (handle_of Ws j)"
  by (auto simp: opened_def indexed_def)

lemma opened_blocks:
  assumes "opened valid compare sn t Ws idx" shows "map (block_of Ws \<circ> snd) idx = map fst Ws"
proof (rule nth_equalityI)
  show "length (map (block_of Ws \<circ> snd) idx) = length (map fst Ws)" using assms by (simp add: opened_def)
  fix j assume "j < length (map (block_of Ws \<circ> snd) idx)"
  then have "j < length Ws" "length (layout Ws) < 2 ^ 32" "j < length idx" using assms by (simp_all add: opened_def)
  then show "map (block_of Ws \<circ> snd) idx ! j = map fst Ws ! j" using index_values [OF assms] block_of_handle by simp
qed

lemma table_iter_at:
  assumes K: "key_order valid compare" and o: "opened valid compare sn t Ws idx" and c: "cache_held cache held sn t Ws [] c"
    and t: "table_compare t = compare" and fuel: "length Ws + 2 \<le> fuel"
  shows "\<exists>it. ta_NewIterator t c = Ret it \<and> (\<forall>mvs obs. list_all (valid_move valid) mvs \<longrightarrow>
    cursor_script compare (entries_of Ws) mvs (length (entries_of Ws)) = Some obs \<longrightarrow>
    iter_script (table_iter_ops fuel sn cache t options) mvs it = Ret obs \<and>
    (\<exists>it' c'. iter_after (table_iter_ops fuel sn cache t options) mvs it = Ret it' \<and> table_iter_destroy cache it' = Ret c' \<and>
       cache_held cache held sn t Ws [] c'))"
proof -
  note L = reader_two_level [OF K, of cache sn t options held Ws idx]
  from o obtain raw where raw: "ta_index_block t = Block raw" "image raw idx" "sorted_pairs valid compare idx" by (auto simp: opened_def)
  from NewIterator_image [OF raw(2,3)] obtain i where i: "bl_NewIterator (ta_index_block t) = Ret i"
    "bit_cursor valid compare i idx (length idx)" using raw(1) by auto
  have len: "length idx = length Ws" using o by (simp add: opened_def)
  have known: "\<forall>x \<in> set idx. known_handle valid compare sn t Ws idx (snd x)"
  proof
    fix x assume "x \<in> set idx"
    then obtain j where j: "j < length idx" "idx ! j = x" by (auto simp: in_set_conv_nth)
    with index_values [OF o, of j] len show "known_handle valid compare sn t Ws idx (snd x)"
      using o by (auto simp: known_handle_def)
  qed
  have bl: "two_level.blocks (block_of Ws) idx = map fst Ws" using opened_blocks [OF o] by (simp add: two_level.blocks_def [OF L])
  have cc: "concat (map fst Ws) = entries_of Ws" by (simp add: entries_of_def)
  have "separates compare idx (map fst Ws)" "sorted_pairs valid compare (concat (map fst Ws))"
    using indexed_separates o by (auto simp: opened_def cc)
  with two_level.TwoLevelIterator_at [OF L i(2) c _ known, of fuel, unfolded bl cc] fuel len obtain it where
    it: "TwoLevelIterator (bit_ops compare) c i = Ret it" and
    cur: "two_level.tl_cursor valid compare (bit_cursor valid compare) (data_cursor valid compare cache) (cache_held cache held sn t Ws) most_held
      (known_handle valid compare sn t Ws idx) (block_of Ws) fuel [] it (entries_of Ws) (length (entries_of Ws))" by (auto simp: cc)
  have "ta_NewIterator t c = Ret it" using i(1) it t by (simp add: ta_NewIterator_def)
  moreover have "iter_script (table_iter_ops fuel sn cache t options) mvs it = Ret obs \<and>
      (\<exists>it' c'. iter_after (table_iter_ops fuel sn cache t options) mvs it = Ret it' \<and> table_iter_destroy cache it' = Ret c' \<and>
         cache_held cache held sn t Ws [] c')"
    if "list_all (valid_move valid) mvs" "cursor_script compare (entries_of Ws) mvs (length (entries_of Ws)) = Some obs" for mvs obs
  proof -
    note C = two_level.two_level_contract [OF L]
    from iterator_contract.after_at [OF C cur that] obtain it' j where
      "iter_after (table_iter_ops fuel sn cache t options) mvs it = Ret it'" and
      c': "two_level.tl_cursor valid compare (bit_cursor valid compare) (data_cursor valid compare cache) (cache_held cache held sn t Ws) most_held
        (known_handle valid compare sn t Ws idx) (block_of Ws) fuel [] it' (entries_of Ws) j" by (auto simp: table_iter_ops_def t)
    with two_level.tl_destroy_at [OF L c'] iterator_contract.script_at [OF C cur that] show ?thesis
      by (auto simp: table_iter_ops_def table_iter_destroy_def t)
  qed
  ultimately show ?thesis by blast
qed

section \<open>The lookup\<close>

lemma first_at_eqI:
  assumes "p < length kvs" "\<And>i. i < p \<Longrightarrow> compare (fst (kvs ! i)) k < 0" "\<not> compare (fst (kvs ! p)) k < 0"
  shows "first_at compare k kvs = p"
  using takeWhile_eq_take_P_nth [of p kvs "\<lambda>x. compare (fst x) k < 0"] assms by (simp add: first_at_def)

lemma first_at_key:
  assumes "key_order valid compare" "sorted_pairs valid compare kvs" "x \<in> set kvs"
  shows "first_at compare (fst x) kvs < length kvs \<and> kvs ! first_at compare (fst x) kvs = x"
proof -
  from assms(3) obtain p where p: "p < length kvs" "kvs ! p = x" by (auto simp: in_set_conv_nth)
  have "valid (fst x)" using assms(2,3) by (simp add: sorted_pairs_def)
  then have "\<not> compare (fst (kvs ! p)) (fst x) < 0" using key_order.compare_refl [OF assms(1)] p(2) by simp
  moreover have "compare (fst (kvs ! i)) (fst x) < 0" if "i < p" for i
    using assms(2) p that by (auto simp: sorted_pairs_def sorted_wrt_iff_nth_less)
  ultimately have "first_at compare (fst x) kvs = p" using first_at_eqI [of p kvs compare "fst x"] p(1) by blast
  then show ?thesis using p by simp
qed

lemma index_seek:
  assumes K: "key_order valid compare" and o: "opened valid compare sn t Ws idx" and k: "valid k"
  defines "j \<equiv> first_at compare k idx"
  shows "\<exists>i i'. bl_NewIterator (ta_index_block t) = Ret i \<and> io_Seek (bit_ops compare) k i = Ret i' \<and>
    (io_Valid (bit_ops compare) i' \<longleftrightarrow> j < length Ws) \<and> io_status (bit_ops compare) i' = Ret Status_OK \<and>
    (j < length Ws \<longrightarrow> io_value (bit_ops compare) i' = Ret (handle_bytes (handle_of Ws j)))"
proof -
  from o obtain raw where raw: "ta_index_block t = Block raw" "image raw idx" "sorted_pairs valid compare idx" by (auto simp: opened_def)
  from NewIterator_image [OF raw(2,3)] obtain i where i: "bl_NewIterator (ta_index_block t) = Ret i"
    "bit_cursor valid compare i idx (length idx)" using raw(1) by auto
  note bc = bit_contract [OF K]
  from iterator_contract.Seek_at [OF bc i(2) k] obtain i' where i': "io_Seek (bit_ops compare) k i = Ret i'"
    "bit_cursor valid compare i' idx j" by (auto simp: j_def)
  have len: "length idx = length Ws" using o by (simp add: opened_def)
  show ?thesis
    using i(1) i'(1) iterator_contract.Valid_iff [OF bc i'(2)] iterator_contract.status_at [OF bc i'(2)]
      iterator_contract.value_at [OF bc i'(2)] index_values [OF o, of j] by (simp add: len)
qed

text \<open>A key of the table is in the block that the index names.\<close>

lemma key_block:
  assumes K: "key_order valid compare" and o: "opened valid compare sn t Ws idx" and x: "x \<in> set (entries_of Ws)"
  defines "j \<equiv> first_at compare (fst x) idx"
  shows "j < length Ws" "x \<in> set (fst (Ws ! j))"
proof -
  from o have ix: "indexed valid compare Ws [] idx" "length idx = length Ws" "sorted_pairs valid compare idx"
    and s: "sorted_pairs valid compare (entries_of Ws)" by (simp_all add: opened_def)
  obtain W where W: "W \<in> set Ws" "x \<in> set (fst W)" using x by (auto simp: entries_of_def)
  from W(1) obtain i where "i < length Ws" "Ws ! i = W" by (auto simp: in_set_conv_nth)
  with W(2) have i: "i < length Ws" "x \<in> set (fst (Ws ! i))" by simp_all
  have v: "valid (fst x)" using s x by (simp add: sorted_pairs_def)
  have vi: "valid (fst (idx ! i))" using ix i(1) by (simp add: indexed_def)
  have "compare (fst x) (fst (idx ! i)) \<le> 0" using ix(1,2) i by (simp add: indexed_def)
  then have "\<not> compare (fst (idx ! i)) (fst x) < 0" using key_order.compare_not_less [OF K vi v] by simp
  moreover have "compare (fst (idx ! l)) (fst x) < 0" if "l < i" for l
    using indexed_after [OF ix(1) _ that i] that i(1) ix(2) by simp
  ultimately have "j = i" unfolding j_def using first_at_eqI [of i idx compare "fst x"] i(1) ix(2) by simp
  then show "j < length Ws" "x \<in> set (fst (Ws ! j))" using i by simp_all
qed

lemma seek_block:
  assumes K: "key_order valid compare" and o: "opened valid compare sn t Ws idx" and k: "valid k"
    and j: "j = first_at compare k idx" "j < length Ws" and q: "q = first_at compare k (fst (Ws ! j))" "q < length (fst (Ws ! j))"
  shows "first_at compare k (entries_of Ws) < length (entries_of Ws) \<and>
    entries_of Ws ! first_at compare k (entries_of Ws) = fst (Ws ! j) ! q"
proof -
  have cc: "concat (map fst Ws) = entries_of Ws" by (simp add: entries_of_def)
  have ix: "separates compare idx (map fst Ws)" "sorted_pairs valid compare idx" "length idx = length Ws"
    using indexed_separates o by (auto simp: opened_def)
  have "\<forall>x \<in> set (concat (map fst Ws)). valid (fst x)" using o by (simp add: opened_def cc sorted_pairs_def)
  from slice_order.seek_concat [OF slice_order.intro [OF K] ix(1,2) this k] j q(1) ix(3)
  have "first_at compare k (entries_of Ws) = base (map fst Ws) j + q" by (simp add: cc)
  moreover have "base (map fst Ws) j + q < length (concat (map fst Ws))" "concat (map fst Ws) ! (base (map fst Ws) j + q) = map fst Ws ! j ! q"
    using base_nth [of j "map fst Ws" q] j(2) q(2) by simp_all
  ultimately show ?thesis using j(2) unfolding cc by simp
qed

lemma filtered_out_at:
  assumes o: "opened valid compare sn t Ws idx" and j: "j < length Ws"
  shows "\<exists>m. filtered_out t (handle_bytes (handle_of Ws j)) k = Ret (\<not> m) \<and> (k \<in> fst ` set (fst (Ws ! j)) \<longrightarrow> m)"
proof (cases "ta_filter t")
  case None
  then show ?thesis by (auto simp: filtered_out_def)
next
  case (Some pr)
  obtain p reader where pr: "pr = (p, reader)" by fastforce
  have "filter_right (Some (p, reader)) Ws" using o Some pr by (simp add: opened_def)
  then have "\<exists>m. filter_KeyMayMatch (fp_may_match p) reader (bh_offset (handle_of Ws j)) k = Ret m \<and>
    (k \<in> fst ` set (fst (Ws ! j)) \<longrightarrow> m)" unfolding filter_right_def option.case prod.case using j by blast
  then obtain m where m: "filter_KeyMayMatch (fp_may_match p) reader (bh_offset (handle_of Ws j)) k = Ret m"
    "k \<in> fst ` set (fst (Ws ! j)) \<longrightarrow> m" by blast
  then show ?thesis using Some pr bh_DecodeFrom_bytes [of "handle_of Ws j" "[]" BlockHandle] by (auto simp: filtered_out_def)
qed

lemma InternalGet_at:
  assumes K: "key_order valid compare" and o: "opened valid compare sn t Ws idx" and c: "cache_held cache held sn t Ws [] c"
    and t: "table_compare t = compare" and k: "valid k"
  defines "kvs \<equiv> entries_of Ws" and "p \<equiv> first_at compare k (entries_of Ws)"
  shows "\<exists>arg' c'. InternalGet sn cache options k saver t arg c = Ret (Status_OK, arg', c') \<and> cache_held cache held sn t Ws [] c' \<and>
    (\<forall>v. (k, v) \<in> set kvs \<longrightarrow> arg' = saver k v arg) \<and>
    (arg' = arg \<or> p < length kvs \<and> arg' = saver (fst (kvs ! p)) (snd (kvs ! p)) arg)"
proof -
  define j where "j = first_at compare k idx"
  note bc = bit_contract [OF K]
  have at: "j < length Ws \<and> (k, v) \<in> set (fst (Ws ! j))" if "(k, v) \<in> set kvs" for v
    using key_block [OF K o that [unfolded kvs_def]] by (simp add: j_def)
  from index_seek [OF K o k] obtain i i' where i: "bl_NewIterator (ta_index_block t) = Ret i" "io_Seek (bit_ops compare) k i = Ret i'"
    "io_Valid (bit_ops compare) i' \<longleftrightarrow> j < length Ws" "io_status (bit_ops compare) i' = Ret Status_OK"
    "j < length Ws \<longrightarrow> io_value (bit_ops compare) i' = Ret (handle_bytes (handle_of Ws j))" by (auto simp: j_def)
  show ?thesis
  proof (cases "j < length Ws")
    case False
    then have "InternalGet sn cache options k saver t arg c = Ret (Status_OK, arg, c)" using i by (simp add: InternalGet_def t Let_def)
    then show ?thesis using at False c by blast
  next
    case j: True
    let ?L = "fst (Ws ! j)"
    from filtered_out_at [OF o j] obtain m where m: "filtered_out t (handle_bytes (handle_of Ws j)) k = Ret (\<not> m)"
      "k \<in> fst ` set ?L \<longrightarrow> m" by blast
    show ?thesis
    proof (cases m)
      case False
      then have "InternalGet sn cache options k saver t arg c = Ret (Status_OK, arg, c)" using i j m(1) by (simp add: InternalGet_def t Let_def)
      moreover have "(k, v) \<notin> set kvs" for v using at [of v] m(2) False by force
      ultimately show ?thesis using c by blast
    next
      case True
      from BlockReader_at [OF o c _ j, of options] obtain bi c1 x where
        bi: "BlockReader sn cache t options (handle_bytes (handle_of Ws j)) c = Ret (bi, c1)"
          "cache_held cache held sn t Ws [x] c1" "data_cursor valid compare cache x c1 bi ?L (length ?L)" by auto
      note dc = data_iterator_contract [OF K, of cache c1 x]
      let ?ops = "data_ops compare cache c1"
      define q where "q = first_at compare k ?L"
      from iterator_contract.Seek_at [OF dc bi(3) k] obtain bi' where bi': "io_Seek ?ops k bi = Ret bi'"
        "data_cursor valid compare cache x c1 bi' ?L q" by (auto simp: q_def)
      have val: "io_Valid ?ops bi' \<longleftrightarrow> q < length ?L" and st: "io_status ?ops bi' = Ret Status_OK"
        and kv: "q < length ?L \<Longrightarrow> io_key ?ops bi' = Ret (fst (?L ! q)) \<and> io_value ?ops bi' = Ret (snd (?L ! q))"
        using iterator_contract.Valid_iff [OF dc bi'(2)] iterator_contract.status_at [OF dc bi'(2)]
          iterator_contract.key_at [OF dc bi'(2)] iterator_contract.value_at [OF dc bi'(2)] by simp_all
      from data_destroy_at [OF bi(2), of x bi'] bi'(2) obtain c' where c': "data_destroy cache bi' c1 = Ret c'"
        "cache_held cache held sn t Ws [] c'" by (auto simp: data_cursor_def)
      define arg' where "arg' = (if q < length ?L then saver (fst (?L ! q)) (snd (?L ! q)) arg else arg)"
      have "InternalGet sn cache options k saver t arg c = Ret (Status_OK, arg', c')"
        using i j m(1) True bi(1) bi'(1) c'(1) val st kv by (simp add: InternalGet_def t Let_def arg'_def)
      moreover have "arg' = saver k v arg" if "(k, v) \<in> set kvs" for v
      proof -
        have "sorted_pairs valid compare ?L" using o j by (intro sorted_part) (simp_all add: opened_def)
        from first_at_key [OF K this, of "(k, v)"] at [OF that] show ?thesis by (simp add: arg'_def q_def)
      qed
      moreover have "arg' = arg \<or> p < length kvs \<and> arg' = saver (fst (kvs ! p)) (snd (kvs ! p)) arg"
        using seek_block [OF K o k j_def j q_def] by (auto simp: arg'_def p_def kvs_def)
      ultimately show ?thesis using c'(2) by blast
    qed
  qed
qed

lemma ApproximateOffsetOf_at:
  assumes K: "key_order valid compare" and o: "opened valid compare sn t Ws idx" and t: "table_compare t = compare" and k: "valid k"
  defines "j \<equiv> first_at compare k idx"
  shows "ApproximateOffsetOf k t = Ret (if j < length Ws then bh_offset (handle_of Ws j) else bh_offset (ta_metaindex_handle t))"
proof -
  from index_seek [OF K o k] obtain i i' where i: "bl_NewIterator (ta_index_block t) = Ret i" "io_Seek (bit_ops compare) k i = Ret i'"
    "io_Valid (bit_ops compare) i' \<longleftrightarrow> j < length Ws"
    "j < length Ws \<longrightarrow> io_value (bit_ops compare) i' = Ret (handle_bytes (handle_of Ws j))" by (auto simp: j_def)
  then show ?thesis using bh_DecodeFrom_bytes [of "handle_of Ws j" "[]" BlockHandle]
    by (cases "j < length Ws") (simp_all add: ApproximateOffsetOf_def t Let_def)
qed

text \<open>The offsets follow the order of the keys.\<close>

lemma first_at_mono:
  assumes "key_order valid compare" "sorted_pairs valid compare kvs" "valid a" "valid b" "compare a b \<le> 0"
  shows "first_at compare a kvs \<le> first_at compare b kvs"
proof (rule ccontr)
  let ?i = "first_at compare b kvs"
  assume "\<not> ?thesis"
  then have i: "?i < first_at compare a kvs" by simp
  then have l: "?i < length kvs" using length_takeWhile_le [of "\<lambda>x. compare (fst x) a < 0" kvs] by (simp add: first_at_def)
  have "compare (fst (kvs ! ?i)) a < 0"
    using i takeWhile_nth [of ?i "\<lambda>x. compare (fst x) a < 0" kvs] nth_mem [of ?i "takeWhile (\<lambda>x. compare (fst x) a < 0) kvs"]
    by (auto simp: first_at_def dest: set_takeWhileD)
  moreover have "\<not> compare (fst (kvs ! ?i)) b < 0"
    using l nth_length_takeWhile [of "\<lambda>x. compare (fst x) b < 0" kvs] by (simp add: first_at_def)
  moreover have "valid (fst (kvs ! ?i))" using l assms(2) by (simp add: sorted_pairs_def)
  ultimately show False using key_order.compare_less_le [OF assms(1) _ assms(3,4) _ assms(5), of "fst (kvs ! ?i)"] by blast
qed

lemma ApproximateOffsetOf_mono:
  assumes K: "key_order valid compare" and o: "opened valid compare sn t Ws idx" and t: "table_compare t = compare"
    and k: "valid a" "valid b" "compare a b \<le> 0"
  shows "\<exists>m n. ApproximateOffsetOf a t = Ret m \<and> ApproximateOffsetOf b t = Ret n \<and> m \<le> n"
proof -
  let ?i = "first_at compare a idx" and ?j = "first_at compare b idx"
  from o obtain m where m: "length (layout Ws) \<le> m" "m < 2 ^ 32" "bh_offset (ta_metaindex_handle t) = of_nat m" by (auto simp: opened_def)
  from o have lay: "length (layout Ws) < 2 ^ 32" and s: "sorted_pairs valid compare idx" by (simp_all add: opened_def)
  have "?i \<le> ?j" by (rule first_at_mono [OF K s k])
  moreover have "block_offset Ws i \<le> block_offset Ws j" if "i \<le> j" "j \<le> length Ws" for i j
    using block_offset_less [of i j Ws] that by (cases "i = j") auto
  moreover have "block_offset Ws i \<le> m" if "i < length Ws" for i
    using block_offset_less [OF that order_refl] m(1) by (simp add: block_offset_def)
  ultimately have le: "(if ?i < length Ws then block_offset Ws ?i else m) \<le> (if ?j < length Ws then block_offset Ws ?j else m)"
    by auto
  moreover have "(if ?j < length Ws then block_offset Ws ?j else m) < 2 ^ 32"
    using m(2) block_offset_less [of ?j "length Ws" Ws] lay by (auto simp: block_offset_def)
  ultimately have "(of_nat (if ?i < length Ws then block_offset Ws ?i else m) :: u64) \<le> of_nat (if ?j < length Ws then block_offset Ws ?j else m)"
    by (simp only: word_le_nat_alt) (simp add: unat_of_nat_small)
  then show ?thesis using ApproximateOffsetOf_at [OF K o t k(1)] ApproximateOffsetOf_at [OF K o t k(2)]
    by (simp add: m(3) handle_of_def split: if_splits)
qed

section \<open>Properties\<close>

text \<open>What is common to the properties: the table that was built is open.\<close>

lemma built_opened:
  assumes b: "table_building valid compare separator successor wappend wflush contents room sn good create may_match"
    and o1: "options_suit compare separator successor create may_match options"
    and f0: "contents f0 = []" "room f0 < 2 ^ 32" and kvs: "sorted_pairs valid compare kvs" "good (map fst kvs)"
    and r: "random_file read rcontents readable"
  shows "\<exists>s r. build_table sn \<lparr>fo_append = wappend, fo_flush = wflush\<rparr> options kvs f0 = Ret (s, r) \<and>
    (status_ok s \<longrightarrow> (\<forall>f. readable f \<and> rcontents f = contents (tb_file r) \<longrightarrow> (\<exists>t Ws idx.
      Open sn cache options (read f) (of_nat (length (rcontents f))) c =
        Ret (Status_OK, Some t, case cache of Some ops \<Rightarrow> snd (bca_NewId ops c) | None \<Rightarrow> c) \<and>
      table_compare t = compare \<and> opened valid compare sn t Ws idx \<and> entries_of Ws = kvs \<and> length Ws \<le> length kvs)))"
proof -
  have K: "key_order valid compare" using b by (simp add: table_building_def comparator_def slice_order_def)
  from table_building.build_table_at [OF b o1 f0 kvs(2,1)] obtain s r' where
    B: "build_table sn \<lparr>fo_append = wappend, fo_flush = wflush\<rparr> options kvs f0 = Ret (s, r')"
    "status_ok s \<longrightarrow> table_image valid compare sn (op_filter_policy options) (contents (tb_file r')) kvs" by blast
  have "\<exists>t Ws idx. Open sn cache options (read f) (of_nat (length (rcontents f))) c =
        Ret (Status_OK, Some t, case cache of Some ops \<Rightarrow> snd (bca_NewId ops c) | None \<Rightarrow> c) \<and>
      table_compare t = compare \<and> opened valid compare sn t Ws idx \<and> entries_of Ws = kvs \<and> length Ws \<le> length kvs"
    if f: "status_ok s" "readable f" "rcontents f = contents (tb_file r')" for f
  proof -
    have "table_image valid compare sn (op_filter_policy options) (rcontents f) kvs" using B(2) f by simp
    from random_file.Open_image [OF r K this kvs(1) f(2), of cache c] o1 show ?thesis by (fastforce simp: options_suit_def)
  qed
  then show ?thesis using B(1) by blast
qed

text \<open>A table without a block cache.\<close>

abbreviation no_cache :: "(unit, unit) block_cache option" where "no_cache \<equiv> None"

text \<open>C16: A table that was built without an error from sorted entries opens again, and its iterator is an iterator over just
these entries: whatever a client does with it, every key and value it sees is the one a position in the list of entries
gives. This holds for every comparator, filter policy, compression and file that keep their contracts.\<close>

theorem table_roundtrip:
  assumes "table_building valid compare separator successor wappend wflush contents room sn good create may_match"
    and "options_suit compare separator successor create may_match options"
    and "contents f0 = []" "room f0 < 2 ^ 32" "sorted_pairs valid compare kvs" "good (map fst kvs)"
    and "random_file read rcontents readable"
  shows "\<exists>s r. build_table sn \<lparr>fo_append = wappend, fo_flush = wflush\<rparr> options kvs f0 = Ret (s, r) \<and>
    (status_ok s \<longrightarrow> (\<forall>f. readable f \<and> rcontents f = contents (tb_file r) \<longrightarrow> (\<exists>t it.
      Open sn no_cache options (read f) (of_nat (length (rcontents f))) () = Ret (Status_OK, Some t, ()) \<and>
      ta_NewIterator t () = Ret it \<and>
      (\<forall>mvs obs. list_all (valid_move valid) mvs \<and> cursor_script compare kvs mvs (length kvs) = Some obs \<longrightarrow>
         iter_script (table_iter_ops (length kvs + 2) sn no_cache t roptions) mvs it = Ret obs))))"
proof -
  have K: "key_order valid compare" using assms(1) by (simp add: table_building_def comparator_def slice_order_def)
  from built_opened [OF assms, of no_cache "()"] obtain s r where B: "build_table sn \<lparr>fo_append = wappend, fo_flush = wflush\<rparr> options kvs f0 = Ret (s, r)"
    "status_ok s \<longrightarrow> (\<forall>f. readable f \<and> rcontents f = contents (tb_file r) \<longrightarrow> (\<exists>t Ws idx.
      Open sn no_cache options (read f) (of_nat (length (rcontents f))) () = Ret (Status_OK, Some t, ()) \<and>
      table_compare t = compare \<and> opened valid compare sn t Ws idx \<and> entries_of Ws = kvs \<and> length Ws \<le> length kvs))" by auto
  have "\<exists>it. ta_NewIterator t () = Ret it \<and> (\<forall>mvs obs. list_all (valid_move valid) mvs \<and> cursor_script compare kvs mvs (length kvs) = Some obs \<longrightarrow>
         iter_script (table_iter_ops (length kvs + 2) sn no_cache t roptions) mvs it = Ret obs)"
    if "table_compare t = compare" "opened valid compare sn t Ws idx" "entries_of Ws = kvs" "length Ws \<le> length kvs" for t Ws idx
  proof -
    have "length Ws + 2 \<le> length kvs + 2" using that(4) by simp
    from table_iter_at [OF K that(2) _ that(1) this, of no_cache "\<lambda>_ _. True" "()" roptions] that(3)
    show ?thesis by (fastforce simp: serves_def cache_held_def)
  qed
  then have "\<exists>t it. Open sn no_cache options (read f) (of_nat (length (rcontents f))) () = Ret (Status_OK, Some t, ()) \<and>
      ta_NewIterator t () = Ret it \<and>
      (\<forall>mvs obs. list_all (valid_move valid) mvs \<and> cursor_script compare kvs mvs (length kvs) = Some obs \<longrightarrow>
         iter_script (table_iter_ops (length kvs + 2) sn no_cache t roptions) mvs it = Ret obs)"
    if "status_ok s" "readable f \<and> rcontents f = contents (tb_file r)" for f
    using B(2) that by meson
  then show ?thesis using B(1) by blast
qed

text \<open>A table of two entries, with the Bloom filter, is written without an error.\<close>

definition example_kvs :: "pair list" where
  "example_kvs = [([1], [2]), ([1, 3], [4])]"

definition example_options :: options where
  "example_options = Options\<lparr>op_filter_policy := Some (bloom_funs \<lparr>bits_per_key = 1, bloom_k = 1\<rparr>)\<rparr>"

definition example_file :: posix_wfile where
  "example_file = \<lparr>pw_filename = [], pw_file = \<lparr>wf_disk = [], wf_buf = [], wf_room = 1000, wf_flushes = True, wf_strerror = []\<rparr>\<rparr>"

abbreviation posix_ops :: "posix_wfile file_ops" where
  "posix_ops \<equiv> \<lparr>fo_append = posix_Append, fo_flush = posix_Flush\<rparr>"

abbreviation reopened :: "posix_wfile table_builder \<Rightarrow> posix_ra_file" where
  "reopened r \<equiv> \<lparr>pa_filename = [], pa_data = posix_contents (tb_file r), pa_readable = True, pa_strerror = []\<rparr>"

lemma example_written:
  "case build_table port_snappy posix_ops example_options example_kvs example_file of
     Ret (s, r) \<Rightarrow> status_ok s \<and> length (posix_contents (tb_file r)) \<le> 1000 | _ \<Rightarrow> False"
  by code_simp

lemma example_facts:
  "options_suit slice_compare bytewise_separator bytewise_successor (CreateFilter \<lparr>bits_per_key = 1, bloom_k = 1\<rparr>) KeyMayMatch example_options"
  "posix_contents example_file = []" "posix_room example_file < 2 ^ 32" "sorted_pairs (\<lambda>_. True) slice_compare example_kvs"
  "bloom_good \<lparr>bits_per_key = 1, bloom_k = 1\<rparr> (map fst example_kvs)"
  by (simp_all add: Options_suit example_options_def example_file_def posix_contents_def posix_room_def sorted_pairs_def example_kvs_def
    slice_compare_def bloom_good_def bloom_ok_def word_le_nat_alt word_less_nat_alt)

lemma table_roundtrip_witness:
  "\<exists>s r t it. build_table port_snappy posix_ops example_options example_kvs example_file = Ret (s, r) \<and> status_ok s \<and>
     Open port_snappy no_cache example_options (posix_ra_Read (reopened r)) (of_nat (length (posix_contents (tb_file r)))) () = Ret (Status_OK, Some t, ()) \<and>
     ta_NewIterator t () = Ret it \<and>
     iter_script (table_iter_ops 4 port_snappy no_cache t ReadOptions) [To_First, To_Next, To_Key [1, 2], To_Prev] it =
       Ret [Some ([1], [2]), Some ([1, 3], [4]), Some ([1, 3], [4]), Some ([1], [2])]"
proof -
  have "length example_kvs + 2 = 4" by (simp add: example_kvs_def)
  from table_roundtrip [OF bytewise_table.table_building_axioms example_facts posix_ra.random_file_axioms, of ReadOptions, unfolded this]
    example_written obtain s r where sr: "build_table port_snappy posix_ops example_options example_kvs example_file = Ret (s, r)" "status_ok s"
      "length (posix_contents (tb_file r)) \<le> 1000" and all: "\<forall>f. (pa_readable f \<and> length (pa_data f) < 2 ^ 63) \<and> pa_data f = posix_contents (tb_file r) \<longrightarrow>
      (\<exists>t it. Open port_snappy no_cache example_options (posix_ra_Read f) (of_nat (length (pa_data f))) () = Ret (Status_OK, Some t, ()) \<and>
      ta_NewIterator t () = Ret it \<and>
      (\<forall>mvs obs. list_all (valid_move (\<lambda>_. True)) mvs \<and> cursor_script slice_compare example_kvs mvs (length example_kvs) = Some obs \<longrightarrow>
         iter_script (table_iter_ops 4 port_snappy no_cache t ReadOptions) mvs it = Ret obs))" by auto
  have "cursor_script slice_compare example_kvs [To_First, To_Next, To_Key [1, 2], To_Prev] (length example_kvs) =
       Some [Some ([1], [2]), Some ([1, 3], [4]), Some ([1, 3], [4]), Some ([1], [2])]" by code_simp
  moreover have "list_all (valid_move (\<lambda>_. True)) [To_First, To_Next, To_Key [1, 2], To_Prev]" by simp
  moreover have "(pa_readable (reopened r) \<and> length (pa_data (reopened r)) < 2 ^ 63) \<and> pa_data (reopened r) = posix_contents (tb_file r)"
    using sr(3) by simp
  ultimately show ?thesis using sr(1,2) spec [OF all, of "reopened r"] by fastforce
qed

end
