(* ===== verification/Ldb_Table_Cached.thy ===== *)
theory Ldb_Table_Cached
  imports Ldb_Cache_Spec Ldb_Table_Spec
begin

text \<open>
  A table read through leveldb's own LRU cache. \<open>holds hs\<close> is what the cache keeps between the calls of the reader: the
  handles \<open>hs\<close> are held, each as often as it is in the list, and the values in the cache are right. It follows from the
  specification of the cache that it serves the blocks of a table, so the contract that the reader of tables needs of a
  cache holds for the one of \<open>util/cache.cc\<close>. A handle stays with the iterator over its block until that is destroyed.
\<close>

section \<open>What the cache holds\<close>

text \<open>The operations that the reader of tables calls, on the LRU cache.\<close>

definition lru_block_cache :: "(block sharded_cache, sc_handle) block_cache" where
  "lru_block_cache = \<lparr>bca_NewId = sc_NewId, bca_Lookup = sc_Lookup, bca_Value = sc_Value, bca_Insert = sc_Insert, bca_Release = sc_Release\<rparr>"

text \<open>The keys are among \<open>K\<close>, and the value of a key is one that is \<open>good\<close> for it.\<close>

definition shard_good :: "slice set \<Rightarrow> (slice \<Rightarrow> 'v \<Rightarrow> bool) \<Rightarrow> 'v lru_spec \<Rightarrow> bool" where
  "shard_good K good s \<longleftrightarrow>
     (\<forall>h \<in> set (sp_lru s). \<exists>key \<in> K. se_key (sp_entries s ! h) = (key, HashSlice key) \<and> good key (se_value (sp_entries s ! h)))"

definition handles_at :: "nat \<Rightarrow> sc_handle list \<Rightarrow> nat list" where
  "handles_at i hs = map fst (filter (\<lambda>h. Shard (snd h) = i) hs)"

definition holding :: "slice set \<Rightarrow> (slice \<Rightarrow> 'v \<Rightarrow> bool) \<Rightarrow> sc_handle list \<Rightarrow> 'v lru_spec list \<Rightarrow> bool" where
  "holding K good hs S \<longleftrightarrow> list_all (shard_good K good) S \<and> length hs \<le> most_held \<and>
     (\<forall>i < kNumShards. mset (sp_held (S ! i)) = mset (handles_at i hs))"

definition holds :: "slice set \<Rightarrow> (slice \<Rightarrow> 'v \<Rightarrow> bool) \<Rightarrow> sc_handle list \<Rightarrow> 'v sharded_cache \<Rightarrow> bool" where
  "holds K good hs c \<longleftrightarrow> (\<exists>S. cache_rep (card K + length hs) c S \<and> list_all accounted S \<and> holding K good hs S)"

text \<open>So many keys that no count of references wraps.\<close>

definition few_keys :: "slice set \<Rightarrow> bool" where
  "few_keys K \<longleftrightarrow> finite K \<and> card K + most_held + 3 < 2 ^ 31"

lemma shard_rep_bound:
  assumes c: "shard_rep n c s" and k: "shard_good K good s" "finite K" and h: "length (sp_held s) \<le> m"
  shows "shard_rep (card K + m) c s"
proof -
  from c obtain T where s: "sp_ok n s" and T: "c = shard_of s T" "table_ok (heap_of s) T (set (sp_lru s))" by (auto simp: shard_rep_def)
  let ?key = "\<lambda>h. fst (se_key (sp_entries s ! h))"
  have "inj_on ?key (set (sp_lru s))"
  proof (rule inj_onI)
    fix x y assume x: "x \<in> set (sp_lru s)" and y: "y \<in> set (sp_lru s)" and e: "?key x = ?key y"
    have "se_key (sp_entries s ! h) = (?key h, HashSlice (?key h))" if "h \<in> set (sp_lru s)" for h
    proof -
      from k(1) that obtain key where "se_key (sp_entries s ! h) = (key, HashSlice key)" by (auto simp: shard_good_def)
      then show ?thesis by simp
    qed
    from this [OF x] this [OF y] e have "se_key (sp_entries s ! x) = se_key (sp_entries s ! y)" by simp
    then show "x = y" by (rule table_inj [OF T(2) lru_live x y])
  qed
  moreover have "?key ` set (sp_lru s) \<subseteq> K" using k(1) by (force simp: shard_good_def)
  ultimately have "card (set (sp_lru s)) \<le> card K" using k(2) by (intro card_inj_on_le)
  then have "length (sp_lru s) \<le> card K" using s by (simp add: sp_ok_def distinct_card)
  then have "sp_ok (card K + m) s" using s h by (simp add: sp_ok_def)
  then show ?thesis using T by (auto intro: shard_repI)
qed

lemma holding_length:
  assumes "holding K good hs S" "i < kNumShards" shows "length (sp_held (S ! i)) \<le> length hs"
proof -
  have "length (sp_held (S ! i)) = length (handles_at i hs)" using assms by (metis holding_def size_mset)
  then show ?thesis by (simp add: handles_at_def)
qed

lemma holdsI:
  assumes "cache_rep n c S" "list_all accounted S" "holding K good hs S" "finite K"
  shows "holds K good hs c"
proof -
  have l: "length S = kNumShards" and r: "list_all2 (shard_rep n) (sc_shards c) S" using assms(1) by (simp_all add: cache_rep_def)
  have "shard_rep (card K + length hs) (sc_shards c ! i) (S ! i)" if "i < kNumShards" for i
  proof (rule shard_rep_bound [OF _ _ assms(4)])
    show "shard_rep n (sc_shards c ! i) (S ! i)" using r that l by (simp add: list_all2_conv_all_nth)
    show "shard_good K good (S ! i)" using assms(3) that l by (simp add: holding_def list_all_length)
    show "length (sp_held (S ! i)) \<le> length hs" by (rule holding_length [OF assms(3) that])
  qed
  then have "cache_rep (card K + length hs) c S" using l list_all2_lengthD [OF r] by (simp add: cache_rep_def list_all2_conv_all_nth)
  then show ?thesis using assms(2,3) by (auto simp: holds_def)
qed

lemma holds_ShardedLRUCache:
  assumes "finite K" shows "\<exists>c :: 'v sharded_cache. ShardedLRUCache capacity = Ret c \<and> holds K good [] c"
proof -
  from ShardedLRUCache_rep [of capacity] obtain c :: "'v sharded_cache" where c: "ShardedLRUCache capacity = Ret c" "cache_rep 0 c (spec_shards capacity)"
    by auto
  have "holding K good [] (spec_shards capacity :: 'v lru_spec list)"
    by (simp add: holding_def spec_shards_def LRU_Spec_def shard_good_def list_all_iff handles_at_def)
  from holdsI [OF c(2) made_spec_shards(2) this assms] c(1) show ?thesis by blast
qed

lemma holds_NewId: "holds K good hs c \<Longrightarrow> holds K good hs (snd (sc_NewId c))"
  by (simp add: holds_def sc_NewId_def Let_def cache_rep_def)

text \<open>When no handle is held, the cache can be deleted, and nothing is left of it.\<close>

lemma holds_destroy:
  assumes "holds K good [] c" "few_keys K"
  shows "\<exists>L. sc_destroy c = Ret L \<and> list_all (\<lambda>s. lc_heap s = Map.empty) L"
proof -
  from assms(1) obtain S where S: "cache_rep (card K) c S" "list_all accounted S" "holding K good [] S" by (auto simp: holds_def)
  have "list_all (\<lambda>s. sp_held s = []) S" using S(1,3) by (simp add: list_all_length cache_rep_def holding_def handles_at_def)
  from destroy_shards_rep [OF _ _ this S(2), of "card K" "sc_shards c"] S(1) assms(2) show ?thesis
    by (auto simp: cache_rep_def few_keys_def sc_destroy_def)
qed

section \<open>The calls\<close>

lemma holds_call:
  assumes c: "cache_rep (card K + length hs) c S" "list_all accounted S" "length hs \<le> most_held" and K: "few_keys K"
    and call: "spec_call call S = Some (r, S')" and hs: "holding K good hs' S'"
  shows "\<exists>c'. sc_call call c = Ret (r, c') \<and> holds K good hs' c'"
proof -
  have "Suc (card K + length hs) < 2 ^ 31" using c(3) K by (simp add: few_keys_def)
  from cache_call_rep [OF c(1) this call] obtain c' where c': "sc_call call c = Ret (r, c')" "cache_rep (Suc (card K + length hs)) c' S'" by blast
  have "list_all accounted S'" using spec_call_made [OF _ c(2) call] c(1) by (simp add: cache_rep_def)
  from holdsI [OF c'(2) this hs] c'(1) K show ?thesis by (auto simp: few_keys_def)
qed

lemma holding_update:
  assumes "holding K good hs S" "shard_good K good s" "length hs' \<le> most_held"
    and "length S = kNumShards" "mset (sp_held s) = mset (handles_at j hs')" "\<And>i. i \<noteq> j \<Longrightarrow> mset (handles_at i hs') = mset (handles_at i hs)"
  shows "holding K good hs' (S[j := s])"
proof -
  have "mset (sp_held (S[j := s] ! i)) = mset (handles_at i hs')" if "i < kNumShards" for i
    using assms(1,4-6) that by (cases "i = j") (simp_all add: holding_def)
  then show ?thesis using assms(1-3) set_update_subset_insert [of S j s] by (auto simp: holding_def list_all_iff)
qed

lemma handles_remove:
  assumes "x \<in> set hs"
  shows "mset (handles_at i hs) = (if Shard (snd x) = i then add_mset (fst x) (mset (handles_at i (remove1 x hs))) else mset (handles_at i (remove1 x hs)))"
  using assms by (induction hs) (auto simp: handles_at_def)

text \<open>The goodness of the entries does not depend on who holds them, and only an insertion adds one.\<close>

lemma good_bury [simp]: "shard_good K good (sp_bury h s) = shard_good K good s"
  by (simp add: shard_good_def)

lemma good_mono:
  "shard_good K good s \<Longrightarrow> set (sp_lru t) \<subseteq> set (sp_lru s) \<Longrightarrow> sp_entries t = sp_entries s \<Longrightarrow> shard_good K good t"
  by (auto simp: shard_good_def)

lemma good_uncache: "shard_good K good s \<Longrightarrow> shard_good K good (sp_uncache h s)"
  by (erule good_mono) (simp_all add: sp_uncache_def set_remove1_subset)

lemma good_evict: "shard_good K good s \<Longrightarrow> shard_good K good (sp_evict hs s)"
  by (induction hs arbitrary: s) (auto simp: good_uncache)

lemma good_release: "shard_good K good (sp_release h s) = shard_good K good s"
  by (simp add: sp_release_def) (simp add: shard_good_def)

lemma good_lookup: "shard_good K good s \<Longrightarrow> shard_good K good (snd (sp_lookup k s))"
  by (erule good_mono) (auto simp: sp_lookup_def sp_findD dest: subsetD [OF set_remove1_subset] split: option.splits)

lemma good_add:
  assumes "shard_good K good s" "key \<in> K" "good key v" "sp_ok n s"
  shows "shard_good K good (sp_add (key, HashSlice key) v charge s)"
proof -
  have "h < length (sp_entries s)" if "h \<in> set (sp_lru s)" for h using assms(4) that by (simp add: sp_ok_def sp_live_def)
  then show ?thesis using assms(1-3) by (auto simp: shard_good_def sp_add_def nth_append)
qed

lemma good_insert:
  assumes "shard_good K good s" "key \<in> K" "good key v" "sp_ok n s"
  shows "shard_good K good (snd (sp_insert (key, HashSlice key) v charge s))"
  using good_add [OF assms, of charge] by (auto simp: sp_insert_def Let_def good_evict good_uncache split: option.splits)

text \<open>The specification of the shards, for the handles that are held.\<close>

lemma holds_shard:
  assumes "holds K good hs c"
  obtains S where "cache_rep (card K + length hs) c S" "list_all accounted S" "holding K good hs S" "length S = kNumShards"
    "length hs \<le> most_held" "\<And>hash. shard_good K good (S ! Shard hash) \<and> mset (sp_held (S ! Shard hash)) = mset (handles_at (Shard hash) hs)"
proof -
  from assms obtain S where S: "cache_rep (card K + length hs) c S" "list_all accounted S" "holding K good hs S" by (auto simp: holds_def)
  then have "length S = kNumShards" by (simp add: cache_rep_def)
  then show thesis using S that Shard_less by (simp add: holding_def list_all_length)
qed

lemma held_mem: "mset (sp_held s) = mset (handles_at (Shard hash) hs) \<Longrightarrow> (h, hash) \<in> set hs \<Longrightarrow> h \<in> set (sp_held s)"
  by (drule mset_eq_setD) (force simp: handles_at_def)

lemma holds_Value:
  assumes c: "holds K good hs c" and K: "few_keys K" and h: "handle \<in> set hs"
  shows "\<exists>v. sc_Value handle c = Ret v"
proof -
  obtain h hash where hd: "handle = (h, hash)" by force
  from c obtain S where S: "cache_rep (card K + length hs) c S" "list_all accounted S" "holding K good hs S" "length hs \<le> most_held"
    "mset (sp_held (S ! Shard hash)) = mset (handles_at (Shard hash) hs)" by (rule holds_shard) blast
  have "h \<in> set (sp_held (S ! Shard hash))" using held_mem [OF S(5)] h hd by simp
  then have "spec_call (Call_Value handle) S = Some (Reply_Value (se_value (sp_entries (S ! Shard hash) ! h)), S)" by (simp add: hd Let_def)
  from holds_call [OF S(1,2,4) K this S(3)] show ?thesis by (auto simp: rbind_Ret_iff)
qed

lemma holds_Release:
  assumes c: "holds K good hs c" and K: "few_keys K" and h: "handle \<in> set hs"
  shows "\<exists>c'. sc_Release handle c = Ret c' \<and> holds K good (remove1 handle hs) c'"
proof -
  obtain h hash where hd: "handle = (h, hash)" by force
  let ?i = "Shard hash"
  from c obtain S where S: "cache_rep (card K + length hs) c S" "list_all accounted S" "holding K good hs S" "length S = kNumShards"
    "length hs \<le> most_held" "shard_good K good (S ! ?i)" "mset (sp_held (S ! ?i)) = mset (handles_at ?i hs)" by (rule holds_shard) blast
  have "h \<in> set (sp_held (S ! ?i))" using held_mem [OF S(7)] h hd by simp
  then have call: "spec_call (Call_Release handle) S = Some (Reply_None, S[?i := sp_release h (S ! ?i)])" by (simp add: hd)
  have "mset (sp_held (sp_release h (S ! ?i))) = mset (handles_at ?i hs) - {#h#}" using S(7) by (simp add: sp_release_def)
  then have "holding K good (remove1 handle hs) (S[?i := sp_release h (S ! ?i)])"
    using S(5,6) handles_remove [OF h] h hd by (intro holding_update [OF S(3) _ _ S(4)]) (auto simp: good_release length_remove1)
  from holds_call [OF S(1,2,5) K call this] show ?thesis by (auto simp: rbind_Ret_iff)
qed

lemma holds_Lookup:
  assumes c: "holds K good hs c" and K: "few_keys K" and few: "length hs < most_held"
  shows "\<exists>r c'. sc_Lookup key c = Ret (r, c') \<and>
    (case r of None \<Rightarrow> holds K good hs c' | Some h \<Rightarrow> holds K good (h # hs) c' \<and> (\<exists>v. sc_Value h c' = Ret v \<and> good key v))"
proof -
  let ?hash = "HashSlice key" let ?i = "Shard ?hash" let ?k = "(key, ?hash)"
  from c obtain S where S: "cache_rep (card K + length hs) c S" "list_all accounted S" "holding K good hs S" "length S = kNumShards"
    "length hs \<le> most_held" "shard_good K good (S ! ?i)" "mset (sp_held (S ! ?i)) = mset (handles_at ?i hs)" by (rule holds_shard) blast
  let ?s = "S ! ?i"
  have call: "spec_call (Call_Lookup key) S =
      Some (Reply_Found (map_option (\<lambda>h. (h, ?hash)) (fst (sp_lookup ?k ?s))), S[?i := snd (sp_lookup ?k ?s)])" by (simp add: Let_def split_def)
  show ?thesis
  proof (cases "sp_find ?k ?s")
    case None
    then have "snd (sp_lookup ?k ?s) = ?s" "fst (sp_lookup ?k ?s) = None" by (simp_all add: sp_lookup_def)
    with call have "spec_call (Call_Lookup key) S = Some (Reply_Found None, S)" by simp
    from holds_call [OF S(1,2,5) K this S(3)] show ?thesis by (auto simp: rbind_Ret_iff)
  next
    case (Some h)
    let ?t = "snd (sp_lookup ?k ?s)"
    have t: "fst (sp_lookup ?k ?s) = Some h" "sp_held ?t = h # sp_held ?s" "sp_entries ?t = sp_entries ?s" using Some by (simp_all add: sp_lookup_def)
    have S': "holding K good ((h, ?hash) # hs) (S[?i := ?t])"
      using few t(2) S(7) good_lookup [OF S(6)] by (intro holding_update [OF S(3) _ _ S(4)]) (auto simp: handles_at_def)
    from holds_call [OF S(1,2,5) K call S'] t(1) obtain c' where
      c': "sc_Lookup key c = Ret (Some (h, ?hash), c')" "holds K good ((h, ?hash) # hs) c'" by (auto simp: rbind_Ret_iff)
    from cache_call_rep [OF S(1) _ call] S(5) K t(1) c'(1) have
      r: "cache_rep (Suc (card K + length hs)) c' (S[?i := ?t])" by (auto simp: few_keys_def)
    have "spec_call (Call_Value (h, ?hash)) (S[?i := ?t]) = Some (Reply_Value (se_value (sp_entries ?s ! h)), S[?i := ?t])"
      using t S(4) Shard_less by (simp add: Let_def)
    from cache_call_rep [OF r _ this] few K have "sc_Value (h, ?hash) c' = Ret (se_value (sp_entries ?s ! h))"
      by (auto simp: rbind_Ret_iff few_keys_def)
    moreover have "good key (se_value (sp_entries ?s ! h))" using S(6) sp_findD [OF Some] by (force simp: shard_good_def)
    ultimately show ?thesis using c' by simp
  qed
qed

lemma holds_Insert:
  assumes c: "holds K good hs c" and K: "few_keys K" and few: "length hs < most_held" and key: "key \<in> K" "good key v"
  shows "\<exists>h c'. sc_Insert key v charge c = Ret (h, c') \<and> holds K good (h # hs) c'"
proof -
  let ?hash = "HashSlice key" let ?i = "Shard ?hash" let ?k = "(key, ?hash)"
  from c obtain S where S: "cache_rep (card K + length hs) c S" "list_all accounted S" "holding K good hs S" "length S = kNumShards"
    "length hs \<le> most_held" "shard_good K good (S ! ?i)" "mset (sp_held (S ! ?i)) = mset (handles_at ?i hs)" by (rule holds_shard) blast
  let ?s = "S ! ?i" let ?r = "sp_insert ?k v charge ?s" let ?h = "length (sp_entries ?s)"
  have "shard_rep (card K + length hs) (sc_shards c ! ?i) ?s" using S(1) Shard_less by (simp add: cache_rep_def list_all2_conv_all_nth)
  then have ok: "sp_ok (card K + length hs) ?s" by (simp add: shard_rep_def)
  have t: "fst ?r = ?h" "sp_held (snd ?r) = ?h # sp_held ?s"
    by (auto simp: sp_insert_def Let_def sp_add_def sp_uncache_def split: option.splits)
  have call: "spec_call (Call_Insert key v charge) S = Some (Reply_Handle (?h, ?hash), S[?i := snd ?r])"
    using t(1) by (simp add: Let_def split_def)
  have "holding K good ((?h, ?hash) # hs) (S[?i := snd ?r])"
    using few t(2) S(7) good_insert [where good = good, OF S(6) key ok] by (intro holding_update [OF S(3) _ _ S(4)]) (auto simp: handles_at_def)
  from holds_call [OF S(1,2,5) K call this] show ?thesis by (auto simp: rbind_Ret_iff)
qed

section \<open>The blocks of a table\<close>

text \<open>The keys of a table's blocks, and the block that belongs to each.\<close>

definition block_keys :: "table \<Rightarrow> data_block list \<Rightarrow> slice set" where
  "block_keys t Ws = (\<lambda>j. cache_key (ta_cache_id t) (handle_of Ws j)) ` {..<length Ws}"

definition block_good :: "snappy \<Rightarrow> table \<Rightarrow> data_block list \<Rightarrow> slice \<Rightarrow> block \<Rightarrow> bool" where
  "block_good sn t Ws key b \<longleftrightarrow>
     (\<forall>j < length Ws. \<forall>raw. key = cache_key (ta_cache_id t) (handle_of Ws j) \<and> readable_at sn (ta_file t) (handle_of Ws j) raw \<longrightarrow> b = Block raw)"

lemma layout_blocks: "5 * length Ws \<le> length (layout Ws)"
  by (induction Ws) (auto simp: layout_def)

lemma block_keys_few: "length (layout Ws) < 2 ^ 32 \<Longrightarrow> few_keys (block_keys t Ws)"
proof -
  assume l: "length (layout Ws) < 2 ^ 32"
  have "card (block_keys t Ws) \<le> length Ws" unfolding block_keys_def using card_image_le [of "{..<length Ws}"] by simp
  then have "card (block_keys t Ws) + most_held + 3 < 2 ^ 31" using l layout_blocks [of Ws] by simp
  then show ?thesis by (simp add: few_keys_def block_keys_def)
qed

lemma readable_unique: "readable_at sn file h a \<Longrightarrow> readable_at sn file h b \<Longrightarrow> a = b"
proof -
  assume a: "readable_at sn file h a" and b: "readable_at sn file h b"
  from a obtain x where "ReadBlock sn file ReadOptions h = Ret (Status_OK, x)" "bc_data x = a" by (auto simp: readable_at_def)
  moreover from b obtain y where "ReadBlock sn file ReadOptions h = Ret (Status_OK, y)" "bc_data y = b" by (auto simp: readable_at_def)
  ultimately show "a = b" by simp
qed

lemma cache_key_inject:
  assumes "length (layout Ws) < 2 ^ 32" "i < length Ws" "j < length Ws" "cache_key n (handle_of Ws i) = cache_key n (handle_of Ws j)"
  shows "i = j"
proof -
  have "EncodeFixed64 (bh_offset (handle_of Ws i)) = EncodeFixed64 (bh_offset (handle_of Ws j))" using assms(4) by (simp add: cache_key_def)
  then have "bh_offset (handle_of Ws i) = bh_offset (handle_of Ws j)" using DecodeFixed64_bytes [of _ "[]"] by (metis append_Nil2)
  then have "block_offset Ws i = block_offset Ws j"
    using assms(2,3) offset_small [OF assms(1)] by (metis handle_of_def block_handle.simps(1) less_imp_le)
  then show ?thesis using block_offset_less [of i j Ws] block_offset_less [of j i Ws] assms(2,3) by (metis less_irrefl linorder_neqE_nat less_imp_le)
qed

lemma lru_serves:
  assumes l: "length (layout Ws) < 2 ^ 32"
  shows "serves (Some lru_block_cache) (holds (block_keys t Ws) (block_good sn t Ws)) sn t Ws"
  unfolding serves_def option.case
proof (intro allI impI conjI ballI)
  let ?K = "block_keys t Ws" and ?good = "block_good sn t Ws"
  note K = block_keys_few [OF l, of t]
  fix hs c
  assume c: "holds ?K ?good hs c"
  show "\<exists>b. bca_Value lru_block_cache h c = Ret b" if "h \<in> set hs" for h
    using holds_Value [OF c K that] by (simp add: lru_block_cache_def)
  show "\<exists>c'. bca_Release lru_block_cache h c = Ret c' \<and> holds ?K ?good (remove1 h hs) c'" if "h \<in> set hs" for h
    using holds_Release [OF c K that] by (simp add: lru_block_cache_def)
  fix j raw
  assume a: "length hs < most_held \<and> j < length Ws \<and> readable_at sn (ta_file t) (handle_of Ws j) raw"
  let ?key = "cache_key (ta_cache_id t) (handle_of Ws j)"
  have key: "?key \<in> ?K" using a by (simp add: block_keys_def)
  have good: "?good ?key (Block raw)"
    unfolding block_good_def using cache_key_inject [OF l] a readable_unique by blast
  have unique: "v = Block raw" if "?good ?key v" for v using that a by (auto simp: block_good_def)
  from holds_Lookup [OF c K, of ?key] a obtain r c' where "sc_Lookup ?key c = Ret (r, c')"
    "case r of None \<Rightarrow> holds ?K ?good hs c' | Some h \<Rightarrow> holds ?K ?good (h # hs) c' \<and> (\<exists>v. sc_Value h c' = Ret v \<and> ?good ?key v)" by blast
  then show "\<exists>r c'. bca_Lookup lru_block_cache ?key c = Ret (r, c') \<and>
      (case r of None \<Rightarrow> holds ?K ?good hs c' | Some h \<Rightarrow> holds ?K ?good (h # hs) c' \<and> bca_Value lru_block_cache h c' = Ret (Block raw))"
    using unique by (cases r) (auto simp: lru_block_cache_def)
  show "\<exists>h c'. bca_Insert lru_block_cache ?key (Block raw) (of_nat (bl_size (Block raw))) c = Ret (h, c') \<and> holds ?K ?good (h # hs) c'"
    using holds_Insert [OF c K _ key good] a by (simp add: lru_block_cache_def)
qed

text \<open>Without a cache, or with this one.\<close>

abbreviation lru_caches :: "(block sharded_cache, sc_handle) block_cache option set" where
  "lru_caches \<equiv> {None, Some lru_block_cache}"

lemma lru_cache_held:
  assumes "length (layout Ws) < 2 ^ 32" "cache \<in> lru_caches" "holds (block_keys t Ws) (block_good sn t Ws) [] c"
  shows "cache_held cache (holds (block_keys t Ws) (block_good sn t Ws)) sn t Ws [] c"
proof -
  have "serves cache (holds (block_keys t Ws) (block_good sn t Ws)) sn t Ws"
    using assms(2) lru_serves [OF assms(1)] by (auto simp: serves_def [of None])
  then show ?thesis using assms(3) by (simp add: cache_held_def)
qed

lemma lru_opened:
  assumes "length (layout Ws) < 2 ^ 32" "cache \<in> lru_caches" "ShardedLRUCache capacity = Ret c"
  shows "cache_held cache (holds (block_keys t Ws) (block_good sn t Ws)) sn t Ws [] (case cache of Some ops \<Rightarrow> snd (bca_NewId ops c) | None \<Rightarrow> c)"
proof (rule lru_cache_held [OF assms(1,2)])
  have "holds (block_keys t Ws) (block_good sn t Ws) [] c"
    using holds_ShardedLRUCache [of "block_keys t Ws" capacity "block_good sn t Ws"] block_keys_few [OF assms(1), of t] assms(3)
    by (simp add: few_keys_def)
  then show "holds (block_keys t Ws) (block_good sn t Ws) [] (case cache of Some ops \<Rightarrow> snd (bca_NewId ops c) | None \<Rightarrow> c)"
    using assms(2) by (auto simp: lru_block_cache_def holds_NewId)
qed

text \<open>The cache can be deleted: no handle of it is held.\<close>

definition all_released :: "'v sharded_cache \<Rightarrow> bool" where
  "all_released c \<longleftrightarrow> (case sc_destroy c of Ret L \<Rightarrow> list_all (\<lambda>s. lc_heap s = Map.empty) L | _ \<Rightarrow> False)"

lemma held_released:
  assumes "length (layout Ws) < 2 ^ 32" "cache_held cache (holds (block_keys t Ws) (block_good sn t Ws)) sn t Ws [] c"
  shows "all_released c"
  using holds_destroy [OF _ block_keys_few [OF assms(1), of t], of "block_good sn t Ws" c] assms(2)
  by (auto simp: cache_held_def all_released_def)

section \<open>Properties\<close>

text \<open>The lookups of a client, one after the other, and what each of them must give: a key of the table goes to the callback with its value;
  for another key the callback is not called, or called with the first entry after it.\<close>

fun InternalGets ::
  "snappy \<Rightarrow> ('c, 'h) block_cache option \<Rightarrow> read_options \<Rightarrow> (slice \<Rightarrow> slice \<Rightarrow> 'a \<Rightarrow> 'a) \<Rightarrow> table \<Rightarrow> 'a \<Rightarrow> slice list \<Rightarrow> 'c \<Rightarrow>
     ((status \<times> 'a) list \<times> 'c) run" where
  "InternalGets sn cache options saver t arg [] c = Ret ([], c)"
| "InternalGets sn cache options saver t arg (k # ks) c =
     rbind (InternalGet sn cache options k saver t arg c) (\<lambda>(s, r, c).
       rbind (InternalGets sn cache options saver t arg ks c) (\<lambda>(rs, c). Ret ((s, r) # rs, c)))"

definition right_answer ::
  "(slice \<Rightarrow> slice \<Rightarrow> int) \<Rightarrow> pair list \<Rightarrow> (slice \<Rightarrow> slice \<Rightarrow> 'a \<Rightarrow> 'a) \<Rightarrow> 'a \<Rightarrow> slice \<Rightarrow> status \<times> 'a \<Rightarrow> bool" where
  "right_answer compare kvs saver arg k = (\<lambda>(s, r). s = Status_OK \<and> (\<forall>v. (k, v) \<in> set kvs \<longrightarrow> r = saver k v arg) \<and>
     (r = arg \<or> (let p = first_at compare k kvs in p < length kvs \<and> r = saver (fst (kvs ! p)) (snd (kvs ! p)) arg)))"

lemma InternalGets_at:
  assumes K: "key_order valid compare" and o: "opened valid compare sn t Ws idx" and t: "table_compare t = compare"
  shows "cache_held cache held sn t Ws [] c \<Longrightarrow> list_all valid ks \<Longrightarrow>
    \<exists>rs c'. InternalGets sn cache options saver t arg ks c = Ret (rs, c') \<and> cache_held cache held sn t Ws [] c' \<and>
      list_all2 (right_answer compare (entries_of Ws) saver arg) ks rs"
proof (induction ks arbitrary: c)
  case (Cons k ks)
  from InternalGet_at [OF K o Cons.prems(1) t, of k options saver arg] Cons.prems(2) obtain r c1 where
    r: "InternalGet sn cache options k saver t arg c = Ret (Status_OK, r, c1)" "cache_held cache held sn t Ws [] c1"
      "right_answer compare (entries_of Ws) saver arg k (Status_OK, r)" by (auto simp: right_answer_def Let_def)
  from Cons.IH [OF r(2)] Cons.prems(2) obtain rs c' where "InternalGets sn cache options saver t arg ks c1 = Ret (rs, c')"
    "cache_held cache held sn t Ws [] c'" "list_all2 (right_answer compare (entries_of Ws) saver arg) ks rs" by auto
  then show ?case using r(1,3) by simp
qed auto

lemma opened_lookups:
  assumes K: "key_order valid compare" and o: "opened valid compare sn t Ws idx" and t: "table_compare t = compare"
    and cache: "cache \<in> lru_caches" and c: "ShardedLRUCache capacity = Ret c"
  defines "kvs \<equiv> entries_of Ws" and "c' \<equiv> case cache of Some ops \<Rightarrow> snd (bca_NewId ops c) | None \<Rightarrow> c"
  shows "(\<forall>ks (arg :: 'a). list_all valid ks \<longrightarrow> (\<exists>rs c''. InternalGets sn cache roptions saver t arg ks c' = Ret (rs, c'') \<and>
         list_all2 (right_answer compare kvs saver arg) ks rs \<and> all_released c''))" (is ?gets)
    and "(\<forall>a b. valid a \<and> valid b \<and> compare a b \<le> 0 \<longrightarrow>
         (\<exists>m n. ApproximateOffsetOf a t = Ret m \<and> ApproximateOffsetOf b t = Ret n \<and> m \<le> n))" (is ?offsets)
proof -
  have l: "length (layout Ws) < 2 ^ 32" using o by (simp add: opened_def)
  show ?gets unfolding kvs_def c'_def
  proof (intro allI impI)
    fix ks and arg :: 'a
    assume "list_all valid ks"
    from InternalGets_at [OF K o t lru_opened [OF l cache c] this, of roptions saver arg] held_released [OF l]
    show "\<exists>rs c''. InternalGets sn cache roptions saver t arg ks (case cache of Some ops \<Rightarrow> snd (bca_NewId ops c) | None \<Rightarrow> c) = Ret (rs, c'') \<and>
        list_all2 (right_answer compare (entries_of Ws) saver arg) ks rs \<and> all_released c''" by blast
  qed
  show ?offsets using ApproximateOffsetOf_mono [OF K o t] by blast
qed

text \<open>C17: The lookup in such a table is never wrong, with or without its filter, and with or without a new LRU cache of any
capacity for its blocks: of any sequence of lookups each one gives a key that was added to the callback with its value; for another key the
callback is not called, or called with the first entry after it. Every lookup gives the handle of its block back, so the
cache can be deleted afterwards and nothing is left of it. The approximate offsets follow the order of the keys.\<close>

theorem table_lookup:
  assumes "table_building valid compare separator successor wappend wflush contents room sn good create may_match"
    and "options_suit compare separator successor create may_match options"
    and "contents f0 = []" "room f0 < 2 ^ 32" "sorted_pairs valid compare kvs" "good (map fst kvs)"
    and "random_file read rcontents readable"
  shows "\<exists>s r. build_table sn \<lparr>fo_append = wappend, fo_flush = wflush\<rparr> options kvs f0 = Ret (s, r) \<and>
    (status_ok s \<longrightarrow> (\<forall>f cache. readable f \<and> rcontents f = contents (tb_file r) \<and> cache \<in> lru_caches \<longrightarrow> (\<exists>c t c'.
      ShardedLRUCache capacity = Ret c \<and>
      Open sn cache options (read f) (of_nat (length (rcontents f))) c = Ret (Status_OK, Some t, c') \<and>
      (\<forall>ks (arg :: 'a). list_all valid ks \<longrightarrow> (\<exists>rs c''. InternalGets sn cache roptions saver t arg ks c' = Ret (rs, c'') \<and>
         list_all2 (right_answer compare kvs saver arg) ks rs \<and> all_released c'')) \<and>
      (\<forall>a b. valid a \<and> valid b \<and> compare a b \<le> 0 \<longrightarrow>
         (\<exists>m n. ApproximateOffsetOf a t = Ret m \<and> ApproximateOffsetOf b t = Ret n \<and> m \<le> n)))))"
proof -
  have K: "key_order valid compare" using assms(1) by (simp add: table_building_def comparator_def slice_order_def)
  from ShardedLRUCache_rep [of capacity] obtain c :: "block sharded_cache" where c: "ShardedLRUCache capacity = Ret c" by auto
  let ?c = "\<lambda>cache. case cache of Some ops \<Rightarrow> snd (bca_NewId ops c) | None \<Rightarrow> c"
  have B: "\<exists>s r. build_table sn \<lparr>fo_append = wappend, fo_flush = wflush\<rparr> options kvs f0 = Ret (s, r) \<and>
    (status_ok s \<longrightarrow> (\<forall>f. readable f \<and> rcontents f = contents (tb_file r) \<longrightarrow> (\<exists>t Ws idx.
      Open sn cache options (read f) (of_nat (length (rcontents f))) c = Ret (Status_OK, Some t, ?c cache) \<and>
      table_compare t = compare \<and> opened valid compare sn t Ws idx \<and> entries_of Ws = kvs \<and> length Ws \<le> length kvs)))"
    for cache :: "(block sharded_cache, sc_handle) block_cache option" by (rule built_opened [OF assms])
  from B [of None] obtain s r where sr: "build_table sn \<lparr>fo_append = wappend, fo_flush = wflush\<rparr> options kvs f0 = Ret (s, r)" by blast
  have O: "\<exists>t Ws idx. Open sn cache options (read f) (of_nat (length (rcontents f))) c = Ret (Status_OK, Some t, ?c cache) \<and>
      table_compare t = compare \<and> opened valid compare sn t Ws idx \<and> entries_of Ws = kvs"
    if "status_ok s" "readable f \<and> rcontents f = contents (tb_file r)" for f and cache :: "(block sharded_cache, sc_handle) block_cache option"
    using B [of cache] that unfolding sr by clarsimp meson
  show ?thesis
  proof (rule exI [of _ s], rule exI [of _ r], intro conjI impI allI sr, elim conjE, rule exI [of _ c])
    fix f cache
    assume a: "status_ok s" "readable f" "rcontents f = contents (tb_file r)" and cache: "cache \<in> lru_caches"
    from O [OF a(1) conjI [OF a(2,3)]] obtain t Ws idx where
      t: "Open sn cache options (read f) (of_nat (length (rcontents f))) c = Ret (Status_OK, Some t, ?c cache)"
        "table_compare t = compare" "opened valid compare sn t Ws idx" "entries_of Ws = kvs" by blast
    show "\<exists>t c'. ShardedLRUCache capacity = Ret c \<and>
      Open sn cache options (read f) (of_nat (length (rcontents f))) c = Ret (Status_OK, Some t, c') \<and>
      (\<forall>ks (arg :: 'a). list_all valid ks \<longrightarrow> (\<exists>rs c''. InternalGets sn cache roptions saver t arg ks c' = Ret (rs, c'') \<and>
         list_all2 (right_answer compare kvs saver arg) ks rs \<and> all_released c'')) \<and>
      (\<forall>a b. valid a \<and> valid b \<and> compare a b \<le> 0 \<longrightarrow>
         (\<exists>m n. ApproximateOffsetOf a t = Ret m \<and> ApproximateOffsetOf b t = Ret n \<and> m \<le> n))"
      using opened_lookups [OF K t(3,2) cache c] unfolding t(4) by (rule_tac x = t in exI, rule_tac x = "?c cache" in exI) (intro conjI c t(1))
  qed
qed

lemma table_lookup_witness:
  "\<exists>s r c t c' c''. build_table port_snappy posix_ops example_options example_kvs example_file = Ret (s, r) \<and> status_ok s \<and>
     ShardedLRUCache 1000 = Ret c \<and>
     Open port_snappy (Some lru_block_cache) example_options (posix_ra_Read (reopened r)) (of_nat (length (posix_contents (tb_file r)))) c =
       Ret (Status_OK, Some t, c') \<and>
     InternalGets port_snappy (Some lru_block_cache) ReadOptions (\<lambda>k v saved. saved @ [(k, v)]) t [] [[1, 3], [1]] c' =
       Ret ([(Status_OK, [([1, 3], [4])]), (Status_OK, [([1], [2])])], c'') \<and> all_released c''"
proof -
  define saver where "saver = (\<lambda>k v (saved :: pair list). saved @ [(k, v)])"
  from table_lookup [OF bytewise_table.table_building_axioms example_facts posix_ra.random_file_axioms,
      where capacity = 1000 and roptions = ReadOptions and saver = saver]
  obtain s r where sr1: "build_table port_snappy posix_ops example_options example_kvs example_file = Ret (s, r)"
    and all: "status_ok s \<longrightarrow> (\<forall>f cache. (pa_readable f \<and> length (pa_data f) < 2 ^ 63) \<and> pa_data f = posix_contents (tb_file r) \<and> cache \<in> lru_caches \<longrightarrow>
      (\<exists>c t c'. ShardedLRUCache 1000 = Ret c \<and>
      Open port_snappy cache example_options (posix_ra_Read f) (of_nat (length (pa_data f))) c = Ret (Status_OK, Some t, c') \<and>
      (\<forall>ks arg. list_all (\<lambda>_. True) ks \<longrightarrow> (\<exists>rs c''. InternalGets port_snappy cache ReadOptions saver t arg ks c' = Ret (rs, c'') \<and>
         list_all2 (right_answer slice_compare example_kvs saver arg) ks rs \<and> all_released c'')) \<and>
      (\<forall>a b. True \<and> True \<and> slice_compare a b \<le> 0 \<longrightarrow>
         (\<exists>m n. ApproximateOffsetOf a t = Ret m \<and> ApproximateOffsetOf b t = Ret n \<and> m \<le> n))))" by (elim exE conjE)
  have sr: "status_ok s" "length (posix_contents (tb_file r)) \<le> 1000" using example_written by (simp_all add: sr1)
  have "(pa_readable (reopened r) \<and> length (pa_data (reopened r)) < 2 ^ 63) \<and> pa_data (reopened r) = posix_contents (tb_file r) \<and>
      Some lru_block_cache \<in> lru_caches" using sr(2) by simp
  from mp [OF spec [OF spec [OF mp [OF all sr(1)]]] this] obtain c t c' where
    t: "ShardedLRUCache 1000 = Ret c" "Open port_snappy (Some lru_block_cache) example_options (posix_ra_Read (reopened r))
        (of_nat (length (pa_data (reopened r)))) c = Ret (Status_OK, Some t, c')"
    and get: "\<forall>ks arg. list_all (\<lambda>_. True) ks \<longrightarrow> (\<exists>rs c''. InternalGets port_snappy (Some lru_block_cache) ReadOptions saver t arg ks c' = Ret (rs, c'') \<and>
         list_all2 (right_answer slice_compare example_kvs saver arg) ks rs \<and> all_released c'')" by (elim exE conjE)
  from spec [OF spec [OF get, of "[[1, 3], [1]]"], of "[]"] obtain rs c'' where
    rs: "InternalGets port_snappy (Some lru_block_cache) ReadOptions saver t [] [[1, 3], [1]] c' = Ret (rs, c'')"
      "list_all2 (right_answer slice_compare example_kvs saver []) [[1, 3], [1]] rs" "all_released c''" by auto
  from rs(2) have "rs = [(Status_OK, [([1, 3], [4])]), (Status_OK, [([1], [2])])]"
    by (auto simp: list_all2_Cons1 right_answer_def example_kvs_def saver_def)
  then show ?thesis using sr1 sr(1) t rs(1,3) unfolding saver_def by auto
qed

text \<open>C18: A table that was built without an error from sorted entries, opened with a new LRU cache of any capacity, gives
through the cache just these entries: whatever a client does with its iterator, blocks may be found in the cache, read again or
evicted meanwhile, every key and value it sees is the one a position in the list of entries gives. The block that the
iterator reads is held in the cache as long as it is read; when the iterator is destroyed, wherever it stands, no handle is left, and the cache can
be deleted with all it holds.\<close>

theorem cached_table_roundtrip:
  assumes "table_building valid compare separator successor wappend wflush contents room sn good create may_match"
    and "options_suit compare separator successor create may_match options"
    and "contents f0 = []" "room f0 < 2 ^ 32" "sorted_pairs valid compare kvs" "good (map fst kvs)"
    and "random_file read rcontents readable"
  shows "\<exists>s r. build_table sn \<lparr>fo_append = wappend, fo_flush = wflush\<rparr> options kvs f0 = Ret (s, r) \<and>
    (status_ok s \<longrightarrow> (\<forall>f. readable f \<and> rcontents f = contents (tb_file r) \<longrightarrow> (\<exists>c t c' it.
      ShardedLRUCache capacity = Ret c \<and>
      Open sn (Some lru_block_cache) options (read f) (of_nat (length (rcontents f))) c = Ret (Status_OK, Some t, c') \<and>
      ta_NewIterator t c' = Ret it \<and>
      (\<forall>mvs obs. list_all (valid_move valid) mvs \<and> cursor_script compare kvs mvs (length kvs) = Some obs \<longrightarrow>
         iter_script (table_iter_ops (length kvs + 2) sn (Some lru_block_cache) t roptions) mvs it = Ret obs \<and>
         (\<exists>it' c''. iter_after (table_iter_ops (length kvs + 2) sn (Some lru_block_cache) t roptions) mvs it = Ret it' \<and>
            table_iter_destroy (Some lru_block_cache) it' = Ret c'' \<and> all_released c'')))))"
proof -
  have K: "key_order valid compare" using assms(1) by (simp add: table_building_def comparator_def slice_order_def)
  from ShardedLRUCache_rep [of capacity] obtain c :: "block sharded_cache" where c: "ShardedLRUCache capacity = Ret c" by auto
  let ?cache = "Some lru_block_cache" let ?c = "snd (bca_NewId lru_block_cache c)"
  from built_opened [OF assms, of ?cache c] obtain s r where
    B: "build_table sn \<lparr>fo_append = wappend, fo_flush = wflush\<rparr> options kvs f0 = Ret (s, r)"
    "status_ok s \<longrightarrow> (\<forall>f. readable f \<and> rcontents f = contents (tb_file r) \<longrightarrow> (\<exists>t Ws idx.
      Open sn ?cache options (read f) (of_nat (length (rcontents f))) c = Ret (Status_OK, Some t, ?c) \<and>
      table_compare t = compare \<and> opened valid compare sn t Ws idx \<and> entries_of Ws = kvs \<and> length Ws \<le> length kvs))"
    by auto
  have G: "\<exists>it. ta_NewIterator t ?c = Ret it \<and> (\<forall>mvs obs. list_all (valid_move valid) mvs \<and> cursor_script compare kvs mvs (length kvs) = Some obs \<longrightarrow>
         iter_script (table_iter_ops (length kvs + 2) sn ?cache t roptions) mvs it = Ret obs \<and>
         (\<exists>it' c''. iter_after (table_iter_ops (length kvs + 2) sn ?cache t roptions) mvs it = Ret it' \<and>
            table_iter_destroy ?cache it' = Ret c'' \<and> all_released c''))"
    if "table_compare t = compare" "opened valid compare sn t Ws idx" "entries_of Ws = kvs" "length Ws \<le> length kvs" for t Ws idx
  proof -
    note T = that
    have l: "length (layout Ws) < 2 ^ 32" using that(2) by (simp add: opened_def)
    have "cache_held ?cache (holds (block_keys t Ws) (block_good sn t Ws)) sn t Ws [] ?c"
      using lru_opened [OF l _ c, of ?cache] by simp
    moreover have "length Ws + 2 \<le> length kvs + 2" using that(4) by simp
    ultimately obtain it where it: "ta_NewIterator t ?c = Ret it" "\<forall>mvs obs. list_all (valid_move valid) mvs \<longrightarrow>
      cursor_script compare kvs mvs (length kvs) = Some obs \<longrightarrow>
      iter_script (table_iter_ops (length kvs + 2) sn ?cache t roptions) mvs it = Ret obs \<and>
      (\<exists>it' c'. iter_after (table_iter_ops (length kvs + 2) sn ?cache t roptions) mvs it = Ret it' \<and> table_iter_destroy ?cache it' = Ret c' \<and>
         cache_held ?cache (holds (block_keys t Ws) (block_good sn t Ws)) sn t Ws [] c')"
      using table_iter_at [OF K T(2) _ T(1), of ?cache "holds (block_keys t Ws) (block_good sn t Ws)" ?c "length kvs + 2" roptions] T(3) by auto
    show ?thesis by (rule exI [of _ it], rule conjI [OF it(1)]) (use it(2) held_released [OF l] in blast)
  qed
  have "\<exists>c t c' it. ShardedLRUCache capacity = Ret c \<and>
      Open sn ?cache options (read f) (of_nat (length (rcontents f))) c = Ret (Status_OK, Some t, c') \<and>
      ta_NewIterator t c' = Ret it \<and>
      (\<forall>mvs obs. list_all (valid_move valid) mvs \<and> cursor_script compare kvs mvs (length kvs) = Some obs \<longrightarrow>
         iter_script (table_iter_ops (length kvs + 2) sn ?cache t roptions) mvs it = Ret obs \<and>
         (\<exists>it' c''. iter_after (table_iter_ops (length kvs + 2) sn ?cache t roptions) mvs it = Ret it' \<and>
            table_iter_destroy ?cache it' = Ret c'' \<and> all_released c''))"
    if "status_ok s" "readable f \<and> rcontents f = contents (tb_file r)" for f
  proof -
    from mp [OF B(2) that(1)] that(2) obtain t Ws idx where
      o: "Open sn ?cache options (read f) (of_nat (length (rcontents f))) c = Ret (Status_OK, Some t, ?c)"
      "table_compare t = compare" "opened valid compare sn t Ws idx" "entries_of Ws = kvs" "length Ws \<le> length kvs" by blast
    from G [OF o(2-5)] c o(1) show ?thesis by blast
  qed
  then show ?thesis using B(1) by blast
qed

lemma cached_table_roundtrip_witness:
  "\<exists>s r c t c' it it' c''. build_table port_snappy posix_ops example_options example_kvs example_file = Ret (s, r) \<and> status_ok s \<and>
     ShardedLRUCache 1000 = Ret c \<and>
     Open port_snappy (Some lru_block_cache) example_options (posix_ra_Read (reopened r)) (of_nat (length (posix_contents (tb_file r)))) c =
       Ret (Status_OK, Some t, c') \<and>
     ta_NewIterator t c' = Ret it \<and>
     iter_script (table_iter_ops 4 port_snappy (Some lru_block_cache) t ReadOptions) [To_First, To_Next, To_Key [1, 2], To_Prev] it =
       Ret [Some ([1], [2]), Some ([1, 3], [4]), Some ([1, 3], [4]), Some ([1], [2])] \<and>
     iter_after (table_iter_ops 4 port_snappy (Some lru_block_cache) t ReadOptions) [To_First, To_Next, To_Key [1, 2], To_Prev] it = Ret it' \<and>
     table_iter_destroy (Some lru_block_cache) it' = Ret c'' \<and> all_released c''"
proof -
  have "length example_kvs + 2 = 4" by (simp add: example_kvs_def)
  from cached_table_roundtrip [OF bytewise_table.table_building_axioms example_facts posix_ra.random_file_axioms,
      of 1000 ReadOptions, unfolded this]
    example_written obtain s r where sr: "build_table port_snappy posix_ops example_options example_kvs example_file = Ret (s, r)" "status_ok s"
      "length (posix_contents (tb_file r)) \<le> 1000" and all: "\<forall>f. (pa_readable f \<and> length (pa_data f) < 2 ^ 63) \<and> pa_data f = posix_contents (tb_file r) \<longrightarrow>
      (\<exists>c t c' it. ShardedLRUCache 1000 = Ret c \<and>
      Open port_snappy (Some lru_block_cache) example_options (posix_ra_Read f) (of_nat (length (pa_data f))) c = Ret (Status_OK, Some t, c') \<and>
      ta_NewIterator t c' = Ret it \<and>
      (\<forall>mvs obs. list_all (valid_move (\<lambda>_. True)) mvs \<and> cursor_script slice_compare example_kvs mvs (length example_kvs) = Some obs \<longrightarrow>
         iter_script (table_iter_ops 4 port_snappy (Some lru_block_cache) t ReadOptions) mvs it = Ret obs \<and>
         (\<exists>it' c''. iter_after (table_iter_ops 4 port_snappy (Some lru_block_cache) t ReadOptions) mvs it = Ret it' \<and>
            table_iter_destroy (Some lru_block_cache) it' = Ret c'' \<and> all_released c'')))" by auto
  let ?ops = "\<lambda>t. table_iter_ops 4 port_snappy (Some lru_block_cache) t ReadOptions" let ?mvs = "[To_First, To_Next, To_Key [1, 2], To_Prev]"
  have "(pa_readable (reopened r) \<and> length (pa_data (reopened r)) < 2 ^ 63) \<and> pa_data (reopened r) = posix_contents (tb_file r)"
    using sr(3) by simp
  from mp [OF spec [OF all] this] obtain c t c' it where t: "ShardedLRUCache 1000 = Ret c"
    "Open port_snappy (Some lru_block_cache) example_options (posix_ra_Read (reopened r)) (of_nat (length (pa_data (reopened r)))) c =
      Ret (Status_OK, Some t, c')" "ta_NewIterator t c' = Ret it"
    and script: "\<forall>mvs obs. list_all (valid_move (\<lambda>_. True)) mvs \<and> cursor_script slice_compare example_kvs mvs (length example_kvs) = Some obs \<longrightarrow>
         iter_script (?ops t) mvs it = Ret obs \<and>
         (\<exists>it' c''. iter_after (?ops t) mvs it = Ret it' \<and> table_iter_destroy (Some lru_block_cache) it' = Ret c'' \<and> all_released c'')"
    by (elim exE conjE)
  have "list_all (valid_move (\<lambda>_. True)) ?mvs \<and> cursor_script slice_compare example_kvs ?mvs (length example_kvs) =
       Some [Some ([1], [2]), Some ([1, 3], [4]), Some ([1, 3], [4]), Some ([1], [2])]" by code_simp
  from mp [OF spec [OF spec [OF script]] this] show ?thesis using sr(1,2) t by auto
qed

end
