(* ===== verification/Spec2Isabelle.thy ===== *)
theory Spec2Isabelle
  imports Pb_Required Pb_Fields Ldb_Memtable Ldb_Log_Reader Ldb_Block_Total Ldb_Filter_Block Ldb_Merge_Iter Ldb_Db_Iter_Spec Ldb_Table_Cached
begin

text \<open>
  The C and C++ code that the GroceryList app is built from, verified. The app itself is Swift; it keeps its data
  in Firebase, whose sources in this repository are two libraries under \<open>src/GroceryList/Pods/\<close>: nanopb, which
  encodes and decodes protocol buffers, and leveldb (in \<open>leveldb-library/\<close>), the key-value store of the local cache.
  This development models both as definitions that compute, and proves what they promise. The paths below are
  relative to these two directories.

  \<^bold>\<open>What is common.\<close>
  \<open>Prelude\<close> fixes the machine: the 64-bit little-endian iOS targets, where \<open>size_t\<close> and pointers have 64 bits and
  \<open>char\<close> is signed. Integers are words of their width, so every wrap-around of the code is one of the model. A
  function of C that may run into undefined behaviour, or loop, yields a \<open>run\<close>: \<open>Ret\<close> of its result, \<open>UB\<close> (a read or
  write outside an object, a failed assertion, a null call, an oversized shift), or \<open>Fuel_Out\<close>, when the bound on
  a loop was used up. \<open>returns r P\<close> is total correctness: \<open>r\<close> is \<open>Ret\<close> of something that satisfies \<open>P\<close>. So a theorem that says
  \<open>returns\<close> or \<open>= Ret ...\<close> says that the code comes back and stays defined. An error of the code itself is a value: a
  \<open>status\<close> in leveldb, \<open>None\<close> beside the stream's message in nanopb. \<open>Varint\<close> has the bit lemmas of base-128
  numbers, which both libraries use.

  \<^bold>\<open>nanopb.\<close> The user's structs are described by arrays of \<open>pb_field_t\<close>; the library walks such an array
  and the struct's memory side by side.
  \<^item> \<open>Pb\<close> (\<open>pb.h\<close>): types, descriptors, the environment \<open>pb_env\<close> with what the user supplies: the descriptors of
    submessages, callbacks and extension handlers. They are arguments of the model.
  \<^item> \<open>Pb_Common\<close> (\<open>pb_common.c\<close>): the iterator over fields. It is a function of its position, runs
    through all of them and wraps.
  \<^item> \<open>Pb_Istream\<close>, \<open>Pb_Decode\<close> (\<open>pb_decode.c\<close>): the input stream and the message decoder. The state is the stream
    and a byte-addressed memory.
  \<^item> \<open>Pb_Ostream\<close>, \<open>Pb_Encode\<close> (\<open>pb_encode.c\<close>): the output stream (a memory buffer, a counter without buffer, a callback) and
    the message encoder.
  \<^item> \<open>Pb_Decode_Safe\<close>: memory safety of decoding on any input. The descriptors must describe the
    struct (\<open>wf_table\<close>), as those of the generator do. The contract of a decoder of submessages is the
    locale \<open>submessage_decoder\<close>, interpreted on \<open>pb_decode_noinit\<close> at every depth.
  \<^item> \<open>Pb_Wire\<close>, \<open>Pb_Emit\<close>, \<open>Pb_Encode_Spec\<close>: the bytes of each value; \<open>encodes\<close> relates an encoder to the bytes it
    stands for on every kind of stream; \<open>pb_encode\<close> refines the one-pass encoding \<open>spec_message\<close>.
  \<^item> \<open>Pb_Roundtrip\<close>, \<open>Pb_Fields\<close>: what is encoded is decoded, for stream values and fields.
  \<^item> \<open>Pb_Required\<close>: the bit field of required fields, exact but for 32 or 64 of them. \<open>pb_decode_tags\<close> are the fields that
    a run of the decoder has found and decoded at its top level; a successful run has every required one among them.
  \<^item> \<open>Pb_Example\<close>: a small protocol on which the witnesses run.

  \<^bold>\<open>leveldb, base.\<close>
  \<^item> \<open>Ldb_Slice\<close> (\<open>include/leveldb/slice.h\<close>, \<open>status.h\<close>, \<open>util/comparator.cc\<close>): byte strings, \<open>status\<close>, and the
    contract of a comparator, the locales \<open>key_order\<close> and \<open>comparator\<close>, kept by the bytewise one.
  \<^item> \<open>Ldb_Coding\<close> (\<open>util/coding.cc\<close>), \<open>Ldb_Crc\<close> (\<open>util/crc32c.cc\<close>), \<open>Ldb_Random\<close> (\<open>util/random.h\<close>), \<open>Ldb_Bloom\<close>
    (\<open>util/hash.cc\<close>, \<open>util/bloom.cc\<close>): integers on disk, the checksum against its bitwise definition, the generator, the
    Bloom filter under the contract \<open>filter_policy\<close>.
  \<^item> \<open>Ldb_Dbformat\<close> (\<open>db/dbformat.cc\<close>): internal keys, a user key with a sequence number and a type; packing them has the
    assertions of the code. Their comparator keeps the contract if the user's does.
  \<^item> \<open>Ldb_File\<close>, \<open>Ldb_Format\<close> (\<open>util/env_posix.cc\<close>, \<open>table/format.cc\<close>): files that are appended to, read in order or at
    offsets, under the contracts \<open>writable_file\<close> and \<open>random_file\<close>; disks may fill and reads may fail. A file has
    fewer than \<open>2 ^ 32\<close> bytes where a table is built, so its offsets do not wrap.

  \<^bold>\<open>leveldb, writing.\<close> An update is put into a batch, the batch is a record of the log, then goes
  into the memtable; a full memtable becomes a table file.
  \<^item> \<open>Ldb_Batch\<close> (\<open>db/write_batch.cc\<close>): a batch is its byte string, and stands for a list of updates; their
    number is an \<open>int\<close>, whose overflow is undefined.
  \<^item> \<open>Ldb_Log\<close>, \<open>Ldb_Log_Reader\<close> (\<open>db/log_writer.cc\<close>, \<open>db/log_reader.cc\<close>): what any surviving prefix of a log yields.
  \<^item> \<open>Ldb_Skiplist\<close>, \<open>Ldb_Memtable\<close> (\<open>db/skiplist.h\<close>, \<open>db/memtable.cc\<close>): the skip list implements a sorted list;
    \<open>Get\<close> finds what a snapshot sees, and what a batch put there.
  \<^item> \<open>Ldb_Block\<close> (\<open>table/block_builder.cc\<close>, \<open>table/block.cc\<close>), with \<open>Ldb_Block_Iter\<close>, \<open>Ldb_Block_Build\<close> and
    \<open>Ldb_Block_Total\<close>: blocks of prefix-compressed keys; the builder's block is read back by the iterator,
    and the iterator's loops end on any bytes.
  \<^item> \<open>Ldb_Filter_Block\<close> (\<open>table/filter_block.cc\<close>): the filters of a table never deny a key.
  \<^item> \<open>Ldb_Table_Builder\<close> (\<open>table/table_builder.cc\<close>), with \<open>Ldb_Table_Built\<close> and \<open>Ldb_Table_Finish\<close>: a table is
    built into a file that may fail; the file is the \<open>table_image\<close> of its blocks. The locale \<open>table_building\<close>
    gathers what the builder needs of comparator and file.

  \<^bold>\<open>leveldb, reading.\<close> Every reader is an iterator: a state with the record of its virtual functions. The locale
  \<open>iterator_contract\<close> of \<open>Ldb_Iterator\<close> (\<open>include/leveldb/iterator.h\<close>, \<open>table/iterator_wrapper.h\<close>) says what
  one promises: it is a cursor in a sorted list. Iterators are composed, and each composition keeps the contract.
  \<^item> \<open>Ldb_Merger\<close>, \<open>Ldb_Merge_Iter\<close> (\<open>table/merger.cc\<close>): a cursor in the sorted union of its children.
  \<^item> \<open>Ldb_Two_Level\<close> (\<open>table/two_level_iterator.cc\<close>): a cursor in the concatenation of the blocks of an index,
    under the locale \<open>two_level\<close>. It destroys the iterator over a block when it takes the next one; the locale says
    which iterators are alive in the state that they share.
  \<^item> \<open>Ldb_Table\<close> (\<open>table/table.cc\<close>), with \<open>Ldb_Table_Read\<close> and \<open>Ldb_Table_Spec\<close>: opening a table, reading
    blocks through a block cache (an argument with a state of its own), its iterator and its lookup. The iterator over a
    cached block has the cleanup that releases its handle, and reads the block only while the cache has not freed it.
  \<^item> \<open>Ldb_Cache\<close> (\<open>util/cache.cc\<close>), with \<open>Ldb_Cache_Table\<close>, \<open>Ldb_Cache_Shard\<close> and \<open>Ldb_Cache_Spec\<close>: the LRU cache, whose
    hash table, heap of counted references and usage are shown to follow from a list of entries in the order of their last
    use; nothing leaks and nothing is freed twice. \<open>Ldb_Table_Cached\<close> reads a table through it: the handles held are just those
    of the blocks that are being read, and none is left in the end.
  \<^item> \<open>Ldb_Db_Iter\<close> (\<open>db/db_iter.cc\<close>), with \<open>Ldb_Db_Iter_View\<close> and \<open>Ldb_Db_Iter_Spec\<close>: a cursor in the list of the newest
    values that a snapshot sees, over any internal iterator (locale \<open>internal_iterator\<close>).

  \<^bold>\<open>Bounds and fuel.\<close> Structural recursion is used where the code counts down or walks a list. Other loops have
  fuel, and the theorems about them say \<open>Ret\<close>, so the fuel given is enough:
  \<^item> \<open>pb_decode\<close> has fuel for the nesting of messages and extensions, since descriptors may be recursive and the code has no
    limit of its own. A level of decoding takes a byte of the input, so two more than the bytes that are left
    suffice; \<open>dep\<close> of \<open>wf_table\<close> is how deep messages without input are reached, to set their defaults. \<open>pb_encode\<close> is given the
    fuel with which \<open>spec_message\<close> has a result.
  \<^item> The searches of the skip list have \<open>search_fuel\<close>, the number of nodes and levels: each turn goes to a later node or down a
    level.
  \<^item> The iterator of a block has \<open>bi_fuel\<close>, from the size of the block: each turn parses an entry further on. It is enough
    on corrupted blocks too (\<open>Ldb_Block_Total\<close>).
  \<^item> The hash table of the cache doubles its length at most 29 times, and has 33 turns for it; the eviction loop has a turn for each entry.
  \<^item> The loops of the two-level iterator and the database iterator have their fuel as an argument: two turns more than
    there are blocks, or one more than there are entries, are enough.

  \<^bold>\<open>What is not modelled.\<close>
  \<^item> nanopb's dynamic allocation: \<open>PB_ENABLE_MALLOC\<close> is not set in this build.
  \<^item> Of leveldb: the database object with its locks, background thread and recovery (\<open>db/db_impl.cc\<close>, \<open>db/repair.cc\<close>,
    \<open>db/builder.cc\<close>), versions and compaction choice (\<open>db/version_set.cc\<close>, \<open>db/version_edit.cc\<close>), the cache of open tables
    (\<open>db/table_cache.cc\<close>), the arena, the bindings (\<open>db/c.cc\<close>), the rest of the environment, tools, tests and benchmarks.
    Concurrent readers of the skip list are not modelled: operations run one after another. Snappy is not
    compiled in; the compressor is a function that fails, with the contract \<open>compressor\<close>.
  \<^item> GTMSessionFetcher and GoogleToolboxForMac (Objective-C networking glue), the headers of the binary Firebase
    frameworks, and the Swift app.
  The order of the properties in the manifest is the order of the components above.
\<close>

end
